(* ===== verification/Prelude.thy ===== *)
theory Prelude
  imports Main "HOL-Library.AList" "HOL-Library.Char_ord" "HOL-Library.List_Lexorder" "HOL-Library.Word" "HOL-Library.Multiset"
begin

text \<open>
  What every component of the development shares: the names of the identifier types, the
  model of Go's \<^verbatim>\<open>time.Time\<close> and \<^verbatim>\<open>time.Duration\<close>, the model of Go's maps, the
  lemma collections, and the generic facts on lists and maps the component proofs use.

  A Go map is an association list with distinct keys. Its order is one of the orders in
  which a \<^verbatim>\<open>range\<close> loop may visit the map: Go leaves the order open, so a lemma that holds
  for every association list holds for every iteration order. Reading is \<open>gm_get\<close>, the
  assignment \<^verbatim>\<open>m[k] = v\<close> is \<open>gm_put\<close>, \<^verbatim>\<open>delete(m, k)\<close> is \<open>gm_del\<close>. A Go string is its
  byte sequence, so \<^verbatim>\<open>len\<close> is \<open>length\<close> and \<^verbatim>\<open>sort.Strings\<close> is \<open>sort\<close> over the
  lexicographic order of the byte values.
\<close>

section \<open>Lemma collections\<close>

named_theorems gomap_simps \<open>rewriting of reads after writes on Go maps\<close>
named_theorems pool_simps \<open>rewriting of pool operations\<close>
named_theorems rec_simps \<open>rewriting of run record updates\<close>

section \<open>Identifiers and machine integers\<close>

type_synonym pipeline_id = string
type_synonym resource_id = string
type_synonym run_id = string
type_synonym step_id = string
type_synonym bytes = string
type_synonym u64 = "64 word"
type_synonym u32 = "32 word"

section \<open>Time\<close>

text \<open>
  \<^verbatim>\<open>time.Time\<close> is the number of nanoseconds since Go's zero time (year 1), so the zero
  value is 0. \<^verbatim>\<open>time.Duration\<close> is a signed 64-bit number of nanoseconds; \<^verbatim>\<open>Time.Sub\<close>
  saturates at its bounds.
\<close>

type_synonym gotime = int
type_synonym duration = int

abbreviation zero_time :: gotime where
  "zero_time \<equiv> 0"

abbreviation is_zero :: "gotime \<Rightarrow> bool" where
  "is_zero t \<equiv> t = zero_time"

definition max_duration :: duration where
  "max_duration = 2 ^ 63 - 1"

definition min_duration :: duration where
  "min_duration = - (2 ^ 63)"

definition time_sub :: "gotime \<Rightarrow> gotime \<Rightarrow> duration" where
  "time_sub t u = max min_duration (min max_duration (t - u))"

definition second :: duration where
  "second = 1000000000"

lemma time_sub_pos [simp]: "0 < time_sub t u \<longleftrightarrow> u < t"
  by (auto simp: time_sub_def max_duration_def min_duration_def)

lemma time_sub_le_0 [simp]: "time_sub t u \<le> 0 \<longleftrightarrow> t \<le> u"
  by (auto simp: time_sub_def max_duration_def min_duration_def)

section \<open>Go maps\<close>

type_synonym ('k, 'v) gomap = "('k \<times> 'v) list"

abbreviation gm_get :: "('k, 'v) gomap \<Rightarrow> 'k \<Rightarrow> 'v option" where
  "gm_get m k \<equiv> map_of m k"

abbreviation gm_has :: "('k, 'v) gomap \<Rightarrow> 'k \<Rightarrow> bool" where
  "gm_has m k \<equiv> map_of m k \<noteq> None"

abbreviation gm_put :: "'k \<Rightarrow> 'v \<Rightarrow> ('k, 'v) gomap \<Rightarrow> ('k, 'v) gomap" where
  "gm_put k v m \<equiv> AList.update k v m"

abbreviation gm_del :: "'k \<Rightarrow> ('k, 'v) gomap \<Rightarrow> ('k, 'v) gomap" where
  "gm_del k m \<equiv> AList.delete k m"

abbreviation gm_keys :: "('k, 'v) gomap \<Rightarrow> 'k list" where
  "gm_keys m \<equiv> map fst m"

definition gm_ok :: "('k, 'v) gomap \<Rightarrow> bool" where
  "gm_ok m \<longleftrightarrow> distinct (gm_keys m)"

lemma gm_get_put [simp, gomap_simps]: "gm_get (gm_put k v m) k' = (if k' = k then Some v else gm_get m k')"
  by (simp add: update_conv)

lemma gm_get_del [simp, gomap_simps]: "gm_get (gm_del k m) k' = (if k' = k then None else gm_get m k')"
  by (simp add: delete_conv)

lemma gm_ok_Nil [simp, intro]: "gm_ok []"
  by (simp add: gm_ok_def)

lemma gm_ok_put [simp, intro]: "gm_ok m \<Longrightarrow> gm_ok (gm_put k v m)"
  by (simp add: gm_ok_def distinct_update)

lemma gm_ok_del [simp, intro]: "gm_ok m \<Longrightarrow> gm_ok (gm_del k m)"
  by (simp add: gm_ok_def distinct_delete)

lemma gm_ok_filter [simp, intro]: "gm_ok m \<Longrightarrow> gm_ok (filter P m)"
  by (simp add: gm_ok_def distinct_map_filter)

lemma gm_get_mem: "gm_ok m \<Longrightarrow> gm_get m k = Some v \<longleftrightarrow> (k, v) \<in> set m"
  by (simp add: gm_ok_def map_of_eq_Some_iff)

lemma gm_get_perm:
  assumes "gm_ok m" and "mset m = mset m'"
  shows "gm_get m' = gm_get m"
proof -
  have "set m = set m'" using assms(2) by (rule mset_eq_setD)
  moreover have "gm_ok m'"
    using assms by (metis gm_ok_def mset_eq_imp_distinct_iff mset_map)
  ultimately show ?thesis
    using assms(1) by (simp add: gm_ok_def map_of_inject_set)
qed

lemma gm_ok_perm: "gm_ok m \<Longrightarrow> mset m = mset m' \<Longrightarrow> gm_ok m'"
  by (metis gm_ok_def mset_eq_imp_distinct_iff mset_map)

end
