(* ===== verification/Ledger.thy ===== *)
theory Ledger
  imports Prelude
begin

text \<open>
  Reconciliation of persisted execution facts against the current topology
  (\<^verbatim>\<open>src/internal/ledger/ledger.go\<close>). Facts are Go maps, scanned by \<^verbatim>\<open>range\<close> loops in an order
  the language leaves open; the model scans the association list. The empty string is the
  source's "none seen" marker and is kept as such.

  The lemmas give: the decision does not depend on the iteration order of the maps; the two
  "unreachable" reasons are unreachable; which step a decision selects; and what repeated
  reconciliation executes, forward and backward.
\<close>

section \<open>Data\<close>

datatype ledger_op = LOpNone | LOpUnresolved | LOpSucceeded | LOpFailed

record lstep =
  ls_id :: string
  ls_unwind :: bool
  ls_retired :: bool

type_synonym topology = "lstep list"

record facts =
  fa_forward :: "(string, ledger_op) gomap"
  fa_unwind :: "(string, ledger_op) gomap"

datatype kind = KindRunForward | KindForwardComplete | KindRunUnwind | KindUnwindComplete | KindInvalid

record decision =
  d_kind :: kind
  d_step :: string
  d_reason :: string

section \<open>Operations\<close>

fun topo_index_go :: "nat \<Rightarrow> string \<Rightarrow> topology \<Rightarrow> nat option" where
  "topo_index_go i k [] = None"
| "topo_index_go i k (s # ss) = (if ls_id s = k then Some i else topo_index_go (Suc i) k ss)"

definition topo_index :: "topology \<Rightarrow> string \<Rightarrow> nat option" where
  "topo_index topo k = topo_index_go 0 k topo"

definition fact_at :: "(string, ledger_op) gomap \<Rightarrow> string \<Rightarrow> ledger_op" where
  "fact_at m k = (case gm_get m k of None \<Rightarrow> LOpNone | Some st \<Rightarrow> st)"

definition mk_decision :: "kind \<Rightarrow> string \<Rightarrow> decision" where
  "mk_decision k s = \<lparr>d_kind = k, d_step = s, d_reason = []\<rparr>"

definition invalid :: "string \<Rightarrow> decision" where
  "invalid reason = \<lparr>d_kind = KindInvalid, d_step = [], d_reason = reason\<rparr>"

definition sorted_ids :: "(string, ledger_op) gomap \<Rightarrow> string list" where
  "sorted_ids m = sort (gm_keys m)"

fun forward_violation_go :: "(string, ledger_op) gomap \<Rightarrow> string list \<Rightarrow> string \<Rightarrow> decision" where
  "forward_violation_go m [] unresolved =
     invalid ''unreachable: forward violation vanished on re-derivation''"
| "forward_violation_go m (k # ks) unresolved =
     (case fact_at m k of
        LOpUnresolved \<Rightarrow>
          (if unresolved \<noteq> []
           then invalid (''multiple unresolved forward operations: '' @ unresolved @ '', '' @ k)
           else forward_violation_go m ks k)
      | LOpFailed \<Rightarrow>
          invalid (''forward facts contain a permanent failure for step '' @ k @
                   '' but the run is in the forward phase'')
      | _ \<Rightarrow> forward_violation_go m ks unresolved)"

definition forward_violation :: "facts \<Rightarrow> decision" where
  "forward_violation f = forward_violation_go (fa_forward f) (sorted_ids (fa_forward f)) []"

fun unwind_violation_go :: "(string, ledger_op) gomap \<Rightarrow> string list \<Rightarrow> string \<Rightarrow> decision" where
  "unwind_violation_go m [] seen =
     invalid ''unreachable: unwind violation vanished on re-derivation''"
| "unwind_violation_go m (k # ks) seen =
     (if fact_at m k = LOpUnresolved
      then (if seen \<noteq> []
            then invalid (''multiple unresolved unwind operations: '' @ seen @ '', '' @ k)
            else unwind_violation_go m ks k)
      else unwind_violation_go m ks seen)"

definition unwind_violation :: "facts \<Rightarrow> decision" where
  "unwind_violation f = unwind_violation_go (fa_unwind f) (sorted_ids (fa_unwind f)) []"

text \<open>
  The first loop of \<^verbatim>\<open>NextForward\<close>: \<open>None\<close> is the early return into \<^verbatim>\<open>forwardViolation\<close>,
  \<open>Some u\<close> the value of \<^verbatim>\<open>unresolved\<close> after the loop.
\<close>

fun forward_scan :: "(string, ledger_op) gomap \<Rightarrow> string \<Rightarrow> string option" where
  "forward_scan [] unresolved = Some unresolved"
| "forward_scan ((k, st) # m) unresolved =
     (case st of
        LOpUnresolved \<Rightarrow> (if unresolved \<noteq> [] then None else forward_scan m k)
      | LOpFailed \<Rightarrow> None
      | _ \<Rightarrow> forward_scan m unresolved)"

fun forward_frontier :: "(string, ledger_op) gomap \<Rightarrow> int \<Rightarrow> topology \<Rightarrow> int \<Rightarrow> int" where
  "forward_frontier m i [] frontier = frontier"
| "forward_frontier m i (s # ss) frontier =
     forward_frontier m (i + 1) ss
       (if fact_at m (ls_id s) = LOpSucceeded \<and> frontier < i then i else frontier)"

fun forward_find :: "(string, ledger_op) gomap \<Rightarrow> topology \<Rightarrow> decision" where
  "forward_find m [] = mk_decision KindForwardComplete []"
| "forward_find m (s # ss) =
     (if ls_retired s then forward_find m ss
      else if fact_at m (ls_id s) \<noteq> LOpNone
           then invalid (''inconsistent forward facts for step '' @ ls_id s)
      else mk_decision KindRunForward (ls_id s))"

definition NextForward :: "topology \<Rightarrow> facts \<Rightarrow> decision" where
  "NextForward topo f =
     (case forward_scan (fa_forward f) [] of
        None \<Rightarrow> forward_violation f
      | Some unresolved \<Rightarrow>
          if unresolved \<noteq> [] then
            (case topo_index topo unresolved of
               None \<Rightarrow> invalid (''unresolved forward step '' @ unresolved @
                                '' is not present in the current pipeline definition'')
             | Some _ \<Rightarrow> mk_decision KindRunForward unresolved)
          else forward_find (fa_forward f)
                 (drop (nat (forward_frontier (fa_forward f) 0 topo (-1) + 1)) topo))"

fun unwind_scan :: "(string, ledger_op) gomap \<Rightarrow> string \<Rightarrow> string option" where
  "unwind_scan [] seen = Some seen"
| "unwind_scan ((k, st) # m) seen =
     (if st = LOpUnresolved then (if seen \<noteq> [] then None else unwind_scan m k)
      else unwind_scan m seen)"

fun unwind_frontier :: "(string, ledger_op) gomap \<Rightarrow> nat \<Rightarrow> topology \<Rightarrow> nat \<Rightarrow> nat" where
  "unwind_frontier m i [] frontier = frontier"
| "unwind_frontier m i (s # ss) frontier =
     unwind_frontier m (Suc i) ss
       (if fact_at m (ls_id s) = LOpSucceeded \<or> fact_at m (ls_id s) = LOpFailed
        then (if i < frontier then i else frontier) else frontier)"

text \<open>The downward loop of \<^verbatim>\<open>NextUnwind\<close>, over the traversed steps in reverse order.\<close>

fun unwind_find :: "facts \<Rightarrow> topology \<Rightarrow> decision" where
  "unwind_find f [] = mk_decision KindUnwindComplete []"
| "unwind_find f (s # ss) =
     (if \<not> ls_unwind s then unwind_find f ss
      else if fact_at (fa_forward f) (ls_id s) \<noteq> LOpSucceeded then unwind_find f ss
      else (case fact_at (fa_unwind f) (ls_id s) of
              LOpNone \<Rightarrow> mk_decision KindRunUnwind (ls_id s)
            | LOpUnresolved \<Rightarrow> mk_decision KindRunUnwind (ls_id s)
            | _ \<Rightarrow> unwind_find f ss))"

definition NextUnwind :: "topology \<Rightarrow> facts \<Rightarrow> decision" where
  "NextUnwind topo f =
     (case unwind_scan (fa_unwind f) [] of
        None \<Rightarrow> unwind_violation f
      | Some _ \<Rightarrow>
          unwind_find f (rev (take (unwind_frontier (fa_unwind f) 0 topo (length topo)) topo)))"

section \<open>The violation scans\<close>

abbreviation unresolved_of :: "(string, ledger_op) gomap \<Rightarrow> string list" where
  "unresolved_of m \<equiv> map fst (filter (\<lambda>p. snd p = LOpUnresolved) m)"

abbreviation any_failed :: "(string, ledger_op) gomap \<Rightarrow> bool" where
  "any_failed m \<equiv> LOpFailed \<in> snd ` set m"

abbreviation named :: "(string, 'a) gomap \<Rightarrow> bool" where
  "named m \<equiv> [] \<notin> fst ` set m"

lemma forward_scan_eq:
  "named m \<Longrightarrow> forward_scan m u =
     (if any_failed m \<or> (unresolved_of m \<noteq> [] \<and> (u \<noteq> [] \<or> tl (unresolved_of m) \<noteq> [])) then None
      else Some (if unresolved_of m = [] then u else hd (unresolved_of m)))"
  by (induction m u rule: forward_scan.induct) (auto split: ledger_op.splits)

lemma unwind_scan_eq:
  "named m \<Longrightarrow> unwind_scan m u =
     (if unresolved_of m \<noteq> [] \<and> (u \<noteq> [] \<or> tl (unresolved_of m) \<noteq> []) then None
      else Some (if unresolved_of m = [] then u else hd (unresolved_of m)))"
  by (induction m u rule: unwind_scan.induct) auto

lemma unresolved_of_perm:
  assumes "mset m = mset m'"
  shows "mset (unresolved_of m) = mset (unresolved_of m')" and "any_failed m = any_failed m'"
    and "named m = named m'"
  using assms mset_eq_setD [OF assms] by (simp_all add: mset_map [symmetric] del: mset_map)
    (simp add: mset_map)

lemma short_perm:
  assumes "mset xs = mset ys"
  shows "(xs = []) = (ys = [])" and "(tl xs = []) = (tl ys = [])"
    and "tl xs = [] \<Longrightarrow> xs \<noteq> [] \<Longrightarrow> hd xs = hd ys"
proof -
  have len: "length xs = length ys" using assms by (rule mset_eq_length)
  then show "(xs = []) = (ys = [])" by auto
  show "(tl xs = []) = (tl ys = [])" using len by (cases xs; cases ys) auto
  show "hd xs = hd ys" if "tl xs = []" "xs \<noteq> []"
    using assms that len by (cases xs; cases ys) auto
qed

lemma forward_scan_perm:
  "named m \<Longrightarrow> mset m = mset m' \<Longrightarrow> forward_scan m [] = forward_scan m' []"
  using unresolved_of_perm [of m m'] short_perm [of "unresolved_of m" "unresolved_of m'"]
  by (simp add: forward_scan_eq)

lemma unwind_scan_perm:
  "named m \<Longrightarrow> mset m = mset m' \<Longrightarrow> unwind_scan m [] = unwind_scan m' []"
  using unresolved_of_perm [of m m'] short_perm [of "unresolved_of m" "unresolved_of m'"]
  by (simp add: unwind_scan_eq)

lemma fact_at_perm: "gm_ok m \<Longrightarrow> mset m = mset m' \<Longrightarrow> fact_at m = fact_at m'"
  by (rule ext) (simp add: fact_at_def gm_get_perm [of m m'])

lemma sorted_ids_perm:
  assumes "mset m = mset m'"
  shows "sorted_ids m = sorted_ids m'"
proof -
  have "mset (sort (gm_keys m')) = mset (gm_keys m)"
    using assms by simp
  then show ?thesis
    unfolding sorted_ids_def by (rule properties_for_sort) (rule sorted_sort)
qed

lemma forward_violation_go_cong:
  "fact_at m = fact_at m' \<Longrightarrow> forward_violation_go m ks u = forward_violation_go m' ks u"
  by (induction ks arbitrary: u) (auto split: ledger_op.split)

lemma unwind_violation_go_cong:
  "fact_at m = fact_at m' \<Longrightarrow> unwind_violation_go m ks u = unwind_violation_go m' ks u"
  by (induction ks arbitrary: u) auto

lemma forward_frontier_cong:
  "fact_at m = fact_at m' \<Longrightarrow> forward_frontier m i ss fr = forward_frontier m' i ss fr"
  by (induction ss arbitrary: i fr) auto

lemma unwind_frontier_cong:
  "fact_at m = fact_at m' \<Longrightarrow> unwind_frontier m i ss fr = unwind_frontier m' i ss fr"
  by (induction ss arbitrary: i fr) auto

lemma forward_find_cong: "fact_at m = fact_at m' \<Longrightarrow> forward_find m ss = forward_find m' ss"
  by (induction ss) auto

lemma unwind_find_cong:
  "fact_at (fa_forward f) = fact_at (fa_forward f') \<Longrightarrow>
   fact_at (fa_unwind f) = fact_at (fa_unwind f') \<Longrightarrow> unwind_find f ss = unwind_find f' ss"
  by (induction ss) (auto split: ledger_op.split)

section \<open>Reference definitions\<close>

text \<open>
  The decisions without indices: the steps after the last one that succeeded, and the steps
  before the first one whose unwind resolved.
\<close>

definition suffix_after :: "('a \<Rightarrow> bool) \<Rightarrow> 'a list \<Rightarrow> 'a list" where
  "suffix_after P xs = rev (takeWhile (\<lambda>x. \<not> P x) (rev xs))"

definition succeeded :: "(string, ledger_op) gomap \<Rightarrow> lstep \<Rightarrow> bool" where
  "succeeded m s \<longleftrightarrow> fact_at m (ls_id s) = LOpSucceeded"

definition resolved :: "(string, ledger_op) gomap \<Rightarrow> lstep \<Rightarrow> bool" where
  "resolved m s \<longleftrightarrow> fact_at m (ls_id s) = LOpSucceeded \<or> fact_at m (ls_id s) = LOpFailed"

definition forward_remaining :: "topology \<Rightarrow> facts \<Rightarrow> string list" where
  "forward_remaining topo f =
     map ls_id (filter (\<lambda>s. \<not> ls_retired s) (suffix_after (succeeded (fa_forward f)) topo))"

definition unwind_remaining :: "topology \<Rightarrow> facts \<Rightarrow> string list" where
  "unwind_remaining topo f =
     map ls_id (rev (filter (\<lambda>s. ls_unwind s \<and> succeeded (fa_forward f) s)
       (takeWhile (\<lambda>s. \<not> resolved (fa_unwind f) s) topo)))"

definition clean_forward :: "facts \<Rightarrow> bool" where
  "clean_forward f \<longleftrightarrow> gm_ok (fa_forward f) \<and> named (fa_forward f) \<and>
     snd ` set (fa_forward f) \<subseteq> {LOpNone, LOpSucceeded}"

definition clean_unwind :: "facts \<Rightarrow> bool" where
  "clean_unwind f \<longleftrightarrow> gm_ok (fa_unwind f) \<and> named (fa_unwind f) \<and>
     length (unresolved_of (fa_unwind f)) \<le> 1"

section \<open>Frontiers\<close>

lemma suffix_after_split:
  "P x \<Longrightarrow> (\<forall>y \<in> set ys. \<not> P y) \<Longrightarrow> suffix_after P (xs @ x # ys) = ys"
  unfolding suffix_after_def by (simp, subst takeWhile_append2) auto

lemma suffix_after_none:
  assumes "\<forall>y \<in> set ys. \<not> P y"
  shows "suffix_after P ys = ys"
proof -
  have all: "takeWhile (\<lambda>x. \<not> P x) (rev ys) = rev ys" using assms by simp
  show ?thesis unfolding suffix_after_def all by simp
qed

lemma suffix_after_snoc: "suffix_after P (xs @ [x]) = (if P x then [] else suffix_after P xs @ [x])"
  unfolding suffix_after_def by simp

lemma suffix_after_set: "x \<in> set (suffix_after P xs) \<Longrightarrow> x \<in> set xs \<and> \<not> P x"
  unfolding suffix_after_def using set_takeWhileD [of x "\<lambda>x. \<not> P x" "rev xs"] by auto

lemma suffix_after_decomp: "\<exists>pre. xs = pre @ suffix_after P xs"
  unfolding suffix_after_def by (metis rev_append rev_rev_ident takeWhile_dropWhile_id)

lemma forward_frontier_snoc:
  "forward_frontier m i (ss @ [s]) fr =
     (let fr' = forward_frontier m i ss fr
      in if succeeded m s \<and> fr' < i + int (length ss) then i + int (length ss) else fr')"
  by (induction ss arbitrary: i fr) (auto simp: Let_def succeeded_def ac_simps)

lemma forward_frontier_bounds:
  "fr < i \<Longrightarrow> forward_frontier m i ss fr < i + int (length ss) \<and> fr \<le> forward_frontier m i ss fr"
proof (induction ss arbitrary: i fr)
  case (Cons s ss)
  have "(if fact_at m (ls_id s) = LOpSucceeded \<and> fr < i then i else fr) < i + 1"
    using Cons.prems by simp
  from Cons.IH [OF this] Cons.prems show ?case by (auto split: if_splits)
qed simp

lemma forward_frontier_suffix:
  "drop (nat (forward_frontier m 0 topo (-1) + 1)) topo = suffix_after (succeeded m) topo"
proof (induction topo rule: rev_induct)
  case (snoc s ss)
  let ?fr = "forward_frontier m 0 ss (-1)"
  have b: "?fr < int (length ss)" "-1 \<le> ?fr"
    using forward_frontier_bounds [of "-1" 0 m ss] by auto
  then have n: "nat (?fr + 1) \<le> length ss" by simp
  show ?case
    using snoc b n by (simp add: forward_frontier_snoc suffix_after_snoc Let_def nat_add_distrib)
qed (simp add: suffix_after_def)

lemma unwind_frontier_done: "fr \<le> i \<Longrightarrow> unwind_frontier m i ss fr = fr"
  by (induction ss arbitrary: i) auto

lemma unwind_frontier_eq:
  "i + length ss \<le> fr \<Longrightarrow> unwind_frontier m i ss fr =
     (if \<exists>s \<in> set ss. resolved m s then i + length (takeWhile (\<lambda>s. \<not> resolved m s) ss) else fr)"
proof (induction ss arbitrary: i)
  case (Cons s ss)
  show ?case
  proof (cases "resolved m s")
    case True
    then have "unwind_frontier m i (s # ss) fr = unwind_frontier m (Suc i) ss i"
      using Cons.prems by (auto simp: resolved_def)
    then show ?thesis using True by (simp add: unwind_frontier_done)
  next
    case False
    then have "unwind_frontier m i (s # ss) fr = unwind_frontier m (Suc i) ss fr"
      by (auto simp: resolved_def)
    then show ?thesis using Cons.IH [of "Suc i"] Cons.prems False by auto
  qed
qed simp

lemma unwind_frontier_prefix:
  "take (unwind_frontier m 0 topo (length topo)) topo = takeWhile (\<lambda>s. \<not> resolved m s) topo"
proof (cases "\<exists>s \<in> set topo. resolved m s")
  case True
  then show ?thesis by (simp add: unwind_frontier_eq takeWhile_eq_take [symmetric])
next
  case False
  then have all: "takeWhile (\<lambda>s. \<not> resolved m s) topo = topo" by auto
  have "unwind_frontier m 0 topo (length topo) = length topo"
    using False by (subst unwind_frontier_eq) auto
  then show ?thesis unfolding all by simp
qed

lemma topo_index_go_None: "topo_index_go i k ss = None \<longleftrightarrow> k \<notin> ls_id ` set ss"
  by (induction ss arbitrary: i) auto

lemma topo_index_None [simp]: "topo_index topo k = None \<longleftrightarrow> k \<notin> ls_id ` set topo"
  by (simp add: topo_index_def topo_index_go_None)

lemma topo_index_Some: "topo_index topo k = Some i \<Longrightarrow> k \<in> ls_id ` set topo"
  using topo_index_None [of topo k] by auto

lemma forward_find_eq:
  "(\<forall>s \<in> set ss. fact_at m (ls_id s) = LOpNone) \<Longrightarrow> forward_find m ss =
     (case map ls_id (filter (\<lambda>s. \<not> ls_retired s) ss) of
        [] \<Rightarrow> mk_decision KindForwardComplete [] | k # _ \<Rightarrow> mk_decision KindRunForward k)"
  by (induction ss) auto

lemma unwind_find_eq:
  "(\<forall>s \<in> set ss. \<not> resolved (fa_unwind f) s) \<Longrightarrow> unwind_find f ss =
     (case map ls_id (filter (\<lambda>s. ls_unwind s \<and> succeeded (fa_forward f) s) ss) of
        [] \<Rightarrow> mk_decision KindUnwindComplete [] | k # _ \<Rightarrow> mk_decision KindRunUnwind k)"
  by (induction ss) (auto simp: resolved_def succeeded_def split: ledger_op.split)

lemma clean_forward_fact:
  "clean_forward f \<Longrightarrow> fact_at (fa_forward f) k = LOpNone \<or> fact_at (fa_forward f) k = LOpSucceeded"
  unfolding clean_forward_def fact_at_def
  by (cases "gm_get (fa_forward f) k") (auto dest!: map_of_SomeD simp: image_subset_iff)

lemma clean_forward_scan: "clean_forward f \<Longrightarrow> forward_scan (fa_forward f) [] = Some []"
  by (subst forward_scan_eq) (auto simp: clean_forward_def filter_empty_conv)

lemma clean_unwind_scan: "clean_unwind f \<Longrightarrow> \<exists>u. unwind_scan (fa_unwind f) [] = Some u"
  by (cases "unresolved_of (fa_unwind f)"; subst unwind_scan_eq) (auto simp: clean_unwind_def)

lemma NextForward_clean:
  assumes "clean_forward f"
  shows "NextForward topo f =
     (case forward_remaining topo f of
        [] \<Rightarrow> mk_decision KindForwardComplete [] | k # _ \<Rightarrow> mk_decision KindRunForward k)"
proof -
  have "\<forall>s \<in> set (suffix_after (succeeded (fa_forward f)) topo). fact_at (fa_forward f) (ls_id s) = LOpNone"
    using clean_forward_fact [OF assms] suffix_after_set [of _ "succeeded (fa_forward f)" topo]
    by (auto simp: succeeded_def)
  then show ?thesis
    using clean_forward_scan [OF assms]
    by (simp add: NextForward_def forward_frontier_suffix forward_find_eq forward_remaining_def)
qed

lemma NextUnwind_clean:
  assumes "clean_unwind f"
  shows "NextUnwind topo f =
     (case unwind_remaining topo f of
        [] \<Rightarrow> mk_decision KindUnwindComplete [] | k # _ \<Rightarrow> mk_decision KindRunUnwind k)"
proof -
  have "\<forall>s \<in> set (rev (takeWhile (\<lambda>s. \<not> resolved (fa_unwind f) s) topo)). \<not> resolved (fa_unwind f) s"
    using set_takeWhileD [of _ "\<lambda>s. \<not> resolved (fa_unwind f) s" topo] by auto
  then show ?thesis
    using clean_unwind_scan [OF assms]
    by (auto simp: NextUnwind_def unwind_frontier_prefix unwind_find_eq unwind_remaining_def rev_filter)
qed

section \<open>Repeated reconciliation\<close>

text \<open>
  What a run executes when every forward operation succeeds, and what its unwind executes when
  each unwind operation resolves, successfully or permanently failed: reconcile, resolve the
  selected operation, reconcile again.
\<close>

fun forward_exec :: "nat \<Rightarrow> topology \<Rightarrow> facts \<Rightarrow> string list \<times> decision" where
  "forward_exec 0 topo f = ([], NextForward topo f)"
| "forward_exec (Suc n) topo f =
     (let d = NextForward topo f in
      if d_kind d = KindRunForward
      then (let (ks, d') = forward_exec n topo
              (f\<lparr>fa_forward := gm_put (d_step d) LOpSucceeded (fa_forward f)\<rparr>)
            in (d_step d # ks, d'))
      else ([], d))"

fun unwind_exec :: "(string \<Rightarrow> bool) \<Rightarrow> nat \<Rightarrow> topology \<Rightarrow> facts \<Rightarrow> string list \<times> decision" where
  "unwind_exec ok 0 topo f = ([], NextUnwind topo f)"
| "unwind_exec ok (Suc n) topo f =
     (let d = NextUnwind topo f in
      if d_kind d = KindRunUnwind
      then (let (ks, d') = unwind_exec ok n topo
              (f\<lparr>fa_unwind := gm_put (d_step d)
                   (if ok (d_step d) then LOpSucceeded else LOpFailed) (fa_unwind f)\<rparr>)
            in (d_step d # ks, d'))
      else ([], d))"

lemma fact_at_put [simp]: "fact_at (gm_put k v m) k' = (if k' = k then v else fact_at m k')"
  by (simp add: fact_at_def)

lemma set_gm_put: "set (gm_put k v m) \<subseteq> insert (k, v) (set m)"
  by (induction m) auto

lemma clean_forward_put:
  "clean_forward f \<Longrightarrow> k \<noteq> [] \<Longrightarrow>
   clean_forward (f\<lparr>fa_forward := gm_put k LOpSucceeded (fa_forward f)\<rparr>)"
  using set_gm_put [of k LOpSucceeded "fa_forward f"]
  by (fastforce simp: clean_forward_def image_subset_iff)

lemma unresolved_of_put:
  "v \<noteq> LOpUnresolved \<Longrightarrow> length (unresolved_of (gm_put k v m)) \<le> length (unresolved_of m)"
  by (induction m) auto

lemma clean_unwind_put:
  "clean_unwind f \<Longrightarrow> k \<noteq> [] \<Longrightarrow> v \<noteq> LOpUnresolved \<Longrightarrow>
   clean_unwind (f\<lparr>fa_unwind := gm_put k v (fa_unwind f)\<rparr>)"
  using set_gm_put [of k v "fa_unwind f"] unresolved_of_put [of v k "fa_unwind f"]
  by (auto simp: clean_unwind_def)

lemma filter_Cons_split:
  "filter P xs = y # ys \<Longrightarrow> \<exists>us vs. xs = us @ y # vs \<and> (\<forall>u \<in> set us. \<not> P u) \<and> P y \<and> ys = filter P vs"
  by (metis filter_eq_Cons_iff)

lemma forward_remaining_step:
  assumes "forward_remaining topo f = k # ks" and "distinct (map ls_id topo)"
  shows "forward_remaining topo (f\<lparr>fa_forward := gm_put k LOpSucceeded (fa_forward f)\<rparr>) = ks"
proof -
  let ?P = "succeeded (fa_forward f)" and ?Q = "succeeded (gm_put k LOpSucceeded (fa_forward f))"
  obtain s where f: "filter (\<lambda>s. \<not> ls_retired s) (suffix_after ?P topo) = s # tl (filter (\<lambda>s. \<not> ls_retired s) (suffix_after ?P topo))"
    and k: "k = ls_id s" and ks: "ks = map ls_id (tl (filter (\<lambda>s. \<not> ls_retired s) (suffix_after ?P topo)))"
    using assms(1) unfolding forward_remaining_def by auto
  obtain us vs where sa: "suffix_after ?P topo = us @ s # vs"
    and tl: "tl (filter (\<lambda>s. \<not> ls_retired s) (suffix_after ?P topo)) = filter (\<lambda>s. \<not> ls_retired s) vs"
    using filter_Cons_split [OF f] by auto
  obtain pre where topo: "topo = pre @ us @ s # vs" using suffix_after_decomp [of topo ?P] sa by auto
  have "\<forall>y \<in> set vs. \<not> ?Q y"
    using assms(2) topo k suffix_after_set [of _ ?P topo] sa by (auto simp: succeeded_def image_iff)
  moreover have "?Q s" by (simp add: succeeded_def k)
  ultimately have "suffix_after ?Q topo = vs"
    using suffix_after_split [of ?Q s vs "pre @ us"] topo by simp
  then show ?thesis by (simp add: forward_remaining_def ks tl)
qed

lemma unwind_remaining_step:
  assumes "unwind_remaining topo f = k # ks" and "distinct (map ls_id topo)"
    and "v = LOpSucceeded \<or> v = LOpFailed"
  shows "unwind_remaining topo (f\<lparr>fa_unwind := gm_put k v (fa_unwind f)\<rparr>) = ks"
proof -
  let ?E = "\<lambda>s. ls_unwind s \<and> succeeded (fa_forward f) s"
  let ?R = "resolved (fa_unwind f)" and ?S = "resolved (gm_put k v (fa_unwind f))"
  let ?w = "takeWhile (\<lambda>s. \<not> ?R s) topo"
  obtain s where f: "filter ?E (rev ?w) = s # tl (filter ?E (rev ?w))" and k: "k = ls_id s"
    and ks: "ks = map ls_id (tl (filter ?E (rev ?w)))"
    using assms(1) unfolding unwind_remaining_def rev_filter by auto
  obtain us vs where rw: "rev ?w = us @ s # vs"
    and tl: "tl (filter ?E (rev ?w)) = filter ?E vs"
    using filter_Cons_split [OF f] by auto
  have w: "?w = rev vs @ s # rev us" using rw by (metis append.assoc append_Cons append_Nil rev.simps(2) rev_append rev_rev_ident)
  obtain post where topo: "topo = rev vs @ s # rev us @ post"
    using takeWhile_dropWhile_id [of "\<lambda>s. \<not> ?R s" topo] w by (metis append.assoc append_Cons)
  have "\<forall>y \<in> set (rev vs). \<not> ?S y"
  proof
    fix y assume y: "y \<in> set (rev vs)"
    then have "\<not> ?R y" using w set_takeWhileD [of y "\<lambda>s. \<not> ?R s" topo] by auto
    moreover have "ls_id y \<noteq> k" using assms(2) topo k y by (auto simp: image_iff)
    ultimately show "\<not> ?S y" by (simp add: resolved_def)
  qed
  moreover have "?S s" using assms(3) by (simp add: resolved_def k)
  ultimately have "takeWhile (\<lambda>s. \<not> ?S s) topo = rev vs"
    unfolding topo by (subst takeWhile_append2) auto
  then show ?thesis by (simp add: unwind_remaining_def ks tl rev_filter)
qed

lemma forward_exec_clean:
  "clean_forward f \<Longrightarrow> distinct (map ls_id topo) \<Longrightarrow> [] \<notin> ls_id ` set topo \<Longrightarrow>
   length (forward_remaining topo f) \<le> n \<Longrightarrow>
   forward_exec n topo f = (forward_remaining topo f, mk_decision KindForwardComplete [])"
proof (induction n arbitrary: f)
  case 0
  then show ?case by (simp add: NextForward_clean)
next
  case (Suc n)
  show ?case
  proof (cases "forward_remaining topo f")
    case Nil
    with Suc.prems show ?thesis by (simp add: NextForward_clean mk_decision_def)
  next
    case (Cons k ks)
    let ?f = "f\<lparr>fa_forward := gm_put k LOpSucceeded (fa_forward f)\<rparr>"
    have "k \<in> ls_id ` set topo"
      using Cons suffix_after_set [of _ "succeeded (fa_forward f)" topo]
      by (auto simp: forward_remaining_def map_eq_Cons_conv filter_eq_Cons_iff)
    with Suc.prems(3) have "k \<noteq> []" by metis
    with Suc.prems have "clean_forward ?f" by (simp add: clean_forward_put)
    moreover have "forward_remaining topo ?f = ks"
      using Cons Suc.prems by (simp add: forward_remaining_step)
    ultimately have "forward_exec n topo ?f = (ks, mk_decision KindForwardComplete [])"
      using Suc.IH [of ?f] Suc.prems Cons by simp
    with Cons Suc.prems show ?thesis by (simp add: NextForward_clean mk_decision_def)
  qed
qed

lemma unwind_exec_clean:
  "clean_unwind f \<Longrightarrow> distinct (map ls_id topo) \<Longrightarrow> [] \<notin> ls_id ` set topo \<Longrightarrow>
   length (unwind_remaining topo f) \<le> n \<Longrightarrow>
   unwind_exec ok n topo f = (unwind_remaining topo f, mk_decision KindUnwindComplete [])"
proof (induction n arbitrary: f)
  case 0
  then show ?case by (simp add: NextUnwind_clean)
next
  case (Suc n)
  show ?case
  proof (cases "unwind_remaining topo f")
    case Nil
    with Suc.prems show ?thesis by (simp add: NextUnwind_clean mk_decision_def)
  next
    case (Cons k ks)
    let ?v = "if ok k then LOpSucceeded else LOpFailed"
    let ?f = "f\<lparr>fa_unwind := gm_put k ?v (fa_unwind f)\<rparr>"
    have "set (unwind_remaining topo f) \<subseteq> ls_id ` set topo"
      by (auto simp: unwind_remaining_def dest!: set_takeWhileD)
    with Cons have "k \<in> ls_id ` set topo" by simp
    with Suc.prems(3) have "k \<noteq> []" by metis
    with Suc.prems have "clean_unwind ?f" by (simp add: clean_unwind_put)
    moreover have "unwind_remaining topo ?f = ks"
      using unwind_remaining_step [OF Cons, of ?v] Suc.prems by simp
    ultimately have "unwind_exec ok n topo ?f = (ks, mk_decision KindUnwindComplete [])"
      using Suc.IH [of ?f] Suc.prems Cons by simp
    with Cons Suc.prems show ?thesis by (simp add: NextUnwind_clean mk_decision_def)
  qed
qed

section \<open>Invalid decisions\<close>

abbreviation vanished :: "string \<Rightarrow> string" where
  "vanished what \<equiv> ''unreachable: '' @ what @ '' violation vanished on re-derivation''"

lemma forward_violation_go_kind [simp]: "d_kind (forward_violation_go m ks u) = KindInvalid"
  by (induction ks arbitrary: u) (auto simp: invalid_def split: ledger_op.split)

lemma unwind_violation_go_kind [simp]: "d_kind (unwind_violation_go m ks u) = KindInvalid"
  by (induction ks arbitrary: u) (auto simp: invalid_def)

lemma forward_violation_go_vanished:
  "d_reason (forward_violation_go m ks u) = vanished ''forward'' \<Longrightarrow> [] \<notin> set ks \<Longrightarrow>
   (\<forall>k \<in> set ks. fact_at m k \<noteq> LOpFailed) \<and>
   length (filter (\<lambda>k. fact_at m k = LOpUnresolved) ks) + (if u = [] then 0 else 1) \<le> 1"
  by (induction m ks u rule: forward_violation_go.induct)
    (auto simp: invalid_def split: ledger_op.splits if_splits)

lemma unwind_violation_go_vanished:
  "d_reason (unwind_violation_go m ks u) = vanished ''unwind'' \<Longrightarrow> [] \<notin> set ks \<Longrightarrow>
   length (filter (\<lambda>k. fact_at m k = LOpUnresolved) ks) + (if u = [] then 0 else 1) \<le> 1"
  by (induction m ks u rule: unwind_violation_go.induct) (auto simp: invalid_def split: if_splits)

lemma fact_at_mem: "gm_ok m \<Longrightarrow> (k, v) \<in> set m \<Longrightarrow> fact_at m k = v"
  by (simp add: fact_at_def gm_get_mem [symmetric])

lemma filter_sorted_ids:
  assumes "gm_ok m"
  shows "length (filter (\<lambda>k. fact_at m k = LOpUnresolved) (sorted_ids m)) = length (unresolved_of m)"
proof -
  have "length (filter (\<lambda>k. fact_at m k = LOpUnresolved) (sorted_ids m)) =
        length (filter (\<lambda>k. fact_at m k = LOpUnresolved) (gm_keys m))"
    unfolding sorted_ids_def by (metis mset_filter mset_sort size_mset)
  also have "\<dots> = length (filter (\<lambda>p. fact_at m (fst p) = LOpUnresolved) m)"
    by (simp add: filter_map comp_def)
  also have "filter (\<lambda>p. fact_at m (fst p) = LOpUnresolved) m = filter (\<lambda>p. snd p = LOpUnresolved) m"
    using assms by (intro filter_cong) (auto simp: fact_at_mem)
  finally show ?thesis by simp
qed

lemma set_sorted_ids [simp]: "set (sorted_ids m) = fst ` set m"
  by (simp add: sorted_ids_def)

lemma forward_violation_not_vanished:
  assumes "gm_ok (fa_forward f)" and "named (fa_forward f)" and "forward_scan (fa_forward f) [] = None"
  shows "d_reason (forward_violation f) \<noteq> vanished ''forward''"
proof
  let ?m = "fa_forward f"
  assume "d_reason (forward_violation f) = vanished ''forward''"
  then have "(\<forall>k \<in> set (sorted_ids ?m). fact_at ?m k \<noteq> LOpFailed) \<and>
      length (filter (\<lambda>k. fact_at ?m k = LOpUnresolved) (sorted_ids ?m)) + 0 \<le> 1"
    using forward_violation_go_vanished [of ?m "sorted_ids ?m" "[]"] assms(2)
    by (simp add: forward_violation_def)
  then have "\<not> any_failed ?m" and "length (unresolved_of ?m) \<le> 1"
    using assms(1) by (auto simp: filter_sorted_ids fact_at_mem)
  with assms(2,3) show False
    by (cases "unresolved_of ?m") (auto simp: forward_scan_eq split: if_splits)
qed

lemma unwind_violation_not_vanished:
  assumes "gm_ok (fa_unwind f)" and "named (fa_unwind f)" and "unwind_scan (fa_unwind f) [] = None"
  shows "d_reason (unwind_violation f) \<noteq> vanished ''unwind''"
proof
  let ?m = "fa_unwind f"
  assume "d_reason (unwind_violation f) = vanished ''unwind''"
  then have "length (filter (\<lambda>k. fact_at ?m k = LOpUnresolved) (sorted_ids ?m)) + 0 \<le> 1"
    using unwind_violation_go_vanished [of ?m "sorted_ids ?m" "[]"] assms(2)
    by (simp add: unwind_violation_def)
  then have "length (unresolved_of ?m) \<le> 1"
    using assms(1) by (simp add: filter_sorted_ids)
  with assms(2,3) show False
    by (cases "unresolved_of ?m") (auto simp: unwind_scan_eq split: if_splits)
qed

lemma scan_Some_forward:
  assumes "gm_ok (fa_forward f)" and "named (fa_forward f)"
    and "forward_scan (fa_forward f) [] = Some []"
  shows "clean_forward f"
proof -
  have "\<not> any_failed (fa_forward f)" and u: "unresolved_of (fa_forward f) = [] \<or> hd (unresolved_of (fa_forward f)) = []"
    using assms(2,3) by (auto simp: forward_scan_eq split: if_splits)
  moreover have "unresolved_of (fa_forward f) = []"
  proof (rule ccontr)
    assume ne: "unresolved_of (fa_forward f) \<noteq> []"
    then have "hd (unresolved_of (fa_forward f)) \<in> fst ` set (fa_forward f)"
      using hd_in_set [OF ne] by auto
    with u ne assms(2) show False by auto
  qed
  ultimately have "\<forall>p \<in> set (fa_forward f). snd p \<noteq> LOpFailed \<and> snd p \<noteq> LOpUnresolved"
    by (force simp: filter_empty_conv image_iff)
  then have "snd p \<in> {LOpNone, LOpSucceeded}" if "p \<in> set (fa_forward f)" for p
    using that by (cases "snd p") auto
  with assms show ?thesis by (auto simp: clean_forward_def)
qed

lemma NextForward_complete_or_run:
  "clean_forward f \<Longrightarrow> d_kind (NextForward topo f) = KindForwardComplete \<or>
   d_kind (NextForward topo f) = KindRunForward"
  by (auto simp: NextForward_clean mk_decision_def split: list.split)

lemma NextUnwind_complete_or_run:
  "clean_unwind f \<Longrightarrow> d_kind (NextUnwind topo f) = KindUnwindComplete \<or>
   d_kind (NextUnwind topo f) = KindRunUnwind"
  by (auto simp: NextUnwind_clean mk_decision_def split: list.split)

lemma forward_violation_go_consistent:
  "d_reason (forward_violation_go m ks u) \<noteq> ''inconsistent forward facts for step '' @ k"
  by (induction m ks u rule: forward_violation_go.induct)
    (auto simp: invalid_def split: ledger_op.splits if_splits)

lemma forward_invalid_iff:
  assumes "gm_ok (fa_forward f)" and "named (fa_forward f)"
  shows "d_kind (NextForward topo f) = KindInvalid \<longleftrightarrow>
     any_failed (fa_forward f) \<or> 1 < length (unresolved_of (fa_forward f)) \<or>
     (\<exists>u. unresolved_of (fa_forward f) = [u] \<and> u \<notin> ls_id ` set topo)"
proof (cases "any_failed (fa_forward f)")
  case True
  with assms show ?thesis by (simp add: NextForward_def forward_scan_eq forward_violation_def)
next
  case nf: False
  show ?thesis
  proof (cases "unresolved_of (fa_forward f)")
    case Nil
    with assms nf have "forward_scan (fa_forward f) [] = Some []" by (simp add: forward_scan_eq)
    then have "clean_forward f" using assms by (intro scan_Some_forward)
    from NextForward_complete_or_run [OF this, of topo] Nil nf show ?thesis by auto
  next
    case (Cons u us)
    have "u \<in> set (unresolved_of (fa_forward f))" using Cons by simp
    with assms(2) have "u \<noteq> []" by force
    with Cons nf assms show ?thesis
      by (cases us) (auto simp: NextForward_def forward_scan_eq forward_violation_def
        mk_decision_def invalid_def dest: topo_index_Some split: option.split)
  qed
qed

lemma forward_reason:
  assumes "gm_ok (fa_forward f)" and "named (fa_forward f)"
  shows "d_reason (NextForward topo f) \<noteq> vanished ''forward''"
    and "d_reason (NextForward topo f) \<noteq> ''inconsistent forward facts for step '' @ k"
proof -
  show "d_reason (NextForward topo f) \<noteq> vanished ''forward''"
  proof (cases "forward_scan (fa_forward f) []")
    case None
    from forward_violation_not_vanished [OF assms None] show ?thesis by (simp add: NextForward_def None)
  next
    case (Some u)
    show ?thesis
    proof (cases "u = []")
      case True
      with Some assms have "clean_forward f" by (simp add: scan_Some_forward)
      then show ?thesis by (simp add: NextForward_clean mk_decision_def split: list.split)
    next
      case False
      with Some show ?thesis by (simp add: NextForward_def mk_decision_def invalid_def split: option.split)
    qed
  qed
  show "d_reason (NextForward topo f) \<noteq> ''inconsistent forward facts for step '' @ k"
  proof (cases "forward_scan (fa_forward f) []")
    case None
    have "NextForward topo f = forward_violation_go (fa_forward f) (sorted_ids (fa_forward f)) []"
      by (simp add: NextForward_def None forward_violation_def)
    then show ?thesis using forward_violation_go_consistent by metis
  next
    case (Some u)
    show ?thesis
    proof (cases "u = []")
      case True
      with Some assms have "clean_forward f" by (simp add: scan_Some_forward)
      then show ?thesis by (simp add: NextForward_clean mk_decision_def split: list.split)
    next
      case False
      with Some show ?thesis by (simp add: NextForward_def mk_decision_def invalid_def split: option.split)
    qed
  qed
qed

section \<open>Properties\<close>

text \<open>
  Claim C19. Reconciliation is deterministic although the facts are Go maps: for two iteration
  orders of the same facts (distinct, non-empty step identifiers) \<^verbatim>\<open>NextForward\<close> and
  \<^verbatim>\<open>NextUnwind\<close> return the same decision, the invalidity reason included.
\<close>

theorem ledger_order_independent:
  assumes "gm_ok (fa_forward f)" and "gm_ok (fa_unwind f)"
    and "named (fa_forward f)" and "named (fa_unwind f)"
    and "mset (fa_forward f) = mset (fa_forward f')" and "mset (fa_unwind f) = mset (fa_unwind f')"
  shows "NextForward topo f = NextForward topo f' \<and> NextUnwind topo f = NextUnwind topo f'"
proof
  have fw: "fact_at (fa_forward f) = fact_at (fa_forward f')" using assms(1,5) by (rule fact_at_perm)
  have uw: "fact_at (fa_unwind f) = fact_at (fa_unwind f')" using assms(2,6) by (rule fact_at_perm)
  show "NextForward topo f = NextForward topo f'"
    unfolding NextForward_def forward_violation_def
    using forward_scan_perm [OF assms(3,5)] sorted_ids_perm [OF assms(5)]
      forward_violation_go_cong [OF fw] forward_frontier_cong [OF fw] forward_find_cong [OF fw]
    by (simp split: option.split)
  show "NextUnwind topo f = NextUnwind topo f'"
    unfolding NextUnwind_def unwind_violation_def
    using unwind_scan_perm [OF assms(4,6)] sorted_ids_perm [OF assms(6)]
      unwind_violation_go_cong [OF uw] unwind_frontier_cong [OF uw] unwind_find_cong [OF fw uw]
    by (simp split: option.split)
qed

definition wit_topo :: topology where
  "wit_topo = [\<lparr>ls_id = ''a'', ls_unwind = True, ls_retired = False\<rparr>,
               \<lparr>ls_id = ''b'', ls_unwind = False, ls_retired = False\<rparr>,
               \<lparr>ls_id = ''c'', ls_unwind = True, ls_retired = True\<rparr>,
               \<lparr>ls_id = ''d'', ls_unwind = True, ls_retired = False\<rparr>]"

theorem ledger_order_independent_witness:
  "NextForward wit_topo \<lparr>fa_forward = [(''b'', LOpUnresolved), (''a'', LOpUnresolved)], fa_unwind = []\<rparr>
   = NextForward wit_topo \<lparr>fa_forward = [(''a'', LOpUnresolved), (''b'', LOpUnresolved)], fa_unwind = []\<rparr>"
  by (rule ledger_order_independent [THEN conjunct1]) (simp_all add: gm_ok_def)

text \<open>
  Claim C20. When a run is invalid for the current definition: the forward decision is
  invalid exactly when the facts hold a permanent forward failure, two unresolved forward
  operations, or one whose step is not in the topology; the unwind decision exactly when two
  unwind operations are unresolved. The reasons the source marks as unreachable or
  inconsistent are never returned.
\<close>

theorem ledger_invalid_iff:
  assumes "gm_ok (fa_forward f)" and "gm_ok (fa_unwind f)"
    and "named (fa_forward f)" and "named (fa_unwind f)"
  shows "(d_kind (NextForward topo f) = KindInvalid \<longleftrightarrow>
           any_failed (fa_forward f) \<or> 1 < length (unresolved_of (fa_forward f)) \<or>
           (\<exists>u. unresolved_of (fa_forward f) = [u] \<and> u \<notin> ls_id ` set topo)) \<and>
         (d_kind (NextUnwind topo f) = KindInvalid \<longleftrightarrow> 1 < length (unresolved_of (fa_unwind f))) \<and>
         d_reason (NextForward topo f) \<noteq> vanished ''forward'' \<and>
         d_reason (NextForward topo f) \<noteq> ''inconsistent forward facts for step '' @ k \<and>
         d_reason (NextUnwind topo f) \<noteq> vanished ''unwind''"
proof (intro conjI)
  show "d_kind (NextUnwind topo f) = KindInvalid \<longleftrightarrow> 1 < length (unresolved_of (fa_unwind f))"
  proof (cases "1 < length (unresolved_of (fa_unwind f))")
    case True
    then have "unwind_scan (fa_unwind f) [] = None"
      using assms(4) by (cases "unresolved_of (fa_unwind f)") (auto simp: unwind_scan_eq)
    with True show ?thesis by (simp add: NextUnwind_def unwind_violation_def)
  next
    case False
    with assms have "clean_unwind f" by (simp add: clean_unwind_def)
    from NextUnwind_complete_or_run [OF this, of topo] False show ?thesis by auto
  qed
  show "d_reason (NextUnwind topo f) \<noteq> vanished ''unwind''"
  proof (cases "unwind_scan (fa_unwind f) []")
    case None
    from unwind_violation_not_vanished [OF assms(2,4) None] show ?thesis by (simp add: NextUnwind_def None)
  next
    case (Some u)
    then have "clean_unwind f"
      using assms by (cases "unresolved_of (fa_unwind f)")
        (auto simp: clean_unwind_def unwind_scan_eq split: if_splits)
    then show ?thesis by (simp add: NextUnwind_clean mk_decision_def split: list.split)
  qed
qed (rule forward_invalid_iff [OF assms(1,3)] forward_reason(1) [OF assms(1,3)]
      forward_reason(2) [OF assms(1,3)])+

theorem ledger_invalid_iff_witness:
  "d_kind (NextForward wit_topo \<lparr>fa_forward = [(''z'', LOpUnresolved)], fa_unwind = []\<rparr>) = KindInvalid"
proof -
  let ?f = "\<lparr>fa_forward = [(''z'', LOpUnresolved)], fa_unwind = []\<rparr> :: facts"
  have "d_kind (NextForward wit_topo ?f) = KindInvalid \<longleftrightarrow>
     any_failed (fa_forward ?f) \<or> 1 < length (unresolved_of (fa_forward ?f)) \<or>
     (\<exists>u. unresolved_of (fa_forward ?f) = [u] \<and> u \<notin> ls_id ` set wit_topo)"
    by (rule ledger_invalid_iff [THEN conjunct1]) (simp_all add: gm_ok_def)
  then show ?thesis by (simp add: wit_topo_def)
qed

text \<open>
  Claim C12. Forward execution: from any clean facts, reconciling and resolving each selected
  step as succeeded runs exactly the non-retired steps after the last one that had succeeded,
  in topology order, each once, and ends in \<open>KindForwardComplete\<close>; a step behind the frontier
  (inserted or reordered there) never runs. The number of iterations is bounded by the topology.
\<close>

theorem forward_exec_visits:
  assumes "clean_forward f" and "distinct (map ls_id topo)" and "[] \<notin> ls_id ` set topo"
  shows "forward_exec (length topo) topo f =
     (map ls_id (filter (\<lambda>s. \<not> ls_retired s) (suffix_after (succeeded (fa_forward f)) topo)),
      mk_decision KindForwardComplete [])"
proof -
  have "length (suffix_after (succeeded (fa_forward f)) topo) \<le> length topo"
    using suffix_after_decomp [of topo "succeeded (fa_forward f)"] by (metis length_append le_add2)
  then have "length (forward_remaining topo f) \<le> length topo"
    unfolding forward_remaining_def length_map by (meson length_filter_le order_trans)
  from forward_exec_clean [OF assms this] show ?thesis by (simp add: forward_remaining_def)
qed

theorem forward_exec_visits_witness:
  "forward_exec 4 wit_topo \<lparr>fa_forward = [(''a'', LOpSucceeded)], fa_unwind = []\<rparr>
     = ([''b'', ''d''], mk_decision KindForwardComplete [])"
proof -
  let ?f = "\<lparr>fa_forward = [(''a'', LOpSucceeded)], fa_unwind = []\<rparr> :: facts"
  have "clean_forward ?f" by (simp add: clean_forward_def gm_ok_def)
  then have "forward_exec (length wit_topo) wit_topo ?f =
    (map ls_id (filter (\<lambda>s. \<not> ls_retired s) (suffix_after (succeeded (fa_forward ?f)) wit_topo)),
     mk_decision KindForwardComplete [])"
    by (rule forward_exec_visits) (simp_all add: wit_topo_def)
  moreover have "length wit_topo = 4" by (simp add: wit_topo_def)
  moreover have "map ls_id (filter (\<lambda>s. \<not> ls_retired s) (suffix_after (succeeded (fa_forward ?f)) wit_topo))
    = [''b'', ''d'']"
    by (simp add: wit_topo_def suffix_after_def succeeded_def fact_at_def)
  ultimately show ?thesis by metis
qed

text \<open>
  Claim C13. Unwind execution: reconciling and resolving each selected unwind, as succeeded or
  as permanently failed, runs exactly the steps that declare unwind and succeeded forward and
  stand before the first one already resolved, in reverse topology order, each once; a
  permanent unwind failure never stops the remaining ones.
\<close>

theorem unwind_exec_visits:
  assumes "clean_unwind f" and "distinct (map ls_id topo)" and "[] \<notin> ls_id ` set topo"
  shows "unwind_exec ok (length topo) topo f =
     (map ls_id (rev (filter (\<lambda>s. ls_unwind s \<and> succeeded (fa_forward f) s)
        (takeWhile (\<lambda>s. \<not> resolved (fa_unwind f) s) topo))),
      mk_decision KindUnwindComplete [])"
proof -
  have "length (unwind_remaining topo f) \<le> length topo"
    unfolding unwind_remaining_def length_map length_rev
    by (meson length_filter_le length_takeWhile_le order_trans)
  from unwind_exec_clean [OF assms this] show ?thesis by (simp add: unwind_remaining_def)
qed

theorem unwind_exec_visits_witness:
  "unwind_exec (\<lambda>k. k = ''a'') 4 wit_topo
     \<lparr>fa_forward = [(''a'', LOpSucceeded), (''b'', LOpSucceeded), (''d'', LOpSucceeded)], fa_unwind = []\<rparr>
     = ([''d'', ''a''], mk_decision KindUnwindComplete [])"
proof -
  let ?f = "\<lparr>fa_forward = [(''a'', LOpSucceeded), (''b'', LOpSucceeded), (''d'', LOpSucceeded)], fa_unwind = []\<rparr> :: facts"
  have "clean_unwind ?f" by (simp add: clean_unwind_def)
  then have "unwind_exec (\<lambda>k. k = ''a'') (length wit_topo) wit_topo ?f =
    (map ls_id (rev (filter (\<lambda>s. ls_unwind s \<and> succeeded (fa_forward ?f) s)
        (takeWhile (\<lambda>s. \<not> resolved (fa_unwind ?f) s) wit_topo))), mk_decision KindUnwindComplete [])"
    by (rule unwind_exec_visits) (simp_all add: wit_topo_def)
  moreover have "length wit_topo = 4" by (simp add: wit_topo_def)
  moreover have "map ls_id (rev (filter (\<lambda>s. ls_unwind s \<and> succeeded (fa_forward ?f) s)
        (takeWhile (\<lambda>s. \<not> resolved (fa_unwind ?f) s) wit_topo))) = [''d'', ''a'']"
    by (simp add: wit_topo_def succeeded_def resolved_def fact_at_def)
  ultimately show ?thesis by metis
qed

text \<open>
  Claim C21. Progress is monotonic under topology change: whatever the current topology is, a
  selected forward operation is either the pinned unresolved one or a never-started,
  non-retired step with no succeeded step at or after it.
\<close>

theorem forward_selection_monotonic:
  assumes "gm_ok (fa_forward f)" and "named (fa_forward f)"
    and "NextForward topo f = mk_decision KindRunForward k"
  shows "fact_at (fa_forward f) k = LOpUnresolved \<and> unresolved_of (fa_forward f) = [k] \<and> k \<in> ls_id ` set topo \<or>
     fact_at (fa_forward f) k = LOpNone \<and> unresolved_of (fa_forward f) = [] \<and>
     (\<exists>pre s post. topo = pre @ s # post \<and> ls_id s = k \<and> \<not> ls_retired s \<and>
        filter (succeeded (fa_forward f)) (s # post) = [])"
proof (cases "unresolved_of (fa_forward f) = []")
  case True
  have "\<not> any_failed (fa_forward f)"
    using forward_invalid_iff [OF assms(1,2), of topo] assms(3) by (auto simp: mk_decision_def)
  with True assms(2) have "forward_scan (fa_forward f) [] = Some []" by (simp add: forward_scan_eq)
  then have cl: "clean_forward f" using assms by (intro scan_Some_forward)
  obtain ks where "forward_remaining topo f = k # ks"
    using assms(3) NextForward_clean [OF cl, of topo] by (auto simp: mk_decision_def split: list.splits)
  then obtain s us vs where s: "suffix_after (succeeded (fa_forward f)) topo = us @ s # vs"
      "ls_id s = k" "\<not> ls_retired s"
    by (auto simp: forward_remaining_def map_eq_Cons_conv filter_eq_Cons_iff)
  have none: "\<not> succeeded (fa_forward f) t" if "t \<in> set (us @ s # vs)" for t
    using that suffix_after_set [of t "succeeded (fa_forward f)" topo] s(1) by simp
  obtain pre where "topo = pre @ us @ s # vs" using suffix_after_decomp [of topo "succeeded (fa_forward f)"] s(1) by auto
  moreover have "filter (succeeded (fa_forward f)) (s # vs) = []"
    using none by (auto simp: filter_empty_conv)
  moreover have "fact_at (fa_forward f) k = LOpNone"
    using clean_forward_fact [OF cl, of k] none [of s] s(2) by (auto simp: succeeded_def)
  ultimately show ?thesis using True s by (intro disjI2 conjI exI [of _ "pre @ us"] exI [of _ s] exI [of _ vs]) auto
next
  case False
  then obtain u where u: "unresolved_of (fa_forward f) = [u]" "u \<in> ls_id ` set topo" "\<not> any_failed (fa_forward f)"
    using forward_invalid_iff [OF assms(1,2), of topo] assms(3)
    by (cases "unresolved_of (fa_forward f)") (auto simp: mk_decision_def)
  have "u \<in> set (unresolved_of (fa_forward f))" using u by simp
  then have mem: "(u, LOpUnresolved) \<in> set (fa_forward f)" by auto
  with assms(2) have "u \<noteq> []" by force
  with u assms(2,3) have "u = k"
    by (auto simp: NextForward_def forward_scan_eq mk_decision_def split: option.splits)
  with u mem assms(1) show ?thesis by (simp add: fact_at_mem)
qed

theorem forward_selection_monotonic_witness:
  "\<exists>pre s post. wit_topo = pre @ s # post \<and> ls_id s = ''d''"
proof -
  let ?f = "\<lparr>fa_forward = [(''b'', LOpSucceeded)], fa_unwind = []\<rparr> :: facts"
  have "NextForward wit_topo ?f = mk_decision KindRunForward ''d''"
    by (simp add: NextForward_def wit_topo_def fact_at_def nat_add_distrib)
  from forward_selection_monotonic [OF _ _ this] show ?thesis by (auto simp: gm_ok_def fact_at_def)
qed

text \<open>
  Eligibility to unwind: a selected unwind operation belongs to a step of the current
  topology that declares unwind, whose forward operation succeeded, whose own unwind has not
  resolved, and before which no unwind has resolved; no later step of that kind is left.
\<close>

theorem unwind_selection_eligible:
  assumes "clean_unwind f" and "NextUnwind topo f = mk_decision KindRunUnwind k"
  shows "\<exists>pre s post. topo = pre @ s # post \<and> ls_id s = k \<and> ls_unwind s \<and>
     succeeded (fa_forward f) s \<and> filter (resolved (fa_unwind f)) (pre @ [s]) = [] \<and>
     filter (\<lambda>t. ls_unwind t \<and> succeeded (fa_forward f) t)
       (takeWhile (\<lambda>t. \<not> resolved (fa_unwind f) t) post) = []"
proof -
  let ?E = "\<lambda>t. ls_unwind t \<and> succeeded (fa_forward f) t" and ?N = "\<lambda>t. \<not> resolved (fa_unwind f) t"
  obtain ks where "unwind_remaining topo f = k # ks"
    using assms(2) NextUnwind_clean [OF assms(1), of topo] by (auto simp: mk_decision_def split: list.splits)
  then obtain s us vs where r: "rev (takeWhile ?N topo) = us @ s # vs" "ls_id s = k" "?E s" "\<forall>u \<in> set us. \<not> ?E u"
    by (auto simp: unwind_remaining_def rev_filter map_eq_Cons_conv filter_eq_Cons_iff)
  have w: "takeWhile ?N topo = rev vs @ s # rev us"
    using r(1) by (metis append.assoc append_Cons append_Nil rev.simps(2) rev_append rev_rev_ident)
  let ?post = "rev us @ dropWhile ?N topo"
  have topo: "topo = rev vs @ s # ?post"
    using takeWhile_dropWhile_id [of ?N topo] w by (metis append.assoc append_Cons)
  have un: "?N t" if "t \<in> set (rev vs @ s # rev us)" for t
    using that w set_takeWhileD [of t ?N topo] by simp
  have "takeWhile ?N (dropWhile ?N topo) = []"
    by (induction topo) auto
  then have "takeWhile ?N ?post = rev us" using un by (subst takeWhile_append2) auto
  then have "filter ?E (takeWhile ?N ?post) = []" using r(4) by (simp add: filter_empty_conv)
  moreover have "filter (resolved (fa_unwind f)) (rev vs @ [s]) = []" using un by (auto simp: filter_empty_conv)
  ultimately show ?thesis using topo r(2,3) by blast
qed

theorem unwind_selection_eligible_witness:
  "\<exists>pre s post. wit_topo = pre @ s # post \<and> ls_id s = ''a'' \<and> ls_unwind s"
proof -
  let ?f = "\<lparr>fa_forward = [(''a'', LOpSucceeded), (''d'', LOpSucceeded)], fa_unwind = [(''d'', LOpFailed)]\<rparr> :: facts"
  have "clean_unwind ?f" by (simp add: clean_unwind_def gm_ok_def)
  moreover have "NextUnwind wit_topo ?f = mk_decision KindRunUnwind ''a''"
    by (simp add: NextUnwind_def wit_topo_def fact_at_def)
  ultimately show ?thesis using unwind_selection_eligible by blast
qed

end
