(* ===== verification/Kernel.thy ===== *)
theory Kernel
  imports Prelude
begin

text \<open>
  The shared vocabulary of the program (\<^verbatim>\<open>src/kernel/kernel.go\<close>): phases, await modes, parks
  and wakes, outcomes, failure attribution and failure records. Every enumeration of the
  source is an unsigned byte whose zero value is not a named constant (or, for
  \<^verbatim>\<open>FailureKind\<close>, is the first one); the model gives the zero value a constructor of its own.
  The errors a store returns are the datatype \<open>kernel_error\<close>: the two sentinels, any other
  failure of the backend, and a Go panic (a nil dereference), which the model keeps visible.
\<close>

section \<open>Enumerations\<close>

datatype phase = PhaseNone | PhaseForward | PhaseUnwind | PhaseDone

fun phase_string :: "phase \<Rightarrow> string" where
  "phase_string PhaseForward = ''forward''"
| "phase_string PhaseUnwind = ''unwind''"
| "phase_string PhaseDone = ''done''"
| "phase_string PhaseNone = ''unknown''"

datatype await_mode = AwaitModeNone | AwaitModeAll | AwaitModeAny

fun await_mode_string :: "await_mode \<Rightarrow> string" where
  "await_mode_string AwaitModeAll = ''all''"
| "await_mode_string AwaitModeAny = ''any''"
| "await_mode_string AwaitModeNone = ''unknown''"

datatype outcome = OutcomeNone | OutcomeSuccess | OutcomeFailure

fun outcome_string :: "outcome \<Rightarrow> string" where
  "outcome_string OutcomeSuccess = ''success''"
| "outcome_string OutcomeFailure = ''failure''"
| "outcome_string OutcomeNone = ''unknown''"

datatype failure_kind = FailureKindSystem | FailureKindUser | FailureKindCanceled

fun failure_kind_string :: "failure_kind \<Rightarrow> string" where
  "failure_kind_string FailureKindUser = ''user''"
| "failure_kind_string FailureKindCanceled = ''canceled''"
| "failure_kind_string FailureKindSystem = ''system''"

datatype kernel_error = ErrRunNotFound | ErrRunTerminal | ErrStore string | GoPanic string

section \<open>Parks, wakes and failures\<close>

record await =
  aw_mode :: await_mode
  aw_targets :: "run_id list"
  aw_deadline :: gotime
  aw_cancel_cascade :: bool

record wake =
  wk_targets :: "run_id list"
  wk_done :: "run_id list"
  wk_expired :: bool

record failure =
  f_step :: step_id
  f_phase :: phase
  f_attempt :: u64
  f_message :: string
  f_at :: gotime
  f_kind :: failure_kind
  f_reason :: string

text \<open>
  \<^verbatim>\<open>Wake.Pending\<close>: the targets not done, in target order. The source returns a copy of the
  targets when nothing is done, and otherwise filters through a set built from \<^verbatim>\<open>Done\<close>.
\<close>

definition wake_pending :: "wake \<Rightarrow> run_id list" where
  "wake_pending w =
     (if wk_done w = [] then wk_targets w
      else (let done = fold (\<lambda>id s. insert id s) (wk_done w) {}
            in filter (\<lambda>id. id \<notin> done) (wk_targets w)))"

lemma wake_pending_eq: "wake_pending w = filter (\<lambda>id. id \<notin> set (wk_done w)) (wk_targets w)"
proof -
  have "fold (\<lambda>id s. insert id s) xs s = set xs \<union> s" for xs :: "run_id list" and s
    by (induction xs arbitrary: s) auto
  then show ?thesis by (simp add: wake_pending_def Let_def)
qed

lemma phase_string_inj: "phase_string p = phase_string q \<longleftrightarrow> p = q"
  by (cases p; cases q) auto

end
