(* ===== verification/Driver.thy ===== *)
theory Driver
  imports Kernel
begin

text \<open>
  The store contract's records (\<^verbatim>\<open>src/store/driver/driver.go\<close>): operation and step records, the
  cursor, transitions and the run record, with the operations the records carry
  (\<^verbatim>\<open>Op\<close>, \<^verbatim>\<open>Step\<close>, \<^verbatim>\<open>Terminal\<close>, \<^verbatim>\<open>CompactTerminal\<close>, \<^verbatim>\<open>UnwindFailures\<close>, \<^verbatim>\<open>NextOrder\<close>). A Go
  pointer to a record that may be nil is an option; \<^verbatim>\<open>Clone\<close> copies and so is the identity on
  values. A byte slice is an option because the code tells nil from empty. Attempt counters
  are 64-bit and resolution orders 32-bit words, as in the source.
\<close>

section \<open>Records\<close>

datatype op_status = OpNone | OpUnresolved | OpSucceeded | OpFailed

record operation_record =
  or_status :: op_status
  or_attempts :: u64
  or_state :: "bytes option"
  or_failure :: "failure option"
  or_order :: u32

definition zero_op :: operation_record where
  "zero_op = \<lparr>or_status = OpNone, or_attempts = 0, or_state = None, or_failure = None, or_order = 0\<rparr>"

record step_record =
  sr_forward :: operation_record
  sr_unwind :: operation_record

definition zero_step :: step_record where
  "zero_step = \<lparr>sr_forward = zero_op, sr_unwind = zero_op\<rparr>"

record cancel_request =
  cr_cause :: string
  cr_at :: gotime

record cursor =
  cu_phase :: phase
  cu_step :: step_id
  cu_attempts :: u64
  cu_awaiting :: "await option"
  cu_awaited :: "wake option"
  cu_next_attempt_at :: gotime
  cu_last_error :: string
  cu_last_reason :: string
  cu_last_error_at :: gotime
  cu_updated_at :: gotime
  cu_started_at :: gotime

record op_write =
  ow_step :: step_id
  ow_phase :: phase
  ow_record :: operation_record

record transition =
  t_cursor :: cursor
  t_ops :: "op_write list"
  t_failure :: "failure option"
  t_output :: "bytes option"
  t_outcome :: "outcome option"

record run_record =
  r_run :: run_id
  r_pipeline :: pipeline_id
  r_resource :: resource_id
  r_annotations :: "(string, string) gomap"
  r_input :: "bytes option"
  r_phase :: phase
  r_steps :: "(step_id, step_record) gomap"
  r_failure :: "failure option"
  r_output :: "bytes option"
  r_outcome :: "outcome option"
  r_next_attempt_at :: gotime
  r_awaiting :: "await option"
  r_awaited :: "wake option"
  r_last_error :: string
  r_last_reason :: string
  r_last_error_at :: gotime
  r_cancel :: "cancel_request option"
  r_created_at :: gotime
  r_updated_at :: gotime
  r_started_at :: gotime

section \<open>Operations\<close>

definition sr_op :: "phase \<Rightarrow> step_record \<Rightarrow> operation_record" where
  "sr_op p sr = (if p = PhaseUnwind then sr_unwind sr else sr_forward sr)"

definition sr_put :: "phase \<Rightarrow> operation_record \<Rightarrow> step_record \<Rightarrow> step_record" where
  "sr_put p op sr = (if p = PhaseUnwind then sr\<lparr>sr_unwind := op\<rparr> else sr\<lparr>sr_forward := op\<rparr>)"

text \<open>\<^verbatim>\<open>rec.Step(id)\<close> returns the entry, creating it when absent; the writes through the returned
  pointer are \<open>put_op\<close>.\<close>

definition rec_step :: "run_record \<Rightarrow> step_id \<Rightarrow> step_record" where
  "rec_step r k = (case gm_get (r_steps r) k of None \<Rightarrow> zero_step | Some sr \<Rightarrow> sr)"

definition rec_op :: "run_record \<Rightarrow> step_id \<Rightarrow> phase \<Rightarrow> operation_record" where
  "rec_op r k p = sr_op p (rec_step r k)"

definition put_op :: "step_id \<Rightarrow> phase \<Rightarrow> operation_record \<Rightarrow> run_record \<Rightarrow> run_record" where
  "put_op k p op r = r\<lparr>r_steps := gm_put k (sr_put p op (rec_step r k)) (r_steps r)\<rparr>"

definition terminal :: "run_record \<Rightarrow> bool" where
  "terminal r \<longleftrightarrow> r_outcome r \<noteq> None"

definition compact_steps :: "(step_id, step_record) gomap \<Rightarrow> (step_id, step_record) gomap" where
  "compact_steps m =
     map (\<lambda>(k, sr). (k, zero_step\<lparr>sr_unwind := sr_unwind sr\<rparr>))
       (filter (\<lambda>(k, sr). or_status (sr_unwind sr) = OpFailed) m)"

definition compact_terminal :: "run_record \<Rightarrow> run_record" where
  "compact_terminal r = r\<lparr>r_input := None,
     r_next_attempt_at := zero_time, r_last_error_at := zero_time,
     r_last_error := [], r_last_reason := [],
     r_awaiting := None, r_awaited := None,
     r_steps := compact_steps (r_steps r)\<rparr>"

definition failed_unwinds :: "(step_id, step_record) gomap \<Rightarrow> (u32 \<times> failure) list" where
  "failed_unwinds m = List.map_filter (\<lambda>(k, sr).
     if or_status (sr_unwind sr) = OpFailed
     then map_option (\<lambda>f. (or_order (sr_unwind sr), f)) (or_failure (sr_unwind sr)) else None) m"

definition unwind_failures :: "run_record \<Rightarrow> failure list" where
  "unwind_failures r = map snd (sort_key fst (failed_unwinds (r_steps r)))"

definition max_order :: "(step_id, step_record) gomap \<Rightarrow> u32" where
  "max_order m = fold (\<lambda>(k, sr) a. max (max a (or_order (sr_forward sr))) (or_order (sr_unwind sr))) m 0"

definition next_order :: "run_record \<Rightarrow> u32" where
  "next_order r = max_order (r_steps r) + 1"

section \<open>Facts\<close>

lemma sr_op_put [simp, rec_simps]:
  "sr_op p (sr_put q op sr) = (if (p = PhaseUnwind) = (q = PhaseUnwind) then op else sr_op p sr)"
  by (auto simp: sr_op_def sr_put_def)

lemma sr_put_op [simp, rec_simps]: "sr_put p (sr_op p sr) sr = sr"
  by (simp add: sr_op_def sr_put_def)

lemma sr_put_put [simp, rec_simps]: "sr_put p op (sr_put p op' sr) = sr_put p op sr"
  by (simp add: sr_put_def)

lemma zero_step_op [simp]: "sr_op p zero_step = zero_op"
  by (simp add: sr_op_def zero_step_def)

lemma rec_step_put_op [simp, rec_simps]:
  "rec_step (put_op k p op r) k' = (if k' = k then sr_put p op (rec_step r k) else rec_step r k')"
  by (simp add: rec_step_def put_op_def)

lemma rec_op_put_op [simp, rec_simps]:
  "rec_op (put_op k p op r) k' p' =
     (if k' = k \<and> (p' = PhaseUnwind) = (p = PhaseUnwind) then op else rec_op r k' p')"
  by (simp add: rec_op_def)

lemma gm_put_put [simp, gomap_simps]: "gm_put k v (gm_put k v' m) = gm_put k v m"
  by (induction m) auto

lemma gm_put_same [simp, gomap_simps]: "gm_get m k = Some v \<Longrightarrow> gm_put k v m = m"
  by (induction m) (auto split: if_splits)

lemma put_op_put_op [simp, rec_simps]: "put_op k p op (put_op k p op' r) = put_op k p op r"
  by (simp add: put_op_def rec_step_def)

lemma put_op_same: "gm_has (r_steps r) k \<Longrightarrow> put_op k p (rec_op r k p) r = r"
  by (auto simp: put_op_def rec_op_def rec_step_def)

lemma gm_has_put_op [simp]: "gm_has (r_steps (put_op k p op r)) k' \<longleftrightarrow> k' = k \<or> gm_has (r_steps r) k'"
  by (simp add: put_op_def)

lemma gm_ok_put_op [simp, intro]: "gm_ok (r_steps r) \<Longrightarrow> gm_ok (r_steps (put_op k p op r))"
  by (simp add: put_op_def)

lemma put_op_frame [simp, rec_simps]:
  "r_run (put_op k p op r) = r_run r" "r_pipeline (put_op k p op r) = r_pipeline r"
  "r_resource (put_op k p op r) = r_resource r" "r_annotations (put_op k p op r) = r_annotations r"
  "r_input (put_op k p op r) = r_input r" "r_phase (put_op k p op r) = r_phase r"
  "r_failure (put_op k p op r) = r_failure r" "r_output (put_op k p op r) = r_output r"
  "r_outcome (put_op k p op r) = r_outcome r" "r_next_attempt_at (put_op k p op r) = r_next_attempt_at r"
  "r_awaiting (put_op k p op r) = r_awaiting r" "r_awaited (put_op k p op r) = r_awaited r"
  "r_last_error (put_op k p op r) = r_last_error r" "r_last_reason (put_op k p op r) = r_last_reason r"
  "r_last_error_at (put_op k p op r) = r_last_error_at r" "r_cancel (put_op k p op r) = r_cancel r"
  "r_created_at (put_op k p op r) = r_created_at r" "r_updated_at (put_op k p op r) = r_updated_at r"
  "r_started_at (put_op k p op r) = r_started_at r"
  by (simp_all add: put_op_def)

lemma terminal_put_op [simp]: "terminal (put_op k p op r) = terminal r"
  by (simp add: terminal_def)

lemma compact_terminal_outcome [simp]: "terminal (compact_terminal r) = terminal r"
  by (simp add: terminal_def compact_terminal_def)

lemma compact_steps_keys: "gm_keys (compact_steps m) = gm_keys (filter (\<lambda>(k, sr). or_status (sr_unwind sr) = OpFailed) m)"
  by (simp add: compact_steps_def case_prod_unfold comp_def)

lemma gm_ok_compact_steps [simp, intro]: "gm_ok m \<Longrightarrow> gm_ok (compact_steps m)"
  unfolding gm_ok_def compact_steps_keys by (rule distinct_map_filter)

lemma compact_steps_idem [simp]: "compact_steps (compact_steps m) = compact_steps m"
  by (induction m) (auto simp: compact_steps_def)

lemma compact_terminal_idem [simp]: "compact_terminal (compact_terminal r) = compact_terminal r"
  by (simp add: compact_terminal_def)

lemma failed_unwinds_Cons:
  "failed_unwinds ((k, sr) # m) =
     (if or_status (sr_unwind sr) = OpFailed
      then (case or_failure (sr_unwind sr) of None \<Rightarrow> [] | Some f \<Rightarrow> [(or_order (sr_unwind sr), f)])
      else []) @ failed_unwinds m"
  by (simp add: failed_unwinds_def map_filter_simps split: option.split)

lemma failed_unwinds_Nil [simp]: "failed_unwinds [] = []"
  by (simp add: failed_unwinds_def map_filter_simps)

lemma compact_steps_Cons:
  "compact_steps ((k, sr) # m) =
     (if or_status (sr_unwind sr) = OpFailed
      then [(k, zero_step\<lparr>sr_unwind := sr_unwind sr\<rparr>)] else []) @ compact_steps m"
  by (simp add: compact_steps_def)

lemma gm_get_compact:
  assumes "gm_ok m"
  shows "gm_get (compact_steps m) k = (case gm_get m k of None \<Rightarrow> None
     | Some sr \<Rightarrow> if or_status (sr_unwind sr) = OpFailed then Some (zero_step\<lparr>sr_unwind := sr_unwind sr\<rparr>) else None)"
  using assms
proof (induction m)
  case (Cons x m)
  obtain k' sr where x: "x = (k', sr)" by (cases x)
  then have ok: "gm_ok m" "gm_get m k' = None" using Cons.prems by (auto simp: gm_ok_def map_of_eq_None_iff)
  then show ?case using Cons.IH x by (auto simp: compact_steps_Cons split: option.split)
qed (simp add: compact_steps_def)

lemma failed_unwinds_compact [simp]: "failed_unwinds (compact_steps m) = failed_unwinds m"
proof (induction m)
  case (Cons x m)
  then show ?case by (cases x) (simp add: compact_steps_Cons failed_unwinds_Cons split: option.split)
qed (simp add: compact_steps_def)

lemma unwind_failures_compact [simp]: "unwind_failures (compact_terminal r) = unwind_failures r"
  by (simp add: unwind_failures_def compact_terminal_def)

lemma max_order_fold_ge:
  "a \<le> fold (\<lambda>(k, sr) a. max (max a (or_order (sr_forward sr))) (or_order (sr_unwind sr))) m a"
proof (induction m arbitrary: a)
  case (Cons x m)
  obtain k sr where x: "x = (k, sr)" by (cases x)
  have "a \<le> max (max a (or_order (sr_forward sr))) (or_order (sr_unwind sr))"
    by (simp add: le_max_iff_disj)
  also have "\<dots> \<le> fold (\<lambda>(k, sr) a. max (max a (or_order (sr_forward sr))) (or_order (sr_unwind sr))) m
      (max (max a (or_order (sr_forward sr))) (or_order (sr_unwind sr)))" by (rule Cons)
  finally show ?case by (simp add: x)
qed simp

lemma max_order_fold_mem:
  "(k, sr) \<in> set m \<Longrightarrow>
   or_order (sr_forward sr) \<le> fold (\<lambda>(k, sr) a. max (max a (or_order (sr_forward sr))) (or_order (sr_unwind sr))) m a \<and>
   or_order (sr_unwind sr) \<le> fold (\<lambda>(k, sr) a. max (max a (or_order (sr_forward sr))) (or_order (sr_unwind sr))) m a"
proof (induction m arbitrary: a)
  case (Cons x m)
  let ?a = "max (max a (or_order (sr_forward sr))) (or_order (sr_unwind sr))"
  have le: "or_order (sr_forward sr) \<le> ?a" "or_order (sr_unwind sr) \<le> ?a"
    by (simp_all add: le_max_iff_disj)
  show ?case
  proof (cases "x = (k, sr)")
    case True
    then show ?thesis
      using order_trans [OF le(1) max_order_fold_ge [of ?a m]] order_trans [OF le(2) max_order_fold_ge [of ?a m]]
      by (simp only: True fold_simps prod.case simp_thms)
  next
    case False
    then have "(k, sr) \<in> set m" using Cons.prems by auto
    from Cons.IH [OF this] show ?thesis by (cases x) simp
  qed
qed simp

lemma max_order_ge:
  assumes "gm_get (r_steps r) k = Some sr"
  shows "or_order (sr_op p sr) \<le> max_order (r_steps r)"
  using max_order_fold_mem [OF map_of_SomeD [OF assms], of 0] by (simp add: max_order_def sr_op_def)

lemma max_order_op_ge: "or_order (rec_op r k p) \<le> max_order (r_steps r)"
  using max_order_ge [of r k] by (simp add: rec_op_def rec_step_def zero_op_def split: option.split)

lemma next_order_fresh:
  assumes "max_order (r_steps r) \<noteq> - 1"
  shows "or_order (rec_op r k p) < next_order r"
proof -
  have "max_order (r_steps r) < max_order (r_steps r) + 1"
    using unatSuc [of "max_order (r_steps r)"] assms
    by (simp add: word_less_nat_alt add.commute add_eq_0_iff)
  then show ?thesis using max_order_op_ge [of r k p] by (simp add: next_order_def)
qed

end
