(* ===== verification/Store_Spec.thy ===== *)
theory Store_Spec
  imports Driver
begin

text \<open>
  The store contract (\<^verbatim>\<open>driver.Store\<close> of \<^verbatim>\<open>src/store/driver/driver.go\<close>) as an interface: the
  record of the operations a store offers, what one transition does to one run record, and
  the laws the contract's comments promise, as the locale \<open>run_store\<close> over the abstract
  contents \<open>rec_of\<close> (the full record per run id). The locale's lemmas are what a client may
  rely on over any sequence of store operations: identity never changes, a terminal record
  never changes while it exists, the first cancel request wins, and no two nonterminal runs
  that exclude each other hold the same resource.

  Every operation passes the store's state, so that a store may count, cache or fail at will.
  The single lock of the in-memory store and the transactions of the bbolt store make each
  call one atomic step, so a concurrent history of the store is a sequence of these steps.
\<close>

section \<open>Operations\<close>

type_synonym 'a result = "kernel_error + 'a"

record 's store_ops =
  so_create :: "'s \<Rightarrow> run_record \<Rightarrow> pipeline_id list \<Rightarrow> (run_record option \<times> bool) result \<times> 's"
  so_get :: "'s \<Rightarrow> run_id \<Rightarrow> run_record result \<times> 's"
  so_head :: "'s \<Rightarrow> run_id \<Rightarrow> run_record result \<times> 's"
  so_apply :: "'s \<Rightarrow> run_id \<Rightarrow> transition \<Rightarrow> unit result \<times> 's"
  so_reap :: "'s \<Rightarrow> gotime \<Rightarrow> int \<Rightarrow> int result \<times> 's"
  so_cancel :: "'s \<Rightarrow> run_id \<Rightarrow> cancel_request \<Rightarrow> bool result \<times> 's"
  so_list :: "'s \<Rightarrow> run_record list result \<times> 's"
  so_active :: "'s \<Rightarrow> pipeline_id \<Rightarrow> resource_id \<Rightarrow> (run_id option) result \<times> 's"

section \<open>One transition on one record\<close>

definition apply_ops :: "op_write list \<Rightarrow> run_record \<Rightarrow> run_record" where
  "apply_ops ows r = fold (\<lambda>ow r. put_op (ow_step ow) (ow_phase ow) (ow_record ow) r) ows r"

lemma apply_ops_append: "apply_ops (xs @ ys) r = apply_ops ys (apply_ops xs r)"
  by (simp add: apply_ops_def)

definition apply_cursor :: "cursor \<Rightarrow> run_record \<Rightarrow> run_record" where
  "apply_cursor c r0 = (let r = r0\<lparr>r_phase := cu_phase c, r_next_attempt_at := cu_next_attempt_at c,
       r_last_error := cu_last_error c, r_last_reason := cu_last_reason c,
       r_last_error_at := cu_last_error_at c, r_awaiting := cu_awaiting c,
       r_awaited := cu_awaited c, r_updated_at := cu_updated_at c, r_started_at := cu_started_at c\<rparr>
     in if cu_step c \<noteq> []
        then put_op (cu_step c) (cu_phase c)
               ((rec_op r (cu_step c) (cu_phase c))\<lparr>or_status := OpUnresolved, or_attempts := cu_attempts c\<rparr>) r
        else r)"

definition apply_failure :: "failure option \<Rightarrow> run_record \<Rightarrow> run_record" where
  "apply_failure fo r = (case fo of None \<Rightarrow> r | Some f \<Rightarrow> r\<lparr>r_failure := Some f\<rparr>)"

definition apply_outcome :: "transition \<Rightarrow> run_record \<Rightarrow> run_record" where
  "apply_outcome t r = (case t_outcome t of None \<Rightarrow> r
     | Some oc \<Rightarrow> compact_terminal (r\<lparr>r_outcome := Some oc, r_output := t_output t\<rparr>))"

definition apply_transition :: "transition \<Rightarrow> run_record \<Rightarrow> run_record" where
  "apply_transition t r =
     apply_outcome t (apply_failure (t_failure t) (apply_cursor (t_cursor t) (apply_ops (t_ops t) r)))"

definition same_identity :: "run_record \<Rightarrow> run_record \<Rightarrow> bool" where
  "same_identity r r' \<longleftrightarrow> r_run r' = r_run r \<and> r_pipeline r' = r_pipeline r \<and> r_resource r' = r_resource r
     \<and> r_annotations r' = r_annotations r \<and> r_created_at r' = r_created_at r \<and> r_cancel r' = r_cancel r"

lemma same_identity_refl [simp]: "same_identity r r"
  by (simp add: same_identity_def)

lemma same_identity_trans: "same_identity r r' \<Longrightarrow> same_identity r' r'' \<Longrightarrow> same_identity r r''"
  by (simp add: same_identity_def)

lemma apply_ops_simps [simp, rec_simps]:
  "apply_ops [] r = r"
  "apply_ops (ow # ows) r = apply_ops ows (put_op (ow_step ow) (ow_phase ow) (ow_record ow) r)"
  by (simp_all add: apply_ops_def)

lemma apply_ops_identity: "same_identity r (apply_ops ows r)"
  by (induction ows arbitrary: r) (auto simp: same_identity_def)

lemma apply_ops_frame [simp]:
  "r_outcome (apply_ops ows r) = r_outcome r" "r_failure (apply_ops ows r) = r_failure r"
  "r_input (apply_ops ows r) = r_input r" "r_output (apply_ops ows r) = r_output r"
  "r_phase (apply_ops ows r) = r_phase r" "r_started_at (apply_ops ows r) = r_started_at r"
  by (induction ows arbitrary: r) simp_all

lemma gm_ok_apply_ops [simp, intro]: "gm_ok (r_steps r) \<Longrightarrow> gm_ok (r_steps (apply_ops ows r))"
  by (induction ows arbitrary: r) auto

lemma apply_cursor_identity: "same_identity r (apply_cursor c r)"
  by (simp add: apply_cursor_def same_identity_def Let_def)

lemma apply_cursor_frame [simp]:
  "r_outcome (apply_cursor c r) = r_outcome r" "r_failure (apply_cursor c r) = r_failure r"
  "r_input (apply_cursor c r) = r_input r" "r_output (apply_cursor c r) = r_output r"
  "r_phase (apply_cursor c r) = cu_phase c" "r_awaiting (apply_cursor c r) = cu_awaiting c"
  "r_awaited (apply_cursor c r) = cu_awaited c" "r_next_attempt_at (apply_cursor c r) = cu_next_attempt_at c"
  "r_last_error (apply_cursor c r) = cu_last_error c" "r_last_reason (apply_cursor c r) = cu_last_reason c"
  "r_last_error_at (apply_cursor c r) = cu_last_error_at c"
  "r_updated_at (apply_cursor c r) = cu_updated_at c" "r_started_at (apply_cursor c r) = cu_started_at c"
  by (simp_all add: apply_cursor_def Let_def)

lemma gm_ok_apply_cursor [simp, intro]: "gm_ok (r_steps r) \<Longrightarrow> gm_ok (r_steps (apply_cursor c r))"
  by (simp add: apply_cursor_def Let_def put_op_def)

lemma apply_cursor_in_flight:
  "cu_step c \<noteq> [] \<Longrightarrow> gm_has (r_steps (apply_cursor c r)) (cu_step c)"
  "cu_step c \<noteq> [] \<Longrightarrow> or_status (rec_op (apply_cursor c r) (cu_step c) (cu_phase c)) = OpUnresolved"
  "cu_step c \<noteq> [] \<Longrightarrow> or_attempts (rec_op (apply_cursor c r) (cu_step c) (cu_phase c)) = cu_attempts c"
  by (simp_all add: apply_cursor_def Let_def put_op_def rec_op_def rec_step_def)

lemma apply_failure_frame [simp]:
  "same_identity r (apply_failure fo r)" "r_outcome (apply_failure fo r) = r_outcome r"
  "r_steps (apply_failure fo r) = r_steps r" "r_phase (apply_failure fo r) = r_phase r"
  "r_input (apply_failure fo r) = r_input r" "r_output (apply_failure fo r) = r_output r"
  by (simp_all add: apply_failure_def same_identity_def split: option.split)

lemma compact_identity [simp]: "same_identity r (compact_terminal r)"
  by (simp add: same_identity_def compact_terminal_def)

lemma apply_outcome_identity: "same_identity r (apply_outcome t r)"
  by (simp add: apply_outcome_def same_identity_def compact_terminal_def split: option.split)

lemma apply_transition_identity: "same_identity r (apply_transition t r)"
  unfolding apply_transition_def
  by (meson same_identity_trans apply_ops_identity apply_cursor_identity apply_failure_frame(1) apply_outcome_identity)

lemma apply_transition_terminal:
  "\<not> terminal r \<Longrightarrow> terminal (apply_transition t r) \<longleftrightarrow> t_outcome t \<noteq> None"
  by (simp add: apply_transition_def apply_outcome_def terminal_def compact_terminal_def split: option.split)

lemma gm_ok_apply_transition [simp, intro]:
  "gm_ok (r_steps r) \<Longrightarrow> gm_ok (r_steps (apply_transition t r))"
  by (auto simp: apply_transition_def apply_outcome_def compact_terminal_def split: option.split)

lemma apply_transition_phase [simp]: "r_phase (apply_transition t r) = cu_phase (t_cursor t)"
  by (simp add: apply_transition_def apply_outcome_def compact_terminal_def split: option.split)

section \<open>The contract\<close>

definition nul_free :: "string \<Rightarrow> bool" where
  "nul_free s \<longleftrightarrow> CHR 0x00 \<notin> set s"

text \<open>What the contract asks of a record handed to \<^verbatim>\<open>CreateRun\<close>: nonterminal, with NUL-free identifiers.\<close>

definition storable :: "run_record \<Rightarrow> bool" where
  "storable r \<longleftrightarrow> \<not> terminal r \<and> nul_free (r_pipeline r) \<and> gm_ok (r_steps r)"

definition occupies :: "run_record \<Rightarrow> pipeline_id list \<Rightarrow> run_record \<Rightarrow> bool" where
  "occupies new excluding r \<longleftrightarrow>
     \<not> terminal r \<and> r_resource r = r_resource new \<and> r_pipeline r \<in> insert (r_pipeline new) (set excluding)"

definition head_of :: "run_record \<Rightarrow> run_record \<Rightarrow> bool" where
  "head_of r h \<longleftrightarrow> h = r\<lparr>r_input := None, r_output := None, r_steps := r_steps h\<rparr> \<and>
     (if terminal r then r_steps h = r_steps r
      else r_steps h = [] \<or>
        (\<exists>k. gm_has (r_steps r) k \<and> or_status (rec_op r k (r_phase r)) = OpUnresolved \<and>
           r_steps h = [(k, sr_put (r_phase r)
             (zero_op\<lparr>or_status := OpUnresolved, or_attempts := or_attempts (rec_op r k (r_phase r))\<rparr>) zero_step)]))"

text \<open>How a record may differ from an earlier version of itself: same identity, a recorded cancel
  request kept, and a terminal record not at all.\<close>

definition evolves :: "run_record \<Rightarrow> run_record \<Rightarrow> bool" where
  "evolves r r' \<longleftrightarrow> r_run r' = r_run r \<and> r_pipeline r' = r_pipeline r \<and> r_resource r' = r_resource r
     \<and> r_annotations r' = r_annotations r \<and> r_created_at r' = r_created_at r
     \<and> (r_cancel r \<noteq> None \<longrightarrow> r_cancel r' = r_cancel r) \<and> (terminal r \<longrightarrow> r' = r)"

lemma evolves_refl [simp]: "evolves r r"
  by (simp add: evolves_def)

lemma evolves_trans: "evolves r r' \<Longrightarrow> evolves r' r'' \<Longrightarrow> evolves r r''"
  by (auto simp: evolves_def)

lemma evolves_apply: "\<not> terminal r \<Longrightarrow> evolves r (apply_transition t r)"
  using apply_transition_identity [of r t] by (simp add: evolves_def same_identity_def)

lemma evolves_cancel: "\<not> terminal r \<Longrightarrow> r_cancel r = None \<Longrightarrow> evolves r (r\<lparr>r_cancel := Some c\<rparr>)"
  by (simp add: evolves_def)

definition excl_names :: "(pipeline_id \<Rightarrow> pipeline_id list) \<Rightarrow> bool" where
  "excl_names excl \<longleftrightarrow> (\<forall>p. list_all nul_free (excl p))"

definition excl_sym :: "(pipeline_id \<Rightarrow> pipeline_id list) \<Rightarrow> bool" where
  "excl_sym excl \<longleftrightarrow> (\<forall>p q. q \<in> set (excl p) \<longrightarrow> p \<in> set (excl q))"

text \<open>
  A step of a store's history: one call of the contract. A configuration is the store with the
  run ids used so far, since \<^verbatim>\<open>CreateRun\<close> is only ever called with a fresh id; \<open>excl\<close> gives each
  pipeline the pipelines it excludes, the list the engine passes at admission.
\<close>

inductive store_step :: "'s store_ops \<Rightarrow> (pipeline_id \<Rightarrow> pipeline_id list) \<Rightarrow> 's \<times> run_id set \<Rightarrow> 's \<times> run_id set \<Rightarrow> bool"
  for so excl where
  create: "storable rec \<Longrightarrow> r_run rec \<notin> used \<Longrightarrow> so_create so s rec (excl (r_pipeline rec)) = (res, s') \<Longrightarrow>
    store_step so excl (s, used) (s', insert (r_run rec) used)"
| get: "so_get so s i = (res, s') \<Longrightarrow> store_step so excl (s, used) (s', used)"
| head: "so_head so s i = (res, s') \<Longrightarrow> store_step so excl (s, used) (s', used)"
| app: "so_apply so s i t = (res, s') \<Longrightarrow> store_step so excl (s, used) (s', used)"
| reap: "so_reap so s before limit = (res, s') \<Longrightarrow> store_step so excl (s, used) (s', used)"
| cancel: "so_cancel so s i req = (res, s') \<Longrightarrow> store_step so excl (s, used) (s', used)"
| list: "so_list so s = (res, s') \<Longrightarrow> store_step so excl (s, used) (s', used)"
| active: "nul_free p \<Longrightarrow> so_active so s p rid = (res, s') \<Longrightarrow> store_step so excl (s, used) (s', used)"

inductive_cases store_stepE: "store_step so excl (s, used) (s', used')"

locale run_store =
  fixes so :: "'s store_ops"
    and inv :: "'s \<Rightarrow> bool"
    and rec_of :: "'s \<Rightarrow> run_id \<Rightarrow> run_record option"
  assumes identity: "inv s \<Longrightarrow> rec_of s i = Some r \<Longrightarrow> r_run r = i"
    and create_law: "inv s \<Longrightarrow> storable rec \<Longrightarrow> rec_of s (r_run rec) = None \<Longrightarrow> (\<And>p. p \<in> set excl \<Longrightarrow> nul_free p) \<Longrightarrow>
      so_create so s rec excl = (res_create, s') \<Longrightarrow>
      inv s' \<and>
      (case res_create of
         Inl e \<Rightarrow> rec_of s' = rec_of s
       | Inr (Some ex, created) \<Rightarrow> \<not> created \<and> rec_of s' = rec_of s \<and>
           rec_of s (r_run ex) = Some ex \<and> occupies rec excl ex
       | Inr (None, created) \<Rightarrow> created \<and> rec_of s' = (rec_of s)(r_run rec \<mapsto> rec) \<and>
           (\<forall>i r. rec_of s i = Some r \<longrightarrow> \<not> occupies rec excl r))"
    and get_law: "inv s \<Longrightarrow> so_get so s i = (res_get, s') \<Longrightarrow> inv s' \<and> rec_of s' = rec_of s \<and>
      (case res_get of Inl e \<Rightarrow> e \<noteq> ErrRunNotFound \<or> rec_of s i = None | Inr r \<Rightarrow> rec_of s i = Some r)"
    and head_law: "inv s \<Longrightarrow> so_head so s i = (res_head, s') \<Longrightarrow> inv s' \<and> rec_of s' = rec_of s \<and>
      (case res_head of Inl e \<Rightarrow> e \<noteq> ErrRunNotFound \<or> rec_of s i = None
       | Inr h \<Rightarrow> (\<exists>r. rec_of s i = Some r \<and> head_of r h))"
    and apply_law: "inv s \<Longrightarrow> so_apply so s i t = (res_apply, s') \<Longrightarrow>
      inv s' \<and>
      (case res_apply of
         Inl e \<Rightarrow> rec_of s' = rec_of s \<and> (e = ErrRunNotFound \<longrightarrow> rec_of s i = None)
           \<and> (e = ErrRunTerminal \<longrightarrow> (\<exists>r. rec_of s i = Some r \<and> terminal r))
       | Inr _ \<Rightarrow> (\<exists>r. rec_of s i = Some r \<and> \<not> terminal r \<and> rec_of s' = (rec_of s)(i \<mapsto> apply_transition t r)))"
    and reap_law: "inv s \<Longrightarrow> so_reap so s before limit = (res_reap, s') \<Longrightarrow>
      inv s' \<and> (\<exists>D. finite D \<and> rec_of s' = (\<lambda>i. if i \<in> D then None else rec_of s i) \<and>
        (\<forall>i\<in>D. \<exists>r. rec_of s i = Some r \<and> terminal r \<and> r_updated_at r < before) \<and>
        (case res_reap of Inl e \<Rightarrow> True | Inr n \<Rightarrow> n = int (card D) \<and> n \<le> max 0 limit))"
    and cancel_law: "inv s \<Longrightarrow> so_cancel so s i req = (res_cancel, s') \<Longrightarrow>
      inv s' \<and>
      (case res_cancel of
         Inl e \<Rightarrow> rec_of s' = rec_of s \<and> (e = ErrRunNotFound \<longrightarrow> rec_of s i = None)
       | Inr False \<Rightarrow> rec_of s' = rec_of s \<and> (\<exists>r. rec_of s i = Some r \<and> \<not> terminal r \<and> r_cancel r \<noteq> None)
       | Inr True \<Rightarrow> (\<exists>r. rec_of s i = Some r \<and> \<not> terminal r \<and> r_cancel r = None \<and>
           rec_of s' = (rec_of s)(i \<mapsto> r\<lparr>r_cancel := Some req\<rparr>)))"
    and list_law: "inv s \<Longrightarrow> so_list so s = (res_list, s') \<Longrightarrow> inv s' \<and> rec_of s' = rec_of s \<and>
      (case res_list of Inl e \<Rightarrow> True
       | Inr hs \<Rightarrow> distinct (map r_run hs) \<and>
           (\<forall>h\<in>set hs. \<exists>r. rec_of s (r_run h) = Some r \<and> \<not> terminal r \<and> head_of r h) \<and>
           (\<forall>i r. rec_of s i = Some r \<and> \<not> terminal r \<longrightarrow> i \<in> r_run ` set hs))"
    and active_law: "inv s \<Longrightarrow> nul_free p \<Longrightarrow> so_active so s p res_idd = (res_active, s') \<Longrightarrow> inv s' \<and> rec_of s' = rec_of s \<and>
      (case res_active of Inl e \<Rightarrow> True
       | Inr (Some i) \<Rightarrow> (\<exists>r. rec_of s i = Some r \<and> \<not> terminal r \<and> r_pipeline r = p \<and> r_resource r = res_idd)
       | Inr None \<Rightarrow> (\<forall>i r. rec_of s i = Some r \<and> \<not> terminal r \<longrightarrow> \<not> (r_pipeline r = p \<and> r_resource r = res_idd)))"
    and steps_law: "inv s \<Longrightarrow> rec_of s i = Some r \<Longrightarrow> gm_ok (r_steps r)"
begin

definition good :: "'s \<times> run_id set \<Rightarrow> bool" where
  "good c \<longleftrightarrow> inv (fst c) \<and> (\<forall>i. rec_of (fst c) i \<noteq> None \<longrightarrow> i \<in> snd c)"

text \<open>What one step does to the contents, whatever the call was.\<close>

definition moves :: "(pipeline_id \<Rightarrow> pipeline_id list) \<Rightarrow> 's \<times> run_id set \<Rightarrow> 's \<times> run_id set \<Rightarrow> bool" where
  "moves excl c c' \<longleftrightarrow>
     (\<exists>rec. r_run rec \<notin> snd c \<and> snd c' = insert (r_run rec) (snd c) \<and> storable rec \<and>
        rec_of (fst c') = (rec_of (fst c))(r_run rec \<mapsto> rec) \<and>
        (\<forall>i r. rec_of (fst c) i = Some r \<longrightarrow> \<not> occupies rec (excl (r_pipeline rec)) r))
   \<or> (snd c \<subseteq> snd c' \<and> (\<forall>i. rec_of (fst c') i = rec_of (fst c) i
        \<or> (\<exists>r r'. rec_of (fst c) i = Some r \<and> \<not> terminal r \<and> rec_of (fst c') i = Some r' \<and> evolves r r')
        \<or> (\<exists>r. rec_of (fst c) i = Some r \<and> terminal r \<and> rec_of (fst c') i = None)))"

lemma moves_same: "rec_of s' = rec_of s \<Longrightarrow> used \<subseteq> used' \<Longrightarrow> moves excl (s, used) (s', used')"
  by (simp add: moves_def)

lemma moves_update:
  "rec_of s i = Some r \<Longrightarrow> \<not> terminal r \<Longrightarrow> evolves r r' \<Longrightarrow> rec_of s' = (rec_of s)(i \<mapsto> r') \<Longrightarrow>
   moves excl (s, used) (s', used)"
  by (simp add: moves_def)

lemma step_moves:
  assumes "store_step so excl c c'" and "good c" and names: "excl_names excl"
  shows "inv (fst c') \<and> moves excl c c'"
  using assms(1,2)
proof (induction rule: store_step.induct)
  case (create rec used s res s')
  then have fresh: "rec_of s (r_run rec) = None" by (auto simp: good_def)
  have nul: "p \<in> set (excl (r_pipeline rec)) \<Longrightarrow> nul_free p" for p
    using names by (auto simp: excl_names_def list_all_iff)
  note law = create_law [OF _ create(1) fresh nul create(3)]
  show ?case
  proof (cases res)
    case (Inl e)
    with law create show ?thesis by (auto simp: good_def moves_def)
  next
    case (Inr x)
    obtain ex b where x: "x = (ex, b)" by (cases x)
    show ?thesis
    proof (cases ex)
      case None
      then show ?thesis using law create Inr x by (auto simp: good_def moves_def intro!: exI [of _ rec])
    next
      case (Some e)
      then show ?thesis using law create Inr x by (auto simp: good_def moves_def)
    qed
  qed
next
  case (get s i res s' used)
  then show ?case using get_law [OF _ get(1)] by (simp add: good_def moves_same)
next
  case (head s i res s' used)
  then show ?case using head_law [OF _ head(1)] by (simp add: good_def moves_same)
next
  case (app s i t res s' used)
  then have "inv s" by (simp add: good_def)
  from apply_law [OF this app(1)] show ?case
    by (cases res) (auto intro: moves_same moves_update evolves_apply)
next
  case (reap s before limit res s' used)
  then have "inv s" by (simp add: good_def)
  from reap_law [OF this reap(1)] have "inv s'" and
    "\<forall>i. rec_of s' i = rec_of s i \<or> (\<exists>r. rec_of s i = Some r \<and> terminal r \<and> rec_of s' i = None)" by fastforce+
  then show ?case by (simp add: moves_def) blast
next
  case (cancel s i req res s' used)
  then have "inv s" by (simp add: good_def)
  note law = cancel_law [OF this cancel(1)]
  show ?case
  proof (cases "res = Inr True")
    case True
    then show ?thesis using law by (auto intro: moves_update evolves_cancel)
  next
    case False
    then show ?thesis using law by (cases res) (auto intro: moves_same)
  qed
next
  case (list s res s' used)
  then show ?case using list_law [OF _ list(1)] by (simp add: good_def moves_same)
next
  case (active p s rid res s' used)
  then show ?case using active_law [OF _ active(1,2)] by (simp add: good_def moves_same)
qed

lemma step_good:
  assumes "store_step so excl c c'" and "good c" and "excl_names excl"
  shows "good c'"
proof -
  have inv: "inv (fst c')" and mv: "moves excl c c'" using step_moves [OF assms] by auto
  from mv assms(2) have "\<forall>i. rec_of (fst c') i \<noteq> None \<longrightarrow> i \<in> snd c'"
    unfolding moves_def good_def by (elim disjE exE conjE) (simp, metis option.distinct(1) subsetD)
  with inv show ?thesis by (simp add: good_def)
qed

lemma step_evolves:
  assumes "store_step so excl c c'" and "good c" and "excl_names excl"
    and "rec_of (fst c') i = Some r'" and "i \<in> snd c"
  shows "\<exists>r. rec_of (fst c) i = Some r \<and> evolves r r'"
proof -
  have "moves excl c c'" using step_moves [OF assms(1-3)] by simp
  then show ?thesis using assms(4,5) unfolding moves_def
    by (elim disjE exE conjE) (auto split: if_splits, metis evolves_refl option.distinct(1) option.inject)
qed

lemma steps_good:
  assumes "(store_step so excl)\<^sup>*\<^sup>* c c'" and "good c" and "excl_names excl"
  shows "good c' \<and> snd c \<subseteq> snd c'"
  using assms(1)
proof (induction rule: rtranclp_induct)
  case (step y z)
  have "snd y \<subseteq> snd z" using step(2) by (auto elim: store_step.cases)
  then show ?case using step step_good [OF step(2) _ assms(3)] by auto
qed (use assms(2) in simp)

lemma history_evolves:
  assumes "(store_step so excl)\<^sup>*\<^sup>* c c'" and "good c" and "excl_names excl"
    and "rec_of (fst c') i = Some r'" and "i \<in> snd c"
  shows "\<exists>r. rec_of (fst c) i = Some r \<and> evolves r r'"
  using assms(1,4)
proof (induction arbitrary: r' rule: rtranclp_induct)
  case base
  then show ?case by auto
next
  case (step y z)
  have g: "good y" "i \<in> snd y" using steps_good [OF step(1) assms(2,3)] assms(5) by auto
  obtain r1 where r1: "rec_of (fst y) i = Some r1" "evolves r1 r'"
    using step_evolves [OF step(2) g(1) assms(3) step.prems g(2)] by auto
  then show ?case using step.IH [OF r1(1)] evolves_trans by blast
qed

definition exclusive :: "(pipeline_id \<Rightarrow> pipeline_id list) \<Rightarrow> 's \<Rightarrow> bool" where
  "exclusive excl s \<longleftrightarrow> (\<forall>i j r r'. rec_of s i = Some r \<longrightarrow> rec_of s j = Some r' \<longrightarrow> \<not> terminal r \<longrightarrow> \<not> terminal r' \<longrightarrow>
     r_resource r = r_resource r' \<longrightarrow> r_pipeline r' \<in> insert (r_pipeline r) (set (excl (r_pipeline r))) \<longrightarrow> i = j)"

lemma step_exclusive:
  assumes "store_step so excl c c'" and "good c" and "excl_names excl"
    and sym: "excl_sym excl" and ex: "exclusive excl (fst c)"
  shows "exclusive excl (fst c')"
proof -
  have "moves excl c c'" using step_moves [OF assms(1-3)] by simp
  then consider (new) rec where "rec_of (fst c') = (rec_of (fst c))(r_run rec \<mapsto> rec)"
        "\<forall>i r. rec_of (fst c) i = Some r \<longrightarrow> \<not> occupies rec (excl (r_pipeline rec)) r"
    | (old) "\<And>i r'. rec_of (fst c') i = Some r' \<Longrightarrow> \<not> terminal r' \<Longrightarrow>
        \<exists>r. rec_of (fst c) i = Some r \<and> \<not> terminal r \<and> r_pipeline r = r_pipeline r' \<and> r_resource r = r_resource r'"
    unfolding moves_def evolves_def
    by (elim disjE exE conjE) (blast, metis option.distinct(1) option.inject)
  then show ?thesis
  proof cases
    case new
    then show ?thesis using ex sym unfolding exclusive_def occupies_def excl_sym_def
      by (auto split: if_splits) metis+
  next
    case old
    show ?thesis unfolding exclusive_def
    proof (intro allI impI)
      fix i j r r' assume a: "rec_of (fst c') i = Some r" "rec_of (fst c') j = Some r'" "\<not> terminal r" "\<not> terminal r'"
        "r_resource r = r_resource r'" "r_pipeline r' \<in> insert (r_pipeline r) (set (excl (r_pipeline r)))"
      from old [OF a(1,3)] old [OF a(2,4)] a(5,6) show "i = j"
        using ex unfolding exclusive_def by metis
    qed
  qed
qed

lemma history_exclusive:
  assumes "(store_step so excl)\<^sup>*\<^sup>* c c'" and "good c" and "excl_names excl"
    and "excl_sym excl" and "exclusive excl (fst c)"
  shows "exclusive excl (fst c')"
  using assms(1)
proof (induction rule: rtranclp_induct)
  case (step y z)
  then show ?case using step_exclusive [OF step(2) _ assms(3,4)] steps_good [OF step(1) assms(2,3)] by blast
qed (rule assms(5))

end

end
