(* ===== verification/Mem_Store.thy ===== *)
theory Mem_Store
  imports Store_Spec
begin

text \<open>
  The in-memory store (\<^verbatim>\<open>src/store/mem/mem.go\<close>), the executable reference of the store contract:
  its three maps, every method as a function on them, the invariant that ties the slot index
  and the in-flight index to the records, and the interpretation of \<open>run_store\<close> on it. The mutex
  held by every method makes each one atomic. A nil dereference of the source is \<open>GoPanic\<close>; the
  invariant rules it out.
\<close>

section \<open>State and operations\<close>

record mem_store =
  ms_runs :: "(run_id, run_record) gomap"
  ms_slots :: "(string, run_id) gomap"
  ms_inflight :: "(run_id, step_id) gomap"

definition New :: mem_store where
  "New = \<lparr>ms_runs = [], ms_slots = [], ms_inflight = []\<rparr>"

definition slotKey :: "pipeline_id \<Rightarrow> resource_id \<Rightarrow> string" where
  "slotKey p r = p @ [CHR 0x00] @ r"

fun first_slot :: "mem_store \<Rightarrow> resource_id \<Rightarrow> pipeline_id list \<Rightarrow> run_id option" where
  "first_slot s res [] = None"
| "first_slot s res (p # ps) = (case gm_get (ms_slots s) (slotKey p res) of
     Some active \<Rightarrow> Some active | None \<Rightarrow> first_slot s res ps)"

definition CreateRun :: "mem_store \<Rightarrow> run_record \<Rightarrow> pipeline_id list \<Rightarrow> (run_record option \<times> bool) result \<times> mem_store" where
  "CreateRun s rec excluding =
     (case (case gm_get (ms_slots s) (slotKey (r_pipeline rec) (r_resource rec)) of
              Some active \<Rightarrow> Some active
            | None \<Rightarrow> first_slot s (r_resource rec) excluding) of
        Some active \<Rightarrow> (case gm_get (ms_runs s) active of
            None \<Rightarrow> (Inl (GoPanic ''nil record''), s)
          | Some r \<Rightarrow> (Inr (Some r, False), s))
      | None \<Rightarrow> (let c = if terminal rec then compact_terminal rec else rec in
          (Inr (None, True), s\<lparr>ms_runs := gm_put (r_run rec) c (ms_runs s),
             ms_slots := gm_put (slotKey (r_pipeline rec) (r_resource rec)) (r_run rec) (ms_slots s)\<rparr>)))"

definition GetActiveRunID :: "mem_store \<Rightarrow> pipeline_id \<Rightarrow> resource_id \<Rightarrow> (run_id option) result \<times> mem_store" where
  "GetActiveRunID s p r = (Inr (gm_get (ms_slots s) (slotKey p r)), s)"

definition GetRun :: "mem_store \<Rightarrow> run_id \<Rightarrow> run_record result \<times> mem_store" where
  "GetRun s i = (case gm_get (ms_runs s) i of None \<Rightarrow> (Inl ErrRunNotFound, s) | Some r \<Rightarrow> (Inr r, s))"

definition head_rec :: "mem_store \<Rightarrow> run_record \<Rightarrow> run_record result" where
  "head_rec s r = (let h = r\<lparr>r_input := None, r_output := None\<rparr> in
     if terminal h then Inr h
     else let h = h\<lparr>r_steps := []\<rparr> in
       case gm_get (ms_inflight s) (r_run r) of
         None \<Rightarrow> Inr h
       | Some k \<Rightarrow> (case gm_get (r_steps r) k of
             None \<Rightarrow> Inl (GoPanic ''nil step'')
           | Some sr \<Rightarrow> Inr (put_op k (r_phase r)
               (zero_op\<lparr>or_status := OpUnresolved, or_attempts := or_attempts (sr_op (r_phase r) sr)\<rparr>) h)))"

definition GetRunHead :: "mem_store \<Rightarrow> run_id \<Rightarrow> run_record result \<times> mem_store" where
  "GetRunHead s i = (case gm_get (ms_runs s) i of None \<Rightarrow> (Inl ErrRunNotFound, s) | Some r \<Rightarrow> (head_rec s r, s))"

text \<open>\<^verbatim>\<open>ApplyTransition\<close>: the record takes the transition's effect; the indices follow the cursor and
  the outcome in the order of the source.\<close>

definition ApplyTransition :: "mem_store \<Rightarrow> run_id \<Rightarrow> transition \<Rightarrow> unit result \<times> mem_store" where
  "ApplyTransition s i t = (case gm_get (ms_runs s) i of
     None \<Rightarrow> (Inl ErrRunNotFound, s)
   | Some rec \<Rightarrow> if terminal rec then (Inl ErrRunTerminal, s)
     else let rec1 = apply_failure (t_failure t) (apply_cursor (t_cursor t) (apply_ops (t_ops t) rec));
            inflight0 = gm_del i (ms_inflight s);
            inflight1 = (if cu_step (t_cursor t) \<noteq> [] then gm_put i (cu_step (t_cursor t)) inflight0 else inflight0)
       in case t_outcome t of
            None \<Rightarrow> (Inr (), s\<lparr>ms_runs := gm_put i rec1 (ms_runs s), ms_inflight := inflight1\<rparr>)
          | Some oc \<Rightarrow>
              (let key = slotKey (r_pipeline rec1) (r_resource rec1) in
               (Inr (), \<lparr>ms_runs = gm_put i (compact_terminal (rec1\<lparr>r_outcome := Some oc, r_output := t_output t\<rparr>)) (ms_runs s),
                  ms_slots = (if gm_get (ms_slots s) key = Some i then gm_del key (ms_slots s) else ms_slots s),
                  ms_inflight = gm_del i inflight1\<rparr>)))"

fun reap_loop :: "gotime \<Rightarrow> int \<Rightarrow> (run_id \<times> run_record) list \<Rightarrow> int \<Rightarrow> (run_id, run_record) gomap \<Rightarrow> int \<times> (run_id, run_record) gomap" where
  "reap_loop before limit [] deleted m = (deleted, m)"
| "reap_loop before limit ((i, rec) # rest) deleted m =
     (if limit \<le> deleted then (deleted, m)
      else if terminal rec \<and> r_updated_at rec < before then reap_loop before limit rest (deleted + 1) (gm_del i m)
      else reap_loop before limit rest deleted m)"

definition ReapTerminal :: "mem_store \<Rightarrow> gotime \<Rightarrow> int \<Rightarrow> int result \<times> mem_store" where
  "ReapTerminal s before limit =
     (case reap_loop before limit (ms_runs s) 0 (ms_runs s) of (n, m) \<Rightarrow> (Inr n, s\<lparr>ms_runs := m\<rparr>))"

definition RequestCancel :: "mem_store \<Rightarrow> run_id \<Rightarrow> cancel_request \<Rightarrow> bool result \<times> mem_store" where
  "RequestCancel s i req = (case gm_get (ms_runs s) i of
     None \<Rightarrow> (Inl ErrRunNotFound, s)
   | Some rec \<Rightarrow> if terminal rec then (Inl ErrRunTerminal, s)
       else if r_cancel rec \<noteq> None then (Inr False, s)
       else (Inr True, s\<lparr>ms_runs := gm_put i (rec\<lparr>r_cancel := Some req\<rparr>) (ms_runs s)\<rparr>))"

fun list_heads :: "mem_store \<Rightarrow> run_record list \<Rightarrow> (run_record list) result" where
  "list_heads s [] = Inr []"
| "list_heads s (r # rs) =
     (if terminal r then list_heads s rs
      else case head_rec s r of Inl e \<Rightarrow> Inl e
        | Inr h \<Rightarrow> (case list_heads s rs of Inl e \<Rightarrow> Inl e | Inr hs \<Rightarrow> Inr (h # hs)))"

definition ListNonterminal :: "mem_store \<Rightarrow> (run_record list) result \<times> mem_store" where
  "ListNonterminal s = (list_heads s (map snd (ms_runs s)), s)"

text \<open>\<^verbatim>\<open>sortRecords\<close>, the insertion sort over indices.\<close>

fun sift_down :: "nat \<Rightarrow> run_record list \<Rightarrow> run_record list" where
  "sift_down 0 recs = recs"
| "sift_down (Suc j) recs =
     (if r_created_at (recs ! Suc j) < r_created_at (recs ! j)
      then sift_down j (recs[Suc j := recs ! j, j := recs ! Suc j]) else recs)"

lemma length_sift_down [simp]: "length (sift_down j recs) = length recs"
  by (induction j arbitrary: recs) auto

function sort_from :: "nat \<Rightarrow> run_record list \<Rightarrow> run_record list" where
  "sort_from i recs = (if i < length recs then sort_from (Suc i) (sift_down i recs) else recs)"
  by auto
termination by (relation "measure (\<lambda>(i, recs). length recs - i)") auto

declare sort_from.simps [simp del]

definition sortRecords :: "run_record list \<Rightarrow> run_record list" where
  "sortRecords recs = sort_from 1 recs"

definition Runs :: "mem_store \<Rightarrow> run_record list" where
  "Runs s = sortRecords (map snd (ms_runs s))"

definition mem_ops :: "mem_store store_ops" where
  "mem_ops = \<lparr>so_create = CreateRun, so_get = GetRun, so_head = GetRunHead, so_apply = ApplyTransition,
     so_reap = ReapTerminal, so_cancel = RequestCancel, so_list = ListNonterminal, so_active = GetActiveRunID\<rparr>"

lemma mem_ops_sel [simp]:
  "so_create mem_ops = CreateRun" "so_get mem_ops = GetRun" "so_head mem_ops = GetRunHead"
  "so_apply mem_ops = ApplyTransition" "so_reap mem_ops = ReapTerminal" "so_cancel mem_ops = RequestCancel"
  "so_list mem_ops = ListNonterminal" "so_active mem_ops = GetActiveRunID"
  by (simp_all add: mem_ops_def)

section \<open>Invariant\<close>

definition mem_inv :: "mem_store \<Rightarrow> bool" where
  "mem_inv s \<longleftrightarrow> gm_ok (ms_runs s) \<and> gm_ok (ms_slots s) \<and> gm_ok (ms_inflight s)
     \<and> (\<forall>i r. gm_get (ms_runs s) i = Some r \<longrightarrow> r_run r = i \<and> nul_free (r_pipeline r) \<and> gm_ok (r_steps r))
     \<and> (\<forall>k i. gm_get (ms_slots s) k = Some i \<longleftrightarrow>
          (\<exists>r. gm_get (ms_runs s) i = Some r \<and> \<not> terminal r \<and> k = slotKey (r_pipeline r) (r_resource r)))
     \<and> (\<forall>i k. gm_get (ms_inflight s) i = Some k \<longrightarrow>
          (\<exists>r. gm_get (ms_runs s) i = Some r \<and> \<not> terminal r \<and> gm_has (r_steps r) k
             \<and> or_status (rec_op r k (r_phase r)) = OpUnresolved))"

abbreviation mem_rec :: "mem_store \<Rightarrow> run_id \<Rightarrow> run_record option" where
  "mem_rec s \<equiv> gm_get (ms_runs s)"

lemma slotKey_inj:
  assumes "nul_free p" "nul_free q" "slotKey p r = slotKey q r'"
  shows "p = q \<and> r = r'"
proof -
  have tw: "takeWhile (\<lambda>c. c \<noteq> CHR 0x00) (slotKey p r) = p" if "nul_free p" for p r
    using that by (auto simp: slotKey_def nul_free_def takeWhile_tail)
  have "p = q" using tw [OF assms(1), of r] tw [OF assms(2), of r'] assms(3) by simp
  then show ?thesis using assms(3) by (simp add: slotKey_def)
qed


lemma mem_invD:
  assumes "mem_inv s"
  shows "gm_ok (ms_runs s)" "gm_ok (ms_slots s)" "gm_ok (ms_inflight s)"
    "mem_rec s i = Some r \<Longrightarrow> r_run r = i"
    "mem_rec s i = Some r \<Longrightarrow> nul_free (r_pipeline r)"
    "mem_rec s i = Some r \<Longrightarrow> gm_ok (r_steps r)"
    "gm_get (ms_slots s) k = Some i \<longleftrightarrow>
       (\<exists>r. mem_rec s i = Some r \<and> \<not> terminal r \<and> k = slotKey (r_pipeline r) (r_resource r))"
    "gm_get (ms_inflight s) i = Some k' \<Longrightarrow>
       (\<exists>r. mem_rec s i = Some r \<and> \<not> terminal r \<and> gm_has (r_steps r) k'
          \<and> or_status (rec_op r k' (r_phase r)) = OpUnresolved)"
  using assms by (simp_all only: mem_inv_def)

lemma mem_invI:
  assumes "gm_ok (ms_runs s)" "gm_ok (ms_slots s)" "gm_ok (ms_inflight s)"
    "\<And>i r. mem_rec s i = Some r \<Longrightarrow> r_run r = i \<and> nul_free (r_pipeline r) \<and> gm_ok (r_steps r)"
    "\<And>k i. gm_get (ms_slots s) k = Some i \<longleftrightarrow>
       (\<exists>r. mem_rec s i = Some r \<and> \<not> terminal r \<and> k = slotKey (r_pipeline r) (r_resource r))"
    "\<And>i k. gm_get (ms_inflight s) i = Some k \<Longrightarrow>
       (\<exists>r. mem_rec s i = Some r \<and> \<not> terminal r \<and> gm_has (r_steps r) k
          \<and> or_status (rec_op r k (r_phase r)) = OpUnresolved)"
  shows "mem_inv s"
  unfolding mem_inv_def using assms by (intro conjI allI impI) blast+

lemma mem_inv_New [simp, intro]: "mem_inv New"
  by (simp add: mem_inv_def New_def)

lemma slot_occupied:
  assumes "mem_inv s" and "nul_free p"
  shows "gm_get (ms_slots s) (slotKey p res) = Some i \<longleftrightarrow>
    (\<exists>r. mem_rec s i = Some r \<and> \<not> terminal r \<and> r_pipeline r = p \<and> r_resource r = res)"
  using mem_invD(5,7) [OF assms(1)] slotKey_inj [OF assms(2)] by metis

lemma first_slot_Some:
  assumes "mem_inv s" "\<And>p. p \<in> set ps \<Longrightarrow> nul_free p" "first_slot s res ps = Some i"
  shows "\<exists>r. mem_rec s i = Some r \<and> \<not> terminal r \<and> r_pipeline r \<in> set ps \<and> r_resource r = res"
  using assms(2,3)
proof (induction ps)
  case (Cons p ps)
  have "nul_free p" using Cons.prems(1) by simp
  then show ?case using Cons slot_occupied [OF assms(1), of p res i]
    by (auto split: option.splits)
qed simp

lemma first_slot_None:
  assumes "mem_inv s" "\<And>p. p \<in> set ps \<Longrightarrow> nul_free p" "first_slot s res ps = None" "mem_rec s i = Some r" "\<not> terminal r"
    "r_resource r = res"
  shows "r_pipeline r \<notin> set ps"
  using assms(2,3)
proof (induction ps)
  case (Cons p ps)
  have "nul_free p" using Cons.prems(1) by simp
  then show ?case using Cons slot_occupied [OF assms(1), of p res i] assms(4-6)
    by (auto split: option.splits)
qed simp

lemma CreateRun_law:
  assumes inv: "mem_inv s" and sto: "storable rec" and fresh: "mem_rec s (r_run rec) = None"
    and nul: "\<And>p. p \<in> set excl \<Longrightarrow> nul_free p" and run: "CreateRun s rec excl = (res, s')"
  shows "mem_inv s' \<and>
      (case res of
         Inl e \<Rightarrow> mem_rec s' = mem_rec s
       | Inr (Some ex, created) \<Rightarrow> \<not> created \<and> mem_rec s' = mem_rec s \<and>
           mem_rec s (r_run ex) = Some ex \<and> occupies rec excl ex
       | Inr (None, created) \<Rightarrow> created \<and> mem_rec s' = (mem_rec s)(r_run rec \<mapsto> rec) \<and>
           (\<forall>i r. mem_rec s i = Some r \<longrightarrow> \<not> occupies rec excl r))"
proof -
  let ?k = "slotKey (r_pipeline rec) (r_resource rec)"
  have nf: "nul_free (r_pipeline rec)" and nt: "\<not> terminal rec" and ok: "gm_ok (r_steps rec)"
    using sto by (auto simp: storable_def)
  define act where "act = (case gm_get (ms_slots s) ?k of Some a \<Rightarrow> Some a | None \<Rightarrow> first_slot s (r_resource rec) excl)"
  show ?thesis
  proof (cases act)
    case (Some i)
    have "\<exists>r. mem_rec s i = Some r \<and> occupies rec excl r"
    proof (cases "gm_get (ms_slots s) ?k")
      case None
      then show ?thesis using Some first_slot_Some [of s excl "r_resource rec" i, OF inv nul] by (auto simp: act_def occupies_def)
    next
      case (Some j)
      then have "j = i" using \<open>act = Some i\<close> by (simp add: act_def)
      then show ?thesis using Some slot_occupied [OF inv nf, of "r_resource rec" i] by (auto simp: occupies_def)
    qed
    then obtain r where r: "mem_rec s i = Some r" "occupies rec excl r" by auto
    then show ?thesis using run Some inv mem_invD(4) [OF inv r(1)] by (auto simp: CreateRun_def act_def)
  next
    case None
    then have k: "gm_get (ms_slots s) ?k = None" and fs: "first_slot s (r_resource rec) excl = None"
      by (auto simp: act_def split: option.splits)
    have free: "\<not> occupies rec excl r" if "mem_rec s i = Some r" for i r
      using that first_slot_None [of s excl, OF inv nul fs that] slot_occupied [OF inv nf, of "r_resource rec" i] k
      by (auto simp: occupies_def)
    have s': "s' = s\<lparr>ms_runs := gm_put (r_run rec) rec (ms_runs s), ms_slots := gm_put ?k (r_run rec) (ms_slots s)\<rparr>"
      and res: "res = Inr (None, True)"
      using run k fs nt by (auto simp: CreateRun_def Let_def)
    have "mem_inv s'"
    proof (rule mem_invI)
      fix i k' assume "gm_get (ms_inflight s') i = Some k'"
      then show "\<exists>r. mem_rec s' i = Some r \<and> \<not> terminal r \<and> gm_has (r_steps r) k' \<and> or_status (rec_op r k' (r_phase r)) = OpUnresolved"
        using mem_invD(8) [OF inv] fresh by (force simp: s')
    next
      fix k' i
      have "gm_get (ms_slots s) k' = Some i \<longleftrightarrow> (\<exists>r. mem_rec s i = Some r \<and> \<not> terminal r \<and> k' = slotKey (r_pipeline r) (r_resource r))"
        by (rule mem_invD(7) [OF inv])
      moreover have "gm_get (ms_slots s) ?k \<noteq> Some i" using k by simp
      ultimately show "gm_get (ms_slots s') k' = Some i \<longleftrightarrow> (\<exists>r. mem_rec s' i = Some r \<and> \<not> terminal r \<and> k' = slotKey (r_pipeline r) (r_resource r))"
        using nt fresh mem_invD(7) [OF inv, of ?k i] by (auto simp: s')
    qed (use inv nf ok mem_invD [OF inv] in \<open>auto simp: s' split: if_splits\<close>)
    then show ?thesis using free fresh by (simp add: res s' fun_eq_iff)
  qed
qed

lemma mem_inv_update:
  assumes inv: "mem_inv s" and r: "mem_rec s i = Some r" "\<not> terminal r"
    and r': "\<not> terminal r'" "r_run r' = r_run r" "r_pipeline r' = r_pipeline r" "r_resource r' = r_resource r"
      "gm_ok (r_steps r')"
    and fl: "gm_ok fl" "\<And>j. j \<noteq> i \<Longrightarrow> gm_get fl j = gm_get (ms_inflight s) j"
      "\<And>k. gm_get fl i = Some k \<Longrightarrow> gm_has (r_steps r') k \<and> or_status (rec_op r' k (r_phase r')) = OpUnresolved"
  shows "mem_inv (s\<lparr>ms_runs := gm_put i r' (ms_runs s), ms_inflight := fl\<rparr>)" (is "mem_inv ?s")
proof (rule mem_invI)
  fix j k assume "gm_get (ms_inflight ?s) j = Some k"
  then show "\<exists>r. mem_rec ?s j = Some r \<and> \<not> terminal r \<and> gm_has (r_steps r) k \<and> or_status (rec_op r k (r_phase r)) = OpUnresolved"
    using fl(2,3) r'(1) mem_invD(8) [OF inv, of j k] by (cases "j = i") auto
next
  fix k j
  show "gm_get (ms_slots ?s) k = Some j \<longleftrightarrow> (\<exists>r. mem_rec ?s j = Some r \<and> \<not> terminal r \<and> k = slotKey (r_pipeline r) (r_resource r))"
    using mem_invD(7) [OF inv, of k j] r r' by (cases "j = i") auto
qed (use fl(1) r r' mem_invD [OF inv] in \<open>auto split: if_splits\<close>)

lemma mem_inv_terminate:
  assumes inv: "mem_inv s" and r: "mem_rec s i = Some r" "\<not> terminal r"
    and r': "terminal r'" "r_run r' = r_run r" "r_pipeline r' = r_pipeline r" "r_resource r' = r_resource r"
      "gm_ok (r_steps r')"
    and fl: "gm_ok fl" "\<And>j. j \<noteq> i \<Longrightarrow> gm_get fl j = gm_get (ms_inflight s) j" "gm_get fl i = None"
  shows "mem_inv \<lparr>ms_runs = gm_put i r' (ms_runs s),
    ms_slots = gm_del (slotKey (r_pipeline r) (r_resource r)) (ms_slots s), ms_inflight = fl\<rparr>" (is "mem_inv ?s")
proof (rule mem_invI)
  fix j k assume "gm_get (ms_inflight ?s) j = Some k"
  then show "\<exists>r. mem_rec ?s j = Some r \<and> \<not> terminal r \<and> gm_has (r_steps r) k \<and> or_status (rec_op r k (r_phase r)) = OpUnresolved"
    using fl(2,3) mem_invD(8) [OF inv, of j k] by (cases "j = i") auto
next
  fix k j
  have own: "gm_get (ms_slots s) (slotKey (r_pipeline r) (r_resource r)) = Some i"
    using mem_invD(7) [OF inv] r by blast
  show "gm_get (ms_slots ?s) k = Some j \<longleftrightarrow> (\<exists>r. mem_rec ?s j = Some r \<and> \<not> terminal r \<and> k = slotKey (r_pipeline r) (r_resource r))"
    using mem_invD(7) [OF inv, of k j] own r r'(1) by (cases "j = i") auto
qed (use fl(1) r r' mem_invD [OF inv] in \<open>auto split: if_splits\<close>)

lemma ApplyTransition_law:
  assumes inv: "mem_inv s" and run: "ApplyTransition s i t = (res, s')"
  shows "mem_inv s' \<and>
      (case res of
         Inl e \<Rightarrow> mem_rec s' = mem_rec s \<and> (e = ErrRunNotFound \<longrightarrow> mem_rec s i = None)
           \<and> (e = ErrRunTerminal \<longrightarrow> (\<exists>r. mem_rec s i = Some r \<and> terminal r))
       | Inr _ \<Rightarrow> (\<exists>r. mem_rec s i = Some r \<and> \<not> terminal r \<and> mem_rec s' = (mem_rec s)(i \<mapsto> apply_transition t r)))"
proof (cases "\<exists>r. mem_rec s i = Some r \<and> \<not> terminal r")
  case False
  then show ?thesis using inv run by (auto simp: ApplyTransition_def split: option.splits)
next
  case True
  then obtain r where r: "mem_rec s i = Some r" "\<not> terminal r" by auto
  define r1 where "r1 = apply_failure (t_failure t) (apply_cursor (t_cursor t) (apply_ops (t_ops t) r))"
  define fl where "fl = (if cu_step (t_cursor t) \<noteq> [] then gm_put i (cu_step (t_cursor t)) (gm_del i (ms_inflight s)) else gm_del i (ms_inflight s))"
  have id1: "same_identity r r1" unfolding r1_def
    by (meson same_identity_trans apply_ops_identity apply_cursor_identity apply_failure_frame(1))
  have nt1: "\<not> terminal r1" and ok1: "gm_ok (r_steps r1)"
    using r mem_invD(6) [OF inv r(1)] by (auto simp: r1_def terminal_def)
  have fl: "gm_ok fl" "\<And>j. j \<noteq> i \<Longrightarrow> gm_get fl j = gm_get (ms_inflight s) j"
    using mem_invD(3) [OF inv] by (auto simp: fl_def)
  show ?thesis
  proof (cases "t_outcome t")
    case None
    have s': "s' = s\<lparr>ms_runs := gm_put i r1 (ms_runs s), ms_inflight := fl\<rparr>" and res: "res = Inr ()"
      using run r None by (auto simp: ApplyTransition_def r1_def fl_def Let_def)
    have fli: "gm_has (r_steps r1) k \<and> or_status (rec_op r1 k (r_phase r1)) = OpUnresolved" if "gm_get fl i = Some k" for k
    proof -
      have k: "cu_step (t_cursor t) \<noteq> []" "k = cu_step (t_cursor t)" using that by (auto simp: fl_def split: if_splits)
      show ?thesis using apply_cursor_in_flight [OF k(1), of "apply_ops (t_ops t) r"]
        by (simp add: k(2) r1_def rec_op_def rec_step_def)
    qed
    have "mem_inv s'" unfolding s'
      using mem_inv_update [OF inv r nt1 _ _ _ ok1 fl fli] id1 by (simp add: same_identity_def)
    moreover have "apply_transition t r = r1" by (simp add: apply_transition_def r1_def apply_outcome_def None)
    ultimately show ?thesis using r by (simp add: s' res fun_eq_iff)
  next
    case (Some oc)
    let ?k = "slotKey (r_pipeline r) (r_resource r)" and ?r = "apply_transition t r"
    have at: "?r = compact_terminal (r1\<lparr>r_outcome := Some oc, r_output := t_output t\<rparr>)"
      by (simp add: apply_transition_def r1_def apply_outcome_def Some)
    have own: "gm_get (ms_slots s) ?k = Some i" using mem_invD(7) [OF inv] r by blast
    have s': "s' = \<lparr>ms_runs = gm_put i ?r (ms_runs s), ms_slots = gm_del ?k (ms_slots s), ms_inflight = gm_del i fl\<rparr>"
      and res: "res = Inr ()"
      using run r Some own id1
      by (auto simp: ApplyTransition_def at same_identity_def fl_def Let_def r1_def [symmetric])
    have "mem_inv s'" unfolding s'
      using mem_inv_terminate [OF inv r, of ?r "gm_del i fl"] apply_transition_identity [of r t]
        apply_transition_terminal [OF r(2), of t] Some mem_invD(6) [OF inv r(1)] fl
      by (simp add: same_identity_def)
    then show ?thesis using r by (simp add: s' res fun_eq_iff)
  qed
qed

lemma RequestCancel_law:
  assumes inv: "mem_inv s" and run: "RequestCancel s i req = (res, s')"
  shows "mem_inv s' \<and>
      (case res of
         Inl e \<Rightarrow> mem_rec s' = mem_rec s \<and> (e = ErrRunNotFound \<longrightarrow> mem_rec s i = None)
       | Inr False \<Rightarrow> mem_rec s' = mem_rec s \<and> (\<exists>r. mem_rec s i = Some r \<and> \<not> terminal r \<and> r_cancel r \<noteq> None)
       | Inr True \<Rightarrow> (\<exists>r. mem_rec s i = Some r \<and> \<not> terminal r \<and> r_cancel r = None \<and>
           mem_rec s' = (mem_rec s)(i \<mapsto> r\<lparr>r_cancel := Some req\<rparr>)))"
proof (cases "\<exists>r. mem_rec s i = Some r \<and> \<not> terminal r \<and> r_cancel r = None")
  case False
  then show ?thesis using inv run by (auto simp: RequestCancel_def split: option.splits if_splits)
next
  case True
  then obtain r where r: "mem_rec s i = Some r" "\<not> terminal r" "r_cancel r = None" by auto
  have s': "s' = s\<lparr>ms_runs := gm_put i (r\<lparr>r_cancel := Some req\<rparr>) (ms_runs s), ms_inflight := ms_inflight s\<rparr>"
    and res: "res = Inr True" using run r by (auto simp: RequestCancel_def)
  have "gm_has (r_steps r) k \<and> or_status (rec_op r k (r_phase r)) = OpUnresolved" if "gm_get (ms_inflight s) i = Some k" for k
    using mem_invD(8) [OF inv that] r by auto
  then have "mem_inv s'" unfolding s'
    using r mem_invD [OF inv]
    by (intro mem_inv_update [OF inv r(1,2)]) (auto simp: terminal_def rec_op_def rec_step_def)
  then show ?thesis using r by (simp add: s' res fun_eq_iff)
qed

lemma mem_inv_remove:
  assumes inv: "mem_inv s" and ok: "gm_ok m" and D: "\<And>i. i \<in> D \<Longrightarrow> \<exists>r. mem_rec s i = Some r \<and> terminal r"
    and m: "gm_get m = (\<lambda>i. if i \<in> D then None else mem_rec s i)"
  shows "mem_inv (s\<lparr>ms_runs := m\<rparr>)" (is "mem_inv ?s")
proof (rule mem_invI)
  fix j k assume "gm_get (ms_inflight ?s) j = Some k"
  then show "\<exists>r. mem_rec ?s j = Some r \<and> \<not> terminal r \<and> gm_has (r_steps r) k \<and> or_status (rec_op r k (r_phase r)) = OpUnresolved"
    using mem_invD(8) [OF inv, of j k] D [of j] by (cases "j \<in> D") (auto simp: m)
next
  fix k j
  show "gm_get (ms_slots ?s) k = Some j \<longleftrightarrow> (\<exists>r. mem_rec ?s j = Some r \<and> \<not> terminal r \<and> k = slotKey (r_pipeline r) (r_resource r))"
    using mem_invD(7) [OF inv, of k j] D [of j] by (cases "j \<in> D") (auto simp: m)
qed (use ok mem_invD [OF inv] in \<open>auto simp: m split: if_splits\<close>)

text \<open>The reap loop removes a set of the visited entries, each terminal and old enough, at most
  as many as the limit leaves, and counts them.\<close>

lemma gm_get_skip: "i \<notin> D \<Longrightarrow> j \<in> D \<Longrightarrow> gm_get ((i, v) # m) j = gm_get m j"
  by auto

lemma reap_loop_effect:
  assumes "reap_loop before limit xs deleted m = (n, m')" and "gm_ok xs" and "gm_ok m"
  shows "gm_ok m' \<and> (\<exists>D. finite D \<and> (\<forall>i\<in>D. \<exists>r. gm_get xs i = Some r \<and> terminal r \<and> r_updated_at r < before)
     \<and> gm_get m' = (\<lambda>i. if i \<in> D then None else gm_get m i) \<and> n = deleted + int (card D) \<and> n \<le> max deleted limit)"
  using assms
proof (induction before limit xs deleted m rule: reap_loop.induct)
  case (1 before limit deleted m)
  then show ?case by (auto intro!: exI [of _ "{}"])
next
  case (2 before limit i rec rest deleted m)
  have ok: "gm_ok rest" "i \<notin> set (map fst rest)" using 2(4) by (auto simp: gm_ok_def)
  consider (stop) "limit \<le> deleted" | (del) "\<not> limit \<le> deleted" "terminal rec \<and> r_updated_at rec < before"
    | (skip) "\<not> limit \<le> deleted" "\<not> (terminal rec \<and> r_updated_at rec < before)" by blast
  then show ?case
  proof cases
    case stop
    then show ?thesis using 2(3,5) by (auto intro!: exI [of _ "{}"])
  next
    case del
    have "reap_loop before limit rest (deleted + 1) (gm_del i m) = (n, m')" using del 2(3) by (auto split: if_splits)
    from 2(1) [OF del this ok(1)] 2(5) obtain D where D: "finite D" "\<forall>j\<in>D. \<exists>r. gm_get rest j = Some r \<and> terminal r \<and> r_updated_at r < before"
        "gm_get m' = (\<lambda>j. if j \<in> D then None else gm_get (gm_del i m) j)"
        "n = deleted + 1 + int (card D)" "n \<le> max (deleted + 1) limit" "gm_ok m'"
      by blast
    have i: "i \<notin> D" using D(2) ok(2) by (force dest: map_of_SomeD)
    then have "\<forall>j\<in>insert i D. \<exists>r. gm_get ((i, rec) # rest) j = Some r \<and> terminal r \<and> r_updated_at r < before"
      using D(2) del(2) by auto
    moreover have "gm_get m' = (\<lambda>j. if j \<in> insert i D then None else gm_get m j)" using D(3) by auto
    moreover have "n = deleted + int (card (insert i D))" "n \<le> max deleted limit" "finite (insert i D)"
      using D i del(1) by auto
    ultimately show ?thesis using D(6) by blast
  next
    case skip
    have "reap_loop before limit rest deleted m = (n, m')" using skip 2(3) by (auto split: if_splits)
    from 2(2) [OF skip this ok(1) 2(5)] obtain D where D: "finite D" "\<forall>j\<in>D. \<exists>r. gm_get rest j = Some r \<and> terminal r \<and> r_updated_at r < before"
        "gm_get m' = (\<lambda>j. if j \<in> D then None else gm_get m j)"
        "n = deleted + int (card D)" "n \<le> max deleted limit" "gm_ok m'"
      by blast
    have "i \<notin> D" using D(2) ok(2) by (force dest: map_of_SomeD)
    then have "\<forall>j\<in>D. \<exists>r. gm_get ((i, rec) # rest) j = Some r \<and> terminal r \<and> r_updated_at r < before"
      using D(2) gm_get_skip [of i D _ rec rest] by simp
    then show ?thesis using D by blast
  qed
qed

lemma ReapTerminal_law:
  assumes inv: "mem_inv s" and run: "ReapTerminal s before limit = (res, s')"
  shows "mem_inv s' \<and> (\<exists>D. finite D \<and> mem_rec s' = (\<lambda>i. if i \<in> D then None else mem_rec s i) \<and>
        (\<forall>i\<in>D. \<exists>r. mem_rec s i = Some r \<and> terminal r \<and> r_updated_at r < before) \<and>
        (case res of Inl e \<Rightarrow> True | Inr n \<Rightarrow> n = int (card D) \<and> n \<le> max 0 limit))"
proof -
  obtain n m where nm: "reap_loop before limit (ms_runs s) 0 (ms_runs s) = (n, m)" by fastforce
  have s': "s' = s\<lparr>ms_runs := m\<rparr>" and res: "res = Inr n" using run nm by (auto simp: ReapTerminal_def)
  obtain D where D: "finite D" "\<forall>i\<in>D. \<exists>r. mem_rec s i = Some r \<and> terminal r \<and> r_updated_at r < before"
    "gm_get m = (\<lambda>i. if i \<in> D then None else mem_rec s i)" "n = int (card D)" "n \<le> max 0 limit" "gm_ok m"
    using reap_loop_effect [OF nm mem_invD(1) [OF inv] mem_invD(1) [OF inv]] by auto
  have "mem_inv s'" unfolding s' by (rule mem_inv_remove [OF inv D(6) _ D(3)]) (use D(2) in auto)
  then show ?thesis using D by (auto simp: s' res)
qed

lemma head_rec_law:
  assumes "mem_inv s" and "mem_rec s i = Some r"
  shows "\<exists>h. head_rec s r = Inr h \<and> head_of r h \<and> r_run h = i"
proof -
  have i: "r_run r = i" using mem_invD(4) [OF assms] .
  consider (ended) "terminal r" | (idle) "\<not> terminal r" "gm_get (ms_inflight s) i = None"
    | (fl) k where "\<not> terminal r" "gm_get (ms_inflight s) i = Some k" by (cases "gm_get (ms_inflight s) i") auto
  then show ?thesis
  proof cases
    case ended
    then show ?thesis using i by (simp add: head_rec_def head_of_def terminal_def)
  next
    case idle
    then show ?thesis using i by (simp add: head_rec_def head_of_def terminal_def Let_def)
  next
    case fl
    then obtain sr where sr: "gm_get (r_steps r) k = Some sr" "or_status (rec_op r k (r_phase r)) = OpUnresolved"
      using mem_invD(8) [OF assms(1) fl(2)] assms(2) by auto
    let ?op = "zero_op\<lparr>or_status := OpUnresolved, or_attempts := or_attempts (sr_op (r_phase r) sr)\<rparr>"
    let ?h = "put_op k (r_phase r) ?op (r\<lparr>r_input := None, r_output := None, r_steps := []\<rparr>)"
    have "head_rec s r = Inr ?h" using fl i sr by (simp add: head_rec_def terminal_def Let_def)
    moreover have "head_of r ?h"
      using fl(1) sr unfolding head_of_def
      by (auto simp: put_op_def rec_step_def rec_op_def intro!: exI [of _ k])
    ultimately show ?thesis using i by simp
  qed
qed

lemma GetRunHead_law:
  assumes inv: "mem_inv s" and run: "GetRunHead s i = (res, s')"
  shows "mem_inv s' \<and> mem_rec s' = mem_rec s \<and>
      (case res of Inl e \<Rightarrow> e \<noteq> ErrRunNotFound \<or> mem_rec s i = None
       | Inr h \<Rightarrow> (\<exists>r. mem_rec s i = Some r \<and> head_of r h))"
  using head_rec_law [OF inv, of i] run inv by (auto simp: GetRunHead_def split: option.splits sum.splits)

lemma list_heads_law:
  assumes "mem_inv s" and "\<And>r. r \<in> set rs \<Longrightarrow> mem_rec s (r_run r) = Some r"
  shows "\<exists>hs. list_heads s rs = Inr hs \<and> map r_run hs = map r_run (filter (\<lambda>r. \<not> terminal r) rs) \<and>
     (\<forall>h\<in>set hs. \<exists>r. mem_rec s (r_run h) = Some r \<and> \<not> terminal r \<and> head_of r h)"
  using assms(2)
proof (induction rs)
  case (Cons r rs)
  then obtain hs where hs: "list_heads s rs = Inr hs" "map r_run hs = map r_run (filter (\<lambda>r. \<not> terminal r) rs)"
    "\<forall>h\<in>set hs. \<exists>r. mem_rec s (r_run h) = Some r \<and> \<not> terminal r \<and> head_of r h" by auto
  have r: "mem_rec s (r_run r) = Some r" using Cons.prems by simp
  obtain h where "head_rec s r = Inr h" "head_of r h" "r_run h = r_run r"
    using head_rec_law [OF assms(1) r] by auto
  then show ?case using hs r by (cases "terminal r") auto
qed simp

lemma ListNonterminal_law:
  assumes inv: "mem_inv s" and run: "ListNonterminal s = (res, s')"
  shows "mem_inv s' \<and> mem_rec s' = mem_rec s \<and>
      (case res of Inl e \<Rightarrow> True
       | Inr hs \<Rightarrow> distinct (map r_run hs) \<and>
           (\<forall>h\<in>set hs. \<exists>r. mem_rec s (r_run h) = Some r \<and> \<not> terminal r \<and> head_of r h) \<and>
           (\<forall>i r. mem_rec s i = Some r \<and> \<not> terminal r \<longrightarrow> i \<in> r_run ` set hs))"
proof -
  let ?rs = "map snd (ms_runs s)"
  have mem: "mem_rec s i = Some r \<longleftrightarrow> (i, r) \<in> set (ms_runs s)" for i r
    using gm_get_mem [OF mem_invD(1) [OF inv]] .
  have rs: "mem_rec s (r_run r) = Some r" if "r \<in> set ?rs" for r
    using that mem mem_invD(4) [OF inv] by fastforce
  have keys: "map r_run ?rs = gm_keys (ms_runs s)"
    using mem mem_invD(4) [OF inv] by fastforce
  then have dist: "distinct (map r_run ?rs)" using mem_invD(1) [OF inv] by (simp only: gm_ok_def)
  obtain hs where hs: "list_heads s ?rs = Inr hs" "map r_run hs = map r_run (filter (\<lambda>r. \<not> terminal r) ?rs)"
    "\<forall>h\<in>set hs. \<exists>r. mem_rec s (r_run h) = Some r \<and> \<not> terminal r \<and> head_of r h"
    using list_heads_law [OF inv rs] by blast
  have "i \<in> r_run ` set hs" if "mem_rec s i = Some r" "\<not> terminal r" for i r
  proof -
    have "r \<in> set (filter (\<lambda>r. \<not> terminal r) ?rs)" using that mem by force
    then have "r_run r \<in> set (map r_run hs)" unfolding hs(2) by (simp only: set_map) blast
    then show ?thesis using mem_invD(4) [OF inv that(1)] by (simp only: set_map)
  qed
  moreover have "distinct (map r_run hs)" unfolding hs(2) by (rule distinct_map_filter [OF dist])
  moreover have "s' = s" "res = Inr hs" using run hs(1) by (simp_all add: ListNonterminal_def)
  ultimately show ?thesis using inv hs(3) by simp
qed

lemma GetActiveRunID_law:
  assumes inv: "mem_inv s" and nf: "nul_free p" and run: "GetActiveRunID s p rid = (res, s')"
  shows "mem_inv s' \<and> mem_rec s' = mem_rec s \<and>
      (case res of Inl e \<Rightarrow> True
       | Inr (Some i) \<Rightarrow> (\<exists>r. mem_rec s i = Some r \<and> \<not> terminal r \<and> r_pipeline r = p \<and> r_resource r = rid)
       | Inr None \<Rightarrow> (\<forall>i r. mem_rec s i = Some r \<and> \<not> terminal r \<longrightarrow> \<not> (r_pipeline r = p \<and> r_resource r = rid)))"
proof -
  have "s' = s" and "res = Inr (gm_get (ms_slots s) (slotKey p rid))" using run by (auto simp: GetActiveRunID_def)
  then show ?thesis using inv slot_occupied [OF inv nf, of rid]
    by (cases "gm_get (ms_slots s) (slotKey p rid)") (simp, metis option.distinct(1), simp, metis)
qed

section \<open>The contract holds\<close>

interpretation ms: run_store mem_ops mem_inv mem_rec
proof (unfold_locales, unfold mem_ops_sel, goal_cases)
  case (1 s i r)
  then show ?case by (rule mem_invD(4))
next
  case (2 s rec excl res s')
  show ?case by (rule CreateRun_law [OF 2])
next
  case (3 s i res s')
  then show ?case by (auto simp: GetRun_def split: option.splits)
next
  case 4
  then show ?case by (rule GetRunHead_law)
next
  case 5
  then show ?case by (rule ApplyTransition_law)
next
  case 6
  then show ?case by (rule ReapTerminal_law)
next
  case 7
  then show ?case by (rule RequestCancel_law)
next
  case 8
  then show ?case by (rule ListNonterminal_law)
next
  case 9
  then show ?case by (rule GetActiveRunID_law)
next
  case (10 s i r)
  then show ?case by (simp add: mem_inv_def)
qed

section \<open>Listing in creation order\<close>

lemma sift_down_snoc:
  "sift_down (length (ys @ [y])) ((ys @ [y]) @ x # zs) =
     (if r_created_at x < r_created_at y then sift_down (length ys) (ys @ x # y # zs) else ys @ y # x # zs)"
  by (simp add: nth_append list_update_append)

lemma sift_down_inserts:
  assumes "sorted (map r_created_at ys)"
  shows "\<exists>us. sift_down (length ys) (ys @ x # zs) = us @ zs \<and> mset us = mset (ys @ [x]) \<and> sorted (map r_created_at us)
     \<and> (\<forall>c. filter (\<lambda>r. c = r_created_at r) us = filter (\<lambda>r. c = r_created_at r) (ys @ [x]))"
  using assms
proof (induction ys arbitrary: zs rule: rev_induct)
  case Nil
  then show ?case by (intro exI [of _ "[x]"]) simp
next
  case (snoc y ys)
  have ys: "sorted (map r_created_at ys)" "\<forall>z\<in>set ys. r_created_at z \<le> r_created_at y"
    using snoc.prems by (auto simp: sorted_append)
  show ?case
  proof (cases "r_created_at x < r_created_at y")
    case True
    obtain us where us: "sift_down (length ys) (ys @ x # y # zs) = us @ y # zs" "mset us = mset (ys @ [x])"
      "sorted (map r_created_at us)"
      "\<forall>c. filter (\<lambda>r. c = r_created_at r) us = filter (\<lambda>r. c = r_created_at r) (ys @ [x])"
      using snoc.IH [OF ys(1), of "y # zs"] by blast
    have "set us = insert x (set ys)" using us(2) by (metis mset_eq_setD set_append list.set(1,2) Un_insert_right Un_empty_right)
    then have "sorted (map r_created_at (us @ [y]))" using us(3) ys(2) True by (auto simp: sorted_append)
    moreover have "filter (\<lambda>r. c = r_created_at r) (us @ [y]) = filter (\<lambda>r. c = r_created_at r) ((ys @ [y]) @ [x])" for c
      using us(4) True by auto
    moreover have "sift_down (length (ys @ [y])) ((ys @ [y]) @ x # zs) = (us @ [y]) @ zs"
      unfolding sift_down_snoc using True us(1) by simp
    ultimately show ?thesis using us(2) by (intro exI [of _ "us @ [y]"]) auto
  next
    case False
    then have "sorted (map r_created_at ((ys @ [y]) @ [x]))" using ys by (fastforce simp: sorted_append)
    moreover have "sift_down (length (ys @ [y])) ((ys @ [y]) @ x # zs) = ((ys @ [y]) @ [x]) @ zs"
      unfolding sift_down_snoc using False by simp
    ultimately show ?thesis by (intro exI [of _ "(ys @ [y]) @ [x]"]) blast
  qed
qed

lemma sort_from_sorts:
  assumes "sorted (map r_created_at ys)"
  shows "sort_from (length ys) (ys @ zs) = sort_key r_created_at (ys @ zs)"
  using assms
proof (induction zs arbitrary: ys)
  case Nil
  then show ?case by (simp add: sort_from.simps sort_key_id_if_sorted)
next
  case (Cons x zs)
  obtain us where us: "sift_down (length ys) (ys @ x # zs) = us @ zs" "mset us = mset (ys @ [x])"
    "sorted (map r_created_at us)"
    "\<forall>c. filter (\<lambda>r. c = r_created_at r) us = filter (\<lambda>r. c = r_created_at r) (ys @ [x])"
    using sift_down_inserts [OF Cons.prems] by blast
  have len: "length us = Suc (length ys)" using us(2) by (metis length_append_singleton size_mset)
  have "sort_from (length ys) (ys @ x # zs) = sort_from (length us) (us @ zs)"
    by (subst sort_from.simps) (simp add: us(1) len)
  also have "\<dots> = sort_key r_created_at (us @ zs)" by (rule Cons.IH [OF us(3)])
  also have "\<dots> = sort_key r_created_at (ys @ x # zs)"
  proof (rule properties_for_sort_key [symmetric])
    show "mset (sort_key r_created_at (us @ zs)) = mset (ys @ x # zs)" using us(2) by simp
    show "filter (\<lambda>r. r_created_at k = r_created_at r) (sort_key r_created_at (us @ zs)) =
        filter (\<lambda>r. r_created_at k = r_created_at r) (ys @ x # zs)" for k
      using us(4) [THEN spec, of "r_created_at k"] sort_key_stable [of r_created_at "r_created_at k" "us @ zs"]
      by (simp add: eq_commute [of "r_created_at k"])
  qed simp
  finally show ?case .
qed

lemma sortRecords_eq: "sortRecords recs = sort_key r_created_at recs"
proof (cases recs)
  case Nil
  then show ?thesis by (simp add: sortRecords_def sort_from.simps)
next
  case (Cons x xs)
  then show ?thesis using sort_from_sorts [of "[x]" xs] by (simp add: sortRecords_def)
qed

section \<open>Unwind failures\<close>

lemma unwind_failures_perm:
  assumes "mset (r_steps r) = mset (r_steps r')" and "distinct (map fst (failed_unwinds (r_steps r)))"
  shows "unwind_failures r = unwind_failures r'"
proof -
  have ms: "mset (failed_unwinds (r_steps r)) = mset (failed_unwinds (r_steps r'))"
    using assms(1) by (simp add: failed_unwinds_def List.map_filter_def)
  have "sort_key fst (failed_unwinds (r_steps r)) = sort_key fst (failed_unwinds (r_steps r'))"
    by (rule sort_key_inj_key_eq) (use ms assms(2) in \<open>auto simp: distinct_map dest: mset_eq_setD\<close>)
  then show ?thesis by (simp add: unwind_failures_def)
qed

section \<open>Properties\<close>

lemma CreateRun_total:
  assumes "mem_inv s" and "nul_free (r_pipeline rec)" and nf: "\<And>q. q \<in> set excl \<Longrightarrow> nul_free q"
  shows "\<exists>x. fst (CreateRun s rec excl) = Inr x"
proof (cases "gm_get (ms_slots s) (slotKey (r_pipeline rec) (r_resource rec))")
  case (Some i)
  then obtain r where "mem_rec s i = Some r" using slot_occupied [OF assms(1,2)] by blast
  then show ?thesis using Some by (auto simp: CreateRun_def)
next
  case None
  show ?thesis
  proof (cases "first_slot s (r_resource rec) excl")
    case (Some i)
    then obtain r where "mem_rec s i = Some r" using first_slot_Some [OF assms(1) nf] by blast
    then show ?thesis using None Some by (auto simp: CreateRun_def)
  qed (auto simp: None CreateRun_def Let_def)
qed

definition mem_history :: "(pipeline_id \<Rightarrow> pipeline_id list) \<Rightarrow> mem_store \<times> run_id set \<Rightarrow> bool" where
  "mem_history excl c \<longleftrightarrow> (store_step mem_ops excl)\<^sup>*\<^sup>* (New, {}) c"

lemma mem_history_good: "mem_history excl c \<Longrightarrow> excl_names excl \<Longrightarrow> ms.good c"
  using ms.steps_good [of excl "(New, {})" c] by (simp add: mem_history_def ms.good_def New_def mem_inv_def)

definition wit_rec :: "run_id \<Rightarrow> pipeline_id \<Rightarrow> run_record" where
  "wit_rec i p = \<lparr>r_run = i, r_pipeline = p, r_resource = ''db'', r_annotations = [], r_input = None, r_phase = PhaseForward,
     r_steps = [], r_failure = None, r_output = None, r_outcome = None, r_next_attempt_at = zero_time, r_awaiting = None,
     r_awaited = None, r_last_error = [], r_last_reason = [], r_last_error_at = zero_time, r_cancel = None,
     r_created_at = 1, r_updated_at = 1, r_started_at = zero_time\<rparr>"

definition wit_excl :: "pipeline_id \<Rightarrow> pipeline_id list" where
  "wit_excl p = (if p = ''backup'' then [''restore''] else if p = ''restore'' then [''backup''] else [])"

definition wit_store :: mem_store where
  "wit_store = \<lparr>ms_runs = [(''1'', wit_rec ''1'' ''backup'')], ms_slots = [(''backup'' @ [CHR 0x00] @ ''db'', ''1'')], ms_inflight = []\<rparr>"

definition wit_failure :: "string \<Rightarrow> failure" where
  "wit_failure m = \<lparr>f_step = ''s'', f_phase = PhaseUnwind, f_attempt = 1, f_message = m, f_at = 3,
     f_kind = FailureKindSystem, f_reason = []\<rparr>"

definition wit_failed :: "u32 \<Rightarrow> string \<Rightarrow> step_record" where
  "wit_failed n m = zero_step\<lparr>sr_unwind := \<lparr>or_status = OpFailed, or_attempts = 1, or_state = None,
     or_failure = Some (wit_failure m), or_order = n\<rparr>\<rparr>"

lemma wit_excl_names: "excl_names wit_excl"
  by (simp add: excl_names_def wit_excl_def nul_free_def)

lemma wit_excl_sym: "excl_sym wit_excl"
  by (simp add: excl_sym_def wit_excl_def)

lemma wit_create: "CreateRun New (wit_rec ''1'' ''backup'') (wit_excl ''backup'') = (Inr (None, True), wit_store)"
  by (simp add: CreateRun_def New_def wit_rec_def wit_excl_def wit_store_def slotKey_def terminal_def)

lemma wit_history: "mem_history wit_excl (wit_store, {''1''})"
proof -
  have "store_step mem_ops wit_excl (New, {}) (wit_store, insert (r_run (wit_rec ''1'' ''backup'')) {})"
    using wit_create
    by (intro store_step.create) (simp_all add: storable_def terminal_def wit_rec_def nul_free_def)
  then show ?thesis by (simp add: mem_history_def wit_rec_def r_into_rtranclp)
qed

text \<open>Claim C22. In every history of the in-memory store that starts empty, the slot index holds exactly the
  nonterminal runs, the in-flight index points at unresolved operations of nonterminal runs, and no
  operation dereferences a nil record: creating, reading a head and listing never panic.\<close>

theorem mem_store_sound:
  assumes "mem_history excl (s, used)" and "excl_names excl"
  shows "mem_inv s \<and> (\<forall>i e. fst (GetRunHead s i) = Inl e \<longrightarrow> e = ErrRunNotFound \<and> mem_rec s i = None)
    \<and> (\<exists>hs. fst (ListNonterminal s) = Inr hs)
    \<and> (\<forall>rec p. storable rec \<longrightarrow> r_run rec \<notin> used \<longrightarrow> (\<exists>x. fst (CreateRun s rec (excl p)) = Inr x))"
proof -
  have g: "mem_inv s" "\<And>i. mem_rec s i \<noteq> None \<Longrightarrow> i \<in> used"
    using mem_history_good [OF assms] by (auto simp: ms.good_def)
  have head: "e = ErrRunNotFound \<and> mem_rec s i = None" if "fst (GetRunHead s i) = Inl e" for i e
    using that head_rec_law [OF g(1), of i] by (auto simp: GetRunHead_def split: option.splits)
  have "mem_rec s (r_run r) = Some r" if "r \<in> set (map snd (ms_runs s))" for r
    using that gm_get_mem [OF mem_invD(1) [OF g(1)]] mem_invD(4) [OF g(1)] by fastforce
  then obtain hs where "list_heads s (map snd (ms_runs s)) = Inr hs"
    using list_heads_law [OF g(1), of "map snd (ms_runs s)"] by blast
  then have lst: "fst (ListNonterminal s) = Inr hs" by (simp add: ListNonterminal_def)
  have "\<exists>x. fst (CreateRun s rec (excl p)) = Inr x" if "storable rec" "r_run rec \<notin> used" for rec p
  proof -
    have nf: "nul_free q" if "q \<in> set (excl p)" for q using that assms(2) by (auto simp: excl_names_def list_all_iff)
    have "nul_free (r_pipeline rec)" using \<open>storable rec\<close> by (simp add: storable_def)
    then show ?thesis by (rule CreateRun_total [OF g(1) _ nf])
  qed
  then show ?thesis using g(1) head lst by blast
qed

theorem mem_store_sound_witness:
  "mem_inv wit_store \<and> fst (CreateRun wit_store (wit_rec ''2'' ''restore'') (wit_excl ''restore'')) =
     Inr (Some (wit_rec ''1'' ''backup''), False)"
  using mem_store_sound [OF wit_history wit_excl_names]
  by (simp add: CreateRun_def wit_store_def wit_rec_def wit_excl_def slotKey_def)

text \<open>Claim C6. Along every history of the in-memory store, a run that still exists kept its identity, its
  annotations and its creation time, kept the first cancel request recorded for it, and, once
  terminal, did not change at all.\<close>

theorem mem_history_evolves:
  assumes "mem_history excl (s, used)" and "excl_names excl"
    and "(store_step mem_ops excl)\<^sup>*\<^sup>* (s, used) (s', used')"
    and "i \<in> used" and "mem_rec s' i = Some r'"
  shows "\<exists>r. mem_rec s i = Some r \<and> evolves r r'"
  using ms.history_evolves [OF assms(3) mem_history_good [OF assms(1,2)] assms(2), of i r'] assms(4,5) by simp

theorem mem_history_evolves_witness:
  "\<exists>s'. (store_step mem_ops wit_excl)\<^sup>*\<^sup>* (wit_store, {''1''}) (s', {''1''}) \<and>
     (\<exists>r. mem_rec s' ''1'' = Some r \<and> r_cancel r = Some \<lparr>cr_cause = ''stop'', cr_at = 5\<rparr>
        \<and> evolves (wit_rec ''1'' ''backup'') r)"
proof -
  let ?req = "\<lparr>cr_cause = ''stop'', cr_at = 5\<rparr>"
  let ?r = "(wit_rec ''1'' ''backup'')\<lparr>r_cancel := Some ?req\<rparr>"
  let ?s = "wit_store\<lparr>ms_runs := [(''1'', ?r)]\<rparr>"
  have "store_step mem_ops wit_excl (wit_store, {''1''}) (?s, {''1''})"
    by (rule store_step.cancel [where i = "''1''" and req = ?req and res = "Inr True"])
      (simp add: RequestCancel_def wit_store_def wit_rec_def terminal_def)
  then have st: "(store_step mem_ops wit_excl)\<^sup>*\<^sup>* (wit_store, {''1''}) (?s, {''1''})" by (rule r_into_rtranclp)
  have "\<exists>r. mem_rec wit_store ''1'' = Some r \<and> evolves r ?r"
    by (rule mem_history_evolves [OF wit_history wit_excl_names st]) simp_all
  then have "evolves (wit_rec ''1'' ''backup'') ?r" by (simp add: wit_store_def)
  with st show ?thesis by (intro exI [of _ ?s]) simp
qed

text \<open>Claim C4. In every history of the in-memory store in which each admission excludes the pipelines that
  share a mutex with its own, no two nonterminal runs of the same or of excluding pipelines hold
  the same resource.\<close>

theorem mem_store_exclusion:
  assumes "mem_history excl (s, used)" and "excl_names excl" and "excl_sym excl"
    and "mem_rec s i = Some r" and "mem_rec s j = Some r'" and "\<not> terminal r" and "\<not> terminal r'"
    and "r_resource r = r_resource r'" and "r_pipeline r' \<in> insert (r_pipeline r) (set (excl (r_pipeline r)))"
  shows "i = j"
proof -
  have "ms.good (New, {})" "ms.exclusive excl (fst (New, {}))"
    by (simp_all add: ms.good_def ms.exclusive_def New_def mem_inv_def)
  from ms.history_exclusive [OF assms(1) [unfolded mem_history_def] this(1) assms(2,3) this(2)]
  show ?thesis using assms(4-) unfolding ms.exclusive_def by (metis fst_conv)
qed

theorem mem_store_exclusion_witness:
  "mem_rec wit_store ''1'' = Some (wit_rec ''1'' ''backup'') \<and>
   (\<nexists>j. j \<noteq> ''1'' \<and> mem_rec wit_store j = Some (wit_rec j ''restore''))"
proof -
  have 1: "mem_rec wit_store ''1'' = Some (wit_rec ''1'' ''backup'')" by (simp add: wit_store_def)
  have "''1'' = j" if "mem_rec wit_store j = Some (wit_rec j ''restore'')" for j
    by (rule mem_store_exclusion [OF wit_history wit_excl_names wit_excl_sym 1 that])
      (simp_all add: wit_rec_def terminal_def wit_excl_def)
  with 1 show ?thesis by metis
qed

text \<open>The unwind failures of a run do not depend on the order in which the step map is iterated,
  when the failed unwinds carry distinct resolution orders, and the terminal compaction keeps them.\<close>

theorem unwind_failures_kept:
  assumes "mset (r_steps r) = mset (r_steps r')" and "distinct (map fst (failed_unwinds (r_steps r)))"
  shows "unwind_failures (compact_terminal r) = unwind_failures r'"
  using unwind_failures_perm [OF assms] by simp

theorem unwind_failures_kept_witness:
  "unwind_failures (compact_terminal ((wit_rec ''1'' ''backup'')\<lparr>r_steps :=
     [(''a'', wit_failed 2 ''x''), (''b'', wit_failed 1 ''y'')]\<rparr>)) = [wit_failure ''y'', wit_failure ''x'']"
proof -
  let ?m = "[(''b'', wit_failed 1 ''y''), (''a'', wit_failed 2 ''x'')] :: (step_id, step_record) gomap"
  have "unwind_failures (compact_terminal ((wit_rec ''1'' ''backup'')\<lparr>r_steps :=
     [(''a'', wit_failed 2 ''x''), (''b'', wit_failed 1 ''y'')]\<rparr>)) = unwind_failures ((wit_rec ''1'' ''backup'')\<lparr>r_steps := ?m\<rparr>)"
    by (rule unwind_failures_kept) (simp_all add: wit_failed_def failed_unwinds_Cons add_mset_commute)
  also have "\<dots> = [wit_failure ''y'', wit_failure ''x'']"
    by (simp add: unwind_failures_def failed_unwinds_Cons wit_failed_def)
  finally show ?thesis .
qed

text \<open>Listing the runs sorts them by creation time, keeping the order of equal times.\<close>

theorem mem_runs_sorted:
  "Runs s = sort_key r_created_at (map snd (ms_runs s)) \<and> mset (Runs s) = mset (map snd (ms_runs s))
   \<and> sorted (map r_created_at (Runs s))"
  by (simp add: Runs_def sortRecords_eq)

end
