(* ===== verification/Resolution.thy ===== *)
theory Resolution
  imports Kernel
begin

text \<open>
  How a handler resolves an operation (\<^verbatim>\<open>src/fail.go\<close>, \<^verbatim>\<open>src/await.go\<close>): the error value it
  returns is a chain, and the engine reads it through the exported classifiers
  \<^verbatim>\<open>FailureInfo\<close>, \<^verbatim>\<open>FailureCause\<close>, \<^verbatim>\<open>FailureReason\<close>, \<^verbatim>\<open>AwaitRequest\<close> and \<^verbatim>\<open>AwaitTimeout\<close>.

  An error is a tree. \<open>GoErr m r k es\<close> is an application error with message \<open>m\<close>, whose type
  implements \<^verbatim>\<open>FailureReasoner\<close> when \<open>r\<close> is \<open>Some\<close> and \<^verbatim>\<open>FailureKinder\<close> when \<open>k\<close> is
  \<open>Some\<close>, and which wraps the errors \<open>es\<close> (none, one, or several for \<^verbatim>\<open>errors.Join\<close>).
  \<open>PermanentError\<close> and \<open>AwaitResolution\<close> are the package's own two error types.
  \<open>errors_as\<close> is Go's \<^verbatim>\<open>errors.As\<close>: a depth-first search in pre-order. A nil error is \<open>None\<close>.
\<close>

section \<open>Error chains\<close>

datatype goerr =
    GoErr string "string option" "failure_kind option" "goerr list"
  | PermanentError goerr failure_kind bool string
  | AwaitResolution await duration

fun join_with :: "string \<Rightarrow> string list \<Rightarrow> string" where
  "join_with sep [] = []"
| "join_with sep [x] = x"
| "join_with sep (x # xs) = x @ sep @ join_with sep xs"

definition await_error_string :: "await \<Rightarrow> string" where
  "await_error_string park =
     (case aw_targets park of
        [i] \<Rightarrow> ''durable: awaiting run '' @ i
      | ids \<Rightarrow> ''durable: awaiting '' @ await_mode_string (aw_mode park) @ '' of runs ['' @
               join_with '' '' ids @ '']'')"

fun error_string :: "goerr \<Rightarrow> string" where
  "error_string (GoErr m r k es) = m"
| "error_string (PermanentError e k s r) = ''durable: permanent failure: '' @ error_string e"
| "error_string (AwaitResolution p t) = await_error_string p"

fun errors_as :: "(goerr \<Rightarrow> 'a option) \<Rightarrow> goerr \<Rightarrow> 'a option"
  and errors_as_list :: "(goerr \<Rightarrow> 'a option) \<Rightarrow> goerr list \<Rightarrow> 'a option" where
  "errors_as f (GoErr m r k es) =
     (case f (GoErr m r k es) of Some a \<Rightarrow> Some a | None \<Rightarrow> errors_as_list f es)"
| "errors_as f (PermanentError e k s r) =
     (case f (PermanentError e k s r) of Some a \<Rightarrow> Some a | None \<Rightarrow> errors_as f e)"
| "errors_as f (AwaitResolution p t) = f (AwaitResolution p t)"
| "errors_as_list f [] = None"
| "errors_as_list f (e # es) =
     (case errors_as f e of Some a \<Rightarrow> Some a | None \<Rightarrow> errors_as_list f es)"

fun reasoner :: "goerr \<Rightarrow> string option" where
  "reasoner (GoErr m r k es) = r"
| "reasoner (PermanentError e k s r) = None"
| "reasoner (AwaitResolution p t) = None"

fun kinder :: "goerr \<Rightarrow> failure_kind option" where
  "kinder (GoErr m r k es) = k"
| "kinder (PermanentError e k s r) = None"
| "kinder (AwaitResolution p t) = None"

section \<open>Permanent failure\<close>

datatype fail_option = WithUserKind | WithReason string

fun apply_fail_option :: "fail_option \<Rightarrow> goerr \<Rightarrow> goerr" where
  "apply_fail_option WithUserKind (PermanentError e k s r) = PermanentError e FailureKindUser True r"
| "apply_fail_option (WithReason r') (PermanentError e k s r) = PermanentError e k s r'"
| "apply_fail_option opt e = e"

definition Fail :: "goerr option \<Rightarrow> fail_option list \<Rightarrow> goerr" where
  "Fail err opts =
     (let e = (case err of None \<Rightarrow> GoErr ''unspecified permanent failure'' None None [] | Some e \<Rightarrow> e)
      in fold apply_fail_option opts (PermanentError e FailureKindSystem False []))"

definition reason_of :: "goerr option \<Rightarrow> string" where
  "reason_of err =
     (case err of
        None \<Rightarrow> []
      | Some e \<Rightarrow> (case errors_as reasoner e of Some r \<Rightarrow> r | None \<Rightarrow> []))"

fun is_permanent :: "goerr \<Rightarrow> (goerr \<times> failure_kind \<times> bool \<times> string) option" where
  "is_permanent (PermanentError e k s r) = Some (e, k, s, r)"
| "is_permanent _ = None"

definition as_permanent :: "goerr option \<Rightarrow> (goerr \<times> failure_kind \<times> bool \<times> string) option" where
  "as_permanent err = (case err of None \<Rightarrow> None | Some e \<Rightarrow> errors_as is_permanent e)"

definition pe_failure_kind :: "goerr \<times> failure_kind \<times> bool \<times> string \<Rightarrow> failure_kind" where
  "pe_failure_kind pe =
     (case pe of (e, k, kind_set, r) \<Rightarrow>
        if kind_set then k
        else (case errors_as kinder e of Some k' \<Rightarrow> k' | None \<Rightarrow> FailureKindSystem))"

definition pe_failure_reason :: "goerr \<times> failure_kind \<times> bool \<times> string \<Rightarrow> string" where
  "pe_failure_reason pe = (case pe of (e, k, s, r) \<Rightarrow> if r \<noteq> [] then r else reason_of (Some e))"

definition FailureInfo :: "goerr option \<Rightarrow> failure_kind \<times> string \<times> bool" where
  "FailureInfo err =
     (case as_permanent err of
        None \<Rightarrow> (FailureKindSystem, [], False)
      | Some pe \<Rightarrow> (pe_failure_kind pe, pe_failure_reason pe, True))"

definition FailureCause :: "goerr option \<Rightarrow> goerr option" where
  "FailureCause err = (case as_permanent err of None \<Rightarrow> None | Some (e, k, s, r) \<Rightarrow> Some e)"

definition FailureReason :: "goerr option \<Rightarrow> string" where
  "FailureReason err = reason_of err"

section \<open>Parks\<close>

datatype await_option = WithAwaitTimeout duration | WithCancelCascade

fun dedupe_run_ids_go :: "run_id list \<Rightarrow> run_id set \<Rightarrow> run_id list \<Rightarrow> run_id list" where
  "dedupe_run_ids_go [] seen out = out"
| "dedupe_run_ids_go (i # ids) seen out =
     (if i \<in> seen then dedupe_run_ids_go ids seen out
      else dedupe_run_ids_go ids (insert i seen) (out @ [i]))"

definition dedupe_run_ids :: "run_id list \<Rightarrow> run_id list" where
  "dedupe_run_ids ids = dedupe_run_ids_go ids {} []"

fun apply_await_option :: "await_option \<Rightarrow> goerr \<Rightarrow> goerr" where
  "apply_await_option (WithAwaitTimeout d) (AwaitResolution p t) =
     AwaitResolution p (if d > 0 then d else t)"
| "apply_await_option WithCancelCascade (AwaitResolution p t) =
     AwaitResolution (p\<lparr>aw_cancel_cascade := True\<rparr>) t"
| "apply_await_option opt e = e"

definition new_await :: "await_mode \<Rightarrow> run_id list \<Rightarrow> await_option list \<Rightarrow> goerr" where
  "new_await mode ids opts =
     fold apply_await_option opts
       (AwaitResolution \<lparr>aw_mode = mode, aw_targets = dedupe_run_ids ids,
                         aw_deadline = zero_time, aw_cancel_cascade = False\<rparr> 0)"

definition AwaitRun :: "run_id \<Rightarrow> await_option list \<Rightarrow> goerr" where
  "AwaitRun i opts = new_await AwaitModeAll [i] opts"

definition AwaitAll :: "run_id list \<Rightarrow> await_option list \<Rightarrow> goerr" where
  "AwaitAll ids opts = new_await AwaitModeAll ids opts"

definition AwaitAny :: "run_id list \<Rightarrow> await_option list \<Rightarrow> goerr" where
  "AwaitAny ids opts = new_await AwaitModeAny ids opts"

fun is_await :: "goerr \<Rightarrow> (await \<times> duration) option" where
  "is_await (AwaitResolution p t) = Some (p, t)"
| "is_await _ = None"

definition as_await :: "goerr option \<Rightarrow> (await \<times> duration) option" where
  "as_await err = (case err of None \<Rightarrow> None | Some e \<Rightarrow> errors_as is_await e)"

definition AwaitRequest :: "goerr option \<Rightarrow> await option" where
  "AwaitRequest err = map_option fst (as_await err)"

definition AwaitTimeout :: "goerr option \<Rightarrow> duration" where
  "AwaitTimeout err = (case as_await err of None \<Rightarrow> 0 | Some (p, t) \<Rightarrow> t)"

section \<open>Facts\<close>

lemma dedupe_go_append:
  "dedupe_run_ids_go ids seen out = out @ dedupe_run_ids_go ids seen []"
proof (induction ids arbitrary: seen out)
  case (Cons i ids)
  show ?case
  proof (cases "i \<in> seen")
    case False
    have "dedupe_run_ids_go ids (insert i seen) (out @ [i])
            = (out @ [i]) @ dedupe_run_ids_go ids (insert i seen) []" by (rule Cons.IH)
    moreover have "dedupe_run_ids_go ids (insert i seen) [i]
            = [i] @ dedupe_run_ids_go ids (insert i seen) []" by (rule Cons.IH)
    ultimately show ?thesis using False by simp
  qed (simp add: Cons.IH [symmetric])
qed simp

lemma dedupe_go_set: "set (dedupe_run_ids_go ids seen []) = set ids - seen"
  by (induction ids arbitrary: seen) (auto simp: dedupe_go_append [of _ _ "[_]"])

lemma dedupe_go_distinct: "distinct (dedupe_run_ids_go ids seen [])"
  by (induction ids arbitrary: seen) (auto simp: dedupe_go_append [of _ _ "[_]"] dedupe_go_set)

lemma dedupe_go_noop:
  "distinct ids \<Longrightarrow> set ids \<inter> seen = {} \<Longrightarrow> dedupe_run_ids_go ids seen [] = ids"
  by (induction ids arbitrary: seen) (auto simp: dedupe_go_append [of _ _ "[_]"])

lemma dedupe_run_ids_set [simp]: "set (dedupe_run_ids ids) = set ids"
  by (simp add: dedupe_run_ids_def dedupe_go_set)

lemma dedupe_run_ids_distinct [simp]: "distinct (dedupe_run_ids ids)"
  by (simp add: dedupe_run_ids_def dedupe_go_distinct)

lemma dedupe_run_ids_id: "distinct ids \<Longrightarrow> dedupe_run_ids ids = ids"
  by (simp add: dedupe_run_ids_def dedupe_go_noop)

lemma dedupe_run_ids_Nil [simp]: "dedupe_run_ids ids = [] \<longleftrightarrow> ids = []"
  using dedupe_run_ids_set [of ids] by (metis set_empty)

text \<open>The value left by the last option of a kind, over a default.\<close>

fun last_reason :: "string \<Rightarrow> fail_option list \<Rightarrow> string" where
  "last_reason r [] = r"
| "last_reason r (WithReason r' # os) = last_reason r' os"
| "last_reason r (WithUserKind # os) = last_reason r os"

lemma fold_fail_options:
  "fold apply_fail_option opts (PermanentError e k s r) =
     PermanentError e (if WithUserKind \<in> set opts then FailureKindUser else k)
       (WithUserKind \<in> set opts \<or> s) (last_reason r opts)"
proof (induction opts arbitrary: k s r)
  case (Cons a opts)
  then show ?case by (cases a) auto
qed simp

lemma errors_as_permanent [simp]:
  "errors_as is_permanent (PermanentError e k s r) = Some (e, k, s, r)"
  by simp

fun last_timeout :: "duration \<Rightarrow> await_option list \<Rightarrow> duration" where
  "last_timeout t [] = t"
| "last_timeout t (WithAwaitTimeout d # os) = last_timeout (if d > 0 then d else t) os"
| "last_timeout t (WithCancelCascade # os) = last_timeout t os"

lemma fold_await_options:
  "fold apply_await_option opts (AwaitResolution p t) =
     AwaitResolution (p\<lparr>aw_cancel_cascade := WithCancelCascade \<in> set opts \<or> aw_cancel_cascade p\<rparr>)
       (last_timeout t opts)"
proof (induction opts arbitrary: p t)
  case (Cons a opts)
  then show ?case by (cases a) auto
qed simp

end
