(* ===== verification/Storage.thy ===== *)
theory Storage
  imports Driver Resolution
begin

text \<open>
  The storage encoding of run records (\<^verbatim>\<open>src/store/internal/storagepb/convert.go\<close>): the conversion between
  the records of the store contract and the protobuf messages of \<^verbatim>\<open>storage.proto\<close>. The protobuf library is
  a parameter: its marshalling to values of an open type \<open>'b\<close>, and its timestamps of an open type \<open>'t\<close>. What is
  relied on is \<open>proto_lib_ok\<close>: a timestamp reads back as the time it was made from, and a message that could
  be encoded is decoded as itself, except that an empty byte field reads back as nil and that the
  entries of a map come in any order. A protobuf enumeration is open, so it is a number; a message
  field that may be absent is an option. The theorems are the round trips.
\<close>

section \<open>Messages\<close>

record 't pb_run_meta =
  rm_run_id :: string
  rm_pipeline_id :: string
  rm_resource_id :: string
  rm_created_at :: "'t option"
  rm_annotations :: "(string, string) gomap"

record 't pb_await =
  pa_mode :: int
  pa_run_ids :: "string list"
  pa_deadline :: "'t option"
  pa_cancel_cascade :: bool

record pb_wake =
  pw_targets :: "string list"
  pw_done :: "string list"
  pw_expired :: bool

record 't pb_cursor =
  pc_phase :: int
  pc_step_id :: string
  pc_attempts :: u64
  pc_next_attempt_at :: "'t option"
  pc_last_error :: string
  pc_last_reason :: string
  pc_last_error_at :: "'t option"
  pc_updated_at :: "'t option"
  pc_awaiting :: "'t pb_await option"
  pc_awaited :: "pb_wake option"
  pc_started_at :: "'t option"

record 't pb_failure =
  pf_step_id :: string
  pf_phase :: int
  pf_attempt :: u64
  pf_message :: string
  pf_at :: "'t option"
  pf_kind :: int
  pf_reason :: string

record 't pb_operation =
  po_status :: int
  po_attempts :: u64
  po_state :: "bytes option"
  po_failure :: "'t pb_failure option"
  po_order :: u32

record 't pb_cancel =
  pk_cause :: string
  pk_at :: "'t option"

record 't pb_terminal =
  pt_outcome :: int
  pt_output :: "bytes option"
  pt_run_id :: string
  pt_pipeline_id :: string
  pt_resource_id :: string
  pt_created_at :: "'t option"
  pt_annotations :: "(string, string) gomap"
  pt_phase :: int
  pt_committed_at :: "'t option"
  pt_failed_unwinds :: "(string, 't pb_operation) gomap"
  pt_failure :: "'t pb_failure option"
  pt_cancel :: "'t pb_cancel option"
  pt_output_beside :: bool
  pt_started_at :: "'t option"

datatype 't pb_message =
    PbRunMeta "'t pb_run_meta" | PbCursor "'t pb_cursor" | PbOperation "'t pb_operation"
  | PbFailure "'t pb_failure" | PbTerminal "'t pb_terminal" | PbCancel "'t pb_cancel"

text \<open>The protobuf library: \<^verbatim>\<open>timestamppb.New\<close>, \<^verbatim>\<open>AsTime\<close>, \<^verbatim>\<open>proto.Marshal\<close>, and \<^verbatim>\<open>proto.Unmarshal\<close> into each message type.\<close>

record ('t, 'b) proto_lib =
  pl_timestamp :: "gotime \<Rightarrow> 't"
  pl_as_time :: "'t \<Rightarrow> gotime"
  pl_marshal :: "'t pb_message \<Rightarrow> goerr + 'b"
  pl_run_meta :: "'b \<Rightarrow> goerr + 't pb_run_meta"
  pl_cursor :: "'b \<Rightarrow> goerr + 't pb_cursor"
  pl_operation :: "'b \<Rightarrow> goerr + 't pb_operation"
  pl_failure :: "'b \<Rightarrow> goerr + 't pb_failure"
  pl_terminal :: "'b \<Rightarrow> goerr + 't pb_terminal"
  pl_cancel :: "'b \<Rightarrow> goerr + 't pb_cancel"

section \<open>Enumerations and times\<close>

definition ts :: "('t, 'b) proto_lib \<Rightarrow> gotime \<Rightarrow> 't option" where
  "ts lib t = (if is_zero t then None else Some (pl_timestamp lib t))"

definition fromTS :: "('t, 'b) proto_lib \<Rightarrow> 't option \<Rightarrow> gotime" where
  "fromTS lib t = (case t of None \<Rightarrow> zero_time | Some x \<Rightarrow> pl_as_time lib x)"

fun phaseToProto :: "phase \<Rightarrow> int" where
  "phaseToProto PhaseForward = 1" | "phaseToProto PhaseUnwind = 2" | "phaseToProto PhaseDone = 3" | "phaseToProto PhaseNone = 0"

definition phaseFromProto :: "int \<Rightarrow> phase" where
  "phaseFromProto n = (if n = 1 then PhaseForward else if n = 2 then PhaseUnwind else if n = 3 then PhaseDone else PhaseNone)"

fun outcomeToProto :: "outcome \<Rightarrow> int" where
  "outcomeToProto OutcomeSuccess = 1" | "outcomeToProto OutcomeFailure = 2" | "outcomeToProto OutcomeNone = 0"

definition outcomeFromProto :: "int \<Rightarrow> outcome" where
  "outcomeFromProto n = (if n = 1 then OutcomeSuccess else if n = 2 then OutcomeFailure else OutcomeNone)"

fun opStatusToProto :: "op_status \<Rightarrow> int" where
  "opStatusToProto OpUnresolved = 1" | "opStatusToProto OpSucceeded = 2" | "opStatusToProto OpFailed = 3" | "opStatusToProto OpNone = 0"

definition opStatusFromProto :: "int \<Rightarrow> op_status" where
  "opStatusFromProto n = (if n = 1 then OpUnresolved else if n = 2 then OpSucceeded else if n = 3 then OpFailed else OpNone)"

fun kindToProto :: "failure_kind \<Rightarrow> int" where
  "kindToProto FailureKindUser = 2" | "kindToProto FailureKindCanceled = 3" | "kindToProto FailureKindSystem = 1"

definition kindFromProto :: "int \<Rightarrow> failure_kind" where
  "kindFromProto n = (if n = 2 then FailureKindUser else if n = 3 then FailureKindCanceled else FailureKindSystem)"

fun awaitModeToProto :: "await_mode \<Rightarrow> int" where
  "awaitModeToProto AwaitModeAll = 1" | "awaitModeToProto AwaitModeAny = 2" | "awaitModeToProto AwaitModeNone = 0"

definition awaitModeFromProto :: "int \<Rightarrow> await_mode" where
  "awaitModeFromProto n = (if n = 2 then AwaitModeAny else AwaitModeAll)"

section \<open>Conversions\<close>

text \<open>A nil and an empty list of run ids are the same list in the model.\<close>

definition runIDsToProto :: "run_id list \<Rightarrow> string list" where
  "runIDsToProto ids = (if length ids = 0 then [] else map (\<lambda>i. i) ids)"

definition runIDsFromProto :: "string list \<Rightarrow> run_id list" where
  "runIDsFromProto ids = (if length ids = 0 then [] else map (\<lambda>i. i) ids)"

definition awaitToProto :: "('t, 'b) proto_lib \<Rightarrow> await option \<Rightarrow> 't pb_await option" where
  "awaitToProto lib a = map_option (\<lambda>a. \<lparr>pa_mode = awaitModeToProto (aw_mode a), pa_run_ids = runIDsToProto (aw_targets a),
     pa_deadline = ts lib (aw_deadline a), pa_cancel_cascade = aw_cancel_cascade a\<rparr>) a"

definition awaitFromProto :: "('t, 'b) proto_lib \<Rightarrow> 't pb_await option \<Rightarrow> await option" where
  "awaitFromProto lib pb = map_option (\<lambda>pb. \<lparr>aw_mode = awaitModeFromProto (pa_mode pb), aw_targets = runIDsFromProto (pa_run_ids pb),
     aw_deadline = fromTS lib (pa_deadline pb), aw_cancel_cascade = pa_cancel_cascade pb\<rparr>) pb"

definition wakeToProto :: "wake option \<Rightarrow> pb_wake option" where
  "wakeToProto w = map_option (\<lambda>w. \<lparr>pw_targets = runIDsToProto (wk_targets w), pw_done = runIDsToProto (wk_done w), pw_expired = wk_expired w\<rparr>) w"

definition wakeFromProto :: "pb_wake option \<Rightarrow> wake option" where
  "wakeFromProto pb = map_option (\<lambda>pb. \<lparr>wk_targets = runIDsFromProto (pw_targets pb), wk_done = runIDsFromProto (pw_done pb), wk_expired = pw_expired pb\<rparr>) pb"

definition failureRecordToProto :: "('t, 'b) proto_lib \<Rightarrow> failure \<Rightarrow> 't pb_failure" where
  "failureRecordToProto lib f = \<lparr>pf_step_id = f_step f, pf_phase = phaseToProto (f_phase f), pf_attempt = f_attempt f, pf_message = f_message f,
     pf_at = ts lib (f_at f), pf_kind = kindToProto (f_kind f), pf_reason = f_reason f\<rparr>"

definition failureRecordFromProto :: "('t, 'b) proto_lib \<Rightarrow> 't pb_failure \<Rightarrow> failure" where
  "failureRecordFromProto lib pb = \<lparr>f_step = pf_step_id pb, f_phase = phaseFromProto (pf_phase pb), f_attempt = pf_attempt pb, f_message = pf_message pb,
     f_at = fromTS lib (pf_at pb), f_kind = kindFromProto (pf_kind pb), f_reason = pf_reason pb\<rparr>"

definition operationRecordToProto :: "('t, 'b) proto_lib \<Rightarrow> operation_record \<Rightarrow> 't pb_operation" where
  "operationRecordToProto lib op = \<lparr>po_status = opStatusToProto (or_status op), po_attempts = or_attempts op, po_state = or_state op,
     po_failure = map_option (failureRecordToProto lib) (or_failure op), po_order = or_order op\<rparr>"

definition operationRecordFromProto :: "('t, 'b) proto_lib \<Rightarrow> 't pb_operation \<Rightarrow> operation_record" where
  "operationRecordFromProto lib pb = \<lparr>or_status = opStatusFromProto (po_status pb), or_attempts = po_attempts pb, or_state = po_state pb,
     or_failure = map_option (failureRecordFromProto lib) (po_failure pb), or_order = po_order pb\<rparr>"

section \<open>Encoding and decoding\<close>

definition storage_error :: "string \<Rightarrow> string \<Rightarrow> goerr \<Rightarrow> goerr" where
  "storage_error verb what err = GoErr (''storagepb: '' @ verb @ '' '' @ what @ '': '' @ error_string err) None None [err]"

definition marshal :: "('t, 'b) proto_lib \<Rightarrow> string \<Rightarrow> 't pb_message \<Rightarrow> goerr + 'b" where
  "marshal lib what m = (case pl_marshal lib m of Inl err \<Rightarrow> Inl (storage_error ''encoding'' what err) | Inr b \<Rightarrow> Inr b)"

definition unmarshal :: "string \<Rightarrow> ('b \<Rightarrow> goerr + 'm) \<Rightarrow> 'b \<Rightarrow> goerr + 'm" where
  "unmarshal what dec b = (case dec b of Inl err \<Rightarrow> Inl (storage_error ''decoding'' what err) | Inr m \<Rightarrow> Inr m)"

definition MarshalRunMeta :: "('t, 'b) proto_lib \<Rightarrow> run_record \<Rightarrow> goerr + 'b" where
  "MarshalRunMeta lib rec = marshal lib ''run meta'' (PbRunMeta \<lparr>rm_run_id = r_run rec, rm_pipeline_id = r_pipeline rec,
     rm_resource_id = r_resource rec, rm_created_at = ts lib (r_created_at rec), rm_annotations = r_annotations rec\<rparr>)"

definition UnmarshalRunMetaInto :: "('t, 'b) proto_lib \<Rightarrow> 'b \<Rightarrow> run_record \<Rightarrow> goerr + run_record" where
  "UnmarshalRunMetaInto lib b rec = (case unmarshal ''run meta'' (pl_run_meta lib) b of
     Inl err \<Rightarrow> Inl err
   | Inr pb \<Rightarrow> let rec1 = rec\<lparr>r_run := rm_run_id pb, r_pipeline := rm_pipeline_id pb, r_resource := rm_resource_id pb,
         r_created_at := fromTS lib (rm_created_at pb)\<rparr>
       in Inr (if 0 < length (rm_annotations pb) then rec1\<lparr>r_annotations := rm_annotations pb\<rparr> else rec1))"

definition MarshalCursor :: "('t, 'b) proto_lib \<Rightarrow> cursor \<Rightarrow> goerr + 'b" where
  "MarshalCursor lib c = marshal lib ''cursor'' (PbCursor \<lparr>pc_phase = phaseToProto (cu_phase c), pc_step_id = cu_step c, pc_attempts = cu_attempts c,
     pc_next_attempt_at = ts lib (cu_next_attempt_at c), pc_last_error = cu_last_error c, pc_last_reason = cu_last_reason c,
     pc_last_error_at = ts lib (cu_last_error_at c), pc_updated_at = ts lib (cu_updated_at c), pc_awaiting = awaitToProto lib (cu_awaiting c),
     pc_awaited = wakeToProto (cu_awaited c), pc_started_at = ts lib (cu_started_at c)\<rparr>)"

definition UnmarshalCursor :: "('t, 'b) proto_lib \<Rightarrow> 'b \<Rightarrow> goerr + cursor" where
  "UnmarshalCursor lib b = (case unmarshal ''cursor'' (pl_cursor lib) b of
     Inl err \<Rightarrow> Inl err
   | Inr pb \<Rightarrow> Inr \<lparr>cu_phase = phaseFromProto (pc_phase pb), cu_step = pc_step_id pb, cu_attempts = pc_attempts pb,
       cu_awaiting = awaitFromProto lib (pc_awaiting pb), cu_awaited = wakeFromProto (pc_awaited pb),
       cu_next_attempt_at = fromTS lib (pc_next_attempt_at pb), cu_last_error = pc_last_error pb, cu_last_reason = pc_last_reason pb,
       cu_last_error_at = fromTS lib (pc_last_error_at pb), cu_updated_at = fromTS lib (pc_updated_at pb),
       cu_started_at = fromTS lib (pc_started_at pb)\<rparr>)"

definition MarshalOperationRecord :: "('t, 'b) proto_lib \<Rightarrow> operation_record \<Rightarrow> goerr + 'b" where
  "MarshalOperationRecord lib op = marshal lib ''operation record'' (PbOperation (operationRecordToProto lib op))"

definition UnmarshalOperationRecord :: "('t, 'b) proto_lib \<Rightarrow> 'b \<Rightarrow> goerr + operation_record" where
  "UnmarshalOperationRecord lib b = (case unmarshal ''operation record'' (pl_operation lib) b of
     Inl err \<Rightarrow> Inl err | Inr pb \<Rightarrow> Inr (operationRecordFromProto lib pb))"

definition MarshalFailureRecord :: "('t, 'b) proto_lib \<Rightarrow> failure \<Rightarrow> goerr + 'b" where
  "MarshalFailureRecord lib f = marshal lib ''failure record'' (PbFailure (failureRecordToProto lib f))"

definition UnmarshalFailureRecord :: "('t, 'b) proto_lib \<Rightarrow> 'b \<Rightarrow> goerr + failure" where
  "UnmarshalFailureRecord lib b = (case unmarshal ''failure record'' (pl_failure lib) b of
     Inl err \<Rightarrow> Inl err | Inr pb \<Rightarrow> Inr (failureRecordFromProto lib pb))"

definition cancelToProto :: "('t, 'b) proto_lib \<Rightarrow> cancel_request \<Rightarrow> 't pb_cancel" where
  "cancelToProto lib c = \<lparr>pk_cause = cr_cause c, pk_at = ts lib (cr_at c)\<rparr>"

definition cancelFromProto :: "('t, 'b) proto_lib \<Rightarrow> 't pb_cancel \<Rightarrow> cancel_request" where
  "cancelFromProto lib pb = \<lparr>cr_cause = pk_cause pb, cr_at = fromTS lib (pk_at pb)\<rparr>"

definition MarshalCancel :: "('t, 'b) proto_lib \<Rightarrow> cancel_request \<Rightarrow> goerr + 'b" where
  "MarshalCancel lib c = marshal lib ''cancel request'' (PbCancel (cancelToProto lib c))"

definition UnmarshalCancel :: "('t, 'b) proto_lib \<Rightarrow> 'b \<Rightarrow> goerr + cancel_request" where
  "UnmarshalCancel lib b = (case unmarshal ''cancel request'' (pl_cancel lib) b of
     Inl err \<Rightarrow> Inl err | Inr pb \<Rightarrow> Inr (cancelFromProto lib pb))"

text \<open>The loop over the steps that collects the failed unwinds.\<close>

definition failed_unwinds_pb :: "('t, 'b) proto_lib \<Rightarrow> (step_id, step_record) gomap \<Rightarrow> (string, 't pb_operation) gomap" where
  "failed_unwinds_pb lib m = fold (\<lambda>(k, sr) out.
     if or_status (sr_unwind sr) \<noteq> OpFailed then out else gm_put k (operationRecordToProto lib (sr_unwind sr)) out) m []"

definition terminalToProto :: "('t, 'b) proto_lib \<Rightarrow> run_record \<Rightarrow> outcome \<Rightarrow> bool \<Rightarrow> 't pb_terminal" where
  "terminalToProto lib rec oc outputBeside = \<lparr>pt_outcome = outcomeToProto oc, pt_output = (if outputBeside then None else r_output rec),
     pt_run_id = r_run rec, pt_pipeline_id = r_pipeline rec, pt_resource_id = r_resource rec, pt_created_at = ts lib (r_created_at rec),
     pt_annotations = r_annotations rec, pt_phase = phaseToProto (r_phase rec), pt_committed_at = ts lib (r_updated_at rec),
     pt_failed_unwinds = failed_unwinds_pb lib (r_steps rec), pt_failure = map_option (failureRecordToProto lib) (r_failure rec),
     pt_cancel = map_option (cancelToProto lib) (r_cancel rec), pt_output_beside = outputBeside, pt_started_at = ts lib (r_started_at rec)\<rparr>"

definition MarshalTerminal :: "('t, 'b) proto_lib \<Rightarrow> run_record \<Rightarrow> bool \<Rightarrow> goerr + 'b" where
  "MarshalTerminal lib rec outputBeside = (case r_outcome rec of
     None \<Rightarrow> Inl (GoErr ''storagepb: encoding terminal: record has no outcome'' None None [])
   | Some oc \<Rightarrow> marshal lib ''terminal'' (PbTerminal (terminalToProto lib rec oc outputBeside)))"

text \<open>The assignments of the fields, and the loop over the failed unwinds.\<close>

definition terminal_fields :: "('t, 'b) proto_lib \<Rightarrow> 't pb_terminal \<Rightarrow> run_record \<Rightarrow> run_record" where
  "terminal_fields lib pb rec =
     (let rec1 = rec\<lparr>r_run := pt_run_id pb, r_pipeline := pt_pipeline_id pb, r_resource := pt_resource_id pb,
            r_created_at := fromTS lib (pt_created_at pb)\<rparr>;
          rec2 = (if 0 < length (pt_annotations pb) then rec1\<lparr>r_annotations := pt_annotations pb\<rparr> else rec1)
      in rec2\<lparr>r_phase := phaseFromProto (pt_phase pb), r_updated_at := fromTS lib (pt_committed_at pb),
            r_started_at := fromTS lib (pt_started_at pb), r_outcome := Some (outcomeFromProto (pt_outcome pb)), r_output := pt_output pb\<rparr>)"

definition terminal_unwinds :: "('t, 'b) proto_lib \<Rightarrow> (string, 't pb_operation) gomap \<Rightarrow> run_record \<Rightarrow> run_record" where
  "terminal_unwinds lib us rec = fold (\<lambda>(k, op) r. put_op k PhaseUnwind (operationRecordFromProto lib op) r) us rec"

definition UnmarshalTerminalInto :: "('t, 'b) proto_lib \<Rightarrow> 'b \<Rightarrow> run_record \<Rightarrow> goerr + run_record \<times> bool" where
  "UnmarshalTerminalInto lib b rec = (case unmarshal ''terminal'' (pl_terminal lib) b of
     Inl err \<Rightarrow> Inl err
   | Inr pb \<Rightarrow>
      let rec4 = terminal_unwinds lib (pt_failed_unwinds pb) (terminal_fields lib pb rec);
          rec5 = (case pt_failure pb of None \<Rightarrow> rec4 | Some f \<Rightarrow> rec4\<lparr>r_failure := Some (failureRecordFromProto lib f)\<rparr>);
          rec6 = (case pt_cancel pb of None \<Rightarrow> rec5 | Some c \<Rightarrow> rec5\<lparr>r_cancel := Some (cancelFromProto lib c)\<rparr>)
      in Inr (rec6, pt_output_beside pb))"

section \<open>The protobuf library\<close>

definition nil_bytes :: "bytes option \<Rightarrow> bytes option" where
  "nil_bytes b = (if b = Some [] then None else b)"

definition norm_op :: "'t pb_operation \<Rightarrow> 't pb_operation" where
  "norm_op op = op\<lparr>po_state := nil_bytes (po_state op)\<rparr>"

text \<open>What the conversions rely on.\<close>

definition proto_lib_ok :: "('t, 'b) proto_lib \<Rightarrow> bool" where
  "proto_lib_ok lib \<longleftrightarrow> (\<forall>t. t \<noteq> zero_time \<longrightarrow> pl_as_time lib (pl_timestamp lib t) = t) \<and>
     (\<forall>m b. pl_marshal lib (PbRunMeta m) = Inr b \<longrightarrow>
        (\<exists>as. mset as = mset (rm_annotations m) \<and> pl_run_meta lib b = Inr (m\<lparr>rm_annotations := as\<rparr>))) \<and>
     (\<forall>m b. pl_marshal lib (PbCursor m) = Inr b \<longrightarrow> pl_cursor lib b = Inr m) \<and>
     (\<forall>m b. pl_marshal lib (PbOperation m) = Inr b \<longrightarrow> pl_operation lib b = Inr (norm_op m)) \<and>
     (\<forall>m b. pl_marshal lib (PbFailure m) = Inr b \<longrightarrow> pl_failure lib b = Inr m) \<and>
     (\<forall>m b. pl_marshal lib (PbCancel m) = Inr b \<longrightarrow> pl_cancel lib b = Inr m) \<and>
     (\<forall>m b. pl_marshal lib (PbTerminal m) = Inr b \<longrightarrow>
        (\<exists>as us. mset as = mset (pt_annotations m) \<and> mset us = mset (map (\<lambda>(k, op). (k, norm_op op)) (pt_failed_unwinds m)) \<and>
           pl_terminal lib b = Inr (m\<lparr>pt_annotations := as, pt_failed_unwinds := us, pt_output := nil_bytes (pt_output m)\<rparr>)))"

lemma proto_lib_okD:
  assumes "proto_lib_ok lib"
  shows "pl_marshal lib (PbRunMeta m1) = Inr b \<Longrightarrow> \<exists>as. mset as = mset (rm_annotations m1) \<and> pl_run_meta lib b = Inr (m1\<lparr>rm_annotations := as\<rparr>)"
    and "pl_marshal lib (PbCursor m2) = Inr b \<Longrightarrow> pl_cursor lib b = Inr m2"
    and "pl_marshal lib (PbOperation m3) = Inr b \<Longrightarrow> pl_operation lib b = Inr (norm_op m3)"
    and "pl_marshal lib (PbFailure m4) = Inr b \<Longrightarrow> pl_failure lib b = Inr m4"
    and "pl_marshal lib (PbCancel m5) = Inr b \<Longrightarrow> pl_cancel lib b = Inr m5"
    and "pl_marshal lib (PbTerminal m6) = Inr b \<Longrightarrow> \<exists>as us. mset as = mset (pt_annotations m6) \<and>
       mset us = mset (map (\<lambda>(k, op). (k, norm_op op)) (pt_failed_unwinds m6)) \<and>
       pl_terminal lib b = Inr (m6\<lparr>pt_annotations := as, pt_failed_unwinds := us, pt_output := nil_bytes (pt_output m6)\<rparr>)"
  using assms by (simp_all add: proto_lib_ok_def)

lemma marshal_Inr: "marshal lib what m = Inr b \<longleftrightarrow> pl_marshal lib m = Inr b"
  by (simp add: marshal_def split: sum.split)

lemma unmarshal_Inr [simp]: "dec b = Inr m \<Longrightarrow> unmarshal what dec b = Inr m"
  by (simp add: unmarshal_def)

section \<open>Round trips of the parts\<close>

named_theorems pb_simps \<open>decoding after encoding\<close>

lemma enum_roundtrip [pb_simps]:
  "phaseFromProto (phaseToProto p) = p" "outcomeFromProto (outcomeToProto oc) = oc" "opStatusFromProto (opStatusToProto st) = st"
  "kindFromProto (kindToProto kd) = kd" "m \<noteq> AwaitModeNone \<Longrightarrow> awaitModeFromProto (awaitModeToProto m) = m"
  by (cases p, simp_all add: phaseFromProto_def) (cases oc, simp_all add: outcomeFromProto_def, cases st, simp_all add: opStatusFromProto_def,
      cases kd, simp_all add: kindFromProto_def, cases m, simp_all add: awaitModeFromProto_def)

lemma runIDs_roundtrip [pb_simps]: "runIDsFromProto (runIDsToProto ids) = ids"
  by (simp add: runIDsFromProto_def runIDsToProto_def)

lemma ts_roundtrip: "proto_lib_ok lib \<Longrightarrow> fromTS lib (ts lib t) = t"
  by (simp add: proto_lib_ok_def ts_def fromTS_def)

lemma wake_roundtrip [pb_simps]: "wakeFromProto (wakeToProto w) = w"
  by (cases w) (simp_all add: wakeFromProto_def wakeToProto_def pb_simps)

lemma await_roundtrip: "proto_lib_ok lib \<Longrightarrow> (\<And>x. a = Some x \<Longrightarrow> aw_mode x \<noteq> AwaitModeNone) \<Longrightarrow> awaitFromProto lib (awaitToProto lib a) = a"
  by (cases a) (simp_all add: awaitFromProto_def awaitToProto_def pb_simps ts_roundtrip)

lemma failure_roundtrip: "proto_lib_ok lib \<Longrightarrow> failureRecordFromProto lib (failureRecordToProto lib f) = f"
  by (simp add: failureRecordFromProto_def failureRecordToProto_def pb_simps ts_roundtrip)

lemma cancel_roundtrip: "proto_lib_ok lib \<Longrightarrow> cancelFromProto lib (cancelToProto lib c) = c"
  by (simp add: cancelFromProto_def cancelToProto_def ts_roundtrip)

lemma operation_roundtrip:
  "proto_lib_ok lib \<Longrightarrow> operationRecordFromProto lib (norm_op (operationRecordToProto lib op)) = op\<lparr>or_state := nil_bytes (or_state op)\<rparr>"
  by (simp add: operationRecordFromProto_def operationRecordToProto_def norm_op_def pb_simps option.map_comp comp_def failure_roundtrip option.map_ident)

section \<open>The terminal record\<close>

lemma failed_unwinds_pb_eq:
  assumes "gm_ok m"
  shows "failed_unwinds_pb lib m = map (\<lambda>(k, sr). (k, operationRecordToProto lib (sr_unwind sr))) (filter (\<lambda>(k, sr). or_status (sr_unwind sr) = OpFailed) m)"
proof -
  have app: "k \<notin> set (gm_keys out) \<Longrightarrow> gm_put k v out = out @ [(k, v)]" for k :: string and v :: "'a pb_operation" and out
    by (induction out) auto
  have "fold (\<lambda>(k, sr) out. if or_status (sr_unwind sr) \<noteq> OpFailed then out else gm_put k (operationRecordToProto lib (sr_unwind sr)) out) m out =
      out @ map (\<lambda>(k, sr). (k, operationRecordToProto lib (sr_unwind sr))) (filter (\<lambda>(k, sr). or_status (sr_unwind sr) = OpFailed) m)"
    if "set (gm_keys out) \<inter> set (gm_keys m) = {}" "gm_ok m" for out
    using that
  proof (induction m arbitrary: out)
    case (Cons x m)
    then show ?case by (cases x) (auto simp: gm_ok_def app)
  qed simp
  from this [of "[]"] assms show ?thesis by (simp add: failed_unwinds_pb_def)
qed

lemma put_unwinds_get:
  "gm_ok us \<Longrightarrow> gm_get (r_steps (fold (\<lambda>(k, op) r. put_op k PhaseUnwind (dec op) r) us r0)) k =
     (case gm_get us k of None \<Rightarrow> gm_get (r_steps r0) k | Some op \<Rightarrow> Some (sr_put PhaseUnwind (dec op) (rec_step r0 k)))"
proof (induction us arbitrary: r0)
  case (Cons x us)
  obtain k' op where x: "x = (k', op)" by (cases x)
  have ok: "gm_ok us" "gm_get us k' = None" using Cons.prems x by (auto simp: gm_ok_def map_of_eq_None_iff)
  show ?case using Cons.IH [OF ok(1), of "put_op k' PhaseUnwind (dec op) r0"] ok(2) x
    by (auto simp: put_op_def rec_step_def split: option.splits)
qed simp

lemma put_unwinds_frame:
  "\<exists>st. fold (\<lambda>(k, op) r. put_op k PhaseUnwind (dec op) r) us r0 = r0\<lparr>r_steps := st\<rparr>"
proof (induction us arbitrary: r0)
  case Nil
  show ?case by (intro exI [of _ "r_steps r0"]) simp
next
  case (Cons x us)
  obtain k op where x: "x = (k, op)" by (cases x)
  obtain st where "fold (\<lambda>(k, op) r. put_op k PhaseUnwind (dec op) r) us (put_op k PhaseUnwind (dec op) r0) =
      (put_op k PhaseUnwind (dec op) r0)\<lparr>r_steps := st\<rparr>" using Cons by blast
  then show ?case by (intro exI [of _ st]) (simp add: x put_op_def)
qed

definition zero_record :: run_record where
  "zero_record = \<lparr>r_run = [], r_pipeline = [], r_resource = [], r_annotations = [], r_input = None, r_phase = PhaseNone, r_steps = [],
     r_failure = None, r_output = None, r_outcome = None, r_next_attempt_at = zero_time, r_awaiting = None, r_awaited = None,
     r_last_error = [], r_last_reason = [], r_last_error_at = zero_time, r_cancel = None, r_created_at = zero_time,
     r_updated_at = zero_time, r_started_at = zero_time\<rparr>"

definition read_back :: "bool \<Rightarrow> run_record \<Rightarrow> run_record \<Rightarrow> bool" where
  "read_back beside rec rec' \<longleftrightarrow> mset (r_annotations rec') = mset (r_annotations rec) \<and>
     rec' = (compact_terminal rec)\<lparr>r_annotations := r_annotations rec', r_steps := r_steps rec', r_output := if beside then None else nil_bytes (r_output rec)\<rparr> \<and>
     (\<forall>k. gm_get (r_steps rec') k = map_option (\<lambda>sr. sr\<lparr>sr_unwind := (sr_unwind sr)\<lparr>or_state := nil_bytes (or_state (sr_unwind sr))\<rparr>\<rparr>)
        (gm_get (r_steps (compact_terminal rec)) k))"

lemma gm_get_mset:
  assumes "gm_ok m" "mset m' = mset m"
  shows "gm_ok m'" "gm_get m' = gm_get m"
proof -
  have "mset (gm_keys m') = mset (gm_keys m)" using assms(2) by (metis mset_map)
  then show ok: "gm_ok m'" using assms(1) unfolding gm_ok_def by (metis mset_eq_imp_distinct_iff)
  show "gm_get m' = gm_get m" using ok assms unfolding gm_ok_def
    by (metis mset_eq_setD map_of_inject_set)
qed

lemma norm_failed_unwinds:
  "gm_ok m \<Longrightarrow> map (\<lambda>(k, op). (k, norm_op op)) (failed_unwinds_pb lib m) =
     map (\<lambda>(k, sr). (k, norm_op (operationRecordToProto lib (sr_unwind sr)))) (filter (\<lambda>(k, sr). or_status (sr_unwind sr) = OpFailed) m)"
  by (simp add: failed_unwinds_pb_eq case_prod_unfold comp_def)

lemma gm_ok_failed_unwinds: "gm_ok m \<Longrightarrow> gm_ok (map (\<lambda>(k, op). (k, norm_op op)) (failed_unwinds_pb lib m))"
  by (subst norm_failed_unwinds, assumption) (simp add: gm_ok_def case_prod_unfold comp_def distinct_map_filter)

text \<open>What is decoded from the failed unwinds, in any order, are the steps the terminal compaction keeps.\<close>

lemma terminal_unwinds_get:
  assumes "proto_lib_ok lib" "gm_ok m" "mset us = mset (map (\<lambda>(k, op). (k, norm_op op)) (failed_unwinds_pb lib m))" "r_steps r0 = []"
  shows "gm_get (r_steps (terminal_unwinds lib us r0)) k =
    map_option (\<lambda>sr. sr\<lparr>sr_unwind := (sr_unwind sr)\<lparr>or_state := nil_bytes (or_state (sr_unwind sr))\<rparr>\<rparr>) (gm_get (compact_steps m) k)"
proof -
  note us = gm_get_mset [OF gm_ok_failed_unwinds [OF assms(2)] assms(3)]
  have "rec_step r0 k = zero_step" using assms(4) by (simp add: rec_step_def)
  then show ?thesis
    by (simp add: terminal_unwinds_def put_unwinds_get [OF us(1)] us(2) norm_failed_unwinds [OF assms(2)] compact_steps_def map_of_map assms(4)
        sr_put_def operation_roundtrip [OF assms(1)] split: option.split)
qed

lemma terminal_unwinds_frame:
  obtains st where "terminal_unwinds lib us r0 = r0\<lparr>r_steps := st\<rparr>"
  using put_unwinds_frame unfolding terminal_unwinds_def by blast

lemma terminal_fields_zero:
  "terminal_fields lib pb zero_record = zero_record\<lparr>r_run := pt_run_id pb, r_pipeline := pt_pipeline_id pb, r_resource := pt_resource_id pb,
     r_created_at := fromTS lib (pt_created_at pb), r_annotations := pt_annotations pb, r_phase := phaseFromProto (pt_phase pb),
     r_updated_at := fromTS lib (pt_committed_at pb), r_started_at := fromTS lib (pt_started_at pb),
     r_outcome := Some (outcomeFromProto (pt_outcome pb)), r_output := pt_output pb\<rparr>"
  by (cases "pt_annotations pb") (simp_all add: terminal_fields_def zero_record_def)

lemma terminalToProto_back:
  assumes "proto_lib_ok lib"
  shows "terminal_fields lib ((terminalToProto lib rec oc beside)\<lparr>pt_annotations := as, pt_failed_unwinds := us, pt_output := out\<rparr>) zero_record =
      zero_record\<lparr>r_run := r_run rec, r_pipeline := r_pipeline rec, r_resource := r_resource rec, r_created_at := r_created_at rec,
      r_annotations := as, r_phase := r_phase rec, r_updated_at := r_updated_at rec, r_started_at := r_started_at rec,
      r_outcome := Some oc, r_output := out\<rparr>"
  by (simp add: terminal_fields_zero terminalToProto_def pb_simps ts_roundtrip [OF assms])

lemma unmarshal_terminal:
  assumes dec: "pl_terminal lib b = Inr pb" and put: "terminal_unwinds lib (pt_failed_unwinds pb) (terminal_fields lib pb zero_record) = rec4"
    and "r_failure rec4 = None" "r_cancel rec4 = None"
  shows "UnmarshalTerminalInto lib b zero_record = Inr (rec4\<lparr>r_failure := map_option (failureRecordFromProto lib) (pt_failure pb),
      r_cancel := map_option (cancelFromProto lib) (pt_cancel pb)\<rparr>, pt_output_beside pb)"
  using assms by (cases rec4; cases "pt_failure pb"; cases "pt_cancel pb") (simp_all add: UnmarshalTerminalInto_def)

text \<open>The rows that are written apart.\<close>

lemma cursor_row_roundtrip:
  assumes lib: "proto_lib_ok lib" and "case cu_awaiting c of None \<Rightarrow> True | Some a \<Rightarrow> aw_mode a \<noteq> AwaitModeNone" and enc: "MarshalCursor lib c = Inr b"
  shows "UnmarshalCursor lib b = Inr c"
proof -
  have "awaitFromProto lib (awaitToProto lib (cu_awaiting c)) = cu_awaiting c" using assms(2) by (intro await_roundtrip [OF lib]) simp
  then show ?thesis using proto_lib_okD(2) [OF lib enc [unfolded MarshalCursor_def marshal_Inr]]
    by (simp add: UnmarshalCursor_def pb_simps ts_roundtrip [OF lib])
qed

lemma operation_row_roundtrip:
  assumes lib: "proto_lib_ok lib" and enc: "MarshalOperationRecord lib op = Inr b"
  shows "UnmarshalOperationRecord lib b = Inr (op\<lparr>or_state := nil_bytes (or_state op)\<rparr>)"
  using proto_lib_okD(3) [OF lib enc [unfolded MarshalOperationRecord_def marshal_Inr]]
  by (simp add: UnmarshalOperationRecord_def operation_roundtrip [OF lib])

lemma failure_row_roundtrip:
  assumes lib: "proto_lib_ok lib" and enc: "MarshalFailureRecord lib f = Inr b"
  shows "UnmarshalFailureRecord lib b = Inr f"
  using proto_lib_okD(4) [OF lib enc [unfolded MarshalFailureRecord_def marshal_Inr]]
  by (simp add: UnmarshalFailureRecord_def failure_roundtrip [OF lib])

lemma cancel_row_roundtrip:
  assumes lib: "proto_lib_ok lib" and enc: "MarshalCancel lib c = Inr b"
  shows "UnmarshalCancel lib b = Inr c"
  using proto_lib_okD(5) [OF lib enc [unfolded MarshalCancel_def marshal_Inr]]
  by (simp add: UnmarshalCancel_def cancel_roundtrip [OF lib])

lemma run_meta_row_roundtrip:
  assumes lib: "proto_lib_ok lib" and enc: "MarshalRunMeta lib rec = Inr b"
  shows "\<exists>as. mset as = mset (r_annotations rec) \<and>
    UnmarshalRunMetaInto lib b zero_record = Inr (zero_record\<lparr>r_run := r_run rec, r_pipeline := r_pipeline rec, r_resource := r_resource rec,
      r_created_at := r_created_at rec, r_annotations := as\<rparr>)"
proof -
  obtain as where as: "mset as = mset (r_annotations rec)" and "pl_run_meta lib b = Inr \<lparr>rm_run_id = r_run rec, rm_pipeline_id = r_pipeline rec,
      rm_resource_id = r_resource rec, rm_created_at = ts lib (r_created_at rec), rm_annotations = as\<rparr>"
    using proto_lib_okD(1) [OF lib enc [unfolded MarshalRunMeta_def marshal_Inr]] by auto
  then have "UnmarshalRunMetaInto lib b zero_record = Inr (zero_record\<lparr>r_run := r_run rec, r_pipeline := r_pipeline rec, r_resource := r_resource rec,
      r_created_at := r_created_at rec, r_annotations := as\<rparr>)"
    by (cases as) (simp_all add: UnmarshalRunMetaInto_def ts_roundtrip [OF lib] zero_record_def)
  with as show ?thesis by blast
qed

section \<open>A codec\<close>

text \<open>A protobuf library for the witnesses: a message is its own encoding, a timestamp its time.\<close>

definition bad_message :: goerr where
  "bad_message = GoErr ''proto: wrong message'' None None []"

definition plain_lib :: "(gotime, gotime pb_message) proto_lib" where
  "plain_lib = \<lparr>pl_timestamp = (\<lambda>t. t), pl_as_time = (\<lambda>t. t), pl_marshal = Inr,
     pl_run_meta = (\<lambda>b. case b of PbRunMeta m \<Rightarrow> Inr m | _ \<Rightarrow> Inl bad_message),
     pl_cursor = (\<lambda>b. case b of PbCursor m \<Rightarrow> Inr m | _ \<Rightarrow> Inl bad_message),
     pl_operation = (\<lambda>b. case b of PbOperation m \<Rightarrow> Inr (norm_op m) | _ \<Rightarrow> Inl bad_message),
     pl_failure = (\<lambda>b. case b of PbFailure m \<Rightarrow> Inr m | _ \<Rightarrow> Inl bad_message),
     pl_terminal = (\<lambda>b. case b of PbTerminal m \<Rightarrow> Inr (m\<lparr>pt_failed_unwinds := map (\<lambda>(k, op). (k, norm_op op)) (pt_failed_unwinds m),
        pt_output := nil_bytes (pt_output m)\<rparr>) | _ \<Rightarrow> Inl bad_message),
     pl_cancel = (\<lambda>b. case b of PbCancel m \<Rightarrow> Inr m | _ \<Rightarrow> Inl bad_message)\<rparr>"

lemma plain_lib_ok: "proto_lib_ok plain_lib"
proof -
  have "\<exists>as us. mset as = mset (pt_annotations m) \<and> mset us = mset (map (\<lambda>(k, op). (k, norm_op op)) (pt_failed_unwinds m)) \<and>
      m\<lparr>pt_failed_unwinds := map (\<lambda>(k, op). (k, norm_op op)) (pt_failed_unwinds m), pt_output := nil_bytes (pt_output m)\<rparr> =
      m\<lparr>pt_annotations := as, pt_failed_unwinds := us, pt_output := nil_bytes (pt_output m)\<rparr>" for m :: "gotime pb_terminal"
    by (intro exI [of _ "pt_annotations m"] exI [of _ "map (\<lambda>(k, op). (k, norm_op op)) (pt_failed_unwinds m)"]) simp
  moreover have "\<exists>as. mset as = mset (rm_annotations m) \<and> m = m\<lparr>rm_annotations := as\<rparr>" for m :: "gotime pb_run_meta"
    by (intro exI [of _ "rm_annotations m"]) simp
  ultimately show ?thesis by (simp add: proto_lib_ok_def plain_lib_def)
qed

text \<open>A cursor at an await of one run, a failed operation with an empty state, and a finished record with two steps, the unwind of one of them failed.\<close>

definition wit_cursor :: cursor where
  "wit_cursor = \<lparr>cu_phase = PhaseForward, cu_step = ''s'', cu_attempts = 2,
     cu_awaiting = Some \<lparr>aw_mode = AwaitModeAny, aw_targets = [''r2''], aw_deadline = zero_time, aw_cancel_cascade = True\<rparr>, cu_awaited = None,
     cu_next_attempt_at = zero_time, cu_last_error = [], cu_last_reason = [], cu_last_error_at = zero_time, cu_updated_at = zero_time, cu_started_at = zero_time\<rparr>"

definition wit_failed :: operation_record where
  "wit_failed = \<lparr>or_status = OpFailed, or_attempts = 1, or_state = Some [],
     or_failure = Some \<lparr>f_step = ''s'', f_phase = PhaseUnwind, f_attempt = 1, f_message = ''no'', f_at = zero_time, f_kind = FailureKindUser, f_reason = []\<rparr>, or_order = 1\<rparr>"

definition wit_record :: run_record where
  "wit_record = zero_record\<lparr>r_run := ''r1'', r_annotations := [(''k'', ''v'')], r_phase := PhaseDone, r_outcome := Some OutcomeFailure, r_input := Some [],
     r_steps := [(''s'', zero_step\<lparr>sr_unwind := wit_failed\<rparr>), (''t'', zero_step)]\<rparr>"

section \<open>Properties\<close>

text \<open>Claim C17. A row of the storage encoding reads back as what was written: when the encoding of a cursor, a failure or a cancel request succeeds, decoding the bytes gives that value; an operation record reads back as itself except that an empty state is nil; and the identity of a run reads back into a fresh record, its annotations in some order. The await of a cursor must have a mode, since a missing one is decoded as all.\<close>

theorem storage_rows_roundtrip:
  assumes "proto_lib_ok lib"
  shows "((case cu_awaiting c of None \<Rightarrow> True | Some a \<Rightarrow> aw_mode a \<noteq> AwaitModeNone) \<longrightarrow> MarshalCursor lib c = Inr b1 \<longrightarrow> UnmarshalCursor lib b1 = Inr c) \<and>
    (MarshalOperationRecord lib op = Inr b2 \<longrightarrow> UnmarshalOperationRecord lib b2 = Inr (op\<lparr>or_state := nil_bytes (or_state op)\<rparr>)) \<and>
    (MarshalFailureRecord lib f = Inr b3 \<longrightarrow> UnmarshalFailureRecord lib b3 = Inr f) \<and>
    (MarshalCancel lib cr = Inr b4 \<longrightarrow> UnmarshalCancel lib b4 = Inr cr) \<and>
    (MarshalRunMeta lib rec = Inr b5 \<longrightarrow> (\<exists>as. mset as = mset (r_annotations rec) \<and>
      UnmarshalRunMetaInto lib b5 zero_record = Inr (zero_record\<lparr>r_run := r_run rec, r_pipeline := r_pipeline rec, r_resource := r_resource rec,
        r_created_at := r_created_at rec, r_annotations := as\<rparr>)))"
  by (intro conjI impI cursor_row_roundtrip operation_row_roundtrip failure_row_roundtrip cancel_row_roundtrip run_meta_row_roundtrip assms)

theorem storage_rows_roundtrip_witness:
  "(\<exists>b. MarshalCursor plain_lib wit_cursor = Inr b \<and> UnmarshalCursor plain_lib b = Inr wit_cursor) \<and>
   (\<exists>b. MarshalOperationRecord plain_lib wit_failed = Inr b \<and> UnmarshalOperationRecord plain_lib b = Inr (wit_failed\<lparr>or_state := None\<rparr>))"
proof -
  obtain b1 b2 where enc: "MarshalCursor plain_lib wit_cursor = Inr b1" "MarshalOperationRecord plain_lib wit_failed = Inr b2"
    by (simp add: MarshalCursor_def MarshalOperationRecord_def marshal_Inr plain_lib_def)
  have "case cu_awaiting wit_cursor of None \<Rightarrow> True | Some a \<Rightarrow> aw_mode a \<noteq> AwaitModeNone" "nil_bytes (or_state wit_failed) = None"
    by (simp_all add: wit_cursor_def wit_failed_def nil_bytes_def)
  with enc storage_rows_roundtrip [OF plain_lib_ok, where c = wit_cursor and ?b1.0 = b1 and op = wit_failed and ?b2.0 = b2]
  show ?thesis by simp
qed

lemma terminal_row_roundtrip:
  assumes lib: "proto_lib_ok lib" and steps: "gm_ok (r_steps rec)" and enc: "MarshalTerminal lib rec beside = Inr b"
  shows "\<exists>rec'. UnmarshalTerminalInto lib b zero_record = Inr (rec', beside) \<and> read_back beside rec rec'"
proof -
  obtain oc where oc: "r_outcome rec = Some oc" "pl_marshal lib (PbTerminal (terminalToProto lib rec oc beside)) = Inr b"
    using enc by (auto simp: MarshalTerminal_def marshal_Inr split: option.splits)
  let ?pb = "\<lambda>as us. (terminalToProto lib rec oc beside)\<lparr>pt_annotations := as, pt_failed_unwinds := us,
         pt_output := nil_bytes (pt_output (terminalToProto lib rec oc beside))\<rparr>"
  have parts: "pt_annotations (terminalToProto lib rec oc beside) = r_annotations rec"
      "pt_failed_unwinds (terminalToProto lib rec oc beside) = failed_unwinds_pb lib (r_steps rec)"
      "pt_output (terminalToProto lib rec oc beside) = (if beside then None else r_output rec)" by (simp_all add: terminalToProto_def)
  obtain as us where dec: "mset as = mset (r_annotations rec)" "pl_terminal lib b = Inr (?pb as us)"
      "mset us = mset (map (\<lambda>(k, op). (k, norm_op op)) (failed_unwinds_pb lib (r_steps rec)))"
    using proto_lib_okD(6) [OF lib oc(2)] unfolding parts by blast
  define r0 where "r0 = terminal_fields lib (?pb as us) zero_record"
  have r0: "r0 = zero_record\<lparr>r_run := r_run rec, r_pipeline := r_pipeline rec, r_resource := r_resource rec, r_created_at := r_created_at rec,
      r_annotations := as, r_phase := r_phase rec, r_updated_at := r_updated_at rec, r_started_at := r_started_at rec,
      r_outcome := Some oc, r_output := nil_bytes (if beside then None else r_output rec)\<rparr>"
    unfolding r0_def parts by (rule terminalToProto_back [OF lib])
  obtain st where st: "terminal_unwinds lib us r0 = r0\<lparr>r_steps := st\<rparr>" by (rule terminal_unwinds_frame)
  have "gm_get st k = map_option (\<lambda>sr. sr\<lparr>sr_unwind := (sr_unwind sr)\<lparr>or_state := nil_bytes (or_state (sr_unwind sr))\<rparr>\<rparr>)
      (gm_get (compact_steps (r_steps rec)) k)" for k
    using terminal_unwinds_get [OF lib steps dec(3), of r0 k] unfolding st by (simp add: r0 zero_record_def)
  then have "read_back beside rec (r0\<lparr>r_steps := st, r_failure := r_failure rec, r_cancel := r_cancel rec\<rparr>)"
    using dec(1) oc(1) by (cases rec) (simp add: read_back_def r0 zero_record_def compact_terminal_def nil_bytes_def)
  moreover have "terminal_unwinds lib (pt_failed_unwinds (?pb as us)) (terminal_fields lib (?pb as us) zero_record) = r0\<lparr>r_steps := st\<rparr>"
    using st by (simp add: r0_def)
  then have "UnmarshalTerminalInto lib b zero_record = Inr (r0\<lparr>r_steps := st, r_failure := r_failure rec, r_cancel := r_cancel rec\<rparr>, beside)"
    by (subst unmarshal_terminal [OF dec(2)], assumption)
      (simp_all add: r0 zero_record_def terminalToProto_def option.map_comp comp_def failure_roundtrip [OF lib] cancel_roundtrip [OF lib] option.map_ident)
  ultimately show ?thesis by blast
qed

text \<open>Claim C16. The terminal row of a finished run reads back as the compaction of its record: decoding what was encoded into a fresh record gives the compacted run, its steps exactly the failed unwinds, with the outcome, the failure, the cancel request and the times of the run; an empty output or state becomes nil, and the output is left out, and the row marked, when it is kept beside.\<close>

theorem storage_terminal_roundtrip:
  assumes lib: "proto_lib_ok lib" and steps: "gm_ok (r_steps rec)" and enc: "MarshalTerminal lib rec beside = Inr b"
  shows "\<exists>rec'. UnmarshalTerminalInto lib b zero_record = Inr (rec', beside) \<and> read_back beside rec rec'"
  by (rule terminal_row_roundtrip [OF lib steps enc])

theorem storage_terminal_roundtrip_witness:
  "\<exists>b rec'. MarshalTerminal plain_lib wit_record False = Inr b \<and> UnmarshalTerminalInto plain_lib b zero_record = Inr (rec', False) \<and>
     read_back False wit_record rec'"
proof -
  have "gm_ok (r_steps wit_record)" "MarshalTerminal plain_lib wit_record False = Inr (PbTerminal (terminalToProto plain_lib wit_record OutcomeFailure False))"
    by (simp_all add: wit_record_def gm_ok_def MarshalTerminal_def marshal_def plain_lib_def)
  then show ?thesis using storage_terminal_roundtrip [OF plain_lib_ok, of wit_record False] by blast
qed

end
