(* ===== verification/Blobcache.thy ===== *)
theory Blobcache
  imports Prelude
begin

text \<open>
  The cache of the bbolt store for the immutable blobs of runs (\<^verbatim>\<open>src/store/bbolt/blobcache.go\<close>): entries per run in
  the order of their last use, with the bytes they hold counted against a limit. The linked list and the
  map of its elements are a list of run ids, most recently used first, and the entry of each id. The
  mutex makes every method atomic. The lemmas show that the counter is exact and within the limit after
  every operation, that eviction keeps the most recently used entries that fit, and that an entry
  only ever holds what was put into it.
\<close>

section \<open>State and operations\<close>

record run_blobs =
  rb_input :: "bytes option"
  rb_states :: "(step_id, bytes) gomap"
  rb_output :: "bytes option"
  rb_size :: int

record blob_cache =
  bc_order :: "run_id list"
  bc_by_id :: "(run_id, run_blobs) gomap"
  bc_size :: int
  bc_limit :: int

text \<open>\<^verbatim>\<open>len\<close> of a slice that may be nil.\<close>

definition blen :: "bytes option \<Rightarrow> int" where
  "blen b = (case b of None \<Rightarrow> 0 | Some s \<Rightarrow> int (length s))"

definition no_blobs :: run_blobs where
  "no_blobs = \<lparr>rb_input = None, rb_states = [], rb_output = None, rb_size = 0\<rparr>"

definition newBlobCache :: "int \<Rightarrow> blob_cache" where
  "newBlobCache limit = \<lparr>bc_order = [], bc_by_id = [], bc_size = 0, bc_limit = limit\<rparr>"

definition move_front :: "run_id \<Rightarrow> blob_cache \<Rightarrow> blob_cache" where
  "move_front i c = c\<lparr>bc_order := i # remove1 i (bc_order c)\<rparr>"

text \<open>The entry \<^verbatim>\<open>touch\<close> returns a pointer to is the one at the front.\<close>

definition touch :: "blob_cache \<Rightarrow> run_id \<Rightarrow> (run_blobs \<times> blob_cache) option" where
  "touch c i = (if bc_limit c \<le> 0 then None
     else case gm_get (bc_by_id c) i of
       Some rb \<Rightarrow> Some (rb, move_front i c)
     | None \<Rightarrow> Some (no_blobs, c\<lparr>bc_by_id := gm_put i no_blobs (bc_by_id c), bc_order := i # bc_order c\<rparr>))"

definition bc_remove :: "run_id \<Rightarrow> blob_cache \<Rightarrow> blob_cache" where
  "bc_remove i c = (case gm_get (bc_by_id c) i of
     None \<Rightarrow> c\<lparr>bc_order := remove1 i (bc_order c)\<rparr>
   | Some rb \<Rightarrow> c\<lparr>bc_size := bc_size c - rb_size rb, bc_order := remove1 i (bc_order c), bc_by_id := gm_del i (bc_by_id c)\<rparr>)"

lemma bc_remove_sel [simp]:
  "bc_order (bc_remove i c) = remove1 i (bc_order c)" "bc_limit (bc_remove i c) = bc_limit c"
  by (simp_all add: bc_remove_def split: option.split)

function evict :: "blob_cache \<Rightarrow> run_id \<Rightarrow> blob_cache" where
  "evict c keep = (if bc_limit c < bc_size c then
       (if bc_order c = [] then c
        else if last (bc_order c) = keep then bc_remove (last (bc_order c)) c
        else evict (bc_remove (last (bc_order c)) c) keep)
     else c)"
  by auto
termination
  by (relation "measure (\<lambda>(c, keep). length (bc_order c))") (auto simp: length_remove1 intro!: diff_less)

declare evict.simps [simp del]

definition put_entry :: "run_id \<Rightarrow> run_blobs \<Rightarrow> int \<Rightarrow> blob_cache \<Rightarrow> blob_cache" where
  "put_entry i rb d c = c\<lparr>bc_by_id := gm_put i (rb\<lparr>rb_size := rb_size rb + d\<rparr>) (bc_by_id c), bc_size := bc_size c + d\<rparr>"

definition setInput :: "blob_cache \<Rightarrow> run_id \<Rightarrow> bytes option \<Rightarrow> blob_cache" where
  "setInput c i v = (if blen v = 0 then c else case touch c i of
     None \<Rightarrow> c
   | Some (rb, c1) \<Rightarrow> evict (put_entry i (rb\<lparr>rb_input := v\<rparr>) (blen v - blen (rb_input rb)) c1) i)"

definition setState :: "blob_cache \<Rightarrow> run_id \<Rightarrow> step_id \<Rightarrow> bytes option \<Rightarrow> blob_cache" where
  "setState c i k v = (case touch c i of
     None \<Rightarrow> c
   | Some (rb, c1) \<Rightarrow>
      let old = blen (gm_get (rb_states rb) k);
          rb1 = rb\<lparr>rb_states := gm_del k (rb_states rb), rb_size := rb_size rb - old\<rparr>;
          c2 = put_entry i (rb\<lparr>rb_states := gm_del k (rb_states rb)\<rparr>) (- old) c1
      in (case v of
            None \<Rightarrow> c2
          | Some st \<Rightarrow> if st = [] then c2
              else evict (put_entry i (rb1\<lparr>rb_states := gm_put k st (rb_states rb1)\<rparr>) (int (length st)) c2) i))"

definition setOutput :: "blob_cache \<Rightarrow> run_id \<Rightarrow> bytes option \<Rightarrow> blob_cache" where
  "setOutput c i v = (if blen v = 0 then c else case touch c i of
     None \<Rightarrow> c
   | Some (rb, c1) \<Rightarrow> evict (put_entry i (rb\<lparr>rb_output := v\<rparr>) (blen v - blen (rb_output rb)) c1) i)"

definition states_len :: "(step_id, bytes) gomap \<Rightarrow> int" where
  "states_len m = (\<Sum>(k, st)\<leftarrow>m. int (length st))"

definition bc_fill :: "blob_cache \<Rightarrow> run_id \<Rightarrow> run_blobs \<Rightarrow> blob_cache" where
  "bc_fill c i rb = (let need = blen (rb_input rb) + blen (rb_output rb) + states_len (rb_states rb) in
     if need = 0 \<or> bc_limit c \<le> 0 then c
     else if gm_has (bc_by_id c) i then c
     else evict (c\<lparr>bc_by_id := gm_put i (rb\<lparr>rb_size := need\<rparr>) (bc_by_id c), bc_order := i # bc_order c, bc_size := bc_size c + need\<rparr>) i)"

definition bc_drop :: "blob_cache \<Rightarrow> run_id \<Rightarrow> blob_cache" where
  "bc_drop c i = (if gm_has (bc_by_id c) i then bc_remove i c else c)"

definition bc_lookup :: "blob_cache \<Rightarrow> run_id \<Rightarrow> run_blobs option \<times> blob_cache" where
  "bc_lookup c i = (case gm_get (bc_by_id c) i of None \<Rightarrow> (None, c) | Some rb \<Rightarrow> (Some rb, move_front i c))"

definition bc_input :: "blob_cache \<Rightarrow> run_id \<Rightarrow> (bytes option \<times> bool) \<times> blob_cache" where
  "bc_input c i = (case bc_lookup c i of (None, c1) \<Rightarrow> ((None, False), c1) | (Some rb, c1) \<Rightarrow> ((rb_input rb, True), c1))"

definition bc_state :: "blob_cache \<Rightarrow> run_id \<Rightarrow> step_id \<Rightarrow> bytes option \<times> blob_cache" where
  "bc_state c i k = (case bc_lookup c i of (None, c1) \<Rightarrow> (None, c1) | (Some rb, c1) \<Rightarrow> (gm_get (rb_states rb) k, c1))"

definition bc_output :: "blob_cache \<Rightarrow> run_id \<Rightarrow> bytes option \<times> blob_cache" where
  "bc_output c i = (case bc_lookup c i of (None, c1) \<Rightarrow> (None, c1) | (Some rb, c1) \<Rightarrow> (rb_output rb, c1))"

definition bc_has :: "blob_cache \<Rightarrow> run_id \<Rightarrow> bool" where
  "bc_has c i = gm_has (bc_by_id c) i"

text \<open>Any sequence of the cache's calls.\<close>

datatype cache_call =
    SetInput run_id "bytes option" | SetState run_id step_id "bytes option" | SetOutput run_id "bytes option"
  | Fill run_id run_blobs | DropRun run_id | ReadInput run_id | ReadState run_id step_id | ReadOutput run_id

fun cache_step :: "cache_call \<Rightarrow> blob_cache \<Rightarrow> blob_cache" where
  "cache_step (SetInput i v) c = setInput c i v"
| "cache_step (SetState i k v) c = setState c i k v"
| "cache_step (SetOutput i v) c = setOutput c i v"
| "cache_step (Fill i rb) c = bc_fill c i rb"
| "cache_step (DropRun i) c = bc_drop c i"
| "cache_step (ReadInput i) c = snd (bc_input c i)"
| "cache_step (ReadState i k) c = snd (bc_state c i k)"
| "cache_step (ReadOutput i) c = snd (bc_output c i)"

section \<open>Accounting\<close>

definition blobs_len :: "run_blobs \<Rightarrow> int" where
  "blobs_len rb = blen (rb_input rb) + blen (rb_output rb) + states_len (rb_states rb)"

definition entry_len :: "blob_cache \<Rightarrow> run_id \<Rightarrow> int" where
  "entry_len c i = (case gm_get (bc_by_id c) i of None \<Rightarrow> 0 | Some rb \<Rightarrow> rb_size rb)"

text \<open>The counters are exact; whether they fit the limit is said apart, since a write exceeds it before it evicts.\<close>

definition cache_exact :: "blob_cache \<Rightarrow> bool" where
  "cache_exact c \<longleftrightarrow> distinct (bc_order c) \<and> gm_ok (bc_by_id c) \<and> set (bc_order c) = set (gm_keys (bc_by_id c)) \<and>
     (\<forall>i rb. gm_get (bc_by_id c) i = Some rb \<longrightarrow> rb_size rb = blobs_len rb \<and> gm_ok (rb_states rb)) \<and>
     bc_size c = (\<Sum>i\<in>set (bc_order c). entry_len c i)"

definition cache_inv :: "blob_cache \<Rightarrow> bool" where
  "cache_inv c \<longleftrightarrow> cache_exact c \<and> bc_size c \<le> max 0 (bc_limit c) \<and> (bc_limit c \<le> 0 \<longrightarrow> bc_order c = [])"

lemma blen_nonneg [simp]: "0 \<le> blen b"
  by (simp add: blen_def split: option.split)

lemma states_len_nonneg [simp]: "0 \<le> states_len m"
  by (induction m) (auto simp: states_len_def)

lemma states_len_simps [simp]: "states_len [] = 0" "states_len (x # m) = int (length (snd x)) + states_len m"
  by (simp_all add: states_len_def case_prod_unfold)

lemma blobs_len_nonneg [simp]: "0 \<le> blobs_len rb"
  by (simp add: blobs_len_def)

lemma states_len_del: "gm_ok m \<Longrightarrow> states_len (gm_del k m) = states_len m - blen (gm_get m k)"
proof (induction m)
  case (Cons x m)
  then have "gm_ok m" and x: "fst x = k \<Longrightarrow> gm_del k m = m" by (auto simp: gm_ok_def image_iff)
  with Cons.IH show ?case by (cases "fst x = k") (auto simp: blen_def x split: option.splits)
qed (simp add: blen_def)

lemma states_len_put: "gm_get m k = None \<Longrightarrow> states_len (gm_put k v m) = states_len m + int (length v)"
  by (induction m) (auto split: if_splits)

lemma cache_exactD:
  assumes "cache_exact c"
  shows "distinct (bc_order c)" "gm_ok (bc_by_id c)" "i \<in> set (bc_order c) \<longleftrightarrow> gm_has (bc_by_id c) i"
    "gm_get (bc_by_id c) i = Some rb \<Longrightarrow> rb_size rb = blobs_len rb" "gm_get (bc_by_id c) i = Some rb \<Longrightarrow> gm_ok (rb_states rb)"
    "bc_size c = (\<Sum>i\<in>set (bc_order c). entry_len c i)"
  using assms by (auto simp: cache_exact_def map_of_eq_None_iff)

lemma cache_exactI:
  assumes "distinct (bc_order c)" "gm_ok (bc_by_id c)" "\<And>i. i \<in> set (bc_order c) \<longleftrightarrow> gm_has (bc_by_id c) i"
    "\<And>i rb. gm_get (bc_by_id c) i = Some rb \<Longrightarrow> rb_size rb = blobs_len rb \<and> gm_ok (rb_states rb)"
    "bc_size c = (\<Sum>i\<in>set (bc_order c). entry_len c i)"
  shows "cache_exact c"
  using assms by (auto simp: cache_exact_def map_of_eq_None_iff)

lemma entry_len_nonneg: "cache_exact c \<Longrightarrow> 0 \<le> entry_len c i"
  by (auto simp: entry_len_def cache_exactD(4) split: option.split)

lemma cache_exact_order:
  assumes "cache_exact c" "distinct order" "set order = set (bc_order c)"
  shows "cache_exact (c\<lparr>bc_order := order\<rparr>)"
  using assms by (simp add: cache_exact_def entry_len_def)

lemma move_front_exact: "cache_exact c \<Longrightarrow> gm_has (bc_by_id c) i \<Longrightarrow> cache_exact (move_front i c)"
  unfolding move_front_def by (rule cache_exact_order) (auto simp: cache_exactD(1,3))

lemma move_front_sel [simp]:
  "bc_by_id (move_front i c) = bc_by_id c" "bc_size (move_front i c) = bc_size c" "bc_limit (move_front i c) = bc_limit c"
  "bc_order (move_front i c) = i # remove1 i (bc_order c)"
  by (simp_all add: move_front_def)

lemma new_entry_exact:
  assumes "cache_exact c" "gm_get (bc_by_id c) i = None" "rb_size rb = blobs_len rb" "gm_ok (rb_states rb)"
  shows "cache_exact (c\<lparr>bc_by_id := gm_put i rb (bc_by_id c), bc_order := i # bc_order c, bc_size := bc_size c + rb_size rb\<rparr>)" (is "cache_exact ?c")
proof (rule cache_exactI)
  have i: "i \<notin> set (bc_order c)" using assms(2) cache_exactD(3) [OF assms(1)] by simp
  then have "(\<Sum>j\<in>set (bc_order c). entry_len ?c j) = (\<Sum>j\<in>set (bc_order c). entry_len c j)"
    by (intro sum.cong) (auto simp: entry_len_def)
  then show "bc_size ?c = (\<Sum>j\<in>set (bc_order ?c). entry_len ?c j)"
    using i cache_exactD(6) [OF assms(1)] by (simp add: entry_len_def)
  show "distinct (bc_order ?c)" using i cache_exactD(1) [OF assms(1)] by simp
qed (use assms cache_exactD [OF assms(1)] in \<open>auto split: if_splits\<close>)

lemma touch_effect:
  assumes "cache_exact c" "touch c i = Some (rb, c1)"
  shows "cache_exact c1" "gm_get (bc_by_id c1) i = Some rb" "bc_order c1 = i # remove1 i (bc_order c)" "bc_size c1 = bc_size c"
    "bc_limit c1 = bc_limit c" "0 < bc_limit c" "j \<noteq> i \<Longrightarrow> gm_get (bc_by_id c1) j = gm_get (bc_by_id c) j"
    "rb = (case gm_get (bc_by_id c) i of None \<Rightarrow> no_blobs | Some rb \<Rightarrow> rb)"
proof -
  have new: "cache_exact (c\<lparr>bc_by_id := gm_put i no_blobs (bc_by_id c), bc_order := i # bc_order c\<rparr>)" if "gm_get (bc_by_id c) i = None"
    using new_entry_exact [OF assms(1) that, of no_blobs] by (simp add: no_blobs_def blobs_len_def blen_def)
  have order: "remove1 i (bc_order c) = bc_order c" if "gm_get (bc_by_id c) i = None"
    using that cache_exactD(3) [OF assms(1)] by (simp add: remove1_idem)
  show "0 < bc_limit c" using assms(2) by (simp add: touch_def split: if_splits)
  then consider (hit) "gm_get (bc_by_id c) i = Some rb" "c1 = move_front i c"
    | (miss) "gm_get (bc_by_id c) i = None" "rb = no_blobs" "c1 = c\<lparr>bc_by_id := gm_put i no_blobs (bc_by_id c), bc_order := i # bc_order c\<rparr>"
    using assms(2) by (auto simp: touch_def split: option.splits)
  then have "cache_exact c1 \<and> gm_get (bc_by_id c1) i = Some rb \<and> bc_order c1 = i # remove1 i (bc_order c) \<and> bc_size c1 = bc_size c \<and>
    bc_limit c1 = bc_limit c \<and> (j \<noteq> i \<longrightarrow> gm_get (bc_by_id c1) j = gm_get (bc_by_id c) j) \<and>
    rb = (case gm_get (bc_by_id c) i of None \<Rightarrow> no_blobs | Some rb \<Rightarrow> rb)"
  proof cases
    case hit
    then show ?thesis using move_front_exact [OF assms(1), of i] by simp
  next
    case miss
    then show ?thesis using new order by simp
  qed
  then show "cache_exact c1" "gm_get (bc_by_id c1) i = Some rb" "bc_order c1 = i # remove1 i (bc_order c)" "bc_size c1 = bc_size c"
    "bc_limit c1 = bc_limit c" "j \<noteq> i \<Longrightarrow> gm_get (bc_by_id c1) j = gm_get (bc_by_id c) j"
    "rb = (case gm_get (bc_by_id c) i of None \<Rightarrow> no_blobs | Some rb \<Rightarrow> rb)"
    by blast+
qed

lemma put_entry_sel [simp]:
  "bc_order (put_entry i rb d c) = bc_order c" "bc_limit (put_entry i rb d c) = bc_limit c" "bc_size (put_entry i rb d c) = bc_size c + d"
  "gm_get (bc_by_id (put_entry i rb d c)) j = (if j = i then Some (rb\<lparr>rb_size := rb_size rb + d\<rparr>) else gm_get (bc_by_id c) j)"
  by (simp_all add: put_entry_def)

lemma put_entry_exact:
  assumes "cache_exact c" "gm_get (bc_by_id c) i = Some rb" "rb_size rb' = rb_size rb" "blobs_len rb' = blobs_len rb + d" "gm_ok (rb_states rb')"
  shows "cache_exact (put_entry i rb' d c)"
proof (rule cache_exactI)
  let ?c = "put_entry i rb' d c"
  have i: "i \<in> set (bc_order c)" using assms(2) cache_exactD(3) [OF assms(1)] by simp
  have "(\<Sum>j\<in>set (bc_order c) - {i}. entry_len ?c j) = (\<Sum>j\<in>set (bc_order c) - {i}. entry_len c j)"
    by (intro sum.cong) (auto simp: entry_len_def)
  moreover have "entry_len ?c i = entry_len c i + d" using assms(2,3) by (simp add: entry_len_def)
  ultimately have "(\<Sum>j\<in>set (bc_order c). entry_len ?c j) = (\<Sum>j\<in>set (bc_order c). entry_len c j) + d"
    unfolding sum.remove [OF finite_set i] by linarith
  then show "bc_size ?c = (\<Sum>j\<in>set (bc_order ?c). entry_len ?c j)" using cache_exactD(6) [OF assms(1)] by simp
  have size: "blobs_len (rb'\<lparr>rb_size := n\<rparr>) = blobs_len rb'" for n by (simp add: blobs_len_def)
  fix j r assume "gm_get (bc_by_id ?c) j = Some r"
  then have r: "(if j = i then Some (rb'\<lparr>rb_size := rb_size rb' + d\<rparr>) else gm_get (bc_by_id c) j) = Some r" by simp
  show "rb_size r = blobs_len r \<and> gm_ok (rb_states r)"
  proof (cases "j = i")
    case True
    then have 1: "r = rb'\<lparr>rb_size := rb_size rb' + d\<rparr>" using r by simp
    have "rb_size rb = blobs_len rb" by (rule cache_exactD(4) [OF assms(1,2)])
    with assms(3-5) show ?thesis unfolding 1 size by simp
  next
    case False
    then show ?thesis using r cache_exactD(4,5) [OF assms(1)] by simp
  qed
next
  fix j show "j \<in> set (bc_order (put_entry i rb' d c)) \<longleftrightarrow> gm_has (bc_by_id (put_entry i rb' d c)) j"
    using assms(2) cache_exactD(3) [OF assms(1), of j] by simp
qed (use cache_exactD(1,2) [OF assms(1)] in \<open>simp_all add: put_entry_def\<close>)

lemma bc_remove_exact:
  assumes "cache_exact c"
  shows "cache_exact (bc_remove i c)"
proof (cases "gm_get (bc_by_id c) i")
  case None
  then have "remove1 i (bc_order c) = bc_order c" using cache_exactD(3) [OF assms] by (simp add: remove1_idem)
  then show ?thesis using assms None by (simp add: bc_remove_def)
next
  case (Some rb)
  let ?c = "bc_remove i c"
  have i: "i \<in> set (bc_order c)" using Some cache_exactD(3) [OF assms] by simp
  have "(\<Sum>j\<in>set (bc_order c) - {i}. entry_len ?c j) = (\<Sum>j\<in>set (bc_order c) - {i}. entry_len c j)"
    by (intro sum.cong) (auto simp: entry_len_def bc_remove_def Some)
  moreover have "bc_size ?c = bc_size c - entry_len c i" using Some by (simp add: bc_remove_def entry_len_def)
  moreover have "bc_size c = entry_len c i + (\<Sum>j\<in>set (bc_order c) - {i}. entry_len c j)"
    unfolding cache_exactD(6) [OF assms] by (rule sum.remove) (simp_all add: i)
  ultimately have "bc_size ?c = (\<Sum>j\<in>set (bc_order ?c). entry_len ?c j)"
    using cache_exactD(1) [OF assms] by (simp add: set_remove1_eq)
  moreover have "gm_get (bc_by_id ?c) j = (if j = i then None else gm_get (bc_by_id c) j)" for j using Some by (simp add: bc_remove_def)
  ultimately show ?thesis
    using cache_exactD(4,5) [OF assms]
    by (intro cache_exactI) (simp_all add: cache_exactD(1,3) [OF assms] set_remove1_eq split: if_splits, simp_all add: bc_remove_def Some cache_exactD(2) [OF assms])
qed

section \<open>Eviction\<close>

text \<open>The entries of a list of ids that fit, taken from the front.\<close>

fun fitting :: "(run_id \<Rightarrow> int) \<Rightarrow> int \<Rightarrow> run_id list \<Rightarrow> run_id list" where
  "fitting len limit [] = []"
| "fitting len limit (i # js) = (if len i \<le> limit then i # fitting len (limit - len i) js else [])"

lemma fitting_all:
  assumes "\<And>i. 0 \<le> len i" "(\<Sum>i\<leftarrow>js. len i) \<le> limit"
  shows "fitting len limit js = js"
  using assms(2)
proof (induction "js" arbitrary: limit)
  case (Cons i "js")
  have "0 \<le> (\<Sum>i\<leftarrow>js. len i)" by (rule sum_list_nonneg) (auto simp: assms(1))
  with Cons show ?case by simp
qed simp

lemma fitting_last:
  assumes "\<And>i. 0 \<le> len i" "limit < (\<Sum>i\<leftarrow>js @ [j]. len i)"
  shows "fitting len limit (js @ [j]) = fitting len limit js"
  using assms(2) by (induction "js" arbitrary: limit) auto

lemma fitting_sum:
  assumes "0 \<le> limit"
  shows "(\<Sum>i\<leftarrow>fitting len limit js. len i) \<le> limit"
  using assms
proof (induction "js" arbitrary: limit)
  case (Cons i "js")
  show ?case using Cons.prems Cons.IH [of "limit - len i"] by auto
qed simp

lemma fitting_cong: "(\<And>i. i \<in> set js \<Longrightarrow> len i = len' i) \<Longrightarrow> fitting len limit js = fitting len' limit js"
  by (induction "js" arbitrary: limit) auto

lemma fitting_prefix: "\<exists>rest. js = fitting len limit js @ rest"
  by (induction "js" arbitrary: limit) auto

lemma cache_size_list: "cache_exact c \<Longrightarrow> bc_size c = (\<Sum>i\<leftarrow>bc_order c. entry_len c i)"
  by (simp add: cache_exactD(1,6) sum_list_distinct_conv_sum_set)

text \<open>Evicting keeps the most recently used entries that fit the limit, and changes none of them.\<close>

lemma evict_effect:
  assumes "cache_exact c" "bc_order c \<noteq> [] \<Longrightarrow> hd (bc_order c) = keep" "0 < bc_limit c"
  shows "cache_exact (evict c keep) \<and> bc_order (evict c keep) = fitting (entry_len c) (bc_limit c) (bc_order c) \<and>
    bc_limit (evict c keep) = bc_limit c \<and>
    (\<forall>i. gm_get (bc_by_id (evict c keep)) i = (if i \<in> set (bc_order (evict c keep)) then gm_get (bc_by_id c) i else None))"
  using assms
proof (induction "length (bc_order c)" arbitrary: c)
  case 0
  then have "bc_size c = 0" by (simp add: cache_size_list)
  then have "evict c keep = c" using 0 by (simp add: evict.simps)
  moreover have "gm_get (bc_by_id c) i = None" for i using 0 cache_exactD(3) [OF 0(2), of i] by simp
  ultimately show ?case using 0 by simp
next
  case (Suc n)
  note exact = Suc.prems(1)
  have nonneg: "0 \<le> entry_len c i" for i using entry_len_nonneg [OF exact] .
  show ?case
  proof (cases "bc_limit c < bc_size c")
    case False
    then have "evict c keep = c" by (simp add: evict.simps)
    moreover have "fitting (entry_len c) (bc_limit c) (bc_order c) = bc_order c"
      using False nonneg by (intro fitting_all) (simp_all add: cache_size_list [OF exact])
    moreover have "gm_get (bc_by_id c) i = None" if "i \<notin> set (bc_order c)" for i using that cache_exactD(3) [OF exact, of i] by simp
    ultimately show ?thesis using Suc.prems by simp
  next
    case True
    obtain js l where ord: "bc_order c = js @ [l]" using Suc.hyps(2) by (metis length_0_conv rev_exhaust Zero_not_Suc)
    have l: "l \<notin> set js" "distinct js" using cache_exactD(1) [OF exact] ord by simp_all
    let ?d = "bc_remove l c"
    have d: "bc_order ?d = js" "bc_limit ?d = bc_limit c" "cache_exact ?d" using ord l(1) bc_remove_exact [OF exact] by (simp_all add: remove1_append)
    have get: "gm_get (bc_by_id ?d) i = (if i = l then None else gm_get (bc_by_id c) i)" for i
      by (simp add: bc_remove_def split: option.split)
    then have len: "entry_len ?d i = entry_len c i" if "i \<in> set js" for i using that l(1) by (auto simp: entry_len_def)
    have fit: "fitting (entry_len c) (bc_limit c) (js @ [l]) = fitting (entry_len ?d) (bc_limit c) js"
      using fitting_last [where len = "entry_len c" and limit = "bc_limit c" and js = js and j = l] nonneg True fitting_cong [OF len, of "js"] by (simp add: cache_size_list [OF exact] ord)
    show ?thesis
    proof (cases "l = keep")
      case False
      then have ev: "evict c keep = evict ?d keep" using True ord by (simp add: evict.simps [of c])
      have "js \<noteq> [] \<Longrightarrow> hd js = keep" using Suc.prems(2) ord by (cases "js") auto
      then have IH: "cache_exact (evict ?d keep) \<and> bc_order (evict ?d keep) = fitting (entry_len ?d) (bc_limit ?d) (bc_order ?d) \<and>
          bc_limit (evict ?d keep) = bc_limit ?d \<and>
          (\<forall>i. gm_get (bc_by_id (evict ?d keep)) i = (if i \<in> set (bc_order (evict ?d keep)) then gm_get (bc_by_id ?d) i else None))"
        using Suc.hyps(1) [of ?d] Suc.hyps(2) ord d Suc.prems(3) by simp
      have "set (bc_order (evict c keep)) \<subseteq> set js"
        using IH ev d fitting_prefix [of "js" "entry_len ?d" "bc_limit c"] by (metis Un_upper1 set_append)
      then show ?thesis using IH ev d fit ord get l(1) by (auto simp: subset_iff)
    next
      case eq: True
      have "js = []" using Suc.prems(2) ord l(1) eq by (cases "js") auto
      then have ev: "evict c keep = ?d" using True ord eq by (simp add: evict.simps [of c])
      have "gm_get (bc_by_id ?d) i = None" for i using cache_exactD(3) [OF d(3), of i] d(1) \<open>js = []\<close> by simp
      then show ?thesis using ev d fit ord \<open>js = []\<close> by simp
    qed
  qed
qed

lemma evict_inv:
  assumes "cache_exact c" "bc_order c \<noteq> [] \<Longrightarrow> hd (bc_order c) = keep" "0 < bc_limit c"
  shows "cache_inv (evict c keep)"
proof -
  note ev = evict_effect [OF assms]
  have "entry_len (evict c keep) i = entry_len c i" if "i \<in> set (bc_order (evict c keep))" for i
    using ev that by (simp add: entry_len_def)
  then have "bc_size (evict c keep) = (\<Sum>i\<leftarrow>bc_order (evict c keep). entry_len c i)"
    using ev by (simp add: cache_size_list cong: map_cong)
  then show ?thesis using ev fitting_sum [of "bc_limit c" "entry_len c" "bc_order c"] assms(3) by (simp add: cache_inv_def)
qed

section \<open>The operations\<close>

lemma cache_invD:
  "cache_inv c \<Longrightarrow> cache_exact c" "cache_inv c \<Longrightarrow> bc_size c \<le> max 0 (bc_limit c)"
  "cache_inv c \<Longrightarrow> bc_limit c \<le> 0 \<Longrightarrow> gm_get (bc_by_id c) i = None"
  using cache_exactD(3) [of c i] by (auto simp: cache_inv_def)

text \<open>What the write of an entry does, whichever blob it is.\<close>

lemma write_effect:
  assumes inv: "cache_inv c" and t: "touch c i = Some (rb, c1)"
    and rb': "rb_size rb' = rb_size rb" "blobs_len rb' = blobs_len rb + d" "gm_ok (rb_states rb')"
  shows "cache_inv (evict (put_entry i rb' d c1) i)" "bc_limit (evict (put_entry i rb' d c1) i) = bc_limit c"
    "bc_order (evict (put_entry i rb' d c1) i) = fitting (\<lambda>j. if j = i then blobs_len rb' else entry_len c j) (bc_limit c) (i # remove1 i (bc_order c))"
    "gm_get (bc_by_id (evict (put_entry i rb' d c1) i)) j = (if j \<notin> set (bc_order (evict (put_entry i rb' d c1) i)) then None
       else if j = i then Some (rb'\<lparr>rb_size := blobs_len rb'\<rparr>) else gm_get (bc_by_id c) j)"
proof -
  note tc = touch_effect [OF cache_invD(1) [OF inv] t]
  let ?c = "put_entry i rb' d c1"
  have exact: "cache_exact ?c" by (rule put_entry_exact [OF tc(1,2) rb'])
  have size: "rb_size rb' + d = blobs_len rb'" using cache_exactD(4) [OF tc(1,2)] rb'(1,2) by simp
  have front: "bc_order ?c \<noteq> [] \<Longrightarrow> hd (bc_order ?c) = i" "0 < bc_limit ?c" using tc(3,5,6) by simp_all
  note ev = evict_effect [OF exact front]
  have len: "entry_len ?c j = (if j = i then blobs_len rb' else entry_len c j)" for j using tc(7) size by (simp add: entry_len_def)
  show "cache_inv (evict ?c i)" by (rule evict_inv [OF exact front])
  show "bc_limit (evict ?c i) = bc_limit c" using ev tc(5) by simp
  have "entry_len ?c = (\<lambda>j. if j = i then blobs_len rb' else entry_len c j)" using len by (rule ext)
  then show order: "bc_order (evict ?c i) = fitting (\<lambda>j. if j = i then blobs_len rb' else entry_len c j) (bc_limit c) (i # remove1 i (bc_order c))"
    using ev tc(3,5) by simp
  have "gm_get (bc_by_id (evict ?c i)) j = (if j \<in> set (bc_order (evict ?c i)) then gm_get (bc_by_id ?c) j else None)" using ev by blast
  then show "gm_get (bc_by_id (evict ?c i)) j = (if j \<notin> set (bc_order (evict ?c i)) then None
       else if j = i then Some (rb'\<lparr>rb_size := blobs_len rb'\<rparr>) else gm_get (bc_by_id c) j)"
    using tc(7) size by simp
qed

lemma touch_rb:
  assumes "cache_inv c" "touch c i = Some (rb, c1)"
  shows "gm_ok (rb_states rb)" "rb_size rb = blobs_len rb"
  using touch_effect(1,2) [OF cache_invD(1) [OF assms(1)] assms(2)] cache_exactD(4,5) by blast+

lemma blen_pos: "0 < blen v \<longleftrightarrow> (\<exists>x xs. v = Some (x # xs))" "blen v = 0 \<longleftrightarrow> v = None \<or> v = Some []"
  by (auto simp: blen_def neq_Nil_conv split: option.split)

lemma setInput_inv:
  assumes "cache_inv c"
  shows "cache_inv (setInput c i v) \<and> bc_limit (setInput c i v) = bc_limit c"
proof (cases "blen v = 0 \<or> touch c i = None")
  case False
  then obtain rb c1 where t: "touch c i = Some (rb, c1)" by auto
  have "blobs_len (rb\<lparr>rb_input := v\<rparr>) = blobs_len rb + (blen v - blen (rb_input rb))" by (simp add: blobs_len_def)
  with write_effect(1,2) [OF assms t, of "rb\<lparr>rb_input := v\<rparr>" "blen v - blen (rb_input rb)"] touch_rb [OF assms t] False
  show ?thesis by (simp add: setInput_def t)
qed (use assms in \<open>auto simp: setInput_def\<close>)

lemma setOutput_inv:
  assumes "cache_inv c"
  shows "cache_inv (setOutput c i v) \<and> bc_limit (setOutput c i v) = bc_limit c"
proof (cases "blen v = 0 \<or> touch c i = None")
  case False
  then obtain rb c1 where t: "touch c i = Some (rb, c1)" by auto
  have "blobs_len (rb\<lparr>rb_output := v\<rparr>) = blobs_len rb + (blen v - blen (rb_output rb))" by (simp add: blobs_len_def)
  with write_effect(1,2) [OF assms t, of "rb\<lparr>rb_output := v\<rparr>" "blen v - blen (rb_output rb)"] touch_rb [OF assms t] False
  show ?thesis by (simp add: setOutput_def t)
qed (use assms in \<open>auto simp: setOutput_def\<close>)

text \<open>A state is first taken out of the entry, then the new one is put in.\<close>

lemma setState_eq:
  assumes "touch c i = Some (rb, c1)"
  shows "setState c i k v = (let c2 = put_entry i (rb\<lparr>rb_states := gm_del k (rb_states rb)\<rparr>) (- blen (gm_get (rb_states rb) k)) c1 in
     if blen v = 0 then c2 else evict (put_entry i (rb\<lparr>rb_states := gm_put k (the v) (gm_del k (rb_states rb))\<rparr>)
       (blen v - blen (gm_get (rb_states rb) k)) c1) i)"
  using assms by (auto simp: setState_def Let_def blen_def put_entry_def algebra_simps split: option.splits)

lemma setState_inv:
  assumes inv: "cache_inv c"
  shows "cache_inv (setState c i k v) \<and> bc_limit (setState c i k v) = bc_limit c"
proof (cases "touch c i")
  case (Some x)
  then obtain rb c1 where t: "touch c i = Some (rb, c1)" by (cases x) auto
  note tc = touch_effect [OF cache_invD(1) [OF inv] t]
  note rb = touch_rb [OF inv t]
  let ?old = "blen (gm_get (rb_states rb) k)"
  have del: "blobs_len (rb\<lparr>rb_states := gm_del k (rb_states rb)\<rparr>) = blobs_len rb + - ?old"
    using states_len_del [OF rb(1)] by (simp add: blobs_len_def)
  have put: "blobs_len (rb\<lparr>rb_states := gm_put k (the v) (gm_del k (rb_states rb))\<rparr>) = blobs_len rb + (blen v - ?old)" if "blen v \<noteq> 0"
    using that states_len_del [OF rb(1)] states_len_put [of "gm_del k (rb_states rb)" k "the v"]
    by (auto simp: blobs_len_def blen_def split: option.splits)
  show ?thesis
  proof (cases "blen v = 0")
    case True
    have "cache_exact (put_entry i (rb\<lparr>rb_states := gm_del k (rb_states rb)\<rparr>) (- ?old) c1)"
      using put_entry_exact [OF tc(1,2), of "rb\<lparr>rb_states := gm_del k (rb_states rb)\<rparr>"] del rb(1) by simp
    moreover have "bc_size c + - ?old \<le> max 0 (bc_limit c)" using cache_invD(2) [OF inv] blen_nonneg [of "gm_get (rb_states rb) k"] by linarith
    ultimately show ?thesis using True tc(4,5,6) by (simp add: setState_eq [OF t] cache_inv_def)
  next
    case False
    then show ?thesis
      using write_effect(1,2) [OF inv t, of "rb\<lparr>rb_states := gm_put k (the v) (gm_del k (rb_states rb))\<rparr>"] put rb
      by (simp add: setState_eq [OF t])
  qed
qed (simp add: inv setState_def)

lemma bc_fill_inv:
  assumes inv: "cache_inv c" and rb: "gm_ok (rb_states rb)"
  shows "cache_inv (bc_fill c i rb) \<and> bc_limit (bc_fill c i rb) = bc_limit c"
proof (cases "blobs_len rb = 0 \<or> bc_limit c \<le> 0 \<or> gm_has (bc_by_id c) i")
  case True
  then show ?thesis using inv by (auto simp: bc_fill_def blobs_len_def Let_def)
next
  case False
  then have i: "gm_get (bc_by_id c) i = None" and lim: "0 < bc_limit c" and len: "blobs_len rb \<noteq> 0" by auto
  let ?c = "c\<lparr>bc_by_id := gm_put i (rb\<lparr>rb_size := blobs_len rb\<rparr>) (bc_by_id c), bc_order := i # bc_order c, bc_size := bc_size c + blobs_len rb\<rparr>"
  have fill: "bc_fill c i rb = evict ?c i" using len lim i by (simp add: bc_fill_def blobs_len_def Let_def not_le)
  have "cache_exact ?c" using new_entry_exact [OF cache_invD(1) [OF inv] i, of "rb\<lparr>rb_size := blobs_len rb\<rparr>"] rb by (simp add: blobs_len_def)
  then show ?thesis using evict_inv [of ?c i] evict_effect [of ?c i] lim by (simp add: fill)
qed

lemma bc_remove_inv: "cache_inv c \<Longrightarrow> cache_inv (bc_remove i c)"
proof (cases "gm_get (bc_by_id c) i")
  case None
  assume "cache_inv c"
  then show ?thesis using None bc_remove_exact [of c i] by (simp add: cache_inv_def bc_remove_def)
next
  case (Some rb)
  assume inv: "cache_inv c"
  have "0 \<le> rb_size rb" using cache_exactD(4) [OF cache_invD(1) [OF inv] Some] by simp
  then have "bc_size (bc_remove i c) \<le> bc_size c" using Some by (simp add: bc_remove_def)
  then show ?thesis using inv bc_remove_exact [of c i] by (auto simp: cache_inv_def)
qed

lemma bc_drop_inv: "cache_inv c \<Longrightarrow> cache_inv (bc_drop c i) \<and> bc_limit (bc_drop c i) = bc_limit c"
  by (simp add: bc_drop_def bc_remove_inv)

lemma bc_lookup_inv: "cache_inv c \<Longrightarrow> cache_inv (snd (bc_lookup c i)) \<and> bc_limit (snd (bc_lookup c i)) = bc_limit c"
  using move_front_exact [of c i] cache_invD(3) [of c i] by (cases "gm_get (bc_by_id c) i") (auto simp: bc_lookup_def cache_inv_def)

lemma bc_reads [simp]: "snd (bc_input c i) = snd (bc_lookup c i)" "snd (bc_state c i k) = snd (bc_lookup c i)" "snd (bc_output c i) = snd (bc_lookup c i)"
  by (simp_all add: bc_input_def bc_state_def bc_output_def split: prod.split option.split)

text \<open>A map handed to a fill is a Go map.\<close>

fun call_ok :: "cache_call \<Rightarrow> bool" where
  "call_ok (Fill i rb) = gm_ok (rb_states rb)"
| "call_ok _ = True"

lemma cache_step_inv: "cache_inv c \<Longrightarrow> call_ok x \<Longrightarrow> cache_inv (cache_step x c) \<and> bc_limit (cache_step x c) = bc_limit c"
  by (cases x) (simp_all add: setInput_inv setOutput_inv setState_inv bc_fill_inv bc_drop_inv bc_lookup_inv)

lemma cache_steps_inv:
  "list_all call_ok xs \<Longrightarrow> cache_inv c \<Longrightarrow> cache_inv (fold cache_step xs c) \<and> bc_limit (fold cache_step xs c) = bc_limit c"
  by (induction xs arbitrary: c) (auto simp: cache_step_inv)

lemma newBlobCache_inv: "cache_inv (newBlobCache limit)"
  by (simp add: cache_inv_def cache_exact_def newBlobCache_def)

section \<open>Coherence\<close>

text \<open>The blobs the entries may hold: what the file holds for each run.\<close>

record blob_view =
  bv_input :: "run_id \<Rightarrow> bytes option"
  bv_state :: "run_id \<Rightarrow> step_id \<Rightarrow> bytes option"
  bv_output :: "run_id \<Rightarrow> bytes option"

definition holds_blobs :: "blob_view \<Rightarrow> run_id \<Rightarrow> run_blobs \<Rightarrow> bool" where
  "holds_blobs v i rb \<longleftrightarrow> (rb_input rb \<noteq> None \<longrightarrow> rb_input rb = bv_input v i) \<and> (rb_output rb \<noteq> None \<longrightarrow> rb_output rb = bv_output v i) \<and>
     (\<forall>k st. gm_get (rb_states rb) k = Some st \<longrightarrow> bv_state v i k = Some st)"

definition coherent :: "blob_view \<Rightarrow> blob_cache \<Rightarrow> bool" where
  "coherent v c \<longleftrightarrow> cache_inv c \<and> (\<forall>i rb. gm_get (bc_by_id c) i = Some rb \<longrightarrow> holds_blobs v i rb)"

lemma holds_size [simp]: "holds_blobs v i (rb\<lparr>rb_size := n\<rparr>) = holds_blobs v i rb"
  by (simp add: holds_blobs_def)

lemma coherent_new: "coherent v (newBlobCache limit)"
  using newBlobCache_inv by (simp add: coherent_def newBlobCache_def)

text \<open>What a write does to coherence: the other runs keep their blobs, the entry written holds the new ones.\<close>

lemma write_coherent:
  assumes coh: "\<And>j rb. j \<noteq> i \<Longrightarrow> gm_get (bc_by_id c) j = Some rb \<Longrightarrow> holds_blobs v j rb" and inv: "cache_inv c" and t: "touch c i = Some (rb, c1)"
    and rb': "rb_size rb' = rb_size rb" "blobs_len rb' = blobs_len rb + d" "gm_ok (rb_states rb')" "holds_blobs v i rb'"
  shows "coherent v (evict (put_entry i rb' d c1) i)"
  using write_effect(1,4) [OF inv t rb'(1-3)] coh rb'(4) by (auto simp: coherent_def split: if_splits)

lemma coherentD: "coherent v c \<Longrightarrow> cache_inv c" "coherent v c \<Longrightarrow> gm_get (bc_by_id c) i = Some rb \<Longrightarrow> holds_blobs v i rb"
  by (auto simp: coherent_def)

lemma touch_holds:
  assumes "coherent v c" "touch c i = Some (rb, c1)"
  shows "holds_blobs v i rb"
  using touch_effect(8) [OF cache_invD(1) [OF coherentD(1) [OF assms(1)]] assms(2)] coherentD(2) [OF assms(1)]
  by (auto simp: holds_blobs_def no_blobs_def split: option.splits)

lemma setInput_coherent:
  assumes coh: "coherent v c" and x: "blen x \<noteq> 0 \<Longrightarrow> bv_input v i = x"
  shows "coherent v (setInput c i x)"
proof (cases "blen x = 0 \<or> touch c i = None")
  case False
  then obtain rb c1 where t: "touch c i = Some (rb, c1)" by auto
  note rb = touch_rb [OF coherentD(1) [OF coh] t]
  have "coherent v (evict (put_entry i (rb\<lparr>rb_input := x\<rparr>) (blen x - blen (rb_input rb)) c1) i)"
  proof (rule write_coherent [OF _ coherentD(1) [OF coh] t])
    show "holds_blobs v j r" if "gm_get (bc_by_id c) j = Some r" for j r by (rule coherentD(2) [OF coh that])
    show "holds_blobs v i (rb\<lparr>rb_input := x\<rparr>)" using touch_holds [OF coh t] x False by (auto simp: holds_blobs_def)
  qed (use rb in \<open>simp_all add: blobs_len_def\<close>)
  then show ?thesis using False by (simp add: setInput_def t)
qed (use coh in \<open>auto simp: setInput_def\<close>)

lemma setOutput_coherent:
  assumes coh: "coherent v c" and x: "blen x \<noteq> 0 \<Longrightarrow> bv_output v i = x"
  shows "coherent v (setOutput c i x)"
proof (cases "blen x = 0 \<or> touch c i = None")
  case False
  then obtain rb c1 where t: "touch c i = Some (rb, c1)" by auto
  note rb = touch_rb [OF coherentD(1) [OF coh] t]
  have "coherent v (evict (put_entry i (rb\<lparr>rb_output := x\<rparr>) (blen x - blen (rb_output rb)) c1) i)"
  proof (rule write_coherent [OF _ coherentD(1) [OF coh] t])
    show "holds_blobs v j r" if "gm_get (bc_by_id c) j = Some r" for j r by (rule coherentD(2) [OF coh that])
    show "holds_blobs v i (rb\<lparr>rb_output := x\<rparr>)" using touch_holds [OF coh t] x False by (auto simp: holds_blobs_def)
  qed (use rb in \<open>simp_all add: blobs_len_def\<close>)
  then show ?thesis using False by (simp add: setOutput_def t)
qed (use coh in \<open>auto simp: setOutput_def\<close>)

text \<open>After the write of a state the entry holds that state or none, whatever the file held before.\<close>

lemma setState_coherent:
  assumes coh: "coherent v c" and x: "blen x \<noteq> 0 \<Longrightarrow> s = x"
  shows "coherent (v\<lparr>bv_state := (bv_state v)(i := (bv_state v i)(k := s))\<rparr>) (setState c i k x)" (is "coherent ?v _")
proof (cases "touch c i")
  case None
  then have "bc_limit c \<le> 0" by (simp add: touch_def split: if_splits option.splits)
  then show ?thesis using None coh cache_invD(3) [OF coherentD(1) [OF coh]] by (simp add: setState_def coherent_def)
next
  case (Some y)
  then obtain rb c1 where t: "touch c i = Some (rb, c1)" by (cases y) auto
  have inv: "cache_inv c" using coh by (rule coherentD)
  note tc = touch_effect [OF cache_invD(1) [OF inv] t]
  note rb = touch_rb [OF inv t]
  have others: "holds_blobs ?v j r" if "j \<noteq> i" "gm_get (bc_by_id c) j = Some r" for j r
    using coherentD(2) [OF coh that(2)] that(1) by (simp add: holds_blobs_def)
  show ?thesis
  proof (cases "blen x = 0")
    case True
    have "holds_blobs ?v i (rb\<lparr>rb_states := gm_del k (rb_states rb)\<rparr>)"
      using touch_holds [OF coh t] by (auto simp: holds_blobs_def)
    then show ?thesis using True setState_inv [OF inv, of i k x] others tc(7)
      by (auto simp: coherent_def setState_eq [OF t] split: if_splits)
  next
    case False
    have "blobs_len (rb\<lparr>rb_states := gm_put k (the x) (gm_del k (rb_states rb))\<rparr>) = blobs_len rb + (blen x - blen (gm_get (rb_states rb) k))"
      using False states_len_del [OF rb(1)] states_len_put [of "gm_del k (rb_states rb)" k "the x"]
      by (auto simp: blobs_len_def blen_def split: option.splits)
    moreover have "holds_blobs ?v i (rb\<lparr>rb_states := gm_put k (the x) (gm_del k (rb_states rb))\<rparr>)"
      using touch_holds [OF coh t] x [OF False] False by (auto simp: holds_blobs_def blen_def split: option.splits)
    ultimately show ?thesis using False rb write_coherent [OF others inv t] by (simp add: setState_eq [OF t])
  qed
qed

lemma bc_fill_coherent:
  assumes coh: "coherent v c" and rb: "gm_ok (rb_states rb)" "holds_blobs v i rb"
  shows "coherent v (bc_fill c i rb)"
proof (cases "blobs_len rb = 0 \<or> bc_limit c \<le> 0 \<or> gm_has (bc_by_id c) i")
  case True
  then show ?thesis using coh by (auto simp: bc_fill_def blobs_len_def Let_def)
next
  case False
  then have i: "gm_get (bc_by_id c) i = None" and lim: "0 < bc_limit c" and len: "blobs_len rb \<noteq> 0" by auto
  let ?c = "c\<lparr>bc_by_id := gm_put i (rb\<lparr>rb_size := blobs_len rb\<rparr>) (bc_by_id c), bc_order := i # bc_order c, bc_size := bc_size c + blobs_len rb\<rparr>"
  have fill: "bc_fill c i rb = evict ?c i" using len lim i by (simp add: bc_fill_def blobs_len_def Let_def not_le)
  have "cache_exact ?c" using new_entry_exact [OF cache_invD(1) [OF coherentD(1) [OF coh]] i, of "rb\<lparr>rb_size := blobs_len rb\<rparr>"] rb
    by (simp add: blobs_len_def)
  then have "\<forall>j. gm_get (bc_by_id (evict ?c i)) j = (if j \<in> set (bc_order (evict ?c i)) then gm_get (bc_by_id ?c) j else None)"
    using evict_effect [of ?c i] lim by simp
  then have "holds_blobs v j r" if "gm_get (bc_by_id (evict ?c i)) j = Some r" for j r
    using that coherentD(2) [OF coh, of j r] rb(2) by (auto split: if_splits)
  then show ?thesis using bc_fill_inv [OF coherentD(1) [OF coh] rb(1), of i] by (simp add: coherent_def fill)
qed

text \<open>After a drop nothing is held for the run.\<close>

lemma bc_drop_coherent:
  assumes coh: "coherent v c" and v': "\<And>j rb. j \<noteq> i \<Longrightarrow> holds_blobs v j rb \<Longrightarrow> holds_blobs v' j rb"
  shows "coherent v' (bc_drop c i)"
proof -
  have "holds_blobs v' j r" if "gm_get (bc_by_id (bc_drop c i)) j = Some r" for j r
  proof -
    have "j \<noteq> i \<and> gm_get (bc_by_id c) j = Some r" using that by (auto simp: bc_drop_def bc_remove_def split: if_splits option.splits)
    then show ?thesis using v' coherentD(2) [OF coh] by blast
  qed
  then show ?thesis using bc_drop_inv [OF coherentD(1) [OF coh], of i] by (simp add: coherent_def)
qed

lemma bc_lookup_coherent: "coherent v c \<Longrightarrow> coherent v (snd (bc_lookup c i))"
  using bc_lookup_inv [of c i] by (auto simp: coherent_def bc_lookup_def split: option.splits)

lemma coherent_reads:
  assumes "coherent v c"
  shows "fst (bc_input c i) = (Some x, b) \<Longrightarrow> bv_input v i = Some x" "fst (bc_state c i k) = Some x \<Longrightarrow> bv_state v i k = Some x"
    "fst (bc_output c i) = Some x \<Longrightarrow> bv_output v i = Some x"
  using coherentD(2) [OF assms, of i]
  by (auto simp: bc_input_def bc_state_def bc_output_def bc_lookup_def holds_blobs_def split: option.splits)

section \<open>Properties\<close>

definition held_len :: "blob_cache \<Rightarrow> run_id \<Rightarrow> int" where
  "held_len c i = (case gm_get (bc_by_id c) i of None \<Rightarrow> 0 | Some rb \<Rightarrow> blobs_len rb)"

lemma held_len_entry: "cache_exact c \<Longrightarrow> held_len c = entry_len c"
  by (auto simp: held_len_def entry_len_def cache_exactD(4) split: option.split)

text \<open>Claim C15. After any sequence of calls the blob cache counts exactly the bytes its entries hold and stays within its limit, and a write keeps exactly the most recently used runs that fit: after caching an input, the runs in the cache are the longest prefix, from the run just written backwards in order of use, whose bytes fit the limit.\<close>

theorem blobcache_within_limit:
  assumes calls: "list_all call_ok xs" and c: "c = fold cache_step xs (newBlobCache limit)"
  shows "bc_size c = (\<Sum>i\<leftarrow>bc_order c. held_len c i) \<and> bc_size c \<le> max 0 limit \<and>
    (0 < limit \<longrightarrow> 0 < blen v \<longrightarrow> bc_order (setInput c i v) =
       fitting (\<lambda>j. if j = i then held_len c i - blen (fst (fst (bc_input c i))) + blen v else held_len c j) limit (i # remove1 i (bc_order c)))"
proof -
  have inv: "cache_inv c" and lim: "bc_limit c = limit"
    using cache_steps_inv [OF calls newBlobCache_inv, of limit] unfolding c by (simp_all add: newBlobCache_def)
  note exact = cache_invD(1) [OF inv]
  have "bc_order (setInput c i v) =
      fitting (\<lambda>j. if j = i then held_len c i - blen (fst (fst (bc_input c i))) + blen v else held_len c j) limit (i # remove1 i (bc_order c))"
    if pos: "0 < limit" "0 < blen v"
  proof -
    obtain rb c1 where t: "touch c i = Some (rb, c1)"
      using pos(1) lim by (cases "gm_get (bc_by_id c) i") (simp_all add: touch_def)
    have eq: "blobs_len (rb\<lparr>rb_input := v\<rparr>) = blobs_len rb + (blen v - blen (rb_input rb))" by (simp add: blobs_len_def)
    have "blobs_len rb - blen (rb_input rb) = held_len c i - blen (fst (fst (bc_input c i)))"
      unfolding touch_effect(8) [OF exact t]
      by (auto simp: held_len_def bc_input_def bc_lookup_def no_blobs_def blobs_len_def blen_def split: option.split)
    with eq have len: "blobs_len (rb\<lparr>rb_input := v\<rparr>) = held_len c i - blen (fst (fst (bc_input c i))) + blen v" by simp
    have "setInput c i v = evict (put_entry i (rb\<lparr>rb_input := v\<rparr>) (blen v - blen (rb_input rb)) c1) i"
      using pos(2) by (simp add: setInput_def t)
    then show ?thesis
      using write_effect(3) [OF inv t _ eq] touch_rb(1) [OF inv t] unfolding len lim held_len_entry [OF exact] by simp
  qed
  then show ?thesis using cache_size_list [OF exact] cache_invD(2) [OF inv] lim by (simp add: held_len_entry [OF exact])
qed

theorem blobcache_within_limit_witness:
  "(let c = fold cache_step [SetInput ''a'' (Some ''xx''), SetInput ''b'' (Some ''yyy''), ReadInput ''a''] (newBlobCache 5)
    in bc_order (setInput c ''c'' (Some ''zzz'')) = [''c'', ''a''] \<and> bc_size c \<le> 5)"
proof -
  define c where "c = fold cache_step [SetInput ''a'' (Some ''xx''), SetInput ''b'' (Some ''yyy''), ReadInput ''a''] (newBlobCache 5)"
  have "bc_order c = [''a'', ''b'']" "held_len c ''a'' = 2" "held_len c ''b'' = 3" "held_len c ''c'' = 0" "fst (fst (bc_input c ''c'')) = None"
    unfolding c_def by (simp_all add: setInput_def touch_def newBlobCache_def blen_def no_blobs_def put_entry_def evict.simps bc_input_def bc_lookup_def
        move_front_def held_len_def blobs_len_def)
  then show ?thesis
    using blobcache_within_limit [of "[SetInput ''a'' (Some ''xx''), SetInput ''b'' (Some ''yyy''), ReadInput ''a'']" c 5 "Some ''zzz''" "''c''"]
    unfolding c_def [symmetric] Let_def by (simp add: c_def [symmetric] blen_def del: fold_simps)
qed

end
