(* ===== verification/Ids.thy ===== *)
theory Ids
  imports Driver
begin

text \<open>
  Identifiers, stored text and the run-class key (\<^verbatim>\<open>src/engine/ids.go\<close> and the two key functions
  of \<^verbatim>\<open>src/engine/engine.go\<close>). Strings are byte sequences, so UTF-8 is a property of the bytes:
  \<open>rune_width\<close> is the decoder of the standard library (shortest encodings only, no surrogates,
  nothing above U+10FFFF), \<open>valid_utf8\<close> is \<^verbatim>\<open>utf8.ValidString\<close> and \<open>to_valid_utf8\<close> is
  \<^verbatim>\<open>strings.ToValidUTF8\<close>. The lemmas show that what the engine stores as free text is valid UTF-8
  and within the text limit, and that the eligibility key orders a run class's line by time and
  then by run id.
\<close>

section \<open>UTF-8\<close>

abbreviation byte :: "char \<Rightarrow> nat" where
  "byte c \<equiv> of_char c"

definition cont_byte :: "char \<Rightarrow> bool" where
  "cont_byte c \<longleftrightarrow> 0x80 \<le> byte c \<and> byte c \<le> 0xBF"

definition rune_start :: "char \<Rightarrow> bool" where
  "rune_start c \<longleftrightarrow> \<not> cont_byte c"

text \<open>The bytes of the first rune and how many they are; \<open>None\<close> is a decoding error, which the
  library reports as \<^verbatim>\<open>RuneError\<close> of width 1.\<close>

definition lead_width :: "char \<Rightarrow> nat option" where
  "lead_width c = (let b = byte c in
     if b < 0x80 then Some 1
     else if 0xC2 \<le> b \<and> b \<le> 0xDF then Some 2
     else if 0xE0 \<le> b \<and> b \<le> 0xEF then Some 3
     else if 0xF0 \<le> b \<and> b \<le> 0xF4 then Some 4 else None)"

definition second_ok :: "char \<Rightarrow> char \<Rightarrow> bool" where
  "second_ok c d \<longleftrightarrow> (let b = byte c in
     if b = 0xE0 then 0xA0 \<le> byte d \<and> byte d \<le> 0xBF
     else if b = 0xED then 0x80 \<le> byte d \<and> byte d \<le> 0x9F
     else if b = 0xF0 then 0x90 \<le> byte d \<and> byte d \<le> 0xBF
     else if b = 0xF4 then 0x80 \<le> byte d \<and> byte d \<le> 0x8F
     else cont_byte d)"

fun rune_width :: "string \<Rightarrow> nat option" where
  "rune_width [] = None"
| "rune_width (c # s) = (case lead_width c of
     None \<Rightarrow> None
   | Some n \<Rightarrow> if n = 1 then Some 1
       else (case s of [] \<Rightarrow> None
         | d # s' \<Rightarrow> if second_ok c d \<and> n - 2 \<le> length s' \<and> list_all cont_byte (take (n - 2) s')
                    then Some n else None))"

lemma lead_width_pos: "lead_width c = Some n \<Longrightarrow> 0 < n"
  by (auto simp: lead_width_def Let_def split: if_splits)

lemma rune_width_le: "rune_width s = Some n \<Longrightarrow> 0 < n \<and> n \<le> length s"
  by (cases s) (auto dest: lead_width_pos split: option.splits if_splits list.splits)

function valid_utf8 :: "string \<Rightarrow> bool" where
  "valid_utf8 s = (if s = [] then True
     else case rune_width s of None \<Rightarrow> False | Some n \<Rightarrow> valid_utf8 (drop n s))"
  by auto
termination
  by (relation "measure length") (auto dest: rune_width_le)

declare valid_utf8.simps [simp del]

function to_valid_go :: "string \<Rightarrow> bool \<Rightarrow> string \<Rightarrow> string" where
  "to_valid_go repl bad s = (if s = [] then []
     else case rune_width s of
       None \<Rightarrow> (if bad then [] else repl) @ to_valid_go repl True (tl s)
     | Some n \<Rightarrow> take n s @ to_valid_go repl False (drop n s))"
  by auto
termination
  by (relation "measure (\<lambda>(_, _, s). length s)") (auto dest: rune_width_le simp: Suc_le_eq)

declare to_valid_go.simps [simp del]

definition to_valid_utf8 :: "string \<Rightarrow> string \<Rightarrow> string" where
  "to_valid_utf8 s repl = to_valid_go repl False s"

section \<open>Identifiers and text\<close>

definition invalidID :: "string \<Rightarrow> bool" where
  "invalidID s \<longleftrightarrow> CHR 0x00 \<in> set s \<or> \<not> valid_utf8 s"

definition rune_error :: string where
  "rune_error = [CHR 0xEF, CHR 0xBF, CHR 0xBD]"

definition sanitizeText :: "string \<Rightarrow> string" where
  "sanitizeText s = (if valid_utf8 s then s else to_valid_utf8 s rune_error)"

definition truncationMark :: string where
  "truncationMark = [CHR 0xE2, CHR 0x80, CHR 0xA6]"

definition DefaultTextLimit :: int where
  "DefaultTextLimit = 4096"

fun back_to_rune :: "string \<Rightarrow> nat \<Rightarrow> nat" where
  "back_to_rune s 0 = 0"
| "back_to_rune s (Suc pos) = (if rune_start (s ! Suc pos) then Suc pos else back_to_rune s pos)"

definition text_limit :: "int \<Rightarrow> int" where
  "text_limit n = (if n \<le> 0 then DefaultTextLimit else n)"

definition boundText :: "int \<Rightarrow> string \<Rightarrow> string" where
  "boundText textLimit s0 = (let s = sanitizeText s0; limit = text_limit textLimit
     in if int (length s) \<le> limit then s
        else take (back_to_rune s (nat (limit - int (length truncationMark)))) s @ truncationMark)"

section \<open>The order of a run class's line\<close>

definition eligibleSince :: "run_record \<Rightarrow> gotime" where
  "eligibleSince rec = (if r_created_at rec < r_next_attempt_at rec then r_next_attempt_at rec else r_created_at rec)"

text \<open>\<^verbatim>\<open>Time.UnixNano\<close>: nanoseconds since 1970 in a signed 64-bit integer, wrapping.\<close>

definition unix_epoch :: gotime where
  "unix_epoch = 62135596800 * second"

definition UnixNano :: "gotime \<Rightarrow> int" where
  "UnixNano t = (t - unix_epoch + 2 ^ 63) mod 2 ^ 64 - 2 ^ 63"

definition digit :: "nat \<Rightarrow> char" where
  "digit d = char_of (48 + d)"

fun decimal :: "nat \<Rightarrow> string" where
  "decimal n = (if n < 10 then [digit n] else decimal (n div 10) @ [digit (n mod 10)])"

declare decimal.simps [simp del]

text \<open>The verb \<^verbatim>\<open>%020d\<close>: zero-padded to twenty bytes, the sign included.\<close>

definition sprintf_020d :: "int \<Rightarrow> string" where
  "sprintf_020d z = (let d = decimal (nat \<bar>z\<bar>) in
     if z < 0 then CHR ''-'' # replicate (19 - length d) (CHR ''0'') @ d
     else replicate (20 - length d) (CHR ''0'') @ d)"

definition eligibilityKey :: "run_record \<Rightarrow> string" where
  "eligibilityKey rec = sprintf_020d (UnixNano (eligibleSince rec)) @ ''/'' @ r_run rec"

section \<open>Facts about UTF-8\<close>

lemma valid_utf8_Nil [simp]: "valid_utf8 []"
  by (simp add: valid_utf8.simps)

lemma take_append_mid: "n \<le> length s \<Longrightarrow> take n (take n s @ t) = take n s"
  by simp

lemma rune_width_prefix:
  assumes "rune_width s = Some n"
  shows "rune_width (take n s @ t) = Some n"
proof (cases s)
  case (Cons c s')
  show ?thesis
  proof (cases "n = 1")
    case True
    then show ?thesis using assms Cons by (auto split: option.splits if_splits list.splits)
  next
    case False
    then obtain d s'' where "s' = d # s''" using assms Cons by (auto split: option.splits if_splits list.splits)
    moreover obtain k where "n = Suc (Suc k)"
      using rune_width_le [OF assms] False by (metis One_nat_def Suc_pred less_Suc_eq_0_disj gr0_conv_Suc not_gr_zero)
    ultimately show ?thesis using assms Cons by (auto split: option.splits if_splits)
  qed
qed (use assms in simp)

lemma rune_width_inner:
  assumes "rune_width s = Some n" and "0 < i" and "i < n"
  shows "\<not> rune_start (s ! i)"
proof -
  obtain c s' where s: "s = c # s'" using assms(1) by (cases s) auto
  obtain d s'' where s': "s' = d # s''" using assms s by (cases s') (auto split: option.splits if_splits)
  have ok: "second_ok c d" "n - 2 \<le> length s''" "list_all cont_byte (take (n - 2) s'')"
    using assms s s' by (auto split: option.splits if_splits)
  show ?thesis
  proof (cases "i = 1")
    case True
    then show ?thesis using ok(1) s s'
      by (auto simp: rune_start_def second_ok_def cont_byte_def Let_def split: if_splits)
  next
    case False
    then obtain j where j: "i = Suc (Suc j)" using assms(2) by (metis One_nat_def not0_implies_Suc not_gr_zero)
    have "j < length (take (n - 2) s'')" using assms(3) ok(2) j by simp
    from nth_mem [OF this] have "s'' ! j \<in> set (take (n - 2) s'')" using assms(3) j by simp
    then show ?thesis using ok(3) j s s' by (simp add: rune_start_def list_all_iff)
  qed
qed

lemma valid_utf8_append:
  "valid_utf8 s \<Longrightarrow> valid_utf8 t \<Longrightarrow> valid_utf8 (s @ t)"
proof (induction s rule: valid_utf8.induct)
  case (1 s)
  show ?case
  proof (cases "s = []")
    case False
    then obtain n where n: "rune_width s = Some n" and v: "valid_utf8 (drop n s)"
      using 1(2) by (subst (asm) valid_utf8.simps) (auto split: option.splits)
    have "rune_width (s @ t) = Some n"
      using rune_width_prefix [OF n, of "drop n s @ t"] by (simp only: append.assoc [symmetric] append_take_drop_id)
    moreover have "drop n (s @ t) = drop n s @ t" using rune_width_le [OF n] by simp
    ultimately show ?thesis using 1(1) [OF False n v 1(3)] False by (subst valid_utf8.simps) simp
  qed (use 1(3) in simp)
qed

lemma valid_utf8_rune: "rune_width s = Some n \<Longrightarrow> valid_utf8 (take n s)"
  using rune_width_prefix [of s n "[]"] rune_width_le [of s n]
  by (subst valid_utf8.simps) auto

lemma to_valid_go_valid:
  "valid_utf8 repl \<Longrightarrow> valid_utf8 (to_valid_go repl bad s)"
proof (induction repl bad s rule: to_valid_go.induct)
  case (1 repl bad s)
  show ?case
  proof (cases "s = []")
    case False
    then show ?thesis using 1
      by (subst to_valid_go.simps) (auto split: option.splits intro!: valid_utf8_append valid_utf8_rune)
  qed (simp add: to_valid_go.simps)
qed

lemma to_valid_go_id: "valid_utf8 s \<Longrightarrow> to_valid_go repl False s = s"
proof (induction s rule: valid_utf8.induct)
  case (1 s)
  then show ?case
    by (subst to_valid_go.simps) (auto simp: valid_utf8.simps [of s] split: option.splits)
qed

lemma valid_marks: "valid_utf8 rune_error" "valid_utf8 truncationMark"
  by (simp_all add: rune_error_def truncationMark_def valid_utf8.simps lead_width_def second_ok_def cont_byte_def)

lemma sanitizeText_valid: "valid_utf8 (sanitizeText s)"
  by (simp add: sanitizeText_def to_valid_utf8_def to_valid_go_valid valid_marks)

lemma valid_utf8_take:
  "valid_utf8 s \<Longrightarrow> i < length s \<Longrightarrow> i = 0 \<or> rune_start (s ! i) \<Longrightarrow> valid_utf8 (take i s)"
proof (induction s arbitrary: i rule: valid_utf8.induct)
  case (1 s)
  show ?case
  proof (cases "i = 0")
    case False
    then have ne: "s \<noteq> []" using 1(3) by auto
    then obtain n where n: "rune_width s = Some n" and v: "valid_utf8 (drop n s)"
      using 1(2) by (subst (asm) valid_utf8.simps) (auto split: option.splits)
    have "n \<le> i" using rune_width_inner [OF n, of i] 1(4) False by fastforce
    then have split: "take i s = take n s @ take (i - n) (drop n s)"
      by (metis le_add_diff_inverse take_add)
    have "valid_utf8 (take (i - n) (drop n s))"
      by (rule 1(1) [OF ne n v]) (use 1(3,4) \<open>n \<le> i\<close> False in auto)
    then show ?thesis unfolding split by (intro valid_utf8_append valid_utf8_rune [OF n])
  qed simp
qed

lemma back_to_rune_le: "back_to_rune s pos \<le> pos"
  by (induction pos) (auto simp: le_SucI)

lemma back_to_rune_start: "back_to_rune s pos = 0 \<or> rune_start (s ! back_to_rune s pos)"
  by (induction pos) auto

lemma back_to_rune_max:
  "back_to_rune s pos < j \<Longrightarrow> j \<le> pos \<Longrightarrow> \<not> rune_start (s ! j)"
  by (induction pos) (auto simp: le_Suc_eq split: if_splits)

section \<open>Facts about the key\<close>

fun fixed_digits :: "nat \<Rightarrow> nat \<Rightarrow> string" where
  "fixed_digits 0 x = []"
| "fixed_digits (Suc n) x = fixed_digits n (x div 10) @ [digit (x mod 10)]"

lemma digit_0 [simp]: "digit 0 = CHR ''0''"
  unfolding digit_def by code_simp

lemma fixed_digits_0: "fixed_digits n 0 = replicate n (CHR ''0'')"
  by (induction n) (simp_all add: replicate_append_same)

lemma decimal_fixed:
  "0 < n \<Longrightarrow> x < 10 ^ n \<Longrightarrow> length (decimal x) \<le> n \<and> replicate (n - length (decimal x)) (CHR ''0'') @ decimal x = fixed_digits n x"
proof (induction n arbitrary: x)
  case (Suc n)
  show ?case
  proof (cases "x < 10")
    case True
    then show ?thesis by (simp add: decimal.simps fixed_digits_0)
  next
    case False
    then have "0 < n" "x div 10 < 10 ^ n" using Suc.prems by (cases n; auto simp: less_mult_imp_div_less)+
    with Suc.IH [of "x div 10"] False show ?thesis by (subst (1 2 3) decimal.simps) (auto simp flip: append_assoc)
  qed
qed simp

lemma digit_less: "a < 10 \<Longrightarrow> b < 10 \<Longrightarrow> digit a < digit b \<longleftrightarrow> a < b"
  by (simp add: digit_def less_char_def of_char_of)

lemma digit_eq: "a < 10 \<Longrightarrow> b < 10 \<Longrightarrow> digit a = digit b \<longleftrightarrow> a = b"
  using digit_less [of a b] digit_less [of b a] by (metis less_irrefl linorder_neqE_nat)

lemma quot_rem_less:
  fixes a b r s :: nat
  assumes "r < 10" and "s < 10"
  shows "10 * a + r < 10 * b + s \<longleftrightarrow> a < b \<or> a = b \<and> r < s"
  using assms by arith

lemma div_mod_less: "(x::nat) < y \<longleftrightarrow> x div 10 < y div 10 \<or> x div 10 = y div 10 \<and> x mod 10 < y mod 10"
  using quot_rem_less [of "x mod 10" "y mod 10" "x div 10" "y div 10"] by (simp add: mult_div_mod_eq)

lemma div_mod_eq: "(x::nat) = y \<longleftrightarrow> x div 10 = y div 10 \<and> x mod 10 = y mod 10"
  by (metis mult_div_mod_eq)

lemma fixed_digits_less:
  "x < 10 ^ n \<Longrightarrow> y < 10 ^ n \<Longrightarrow> fixed_digits n x @ s < fixed_digits n y @ t \<longleftrightarrow> x < y \<or> x = y \<and> s < t"
proof (induction n arbitrary: x y s t)
  case (Suc n)
  have "x div 10 < 10 ^ n" "y div 10 < 10 ^ n" using Suc.prems by (simp_all add: less_mult_imp_div_less)
  from Suc.IH [OF this, of "digit (x mod 10) # s" "digit (y mod 10) # t"] show ?case
    by (simp add: digit_less digit_eq div_mod_less [of x y] div_mod_eq [of x y]) blast
qed simp

lemma UnixNano_range:
  assumes "unix_epoch \<le> t" and "t < unix_epoch + 2 ^ 63"
  shows "UnixNano t = t - unix_epoch"
  using assms by (simp add: UnixNano_def)

lemma sprintf_020d_fixed:
  assumes "0 \<le> z" and "z < 2 ^ 63"
  shows "sprintf_020d z = fixed_digits 20 (nat z)" and "nat z < 10 ^ 20"
proof -
  show lt: "nat z < 10 ^ 20" using assms by (simp add: nat_less_iff)
  show "sprintf_020d z = fixed_digits 20 (nat z)"
    using decimal_fixed [OF _ lt] assms(1) by (simp add: sprintf_020d_def Let_def)
qed

section \<open>Properties\<close>

text \<open>
  Claim C34. The free text the engine writes to a run (failure messages, reasons, cancel causes)
  is valid UTF-8 whatever the handler returned; it is at most the text limit long when the limit
  has room for the three-byte mark; valid text within the limit is stored as it is; and text that
  is cut is a prefix of the sanitized text followed by the mark, cut at most at the last rune
  boundary that leaves room for it.
\<close>

theorem boundText_spec:
  "valid_utf8 (boundText n s) \<and>
   (3 \<le> text_limit n \<longrightarrow> int (length (boundText n s)) \<le> text_limit n) \<and>
   (valid_utf8 s \<and> int (length s) \<le> text_limit n \<longrightarrow> boundText n s = s) \<and>
   (text_limit n < int (length (sanitizeText s)) \<longrightarrow>
      (\<exists>k. boundText n s = take k (sanitizeText s) @ truncationMark \<and> int k \<le> max 0 (text_limit n - 3) \<and>
         (\<forall>j. k < j \<and> int j \<le> text_limit n - 3 \<longrightarrow> \<not> rune_start (sanitizeText s ! j))))"
proof (intro conjI impI)
  let ?s = "sanitizeText s" and ?c = "nat (text_limit n - 3)"
  let ?k = "back_to_rune ?s ?c"
  have pos: "0 < text_limit n" by (simp add: text_limit_def DefaultTextLimit_def)
  have eq: "boundText n s = (if int (length ?s) \<le> text_limit n then ?s else take ?k ?s @ truncationMark)"
    by (simp add: boundText_def Let_def truncationMark_def)
  have "valid_utf8 (take ?k ?s)" if "text_limit n < int (length ?s)"
    by (rule valid_utf8_take [OF sanitizeText_valid _ back_to_rune_start])
       (use that pos back_to_rune_le [of ?s ?c] in linarith)
  then show "valid_utf8 (boundText n s)"
    using eq by (auto intro: valid_utf8_append valid_marks sanitizeText_valid)
  show "int (length (boundText n s)) \<le> text_limit n" if "3 \<le> text_limit n"
    using eq that back_to_rune_le [of ?s ?c] by (auto simp: truncationMark_def)
  show "boundText n s = s" if "valid_utf8 s \<and> int (length s) \<le> text_limit n"
    using eq that by (simp add: sanitizeText_def)
  show "\<exists>k. boundText n s = take k ?s @ truncationMark \<and> int k \<le> max 0 (text_limit n - 3) \<and>
      (\<forall>j. k < j \<and> int j \<le> text_limit n - 3 \<longrightarrow> \<not> rune_start (?s ! j))" if "text_limit n < int (length ?s)"
    using eq that back_to_rune_le [of ?s ?c] back_to_rune_max [of ?s ?c]
    by (intro exI [of _ ?k]) auto
qed

theorem boundText_spec_witness:
  "boundText 5 ''abc'' = ''abc'' \<and> int (length (boundText 5 ''abcdefgh'')) \<le> 5 \<and> boundText 5 ''abcdefgh'' \<noteq> ''abcdefgh''"
proof -
  have "valid_utf8 ''abc''" by (simp add: valid_utf8.simps lead_width_def)
  then have "boundText 5 ''abc'' = ''abc''" using boundText_spec [of 5 "''abc''"] by (simp add: text_limit_def)
  moreover have "int (length (boundText 5 ''abcdefgh'')) \<le> 5"
    using boundText_spec [of 5 "''abcdefgh''"] by (simp add: text_limit_def)
  ultimately show ?thesis by (intro conjI notI) (assumption, assumption, simp)
qed

text \<open>
  Claim C35. Two run-class keys compare, as byte strings, by the time the runs became eligible and
  then by run id, for times from 1970 on that a 64-bit nanosecond count can hold.
\<close>

theorem eligibilityKey_order:
  assumes "unix_epoch \<le> eligibleSince a" and "eligibleSince a < unix_epoch + 2 ^ 63"
    and "unix_epoch \<le> eligibleSince b" and "eligibleSince b < unix_epoch + 2 ^ 63"
  shows "eligibilityKey a < eligibilityKey b \<longleftrightarrow>
    eligibleSince a < eligibleSince b \<or> eligibleSince a = eligibleSince b \<and> r_run a < r_run b"
proof -
  let ?a = "eligibleSince a - unix_epoch" and ?b = "eligibleSince b - unix_epoch"
  have "0 \<le> ?a" "?a < 2 ^ 63" "0 \<le> ?b" "?b < 2 ^ 63" using assms by auto
  note f = sprintf_020d_fixed [OF this(1,2)] sprintf_020d_fixed [OF this(3,4)]
  show ?thesis
    using fixed_digits_less [OF f(2,4), of "''/'' @ r_run a" "''/'' @ r_run b"] assms
    by (auto simp: eligibilityKey_def UnixNano_range f(1,3) nat_less_iff eq_nat_nat_iff)
qed

abbreviation wit_line_rec :: "run_id \<Rightarrow> gotime \<Rightarrow> gotime \<Rightarrow> run_record" where
  "wit_line_rec i created next \<equiv> \<lparr>r_run = i, r_pipeline = ''p'', r_resource = ''r'', r_annotations = [], r_input = None,
     r_phase = PhaseForward, r_steps = [], r_failure = None, r_output = None, r_outcome = None,
     r_next_attempt_at = next, r_awaiting = None, r_awaited = None, r_last_error = [], r_last_reason = [],
     r_last_error_at = zero_time, r_cancel = None, r_created_at = created, r_updated_at = created, r_started_at = zero_time\<rparr>"

theorem eligibilityKey_order_witness:
  "eligibilityKey (wit_line_rec ''b'' (unix_epoch + 9) zero_time) < eligibilityKey (wit_line_rec ''a'' (unix_epoch + 2) (unix_epoch + 10))"
  by (subst eligibilityKey_order) (simp_all add: eligibleSince_def unix_epoch_def second_def)

end
