(* ===== verification/Bolt_Keys.thy ===== *)
theory Bolt_Keys
  imports Ids Store_Spec "HOL-Library.Sublist"
begin

text \<open>
  The keys of the bbolt store (\<^verbatim>\<open>src/store/bbolt/store.go\<close>): how rows of a run, its operations and states, the slots
  and the expiry index are addressed, and how a key is taken apart again. A key is a byte sequence; NUL
  separates its parts, which the store contract keeps out of every identifier. The lemmas show that a
  key determines its parts, that operation keys sort by resolution order and expiry keys by commit
  time, and that a prefix walk of a sorted bucket meets exactly the rows of its run.
\<close>

section \<open>Keys\<close>

abbreviation nul :: char where
  "nul \<equiv> CHR 0x00"

definition tagMeta :: char where "tagMeta = CHR ''M''"
definition tagCancel :: char where "tagCancel = CHR ''c''"
definition tagFailure :: char where "tagFailure = CHR ''f''"
definition tagInput :: char where "tagInput = CHR ''i''"
definition tagOp :: char where "tagOp = CHR ''o''"

definition stateSuffix :: bytes where
  "stateSuffix = [nul, CHR ''s'']"

definition blobKey :: bytes where
  "blobKey = ''b''"

text \<open>\<^verbatim>\<open>binary.BigEndian\<close> in a given number of bytes.\<close>

fun be_bytes :: "nat \<Rightarrow> nat \<Rightarrow> bytes" where
  "be_bytes 0 x = []"
| "be_bytes (Suc n) x = be_bytes n (x div 256) @ [char_of (x mod 256)]"

definition be_nat :: "bytes \<Rightarrow> nat" where
  "be_nat bs = foldl (\<lambda>a c. 256 * a + of_char c) 0 bs"

definition slotKeyFor :: "pipeline_id \<Rightarrow> resource_id \<Rightarrow> bytes" where
  "slotKeyFor p r = p @ [nul] @ r"

definition runPrefix :: "run_id \<Rightarrow> bytes" where
  "runPrefix i = i @ [nul]"

definition activeKey :: "run_id \<Rightarrow> char \<Rightarrow> bytes" where
  "activeKey i tag = runPrefix i @ [tag]"

definition opPrefix :: "run_id \<Rightarrow> bytes" where
  "opPrefix i = activeKey i tagOp @ [nul]"

definition phaseByte :: "phase \<Rightarrow> char" where
  "phaseByte p = (if p = PhaseUnwind then CHR ''u'' else CHR ''f'')"

definition opKey :: "run_id \<Rightarrow> u32 \<Rightarrow> step_id \<Rightarrow> phase \<Rightarrow> bytes" where
  "opKey i order step p = opPrefix i @ be_bytes 4 (unat order) @ [nul] @ step @ [nul, phaseByte p]"

definition stateKey :: "bytes \<Rightarrow> bytes" where
  "stateKey k = k @ stateSuffix"

definition outputKey :: "run_id \<Rightarrow> bytes" where
  "outputKey i = i @ [nul] @ ''O''"

text \<open>\<^verbatim>\<open>bytes.IndexByte\<close> with the slices around it.\<close>

definition splitActiveKey :: "bytes \<Rightarrow> (bytes \<times> char \<times> bytes) option" where
  "splitActiveKey k = (case dropWhile (\<lambda>c. c \<noteq> nul) k of
     z # tag # rest \<Rightarrow> Some (takeWhile (\<lambda>c. c \<noteq> nul) k, tag, rest) | _ \<Rightarrow> None)"

definition splitOpRest :: "bytes \<Rightarrow> (u32 \<times> step_id \<times> phase) option" where
  "splitOpRest rest =
     (if length rest < 1 + 4 + 1 + 2 \<or> rest ! 0 \<noteq> nul \<or> rest ! 5 \<noteq> nul \<or> rest ! (length rest - 2) \<noteq> nul then None
      else let tail = drop 6 rest
        in Some (of_nat (be_nat (take 4 (drop 1 rest))), take (length tail - 2) tail,
             if last tail = CHR ''u'' then PhaseUnwind else PhaseForward))"

definition expiryPrefix :: "gotime \<Rightarrow> bytes" where
  "expiryPrefix t = be_bytes 8 (unat (if is_zero t then 0 else word_of_int (UnixNano t) :: u64))"

definition expiryKey :: "gotime \<Rightarrow> run_id \<Rightarrow> bytes" where
  "expiryKey t i = expiryPrefix t @ i"

section \<open>Big-endian numbers\<close>

lemma length_be_bytes [simp]: "length (be_bytes n x) = n"
  by (induction n arbitrary: x) auto

lemma be_nat_be_bytes: "be_nat (be_bytes n x) = x mod 256 ^ n"
proof (induction n arbitrary: x)
  case (Suc n)
  have "be_nat (be_bytes (Suc n) x) = 256 * ((x div 256) mod 256 ^ n) + x mod 256"
    using Suc by (simp add: be_nat_def)
  also have "\<dots> = x mod (256 * 256 ^ n)" by (simp add: mod_mult2_eq)
  finally show ?case by simp
qed (simp add: be_nat_def)

lemma be_bytes_inj: "x < 256 ^ n \<Longrightarrow> y < 256 ^ n \<Longrightarrow> be_bytes n x = be_bytes n y \<Longrightarrow> x = y"
  by (metis be_nat_be_bytes mod_less)

lemma snoc_less:
  fixes a b :: char
  assumes "length xs = length ys"
  shows "xs @ [a] < ys @ [b] \<longleftrightarrow> xs < ys \<or> xs = ys \<and> a < b"
  using assms by (induction xs ys rule: list_induct2) auto

lemma byte_div_mod_less: "(x::nat) < y \<longleftrightarrow> x div 256 < y div 256 \<or> x div 256 = y div 256 \<and> x mod 256 < y mod 256"
proof -
  have "256 * a + r < 256 * b + s \<longleftrightarrow> a < b \<or> a = b \<and> r < s" if "r < 256" "s < 256" for a b r s :: nat using that by arith
  from this [of "x mod 256" "y mod 256" "x div 256" "y div 256"] show ?thesis by (simp add: mult_div_mod_eq)
qed

lemma be_bytes_less: "x < 256 ^ n \<Longrightarrow> y < 256 ^ n \<Longrightarrow> be_bytes n x < be_bytes n y \<longleftrightarrow> x < y"
proof (induction n arbitrary: x y)
  case (Suc n)
  have lt: "x div 256 < 256 ^ n" "y div 256 < 256 ^ n" using Suc.prems by (auto simp: less_mult_imp_div_less mult.commute)
  have "char_of (x mod 256) < (char_of (y mod 256) :: char) \<longleftrightarrow> x mod 256 < y mod 256" by (simp add: less_char_def)
  moreover have "be_bytes n (x div 256) = be_bytes n (y div 256) \<longleftrightarrow> x div 256 = y div 256" using be_bytes_inj [OF lt] by auto
  ultimately show ?case
    by (simp add: snoc_less Suc.IH [OF lt] byte_div_mod_less [of x y])
qed simp

lemma append_less: "length xs = length (ys :: bytes) \<Longrightarrow> xs @ us < ys @ vs \<longleftrightarrow> xs < ys \<or> xs = ys \<and> us < vs"
  by (induction xs ys rule: list_induct2) auto

section \<open>Parts of a key\<close>

lemma nul_free_simps [simp]: "nul_free []" "nul_free (c # s) \<longleftrightarrow> c \<noteq> nul \<and> nul_free s" "nul_free (s @ t) \<longleftrightarrow> nul_free s \<and> nul_free t"
  by (auto simp: nul_free_def)

lemma nul_split:
  assumes "nul_free s"
  shows "takeWhile (\<lambda>c. c \<noteq> nul) (s @ nul # t) = s" "dropWhile (\<lambda>c. c \<noteq> nul) (s @ nul # t) = nul # t"
  using assms by (induction s) auto

lemma nul_append_inj:
  assumes "nul_free s" "nul_free t" "s @ nul # u = t @ nul # v"
  shows "s = t" "u = v"
proof -
  show "s = t" using nul_split(1) [OF assms(1), of u] nul_split(1) [OF assms(2), of v] assms(3) by simp
  then show "u = v" using assms(3) by simp
qed

lemma splitActiveKey_eq: "nul_free i \<Longrightarrow> splitActiveKey (runPrefix i @ tag # rest) = Some (i, tag, rest)"
  by (simp add: splitActiveKey_def runPrefix_def nul_split)

lemma runPrefix_prefix: "nul_free i \<Longrightarrow> nul_free j \<Longrightarrow> prefix (runPrefix i) (runPrefix j @ rest) \<longleftrightarrow> i = j"
  by (auto simp: prefix_def runPrefix_def dest: nul_append_inj(1))

lemma activeKey_eq: "activeKey i tag = runPrefix i @ [tag]"
  by (simp add: activeKey_def)

text \<open>What follows the tag in an operation key.\<close>

definition op_rest :: "u32 \<Rightarrow> step_id \<Rightarrow> phase \<Rightarrow> bytes" where
  "op_rest order step p = [nul] @ be_bytes 4 (unat order) @ [nul] @ step @ [nul, phaseByte p]"

lemma opKey_eq: "opKey i order step p = runPrefix i @ tagOp # op_rest order step p"
  by (simp add: opKey_def opPrefix_def activeKey_def op_rest_def)

lemma be_nat_u32: "of_nat (be_nat (be_bytes 4 (unat (w :: u32)))) = w"
  using unsigned_less [of w, where ?'a = nat] by (simp add: be_nat_be_bytes)

definition one_phase :: "phase \<Rightarrow> phase" where
  "one_phase p = (if p = PhaseUnwind then PhaseUnwind else PhaseForward)"

lemma splitOpRest_eq: "splitOpRest (op_rest order step p) = Some (order, step, one_phase p)"
proof -
  have len: "length (op_rest order step p) = 8 + length step" by (simp add: op_rest_def)
  have "op_rest order step p ! 5 = nul" "op_rest order step p ! (length (op_rest order step p) - 2) = nul" "op_rest order step p ! 0 = nul"
    unfolding len by (simp_all add: op_rest_def nth_append)
  moreover have "drop 6 (op_rest order step p) = step @ [nul, phaseByte p]" by (simp add: op_rest_def)
  moreover have "take 4 (drop 1 (op_rest order step p)) = be_bytes 4 (unat order)" by (simp add: op_rest_def)
  ultimately show ?thesis
    by (simp add: splitOpRest_def len Let_def be_nat_u32 phaseByte_def one_phase_def)
qed

lemma opKey_inj:
  assumes "nul_free i" "nul_free j" "opKey i order step p = opKey j order' step' p'"
  shows "i = j \<and> order = order' \<and> step = step' \<and> one_phase p = one_phase p'"
proof -
  have "splitActiveKey (opKey i order step p) = Some (i, tagOp, op_rest order step p)"
    "splitActiveKey (opKey j order' step' p') = Some (j, tagOp, op_rest order' step' p')"
    unfolding opKey_eq by (rule splitActiveKey_eq [OF assms(1)], rule splitActiveKey_eq [OF assms(2)])
  with assms(3) have "i = j" "op_rest order step p = op_rest order' step' p'" by simp_all
  then show ?thesis using splitOpRest_eq [of order step p] splitOpRest_eq [of order' step' p'] by simp
qed

lemma opKey_less: "order < order' \<Longrightarrow> opKey i order step p < opKey i order' step' p'"
proof -
  assume "order < order'"
  then have "be_bytes 4 (unat order) < be_bytes 4 (unat order')"
    using unsigned_less [of order, where ?'a = nat] unsigned_less [of order', where ?'a = nat] by (simp add: be_bytes_less word_less_nat_alt)
  then show ?thesis by (simp add: opKey_eq op_rest_def append_less)
qed

text \<open>Commit times from 1970 to 2262, and the zero time, are indexed by their nanoseconds.\<close>

definition indexed_time :: "gotime \<Rightarrow> bool" where
  "indexed_time t \<longleftrightarrow> is_zero t \<or> unix_epoch < t \<and> t < unix_epoch + 2 ^ 63"

definition expiry_nano :: "gotime \<Rightarrow> nat" where
  "expiry_nano t = (if is_zero t then 0 else nat (t - unix_epoch))"

lemma expiryPrefix_nano: "indexed_time t \<Longrightarrow> expiryPrefix t = be_bytes 8 (expiry_nano t) \<and> expiry_nano t < 2 ^ 63"
proof (cases "is_zero t")
  case False
  assume "indexed_time t"
  then have t: "unix_epoch < t" "t < unix_epoch + 2 ^ 63" using False by (auto simp: indexed_time_def)
  define d where "d = t - unix_epoch"
  have d: "0 \<le> d" "d < 2 ^ 63" using t by (simp_all add: d_def)
  have "UnixNano t = d" unfolding d_def by (rule UnixNano_range) (use t in auto)
  moreover have "unat (word_of_int d :: u64) = nat d" using d by (simp add: unat_eq_nat_uint unsigned_of_int take_bit_int_eq_self)
  moreover have "nat d < 2 ^ 63" using d by (simp add: nat_less_iff)
  ultimately show ?thesis using False by (simp add: expiryPrefix_def expiry_nano_def d_def)
qed (simp add: expiryPrefix_def expiry_nano_def)

lemma expiry_nano_less: "indexed_time t \<Longrightarrow> indexed_time u \<Longrightarrow> expiry_nano t < expiry_nano u \<longleftrightarrow> t < u"
  by (auto simp: indexed_time_def expiry_nano_def unix_epoch_def second_def)

lemma expiryPrefix_less:
  assumes "indexed_time t" "indexed_time u"
  shows "expiryPrefix t < expiryPrefix u \<longleftrightarrow> t < u"
proof -
  have "expiry_nano t < 256 ^ 8" "expiry_nano u < 256 ^ 8" using expiryPrefix_nano [OF assms(1)] expiryPrefix_nano [OF assms(2)] by simp_all
  then show ?thesis using expiryPrefix_nano [OF assms(1)] expiryPrefix_nano [OF assms(2)] expiry_nano_less [OF assms]
    by (simp add: be_bytes_less)
qed

lemma length_expiryPrefix [simp]: "length (expiryPrefix t) = 8"
  by (simp add: expiryPrefix_def)

section \<open>Prefix walks\<close>

text \<open>A cursor seeks the first key from a prefix on and steps while the prefix matches.\<close>

definition seek_prefix :: "bytes \<Rightarrow> (bytes \<times> 'v) list \<Rightarrow> (bytes \<times> 'v) list" where
  "seek_prefix p rows = takeWhile (\<lambda>(k, v). prefix p k) (dropWhile (\<lambda>(k, v). k < p) rows)"

lemma prefix_le: "prefix p k \<Longrightarrow> p \<le> (k :: bytes)"
proof (induction p arbitrary: k)
  case (Cons c p)
  then show ?case by (cases k) auto
qed simp

lemma prefix_between: "p \<le> k \<Longrightarrow> k \<le> k' \<Longrightarrow> prefix p k' \<Longrightarrow> prefix p (k :: bytes)"
proof (induction p arbitrary: k k')
  case (Cons c p)
  then obtain t' where "k' = c # t'" "prefix p t'" by (cases k') auto
  with Cons show ?case by (cases k) auto
qed simp

lemma seek_prefix_eq:
  assumes "sorted (map fst rows)"
  shows "seek_prefix p rows = filter (\<lambda>(k, v). prefix p k) rows"
  using assms
proof (induction rows)
  case (Cons x rows)
  obtain k v where x: "x = (k, v)" by (cases x)
  consider "k < p" | "p \<le> k" "prefix p k" | "p \<le> k" "\<not> prefix p k" by fastforce
  then show ?case
  proof cases
    case 1
    then have "\<not> prefix p k" using prefix_le [of p k] by auto
    then show ?thesis using 1 Cons by (simp add: seek_prefix_def x)
  next
    case 2
    have "dropWhile (\<lambda>(k, v). k < p) rows = rows"
      using Cons.prems x 2 by (cases rows) auto
    then show ?thesis using 2 Cons by (simp add: seek_prefix_def x)
  next
    case 3
    have "\<not> prefix p k'" if "(k', v') \<in> set rows" for k' v'
      using that Cons.prems x 3 prefix_between [of p k k'] by auto
    then have "filter (\<lambda>(k, v). prefix p k) rows = []" by (auto simp: filter_empty_conv)
    then show ?thesis using 3 by (simp add: seek_prefix_def x)
  qed
qed (simp add: seek_prefix_def)

section \<open>Properties\<close>

text \<open>Claim C18. The key of an operation row reads back as the run, the order, the step and the phase it was made from; keys of
  one run with a smaller order sort first, whatever their steps; and the keys of the expiry index sort by commit time, for times from
  1970 to 2262 and the zero time, whatever their runs.\<close>

theorem bolt_keys_roundtrip:
  assumes "nul_free i" "p = PhaseForward \<or> p = PhaseUnwind"
  shows "(\<exists>rest. splitActiveKey (opKey i order step p) = Some (i, tagOp, rest) \<and> splitOpRest rest = Some (order, step, p)) \<and>
    (\<forall>order' step' p'. order < order' \<longrightarrow> opKey i order step p < opKey i order' step' p') \<and>
    (\<forall>t u j. indexed_time t \<longrightarrow> indexed_time u \<longrightarrow> t < u \<longrightarrow> expiryKey t i < expiryKey u j)"
proof (intro conjI allI impI)
  have "splitActiveKey (opKey i order step p) = Some (i, tagOp, op_rest order step p)"
    unfolding opKey_eq by (rule splitActiveKey_eq [OF assms(1)])
  moreover have "one_phase p = p" using assms(2) by (auto simp: one_phase_def)
  ultimately show "\<exists>rest. splitActiveKey (opKey i order step p) = Some (i, tagOp, rest) \<and> splitOpRest rest = Some (order, step, p)"
    using splitOpRest_eq [of order step p] by simp
next
  fix order' step' p' assume "order < order'"
  then show "opKey i order step p < opKey i order' step' p'" by (rule opKey_less)
next
  fix t u j assume "indexed_time t" "indexed_time u" "t < u"
  then show "expiryKey t i < expiryKey u j" by (simp add: expiryKey_def append_less expiryPrefix_less)
qed

theorem bolt_keys_roundtrip_witness:
  "(\<exists>rest. splitActiveKey (opKey ''r1'' 7 ''ship'' PhaseUnwind) = Some (''r1'', tagOp, rest) \<and> splitOpRest rest = Some (7, ''ship'', PhaseUnwind)) \<and>
   opKey ''r1'' 7 ''ship'' PhaseUnwind < opKey ''r1'' 300 ''a'' PhaseForward \<and> expiryKey zero_time ''r1'' < expiryKey (unix_epoch + 1) ''r0''"
proof -
  have "indexed_time zero_time" "indexed_time (unix_epoch + 1)" "zero_time < unix_epoch + 1"
    by (simp_all add: indexed_time_def unix_epoch_def second_def)
  then show ?thesis using bolt_keys_roundtrip [of "''r1''" PhaseUnwind 7 "''ship''"] by simp
qed

end
