(* ===== verification/Bolt_Store.thy ===== *)
theory Bolt_Store
  imports Bolt_Keys Storage Blobcache
begin

text \<open>
  The bbolt store (\<^verbatim>\<open>src/store/bbolt/store.go\<close>): the six buckets, the staging of terminal runs and their batched
  drain, and every method of the store contract over them. The bbolt library is a parameter, the record
  \<open>bolt\<close> of its operations on the state \<open>'tx\<close> of a transaction; the protobuf library is the one of \<open>Storage\<close>.
  What is relied on is \<open>bolt_ok\<close>: over a view of the transaction as a map from bucket and key to a row or a
  nested bucket, reads read it, a write that succeeds changes that one key, and a cursor walks
  the keys in byte order.

  A method runs as an action on the store: the closure of a transaction changes \<open>bs_tx\<close> and may touch
  the caches and the counter of staged runs; \<^verbatim>\<open>Update\<close> puts the old \<open>bs_tx\<close> back when the closure or the commit
  fails, and what the closure did outside the transaction stays. \<^verbatim>\<open>Batch\<close> runs the same closures in one
  transaction one after the other, so a batch is a sequence of actions, and bbolt's single writer makes each
  action one step.
\<close>

section \<open>The bbolt library\<close>

datatype bucket = ActiveB | CursorB | TerminalB | ExpiryB | StagedB | SlotsB

datatype bolt_err = ErrIncompatibleValue | BoltErr string

record 'tx bolt =
  bt_get :: "'tx \<Rightarrow> bucket \<Rightarrow> bytes \<Rightarrow> bytes option"
  bt_put :: "bucket \<Rightarrow> bytes \<Rightarrow> bytes \<Rightarrow> 'tx \<Rightarrow> bolt_err + 'tx"
  bt_delete :: "bucket \<Rightarrow> bytes \<Rightarrow> 'tx \<Rightarrow> bolt_err + 'tx"
  bt_create_bucket :: "bucket \<Rightarrow> bytes \<Rightarrow> 'tx \<Rightarrow> bolt_err + 'tx"
  bt_delete_bucket :: "bucket \<Rightarrow> bytes \<Rightarrow> 'tx \<Rightarrow> bolt_err + 'tx"
  bt_nested :: "'tx \<Rightarrow> bucket \<Rightarrow> bytes \<Rightarrow> (bytes \<Rightarrow> bytes option) option"
  bt_nested_put :: "bucket \<Rightarrow> bytes \<Rightarrow> bytes \<Rightarrow> bytes \<Rightarrow> 'tx \<Rightarrow> bolt_err + 'tx"
  bt_walk :: "'tx \<Rightarrow> bucket \<Rightarrow> (bytes \<times> bytes option) list"
  bt_commit :: "'tx \<Rightarrow> bolt_err option"

record ('t, 'tx) bolt_env =
  be_db :: "'tx bolt"
  be_proto :: "('t, bytes) proto_lib"
  be_row_max :: int

text \<open>The largest value kept in place.\<close>

definition blobRowMaxFor :: "int \<Rightarrow> int" where
  "blobRowMaxFor pageSize = pageSize div 2"

section \<open>State and actions\<close>

record 'tx bolt_store =
  bs_tx :: 'tx
  bs_staged :: int
  bs_blobs :: blob_cache
  bs_outputs :: blob_cache

type_synonym ('tx, 'a) act = "'tx bolt_store \<Rightarrow> 'a result \<times> 'tx bolt_store"

definition act_ok :: "'a \<Rightarrow> ('tx, 'a) act" where
  "act_ok a s = (Inr a, s)"

definition act_fail :: "kernel_error \<Rightarrow> ('tx, 'a) act" where
  "act_fail e s = (Inl e, s)"

definition act_then :: "('tx, 'a) act \<Rightarrow> ('a \<Rightarrow> ('tx, 'b) act) \<Rightarrow> ('tx, 'b) act" where
  "act_then m f s = (case m s of (Inl e, s') \<Rightarrow> (Inl e, s') | (Inr a, s') \<Rightarrow> f a s')"

fun act_each :: "('x \<Rightarrow> ('tx, unit) act) \<Rightarrow> 'x list \<Rightarrow> ('tx, unit) act" where
  "act_each f [] = act_ok ()"
| "act_each f (x # xs) = act_then (f x) (\<lambda>_. act_each f xs)"

definition bolt_error :: "bolt_err \<Rightarrow> kernel_error" where
  "bolt_error e = ErrStore (case e of ErrIncompatibleValue \<Rightarrow> ''incompatible value'' | BoltErr m \<Rightarrow> m)"

definition act_tx :: "('tx \<Rightarrow> bolt_err + 'tx) \<Rightarrow> ('tx, unit) act" where
  "act_tx w s = (case w (bs_tx s) of Inl e \<Rightarrow> (Inl (bolt_error e), s) | Inr tx \<Rightarrow> (Inr (), s\<lparr>bs_tx := tx\<rparr>))"

definition act_read :: "('tx bolt_store \<Rightarrow> 'a) \<Rightarrow> ('tx, 'a) act" where
  "act_read f s = (Inr (f s), s)"

text \<open>A conversion of the storage encoding, with its error.\<close>

definition act_pb :: "goerr + 'a \<Rightarrow> ('tx, 'a) act" where
  "act_pb r s = (case r of Inl e \<Rightarrow> (Inl (ErrStore (error_string e)), s) | Inr a \<Rightarrow> (Inr a, s))"

definition act_put :: "('t, 'tx) bolt_env \<Rightarrow> bucket \<Rightarrow> bytes \<Rightarrow> bytes \<Rightarrow> ('tx, unit) act" where
  "act_put E b k v = act_tx (bt_put (be_db E) b k v)"

definition act_delete :: "('t, 'tx) bolt_env \<Rightarrow> bucket \<Rightarrow> bytes \<Rightarrow> ('tx, unit) act" where
  "act_delete E b k = act_tx (bt_delete (be_db E) b k)"

definition act_get :: "('t, 'tx) bolt_env \<Rightarrow> bucket \<Rightarrow> bytes \<Rightarrow> ('tx, bytes option) act" where
  "act_get E b k = act_read (\<lambda>s. bt_get (be_db E) (bs_tx s) b k)"

definition act_walk :: "('t, 'tx) bolt_env \<Rightarrow> bucket \<Rightarrow> ('tx, (bytes \<times> bytes option) list) act" where
  "act_walk E b = act_read (\<lambda>s. bt_walk (be_db E) (bs_tx s) b)"

text \<open>\<^verbatim>\<open>db.Update\<close> and \<^verbatim>\<open>db.View\<close> around a closure.\<close>

definition bolt_update :: "('t, 'tx) bolt_env \<Rightarrow> ('tx, 'a) act \<Rightarrow> ('tx, 'a) act" where
  "bolt_update E f s = (case f s of
     (Inl e, s') \<Rightarrow> (Inl e, s'\<lparr>bs_tx := bs_tx s\<rparr>)
   | (Inr a, s') \<Rightarrow> (case bt_commit (be_db E) (bs_tx s') of
       Some err \<Rightarrow> (Inl (bolt_error err), s'\<lparr>bs_tx := bs_tx s\<rparr>)
     | None \<Rightarrow> (Inr a, s')))"

definition bolt_view :: "('tx, 'a) act \<Rightarrow> ('tx, 'a) act" where
  "bolt_view f s = (case f s of (r, s') \<Rightarrow> (r, s'\<lparr>bs_tx := bs_tx s\<rparr>))"

section \<open>Blobs\<close>

definition putBlob :: "('t, 'tx) bolt_env \<Rightarrow> bucket \<Rightarrow> bytes \<Rightarrow> bytes \<Rightarrow> ('tx, unit) act" where
  "putBlob E b key v = (if int (length v) \<le> be_row_max E then act_put E b key v
     else act_then (act_tx (bt_create_bucket (be_db E) b key))
       (\<lambda>_. act_tx (bt_nested_put (be_db E) b key blobKey v)))"

definition blobFromBucket :: "('t, 'tx) bolt_env \<Rightarrow> bucket \<Rightarrow> bytes \<Rightarrow> ('tx, bytes option) act" where
  "blobFromBucket E b key = act_read (\<lambda>s. case bt_nested (be_db E) (bs_tx s) b key of Some nb \<Rightarrow> nb blobKey | None \<Rightarrow> None)"

definition blobAt :: "('t, 'tx) bolt_env \<Rightarrow> bucket \<Rightarrow> bytes \<Rightarrow> bytes option \<Rightarrow> ('tx, bytes option) act" where
  "blobAt E b key v = (if v \<noteq> None then act_ok v else blobFromBucket E b key)"

definition getBlob :: "('t, 'tx) bolt_env \<Rightarrow> bucket \<Rightarrow> bytes \<Rightarrow> ('tx, bytes option) act" where
  "getBlob E b key = act_then (act_walk E b) (\<lambda>rows. case dropWhile (\<lambda>(k, v). k < key) rows of
       [] \<Rightarrow> act_ok None
     | (k, v) # _ \<Rightarrow> if k \<noteq> key then act_ok None else blobAt E b key v)"

definition deleteBlob :: "('t, 'tx) bolt_env \<Rightarrow> bucket \<Rightarrow> bytes \<Rightarrow> ('tx, unit) act" where
  "deleteBlob E b key s = (case bt_delete (be_db E) b key (bs_tx s) of
     Inl ErrIncompatibleValue \<Rightarrow> act_tx (bt_delete_bucket (be_db E) b key) s
   | Inl e \<Rightarrow> (Inl (bolt_error e), s)
   | Inr tx \<Rightarrow> (Inr (), s\<lparr>bs_tx := tx\<rparr>))"

section \<open>Staged runs\<close>

text \<open>The rows of a run in the active bucket, as a cursor meets them.\<close>

definition run_rows :: "('t, 'tx) bolt_env \<Rightarrow> run_id \<Rightarrow> ('tx, (bytes \<times> bytes option) list) act" where
  "run_rows E i = act_then (act_walk E ActiveB) (\<lambda>rows. act_ok (seek_prefix (runPrefix i) rows))"

definition deleteNonterminalStage :: "('t, 'tx) bolt_env \<Rightarrow> run_id \<Rightarrow> ('tx, unit) act" where
  "deleteNonterminalStage E i = act_then (run_rows E i) (\<lambda>rows.
     act_then (act_each (deleteBlob E ActiveB) (map fst rows)) (\<lambda>_. act_delete E CursorB i))"

definition drainStaged :: "('t, 'tx) bolt_env \<Rightarrow> nat \<Rightarrow> ('tx, int) act" where
  "drainStaged E n = act_then (act_walk E StagedB) (\<lambda>rows. let ids = take n (map fst rows) in
     act_then (act_each (\<lambda>i. act_then (deleteNonterminalStage E i) (\<lambda>_. act_delete E StagedB i)) ids)
       (\<lambda>_. act_ok (int (length ids))))"

definition stageDrainPerWrite :: nat where "stageDrainPerWrite = 64"
definition stageDrainPerSweep :: nat where "stageDrainPerSweep = 256"

definition add_staged :: "int \<Rightarrow> ('tx, unit) act" where
  "add_staged n s = (Inr (), s\<lparr>bs_staged := bs_staged s + n\<rparr>)"

definition writeDrain :: "('t, 'tx) bolt_env \<Rightarrow> ('tx, unit) act" where
  "writeDrain E s = (if bs_staged s < int stageDrainPerWrite then (Inr (), s)
     else act_then (drainStaged E stageDrainPerWrite) (\<lambda>n. add_staged (- n)) s)"

text \<open>The loop of \<^verbatim>\<open>Drain\<close>, with a bound on its rounds; None when the bound is not enough.\<close>

fun drain_loop :: "nat \<Rightarrow> ('t, 'tx) bolt_env \<Rightarrow> 'tx bolt_store \<Rightarrow> (unit result \<times> 'tx bolt_store) option" where
  "drain_loop 0 E s = None"
| "drain_loop (Suc fuel) E s = (case bolt_update E (drainStaged E stageDrainPerSweep) s of
     (Inl e, s') \<Rightarrow> Some (Inl e, s')
   | (Inr n, s') \<Rightarrow> let s'' = s'\<lparr>bs_staged := bs_staged s' - n\<rparr> in
       if n < int stageDrainPerSweep then Some (Inr (), s'') else drain_loop fuel E s'')"

definition Drain :: "nat \<Rightarrow> ('t, 'tx) bolt_env \<Rightarrow> 'tx bolt_store \<Rightarrow> (unit result \<times> 'tx bolt_store) option" where
  "Drain fuel E s = drain_loop fuel E s"

text \<open>One tick of the sweep.\<close>

definition sweep_tick :: "nat \<Rightarrow> ('t, 'tx) bolt_env \<Rightarrow> 'tx bolt_store \<Rightarrow> 'tx bolt_store option" where
  "sweep_tick fuel E s = (if 0 < bs_staged s then map_option snd (Drain fuel E s) else Some s)"

section \<open>Reading a run\<close>

definition the_bytes :: "bytes option \<Rightarrow> bytes" where
  "the_bytes v = (case v of None \<Rightarrow> [] | Some b \<Rightarrow> b)"

definition malformed :: "string \<Rightarrow> bytes \<Rightarrow> kernel_error" where
  "malformed what k = ErrStore (''bbolt: '' @ what @ '' '' @ k)"

definition act_cache :: "(blob_cache \<Rightarrow> 'a \<times> blob_cache) \<Rightarrow> ('tx, 'a) act" where
  "act_cache f s = (case f (bs_blobs s) of (a, c) \<Rightarrow> (Inr a, s\<lparr>bs_blobs := c\<rparr>))"

definition act_outputs :: "(blob_cache \<Rightarrow> 'a \<times> blob_cache) \<Rightarrow> ('tx, 'a) act" where
  "act_outputs f s = (case f (bs_outputs s) of (a, c) \<Rightarrow> (Inr a, s\<lparr>bs_outputs := c\<rparr>))"

definition overlay :: "cursor \<Rightarrow> run_record \<Rightarrow> run_record" where
  "overlay cur rec = (let rec1 = rec\<lparr>r_phase := cu_phase cur, r_next_attempt_at := cu_next_attempt_at cur,
       r_last_error := cu_last_error cur, r_last_reason := cu_last_reason cur, r_last_error_at := cu_last_error_at cur,
       r_awaiting := cu_awaiting cur, r_awaited := cu_awaited cur, r_updated_at := cu_updated_at cur, r_started_at := cu_started_at cur\<rparr>
     in if cu_step cur \<noteq> []
        then put_op (cu_step cur) (cu_phase cur) ((rec_op rec1 (cu_step cur) (cu_phase cur))\<lparr>or_status := OpUnresolved, or_attempts := cu_attempts cur\<rparr>) rec1
        else rec1)"

definition overlayCursor :: "('t, 'tx) bolt_env \<Rightarrow> run_record \<Rightarrow> ('tx, run_record) act" where
  "overlayCursor E rec = act_then (act_get E CursorB (r_run rec)) (\<lambda>cb. case cb of
     None \<Rightarrow> act_fail (ErrStore (''bbolt: run '' @ r_run rec @ '' has no cursor''))
   | Some b \<Rightarrow> act_then (act_pb (UnmarshalCursor (be_proto E) b)) (\<lambda>cur. act_ok (overlay cur rec)))"

text \<open>The walk over the rows after the meta row: the record so far, the entry to fill on a cold read, and the key and
  step of the last operation row.\<close>

record walk_state =
  wr_rec :: run_record
  wr_fill :: "run_blobs option"
  wr_key :: bytes
  wr_step :: step_id

definition state_step :: "bytes \<Rightarrow> bytes \<Rightarrow> walk_state \<Rightarrow> step_id option" where
  "state_step k rest w =
     (if take (length k - length stateSuffix) k = wr_key w then Some (wr_step w)
      else case splitOpRest (take (length rest - length stateSuffix) rest) of
        Some (order, step, PhaseForward) \<Rightarrow> Some step | _ \<Rightarrow> None)"

definition put_state :: "step_id \<Rightarrow> bytes option \<Rightarrow> run_record \<Rightarrow> run_record" where
  "put_state step st rec = put_op step PhaseForward ((rec_op rec step PhaseForward)\<lparr>or_state := st\<rparr>) rec"

text \<open>A nil blob put into the entry to fill reads as an absent one.\<close>

definition fill_state :: "step_id \<Rightarrow> bytes option \<Rightarrow> run_blobs \<Rightarrow> run_blobs" where
  "fill_state step st rb = (case st of None \<Rightarrow> rb | Some b \<Rightarrow> rb\<lparr>rb_states := gm_put step b (rb_states rb)\<rparr>)"

definition walk_state_row :: "('t, 'tx) bolt_env \<Rightarrow> run_id \<Rightarrow> bytes \<Rightarrow> bytes option \<Rightarrow> bytes \<Rightarrow> walk_state \<Rightarrow> ('tx, walk_state) act" where
  "walk_state_row E i k v rest w = (case state_step k rest w of
     None \<Rightarrow> act_fail (malformed ''malformed state key'' k)
   | Some step \<Rightarrow> act_then (act_cache (\<lambda>c. bc_state c i step)) (\<lambda>cached. case cached of
       Some st \<Rightarrow> act_ok (w\<lparr>wr_rec := put_state step (Some st) (wr_rec w)\<rparr>)
     | None \<Rightarrow> act_then (blobAt E ActiveB k v) (\<lambda>st.
         act_ok (w\<lparr>wr_rec := put_state step st (wr_rec w), wr_fill := map_option (fill_state step st) (wr_fill w)\<rparr>))))"

definition walk_op_row :: "('t, 'tx) bolt_env \<Rightarrow> bytes \<Rightarrow> bytes option \<Rightarrow> bytes \<Rightarrow> walk_state \<Rightarrow> ('tx, walk_state) act" where
  "walk_op_row E k v rest w = (case splitOpRest rest of
     None \<Rightarrow> act_fail (malformed ''malformed operation key'' k)
   | Some (order, step, phase) \<Rightarrow> act_then (act_pb (UnmarshalOperationRecord (be_proto E) (the_bytes v))) (\<lambda>op.
       act_ok (w\<lparr>wr_rec := put_op step phase op (wr_rec w), wr_key := k, wr_step := step\<rparr>)))"

definition walk_row :: "('t, 'tx) bolt_env \<Rightarrow> run_id \<Rightarrow> bytes option \<Rightarrow> bytes \<times> bytes option \<Rightarrow> walk_state \<Rightarrow> ('tx, walk_state) act" where
  "walk_row E i cachedInput row w = (case row of (k, v) \<Rightarrow> (case splitActiveKey k of
     None \<Rightarrow> act_fail (malformed ''malformed active key'' k)
   | Some (_, tag, rest) \<Rightarrow>
      if tag = tagInput then
        (case cachedInput of
           Some b \<Rightarrow> act_ok (w\<lparr>wr_rec := (wr_rec w)\<lparr>r_input := Some b\<rparr>\<rparr>)
         | None \<Rightarrow> act_then (blobAt E ActiveB k v) (\<lambda>b.
             act_ok (w\<lparr>wr_rec := (wr_rec w)\<lparr>r_input := b\<rparr>, wr_fill := map_option (rb_input_update (\<lambda>_. b)) (wr_fill w)\<rparr>)))
      else if tag = tagCancel then
        act_then (act_pb (UnmarshalCancel (be_proto E) (the_bytes v))) (\<lambda>cr. act_ok (w\<lparr>wr_rec := (wr_rec w)\<lparr>r_cancel := Some cr\<rparr>\<rparr>))
      else if tag = tagFailure then
        act_then (act_pb (UnmarshalFailureRecord (be_proto E) (the_bytes v))) (\<lambda>f. act_ok (w\<lparr>wr_rec := (wr_rec w)\<lparr>r_failure := Some f\<rparr>\<rparr>))
      else if tag = tagOp then
        (if suffix stateSuffix rest then walk_state_row E i k v rest w else walk_op_row E k v rest w)
      else act_fail (malformed ''unknown active row tag in key'' k)))"

fun walk_rows :: "('t, 'tx) bolt_env \<Rightarrow> run_id \<Rightarrow> bytes option \<Rightarrow> (bytes \<times> bytes option) list \<Rightarrow> walk_state \<Rightarrow> ('tx, walk_state) act" where
  "walk_rows E i ci [] w = act_ok w"
| "walk_rows E i ci (row # rows) w = act_then (walk_row E i ci row w) (walk_rows E i ci rows)"

text \<open>The seek of the meta row, with the tag of the first row read by index.\<close>

definition meta_row :: "('t, 'tx) bolt_env \<Rightarrow> run_id \<Rightarrow> (bytes \<times> bytes option) list \<Rightarrow> ('tx, run_record) act" where
  "meta_row E i rows = (case rows of
     [] \<Rightarrow> act_fail ErrRunNotFound
   | (k, v) # _ \<Rightarrow>
      if length k \<le> length (runPrefix i) then act_fail (GoPanic ''index out of range'')
      else if k ! length (runPrefix i) \<noteq> tagMeta then act_fail ErrRunNotFound
      else act_pb (UnmarshalRunMetaInto (be_proto E) (the_bytes v) zero_record))"

definition getNonterminal :: "('t, 'tx) bolt_env \<Rightarrow> run_id \<Rightarrow> ('tx, run_record) act" where
  "getNonterminal E i = act_then (act_cache (\<lambda>c. bc_input c i)) (\<lambda>(cachedInput, cached).
     act_then (run_rows E i) (\<lambda>rows. act_then (meta_row E i rows) (\<lambda>rec.
       act_then (walk_rows E i cachedInput (tl rows) \<lparr>wr_rec = rec, wr_fill = (if cached then None else Some no_blobs), wr_key = [], wr_step = []\<rparr>)
         (\<lambda>w. act_then (case wr_fill w of None \<Rightarrow> act_ok () | Some rb \<Rightarrow> act_cache (\<lambda>c. ((), bc_fill c i rb)))
           (\<lambda>_. overlayCursor E (wr_rec w))))))"

definition getRun :: "('t, 'tx) bolt_env \<Rightarrow> run_id \<Rightarrow> ('tx, run_record) act" where
  "getRun E i = act_then (act_get E TerminalB i) (\<lambda>tb. case tb of
     Some b \<Rightarrow> act_then (act_pb (UnmarshalTerminalInto (be_proto E) b zero_record)) (\<lambda>(rec, beside).
       if \<not> beside then act_ok rec
       else act_then (act_outputs (\<lambda>c. bc_output c i)) (\<lambda>out. if out \<noteq> None then act_ok (rec\<lparr>r_output := out\<rparr>)
         else act_then (getBlob E TerminalB (outputKey i)) (\<lambda>v.
           act_then (act_outputs (\<lambda>c. ((), bc_fill c i (no_blobs\<lparr>rb_output := v\<rparr>)))) (\<lambda>_. act_ok (rec\<lparr>r_output := v\<rparr>)))))
   | None \<Rightarrow> getNonterminal E i)"

text \<open>The head rows, up to the first that is neither cancel nor failure.\<close>

fun head_rows :: "('t, 'tx) bolt_env \<Rightarrow> run_id \<Rightarrow> (bytes \<times> bytes option) list \<Rightarrow> run_record \<Rightarrow> ('tx, run_record) act" where
  "head_rows E i [] rec = act_ok rec"
| "head_rows E i ((k, v) # rows) rec =
     (if length k \<le> length (runPrefix i) then act_fail (GoPanic ''index out of range'')
      else if k ! length (runPrefix i) = tagCancel then
        act_then (act_pb (UnmarshalCancel (be_proto E) (the_bytes v))) (\<lambda>cr. head_rows E i rows (rec\<lparr>r_cancel := Some cr\<rparr>))
      else if k ! length (runPrefix i) = tagFailure then
        act_then (act_pb (UnmarshalFailureRecord (be_proto E) (the_bytes v))) (\<lambda>f. head_rows E i rows (rec\<lparr>r_failure := Some f\<rparr>))
      else act_ok rec)"

definition getHead :: "('t, 'tx) bolt_env \<Rightarrow> run_id \<Rightarrow> ('tx, run_record) act" where
  "getHead E i = act_then (act_get E TerminalB i) (\<lambda>tb. case tb of
     Some b \<Rightarrow> act_then (act_pb (UnmarshalTerminalInto (be_proto E) b zero_record)) (\<lambda>(rec, _). act_ok (rec\<lparr>r_output := None\<rparr>))
   | None \<Rightarrow> act_then (run_rows E i) (\<lambda>rows. act_then (meta_row E i rows) (\<lambda>rec.
       act_then (head_rows E i (tl rows) rec) (overlayCursor E))))"

definition bolt_GetRun :: "('t, 'tx) bolt_env \<Rightarrow> run_id \<Rightarrow> ('tx, run_record) act" where
  "bolt_GetRun E i = bolt_view (getRun E i)"

definition bolt_GetRunHead :: "('t, 'tx) bolt_env \<Rightarrow> run_id \<Rightarrow> ('tx, run_record) act" where
  "bolt_GetRunHead E i = bolt_view (getHead E i)"

fun list_slots :: "('t, 'tx) bolt_env \<Rightarrow> (bytes \<times> bytes option) list \<Rightarrow> run_record list \<Rightarrow> ('tx, run_record list) act" where
  "list_slots E [] out s = (Inr out, s)"
| "list_slots E ((k, v) # rows) out s = (case getHead E (the_bytes v) s of
     (Inl e, s') \<Rightarrow> (Inl (ErrStore (''bbolt: slot references run '' @ the_bytes v)), s')
   | (Inr rec, s') \<Rightarrow> list_slots E rows (out @ [rec]) s')"

definition bolt_ListNonterminal :: "('t, 'tx) bolt_env \<Rightarrow> ('tx, run_record list) act" where
  "bolt_ListNonterminal E = bolt_view (act_then (act_walk E SlotsB) (\<lambda>rows. list_slots E rows []))"

definition bolt_GetActiveRunID :: "('t, 'tx) bolt_env \<Rightarrow> pipeline_id \<Rightarrow> resource_id \<Rightarrow> ('tx, run_id option) act" where
  "bolt_GetActiveRunID E p r = bolt_view (act_get E SlotsB (slotKeyFor p r))"

section \<open>Writing a run\<close>

definition putOnce :: "('t, 'tx) bolt_env \<Rightarrow> string \<Rightarrow> run_id \<Rightarrow> bytes \<Rightarrow> bytes \<Rightarrow> ('tx, unit) act" where
  "putOnce E what i k v = act_then (act_get E ActiveB k) (\<lambda>old.
     if old \<noteq> None then act_fail (ErrStore (''bbolt: '' @ what @ '' of run '' @ i @ '' already written''))
     else act_put E ActiveB k v)"

definition putRootFailure :: "('t, 'tx) bolt_env \<Rightarrow> run_id \<Rightarrow> failure \<Rightarrow> ('tx, unit) act" where
  "putRootFailure E i f = act_then (act_pb (MarshalFailureRecord (be_proto E) f)) (\<lambda>b. putOnce E ''failure'' i (activeKey i tagFailure) b)"

text \<open>The key of the run's row for step and phase, whatever its order.\<close>

definition op_suffix :: "step_id \<Rightarrow> phase \<Rightarrow> bytes" where
  "op_suffix step p = [nul] @ step @ [nul, phaseByte p]"

definition is_op_row :: "run_id \<Rightarrow> step_id \<Rightarrow> phase \<Rightarrow> bytes \<Rightarrow> bool" where
  "is_op_row i step p k \<longleftrightarrow> length k = length (opPrefix i) + 4 + length (op_suffix step p) \<and> drop (length (opPrefix i) + 4) k = op_suffix step p"

definition findOp :: "('t, 'tx) bolt_env \<Rightarrow> run_id \<Rightarrow> step_id \<Rightarrow> phase \<Rightarrow> ('tx, bytes option) act" where
  "findOp E i step p = act_then (act_walk E ActiveB) (\<lambda>rows.
     act_ok (find (is_op_row i step p) (map fst (seek_prefix (opPrefix i) rows))))"

definition putOp :: "('t, 'tx) bolt_env \<Rightarrow> run_id \<Rightarrow> step_id \<Rightarrow> phase \<Rightarrow> operation_record \<Rightarrow> ('tx, unit) act" where
  "putOp E i step p op =
     (let beside = (p = PhaseForward \<and> be_row_max E < blen (or_state op));
          row = (if beside then op\<lparr>or_state := None\<rparr> else op);
          key = opKey i (or_order op) step p
      in act_then (act_pb (MarshalOperationRecord (be_proto E) row)) (\<lambda>b.
         act_then (findOp E i step p) (\<lambda>old.
         act_then (if old \<noteq> None \<and> old \<noteq> Some key then act_delete E ActiveB (the old) else act_ok ()) (\<lambda>_.
         act_then (act_put E ActiveB key b) (\<lambda>_.
           if p \<noteq> PhaseForward then act_ok ()
           else act_then (if old \<noteq> None then deleteBlob E ActiveB (stateKey (the old)) else act_ok ()) (\<lambda>_.
             if beside then putBlob E ActiveB (stateKey key) (the_bytes (or_state op)) else act_ok ()))))))"

definition putTerminal :: "('t, 'tx) bolt_env \<Rightarrow> run_record \<Rightarrow> ('tx, unit) act" where
  "putTerminal E rec = (let beside = (be_row_max E < blen (r_output rec)) in
     act_then (act_pb (MarshalTerminal (be_proto E) rec beside)) (\<lambda>b.
     act_then (act_put E TerminalB (r_run rec) b) (\<lambda>_.
     act_then (if beside then putBlob E TerminalB (outputKey (r_run rec)) (the_bytes (r_output rec)) else act_ok ()) (\<lambda>_.
       act_put E ExpiryB (expiryKey (r_updated_at rec) (r_run rec)) []))))"

text \<open>The loop over the two phases of a step.\<close>

definition putStep :: "('t, 'tx) bolt_env \<Rightarrow> run_id \<Rightarrow> step_id \<times> step_record \<Rightarrow> ('tx, unit) act" where
  "putStep E i x = (case x of (step, sr) \<Rightarrow> act_each (\<lambda>p.
     if or_status (sr_op p sr) \<noteq> OpNone then putOp E i step p (sr_op p sr) else act_ok ()) [PhaseForward, PhaseUnwind])"

definition first_cursor :: "run_record \<Rightarrow> cursor" where
  "first_cursor rec = \<lparr>cu_phase = r_phase rec, cu_step = [], cu_attempts = 0, cu_awaiting = r_awaiting rec, cu_awaited = r_awaited rec,
     cu_next_attempt_at = r_next_attempt_at rec, cu_last_error = r_last_error rec, cu_last_reason = r_last_reason rec,
     cu_last_error_at = r_last_error_at rec, cu_updated_at = r_updated_at rec, cu_started_at = r_started_at rec\<rparr>"

definition putRun :: "('t, 'tx) bolt_env \<Rightarrow> run_record \<Rightarrow> ('tx, unit) act" where
  "putRun E rec = (if terminal rec then putTerminal E (compact_terminal rec)
     else let i = r_run rec in
       act_then (act_pb (MarshalRunMeta (be_proto E) rec)) (\<lambda>meta.
       act_then (putOnce E ''meta'' i (activeKey i tagMeta) meta) (\<lambda>_.
       act_then (if 0 < blen (r_input rec) then putBlob E ActiveB (activeKey i tagInput) (the_bytes (r_input rec)) else act_ok ()) (\<lambda>_.
       act_then (act_pb (MarshalCursor (be_proto E) (first_cursor rec))) (\<lambda>cursor.
       act_then (act_put E CursorB i cursor) (\<lambda>_.
       act_then (act_each (putStep E i) (r_steps rec)) (\<lambda>_.
       act_then (case r_failure rec of None \<Rightarrow> act_ok () | Some f \<Rightarrow> putRootFailure E i f) (\<lambda>_.
         case r_cancel rec of None \<Rightarrow> act_ok ()
         | Some c \<Rightarrow> act_then (act_pb (MarshalCancel (be_proto E) c)) (\<lambda>b. putOnce E ''cancel request'' i (activeKey i tagCancel) b)))))))))"

section \<open>The methods that write\<close>

text \<open>The first occupied slot of the excluded pipelines, the record's own skipped.\<close>

fun first_blocker :: "('t, 'tx) bolt_env \<Rightarrow> run_record \<Rightarrow> pipeline_id list \<Rightarrow> 'tx bolt_store \<Rightarrow> run_id option" where
  "first_blocker E rec [] s = None"
| "first_blocker E rec (p # ps) s =
     (if p = r_pipeline rec then first_blocker E rec ps s
      else case bt_get (be_db E) (bs_tx s) SlotsB (slotKeyFor p (r_resource rec)) of
        Some i \<Rightarrow> Some i | None \<Rightarrow> first_blocker E rec ps s)"

definition create_tx :: "('t, 'tx) bolt_env \<Rightarrow> run_record \<Rightarrow> pipeline_id list \<Rightarrow> ('tx, run_record option \<times> bool) act" where
  "create_tx E rec excluding = act_then (writeDrain E) (\<lambda>_.
     act_then (act_get E SlotsB (slotKeyFor (r_pipeline rec) (r_resource rec))) (\<lambda>own.
     act_then (if own \<noteq> None then act_ok own else act_read (first_blocker E rec excluding)) (\<lambda>blocker. case blocker of
       Some i \<Rightarrow> act_then (getRun E i) (\<lambda>existing. act_ok (Some existing, False))
     | None \<Rightarrow> act_then (putRun E rec) (\<lambda>_.
         act_then (act_put E SlotsB (slotKeyFor (r_pipeline rec) (r_resource rec)) (r_run rec)) (\<lambda>_. act_ok (None, True))))))"

definition cache_created :: "('t, 'tx) bolt_env \<Rightarrow> run_record \<Rightarrow> blob_cache \<Rightarrow> blob_cache" where
  "cache_created E rec c = fold (\<lambda>(step, sr) c. if be_row_max E < blen (or_state (sr_forward sr))
       then setState c (r_run rec) step (or_state (sr_forward sr)) else c)
     (r_steps rec) (setInput c (r_run rec) (r_input rec))"

definition bolt_CreateRun :: "('t, 'tx) bolt_env \<Rightarrow> run_record \<Rightarrow> pipeline_id list \<Rightarrow> ('tx, run_record option \<times> bool) act" where
  "bolt_CreateRun E rec excluding = act_then (bolt_update E (create_tx E rec excluding)) (\<lambda>(existing, created) s.
     (Inr (existing, created), if created then s\<lparr>bs_blobs := cache_created E rec (bs_blobs s)\<rparr> else s))"

text \<open>The terminal record of a run: its rows, then the transition's operations, then its cursor, compacted.\<close>

definition terminal_record :: "transition \<Rightarrow> outcome \<Rightarrow> run_record \<Rightarrow> run_record" where
  "terminal_record t oc rec =
     (let rec1 = (case t_failure t of None \<Rightarrow> rec | Some f \<Rightarrow> rec\<lparr>r_failure := Some f\<rparr>);
          rec2 = fold (\<lambda>ow r. put_op (ow_step ow) (ow_phase ow) (ow_record ow) r) (t_ops t) rec1;
          cur = t_cursor t; step = cu_step cur;
          rec3 = (if step = [] then rec2
            else if cu_phase cur = PhaseUnwind \<and> or_status (rec_op rec2 step PhaseForward) = OpSucceeded
            then put_op step PhaseUnwind ((rec_op rec2 step PhaseUnwind)\<lparr>or_status := OpUnresolved\<rparr>) rec2
            else put_op step PhaseForward ((rec_op rec2 step PhaseForward)\<lparr>or_status := OpUnresolved\<rparr>) rec2)
      in compact_terminal (rec3\<lparr>r_phase := cu_phase cur, r_updated_at := cu_updated_at cur, r_started_at := cu_started_at cur,
           r_outcome := Some oc, r_output := t_output t\<rparr>))"

definition commit_terminal :: "('t, 'tx) bolt_env \<Rightarrow> run_id \<Rightarrow> transition \<Rightarrow> outcome \<Rightarrow> ('tx, unit) act" where
  "commit_terminal E i t oc = act_then (getNonterminal E i) (\<lambda>rec0. let rec = terminal_record t oc rec0; key = slotKeyFor (r_pipeline rec) (r_resource rec) in
     act_then (putTerminal E rec) (\<lambda>_.
     act_then (act_put E StagedB i []) (\<lambda>_.
     act_then (act_get E SlotsB key) (\<lambda>holder. if holder = Some i then act_delete E SlotsB key else act_ok ()))))"

definition commit_progress :: "('t, 'tx) bolt_env \<Rightarrow> run_id \<Rightarrow> transition \<Rightarrow> ('tx, unit) act" where
  "commit_progress E i t = act_then (case t_failure t of None \<Rightarrow> act_ok () | Some f \<Rightarrow> putRootFailure E i f) (\<lambda>_.
     act_then (act_pb (MarshalCursor (be_proto E) (t_cursor t))) (\<lambda>cursor.
     act_then (act_put E CursorB i cursor) (\<lambda>_.
       act_each (\<lambda>ow. putOp E i (ow_step ow) (ow_phase ow) (ow_record ow)) (t_ops t))))"

definition apply_tx :: "('t, 'tx) bolt_env \<Rightarrow> run_id \<Rightarrow> transition \<Rightarrow> ('tx, unit) act" where
  "apply_tx E i t = act_then (writeDrain E) (\<lambda>_.
     act_then (act_get E TerminalB i) (\<lambda>tb. if tb \<noteq> None then act_fail ErrRunTerminal
     else act_then (act_get E ActiveB (activeKey i tagMeta)) (\<lambda>meta. if meta = None then act_fail ErrRunNotFound
     else case t_outcome t of Some oc \<Rightarrow> commit_terminal E i t oc | None \<Rightarrow> commit_progress E i t)))"

definition cache_ops :: "('t, 'tx) bolt_env \<Rightarrow> run_id \<Rightarrow> op_write list \<Rightarrow> blob_cache \<Rightarrow> blob_cache" where
  "cache_ops E i ows c = fold (\<lambda>ow c. if ow_phase ow \<noteq> PhaseForward then c
     else setState c i (ow_step ow) (if be_row_max E < blen (or_state (ow_record ow)) then or_state (ow_record ow) else None)) ows c"

definition bolt_ApplyTransition :: "('t, 'tx) bolt_env \<Rightarrow> run_id \<Rightarrow> transition \<Rightarrow> ('tx, unit) act" where
  "bolt_ApplyTransition E i t = act_then (bolt_update E (apply_tx E i t)) (\<lambda>_ s. (Inr (),
     if t_outcome t \<noteq> None
     then s\<lparr>bs_staged := bs_staged s + 1, bs_blobs := bc_drop (bs_blobs s) i,
       bs_outputs := (if be_row_max E < blen (t_output t) then setOutput (bs_outputs s) i (t_output t) else bs_outputs s)\<rparr>
     else s\<lparr>bs_blobs := cache_ops E i (t_ops t) (bs_blobs s)\<rparr>))"

definition reap_one :: "('t, 'tx) bolt_env \<Rightarrow> bytes \<Rightarrow> ('tx, unit) act" where
  "reap_one E k = (let i = drop 8 k in
     act_then (deleteNonterminalStage E i) (\<lambda>_.
     act_then (act_delete E TerminalB i) (\<lambda>_.
     act_then (deleteBlob E TerminalB (outputKey i)) (\<lambda>_.
     act_then (act_delete E ExpiryB k) (\<lambda>_.
     act_then (act_delete E StagedB i) (\<lambda>_.
       act_outputs (\<lambda>c. ((), bc_drop c i))))))))"

definition reap_tx :: "('t, 'tx) bolt_env \<Rightarrow> gotime \<Rightarrow> int \<Rightarrow> ('tx, int) act" where
  "reap_tx E before limit = act_then (act_walk E ExpiryB) (\<lambda>rows.
     let victims = takeWhile (\<lambda>k. take 8 k < expiryPrefix before) (take (nat limit) (map fst rows))
     in act_then (act_each (reap_one E) victims) (\<lambda>_. act_ok (int (length victims))))"

definition bolt_ReapTerminal :: "('t, 'tx) bolt_env \<Rightarrow> gotime \<Rightarrow> int \<Rightarrow> ('tx, int) act" where
  "bolt_ReapTerminal E before limit = bolt_update E (reap_tx E before limit)"

definition cancel_tx :: "('t, 'tx) bolt_env \<Rightarrow> run_id \<Rightarrow> cancel_request \<Rightarrow> ('tx, bool) act" where
  "cancel_tx E i req = act_then (act_get E TerminalB i) (\<lambda>tb. if tb \<noteq> None then act_fail ErrRunTerminal
     else act_then (act_get E ActiveB (activeKey i tagMeta)) (\<lambda>meta. if meta = None then act_fail ErrRunNotFound
     else act_then (act_get E ActiveB (activeKey i tagCancel)) (\<lambda>old. if old \<noteq> None then act_ok False
     else act_then (act_pb (MarshalCancel (be_proto E) req)) (\<lambda>b.
       act_then (act_put E ActiveB (activeKey i tagCancel) b) (\<lambda>_. act_ok True)))))"

definition bolt_RequestCancel :: "('t, 'tx) bolt_env \<Rightarrow> run_id \<Rightarrow> cancel_request \<Rightarrow> ('tx, bool) act" where
  "bolt_RequestCancel E i req = bolt_update E (cancel_tx E i req)"

section \<open>Opening and closing\<close>

definition DefaultBlobCache :: int where "DefaultBlobCache = 64 * 2 ^ 20"
definition DefaultOutputCache :: int where "DefaultOutputCache = 16 * 2 ^ 20"

record bolt_config =
  bcf_blob_cache :: int
  bcf_output_cache :: int

datatype bolt_option = WithBlobCache int | WithOutputCache int

fun apply_bolt_option :: "bolt_option \<Rightarrow> bolt_config \<Rightarrow> bolt_config" where
  "apply_bolt_option (WithBlobCache n) c = c\<lparr>bcf_blob_cache := n\<rparr>"
| "apply_bolt_option (WithOutputCache n) c = c\<lparr>bcf_output_cache := n\<rparr>"

text \<open>The store on an opened database whose buckets exist, before and after its first drain.\<close>

definition opened :: "bolt_option list \<Rightarrow> 'tx \<Rightarrow> 'tx bolt_store" where
  "opened opts tx = (let cfg = fold apply_bolt_option opts \<lparr>bcf_blob_cache = DefaultBlobCache, bcf_output_cache = DefaultOutputCache\<rparr> in
     \<lparr>bs_tx = tx, bs_staged = 0, bs_blobs = newBlobCache (bcf_blob_cache cfg), bs_outputs = newBlobCache (bcf_output_cache cfg)\<rparr>)"

definition bolt_Open :: "nat \<Rightarrow> ('t, 'tx) bolt_env \<Rightarrow> bolt_option list \<Rightarrow> 'tx \<Rightarrow> (kernel_error + 'tx bolt_store) option" where
  "bolt_Open fuel E opts tx = (case Drain fuel E (opened opts tx) of None \<Rightarrow> None
     | Some (Inl e, s) \<Rightarrow> Some (Inl e) | Some (Inr _, s) \<Rightarrow> Some (Inr s))"

end
