(* ===== verification/Bolt_Rules.thy ===== *)
theory Bolt_Rules
  imports Bolt_Store
begin

text \<open>
  How the actions of the bbolt store change the database: the view of a transaction, what is relied on of the
  bbolt library, and one rule per action. \<open>effect v m R\<close> says that whenever the action \<open>m\<close> returns a result, \<open>R\<close>
  relates the view before, the result and the view after; the rules compose along \<open>act_then\<close>. An action of
  one run is \<open>run_local\<close>: it changes the rows of that run only, and its meta row not at all.
\<close>

section \<open>Views\<close>

datatype entry = BRow bytes | BBucket "bytes \<Rightarrow> bytes option"

type_synonym db_view = "bucket \<Rightarrow> bytes \<Rightarrow> entry option"

definition row_of :: "entry option \<Rightarrow> bytes option" where
  "row_of e = (case e of Some (BRow x) \<Rightarrow> Some x | _ \<Rightarrow> None)"

definition nested_of :: "entry option \<Rightarrow> (bytes \<Rightarrow> bytes option) option" where
  "nested_of e = (case e of Some (BBucket f) \<Rightarrow> Some f | _ \<Rightarrow> None)"

definition upd :: "bucket \<Rightarrow> bytes \<Rightarrow> entry option \<Rightarrow> db_view \<Rightarrow> db_view" where
  "upd b k e w = w(b := (w b)(k := e))"

text \<open>The rows a cursor meets in a bucket.\<close>

definition walk_of :: "(bytes \<Rightarrow> entry option) \<Rightarrow> (bytes \<times> bytes option) list \<Rightarrow> bool" where
  "walk_of m rows \<longleftrightarrow> sorted_wrt (<) (map fst rows) \<and> (\<forall>k x. (k, x) \<in> set rows \<longleftrightarrow> m k \<noteq> None \<and> x = row_of (m k))"

definition bolt_ok :: "'tx bolt \<Rightarrow> ('tx \<Rightarrow> db_view) \<Rightarrow> bool" where
  "bolt_ok B v \<longleftrightarrow> (\<forall>tx b k. bt_get B tx b k = row_of (v tx b k)) \<and> (\<forall>tx b k. bt_nested B tx b k = nested_of (v tx b k)) \<and>
     (\<forall>tx b. walk_of (v tx b) (bt_walk B tx b)) \<and>
     (\<forall>b k x tx tx'. bt_put B b k x tx = Inr tx' \<longrightarrow> nested_of (v tx b k) = None \<and> v tx' = upd b k (Some (BRow x)) (v tx)) \<and>
     (\<forall>b k tx tx'. bt_delete B b k tx = Inr tx' \<longrightarrow> nested_of (v tx b k) = None \<and> v tx' = upd b k None (v tx)) \<and>
     (\<forall>b k tx tx'. bt_create_bucket B b k tx = Inr tx' \<longrightarrow> v tx b k = None \<and> v tx' = upd b k (Some (BBucket (\<lambda>_. None))) (v tx)) \<and>
     (\<forall>b k tx tx'. bt_delete_bucket B b k tx = Inr tx' \<longrightarrow> v tx' = upd b k None (v tx)) \<and>
     (\<forall>b k k' x tx tx'. bt_nested_put B b k k' x tx = Inr tx' \<longrightarrow>
        (\<exists>f. nested_of (v tx b k) = Some f \<and> v tx' = upd b k (Some (BBucket (f(k' \<mapsto> x)))) (v tx)))"

lemma bolt_okD:
  assumes "bolt_ok B v"
  shows "bt_get B tx b k = row_of (v tx b k)" "bt_nested B tx b k = nested_of (v tx b k)" "walk_of (v tx b) (bt_walk B tx b)"
    "bt_put B b k x tx = Inr tx' \<Longrightarrow> v tx' = upd b k (Some (BRow x)) (v tx)"
    "bt_delete B b k tx = Inr tx' \<Longrightarrow> v tx' = upd b k None (v tx)"
    "bt_create_bucket B b k tx = Inr tx' \<Longrightarrow> v tx b k = None \<and> v tx' = upd b k (Some (BBucket (\<lambda>_. None))) (v tx)"
    "bt_delete_bucket B b k tx = Inr tx' \<Longrightarrow> v tx' = upd b k None (v tx)"
    "bt_nested_put B b k k' x tx = Inr tx' \<Longrightarrow> \<exists>f. nested_of (v tx b k) = Some f \<and> v tx' = upd b k (Some (BBucket (f(k' \<mapsto> x)))) (v tx)"
  using assms by (auto simp: bolt_ok_def)

lemma upd_sel [simp]: "upd b k e w b' k' = (if b' = b \<and> k' = k then e else w b' k')"
  by (simp add: upd_def)

lemma row_of_simps [simp]: "row_of None = None" "row_of (Some (BRow x)) = Some x" "row_of (Some (BBucket f)) = None"
  by (simp_all add: row_of_def)

lemma nested_of_simps [simp]: "nested_of None = None" "nested_of (Some (BRow x)) = None" "nested_of (Some (BBucket f)) = Some f"
  by (simp_all add: nested_of_def)

lemma row_of_Some: "row_of e = Some x \<longleftrightarrow> e = Some (BRow x)"
  by (simp add: row_of_def split: option.split entry.split)

lemma walk_of_unique:
  assumes "walk_of m rows" "walk_of m rows'"
  shows "rows = rows'"
proof -
  have keys: "set (map fst r) = {k. m k \<noteq> None}" if "walk_of m r" for r
  proof (rule set_eqI)
    fix k
    have "k \<in> set (map fst r) \<longleftrightarrow> (\<exists>x. (k, x) \<in> set r)" by force
    then show "k \<in> set (map fst r) \<longleftrightarrow> k \<in> {k. m k \<noteq> None}" using that by (simp add: walk_of_def)
  qed
  have vals: "\<forall>x\<in>set r. snd x = row_of (m (fst x))" if "walk_of m r" for r using that by (auto simp: walk_of_def)
  have "map fst rows = map fst rows'"
    using keys [OF assms(1)] keys [OF assms(2)] assms by (intro sorted_distinct_set_unique) (auto simp: walk_of_def strict_sorted_iff)
  moreover have "map snd r = map (\<lambda>k. row_of (m k)) (map fst r)" if "walk_of m r" for r using vals [OF that] by simp
  ultimately show ?thesis using assms by (metis zip_map_fst_snd)
qed

text \<open>The rows under a prefix.\<close>

lemma walk_of_seek:
  assumes "walk_of m rows"
  shows "walk_of (\<lambda>k. if prefix p k then m k else None) (seek_prefix p rows)"
proof -
  have "sorted (map fst rows)" using assms by (auto simp: walk_of_def strict_sorted_iff)
  then have eq: "seek_prefix p rows = filter (\<lambda>(k, v). prefix p k) rows" by (rule seek_prefix_eq)
  have "sorted_wrt (<) (map fst (filter (\<lambda>(k, v). prefix p k) rows))"
    using assms by (auto simp: walk_of_def sorted_wrt_map intro: sorted_wrt_filter)
  then show ?thesis using assms by (auto simp: walk_of_def eq)
qed

section \<open>Effects\<close>

definition effect :: "('tx \<Rightarrow> db_view) \<Rightarrow> ('tx, 'a) act \<Rightarrow> (db_view \<Rightarrow> 'a \<Rightarrow> db_view \<Rightarrow> bool) \<Rightarrow> bool" where
  "effect v m R \<longleftrightarrow> (\<forall>s a s'. m s = (Inr a, s') \<longrightarrow> R (v (bs_tx s)) a (v (bs_tx s')))"

lemma effectI: "(\<And>s a s'. m s = (Inr a, s') \<Longrightarrow> R (v (bs_tx s)) a (v (bs_tx s'))) \<Longrightarrow> effect v m R"
  by (simp add: effect_def)

lemma effectD: "effect v m R \<Longrightarrow> m s = (Inr a, s') \<Longrightarrow> R (v (bs_tx s)) a (v (bs_tx s'))"
  by (simp add: effect_def)

lemma effect_mono: "effect v m R \<Longrightarrow> (\<And>w a w'. R w a w' \<Longrightarrow> S w a w') \<Longrightarrow> effect v m S"
  by (auto simp: effect_def)

lemma act_then_Inr: "act_then m f s = (Inr b, s'') \<longleftrightarrow> (\<exists>a s'. m s = (Inr a, s') \<and> f a s' = (Inr b, s''))"
  by (auto simp: act_then_def split: prod.splits sum.splits)

lemma effect_then:
  assumes "effect v m R" "\<And>a. effect v (f a) (S a)" "\<And>w a w' b w''. R w a w' \<Longrightarrow> S a w' b w'' \<Longrightarrow> T w b w''"
  shows "effect v (act_then m f) T"
  using assms(1,2) unfolding effect_def act_then_Inr by (blast intro: assms(3))

lemma effect_ok: "effect v (act_ok a) (\<lambda>w x w'. x = a \<and> w' = w)"
  by (simp add: effect_def act_ok_def)

lemma effect_fail: "effect v (act_fail e) R"
  by (simp add: effect_def act_fail_def)

lemma effect_pb: "effect v (act_pb r) (\<lambda>w a w'. r = Inr a \<and> w' = w)"
  by (auto simp: effect_def act_pb_def split: sum.splits)

lemma effect_read: "(\<And>s. R (v (bs_tx s)) (f s)) \<Longrightarrow> effect v (act_read f) (\<lambda>w a w'. R w a \<and> w' = w)"
  by (simp add: effect_def act_read_def)

lemma effect_cache: "effect v (act_cache f) (\<lambda>w a w'. w' = w)"
  by (auto simp: effect_def act_cache_def split: prod.splits)

lemma effect_outputs: "effect v (act_outputs f) (\<lambda>w a w'. w' = w)"
  by (auto simp: effect_def act_outputs_def split: prod.splits)

lemma effect_add_staged: "effect v (add_staged n) (\<lambda>w a w'. w' = w)"
  by (auto simp: effect_def add_staged_def)

lemma effect_tx: "(\<And>tx tx'. f tx = Inr tx' \<Longrightarrow> R (v tx) (v tx')) \<Longrightarrow> effect v (act_tx f) (\<lambda>w a w'. R w w')"
  by (auto simp: effect_def act_tx_def split: sum.splits)

lemma effect_get: "bolt_ok (be_db E) v \<Longrightarrow> effect v (act_get E b k) (\<lambda>w a w'. a = row_of (w b k) \<and> w' = w)"
  unfolding act_get_def by (intro effect_read) (simp add: bolt_okD(1))

lemma effect_walk: "bolt_ok (be_db E) v \<Longrightarrow> effect v (act_walk E b) (\<lambda>w rows w'. walk_of (w b) rows \<and> w' = w)"
  unfolding act_walk_def by (intro effect_read) (simp add: bolt_okD(3))

lemma effect_put: "bolt_ok (be_db E) v \<Longrightarrow> effect v (act_put E b k x) (\<lambda>w a w'. w' = upd b k (Some (BRow x)) w)"
  unfolding act_put_def by (intro effect_tx) (rule bolt_okD(4))

lemma effect_delete: "bolt_ok (be_db E) v \<Longrightarrow> effect v (act_delete E b k) (\<lambda>w a w'. w' = upd b k None w)"
  unfolding act_delete_def by (intro effect_tx) (rule bolt_okD(5))

lemma effect_deleteBlob:
  assumes "bolt_ok (be_db E) v"
  shows "effect v (deleteBlob E b k) (\<lambda>w a w'. w' = upd b k None w)"
  using bolt_okD(5,7) [OF assms] by (auto simp: effect_def deleteBlob_def act_tx_def split: sum.splits bolt_err.splits)

text \<open>The entry a blob is kept as.\<close>

definition blob_entry :: "int \<Rightarrow> bytes \<Rightarrow> entry" where
  "blob_entry row_max x = (if int (length x) \<le> row_max then BRow x else BBucket (\<lambda>k. if k = blobKey then Some x else None))"

lemma effect_putBlob:
  assumes "bolt_ok (be_db E) v"
  shows "effect v (putBlob E b k x) (\<lambda>w a w'. w' = upd b k (Some (blob_entry (be_row_max E) x)) w)"
proof (cases "int (length x) \<le> be_row_max E")
  case True
  then show ?thesis using effect_put [OF assms] by (simp add: putBlob_def blob_entry_def)
next
  case False
  have "effect v (act_then (act_tx (bt_create_bucket (be_db E) b k)) (\<lambda>_. act_tx (bt_nested_put (be_db E) b k blobKey x)))
      (\<lambda>w a w'. w' = upd b k (Some (blob_entry (be_row_max E) x)) w)"
  proof (rule effect_then)
    show "effect v (act_tx (bt_create_bucket (be_db E) b k)) (\<lambda>w a w'. w' = upd b k (Some (BBucket (\<lambda>_. None))) w)"
      using bolt_okD(6) [OF assms] by (intro effect_tx) blast
    show "effect v (act_tx (bt_nested_put (be_db E) b k blobKey x))
        (\<lambda>w a w'. \<exists>f. nested_of (w b k) = Some f \<and> w' = upd b k (Some (BBucket (f(blobKey \<mapsto> x)))) w)" for a :: unit
      by (intro effect_tx) (rule bolt_okD(8) [OF assms])
  qed (auto simp: blob_entry_def False upd_def fun_eq_iff)
  then show ?thesis using False by (simp add: putBlob_def)
qed

text \<open>A loop over a list.\<close>

lemma effect_each:
  assumes "\<And>x. x \<in> set xs \<Longrightarrow> effect v (f x) (\<lambda>w a w'. w' = F x w)"
  shows "effect v (act_each f xs) (\<lambda>w a w'. w' = fold F xs w)"
  using assms
proof (induction xs)
  case Nil
  then show ?case by (auto intro: effect_mono [OF effect_ok])
next
  case (Cons x xs)
  then show ?case unfolding act_each.simps by (intro effect_then [where R = "\<lambda>w a w'. w' = F x w" and S = "\<lambda>_ w a w'. w' = fold F xs w"]) auto
qed

lemma effect_each_rel:
  assumes "\<And>x. x \<in> set xs \<Longrightarrow> effect v (f x) (\<lambda>w a w'. R w w')" "\<And>w. R w w" "\<And>w w' w''. R w w' \<Longrightarrow> R w' w'' \<Longrightarrow> R w w''"
  shows "effect v (act_each f xs) (\<lambda>w a w'. R w w')"
  using assms(1)
proof (induction xs)
  case Nil
  then show ?case by (auto intro: effect_mono [OF effect_ok] assms(2))
next
  case (Cons x xs)
  then show ?case unfolding act_each.simps by (intro effect_then [where R = "\<lambda>w a w'. R w w'" and S = "\<lambda>_ w a w'. R w w'"]) (auto intro: assms(3))
qed

section \<open>Stages\<close>

definition run_part :: "run_id \<Rightarrow> db_view \<Rightarrow> bytes \<Rightarrow> entry option" where
  "run_part i w k = (if prefix (runPrefix i) k then w ActiveB k else None)"

lemma effect_run_rows:
  assumes "bolt_ok (be_db E) v"
  shows "effect v (run_rows E i) (\<lambda>w rows w'. walk_of (run_part i w) rows \<and> w' = w)"
  unfolding run_rows_def
proof (rule effect_then [OF effect_walk [OF assms] effect_ok])
  fix w rows w' b w''
  assume "walk_of (w ActiveB) rows \<and> w' = w" "b = seek_prefix (runPrefix i) rows \<and> w'' = w'"
  then show "walk_of (run_part i w) b \<and> w'' = w" using walk_of_seek [of "w ActiveB" rows "runPrefix i"] by (simp add: run_part_def [abs_def])
qed

lemma walk_of_keys: "walk_of m rows \<Longrightarrow> set (map fst rows) = {k. m k \<noteq> None}"
  by (force simp: walk_of_def)

lemma fold_delete: "fold (\<lambda>k. upd b k None) ks w = (\<lambda>b' k. if b' = b \<and> k \<in> set ks then None else w b' k)"
  by (induction ks arbitrary: w) (auto simp: fun_eq_iff)

definition clear_stage :: "run_id \<Rightarrow> db_view \<Rightarrow> db_view" where
  "clear_stage i w = (\<lambda>b k. if b = ActiveB \<and> prefix (runPrefix i) k \<or> b = CursorB \<and> k = i then None else w b k)"

lemma effect_deleteNonterminalStage:
  assumes B: "bolt_ok (be_db E) v"
  shows "effect v (deleteNonterminalStage E i) (\<lambda>w a w'. w' = clear_stage i w)"
  unfolding deleteNonterminalStage_def
proof (rule effect_then [OF effect_run_rows [OF B]])
  fix rows
  show "effect v (act_then (act_each (deleteBlob E ActiveB) (map fst rows)) (\<lambda>_. act_delete E CursorB i))
      (\<lambda>w a w'. w' = upd CursorB i None (fold (\<lambda>k. upd ActiveB k None) (map fst rows) w))"
    by (rule effect_then [OF effect_each [OF effect_deleteBlob [OF B]] effect_delete [OF B]]) simp
next
  fix w rows w' and b :: unit and w''
  assume "walk_of (run_part i w) rows \<and> w' = w" "w'' = upd CursorB i None (fold (\<lambda>k. upd ActiveB k None) (map fst rows) w')"
  then show "w'' = clear_stage i w" using walk_of_keys [of "run_part i w" rows]
    by (auto simp: fold_delete clear_stage_def run_part_def fun_eq_iff)
qed

definition clear_staged :: "run_id list \<Rightarrow> db_view \<Rightarrow> db_view" where
  "clear_staged ids w = fold (\<lambda>i w. upd StagedB i None (clear_stage i w)) ids w"

lemma clear_staged_sel:
  "clear_staged ids w b k = (if b = ActiveB \<and> (\<exists>i\<in>set ids. prefix (runPrefix i) k) \<or> (b = CursorB \<or> b = StagedB) \<and> k \<in> set ids then None else w b k)"
  by (induction ids arbitrary: w) (auto simp: clear_staged_def clear_stage_def)

lemma effect_drainStaged:
  assumes B: "bolt_ok (be_db E) v"
  shows "effect v (drainStaged E n) (\<lambda>w a w'. \<exists>ids. w' = clear_staged ids w \<and> a = int (length ids) \<and> distinct ids \<and> length ids \<le> n \<and>
    set ids \<subseteq> {k. w StagedB k \<noteq> None} \<and> (length ids < n \<longrightarrow> set ids = {k. w StagedB k \<noteq> None}))"
  unfolding drainStaged_def Let_def
proof (rule effect_then [OF effect_walk [OF B]])
  fix rows
  show "effect v (act_then (act_each (\<lambda>i. act_then (deleteNonterminalStage E i) (\<lambda>_. act_delete E StagedB i)) (take n (map fst rows)))
      (\<lambda>_. act_ok (int (length (take n (map fst rows))))))
      (\<lambda>w a w'. w' = clear_staged (take n (map fst rows)) w \<and> a = int (length (take n (map fst rows))))"
  proof (rule effect_then [OF effect_each effect_ok])
    fix i show "effect v (act_then (deleteNonterminalStage E i) (\<lambda>_. act_delete E StagedB i)) (\<lambda>w a w'. w' = upd StagedB i None (clear_stage i w))"
      by (rule effect_then [OF effect_deleteNonterminalStage [OF B] effect_delete [OF B]]) simp
  qed (simp add: clear_staged_def)
next
  fix w rows w' a w''
  assume r: "walk_of (w StagedB) rows \<and> w' = w"
    and e: "w'' = clear_staged (take n (map fst rows)) w' \<and> a = int (length (take n (map fst rows)))"
  have keys: "set (map fst rows) = {k. w StagedB k \<noteq> None}" "distinct (map fst rows)"
    using r walk_of_keys [of "w StagedB" rows] by (auto simp: walk_of_def strict_sorted_iff)
  show "\<exists>ids. w'' = clear_staged ids w \<and> a = int (length ids) \<and> distinct ids \<and> length ids \<le> n \<and> set ids \<subseteq> {k. w StagedB k \<noteq> None} \<and>
      (length ids < n \<longrightarrow> set ids = {k. w StagedB k \<noteq> None})"
    using r e keys set_take_subset [of n "map fst rows"]
    by (intro exI [of _ "take n (map fst rows)"]) (auto simp: distinct_take)
qed

lemma effect_writeDrain:
  assumes B: "bolt_ok (be_db E) v"
  shows "effect v (writeDrain E) (\<lambda>w a w'. \<exists>ids. w' = clear_staged ids w \<and> set ids \<subseteq> {k. w StagedB k \<noteq> None})"
proof -
  have "effect v (act_then (drainStaged E stageDrainPerWrite) (\<lambda>n. add_staged (- n)))
      (\<lambda>w a w'. \<exists>ids. w' = clear_staged ids w \<and> set ids \<subseteq> {k. w StagedB k \<noteq> None})"
    by (rule effect_then [OF effect_drainStaged [OF B] effect_add_staged]) blast
  moreover have "w = clear_staged [] w" for w by (simp add: clear_staged_def)
  ultimately show ?thesis unfolding effect_def writeDrain_def by (metis (no_types, lifting) Pair_inject empty_iff list.set(1) subsetI)
qed

section \<open>Writes of one run\<close>

text \<open>A change within the rows of a run: its meta row stays, its cursor stays or becomes a row.\<close>

definition run_local :: "run_id \<Rightarrow> db_view \<Rightarrow> db_view \<Rightarrow> bool" where
  "run_local i w w' \<longleftrightarrow> (\<forall>b k. w' b k \<noteq> w b k \<longrightarrow> b = ActiveB \<and> prefix (runPrefix i) k \<and> k \<noteq> activeKey i tagMeta \<or> b = CursorB \<and> k = i) \<and>
     (w' CursorB i = w CursorB i \<or> row_of (w' CursorB i) \<noteq> None)"

lemma run_local_refl [simp]: "run_local i w w"
  by (simp add: run_local_def)

lemma run_local_trans: "run_local i w w' \<Longrightarrow> run_local i w' w'' \<Longrightarrow> run_local i w w''"
  unfolding run_local_def by metis

lemma run_local_upd: "k \<noteq> [tagMeta] \<Longrightarrow> run_local i w (upd ActiveB (runPrefix i @ k) e w)"
  by (auto simp: run_local_def activeKey_def)

lemma effect_local_then:
  "effect v m (\<lambda>w a w'. run_local i w w') \<Longrightarrow> (\<And>a. effect v (f a) (\<lambda>w a w'. run_local i w w')) \<Longrightarrow>
   effect v (act_then m f) (\<lambda>w a w'. run_local i w w')"
  by (rule effect_then) (blast intro: run_local_trans)+

lemma effect_local_each:
  "(\<And>x. x \<in> set xs \<Longrightarrow> effect v (f x) (\<lambda>w a w'. run_local i w w')) \<Longrightarrow> effect v (act_each f xs) (\<lambda>w a w'. run_local i w w')"
  by (rule effect_each_rel) (auto intro: run_local_trans)

lemma effect_local_same: "effect v m (\<lambda>w a w'. R w a w' \<and> w' = w) \<Longrightarrow> effect v m (\<lambda>w a w'. run_local i w w')"
  by (erule effect_mono) simp

named_theorems local_rules \<open>actions that change the rows of one run only\<close>

lemma local_pure [local_rules]:
  "effect v (act_ok a) (\<lambda>w a w'. run_local i w w')" "effect v (act_fail e) (\<lambda>w a w'. run_local i w w')"
  "effect v (act_pb r) (\<lambda>w a w'. run_local i w w')"
  by (rule effect_mono [OF effect_ok], simp, rule effect_fail, rule effect_mono [OF effect_pb], simp)

lemma local_put [local_rules]:
  assumes "bolt_ok (be_db E) v" "k \<noteq> [tagMeta]"
  shows "effect v (act_put E ActiveB (runPrefix i @ k) x) (\<lambda>w a w'. run_local i w w')"
    "effect v (act_delete E ActiveB (runPrefix i @ k)) (\<lambda>w a w'. run_local i w w')"
    "effect v (deleteBlob E ActiveB (runPrefix i @ k)) (\<lambda>w a w'. run_local i w w')"
    "effect v (putBlob E ActiveB (runPrefix i @ k) x) (\<lambda>w a w'. run_local i w w')"
  by (rule effect_mono [OF effect_put [OF assms(1)]], simp add: run_local_upd [OF assms(2)])
    (rule effect_mono [OF effect_delete [OF assms(1)]], simp add: run_local_upd [OF assms(2)],
     rule effect_mono [OF effect_deleteBlob [OF assms(1)]], simp add: run_local_upd [OF assms(2)],
     rule effect_mono [OF effect_putBlob [OF assms(1)]], simp add: run_local_upd [OF assms(2)])

lemma local_put_cursor:
  assumes "bolt_ok (be_db E) v"
  shows "effect v (act_put E CursorB i x) (\<lambda>w a w'. run_local i w w' \<and> row_of (w' CursorB i) \<noteq> None)"
  by (rule effect_mono [OF effect_put [OF assms]]) (simp add: run_local_def)

lemma local_get:
  "bolt_ok (be_db E) v \<Longrightarrow> effect v (act_get E b k) (\<lambda>w a w'. run_local i w w')"
  by (rule effect_local_same [OF effect_get])

lemma tags_differ [simp]:
  "tagCancel \<noteq> tagMeta" "tagFailure \<noteq> tagMeta" "tagInput \<noteq> tagMeta" "tagOp \<noteq> tagMeta"
  "tagCancel \<noteq> tagFailure" "tagCancel \<noteq> tagInput" "tagCancel \<noteq> tagOp" "tagFailure \<noteq> tagInput" "tagFailure \<noteq> tagOp" "tagInput \<noteq> tagOp"
  by (simp_all add: tagCancel_def tagMeta_def tagFailure_def tagInput_def tagOp_def)

lemma local_putOnce:
  assumes B: "bolt_ok (be_db E) v" and k: "k = runPrefix i @ key" "key \<noteq> [tagMeta]"
  shows "effect v (putOnce E what i k x) (\<lambda>w a w'. run_local i w w')"
  unfolding putOnce_def k(1)
proof (rule effect_local_then [OF local_get [OF B]])
  fix a show "effect v (if a \<noteq> None then act_fail (ErrStore (''bbolt: '' @ what @ '' of run '' @ i @ '' already written'')) else act_put E ActiveB (runPrefix i @ key) x)
    (\<lambda>w a w'. run_local i w w')" by (simp add: local_pure local_put(1) [OF B k(2)])
qed

lemma local_putRootFailure:
  assumes B: "bolt_ok (be_db E) v"
  shows "effect v (putRootFailure E i f) (\<lambda>w a w'. run_local i w w')"
  unfolding putRootFailure_def
  by (rule effect_local_then [OF local_pure(3) local_putOnce [OF B, where key = "[tagFailure]"]]) (simp_all add: activeKey_def)

lemma effect_findOp:
  assumes B: "bolt_ok (be_db E) v"
  shows "effect v (findOp E i step p) (\<lambda>w a w'. w' = w \<and> (\<forall>k. a = Some k \<longrightarrow> prefix (opPrefix i) k \<and> is_op_row i step p k \<and> w ActiveB k \<noteq> None) \<and>
    (a = None \<longrightarrow> (\<forall>k. prefix (opPrefix i) k \<longrightarrow> is_op_row i step p k \<longrightarrow> w ActiveB k = None)))"
  unfolding findOp_def
proof (rule effect_then [OF effect_walk [OF B] effect_ok])
  fix w rows w' a w''
  assume r: "walk_of (w ActiveB) rows \<and> w' = w" and a: "a = find (is_op_row i step p) (map fst (seek_prefix (opPrefix i) rows)) \<and> w'' = w'"
  have keys: "k \<in> set (map fst (seek_prefix (opPrefix i) rows)) \<longleftrightarrow> prefix (opPrefix i) k \<and> w ActiveB k \<noteq> None" for k
    using walk_of_keys [OF walk_of_seek [OF conjunct1 [OF r]], of "opPrefix i"] by simp
  show "w'' = w \<and> (\<forall>k. a = Some k \<longrightarrow> prefix (opPrefix i) k \<and> is_op_row i step p k \<and> w ActiveB k \<noteq> None) \<and>
    (a = None \<longrightarrow> (\<forall>k. prefix (opPrefix i) k \<longrightarrow> is_op_row i step p k \<longrightarrow> w ActiveB k = None))"
  proof (cases a)
    case None
    then have "\<forall>k\<in>set (map fst (seek_prefix (opPrefix i) rows)). \<not> is_op_row i step p k" using a by (metis find_None_iff)
    then show ?thesis using r a keys None by blast
  next
    case (Some k)
    then have "k \<in> set (map fst (seek_prefix (opPrefix i) rows))" "is_op_row i step p k"
      using a by (metis find_Some_iff nth_mem)+
    moreover have "w'' = w" using r a by simp
    ultimately show ?thesis using keys unfolding Some by simp
  qed
qed

lemma op_keys_local:
  "prefix (opPrefix i) k \<Longrightarrow> \<exists>t. k = runPrefix i @ t \<and> t \<noteq> [tagMeta]"
  "\<exists>t. opKey i order step p = runPrefix i @ t \<and> t \<noteq> [tagMeta]"
  "k = runPrefix i @ t \<Longrightarrow> \<exists>t. stateKey k = runPrefix i @ t \<and> t \<noteq> [tagMeta]"
  by (auto simp: prefix_def opPrefix_def activeKey_def opKey_def stateKey_def stateSuffix_def append_eq_Cons_conv)

lemma effect_if: "(c \<Longrightarrow> effect v m R) \<Longrightarrow> (\<not> c \<Longrightarrow> effect v m' R) \<Longrightarrow> effect v (if c then m else m') R"
  by simp

lemma local_in_run:
  assumes B: "bolt_ok (be_db E) v" and k: "\<exists>t. k = runPrefix i @ t \<and> t \<noteq> [tagMeta]"
  shows "effect v (act_put E ActiveB k x) (\<lambda>w a w'. run_local i w w')" "effect v (act_delete E ActiveB k) (\<lambda>w a w'. run_local i w w')"
    "effect v (deleteBlob E ActiveB k) (\<lambda>w a w'. run_local i w w')" "effect v (putBlob E ActiveB k x) (\<lambda>w a w'. run_local i w w')"
  using k local_put [OF B] by blast+

lemma local_putOp [local_rules]:
  assumes B: "bolt_ok (be_db E) v"
  shows "effect v (putOp E i step p op) (\<lambda>w a w'. run_local i w w')"
proof -
  let ?key = "opKey i (or_order op) step p"
  let ?beside = "p = PhaseForward \<and> be_row_max E < blen (or_state op)"
  let ?rest = "\<lambda>b old. act_then (if old \<noteq> None \<and> old \<noteq> Some ?key then act_delete E ActiveB (the old) else act_ok ()) (\<lambda>_.
         act_then (act_put E ActiveB ?key b) (\<lambda>_.
           if p \<noteq> PhaseForward then act_ok ()
           else act_then (if old \<noteq> None then deleteBlob E ActiveB (stateKey (the old)) else act_ok ()) (\<lambda>_.
             if ?beside then putBlob E ActiveB (stateKey ?key) (the_bytes (or_state op)) else act_ok ())))"
  have rest: "effect v (?rest b old) (\<lambda>w a w'. run_local i w w')" if old: "\<forall>k. old = Some k \<longrightarrow> prefix (opPrefix i) k" for b old
  proof (intro effect_local_then effect_if local_pure local_in_run [OF B])
    show "\<exists>t. the old = runPrefix i @ t \<and> t \<noteq> [tagMeta]" if "old \<noteq> None \<and> old \<noteq> Some ?key" using that old op_keys_local(1) by auto
    show "\<exists>t. ?key = runPrefix i @ t \<and> t \<noteq> [tagMeta]" by (rule op_keys_local(2))
    show "\<exists>t. stateKey (the old) = runPrefix i @ t \<and> t \<noteq> [tagMeta]" if "old \<noteq> None" using that old op_keys_local(1,3) by (metis option.collapse)
    show "\<exists>t. stateKey ?key = runPrefix i @ t \<and> t \<noteq> [tagMeta]" using op_keys_local(2,3) by blast
  qed
  have found: "effect v (act_then (findOp E i step p) (?rest b)) (\<lambda>w a w'. run_local i w w')" for b
  proof (rule effectI)
    fix s a s' assume "act_then (findOp E i step p) (?rest b) s = (Inr a, s')"
    then obtain old s1 where f: "findOp E i step p s = (Inr old, s1)" and r: "?rest b old s1 = (Inr a, s')" unfolding act_then_Inr by blast
    have "v (bs_tx s1) = v (bs_tx s)" "\<forall>k. old = Some k \<longrightarrow> prefix (opPrefix i) k" using effectD [OF effect_findOp [OF B] f] by blast+
    then show "run_local i (v (bs_tx s)) (v (bs_tx s'))" using effectD [OF rest r] by simp
  qed
  show ?thesis unfolding putOp_def Let_def by (rule effect_local_then [OF local_pure(3) found])
qed

lemma effect_conj: "effect v m R \<Longrightarrow> effect v m S \<Longrightarrow> effect v m (\<lambda>w a w'. R w a w' \<and> S w a w')"
  by (simp add: effect_def)

text \<open>Once the cursor is a row, changes of the run keep it one.\<close>

definition run_kept :: "run_id \<Rightarrow> db_view \<Rightarrow> db_view \<Rightarrow> bool" where
  "run_kept i w w' \<longleftrightarrow> run_local i w w' \<and> (row_of (w CursorB i) \<noteq> None \<longrightarrow> row_of (w' CursorB i) \<noteq> None)"

lemma run_local_kept: "run_local i w w' \<Longrightarrow> run_kept i w w'"
  by (auto simp: run_kept_def run_local_def)

lemma effect_commit_progress:
  assumes B: "bolt_ok (be_db E) v"
  shows "effect v (commit_progress E i t) (\<lambda>w a w'. run_local i w w')"
  unfolding commit_progress_def
proof (intro effect_local_then)
  show "effect v (case t_failure t of None \<Rightarrow> act_ok () | Some f \<Rightarrow> putRootFailure E i f) (\<lambda>w a w'. run_local i w w')"
    by (cases "t_failure t") (simp_all add: local_pure local_putRootFailure [OF B])
  show "effect v (act_put E CursorB i b) (\<lambda>w a w'. run_local i w w')" for b
    by (rule effect_mono [OF local_put_cursor [OF B]]) simp
  show "effect v (act_each (\<lambda>ow. putOp E i (ow_step ow) (ow_phase ow) (ow_record ow)) (t_ops t)) (\<lambda>w a w'. run_local i w w')"
    by (rule effect_local_each) (rule local_putOp [OF B])
qed (rule local_pure)

lemma local_putStep:
  assumes B: "bolt_ok (be_db E) v"
  shows "effect v (putStep E i x) (\<lambda>w a w'. run_local i w w')"
proof (cases x)
  case (Pair step sr)
  show ?thesis unfolding putStep_def Pair prod.case
    by (intro effect_local_each effect_if local_putOp [OF B] local_pure)
qed

text \<open>A new run: its meta row, then rows of its own, with a cursor.\<close>

definition put_meta :: "run_id \<Rightarrow> bytes \<Rightarrow> db_view \<Rightarrow> db_view" where
  "put_meta i b w = upd ActiveB (activeKey i tagMeta) (Some (BRow b)) w"

lemma effect_putRun:
  assumes B: "bolt_ok (be_db E) v" and live: "\<not> terminal rec"
  shows "effect v (putRun E rec) (\<lambda>w a w'. \<exists>b. MarshalRunMeta (be_proto E) rec = Inr b \<and>
    run_local (r_run rec) (put_meta (r_run rec) b w) w' \<and> row_of (w' CursorB (r_run rec)) \<noteq> None)"
proof -
  let ?i = "r_run rec" and ?L = "\<lambda>w a w'. run_local (r_run rec) w w'"
  let ?input = "if 0 < blen (r_input rec) then putBlob E ActiveB (activeKey ?i tagInput) (the_bytes (r_input rec)) else act_ok ()"
  let ?tail = "\<lambda>cursor. act_then (act_put E CursorB ?i cursor) (\<lambda>_.
       act_then (act_each (putStep E ?i) (r_steps rec)) (\<lambda>_.
       act_then (case r_failure rec of None \<Rightarrow> act_ok () | Some f \<Rightarrow> putRootFailure E ?i f) (\<lambda>_.
         case r_cancel rec of None \<Rightarrow> act_ok ()
         | Some c \<Rightarrow> act_then (act_pb (MarshalCancel (be_proto E) c)) (\<lambda>b. putOnce E ''cancel request'' ?i (activeKey ?i tagCancel) b))))"
  have tail: "effect v (?tail cursor) (\<lambda>w a w'. run_local ?i w w' \<and> row_of (w' CursorB ?i) \<noteq> None)" for cursor
  proof (rule effect_then [OF local_put_cursor [OF B]])
    show "effect v (act_then (act_each (putStep E ?i) (r_steps rec)) (\<lambda>_.
       act_then (case r_failure rec of None \<Rightarrow> act_ok () | Some f \<Rightarrow> putRootFailure E ?i f) (\<lambda>_.
         case r_cancel rec of None \<Rightarrow> act_ok ()
         | Some c \<Rightarrow> act_then (act_pb (MarshalCancel (be_proto E) c)) (\<lambda>b. putOnce E ''cancel request'' ?i (activeKey ?i tagCancel) b)))) ?L"
      by (cases "r_failure rec"; cases "r_cancel rec")
        (auto intro!: effect_local_then effect_local_each local_putStep [OF B] local_pure local_putRootFailure [OF B]
          local_putOnce [OF B, where key = "[tagCancel]"] simp: activeKey_def)
  qed (metis run_local_trans run_local_kept run_kept_def)
  have input: "effect v ?input ?L"
    by (intro effect_if local_pure local_in_run [OF B]) (auto simp: activeKey_def)
  have rest: "effect v (act_then ?input (\<lambda>_. act_then (act_pb (MarshalCursor (be_proto E) (first_cursor rec))) ?tail))
      (\<lambda>w a w'. run_local ?i w w' \<and> row_of (w' CursorB ?i) \<noteq> None)"
  proof (rule effect_then [OF input])
    show "effect v (act_then (act_pb (MarshalCursor (be_proto E) (first_cursor rec))) ?tail)
        (\<lambda>w a w'. run_local ?i w w' \<and> row_of (w' CursorB ?i) \<noteq> None)" for a :: unit
      by (rule effect_then [OF effect_pb tail]) blast
  qed (blast intro: run_local_trans)
  have once: "effect v (putOnce E ''meta'' ?i (activeKey ?i tagMeta) b) (\<lambda>w a w'. w' = put_meta ?i b w)" for b
    unfolding putOnce_def
  proof (rule effect_then [OF effect_get [OF B]])
    fix old show "effect v (if old \<noteq> None then act_fail (ErrStore (''bbolt: '' @ ''meta'' @ '' of run '' @ ?i @ '' already written''))
        else act_put E ActiveB (activeKey ?i tagMeta) b) (\<lambda>w a w'. w' = put_meta ?i b w)"
      unfolding put_meta_def by (intro effect_if effect_fail effect_put [OF B])
  qed simp
  have "effect v (act_then (act_pb (MarshalRunMeta (be_proto E) rec)) (\<lambda>meta. act_then (putOnce E ''meta'' ?i (activeKey ?i tagMeta) meta)
      (\<lambda>_. act_then ?input (\<lambda>_. act_then (act_pb (MarshalCursor (be_proto E) (first_cursor rec))) ?tail))))
      (\<lambda>w a w'. \<exists>b. MarshalRunMeta (be_proto E) rec = Inr b \<and> run_local ?i (put_meta ?i b w) w' \<and> row_of (w' CursorB ?i) \<noteq> None)"
  proof (rule effect_then [OF effect_pb])
    show "effect v (act_then (putOnce E ''meta'' ?i (activeKey ?i tagMeta) b)
      (\<lambda>_. act_then ?input (\<lambda>_. act_then (act_pb (MarshalCursor (be_proto E) (first_cursor rec))) ?tail)))
      (\<lambda>w a w'. run_local ?i (put_meta ?i b w) w' \<and> row_of (w' CursorB ?i) \<noteq> None)" for b
      by (rule effect_then [OF once rest]) blast
  qed blast
  then show ?thesis using live by (simp add: putRun_def Let_def)
qed

text \<open>The terminal row, the output beside it, and the expiry key.\<close>

definition put_terminal :: "run_id \<Rightarrow> bytes \<Rightarrow> entry option \<Rightarrow> gotime \<Rightarrow> db_view \<Rightarrow> db_view" where
  "put_terminal i b out t w = upd ExpiryB (expiryKey t i) (Some (BRow []))
     (if out = None then upd TerminalB i (Some (BRow b)) w else upd TerminalB (outputKey i) out (upd TerminalB i (Some (BRow b)) w))"

lemma effect_putTerminal:
  assumes B: "bolt_ok (be_db E) v"
  shows "effect v (putTerminal E rec) (\<lambda>w a w'. \<exists>b. let beside = be_row_max E < blen (r_output rec) in MarshalTerminal (be_proto E) rec beside = Inr b \<and>
    w' = put_terminal (r_run rec) b (if beside then Some (blob_entry (be_row_max E) (the_bytes (r_output rec))) else None) (r_updated_at rec) w)"
  unfolding putTerminal_def Let_def
proof (rule effect_then [OF effect_pb])
  let ?beside = "be_row_max E < blen (r_output rec)"
  let ?out = "if ?beside then Some (blob_entry (be_row_max E) (the_bytes (r_output rec))) else None"
  have out: "effect v (if ?beside then putBlob E TerminalB (outputKey (r_run rec)) (the_bytes (r_output rec)) else act_ok ())
      (\<lambda>w a w'. w' = (if ?out = None then w else upd TerminalB (outputKey (r_run rec)) ?out w))"
    using effect_putBlob [OF B] effect_mono [OF effect_ok] by (cases ?beside) (simp_all add: effect_def act_ok_def)
  show "effect v (act_then (act_put E TerminalB (r_run rec) b) (\<lambda>_.
     act_then (if ?beside then putBlob E TerminalB (outputKey (r_run rec)) (the_bytes (r_output rec)) else act_ok ()) (\<lambda>_.
       act_put E ExpiryB (expiryKey (r_updated_at rec) (r_run rec)) [])))
    (\<lambda>w a w'. w' = put_terminal (r_run rec) b ?out (r_updated_at rec) w)" for b
  proof (rule effect_then [OF effect_put [OF B]])
    show "effect v (act_then (if ?beside then putBlob E TerminalB (outputKey (r_run rec)) (the_bytes (r_output rec)) else act_ok ()) (\<lambda>_.
       act_put E ExpiryB (expiryKey (r_updated_at rec) (r_run rec)) []))
      (\<lambda>w a w'. w' = upd ExpiryB (expiryKey (r_updated_at rec) (r_run rec)) (Some (BRow [])) (if ?out = None then w else upd TerminalB (outputKey (r_run rec)) ?out w))" for a :: unit
      by (rule effect_then [OF out effect_put [OF B]]) simp
  qed (simp add: put_terminal_def)
qed auto

section \<open>Reads\<close>

lemma effect_same_then:
  "effect v m (\<lambda>w a w'. w' = w) \<Longrightarrow> (\<And>a. effect v (f a) (\<lambda>w a w'. w' = w)) \<Longrightarrow> effect v (act_then m f) (\<lambda>w a w'. w' = w)"
  unfolding effect_def act_then_Inr by metis

lemma same_pure:
  "effect v (act_ok a) (\<lambda>w a w'. w' = w)" "effect v (act_pb r) (\<lambda>w a w'. w' = w)" "effect v (act_read f) (\<lambda>w a w'. w' = w)"
  by (simp_all add: effect_def act_ok_def act_pb_def act_read_def split: sum.split)

lemma same_blobAt: "effect v (blobAt E b k x) (\<lambda>w a w'. w' = w)"
  by (simp add: blobAt_def blobFromBucket_def same_pure)

lemma same_getBlob: "effect v (getBlob E b k) (\<lambda>w a w'. w' = w)"
proof -
  have "effect v (case dropWhile (\<lambda>(k', v). k' < k) rows of [] \<Rightarrow> act_ok None | (k', v) # _ \<Rightarrow> if k' \<noteq> k then act_ok None else blobAt E b k v)
      (\<lambda>w a w'. w' = w)" for rows
    by (simp add: same_pure same_blobAt split: list.split)
  then show ?thesis unfolding getBlob_def act_walk_def by (intro effect_same_then same_pure)
qed

lemma rule_same: "effect v m (\<lambda>w a w'. R w a \<and> w' = w) \<Longrightarrow> effect v m (\<lambda>w a w'. w' = w)"
  by (erule effect_mono) simp

text \<open>Every row keeps the identity read from the meta row.\<close>

definition same_id :: "run_record \<Rightarrow> run_record \<Rightarrow> bool" where
  "same_id r r' \<longleftrightarrow> r_run r' = r_run r \<and> r_pipeline r' = r_pipeline r \<and> r_resource r' = r_resource r"

lemma same_id_simps [simp]: "same_id r r" "same_id r (put_op k p op r') = same_id r r'" "same_id r (put_state k st r') = same_id r r'"
  "same_id r (overlay cur r') = same_id r r'"
  by (simp_all add: same_id_def put_state_def overlay_def Let_def)

lemma same_id_fields [simp]: "same_id r (r'\<lparr>r_input := a\<rparr>) = same_id r r'" "same_id r (r'\<lparr>r_cancel := b\<rparr>) = same_id r r'"
  "same_id r (r'\<lparr>r_failure := c\<rparr>) = same_id r r'"
  by (simp_all add: same_id_def)

definition keeps_id :: "walk_state \<Rightarrow> db_view \<Rightarrow> walk_state \<Rightarrow> db_view \<Rightarrow> bool" where
  "keeps_id x w y w' \<longleftrightarrow> w' = w \<and> same_id (wr_rec x) (wr_rec y)"

lemma keeps_id_then:
  "effect v m (\<lambda>w a w'. w' = w) \<Longrightarrow> (\<And>a. effect v (f a) (keeps_id x)) \<Longrightarrow> effect v (act_then m f) (keeps_id x)"
  by (rule effect_then [where R = "\<lambda>w a w'. w' = w" and S = "\<lambda>a. keeps_id x"]) simp_all

lemma keeps_id_ok: "same_id (wr_rec x) (wr_rec y) \<Longrightarrow> effect v (act_ok y) (keeps_id x)"
  by (rule effect_mono [OF effect_ok]) (simp add: keeps_id_def)

lemma keeps_walk_row: "effect v (walk_row E i ci row x) (keeps_id x)"
proof -
  have state: "effect v (walk_state_row E i k u rest x) (keeps_id x)" for k u rest
  proof (cases "state_step k rest x")
    case (Some step)
    have "effect v (case cached of
       Some st \<Rightarrow> act_ok (x\<lparr>wr_rec := put_state step (Some st) (wr_rec x)\<rparr>)
     | None \<Rightarrow> act_then (blobAt E ActiveB k u) (\<lambda>st.
         act_ok (x\<lparr>wr_rec := put_state step st (wr_rec x), wr_fill := map_option (fill_state step st) (wr_fill x)\<rparr>))) (keeps_id x)" for cached
      by (cases cached) (auto intro!: keeps_id_ok keeps_id_then same_blobAt)
    then show ?thesis unfolding walk_state_row_def Some option.case by (intro keeps_id_then effect_cache)
  qed (simp add: walk_state_row_def effect_fail)
  have op: "effect v (walk_op_row E k u rest x) (keeps_id x)" for k u rest
    by (auto simp: walk_op_row_def effect_fail split: option.split intro!: keeps_id_then keeps_id_ok same_pure)
  show ?thesis
    by (auto simp: walk_row_def effect_fail state op split: prod.split option.split intro!: keeps_id_then keeps_id_ok same_pure same_blobAt effect_if)
qed

lemma keeps_walk_rows: "effect v (walk_rows E i ci rows x) (keeps_id x)"
proof (induction rows arbitrary: x)
  case Nil
  show ?case by (simp add: keeps_id_ok)
next
  case (Cons row rows)
  show ?case unfolding walk_rows.simps
    by (rule effect_then [OF keeps_walk_row Cons.IH]) (auto simp: keeps_id_def same_id_def)
qed

lemma effect_overlayCursor:
  assumes B: "bolt_ok (be_db E) v"
  shows "effect v (overlayCursor E rec) (\<lambda>w a w'. w' = w \<and> same_id rec a)"
  unfolding overlayCursor_def
proof (rule effect_then [OF effect_get [OF B]])
  fix cb show "effect v (case cb of None \<Rightarrow> act_fail (ErrStore (''bbolt: run '' @ r_run rec @ '' has no cursor''))
      | Some b \<Rightarrow> act_then (act_pb (UnmarshalCursor (be_proto E) b)) (\<lambda>cur. act_ok (overlay cur rec))) (\<lambda>w a w'. w' = w \<and> same_id rec a)"
    by (cases cb) (auto intro: effect_fail effect_then [OF effect_pb effect_ok])
qed auto

text \<open>The meta row under the run's prefix.\<close>

definition meta_row_at :: "db_view \<Rightarrow> run_id \<Rightarrow> bytes option" where
  "meta_row_at w i = row_of (w ActiveB (activeKey i tagMeta))"

lemma meta_first:
  assumes rows: "walk_of (run_part i w) ((k, x) # rows)" and k: "length (runPrefix i) < length k" "k ! length (runPrefix i) = tagMeta"
    and meta: "meta_row_at w i = Some b"
  shows "k = activeKey i tagMeta" "x = Some b"
proof -
  let ?m = "activeKey i tagMeta"
  have pm: "prefix (runPrefix i) ?m" "w ActiveB ?m = Some (BRow b)" using meta by (simp_all add: meta_row_at_def row_of_Some activeKey_def)
  then have "?m \<in> set (map fst ((k, x) # rows))" unfolding walk_of_keys [OF rows] by (simp add: run_part_def)
  moreover have sorted: "\<forall>k'\<in>set (map fst rows). k < k'" using rows by (auto simp: walk_of_def)
  moreover have "prefix (runPrefix i) k" using rows by (auto simp: walk_of_def run_part_def split: if_splits)
  then obtain t where t: "k = runPrefix i @ t" by (auto simp: prefix_def)
  then obtain t' where "t = tagMeta # t'" using k by (cases t) (auto simp: nth_append)
  then have "\<not> k < ?m" using t by (cases t') (simp_all add: activeKey_def append_less)
  ultimately show eq: "k = ?m" by auto
  have "(k, x) \<in> set ((k, x) # rows)" by simp
  then have "x = row_of (run_part i w k)" using rows unfolding walk_of_def by blast
  then show "x = Some b" using pm by (simp add: eq run_part_def)
qed

lemma effect_getNonterminal:
  assumes B: "bolt_ok (be_db E) v"
  shows "effect v (getNonterminal E i) (\<lambda>w rec w'. w' = w \<and> (\<forall>b. meta_row_at w i = Some b \<longrightarrow>
    (\<exists>rec0. UnmarshalRunMetaInto (be_proto E) b zero_record = Inr rec0 \<and> same_id rec0 rec)))"
proof -
  let ?R = "\<lambda>w rec w'. w' = w \<and> (\<forall>b. meta_row_at w i = Some b \<longrightarrow> (\<exists>rec0. UnmarshalRunMetaInto (be_proto E) b zero_record = Inr rec0 \<and> same_id rec0 rec))"
  let ?w0 = "\<lambda>rec cached. \<lparr>wr_rec = rec, wr_fill = (if cached then None else Some no_blobs), wr_key = [], wr_step = []\<rparr>"
  let ?finish = "\<lambda>w. act_then (case wr_fill w of None \<Rightarrow> act_ok () | Some rb \<Rightarrow> act_cache (\<lambda>c. ((), bc_fill c i rb))) (\<lambda>_. overlayCursor E (wr_rec w))"
  have finish: "effect v (?finish y) (\<lambda>w a w'. w' = w \<and> same_id (wr_rec y) a)" for y
  proof (rule effect_then [OF _ effect_overlayCursor [OF B]])
    show "effect v (case wr_fill y of None \<Rightarrow> act_ok () | Some rb \<Rightarrow> act_cache (\<lambda>c. ((), bc_fill c i rb))) (\<lambda>w a w'. w' = w)"
      by (cases "wr_fill y") (auto intro: same_pure effect_cache)
  qed auto
  have walk: "effect v (act_then (walk_rows E i ci (tl rows) (?w0 rec cached)) ?finish) (\<lambda>w a w'. w' = w \<and> same_id rec a)" for ci rows rec cached
    by (rule effect_then [OF keeps_walk_rows finish]) (auto simp: keeps_id_def same_id_def)
  have rest: "effect v (act_then (meta_row E i rows) (\<lambda>rec. act_then (walk_rows E i ci (tl rows) (?w0 rec cached)) ?finish))
      (\<lambda>w rec w'. w' = w \<and> (walk_of (run_part i w) rows \<longrightarrow> (\<forall>b. meta_row_at w i = Some b \<longrightarrow>
         (\<exists>rec0. UnmarshalRunMetaInto (be_proto E) b zero_record = Inr rec0 \<and> same_id rec0 rec))))" for rows ci cached
  proof (rule effect_then [OF _ walk])
    show "effect v (meta_row E i rows) (\<lambda>w rec w'. w' = w \<and> (walk_of (run_part i w) rows \<longrightarrow> (\<forall>b. meta_row_at w i = Some b \<longrightarrow>
        UnmarshalRunMetaInto (be_proto E) b zero_record = Inr rec)))"
    proof (cases rows)
      case (Cons row rest)
      obtain k x where row: "row = (k, x)" by (cases row)
      have "effect v (act_pb (UnmarshalRunMetaInto (be_proto E) (the_bytes x) zero_record)) (\<lambda>w rec w'. w' = w \<and>
          (walk_of (run_part i w) rows \<longrightarrow> (\<forall>b. meta_row_at w i = Some b \<longrightarrow> UnmarshalRunMetaInto (be_proto E) b zero_record = Inr rec)))"
        if "length (runPrefix i) < length k" "k ! length (runPrefix i) = tagMeta"
      proof (rule effect_mono [OF effect_pb], intro conjI impI allI)
        fix w rec w' b assume "UnmarshalRunMetaInto (be_proto E) (the_bytes x) zero_record = Inr rec \<and> w' = w"
          "walk_of (run_part i w) rows" "meta_row_at w i = Some b"
        then show "UnmarshalRunMetaInto (be_proto E) b zero_record = Inr rec"
          using meta_first(2) [of i w k x rest b] that by (simp add: Cons row the_bytes_def)
      qed simp
      then show ?thesis by (auto simp: meta_row_def Cons row effect_fail intro!: effect_if)
    qed (simp add: meta_row_def effect_fail)
  qed blast
  show ?thesis unfolding getNonterminal_def
  proof (rule effect_then [OF effect_cache])
    fix a show "effect v (case a of (cachedInput, cached) \<Rightarrow> act_then (run_rows E i) (\<lambda>rows. act_then (meta_row E i rows) (\<lambda>rec.
       act_then (walk_rows E i cachedInput (tl rows) (?w0 rec cached)) ?finish))) ?R"
    proof (cases a)
      case (Pair ci cached)
      show ?thesis unfolding Pair prod.case by (rule effect_then [OF effect_run_rows [OF B] rest]) blast
    qed
  qed simp
qed

lemma effect_getRun:
  assumes B: "bolt_ok (be_db E) v"
  shows "effect v (getRun E i) (\<lambda>w a w'. w' = w)"
proof -
  have live: "effect v (getNonterminal E i) (\<lambda>w a w'. w' = w)" by (rule effect_mono [OF effect_getNonterminal [OF B]]) simp
  have out: "effect v (if out \<noteq> None then act_ok (rec\<lparr>r_output := out\<rparr>) else act_then (getBlob E TerminalB (outputKey i)) (\<lambda>v.
      act_then (act_outputs (\<lambda>c. ((), bc_fill c i (no_blobs\<lparr>rb_output := v\<rparr>)))) (\<lambda>_. act_ok (rec\<lparr>r_output := v\<rparr>)))) (\<lambda>w a w'. w' = w)" for out rec
    by (intro effect_if effect_same_then same_pure same_getBlob effect_outputs)
  have "effect v (case tb of Some b \<Rightarrow> act_then (act_pb (UnmarshalTerminalInto (be_proto E) b zero_record)) (\<lambda>(rec, beside).
       if \<not> beside then act_ok rec
       else act_then (act_outputs (\<lambda>c. bc_output c i)) (\<lambda>out. if out \<noteq> None then act_ok (rec\<lparr>r_output := out\<rparr>)
         else act_then (getBlob E TerminalB (outputKey i)) (\<lambda>v.
           act_then (act_outputs (\<lambda>c. ((), bc_fill c i (no_blobs\<lparr>rb_output := v\<rparr>)))) (\<lambda>_. act_ok (rec\<lparr>r_output := v\<rparr>)))))
     | None \<Rightarrow> getNonterminal E i) (\<lambda>w a w'. w' = w)" for tb
    by (cases tb) (auto intro!: live effect_same_then same_pure effect_outputs same_getBlob)
  then show ?thesis unfolding getRun_def act_get_def by (intro effect_same_then same_pure)
qed

end
