(* ===== verification/Bolt_Rows.thy ===== *)
theory Bolt_Rows
  imports Bolt_Rules
begin

text \<open>
  What the rows of one run in the bbolt store stand for. The keys of the active bucket under a run are
  those of seven kinds of rows, which sort in this order; \<open>stored_run\<close> is what the rows of a run say,
  \<open>renders\<close> relates a database to it, and the lemmas show that \<open>getNonterminal\<close> reads exactly it,
  through the caches, without an error, and how a write of an operation changes it.
\<close>

section \<open>Kinds of rows\<close>

datatype row_key = MetaK | CancelK | FailureK | InputK | OpK u32 step_id phase | StateK u32 step_id

fun key_rest :: "row_key \<Rightarrow> bytes" where
  "key_rest MetaK = [tagMeta]"
| "key_rest CancelK = [tagCancel]"
| "key_rest FailureK = [tagFailure]"
| "key_rest InputK = [tagInput]"
| "key_rest (OpK order step p) = tagOp # op_rest order step p"
| "key_rest (StateK order step) = tagOp # op_rest order step PhaseForward @ stateSuffix"

definition key_of :: "run_id \<Rightarrow> row_key \<Rightarrow> bytes" where
  "key_of i rk = runPrefix i @ key_rest rk"

definition two_phase :: "phase \<Rightarrow> bool" where
  "two_phase p \<longleftrightarrow> p = PhaseForward \<or> p = PhaseUnwind"

fun key_ok :: "row_key \<Rightarrow> bool" where
  "key_ok (OpK order step p) \<longleftrightarrow> nul_free step \<and> two_phase p"
| "key_ok (StateK order step) \<longleftrightarrow> nul_free step"
| "key_ok _ \<longleftrightarrow> True"

lemma key_of_eqs:
  "activeKey i tagMeta = key_of i MetaK" "activeKey i tagCancel = key_of i CancelK" "activeKey i tagFailure = key_of i FailureK"
  "activeKey i tagInput = key_of i InputK" "opKey i order step p = key_of i (OpK order step p)"
  "stateKey (key_of i (OpK order step PhaseForward)) = key_of i (StateK order step)"
  by (simp_all add: key_of_def activeKey_def opKey_eq stateKey_def)

lemma one_phase_two: "two_phase p \<Longrightarrow> one_phase p = p"
  by (auto simp: two_phase_def one_phase_def)

lemma op_rest_inj:
  assumes "two_phase p" "two_phase p'" "op_rest order step p = op_rest order' step' p'"
  shows "order = order' \<and> step = step' \<and> p = p'"
proof -
  have "Some (order, step, p) = Some (order', step', p')"
    using splitOpRest_eq [of order step p] splitOpRest_eq [of order' step' p'] unfolding assms(3)
    by (simp only: one_phase_two [OF assms(1)] one_phase_two [OF assms(2)])
  then show ?thesis by simp
qed

lemma op_rest_no_suffix: "\<not> suffix stateSuffix (op_rest order step p)"
  by (simp add: suffix_def op_rest_def stateSuffix_def phaseByte_def)

lemma op_rest_state: "suffix stateSuffix (op_rest order step p @ stateSuffix)"
  by (simp add: suffix_def)

lemma tags [simp]:
  "tagMeta \<noteq> tagCancel" "tagMeta \<noteq> tagFailure" "tagMeta \<noteq> tagInput" "tagMeta \<noteq> tagOp" "tagCancel \<noteq> tagMeta" "tagCancel \<noteq> tagFailure"
  "tagCancel \<noteq> tagInput" "tagCancel \<noteq> tagOp" "tagFailure \<noteq> tagMeta" "tagFailure \<noteq> tagCancel" "tagFailure \<noteq> tagInput" "tagFailure \<noteq> tagOp"
  "tagInput \<noteq> tagMeta" "tagInput \<noteq> tagCancel" "tagInput \<noteq> tagFailure" "tagInput \<noteq> tagOp" "tagOp \<noteq> tagMeta" "tagOp \<noteq> tagCancel" "tagOp \<noteq> tagFailure" "tagOp \<noteq> tagInput"
  by (simp_all add: tagMeta_def tagCancel_def tagFailure_def tagInput_def tagOp_def)

lemma key_rest_inj:
  assumes "key_ok rk" "key_ok rk'" "key_rest rk = key_rest rk'"
  shows "rk = rk'"
proof -
  have op_state: "op_rest order step p \<noteq> op_rest order' step' p' @ stateSuffix" for order step p order' step' p'
    using op_rest_no_suffix op_rest_state by metis
  have two: "two_phase PhaseForward" by (simp add: two_phase_def)
  have ops: "key_ok (OpK order step p) \<Longrightarrow> key_ok (OpK order' step' p') \<Longrightarrow> op_rest order step p = op_rest order' step' p' \<Longrightarrow> order = order' \<and> step = step' \<and> p = p'"
    for order step p order' step' p' by (rule op_rest_inj) simp_all
  note states = op_rest_inj [OF two two]
  show ?thesis
  proof (cases rk)
    case (OpK order step p)
    show ?thesis
    proof (cases rk')
      case (OpK order' step' p')
      with assms \<open>rk = OpK order step p\<close> ops [of order step p order' step' p'] show ?thesis by simp
    qed (use assms OpK op_state in simp_all)
  next
    case (StateK order step)
    show ?thesis
    proof (cases rk')
      case (OpK order' step' p')
      with assms StateK op_state [of order' step' p' order step PhaseForward] show ?thesis by simp
    next
      case (StateK order' step')
      with assms \<open>rk = StateK order step\<close> states [of order step order' step'] show ?thesis by simp
    qed (use assms StateK in simp_all)
  qed (use assms in \<open>cases rk'; simp\<close>)+
qed

lemma key_of_inj: "key_ok rk \<Longrightarrow> key_ok rk' \<Longrightarrow> key_of i rk = key_of i rk' \<longleftrightarrow> rk = rk'"
  using key_rest_inj by (auto simp: key_of_def)

lemma key_of_prefix [simp]: "prefix (runPrefix i) (key_of i rk)"
  by (simp add: key_of_def)

lemma key_of_run: "nul_free i \<Longrightarrow> nul_free j \<Longrightarrow> i \<noteq> j \<Longrightarrow> key_of i rk \<noteq> key_of j rk'"
  using runPrefix_prefix [of i j "key_rest rk'"] key_of_prefix [of i rk] by (metis key_of_def)

lemma meta_least: "rk \<noteq> MetaK \<Longrightarrow> key_of i MetaK < key_of i rk"
  by (cases rk) (simp_all add: key_of_def append_less tagMeta_def tagCancel_def tagFailure_def tagInput_def tagOp_def less_char_def)

lemma op_before_state: "key_of i (OpK order step PhaseForward) < key_of i (StateK order step)"
proof -
  have "s < s @ stateSuffix" for s :: bytes by (induction s) (simp_all add: stateSuffix_def)
  then show ?thesis by (simp add: key_of_def append_less)
qed

section \<open>What the rows say\<close>

record stored_run =
  st_meta :: run_record
  st_input :: "bytes option"
  st_cancel :: "cancel_request option"
  st_failure :: "failure option"
  st_ops :: "step_id \<Rightarrow> phase \<Rightarrow> operation_record option"
  st_cursor :: cursor

text \<open>The meta row decodes to the identity alone.\<close>

definition bare :: "run_id \<Rightarrow> run_record \<Rightarrow> bool" where
  "bare i r \<longleftrightarrow> r = zero_record\<lparr>r_run := i, r_pipeline := r_pipeline r, r_resource := r_resource r, r_created_at := r_created_at r,
     r_annotations := r_annotations r\<rparr>"

lemma bareD:
  assumes "bare i r"
  shows "r_run r = i" "r_input r = None" "r_cancel r = None" "r_failure r = None" "r_steps r = []" "r_outcome r = None" "r_output r = None"
proof -
  note eq = assms [unfolded bare_def]
  show "r_run r = i" "r_input r = None" "r_cancel r = None" "r_failure r = None" "r_steps r = []" "r_outcome r = None" "r_output r = None"
    by (subst eq, simp add: zero_record_def)+
qed

text \<open>Whether the state of an operation is kept beside its row.\<close>

definition beside :: "int \<Rightarrow> phase \<Rightarrow> operation_record \<Rightarrow> bool" where
  "beside row_max p op \<longleftrightarrow> p = PhaseForward \<and> row_max < blen (or_state op)"

definition row_op :: "int \<Rightarrow> phase \<Rightarrow> operation_record \<Rightarrow> operation_record" where
  "row_op row_max p op = (if beside row_max p op then op\<lparr>or_state := None\<rparr> else op)"

definition decodes :: "(bytes \<Rightarrow> goerr + 'a) \<Rightarrow> 'a option \<Rightarrow> entry option \<Rightarrow> bool" where
  "decodes f x e \<longleftrightarrow> (case x of None \<Rightarrow> e = None | Some a \<Rightarrow> \<exists>b. e = Some (BRow b) \<and> f b = Inr a)"

fun entry_ok :: "('t, 'tx) bolt_env \<Rightarrow> stored_run \<Rightarrow> row_key \<Rightarrow> entry option \<Rightarrow> bool" where
  "entry_ok E A MetaK e \<longleftrightarrow> decodes (\<lambda>b. UnmarshalRunMetaInto (be_proto E) b zero_record) (Some (st_meta A)) e"
| "entry_ok E A CancelK e \<longleftrightarrow> decodes (UnmarshalCancel (be_proto E)) (st_cancel A) e"
| "entry_ok E A FailureK e \<longleftrightarrow> decodes (UnmarshalFailureRecord (be_proto E)) (st_failure A) e"
| "entry_ok E A InputK e \<longleftrightarrow> e = map_option (blob_entry (be_row_max E)) (st_input A)"
| "entry_ok E A (OpK order step p) e \<longleftrightarrow> decodes (UnmarshalOperationRecord (be_proto E))
     (case st_ops A step p of None \<Rightarrow> None | Some op \<Rightarrow> if or_order op = order then Some (row_op (be_row_max E) p op) else None) e"
| "entry_ok E A (StateK order step) e \<longleftrightarrow> e = (case st_ops A step PhaseForward of None \<Rightarrow> None
     | Some op \<Rightarrow> if or_order op = order \<and> beside (be_row_max E) PhaseForward op then Some (blob_entry (be_row_max E) (the_bytes (or_state op))) else None)"

definition rows_under :: "run_id \<Rightarrow> db_view \<Rightarrow> bool" where
  "rows_under i w \<longleftrightarrow> (\<forall>k. prefix (runPrefix i) k \<longrightarrow> w ActiveB k \<noteq> None \<longrightarrow> (\<exists>rk. key_ok rk \<and> k = key_of i rk))"

definition ops_named :: "stored_run \<Rightarrow> bool" where
  "ops_named A \<longleftrightarrow> (\<forall>k p op. st_ops A k p = Some op \<longrightarrow> nul_free k \<and> two_phase p \<and> or_state op \<noteq> Some [])"

definition renders :: "('t, 'tx) bolt_env \<Rightarrow> run_id \<Rightarrow> stored_run \<Rightarrow> db_view \<Rightarrow> bool" where
  "renders E i A w \<longleftrightarrow> bare i (st_meta A) \<and> ops_named A \<and> rows_under i w \<and> (\<forall>rk. key_ok rk \<longrightarrow> entry_ok E A rk (w ActiveB (key_of i rk)))
     \<and> decodes (UnmarshalCursor (be_proto E)) (Some (st_cursor A)) (w CursorB i)"

definition stored_op :: "stored_run \<Rightarrow> step_id \<Rightarrow> phase \<Rightarrow> operation_record" where
  "stored_op A k p = (case st_ops A k p of None \<Rightarrow> zero_op | Some op \<Rightarrow> op)"

text \<open>The fields of the record, and what the cursor lays over them.\<close>

definition stored_base :: "stored_run \<Rightarrow> run_record" where
  "stored_base A = (st_meta A)\<lparr>r_input := st_input A, r_cancel := st_cancel A, r_failure := st_failure A, r_steps := []\<rparr>"

definition same_ops :: "(step_id \<Rightarrow> phase \<Rightarrow> operation_record) \<Rightarrow> run_record \<Rightarrow> bool" where
  "same_ops f r \<longleftrightarrow> (\<forall>k p. two_phase p \<longrightarrow> rec_op r k p = f k p)"

definition reads_as :: "stored_run \<Rightarrow> run_record \<Rightarrow> bool" where
  "reads_as A r \<longleftrightarrow> (\<exists>r0. r0\<lparr>r_steps := []\<rparr> = stored_base A \<and> same_ops (stored_op A) r0 \<and> gm_ok (r_steps r0) \<and> r = overlay (st_cursor A) r0)"

section \<open>The walk\<close>

definition seen_op :: "int \<Rightarrow> stored_run \<Rightarrow> row_key set \<Rightarrow> step_id \<Rightarrow> phase \<Rightarrow> operation_record" where
  "seen_op row_max A seen k p = (case st_ops A k p of None \<Rightarrow> zero_op
     | Some op \<Rightarrow> if OpK (or_order op) k p \<notin> seen then zero_op
         else if beside row_max p op \<and> StateK (or_order op) k \<notin> seen then op\<lparr>or_state := None\<rparr> else op)"

definition seen_base :: "stored_run \<Rightarrow> row_key set \<Rightarrow> run_record" where
  "seen_base A seen = (st_meta A)\<lparr>r_input := (if InputK \<in> seen then st_input A else None), r_cancel := (if CancelK \<in> seen then st_cancel A else None),
     r_failure := (if FailureK \<in> seen then st_failure A else None), r_steps := []\<rparr>"

definition walked :: "('t, 'tx) bolt_env \<Rightarrow> run_id \<Rightarrow> blob_view \<Rightarrow> stored_run \<Rightarrow> row_key set \<Rightarrow> walk_state \<Rightarrow> bool" where
  "walked E i bv A seen x \<longleftrightarrow> (wr_rec x)\<lparr>r_steps := []\<rparr> = seen_base A seen
     \<and> same_ops (seen_op (be_row_max E) A seen) (wr_rec x) \<and> gm_ok (r_steps (wr_rec x))
     \<and> (wr_key x = [] \<or> (\<exists>order p. key_ok (OpK order (wr_step x) p) \<and> wr_key x = key_of i (OpK order (wr_step x) p)))
     \<and> (\<forall>rb. wr_fill x = Some rb \<longrightarrow> gm_ok (rb_states rb) \<and> holds_blobs bv i rb)"

text \<open>What a coherent cache may hold for the run.\<close>

definition blobs_of :: "run_id \<Rightarrow> stored_run \<Rightarrow> blob_view \<Rightarrow> bool" where
  "blobs_of i A bv \<longleftrightarrow> bv_input bv i = st_input A \<and> (\<forall>k op. st_ops A k PhaseForward = Some op \<longrightarrow> bv_state bv i k = or_state op)"

lemma decodes_Some: "decodes f x e \<Longrightarrow> e \<noteq> None \<Longrightarrow> \<exists>a b. x = Some a \<and> e = Some (BRow b) \<and> f b = Inr a"
  by (auto simp: decodes_def split: option.splits)

lemma the_bytes_Some [simp]: "the_bytes (Some b) = b"
  by (simp add: the_bytes_def)

lemma blobAt_entry:
  assumes B: "bolt_ok (be_db E) v" and e: "v (bs_tx s) b k = Some (blob_entry n x)"
  shows "blobAt E b k (row_of (v (bs_tx s) b k)) s = (Inr (Some x), s)"
  using bolt_okD(2) [OF B, of "bs_tx s" b k]
  by (auto simp: blobAt_def e blob_entry_def act_ok_def blobFromBucket_def act_read_def blobKey_def split: if_splits)

lemma split_key: "nul_free i \<Longrightarrow> splitActiveKey (key_of i rk) = Some (i, hd (key_rest rk), tl (key_rest rk))"
  unfolding key_of_def using splitActiveKey_eq [of i "hd (key_rest rk)" "tl (key_rest rk)"] by (cases rk) simp_all

lemma same_opsI: "(\<And>k p. two_phase p \<Longrightarrow> rec_op r k p = f k p) \<Longrightarrow> same_ops f r"
  by (simp add: same_ops_def)

lemma same_opsD: "same_ops f r \<Longrightarrow> two_phase p \<Longrightarrow> rec_op r k p = f k p"
  by (simp add: same_ops_def)

lemma same_ops_put: "same_ops f r \<Longrightarrow> two_phase p \<Longrightarrow> same_ops (f(k := (f k)(p := op))) (put_op k p op r)"
  by (auto simp: same_ops_def two_phase_def)

lemma same_ops_upd [simp]:
  "same_ops f (r\<lparr>r_input := a\<rparr>) = same_ops f r" "same_ops f (r\<lparr>r_cancel := b\<rparr>) = same_ops f r" "same_ops f (r\<lparr>r_failure := c\<rparr>) = same_ops f r"
  by (simp_all add: same_ops_def rec_op_def rec_step_def)

lemma put_op_upto [simp]: "(put_op k p op r)\<lparr>r_steps := []\<rparr> = r\<lparr>r_steps := []\<rparr>"
  by (simp add: put_op_def)

lemma seen_insert_field:
  assumes "rk \<in> {MetaK, CancelK, FailureK, InputK}"
  shows "seen_op m A (insert rk seen) = seen_op m A seen"
  using assms by (intro ext) (auto simp: seen_op_def split: option.split)

lemma seen_base_insert:
  "seen_base A (insert InputK seen) = (seen_base A seen)\<lparr>r_input := st_input A\<rparr>"
  "seen_base A (insert CancelK seen) = (seen_base A seen)\<lparr>r_cancel := st_cancel A\<rparr>"
  "seen_base A (insert FailureK seen) = (seen_base A seen)\<lparr>r_failure := st_failure A\<rparr>"
  "seen_base A (insert MetaK seen) = seen_base A seen"
  "seen_base A (insert (OpK order k p) seen) = seen_base A seen"
  "seen_base A (insert (StateK order k) seen) = seen_base A seen"
  by (simp_all add: seen_base_def split del: if_split)

lemma walked_base: "walked E i bv A seen x \<Longrightarrow> (wr_rec x)\<lparr>r_steps := []\<rparr> = seen_base A seen"
  by (simp add: walked_def)

lemma walked_fields:
  assumes w: "walked E i bv A seen x"
  shows "(\<And>rb. fill = Some rb \<Longrightarrow> gm_ok (rb_states rb) \<and> holds_blobs bv i rb) \<Longrightarrow>
      walked E i bv A (insert InputK seen) (x\<lparr>wr_rec := (wr_rec x)\<lparr>r_input := st_input A\<rparr>, wr_fill := fill\<rparr>)"
    and "walked E i bv A (insert CancelK seen) (x\<lparr>wr_rec := (wr_rec x)\<lparr>r_cancel := st_cancel A\<rparr>\<rparr>)"
    and "walked E i bv A (insert FailureK seen) (x\<lparr>wr_rec := (wr_rec x)\<lparr>r_failure := st_failure A\<rparr>\<rparr>)"
proof -
  have "(wr_rec x)\<lparr>r_input := st_input A, r_steps := []\<rparr> = (seen_base A seen)\<lparr>r_input := st_input A\<rparr>"
    "(wr_rec x)\<lparr>r_cancel := st_cancel A, r_steps := []\<rparr> = (seen_base A seen)\<lparr>r_cancel := st_cancel A\<rparr>"
    "(wr_rec x)\<lparr>r_failure := st_failure A, r_steps := []\<rparr> = (seen_base A seen)\<lparr>r_failure := st_failure A\<rparr>"
    unfolding walked_base [OF w, symmetric] by simp_all
  then show "(\<And>rb. fill = Some rb \<Longrightarrow> gm_ok (rb_states rb) \<and> holds_blobs bv i rb) \<Longrightarrow>
      walked E i bv A (insert InputK seen) (x\<lparr>wr_rec := (wr_rec x)\<lparr>r_input := st_input A\<rparr>, wr_fill := fill\<rparr>)"
    "walked E i bv A (insert CancelK seen) (x\<lparr>wr_rec := (wr_rec x)\<lparr>r_cancel := st_cancel A\<rparr>\<rparr>)"
    "walked E i bv A (insert FailureK seen) (x\<lparr>wr_rec := (wr_rec x)\<lparr>r_failure := st_failure A\<rparr>\<rparr>)"
    using w by (simp_all add: walked_def seen_base_insert seen_insert_field)
qed

lemma walked_op:
  assumes w: "walked E i bv A seen x" and op: "st_ops A k p = Some op" and ok: "key_ok (OpK (or_order op) k p)"
    and later: "p = PhaseForward \<Longrightarrow> StateK (or_order op) k \<notin> seen"
  shows "walked E i bv A (insert (OpK (or_order op) k p) seen)
    (x\<lparr>wr_rec := put_op k p (row_op (be_row_max E) p op) (wr_rec x), wr_key := key_of i (OpK (or_order op) k p), wr_step := k\<rparr>)"
proof -
  let ?m = "be_row_max E" and ?rk = "OpK (or_order op) k p"
  have "(seen_op ?m A seen)(k := (seen_op ?m A seen k)(p := row_op ?m p op)) = seen_op ?m A (insert ?rk seen)"
    using op later by (intro ext) (auto simp: seen_op_def row_op_def beside_def split: option.split)
  moreover have "same_ops (seen_op ?m A seen) (wr_rec x)" "two_phase p" using w ok by (simp_all add: walked_def)
  ultimately have "same_ops (seen_op ?m A (insert ?rk seen)) (put_op k p (row_op ?m p op) (wr_rec x))" using same_ops_put by metis
  then show ?thesis using w ok by (auto simp: walked_def seen_base_insert)
qed

lemma walked_state:
  assumes w: "walked E i bv A seen x" and op: "st_ops A k PhaseForward = Some op" and bs: "beside (be_row_max E) PhaseForward op"
    and seen: "OpK (or_order op) k PhaseForward \<in> seen" and fill: "\<And>rb. fill = Some rb \<Longrightarrow> gm_ok (rb_states rb) \<and> holds_blobs bv i rb"
  shows "walked E i bv A (insert (StateK (or_order op) k) seen) (x\<lparr>wr_rec := put_state k (or_state op) (wr_rec x), wr_fill := fill\<rparr>)"
proof -
  let ?m = "be_row_max E" and ?rk = "StateK (or_order op) k"
  have two: "two_phase PhaseForward" by (simp add: two_phase_def)
  have so: "same_ops (seen_op ?m A seen) (wr_rec x)" using w by (simp add: walked_def)
  have "(rec_op (wr_rec x) k PhaseForward)\<lparr>or_state := or_state op\<rparr> = op"
    unfolding same_opsD [OF so two] using op seen by (auto simp: seen_op_def)
  then have put: "put_state k (or_state op) (wr_rec x) = put_op k PhaseForward op (wr_rec x)" by (simp add: put_state_def)
  have "(seen_op ?m A seen)(k := (seen_op ?m A seen k)(PhaseForward := op)) = seen_op ?m A (insert ?rk seen)"
    using op seen bs by (intro ext) (auto simp: seen_op_def beside_def split: option.split)
  then have "same_ops (seen_op ?m A (insert ?rk seen)) (put_op k PhaseForward op (wr_rec x))"
    using same_ops_put [OF so two] by metis
  then show ?thesis unfolding put using w fill by (simp add: walked_def seen_base_insert)
qed

text \<open>One row.\<close>

definition row_at :: "run_id \<Rightarrow> db_view \<Rightarrow> row_key \<Rightarrow> bytes \<times> bytes option" where
  "row_at i w rk = (key_of i rk, row_of (w ActiveB (key_of i rk)))"

lemma state_step_key:
  assumes "key_ok (StateK order k)" and "wr_key x = [] \<or> (\<exists>order p. key_ok (OpK order (wr_step x) p) \<and> wr_key x = key_of i (OpK order (wr_step x) p))"
  shows "state_step (key_of i (StateK order k)) (op_rest order k PhaseForward @ stateSuffix) x = Some k"
proof -
  have two: "two_phase PhaseForward" by (simp add: two_phase_def)
  have cut: "take (length (key_of i (StateK order k)) - length stateSuffix) (key_of i (StateK order k)) = key_of i (OpK order k PhaseForward)"
    by (simp add: key_of_def)
  have "wr_step x = k" if eq: "key_of i (OpK order k PhaseForward) = wr_key x"
  proof -
    have "wr_key x \<noteq> []" unfolding eq [symmetric] by (simp add: key_of_def)
    then obtain o' p where ok: "key_ok (OpK o' (wr_step x) p)" "wr_key x = key_of i (OpK o' (wr_step x) p)" using assms(2) by blast
    then have "OpK order k PhaseForward = OpK o' (wr_step x) p"
      using eq key_of_inj [of "OpK order k PhaseForward" "OpK o' (wr_step x) p" i] assms(1) two by simp
    then show ?thesis by simp
  qed
  then show ?thesis
    unfolding state_step_def cut by (simp add: splitOpRest_eq one_phase_two [OF two])
qed

lemma act_cache_state:
  assumes "coherent bv (bs_blobs s)"
  shows "\<exists>c r. act_cache (\<lambda>c. bc_state c i k) s = (Inr r, s\<lparr>bs_blobs := c\<rparr>) \<and> coherent bv c \<and> (\<forall>b. r = Some b \<longrightarrow> bv_state bv i k = Some b)"
proof -
  have "coherent bv (snd (bc_state (bs_blobs s) i k))" using bc_lookup_coherent [OF assms] by simp
  then show ?thesis using coherent_reads(2) [OF assms, of i k]
    by (intro exI [of _ "snd (bc_state (bs_blobs s) i k)"] exI [of _ "fst (bc_state (bs_blobs s) i k)"]) (simp add: act_cache_def case_prod_beta)
qed

lemma holds_fill_input: "holds_blobs bv i rb \<Longrightarrow> bv_input bv i = b \<Longrightarrow> holds_blobs bv i (rb\<lparr>rb_input := b\<rparr>)"
  by (simp add: holds_blobs_def)

lemma holds_fill_state: "holds_blobs bv i rb \<Longrightarrow> gm_ok (rb_states rb) \<Longrightarrow> bv_state bv i k = st \<Longrightarrow>
    holds_blobs bv i (fill_state k st rb) \<and> gm_ok (rb_states (fill_state k st rb))"
  by (auto simp: holds_blobs_def fill_state_def split: option.split)

text \<open>A database and a cache that both hold what the rows of a run say.\<close>

definition reading :: "('t, 'tx) bolt_env \<Rightarrow> ('tx \<Rightarrow> db_view) \<Rightarrow> run_id \<Rightarrow> stored_run \<Rightarrow> blob_view \<Rightarrow> db_view \<Rightarrow> bool" where
  "reading E v i A bv w \<longleftrightarrow> bolt_ok (be_db E) v \<and> nul_free i \<and> 0 \<le> be_row_max E \<and> renders E i A w \<and> blobs_of i A bv"

lemma readingD:
  assumes "reading E v i A bv w"
  shows "bolt_ok (be_db E) v" "nul_free i" "0 \<le> be_row_max E" "renders E i A w" "blobs_of i A bv"
    "key_ok rk \<Longrightarrow> entry_ok E A rk (w ActiveB (key_of i rk))"
  using assms by (simp_all add: reading_def renders_def)

lemma walk_input:
  assumes rd: "reading E v i A bv w" and s: "v (bs_tx s) = w" and x: "walked E i bv A seen x" and e: "w ActiveB (key_of i InputK) \<noteq> None" and ci: "\<And>b. ci = Some b \<Longrightarrow> st_input A = Some b"
  shows "\<exists>x'. walk_row E i ci (row_at i w InputK) x s = (Inr x', s) \<and> walked E i bv A (insert InputK seen) x'"
proof -
  note B = readingD(1) [OF rd] and i = readingD(2) [OF rd] and bv = readingD(5) [OF rd] and entry = readingD(6) [OF rd]
  obtain b where b: "st_input A = Some b" "w ActiveB (key_of i InputK) = Some (blob_entry (be_row_max E) b)"
    using entry [of InputK] e by auto
  show ?thesis
  proof (cases ci)
    case (Some b')
    then have "walk_row E i ci (row_at i w InputK) x s = (Inr (x\<lparr>wr_rec := (wr_rec x)\<lparr>r_input := st_input A\<rparr>, wr_fill := wr_fill x\<rparr>), s)"
      using ci by (simp add: walk_row_def row_at_def split_key [OF i] act_ok_def)
    with walked_fields(1) [OF x, of "wr_fill x"] x show ?thesis by (auto simp: walked_def)
  next
    case None
    let ?fill = "map_option (rb_input_update (\<lambda>_. st_input A)) (wr_fill x)"
    have "walk_row E i ci (row_at i w InputK) x s = (Inr (x\<lparr>wr_rec := (wr_rec x)\<lparr>r_input := st_input A\<rparr>, wr_fill := ?fill\<rparr>), s)"
      using None b(1) blobAt_entry [OF B, of s ActiveB "key_of i InputK" "be_row_max E" b] b(2) s
      by (simp add: walk_row_def row_at_def split_key [OF i] act_ok_def act_then_def)
    moreover have "gm_ok (rb_states rb) \<and> holds_blobs bv i rb" if "?fill = Some rb" for rb
      using that x bv by (auto simp: walked_def blobs_of_def intro!: holds_fill_input)
    ultimately show ?thesis using walked_fields(1) [OF x, of ?fill] by blast
  qed
qed

lemma walk_facts:
  assumes rd: "reading E v i A bv w" and x: "walked E i bv A seen x" and rk: "rk = CancelK \<or> rk = FailureK" and e: "w ActiveB (key_of i rk) \<noteq> None"
  shows "\<exists>x'. walk_row E i ci (row_at i w rk) x s = (Inr x', s) \<and> walked E i bv A (insert rk seen) x'"
proof -
  note i = readingD(2) [OF rd] and entry = readingD(6) [OF rd]
  show ?thesis using rk
proof
  assume rk: "rk = CancelK"
  then obtain c b where c: "st_cancel A = Some c" "w ActiveB (key_of i CancelK) = Some (BRow b)" "UnmarshalCancel (be_proto E) b = Inr c"
    using entry [of CancelK] e decodes_Some by fastforce
  then have "walk_row E i ci (row_at i w rk) x s = (Inr (x\<lparr>wr_rec := (wr_rec x)\<lparr>r_cancel := st_cancel A\<rparr>\<rparr>), s)"
    by (simp add: rk walk_row_def row_at_def split_key [OF i] act_ok_def act_then_def act_pb_def)
  then show ?thesis using walked_fields(2) [OF x] rk by blast
next
  assume rk: "rk = FailureK"
  then obtain c b where c: "st_failure A = Some c" "w ActiveB (key_of i FailureK) = Some (BRow b)" "UnmarshalFailureRecord (be_proto E) b = Inr c"
    using entry [of FailureK] e decodes_Some by fastforce
  then have "walk_row E i ci (row_at i w rk) x s = (Inr (x\<lparr>wr_rec := (wr_rec x)\<lparr>r_failure := st_failure A\<rparr>\<rparr>), s)"
    by (simp add: rk walk_row_def row_at_def split_key [OF i] act_ok_def act_then_def act_pb_def)
  then show ?thesis using walked_fields(3) [OF x] rk by blast
qed
qed

lemma walk_op:
  assumes rd: "reading E v i A bv w" and x: "walked E i bv A seen x" and ok: "key_ok (OpK order k p)" and e: "w ActiveB (key_of i (OpK order k p)) \<noteq> None"
    and later: "p = PhaseForward \<Longrightarrow> StateK order k \<notin> seen"
  shows "\<exists>x'. walk_row E i ci (row_at i w (OpK order k p)) x s = (Inr x', s) \<and> walked E i bv A (insert (OpK order k p) seen) x'"
proof -
  note i = readingD(2) [OF rd] and entry = readingD(6) [OF rd]
  obtain op b where op: "st_ops A k p = Some op" "or_order op = order" and b: "w ActiveB (key_of i (OpK order k p)) = Some (BRow b)"
    "UnmarshalOperationRecord (be_proto E) b = Inr (row_op (be_row_max E) p op)"
    using entry [OF ok] e by (auto simp: decodes_def split: option.splits if_splits)
  have "walk_row E i ci (row_at i w (OpK order k p)) x s =
      (Inr (x\<lparr>wr_rec := put_op k p (row_op (be_row_max E) p op) (wr_rec x), wr_key := key_of i (OpK (or_order op) k p), wr_step := k\<rparr>), s)"
    using ok b op(2) by (simp add: walk_row_def row_at_def split_key [OF i] op_rest_no_suffix walk_op_row_def splitOpRest_eq one_phase_two act_then_def act_pb_def act_ok_def)
  with walked_op [OF x op(1)] ok later op(2) show ?thesis by auto
qed

lemma walk_state:
  assumes rd: "reading E v i A bv w" and s: "v (bs_tx s) = w" and x: "walked E i bv A seen x" and ok: "key_ok (StateK order k)" and e: "w ActiveB (key_of i (StateK order k)) \<noteq> None"
    and seen: "OpK order k PhaseForward \<in> seen" and coh: "coherent bv (bs_blobs s)"
  shows "\<exists>x' c. walk_row E i ci (row_at i w (StateK order k)) x s = (Inr x', s\<lparr>bs_blobs := c\<rparr>) \<and> coherent bv c
    \<and> walked E i bv A (insert (StateK order k) seen) x'"
proof -
  note B = readingD(1) [OF rd] and i = readingD(2) [OF rd] and max = readingD(3) [OF rd] and bv = readingD(5) [OF rd] and entry = readingD(6) [OF rd]
  obtain op where op: "st_ops A k PhaseForward = Some op" "or_order op = order" and bs: "beside (be_row_max E) PhaseForward op"
    and b: "w ActiveB (key_of i (StateK order k)) = Some (blob_entry (be_row_max E) (the_bytes (or_state op)))"
    using entry [OF ok] e by (auto split: option.splits if_splits)
  then obtain st where st: "or_state op = Some st" using max by (auto simp: beside_def blen_def split: option.splits)
  have step: "state_step (key_of i (StateK order k)) (op_rest order k PhaseForward @ stateSuffix) x = Some k"
    using ok x by (intro state_step_key) (simp_all add: walked_def)
  obtain c r where cache: "act_cache (\<lambda>c. bc_state c i k) s = (Inr r, s\<lparr>bs_blobs := c\<rparr>)" "coherent bv c" "\<And>b. r = Some b \<Longrightarrow> bv_state bv i k = Some b"
    using act_cache_state [OF coh] by blast
  have bvs: "bv_state bv i k = Some st" using bv op(1) st by (simp add: blobs_of_def)
  have fill: "gm_ok (rb_states rb) \<and> holds_blobs bv i rb" if "map_option (fill_state k (Some st)) (wr_fill x) = Some rb \<or> wr_fill x = Some rb" for rb
    using that x holds_fill_state [OF _ _ bvs] by (auto simp: walked_def)
  have row: "walk_row E i ci (row_at i w (StateK order k)) x s =
      walk_state_row E i (key_of i (StateK order k)) (row_of (w ActiveB (key_of i (StateK order k)))) (op_rest order k PhaseForward @ stateSuffix) x s"
    using ok by (simp add: walk_row_def row_at_def split_key [OF i] op_rest_state)
  show ?thesis
  proof (cases r)
    case (Some b')
    then have "walk_row E i ci (row_at i w (StateK order k)) x s = (Inr (x\<lparr>wr_rec := put_state k (or_state op) (wr_rec x), wr_fill := wr_fill x\<rparr>), s\<lparr>bs_blobs := c\<rparr>)"
      using cache bvs st unfolding row by (simp add: walk_state_row_def step act_then_def act_ok_def)
    with walked_state [OF x op(1) bs _ fill] seen op(2) cache(2) show ?thesis by blast
  next
    case None
    have "blobAt E ActiveB (key_of i (StateK order k)) (row_of (w ActiveB (key_of i (StateK order k)))) (s\<lparr>bs_blobs := c\<rparr>) = (Inr (Some st), s\<lparr>bs_blobs := c\<rparr>)"
      using blobAt_entry [OF B, of "s\<lparr>bs_blobs := c\<rparr>" ActiveB "key_of i (StateK order k)" "be_row_max E" st] b st s by (simp add: the_bytes_def)
    then have "walk_row E i ci (row_at i w (StateK order k)) x s =
        (Inr (x\<lparr>wr_rec := put_state k (or_state op) (wr_rec x), wr_fill := map_option (fill_state k (Some st)) (wr_fill x)\<rparr>), s\<lparr>bs_blobs := c\<rparr>)"
      using cache None st unfolding row by (simp add: walk_state_row_def step act_then_def act_ok_def)
    with walked_state [OF x op(1) bs _ fill] seen op(2) cache(2) show ?thesis by blast
  qed
qed

text \<open>All rows.\<close>

definition keys_in :: "run_id \<Rightarrow> (bytes \<times> bytes option) list \<Rightarrow> row_key set" where
  "keys_in i rows = {rk. key_ok rk \<and> key_of i rk \<in> fst ` set rows}"

lemma keys_in_snoc: "key_ok rk \<Longrightarrow> keys_in i (pre @ [row_at i w rk]) = insert rk (keys_in i pre)"
  using key_of_inj [of _ rk i] by (auto simp: keys_in_def row_at_def)

lemma walk_row_any:
  assumes rd: "reading E v i A bv w" and s: "v (bs_tx s) = w" and x: "walked E i bv A seen x" and coh: "coherent bv (bs_blobs s)"
    and rk: "key_ok rk" "rk \<noteq> MetaK" and e: "w ActiveB (key_of i rk) \<noteq> None" and ci: "\<And>b. ci = Some b \<Longrightarrow> st_input A = Some b"
    and before: "\<And>order k. rk = StateK order k \<Longrightarrow> OpK order k PhaseForward \<in> seen"
    and after: "\<And>order k. rk = OpK order k PhaseForward \<Longrightarrow> StateK order k \<notin> seen"
  shows "\<exists>x' c. walk_row E i ci (row_at i w rk) x s = (Inr x', s\<lparr>bs_blobs := c\<rparr>) \<and> coherent bv c \<and> walked E i bv A (insert rk seen) x'"
proof -
  have same: "s\<lparr>bs_blobs := bs_blobs s\<rparr> = s" by simp
  show ?thesis
  proof (cases rk)
    case CancelK
    then show ?thesis using walk_facts [OF rd x _ e, of ci s] coh same by metis
  next
    case FailureK
    then show ?thesis using walk_facts [OF rd x _ e, of ci s] coh same by metis
  next
    case InputK
    then show ?thesis using walk_input [OF rd s x _ ci] e coh same by metis
  next
    case (OpK order k p)
    then show ?thesis using walk_op [OF rd x, of order k p ci s] rk e after coh same by metis
  next
    case (StateK order k)
    then show ?thesis using walk_state [OF rd s x, of order k ci] rk e before coh by blast
  qed (use rk in simp)
qed

lemma row_of_rows:
  assumes rd: "reading E v i A bv w" and rows: "walk_of (run_part i w) rows" and row: "row \<in> set rows"
  obtains rk where "key_ok rk" "row = row_at i w rk" "w ActiveB (key_of i rk) \<noteq> None"
proof -
  obtain k x where kx: "row = (k, x)" by (cases row)
  then have k: "run_part i w k \<noteq> None" "x = row_of (run_part i w k)" using rows row by (auto simp: walk_of_def)
  then have "prefix (runPrefix i) k" "w ActiveB k \<noteq> None" by (auto simp: run_part_def split: if_splits)
  then obtain rk where "key_ok rk" "k = key_of i rk" using readingD(4) [OF rd] by (auto simp: renders_def rows_under_def)
  with k kx show thesis by (intro that [of rk]) (auto simp: row_at_def run_part_def)
qed

lemma rows_in_order:
  assumes "walk_of (run_part i w) (pre @ row # rest)" and "k < fst row" and "run_part i w k \<noteq> None"
  shows "k \<in> fst ` set pre"
proof -
  have "k \<in> fst ` set (pre @ row # rest)" using walk_of_keys [OF assms(1)] assms(3) by auto
  moreover have "k \<noteq> fst row" "\<forall>y \<in> set rest. k \<noteq> fst y"
    using assms(1,2) by (force simp: walk_of_def sorted_wrt_append)+
  ultimately show ?thesis by auto
qed

lemma walk_all:
  assumes rd: "reading E v i A bv w" and s: "v (bs_tx s) = w" and ci: "\<And>b. ci = Some b \<Longrightarrow> st_input A = Some b"
    and all: "walk_of (run_part i w) (pre @ rows)" and meta: "key_of i MetaK \<in> fst ` set pre"
    and x: "walked E i bv A (keys_in i pre) x" and coh: "coherent bv (bs_blobs s)"
  shows "\<exists>x' c. walk_rows E i ci rows x s = (Inr x', s\<lparr>bs_blobs := c\<rparr>) \<and> coherent bv c \<and> walked E i bv A (keys_in i (pre @ rows)) x'"
  using s all meta x coh
proof (induction rows arbitrary: pre x s)
  case Nil
  then show ?case by (auto simp: act_ok_def intro!: exI [of _ "bs_blobs s"])
next
  case (Cons row rows)
  obtain rk where rk: "key_ok rk" "row = row_at i w rk" and e: "w ActiveB (key_of i rk) \<noteq> None"
    using row_of_rows [OF rd Cons.prems(2), of row] by auto
  have key: "fst row = key_of i rk" by (simp add: rk row_at_def)
  have sorted: "k < key_of i rk" if "k \<in> fst ` set pre" for k
    using Cons.prems(2) that by (auto simp: walk_of_def sorted_wrt_append key [symmetric])
  have "rk \<noteq> MetaK" using sorted [OF Cons.prems(3)] by auto
  moreover have "OpK order k PhaseForward \<in> keys_in i pre" if st: "rk = StateK order k" for order k
  proof -
    have "st_ops A k PhaseForward \<noteq> None \<and> or_order (the (st_ops A k PhaseForward)) = order"
      using readingD(6) [OF rd rk(1)] e by (auto simp: st split: option.splits if_splits)
    moreover have ok: "key_ok (OpK order k PhaseForward)" using rk(1) by (simp add: st two_phase_def)
    ultimately have "w ActiveB (key_of i (OpK order k PhaseForward)) \<noteq> None"
      using readingD(6) [OF rd ok] by (auto simp: decodes_def split: option.splits)
    then have "key_of i (OpK order k PhaseForward) \<in> fst ` set pre"
      by (intro rows_in_order [OF Cons.prems(2)]) (simp_all add: key st op_before_state run_part_def)
    with ok show ?thesis by (simp add: keys_in_def)
  qed
  moreover have "StateK order k \<notin> keys_in i pre" if op: "rk = OpK order k PhaseForward" for order k
  proof
    assume "StateK order k \<in> keys_in i pre"
    then have "key_of i (StateK order k) \<in> fst ` set pre" by (simp add: keys_in_def)
    from sorted [OF this] op_before_state [of i order k] show False by (simp add: op)
  qed
  ultimately obtain x1 c1 where one: "walk_row E i ci row x s = (Inr x1, s\<lparr>bs_blobs := c1\<rparr>)" "coherent bv c1" "walked E i bv A (keys_in i (pre @ [row])) x1"
    using walk_row_any [OF rd Cons.prems(1,4,5) rk(1) _ e ci] keys_in_snoc [OF rk(1), of i pre w] rk(2) by metis
  obtain x2 c2 where "walk_rows E i ci rows x1 (s\<lparr>bs_blobs := c1\<rparr>) = (Inr x2, s\<lparr>bs_blobs := c1, bs_blobs := c2\<rparr>)" "coherent bv c2"
    "walked E i bv A (keys_in i ((pre @ [row]) @ rows)) x2"
    using Cons.IH [of "s\<lparr>bs_blobs := c1\<rparr>" "pre @ [row]" x1] Cons.prems one by auto
  with one show ?case by (auto simp: act_then_def)
qed

text \<open>Once every row is seen, the walk has what the rows say.\<close>

lemma seen_all:
  assumes rd: "reading E v i A bv w" and rows: "walk_of (run_part i w) rows" and x: "walked E i bv A (keys_in i rows) x"
  shows "(wr_rec x)\<lparr>r_steps := []\<rparr> = stored_base A \<and> same_ops (stored_op A) (wr_rec x) \<and> gm_ok (r_steps (wr_rec x))"
proof -
  have there: "rk \<in> keys_in i rows \<longleftrightarrow> w ActiveB (key_of i rk) \<noteq> None" if "key_ok rk" for rk
  proof -
    have "key_of i rk \<in> fst ` set rows \<longleftrightarrow> run_part i w (key_of i rk) \<noteq> None"
      using walk_of_keys [OF rows] by (metis (mono_tags, lifting) list.set_map mem_Collect_eq)
    with that show ?thesis by (simp add: keys_in_def run_part_def)
  qed
  note entry = readingD(6) [OF rd]
  have "InputK \<notin> keys_in i rows \<Longrightarrow> st_input A = None" "CancelK \<notin> keys_in i rows \<Longrightarrow> st_cancel A = None" "FailureK \<notin> keys_in i rows \<Longrightarrow> st_failure A = None"
    using entry [of InputK] entry [of CancelK] entry [of FailureK] there by (auto simp: decodes_def split: option.splits)
  then have base: "seen_base A (keys_in i rows) = stored_base A"
    by (cases "InputK \<in> keys_in i rows"; cases "CancelK \<in> keys_in i rows"; cases "FailureK \<in> keys_in i rows") (simp_all add: seen_base_def stored_base_def)
  have "seen_op (be_row_max E) A (keys_in i rows) k p = stored_op A k p" for k p
  proof (cases "st_ops A k p")
    case (Some op)
    have "ops_named A" using readingD(4) [OF rd] by (simp add: renders_def)
    then have k: "nul_free k" "two_phase p" using Some by (auto simp: ops_named_def)
    have "OpK (or_order op) k p \<in> keys_in i rows"
      using k Some entry [of "OpK (or_order op) k p"] there by (auto simp: decodes_def)
    moreover have "StateK (or_order op) k \<in> keys_in i rows" if "beside (be_row_max E) p op"
      using that k Some entry [of "StateK (or_order op) k"] there by (auto simp: beside_def)
    ultimately show ?thesis by (auto simp: seen_op_def stored_op_def Some)
  qed (simp add: seen_op_def stored_op_def)
  then have "seen_op (be_row_max E) A (keys_in i rows) = stored_op A" by blast
  with x base show ?thesis by (simp add: walked_def)
qed

lemma meta_row_first:
  assumes rd: "reading E v i A bv w" and rows: "walk_of (run_part i w) rows"
  obtains rest where "rows = row_at i w MetaK # rest"
proof -
  have there: "key_of i MetaK \<in> fst ` set rows"
    using walk_of_keys [OF rows] readingD(6) [OF rd, of MetaK] by (auto simp: decodes_def run_part_def)
  then obtain row rest where rr: "rows = row # rest" by (cases rows) auto
  obtain rk where rk: "key_ok rk" "row = row_at i w rk" "w ActiveB (key_of i rk) \<noteq> None" using row_of_rows [OF rd rows, of row] rr by auto
  have "rk = MetaK"
  proof (rule ccontr)
    assume "rk \<noteq> MetaK"
    then have "key_of i MetaK < key_of i rk" by (rule meta_least)
    moreover have "key_of i rk \<le> k" if "k \<in> fst ` set rows" for k
      using rows that by (auto simp: walk_of_def rr rk row_at_def)
    ultimately show False using there by fastforce
  qed
  with rk rr show thesis by (intro that [of rest]) simp
qed

lemma coherent_act:
  assumes "coherent bv (bs_blobs s)"
  shows "\<exists>c b. act_cache (\<lambda>c. bc_input c i) s = (Inr b, s\<lparr>bs_blobs := c\<rparr>) \<and> coherent bv c \<and> (\<forall>x. fst b = Some x \<longrightarrow> bv_input bv i = Some x)"
proof -
  have "coherent bv (snd (bc_input (bs_blobs s) i))" using bc_lookup_coherent [OF assms] by simp
  then show ?thesis using coherent_reads(1) [OF assms, of i]
    by (intro exI [of _ "snd (bc_input (bs_blobs s) i)"] exI [of _ "fst (bc_input (bs_blobs s) i)"]) (auto simp: act_cache_def case_prod_beta prod_eq_iff)
qed

lemma walked_start: "bare i (st_meta A) \<Longrightarrow> walked E i bv A (keys_in i [row_at i w MetaK])
    \<lparr>wr_rec = st_meta A, wr_fill = (if cached then None else Some no_blobs), wr_key = [], wr_step = []\<rparr>"
proof -
  assume bare: "bare i (st_meta A)"
  have keys: "keys_in i [row_at i w MetaK] = {MetaK}" using keys_in_snoc [of MetaK i "[]" w] by (simp add: keys_in_def)
  note b = bareD [OF bare]
  have steps: "r_steps (st_meta A) = []" by (rule b)
  have "(st_meta A)\<lparr>r_steps := []\<rparr> = seen_base A {MetaK}" using b by (simp add: seen_base_def)
  moreover have "same_ops (seen_op (be_row_max E) A {MetaK}) (st_meta A)"
    using steps by (auto simp: same_ops_def rec_op_def rec_step_def seen_op_def split: option.split)
  ultimately show ?thesis using steps by (auto simp: walked_def keys holds_blobs_def no_blobs_def)
qed

theorem getNonterminal_reads:
  assumes rd: "reading E v i A bv w" and s: "v (bs_tx s) = w" and coh: "coherent bv (bs_blobs s)"
  shows "\<exists>rec c. getNonterminal E i s = (Inr rec, s\<lparr>bs_blobs := c\<rparr>) \<and> coherent bv c \<and> reads_as A rec"
proof -
  note B = readingD(1) [OF rd] and entry = readingD(6) [OF rd]
  obtain c1 b where c1: "act_cache (\<lambda>c. bc_input c i) s = (Inr b, s\<lparr>bs_blobs := c1\<rparr>)" "coherent bv c1" "\<And>x. fst b = Some x \<Longrightarrow> bv_input bv i = Some x"
    using coherent_act [OF coh] by blast
  let ?s1 = "s\<lparr>bs_blobs := c1\<rparr>"
  define rows where "rows = seek_prefix (runPrefix i) (bt_walk (be_db E) (bs_tx s) ActiveB)"
  have walk: "walk_of (run_part i w) rows"
    using walk_of_seek [OF bolt_okD(3) [OF B, of "bs_tx s" ActiveB], of "runPrefix i"] unfolding s by (simp add: rows_def run_part_def [abs_def])
  obtain rest where rest: "rows = row_at i w MetaK # rest" using meta_row_first [OF rd walk] .
  obtain mb where mb: "w ActiveB (key_of i MetaK) = Some (BRow mb)" "UnmarshalRunMetaInto (be_proto E) mb zero_record = Inr (st_meta A)"
    using entry [of MetaK] by (auto simp: decodes_def)
  have bare: "bare i (st_meta A)" using readingD(4) [OF rd] by (simp add: renders_def)
  let ?x0 = "\<lparr>wr_rec = st_meta A, wr_fill = (if snd b then None else Some no_blobs), wr_key = [], wr_step = []\<rparr>"
  have ci: "st_input A = Some y" if "fst b = Some y" for y using c1(3) [OF that] readingD(5) [OF rd] by (simp add: blobs_of_def)
  have start: "walked E i bv A (keys_in i [row_at i w MetaK]) ?x0" by (rule walked_start [OF bare])
  have all: "walk_of (run_part i w) ([row_at i w MetaK] @ rest)" using walk rest by simp
  have "key_of i MetaK \<in> fst ` set [row_at i w MetaK]" by (simp add: row_at_def)
  then have "\<exists>x c. walk_rows E i (fst b) rest ?x0 ?s1 = (Inr x, ?s1\<lparr>bs_blobs := c\<rparr>) \<and> coherent bv c \<and> walked E i bv A (keys_in i ([row_at i w MetaK] @ rest)) x"
    using walk_all [OF rd _ ci all _ start, of ?s1] s c1(2) by simp
  then obtain x c2 where x: "walk_rows E i (fst b) rest ?x0 ?s1 = (Inr x, ?s1\<lparr>bs_blobs := c2\<rparr>)" "coherent bv c2" "walked E i bv A (keys_in i rows) x"
    by (auto simp: rest)
  have meta: "meta_row E i rows ?s1 = (Inr (st_meta A), ?s1)"
    using mb by (simp add: meta_row_def rest row_at_def key_of_def nth_append act_pb_def)
  have r: "r_run (wr_rec x) = i"
  proof -
    have "r_run ((wr_rec x)\<lparr>r_steps := []\<rparr>) = i"
      using seen_all [OF rd walk x(3)] bareD(1) [OF bare] by (simp add: stored_base_def)
    then show ?thesis by simp
  qed
  obtain cb where cb: "w CursorB i = Some (BRow cb)" "UnmarshalCursor (be_proto E) cb = Inr (st_cursor A)"
    using readingD(4) [OF rd] by (auto simp: renders_def decodes_def)
  define c3 where "c3 = (case wr_fill x of None \<Rightarrow> c2 | Some rb \<Rightarrow> bc_fill c2 i rb)"
  have c3: "coherent bv c3" using x(2,3) by (auto simp: c3_def walked_def intro: bc_fill_coherent split: option.split)
  have fill: "(case wr_fill x of None \<Rightarrow> act_ok () | Some rb \<Rightarrow> act_cache (\<lambda>c. ((), bc_fill c i rb))) (?s1\<lparr>bs_blobs := c2\<rparr>) = (Inr (), s\<lparr>bs_blobs := c3\<rparr>)"
    by (simp add: c3_def act_ok_def act_cache_def split: option.split)
  have over: "overlayCursor E (wr_rec x) (s\<lparr>bs_blobs := c3\<rparr>) = (Inr (overlay (st_cursor A) (wr_rec x)), s\<lparr>bs_blobs := c3\<rparr>)"
    using cb s bolt_okD(1) [OF B, of "bs_tx s" CursorB i]
    by (simp add: overlayCursor_def r act_get_def act_read_def act_then_def act_pb_def act_ok_def)
  have run: "run_rows E i ?s1 = (Inr rows, ?s1)"
    by (simp add: run_rows_def act_walk_def act_read_def act_then_def act_ok_def rows_def)
  have "getNonterminal E i s = (Inr (overlay (st_cursor A) (wr_rec x)), s\<lparr>bs_blobs := c3\<rparr>)"
    unfolding getNonterminal_def act_then_def [of "act_cache (\<lambda>c. bc_input c i)"] c1(1)
    using run meta x(1) fill over by (simp add: act_then_def rest case_prod_beta)
  moreover have "reads_as A (overlay (st_cursor A) (wr_rec x))"
    unfolding reads_as_def using seen_all [OF rd walk x(3)] by blast
  ultimately show ?thesis using c3 by blast
qed

end
