(* ===== verification/Bolt_Refine.thy ===== *)
theory Bolt_Refine
  imports Bolt_Rows
begin

text \<open>
  The bbolt store refines the contract of a store: what a write does to the rows of a run is what the
  contract says it does to the record.
\<close>

section \<open>Writing an operation\<close>

definition op_found :: "run_id \<Rightarrow> step_id \<Rightarrow> phase \<Rightarrow> db_view \<Rightarrow> bytes option \<Rightarrow> bool" where
  "op_found i k p w old \<longleftrightarrow> (\<forall>key. old = Some key \<longrightarrow> prefix (opPrefix i) key \<and> is_op_row i k p key \<and> w ActiveB key \<noteq> None) \<and>
    (old = None \<longrightarrow> (\<forall>key. prefix (opPrefix i) key \<longrightarrow> is_op_row i k p key \<longrightarrow> w ActiveB key = None))"

text \<open>The rows after the write of an operation, given the row there was.\<close>

definition op_written :: "int \<Rightarrow> run_id \<Rightarrow> step_id \<Rightarrow> phase \<Rightarrow> operation_record \<Rightarrow> bytes \<Rightarrow> bytes option \<Rightarrow> db_view \<Rightarrow> db_view" where
  "op_written row_max i k p op b old w =
     (let key = opKey i (or_order op) k p;
          w1 = (if old \<noteq> None \<and> old \<noteq> Some key then upd ActiveB (the old) None w else w);
          w2 = upd ActiveB key (Some (BRow b)) w1;
          w3 = (if old \<noteq> None then upd ActiveB (stateKey (the old)) None w2 else w2)
      in if p \<noteq> PhaseForward then w2
         else if beside row_max p op then upd ActiveB (stateKey key) (Some (blob_entry row_max (the_bytes (or_state op)))) w3 else w3)"

lemma effect_same: "effect v (act_ok ()) (\<lambda>w a w'. w' = w)"
  by (rule effect_mono [OF effect_ok]) simp

lemma effect_putOp:
  assumes B: "bolt_ok (be_db E) v"
  shows "effect v (putOp E i k p op) (\<lambda>w a w'. \<exists>b old. MarshalOperationRecord (be_proto E) (row_op (be_row_max E) p op) = Inr b
    \<and> op_found i k p w old \<and> w' = op_written (be_row_max E) i k p op b old w)"
proof -
  let ?m = "be_row_max E" and ?key = "opKey i (or_order op) k p"
  have step: "effect v (if c then m else act_ok ()) (\<lambda>w a w'. w' = (if c then F w else w))" if "effect v m (\<lambda>w a w'. w' = F w)" for c m F
    using that effect_same by (auto intro: effect_mono)
  have state: "effect v (if p \<noteq> PhaseForward then act_ok ()
           else act_then (if old \<noteq> None then deleteBlob E ActiveB (stateKey (the old)) else act_ok ()) (\<lambda>_.
             if beside ?m p op then putBlob E ActiveB (stateKey ?key) (the_bytes (or_state op)) else act_ok ()))
      (\<lambda>w a w'. w' = (let w3 = (if old \<noteq> None then upd ActiveB (stateKey (the old)) None w else w) in
         if p \<noteq> PhaseForward then w else if beside ?m p op then upd ActiveB (stateKey ?key) (Some (blob_entry ?m (the_bytes (or_state op)))) w3 else w3))" for old
  proof (cases "p = PhaseForward")
    case True
    have "effect v (act_then (if old \<noteq> None then deleteBlob E ActiveB (stateKey (the old)) else act_ok ()) (\<lambda>_.
             if beside ?m p op then putBlob E ActiveB (stateKey ?key) (the_bytes (or_state op)) else act_ok ()))
      (\<lambda>w a w'. w' = (let w3 = (if old \<noteq> None then upd ActiveB (stateKey (the old)) None w else w) in
         if beside ?m p op then upd ActiveB (stateKey ?key) (Some (blob_entry ?m (the_bytes (or_state op)))) w3 else w3))"
      by (rule effect_then [OF step [OF effect_deleteBlob [OF B]] step [OF effect_putBlob [OF B]]]) simp
    then show ?thesis by (simp add: True)
  next
    case False
    then show ?thesis using effect_same by simp
  qed
  have rest: "effect v (act_then (if old \<noteq> None \<and> old \<noteq> Some ?key then act_delete E ActiveB (the old) else act_ok ()) (\<lambda>_.
         act_then (act_put E ActiveB ?key b) (\<lambda>_. if p \<noteq> PhaseForward then act_ok ()
           else act_then (if old \<noteq> None then deleteBlob E ActiveB (stateKey (the old)) else act_ok ()) (\<lambda>_.
             if beside ?m p op then putBlob E ActiveB (stateKey ?key) (the_bytes (or_state op)) else act_ok ()))))
      (\<lambda>w a w'. w' = op_written ?m i k p op b old w)" for old b
    by (rule effect_then [OF step [OF effect_delete [OF B]] effect_then [OF effect_put [OF B] state]]) (auto simp: op_written_def Let_def)
  have found: "effect v (findOp E i k p) (\<lambda>w old w'. w' = w \<and> op_found i k p w old)"
    by (rule effect_mono [OF effect_findOp [OF B]]) (simp add: op_found_def)
  have "effect v (act_then (act_pb (MarshalOperationRecord (be_proto E) (row_op ?m p op))) (\<lambda>b. act_then (findOp E i k p) (\<lambda>old.
       act_then (if old \<noteq> None \<and> old \<noteq> Some ?key then act_delete E ActiveB (the old) else act_ok ()) (\<lambda>_.
         act_then (act_put E ActiveB ?key b) (\<lambda>_. if p \<noteq> PhaseForward then act_ok ()
           else act_then (if old \<noteq> None then deleteBlob E ActiveB (stateKey (the old)) else act_ok ()) (\<lambda>_.
             if beside ?m p op then putBlob E ActiveB (stateKey ?key) (the_bytes (or_state op)) else act_ok ()))))))
      (\<lambda>w a w'. \<exists>b old. MarshalOperationRecord (be_proto E) (row_op ?m p op) = Inr b \<and> op_found i k p w old \<and> w' = op_written ?m i k p op b old w)"
    by (rule effect_then [OF effect_pb effect_then [OF found rest]]) auto
  then show ?thesis unfolding putOp_def Let_def beside_def row_op_def .
qed

lemma is_op_row_key:
  assumes "key_ok rk" "two_phase p"
  shows "is_op_row i k p (key_of i rk) \<and> prefix (opPrefix i) (key_of i rk) \<longleftrightarrow> (\<exists>order. rk = OpK order k p)"
proof -
  have pb: "phaseByte p' = phaseByte p \<longleftrightarrow> p' = p" if "two_phase p'" for p'
    using that assms(2) by (auto simp: two_phase_def phaseByte_def)
  have ph: "phaseByte p \<noteq> CHR ''s''" by (simp add: phaseByte_def)
  have len: "length (opPrefix i) = length (runPrefix i) + 2" by (simp add: opPrefix_def activeKey_def)
  have dr: "drop (length (opPrefix i) + 4) (key_of i (OpK order k' p')) = [nul] @ k' @ [nul, phaseByte p']"
    "drop (length (opPrefix i) + 4) (key_of i (StateK order k')) = [nul] @ k' @ [nul, phaseByte PhaseForward] @ stateSuffix" for order k' p'
    by (simp_all add: key_of_def len op_rest_def)
  show ?thesis
  proof (cases rk)
    case (OpK order k' p')
    then show ?thesis
      using assms(1) pb [of p'] dr(1) [of order k' p']
      by (auto simp: is_op_row_def op_suffix_def key_of_def opPrefix_def activeKey_def op_rest_def)
  next
    case (StateK order k')
    then show ?thesis using dr(2) [of order k'] ph
      by (auto simp: is_op_row_def op_suffix_def stateSuffix_def)
  qed (simp_all add: key_of_def opPrefix_def activeKey_def)
qed

text \<open>A cell of a run changed.\<close>

lemma renders_cong:
  assumes "renders E i A w" and "\<And>k. prefix (runPrefix i) k \<Longrightarrow> w' ActiveB k = w ActiveB k" and "w' CursorB i = w CursorB i"
  shows "renders E i A w'"
  using assms by (auto simp: renders_def rows_under_def)

lemma cell [simp]: "key_ok rk \<Longrightarrow> key_ok rk' \<Longrightarrow> upd ActiveB (key_of i rk) e w ActiveB (key_of i rk') = (if rk' = rk then e else w ActiveB (key_of i rk'))"
  using key_of_inj [of rk rk' i] by auto

lemma rows_under_upd: "rows_under i w \<Longrightarrow> key_ok rk \<Longrightarrow> rows_under i (upd ActiveB (key_of i rk) e w)"
  by (auto simp: rows_under_def)

definition nil_op :: "operation_record \<Rightarrow> operation_record" where
  "nil_op op = op\<lparr>or_state := nil_bytes (or_state op)\<rparr>"

lemma nil_op_simps [simp]: "or_order (nil_op op) = or_order op" "or_status (nil_op op) = or_status op" "or_attempts (nil_op op) = or_attempts op"
  "blen (nil_bytes b) = blen b" "nil_bytes (nil_bytes b) = nil_bytes b" "nil_op (nil_op op) = nil_op op" "nil_op zero_op = zero_op"
  by (simp_all add: nil_op_def nil_bytes_def zero_op_def blen_def)

lemma beside_nil [simp]: "beside m p (nil_op op) = beside m p op"
  by (simp add: beside_def nil_op_def)

lemma row_op_nil: "row_op m p (nil_op op) = nil_op (row_op m p op)"
  by (simp add: row_op_def nil_op_def beside_def nil_bytes_def)

definition with_op :: "step_id \<Rightarrow> phase \<Rightarrow> operation_record \<Rightarrow> stored_run \<Rightarrow> stored_run" where
  "with_op k p op A = A\<lparr>st_ops := (st_ops A)(k := (st_ops A k)(p := Some (nil_op op)))\<rparr>"

lemma op_found_key:
  assumes r: "renders E i A w" and f: "op_found i k p w old" and k: "nul_free k" "two_phase p"
  shows "old = map_option (\<lambda>op0. key_of i (OpK (or_order op0) k p)) (st_ops A k p)"
proof -
  have entry: "key_ok rk \<Longrightarrow> entry_ok E A rk (w ActiveB (key_of i rk))" for rk using r by (simp add: renders_def)
  have ok: "key_ok (OpK order k p)" for order using k by simp
  show ?thesis
  proof (cases old)
    case (Some key)
    then have key: "prefix (opPrefix i) key" "is_op_row i k p key" "w ActiveB key \<noteq> None" using f by (auto simp: op_found_def)
    have "prefix (runPrefix i) key" using key(1) by (auto simp: prefix_def opPrefix_def activeKey_def)
    then obtain rk where "key_ok rk" "key = key_of i rk" using r key(3) by (auto simp: renders_def rows_under_def)
    then obtain order where "key = key_of i (OpK order k p)" using is_op_row_key [of rk p i k] key k by auto
    with key(3) entry [OF ok, of order] Some show ?thesis by (auto simp: decodes_def split: option.splits if_splits)
  next
    case None
    have "st_ops A k p = None"
    proof (rule ccontr)
      assume "st_ops A k p \<noteq> None"
      then obtain op0 where op0: "st_ops A k p = Some op0" by blast
      have "w ActiveB (key_of i (OpK (or_order op0) k p)) \<noteq> None" using entry [OF ok, of "or_order op0"] op0 by (auto simp: decodes_def)
      moreover have "is_op_row i k p (key_of i (OpK (or_order op0) k p)) \<and> prefix (opPrefix i) (key_of i (OpK (or_order op0) k p))"
        using is_op_row_key [OF ok k(2)] by blast
      ultimately show False using f None by (auto simp: op_found_def)
    qed
    with None show ?thesis by simp
  qed
qed

lemma renders_op:
  assumes r: "renders E i A w" and f: "op_found i k p w old" and k: "nul_free k" "two_phase p" and max: "0 \<le> be_row_max E"
    and b: "UnmarshalOperationRecord (be_proto E) b = Inr (nil_op (row_op (be_row_max E) p op))"
  shows "renders E i (with_op k p op A) (op_written (be_row_max E) i k p op b old w)"
proof -
  let ?m = "be_row_max E" and ?A = "with_op k p op A" and ?w = "op_written (be_row_max E) i k p op b old w"
  have old: "old = map_option (\<lambda>op0. key_of i (OpK (or_order op0) k p)) (st_ops A k p)" by (rule op_found_key [OF r f k])
  have entry: "key_ok rk \<Longrightarrow> entry_ok E A rk (w ActiveB (key_of i rk))" for rk using r by (simp add: renders_def)
  have ok: "key_ok (OpK order k p)" "key_ok (StateK order k)" for order using k by simp_all
  have same_key: "key_of i (OpK order k q) = key_of i (OpK order' k q) \<longleftrightarrow> order = order'" if "q = p" for order order' q
    using key_of_inj [OF ok(1) ok(1), of i order order'] that by simp
  have w: "?w = (let key = key_of i (OpK (or_order op) k p);
          w1 = (case st_ops A k p of None \<Rightarrow> w | Some op0 \<Rightarrow> if or_order op0 = or_order op then w else upd ActiveB (key_of i (OpK (or_order op0) k p)) None w);
          w2 = upd ActiveB key (Some (BRow b)) w1;
          w3 = (case st_ops A k p of None \<Rightarrow> w2 | Some op0 \<Rightarrow> upd ActiveB (key_of i (StateK (or_order op0) k)) None w2)
      in if p \<noteq> PhaseForward then w2
         else if beside ?m p op then upd ActiveB (key_of i (StateK (or_order op) k)) (Some (blob_entry ?m (the_bytes (or_state op)))) w3 else w3)"
    unfolding op_written_def old key_of_eqs
    by (cases "st_ops A k p"; cases "p = PhaseForward") (auto simp: key_of_eqs same_key Let_def)
  have under: "rows_under i ?w"
    using r ok unfolding w by (auto simp: renders_def Let_def split: option.split intro!: rows_under_upd)
  have cur: "?w CursorB i = w CursorB i" unfolding w by (auto simp: Let_def split: option.split)
  have cells: "?w ActiveB (key_of i rk) =
      (if rk = OpK (or_order op) k p then Some (BRow b)
       else if beside ?m p op \<and> rk = StateK (or_order op) k then Some (blob_entry ?m (the_bytes (or_state op)))
       else if \<exists>op0. st_ops A k p = Some op0 \<and> (rk = OpK (or_order op0) k p \<or> p = PhaseForward \<and> rk = StateK (or_order op0) k) then None
       else w ActiveB (key_of i rk))" if rk: "key_ok rk" for rk
  proof -
    define w1 where "w1 = (case st_ops A k p of None \<Rightarrow> w | Some op0 \<Rightarrow> if or_order op0 = or_order op then w else upd ActiveB (key_of i (OpK (or_order op0) k p)) None w)"
    define w2 where "w2 = upd ActiveB (key_of i (OpK (or_order op) k p)) (Some (BRow b)) w1"
    define w3 where "w3 = (case st_ops A k p of None \<Rightarrow> w2 | Some op0 \<Rightarrow> upd ActiveB (key_of i (StateK (or_order op0) k)) None w2)"
    note inj = cell [OF ok(1) rk] cell [OF ok(2) rk]
    have c1: "w1 ActiveB (key_of i rk) = (if \<exists>op0. st_ops A k p = Some op0 \<and> or_order op0 \<noteq> or_order op \<and> rk = OpK (or_order op0) k p then None else w ActiveB (key_of i rk))"
      proof (cases "st_ops A k p")
      case (Some op0)
      then show ?thesis unfolding w1_def using inj(1) [of i "or_order op0"] by (auto simp del: upd_sel cell)
    qed (simp add: w1_def)
    have c2: "w2 ActiveB (key_of i rk) = (if rk = OpK (or_order op) k p then Some (BRow b) else w1 ActiveB (key_of i rk))"
      unfolding w2_def by (rule inj)
    have c3: "w3 ActiveB (key_of i rk) = (if \<exists>op0. st_ops A k p = Some op0 \<and> rk = StateK (or_order op0) k then None else w2 ActiveB (key_of i rk))"
      proof (cases "st_ops A k p")
      case (Some op0)
      then show ?thesis unfolding w3_def using inj(2) [of i "or_order op0"] by (auto simp del: upd_sel cell)
    qed (simp add: w3_def)
    have "?w = (if p \<noteq> PhaseForward then w2
         else if beside ?m p op then upd ActiveB (key_of i (StateK (or_order op) k)) (Some (blob_entry ?m (the_bytes (or_state op)))) w3 else w3)"
      unfolding w Let_def w1_def w2_def w3_def ..
    then show ?thesis using c1 c2 c3 inj by (cases "p = PhaseForward"; cases "beside ?m p op") (auto simp: beside_def simp del: upd_sel cell)
  qed
  have nil: "the_bytes (nil_bytes (or_state op)) = the_bytes (or_state op)"
    by (auto simp: nil_bytes_def the_bytes_def)
  have "entry_ok E ?A rk (?w ActiveB (key_of i rk))" if rk: "key_ok rk" for rk
  proof (cases rk)
    case (OpK order k' p')
    note old = entry [OF rk, unfolded OpK]
    show ?thesis
    proof (cases "k' = k \<and> p' = p")
      case True
      then have new: "st_ops ?A k' p' = Some (nil_op op)" by (simp add: with_op_def)
      show ?thesis
      proof (cases "order = or_order op")
        case eq: True
        then show ?thesis using b True new unfolding cells [OF rk] unfolding OpK by (simp add: decodes_def row_op_nil)
      next
        case False
        then have "?w ActiveB (key_of i rk) = None"
          using old True unfolding cells [OF rk] unfolding OpK by (cases "st_ops A k p") (auto simp: decodes_def)
        then show ?thesis using False new unfolding OpK by (simp add: decodes_def)
      qed
    next
      case False
      then have "?w ActiveB (key_of i rk) = w ActiveB (key_of i rk)" "st_ops ?A k' p' = st_ops A k' p'"
        unfolding cells [OF rk] unfolding OpK by (auto simp: with_op_def)
      then show ?thesis using old unfolding OpK by simp
    qed
  next
    case (StateK order k')
    note old = entry [OF rk, unfolded StateK]
    show ?thesis
    proof (cases "k' = k \<and> p = PhaseForward")
      case True
      then have new: "st_ops ?A k' PhaseForward = Some (nil_op op)" by (simp add: with_op_def)
      have "?w ActiveB (key_of i rk) = (if order = or_order op \<and> beside ?m PhaseForward op then Some (blob_entry ?m (the_bytes (or_state op))) else None)"
        using old True unfolding cells [OF rk] unfolding StateK by (cases "st_ops A k PhaseForward") auto
      then show ?thesis using nil new unfolding StateK by (simp add: nil_op_def [of op] beside_nil [unfolded nil_op_def])
    next
      case False
      then have "?w ActiveB (key_of i rk) = w ActiveB (key_of i rk)" "st_ops ?A k' PhaseForward = st_ops A k' PhaseForward"
        unfolding cells [OF rk] unfolding StateK by (auto simp: with_op_def beside_def)
      then show ?thesis using old unfolding StateK by simp
    qed
  qed (use entry [OF rk] cells [OF rk] in \<open>simp_all add: with_op_def\<close>)
  moreover have "ops_named ?A" using r k by (auto simp: renders_def ops_named_def with_op_def nil_op_def nil_bytes_def split: if_splits)
  ultimately show ?thesis using r under cur by (simp add: renders_def with_op_def)
qed

section \<open>What the rows say of a record\<close>

text \<open>
  A record comes back from storage with its steps and annotations in another order and its empty byte
  slices as nil; \<open>reads_back\<close> is equality up to that.
\<close>

definition rec_fields :: "run_record \<Rightarrow> run_record" where
  "rec_fields r = r\<lparr>r_steps := [], r_input := nil_bytes (r_input r), r_output := nil_bytes (r_output r), r_annotations := []\<rparr>"

definition reads_back :: "run_record \<Rightarrow> run_record \<Rightarrow> bool" where
  "reads_back r r' \<longleftrightarrow> rec_fields r' = rec_fields r \<and> mset (r_annotations r') = mset (r_annotations r)
     \<and> (\<forall>k p. two_phase p \<longrightarrow> nil_op (rec_op r' k p) = nil_op (rec_op r k p))"

definition set_cursor :: "cursor \<Rightarrow> run_record \<Rightarrow> run_record" where
  "set_cursor c r = r\<lparr>r_phase := cu_phase c, r_next_attempt_at := cu_next_attempt_at c, r_last_error := cu_last_error c,
     r_last_reason := cu_last_reason c, r_last_error_at := cu_last_error_at c, r_awaiting := cu_awaiting c, r_awaited := cu_awaited c,
     r_updated_at := cu_updated_at c, r_started_at := cu_started_at c\<rparr>"

text \<open>The operation the cursor carries laid over a family of operations.\<close>

definition in_cursor :: "cursor \<Rightarrow> step_id \<Rightarrow> phase \<Rightarrow> bool" where
  "in_cursor c k p \<longleftrightarrow> cu_step c \<noteq> [] \<and> k = cu_step c \<and> p = cu_phase c"

definition over :: "cursor \<Rightarrow> (step_id \<Rightarrow> phase \<Rightarrow> operation_record) \<Rightarrow> step_id \<Rightarrow> phase \<Rightarrow> operation_record" where
  "over c f k p = (if in_cursor c k p then (f k p)\<lparr>or_status := OpUnresolved, or_attempts := cu_attempts c\<rparr> else f k p)"

definition stores :: "stored_run \<Rightarrow> run_record \<Rightarrow> bool" where
  "stores A r \<longleftrightarrow> set_cursor (st_cursor A) ((stored_base A)\<lparr>r_annotations := []\<rparr>) = rec_fields r
     \<and> mset (r_annotations (st_meta A)) = mset (r_annotations r)
     \<and> (\<forall>k p. two_phase p \<longrightarrow> nil_op (over (st_cursor A) (stored_op A) k p) = nil_op (rec_op r k p))"

lemma nil_op_upd: "nil_op (op\<lparr>or_status := x, or_attempts := n\<rparr>) = (nil_op op)\<lparr>or_status := x, or_attempts := n\<rparr>"
  by (simp add: nil_op_def)

lemma overlay_cursor: "overlay c r = apply_cursor c r"
  by (simp add: overlay_def apply_cursor_def Let_def)

lemma apply_cursor_fields: "(apply_cursor c r)\<lparr>r_steps := []\<rparr> = set_cursor c (r\<lparr>r_steps := []\<rparr>)"
  by (simp add: apply_cursor_def set_cursor_def Let_def)

lemma rec_op_set [simp]:
  "rec_op (r\<lparr>r_phase := a, r_next_attempt_at := b, r_last_error := c, r_last_reason := d, r_last_error_at := e, r_awaiting := f, r_awaited := g,
     r_updated_at := h, r_started_at := j\<rparr>) k p = rec_op r k p"
  by (simp add: rec_op_def rec_step_def)

lemma apply_cursor_op: "two_phase (cu_phase c) \<Longrightarrow> two_phase p \<Longrightarrow> rec_op (apply_cursor c r) k p = over c (rec_op r) k p"
  by (auto simp: apply_cursor_def Let_def over_def in_cursor_def two_phase_def)

lemma stores_reads:
  assumes "stores A r" and "reads_as A rec" and "two_phase (cu_phase (st_cursor A))"
  shows "reads_back r rec"
proof -
  let ?c = "st_cursor A"
  obtain r0 where r0: "r0\<lparr>r_steps := []\<rparr> = stored_base A" "same_ops (stored_op A) r0" "rec = apply_cursor ?c r0"
    using assms(2) by (auto simp: reads_as_def overlay_cursor)
  have base: "rec\<lparr>r_steps := []\<rparr> = set_cursor ?c (stored_base A)" by (simp add: r0(3) apply_cursor_fields r0(1))
  have "(rec\<lparr>r_steps := []\<rparr>)\<lparr>r_annotations := []\<rparr> = set_cursor ?c ((stored_base A)\<lparr>r_annotations := []\<rparr>)"
    unfolding base by (simp add: set_cursor_def)
  then have f: "rec\<lparr>r_steps := [], r_annotations := []\<rparr> = rec_fields r" using assms(1) by (simp add: stores_def)
  then have "r_input (rec\<lparr>r_steps := [], r_annotations := []\<rparr>) = r_input (rec_fields r)"
    "r_output (rec\<lparr>r_steps := [], r_annotations := []\<rparr>) = r_output (rec_fields r)" by simp_all
  then have nil: "r_input rec = nil_bytes (r_input r)" "r_output rec = nil_bytes (r_output r)" by (simp_all add: rec_fields_def)
  have "rec_fields rec = (rec\<lparr>r_steps := [], r_annotations := []\<rparr>)\<lparr>r_input := nil_bytes (r_input r), r_output := nil_bytes (r_output r)\<rparr>"
    by (simp add: rec_fields_def nil)
  then have "rec_fields rec = rec_fields r" unfolding f by (simp add: rec_fields_def)
  moreover have "mset (r_annotations rec) = mset (r_annotations r)"
  proof -
    have "r_annotations (rec\<lparr>r_steps := []\<rparr>) = r_annotations (st_meta A)" unfolding base by (simp add: set_cursor_def stored_base_def)
    then show ?thesis using assms(1) by (simp add: stores_def)
  qed
  moreover have "nil_op (rec_op rec k p) = nil_op (rec_op r k p)" if "two_phase p" for k p
  proof -
    have "rec_op rec k p = over ?c (stored_op A) k p"
      using apply_cursor_op [OF assms(3) that, of r0 k] same_opsD [OF r0(2)] that by (simp add: r0(3) over_def)
    then show ?thesis using assms(1) that by (simp add: stores_def)
  qed
  ultimately show ?thesis by (simp add: reads_back_def)
qed

text \<open>One transition that does not end the run.\<close>

definition with_ops :: "op_write list \<Rightarrow> stored_run \<Rightarrow> stored_run" where
  "with_ops ows A = fold (\<lambda>ow. with_op (ow_step ow) (ow_phase ow) (ow_record ow)) ows A"

definition progressed :: "transition \<Rightarrow> stored_run \<Rightarrow> stored_run" where
  "progressed t A = (with_ops (t_ops t) A)\<lparr>st_cursor := t_cursor t, st_failure := (case t_failure t of None \<Rightarrow> st_failure A | Some f \<Rightarrow> Some f)\<rparr>"

text \<open>The operation the old cursor carries stays with the new cursor or is written.\<close>

definition flushes :: "cursor \<Rightarrow> transition \<Rightarrow> bool" where
  "flushes c t \<longleftrightarrow> cu_step c = [] \<or> in_cursor (t_cursor t) (cu_step c) (cu_phase c)
     \<or> list_ex (\<lambda>ow. ow_step ow = cu_step c \<and> ow_phase ow = cu_phase c) (t_ops t)"

definition ops_ok :: "op_write list \<Rightarrow> bool" where
  "ops_ok ows \<longleftrightarrow> list_all (\<lambda>ow. nul_free (ow_step ow) \<and> two_phase (ow_phase ow)) ows"

lemma with_ops_sel [simp]:
  "st_meta (with_ops ows A) = st_meta A" "st_input (with_ops ows A) = st_input A" "st_cancel (with_ops ows A) = st_cancel A"
  "st_failure (with_ops ows A) = st_failure A" "st_cursor (with_ops ows A) = st_cursor A"
  by (induction ows arbitrary: A) (simp_all add: with_ops_def with_op_def)

lemma stored_op_upd [simp]: "stored_op (A\<lparr>st_cursor := c, st_failure := f\<rparr>) = stored_op A"
  by (intro ext) (simp add: stored_op_def)

lemma with_ops_Cons: "with_ops (ow # ows) A = with_ops ows (with_op (ow_step ow) (ow_phase ow) (ow_record ow) A)"
  by (simp add: with_ops_def)

lemma stored_op_with: "stored_op (with_op k p op A) k' p' = (if k' = k \<and> p' = p then nil_op op else stored_op A k' p')"
  by (simp add: stored_op_def with_op_def)

lemma ops_same:
  assumes "ops_ok ows" and "two_phase p" and refl: "\<And>x. Q x x"
    and "Q (nil_op (stored_op A k p)) (nil_op (rec_op r k p)) \<or> list_ex (\<lambda>ow. ow_step ow = k \<and> ow_phase ow = p) ows"
  shows "Q (nil_op (stored_op (with_ops ows A) k p)) (nil_op (rec_op (apply_ops ows r) k p))"
  using assms(1,2,4)
proof (induction ows arbitrary: A r)
  case (Cons ow ows)
  have two: "two_phase (ow_phase ow)" using Cons.prems by (simp add: ops_ok_def)
  have "p = ow_phase ow \<longleftrightarrow> (p = PhaseUnwind \<longleftrightarrow> ow_phase ow = PhaseUnwind)" using two Cons.prems(2) by (auto simp: two_phase_def)
  then show ?case unfolding with_ops_Cons apply_ops_simps
    using Cons.prems refl by (intro Cons.IH) (auto simp: ops_ok_def stored_op_with)
qed (simp add: with_ops_def)

text \<open>Equality of operations once both are laid over by the cursor.\<close>

definition same_under :: "operation_record \<Rightarrow> operation_record \<Rightarrow> bool" where
  "same_under x y \<longleftrightarrow> x\<lparr>or_status := OpNone, or_attempts := 0\<rparr> = y\<lparr>or_status := OpNone, or_attempts := 0\<rparr>"

lemma same_under_over:
  assumes "same_under (nil_op x) (nil_op y)"
  shows "nil_op (x\<lparr>or_status := s, or_attempts := n\<rparr>) = nil_op (y\<lparr>or_status := s, or_attempts := n\<rparr>)"
  using assms by (cases x; cases y) (simp add: same_under_def nil_op_def)

lemma over_same_under: "nil_op (over c f k p) = nil_op y \<Longrightarrow> same_under (nil_op (f k p)) (nil_op y)"
  by (cases "f k p"; cases y) (auto simp: same_under_def nil_op_def over_def split: if_splits)

lemma fields_put: "rec_fields (put_op k p op r) = rec_fields r"
  by (simp add: rec_fields_def put_op_def)

lemma fields_ops: "rec_fields (apply_ops ows r) = rec_fields r"
  by (induction ows arbitrary: r) (simp_all add: fields_put)

lemma fields_cursor: "rec_fields (apply_cursor c r) = set_cursor c (rec_fields r)"
  by (simp add: rec_fields_def apply_cursor_def set_cursor_def put_op_def Let_def)

lemma fields_failure: "rec_fields (apply_failure fo r) = apply_failure fo (rec_fields r)"
  by (simp add: rec_fields_def apply_failure_def split: option.split)

lemma stored_base_progressed: "stored_base (progressed t A) = apply_failure (t_failure t) (stored_base A)"
  by (simp add: progressed_def stored_base_def apply_failure_def split: option.split)

lemma failure_cursor: "set_cursor c ((apply_failure fo x)\<lparr>r_annotations := a\<rparr>) = apply_failure fo (set_cursor c (x\<lparr>r_annotations := a\<rparr>))"
  by (simp add: set_cursor_def apply_failure_def split: option.split)

lemma set_cursor_twice: "set_cursor c (set_cursor c' r) = set_cursor c r"
  by (simp add: set_cursor_def)

lemma stores_progress:
  assumes s: "stores A r" and fl: "flushes (st_cursor A) t" and ok: "ops_ok (t_ops t)" and two: "two_phase (cu_phase (t_cursor t))"
    and t: "t_outcome t = None"
  shows "stores (progressed t A) (apply_transition t r)"
proof -
  let ?c = "t_cursor t" and ?r1 = "apply_ops (t_ops t) r" and ?A1 = "with_ops (t_ops t) A"
  have app: "apply_transition t r = apply_failure (t_failure t) (apply_cursor ?c ?r1)" by (simp add: apply_transition_def apply_outcome_def t)
  have ops: "nil_op (over ?c (stored_op ?A1) k p) = nil_op (rec_op (apply_transition t r) k p)" if p: "two_phase p" for k p
  proof -
    have old: "nil_op (over (st_cursor A) (stored_op A) k p) = nil_op (rec_op r k p)" using s p by (simp add: stores_def)
    have rec: "rec_op (apply_transition t r) k p = over ?c (rec_op ?r1) k p"
      using apply_cursor_op [OF two p, of ?r1 k] unfolding app by (simp add: rec_op_def rec_step_def)
    show ?thesis
    proof (cases "in_cursor ?c k p")
      case True
      have "same_under (nil_op (stored_op ?A1 k p)) (nil_op (rec_op ?r1 k p))"
        by (rule ops_same [OF ok p, of same_under, OF _ disjI1 [OF over_same_under [OF old]]]) (simp add: same_under_def)
      from same_under_over [OF this] show ?thesis using True unfolding rec by (simp only: over_def if_True)
    next
      case False
      have "nil_op (stored_op A k p) = nil_op (rec_op r k p) \<or> list_ex (\<lambda>ow. ow_step ow = k \<and> ow_phase ow = p) (t_ops t)"
        using old fl False by (auto simp: over_def flushes_def in_cursor_def split: if_splits)
      then have "nil_op (stored_op ?A1 k p) = nil_op (rec_op ?r1 k p)" by (rule ops_same [OF ok p, of "(=)", OF refl])
      then show ?thesis using False unfolding rec by (simp add: over_def)
    qed
  qed
  have "set_cursor ?c ((stored_base A)\<lparr>r_annotations := []\<rparr>) = rec_fields (apply_cursor ?c ?r1)"
    using s unfolding fields_cursor fields_ops stores_def by (metis set_cursor_twice)
  then have f: "set_cursor ?c ((stored_base (progressed t A))\<lparr>r_annotations := []\<rparr>) = rec_fields (apply_transition t r)"
    unfolding app fields_failure by (simp only: stored_base_progressed failure_cursor)
  have "mset (r_annotations (st_meta A)) = mset (r_annotations (apply_transition t r))"
    using s apply_transition_identity [of r t] by (simp add: stores_def same_identity_def)
  with f ops show ?thesis by (simp add: stores_def progressed_def)
qed

section \<open>The writes of a transition\<close>

text \<open>An action that turns what the rows of a run say.\<close>

definition turns :: "('t, 'tx) bolt_env \<Rightarrow> run_id \<Rightarrow> (stored_run \<Rightarrow> stored_run) \<Rightarrow> db_view \<Rightarrow> 'a \<Rightarrow> db_view \<Rightarrow> bool" where
  "turns E i F w a w' \<longleftrightarrow> (\<forall>A. renders E i A w \<longrightarrow> renders E i (F A) w')"

lemma turns_then: "effect v m (turns E i F) \<Longrightarrow> (\<And>a. effect v (f a) (turns E i G)) \<Longrightarrow> effect v (act_then m f) (turns E i (G \<circ> F))"
  by (rule effect_then [where R = "turns E i F" and S = "\<lambda>_. turns E i G"]) (auto simp: turns_def)

lemma turns_same: "effect v (act_ok a) (turns E i (\<lambda>A. A))"
  by (rule effect_mono [OF effect_ok]) (simp add: turns_def)

lemma effect_pb_then:
  assumes "\<And>b. r = Inr b \<Longrightarrow> effect v (f b) R"
  shows "effect v (act_then (act_pb r) f) R"
  using assms by (cases r) (simp_all add: effect_def act_then_def act_pb_def)

lemma turns_putOp:
  assumes B: "bolt_ok (be_db E) v" and P: "proto_lib_ok (be_proto E)" and k: "nul_free k" "two_phase p" and max: "0 \<le> be_row_max E"
  shows "effect v (putOp E i k p op) (turns E i (with_op k p op))"
proof (rule effect_mono [OF effect_putOp [OF B]])
  fix w a w' assume "\<exists>b old. MarshalOperationRecord (be_proto E) (row_op (be_row_max E) p op) = Inr b \<and> op_found i k p w old
    \<and> w' = op_written (be_row_max E) i k p op b old w"
  then obtain b old where b: "MarshalOperationRecord (be_proto E) (row_op (be_row_max E) p op) = Inr b" "op_found i k p w old"
    "w' = op_written (be_row_max E) i k p op b old w" by blast
  have "UnmarshalOperationRecord (be_proto E) b = Inr (nil_op (row_op (be_row_max E) p op))"
    using operation_row_roundtrip [OF P b(1)] by (simp add: nil_op_def)
  then show "turns E i (with_op k p op) w a w'" using renders_op [OF _ b(2) k max] b(3) by (simp add: turns_def)
qed

lemma turns_ops:
  assumes B: "bolt_ok (be_db E) v" and P: "proto_lib_ok (be_proto E)" and max: "0 \<le> be_row_max E" and ok: "ops_ok ows"
  shows "effect v (act_each (\<lambda>ow. putOp E i (ow_step ow) (ow_phase ow) (ow_record ow)) ows) (turns E i (with_ops ows))"
  using ok
proof (induction ows)
  case Nil
  show ?case using turns_same [of v "()"] by (simp add: with_ops_def)
next
  case (Cons ow ows)
  have one: "effect v (putOp E i (ow_step ow) (ow_phase ow) (ow_record ow)) (turns E i (with_op (ow_step ow) (ow_phase ow) (ow_record ow)))"
    using Cons.prems by (intro turns_putOp [OF B P _ _ max]) (simp_all add: ops_ok_def)
  have rest: "effect v (act_each (\<lambda>ow. putOp E i (ow_step ow) (ow_phase ow) (ow_record ow)) ows) (turns E i (with_ops ows))"
    using Cons by (simp add: ops_ok_def)
  have "with_ops (ow # ows) = with_ops ows \<circ> with_op (ow_step ow) (ow_phase ow) (ow_record ow)"
    by (intro ext) (simp add: with_ops_Cons)
  then show ?case unfolding act_each.simps by (simp only: turns_then [OF one rest])
qed

text \<open>A row of the run that is neither an operation nor a state.\<close>

lemma renders_field:
  assumes r: "renders E i A w" and rk: "key_ok rk" and new: "entry_ok E A' rk e"
    and others: "\<And>rk'. key_ok rk' \<Longrightarrow> rk' \<noteq> rk \<Longrightarrow> entry_ok E A' rk' = entry_ok E A rk'"
    and same: "st_meta A' = st_meta A" "st_ops A' = st_ops A" "st_cursor A' = st_cursor A"
  shows "renders E i A' (upd ActiveB (key_of i rk) e w)"
proof -
  have "entry_ok E A' rk' (upd ActiveB (key_of i rk) e w ActiveB (key_of i rk'))" if "key_ok rk'" for rk'
    using r new others that cell [OF rk that] by (cases "rk' = rk") (simp_all add: renders_def del: upd_sel)
  then show ?thesis using r rows_under_upd [OF _ rk] same by (simp add: renders_def ops_named_def)
qed

lemma renders_failure: "renders E i A w \<Longrightarrow> UnmarshalFailureRecord (be_proto E) b = Inr f \<Longrightarrow>
    renders E i (A\<lparr>st_failure := Some f\<rparr>) (upd ActiveB (key_of i FailureK) (Some (BRow b)) w)"
proof (erule renders_field)
  fix rk' assume "rk' \<noteq> FailureK"
  then show "entry_ok E (A\<lparr>st_failure := Some f\<rparr>) rk' = entry_ok E A rk'" by (cases rk') (auto simp: fun_eq_iff)
qed (simp_all add: decodes_def)

lemma renders_cancel: "renders E i A w \<Longrightarrow> UnmarshalCancel (be_proto E) b = Inr c \<Longrightarrow>
    renders E i (A\<lparr>st_cancel := Some c\<rparr>) (upd ActiveB (key_of i CancelK) (Some (BRow b)) w)"
proof (erule renders_field)
  fix rk' assume "rk' \<noteq> CancelK"
  then show "entry_ok E (A\<lparr>st_cancel := Some c\<rparr>) rk' = entry_ok E A rk'" by (cases rk') (auto simp: fun_eq_iff)
qed (simp_all add: decodes_def)

lemma renders_cursor:
  assumes r: "renders E i A w" and c: "UnmarshalCursor (be_proto E) b = Inr c"
  shows "renders E i (A\<lparr>st_cursor := c\<rparr>) (upd CursorB i (Some (BRow b)) w)"
proof -
  have "entry_ok E (A\<lparr>st_cursor := c\<rparr>) rk = entry_ok E A rk" for rk by (cases rk) (auto simp: fun_eq_iff)
  then show ?thesis using assms by (simp add: renders_def ops_named_def rows_under_def decodes_def)
qed

lemma effect_putOnce:
  assumes B: "bolt_ok (be_db E) v"
  shows "effect v (putOnce E what i k x) (\<lambda>w a w'. row_of (w ActiveB k) = None \<and> w' = upd ActiveB k (Some (BRow x)) w)"
  unfolding putOnce_def
proof (rule effect_then [OF effect_get [OF B]])
  fix old show "effect v (if old \<noteq> None then act_fail (ErrStore (''bbolt: '' @ what @ '' of run '' @ i @ '' already written'')) else act_put E ActiveB k x)
      (\<lambda>w a w'. old = None \<and> w' = upd ActiveB k (Some (BRow x)) w)"
    by (rule effect_if) (simp add: effect_fail, rule effect_mono [OF effect_put [OF B]], simp)
qed auto

definition failed_with :: "failure option \<Rightarrow> stored_run \<Rightarrow> stored_run" where
  "failed_with fo A = A\<lparr>st_failure := (case fo of None \<Rightarrow> st_failure A | Some f \<Rightarrow> Some f)\<rparr>"

lemma turns_failure:
  assumes B: "bolt_ok (be_db E) v" and P: "proto_lib_ok (be_proto E)"
  shows "effect v (case fo of None \<Rightarrow> act_ok () | Some f \<Rightarrow> putRootFailure E i f) (turns E i (failed_with fo))"
proof (cases fo)
  case None
  have "failed_with None = (\<lambda>A. A)" by (intro ext) (simp add: failed_with_def)
  then show ?thesis using turns_same [of v "()"] None by simp
next
  case (Some f)
  have "effect v (putRootFailure E i f) (turns E i (failed_with (Some f)))"
    unfolding putRootFailure_def
  proof (rule effect_pb_then)
    fix b assume "MarshalFailureRecord (be_proto E) f = Inr b"
    then have "UnmarshalFailureRecord (be_proto E) b = Inr f" by (rule failure_row_roundtrip [OF P])
    then show "effect v (putOnce E ''failure'' i (activeKey i tagFailure) b) (turns E i (failed_with (Some f)))"
      by (intro effect_mono [OF effect_putOnce [OF B]]) (simp add: turns_def failed_with_def key_of_eqs renders_failure)
  qed
  with Some show ?thesis by simp
qed

definition cursor_ok :: "cursor \<Rightarrow> bool" where
  "cursor_ok c \<longleftrightarrow> two_phase (cu_phase c) \<and> (case cu_awaiting c of None \<Rightarrow> True | Some a \<Rightarrow> aw_mode a \<noteq> AwaitModeNone)"

lemma turns_cursor:
  assumes B: "bolt_ok (be_db E) v" and P: "proto_lib_ok (be_proto E)" and c: "cursor_ok c" and b: "MarshalCursor (be_proto E) c = Inr b"
  shows "effect v (act_put E CursorB i b) (turns E i (st_cursor_update (\<lambda>_. c)))"
proof (rule effect_mono [OF effect_put [OF B]])
  have dec: "UnmarshalCursor (be_proto E) b = Inr c" using cursor_row_roundtrip [OF P _ b] c by (simp add: cursor_ok_def)
  fix w w' and a :: unit assume "w' = upd CursorB i (Some (BRow b)) w"
  then show "turns E i (st_cursor_update (\<lambda>_. c)) w a w'"
    using renders_cursor [OF _ dec] by (simp add: turns_def)
qed

lemma with_ops_upd: "with_ops ows (A\<lparr>st_failure := f, st_cursor := c\<rparr>) = (with_ops ows A)\<lparr>st_failure := f, st_cursor := c\<rparr>"
proof (induction ows arbitrary: A)
  case (Cons ow ows)
  have "with_op k p op (A\<lparr>st_failure := f, st_cursor := c\<rparr>) = (with_op k p op A)\<lparr>st_failure := f, st_cursor := c\<rparr>" for k p op
    by (simp add: with_op_def)
  then show ?case by (simp add: with_ops_Cons Cons.IH)
qed (simp add: with_ops_def)

lemma turns_progress:
  assumes B: "bolt_ok (be_db E) v" and P: "proto_lib_ok (be_proto E)" and max: "0 \<le> be_row_max E" and ok: "ops_ok (t_ops t)" and c: "cursor_ok (t_cursor t)"
  shows "effect v (commit_progress E i t) (turns E i (progressed t))"
proof -
  have "effect v (act_then (act_pb (MarshalCursor (be_proto E) (t_cursor t))) (\<lambda>b. act_then (act_put E CursorB i b)
      (\<lambda>_. act_each (\<lambda>ow. putOp E i (ow_step ow) (ow_phase ow) (ow_record ow)) (t_ops t))))
      (turns E i (with_ops (t_ops t) \<circ> st_cursor_update (\<lambda>_. t_cursor t)))"
    by (intro effect_pb_then turns_then [OF turns_cursor [OF B P c] turns_ops [OF B P max ok]])
  then have "effect v (commit_progress E i t) (turns E i ((with_ops (t_ops t) \<circ> st_cursor_update (\<lambda>_. t_cursor t)) \<circ> failed_with (t_failure t)))"
    unfolding commit_progress_def by (rule turns_then [OF turns_failure [OF B P]])
  moreover have "((with_ops (t_ops t) \<circ> st_cursor_update (\<lambda>_. t_cursor t)) \<circ> failed_with (t_failure t)) = progressed t"
    by (intro ext) (simp add: progressed_def failed_with_def with_ops_upd)
  ultimately show ?thesis by simp
qed

end
