(* ===== verification/Bolt_Create.thy ===== *)
theory Bolt_Create
  imports Bolt_Refine
begin

text \<open>
  What the rows of a run say once \<^verbatim>\<open>CreateRun\<close> has written it: \<open>putRun\<close> into blank rows
  renders the record, as a fresh run of the contract has it.
\<close>

section \<open>A new run\<close>

definition blank :: "run_id \<Rightarrow> db_view \<Rightarrow> bool" where
  "blank i w \<longleftrightarrow> (\<forall>k. prefix (runPrefix i) k \<longrightarrow> w ActiveB k = None)"

text \<open>The writes of the step map, as operations.\<close>

definition step_writes :: "step_id \<times> step_record \<Rightarrow> op_write list" where
  "step_writes x = map (\<lambda>p. \<lparr>ow_step = fst x, ow_phase = p, ow_record = sr_op p (snd x)\<rparr>)
     (filter (\<lambda>p. or_status (sr_op p (snd x)) \<noteq> OpNone) [PhaseForward, PhaseUnwind])"

definition steps_writes :: "(step_id, step_record) gomap \<Rightarrow> op_write list" where
  "steps_writes m = concat (map step_writes m)"

lemma act_then_assoc: "act_then (act_then m f) g = act_then m (\<lambda>a. act_then (f a) g)"
  by (intro ext) (simp add: act_then_def split: prod.split sum.split)

lemma act_then_ok [simp]: "act_then (act_ok a) f = f a"
  by (intro ext) (simp add: act_then_def act_ok_def)

lemma then_act_ok [simp]: "act_then m (\<lambda>_. act_ok ()) = m"
  by (intro ext) (simp add: act_then_def act_ok_def split: prod.split sum.split)

lemma act_each_append: "act_each f (xs @ ys) = act_then (act_each f xs) (\<lambda>_. act_each f ys)"
  by (induction xs) (simp_all add: act_then_assoc)

lemma act_each_filter: "act_each (\<lambda>x. if c x then f x else act_ok ()) xs = act_each f (filter c xs)"
  by (induction xs) auto

lemma act_each_map: "act_each f (map g xs) = act_each (\<lambda>x. f (g x)) xs"
  by (induction xs) auto

lemma putStep_writes: "putStep E i x = act_each (\<lambda>ow. putOp E i (ow_step ow) (ow_phase ow) (ow_record ow)) (step_writes x)"
  unfolding putStep_def step_writes_def act_each_map act_each_filter by (simp add: case_prod_beta)

lemma putSteps_writes: "act_each (putStep E i) m = act_each (\<lambda>ow. putOp E i (ow_step ow) (ow_phase ow) (ow_record ow)) (steps_writes m)"
  by (induction m) (simp_all add: steps_writes_def act_each_append putStep_writes)

text \<open>What is asked of a record to create: no output, and an operation without a status has nothing else.\<close>

definition op_blank :: "operation_record \<Rightarrow> bool" where
  "op_blank op \<longleftrightarrow> (or_status op = OpNone \<longrightarrow> op = zero_op)"

definition creatable :: "run_record \<Rightarrow> bool" where
  "creatable r \<longleftrightarrow> storable r \<and> nul_free (r_run r) \<and> nil_bytes (r_output r) = None \<and> cursor_ok (first_cursor r)
     \<and> list_all (\<lambda>(k, sr). nul_free k \<and> op_blank (sr_forward sr) \<and> op_blank (sr_unwind sr)) (r_steps r)"

lemma steps_writes_ok: "creatable r \<Longrightarrow> ops_ok (steps_writes (r_steps r))"
  by (auto simp: creatable_def ops_ok_def steps_writes_def step_writes_def two_phase_def list_all_iff)

lemma apply_step_writes:
  assumes "op_blank (sr_forward sr)" "op_blank (sr_unwind sr)" "gm_get (r_steps r) k = None" "two_phase p"
  shows "rec_op (apply_ops (step_writes (k, sr)) r) k' p = (if k' = k then sr_op p sr else rec_op r k' p)"
proof -
  have "rec_op r k q = zero_op" for q using assms(3) by (simp add: rec_op_def rec_step_def)
  then show ?thesis using assms by (auto simp: step_writes_def op_blank_def two_phase_def) (auto simp: sr_op_def)
qed

lemma step_writes_keys: "gm_get (r_steps (apply_ops (step_writes (k, sr)) r)) k' = None \<longleftrightarrow> gm_get (r_steps r) k' = None \<and> (k' \<noteq> k \<or> step_writes (k, sr) = [])"
  by (auto simp: step_writes_def put_op_def)

lemma apply_steps_writes:
  assumes "gm_ok m" and "list_all (\<lambda>(k, sr). nul_free k \<and> op_blank (sr_forward sr) \<and> op_blank (sr_unwind sr)) m"
    and "\<And>k. gm_has m k \<Longrightarrow> gm_get (r_steps r) k = None" and p: "two_phase p"
  shows "rec_op (apply_ops (steps_writes m) r) k p = (case gm_get m k of None \<Rightarrow> rec_op r k p | Some sr \<Rightarrow> sr_op p sr)"
  using assms(1-3)
proof (induction m arbitrary: r)
  case (Cons x m)
  obtain k0 sr where x: "x = (k0, sr)" by (cases x)
  let ?r1 = "apply_ops (step_writes (k0, sr)) r"
  have k0: "gm_get m k0 = None" using Cons.prems(1) by (auto simp: x gm_ok_def map_of_eq_None_iff)
  have one: "rec_op ?r1 k p = (if k = k0 then sr_op p sr else rec_op r k p)"
    using Cons.prems(2) Cons.prems(3) [of k0] by (intro apply_step_writes p) (auto simp: x)
  have "gm_get (r_steps ?r1) k' = None" if "gm_has m k'" for k'
    using Cons.prems(3) [of k'] that k0 by (auto simp: step_writes_keys x)
  then have "rec_op (apply_ops (steps_writes m) ?r1) k p = (case gm_get m k of None \<Rightarrow> rec_op ?r1 k p | Some sr \<Rightarrow> sr_op p sr)"
    using Cons.prems(1,2) by (intro Cons.IH) (auto simp: x gm_ok_def)
  then show ?case using one k0 by (auto simp: x steps_writes_def apply_ops_append split: option.split)
qed (simp add: steps_writes_def)

definition newborn :: "run_record \<Rightarrow> run_record \<Rightarrow> stored_run" where
  "newborn r m = \<lparr>st_meta = m, st_input = nil_bytes (r_input r), st_cancel = None, st_failure = None, st_ops = (\<lambda>_ _. None), st_cursor = first_cursor r\<rparr>"

definition created :: "run_record \<Rightarrow> run_record \<Rightarrow> stored_run" where
  "created r m = (with_ops (steps_writes (r_steps r)) (newborn r m))\<lparr>st_failure := r_failure r, st_cancel := r_cancel r\<rparr>"

lemma renders_newborn:
  assumes blank: "blank i w" and m: "UnmarshalRunMetaInto (be_proto E) mb zero_record = Inr m" "bare i m"
    and c: "UnmarshalCursor (be_proto E) cb = Inr (first_cursor r)"
  shows "renders E i (newborn r m) (upd CursorB i (Some (BRow cb))
    (if 0 < blen (r_input r) then upd ActiveB (key_of i InputK) (Some (blob_entry (be_row_max E) (the_bytes (r_input r)))) (upd ActiveB (key_of i MetaK) (Some (BRow mb)) w)
     else upd ActiveB (key_of i MetaK) (Some (BRow mb)) w))" (is "renders E i ?A ?w")
proof -
  have inp: "nil_bytes (r_input r) = (if 0 < blen (r_input r) then Some (the_bytes (r_input r)) else None)"
    by (auto simp: nil_bytes_def blen_def split: option.splits)
  have none: "w ActiveB (key_of i rk) = None" for rk using blank by (simp add: blank_def)
  have cells: "?w ActiveB (key_of i rk) = (if rk = MetaK then Some (BRow mb)
      else if rk = InputK \<and> 0 < blen (r_input r) then Some (blob_entry (be_row_max E) (the_bytes (r_input r))) else None)" if rk: "key_ok rk" for rk
  proof -
    define x where "x = upd ActiveB (key_of i MetaK) (Some (BRow mb)) w ActiveB (key_of i rk)"
    define y where "y = upd ActiveB (key_of i InputK) (Some (blob_entry (be_row_max E) (the_bytes (r_input r))))
        (upd ActiveB (key_of i MetaK) (Some (BRow mb)) w) ActiveB (key_of i rk)"
    have w: "?w ActiveB (key_of i rk) = (if 0 < blen (r_input r) then y else x)"
      by (simp add: x_def y_def upd_def [of CursorB] del: upd_sel cell)
    have x: "x = (if rk = MetaK then Some (BRow mb) else None)"
      unfolding x_def using cell [of MetaK rk i "Some (BRow mb)" w] rk none by simp
    have y: "y = (if rk = InputK then Some (blob_entry (be_row_max E) (the_bytes (r_input r))) else x)"
      unfolding y_def x_def by (rule cell) (simp_all add: rk)
    show ?thesis unfolding w y unfolding x by simp
  qed
  have "entry_ok E ?A rk (?w ActiveB (key_of i rk))" if "key_ok rk" for rk
    unfolding cells [OF that] using m(1) inp by (cases rk) (simp_all add: newborn_def decodes_def)
  moreover have "rows_under i ?w"
  proof -
    have "rows_under i w" using blank by (simp add: rows_under_def blank_def)
    then have "rows_under i (upd ActiveB (key_of i InputK) e (upd ActiveB (key_of i MetaK) e' w))" "rows_under i (upd ActiveB (key_of i MetaK) e' w)" for e e'
      by (simp_all add: rows_under_upd del: upd_sel)
    then show ?thesis by (simp add: rows_under_def)
  qed
  ultimately show ?thesis using m(2) c by (simp add: renders_def ops_named_def decodes_def) (simp add: newborn_def)
qed

lemma stores_created:
  assumes r: "creatable r" and m: "m = zero_record\<lparr>r_run := r_run r, r_pipeline := r_pipeline r, r_resource := r_resource r, r_created_at := r_created_at r, r_annotations := as\<rparr>"
    and as: "mset as = mset (r_annotations r)"
  shows "stores (created r m) r"
proof -
  let ?A = "created r m" and ?r0 = "r\<lparr>r_steps := []\<rparr>"
  have nt: "r_outcome r = None" "nil_bytes (r_output r) = None" "gm_ok (r_steps r)"
    using r by (auto simp: creatable_def storable_def terminal_def)
  have "set_cursor (st_cursor ?A) ((stored_base ?A)\<lparr>r_annotations := []\<rparr>) = rec_fields r"
    using nt by (cases r) (simp add: created_def newborn_def set_cursor_def stored_base_def rec_fields_def first_cursor_def m zero_record_def)
  moreover have "nil_op (over (st_cursor ?A) (stored_op ?A) k p) = nil_op (rec_op r k p)" if p: "two_phase p" for k p
  proof -
    have "nil_op (stored_op (with_ops (steps_writes (r_steps r)) (newborn r m)) k p) = nil_op (rec_op (apply_ops (steps_writes (r_steps r)) ?r0) k p)"
      by (rule ops_same [OF steps_writes_ok [OF r] p, of "(=)", OF refl]) (simp add: stored_op_def newborn_def rec_op_def rec_step_def)
    also have "rec_op (apply_ops (steps_writes (r_steps r)) ?r0) k p = rec_op r k p"
      using r by (subst apply_steps_writes [OF nt(3) _ _ p]) (auto simp: creatable_def rec_op_def rec_step_def split: option.split)
    finally show ?thesis by (simp add: over_def in_cursor_def created_def newborn_def first_cursor_def stored_op_def)
  qed
  ultimately show ?thesis using as by (simp add: stores_def created_def newborn_def m)
qed

definition canceled_with :: "cancel_request option \<Rightarrow> stored_run \<Rightarrow> stored_run" where
  "canceled_with co A = A\<lparr>st_cancel := (case co of None \<Rightarrow> st_cancel A | Some c \<Rightarrow> Some c)\<rparr>"

lemma turns_cancel:
  assumes B: "bolt_ok (be_db E) v" and P: "proto_lib_ok (be_proto E)"
  shows "effect v (case co of None \<Rightarrow> act_ok () | Some c \<Rightarrow> act_then (act_pb (MarshalCancel (be_proto E) c))
      (\<lambda>b. putOnce E ''cancel request'' i (activeKey i tagCancel) b)) (turns E i (canceled_with co))"
proof (cases co)
  case None
  have "canceled_with None = (\<lambda>A. A)" by (intro ext) (simp add: canceled_with_def)
  then show ?thesis using turns_same [of v "()"] None by simp
next
  case (Some c)
  have "effect v (act_then (act_pb (MarshalCancel (be_proto E) c)) (\<lambda>b. putOnce E ''cancel request'' i (activeKey i tagCancel) b))
      (turns E i (canceled_with (Some c)))"
  proof (rule effect_pb_then)
    fix b assume "MarshalCancel (be_proto E) c = Inr b"
    then have "UnmarshalCancel (be_proto E) b = Inr c" by (rule cancel_row_roundtrip [OF P])
    then show "effect v (putOnce E ''cancel request'' i (activeKey i tagCancel) b) (turns E i (canceled_with (Some c)))"
      by (intro effect_mono [OF effect_putOnce [OF B]]) (simp add: turns_def canceled_with_def key_of_eqs renders_cancel)
  qed
  with Some show ?thesis by simp
qed

lemma effect_putRun_rows:
  assumes B: "bolt_ok (be_db E) v" and P: "proto_lib_ok (be_proto E)" and max: "0 \<le> be_row_max E" and r: "creatable r"
  shows "effect v (putRun E r) (\<lambda>w a w'. blank (r_run r) w \<longrightarrow> (\<exists>A. renders E (r_run r) A w' \<and> stores A r \<and> st_cursor A = first_cursor r))"
proof -
  let ?i = "r_run r" and ?P = "be_proto E" and ?inp = "r_input r"
  let ?rest = "\<lambda>_. act_then (case r_failure r of None \<Rightarrow> act_ok () | Some f \<Rightarrow> putRootFailure E ?i f) (\<lambda>_.
         case r_cancel r of None \<Rightarrow> act_ok ()
         | Some c \<Rightarrow> act_then (act_pb (MarshalCancel ?P c)) (\<lambda>b. putOnce E ''cancel request'' ?i (activeKey ?i tagCancel) b))"
  have steps: "effect v (act_each (putStep E ?i) (r_steps r)) (turns E ?i (with_ops (steps_writes (r_steps r))))"
    unfolding putSteps_writes by (rule turns_ops [OF B P max steps_writes_ok [OF r]])
  have tail: "effect v (act_then (act_each (putStep E ?i) (r_steps r)) ?rest)
      (turns E ?i ((canceled_with (r_cancel r) \<circ> failed_with (r_failure r)) \<circ> with_ops (steps_writes (r_steps r))))"
    by (rule turns_then [OF steps turns_then [OF turns_failure [OF B P] turns_cancel [OF B P]]])
  have F: "((canceled_with (r_cancel r) \<circ> failed_with (r_failure r)) \<circ> with_ops (steps_writes (r_steps r))) (newborn r m) = created r m" for m
    by (auto simp: canceled_with_def failed_with_def created_def newborn_def split: option.split)
  let ?W2 = "\<lambda>w. if 0 < blen ?inp then upd ActiveB (key_of ?i InputK) (Some (blob_entry (be_row_max E) (the_bytes ?inp))) w else w"
  have input: "effect v (if 0 < blen ?inp then putBlob E ActiveB (activeKey ?i tagInput) (the_bytes ?inp) else act_ok ()) (\<lambda>w a w'. w' = ?W2 w)"
    by (cases "0 < blen ?inp") (simp_all add: key_of_eqs effect_putBlob [OF B] effect_same)
  have late: "effect v (act_then (act_pb (MarshalCursor ?P (first_cursor r))) (\<lambda>cb. act_then (act_put E CursorB ?i cb) (\<lambda>_. act_then (act_each (putStep E ?i) (r_steps r)) ?rest)))
      (\<lambda>w a w'. \<forall>m. (\<forall>cb. UnmarshalCursor ?P cb = Inr (first_cursor r) \<longrightarrow> renders E ?i (newborn r m) (upd CursorB ?i (Some (BRow cb)) w)) \<longrightarrow> renders E ?i (created r m) w')"
  proof (rule effect_pb_then)
    fix cb assume "MarshalCursor ?P (first_cursor r) = Inr cb"
    then have cb: "UnmarshalCursor ?P cb = Inr (first_cursor r)" using r cursor_row_roundtrip [OF P] by (simp add: creatable_def cursor_ok_def)
    show "effect v (act_then (act_put E CursorB ?i cb) (\<lambda>_. act_then (act_each (putStep E ?i) (r_steps r)) ?rest))
      (\<lambda>w a w'. \<forall>m. (\<forall>cb. UnmarshalCursor ?P cb = Inr (first_cursor r) \<longrightarrow> renders E ?i (newborn r m) (upd CursorB ?i (Some (BRow cb)) w)) \<longrightarrow> renders E ?i (created r m) w')"
      by (rule effect_then [OF effect_put [OF B] tail]) (metis cb F turns_def)
  qed
  have mid: "effect v (act_then (if 0 < blen ?inp then putBlob E ActiveB (activeKey ?i tagInput) (the_bytes ?inp) else act_ok ()) (\<lambda>_.
       act_then (act_pb (MarshalCursor ?P (first_cursor r))) (\<lambda>cb. act_then (act_put E CursorB ?i cb) (\<lambda>_. act_then (act_each (putStep E ?i) (r_steps r)) ?rest))))
      (\<lambda>w a w'. \<forall>m. (\<forall>cb. UnmarshalCursor ?P cb = Inr (first_cursor r) \<longrightarrow> renders E ?i (newborn r m) (upd CursorB ?i (Some (BRow cb)) (?W2 w))) \<longrightarrow> renders E ?i (created r m) w')"
    by (rule effect_then [OF input late]) (simp only:)
  have once: "effect v (putOnce E ''meta'' ?i (activeKey ?i tagMeta) mb) (\<lambda>w a w'. w' = upd ActiveB (key_of ?i MetaK) (Some (BRow mb)) w)" for mb
    by (rule effect_mono [OF effect_putOnce [OF B]]) (simp add: key_of_eqs)
  have "effect v (act_then (act_pb (MarshalRunMeta ?P r)) (\<lambda>meta. act_then (putOnce E ''meta'' ?i (activeKey ?i tagMeta) meta) (\<lambda>_.
       act_then (if 0 < blen ?inp then putBlob E ActiveB (activeKey ?i tagInput) (the_bytes ?inp) else act_ok ()) (\<lambda>_.
       act_then (act_pb (MarshalCursor ?P (first_cursor r))) (\<lambda>cb. act_then (act_put E CursorB ?i cb) (\<lambda>_. act_then (act_each (putStep E ?i) (r_steps r)) ?rest))))))
      (\<lambda>w a w'. blank ?i w \<longrightarrow> (\<exists>A. renders E ?i A w' \<and> stores A r \<and> st_cursor A = first_cursor r))"
  proof (rule effect_pb_then)
    fix mb assume "MarshalRunMeta ?P r = Inr mb"
    then obtain as where as: "mset as = mset (r_annotations r)" and m: "UnmarshalRunMetaInto ?P mb zero_record = Inr (zero_record\<lparr>r_run := r_run r,
        r_pipeline := r_pipeline r, r_resource := r_resource r, r_created_at := r_created_at r, r_annotations := as\<rparr>)"
      using run_meta_row_roundtrip [OF P] by blast
    define m where "m = zero_record\<lparr>r_run := r_run r, r_pipeline := r_pipeline r, r_resource := r_resource r, r_created_at := r_created_at r, r_annotations := as\<rparr>"
    have bare: "bare ?i m" by (simp add: bare_def m_def)
    have st: "stores (created r m) r \<and> st_cursor (created r m) = first_cursor r"
      using stores_created [OF r m_def as] by (simp add: created_def newborn_def)
    show "effect v (act_then (putOnce E ''meta'' ?i (activeKey ?i tagMeta) mb) (\<lambda>_.
       act_then (if 0 < blen ?inp then putBlob E ActiveB (activeKey ?i tagInput) (the_bytes ?inp) else act_ok ()) (\<lambda>_.
       act_then (act_pb (MarshalCursor ?P (first_cursor r))) (\<lambda>cb. act_then (act_put E CursorB ?i cb) (\<lambda>_. act_then (act_each (putStep E ?i) (r_steps r)) ?rest)))))
      (\<lambda>w a w'. blank ?i w \<longrightarrow> (\<exists>A. renders E ?i A w' \<and> stores A r \<and> st_cursor A = first_cursor r))"
    proof (rule effect_then [OF once mid], intro impI)
      fix w and a :: unit and w' and b :: unit and w''
      assume w': "w' = upd ActiveB (key_of ?i MetaK) (Some (BRow mb)) w" and blank: "blank ?i w"
        and all: "\<forall>m. (\<forall>cb. UnmarshalCursor ?P cb = Inr (first_cursor r) \<longrightarrow> renders E ?i (newborn r m) (upd CursorB ?i (Some (BRow cb)) (?W2 w'))) \<longrightarrow> renders E ?i (created r m) w''"
      have "renders E ?i (newborn r m) (upd CursorB ?i (Some (BRow cb)) (?W2 w'))" if "UnmarshalCursor ?P cb = Inr (first_cursor r)" for cb
        unfolding w' by (rule renders_newborn [OF blank _ bare that]) (use m in \<open>simp only: m_def\<close>)
      then have "renders E ?i (created r m) w''" using all by blast
      with st show "\<exists>A. renders E ?i A w'' \<and> stores A r \<and> st_cursor A = first_cursor r" by blast
    qed
  qed
  then show ?thesis using r by (simp add: putRun_def creatable_def storable_def Let_def)
qed

end
