(* ===== verification/Bolt_Inv.thy ===== *)
theory Bolt_Inv
  imports Bolt_Rules
begin

text \<open>
  The invariant of the bbolt store's buckets, over every history of its methods, drains, failures and
  restarts: the slots are held by exactly the live runs, one run per slot; a staged run is terminal, and a
  terminal run whose stage is still there is staged; every terminal run has exactly one expiry key and
  no other run has one. So the drain and the reaper never touch a live run, and no two live
  runs exclude each other.
\<close>

section \<open>Runs in a view\<close>

definition meta_of :: "('t, bytes) proto_lib \<Rightarrow> db_view \<Rightarrow> run_id \<Rightarrow> 't pb_run_meta option" where
  "meta_of P w i = Option.bind (meta_row_at w i) (\<lambda>b. case pl_run_meta P b of Inr m \<Rightarrow> Some m | Inl _ \<Rightarrow> None)"

definition has_meta :: "db_view \<Rightarrow> run_id \<Rightarrow> bool" where
  "has_meta w i \<longleftrightarrow> w ActiveB (activeKey i tagMeta) \<noteq> None"

definition ended :: "db_view \<Rightarrow> run_id \<Rightarrow> bool" where
  "ended w i \<longleftrightarrow> w TerminalB i \<noteq> None"

text \<open>A live run: not terminal, with its identity readable.\<close>

definition live :: "('t, bytes) proto_lib \<Rightarrow> db_view \<Rightarrow> run_id \<Rightarrow> 't pb_run_meta \<Rightarrow> bool" where
  "live P w i m \<longleftrightarrow> nul_free i \<and> \<not> ended w i \<and> meta_of P w i = Some m"

definition slot_of :: "'t pb_run_meta \<Rightarrow> bytes" where
  "slot_of m = slotKeyFor (rm_pipeline_id m) (rm_resource_id m)"

definition slots_ok :: "('t, bytes) proto_lib \<Rightarrow> db_view \<Rightarrow> bool" where
  "slots_ok P w \<longleftrightarrow> (\<forall>k. w SlotsB k \<noteq> None \<longrightarrow> (\<exists>i m. w SlotsB k = Some (BRow i) \<and> live P w i m \<and> k = slot_of m)) \<and>
     (\<forall>i. nul_free i \<longrightarrow> \<not> ended w i \<longrightarrow> has_meta w i \<longrightarrow> (\<exists>m. live P w i m \<and> rm_run_id m = i \<and> nul_free (rm_pipeline_id m) \<and>
        w SlotsB (slot_of m) = Some (BRow i) \<and> row_of (w CursorB i) \<noteq> None))"

definition staged_ok :: "db_view \<Rightarrow> bool" where
  "staged_ok w \<longleftrightarrow> (\<forall>i. w StagedB i \<noteq> None \<longrightarrow> nul_free i \<and> ended w i) \<and>
     (\<forall>i. nul_free i \<longrightarrow> ended w i \<longrightarrow> has_meta w i \<longrightarrow> w StagedB i \<noteq> None)"

definition expiry_ok :: "db_view \<Rightarrow> bool" where
  "expiry_ok w \<longleftrightarrow> (\<forall>i. nul_free i \<longrightarrow> ended w i \<longrightarrow> row_of (w TerminalB i) \<noteq> None \<and> (\<exists>t. w ExpiryB (expiryKey t i) \<noteq> None)) \<and>
     (\<forall>k. w ExpiryB k \<noteq> None \<longrightarrow> (\<exists>t i. k = expiryKey t i \<and> nul_free i \<and> ended w i)) \<and>
     (\<forall>k k'. w ExpiryB k \<noteq> None \<longrightarrow> w ExpiryB k' \<noteq> None \<longrightarrow> drop 8 k = drop 8 k' \<longrightarrow> k = k')"

definition bolt_inv :: "('t, bytes) proto_lib \<Rightarrow> db_view \<Rightarrow> bool" where
  "bolt_inv P w \<longleftrightarrow> slots_ok P w \<and> staged_ok w \<and> expiry_ok w"

definition known :: "db_view \<Rightarrow> run_id set \<Rightarrow> bool" where
  "known w used \<longleftrightarrow> (\<forall>i. nul_free i \<longrightarrow> has_meta w i \<or> ended w i \<longrightarrow> i \<in> used)"

lemma bolt_inv_empty: "bolt_inv P (\<lambda>_ _. None)"
  by (simp add: bolt_inv_def slots_ok_def staged_ok_def expiry_ok_def has_meta_def ended_def)

lemma meta_key_prefix: "nul_free i \<Longrightarrow> nul_free j \<Longrightarrow> prefix (runPrefix i) (activeKey j t) \<longleftrightarrow> i = j"
  using runPrefix_prefix [of i j "[t]"] by (simp add: activeKey_def)

lemma outputKey_not_nul_free: "\<not> nul_free (outputKey i)"
  by (simp add: outputKey_def)

lemma drop_expiryKey [simp]: "drop 8 (expiryKey t i) = i"
  by (simp add: expiryKey_def)

section \<open>What keeps the invariant\<close>

text \<open>Two views that agree on the runs, the slots, the stages and the expiry index.\<close>

lemma bolt_inv_agree:
  assumes inv: "bolt_inv P w"
    and same: "w' SlotsB = w SlotsB" "w' TerminalB = w TerminalB" "w' StagedB = w StagedB" "w' ExpiryB = w ExpiryB"
    and meta: "\<And>j. nul_free j \<Longrightarrow> w' ActiveB (activeKey j tagMeta) = w ActiveB (activeKey j tagMeta)"
    and cursor: "\<And>j. nul_free j \<Longrightarrow> row_of (w CursorB j) \<noteq> None \<Longrightarrow> row_of (w' CursorB j) \<noteq> None"
  shows "bolt_inv P w'"
proof -
  have e: "ended w' = ended w" by (simp add: ended_def same fun_eq_iff)
  have m: "has_meta w' j = has_meta w j" "meta_of P w' j = meta_of P w j" if "nul_free j" for j
    using meta [OF that] by (simp_all add: has_meta_def meta_of_def meta_row_at_def)
  have l: "live P w' j x \<longleftrightarrow> live P w j x" for j x by (cases "nul_free j") (simp_all add: live_def e m)
  have "slots_ok P w'" unfolding slots_ok_def same e l
  proof (intro conjI allI impI)
    fix k assume "w SlotsB k \<noteq> None"
    then show "\<exists>i m. w SlotsB k = Some (BRow i) \<and> live P w i m \<and> k = slot_of m"
      using inv unfolding bolt_inv_def slots_ok_def by blast
  next
    fix i assume i: "nul_free i" "\<not> ended w i" "has_meta w' i"
    then have "has_meta w i" using m(1) by blast
    then obtain x where "live P w i x" "rm_run_id x = i" "nul_free (rm_pipeline_id x)" "w SlotsB (slot_of x) = Some (BRow i)" "row_of (w CursorB i) \<noteq> None"
      using inv i unfolding bolt_inv_def slots_ok_def by blast
    then show "\<exists>m. live P w i m \<and> rm_run_id m = i \<and> nul_free (rm_pipeline_id m) \<and> w SlotsB (slot_of m) = Some (BRow i) \<and> row_of (w' CursorB i) \<noteq> None"
      using cursor [OF i(1)] by blast
  qed
  moreover have "staged_ok w'" using inv m(1) unfolding bolt_inv_def staged_ok_def same e by blast
  moreover have "expiry_ok w'" using inv unfolding bolt_inv_def expiry_ok_def same e by blast
  ultimately show ?thesis by (simp add: bolt_inv_def)
qed

lemma run_local_meta:
  assumes "run_local i w w'" "nul_free i" "nul_free j"
  shows "w' ActiveB (activeKey j tagMeta) = w ActiveB (activeKey j tagMeta)"
proof (rule ccontr)
  assume "w' ActiveB (activeKey j tagMeta) \<noteq> w ActiveB (activeKey j tagMeta)"
  then have "prefix (runPrefix i) (activeKey j tagMeta)" "activeKey j tagMeta \<noteq> activeKey i tagMeta"
    using assms(1) by (auto simp: run_local_def)
  then show False using meta_key_prefix [OF assms(2,3)] by simp
qed

lemma run_local_bucket:
  assumes "run_local i w w'" "b \<noteq> ActiveB" "b \<noteq> CursorB"
  shows "w' b = w b"
  using assms unfolding run_local_def by (intro ext) blast

lemma run_local_cursor:
  assumes "run_local i w w'" "row_of (w CursorB j) \<noteq> None"
  shows "row_of (w' CursorB j) \<noteq> None"
proof (cases "j = i")
  case True
  then show ?thesis using assms by (auto simp: run_local_def)
next
  case False
  then have "w' CursorB j = w CursorB j" using assms(1) unfolding run_local_def by (metis bucket.distinct(1))
  then show ?thesis using assms(2) by simp
qed

lemma run_local_same:
  assumes "run_local i w w'"
  shows "w' SlotsB = w SlotsB" "w' TerminalB = w TerminalB" "w' StagedB = w StagedB" "w' ExpiryB = w ExpiryB"
    "row_of (w CursorB j) \<noteq> None \<Longrightarrow> row_of (w' CursorB j) \<noteq> None"
  using run_local_bucket [OF assms] run_local_cursor [OF assms] by simp_all

lemma bolt_inv_local:
  assumes "bolt_inv P w" "run_local i w w'" "nul_free i"
  shows "bolt_inv P w'"
  by (rule bolt_inv_agree [OF assms(1) run_local_same(1-4) [OF assms(2)] run_local_meta [OF assms(2,3)]])
    (assumption, rule run_local_same(5) [OF assms(2)])

lemma slots_okD:
  assumes "slots_ok P w"
  shows "w SlotsB k = Some e \<Longrightarrow> \<exists>i m. e = BRow i \<and> live P w i m \<and> k = slot_of m"
    "nul_free i \<Longrightarrow> \<not> ended w i \<Longrightarrow> has_meta w i \<Longrightarrow> \<exists>m. live P w i m \<and> rm_run_id m = i \<and> nul_free (rm_pipeline_id m) \<and>
       w SlotsB (slot_of m) = Some (BRow i) \<and> row_of (w CursorB i) \<noteq> None"
proof -
  assume "w SlotsB k = Some e"
  then obtain i m where "w SlotsB k = Some (BRow i)" "live P w i m" "k = slot_of m" using assms unfolding slots_ok_def by blast
  then show "\<exists>i m. e = BRow i \<and> live P w i m \<and> k = slot_of m" using \<open>w SlotsB k = Some e\<close> by auto
next
  assume "nul_free i" "\<not> ended w i" "has_meta w i"
  then show "\<exists>m. live P w i m \<and> rm_run_id m = i \<and> nul_free (rm_pipeline_id m) \<and>
       w SlotsB (slot_of m) = Some (BRow i) \<and> row_of (w CursorB i) \<noteq> None"
    using assms unfolding slots_ok_def by blast
qed

lemma live_slot:
  assumes "slots_ok P w" "live P w i m"
  shows "rm_run_id m = i" "nul_free (rm_pipeline_id m)" "w SlotsB (slot_of m) = Some (BRow i)" "row_of (w CursorB i) \<noteq> None"
proof -
  have "nul_free i" "\<not> ended w i" "has_meta w i" and m: "meta_of P w i = Some m"
    using assms(2) by (auto simp: live_def meta_of_def meta_row_at_def has_meta_def bind_eq_Some_conv row_of_Some)
  then obtain m' where "live P w i m'" "rm_run_id m' = i" "nul_free (rm_pipeline_id m')" "w SlotsB (slot_of m') = Some (BRow i)" "row_of (w CursorB i) \<noteq> None"
    using slots_okD(2) [OF assms(1)] by blast
  moreover from this m have "m' = m" by (simp add: live_def)
  ultimately show "rm_run_id m = i" "nul_free (rm_pipeline_id m)" "w SlotsB (slot_of m) = Some (BRow i)" "row_of (w CursorB i) \<noteq> None" by simp_all
qed

text \<open>The drain of terminal runs.\<close>

lemma bolt_inv_drain:
  assumes inv: "bolt_inv P w" and ids: "set ids \<subseteq> {k. w StagedB k \<noteq> None}"
  shows "bolt_inv P (clear_staged ids w)" (is "bolt_inv P ?w")
proof -
  have over: "nul_free i \<and> ended w i" if "i \<in> set ids" for i using that ids inv by (auto simp: bolt_inv_def staged_ok_def)
  have same: "?w SlotsB = w SlotsB" "?w TerminalB = w TerminalB" "?w ExpiryB = w ExpiryB" by (simp_all add: clear_staged_sel fun_eq_iff)
  have e: "ended ?w = ended w" by (simp add: ended_def same fun_eq_iff)
  have meta: "?w ActiveB (activeKey j tagMeta) = (if j \<in> set ids then None else w ActiveB (activeKey j tagMeta))" if "nul_free j" for j
    using meta_key_prefix [OF _ that] over by (auto simp: clear_staged_sel)
  have l: "live P ?w j x \<longleftrightarrow> live P w j x" for j x
  proof (cases "nul_free j \<and> \<not> ended w j")
    case True
    then have "?w ActiveB (activeKey j tagMeta) = w ActiveB (activeKey j tagMeta)" using over [of j] meta [of j] by auto
    then show ?thesis by (simp add: live_def e meta_of_def meta_row_at_def)
  qed (auto simp: live_def e)
  have "slots_ok P ?w" unfolding slots_ok_def same e l
  proof (intro conjI allI impI)
    fix k assume "w SlotsB k \<noteq> None"
    then show "\<exists>i m. w SlotsB k = Some (BRow i) \<and> live P w i m \<and> k = slot_of m"
      using inv unfolding bolt_inv_def slots_ok_def by blast
  next
    fix i assume i: "nul_free i" "\<not> ended w i" "has_meta ?w i"
    have "i \<notin> set ids" using i(2) over by blast
    then have "has_meta w i" "?w CursorB i = w CursorB i" using i(3) meta [OF i(1)] by (simp_all add: has_meta_def clear_staged_sel)
    then show "\<exists>m. live P w i m \<and> rm_run_id m = i \<and> nul_free (rm_pipeline_id m) \<and> w SlotsB (slot_of m) = Some (BRow i) \<and> row_of (?w CursorB i) \<noteq> None"
      using slots_okD(2) [of P w i] inv i by (simp add: bolt_inv_def)
  qed
  moreover have "staged_ok ?w" using inv meta unfolding bolt_inv_def staged_ok_def e has_meta_def
    by (auto simp: clear_staged_sel split: if_splits)
  moreover have "expiry_ok ?w" using inv unfolding bolt_inv_def expiry_ok_def same e by blast
  ultimately show ?thesis by (simp add: bolt_inv_def)
qed

text \<open>The creation of a run that is fresh, on a free slot.\<close>

lemma bolt_inv_create:
  assumes inv: "bolt_inv P w" and i: "nul_free i" "\<not> has_meta w i" "\<not> ended w i"
    and m: "pl_run_meta P b = Inr m" "rm_run_id m = i" "nul_free (rm_pipeline_id m)" and free: "w SlotsB (slot_of m) = None"
    and w': "run_local i (put_meta i b w) w'" "row_of (w' CursorB i) \<noteq> None"
  shows "bolt_inv P (upd SlotsB (slot_of m) (Some (BRow i)) w')" (is "bolt_inv P ?w")
proof -
  note same = run_local_same [OF w'(1)]
  have b: "?w TerminalB = w TerminalB" "?w StagedB = w StagedB" "?w ExpiryB = w ExpiryB" "w' SlotsB = w SlotsB"
    using same(1-4) by (simp_all add: put_meta_def fun_eq_iff)
  have e: "ended ?w = ended w" by (simp add: ended_def b(1) fun_eq_iff)
  have meta: "?w ActiveB (activeKey j tagMeta) = (if j = i then Some (BRow b) else w ActiveB (activeKey j tagMeta))" if "nul_free j" for j
    using run_local_meta [OF w'(1) i(1) that] by (simp add: put_meta_def activeKey_def runPrefix_def)
  have l: "live P ?w j x \<longleftrightarrow> (if j = i then x = m else live P w j x)" for j x
    using meta [of j] i(1,3) m(1) by (auto simp: live_def e meta_of_def meta_row_at_def)
  have old: "j \<noteq> i" if "live P w j x" for j x
    using that i(2) by (auto simp: live_def meta_of_def meta_row_at_def has_meta_def bind_eq_Some_conv row_of_Some)
  have cursor: "row_of (?w CursorB j) \<noteq> None" if "row_of (w CursorB j) \<noteq> None" for j
    using same(5) [of j] that by (simp add: put_meta_def)
  have inv': "slots_ok P w" "staged_ok w" "expiry_ok w" using inv by (simp_all add: bolt_inv_def)
  have "slots_ok P ?w" unfolding slots_ok_def e l
  proof (intro conjI allI impI)
    fix k assume k: "?w SlotsB k \<noteq> None"
    show "\<exists>j x. ?w SlotsB k = Some (BRow j) \<and> (if j = i then x = m else live P w j x) \<and> k = slot_of x"
    proof (cases "k = slot_of m")
      case False
      then obtain en where en: "w SlotsB k = Some en" using k b(4) by auto
      then obtain j x where "en = BRow j" "live P w j x" "k = slot_of x" using slots_okD(1) [OF inv'(1)] by blast
      then show ?thesis using en False b(4) old by auto
    qed simp
  next
    fix j assume j: "nul_free j" "\<not> ended w j" "has_meta ?w j"
    show "\<exists>x. (if j = i then x = m else live P w j x) \<and> rm_run_id x = j \<and> nul_free (rm_pipeline_id x) \<and> ?w SlotsB (slot_of x) = Some (BRow j) \<and>
        row_of (?w CursorB j) \<noteq> None"
    proof (cases "j = i")
      case True
      then show ?thesis using m w'(2) by (intro exI [of _ m]) simp
    next
      case False
      then have "has_meta w j" using j(3) meta [OF j(1)] by (simp add: has_meta_def)
      then obtain x where x: "live P w j x" "rm_run_id x = j" "nul_free (rm_pipeline_id x)" "w SlotsB (slot_of x) = Some (BRow j)" "row_of (w CursorB j) \<noteq> None"
        using slots_okD(2) [OF inv'(1) j(1,2)] by blast
      then show ?thesis using False free b(4) cursor [OF x(5)] by (intro exI [of _ x]) auto
    qed
  qed
  moreover have "staged_ok ?w" unfolding staged_ok_def e b
  proof (intro conjI allI impI)
    fix j assume j: "nul_free j" "ended w j" "has_meta ?w j"
    then have "j \<noteq> i" using i(3) by blast
    then have "has_meta w j" using j(3) meta [OF j(1)] by (simp add: has_meta_def)
    then show "w StagedB j \<noteq> None" using inv'(2) j by (simp add: staged_ok_def)
  qed (use inv'(2) in \<open>auto simp: staged_ok_def\<close>)
  moreover have "expiry_ok ?w" using inv'(3) unfolding expiry_ok_def b e by blast
  ultimately show ?thesis by (simp add: bolt_inv_def)
qed

text \<open>A live run that ends: its terminal row, its expiry key and its stage appear, its slot is released.\<close>

definition end_run :: "run_id \<Rightarrow> bytes \<Rightarrow> entry option \<Rightarrow> gotime \<Rightarrow> bytes \<Rightarrow> db_view \<Rightarrow> db_view" where
  "end_run i b out t slot w = upd SlotsB slot None (upd StagedB i (Some (BRow [])) (put_terminal i b out t w))"

lemma end_run_sel:
  assumes "nul_free j"
  shows "end_run i b out t slot w TerminalB j = (if j = i then Some (BRow b) else w TerminalB j)"
    "end_run i b out t slot w ActiveB k = w ActiveB k" "end_run i b out t slot w CursorB k = w CursorB k"
    "end_run i b out t slot w StagedB k = (if k = i then Some (BRow []) else w StagedB k)"
    "end_run i b out t slot w SlotsB k = (if k = slot then None else w SlotsB k)"
    "end_run i b out t slot w ExpiryB k = (if k = expiryKey t i then Some (BRow []) else w ExpiryB k)"
  using assms outputKey_not_nul_free [of i] by (cases out, auto simp: end_run_def put_terminal_def)

lemma bolt_inv_terminate:
  assumes inv: "bolt_inv P w" and i: "live P w i m"
  shows "bolt_inv P (end_run i b out t (slot_of m) w)" (is "bolt_inv P ?w")
proof -
  have inv': "slots_ok P w" "staged_ok w" "expiry_ok w" using inv by (simp_all add: bolt_inv_def)
  have nf: "nul_free i" "\<not> ended w i" using i by (simp_all add: live_def)
  note sel = end_run_sel [of _ i b out t "slot_of m" w]
  note s = sel(2-6) [OF nf(1)]
  have e: "ended ?w j \<longleftrightarrow> ended w j \<or> j = i" if "nul_free j" for j by (simp add: ended_def sel(1) [OF that])
  have m: "has_meta ?w = has_meta w" "meta_of P ?w = meta_of P w" by (simp_all add: fun_eq_iff has_meta_def meta_of_def meta_row_at_def s)
  have l: "live P ?w j x \<longleftrightarrow> live P w j x \<and> j \<noteq> i" for j x using e [of j] by (auto simp: live_def m)
  note slot = live_slot [OF inv'(1)]
  have "slots_ok P ?w" unfolding slots_ok_def l m
  proof (intro conjI allI impI)
    fix k assume "?w SlotsB k \<noteq> None"
    then have k: "k \<noteq> slot_of m" "w SlotsB k \<noteq> None" by (simp_all add: s split: if_splits)
    then obtain j x where x: "w SlotsB k = Some (BRow j)" "live P w j x" "k = slot_of x" using slots_okD(1) [OF inv'(1)] by fast
    have "j \<noteq> i" using x i k(1) by (auto simp: live_def)
    then show "\<exists>j x. ?w SlotsB k = Some (BRow j) \<and> (live P w j x \<and> j \<noteq> i) \<and> k = slot_of x" using x k(1) by (auto simp: s)
  next
    fix j assume j: "nul_free j" "\<not> ended ?w j" "has_meta w j"
    then have j': "\<not> ended w j" "j \<noteq> i" using e by auto
    then obtain x where x: "live P w j x" "rm_run_id x = j" "nul_free (rm_pipeline_id x)" "w SlotsB (slot_of x) = Some (BRow j)" "row_of (w CursorB j) \<noteq> None"
      using slots_okD(2) [OF inv'(1) j(1) _ j(3)] by blast
    have "slot_of x \<noteq> slot_of m" using x(4) slot(3) [OF i] j'(2) by auto
    then show "\<exists>x. (live P w j x \<and> j \<noteq> i) \<and> rm_run_id x = j \<and> nul_free (rm_pipeline_id x) \<and> ?w SlotsB (slot_of x) = Some (BRow j) \<and>
        row_of (?w CursorB j) \<noteq> None" using x j'(2) by (auto simp: s)
  qed
  moreover have "staged_ok ?w" unfolding staged_ok_def m
  proof (intro conjI allI impI)
    fix j assume "?w StagedB j \<noteq> None"
    then have "j = i \<or> w StagedB j \<noteq> None" by (simp add: s split: if_splits)
    then have "nul_free j \<and> (j = i \<or> ended w j)" using inv'(2) nf(1) unfolding staged_ok_def by blast
    then show "nul_free j" "ended ?w j" using e [of j] by blast+
  next
    fix j assume "nul_free j" "ended ?w j" "has_meta w j"
    then have "j \<noteq> i \<longrightarrow> w StagedB j \<noteq> None" using inv'(2) e unfolding staged_ok_def by blast
    then show "?w StagedB j \<noteq> None" by (simp add: s)
  qed
  moreover have "expiry_ok ?w"
  proof -
    have key: "\<exists>t' j. k = expiryKey t' j \<and> nul_free j \<and> ended w j" if "w ExpiryB k \<noteq> None" for k using that inv'(3) unfolding expiry_ok_def by blast
    have other: "drop 8 k \<noteq> i" if "w ExpiryB k \<noteq> None" for k using key [OF that] nf(2) by auto
    have one: "drop 8 k = drop 8 k' \<longrightarrow> k = k'" if "w ExpiryB k \<noteq> None" "w ExpiryB k' \<noteq> None" for k k' using that inv'(3) unfolding expiry_ok_def by blast
    have old: "row_of (w TerminalB j) \<noteq> None \<and> (\<exists>t'. w ExpiryB (expiryKey t' j) \<noteq> None)" if "nul_free j" "ended w j" for j
      using that inv'(3) unfolding expiry_ok_def by blast
    show ?thesis unfolding expiry_ok_def
    proof (intro conjI allI impI)
      fix j assume j: "nul_free j" "ended ?w j"
      then show "row_of (?w TerminalB j) \<noteq> None" using e [OF j(1)] old by (auto simp: sel(1) [OF j(1)])
      show "\<exists>t'. ?w ExpiryB (expiryKey t' j) \<noteq> None"
      proof (cases "j = i")
        case True
        then show ?thesis by (intro exI [of _ t]) (simp add: s)
      next
        case False
        then show ?thesis using e [OF j(1)] j old [OF j(1)] by (auto simp: s)
      qed
    next
      fix k assume "?w ExpiryB k \<noteq> None"
      then consider "k = expiryKey t i" | "w ExpiryB k \<noteq> None" by (auto simp: s split: if_splits)
      then show "\<exists>t j. k = expiryKey t j \<and> nul_free j \<and> ended ?w j"
      proof cases
        case 1
        then show ?thesis using nf(1) e [OF nf(1)] by blast
      next
        case 2
        then show ?thesis using key e by blast
      qed
    next
      fix k k' assume "?w ExpiryB k \<noteq> None" "?w ExpiryB k' \<noteq> None" "drop 8 k = drop 8 k'"
      then show "k = k'" using one [of k k'] other [of k] other [of k'] by (auto simp: s split: if_splits)
    qed
  qed
  ultimately show ?thesis by (simp add: bolt_inv_def)
qed

text \<open>A reaped run: every row of it goes.\<close>

definition forget_run :: "bytes \<Rightarrow> db_view \<Rightarrow> db_view" where
  "forget_run k w = (let i = drop 8 k in
     upd StagedB i None (upd ExpiryB k None (upd TerminalB (outputKey i) None (upd TerminalB i None (clear_stage i w)))))"

lemma forget_run_sel:
  assumes "nul_free j" "i = drop 8 k" "nul_free i"
  shows "forget_run k w TerminalB j = (if j = i then None else w TerminalB j)"
    "forget_run k w ActiveB (activeKey j tagMeta) = (if j = i then None else w ActiveB (activeKey j tagMeta))"
    "forget_run k w CursorB j = (if j = i then None else w CursorB j)"
    "forget_run k w StagedB k' = (if k' = i then None else w StagedB k')"
    "forget_run k w SlotsB k' = w SlotsB k'"
    "forget_run k w ExpiryB k' = (if k' = k then None else w ExpiryB k')"
  using assms(1) outputKey_not_nul_free [of i] meta_key_prefix [OF assms(3,1)]
  by (auto simp: forget_run_def Let_def clear_stage_def assms(2) [symmetric])

lemma bolt_inv_reap:
  assumes inv: "bolt_inv P w" and k: "w ExpiryB k \<noteq> None"
  shows "bolt_inv P (forget_run k w)" (is "bolt_inv P ?w")
proof -
  define i where "i = drop 8 k"
  have inv': "slots_ok P w" "staged_ok w" "expiry_ok w" using inv by (simp_all add: bolt_inv_def)
  have nf: "nul_free i" "ended w i" using k inv'(3) unfolding expiry_ok_def i_def by (metis drop_expiryKey)+
  note sel = forget_run_sel [OF _ i_def nf(1)]
  note s = sel(4-6) [OF nf(1)]
  have e: "ended ?w j \<longleftrightarrow> ended w j \<and> j \<noteq> i" if "nul_free j" for j by (simp add: ended_def sel(1) [OF that])
  have h: "has_meta ?w j \<longleftrightarrow> has_meta w j \<and> j \<noteq> i" if "nul_free j" for j by (simp add: has_meta_def sel(2) [OF that])
  have l: "live P ?w j x \<longleftrightarrow> live P w j x" for j x
    using e [of j] nf sel(2) [of j] by (cases "nul_free j"; cases "j = i") (simp_all add: live_def meta_of_def meta_row_at_def)
  have "slots_ok P ?w" unfolding slots_ok_def l s
  proof (intro conjI allI impI)
    fix k assume "w SlotsB k \<noteq> None"
    then show "\<exists>i m. w SlotsB k = Some (BRow i) \<and> live P w i m \<and> k = slot_of m" using slots_okD(1) [OF inv'(1)] by fast
  next
    fix j assume j: "nul_free j" "\<not> ended ?w j" "has_meta ?w j"
    then have "j \<noteq> i" "\<not> ended w j" "has_meta w j" using e h by auto
    then show "\<exists>m. live P w j m \<and> rm_run_id m = j \<and> nul_free (rm_pipeline_id m) \<and> w SlotsB (slot_of m) = Some (BRow j) \<and> row_of (?w CursorB j) \<noteq> None"
      using slots_okD(2) [OF inv'(1) j(1)] by (simp add: sel(3) [OF j(1)])
  qed
  moreover have "staged_ok ?w" unfolding staged_ok_def
  proof (intro conjI allI impI)
    fix j assume "?w StagedB j \<noteq> None"
    then have "j \<noteq> i" "w StagedB j \<noteq> None" by (simp_all add: s split: if_splits)
    then show "nul_free j" "ended ?w j" using inv'(2) e unfolding staged_ok_def by blast+
  next
    fix j assume "nul_free j" "ended ?w j" "has_meta ?w j"
    then have "j \<noteq> i" "w StagedB j \<noteq> None" using inv'(2) e h unfolding staged_ok_def by blast+
    then show "?w StagedB j \<noteq> None" by (simp add: s)
  qed
  moreover have "expiry_ok ?w"
  proof -
    have one: "drop 8 k' = drop 8 k \<Longrightarrow> k' = k" if "w ExpiryB k' \<noteq> None" for k' using that k inv'(3) unfolding expiry_ok_def by blast
    have old: "row_of (w TerminalB j) \<noteq> None" "\<exists>t'. w ExpiryB (expiryKey t' j) \<noteq> None" if "nul_free j" "ended w j" for j
      using that inv'(3) unfolding expiry_ok_def by blast+
    show ?thesis unfolding expiry_ok_def
    proof (intro conjI allI impI)
      fix j assume j: "nul_free j" "ended ?w j"
      then have j': "ended w j" "j \<noteq> i" using e by auto
      then show "row_of (?w TerminalB j) \<noteq> None" using old(1) [OF j(1)] by (simp add: sel(1) [OF j(1)])
      obtain t' where t': "w ExpiryB (expiryKey t' j) \<noteq> None" using old(2) [OF j(1) j'(1)] by blast
      have "expiryKey t' j \<noteq> k" using j'(2) by (auto simp: i_def)
      then show "\<exists>t'. ?w ExpiryB (expiryKey t' j) \<noteq> None" using t' by (auto simp: s)
    next
      fix k' assume "?w ExpiryB k' \<noteq> None"
      then have k': "k' \<noteq> k" "w ExpiryB k' \<noteq> None" by (auto simp: s split: if_splits)
      then obtain t' j where "k' = expiryKey t' j" "nul_free j" "ended w j" using inv'(3) unfolding expiry_ok_def by blast
      moreover from this have "j \<noteq> i" using one [OF k'(2)] k'(1) by (auto simp: i_def)
      ultimately show "\<exists>t j. k' = expiryKey t j \<and> nul_free j \<and> ended ?w j" using e by blast
    next
      fix k1 k2 assume "?w ExpiryB k1 \<noteq> None" "?w ExpiryB k2 \<noteq> None" "drop 8 k1 = drop 8 k2"
      then show "k1 = k2" using inv'(3) unfolding expiry_ok_def by (auto simp: s split: if_splits)
    qed
  qed
  ultimately show ?thesis by (simp add: bolt_inv_def)
qed

end
