(* ===== verification/Bolt_History.thy ===== *)
theory Bolt_History
  imports Bolt_Inv
begin

text \<open>
  The histories of the bbolt store: what each transaction does to the invariant, and every sequence of method
  calls, drains, rolled-back transactions and restarts.
\<close>

section \<open>Admission groups\<close>

text \<open>No two slots of a resource belong to pipelines that exclude each other.\<close>

definition slots_exclusive :: "(pipeline_id \<Rightarrow> pipeline_id list) \<Rightarrow> db_view \<Rightarrow> bool" where
  "slots_exclusive excl w \<longleftrightarrow> (\<forall>p q r. nul_free p \<longrightarrow> nul_free q \<longrightarrow> q \<in> set (excl p) \<longrightarrow> w SlotsB (slotKeyFor p r) \<noteq> None \<longrightarrow>
     w SlotsB (slotKeyFor q r) \<noteq> None \<longrightarrow> p = q)"

definition bolt_good :: "('t, bytes) proto_lib \<Rightarrow> (pipeline_id \<Rightarrow> pipeline_id list) \<Rightarrow> db_view \<Rightarrow> run_id set \<Rightarrow> bool" where
  "bolt_good P excl w used \<longleftrightarrow> bolt_inv P w \<and> slots_exclusive excl w \<and> known w used"

definition bolt_keeps :: "('tx \<Rightarrow> db_view) \<Rightarrow> ('t, 'tx) bolt_env \<Rightarrow> (pipeline_id \<Rightarrow> pipeline_id list) \<Rightarrow> ('tx, 'a) act \<Rightarrow> run_id set \<Rightarrow> run_id set \<Rightarrow> bool" where
  "bolt_keeps v E excl m used used' \<longleftrightarrow> effect v m (\<lambda>w a w'. bolt_good (be_proto E) excl w used \<longrightarrow> bolt_good (be_proto E) excl w' used')"

lemma good_fewer:
  assumes "bolt_good P excl w used" "bolt_inv P w'" "\<And>k. w' SlotsB k \<noteq> None \<Longrightarrow> w SlotsB k \<noteq> None"
    and "\<And>i. nul_free i \<Longrightarrow> has_meta w' i \<or> ended w' i \<Longrightarrow> has_meta w i \<or> ended w i"
  shows "bolt_good P excl w' used"
proof -
  have "slots_exclusive excl w'" using assms(1,3) unfolding bolt_good_def slots_exclusive_def by blast
  moreover have "known w' used" using assms(1,4) unfolding bolt_good_def known_def by blast
  ultimately show ?thesis using assms(2) by (simp add: bolt_good_def)
qed

lemma good_known: "bolt_good P excl w used \<Longrightarrow> used \<subseteq> used' \<Longrightarrow> bolt_good P excl w used'"
  by (auto simp: bolt_good_def known_def)

lemma good_drain:
  assumes "bolt_good P excl w used" "set ids \<subseteq> {k. w StagedB k \<noteq> None}"
  shows "bolt_good P excl (clear_staged ids w) used"
proof (rule good_fewer [OF assms(1)])
  show "bolt_inv P (clear_staged ids w)" using assms by (intro bolt_inv_drain) (auto simp: bolt_good_def)
qed (auto simp: clear_staged_sel has_meta_def ended_def split: if_splits)

lemma good_local:
  assumes "bolt_good P excl w used" "run_local i w w'" "nul_free i"
  shows "bolt_good P excl w' used"
proof (rule good_fewer [OF assms(1)])
  show "bolt_inv P w'" using assms by (intro bolt_inv_local [OF _ assms(2,3)]) (simp add: bolt_good_def)
qed (simp_all add: run_local_same(1,2) [OF assms(2)] has_meta_def ended_def run_local_meta [OF assms(2,3)])

lemma good_reap:
  assumes "bolt_good P excl w used" "w ExpiryB k \<noteq> None"
  shows "bolt_good P excl (forget_run k w) used"
proof -
  have inv: "bolt_inv P w" using assms(1) by (simp add: bolt_good_def)
  then have nf: "nul_free (drop 8 k)" using assms(2) unfolding bolt_inv_def expiry_ok_def by (metis drop_expiryKey)
  note sel = forget_run_sel [OF _ refl nf]
  show ?thesis
  proof (rule good_fewer [OF assms(1) bolt_inv_reap [OF inv assms(2)]])
    show "w SlotsB k' \<noteq> None" if "forget_run k w SlotsB k' \<noteq> None" for k' using that by (simp add: sel(5) [OF nf])
    show "has_meta w i \<or> ended w i" if "nul_free i" "has_meta (forget_run k w) i \<or> ended (forget_run k w) i" for i
      using that(2) by (simp add: has_meta_def ended_def sel(1,2) [OF that(1)] split: if_splits)
  qed
qed

lemma good_terminate:
  assumes "bolt_good P excl w used" "live P w i m"
  shows "bolt_good P excl (end_run i b out t (slot_of m) w) used"
proof -
  have nf: "nul_free i" using assms(2) by (simp add: live_def)
  have meta: "has_meta w i" using assms(2) by (auto simp: live_def meta_of_def meta_row_at_def has_meta_def bind_eq_Some_conv row_of_Some)
  note sel = end_run_sel [of _ i b out t "slot_of m" w]
  show ?thesis
  proof (rule good_fewer [OF assms(1)])
    show "bolt_inv P (end_run i b out t (slot_of m) w)" using assms by (intro bolt_inv_terminate) (simp_all add: bolt_good_def)
    show "w SlotsB k \<noteq> None" if "end_run i b out t (slot_of m) w SlotsB k \<noteq> None" for k using that by (simp add: sel(5) [OF nf] split: if_splits)
    show "has_meta w j \<or> ended w j" if "nul_free j" "has_meta (end_run i b out t (slot_of m) w) j \<or> ended (end_run i b out t (slot_of m) w) j" for j
      using that(2) meta by (auto simp: has_meta_def ended_def sel(1,2) [OF that(1)] split: if_splits)
  qed
qed

lemma good_create:
  assumes g: "bolt_good P excl w used" and i: "nul_free i" "i \<notin> used"
    and m: "pl_run_meta P b = Inr m" "rm_run_id m = i" "rm_pipeline_id m = p" "nul_free p" "rm_resource_id m = r"
    and free: "w SlotsB (slotKeyFor p r) = None"
    and w': "run_local i (put_meta i b w) w'" "row_of (w' CursorB i) \<noteq> None"
    and ex: "\<And>q. q \<in> set (excl p) \<Longrightarrow> q \<noteq> p \<Longrightarrow> w SlotsB (slotKeyFor q r) = None" and sym: "excl_sym excl"
  shows "bolt_good P excl (upd SlotsB (slotKeyFor p r) (Some (BRow i)) w') (insert i used)"
proof -
  let ?w = "upd SlotsB (slotKeyFor p r) (Some (BRow i)) w'"
  have fresh: "\<not> has_meta w i" "\<not> ended w i" using g i by (auto simp: bolt_good_def known_def)
  have slot: "slot_of m = slotKeyFor p r" by (simp add: slot_of_def m)
  have "bolt_inv P ?w" using bolt_inv_create [OF _ i(1) fresh m(1,2) _ _ w'] g m free slot by (simp add: bolt_good_def)
  moreover have slots: "?w SlotsB k = (if k = slotKeyFor p r then Some (BRow i) else w SlotsB k)" for k
    using run_local_same(1) [OF w'(1)] by (simp add: put_meta_def)
  have key: "slotKeyFor p1 r1 = slotKeyFor p r \<longleftrightarrow> p1 = p \<and> r1 = r" if "nul_free p1" for p1 r1
    using nul_append_inj [OF that m(4), of r1 r] by (auto simp: slotKeyFor_def)
  have "slots_exclusive excl ?w" unfolding slots_exclusive_def
  proof (intro allI impI)
    fix p1 p2 r1
    assume nf: "nul_free p1" "nul_free p2" and e: "p2 \<in> set (excl p1)" and k: "?w SlotsB (slotKeyFor p1 r1) \<noteq> None" "?w SlotsB (slotKeyFor p2 r1) \<noteq> None"
    have e': "p1 \<in> set (excl p2)" using e sym by (simp add: excl_sym_def)
    have k': "p1 = p \<and> r1 = r \<or> w SlotsB (slotKeyFor p1 r1) \<noteq> None" "p2 = p \<and> r1 = r \<or> w SlotsB (slotKeyFor p2 r1) \<noteq> None"
      using k unfolding slots key [OF nf(1)] key [OF nf(2)] by (auto split: if_splits)
    show "p1 = p2"
    proof (cases "r1 = r \<and> (p1 = p \<or> p2 = p)")
      case True
      then show ?thesis using ex [of p1] ex [of p2] e e' k' by (cases "p1 = p"; cases "p2 = p") auto
    next
      case False
      then have "w SlotsB (slotKeyFor p1 r1) \<noteq> None" "w SlotsB (slotKeyFor p2 r1) \<noteq> None" using k' by blast+
      then show ?thesis using g nf e unfolding bolt_good_def slots_exclusive_def by blast
    qed
  qed
  moreover have "known ?w (insert i used)" unfolding known_def
  proof (intro allI impI)
    fix j assume j: "nul_free j" "has_meta ?w j \<or> ended ?w j"
    show "j \<in> insert i used"
    proof (cases "j = i")
      case False
      then have "activeKey j tagMeta \<noteq> activeKey i tagMeta" by (auto simp: activeKey_def runPrefix_def)
      then have "has_meta w j \<or> ended w j" using j(2) run_local_meta [OF w'(1) i(1) j(1)] run_local_same(2) [OF w'(1)]
        by (simp add: has_meta_def ended_def put_meta_def)
      then show ?thesis using g j(1) by (auto simp: bolt_good_def known_def)
    qed simp
  qed
  ultimately show ?thesis by (simp add: bolt_good_def)
qed

section \<open>Transactions\<close>

lemma keepsI: "effect v m R \<Longrightarrow> (\<And>w a w'. R w a w' \<Longrightarrow> bolt_good (be_proto E) excl w used \<Longrightarrow> bolt_good (be_proto E) excl w' used') \<Longrightarrow> bolt_keeps v E excl m used used'"
  unfolding bolt_keeps_def by (erule effect_mono) blast

lemma keeps_same: "effect v m (\<lambda>w a w'. w' = w) \<Longrightarrow> bolt_keeps v E excl m used used"
  by (erule keepsI) simp

lemma keeps_then:
  assumes "bolt_keeps v E excl m used used'" "\<And>a. bolt_keeps v E excl (f a) used' used''"
  shows "bolt_keeps v E excl (act_then m f) used used''"
  using assms(1) assms(2) unfolding bolt_keeps_def by (rule effect_then) blast

lemma keeps_fail: "bolt_keeps v E excl (act_fail e) used used'"
  by (simp add: bolt_keeps_def effect_fail)

lemma keeps_writeDrain: "bolt_ok (be_db E) v \<Longrightarrow> bolt_keeps v E excl (writeDrain E) used used"
  by (rule keepsI [OF effect_writeDrain]) (auto intro: good_drain)

lemma keeps_drainStaged: "bolt_ok (be_db E) v \<Longrightarrow> bolt_keeps v E excl (drainStaged E n) used used"
  by (rule keepsI [OF effect_drainStaged]) (auto intro: good_drain)

lemma keeps_get_then:
  assumes "bolt_ok (be_db E) v" "\<And>a. effect v (f a) (\<lambda>w x w'. a = row_of (w b k) \<longrightarrow> bolt_good (be_proto E) excl w used \<longrightarrow> bolt_good (be_proto E) excl w' used')"
  shows "bolt_keeps v E excl (act_then (act_get E b k) f) used used'"
  unfolding bolt_keeps_def by (rule effect_then [OF effect_get [OF assms(1)] assms(2)]) simp

text \<open>The terminality commit.\<close>

lemma terminal_record_id: "same_id rec (terminal_record t oc rec)"
proof -
  have ops: "same_id r0 (fold (\<lambda>ow r. put_op (ow_step ow) (ow_phase ow) (ow_record ow) r) ows r) = same_id r0 r" for ows r0 r
    by (induction ows arbitrary: r) simp_all
  have "same_id rec (case t_failure t of None \<Rightarrow> rec | Some f \<Rightarrow> rec\<lparr>r_failure := Some f\<rparr>)" by (simp split: option.split)
  moreover have "same_id r0 (compact_terminal (r\<lparr>r_phase := ph, r_updated_at := u, r_started_at := st, r_outcome := Some oc, r_output := out\<rparr>)) = same_id r0 r" for r0 r ph u st out
    by (simp add: same_id_def compact_terminal_def)
  ultimately show ?thesis by (simp add: terminal_record_def Let_def ops)
qed

lemma meta_identity:
  assumes "meta_of P w i = Some m"
  shows "\<exists>b. meta_row_at w i = Some b \<and> (\<forall>rec0. UnmarshalRunMetaInto P b zero_record = Inr rec0 \<longrightarrow>
    r_run rec0 = rm_run_id m \<and> r_pipeline rec0 = rm_pipeline_id m \<and> r_resource rec0 = rm_resource_id m)"
proof -
  obtain b where "meta_row_at w i = Some b" and c: "(case pl_run_meta P b of Inr m \<Rightarrow> Some m | Inl _ \<Rightarrow> None) = Some m"
    using assms by (auto simp: meta_of_def bind_eq_Some_conv)
  moreover from c have "pl_run_meta P b = Inr m" by (cases "pl_run_meta P b") simp_all
  ultimately show ?thesis by (intro exI [of _ b]) (auto simp: UnmarshalRunMetaInto_def Let_def)
qed

text \<open>The writes of the terminality commit.\<close>

definition terminal_writes :: "('t, 'tx) bolt_env \<Rightarrow> run_id \<Rightarrow> run_record \<Rightarrow> ('tx, unit) act" where
  "terminal_writes E i rec = (let key = slotKeyFor (r_pipeline rec) (r_resource rec) in
     act_then (putTerminal E rec) (\<lambda>_.
     act_then (act_put E StagedB i []) (\<lambda>_.
     act_then (act_get E SlotsB key) (\<lambda>holder. if holder = Some i then act_delete E SlotsB key else act_ok ()))))"

lemma commit_terminal_eq: "commit_terminal E i t oc = act_then (getNonterminal E i) (\<lambda>rec0. terminal_writes E i (terminal_record t oc rec0))"
  by (simp add: commit_terminal_def terminal_writes_def Let_def)

lemma effect_terminal_writes:
  assumes B: "bolt_ok (be_db E) v"
  shows "effect v (terminal_writes E i rec) (\<lambda>w a w'. row_of (w SlotsB (slotKeyFor (r_pipeline rec) (r_resource rec))) = Some i \<longrightarrow> r_run rec = i \<longrightarrow>
    (\<exists>b. MarshalTerminal (be_proto E) rec (be_row_max E < blen (r_output rec)) = Inr b \<and>
       w' = end_run i b (if be_row_max E < blen (r_output rec) then Some (blob_entry (be_row_max E) (the_bytes (r_output rec))) else None)
         (r_updated_at rec) (slotKeyFor (r_pipeline rec) (r_resource rec)) w))"
proof -
  let ?key = "slotKeyFor (r_pipeline rec) (r_resource rec)"
  let ?out = "if be_row_max E < blen (r_output rec) then Some (blob_entry (be_row_max E) (the_bytes (r_output rec))) else None"
  have holder: "effect v (act_then (act_get E SlotsB ?key) (\<lambda>holder. if holder = Some i then act_delete E SlotsB ?key else act_ok ()))
      (\<lambda>w a w'. row_of (w SlotsB ?key) = Some i \<longrightarrow> w' = upd SlotsB ?key None w)"
  proof (rule effect_then [OF effect_get [OF B]])
    fix h show "effect v (if h = Some i then act_delete E SlotsB ?key else act_ok ()) (\<lambda>w a w'. h = Some i \<longrightarrow> w' = upd SlotsB ?key None w)"
      by (cases "h = Some i") (simp_all add: effect_delete [OF B] effect_mono [OF effect_ok])
  qed auto
  have staged: "effect v (act_then (act_put E StagedB i []) (\<lambda>_. act_then (act_get E SlotsB ?key) (\<lambda>holder. if holder = Some i then act_delete E SlotsB ?key else act_ok ())))
      (\<lambda>w a w'. row_of (w SlotsB ?key) = Some i \<longrightarrow> w' = upd SlotsB ?key None (upd StagedB i (Some (BRow [])) w))"
    by (rule effect_then [OF effect_put [OF B] holder]) simp
  show ?thesis unfolding terminal_writes_def Let_def
  proof (rule effect_then [OF effect_putTerminal [OF B] staged], intro impI)
    fix w and a :: unit and w' and b :: unit and w''
    assume p: "\<exists>b. let beside = be_row_max E < blen (r_output rec) in MarshalTerminal (be_proto E) rec beside = Inr b \<and>
      w' = put_terminal (r_run rec) b (if beside then Some (blob_entry (be_row_max E) (the_bytes (r_output rec))) else None) (r_updated_at rec) w"
      and q: "row_of (w' SlotsB ?key) = Some i \<longrightarrow> w'' = upd SlotsB ?key None (upd StagedB i (Some (BRow [])) w')"
      and s: "row_of (w SlotsB ?key) = Some i" "r_run rec = i"
    obtain b where b: "MarshalTerminal (be_proto E) rec (be_row_max E < blen (r_output rec)) = Inr b"
      and w': "w' = put_terminal i b ?out (r_updated_at rec) w" using p s(2) unfolding Let_def by blast
    then have "w' SlotsB ?key = w SlotsB ?key" by (simp add: put_terminal_def)
    with q s(1) have "w'' = end_run i b ?out (r_updated_at rec) ?key w" by (simp only: w' end_run_def)
    with b show "\<exists>b. MarshalTerminal (be_proto E) rec (be_row_max E < blen (r_output rec)) = Inr b \<and> w'' = end_run i b ?out (r_updated_at rec) ?key w" by blast
  qed
qed

lemma effect_commit_terminal:
  assumes B: "bolt_ok (be_db E) v"
  shows "effect v (commit_terminal E i t oc) (\<lambda>w a w'. \<forall>m. bolt_inv (be_proto E) w \<longrightarrow> live (be_proto E) w i m \<longrightarrow>
    (\<exists>b out u. w' = end_run i b out u (slot_of m) w))"
  unfolding commit_terminal_eq
proof (rule effect_then [OF effect_getNonterminal [OF B] effect_terminal_writes [OF B]], intro allI impI)
  fix w rec0 w' and b :: unit and w'' m
  let ?rec = "terminal_record t oc rec0"
  let ?key = "slotKeyFor (r_pipeline ?rec) (r_resource ?rec)"
  assume g: "w' = w \<and> (\<forall>b. meta_row_at w i = Some b \<longrightarrow> (\<exists>rec1. UnmarshalRunMetaInto (be_proto E) b zero_record = Inr rec1 \<and> same_id rec1 rec0))"
    and e: "row_of (w' SlotsB ?key) = Some i \<longrightarrow> r_run ?rec = i \<longrightarrow> (\<exists>b. MarshalTerminal (be_proto E) ?rec (be_row_max E < blen (r_output ?rec)) = Inr b \<and>
      w'' = end_run i b (if be_row_max E < blen (r_output ?rec) then Some (blob_entry (be_row_max E) (the_bytes (r_output ?rec))) else None) (r_updated_at ?rec) ?key w')"
    and inv: "bolt_inv (be_proto E) w" and l: "live (be_proto E) w i m"
  have slots: "slots_ok (be_proto E) w" using inv by (simp add: bolt_inv_def)
  obtain b where "meta_row_at w i = Some b" and b: "\<forall>rec0. UnmarshalRunMetaInto (be_proto E) b zero_record = Inr rec0 \<longrightarrow>
      r_run rec0 = rm_run_id m \<and> r_pipeline rec0 = rm_pipeline_id m \<and> r_resource rec0 = rm_resource_id m"
    using meta_identity [of "be_proto E" w i m] l by (auto simp: live_def)
  then obtain rec1 where "UnmarshalRunMetaInto (be_proto E) b zero_record = Inr rec1" "same_id rec1 rec0" using g by blast
  then have "r_run ?rec = i" "?key = slot_of m"
    using b terminal_record_id [of rec0 t oc] live_slot(1) [OF slots l] by (simp_all add: same_id_def slot_of_def)
  moreover have "row_of (w SlotsB (slot_of m)) = Some i" using live_slot(3) [OF slots l] by simp
  ultimately show "\<exists>b out u. w'' = end_run i b out u (slot_of m) w" using e g by auto
qed

lemma not_ended: "bolt_inv P w \<Longrightarrow> nul_free i \<Longrightarrow> row_of (w TerminalB i) = None \<longleftrightarrow> \<not> ended w i"
  unfolding bolt_inv_def expiry_ok_def ended_def by auto

lemma live_now:
  assumes "bolt_inv P w" "nul_free i" "row_of (w TerminalB i) = None" "row_of (w ActiveB (activeKey i tagMeta)) \<noteq> None"
  shows "\<exists>m. live P w i m"
proof -
  have "\<not> ended w i" "has_meta w i" using not_ended [OF assms(1,2)] assms(3,4) by (auto simp: has_meta_def row_of_Some)
  then show ?thesis using slots_okD(2) [of P w i] assms(1,2) by (auto simp: bolt_inv_def)
qed

lemma keeps_apply_tx:
  assumes B: "bolt_ok (be_db E) v" and i: "nul_free i"
  shows "bolt_keeps v E excl (apply_tx E i t) used used"
  unfolding apply_tx_def
proof (rule keeps_then [OF keeps_writeDrain [OF B] keeps_get_then [OF B]])
  let ?G = "\<lambda>w. bolt_good (be_proto E) excl w used"
  let ?effectful = "case t_outcome t of Some oc \<Rightarrow> commit_terminal E i t oc | None \<Rightarrow> commit_progress E i t"
  let ?live = "\<lambda>w. row_of (w TerminalB i) = None \<and> row_of (w ActiveB (activeKey i tagMeta)) \<noteq> None"
  have wr: "effect v ?effectful (\<lambda>w x w'. ?live w \<longrightarrow> ?G w \<longrightarrow> ?G w')"
  proof (cases "t_outcome t")
    case None
    have "effect v (commit_progress E i t) (\<lambda>w x w'. ?live w \<longrightarrow> ?G w \<longrightarrow> ?G w')"
      by (rule effect_mono [OF effect_commit_progress [OF B]]) (blast intro: good_local [OF _ _ i])
    then show ?thesis by (simp add: None)
  next
    case (Some oc)
    have "?G w'" if lw: "?live w" and gw: "?G w" and e: "\<forall>m. bolt_inv (be_proto E) w \<longrightarrow> live (be_proto E) w i m \<longrightarrow> (\<exists>b out u. w' = end_run i b out u (slot_of m) w)" for w w'
    proof -
      obtain m where "live (be_proto E) w i m" using live_now [OF _ i] lw gw by (auto simp: bolt_good_def)
      then show ?thesis using e gw good_terminate [OF gw] by (auto simp: bolt_good_def)
    qed
    then have "effect v (commit_terminal E i t oc) (\<lambda>w x w'. ?live w \<longrightarrow> ?G w \<longrightarrow> ?G w')"
      by (intro effect_mono [OF effect_commit_terminal [OF B]]) blast
    then show ?thesis by (simp add: Some)
  qed
  show "effect v (if tb \<noteq> None then act_fail ErrRunTerminal else act_then (act_get E ActiveB (activeKey i tagMeta))
      (\<lambda>meta. if meta = None then act_fail ErrRunNotFound else ?effectful)) (\<lambda>w x w'. tb = row_of (w TerminalB i) \<longrightarrow> ?G w \<longrightarrow> ?G w')" for tb
  proof (intro effect_if effect_fail)
    assume tb: "\<not> tb \<noteq> None"
    show "effect v (act_then (act_get E ActiveB (activeKey i tagMeta)) (\<lambda>meta. if meta = None then act_fail ErrRunNotFound else ?effectful))
        (\<lambda>w x w'. tb = row_of (w TerminalB i) \<longrightarrow> ?G w \<longrightarrow> ?G w')"
    proof (rule effect_then [OF effect_get [OF B]])
      show "effect v (if meta = None then act_fail ErrRunNotFound else ?effectful) (\<lambda>w x w'. meta \<noteq> None \<and> (?live w \<longrightarrow> ?G w \<longrightarrow> ?G w'))" for meta
        using wr by (cases meta) (simp_all add: effect_fail)
    qed (use tb in auto)
  qed
qed

lemma first_blocker_None:
  assumes "bolt_ok (be_db E) v" "first_blocker E rec ps s = None" "q \<in> set ps" "q \<noteq> r_pipeline rec"
  shows "row_of (v (bs_tx s) SlotsB (slotKeyFor q (r_resource rec))) = None"
  using assms(2,3)
proof (induction ps)
  case (Cons p ps)
  then show ?case using assms(4) bolt_okD(1) [OF assms(1)] by (cases "p = r_pipeline rec") (auto split: option.splits)
qed simp

lemma slot_row: "bolt_inv P w \<Longrightarrow> row_of (w SlotsB k) = None \<Longrightarrow> w SlotsB k = None"
  using slots_okD(1) [of P w k] by (cases "w SlotsB k") (auto simp: bolt_inv_def)

lemma keeps_create_tx:
  assumes B: "bolt_ok (be_db E) v" and P: "proto_lib_ok (be_proto E)" and rec: "storable rec" "nul_free (r_run rec)" "r_run rec \<notin> used" and sym: "excl_sym excl"
  shows "bolt_keeps v E excl (create_tx E rec (excl (r_pipeline rec))) used (insert (r_run rec) used)"
  unfolding create_tx_def
proof (rule keeps_then [OF keeps_writeDrain [OF B] keeps_get_then [OF B]])
  let ?G = "\<lambda>w. bolt_good (be_proto E) excl w used" and ?G' = "\<lambda>w. bolt_good (be_proto E) excl w (insert (r_run rec) used)"
  let ?p = "r_pipeline rec" and ?r = "r_resource rec" and ?i = "r_run rec"
  let ?free = "\<lambda>w. \<forall>q. q = ?p \<or> q \<in> set (excl ?p) \<longrightarrow> row_of (w SlotsB (slotKeyFor q ?r)) = None"
  let ?block = "\<lambda>own. if own \<noteq> None then act_ok own else act_read (first_blocker E rec (excl ?p))"
  let ?put = "\<lambda>_. act_then (act_put E SlotsB (slotKeyFor ?p ?r) ?i) (\<lambda>_. act_ok (None, True))"
  let ?rest = "\<lambda>blocker. case blocker of Some i \<Rightarrow> act_then (getRun E i) (\<lambda>existing. act_ok (Some existing, False)) | None \<Rightarrow> act_then (putRun E rec) ?put"
  have block: "effect v (?block own) (\<lambda>w b w'. w' = w \<and> (own = row_of (w SlotsB (slotKeyFor ?p ?r)) \<longrightarrow> b = None \<longrightarrow> ?free w))" for own
  proof (cases own)
    case None
    have "effect v (act_read (first_blocker E rec (excl ?p))) (\<lambda>w b w'. (b = None \<longrightarrow> (\<forall>q. q \<noteq> ?p \<longrightarrow> q \<in> set (excl ?p) \<longrightarrow>
        row_of (w SlotsB (slotKeyFor q ?r)) = None)) \<and> w' = w)"
      by (rule effect_read) (use first_blocker_None [OF B] in blast)
    then have "effect v (act_read (first_blocker E rec (excl ?p))) (\<lambda>w b w'. w' = w \<and> (None = row_of (w SlotsB (slotKeyFor ?p ?r)) \<longrightarrow> b = None \<longrightarrow> ?free w))"
      by (rule effect_mono) metis
    then show ?thesis by (simp add: None)
  next
    case (Some x)
    have "effect v (act_ok own) (\<lambda>w b w'. w' = w \<and> (own = row_of (w SlotsB (slotKeyFor ?p ?r)) \<longrightarrow> b = None \<longrightarrow> ?free w))"
      by (rule effect_mono [OF effect_ok]) (auto simp: Some)
    then show ?thesis by (simp add: Some)
  qed
  have put: "effect v (act_then (putRun E rec) ?put) (\<lambda>w a w'. ?free w \<longrightarrow> ?G w \<longrightarrow> ?G' w')"
  proof (rule effect_then [OF effect_putRun [OF B]])
    show "\<not> terminal rec" using rec(1) by (simp add: storable_def)
    show "effect v (act_then (act_put E SlotsB (slotKeyFor ?p ?r) ?i) (\<lambda>_. act_ok (None, True))) (\<lambda>w a w'. w' = upd SlotsB (slotKeyFor ?p ?r) (Some (BRow ?i)) w)" for a :: unit
      by (rule effect_then [OF effect_put [OF B] effect_ok]) simp
  next
    fix w and a :: unit and w' and b :: "run_record option \<times> bool" and w''
    assume "\<exists>b. MarshalRunMeta (be_proto E) rec = Inr b \<and> run_local ?i (put_meta ?i b w) w' \<and> row_of (w' CursorB ?i) \<noteq> None"
      and w'': "w'' = upd SlotsB (slotKeyFor ?p ?r) (Some (BRow ?i)) w'"
    then obtain b where b: "MarshalRunMeta (be_proto E) rec = Inr b" and l: "run_local ?i (put_meta ?i b w) w'" "row_of (w' CursorB ?i) \<noteq> None" by blast
    obtain m where m: "pl_run_meta (be_proto E) b = Inr m" "rm_run_id m = ?i" "rm_pipeline_id m = ?p" "rm_resource_id m = ?r"
      using proto_lib_okD(1) [OF P b [unfolded MarshalRunMeta_def marshal_Inr]] by auto
    show "?free w \<longrightarrow> ?G w \<longrightarrow> ?G' w''"
    proof (intro impI)
      assume free: "?free w" and g: "?G w"
      have slot: "w SlotsB (slotKeyFor q ?r) = None" if "q = ?p \<or> q \<in> set (excl ?p)" for q
        using slot_row [of "be_proto E" w] free that g by (auto simp: bolt_good_def)
      have p: "nul_free ?p" using rec(1) by (simp add: storable_def)
      show "?G' w''" unfolding w'' by (rule good_create [OF g rec(2,3) m(1-3) p m(4) _ l _ sym]) (use slot in auto)
    qed
  qed
  have rest: "effect v (?rest blocker) (\<lambda>w a w'. (blocker = None \<longrightarrow> ?free w) \<longrightarrow> ?G w \<longrightarrow> ?G' w')" for blocker
  proof (cases blocker)
    case None
    then show ?thesis using put by simp
  next
    case (Some i)
    have "effect v (act_then (getRun E i) (\<lambda>existing. act_ok (Some existing, False))) (\<lambda>w a w'. w' = w)"
      by (intro effect_same_then effect_getRun [OF B] same_pure)
    then show ?thesis unfolding Some option.case by (rule effect_mono) (auto intro: good_known)
  qed
  show "effect v (act_then (?block own) ?rest) (\<lambda>w x w'. own = row_of (w SlotsB (slotKeyFor ?p ?r)) \<longrightarrow> ?G w \<longrightarrow> ?G' w')" for own
  proof (rule effect_then [OF block rest], intro impI)
    fix w b w' x w''
    assume b: "w' = w \<and> (own = row_of (w SlotsB (slotKeyFor ?p ?r)) \<longrightarrow> b = None \<longrightarrow> ?free w)" and r: "(b = None \<longrightarrow> ?free w') \<longrightarrow> ?G w' \<longrightarrow> ?G' w''"
      and own: "own = row_of (w SlotsB (slotKeyFor ?p ?r))" and g: "?G w"
    have "b = None \<longrightarrow> ?free w'" using b own by iprover
    moreover have "?G w'" using b g by iprover
    ultimately show "?G' w''" using r by iprover
  qed
qed

lemma effect_reap_one:
  assumes B: "bolt_ok (be_db E) v"
  shows "effect v (reap_one E k) (\<lambda>w a w'. w' = forget_run k w)"
proof -
  let ?i = "drop 8 k"
  have 1: "effect v (act_then (act_delete E StagedB ?i) (\<lambda>_. act_outputs (\<lambda>c. ((), bc_drop c ?i)))) (\<lambda>w a w'. w' = upd StagedB ?i None w)"
    by (rule effect_then [OF effect_delete [OF B] effect_outputs]) simp
  have 2: "effect v (act_then (act_delete E ExpiryB k) (\<lambda>_. act_then (act_delete E StagedB ?i) (\<lambda>_. act_outputs (\<lambda>c. ((), bc_drop c ?i)))))
      (\<lambda>w a w'. w' = upd StagedB ?i None (upd ExpiryB k None w))"
    by (rule effect_then [OF effect_delete [OF B] 1]) simp
  have 3: "effect v (act_then (deleteBlob E TerminalB (outputKey ?i)) (\<lambda>_. act_then (act_delete E ExpiryB k) (\<lambda>_. act_then (act_delete E StagedB ?i)
      (\<lambda>_. act_outputs (\<lambda>c. ((), bc_drop c ?i)))))) (\<lambda>w a w'. w' = upd StagedB ?i None (upd ExpiryB k None (upd TerminalB (outputKey ?i) None w)))"
    by (rule effect_then [OF effect_deleteBlob [OF B] 2]) simp
  have 4: "effect v (act_then (act_delete E TerminalB ?i) (\<lambda>_. act_then (deleteBlob E TerminalB (outputKey ?i)) (\<lambda>_. act_then (act_delete E ExpiryB k)
      (\<lambda>_. act_then (act_delete E StagedB ?i) (\<lambda>_. act_outputs (\<lambda>c. ((), bc_drop c ?i)))))))
      (\<lambda>w a w'. w' = upd StagedB ?i None (upd ExpiryB k None (upd TerminalB (outputKey ?i) None (upd TerminalB ?i None w))))"
    by (rule effect_then [OF effect_delete [OF B] 3]) simp
  show ?thesis unfolding reap_one_def Let_def
    by (rule effect_then [OF effect_deleteNonterminalStage [OF B] 4]) (simp add: forget_run_def Let_def)
qed

lemma effect_reap_each:
  assumes B: "bolt_ok (be_db E) v" and "distinct ks"
  shows "effect v (act_each (reap_one E) ks) (\<lambda>w a w'. (\<forall>k\<in>set ks. w ExpiryB k \<noteq> None) \<longrightarrow> bolt_good (be_proto E) excl w used \<longrightarrow> bolt_good (be_proto E) excl w' used)"
  using assms(2)
proof (induction ks)
  case Nil
  then show ?case unfolding act_each.simps by (intro effect_mono [OF effect_ok]) simp
next
  case (Cons k ks)
  show ?case unfolding act_each.simps
  proof (rule effect_then [OF effect_reap_one [OF B]])
    show "effect v (act_each (reap_one E) ks) (\<lambda>w a w'. (\<forall>k\<in>set ks. w ExpiryB k \<noteq> None) \<longrightarrow> bolt_good (be_proto E) excl w used \<longrightarrow> bolt_good (be_proto E) excl w' used)" for a :: unit
      using Cons by simp
  next
    fix w and a :: unit and w' and b :: unit and w''
    assume w': "w' = forget_run k w" and r: "(\<forall>k\<in>set ks. w' ExpiryB k \<noteq> None) \<longrightarrow> bolt_good (be_proto E) excl w' used \<longrightarrow> bolt_good (be_proto E) excl w'' used"
    show "(\<forall>k\<in>set (k # ks). w ExpiryB k \<noteq> None) \<longrightarrow> bolt_good (be_proto E) excl w used \<longrightarrow> bolt_good (be_proto E) excl w'' used"
    proof (intro impI)
      assume keys: "\<forall>k\<in>set (k # ks). w ExpiryB k \<noteq> None" and g: "bolt_good (be_proto E) excl w used"
      have g': "bolt_good (be_proto E) excl w' used" unfolding w' using g keys by (intro good_reap) auto
      have "w' ExpiryB x = (if x = k then None else w ExpiryB x)" for x by (simp add: w' forget_run_def Let_def clear_stage_def)
      then have "\<forall>x\<in>set ks. w' ExpiryB x \<noteq> None" using keys Cons.prems by auto
      then show "bolt_good (be_proto E) excl w'' used" using r g' by blast
    qed
  qed
qed

lemma keeps_reap_tx:
  assumes B: "bolt_ok (be_db E) v"
  shows "bolt_keeps v E excl (reap_tx E before limit) used used"
  unfolding bolt_keeps_def reap_tx_def Let_def
proof (rule effect_then [OF effect_walk [OF B]])
  fix rows :: "(bytes \<times> bytes option) list"
  let ?ks = "takeWhile (\<lambda>k. take 8 k < expiryPrefix before) (take (nat limit) (map fst rows))"
  show "effect v (act_then (act_each (reap_one E) ?ks) (\<lambda>_. act_ok (int (length ?ks)))) (\<lambda>w a w'. walk_of (w ExpiryB) rows \<longrightarrow>
      bolt_good (be_proto E) excl w used \<longrightarrow> bolt_good (be_proto E) excl w' used)"
  proof (cases "distinct (map fst rows)")
    case True
    then have "distinct ?ks" by (simp add: distinct_takeWhile distinct_take)
    moreover have "\<forall>k\<in>set ?ks. w ExpiryB k \<noteq> None" if "walk_of (w ExpiryB) rows" for w
      using walk_of_keys [OF that] by (auto dest!: set_takeWhileD in_set_takeD)
    ultimately show ?thesis by (intro effect_then [OF effect_reap_each [OF B] effect_ok]) auto
  next
    case False
    then have no: "\<not> walk_of m rows" for m :: "bytes \<Rightarrow> entry option" by (auto simp: walk_of_def strict_sorted_iff)
    show ?thesis by (simp add: effect_def no)
  qed
qed simp

lemma keeps_cancel_tx:
  assumes B: "bolt_ok (be_db E) v" and i: "nul_free i"
  shows "bolt_keeps v E excl (cancel_tx E i req) used used"
proof -
  have "effect v (cancel_tx E i req) (\<lambda>w a w'. run_local i w w')"
    unfolding cancel_tx_def
    by (intro effect_local_then local_get [OF B] effect_if local_pure local_in_run [OF B]) (auto simp: activeKey_def)
  then show ?thesis by (rule keepsI) (blast intro: good_local [OF _ _ i])
qed

section \<open>Histories\<close>

inductive bolt_step :: "('t, 'tx) bolt_env \<Rightarrow> (pipeline_id \<Rightarrow> pipeline_id list) \<Rightarrow> 'tx bolt_store \<times> run_id set \<Rightarrow> 'tx bolt_store \<times> run_id set \<Rightarrow> bool"
  for E excl where
  create: "storable rec \<Longrightarrow> nul_free (r_run rec) \<Longrightarrow> r_run rec \<notin> used \<Longrightarrow> bolt_CreateRun E rec (excl (r_pipeline rec)) s = (res_create, s') \<Longrightarrow>
    bolt_step E excl (s, used) (s', insert (r_run rec) used)"
| app: "nul_free i \<Longrightarrow> bolt_ApplyTransition E i t s = (res_apply, s') \<Longrightarrow> bolt_step E excl (s, used) (s', used)"
| cancel: "nul_free i \<Longrightarrow> bolt_RequestCancel E i req s = (res_cancel, s') \<Longrightarrow> bolt_step E excl (s, used) (s', used)"
| reap: "bolt_ReapTerminal E before limit s = (res_reap, s') \<Longrightarrow> bolt_step E excl (s, used) (s', used)"
| get: "bolt_GetRun E i s = (res_get, s') \<Longrightarrow> bolt_step E excl (s, used) (s', used)"
| head: "bolt_GetRunHead E i s = (res_get, s') \<Longrightarrow> bolt_step E excl (s, used) (s', used)"
| list: "bolt_ListNonterminal E s = (res_list, s') \<Longrightarrow> bolt_step E excl (s, used) (s', used)"
| active: "bolt_GetActiveRunID E p rid s = (res_active, s') \<Longrightarrow> bolt_step E excl (s, used) (s', used)"
| drain: "Drain fuel E s = Some (res_drain, s') \<Longrightarrow> bolt_step E excl (s, used) (s', used)"
| batch: "bolt_update E (drainStaged E n) s = (res_drain, s') \<Longrightarrow> bolt_step E excl (s, used) (s', used)"
| recount: "bolt_step E excl (s, used) (s\<lparr>bs_staged := n\<rparr>, used)"
| rolled_back_create: "create_tx E rec (excl (r_pipeline rec)) s = (res_create, s') \<Longrightarrow> bolt_step E excl (s, used) (s'\<lparr>bs_tx := bs_tx s\<rparr>, used)"
| rolled_back_apply: "apply_tx E i t s = (res_apply, s') \<Longrightarrow> bolt_step E excl (s, used) (s'\<lparr>bs_tx := bs_tx s\<rparr>, used)"
| restart: "bolt_step E excl (s, used) (opened opts (bs_tx s), used)"

text \<open>The store on a new file.\<close>

definition fresh_store :: "('tx \<Rightarrow> db_view) \<Rightarrow> 'tx bolt_store \<Rightarrow> bool" where
  "fresh_store v s \<longleftrightarrow> v (bs_tx s) = (\<lambda>_ _. None)"

definition bolt_history :: "('t, 'tx) bolt_env \<Rightarrow> (pipeline_id \<Rightarrow> pipeline_id list) \<Rightarrow> 'tx bolt_store \<Rightarrow> 'tx bolt_store \<times> run_id set \<Rightarrow> bool" where
  "bolt_history E excl s0 c \<longleftrightarrow> (bolt_step E excl)\<^sup>*\<^sup>* (s0, {}) c"

definition holds_after :: "('tx \<Rightarrow> db_view) \<Rightarrow> ('t, 'tx) bolt_env \<Rightarrow> (pipeline_id \<Rightarrow> pipeline_id list) \<Rightarrow> ('tx, 'a) act \<Rightarrow> run_id set \<Rightarrow> run_id set \<Rightarrow> bool" where
  "holds_after v E excl m used used' \<longleftrightarrow> (\<forall>s r s'. m s = (r, s') \<longrightarrow> bolt_good (be_proto E) excl (v (bs_tx s)) used \<longrightarrow> bolt_good (be_proto E) excl (v (bs_tx s')) used')"

lemma holds_afterD: "holds_after v E excl m used used' \<Longrightarrow> m s = (r, s') \<Longrightarrow> bolt_good (be_proto E) excl (v (bs_tx s)) used \<Longrightarrow> bolt_good (be_proto E) excl (v (bs_tx s')) used'"
  by (simp add: holds_after_def)

text \<open>\<^verbatim>\<open>Update\<close> commits what the closure did or leaves the database as it was.\<close>

lemma update_keeps:
  assumes "bolt_keeps v E excl f used used'" "used \<subseteq> used'"
  shows "holds_after v E excl (bolt_update E f) used used'"
  unfolding holds_after_def
proof (intro allI impI)
  fix s r s' assume u: "bolt_update E f s = (r, s')" and g: "bolt_good (be_proto E) excl (v (bs_tx s)) used"
  obtain x s1 where f: "f s = (x, s1)" by fastforce
  show "bolt_good (be_proto E) excl (v (bs_tx s')) used'"
  proof (cases "bs_tx s' = bs_tx s")
    case True
    then show ?thesis using g assms(2) by (simp add: good_known)
  next
    case False
    then obtain a where "x = Inr a" "s' = s1" using u f by (auto simp: bolt_update_def split: sum.splits option.splits)
    then show ?thesis using effectD [OF assms(1) [unfolded bolt_keeps_def], of s a s1] f g by simp
  qed
qed

lemma holds_view: "holds_after v E excl (bolt_view f) used used"
  by (auto simp: holds_after_def bolt_view_def split: prod.splits)

lemma holds_post:
  assumes "holds_after v E excl m used used'" "\<And>a s. bs_tx (snd (f a s)) = bs_tx s"
  shows "holds_after v E excl (act_then m f) used used'"
  unfolding holds_after_def
proof (intro allI impI)
  fix s r s' assume e: "act_then m f s = (r, s')" and g: "bolt_good (be_proto E) excl (v (bs_tx s)) used"
  obtain x s1 where m: "m s = (x, s1)" by fastforce
  have "bs_tx s' = bs_tx s1" using e m assms(2) by (cases x) (auto simp: act_then_def, metis snd_conv)
  then show "bolt_good (be_proto E) excl (v (bs_tx s')) used'" using holds_afterD [OF assms(1) m g] by simp
qed

text \<open>Actions that leave the counter of staged runs and the caches alone.\<close>

definition same_mem :: "'tx bolt_store \<Rightarrow> 'tx bolt_store \<Rightarrow> bool" where
  "same_mem s s' \<longleftrightarrow> bs_staged s' = bs_staged s \<and> bs_blobs s' = bs_blobs s \<and> bs_outputs s' = bs_outputs s"

definition only_tx :: "('tx, 'a) act \<Rightarrow> bool" where
  "only_tx m \<longleftrightarrow> (\<forall>s r s'. m s = (r, s') \<longrightarrow> same_mem s s')"

named_theorems only_tx_rules \<open>actions on the transaction only\<close>

lemma same_mem_simps [simp]: "same_mem s s" "same_mem s (s'\<lparr>bs_tx := tx\<rparr>) = same_mem s s'"
  by (simp_all add: same_mem_def)

lemma only_tx_then [only_tx_rules]: "only_tx m \<Longrightarrow> (\<And>a. only_tx (f a)) \<Longrightarrow> only_tx (act_then m f)"
  unfolding only_tx_def act_then_def by (auto simp: same_mem_def split: prod.splits sum.splits)

lemma only_tx_pure [only_tx_rules]: "only_tx (act_ok a)" "only_tx (act_read g)" "only_tx (act_tx h)"
  by (auto simp: only_tx_def act_ok_def act_read_def act_tx_def split: sum.splits)

lemma only_tx_each [only_tx_rules]: "(\<And>x. only_tx (f x)) \<Longrightarrow> only_tx (act_each f xs)"
  by (induction xs) (simp_all add: only_tx_rules)

lemma only_tx_deleteBlob [only_tx_rules]: "only_tx (deleteBlob E b k)"
  by (auto simp: only_tx_def deleteBlob_def act_tx_def split: sum.splits bolt_err.splits)

lemma only_tx_drainStaged: "only_tx (drainStaged E n)"
  unfolding drainStaged_def Let_def deleteNonterminalStage_def run_rows_def act_walk_def act_delete_def
  by (intro only_tx_rules)

lemma only_tx_update: "only_tx f \<Longrightarrow> only_tx (bolt_update E f)"
  unfolding only_tx_def bolt_update_def by (auto split: prod.splits sum.splits option.splits)

text \<open>One round of the drain.\<close>

lemma drain_round:
  assumes "bolt_ok (be_db E) v" "bolt_update E (drainStaged E n) s = (Inr a, s')"
  shows "\<exists>ids. v (bs_tx s') = clear_staged ids (v (bs_tx s)) \<and> a = int (length ids) \<and> distinct ids \<and> length ids \<le> n \<and>
    set ids \<subseteq> {k. v (bs_tx s) StagedB k \<noteq> None} \<and> (length ids < n \<longrightarrow> set ids = {k. v (bs_tx s) StagedB k \<noteq> None}) \<and> same_mem s s'"
proof -
  have "drainStaged E n s = (Inr a, s')" using assms(2) by (auto simp: bolt_update_def split: prod.splits sum.splits option.splits)
  from effectD [OF effect_drainStaged [OF assms(1)] this] obtain ids where
    "v (bs_tx s') = clear_staged ids (v (bs_tx s))" "a = int (length ids)" "distinct ids" "length ids \<le> n"
    "set ids \<subseteq> {k. v (bs_tx s) StagedB k \<noteq> None}" "length ids < n \<longrightarrow> set ids = {k. v (bs_tx s) StagedB k \<noteq> None}" by blast
  moreover have "same_mem s s'" using only_tx_update [OF only_tx_drainStaged, of E E n] assms(2) unfolding only_tx_def by blast
  ultimately show ?thesis by (intro exI [of _ ids]) simp
qed

lemma clear_staged_append: "clear_staged (ids @ ids') w = clear_staged ids' (clear_staged ids w)"
  by (simp add: clear_staged_def)

text \<open>Whatever it returns, a drain clears stages of staged runs and nothing else.\<close>

lemma batch_effect:
  assumes B: "bolt_ok (be_db E) v" and u: "bolt_update E (drainStaged E n) s = (r, s')"
  shows "\<exists>ids. v (bs_tx s') = clear_staged ids (v (bs_tx s)) \<and> set ids \<subseteq> {k. v (bs_tx s) StagedB k \<noteq> None} \<and>
    bs_blobs s' = bs_blobs s \<and> bs_outputs s' = bs_outputs s"
proof (cases r)
  case (Inl e)
  then have "bs_tx s' = bs_tx s" using u by (auto simp: bolt_update_def split: prod.splits sum.splits option.splits)
  moreover have "same_mem s s'" using only_tx_update [OF only_tx_drainStaged, of E E n] u unfolding only_tx_def by blast
  ultimately show ?thesis by (intro exI [of _ "[]"]) (simp add: clear_staged_def same_mem_def)
next
  case (Inr a)
  from drain_round [OF B u [unfolded Inr]] show ?thesis unfolding same_mem_def by blast
qed

lemma Drain_effect:
  assumes B: "bolt_ok (be_db E) v" and "Drain fuel E s = Some (r, s')"
  shows "\<exists>ids. v (bs_tx s') = clear_staged ids (v (bs_tx s)) \<and> set ids \<subseteq> {k. v (bs_tx s) StagedB k \<noteq> None} \<and>
    bs_blobs s' = bs_blobs s \<and> bs_outputs s' = bs_outputs s"
  using assms(2) unfolding Drain_def
proof (induction fuel arbitrary: s)
  case (Suc fuel)
  obtain x s1 where x: "bolt_update E (drainStaged E stageDrainPerSweep) s = (x, s1)" by fastforce
  show ?case
  proof (cases x)
    case (Inl e)
    then have "s' = s1" "bs_tx s1 = bs_tx s" using Suc.prems x by (auto simp: bolt_update_def split: prod.splits sum.splits option.splits)
    moreover have "same_mem s s1" using only_tx_update [OF only_tx_drainStaged, of E E stageDrainPerSweep] x unfolding only_tx_def by blast
    ultimately show ?thesis by (intro exI [of _ "[]"]) (simp add: clear_staged_def same_mem_def)
  next
    case (Inr n)
    let ?s = "s1\<lparr>bs_staged := bs_staged s1 - n\<rparr>"
    obtain ids where ids: "v (bs_tx s1) = clear_staged ids (v (bs_tx s))" "set ids \<subseteq> {k. v (bs_tx s) StagedB k \<noteq> None}" "same_mem s s1"
      using drain_round [OF B x [unfolded Inr]] by blast
    show ?thesis
    proof (cases "n < int stageDrainPerSweep")
      case True
      then have "s' = ?s" using Suc.prems x Inr by (simp add: Let_def)
      then show ?thesis using ids by (intro exI [of _ ids]) (simp add: same_mem_def)
    next
      case False
      then have "drain_loop fuel E ?s = Some (r, s')" using Suc.prems(1) x Inr by (simp add: Let_def)
      then obtain ids' where "v (bs_tx s') = clear_staged ids' (v (bs_tx s1))" "set ids' \<subseteq> {k. v (bs_tx s1) StagedB k \<noteq> None}"
        "bs_blobs s' = bs_blobs s1" "bs_outputs s' = bs_outputs s1" using Suc.IH [of ?s] by auto
      moreover have "{k. v (bs_tx s1) StagedB k \<noteq> None} \<subseteq> {k. v (bs_tx s) StagedB k \<noteq> None}" by (auto simp: ids(1) clear_staged_sel)
      ultimately show ?thesis using ids by (intro exI [of _ "ids @ ids'"]) (auto simp: clear_staged_append same_mem_def)
    qed
  qed
qed simp

lemma Drain_keeps:
  assumes "bolt_ok (be_db E) v" "Drain fuel E s = Some (r, s')" "bolt_good (be_proto E) excl (v (bs_tx s)) used"
  shows "bolt_good (be_proto E) excl (v (bs_tx s')) used"
  using Drain_effect [OF assms(1,2)] good_drain [OF assms(3)] by auto

text \<open>Enough rounds for the staged runs are enough: the drain returns, and when no transaction fails no stage is left.\<close>

lemma Drain_returns:
  assumes B: "bolt_ok (be_db E) v" and "card {k. v (bs_tx s) StagedB k \<noteq> None} < stageDrainPerSweep * fuel"
  shows "\<exists>r s'. Drain fuel E s = Some (r, s') \<and> (r = Inr () \<longrightarrow> (\<exists>ids. set ids = {k. v (bs_tx s) StagedB k \<noteq> None} \<and>
    v (bs_tx s') = clear_staged ids (v (bs_tx s)) \<and> bs_staged s' = bs_staged s - int (card {k. v (bs_tx s) StagedB k \<noteq> None})))"
  using assms(2) unfolding Drain_def
proof (induction fuel arbitrary: s)
  case (Suc fuel)
  let ?S = "\<lambda>s. {k. v (bs_tx s) StagedB k \<noteq> None}"
  have fin: "finite (?S s)" using walk_of_keys [OF bolt_okD(3) [OF B], of "bs_tx s" StagedB] by (metis List.finite_set)
  obtain x s1 where x: "bolt_update E (drainStaged E stageDrainPerSweep) s = (x, s1)" by fastforce
  show ?case
  proof (cases x)
    case (Inl e)
    then show ?thesis using x by simp
  next
    case (Inr n)
    let ?s = "s1\<lparr>bs_staged := bs_staged s1 - n\<rparr>"
    obtain ids where ids: "v (bs_tx s1) = clear_staged ids (v (bs_tx s))" "n = int (length ids)" "distinct ids" "length ids \<le> stageDrainPerSweep"
      "set ids \<subseteq> ?S s" "length ids < stageDrainPerSweep \<longrightarrow> set ids = ?S s" "same_mem s s1"
      using drain_round [OF B x [unfolded Inr]] by blast
    have staged: "bs_staged s1 = bs_staged s" using ids(7) by (simp add: same_mem_def)
    have len: "length ids = card (set ids)" using ids(3) by (simp add: distinct_card)
    show ?thesis
    proof (cases "n < int stageDrainPerSweep")
      case True
      then have "set ids = ?S s" using ids(2,6) by simp
      moreover have "drain_loop (Suc fuel) E s = Some (Inr (), ?s)" using x Inr True by (simp add: Let_def)
      ultimately show ?thesis using ids(1,2) staged len by auto
    next
      case False
      have left: "?S s1 = ?S s - set ids" using ids(1) by (auto simp: clear_staged_sel)
      have card: "card (?S s) = card (?S s1) + stageDrainPerSweep"
      proof -
        have "card (?S s1) = card (?S s) - card (set ids)" unfolding left by (rule card_Diff_subset [OF _ ids(5)]) simp
        moreover have "card (set ids) \<le> card (?S s)" by (rule card_mono [OF fin ids(5)])
        ultimately show ?thesis using False ids(2,4) len by linarith
      qed
      then have "card (?S ?s) < stageDrainPerSweep * fuel" using Suc.prems by simp
      then obtain r s' where r: "drain_loop fuel E ?s = Some (r, s')" "r = Inr () \<longrightarrow> (\<exists>ids. set ids = ?S ?s \<and>
          v (bs_tx s') = clear_staged ids (v (bs_tx ?s)) \<and> bs_staged s' = bs_staged ?s - int (card (?S ?s)))"
        using Suc.IH [of ?s] by blast
      have "drain_loop (Suc fuel) E s = Some (r, s')" using x Inr False r(1) by (simp add: Let_def)
      moreover have "\<exists>ids. set ids = ?S s \<and> v (bs_tx s') = clear_staged ids (v (bs_tx s)) \<and> bs_staged s' = bs_staged s - int (card (?S s))" if ok: "r = Inr ()"
      proof -
        obtain ids' where ids': "set ids' = ?S s1" "v (bs_tx s') = clear_staged ids' (v (bs_tx s1))" "bs_staged s' = bs_staged s1 - n - int (card (?S s1))"
          using r(2) ok by auto
        have "set (ids @ ids') = ?S s" unfolding set_append ids'(1) left using ids(5) by blast
        moreover have "v (bs_tx s') = clear_staged (ids @ ids') (v (bs_tx s))" unfolding clear_staged_append ids(1) [symmetric] by (rule ids'(2))
        moreover have "bs_staged s' = bs_staged s - int (card (?S s))" using ids'(3) staged card False ids(2,4) by linarith
        ultimately show ?thesis by blast
      qed
      ultimately show ?thesis by blast
    qed
  qed
qed simp

lemma bolt_step_good:
  assumes B: "bolt_ok (be_db E) v" and P: "proto_lib_ok (be_proto E)" and sym: "excl_sym excl" and "bolt_step E excl c c'"
    and "bolt_good (be_proto E) excl (v (bs_tx (fst c))) (snd c)"
  shows "bolt_good (be_proto E) excl (v (bs_tx (fst c'))) (snd c')"
  using assms(4,5)
proof (induction rule: bolt_step.induct)
  case (create rec used s res s')
  have h: "holds_after v E excl (bolt_CreateRun E rec (excl (r_pipeline rec))) used (insert (r_run rec) used)"
    unfolding bolt_CreateRun_def
    by (rule holds_post [OF update_keeps [OF keeps_create_tx [OF B P create(1-3) sym] subset_insertI]]) (simp split: prod.split)
  show ?case using holds_afterD [OF h create(4)] create(5) by simp
next
  case (app i t s res s' used)
  have h: "holds_after v E excl (bolt_ApplyTransition E i t) used used" unfolding bolt_ApplyTransition_def
    by (rule holds_post [OF update_keeps [OF keeps_apply_tx [OF B app(1)] order_refl]]) simp
  show ?case using holds_afterD [OF h app(2)] app(3) by simp
next
  case (cancel i req s res s' used)
  show ?case using holds_afterD [OF update_keeps [OF keeps_cancel_tx [OF B cancel(1)] order_refl] cancel(2) [unfolded bolt_RequestCancel_def]] cancel(3) by simp
next
  case (reap before limit s res s' used)
  show ?case using holds_afterD [OF update_keeps [OF keeps_reap_tx [OF B] order_refl] reap(1) [unfolded bolt_ReapTerminal_def]] reap(2) by simp
next
  case (get i s res s' used)
  show ?case using holds_afterD [OF holds_view get(1) [unfolded bolt_GetRun_def]] get(2) by simp
next
  case (head i s res s' used)
  show ?case using holds_afterD [OF holds_view head(1) [unfolded bolt_GetRunHead_def]] head(2) by simp
next
  case (list s res s' used)
  show ?case using holds_afterD [OF holds_view list(1) [unfolded bolt_ListNonterminal_def]] list(2) by simp
next
  case (active p rid s res s' used)
  show ?case using holds_afterD [OF holds_view active(1) [unfolded bolt_GetActiveRunID_def]] active(2) by simp
next
  case (drain fuel s res s' used)
  show ?case using Drain_keeps [OF B drain(1)] drain(2) by simp
next
  case (batch n s res s' used)
  show ?case using batch_effect [OF B batch(1)] good_drain batch(2) by fastforce
next
  case (restart s used opts)
  then show ?case by (simp add: opened_def Let_def)
qed simp_all

lemma bolt_history_good:
  assumes "bolt_ok (be_db E) v" "proto_lib_ok (be_proto E)" "excl_sym excl" "fresh_store v s0" "bolt_history E excl s0 c"
  shows "bolt_good (be_proto E) excl (v (bs_tx (fst c))) (snd c)"
  using assms(5) unfolding bolt_history_def
proof (induction rule: rtranclp_induct)
  case base
  show ?case using assms(4)
    by (simp add: fresh_store_def bolt_good_def bolt_inv_empty slots_exclusive_def known_def has_meta_def ended_def)
next
  case (step c c')
  show ?case by (rule bolt_step_good [OF assms(1-3) step(2,3)])
qed

end
