(* ===== verification/Bolt_Ended.thy ===== *)
theory Bolt_Ended
  imports Bolt_Create Bolt_History
begin

text \<open>
  How a run ends in the bbolt store: the record \<^verbatim>\<open>commit_terminal\<close> puts together from the rows of the run is the
  contract's terminal record, and the terminal row it writes reads back as that record, with the output in
  the row or beside it.
\<close>

section \<open>The terminal record\<close>

lemma reads_back_refl [simp]: "reads_back r r"
  by (simp add: reads_back_def)

lemma reads_back_trans: "reads_back r r' \<Longrightarrow> reads_back r' r'' \<Longrightarrow> reads_back r r''"
  by (simp add: reads_back_def)

lemma compact_ops:
  assumes "gm_ok (r_steps r)"
  shows "rec_op (compact_terminal r) k p = (if p = PhaseUnwind \<and> or_status (rec_op r k p) = OpFailed then rec_op r k p else zero_op)"
  by (simp add: rec_op_def rec_step_def compact_terminal_def gm_get_compact [OF assms] sr_op_def zero_step_def zero_op_def
      split: option.split)

lemma compact_reads_back:
  assumes r: "reads_back r r'" and ok: "gm_ok (r_steps r)" "gm_ok (r_steps r')"
  shows "reads_back (compact_terminal r) (compact_terminal r')"
proof -
  have f: "rec_fields (compact_terminal x) = (compact_terminal (rec_fields x))\<lparr>r_steps := []\<rparr>" for x
    by (simp add: rec_fields_def compact_terminal_def nil_bytes_def)
  have a: "r_annotations (compact_terminal x) = r_annotations x" for x by (simp add: compact_terminal_def)
  have "nil_op (rec_op (compact_terminal r') k p) = nil_op (rec_op (compact_terminal r) k p)" if p: "two_phase p" for k p
  proof -
    have op: "nil_op (rec_op r' k p) = nil_op (rec_op r k p)" using r p by (simp add: reads_back_def)
    then have st: "or_status (rec_op r' k p) = or_status (rec_op r k p)" by (metis nil_op_simps(2))
    show ?thesis unfolding compact_ops [OF ok(1)] compact_ops [OF ok(2)] st using op by auto
  qed
  then show ?thesis using r by (simp add: reads_back_def f a)
qed

lemma ops_reads_back:
  assumes "reads_back r r'" "ops_ok ows"
  shows "reads_back (apply_ops ows r) (apply_ops ows r')"
  using assms
proof (induction ows arbitrary: r r')
  case (Cons ow ows)
  have "two_phase (ow_phase ow)" using Cons.prems(2) by (simp add: ops_ok_def)
  then have "reads_back (put_op (ow_step ow) (ow_phase ow) op r) (put_op (ow_step ow) (ow_phase ow) op r')" for op
    using Cons.prems(1) fields_put by (auto simp: reads_back_def two_phase_def)
  then show ?case using Cons.prems(2) Cons.IH by (simp add: ops_ok_def)
qed simp

text \<open>The cursor of a transition that ends the run has no operation in flight.\<close>

lemma apply_ops_failure: "apply_ops ows (apply_failure fo r) = apply_failure fo (apply_ops ows r)"
proof (induction ows arbitrary: r)
  case (Cons ow ows)
  have "put_op k p op (apply_failure fo r) = apply_failure fo (put_op k p op r)" for k p op
    by (simp add: apply_failure_def put_op_def rec_step_def split: option.split)
  then show ?case by (simp add: Cons.IH)
qed simp

lemma terminal_record_eq:
  assumes "cu_step (t_cursor t) = []" "t_outcome t = Some oc"
  shows "terminal_record t oc r = apply_transition t r"
proof -
  have "(case t_failure t of None \<Rightarrow> r | Some f \<Rightarrow> r\<lparr>r_failure := Some f\<rparr>) = apply_failure (t_failure t) r"
    by (simp add: apply_failure_def)
  then have "terminal_record t oc r = compact_terminal ((apply_failure (t_failure t) (apply_ops (t_ops t) r))\<lparr>r_phase := cu_phase (t_cursor t),
      r_updated_at := cu_updated_at (t_cursor t), r_started_at := cu_started_at (t_cursor t), r_outcome := Some oc, r_output := t_output t\<rparr>)"
    using assms(1) by (simp add: terminal_record_def Let_def apply_ops_failure flip: apply_ops_def)
  also have "\<dots> = apply_transition t r"
    using assms by (simp add: apply_transition_def apply_cursor_def apply_outcome_def apply_failure_def compact_terminal_def split: option.split)
  finally show ?thesis .
qed

section \<open>The terminal row\<close>

lemma read_back_ops:
  assumes ok: "gm_ok (r_steps rec)" and rb: "read_back bs (compact_terminal rec) rec'"
  shows "reads_back (compact_terminal rec) (rec'\<lparr>r_output := r_output (compact_terminal rec)\<rparr>)"
proof -
  let ?c = "compact_terminal rec"
  have eq: "rec' = ?c\<lparr>r_annotations := r_annotations rec', r_steps := r_steps rec', r_output := if bs then None else nil_bytes (r_output ?c)\<rparr>"
    and as: "mset (r_annotations rec') = mset (r_annotations ?c)"
    and st: "\<And>k. gm_get (r_steps rec') k = map_option (\<lambda>sr. sr\<lparr>sr_unwind := (sr_unwind sr)\<lparr>or_state := nil_bytes (or_state (sr_unwind sr))\<rparr>\<rparr>) (gm_get (r_steps ?c) k)"
    using rb by (simp_all add: read_back_def)
  have "rec_fields (rec'\<lparr>r_output := r_output ?c\<rparr>) = rec_fields ?c" by (subst eq) (simp add: rec_fields_def)
  moreover have "nil_op (rec_op rec' k p) = nil_op (rec_op ?c k p)" if "two_phase p" for k p
    using that by (auto simp: rec_op_def rec_step_def st nil_op_def sr_op_def two_phase_def split: option.split)
  moreover have "rec_op (rec'\<lparr>r_output := x\<rparr>) = rec_op rec'" for x by (simp add: fun_eq_iff rec_op_def rec_step_def)
  ultimately show ?thesis using as by (simp add: reads_back_def)
qed

lemma read_back_output: "read_back bs rec rec' \<Longrightarrow> r_output rec' = (if bs then None else nil_bytes (r_output rec))"
  unfolding read_back_def by (drule conjunct2, drule conjunct1, drule arg_cong [of _ _ r_output]) simp

text \<open>The rows that say how a run ended.\<close>

definition ended_as :: "('t, 'tx) bolt_env \<Rightarrow> run_id \<Rightarrow> run_record \<Rightarrow> db_view \<Rightarrow> bool" where
  "ended_as E i r w \<longleftrightarrow> r_input r = None \<and> w ExpiryB (expiryKey (r_updated_at r) i) \<noteq> None \<and>
     (\<exists>b rec bs. w TerminalB i = Some (BRow b) \<and> UnmarshalTerminalInto (be_proto E) b zero_record = Inr (rec, bs) \<and>
        reads_back r (rec\<lparr>r_output := r_output r\<rparr>) \<and>
        (if bs then r_output r \<noteq> None \<and> w TerminalB (outputKey i) = Some (blob_entry (be_row_max E) (the_bytes (r_output r)))
         else r_output rec = nil_bytes (r_output r)))"

lemma put_terminal_ended:
  assumes P: "proto_lib_ok (be_proto E)" and max: "0 \<le> be_row_max E" and ok: "gm_ok (r_steps x)" and i: "r_run x = i" and r: "reads_back r x" "terminal r"
    and gr: "gm_ok (r_steps r)" "r = compact_terminal r" "x = compact_terminal x" "r_output x = r_output r"
    and b: "MarshalTerminal (be_proto E) x (be_row_max E < blen (r_output x)) = Inr b"
    and w': "w' = put_terminal i b (if be_row_max E < blen (r_output x) then Some (blob_entry (be_row_max E) (the_bytes (r_output x))) else None) (r_updated_at x) w"
  shows "ended_as E i r w'"
proof -
  let ?bs = "be_row_max E < blen (r_output x)"
  obtain rec' where rec': "UnmarshalTerminalInto (be_proto E) b zero_record = Inr (rec', ?bs)" "read_back ?bs x rec'"
    using terminal_row_roundtrip [OF P ok b] by blast
  have "reads_back x (rec'\<lparr>r_output := r_output x\<rparr>)"
    using read_back_ops [OF ok, of ?bs rec'] rec'(2) gr(3) by simp
  then have "reads_back r (rec'\<lparr>r_output := r_output r\<rparr>)" using reads_back_trans [OF r(1)] gr(4) by simp
  moreover have "r_output rec' = (if ?bs then None else nil_bytes (r_output r))" using read_back_output [OF rec'(2)] gr(4) by simp
  moreover have "r_output r \<noteq> None" if ?bs using that max gr(4) by (cases "r_output r") (auto simp: blen_def)
  moreover have "r_input r = None" using arg_cong [OF gr(2), of r_input] by (simp add: compact_terminal_def)
  moreover have "r_updated_at x = r_updated_at r"
  proof -
    have "r_updated_at (rec_fields x) = r_updated_at (rec_fields r)" using r(1) by (simp add: reads_back_def)
    then show ?thesis by (simp add: rec_fields_def)
  qed
  moreover have "w' TerminalB i = Some (BRow b)" "w' ExpiryB (expiryKey (r_updated_at x) i) \<noteq> None"
    "?bs \<Longrightarrow> w' TerminalB (outputKey i) = Some (blob_entry (be_row_max E) (the_bytes (r_output x)))"
    unfolding w' put_terminal_def by (auto simp: outputKey_def)
  ultimately show ?thesis using rec'(1) gr(4) unfolding ended_as_def by (intro conjI exI [of _ b] exI [of _ rec'] exI [of _ ?bs]) auto
qed

end
