(* ===== verification/Bolt_Sim.thy ===== *)
theory Bolt_Sim
  imports Bolt_Ended
begin

text \<open>
  The state of the bbolt store against the contents the contract gives it: every run's rows say its record,
  both caches hold the blobs of the records, and each transaction changes rows and contents alike.
\<close>

section \<open>Rows against contents\<close>

text \<open>A store's contents: the record of each run and the last cursor written for it.\<close>

type_synonym contents = "run_id \<Rightarrow> (run_record \<times> cursor) option"

definition run_stored :: "('t, 'tx) bolt_env \<Rightarrow> db_view \<Rightarrow> run_id \<Rightarrow> (run_record \<times> cursor) option \<Rightarrow> bool" where
  "run_stored E w i x = (case x of None \<Rightarrow> blank i w \<and> w TerminalB i = None
     | Some (r, c) \<Rightarrow> r_run r = i \<and> gm_ok (r_steps r) \<and> (if terminal r then ended_as E i r w
         else w TerminalB i = None \<and> cursor_ok c \<and> (\<exists>A. renders E i A w \<and> stores A r \<and> st_cursor A = c)))"

definition stored_all :: "('t, 'tx) bolt_env \<Rightarrow> db_view \<Rightarrow> contents \<Rightarrow> bool" where
  "stored_all E w M \<longleftrightarrow> (\<forall>i. if nul_free i then run_stored E w i (M i) else M i = None)"

lemma stored_allD: "stored_all E w M \<Longrightarrow> nul_free i \<Longrightarrow> run_stored E w i (M i)"
  by (simp add: stored_all_def)

lemma stored_nul: "stored_all E w M \<Longrightarrow> M i \<noteq> None \<Longrightarrow> nul_free i"
  by (metis stored_all_def)

text \<open>What the contents of a run depend on.\<close>

definition same_run :: "run_id \<Rightarrow> db_view \<Rightarrow> db_view \<Rightarrow> bool" where
  "same_run i w w' \<longleftrightarrow> (\<forall>k. prefix (runPrefix i) k \<longrightarrow> w' ActiveB k = w ActiveB k) \<and> w' CursorB i = w CursorB i"

definition same_end :: "run_id \<Rightarrow> db_view \<Rightarrow> db_view \<Rightarrow> bool" where
  "same_end i w w' \<longleftrightarrow> w' TerminalB i = w TerminalB i \<and> w' TerminalB (outputKey i) = w TerminalB (outputKey i)
     \<and> (\<forall>t. w' ExpiryB (expiryKey t i) = w ExpiryB (expiryKey t i))"

lemma ended_same: "same_end i w w' \<Longrightarrow> ended_as E i r w' = ended_as E i r w"
  by (simp add: ended_as_def same_end_def)

lemma run_stored_same: "same_run i w w' \<Longrightarrow> same_end i w w' \<Longrightarrow> run_stored E w i x \<Longrightarrow> run_stored E w' i x"
  using renders_cong [of E i _ w w']
  by (auto simp: run_stored_def ended_same blank_def split: option.splits prod.splits) (auto simp: same_run_def same_end_def)

lemma prefix_of_one: "nul_free i \<Longrightarrow> nul_free j \<Longrightarrow> prefix (runPrefix i) k \<Longrightarrow> prefix (runPrefix j) k \<Longrightarrow> i = j"
proof -
  assume "nul_free i" "nul_free j" "prefix (runPrefix i) k" "prefix (runPrefix j) k"
  then obtain rest where "k = runPrefix j @ rest" by (auto simp: prefix_def)
  then show "i = j" using runPrefix_prefix \<open>nul_free i\<close> \<open>nul_free j\<close> \<open>prefix (runPrefix i) k\<close> by simp
qed

lemma local_same_run: "run_local i w w' \<Longrightarrow> nul_free i \<Longrightarrow> nul_free j \<Longrightarrow> j \<noteq> i \<Longrightarrow> same_run j w w'"
  unfolding run_local_def same_run_def using prefix_of_one by (metis bucket.distinct(1))

lemma local_same_end: "run_local i w w' \<Longrightarrow> same_end j w w'"
  using run_local_same(2,4) [of i w w'] by (simp add: same_end_def)

text \<open>A write of one run, with what it makes of that run.\<close>

lemma stored_local:
  assumes "stored_all E w M" "run_local i w w'" "nul_free i" "run_stored E w' i x"
  shows "stored_all E w' (M(i := x))"
  using assms local_same_run [OF assms(2,3)] local_same_end [OF assms(2)] run_stored_same unfolding stored_all_def by (metis fun_upd_apply)

lemma stored_frame:
  assumes "stored_all E w M" "\<And>i. nul_free i \<Longrightarrow> same_run i w w'" "\<And>i. nul_free i \<Longrightarrow> same_end i w w'"
  shows "stored_all E w' M"
  using assms(1) run_stored_same [OF assms(2,3)] unfolding stored_all_def by metis

lemma stored_slots:
  "stored_all E w M \<Longrightarrow> stored_all E (upd SlotsB k e w) M"
  "stored_all E w M \<Longrightarrow> stored_all E (upd StagedB k e w) M"
  by (erule stored_frame; simp add: same_run_def same_end_def)+

lemma stored_put_meta:
  assumes "stored_all E w M" "run_local i (put_meta i b w) w'" "nul_free i" "run_stored E w' i x"
  shows "stored_all E w' (M(i := x))"
proof -
  have "same_run j w (put_meta i b w)" "same_end j w (put_meta i b w)" if "nul_free j" "j \<noteq> i" for j
    using that assms(3) meta_key_prefix [of j i tagMeta] by (auto simp: same_run_def same_end_def put_meta_def)
  then have "run_stored E w' j (M j)" if "nul_free j" "j \<noteq> i" for j
    using that local_same_run [OF assms(2,3)] local_same_end [OF assms(2)] run_stored_same stored_allD [OF assms(1)] by metis
  then show ?thesis using assms(1,3,4) unfolding stored_all_def by auto
qed

text \<open>Only ended runs are staged, and an ended run has no use for its rows.\<close>

lemma stored_ended: "stored_all E w M \<Longrightarrow> nul_free i \<Longrightarrow> ended w i \<longleftrightarrow> (\<exists>r c. M i = Some (r, c) \<and> terminal r)"
  using stored_allD [of E w M i] by (auto simp: run_stored_def ended_def ended_as_def split: option.splits prod.splits if_splits)

lemma stored_meta: "stored_all E w M \<Longrightarrow> nul_free i \<Longrightarrow> \<not> ended w i \<Longrightarrow> has_meta w i \<longleftrightarrow> M i \<noteq> None"
proof -
  assume a: "stored_all E w M" "nul_free i" "\<not> ended w i"
  then consider "M i = None" "blank i w" | r c A where "M i = Some (r, c)" "renders E i A w"
    using stored_ended [OF a(1,2)] stored_allD [OF a(1,2)] by (cases "M i") (auto simp: run_stored_def)
  then show ?thesis
  proof cases
    case 1
    then show ?thesis by (simp add: blank_def has_meta_def activeKey_def)
  next
    case 2
    then have "entry_ok E A MetaK (w ActiveB (key_of i MetaK))" unfolding renders_def by (meson key_ok.simps)
    then have "w ActiveB (key_of i MetaK) \<noteq> None" by (auto simp: decodes_def)
    then show ?thesis using 2(1) by (simp add: has_meta_def key_of_eqs)
  qed
qed

lemma stored_drain:
  assumes M: "stored_all E w M" and g: "bolt_inv P w" and ids: "set ids \<subseteq> {k. w StagedB k \<noteq> None}"
  shows "stored_all E (clear_staged ids w) M"
proof -
  have over: "nul_free i \<and> ended w i" if "i \<in> set ids" for i using that ids g by (auto simp: bolt_inv_def staged_ok_def)
  have se: "same_end j w (clear_staged ids w)" for j by (simp add: same_end_def clear_staged_sel)
  have "run_stored E (clear_staged ids w) j (M j)" if j: "nul_free j" for j
  proof (cases "j \<in> set ids")
    case True
    then show ?thesis using stored_allD [OF M j] stored_ended [OF M j] over [of j] ended_same [OF se [of j], of E] by (auto simp: run_stored_def)
  next
    case False
    have "same_run j w (clear_staged ids w)" using False over j prefix_of_one by (auto simp: same_run_def clear_staged_sel)
    then show ?thesis using run_stored_same [OF _ se] stored_allD [OF M j] by blast
  qed
  then show ?thesis using M by (auto simp: stored_all_def)
qed

text \<open>The slots are those of the live records.\<close>

lemma stores_fields:
  assumes "stores A r"
  shows "r_run (st_meta A) = r_run r" "r_pipeline (st_meta A) = r_pipeline r" "r_resource (st_meta A) = r_resource r"
    "st_input A = nil_bytes (r_input r)"
proof -
  have eq: "set_cursor (st_cursor A) ((stored_base A)\<lparr>r_annotations := []\<rparr>) = rec_fields r" using assms by (simp add: stores_def)
  show "r_run (st_meta A) = r_run r" using arg_cong [OF eq, of r_run] by (simp add: set_cursor_def stored_base_def rec_fields_def)
  show "r_pipeline (st_meta A) = r_pipeline r" using arg_cong [OF eq, of r_pipeline] by (simp add: set_cursor_def stored_base_def rec_fields_def)
  show "r_resource (st_meta A) = r_resource r" using arg_cong [OF eq, of r_resource] by (simp add: set_cursor_def stored_base_def rec_fields_def)
  show "st_input A = nil_bytes (r_input r)" using arg_cong [OF eq, of r_input] by (simp add: set_cursor_def stored_base_def rec_fields_def)
qed

lemma stored_live:
  assumes M: "stored_all E w M" and g: "bolt_inv (be_proto E) w" and i: "M i = Some (r, c)" "\<not> terminal r"
  shows "\<exists>m. live (be_proto E) w i m \<and> slot_of m = slotKeyFor (r_pipeline r) (r_resource r) \<and> nul_free (r_pipeline r)
    \<and> w SlotsB (slotKeyFor (r_pipeline r) (r_resource r)) = Some (BRow i)"
proof -
  have nf: "nul_free i" using stored_nul [OF M] i by simp
  obtain A where A: "renders E i A w" "stores A r" using stored_allD [OF M nf] i by (auto simp: run_stored_def)
  have e: "\<not> ended w i" using stored_ended [OF M nf] i by auto
  then have "has_meta w i" using stored_meta [OF M nf] i by simp
  with e obtain m where m: "live (be_proto E) w i m" "nul_free (rm_pipeline_id m)" "w SlotsB (slot_of m) = Some (BRow i)"
    using slots_okD(2) [OF _ nf, of "be_proto E" w] g by (auto simp: bolt_inv_def)
  have "entry_ok E A MetaK (w ActiveB (key_of i MetaK))" using A(1) unfolding renders_def by (meson key_ok.simps)
  then obtain b where b: "meta_row_at w i = Some b" "UnmarshalRunMetaInto (be_proto E) b zero_record = Inr (st_meta A)"
    by (auto simp: decodes_def meta_row_at_def key_of_eqs)
  have "meta_of (be_proto E) w i = Some m" using m(1) by (simp add: live_def)
  from meta_identity [OF this] b have "r_pipeline (st_meta A) = rm_pipeline_id m" "r_resource (st_meta A) = rm_resource_id m" by auto
  then have "rm_pipeline_id m = r_pipeline r" "rm_resource_id m = r_resource r" using stores_fields [OF A(2)] by simp_all
  then have "slot_of m = slotKeyFor (r_pipeline r) (r_resource r)" "nul_free (r_pipeline r)" using m(2) by (simp_all add: slot_of_def)
  with m show ?thesis by auto
qed

lemma slot_inj: "nul_free p \<Longrightarrow> nul_free q \<Longrightarrow> slotKeyFor p r = slotKeyFor q r' \<longleftrightarrow> p = q \<and> r = r'"
  using nul_append_inj [of p q r r'] by (auto simp: slotKeyFor_def)

lemma stored_slot:
  assumes M: "stored_all E w M" and g: "bolt_inv (be_proto E) w" and k: "row_of (w SlotsB (slotKeyFor p rid)) = Some i" and p: "nul_free p"
  shows "\<exists>r c. M i = Some (r, c) \<and> \<not> terminal r \<and> r_pipeline r = p \<and> r_resource r = rid"
proof -
  have e: "w SlotsB (slotKeyFor p rid) = Some (BRow i)" using k by (simp add: row_of_Some)
  then obtain m where m: "live (be_proto E) w i m" using slots_okD(1) [of "be_proto E" w] g by (auto simp: bolt_inv_def)
  then have nf: "nul_free i" "\<not> ended w i" "slotKeyFor p rid = slot_of m" and hm: "has_meta w i"
    using e slots_okD(1) [of "be_proto E" w "slotKeyFor p rid"] g
    by (auto simp: live_def bolt_inv_def meta_of_def meta_row_at_def has_meta_def bind_eq_Some_conv row_of_Some)
  then obtain r c where rc: "M i = Some (r, c)" using stored_meta [OF M nf(1,2)] by auto
  then have t: "\<not> terminal r" using stored_ended [OF M nf(1)] nf(2) by auto
  obtain m' where m': "live (be_proto E) w i m'" "slot_of m' = slotKeyFor (r_pipeline r) (r_resource r)" "nul_free (r_pipeline r)"
    using stored_live [OF M g rc t] by blast
  have "m' = m" using m m'(1) by (simp add: live_def)
  then show ?thesis using rc t m' nf(3) slot_inj [OF p m'(3)] by auto
qed

section \<open>Ends\<close>

lemma outputKey_inj [simp]: "outputKey i = outputKey j \<longleftrightarrow> i = j"
  by (simp add: outputKey_def)

lemma expiryKey_run: "expiryKey t i = expiryKey u j \<Longrightarrow> i = j"
  by (metis drop_expiryKey)

lemma nul_free_output [simp]: "nul_free i \<Longrightarrow> i \<noteq> outputKey j" "nul_free i \<Longrightarrow> outputKey j \<noteq> i"
  using outputKey_not_nul_free by blast+

lemma stored_end_run:
  assumes M: "stored_all E w M" and i: "nul_free i" and r: "r_run r = i" "gm_ok (r_steps r)" "terminal r" "ended_as E i r (end_run i b out u slot w)"
  shows "stored_all E (end_run i b out u slot w) (M(i \<mapsto> (r, c)))"
proof -
  let ?w = "end_run i b out u slot w"
  have "same_run j w ?w" for j by (simp add: same_run_def end_run_def put_terminal_def)
  moreover have "same_end j w ?w" if "nul_free j" "j \<noteq> i" for j
    using that i by (auto simp: same_end_def end_run_def put_terminal_def dest: expiryKey_run)
  ultimately have "run_stored E ?w j (M j)" if "nul_free j" "j \<noteq> i" for j
    using that run_stored_same [of j w ?w] stored_allD [OF M] by metis
  then show ?thesis using M i r by (auto simp: stored_all_def run_stored_def)
qed

lemma stored_forget:
  assumes M: "stored_all E w M" and i: "i = drop 8 k" "nul_free i"
  shows "stored_all E (forget_run k w) (M(i := None))"
proof -
  have "same_run j w (forget_run k w)" if "nul_free j" "j \<noteq> i" for j
    using that prefix_of_one [OF that(1) i(2)] i(1) by (auto simp: same_run_def forget_run_def Let_def clear_stage_def)
  moreover have "same_end j w (forget_run k w)" if "nul_free j" "j \<noteq> i" for j
    using that i(2) unfolding i(1) by (auto simp: same_end_def forget_run_def Let_def clear_stage_def)
  ultimately have "run_stored E (forget_run k w) j (M j)" if "nul_free j" "j \<noteq> i" for j
    using that run_stored_same [of j w "forget_run k w"] stored_allD [OF M] by metis
  moreover have "run_stored E (forget_run k w) i None"
    using i(2) unfolding i(1) by (simp add: run_stored_def blank_def forget_run_def Let_def clear_stage_def)
  ultimately show ?thesis using M i(2) by (auto simp: stored_all_def)
qed

section \<open>Caches\<close>

definition live_view :: "contents \<Rightarrow> blob_view" where
  "live_view M = \<lparr>bv_input = (\<lambda>i. case M i of Some (r, c) \<Rightarrow> if terminal r then None else nil_bytes (r_input r) | None \<Rightarrow> None),
     bv_state = (\<lambda>i k. case M i of Some (r, c) \<Rightarrow> if terminal r then None else nil_bytes (or_state (rec_op r k PhaseForward)) | None \<Rightarrow> None),
     bv_output = (\<lambda>_. None)\<rparr>"

definition ended_view :: "contents \<Rightarrow> blob_view" where
  "ended_view M = \<lparr>bv_input = (\<lambda>_. None), bv_state = (\<lambda>_ _. None),
     bv_output = (\<lambda>i. case M i of Some (r, c) \<Rightarrow> if terminal r then r_output r else None | None \<Rightarrow> None)\<rparr>"

definition caches_ok :: "contents \<Rightarrow> 'tx bolt_store \<Rightarrow> bool" where
  "caches_ok M s \<longleftrightarrow> coherent (live_view M) (bs_blobs s) \<and> coherent (ended_view M) (bs_outputs s)"

definition mirrors :: "('t, 'tx) bolt_env \<Rightarrow> ('tx \<Rightarrow> db_view) \<Rightarrow> contents \<Rightarrow> 'tx bolt_store \<Rightarrow> bool" where
  "mirrors E v M s \<longleftrightarrow> stored_all E (v (bs_tx s)) M \<and> caches_ok M s"

lemma caches_tx [simp]: "caches_ok M (s\<lparr>bs_tx := tx\<rparr>) = caches_ok M s" "caches_ok M (s\<lparr>bs_staged := n\<rparr>) = caches_ok M s"
  by (simp_all add: caches_ok_def)

lemma nil_bytes_same: "blen x \<noteq> 0 \<Longrightarrow> nil_bytes x = x"
  by (auto simp: nil_bytes_def blen_def)

lemma live_blobs:
  assumes "renders E i A w" "stores A r" "M i = Some (r, c)" "\<not> terminal r"
  shows "blobs_of i A (live_view M)"
proof -
  have "or_state op = nil_bytes (or_state (rec_op r k PhaseForward))" if op: "st_ops A k PhaseForward = Some op" for k op
  proof -
    have "nil_op (over (st_cursor A) (stored_op A) k PhaseForward) = nil_op (rec_op r k PhaseForward)"
      using assms(2) by (simp add: stores_def two_phase_def)
    then have "or_state (nil_op (over (st_cursor A) (stored_op A) k PhaseForward)) = or_state (nil_op (rec_op r k PhaseForward))" by simp
    then have "nil_bytes (or_state op) = nil_bytes (or_state (rec_op r k PhaseForward))" using op by (simp add: nil_op_def over_def stored_op_def split: if_splits)
    moreover have "or_state op \<noteq> Some []" using assms(1) op by (auto simp: renders_def ops_named_def)
    ultimately show ?thesis by (simp add: nil_bytes_def split: option.splits if_splits)
  qed
  then show ?thesis using stores_fields(4) [OF assms(2)] assms(3,4) by (auto simp: blobs_of_def live_view_def)
qed

lemma getBlob_entry:
  assumes B: "bolt_ok (be_db E) v" and e: "v (bs_tx s) b k = Some (blob_entry n x)"
  shows "getBlob E b k s = (Inr (Some x), s)"
proof -
  define rows where "rows = bt_walk (be_db E) (bs_tx s) b"
  have walk: "walk_of (v (bs_tx s) b) rows" unfolding rows_def by (rule bolt_okD(3) [OF B])
  then have "(k, row_of (v (bs_tx s) b k)) \<in> set rows" using e by (simp add: walk_of_def)
  then obtain pre post where rows: "rows = pre @ (k, row_of (v (bs_tx s) b k)) # post" by (auto simp: in_set_conv_decomp)
  then have "\<forall>y\<in>set pre. fst y < k" using walk by (auto simp: walk_of_def sorted_wrt_append)
  then have "dropWhile (\<lambda>(k', v). k' < k) rows = (k, row_of (v (bs_tx s) b k)) # post" unfolding rows by (subst dropWhile_append2) auto
  then show ?thesis using blobAt_entry [OF B e] by (simp add: getBlob_def act_walk_def act_read_def act_then_def flip: rows_def)
qed

text \<open>Every read of a run gives the record the contract has for it.\<close>

definition answers_get :: "contents \<Rightarrow> run_id \<Rightarrow> run_record result \<Rightarrow> bool" where
  "answers_get M i a \<longleftrightarrow> (case M i of None \<Rightarrow> a = Inl ErrRunNotFound | Some (r, c) \<Rightarrow> \<exists>rec. a = Inr rec \<and> reads_back r rec)"

lemma getNonterminal_missing:
  assumes B: "bolt_ok (be_db E) v" and w: "blank i (v (bs_tx s))" and c: "caches_ok M s"
  shows "\<exists>s'. getNonterminal E i s = (Inl ErrRunNotFound, s') \<and> bs_tx s' = bs_tx s \<and> caches_ok M s'"
proof -
  obtain a c1 where c1: "bc_input (bs_blobs s) i = (a, c1)" by fastforce
  let ?s = "s\<lparr>bs_blobs := c1\<rparr>"
  have coh: "coherent (live_view M) c1" using bc_lookup_coherent [of "live_view M" "bs_blobs s" i] c c1
    by (auto simp: caches_ok_def bc_input_def split: prod.splits option.splits)
  have "walk_of (run_part i (v (bs_tx s))) (seek_prefix (runPrefix i) (bt_walk (be_db E) (bs_tx s) ActiveB))"
    using walk_of_seek [OF bolt_okD(3) [OF B, of "bs_tx s" ActiveB]] by (simp add: run_part_def [abs_def])
  from walk_of_keys [OF this] have "seek_prefix (runPrefix i) (bt_walk (be_db E) (bs_tx s) ActiveB) = []"
    using w by (auto simp: run_part_def blank_def split: if_splits)
  then have "run_rows E i ?s = (Inr [], ?s)" by (simp add: run_rows_def act_walk_def act_read_def act_then_def act_ok_def)
  then have "getNonterminal E i s = (Inl ErrRunNotFound, ?s)"
    by (simp add: getNonterminal_def act_then_def act_cache_def c1 meta_row_def act_fail_def case_prod_beta)
  then show ?thesis using coh c by (auto simp: caches_ok_def)
qed

lemma getNonterminal_stored:
  assumes B: "bolt_ok (be_db E) v" and max: "0 \<le> be_row_max E" and nf: "nul_free i" and m: "mirrors E v M s"
    and r: "M i = Some (r, c)" "\<not> terminal r"
  shows "\<exists>rec s'. getNonterminal E i s = (Inr rec, s') \<and> reads_back r rec \<and> gm_ok (r_steps rec) \<and> bs_tx s' = bs_tx s \<and> caches_ok M s'"
proof -
  obtain A where A: "renders E i A (v (bs_tx s))" "stores A r" "st_cursor A = c" "cursor_ok c"
    using stored_allD [OF _ nf, of E "v (bs_tx s)" M] m r by (auto simp: mirrors_def run_stored_def)
  have "reading E v i A (live_view M) (v (bs_tx s))"
    using B nf max A live_blobs [of E i A _ r M c, OF A(1,2) r] by (simp add: reading_def)
  from getNonterminal_reads [OF this refl] obtain rec cb where rec: "getNonterminal E i s = (Inr rec, s\<lparr>bs_blobs := cb\<rparr>)"
    "coherent (live_view M) cb" "reads_as A rec" using m by (auto simp: mirrors_def caches_ok_def)
  have "reads_back r rec" using stores_reads [OF A(2) rec(3)] A(3,4) by (simp add: cursor_ok_def)
  moreover have "gm_ok (r_steps rec)" using rec(3) by (auto simp: reads_as_def overlay_cursor)
  ultimately show ?thesis using rec m by (auto simp: mirrors_def caches_ok_def)
qed

lemma reads_back_output: "nil_bytes x = nil_bytes (r_output r) \<Longrightarrow> reads_back (r\<lparr>r_output := x\<rparr>) r"
proof -
  assume "nil_bytes x = nil_bytes (r_output r)"
  moreover have "rec_op (r\<lparr>r_output := x\<rparr>) = rec_op r" by (simp add: fun_eq_iff rec_op_def rec_step_def)
  ultimately show ?thesis by (simp add: reads_back_def rec_fields_def)
qed

lemma getRun_stored:
  assumes B: "bolt_ok (be_db E) v" and max: "0 \<le> be_row_max E" and nf: "nul_free i" and m: "mirrors E v M s"
  shows "\<exists>a s'. getRun E i s = (a, s') \<and> answers_get M i a \<and> bs_tx s' = bs_tx s \<and> caches_ok M s'"
proof -
  have M: "run_stored E (v (bs_tx s)) i (M i)" and c: "caches_ok M s" using m stored_allD [OF _ nf] by (auto simp: mirrors_def)
  have tb: "act_get E TerminalB i s = (Inr (row_of (v (bs_tx s) TerminalB i)), s)" using bolt_okD(1) [OF B] by (simp add: act_get_def act_read_def)
  consider (none) "M i = None" | (live) r c where "M i = Some (r, c)" "\<not> terminal r" | (ended) r c where "M i = Some (r, c)" "terminal r"
    by (cases "M i") auto
  then show ?thesis
  proof cases
    case none
    then have "blank i (v (bs_tx s))" "v (bs_tx s) TerminalB i = None" using M by (simp_all add: run_stored_def)
    then show ?thesis using getNonterminal_missing [OF B _ c] none tb
      by (fastforce simp: getRun_def act_then_def answers_get_def)
  next
    case live
    then have "v (bs_tx s) TerminalB i = None" using M by (simp add: run_stored_def)
    then show ?thesis using getNonterminal_stored [OF B max nf m live] live tb
      by (fastforce simp: getRun_def act_then_def answers_get_def)
  next
    case ended
    then obtain b rec bs where b: "v (bs_tx s) TerminalB i = Some (BRow b)" "UnmarshalTerminalInto (be_proto E) b zero_record = Inr (rec, bs)"
      and rb: "reads_back r (rec\<lparr>r_output := r_output r\<rparr>)"
      and out: "if bs then r_output r \<noteq> None \<and> v (bs_tx s) TerminalB (outputKey i) = Some (blob_entry (be_row_max E) (the_bytes (r_output r)))
        else r_output rec = nil_bytes (r_output r)"
      using M by (auto simp: run_stored_def ended_as_def)
    show ?thesis
    proof (cases bs)
      case False
      have "reads_back r rec"
        by (rule reads_back_trans [OF rb reads_back_output]) (use out False in \<open>simp add: nil_bytes_def\<close>)
      then show ?thesis using b c ended tb False
        by (simp add: getRun_def act_then_def act_pb_def act_ok_def answers_get_def)
    next
      case True
      obtain o1 c1 where o1: "bc_output (bs_outputs s) i = (o1, c1)" by fastforce
      have coh: "coherent (ended_view M) c1" using bc_lookup_coherent [of "ended_view M" "bs_outputs s" i] c o1
        by (auto simp: caches_ok_def bc_output_def split: prod.splits option.splits)
      have hit: "o1 = Some x \<Longrightarrow> r_output r = Some x" for x
        using coherent_reads(3) [of "ended_view M" "bs_outputs s" i x] c o1 ended by (simp add: caches_ok_def ended_view_def)
      have blob: "getBlob E TerminalB (outputKey i) (s\<lparr>bs_outputs := c1\<rparr>) = (Inr (r_output r), s\<lparr>bs_outputs := c1\<rparr>)"
        using getBlob_entry [OF B, of "s\<lparr>bs_outputs := c1\<rparr>" TerminalB "outputKey i"] out True by auto
      have "coherent (ended_view M) (bc_fill c1 i (no_blobs\<lparr>rb_output := r_output r\<rparr>))"
        by (rule bc_fill_coherent [OF coh]) (simp_all add: no_blobs_def holds_blobs_def ended_view_def ended)
      then show ?thesis using b c ended tb True rb hit coh blob
        by (cases o1) (simp_all add: getRun_def act_then_def act_pb_def act_ok_def answers_get_def act_outputs_def o1 caches_ok_def)
    qed
  qed
qed

section \<open>Actions that leave the caches alone\<close>

text \<open>They fail with an error of the database or of the encoding only.\<close>

definition tidy :: "('tx, 'a) act \<Rightarrow> bool" where
  "tidy m \<longleftrightarrow> (\<forall>s r s'. m s = (r, s') \<longrightarrow> bs_blobs s' = bs_blobs s \<and> bs_outputs s' = bs_outputs s \<and> (\<forall>e. r = Inl e \<longrightarrow> (\<exists>x. e = ErrStore x)))"

named_theorems tidy_rules \<open>actions that leave the caches alone\<close>

lemma tidyD: "tidy m \<Longrightarrow> m s = (r, s') \<Longrightarrow> bs_blobs s' = bs_blobs s \<and> bs_outputs s' = bs_outputs s \<and> (\<forall>e. r = Inl e \<longrightarrow> (\<exists>x. e = ErrStore x))"
  by (simp add: tidy_def)

lemma tidy_caches: "tidy m \<Longrightarrow> m s = (r, s') \<Longrightarrow> caches_ok M s' = caches_ok M s"
  by (auto simp: caches_ok_def dest: tidyD)

lemma tidy_then [tidy_rules]: "tidy m \<Longrightarrow> (\<And>a. tidy (f a)) \<Longrightarrow> tidy (act_then m f)"
  unfolding tidy_def act_then_def by (auto split: prod.splits sum.splits)

lemma tidy_pure [tidy_rules]: "tidy (act_ok a)" "tidy (act_fail (ErrStore x))" "tidy (act_read f)" "tidy (act_pb r)" "tidy (act_tx g)" "tidy (add_staged n)"
  by (auto simp: tidy_def act_ok_def act_fail_def act_read_def act_pb_def act_tx_def add_staged_def bolt_error_def split: sum.splits)

lemma tidy_if [tidy_rules]: "(b \<Longrightarrow> tidy m) \<Longrightarrow> (\<not> b \<Longrightarrow> tidy n) \<Longrightarrow> tidy (if b then m else n)"
  by simp

lemma tidy_each [tidy_rules]: "(\<And>x. tidy (f x)) \<Longrightarrow> tidy (act_each f xs)"
  by (induction xs) (auto intro: tidy_rules)

lemma tidy_cell [tidy_rules]: "tidy (act_put E b k x)" "tidy (act_delete E b k)" "tidy (act_get E b k)" "tidy (act_walk E b)" "tidy (putBlob E b k x)"
  unfolding act_put_def act_delete_def act_get_def act_walk_def putBlob_def by (intro tidy_rules)+

lemma tidy_deleteBlob [tidy_rules]: "tidy (deleteBlob E b k)"
  by (auto simp: tidy_def deleteBlob_def act_tx_def bolt_error_def split: sum.splits bolt_err.splits)

lemma tidy_putOnce [tidy_rules]: "tidy (putOnce E what i k x)"
  unfolding putOnce_def by (intro tidy_rules)

lemma tidy_putOp [tidy_rules]: "tidy (putOp E i k p op)"
  unfolding putOp_def findOp_def Let_def by (intro tidy_rules)

lemma tidy_writeDrain [tidy_rules]: "tidy (drainStaged E n)" "tidy (writeDrain E)"
proof -
  show d: "tidy (drainStaged E n)" for n unfolding drainStaged_def deleteNonterminalStage_def run_rows_def Let_def by (intro tidy_rules)
  have "tidy (act_then (drainStaged E stageDrainPerWrite) (\<lambda>n. add_staged (- n)))" by (intro tidy_rules d)
  then show "tidy (writeDrain E)" by (auto simp: tidy_def writeDrain_def)
qed

lemma tidy_opt [tidy_rules]: "tidy m \<Longrightarrow> (\<And>x. tidy (f x)) \<Longrightarrow> tidy (case y of None \<Rightarrow> m | Some x \<Rightarrow> f x)"
  by (simp split: option.split)

lemma tidy_run [tidy_rules]: "tidy (commit_progress E i t)" "tidy (putRun E rec)" "tidy (terminal_writes E i rec)"
  unfolding commit_progress_def putRun_def terminal_writes_def putTerminal_def putRootFailure_def putStep_def Let_def case_prod_beta
  by (intro tidy_rules | simp)+

end
