(* ===== verification/Bolt_Trace.thy ===== *)
theory Bolt_Trace
  imports Bolt_Sim
begin

text \<open>
  The bbolt store against the store contract, call by call: what each method answers and what it leaves, from
  any state that mirrors the contents.
\<close>

section \<open>Transactions\<close>

lemma writeDrain_step:
  assumes B: "bolt_ok (be_db E) v" and g: "bolt_good (be_proto E) excl (v (bs_tx s)) used" and m: "mirrors E v M s"
    and w: "writeDrain E s = (a, s')"
  shows "(\<exists>x. a = Inl (ErrStore x)) \<and> caches_ok M s' \<or> a = Inr () \<and> bolt_good (be_proto E) excl (v (bs_tx s')) used \<and> mirrors E v M s'"
proof (cases a)
  case (Inl e)
  then show ?thesis using tidyD [OF tidy_writeDrain(2) w] tidy_caches [OF tidy_writeDrain(2) w] m by (auto simp: mirrors_def)
next
  case (Inr x)
  obtain ids where ids: "v (bs_tx s') = clear_staged ids (v (bs_tx s))" "set ids \<subseteq> {k. v (bs_tx s) StagedB k \<noteq> None}"
    using effectD [OF effect_writeDrain [OF B] w [unfolded Inr]] by blast
  have "bolt_good (be_proto E) excl (v (bs_tx s')) used" unfolding ids(1) by (rule good_drain [OF g ids(2)])
  moreover have "stored_all E (v (bs_tx s')) M" unfolding ids(1) using m g ids(2) by (intro stored_drain) (auto simp: mirrors_def bolt_good_def)
  ultimately show ?thesis using Inr tidy_caches [OF tidy_writeDrain(2) w] m by (auto simp: mirrors_def)
qed

lemma get_step: "bolt_ok (be_db E) v \<Longrightarrow> act_get E b k s = (Inr (row_of (v (bs_tx s) b k)), s)"
  by (simp add: act_get_def act_read_def bolt_okD(1))

lemma first_blocker_Some:
  assumes "bolt_ok (be_db E) v" "first_blocker E rec ps s = Some i"
  shows "\<exists>q\<in>set ps. row_of (v (bs_tx s) SlotsB (slotKeyFor q (r_resource rec))) = Some i"
  using assms(2)
proof (induction ps)
  case (Cons p ps)
  then show ?case using bolt_okD(1) [OF assms(1)] by (auto split: if_splits option.splits)
qed simp

text \<open>Admission.\<close>

definition blocked :: "contents \<Rightarrow> run_record \<Rightarrow> pipeline_id list \<Rightarrow> bool" where
  "blocked M rec excluding \<longleftrightarrow> (\<exists>i r c. M i = Some (r, c) \<and> occupies rec excluding r)"

lemma admission:
  assumes B: "bolt_ok (be_db E) v" and g: "bolt_inv (be_proto E) (v (bs_tx s))" and M: "stored_all E (v (bs_tx s)) M"
    and names: "nul_free (r_pipeline rec)" "list_all nul_free ps"
    and b: "blocker = (let own = row_of (v (bs_tx s) SlotsB (slotKeyFor (r_pipeline rec) (r_resource rec))) in
      if own \<noteq> None then own else first_blocker E rec ps s)"
  shows "case blocker of None \<Rightarrow> \<not> blocked M rec ps | Some i \<Rightarrow> \<exists>r c. M i = Some (r, c) \<and> occupies rec ps r"
proof (cases blocker)
  case None
  have free: "row_of (v (bs_tx s) SlotsB (slotKeyFor q (r_resource rec))) = None" if "q = r_pipeline rec \<or> q \<in> set ps" for q
    using that None b first_blocker_None [OF B, of rec ps s q] by (cases "q = r_pipeline rec") (auto simp: Let_def split: if_splits)
  have "\<not> occupies rec ps r" if "M i = Some (r, c)" for i r c
  proof
    assume o: "occupies rec ps r"
    then have "v (bs_tx s) SlotsB (slotKeyFor (r_pipeline r) (r_resource r)) = Some (BRow i)"
      using stored_live [OF M g that] by (auto simp: occupies_def)
    then show False using free [of "r_pipeline r"] o by (auto simp: occupies_def)
  qed
  with None show ?thesis by (auto simp: blocked_def)
next
  case (Some i)
  have "\<exists>q\<in>insert (r_pipeline rec) (set ps). row_of (v (bs_tx s) SlotsB (slotKeyFor q (r_resource rec))) = Some i"
    using b Some first_blocker_Some [OF B, of rec ps s i] by (auto simp: Let_def split: if_splits)
  then obtain q where q: "q \<in> insert (r_pipeline rec) (set ps)" "row_of (v (bs_tx s) SlotsB (slotKeyFor q (r_resource rec))) = Some i" by blast
  then have "nul_free q" using names by (auto simp: list_all_iff)
  then show ?thesis using stored_slot [OF M g q(2)] q(1) Some by (auto simp: occupies_def)
qed

lemma effect_put_ok: "bolt_ok (be_db E) v \<Longrightarrow> effect v (act_then (act_put E b k x) (\<lambda>_. act_ok a)) (\<lambda>w y w'. w' = upd b k (Some (BRow x)) w \<and> y = a)"
  by (rule effect_then [OF effect_put effect_ok]) simp_all

lemma create_step:
  assumes B: "bolt_ok (be_db E) v" and P: "proto_lib_ok (be_proto E)" and max: "0 \<le> be_row_max E" and rec: "creatable rec" "r_run rec \<notin> used"
    and names: "list_all nul_free ps" and g: "bolt_good (be_proto E) excl (v (bs_tx s)) used" and m: "mirrors E v M s"
    and run: "create_tx E rec ps s = (a, s')"
  shows "caches_ok M s' \<and> (case a of Inl e \<Rightarrow> \<exists>x. e = ErrStore x
    | Inr (existing, new) \<Rightarrow> new = (existing = None) \<and> (case existing of
        Some ex \<Rightarrow> (\<exists>i r c. M i = Some (r, c) \<and> occupies rec ps r \<and> reads_back r ex) \<and> stored_all E (v (bs_tx s')) M
      | None \<Rightarrow> \<not> blocked M rec ps \<and> stored_all E (v (bs_tx s')) (M(r_run rec \<mapsto> (rec, first_cursor rec)))))"
proof -
  let ?p = "r_pipeline rec" and ?i = "r_run rec"
  let ?slot = "slotKeyFor ?p (r_resource rec)"
  obtain d s1 where d: "writeDrain E s = (d, s1)" by fastforce
  show ?thesis
  proof (cases d)
    case (Inl e)
    then show ?thesis using run d writeDrain_step [OF B g m d] by (auto simp: create_tx_def act_then_def)
  next
    case (Inr u)
    then have g1: "bolt_good (be_proto E) excl (v (bs_tx s1)) used" and m1: "mirrors E v M s1" using writeDrain_step [OF B g m d] by auto
    have M: "stored_all E (v (bs_tx s1)) M" "caches_ok M s1" using m1 by (simp_all add: mirrors_def)
    have inv: "bolt_inv (be_proto E) (v (bs_tx s1))" using g1 by (simp add: bolt_good_def)
    define blocker where "blocker = (let own = row_of (v (bs_tx s1) SlotsB ?slot) in if own \<noteq> None then own else first_blocker E rec ps s1)"
    have nf: "nul_free ?p" "nul_free ?i" using rec(1) by (auto simp: creatable_def storable_def)
    note adm = admission [OF B inv M(1) nf(1) names blocker_def]
    have go: "create_tx E rec ps s = (case blocker of Some i \<Rightarrow> act_then (getRun E i) (\<lambda>existing. act_ok (Some existing, False)) s1
        | None \<Rightarrow> act_then (putRun E rec) (\<lambda>_. act_then (act_put E SlotsB ?slot ?i) (\<lambda>_. act_ok (None, True))) s1)"
      using d Inr get_step [OF B] by (auto simp: create_tx_def act_then_def blocker_def Let_def act_ok_def act_read_def split: option.splits)
    show ?thesis
    proof (cases blocker)
      case (Some i)
      obtain r c where r: "M i = Some (r, c)" "occupies rec ps r" using adm Some by auto
      have "nul_free i" using stored_nul [OF M(1)] r(1) by simp
      from getRun_stored [OF B max this m1] obtain ex s2 where ex: "getRun E i s1 = (Inr ex, s2)" "reads_back r ex" "bs_tx s2 = bs_tx s1" "caches_ok M s2"
        using r(1) by (auto simp: answers_get_def)
      then show ?thesis using run go Some r M(1) by (auto simp: act_then_def act_ok_def) blast
    next
      case None
      have nt: "\<not> terminal rec" using rec(1) by (simp add: creatable_def storable_def)
      have tidy: "tidy (act_then (putRun E rec) (\<lambda>_. act_then (act_put E SlotsB ?slot ?i) (\<lambda>_. act_ok (None :: run_record option, True))))"
        by (intro tidy_rules)
      have run': "act_then (putRun E rec) (\<lambda>_. act_then (act_put E SlotsB ?slot ?i) (\<lambda>_. act_ok (None, True))) s1 = (a, s')" using run go None by simp
      note td = tidyD [OF tidy run'] tidy_caches [OF tidy run']
      show ?thesis
      proof (cases a)
        case (Inl e)
        then show ?thesis using td M(2) by auto
      next
        case (Inr x)
        obtain s2 where put: "putRun E rec s1 = (Inr (), s2)" and own: "act_then (act_put E SlotsB ?slot ?i) (\<lambda>_. act_ok (None, True)) s2 = (Inr x, s')"
          using run' unfolding Inr act_then_Inr [of "putRun E rec"] by auto
        note s2 = put conjunct1 [OF effectD [OF effect_put_ok [OF B] own]] conjunct2 [OF effectD [OF effect_put_ok [OF B] own]]
        obtain mb where l: "run_local ?i (put_meta ?i mb (v (bs_tx s1))) (v (bs_tx s2))"
          using effectD [OF effect_putRun [OF B nt] s2(1)] by blast
        have fresh: "\<not> has_meta (v (bs_tx s1)) ?i" "\<not> ended (v (bs_tx s1)) ?i" using g1 rec(2) nf(2) by (auto simp: bolt_good_def known_def)
        then have "M ?i = None" using stored_meta [OF M(1) nf(2)] by blast
        then have "blank ?i (v (bs_tx s1))" using stored_allD [OF M(1) nf(2)] by (simp add: run_stored_def)
        then obtain A where A: "renders E ?i A (v (bs_tx s2))" "stores A rec" "st_cursor A = first_cursor rec"
          using effectD [OF effect_putRun_rows [OF B P max rec(1)] s2(1)] by blast
        have "v (bs_tx s2) TerminalB ?i = None" using run_local_same(2) [OF l] fresh(2) by (simp add: put_meta_def ended_def)
        then have "run_stored E (v (bs_tx s2)) ?i (Some (rec, first_cursor rec))"
          using A rec(1) nt by (auto simp: run_stored_def creatable_def storable_def)
        from stored_put_meta [OF M(1) l nf(2) this] have "stored_all E (v (bs_tx s')) (M(?i \<mapsto> (rec, first_cursor rec)))"
          unfolding s2(2) by (rule stored_slots)
        then show ?thesis using Inr s2(3) td M(2) adm None by auto
      qed
    qed
  qed
qed

lemma reads_back_ident:
  assumes "reads_back r r'"
  shows "r_run r' = r_run r" "r_pipeline r' = r_pipeline r" "r_resource r' = r_resource r" "r_outcome r' = r_outcome r"
proof -
  have eq: "rec_fields r' = rec_fields r" using assms by (simp add: reads_back_def)
  show "r_run r' = r_run r" using arg_cong [OF eq, of r_run] by (simp add: rec_fields_def)
  show "r_pipeline r' = r_pipeline r" using arg_cong [OF eq, of r_pipeline] by (simp add: rec_fields_def)
  show "r_resource r' = r_resource r" using arg_cong [OF eq, of r_resource] by (simp add: rec_fields_def)
  show "r_outcome r' = r_outcome r" using arg_cong [OF eq, of r_outcome] by (simp add: rec_fields_def)
qed

lemma apply_end_reads_back:
  assumes r: "reads_back r r'" and ok: "gm_ok (r_steps r)" "gm_ok (r_steps r')" "ops_ok (t_ops t)" and t: "cu_step (t_cursor t) = []" "t_outcome t = Some oc"
  shows "reads_back (apply_transition t r) (apply_transition t r')"
proof -
  define F where "F x = (apply_failure (t_failure t) (apply_cursor (t_cursor t) x))\<lparr>r_outcome := Some oc, r_output := t_output t\<rparr>" for x
  have F: "apply_transition t x = compact_terminal (F (apply_ops (t_ops t) x))" for x
    using t(2) by (simp add: apply_transition_def apply_outcome_def F_def)
  have outcome: "rec_fields (x\<lparr>r_outcome := o1, r_output := y\<rparr>) = (rec_fields x)\<lparr>r_outcome := o1, r_output := nil_bytes y\<rparr>" for x o1 y
    by (simp add: rec_fields_def)
  have fields: "rec_fields (F x) = (apply_failure (t_failure t) (set_cursor (t_cursor t) (rec_fields x)))\<lparr>r_outcome := Some oc, r_output := nil_bytes (t_output t)\<rparr>" for x
    unfolding F_def outcome fields_failure fields_cursor ..
  have steps: "r_steps (F x) = r_steps x" for x using t(1) by (simp add: F_def apply_cursor_def)
  then have ops: "rec_op (F x) = rec_op x" for x by (simp add: fun_eq_iff rec_op_def rec_step_def)
  have as: "r_annotations (F x) = r_annotations x" for x using t(1) by (simp add: F_def apply_cursor_def apply_failure_def split: option.split)
  have "reads_back (F (apply_ops (t_ops t) r)) (F (apply_ops (t_ops t) r'))"
    using ops_reads_back [OF r ok(3)] unfolding reads_back_def fields ops as by simp
  then show ?thesis unfolding F using ok(1,2) by (intro compact_reads_back) (auto simp: steps)
qed

lemma stored_rows:
  assumes M: "stored_all E w M" and nf: "nul_free i" and g: "bolt_inv P w"
  shows "row_of (w TerminalB i) \<noteq> None \<longleftrightarrow> (\<exists>r c. M i = Some (r, c) \<and> terminal r)"
    "row_of (w TerminalB i) = None \<Longrightarrow> row_of (w ActiveB (activeKey i tagMeta)) = None \<longleftrightarrow> M i = None"
proof -
  show t: "row_of (w TerminalB i) \<noteq> None \<longleftrightarrow> (\<exists>r c. M i = Some (r, c) \<and> terminal r)"
    using not_ended [OF g nf] stored_ended [OF M nf] by metis
  assume none: "row_of (w TerminalB i) = None"
  then have e: "\<not> ended w i" using not_ended [OF g nf] by simp
  show "row_of (w ActiveB (activeKey i tagMeta)) = None \<longleftrightarrow> M i = None"
  proof (cases "M i")
    case None
    then show ?thesis using stored_allD [OF M nf] by (simp add: run_stored_def blank_def activeKey_def)
  next
    case (Some rc)
    then obtain r c where rc: "M i = Some (r, c)" by (cases rc) simp
    then have "\<not> terminal r" using t none by auto
    then obtain A where "renders E i A w" using stored_allD [OF M nf] rc by (auto simp: run_stored_def)
    then have "entry_ok E A MetaK (w ActiveB (key_of i MetaK))" unfolding renders_def by (meson key_ok.simps)
    then show ?thesis using rc by (auto simp: decodes_def key_of_eqs)
  qed
qed

lemma progress_step:
  assumes B: "bolt_ok (be_db E) v" and P: "proto_lib_ok (be_proto E)" and max: "0 \<le> be_row_max E" and nf: "nul_free i"
    and t: "ops_ok (t_ops t)" "cursor_ok (t_cursor t)" "t_outcome t = None" "flushes c t"
    and M: "stored_all E (v (bs_tx s)) M" and r: "M i = Some (r, c)" "\<not> terminal r" and run: "commit_progress E i t s = (Inr (), s')"
  shows "stored_all E (v (bs_tx s')) (M(i \<mapsto> (apply_transition t r, t_cursor t)))"
proof -
  obtain A where A: "renders E i A (v (bs_tx s))" "stores A r" "st_cursor A = c" "v (bs_tx s) TerminalB i = None" "r_run r = i" "gm_ok (r_steps r)"
    using stored_allD [OF M nf] r by (auto simp: run_stored_def)
  have l: "run_local i (v (bs_tx s)) (v (bs_tx s'))" using effectD [OF effect_commit_progress [OF B] run] .
  have "renders E i (progressed t A) (v (bs_tx s'))"
    using effectD [OF turns_progress [OF B P max t(1,2)] run] A(1) by (simp add: turns_def)
  moreover have "stores (progressed t A) (apply_transition t r)"
    using stores_progress [OF A(2) _ t(1) _ t(3)] t(2,4) A(3) by (simp add: cursor_ok_def)
  moreover have "v (bs_tx s') TerminalB i = None" using run_local_same(2) [OF l] A(4) by simp
  moreover have "\<not> terminal (apply_transition t r)" using apply_transition_terminal [OF r(2)] t(3) by simp
  moreover have "r_run (apply_transition t r) = i" using apply_transition_identity [of r t] A(5) by (simp add: same_identity_def)
  moreover have "st_cursor (progressed t A) = t_cursor t" by (simp add: progressed_def)
  ultimately have "run_stored E (v (bs_tx s')) i (Some (apply_transition t r, t_cursor t))"
    using A(6) t(2) by (auto simp: run_stored_def)
  then show ?thesis by (rule stored_local [OF M l nf])
qed

lemma end_step:
  assumes B: "bolt_ok (be_db E) v" and P: "proto_lib_ok (be_proto E)" and max: "0 \<le> be_row_max E" and nf: "nul_free i"
    and t: "ops_ok (t_ops t)" "t_outcome t = Some oc" "cu_step (t_cursor t) = []"
    and g: "bolt_inv (be_proto E) (v (bs_tx s))" and m: "mirrors E v M s" and r: "M i = Some (r, c)" "\<not> terminal r"
    and run: "commit_terminal E i t oc s = (a, s')"
  shows "caches_ok M s' \<and> (case a of Inl e \<Rightarrow> \<exists>x. e = ErrStore x | Inr _ \<Rightarrow> stored_all E (v (bs_tx s')) (M(i \<mapsto> (apply_transition t r, t_cursor t))))"
proof -
  have M: "stored_all E (v (bs_tx s)) M" using m by (simp add: mirrors_def)
  have sr: "r_run r = i" "gm_ok (r_steps r)" using stored_allD [OF M nf] r by (auto simp: run_stored_def)
  obtain rec0 s1 where rec0: "getNonterminal E i s = (Inr rec0, s1)" "reads_back r rec0" "gm_ok (r_steps rec0)" "bs_tx s1 = bs_tx s" "caches_ok M s1"
    using getNonterminal_stored [OF B max nf m r] by blast
  let ?r = "apply_transition t r" and ?x = "apply_transition t rec0"
  let ?out = "if be_row_max E < blen (r_output ?x) then Some (blob_entry (be_row_max E) (the_bytes (r_output ?x))) else None"
  have run': "terminal_writes E i ?x s1 = (a, s')"
    using run rec0(1) terminal_record_eq [OF t(3,2)] by (simp add: commit_terminal_eq act_then_def)
  note td = tidyD [OF tidy_run(3) run'] tidy_caches [OF tidy_run(3) run']
  show ?thesis
  proof (cases a)
    case (Inl e)
    then show ?thesis using td rec0(5) by auto
  next
    case (Inr u)
    have rb: "reads_back ?r ?x" by (rule apply_end_reads_back [OF rec0(2) sr(2) rec0(3) t(1,3,2)])
    have id: "r_run ?r = i" "r_pipeline ?r = r_pipeline r" "r_resource ?r = r_resource r"
      using apply_transition_identity [of r t] sr(1) by (simp_all add: same_identity_def)
    note idx = reads_back_ident [OF rb, unfolded id]
    have slot: "row_of (v (bs_tx s1) SlotsB (slotKeyFor (r_pipeline ?x) (r_resource ?x))) = Some i"
      using stored_live [OF M g r] rec0(4) idx by auto
    obtain b where b: "MarshalTerminal (be_proto E) ?x (be_row_max E < blen (r_output ?x)) = Inr b"
      and w': "v (bs_tx s') = end_run i b ?out (r_updated_at ?x) (slotKeyFor (r_pipeline ?x) (r_resource ?x)) (v (bs_tx s))"
      using effectD [OF effect_terminal_writes [OF B] run' [unfolded Inr]] slot idx(1) rec0(4) by auto
    have fin: "terminal ?r" "?r = compact_terminal ?r" "?x = compact_terminal ?x" "r_output ?x = r_output ?r"
      using t(2) by (simp_all add: apply_transition_def apply_outcome_def terminal_def) (simp_all add: compact_terminal_def)
    have "ended_as E i ?r (put_terminal i b ?out (r_updated_at ?x) (v (bs_tx s)))"
      using rec0(3) sr(2) by (intro put_terminal_ended [OF P max _ idx(1) rb fin(1) _ fin(2-4) b refl]) auto
    then have "ended_as E i ?r (v (bs_tx s'))"
      using ended_same [of i "put_terminal i b ?out (r_updated_at ?x) (v (bs_tx s))" "v (bs_tx s')" E ?r] by (simp add: same_end_def w' end_run_def)
    then have "stored_all E (v (bs_tx s')) (M(i \<mapsto> (?r, t_cursor t)))"
      unfolding w' using sr(2) by (intro stored_end_run [OF M nf id(1) _ fin(1)]) auto
    then show ?thesis using Inr td rec0(5) by auto
  qed
qed

text \<open>A transition.\<close>

lemma apply_step:
  assumes B: "bolt_ok (be_db E) v" and P: "proto_lib_ok (be_proto E)" and max: "0 \<le> be_row_max E" and nf: "nul_free i"
    and t: "ops_ok (t_ops t)" "t_outcome t = None \<longrightarrow> cursor_ok (t_cursor t)" "t_outcome t \<noteq> None \<longrightarrow> cu_step (t_cursor t) = []"
      "\<forall>r c. M i = Some (r, c) \<longrightarrow> t_outcome t = None \<longrightarrow> flushes c t"
    and g: "bolt_good (be_proto E) excl (v (bs_tx s)) used" and m: "mirrors E v M s" and run: "apply_tx E i t s = (a, s')"
  shows "caches_ok M s' \<and> (case a of
      Inl e \<Rightarrow> (\<exists>x. e = ErrStore x) \<or> e = ErrRunNotFound \<and> M i = None \<or> e = ErrRunTerminal \<and> (\<exists>r c. M i = Some (r, c) \<and> terminal r)
    | Inr _ \<Rightarrow> \<exists>r c. M i = Some (r, c) \<and> \<not> terminal r \<and> stored_all E (v (bs_tx s')) (M(i \<mapsto> (apply_transition t r, t_cursor t))))"
proof -
  obtain d s1 where d: "writeDrain E s = (d, s1)" by fastforce
  show ?thesis
  proof (cases d)
    case (Inl e)
    then show ?thesis using run d writeDrain_step [OF B g m d] by (auto simp: apply_tx_def act_then_def)
  next
    case (Inr u)
    then have g1: "bolt_good (be_proto E) excl (v (bs_tx s1)) used" and m1: "mirrors E v M s1" using writeDrain_step [OF B g m d] by auto
    have M: "stored_all E (v (bs_tx s1)) M" "caches_ok M s1" and inv: "bolt_inv (be_proto E) (v (bs_tx s1))"
      using m1 g1 by (simp_all add: mirrors_def bolt_good_def)
    have run1: "(if row_of (v (bs_tx s1) TerminalB i) \<noteq> None then act_fail ErrRunTerminal
        else if row_of (v (bs_tx s1) ActiveB (activeKey i tagMeta)) = None then act_fail ErrRunNotFound
        else case t_outcome t of Some oc \<Rightarrow> commit_terminal E i t oc | None \<Rightarrow> commit_progress E i t) s1 = (a, s')"
      using run d Inr get_step [OF B] by (auto simp: apply_tx_def act_then_def split: if_splits)
    note rows = stored_rows [OF M(1) nf inv]
    show ?thesis
    proof (cases "row_of (v (bs_tx s1) TerminalB i)")
      case (Some x)
      then show ?thesis using run1 rows(1) M(2) by (auto simp: act_fail_def)
    next
      case tb: None
      show ?thesis
      proof (cases "M i")
        case None
        then show ?thesis using run1 rows(2) tb M(2) by (auto simp: act_fail_def)
      next
        case (Some rc)
        then obtain r c where r: "M i = Some (r, c)" "\<not> terminal r" using rows(1) tb by (cases rc) auto
        have run2: "(case t_outcome t of Some oc \<Rightarrow> commit_terminal E i t oc | None \<Rightarrow> commit_progress E i t) s1 = (a, s')"
          using run1 tb rows(2) r(1) by (simp split: if_splits)
        show ?thesis
        proof (cases "t_outcome t")
          case None
          then have run3: "commit_progress E i t s1 = (a, s')" using run2 by simp
          note td = tidyD [OF tidy_run(1) run3] tidy_caches [OF tidy_run(1) run3]
          show ?thesis
          proof (cases a)
            case Inl
            then show ?thesis using td M(2) by auto
          next
            case (Inr u)
            have "stored_all E (v (bs_tx s')) (M(i \<mapsto> (apply_transition t r, t_cursor t)))"
              using run3 Inr t(2,4) r(1) None by (intro progress_step [OF B P max nf t(1) _ None _ M(1) r]) simp_all
            then show ?thesis using Inr td M(2) r by auto
          qed
        next
          case (Some oc)
          then have run3: "commit_terminal E i t oc s1 = (a, s')" using run2 by simp
          show ?thesis
            using end_step [OF B P max nf t(1) Some _ inv m1 r run3] t(3) Some r by (cases a) auto
        qed
      qed
    qed
  qed
qed

text \<open>A cancel request.\<close>

lemma stores_cancel:
  assumes "stores A r"
  shows "st_cancel A = r_cancel r" "stores (A\<lparr>st_cancel := Some q\<rparr>) (r\<lparr>r_cancel := Some q\<rparr>)"
proof -
  have eq: "set_cursor (st_cursor A) ((stored_base A)\<lparr>r_annotations := []\<rparr>) = rec_fields r" using assms by (simp add: stores_def)
  show "st_cancel A = r_cancel r" using arg_cong [OF eq, of r_cancel] by (simp add: set_cursor_def stored_base_def rec_fields_def)
  have "rec_fields (r\<lparr>r_cancel := Some q\<rparr>) = (rec_fields r)\<lparr>r_cancel := Some q\<rparr>" by (simp add: rec_fields_def)
  also have "\<dots> = set_cursor (st_cursor A) ((stored_base (A\<lparr>st_cancel := Some q\<rparr>))\<lparr>r_annotations := []\<rparr>)"
    unfolding eq [symmetric] by (simp add: set_cursor_def stored_base_def)
  finally have "set_cursor (st_cursor A) ((stored_base (A\<lparr>st_cancel := Some q\<rparr>))\<lparr>r_annotations := []\<rparr>) = rec_fields (r\<lparr>r_cancel := Some q\<rparr>)" by simp
  moreover have "stored_op (A\<lparr>st_cancel := Some q\<rparr>) = stored_op A" "rec_op (r\<lparr>r_cancel := Some q\<rparr>) = rec_op r"
    by (simp_all add: fun_eq_iff stored_op_def rec_op_def rec_step_def)
  ultimately show "stores (A\<lparr>st_cancel := Some q\<rparr>) (r\<lparr>r_cancel := Some q\<rparr>)" using assms by (simp add: stores_def)
qed

lemma cancel_step:
  assumes B: "bolt_ok (be_db E) v" and P: "proto_lib_ok (be_proto E)" and nf: "nul_free i"
    and g: "bolt_inv (be_proto E) (v (bs_tx s))" and m: "mirrors E v M s" and run: "cancel_tx E i req s = (a, s')"
  shows "caches_ok M s' \<and> (case a of
      Inl e \<Rightarrow> (\<exists>x. e = ErrStore x) \<or> e = ErrRunNotFound \<and> M i = None \<or> e = ErrRunTerminal \<and> (\<exists>r c. M i = Some (r, c) \<and> terminal r)
    | Inr new \<Rightarrow> \<exists>r c. M i = Some (r, c) \<and> \<not> terminal r \<and> new = (r_cancel r = None) \<and>
        stored_all E (v (bs_tx s')) (if new then M(i \<mapsto> (r\<lparr>r_cancel := Some req\<rparr>, c)) else M))"
proof -
  have M: "stored_all E (v (bs_tx s)) M" "caches_ok M s" using m by (simp_all add: mirrors_def)
  note rows = stored_rows [OF M(1) nf g]
  let ?key = "activeKey i tagCancel"
  let ?put = "act_then (act_pb (MarshalCancel (be_proto E) req)) (\<lambda>b. act_then (act_put E ActiveB ?key b) (\<lambda>_. act_ok True))"
  have run1: "(if row_of (v (bs_tx s) TerminalB i) \<noteq> None then act_fail ErrRunTerminal
      else if row_of (v (bs_tx s) ActiveB (activeKey i tagMeta)) = None then act_fail ErrRunNotFound
      else if row_of (v (bs_tx s) ActiveB ?key) \<noteq> None then act_ok False else ?put) s = (a, s')"
    using run get_step [OF B] by (auto simp: cancel_tx_def act_then_def split: if_splits)
  show ?thesis
  proof (cases "row_of (v (bs_tx s) TerminalB i)")
    case (Some x)
    then show ?thesis using run1 rows(1) M(2) by (auto simp: act_fail_def)
  next
    case tb: None
    show ?thesis
    proof (cases "M i")
      case None
      then show ?thesis using run1 rows(2) tb M(2) by (auto simp: act_fail_def)
    next
      case (Some rc)
      then obtain r c where r: "M i = Some (r, c)" "\<not> terminal r" using rows(1) tb by (cases rc) auto
      have run2: "(if row_of (v (bs_tx s) ActiveB ?key) \<noteq> None then act_ok False else ?put) s = (a, s')"
        using run1 tb rows(2) r(1) by (simp split: if_splits)
      obtain A where A: "renders E i A (v (bs_tx s))" "stores A r" "st_cursor A = c" "cursor_ok c" "v (bs_tx s) TerminalB i = None"
        "r_run r = i" "gm_ok (r_steps r)" using stored_allD [OF M(1) nf] r by (auto simp: run_stored_def)
      have "entry_ok E A CancelK (v (bs_tx s) ActiveB (key_of i CancelK))" using A(1) unfolding renders_def by (meson key_ok.simps)
      then have cancel: "row_of (v (bs_tx s) ActiveB ?key) = None \<longleftrightarrow> r_cancel r = None"
        using stores_cancel(1) [OF A(2)] by (auto simp: decodes_def key_of_eqs split: option.splits)
      show ?thesis
      proof (cases "r_cancel r")
        case (Some q)
        then show ?thesis using run2 cancel r M by (auto simp: act_ok_def)
      next
        case None
        then have run3: "?put s = (a, s')" using run2 cancel by simp
        have tidy: "tidy ?put" by (intro tidy_rules)
        note td = tidyD [OF tidy run3] tidy_caches [OF tidy run3]
        show ?thesis
        proof (cases a)
          case Inl
          then show ?thesis using td M(2) by auto
        next
          case (Inr new)
          have "effect v ?put (\<lambda>w y w'. y = True \<and> (\<exists>b. MarshalCancel (be_proto E) req = Inr b \<and> w' = upd ActiveB ?key (Some (BRow b)) w))"
            by (rule effect_then [OF effect_pb effect_put_ok [OF B]]) auto
          from effectD [OF this run3 [unfolded Inr]] obtain b where b: "new = True" "MarshalCancel (be_proto E) req = Inr b"
            and w': "v (bs_tx s') = upd ActiveB ?key (Some (BRow b)) (v (bs_tx s))" by blast
          have l: "run_local i (v (bs_tx s)) (v (bs_tx s'))" unfolding w' activeKey_eq by (rule run_local_upd) simp
          have "renders E i (A\<lparr>st_cancel := Some req\<rparr>) (v (bs_tx s'))"
            unfolding w' using renders_cancel [OF A(1) cancel_row_roundtrip [OF P b(2)]] by (simp add: key_of_eqs)
          moreover have "v (bs_tx s') TerminalB i = None" using run_local_same(2) [OF l] A(5) by simp
          ultimately have "run_stored E (v (bs_tx s')) i (Some (r\<lparr>r_cancel := Some req\<rparr>, c))"
            using A(3-7) r(2) stores_cancel(2) [OF A(2), of req] by (auto simp: run_stored_def terminal_def)
          then show ?thesis using stored_local [OF M(1) l nf] Inr b(1) td M(2) r None by auto
        qed
      qed
    qed
  qed
qed

text \<open>The reaper.\<close>

definition without :: "run_id set \<Rightarrow> contents \<Rightarrow> contents" where
  "without D M = (\<lambda>i. if i \<in> D then None else M i)"

lemma coherent_weaken: "coherent x c \<Longrightarrow> (\<And>i rb. holds_blobs x i rb \<Longrightarrow> holds_blobs y i rb) \<Longrightarrow> coherent y c"
  by (auto simp: coherent_def)

lemma without_caches:
  assumes D: "\<And>i. i \<in> D \<Longrightarrow> \<exists>r c. M i = Some (r, c) \<and> terminal r"
  shows "live_view (without D M) = live_view M" "caches_ok (without D M) s \<Longrightarrow> caches_ok M s"
proof -
  have "(case without D M i of Some (r, c) \<Rightarrow> if terminal r then None else f r | None \<Rightarrow> None) = (case M i of Some (r, c) \<Rightarrow> if terminal r then None else f r | None \<Rightarrow> None)"
    for i and f :: "run_record \<Rightarrow> bytes option"
    using D [of i] by (auto simp: without_def)
  then show live: "live_view (without D M) = live_view M" by (simp add: live_view_def)
  assume c: "caches_ok (without D M) s"
  have "holds_blobs (ended_view M) i rb" if "holds_blobs (ended_view (without D M)) i rb" for i rb
    using that by (auto simp: holds_blobs_def ended_view_def without_def split: if_splits)
  then have "coherent (ended_view M) (bs_outputs s)" using c by (auto simp: caches_ok_def intro: coherent_weaken)
  then show "caches_ok M s" using c live by (simp add: caches_ok_def)
qed

definition forget_rows :: "('t, 'tx) bolt_env \<Rightarrow> bytes \<Rightarrow> ('tx, unit) act" where
  "forget_rows E k = (let i = drop 8 k in
     act_then (deleteNonterminalStage E i) (\<lambda>_. act_then (act_delete E TerminalB i) (\<lambda>_. act_then (deleteBlob E TerminalB (outputKey i)) (\<lambda>_.
     act_then (act_delete E ExpiryB k) (\<lambda>_. act_delete E StagedB i)))))"

lemma reap_one_eq: "reap_one E k = act_then (forget_rows E k) (\<lambda>_. act_outputs (\<lambda>c. ((), bc_drop c (drop 8 k))))"
  by (simp add: reap_one_def forget_rows_def Let_def act_then_assoc)

lemma reap_one_step:
  assumes B: "bolt_ok (be_db E) v" and g: "bolt_good (be_proto E) excl (v (bs_tx s)) used" and m: "mirrors E v M s"
    and k: "v (bs_tx s) ExpiryB k \<noteq> None" and run: "reap_one E k s = (a, s')"
  shows "\<exists>r c. M (drop 8 k) = Some (r, c) \<and> terminal r" "nul_free (drop 8 k)"
    "case a of Inl e \<Rightarrow> (\<exists>x. e = ErrStore x) \<and> caches_ok M s'
     | Inr _ \<Rightarrow> bolt_good (be_proto E) excl (v (bs_tx s')) used \<and> mirrors E v (without {drop 8 k} M) s' \<and> v (bs_tx s') ExpiryB = (v (bs_tx s) ExpiryB)(k := None)"
proof -
  let ?i = "drop 8 k"
  have M: "stored_all E (v (bs_tx s)) M" "caches_ok M s" using m by (simp_all add: mirrors_def)
  have "\<exists>t i. k = expiryKey t i \<and> nul_free i \<and> ended (v (bs_tx s)) i" using g k by (auto simp: bolt_good_def bolt_inv_def expiry_ok_def)
  then show nf: "nul_free ?i" and i: "\<exists>r c. M ?i = Some (r, c) \<and> terminal r" using stored_ended [OF M(1)] by auto
  have tidy: "tidy (forget_rows E k)" unfolding forget_rows_def deleteNonterminalStage_def run_rows_def Let_def by (intro tidy_rules)
  show "case a of Inl e \<Rightarrow> (\<exists>x. e = ErrStore x) \<and> caches_ok M s'
     | Inr _ \<Rightarrow> bolt_good (be_proto E) excl (v (bs_tx s')) used \<and> mirrors E v (without {?i} M) s' \<and> v (bs_tx s') ExpiryB = (v (bs_tx s) ExpiryB)(k := None)"
  proof (cases a)
    case (Inl e)
    then have "forget_rows E k s = (Inl e, s')" using run by (auto simp: reap_one_eq act_then_def act_outputs_def split: prod.splits sum.splits)
    then show ?thesis using tidyD [OF tidy] tidy_caches [OF tidy] M(2) Inl by fastforce
  next
    case (Inr u)
    obtain s1 where s1: "forget_rows E k s = (Inr (), s1)" "s' = s1\<lparr>bs_outputs := bc_drop (bs_outputs s1) ?i\<rparr>"
      using run Inr by (auto simp: reap_one_eq act_then_Inr act_outputs_def)
    have w': "v (bs_tx s') = forget_run k (v (bs_tx s))" using effectD [OF effect_reap_one [OF B] run [unfolded Inr]] .
    have "stored_all E (v (bs_tx s')) (M(?i := None))" unfolding w' by (rule stored_forget [OF M(1) refl nf])
    moreover have "M(?i := None) = without {?i} M" by (auto simp: without_def)
    moreover have c1: "caches_ok M s1" using tidy_caches [OF tidy s1(1)] M(2) by simp
    have "coherent (ended_view (without {?i} M)) (bc_drop (bs_outputs s1) ?i)"
      using c1 by (intro bc_drop_coherent [of "ended_view M"]) (auto simp: caches_ok_def holds_blobs_def ended_view_def without_def)
    then have "caches_ok (without {?i} M) s'" using c1 without_caches(1) [of "{?i}" M] i by (simp add: caches_ok_def s1(2))
    moreover have "bolt_good (be_proto E) excl (v (bs_tx s')) used" unfolding w' by (rule good_reap [OF g k])
    moreover have "v (bs_tx s') ExpiryB = (v (bs_tx s) ExpiryB)(k := None)" unfolding w' by (auto simp: forget_run_def Let_def clear_stage_def)
    ultimately show ?thesis using Inr by (simp add: mirrors_def)
  qed
qed

lemma without_without: "without A (without B M) = without (B \<union> A) M"
  by (auto simp: without_def)

lemma reap_each_step:
  assumes B: "bolt_ok (be_db E) v" and "distinct ks" "bolt_good (be_proto E) excl (v (bs_tx s)) used" "mirrors E v M s"
    and "\<forall>k\<in>set ks. v (bs_tx s) ExpiryB k \<noteq> None" and "act_each (reap_one E) ks s = (a, s')"
  shows "(\<forall>k\<in>set ks. \<exists>r c. M (drop 8 k) = Some (r, c) \<and> terminal r) \<and> (case a of Inl e \<Rightarrow> (\<exists>x. e = ErrStore x) \<and> caches_ok M s'
     | Inr _ \<Rightarrow> mirrors E v (without (drop 8 ` set ks) M) s')"
  using assms(2-6)
proof (induction ks arbitrary: s M)
  case Nil
  then show ?case by (auto simp: act_ok_def without_def)
next
  case (Cons k ks)
  obtain b s1 where k: "reap_one E k s = (b, s1)" by fastforce
  have kk: "v (bs_tx s) ExpiryB k \<noteq> None" using Cons.prems(4) by simp
  note one = reap_one_step [OF B Cons.prems(2,3) kk k]
  have inv: "bolt_good (be_proto E) excl (v (bs_tx s)) used" by (rule Cons.prems)
  have all: "\<forall>k\<in>set (k # ks). \<exists>r c. M (drop 8 k) = Some (r, c) \<and> terminal r"
  proof
    fix k' assume "k' \<in> set (k # ks)"
    then have "v (bs_tx s) ExpiryB k' \<noteq> None" using Cons.prems(4) by blast
    then have "\<exists>t i. k' = expiryKey t i \<and> nul_free i \<and> ended (v (bs_tx s)) i" using inv by (auto simp: bolt_good_def bolt_inv_def expiry_ok_def)
    then show "\<exists>r c. M (drop 8 k') = Some (r, c) \<and> terminal r" using stored_ended [of E "v (bs_tx s)" M] Cons.prems(3) by (auto simp: mirrors_def)
  qed
  show ?case
  proof (cases b)
    case (Inl e)
    then show ?thesis using Cons.prems(5) k one(3) all by (auto simp: act_then_def)
  next
    case (Inr u)
    let ?M = "without {drop 8 k} M"
    have g1: "bolt_good (be_proto E) excl (v (bs_tx s1)) used" "mirrors E v ?M s1" "v (bs_tx s1) ExpiryB = (v (bs_tx s) ExpiryB)(k := None)"
      using one(3) Inr by simp_all
    have keys: "\<forall>k'\<in>set ks. v (bs_tx s1) ExpiryB k' \<noteq> None" using Cons.prems(1,4) g1(3) by auto
    have rest: "act_each (reap_one E) ks s1 = (a, s')" using Cons.prems(5) k Inr by (simp add: act_then_def)
    have "(\<forall>k\<in>set ks. \<exists>r c. ?M (drop 8 k) = Some (r, c) \<and> terminal r) \<and> (case a of Inl e \<Rightarrow> (\<exists>x. e = ErrStore x) \<and> caches_ok ?M s'
       | Inr _ \<Rightarrow> mirrors E v (without (drop 8 ` set ks) ?M) s')"
      using Cons.prems(1) by (intro Cons.IH [OF _ g1(1,2) keys rest]) simp
    then show ?thesis using all without_caches(2) [of "{drop 8 k}" M s'] one(1) by (cases a) (simp_all add: without_without)
  qed
qed

lemma take_mono: "xs \<le> (ys :: bytes) \<Longrightarrow> take n xs \<le> take n ys"
proof (induction n arbitrary: xs ys)
  case (Suc n)
  then show ?case by (cases xs; cases ys) (auto simp: order.order_iff_strict)
qed simp

text \<open>The runs a call may reap: commit times the index can tell apart.\<close>

definition expired :: "contents \<Rightarrow> gotime \<Rightarrow> run_id set" where
  "expired M before = {i. \<exists>r c. M i = Some (r, c) \<and> terminal r \<and> r_updated_at r < before}"

lemma stored_expiry:
  assumes M: "stored_all E w M" and g: "bolt_inv P w" and k: "w ExpiryB k \<noteq> None"
  shows "\<exists>r c. M (drop 8 k) = Some (r, c) \<and> terminal r \<and> k = expiryKey (r_updated_at r) (drop 8 k)"
proof -
  obtain t i where ki: "k = expiryKey t i" "nul_free i" "ended w i" using g k unfolding bolt_inv_def expiry_ok_def by blast
  obtain r c where r: "M i = Some (r, c)" "terminal r" using stored_ended [OF M ki(2)] ki(3) by blast
  then have "w ExpiryB (expiryKey (r_updated_at r) i) \<noteq> None" using stored_allD [OF M ki(2)] by (simp add: run_stored_def ended_as_def)
  then have "expiryKey (r_updated_at r) i = k" using g k ki(1) unfolding bolt_inv_def expiry_ok_def by (metis drop_expiryKey)
  then show ?thesis using r ki(1) by auto
qed

lemma reap_step:
  assumes B: "bolt_ok (be_db E) v" and g: "bolt_good (be_proto E) excl (v (bs_tx s)) used" and m: "mirrors E v M s"
    and times: "indexed_time before" "\<forall>i r c. M i = Some (r, c) \<longrightarrow> terminal r \<longrightarrow> indexed_time (r_updated_at r)"
    and run: "reap_tx E before limit s = (a, s')"
  shows "case a of Inl e \<Rightarrow> (\<exists>x. e = ErrStore x) \<and> caches_ok M s'
    | Inr n \<Rightarrow> \<exists>D. finite D \<and> D \<subseteq> expired M before \<and> n = int (card D) \<and> n \<le> max 0 limit \<and> (n < limit \<longrightarrow> D = expired M before) \<and> mirrors E v (without D M) s'"
proof -
  have M: "stored_all E (v (bs_tx s)) M" "caches_ok M s" and inv: "bolt_inv (be_proto E) (v (bs_tx s))"
    using m g by (simp_all add: mirrors_def bolt_good_def)
  define keys where "keys = map fst (bt_walk (be_db E) (bs_tx s) ExpiryB)"
  define P where "P k \<longleftrightarrow> take 8 k < expiryPrefix before" for k :: bytes
  define ks where "ks = takeWhile P (take (nat limit) keys)"
  have walk: "walk_of (v (bs_tx s) ExpiryB) (bt_walk (be_db E) (bs_tx s) ExpiryB)" by (rule bolt_okD(3) [OF B])
  have keys: "set keys = {k. v (bs_tx s) ExpiryB k \<noteq> None}" "sorted_wrt (<) keys" "distinct keys"
    using walk_of_keys [OF walk] walk by (auto simp: keys_def walk_of_def strict_sorted_iff)
  have key: "\<exists>r c. M (drop 8 k) = Some (r, c) \<and> terminal r \<and> k = expiryKey (r_updated_at r) (drop 8 k)" if "k \<in> set keys" for k
    using that keys(1) by (intro stored_expiry [OF M(1) inv]) simp
  have P: "P k \<longleftrightarrow> drop 8 k \<in> expired M before" if k: "k \<in> set keys" for k
  proof -
    obtain r c where r: "M (drop 8 k) = Some (r, c)" "terminal r" "k = expiryKey (r_updated_at r) (drop 8 k)" using key [OF k] by blast
    have "take 8 k = expiryPrefix (r_updated_at r)" by (subst r(3)) (simp add: expiryKey_def)
    moreover have "indexed_time (r_updated_at r)" using times(2) r(1,2) by blast
    ultimately show ?thesis using r expiryPrefix_less [OF _ times(1)] by (auto simp: P_def expired_def)
  qed
  have sub: "set ks \<subseteq> set keys" by (auto simp: ks_def dest!: set_takeWhileD in_set_takeD)
  have dist: "distinct ks" using keys(3) by (simp add: ks_def distinct_takeWhile distinct_take)
  have inj: "inj_on (drop 8) (set keys)" using inv keys(1) unfolding bolt_inv_def expiry_ok_def by (intro inj_onI) blast
  let ?D = "drop 8 ` set ks"
  have card: "card ?D = length ks" using card_image [OF inj_on_subset [OF inj sub]] distinct_card [OF dist] by simp
  obtain b s1 where each: "act_each (reap_one E) ks s = (b, s1)" by fastforce
  have "reap_tx E before limit s = act_then (act_each (reap_one E) ks) (\<lambda>_. act_ok (int (length ks))) s"
    by (simp add: reap_tx_def act_walk_def act_read_def act_then_def ks_def keys_def P_def [abs_def] Let_def)
  then have ab: "s' = s1" "a = (case b of Inl e \<Rightarrow> Inl e | Inr _ \<Rightarrow> Inr (int (length ks)))"
    using run each by (cases b; simp add: act_then_def act_ok_def)+
  note st = reap_each_step [OF B dist g m _ each]
  have present: "\<forall>k\<in>set ks. v (bs_tx s) ExpiryB k \<noteq> None" using sub keys(1) by blast
  have all: "?D = expired M before" if "int (length ks) < limit"
  proof
    show "?D \<subseteq> expired M before" using P sub by (auto simp: ks_def dest: set_takeWhileD)
    show "expired M before \<subseteq> ?D"
    proof
      fix i assume i: "i \<in> expired M before"
      then obtain r c where r: "M i = Some (r, c)" "terminal r" by (auto simp: expired_def)
      have "nul_free i" using stored_nul [OF M(1)] r(1) by simp
      then have k: "expiryKey (r_updated_at r) i \<in> set keys" using stored_allD [OF M(1)] r keys(1) by (force simp: run_stored_def ended_as_def)
      have "expiryKey (r_updated_at r) i \<in> set ks"
      proof (rule ccontr)
        assume no: "expiryKey (r_updated_at r) i \<notin> set ks"
        have len: "length ks < length (take (nat limit) keys)"
        proof (rule ccontr)
          assume "\<not> length ks < length (take (nat limit) keys)"
          then have "length keys \<le> length ks" using that by (simp add: min_def split: if_splits)
          then have "set ks = set keys" using sub dist keys(3) by (metis List.finite_set card_subset_eq card_mono distinct_card le_antisym)
          then show False using no k by blast
        qed
        then have stop: "\<not> P (take (nat limit) keys ! length ks)" unfolding ks_def by (rule nth_length_takeWhile)
        have pos: "length ks < length keys" using len by simp
        obtain n where n: "n < length keys" "keys ! n = expiryKey (r_updated_at r) i" using k by (auto simp: in_set_conv_nth)
        have "length ks \<le> n"
        proof (rule ccontr)
          assume "\<not> length ks \<le> n"
          then have "ks ! n = keys ! n" "n < length ks" using takeWhile_nth [of n P "take (nat limit) keys"] len by (simp_all add: ks_def)
          then show False using no n(2) by (metis nth_mem)
        qed
        then have "keys ! length ks \<le> keys ! n" using keys(2) n(1) sorted_wrt_nth_less [OF keys(2), of "length ks" n] by (cases "length ks = n") auto
        then have "take 8 (keys ! length ks) \<le> take 8 (keys ! n)" by (rule take_mono)
        moreover have "P (keys ! n)" using P n i by (metis drop_expiryKey nth_mem)
        ultimately have "P (keys ! length ks)" by (simp add: P_def)
        then show False using stop len by simp
      qed
      then show "i \<in> ?D" by (force simp: image_iff)
    qed
  qed
  have bound: "int (length ks) \<le> max 0 limit"
  proof -
    have "length ks \<le> nat limit" using length_takeWhile_le [of P "take (nat limit) keys"] by (simp add: ks_def)
    then show ?thesis by arith
  qed
  have exp: "?D \<subseteq> expired M before" using P sub by (auto simp: ks_def dest: set_takeWhileD)
  show ?thesis
  proof (cases b)
    case (Inl e)
    then show ?thesis using st present ab by simp
  next
    case (Inr u)
    then show ?thesis using st present ab all bound exp card by (auto intro!: exI [of _ ?D])
  qed
qed

end
