(* ===== verification/Bolt_Example.thy ===== *)
theory Bolt_Example
  imports Bolt_History
begin

text \<open>
  A database and a codec that keep what is relied on of bbolt and protobuf, and a history of the store over them: two runs
  of one resource are admitted and the first one ends, its stage not drained yet. The witnesses of the
  theorems about the store are evaluated on it.
\<close>

section \<open>A database\<close>

type_synonym plain_db = "((bucket \<times> bytes) \<times> entry) list"

definition plain_view :: "plain_db \<Rightarrow> db_view" where
  "plain_view db b k = map_of db (b, k)"

definition plain_remove :: "bucket \<Rightarrow> bytes \<Rightarrow> plain_db \<Rightarrow> plain_db" where
  "plain_remove b k db = filter (\<lambda>x. fst x \<noteq> (b, k)) db"

definition plain_keys :: "plain_db \<Rightarrow> bucket \<Rightarrow> bytes list" where
  "plain_keys db b = sort (remdups (map snd (filter (\<lambda>x. fst x = b) (map fst db))))"

definition plain_bolt :: "plain_db bolt" where
  "plain_bolt = \<lparr>bt_get = (\<lambda>db b k. row_of (plain_view db b k)),
     bt_put = (\<lambda>b k x db. case nested_of (plain_view db b k) of Some _ \<Rightarrow> Inl ErrIncompatibleValue | None \<Rightarrow> Inr (((b, k), BRow x) # db)),
     bt_delete = (\<lambda>b k db. case nested_of (plain_view db b k) of Some _ \<Rightarrow> Inl ErrIncompatibleValue | None \<Rightarrow> Inr (plain_remove b k db)),
     bt_create_bucket = (\<lambda>b k db. case plain_view db b k of Some _ \<Rightarrow> Inl (BoltErr ''bucket already exists'')
       | None \<Rightarrow> Inr (((b, k), BBucket (\<lambda>_. None)) # db)),
     bt_delete_bucket = (\<lambda>b k db. Inr (plain_remove b k db)),
     bt_nested = (\<lambda>db b k. nested_of (plain_view db b k)),
     bt_nested_put = (\<lambda>b k k' x db. case nested_of (plain_view db b k) of None \<Rightarrow> Inl (BoltErr ''bucket not found'')
       | Some f \<Rightarrow> Inr (((b, k), BBucket (f(k' \<mapsto> x))) # db)),
     bt_walk = (\<lambda>db b. map (\<lambda>k. (k, row_of (plain_view db b k))) (plain_keys db b)),
     bt_commit = (\<lambda>db. None)\<rparr>"

lemma plain_view_updates [simp]:
  "plain_view [] = (\<lambda>_ _. None)" "plain_view (((b, k), e) # db) = upd b k (Some e) (plain_view db)"
  "plain_view (plain_remove b k db) = upd b k None (plain_view db)"
proof -
  have "map_of (filter (\<lambda>x. fst x \<noteq> y) db) z = (if z = y then None else map_of db z)" for y z
    by (induction db) auto
  then show "plain_view (plain_remove b k db) = upd b k None (plain_view db)"
    by (simp add: plain_view_def plain_remove_def fun_eq_iff)
qed (auto simp: plain_view_def fun_eq_iff)

lemma plain_walk: "walk_of (plain_view db b) (map (\<lambda>k. (k, row_of (plain_view db b k))) (plain_keys db b))"
proof -
  have keys: "k \<in> set (plain_keys db b) \<longleftrightarrow> plain_view db b k \<noteq> None" for k
    by (force simp: plain_keys_def plain_view_def map_of_eq_None_iff)
  have "sorted (plain_keys db b)" "distinct (plain_keys db b)" by (simp_all add: plain_keys_def)
  then show ?thesis using keys by (auto simp: walk_of_def comp_def strict_sorted_iff)
qed

lemma plain_bolt_ok: "bolt_ok plain_bolt plain_view"
  using plain_walk by (auto simp: bolt_ok_def plain_bolt_def split: option.splits)

section \<open>A codec into bytes\<close>

type_synonym codec = "(gotime pb_message \<times> bytes) list"

definition decode_with :: "codec \<Rightarrow> (gotime pb_message \<Rightarrow> goerr + 'm) \<Rightarrow> bytes \<Rightarrow> goerr + 'm" where
  "decode_with tbl f b = (case map_of (map prod.swap tbl) b of None \<Rightarrow> Inl bad_message | Some m \<Rightarrow> f m)"

definition table_lib :: "codec \<Rightarrow> (gotime, bytes) proto_lib" where
  "table_lib tbl = \<lparr>pl_timestamp = (\<lambda>t. t), pl_as_time = (\<lambda>t. t),
     pl_marshal = (\<lambda>m. case map_of tbl m of None \<Rightarrow> Inl bad_message | Some b \<Rightarrow> Inr b),
     pl_run_meta = decode_with tbl (pl_run_meta plain_lib), pl_cursor = decode_with tbl (pl_cursor plain_lib),
     pl_operation = decode_with tbl (pl_operation plain_lib), pl_failure = decode_with tbl (pl_failure plain_lib),
     pl_terminal = decode_with tbl (pl_terminal plain_lib), pl_cancel = decode_with tbl (pl_cancel plain_lib)\<rparr>"

lemma table_lib_sel:
  "pl_as_time (table_lib tbl) (pl_timestamp (table_lib tbl) t) = t"
  "pl_run_meta (table_lib tbl) = decode_with tbl (pl_run_meta plain_lib)" "pl_cursor (table_lib tbl) = decode_with tbl (pl_cursor plain_lib)"
  "pl_operation (table_lib tbl) = decode_with tbl (pl_operation plain_lib)" "pl_failure (table_lib tbl) = decode_with tbl (pl_failure plain_lib)"
  "pl_terminal (table_lib tbl) = decode_with tbl (pl_terminal plain_lib)" "pl_cancel (table_lib tbl) = decode_with tbl (pl_cancel plain_lib)"
  by (simp_all add: table_lib_def)

lemma decode_table:
  assumes "distinct (map snd tbl)" "pl_marshal (table_lib tbl) m = Inr b"
  shows "decode_with tbl f b = f m"
proof -
  have "map_of tbl m = Some b" using assms(2) by (auto simp: table_lib_def split: option.splits)
  then have "(b, m) \<in> set (map prod.swap tbl)" by (auto dest: map_of_SomeD)
  moreover have "distinct (map fst (map prod.swap tbl))" using assms(1) by (simp add: comp_def)
  ultimately have "map_of (map prod.swap tbl) b = Some m" by simp
  then show ?thesis by (simp add: decode_with_def)
qed

lemma table_lib_ok:
  assumes "distinct (map snd tbl)"
  shows "proto_lib_ok (table_lib tbl)"
proof -
  have plain: "pl_marshal plain_lib m = Inr m" for m by (simp add: plain_lib_def)
  note ok = proto_lib_okD [OF plain_lib_ok plain] and dec = decode_table [OF assms]
  show ?thesis unfolding proto_lib_ok_def
  proof (intro conjI allI impI)
    fix m b assume enc: "pl_marshal (table_lib tbl) (PbTerminal m) = Inr b"
    show "\<exists>as us. mset as = mset (pt_annotations m) \<and> mset us = mset (map (\<lambda>(k, op). (k, norm_op op)) (pt_failed_unwinds m)) \<and>
        pl_terminal (table_lib tbl) b = Inr (m\<lparr>pt_annotations := as, pt_failed_unwinds := us, pt_output := nil_bytes (pt_output m)\<rparr>)"
      unfolding table_lib_sel dec [OF enc] by (rule ok(6))
  next
    fix m b assume enc: "pl_marshal (table_lib tbl) (PbRunMeta m) = Inr b"
    show "\<exists>as. mset as = mset (rm_annotations m) \<and> pl_run_meta (table_lib tbl) b = Inr (m\<lparr>rm_annotations := as\<rparr>)"
      unfolding table_lib_sel dec [OF enc] by (rule ok(1))
  qed (simp_all add: table_lib_sel dec ok(2-5))
qed

section \<open>A history\<close>

definition ex_run :: "run_id \<Rightarrow> pipeline_id \<Rightarrow> run_record" where
  "ex_run i p = zero_record\<lparr>r_run := i, r_pipeline := p, r_resource := ''db'', r_phase := PhaseForward\<rparr>"

definition ex_end :: transition where
  "ex_end = \<lparr>t_cursor = (first_cursor (ex_run [] []))\<lparr>cu_phase := PhaseDone, cu_updated_at := unix_epoch + 1\<rparr>, t_ops = [], t_failure = None,
     t_output = Some ''ok'', t_outcome = Some OutcomeSuccess\<rparr>"

definition ex_codec :: codec where
  "ex_codec = [(projr (MarshalRunMeta plain_lib (ex_run ''1'' ''backup'')), ''a''), (projr (MarshalRunMeta plain_lib (ex_run ''2'' ''audit'')), ''b''),
     (projr (MarshalCursor plain_lib (first_cursor (ex_run [] []))), ''c''),
     (projr (MarshalTerminal plain_lib (terminal_record ex_end OutcomeSuccess (ex_run ''1'' ''backup'')) False), ''d'')]"

definition ex_env :: "(gotime, plain_db) bolt_env" where
  "ex_env = \<lparr>be_db = plain_bolt, be_proto = table_lib ex_codec, be_row_max = 2048\<rparr>"

definition ex_excl :: "pipeline_id \<Rightarrow> pipeline_id list" where
  "ex_excl p = (if p = ''backup'' then [''restore''] else if p = ''restore'' then [''backup''] else [])"

definition ex_store0 :: "plain_db bolt_store" where
  "ex_store0 = opened [] []"

definition ex_store1 :: "plain_db bolt_store" where
  "ex_store1 = snd (bolt_CreateRun ex_env (ex_run ''1'' ''backup'') (ex_excl ''backup'') ex_store0)"

definition ex_store2 :: "plain_db bolt_store" where
  "ex_store2 = snd (bolt_CreateRun ex_env (ex_run ''2'' ''audit'') (ex_excl ''audit'') ex_store1)"

definition ex_store3 :: "plain_db bolt_store" where
  "ex_store3 = snd (bolt_ApplyTransition ex_env ''1'' ex_end ex_store2)"

lemma ex_env_ok: "bolt_ok (be_db ex_env) plain_view" "proto_lib_ok (be_proto ex_env)"
  by (simp_all add: ex_env_def plain_bolt_ok table_lib_ok ex_codec_def)

lemma ex_excl_sym: "excl_sym ex_excl"
  by (simp add: excl_sym_def ex_excl_def)

lemma ex_fresh: "fresh_store plain_view ex_store0"
  by (simp add: fresh_store_def ex_store0_def opened_def Let_def)

lemma ex_storable: "storable (ex_run i p) \<longleftrightarrow> nul_free p" "r_run (ex_run i p) = i" "r_pipeline (ex_run i p) = p"
  by (simp_all add: storable_def ex_run_def zero_record_def terminal_def)

lemma ex_history2: "bolt_history ex_env ex_excl ex_store0 (ex_store2, {''2'', ''1''})"
proof -
  have "bolt_step ex_env ex_excl (ex_store0, {}) (ex_store1, insert (r_run (ex_run ''1'' ''backup'')) {})"
    by (rule bolt_step.create [where res_create = "fst (bolt_CreateRun ex_env (ex_run ''1'' ''backup'') (ex_excl ''backup'') ex_store0)"])
      (simp_all add: ex_storable ex_store1_def)
  moreover have "bolt_step ex_env ex_excl (ex_store1, {''1''}) (ex_store2, insert (r_run (ex_run ''2'' ''audit'')) {''1''})"
    by (rule bolt_step.create [where res_create = "fst (bolt_CreateRun ex_env (ex_run ''2'' ''audit'') (ex_excl ''audit'') ex_store1)"])
      (simp_all add: ex_storable ex_store2_def)
  ultimately show ?thesis unfolding bolt_history_def ex_storable by (meson rtranclp.rtrancl_into_rtrancl rtranclp.rtrancl_refl)
qed

lemma ex_history3: "bolt_history ex_env ex_excl ex_store0 (ex_store3, {''2'', ''1''})"
proof -
  have "bolt_step ex_env ex_excl (ex_store2, {''2'', ''1''}) (ex_store3, {''2'', ''1''})"
    by (rule bolt_step.app [where i = "''1''" and t = ex_end and res_apply = "fst (bolt_ApplyTransition ex_env ''1'' ex_end ex_store2)"]) (simp_all add: ex_store3_def)
  then show ?thesis using ex_history2 unfolding bolt_history_def by (meson rtranclp.rtrancl_into_rtrancl)
qed

text \<open>What the stores hold.\<close>

lemma ex_marshal:
  "MarshalRunMeta (table_lib ex_codec) (ex_run ''1'' ''backup'') = Inr ''a''"
  "MarshalRunMeta (table_lib ex_codec) (ex_run ''2'' ''audit'') = Inr ''b''"
  "MarshalCursor (table_lib ex_codec) (first_cursor (ex_run i p)) = Inr ''c''"
  by (simp_all add: MarshalRunMeta_def MarshalCursor_def marshal_def table_lib_def ex_codec_def plain_lib_def ts_def ex_run_def zero_record_def first_cursor_def
    awaitToProto_def)

definition ex_state :: "plain_db \<Rightarrow> int \<Rightarrow> plain_db bolt_store" where
  "ex_state db n = \<lparr>bs_tx = db, bs_staged = n, bs_blobs = newBlobCache DefaultBlobCache, bs_outputs = newBlobCache DefaultOutputCache\<rparr>"

lemma ex_env_sel [simp]:
  "bt_get (be_db ex_env) db b k = row_of (plain_view db b k)" "bt_nested (be_db ex_env) db b k = nested_of (plain_view db b k)"
  "bt_walk (be_db ex_env) db b = map (\<lambda>k. (k, row_of (plain_view db b k))) (plain_keys db b)" "bt_commit (be_db ex_env) db = None"
  "bt_put (be_db ex_env) b k x db = (case nested_of (plain_view db b k) of Some _ \<Rightarrow> Inl ErrIncompatibleValue | None \<Rightarrow> Inr (((b, k), BRow x) # db))"
  "bt_delete (be_db ex_env) b k db = (case nested_of (plain_view db b k) of Some _ \<Rightarrow> Inl ErrIncompatibleValue | None \<Rightarrow> Inr (plain_remove b k db))"
  "be_proto ex_env = table_lib ex_codec" "be_row_max ex_env = 2048"
  by (simp_all add: ex_env_def plain_bolt_def)

lemma ex_state_sel [simp]:
  "bs_tx (ex_state db n) = db" "bs_staged (ex_state db n) = n" "ex_state db n\<lparr>bs_tx := db'\<rparr> = ex_state db' n" "ex_state db n\<lparr>bs_staged := n'\<rparr> = ex_state db n'"
  "ex_state db n\<lparr>bs_blobs := newBlobCache DefaultBlobCache\<rparr> = ex_state db n"
  "ex_state db n\<lparr>bs_outputs := newBlobCache DefaultOutputCache\<rparr> = ex_state db n"
  "bs_blobs (ex_state db n) = newBlobCache DefaultBlobCache" "bs_outputs (ex_state db n) = newBlobCache DefaultOutputCache"
  by (simp_all add: ex_state_def)

lemmas ex_acts = act_then_def act_get_def act_read_def act_put_def act_delete_def act_tx_def act_pb_def act_ok_def act_walk_def act_cache_def

lemma ex_run_sel [simp]:
  "r_run (ex_run i p) = i" "r_pipeline (ex_run i p) = p" "r_resource (ex_run i p) = ''db''" "r_input (ex_run i p) = None" "r_steps (ex_run i p) = []"
  "r_failure (ex_run i p) = None" "r_cancel (ex_run i p) = None" "\<not> terminal (ex_run i p)"
  by (simp_all add: ex_run_def zero_record_def terminal_def)

lemma ex_create:
  assumes "MarshalRunMeta (table_lib ex_codec) (ex_run i p) = Inr b" "plain_view db SlotsB (slotKeyFor p ''db'') = None"
    "plain_view db ActiveB (activeKey i tagMeta) = None" "plain_view db CursorB i = None" "n < 64"
    "\<forall>q\<in>set (ex_excl p). plain_view db SlotsB (slotKeyFor q ''db'') = None"
  shows "bolt_CreateRun ex_env (ex_run i p) (ex_excl p) (ex_state db n) = (Inr (None, True), ex_state (((SlotsB, slotKeyFor p ''db''), BRow i) #
    ((CursorB, i), BRow ''c'') # ((ActiveB, activeKey i tagMeta), BRow b) # db) n)"
proof -
  have "first_blocker ex_env (ex_run i p) qs (ex_state db n) = None" if "\<forall>q\<in>set qs. plain_view db SlotsB (slotKeyFor q ''db'') = None" for qs
    using that by (induction qs) simp_all
  then show ?thesis using assms
    by (simp add: bolt_CreateRun_def bolt_update_def create_tx_def writeDrain_def stageDrainPerWrite_def putRun_def putOnce_def ex_marshal cache_created_def setInput_def
      blen_def Let_def ex_acts)
qed

definition ex_db1 :: plain_db where
  "ex_db1 = [((SlotsB, slotKeyFor ''backup'' ''db''), BRow ''1''), ((CursorB, ''1''), BRow ''c''), ((ActiveB, activeKey ''1'' tagMeta), BRow ''a'')]"

definition ex_db2 :: plain_db where
  "ex_db2 = ((SlotsB, slotKeyFor ''audit'' ''db''), BRow ''2'') # ((CursorB, ''2''), BRow ''c'') # ((ActiveB, activeKey ''2'' tagMeta), BRow ''b'') # ex_db1"

lemmas ex_keys = slotKeyFor_def activeKey_def runPrefix_def ex_excl_def

lemma ex_creates:
  "bolt_CreateRun ex_env (ex_run ''1'' ''backup'') (ex_excl ''backup'') ex_store0 = (Inr (None, True), ex_state ex_db1 0)"
  "bolt_CreateRun ex_env (ex_run ''2'' ''audit'') (ex_excl ''audit'') (ex_state ex_db1 0) = (Inr (None, True), ex_state ex_db2 0)"
proof -
  have "ex_store0 = ex_state [] 0" by (simp add: ex_store0_def opened_def ex_state_def)
  moreover have "bolt_CreateRun ex_env (ex_run ''1'' ''backup'') (ex_excl ''backup'') (ex_state [] 0) = (Inr (None, True), ex_state ex_db1 0)"
    unfolding ex_db1_def by (rule ex_create [OF ex_marshal(1)]) simp_all
  ultimately show "bolt_CreateRun ex_env (ex_run ''1'' ''backup'') (ex_excl ''backup'') ex_store0 = (Inr (None, True), ex_state ex_db1 0)" by simp
  show "bolt_CreateRun ex_env (ex_run ''2'' ''audit'') (ex_excl ''audit'') (ex_state ex_db1 0) = (Inr (None, True), ex_state ex_db2 0)"
    unfolding ex_db2_def by (rule ex_create [OF ex_marshal(2)]) (simp_all add: ex_db1_def ex_keys)
qed

lemma ex_store1: "ex_store1 = ex_state ex_db1 0"
  by (simp add: ex_store1_def ex_creates)

lemma ex_store2: "ex_store2 = ex_state ex_db2 0"
  by (simp add: ex_store2_def ex_store1 ex_creates)

lemma ex_walk2: "bt_walk (be_db ex_env) ex_db2 SlotsB = [(slotKeyFor ''audit'' ''db'', Some ''2''), (slotKeyFor ''backup'' ''db'', Some ''1'')]"
  by (simp add: plain_keys_def ex_db1_def ex_db2_def ex_keys)

lemma ex_rows2: "i = ''1'' \<and> b = ''a'' \<or> i = ''2'' \<and> b = ''b'' \<Longrightarrow> run_rows ex_env i (ex_state ex_db2 n) = (Inr [(activeKey i tagMeta, Some b)], ex_state ex_db2 n)"
  by (auto simp: run_rows_def ex_acts plain_keys_def ex_db1_def ex_db2_def ex_keys seek_prefix_def)

lemma ex_codec_ok: "proto_lib_ok (table_lib ex_codec)"
  by (rule table_lib_ok) (simp add: ex_codec_def)

lemma ex_decode_meta:
  assumes "MarshalRunMeta (table_lib ex_codec) (ex_run i p) = Inr b"
  shows "UnmarshalRunMetaInto (table_lib ex_codec) b zero_record = Inr (zero_record\<lparr>r_run := i, r_pipeline := p, r_resource := ''db''\<rparr>)"
  using run_meta_row_roundtrip [OF ex_codec_ok assms] by (auto simp: ex_run_def zero_record_def)

lemma ex_decode_cursor: "UnmarshalCursor (table_lib ex_codec) ''c'' = Inr (first_cursor (ex_run i p))"
  by (rule cursor_row_roundtrip [OF ex_codec_ok _ ex_marshal(3)]) (simp add: first_cursor_def ex_run_def zero_record_def)

lemma ex_head2:
  assumes "i = ''1'' \<and> b = ''a'' \<and> p = ''backup'' \<or> i = ''2'' \<and> b = ''b'' \<and> p = ''audit''"
  shows "getHead ex_env i (ex_state ex_db2 n) = (Inr (ex_run i p), ex_state ex_db2 n)"
proof -
  have rows: "run_rows ex_env i (ex_state ex_db2 n) = (Inr [(activeKey i tagMeta, Some b)], ex_state ex_db2 n)" using assms by (intro ex_rows2) blast
  have meta: "UnmarshalRunMetaInto (table_lib ex_codec) b zero_record = Inr (zero_record\<lparr>r_run := i, r_pipeline := p, r_resource := ''db''\<rparr>)"
    using ex_decode_meta [OF ex_marshal(1)] ex_decode_meta [OF ex_marshal(2)] assms by auto
  have "plain_view ex_db2 TerminalB i = None" "plain_view ex_db2 CursorB i = Some (BRow ''c'')" using assms by (auto simp: ex_db1_def ex_db2_def)
  then show ?thesis using rows meta
    by (simp add: getHead_def ex_acts meta_row_def the_bytes_def activeKey_def nth_append overlayCursor_def ex_decode_cursor [of i p])
     (simp add: overlay_def first_cursor_def ex_run_def zero_record_def Let_def)
qed

lemma ex_list: "bolt_ListNonterminal ex_env ex_store2 = (Inr [ex_run ''2'' ''audit'', ex_run ''1'' ''backup''], ex_store2)"
  unfolding ex_store2 using ex_walk2 ex_head2 [of "''1''" "''a''" "''backup''" 0] ex_head2 [of "''2''" "''b''" "''audit''" 0]
  by (simp add: bolt_ListNonterminal_def bolt_view_def ex_acts the_bytes_def)

lemma ex_list2: "fst (bolt_ListNonterminal ex_env ex_store2) = Inr [ex_run ''2'' ''audit'', ex_run ''1'' ''backup'']"
  by (simp add: ex_list)

text \<open>The end of the first run.\<close>

definition ex_last :: run_record where
  "ex_last = terminal_record ex_end OutcomeSuccess (ex_run ''1'' ''backup'')"

lemma ex_last_sel: "r_run ex_last = ''1''" "r_pipeline ex_last = ''backup''" "r_resource ex_last = ''db''" "r_output ex_last = Some ''ok''" "r_outcome ex_last = Some OutcomeSuccess"
  "r_updated_at ex_last = unix_epoch + 1"
  by (simp_all add: ex_last_def terminal_record_def ex_end_def first_cursor_def compact_terminal_def Let_def)

lemma ex_marshal_last: "MarshalTerminal (table_lib ex_codec) ex_last False = Inr ''d''"
proof -
  have "terminalToProto (table_lib ex_codec) ex_last OutcomeSuccess False = terminalToProto plain_lib ex_last OutcomeSuccess False"
    by (simp add: terminalToProto_def ts_def table_lib_def plain_lib_def failed_unwinds_pb_def ex_last_def terminal_record_def ex_end_def Let_def
        compact_terminal_def compact_steps_def ex_run_def zero_record_def first_cursor_def)
  then show ?thesis
    by (simp add: MarshalTerminal_def ex_last_sel marshal_def table_lib_def ex_codec_def ex_last_def [symmetric] MarshalRunMeta_def MarshalCursor_def plain_lib_def)
qed

definition ex_db3 :: plain_db where
  "ex_db3 = plain_remove SlotsB (slotKeyFor ''backup'' ''db'') (((StagedB, ''1''), BRow []) # ((ExpiryB, expiryKey (unix_epoch + 1) ''1''), BRow []) #
     ((TerminalB, ''1''), BRow ''d'') # ex_db2)"

lemma ex_full2: "getNonterminal ex_env ''1'' (ex_state ex_db2 n) = (Inr (ex_run ''1'' ''backup''), ex_state ex_db2 n)"
proof -
  have rows: "run_rows ex_env ''1'' (ex_state ex_db2 n) = (Inr [(activeKey ''1'' tagMeta, Some ''a'')], ex_state ex_db2 n)" by (intro ex_rows2) simp
  have cache: "bc_input (newBlobCache DefaultBlobCache) ''1'' = ((None, False), newBlobCache DefaultBlobCache)"
    "bc_fill (newBlobCache DefaultBlobCache) ''1'' no_blobs = newBlobCache DefaultBlobCache"
    by (simp_all add: bc_input_def bc_lookup_def newBlobCache_def bc_fill_def no_blobs_def blen_def states_len_def)
  have "plain_view ex_db2 CursorB ''1'' = Some (BRow ''c'')" by (simp add: ex_db1_def ex_db2_def)
  then show ?thesis using rows cache ex_decode_meta [OF ex_marshal(1)]
    by (simp add: getNonterminal_def ex_acts meta_row_def the_bytes_def activeKey_def nth_append overlayCursor_def runPrefix_def ex_decode_cursor [of "''1''" "''backup''"])
     (simp add: overlay_def first_cursor_def ex_run_def zero_record_def Let_def)
qed

lemma ex_ends: "bolt_ApplyTransition ex_env ''1'' ex_end ex_store2 = (Inr (), ex_state ex_db3 1)"
proof -
  have v: "plain_view ex_db2 TerminalB ''1'' = None" "plain_view ex_db2 ActiveB (activeKey ''1'' tagMeta) = Some (BRow ''a'')"
    "plain_view ex_db2 SlotsB (slotKeyFor ''backup'' ''db'') = Some (BRow ''1'')" "plain_view ex_db2 StagedB ''1'' = None"
    "plain_view ex_db2 ExpiryB k = None" for k by (simp_all add: ex_db1_def ex_db2_def ex_keys)
  have "commit_terminal ex_env ''1'' ex_end OutcomeSuccess (ex_state ex_db2 0) = (Inr (), ex_state ex_db3 0)"
    unfolding commit_terminal_def act_then_def [of "getNonterminal ex_env ''1''"] ex_full2 by (simp add: ex_last_def [symmetric] ex_last_sel putTerminal_def blen_def
        ex_marshal_last ex_acts v ex_db3_def Let_def)
  then have "apply_tx ex_env ''1'' ex_end (ex_state ex_db2 0) = (Inr (), ex_state ex_db3 0)"
    by (simp add: apply_tx_def writeDrain_def stageDrainPerWrite_def ex_acts v ex_end_def)
  moreover have "bc_drop (newBlobCache DefaultBlobCache) ''1'' = newBlobCache DefaultBlobCache" by (simp add: bc_drop_def newBlobCache_def)
  ultimately show ?thesis unfolding ex_store2
    by (simp add: bolt_ApplyTransition_def bolt_update_def act_then_def blen_def ex_end_def)
qed

lemma ex_store3: "ex_store3 = ex_state ex_db3 1"
  by (simp add: ex_store3_def ex_ends)

lemma ex_view3: "plain_view (bs_tx ex_store3) TerminalB ''1'' = Some (BRow ''d'')" "plain_view (bs_tx ex_store3) StagedB k = (if k = ''1'' then Some (BRow []) else None)"
  "plain_view (bs_tx ex_store3) CursorB ''1'' = Some (BRow ''c'')"
  by (simp_all add: ex_store3 ex_db3_def ex_db2_def ex_db1_def)

end
