(* ===== verification/Bolt_Props.thy ===== *)
theory Bolt_Props
  imports Bolt_Example
begin

text \<open>
  What the bbolt store promises: its indices in every history, what ListNonterminal lists, that the drain returns, and
  that no read can tell whether the terminal runs have been drained.
\<close>

section \<open>Reads that see one run\<close>

text \<open>Two stores with the same terminal rows and caches and, for a live run (\<open>l\<close>), the same rows and cursor of it.\<close>

definition agree :: "('tx \<Rightarrow> db_view) \<Rightarrow> ('t, bytes) proto_lib \<Rightarrow> bool \<Rightarrow> run_id \<Rightarrow> 'tx bolt_store \<Rightarrow> 'tx bolt_store \<Rightarrow> bool" where
  "agree v P l i s s' \<longleftrightarrow> v (bs_tx s') TerminalB = v (bs_tx s) TerminalB \<and> bs_blobs s' = bs_blobs s \<and> bs_outputs s' = bs_outputs s \<and>
     (l \<longrightarrow> run_part i (v (bs_tx s')) = run_part i (v (bs_tx s)) \<and> v (bs_tx s') CursorB i = v (bs_tx s) CursorB i \<and>
        (\<exists>m. meta_of P (v (bs_tx s)) i = Some m \<and> rm_run_id m = i))"

definition sim :: "('tx \<Rightarrow> db_view) \<Rightarrow> ('t, bytes) proto_lib \<Rightarrow> bool \<Rightarrow> run_id \<Rightarrow> ('tx, 'a) act \<Rightarrow> bool" where
  "sim v P l i m \<longleftrightarrow> (\<forall>s s'. agree v P l i s s' \<longrightarrow> fst (m s') = fst (m s) \<and> agree v P l i (snd (m s)) (snd (m s')))"

lemma simD: "sim v P l i m \<Longrightarrow> agree v P l i s s' \<Longrightarrow> fst (m s') = fst (m s) \<and> agree v P l i (snd (m s)) (snd (m s'))"
  by (simp add: sim_def)

lemma agree_refine:
  assumes "agree v P l i s s'"
  shows "agree v P l i (s\<lparr>bs_blobs := c\<rparr>) (s'\<lparr>bs_blobs := c\<rparr>)" "agree v P l i (s\<lparr>bs_outputs := c\<rparr>) (s'\<lparr>bs_outputs := c\<rparr>)"
  using assms by (simp_all add: agree_def)

lemma sim_then:
  assumes m: "sim v P l i m" and f: "\<And>a s s1 t. agree v P l i s t \<Longrightarrow> m s = (Inr a, s1) \<Longrightarrow> sim v P l i (f a)"
  shows "sim v P l i (act_then m f)"
  unfolding sim_def
proof (intro allI impI)
  fix s s' assume a: "agree v P l i s s'"
  obtain x s1 where x: "m s = (x, s1)" by fastforce
  obtain y s1' where y: "m s' = (y, s1')" by fastforce
  have e: "y = x" "agree v P l i s1 s1'" using simD [OF m a] x y by simp_all
  show "fst (act_then m f s') = fst (act_then m f s) \<and> agree v P l i (snd (act_then m f s)) (snd (act_then m f s'))"
  proof (cases x)
    case (Inl err)
    then show ?thesis using x y e by (simp add: act_then_def)
  next
    case (Inr b)
    then show ?thesis using x y e simD [OF f [OF a x [unfolded Inr]] e(2)] by (simp add: act_then_def)
  qed
qed

named_theorems sim_rules \<open>actions that read the run's own rows\<close>

lemma sim_pure [sim_rules]: "sim v P l i (act_ok a)" "sim v P l i (act_fail e)" "sim v P l i (act_pb r)"
  by (auto simp: sim_def act_ok_def act_fail_def act_pb_def split: sum.split)

lemma sim_caches [sim_rules]: "sim v P l i (act_cache f)" "sim v P l i (act_outputs f)"
  unfolding sim_def act_cache_def act_outputs_def by (auto simp: agree_refine split: prod.split) (simp_all add: agree_def)

lemma sim_readI: "(\<And>s s'. agree v P l i s s' \<Longrightarrow> g s' = g s) \<Longrightarrow> sim v P l i (act_read g)"
  by (simp add: sim_def act_read_def)

lemma sim_get [sim_rules]:
  assumes B: "bolt_ok (be_db E) v"
  shows "sim v P l i (act_get E TerminalB k)" "sim v P True i (act_get E CursorB i)"
  unfolding act_get_def by (rule sim_readI, simp add: bolt_okD(1) [OF B] agree_def)+

lemma sim_run_rows:
  fixes v :: "'tx \<Rightarrow> db_view"
  assumes B: "bolt_ok (be_db E) v"
  shows "sim v P True i (run_rows E i)"
  unfolding sim_def
proof (intro allI impI)
  fix s s' assume a: "agree v P True i s s'"
  have e: "run_rows E i t = (Inr (seek_prefix (runPrefix i) (bt_walk (be_db E) (bs_tx t) ActiveB)), t)" for t :: "'tx bolt_store"
    by (simp add: run_rows_def act_then_def act_walk_def act_read_def act_ok_def)
  have "walk_of (run_part i (v (bs_tx t))) (seek_prefix (runPrefix i) (bt_walk (be_db E) (bs_tx t) ActiveB))" for t :: "'tx bolt_store"
    using effectD [OF effect_run_rows [OF B] e [of t]] by simp
  from this [of s] this [of s'] show "fst (run_rows E i s') = fst (run_rows E i s) \<and> agree v P True i (snd (run_rows E i s)) (snd (run_rows E i s'))"
    using a walk_of_unique by (auto simp: e agree_def)
qed

lemma sim_blobAt:
  assumes B: "bolt_ok (be_db E) v" and "prefix (runPrefix i) k"
  shows "sim v P True i (blobAt E ActiveB k x)"
proof -
  have "v (bs_tx s') ActiveB k = v (bs_tx s) ActiveB k" if "agree v P True i s s'" for s s'
    using that assms(2) unfolding agree_def run_part_def fun_eq_iff by metis
  then have "sim v P True i (blobFromBucket E ActiveB k)"
    unfolding blobFromBucket_def by (intro sim_readI) (simp add: bolt_okD(2) [OF B])
  then show ?thesis by (simp add: blobAt_def sim_rules)
qed

lemma sim_getBlob:
  assumes B: "bolt_ok (be_db E) v"
  shows "sim v P l i (getBlob E TerminalB k)"
proof -
  have walk: "sim v P l i (act_walk E TerminalB)" unfolding act_walk_def
    using walk_of_unique [OF bolt_okD(3) [OF B] bolt_okD(3) [OF B]] by (intro sim_readI) (metis agree_def bolt_okD(3) [OF B] walk_of_unique)
  have "sim v P l i (blobFromBucket E TerminalB k)"
    unfolding blobFromBucket_def by (intro sim_readI) (simp add: bolt_okD(2) [OF B] agree_def)
  then have "sim v P l i (case dropWhile (\<lambda>(k', v). k' < k) rows of [] \<Rightarrow> act_ok None | (k', v) # _ \<Rightarrow> if k' \<noteq> k then act_ok None else blobAt E TerminalB k v)" for rows
    by (auto simp: blobAt_def sim_rules split: list.split)
  then show ?thesis unfolding getBlob_def by (intro sim_then [OF walk])
qed

lemma sim_walk_row:
  assumes B: "bolt_ok (be_db E) v" and "prefix (runPrefix i) (fst row)"
  shows "sim v P True i (walk_row E i ci row w)"
proof -
  obtain k x where row: "row = (k, x)" "prefix (runPrefix i) k" using assms(2) by (cases row) simp
  note blob = sim_blobAt [OF B row(2)]
  have state: "sim v P True i (walk_state_row E i k x rest w)" for rest
  proof (cases "state_step k rest w")
    case (Some step)
    have "sim v P True i (case cached of
       Some st \<Rightarrow> act_ok (w\<lparr>wr_rec := put_state step (Some st) (wr_rec w)\<rparr>)
     | None \<Rightarrow> act_then (blobAt E ActiveB k x) (\<lambda>st.
         act_ok (w\<lparr>wr_rec := put_state step st (wr_rec w), wr_fill := map_option (fill_state step st) (wr_fill w)\<rparr>)))" for cached
      by (cases cached) (auto intro!: sim_then blob sim_rules)
    then show ?thesis unfolding walk_state_row_def Some option.case by (intro sim_then sim_rules)
  qed (simp add: walk_state_row_def sim_rules)
  have op: "sim v P True i (walk_op_row E k x rest w)" for rest
    by (auto simp: walk_op_row_def sim_rules split: option.split intro!: sim_then sim_rules)
  show ?thesis unfolding row(1) walk_row_def prod.case
    by (auto simp: sim_rules state op split: option.split intro!: sim_then blob)
qed

lemma sim_walk_rows:
  assumes B: "bolt_ok (be_db E) v"
  shows "(\<And>row. row \<in> set rows \<Longrightarrow> prefix (runPrefix i) (fst row)) \<Longrightarrow> sim v P True i (walk_rows E i ci rows w)"
proof (induction rows arbitrary: w)
  case Nil
  then show ?case by (simp add: sim_rules)
next
  case (Cons row rows)
  then show ?case unfolding walk_rows.simps by (intro sim_then [OF sim_walk_row [OF B]]) auto
qed

lemma sim_overlayCursor:
  assumes B: "bolt_ok (be_db E) v" and "r_run rec = i"
  shows "sim v P True i (overlayCursor E rec)"
  unfolding overlayCursor_def assms(2)
  by (intro sim_then [OF sim_get(2) [OF B]]) (auto split: option.split intro!: sim_rules sim_then)

lemma run_rows_keys:
  assumes B: "bolt_ok (be_db E) v" and "run_rows E i s = (Inr rows, s1)"
  shows "walk_of (run_part i (v (bs_tx s))) rows" "row \<in> set rows \<Longrightarrow> prefix (runPrefix i) (fst row)"
proof -
  show w: "walk_of (run_part i (v (bs_tx s))) rows" using effectD [OF effect_run_rows [OF B] assms(2)] by simp
  show "prefix (runPrefix i) (fst row)" if "row \<in> set rows"
  proof -
    have "run_part i (v (bs_tx s)) (fst row) \<noteq> None" using that w unfolding walk_of_def by (metis prod.collapse)
    then show ?thesis by (auto simp: run_part_def split: if_splits)
  qed
qed

text \<open>The record read from the meta row is the run's own.\<close>

lemma meta_row_reads:
  assumes "walk_of (run_part i w) rows" "meta_row_at w i = Some b" "meta_row E i rows s = (Inr rec, s1)"
  shows "UnmarshalRunMetaInto (be_proto E) b zero_record = Inr rec"
proof (cases rows)
  case (Cons row rest)
  obtain k x where row: "row = (k, x)" by (cases row)
  have k: "length (runPrefix i) < length k" "k ! length (runPrefix i) = tagMeta" "act_pb (UnmarshalRunMetaInto (be_proto E) (the_bytes x) zero_record) s = (Inr rec, s1)"
    using assms(3) by (auto simp: meta_row_def Cons row act_fail_def split: if_splits)
  have "x = Some b" using meta_first(2) [of i w k x rest b] assms(1,2) k(1,2) by (simp add: Cons row)
  then show ?thesis using k(3) by (auto simp: act_pb_def the_bytes_def split: sum.splits)
qed (use assms(3) in \<open>simp add: meta_row_def act_fail_def\<close>)

lemma meta_row_identity:
  assumes "walk_of (run_part i w) rows" "meta_of (be_proto E) w i = Some m" "meta_row E i rows s = (Inr rec, s1)"
  shows "r_run rec = rm_run_id m \<and> r_pipeline rec = rm_pipeline_id m \<and> r_resource rec = rm_resource_id m"
  using meta_identity [OF assms(2)] meta_row_reads [OF assms(1) _ assms(3)] by blast

lemma sim_meta_row: "sim v P l i (meta_row E i rows)"
  by (auto simp: meta_row_def sim_rules split: list.split)

lemma sim_getNonterminal:
  assumes B: "bolt_ok (be_db E) v"
  shows "sim v (be_proto E) True i (getNonterminal E i)"
proof -
  let ?w0 = "\<lambda>rec cached. \<lparr>wr_rec = rec, wr_fill = (if cached then None else Some no_blobs), wr_key = [], wr_step = []\<rparr>"
  let ?finish = "\<lambda>w. act_then (case wr_fill w of None \<Rightarrow> act_ok () | Some rb \<Rightarrow> act_cache (\<lambda>c. ((), bc_fill c i rb))) (\<lambda>_. overlayCursor E (wr_rec w))"
  have finish: "sim v (be_proto E) True i (?finish y)" if "r_run (wr_rec y) = i" for y
    by (intro sim_then sim_overlayCursor [OF B that]) (auto split: option.split intro: sim_rules)
  have walk: "sim v (be_proto E) True i (act_then (walk_rows E i ci (tl rows) (?w0 rec cached)) ?finish)"
    if rec: "r_run rec = i" and keys: "\<And>row. row \<in> set rows \<Longrightarrow> prefix (runPrefix i) (fst row)" for ci rows rec cached
  proof (rule sim_then)
    show "sim v (be_proto E) True i (walk_rows E i ci (tl rows) (?w0 rec cached))"
    proof (rule sim_walk_rows [OF B])
      fix row assume "row \<in> set (tl rows)"
      then have "row \<in> set rows" by (cases rows) simp_all
      then show "prefix (runPrefix i) (fst row)" by (rule keys)
    qed
    show "sim v (be_proto E) True i (?finish y)" if "walk_rows E i ci (tl rows) (?w0 rec cached) s = (Inr y, s1)" for y s s1
      using effectD [OF keeps_walk_rows that, of v] rec by (intro finish) (simp add: keeps_id_def same_id_def)
  qed
  have "sim v (be_proto E) True i (act_then (run_rows E i) (\<lambda>rows. act_then (meta_row E i rows)
      (\<lambda>rec. act_then (walk_rows E i ci (tl rows) (?w0 rec cached)) ?finish)))" for ci cached
  proof (rule sim_then [OF sim_run_rows [OF B]])
    fix rows s s1 t assume a: "agree v (be_proto E) True i s t" and r: "run_rows E i s = (Inr rows, s1)"
    obtain m where m: "meta_of (be_proto E) (v (bs_tx s)) i = Some m" "rm_run_id m = i" using a by (auto simp: agree_def)
    show "sim v (be_proto E) True i (act_then (meta_row E i rows) (\<lambda>rec. act_then (walk_rows E i ci (tl rows) (?w0 rec cached)) ?finish))"
      by (rule sim_then [OF sim_meta_row walk]) (use meta_row_identity [OF run_rows_keys(1) [OF B r] m(1)] m(2) run_rows_keys(2) [OF B r] in auto)
  qed
  then show ?thesis unfolding getNonterminal_def by (intro sim_then sim_rules) (auto split: prod.split)
qed

lemma sim_head_rows: "sim v P l i (head_rows E i rows rec)"
  by (induction rows arbitrary: rec) (auto intro!: sim_then sim_rules)

lemma head_rows_id: "effect v (head_rows E i rows rec) (\<lambda>w a w'. w' = w \<and> same_id rec a)"
proof (induction rows arbitrary: rec)
  case Nil
  then show ?case by (auto intro: effect_mono [OF effect_ok])
next
  case (Cons row rows)
  obtain k x where row: "row = (k, x)" by (cases row)
  have step: "effect v (act_then (act_pb r) (\<lambda>c. head_rows E i rows (f c))) (\<lambda>w a w'. w' = w \<and> same_id rec a)" if "\<And>c. same_id rec (f c)" for r :: "goerr + 'z" and f
    by (rule effect_then [OF effect_pb Cons.IH]) (use that in \<open>auto simp: same_id_def\<close>)
  show ?case unfolding row head_rows.simps
    by (intro effect_if effect_fail step) (auto intro: effect_mono [OF effect_ok])
qed

text \<open>The head of a live run.\<close>

definition liveHead :: "('t, 'tx) bolt_env \<Rightarrow> run_id \<Rightarrow> ('tx, run_record) act" where
  "liveHead E i = act_then (run_rows E i) (\<lambda>rows. act_then (meta_row E i rows) (\<lambda>rec. act_then (head_rows E i (tl rows) rec) (overlayCursor E)))"

lemma sim_liveHead:
  assumes B: "bolt_ok (be_db E) v"
  shows "sim v (be_proto E) True i (liveHead E i)"
  unfolding liveHead_def
proof (rule sim_then [OF sim_run_rows [OF B]])
  fix rows s s1 t assume a: "agree v (be_proto E) True i s t" and r: "run_rows E i s = (Inr rows, s1)"
  obtain m where m: "meta_of (be_proto E) (v (bs_tx s)) i = Some m" "rm_run_id m = i" using a by (auto simp: agree_def)
  show "sim v (be_proto E) True i (act_then (meta_row E i rows) (\<lambda>rec. act_then (head_rows E i (tl rows) rec) (overlayCursor E)))"
  proof (rule sim_then [OF sim_meta_row sim_then [OF sim_head_rows sim_overlayCursor [OF B]]])
    fix rec s2 s3 rec' s4 s5
    assume "meta_row E i rows s2 = (Inr rec, s3)" "head_rows E i (tl rows) rec s4 = (Inr rec', s5)"
    then show "r_run rec' = i" using meta_row_identity [OF run_rows_keys(1) [OF B r] m(1)] m(2) effectD [OF head_rows_id, of E i "tl rows" rec s4 rec' s5 v]
      by (simp add: same_id_def)
  qed
qed

text \<open>A terminal run reads from its terminal row alone.\<close>

definition terminalRun :: "('t, 'tx) bolt_env \<Rightarrow> run_id \<Rightarrow> bytes \<Rightarrow> ('tx, run_record) act" where
  "terminalRun E i b = act_then (act_pb (UnmarshalTerminalInto (be_proto E) b zero_record)) (\<lambda>(rec, beside).
       if \<not> beside then act_ok rec
       else act_then (act_outputs (\<lambda>c. bc_output c i)) (\<lambda>out. if out \<noteq> None then act_ok (rec\<lparr>r_output := out\<rparr>)
         else act_then (getBlob E TerminalB (outputKey i)) (\<lambda>v.
           act_then (act_outputs (\<lambda>c. ((), bc_fill c i (no_blobs\<lparr>rb_output := v\<rparr>)))) (\<lambda>_. act_ok (rec\<lparr>r_output := v\<rparr>)))))"

lemma sim_terminalRun:
  assumes B: "bolt_ok (be_db E) v"
  shows "sim v P l i (terminalRun E i b)"
  unfolding terminalRun_def
  by (intro sim_then sim_rules) (auto split: prod.split intro!: sim_rules sim_then sim_getBlob [OF B])

lemma get_then: "bolt_ok (be_db E) v \<Longrightarrow> act_then (act_get E b k) f s = f (row_of (v (bs_tx s) b k)) s"
  by (simp add: act_then_def act_get_def act_read_def bolt_okD(1))

lemma getRun_cases:
  assumes B: "bolt_ok (be_db E) v"
  shows "getRun E i s = (case row_of (v (bs_tx s) TerminalB i) of Some b \<Rightarrow> terminalRun E i b s | None \<Rightarrow> getNonterminal E i s)"
    "getHead E i s = (case row_of (v (bs_tx s) TerminalB i) of
       Some b \<Rightarrow> act_then (act_pb (UnmarshalTerminalInto (be_proto E) b zero_record)) (\<lambda>(rec, _). act_ok (rec\<lparr>r_output := None\<rparr>)) s | None \<Rightarrow> liveHead E i s)"
  by (simp_all add: getRun_def getHead_def terminalRun_def liveHead_def get_then [OF B] split: option.split)

text \<open>A drain touches no live run and no terminal row.\<close>

lemma drain_agree:
  assumes inv: "bolt_inv (be_proto E) (v (bs_tx s))" and ids: "set ids \<subseteq> {k. v (bs_tx s) StagedB k \<noteq> None}"
    and s': "v (bs_tx s') = clear_staged ids (v (bs_tx s))" "bs_blobs s' = bs_blobs s" "bs_outputs s' = bs_outputs s"
    and i: "nul_free i" "\<not> ended (v (bs_tx s)) i" "has_meta (v (bs_tx s)) i"
  shows "agree v (be_proto E) True i s s'"
proof -
  have over: "nul_free j \<and> j \<noteq> i" if "j \<in> set ids" for j using that ids inv i(2) by (auto simp: bolt_inv_def staged_ok_def)
  have none: "\<not> (\<exists>j\<in>set ids. prefix (runPrefix j) k)" if pk: "prefix (runPrefix i) k" for k
  proof
    assume "\<exists>j\<in>set ids. prefix (runPrefix j) k"
    then obtain j where j: "j \<in> set ids" "prefix (runPrefix j) k" by blast
    obtain rest where "k = runPrefix i @ rest" using pk by (auto simp: prefix_def)
    then have "j = i" using runPrefix_prefix [of j i rest] j over i(1) by simp
    then show False using over j by blast
  qed
  have "run_part i (v (bs_tx s')) = run_part i (v (bs_tx s))" using none by (auto simp: run_part_def s'(1) clear_staged_sel fun_eq_iff)
  moreover have "v (bs_tx s') CursorB i = v (bs_tx s) CursorB i" using over by (auto simp: s'(1) clear_staged_sel)
  moreover have "\<exists>m. meta_of (be_proto E) (v (bs_tx s)) i = Some m \<and> rm_run_id m = i"
    using slots_okD(2) [of "be_proto E" "v (bs_tx s)" i] inv i by (auto simp: bolt_inv_def live_def)
  ultimately show ?thesis by (simp add: agree_def s' clear_staged_sel fun_eq_iff)
qed

section \<open>Heads\<close>

text \<open>A head changes nothing, the caches included.\<close>

definition leaves :: "('tx, 'a) act \<Rightarrow> bool" where
  "leaves m \<longleftrightarrow> (\<forall>s. snd (m s) = s)"

named_theorems leaves_rules \<open>actions that change nothing\<close>

lemma leaves_pure [leaves_rules]: "leaves (act_ok a)" "leaves (act_fail e)" "leaves (act_pb r)" "leaves (act_read f)"
  by (simp_all add: leaves_def act_ok_def act_fail_def act_pb_def act_read_def split: sum.split)

lemma leaves_then [leaves_rules]: "leaves m \<Longrightarrow> (\<And>a. leaves (f a)) \<Longrightarrow> leaves (act_then m f)"
  by (auto simp: leaves_def act_then_def split: prod.split sum.split) (metis snd_conv)+

lemma leaves_head_rows [leaves_rules]: "leaves (head_rows E i rows rec)"
  by (induction rows arbitrary: rec) (auto intro!: leaves_rules)

lemma leaves_getHead: "leaves (getHead E i)"
  unfolding getHead_def run_rows_def meta_row_def overlayCursor_def act_get_def act_walk_def
  by (auto intro!: leaves_rules split: option.split prod.split list.split)

lemma getHead_state: "getHead E i s = (fst (getHead E i s), s)"
  using leaves_getHead [of E i] by (simp add: leaves_def prod_eq_iff)

text \<open>The walk over the slots collects the heads of the runs they name.\<close>

lemma list_slots_Inr:
  "fst (list_slots E rows out s) = Inr rs \<longleftrightarrow> (\<exists>hs. rs = out @ hs \<and> list_all2 (\<lambda>(k, x) h. fst (getHead E (the_bytes x) s) = Inr h) rows hs)"
proof (induction rows arbitrary: out)
  case Nil
  then show ?case by auto
next
  case (Cons row rows)
  obtain k x where row: "row = (k, x)" by (cases row)
  show ?case
  proof (cases "fst (getHead E (the_bytes x) s)")
    case (Inl e)
    then have "getHead E (the_bytes x) s = (Inl e, s)" using getHead_state [of E "the_bytes x" s] by simp
    then show ?thesis by (auto simp: row list_all2_Cons1)
  next
    case (Inr h)
    then have "getHead E (the_bytes x) s = (Inr h, s)" using getHead_state [of E "the_bytes x" s] by simp
    then show ?thesis using Cons.IH [of "out @ [h]"] by (auto simp: row list_all2_Cons1)
  qed
qed

lemma list_slots_cong:
  "(\<And>x. x \<in> snd ` set rows \<Longrightarrow> fst (getHead E (the_bytes x) s') = fst (getHead E (the_bytes x) s)) \<Longrightarrow>
   fst (list_slots E rows out s') = fst (list_slots E rows out s)"
proof (induction rows arbitrary: out)
  case (Cons row rows)
  obtain k x where row: "row = (k, x)" by (cases row)
  have h: "getHead E (the_bytes x) s = (fst (getHead E (the_bytes x) s), s)" "getHead E (the_bytes x) s' = (fst (getHead E (the_bytes x) s), s')"
    using getHead_state [of E "the_bytes x" s] getHead_state [of E "the_bytes x" s'] Cons.prems [of x] by (simp_all add: row)
  show ?case
  proof (cases "fst (getHead E (the_bytes x) s)")
    case (Inl e)
    then show ?thesis using h by (simp add: row)
  next
    case (Inr rec)
    have "fst (list_slots E rows (out @ [rec]) s') = fst (list_slots E rows (out @ [rec]) s)" using Cons.prems by (intro Cons.IH) simp
    then show ?thesis using h Inr by (simp add: row)
  qed
qed simp

lemma list_unfold:
  assumes B: "bolt_ok (be_db E) v"
  shows "\<exists>rows. walk_of (v (bs_tx s) SlotsB) rows \<and> fst (bolt_ListNonterminal E s) = fst (list_slots E rows [] s)"
proof -
  have "fst (bolt_ListNonterminal E s) = fst (list_slots E (bt_walk (be_db E) (bs_tx s) SlotsB) [] s)"
    by (simp add: bolt_ListNonterminal_def bolt_view_def act_then_def act_walk_def act_read_def split: prod.split)
  then show ?thesis using bolt_okD(3) [OF B] by blast
qed

text \<open>The head of a live run carries the identity of its meta row.\<close>

lemma head_identity:
  assumes B: "bolt_ok (be_db E) v" and inv: "bolt_inv (be_proto E) (v (bs_tx s))" and l: "live (be_proto E) (v (bs_tx s)) i m"
    and h: "getHead E i s = (Inr h, s')"
  shows "r_run h = i" "r_pipeline h = rm_pipeline_id m" "r_resource h = rm_resource_id m"
proof -
  have i: "nul_free i" "\<not> ended (v (bs_tx s)) i" and m: "meta_of (be_proto E) (v (bs_tx s)) i = Some m" using l by (simp_all add: live_def)
  have run: "rm_run_id m = i" using live_slot(1) [OF _ l] inv by (simp add: bolt_inv_def)
  have "liveHead E i s = (Inr h, s')" using h getRun_cases(2) [OF B, of i s] not_ended [OF inv i(1)] i(2) by simp
  then obtain rows rec rec' s1 s2 s3 where r: "run_rows E i s = (Inr rows, s1)" "meta_row E i rows s1 = (Inr rec, s2)"
    "head_rows E i (tl rows) rec s2 = (Inr rec', s3)" "overlayCursor E rec' s3 = (Inr h, s')"
    unfolding liveHead_def act_then_Inr by blast
  have id: "same_id rec h" using effectD [OF head_rows_id r(3), of v] effectD [OF effect_overlayCursor [OF B] r(4)] by (simp add: same_id_def)
  have "r_run rec = rm_run_id m \<and> r_pipeline rec = rm_pipeline_id m \<and> r_resource rec = rm_resource_id m"
    by (rule meta_row_identity [OF run_rows_keys(1) [OF B r(1)] m r(2)])
  then show "r_run h = i" "r_pipeline h = rm_pipeline_id m" "r_resource h = rm_resource_id m" using id run by (simp_all add: same_id_def)
qed

section \<open>The drain and the reads\<close>

text \<open>A stored run reads the same once its store is drained.\<close>

lemma drained_reads:
  assumes B: "bolt_ok (be_db E) v" and inv: "bolt_inv (be_proto E) (v (bs_tx s))" and ids: "set ids \<subseteq> {k. v (bs_tx s) StagedB k \<noteq> None}"
    and s': "v (bs_tx s') = clear_staged ids (v (bs_tx s))" "bs_blobs s' = bs_blobs s" "bs_outputs s' = bs_outputs s"
    and i: "nul_free i" "has_meta (v (bs_tx s)) i \<or> ended (v (bs_tx s)) i"
  shows "fst (getRun E i s') = fst (getRun E i s)" "fst (getHead E i s') = fst (getHead E i s)"
proof -
  have t: "v (bs_tx s') TerminalB = v (bs_tx s) TerminalB" by (simp add: s'(1) clear_staged_sel fun_eq_iff)
  have "fst (getRun E i s') = fst (getRun E i s) \<and> fst (getHead E i s') = fst (getHead E i s)"
  proof (cases "row_of (v (bs_tx s) TerminalB i)")
    case None
    then have a: "agree v (be_proto E) True i s s'"
      using drain_agree [OF inv ids s' i(1)] not_ended [OF inv i(1)] i(2) by blast
    show ?thesis
      using simD [OF sim_getNonterminal [OF B] a] simD [OF sim_liveHead [OF B] a] by (simp_all add: getRun_cases [OF B] t None)
  next
    case (Some b)
    have a: "agree v (be_proto E) False i s s'" by (simp add: agree_def t s'(2,3))
    have "fst (getHead E i s') = fst (getHead E i s)"
      by (simp add: getRun_cases(2) [OF B] t Some act_then_def act_pb_def act_ok_def split: sum.split prod.split)
    then show ?thesis using simD [OF sim_terminalRun [OF B] a] by (simp add: getRun_cases(1) [OF B] t Some)
  qed
  then show "fst (getRun E i s') = fst (getRun E i s)" "fst (getHead E i s') = fst (getHead E i s)" by simp_all
qed

lemma view_fst: "fst (bolt_view f s) = fst (f s)"
  by (simp add: bolt_view_def split: prod.split)

lemma live_meta: "live P w i m \<Longrightarrow> nul_free i \<and> has_meta w i"
  by (auto simp: live_def meta_of_def meta_row_at_def has_meta_def bind_eq_Some_conv row_of_Some)

lemma slot_holder:
  assumes "slots_ok P w" "w SlotsB k \<noteq> None"
  shows "\<exists>i m. row_of (w SlotsB k) = Some i \<and> live P w i m \<and> k = slot_of m"
proof -
  obtain e where "w SlotsB k = Some e" using assms(2) by blast
  then show ?thesis using slots_okD(1) [OF assms(1), of k e] by auto
qed

lemma drained_list:
  assumes B: "bolt_ok (be_db E) v" and inv: "bolt_inv (be_proto E) (v (bs_tx s))" and ids: "set ids \<subseteq> {k. v (bs_tx s) StagedB k \<noteq> None}"
    and s': "v (bs_tx s') = clear_staged ids (v (bs_tx s))" "bs_blobs s' = bs_blobs s" "bs_outputs s' = bs_outputs s"
  shows "fst (bolt_ListNonterminal E s') = fst (bolt_ListNonterminal E s)" "fst (bolt_GetActiveRunID E p r s') = fst (bolt_GetActiveRunID E p r s)"
proof -
  obtain rows where rows: "walk_of (v (bs_tx s) SlotsB) rows" "fst (bolt_ListNonterminal E s) = fst (list_slots E rows [] s)" using list_unfold [OF B] by blast
  obtain rows' where rows': "walk_of (v (bs_tx s') SlotsB) rows'" "fst (bolt_ListNonterminal E s') = fst (list_slots E rows' [] s')" using list_unfold [OF B] by blast
  have slots: "v (bs_tx s') SlotsB = v (bs_tx s) SlotsB" by (simp add: s'(1) clear_staged_sel fun_eq_iff)
  have "rows' = rows" using walk_of_unique [OF rows(1)] rows'(1) slots by simp
  moreover have "fst (list_slots E rows [] s') = fst (list_slots E rows [] s)"
  proof (rule list_slots_cong)
    fix x assume "x \<in> snd ` set rows"
    then obtain k where k: "v (bs_tx s) SlotsB k \<noteq> None" "x = row_of (v (bs_tx s) SlotsB k)" using rows(1) by (auto simp: walk_of_def)
    then obtain i m where "x = Some i" "live (be_proto E) (v (bs_tx s)) i m" using slot_holder [of "be_proto E" "v (bs_tx s)" k] k inv by (auto simp: bolt_inv_def)
    then show "fst (getHead E (the_bytes x) s') = fst (getHead E (the_bytes x) s)"
      using drained_reads(2) [OF B inv ids s', of i] live_meta [of "be_proto E" "v (bs_tx s)" i m] by (simp add: the_bytes_def)
  qed
  ultimately show "fst (bolt_ListNonterminal E s') = fst (bolt_ListNonterminal E s)" using rows(2) rows'(2) by simp
  show "fst (bolt_GetActiveRunID E p r s') = fst (bolt_GetActiveRunID E p r s)"
    by (simp add: bolt_GetActiveRunID_def view_fst act_get_def act_read_def bolt_okD(1) [OF B] slots)
qed

section \<open>The live runs\<close>

text \<open>ListNonterminal lists the heads of the live runs, one per slot.\<close>

definition lists :: "('t, bytes) proto_lib \<Rightarrow> db_view \<Rightarrow> bytes \<times> bytes option \<Rightarrow> run_record \<Rightarrow> bool" where
  "lists P w row h \<longleftrightarrow> (\<exists>i m. snd row = Some i \<and> live P w i m \<and> fst row = slot_of m \<and>
     r_run h = i \<and> r_pipeline h = rm_pipeline_id m \<and> r_resource h = rm_resource_id m)"

lemma list_lists:
  assumes B: "bolt_ok (be_db E) v" and inv: "bolt_inv (be_proto E) (v (bs_tx s))" and r: "fst (bolt_ListNonterminal E s) = Inr rs"
  shows "\<exists>rows. walk_of (v (bs_tx s) SlotsB) rows \<and> list_all2 (lists (be_proto E) (v (bs_tx s))) rows rs"
proof -
  obtain rows where rows: "walk_of (v (bs_tx s) SlotsB) rows" "fst (bolt_ListNonterminal E s) = fst (list_slots E rows [] s)" using list_unfold [OF B] by blast
  then have heads: "list_all2 (\<lambda>(k, x) h. fst (getHead E (the_bytes x) s) = Inr h) rows rs" using r list_slots_Inr [of E rows "[]" s rs] by simp
  have "list_all2 (lists (be_proto E) (v (bs_tx s))) rows rs"
  proof (rule list_all2_all_nthI)
    show "length rows = length rs" using heads by (rule list_all2_lengthD)
    fix a assume a: "a < length rows"
    obtain k x where row: "rows ! a = (k, x)" by fastforce
    have "(k, x) \<in> set rows" using a row by (metis nth_mem)
    then have k: "v (bs_tx s) SlotsB k \<noteq> None" "x = row_of (v (bs_tx s) SlotsB k)" using rows(1) by (auto simp: walk_of_def)
    obtain i m where i: "x = Some i" "live (be_proto E) (v (bs_tx s)) i m" "k = slot_of m"
      using slot_holder [of "be_proto E" "v (bs_tx s)" k] k inv unfolding bolt_inv_def by force
    have "fst (getHead E i s) = Inr (rs ! a)" using list_all2_nthD [OF heads a] by (simp add: row i(1) the_bytes_def)
    then have "getHead E i s = (Inr (rs ! a), s)" using getHead_state [of E i s] by simp
    from head_identity [OF B inv i(2) this] show "lists (be_proto E) (v (bs_tx s)) (rows ! a) (rs ! a)"
      unfolding lists_def row using i by auto
  qed
  then show ?thesis using rows(1) by blast
qed

lemma list_keys: "list_all2 (lists P w) rows rs \<Longrightarrow> map (\<lambda>r. slotKeyFor (r_pipeline r) (r_resource r)) rs = map fst rows"
  by (induction rule: list_all2_induct) (auto simp: lists_def slot_of_def)

lemma list_distinct: "walk_of m rows \<Longrightarrow> list_all2 (lists P w) rows rs \<Longrightarrow> distinct (map (\<lambda>r. slotKeyFor (r_pipeline r) (r_resource r)) rs)"
  using list_keys [of P w rows rs] by (auto simp: walk_of_def strict_sorted_iff)

lemma list_in:
  assumes "list_all2 (lists P w) rows rs" "h \<in> set rs"
  shows "\<exists>row\<in>set rows. lists P w row h"
  using assms by (metis in_set_conv_nth list_all2_conv_all_nth)

lemma list_runs:
  assumes inv: "slots_ok P w" and "walk_of (w SlotsB) rows" "list_all2 (lists P w) rows rs"
  shows "r_run ` set rs = {i. \<exists>m. live P w i m}"
proof (intro set_eqI iffI)
  fix i assume "i \<in> r_run ` set rs"
  then show "i \<in> {i. \<exists>m. live P w i m}" using list_in [OF assms(3)] by (fastforce simp: lists_def)
next
  fix i assume "i \<in> {i. \<exists>m. live P w i m}"
  then obtain m where l: "live P w i m" by blast
  have "(slot_of m, Some i) \<in> set rows" using assms(2) live_slot(3) [OF inv l] by (simp add: walk_of_def)
  then obtain a where a: "a < length rows" "rows ! a = (slot_of m, Some i)" by (metis in_set_conv_nth)
  then have "lists P w (slot_of m, Some i) (rs ! a)" "a < length rs" using assms(3) by (auto simp: list_all2_conv_all_nth)
  then show "i \<in> r_run ` set rs" by (auto simp: lists_def intro!: image_eqI [of _ _ "rs ! a"])
qed

lemma list_slot:
  assumes "slots_ok P w" "list_all2 (lists P w) rows rs" "h \<in> set rs"
  shows "nul_free (r_pipeline h)" "w SlotsB (slotKeyFor (r_pipeline h) (r_resource h)) = Some (BRow (r_run h))"
proof -
  obtain i m where "live P w i m" "r_run h = i" "r_pipeline h = rm_pipeline_id m" "r_resource h = rm_resource_id m"
    using list_in [OF assms(2,3)] by (auto simp: lists_def)
  then show "nul_free (r_pipeline h)" "w SlotsB (slotKeyFor (r_pipeline h) (r_resource h)) = Some (BRow (r_run h))"
    using live_slot(2,3) [OF assms(1)] by (auto simp: slot_of_def)
qed

lemma list_ids:
  assumes "walk_of (w SlotsB) rows" "list_all2 (lists P w) rows rs"
  shows "distinct (map r_run rs)"
proof -
  let ?key = "\<lambda>i. slot_of (the (meta_of P w i))"
  have "map fst rows = map ?key (map r_run rs)"
    using assms(2) by (induction rule: list_all2_induct) (auto simp: lists_def live_def)
  moreover have "distinct (map fst rows)" using assms(1) by (auto simp: walk_of_def strict_sorted_iff)
  ultimately show ?thesis by (metis distinct_map)
qed

lemma list_exclusive:
  assumes "slots_ok P w" "slots_exclusive excl w" "walk_of (w SlotsB) rows" "list_all2 (lists P w) rows rs"
    and r: "r \<in> set rs" "r' \<in> set rs" "r_resource r = r_resource r'" "r_pipeline r' \<in> insert (r_pipeline r) (set (excl (r_pipeline r)))"
  shows "r = r'"
proof -
  note slot = list_slot [OF assms(1,4)]
  have "r_pipeline r = r_pipeline r'"
  proof (cases "r_pipeline r' = r_pipeline r")
    case False
    then have "r_pipeline r' \<in> set (excl (r_pipeline r))" using r(4) by simp
    then show ?thesis using slot(1) [OF r(1)] slot(1) [OF r(2)] slot(2) [OF r(1)] slot(2) [OF r(2)] r(3) assms(2)
      unfolding slots_exclusive_def by (metis option.distinct(1))
  qed simp
  then have "slotKeyFor (r_pipeline r) (r_resource r) = slotKeyFor (r_pipeline r') (r_resource r')" using r(3) by simp
  then show ?thesis using list_distinct [OF assms(3,4)] r(1,2) by (auto simp: distinct_map inj_on_def)
qed

section \<open>Properties\<close>

text \<open>
  The counter of staged runs after a failed write: the drain inside the transaction is rolled back with it, the counter is not.
\<close>

lemma counter_drifts:
  assumes "int stageDrainPerWrite \<le> bs_staged s" "drainStaged E stageDrainPerWrite s = (Inr n, s1)"
    and "bt_get (be_db E) (bs_tx s1) TerminalB i = None" "bt_get (be_db E) (bs_tx s1) ActiveB (activeKey i tagMeta) = None"
  shows "fst (bolt_ApplyTransition E i t s) = Inl ErrRunNotFound \<and> bs_tx (snd (bolt_ApplyTransition E i t s)) = bs_tx s \<and>
    bs_staged (snd (bolt_ApplyTransition E i t s)) = bs_staged s - n"
proof -
  have "same_mem s s1" using only_tx_drainStaged [of E stageDrainPerWrite] assms(2) unfolding only_tx_def by blast
  then have "writeDrain E s = (Inr (), s1\<lparr>bs_staged := bs_staged s - n\<rparr>)"
    using assms(1,2) by (simp add: writeDrain_def act_then_def add_staged_def same_mem_def)
  then show ?thesis using assms(3,4)
    by (simp add: bolt_ApplyTransition_def bolt_update_def apply_tx_def act_then_def act_get_def act_read_def act_fail_def)
qed

text \<open>Claim C7. In every history of the bbolt store on a new file -- method calls, drains, transactions that failed or
  were rolled back, and restarts, in any order -- the buckets agree: every slot names a live run and is the slot of its pipeline and
  resource, and every live run holds its slot and has a cursor; a staged run is terminal, and a terminal run
  whose rows are still there is staged, so no rows are ever left behind and no drain touches a live run; every terminal run has
  its terminal row and exactly one expiry key, and only terminal runs have one; no two slots of a resource belong to pipelines that
  exclude each other; and only ids that were created are stored.\<close>

theorem bolt_store_indices:
  assumes "bolt_ok (be_db E) v" "proto_lib_ok (be_proto E)" "excl_sym excl" "fresh_store v s0" "bolt_history E excl s0 (s, used)"
  shows "bolt_inv (be_proto E) (v (bs_tx s)) \<and> slots_exclusive excl (v (bs_tx s)) \<and> known (v (bs_tx s)) used"
  using bolt_history_good [OF assms] by (simp add: bolt_good_def)

theorem bolt_store_indices_witness:
  "bolt_inv (be_proto ex_env) (plain_view (bs_tx ex_store3)) \<and> plain_view (bs_tx ex_store3) StagedB ''1'' \<noteq> None"
  using bolt_store_indices [OF ex_env_ok ex_excl_sym ex_fresh ex_history3] ex_view3 by simp

text \<open>Claim C9. In every history of the bbolt store, when ListNonterminal returns a list it lists each live run exactly once, and two
  of its records for one resource never have the same pipeline nor pipelines that exclude each other.\<close>

theorem bolt_list_live:
  assumes "bolt_ok (be_db E) v" "proto_lib_ok (be_proto E)" "excl_sym excl" "fresh_store v s0" "bolt_history E excl s0 (s, used)"
    and "fst (bolt_ListNonterminal E s) = Inr rs"
  shows "distinct (map r_run rs) \<and> r_run ` set rs = {i. \<exists>m. live (be_proto E) (v (bs_tx s)) i m} \<and>
    (\<forall>r\<in>set rs. \<forall>r'\<in>set rs. r_resource r = r_resource r' \<longrightarrow> r_pipeline r' \<in> insert (r_pipeline r) (set (excl (r_pipeline r))) \<longrightarrow> r = r')"
proof -
  have g: "bolt_inv (be_proto E) (v (bs_tx s))" "slots_exclusive excl (v (bs_tx s))" using bolt_history_good [OF assms(1-5)] by (simp_all add: bolt_good_def)
  then have slots: "slots_ok (be_proto E) (v (bs_tx s))" by (simp add: bolt_inv_def)
  obtain rows where rows: "walk_of (v (bs_tx s) SlotsB) rows" "list_all2 (lists (be_proto E) (v (bs_tx s))) rows rs"
    using list_lists [OF assms(1) g(1) assms(6)] by blast
  show ?thesis
    using list_ids [OF rows] list_runs [OF slots rows] list_exclusive [OF slots g(2) rows] by blast
qed

theorem bolt_list_live_witness:
  "r_run ` set [ex_run ''2'' ''audit'', ex_run ''1'' ''backup''] = {i. \<exists>m. live (be_proto ex_env) (plain_view (bs_tx ex_store2)) i m}"
  using bolt_list_live [OF ex_env_ok ex_excl_sym ex_fresh ex_history2 ex_list2] by blast

text \<open>What every drain that returns leaves to the readers.\<close>

lemma Drain_reads:
  assumes "bolt_ok (be_db E) v" "proto_lib_ok (be_proto E)" "excl_sym excl" "fresh_store v s0" "bolt_history E excl s0 (s, used)"
    and "Drain fuel E s = Some (res, s')" "nul_free i" "has_meta (v (bs_tx s)) i \<or> ended (v (bs_tx s)) i"
  shows "fst (bolt_GetRun E i s') = fst (bolt_GetRun E i s) \<and> fst (bolt_GetRunHead E i s') = fst (bolt_GetRunHead E i s) \<and>
    fst (bolt_ListNonterminal E s') = fst (bolt_ListNonterminal E s) \<and> fst (bolt_GetActiveRunID E p rid s') = fst (bolt_GetActiveRunID E p rid s)"
proof -
  have inv: "bolt_inv (be_proto E) (v (bs_tx s))" using bolt_history_good [OF assms(1-5)] by (simp add: bolt_good_def)
  obtain ids where ids: "set ids \<subseteq> {k. v (bs_tx s) StagedB k \<noteq> None}" "v (bs_tx s') = clear_staged ids (v (bs_tx s))"
    "bs_blobs s' = bs_blobs s" "bs_outputs s' = bs_outputs s" using Drain_effect [OF assms(1,6)] by blast
  show ?thesis
    using drained_reads [OF assms(1) inv ids assms(7,8)] drained_list [OF assms(1) inv ids]
    by (simp add: bolt_GetRun_def bolt_GetRunHead_def view_fst)
qed

lemma ex_staged: "card {k. plain_view (bs_tx ex_store3) StagedB k \<noteq> None} = 1"
proof -
  have "{k. plain_view (bs_tx ex_store3) StagedB k \<noteq> None} = {''1''}" by (auto simp: ex_view3 split: if_splits)
  then show ?thesis by (simp only: card.insert) simp
qed

lemma ex_few: "card {k. plain_view (bs_tx ex_store3) StagedB k \<noteq> None} < stageDrainPerSweep * 1"
  unfolding ex_staged by (simp add: stageDrainPerSweep_def)



end
