(* ===== verification/Bolt_Head.thy ===== *)
theory Bolt_Head
  imports Bolt_Sim Bolt_Props
begin

text \<open>
  The heads the bbolt store answers: \<^verbatim>\<open>GetRunHead\<close> reads the rows before the blobs and the operations, and the cursor;
  what it returns is the head of the record the contract has, for live and for ended runs, and
  \<^verbatim>\<open>ListNonterminal\<close> answers the heads of the live records.
\<close>

section \<open>The rows of a head\<close>

definition head_base :: "stored_run \<Rightarrow> row_key set \<Rightarrow> run_record" where
  "head_base A seen = (st_meta A)\<lparr>r_cancel := (if CancelK \<in> seen then st_cancel A else None),
     r_failure := (if FailureK \<in> seen then st_failure A else None)\<rparr>"

lemma head_base_insert:
  "head_base A (insert CancelK S) = (head_base A S)\<lparr>r_cancel := st_cancel A\<rparr>"
  "head_base A (insert FailureK S) = (head_base A S)\<lparr>r_failure := st_failure A\<rparr>"
  by (simp_all add: head_base_def split del: if_split)

lemma head_keys_first: "rk = CancelK \<or> rk = FailureK \<Longrightarrow> rk' \<notin> {MetaK, CancelK, FailureK} \<Longrightarrow> key_of i rk < key_of i rk'"
  by (cases rk') (auto simp: key_of_def append_less tagCancel_def tagFailure_def tagInput_def tagOp_def less_char_def)

lemma head_rows_read:
  assumes rd: "reading E v i A bv w" and all: "walk_of (run_part i w) (pre @ rows)" and meta: "key_of i MetaK \<in> fst ` set pre"
  shows "head_rows E i rows (head_base A (keys_in i pre)) s = (Inr (head_base A {CancelK, FailureK}), s)"
  using all meta
proof (induction rows arbitrary: pre)
  case Nil
  have "rk \<in> keys_in i pre \<longleftrightarrow> w ActiveB (key_of i rk) \<noteq> None" if "key_ok rk" for rk
    using that walk_of_keys [OF Nil(1)] by (auto simp: keys_in_def run_part_def image_iff set_eq_iff)
  then have "CancelK \<notin> keys_in i pre \<Longrightarrow> st_cancel A = None" "FailureK \<notin> keys_in i pre \<Longrightarrow> st_failure A = None"
    using readingD(6) [OF rd, of CancelK] readingD(6) [OF rd, of FailureK] by (auto simp: decodes_def split: option.splits)
  then have "head_base A (keys_in i pre) = head_base A {CancelK, FailureK}" by (simp add: head_base_def)
  then show ?case by (simp add: act_ok_def)
next
  case (Cons row rows)
  obtain rk where rk: "key_ok rk" "row = row_at i w rk" and e: "w ActiveB (key_of i rk) \<noteq> None"
    using row_of_rows [OF rd Cons.prems(1), of row] by auto
  have key: "fst row = key_of i rk" by (simp add: rk row_at_def)
  have sorted: "k < key_of i rk" if "k \<in> fst ` set pre" for k
    using Cons.prems(1) that by (auto simp: walk_of_def sorted_wrt_append key [symmetric])
  have "rk \<noteq> MetaK" using sorted [OF Cons.prems(2)] by auto
  have IH: "head_rows E i rows (head_base A (insert rk (keys_in i pre))) s = (Inr (head_base A {CancelK, FailureK}), s)"
    using Cons.IH [of "pre @ [row]"] Cons.prems keys_in_snoc [OF rk(1), of i pre w] rk(2) by auto
  have tag: "length (key_of i rk) > length (runPrefix i)" "key_of i rk ! length (runPrefix i) = hd (key_rest rk)"
    by (cases rk; simp add: key_of_def nth_append)+
  show ?case
  proof (cases "rk = CancelK \<or> rk = FailureK")
    case True
    then show ?thesis
    proof
      assume c: "rk = CancelK"
      then obtain x b where "w ActiveB (key_of i rk) = Some (BRow b)" "st_cancel A = Some x" "UnmarshalCancel (be_proto E) b = Inr x"
        using readingD(6) [OF rd rk(1)] e by (auto simp: decodes_def split: option.splits)
      then show ?thesis using IH tag by (simp add: rk(2) row_at_def c head_base_insert act_then_def act_pb_def)
    next
      assume c: "rk = FailureK"
      then obtain x b where "w ActiveB (key_of i rk) = Some (BRow b)" "st_failure A = Some x" "UnmarshalFailureRecord (be_proto E) b = Inr x"
        using readingD(6) [OF rd rk(1)] e by (auto simp: decodes_def split: option.splits)
      then show ?thesis using IH tag by (simp add: rk(2) row_at_def c head_base_insert act_then_def act_pb_def)
    qed
  next
    case False
    have before: "w ActiveB (key_of i k) \<noteq> None \<Longrightarrow> k \<in> keys_in i pre" if "k = CancelK \<or> k = FailureK" for k
      using rows_in_order [OF Cons.prems(1), of "key_of i k"] head_keys_first [OF that, of rk i] that False \<open>rk \<noteq> MetaK\<close>
      by (auto simp: key run_part_def keys_in_def)
    then have "CancelK \<notin> keys_in i pre \<Longrightarrow> st_cancel A = None" "FailureK \<notin> keys_in i pre \<Longrightarrow> st_failure A = None"
      using readingD(6) [OF rd, of CancelK] readingD(6) [OF rd, of FailureK] by (auto simp: decodes_def split: option.splits)
    then have "head_base A (keys_in i pre) = head_base A {CancelK, FailureK}" by (simp add: head_base_def)
    moreover have "hd (key_rest rk) \<noteq> tagCancel \<and> hd (key_rest rk) \<noteq> tagFailure"
      using False \<open>rk \<noteq> MetaK\<close> by (cases rk) (simp_all add: tagCancel_def tagFailure_def tagInput_def tagOp_def)
    ultimately show ?thesis using tag by (simp add: rk(2) row_at_def act_ok_def)
  qed
qed

definition head_record :: "stored_run \<Rightarrow> run_record" where
  "head_record A = overlay (st_cursor A) (head_base A {CancelK, FailureK})"

lemma liveHead_reads:
  assumes rd: "reading E v i A bv (v (bs_tx s))"
  shows "liveHead E i s = (Inr (head_record A), s)"
proof -
  note B = readingD(1) [OF rd]
  let ?w = "v (bs_tx s)"
  define rows where "rows = seek_prefix (runPrefix i) (bt_walk (be_db E) (bs_tx s) ActiveB)"
  have walk: "walk_of (run_part i ?w) rows"
    using walk_of_seek [OF bolt_okD(3) [OF B, of "bs_tx s" ActiveB], of "runPrefix i"] by (simp add: rows_def run_part_def [abs_def])
  obtain rest where rest: "rows = row_at i ?w MetaK # rest" using meta_row_first [OF rd walk] .
  obtain mb where mb: "?w ActiveB (key_of i MetaK) = Some (BRow mb)" "UnmarshalRunMetaInto (be_proto E) mb zero_record = Inr (st_meta A)"
    using readingD(6) [OF rd, of MetaK] by (auto simp: decodes_def)
  have bare: "bare i (st_meta A)" using readingD(4) [OF rd] by (simp add: renders_def)
  have keys: "keys_in i [row_at i ?w MetaK] = {MetaK}" using keys_in_snoc [of MetaK i "[]" ?w] by (simp add: keys_in_def)
  have start: "head_base A {MetaK} = st_meta A" using bareD(3,4) [OF bare] by (simp add: head_base_def)
  have heads: "head_rows E i rest (st_meta A) s = (Inr (head_base A {CancelK, FailureK}), s)"
    using head_rows_read [OF rd, of "[row_at i ?w MetaK]" rest s] walk rest keys start by (simp add: row_at_def)
  have meta: "meta_row E i rows s = (Inr (st_meta A), s)"
    using mb by (simp add: meta_row_def rest row_at_def key_of_def nth_append act_pb_def)
  obtain cb where cb: "?w CursorB i = Some (BRow cb)" "UnmarshalCursor (be_proto E) cb = Inr (st_cursor A)"
    using readingD(4) [OF rd] by (auto simp: renders_def decodes_def)
  have r: "r_run (head_base A {CancelK, FailureK}) = i" using bareD(1) [OF bare] by (simp add: head_base_def)
  have over: "overlayCursor E (head_base A {CancelK, FailureK}) s = (Inr (head_record A), s)"
    using cb bolt_okD(1) [OF B, of "bs_tx s" CursorB i]
    by (simp add: overlayCursor_def r act_get_def act_read_def act_then_def act_pb_def act_ok_def head_record_def)
  have run: "run_rows E i s = (Inr rows, s)"
    by (simp add: run_rows_def act_walk_def act_read_def act_then_def act_ok_def rows_def)
  have "tl rows = rest" by (simp add: rest)
  then show ?thesis using run meta heads over by (simp add: liveHead_def act_then_def)
qed

section \<open>Heads of records\<close>

text \<open>The head of a record, up to the order of what storage reorders.\<close>

definition heads :: "run_record \<Rightarrow> run_record \<Rightarrow> bool" where
  "heads r h \<longleftrightarrow> (\<exists>h0. head_of r h0 \<and> reads_back h0 h)"

lemma head_record_heads:
  assumes A: "bare i (st_meta A)" "stores A r" "two_phase (cu_phase (st_cursor A))" and r: "\<not> terminal r"
  shows "heads r (head_record A)"
proof -
  let ?c = "st_cursor A" and ?h = "head_record A"
  let ?b = "head_base A {CancelK, FailureK}"
  define h0 where "h0 = r\<lparr>r_input := None, r_output := None, r_steps := r_steps ?h\<rparr>"
  have eq: "set_cursor ?c ((stored_base A)\<lparr>r_annotations := []\<rparr>) = rec_fields r" using A(2) by (simp add: stores_def)
  have phase: "r_phase r = cu_phase ?c" using arg_cong [OF eq, of r_phase] by (simp add: set_cursor_def rec_fields_def)
  have b: "r_steps ?b = []" "r_input ?b = None" "r_output ?b = None" using bareD [OF A(1)] by (simp_all add: head_base_def)
  have h: "?h = apply_cursor ?c ?b" by (simp add: head_record_def overlay_cursor)
  have steps: "r_steps ?h = (if cu_step ?c = [] then []
      else [(cu_step ?c, sr_put (cu_phase ?c) (zero_op\<lparr>or_status := OpUnresolved, or_attempts := cu_attempts ?c\<rparr>) zero_step)])"
    using b(1) by (simp add: h apply_cursor_def Let_def put_op_def rec_op_def rec_step_def sr_op_def zero_step_def)
  have "head_of r h0"
  proof (cases "cu_step ?c = []")
    case True
    then show ?thesis using r by (simp add: head_of_def h0_def steps)
  next
    case False
    have "nil_op (rec_op r (cu_step ?c) (cu_phase ?c)) = nil_op (over ?c (stored_op A) (cu_step ?c) (cu_phase ?c))"
      using A(2,3) by (simp add: stores_def)
    then have "nil_op (rec_op r (cu_step ?c) (cu_phase ?c)) = nil_op ((stored_op A (cu_step ?c) (cu_phase ?c))\<lparr>or_status := OpUnresolved, or_attempts := cu_attempts ?c\<rparr>)"
      using False by (simp add: over_def in_cursor_def)
    from arg_cong [OF this, of or_status] arg_cong [OF this, of or_attempts]
    have op: "or_status (rec_op r (cu_step ?c) (cu_phase ?c)) = OpUnresolved" "or_attempts (rec_op r (cu_step ?c) (cu_phase ?c)) = cu_attempts ?c"
      by (simp_all add: nil_op_upd)
    have "gm_has (r_steps r) (cu_step ?c)"
    proof (rule ccontr)
      assume "\<not> gm_has (r_steps r) (cu_step ?c)"
      then have "rec_op r (cu_step ?c) (cu_phase ?c) = sr_op (cu_phase ?c) zero_step" by (simp add: rec_op_def rec_step_def)
      then show False using op(1) by (simp add: sr_op_def zero_step_def zero_op_def split: if_splits)
    qed
    then show ?thesis using r op False by (auto simp: head_of_def h0_def steps phase)
  qed
  moreover have "reads_back h0 ?h"
  proof -
    have "rec_fields h0 = (rec_fields r)\<lparr>r_input := None, r_output := None\<rparr>" by (simp add: h0_def rec_fields_def nil_bytes_def)
    also have "\<dots> = rec_fields ?h"
      unfolding eq [symmetric] h fields_cursor using b(1-3) bareD [OF A(1)]
      by (simp add: set_cursor_def stored_base_def rec_fields_def head_base_def nil_bytes_def)
    finally have "rec_fields ?h = rec_fields h0" by simp
    moreover have "r_annotations ?h = r_annotations (st_meta A)" by (simp add: h apply_cursor_def Let_def put_op_def head_base_def)
    then have "mset (r_annotations ?h) = mset (r_annotations h0)" using A(2) by (simp add: stores_def h0_def)
    moreover have "rec_op h0 = rec_op ?h" by (simp add: h0_def fun_eq_iff rec_op_def rec_step_def)
    ultimately show ?thesis by (simp add: reads_back_def)
  qed
  ultimately show ?thesis by (auto simp: heads_def)
qed

definition answers_head :: "contents \<Rightarrow> run_id \<Rightarrow> run_record result \<Rightarrow> bool" where
  "answers_head M i a \<longleftrightarrow> (case M i of None \<Rightarrow> a = Inl ErrRunNotFound | Some (r, c) \<Rightarrow> \<exists>h. a = Inr h \<and> heads r h)"

lemma ended_heads:
  assumes "reads_back r (rec\<lparr>r_output := r_output r\<rparr>)" "terminal r" "r_input r = None"
  shows "heads r (rec\<lparr>r_output := None\<rparr>)"
proof -
  have h: "head_of r (r\<lparr>r_output := None\<rparr>)" using assms(2,3) by (cases r) (simp add: head_of_def terminal_def)
  have "rec_op (x\<lparr>r_output := y\<rparr>) = rec_op x" for x y by (simp add: fun_eq_iff rec_op_def rec_step_def)
  moreover have "rec_fields (x\<lparr>r_output := None\<rparr>) = (rec_fields (x\<lparr>r_output := y\<rparr>))\<lparr>r_output := None\<rparr>" for x y
    by (simp add: rec_fields_def nil_bytes_def)
  then have "rec_fields (rec\<lparr>r_output := None\<rparr>) = (rec_fields (rec\<lparr>r_output := r_output r\<rparr>))\<lparr>r_output := None\<rparr>"
    "rec_fields (r\<lparr>r_output := None\<rparr>) = (rec_fields r)\<lparr>r_output := None\<rparr>" by (metis, simp add: rec_fields_def nil_bytes_def)
  ultimately have "reads_back (r\<lparr>r_output := None\<rparr>) (rec\<lparr>r_output := None\<rparr>)" using assms(1) by (simp add: reads_back_def)
  with h show ?thesis by (auto simp: heads_def)
qed

lemma getHead_stored:
  assumes B: "bolt_ok (be_db E) v" and max: "0 \<le> be_row_max E" and nf: "nul_free i" and M: "stored_all E (v (bs_tx s)) M"
  shows "\<exists>a. getHead E i s = (a, s) \<and> answers_head M i a"
proof -
  have st: "run_stored E (v (bs_tx s)) i (M i)" using stored_allD [OF M nf] .
  note cases = getRun_cases(2) [OF B, of i s]
  consider (none) "M i = None" | (live) r c where "M i = Some (r, c)" "\<not> terminal r" | (ended) r c where "M i = Some (r, c)" "terminal r"
    by (cases "M i") auto
  then show ?thesis
  proof cases
    case none
    then have w: "blank i (v (bs_tx s))" "v (bs_tx s) TerminalB i = None" using st by (simp_all add: run_stored_def)
    have "walk_of (run_part i (v (bs_tx s))) (seek_prefix (runPrefix i) (bt_walk (be_db E) (bs_tx s) ActiveB))"
      using walk_of_seek [OF bolt_okD(3) [OF B, of "bs_tx s" ActiveB]] by (simp add: run_part_def [abs_def])
    from walk_of_keys [OF this] have "seek_prefix (runPrefix i) (bt_walk (be_db E) (bs_tx s) ActiveB) = []"
      using w(1) by (auto simp: run_part_def blank_def split: if_splits)
    then have "run_rows E i s = (Inr [], s)" by (simp add: run_rows_def act_walk_def act_read_def act_then_def act_ok_def)
    then show ?thesis using cases w(2) none by (simp add: liveHead_def act_then_def meta_row_def act_fail_def answers_head_def)
  next
    case live
    then obtain A where A: "renders E i A (v (bs_tx s))" "stores A r" "st_cursor A = c" "cursor_ok c" "v (bs_tx s) TerminalB i = None"
      using st by (auto simp: run_stored_def)
    have "reading E v i A (live_view M) (v (bs_tx s))" using B nf max A live_blobs [of E i A _ r M c, OF A(1,2) live] by (simp add: reading_def)
    then have "liveHead E i s = (Inr (head_record A), s)" by (rule liveHead_reads)
    moreover have "bare i (st_meta A)" using A(1) by (simp add: renders_def)
    then have "heads r (head_record A)" using A(3,4) by (intro head_record_heads [OF _ A(2) _ live(2)]) (simp_all add: cursor_ok_def)
    ultimately show ?thesis using cases A(5) live(1) by (simp add: answers_head_def)
  next
    case ended
    then obtain b rec bs where "v (bs_tx s) TerminalB i = Some (BRow b)" "UnmarshalTerminalInto (be_proto E) b zero_record = Inr (rec, bs)"
      "reads_back r (rec\<lparr>r_output := r_output r\<rparr>)" "r_input r = None"
      using st by (auto simp: run_stored_def ended_as_def)
    then show ?thesis using cases ended ended_heads [of r rec] by (simp add: act_then_def act_pb_def act_ok_def answers_head_def)
  qed
qed

text \<open>The list of the live heads.\<close>

definition answers_list :: "contents \<Rightarrow> run_record list result \<Rightarrow> bool" where
  "answers_list M a \<longleftrightarrow> (\<exists>hs. a = Inr hs \<and> distinct (map r_run hs) \<and>
     (\<forall>h\<in>set hs. \<exists>r c. M (r_run h) = Some (r, c) \<and> \<not> terminal r \<and> heads r h) \<and> (\<forall>i r c. M i = Some (r, c) \<and> \<not> terminal r \<longrightarrow> i \<in> r_run ` set hs))"

lemma list_stored:
  assumes B: "bolt_ok (be_db E) v" and max: "0 \<le> be_row_max E" and g: "bolt_inv (be_proto E) (v (bs_tx s))" and M: "stored_all E (v (bs_tx s)) M"
  shows "answers_list M (fst (bolt_ListNonterminal E s))"
proof -
  have slots: "slots_ok (be_proto E) (v (bs_tx s))" using g by (simp add: bolt_inv_def)
  obtain rows where rows: "walk_of (v (bs_tx s) SlotsB) rows" "fst (bolt_ListNonterminal E s) = fst (list_slots E rows [] s)" using list_unfold [OF B] by blast
  have live: "(\<exists>m. live (be_proto E) (v (bs_tx s)) i m) \<longleftrightarrow> (\<exists>r c. M i = Some (r, c) \<and> \<not> terminal r)" for i
  proof
    assume "\<exists>m. live (be_proto E) (v (bs_tx s)) i m"
    then have i: "nul_free i" "\<not> ended (v (bs_tx s)) i" "has_meta (v (bs_tx s)) i" using live_meta by (auto simp: live_def)
    then have "M i \<noteq> None" using stored_meta [OF M i(1,2)] by blast
    then show "\<exists>r c. M i = Some (r, c) \<and> \<not> terminal r" using stored_ended [OF M i(1)] i(2) by auto
  qed (use stored_live [OF M g] in blast)
  have one: "\<exists>h. fst (getHead E (the_bytes x) s) = Inr h" if "(k, x) \<in> set rows" for k x
  proof -
    have "v (bs_tx s) SlotsB k \<noteq> None" "x = row_of (v (bs_tx s) SlotsB k)" using rows(1) that by (auto simp: walk_of_def)
    then obtain i m where i: "x = Some i" "live (be_proto E) (v (bs_tx s)) i m" using slot_holder [OF slots] by metis
    then have "nul_free i" "\<exists>r c. M i = Some (r, c)" using live [of i] by (auto simp: live_def)
    then show ?thesis using getHead_stored [OF B max _ M, of i] i(1) by (fastforce simp: answers_head_def)
  qed
  define hs where "hs = map (\<lambda>(k, x). case fst (getHead E (the_bytes x) s) of Inr h \<Rightarrow> h) rows"
  have all2: "list_all2 (\<lambda>(k, x) h. fst (getHead E (the_bytes x) s) = Inr h) rows hs"
    using one by (auto simp: hs_def list_all2_conv_all_nth split: prod.split dest!: nth_mem) fastforce
  then have hs: "fst (bolt_ListNonterminal E s) = Inr hs" using list_slots_Inr [of E rows "[]" s hs] rows(2) by auto
  obtain rows' where rows': "walk_of (v (bs_tx s) SlotsB) rows'" "list_all2 (lists (be_proto E) (v (bs_tx s))) rows' hs"
    using list_lists [OF B g hs] by blast
  have ids: "r_run ` set hs = {i. \<exists>r c. M i = Some (r, c) \<and> \<not> terminal r}" using list_runs [OF slots rows'] live by auto
  have "\<exists>r c. M (r_run h) = Some (r, c) \<and> \<not> terminal r \<and> heads r h" if h: "h \<in> set hs" for h
  proof -
    obtain k x where kx: "(k, x) \<in> set rows" "fst (getHead E (the_bytes x) s) = Inr h"
      using h one by (fastforce simp: hs_def)
    have "v (bs_tx s) SlotsB k \<noteq> None" "x = row_of (v (bs_tx s) SlotsB k)" using rows(1) kx(1) by (auto simp: walk_of_def)
    then obtain i m where i: "x = Some i" "live (be_proto E) (v (bs_tx s)) i m" using slot_holder [OF slots] by metis
    have head: "getHead E i s = (Inr h, s)" using kx(2) i(1) getHead_state [of E i s] by simp
    have "r_run h = i" by (rule head_identity(1) [OF B g i(2) head])
    moreover obtain r c where r: "M i = Some (r, c)" "\<not> terminal r" using live [of i] i(2) by blast
    moreover have "nul_free i" using i(2) by (simp add: live_def)
    then have "heads r h" using getHead_stored [OF B max _ M, of i] head r by (auto simp: answers_head_def)
    ultimately show ?thesis by blast
  qed
  then show ?thesis using hs ids list_ids [OF rows'] by (auto simp: answers_list_def)
qed

text \<open>The run that holds a slot.\<close>

definition answers_active :: "contents \<Rightarrow> pipeline_id \<Rightarrow> resource_id \<Rightarrow> run_id option result \<Rightarrow> bool" where
  "answers_active M p rid a \<longleftrightarrow> (case a of Inl e \<Rightarrow> False
     | Inr (Some i) \<Rightarrow> \<exists>r c. M i = Some (r, c) \<and> \<not> terminal r \<and> r_pipeline r = p \<and> r_resource r = rid
     | Inr None \<Rightarrow> \<forall>i r c. M i = Some (r, c) \<and> \<not> terminal r \<longrightarrow> \<not> (r_pipeline r = p \<and> r_resource r = rid))"

lemma active_stored:
  assumes B: "bolt_ok (be_db E) v" and g: "bolt_inv (be_proto E) (v (bs_tx s))" and M: "stored_all E (v (bs_tx s)) M" and p: "nul_free p"
  shows "answers_active M p rid (fst (bolt_GetActiveRunID E p rid s))"
proof -
  have a: "fst (bolt_GetActiveRunID E p rid s) = Inr (row_of (v (bs_tx s) SlotsB (slotKeyFor p rid)))"
    by (simp add: bolt_GetActiveRunID_def view_fst act_get_def act_read_def bolt_okD(1) [OF B])
  show ?thesis
  proof (cases "row_of (v (bs_tx s) SlotsB (slotKeyFor p rid))")
    case None
    have "\<not> (r_pipeline r = p \<and> r_resource r = rid)" if "M i = Some (r, c)" "\<not> terminal r" for i r c
      using stored_live [OF M g that] None by auto
    then show ?thesis using a None by (auto simp: answers_active_def)
  next
    case (Some i)
    then show ?thesis using a stored_slot [OF M g Some p] by (simp add: answers_active_def)
  qed
qed

end
