(* ===== verification/Bolt_Contract.thy ===== *)
theory Bolt_Contract
  imports Bolt_Trace Bolt_Head Bolt_Example
begin

text \<open>
  The bbolt store refines the contract of a store. A history of the store is the list of its calls with
  their answers, with drains, rolled-back transactions and restarts in between; the contract is a
  relation on the contents, one record per run. Every history of the bbolt store is one the contract
  allows: each read answers the record that the accepted writes before it make, whatever was cached,
  staged, drained, kept beside its row or lost to a restart.
\<close>

section \<open>Calls and answers\<close>

datatype bolt_request = CallCreate run_record | CallGet run_id | CallHead run_id | CallApply run_id transition
  | CallCancel run_id cancel_request | CallReap gotime int | CallList | CallActive pipeline_id resource_id

datatype bolt_answer = AnsCreate "(run_record option \<times> bool) result" | AnsRecord "run_record result" | AnsApply "unit result"
  | AnsCancel "bool result" | AnsReap "int result" | AnsList "run_record list result" | AnsActive "run_id option result"

type_synonym history = "(bolt_request \<times> bolt_answer) list"

fun bolt_call :: "('t, 'tx) bolt_env \<Rightarrow> (pipeline_id \<Rightarrow> pipeline_id list) \<Rightarrow> bolt_request \<Rightarrow> 'tx bolt_store \<Rightarrow> bolt_answer \<times> 'tx bolt_store" where
  "bolt_call E excl (CallCreate rec) s = apfst AnsCreate (bolt_CreateRun E rec (excl (r_pipeline rec)) s)"
| "bolt_call E excl (CallGet i) s = apfst AnsRecord (bolt_GetRun E i s)"
| "bolt_call E excl (CallHead i) s = apfst AnsRecord (bolt_GetRunHead E i s)"
| "bolt_call E excl (CallApply i t) s = apfst AnsApply (bolt_ApplyTransition E i t s)"
| "bolt_call E excl (CallCancel i req) s = apfst AnsCancel (bolt_RequestCancel E i req s)"
| "bolt_call E excl (CallReap before limit) s = apfst AnsReap (bolt_ReapTerminal E before limit s)"
| "bolt_call E excl CallList s = apfst AnsList (bolt_ListNonterminal E s)"
| "bolt_call E excl (CallActive p rid) s = apfst AnsActive (bolt_GetActiveRunID E p rid s)"

text \<open>What goes on between the calls.\<close>

inductive bolt_silent :: "('t, 'tx) bolt_env \<Rightarrow> (pipeline_id \<Rightarrow> pipeline_id list) \<Rightarrow> 'tx bolt_store \<Rightarrow> 'tx bolt_store \<Rightarrow> bool" for E excl where
  drain: "Drain fuel E s = Some (res_drain, s') \<Longrightarrow> bolt_silent E excl s s'"
| batch: "bolt_update E (drainStaged E n) s = (res_drain, s') \<Longrightarrow> bolt_silent E excl s s'"
| recount: "bolt_silent E excl s (s\<lparr>bs_staged := n\<rparr>)"
| rolled_back_create: "create_tx E rec (excl (r_pipeline rec)) s = (res_create, s') \<Longrightarrow> bolt_silent E excl s (s'\<lparr>bs_tx := bs_tx s\<rparr>)"
| rolled_back_apply: "nul_free i \<Longrightarrow> apply_tx E i t s = (res_apply, s') \<Longrightarrow> bolt_silent E excl s (s'\<lparr>bs_tx := bs_tx s\<rparr>)"
| restart: "bolt_silent E excl s (opened opts (bs_tx s))"

section \<open>The contract\<close>

definition refused :: "contents \<Rightarrow> run_id \<Rightarrow> kernel_error \<Rightarrow> bool" where
  "refused M i e \<longleftrightarrow> (\<exists>x. e = ErrStore x) \<or> e = ErrRunNotFound \<and> M i = None \<or> e = ErrRunTerminal \<and> (\<exists>r c. M i = Some (r, c) \<and> terminal r)"

text \<open>One call: the contents before, the call, its answer, the contents after.\<close>

definition contract :: "(pipeline_id \<Rightarrow> pipeline_id list) \<Rightarrow> contents \<Rightarrow> bolt_request \<Rightarrow> bolt_answer \<Rightarrow> contents \<Rightarrow> bool" where
  "contract excl M call answer M' \<longleftrightarrow> (case (call, answer) of
     (CallCreate rec, AnsCreate a) \<Rightarrow> (case a of
       Inl e \<Rightarrow> (\<exists>x. e = ErrStore x) \<and> M' = M
     | Inr (Some ex, new) \<Rightarrow> \<not> new \<and> M' = M \<and> (\<exists>i r c. M i = Some (r, c) \<and> occupies rec (excl (r_pipeline rec)) r \<and> reads_back r ex)
     | Inr (None, new) \<Rightarrow> new \<and> M' = M(r_run rec \<mapsto> (rec, first_cursor rec)) \<and> \<not> blocked M rec (excl (r_pipeline rec)))
   | (CallGet i, AnsRecord a) \<Rightarrow> M' = M \<and> answers_get M i a
   | (CallHead i, AnsRecord a) \<Rightarrow> M' = M \<and> answers_head M i a
   | (CallApply i t, AnsApply a) \<Rightarrow> (case a of
       Inl e \<Rightarrow> refused M i e \<and> M' = M
     | Inr _ \<Rightarrow> \<exists>r c. M i = Some (r, c) \<and> \<not> terminal r \<and> M' = M(i \<mapsto> (apply_transition t r, t_cursor t)))
   | (CallCancel i req, AnsCancel a) \<Rightarrow> (case a of
       Inl e \<Rightarrow> refused M i e \<and> M' = M
     | Inr new \<Rightarrow> \<exists>r c. M i = Some (r, c) \<and> \<not> terminal r \<and> new = (r_cancel r = None) \<and>
         M' = (if new then M(i \<mapsto> (r\<lparr>r_cancel := Some req\<rparr>, c)) else M))
   | (CallReap before limit, AnsReap a) \<Rightarrow> (case a of
       Inl e \<Rightarrow> (\<exists>x. e = ErrStore x) \<and> M' = M
     | Inr n \<Rightarrow> \<exists>D. finite D \<and> D \<subseteq> expired M before \<and> n = int (card D) \<and> n \<le> max 0 limit \<and> (n < limit \<longrightarrow> D = expired M before) \<and> M' = without D M)
   | (CallList, AnsList a) \<Rightarrow> M' = M \<and> answers_list M a
   | (CallActive p rid, AnsActive a) \<Rightarrow> M' = M \<and> answers_active M p rid a
   | _ \<Rightarrow> False)"

inductive contract_history :: "(pipeline_id \<Rightarrow> pipeline_id list) \<Rightarrow> history \<Rightarrow> contents \<Rightarrow> bool" for excl where
  start: "contract_history excl [] (\<lambda>_. None)"
| call: "contract_history excl tr M \<Longrightarrow> contract excl M c a M' \<Longrightarrow> contract_history excl (tr @ [(c, a)]) M'"

section \<open>The client\<close>

text \<open>
  What is asked of the calls: fresh ids, NUL-free names, records as the engine creates them, commit times the index
  can tell apart; and a transition writes the operation it takes out of flight, so the client's last
  accepted cursor of a run counts.
\<close>

definition used_by :: "history \<Rightarrow> run_id set" where
  "used_by tr = {r_run rec |rec a. (CallCreate rec, a) \<in> set tr}"

fun note_cursor :: "bolt_request \<times> bolt_answer \<Rightarrow> (run_id \<rightharpoonup> cursor) \<Rightarrow> (run_id \<rightharpoonup> cursor)" where
  "note_cursor (CallCreate rec, AnsCreate (Inr (None, new))) L = L(r_run rec \<mapsto> first_cursor rec)"
| "note_cursor (CallApply i t, AnsApply (Inr u)) L = L(i \<mapsto> t_cursor t)"
| "note_cursor _ L = L"

definition last_cursors :: "history \<Rightarrow> run_id \<rightharpoonup> cursor" where
  "last_cursors tr = fold note_cursor tr (\<lambda>_. None)"

fun proper :: "history \<Rightarrow> bolt_request \<Rightarrow> bool" where
  "proper tr (CallCreate rec) \<longleftrightarrow> creatable rec \<and> r_run rec \<notin> used_by tr"
| "proper tr (CallApply i t) \<longleftrightarrow> nul_free i \<and> ops_ok (t_ops t) \<and>
     (if t_outcome t = None then cursor_ok (t_cursor t) \<and> (\<forall>c. last_cursors tr i = Some c \<longrightarrow> flushes c t)
      else cu_step (t_cursor t) = [] \<and> indexed_time (cu_updated_at (t_cursor t)))"
| "proper tr (CallGet i) \<longleftrightarrow> nul_free i"
| "proper tr (CallHead i) \<longleftrightarrow> nul_free i"
| "proper tr (CallCancel i req) \<longleftrightarrow> nul_free i"
| "proper tr (CallReap before limit) \<longleftrightarrow> indexed_time before"
| "proper tr CallList \<longleftrightarrow> True"
| "proper tr (CallActive p rid) \<longleftrightarrow> nul_free p"

inductive bolt_runs :: "('t, 'tx) bolt_env \<Rightarrow> (pipeline_id \<Rightarrow> pipeline_id list) \<Rightarrow> 'tx bolt_store \<Rightarrow> history \<Rightarrow> 'tx bolt_store \<Rightarrow> bool" for E excl s0 where
  start: "bolt_runs E excl s0 [] s0"
| call: "bolt_runs E excl s0 tr s \<Longrightarrow> proper tr c \<Longrightarrow> bolt_call E excl c s = (a, s') \<Longrightarrow> bolt_runs E excl s0 (tr @ [(c, a)]) s'"
| silent: "bolt_runs E excl s0 tr s \<Longrightarrow> bolt_silent E excl s s' \<Longrightarrow> bolt_runs E excl s0 tr s'"

section \<open>Calls against the contract\<close>

lemma update_result:
  assumes "bolt_update E f s = (r, s')"
  shows "(\<exists>e s1 b. r = Inl e \<and> s' = s1\<lparr>bs_tx := bs_tx s\<rparr> \<and> f s = (b, s1) \<and> (b = Inl e \<or> (\<exists>a x. b = Inr a \<and> e = ErrStore x)))
    \<or> (\<exists>a. r = Inr a \<and> f s = (Inr a, s'))"
  using assms by (auto simp: bolt_update_def bolt_error_def split: prod.splits sum.splits option.splits)

lemma caches_same: "live_view M' = live_view M \<Longrightarrow> ended_view M' = ended_view M \<Longrightarrow> caches_ok M' s = caches_ok M s"
  by (simp add: caches_ok_def)

lemma views_cancel:
  assumes "M i = Some (r, c)"
  shows "live_view (M(i \<mapsto> (r\<lparr>r_cancel := q\<rparr>, c))) = live_view M" "ended_view (M(i \<mapsto> (r\<lparr>r_cancel := q\<rparr>, c))) = ended_view M"
  using assms by (auto simp: live_view_def ended_view_def fun_eq_iff rec_op_def rec_step_def terminal_def)

lemma live_view_at:
  "bv_input (live_view M) i = (case M i of Some (r, c) \<Rightarrow> if terminal r then None else nil_bytes (r_input r) | None \<Rightarrow> None)"
  "bv_state (live_view M) i k = (case M i of Some (r, c) \<Rightarrow> if terminal r then None else nil_bytes (or_state (rec_op r k PhaseForward)) | None \<Rightarrow> None)"
  "bv_output (live_view M) i = None" "bv_input (ended_view M) i = None" "bv_state (ended_view M) i k = None"
  "bv_output (ended_view M) i = (case M i of Some (r, c) \<Rightarrow> if terminal r then r_output r else None | None \<Rightarrow> None)"
  by (simp_all add: live_view_def ended_view_def)

lemma holds_at: "bv_input x i = bv_input y i \<Longrightarrow> bv_state x i = bv_state y i \<Longrightarrow> bv_output x i = bv_output y i \<Longrightarrow> holds_blobs x i rb = holds_blobs y i rb"
  by (simp add: holds_blobs_def)

text \<open>The entries of the other runs, and of a run the view has nothing for, stay good.\<close>

lemma live_other:
  assumes c: "coherent (live_view M) c" and i: "\<And>r cu. M i = Some (r, cu) \<Longrightarrow> terminal r"
  shows "coherent (live_view (M(i := x))) c"
proof (rule coherent_weaken [OF c])
  fix j rb assume h: "holds_blobs (live_view M) j rb"
  show "holds_blobs (live_view (M(i := x))) j rb"
  proof (cases "j = i")
    case True
    have "rb_input rb = None \<and> rb_output rb = None \<and> (\<forall>k. gm_get (rb_states rb) k = None)"
      using h i True by (auto simp: holds_blobs_def live_view_at split: option.splits)
    then show ?thesis by (simp add: holds_blobs_def)
  next
    case False
    then show ?thesis using h holds_at [of "live_view (M(i := x))" j "live_view M" rb] by (simp add: live_view_at fun_eq_iff)
  qed
qed

lemma ended_other:
  assumes c: "coherent (ended_view M) c" and i: "\<And>r cu. M i = Some (r, cu) \<Longrightarrow> \<not> terminal r"
  shows "coherent (ended_view (M(i := x))) c"
proof (rule coherent_weaken [OF c])
  fix j rb assume h: "holds_blobs (ended_view M) j rb"
  show "holds_blobs (ended_view (M(i := x))) j rb"
  proof (cases "j = i")
    case True
    have "rb_input rb = None \<and> rb_output rb = None \<and> (\<forall>k. gm_get (rb_states rb) k = None)"
      using h i True by (auto simp: holds_blobs_def live_view_at split: option.splits)
    then show ?thesis by (simp add: holds_blobs_def)
  next
    case False
    then show ?thesis using h holds_at [of "ended_view (M(i := x))" j "ended_view M" rb] by (simp add: live_view_at fun_eq_iff)
  qed
qed

lemma setState_same:
  assumes "coherent v c" "blen x \<noteq> 0 \<Longrightarrow> bv_state v i k = x"
  shows "coherent v (setState c i k x)"
  using setState_coherent [OF assms(1), of x "bv_state v i k" i k] assms(2) by simp

lemma cache_created_coherent:
  assumes c: "coherent (live_view M) b" and M: "M (r_run rec) = None" and ok: "gm_ok (r_steps rec)" "\<not> terminal rec"
  shows "coherent (live_view (M(r_run rec \<mapsto> (rec, cu)))) (cache_created E rec b)"
proof -
  let ?M = "M(r_run rec \<mapsto> (rec, cu))"
  define V where "V = live_view ?M"
  have state: "blen (or_state (sr_forward sr)) \<noteq> 0 \<Longrightarrow> bv_state V (r_run rec) k = or_state (sr_forward sr)" if "(k, sr) \<in> set (r_steps rec)" for k sr
  proof -
    have "gm_get (r_steps rec) k = Some sr" using that gm_get_mem [OF ok(1)] by auto
    then have "rec_op rec k PhaseForward = sr_forward sr" by (simp add: rec_op_def rec_step_def sr_op_def)
    then show "blen (or_state (sr_forward sr)) \<noteq> 0 \<Longrightarrow> bv_state V (r_run rec) k = or_state (sr_forward sr)"
      using ok(2) by (simp add: V_def live_view_at nil_bytes_same)
  qed
  have "coherent V (setInput b (r_run rec) (r_input rec))"
    unfolding V_def using ok(2) by (intro setInput_coherent live_other [OF c]) (simp_all add: M live_view_at nil_bytes_same)
  moreover have "coherent V (fold (\<lambda>(step, sr) c. if be_row_max E < blen (or_state (sr_forward sr))
       then setState c (r_run rec) step (or_state (sr_forward sr)) else c) m b')" if "set m \<subseteq> set (r_steps rec)" "coherent V b'" for m b'
    using that
  proof (induction m arbitrary: b')
    case (Cons x m)
    obtain k sr where x: "x = (k, sr)" by (cases x)
    have "coherent V (if be_row_max E < blen (or_state (sr_forward sr)) then setState b' (r_run rec) k (or_state (sr_forward sr)) else b')"
      using Cons.prems state [of k sr] by (auto simp: x intro: setState_same)
    then show ?case using Cons.IH Cons.prems(1) by (simp add: x)
  qed simp
  ultimately show ?thesis by (simp add: cache_created_def V_def)
qed

lemma cache_ops_coherent:
  assumes c: "coherent (live_view (M(i \<mapsto> (r, cu)))) b" and nt: "\<not> terminal r" and ok: "ops_ok ows"
  shows "coherent (live_view (M(i \<mapsto> (apply_ops ows r, cu)))) (cache_ops E i ows b)"
  using c nt ok
proof (induction ows arbitrary: r b)
  case (Cons ow ows)
  let ?r = "put_op (ow_step ow) (ow_phase ow) (ow_record ow) r" and ?st = "or_state (ow_record ow)"
  let ?x = "if be_row_max E < blen ?st then ?st else None"
  have p: "two_phase (ow_phase ow)" using Cons.prems(3) by (simp add: ops_ok_def)
  have nt: "\<not> terminal ?r" using Cons.prems(2) by (simp add: terminal_def)
  have "coherent (live_view (M(i \<mapsto> (?r, cu)))) (if ow_phase ow \<noteq> PhaseForward then b else setState b i (ow_step ow) ?x)"
  proof (cases "ow_phase ow = PhaseForward")
    case True
    have x: "blen ?x \<noteq> 0 \<Longrightarrow> nil_bytes ?st = ?x" by (cases "be_row_max E < blen ?st") (simp_all add: nil_bytes_same, simp add: blen_def)
    have v: "(live_view (M(i \<mapsto> (r, cu))))\<lparr>bv_state := (bv_state (live_view (M(i \<mapsto> (r, cu)))))(i := (bv_state (live_view (M(i \<mapsto> (r, cu)))) i)(ow_step ow := nil_bytes ?st))\<rparr>
        = live_view (M(i \<mapsto> (?r, cu)))"
      using True nt Cons.prems(2) by (auto simp: live_view_def fun_eq_iff)
    have "coherent (live_view (M(i \<mapsto> (?r, cu)))) (setState b i (ow_step ow) ?x)"
      using setState_coherent [OF Cons.prems(1) x, of i "ow_step ow"] unfolding v .
    then show ?thesis using True by simp
  next
    case False
    then have u: "ow_phase ow = PhaseUnwind" using p by (simp add: two_phase_def)
    have v: "live_view (M(i \<mapsto> (?r, cu))) = live_view (M(i \<mapsto> (r, cu)))" using nt Cons.prems(2) by (auto simp: live_view_def fun_eq_iff u)
    have b: "(if ow_phase ow \<noteq> PhaseForward then b else setState b i (ow_step ow) ?x) = b" using False by simp
    show ?thesis unfolding v b by (rule Cons.prems(1))
  qed
  from Cons.IH [OF this nt] show ?case using Cons.prems(3) by (auto simp: cache_ops_def ops_ok_def)
qed (simp add: cache_ops_def)

definition env_ok :: "('t, 'tx) bolt_env \<Rightarrow> ('tx \<Rightarrow> db_view) \<Rightarrow> bool" where
  "env_ok E v \<longleftrightarrow> bolt_ok (be_db E) v \<and> proto_lib_ok (be_proto E) \<and> 0 \<le> be_row_max E"

lemma env_okD: "env_ok E v \<Longrightarrow> bolt_ok (be_db E) v" "env_ok E v \<Longrightarrow> proto_lib_ok (be_proto E)" "env_ok E v \<Longrightarrow> 0 \<le> be_row_max E"
  by (simp_all add: env_ok_def)

lemma mirrors_back: "mirrors E v M s \<Longrightarrow> caches_ok M s1 \<Longrightarrow> mirrors E v M (s1\<lparr>bs_tx := bs_tx s\<rparr>)"
  by (simp add: mirrors_def)

lemma create_call:
  assumes E: "env_ok E v" and rec: "creatable rec" "r_run rec \<notin> used" and names: "list_all nul_free (excl (r_pipeline rec))"
    and g: "bolt_good (be_proto E) excl' (v (bs_tx s)) used" and m: "mirrors E v M s" and run: "bolt_CreateRun E rec (excl (r_pipeline rec)) s = (a, s')"
  shows "\<exists>M'. contract excl M (CallCreate rec) (AnsCreate a) M' \<and> mirrors E v M' s'"
proof -
  let ?ps = "excl (r_pipeline rec)"
  obtain u s1 where u: "bolt_update E (create_tx E rec ?ps) s = (u, s1)" by fastforce
  note step = create_step [OF env_okD [OF E] rec names g m]
  from update_result [OF u] show ?thesis
  proof (elim disjE exE conjE)
    fix e s2 b assume e: "u = Inl e" "s1 = s2\<lparr>bs_tx := bs_tx s\<rparr>" "create_tx E rec ?ps s = (b, s2)" and b: "b = Inl e"
    then show ?thesis using step [OF e(3)] run u mirrors_back [OF m] by (auto simp: bolt_CreateRun_def act_then_def contract_def)
  next
    fix e s2 b x y assume e: "u = Inl e" "s1 = s2\<lparr>bs_tx := bs_tx s\<rparr>" "create_tx E rec ?ps s = (b, s2)" and b: "b = Inr x" "e = ErrStore y"
    then show ?thesis using step [OF e(3)] run u mirrors_back [OF m] by (auto simp: bolt_CreateRun_def act_then_def contract_def)
  next
    fix x assume x: "u = Inr x" "create_tx E rec ?ps s = (Inr x, s1)"
    obtain existing new where xe: "x = (existing, new)" by (cases x)
    note st = step [OF x(2), unfolded xe]
    show ?thesis
    proof (cases existing)
      case (Some ex)
      then show ?thesis using st run u x xe by (auto simp: bolt_CreateRun_def act_then_def contract_def mirrors_def) blast
    next
      case None
      then have new: "new" "\<not> blocked M rec ?ps" "stored_all E (v (bs_tx s1)) (M(r_run rec \<mapsto> (rec, first_cursor rec)))" "caches_ok M s1" using st by auto
      have s': "s' = s1\<lparr>bs_blobs := cache_created E rec (bs_blobs s1)\<rparr>" "a = Inr (None, True)"
        using run u x xe None new(1) by (auto simp: bolt_CreateRun_def act_then_def)
      have rk: "gm_ok (r_steps rec)" "\<not> terminal rec" "nul_free (r_run rec)" using rec(1) by (auto simp: creatable_def storable_def)
      have "\<not> has_meta (v (bs_tx s)) (r_run rec)" "\<not> ended (v (bs_tx s)) (r_run rec)" using g rec(2) rk(3) by (auto simp: bolt_good_def known_def)
      then have fresh: "M (r_run rec) = None" using stored_meta [of E "v (bs_tx s)" M] m rk(3) unfolding mirrors_def by blast
      have "coherent (live_view (M(r_run rec \<mapsto> (rec, first_cursor rec)))) (cache_created E rec (bs_blobs s1))"
        using new(4) by (intro cache_created_coherent [of M _ rec, OF _ fresh rk(1,2)]) (simp add: caches_ok_def)
      moreover have "coherent (ended_view (M(r_run rec \<mapsto> (rec, first_cursor rec)))) (bs_outputs s1)"
        using new(4) fresh by (intro ended_other) (simp_all add: caches_ok_def)
      ultimately have "mirrors E v (M(r_run rec \<mapsto> (rec, first_cursor rec))) s'" using new(3) by (simp add: mirrors_def caches_ok_def s')
      then show ?thesis using new(2) by (auto simp: contract_def s')
    qed
  qed
qed

lemma apply_call:
  assumes E: "env_ok E v" and t: "proper tr (CallApply i t)" and last: "\<forall>r c. M i = Some (r, c) \<longrightarrow> last_cursors tr i = Some c"
    and g: "bolt_good (be_proto E) excl' (v (bs_tx s)) used" and m: "mirrors E v M s" and run: "bolt_ApplyTransition E i t s = (a, s')"
  shows "\<exists>M'. contract excl M (CallApply i t) (AnsApply a) M' \<and> mirrors E v M' s'"
proof -
  obtain u s1 where u: "bolt_update E (apply_tx E i t) s = (u, s1)" by fastforce
  have pt: "nul_free i" "ops_ok (t_ops t)" "t_outcome t = None \<longrightarrow> cursor_ok (t_cursor t)" "t_outcome t \<noteq> None \<longrightarrow> cu_step (t_cursor t) = []"
    "\<forall>r c. M i = Some (r, c) \<longrightarrow> t_outcome t = None \<longrightarrow> flushes c t" using t last by (auto split: if_splits)
  note step = apply_step [OF env_okD [OF E] pt g m]
  from update_result [OF u] show ?thesis
  proof (elim disjE exE conjE)
    fix e s2 b assume e: "u = Inl e" "s1 = s2\<lparr>bs_tx := bs_tx s\<rparr>" "apply_tx E i t s = (b, s2)" and b: "b = Inl e"
    then show ?thesis using step [OF e(3)] run u mirrors_back [OF m] by (auto simp: bolt_ApplyTransition_def act_then_def contract_def refused_def)
  next
    fix e s2 b x y assume e: "u = Inl e" "s1 = s2\<lparr>bs_tx := bs_tx s\<rparr>" "apply_tx E i t s = (b, s2)" and b: "b = Inr x" "e = ErrStore y"
    then show ?thesis using step [OF e(3)] run u mirrors_back [OF m] by (auto simp: bolt_ApplyTransition_def act_then_def contract_def refused_def)
  next
    fix x assume x: "u = Inr x" "apply_tx E i t s = (Inr x, s1)"
    obtain r c where r: "M i = Some (r, c)" "\<not> terminal r" and st: "stored_all E (v (bs_tx s1)) (M(i \<mapsto> (apply_transition t r, t_cursor t)))"
      and c: "caches_ok M s1" using step [OF x(2)] by auto
    let ?r = "apply_transition t r" let ?M = "M(i \<mapsto> (?r, t_cursor t))"
    have coh: "coherent (live_view M) (bs_blobs s1)" "coherent (ended_view M) (bs_outputs s1)" using c by (simp_all add: caches_ok_def)
    have "caches_ok ?M s' \<and> bs_tx s' = bs_tx s1 \<and> a = Inr ()"
    proof (cases "t_outcome t")
      case None
      have s': "s' = s1\<lparr>bs_blobs := cache_ops E i (t_ops t) (bs_blobs s1)\<rparr>" "a = Inr ()"
        using run u x None by (auto simp: bolt_ApplyTransition_def act_then_def)
      have nt: "\<not> terminal ?r" using apply_transition_terminal [OF r(2)] None by simp
      have "M = M(i \<mapsto> (r, c))" using r(1) by auto
      then have "coherent (live_view (M(i \<mapsto> (apply_ops (t_ops t) r, c)))) (cache_ops E i (t_ops t) (bs_blobs s1))"
        using cache_ops_coherent [of M i r c, OF _ r(2) pt(2)] coh(1) by simp
      moreover have "live_view (M(i \<mapsto> (apply_ops (t_ops t) r, c))) = live_view ?M"
      proof -
        have in': "r_input ?r = r_input r" using None by (simp add: apply_transition_def apply_outcome_def)
        have "rec_op ?r k PhaseForward = over (t_cursor t) (rec_op (apply_ops (t_ops t) r)) k PhaseForward" for k
          using apply_cursor_op [of "t_cursor t" PhaseForward "apply_ops (t_ops t) r" k] pt(3) None
          by (simp add: apply_transition_def apply_outcome_def cursor_ok_def two_phase_def rec_op_def rec_step_def)
        then have "or_state (rec_op ?r k PhaseForward) = or_state (rec_op (apply_ops (t_ops t) r) k PhaseForward)" for k by (simp add: over_def)
        moreover have "\<not> terminal (apply_ops (t_ops t) r)" using r(2) by (simp add: terminal_def)
        ultimately show ?thesis using nt in' by (auto simp: live_view_def fun_eq_iff)
      qed
      moreover have "ended_view ?M = ended_view M" using r nt by (auto simp: ended_view_def fun_eq_iff)
      ultimately show ?thesis using coh(2) s' by (simp add: caches_ok_def)
    next
      case (Some oc)
      have s': "s' = s1\<lparr>bs_staged := bs_staged s1 + 1, bs_blobs := bc_drop (bs_blobs s1) i,
          bs_outputs := (if be_row_max E < blen (t_output t) then setOutput (bs_outputs s1) i (t_output t) else bs_outputs s1)\<rparr>" "a = Inr ()"
        using run u x Some by (auto simp: bolt_ApplyTransition_def act_then_def)
      have tm: "terminal ?r" using Some apply_transition_terminal [OF r(2)] by simp
      have out: "r_output ?r = t_output t" using Some by (simp add: apply_transition_def apply_outcome_def compact_terminal_def)
      have "coherent (live_view ?M) (bc_drop (bs_blobs s1) i)"
      proof (rule bc_drop_coherent [OF coh(1)])
        fix j rb assume "j \<noteq> i" "holds_blobs (live_view M) j rb"
        then show "holds_blobs (live_view ?M) j rb" using holds_at [of "live_view ?M" j "live_view M" rb] by (simp add: live_view_at fun_eq_iff)
      qed
      moreover have o: "coherent (ended_view ?M) (bs_outputs s1)" using r by (intro ended_other [OF coh(2)]) simp
      moreover have "coherent (ended_view ?M) (setOutput (bs_outputs s1) i (t_output t))"
        using tm out by (intro setOutput_coherent [OF o]) (simp add: live_view_at)
      ultimately show ?thesis by (simp add: caches_ok_def s')
    qed
    then have "mirrors E v ?M s'" "a = Inr ()" using st by (simp_all add: mirrors_def)
    then show ?thesis using r by (auto simp: contract_def)
  qed
qed

lemma cancel_call:
  assumes E: "env_ok E v" and nf: "nul_free i" and g: "bolt_good (be_proto E) excl' (v (bs_tx s)) used" and m: "mirrors E v M s"
    and run: "bolt_RequestCancel E i req s = (a, s')"
  shows "\<exists>M'. contract excl M (CallCancel i req) (AnsCancel a) M' \<and> mirrors E v M' s'"
proof -
  have inv: "bolt_inv (be_proto E) (v (bs_tx s))" using g by (simp add: bolt_good_def)
  note step = cancel_step [OF env_okD(1,2) [OF E] nf inv m]
  from update_result [OF run [unfolded bolt_RequestCancel_def]] show ?thesis
  proof (elim disjE exE conjE)
    fix e s2 b assume e: "a = Inl e" "s' = s2\<lparr>bs_tx := bs_tx s\<rparr>" "cancel_tx E i req s = (b, s2)" and b: "b = Inl e"
    then show ?thesis using step [OF e(3)] mirrors_back [OF m] by (auto simp: contract_def refused_def)
  next
    fix e s2 b x y assume e: "a = Inl e" "s' = s2\<lparr>bs_tx := bs_tx s\<rparr>" "cancel_tx E i req s = (b, s2)" and b: "b = Inr x" "e = ErrStore y"
    then show ?thesis using step [OF e(3)] mirrors_back [OF m] by (auto simp: contract_def refused_def)
  next
    fix new assume a: "a = Inr new" "cancel_tx E i req s = (Inr new, s')"
    obtain r c where r: "M i = Some (r, c)" "\<not> terminal r" "new = (r_cancel r = None)"
      "stored_all E (v (bs_tx s')) (if new then M(i \<mapsto> (r\<lparr>r_cancel := Some req\<rparr>, c)) else M)" and c: "caches_ok M s'"
      using step [OF a(2)] by auto
    let ?M = "if new then M(i \<mapsto> (r\<lparr>r_cancel := Some req\<rparr>, c)) else M"
    have "caches_ok ?M s'" using c caches_same [OF views_cancel [of M i r c "Some req"], OF r(1) r(1), of s'] by simp
    then have "mirrors E v ?M s'" using r(4) by (simp add: mirrors_def)
    moreover have "contract excl M (CallCancel i req) (AnsCancel a) ?M" using r(1-3) a(1) by (auto simp: contract_def)
    ultimately show ?thesis by blast
  qed
qed

lemma reap_call:
  assumes E: "env_ok E v" and g: "bolt_good (be_proto E) excl' (v (bs_tx s)) used" and m: "mirrors E v M s"
    and times: "indexed_time before" "\<forall>i r c. M i = Some (r, c) \<longrightarrow> terminal r \<longrightarrow> indexed_time (r_updated_at r)"
    and run: "bolt_ReapTerminal E before limit s = (a, s')"
  shows "\<exists>M'. contract excl M (CallReap before limit) (AnsReap a) M' \<and> mirrors E v M' s'"
proof -
  note step = reap_step [OF env_okD(1) [OF E] g m times]
  from update_result [OF run [unfolded bolt_ReapTerminal_def]] show ?thesis
  proof (elim disjE exE conjE)
    fix e s2 b assume e: "a = Inl e" "s' = s2\<lparr>bs_tx := bs_tx s\<rparr>" "reap_tx E before limit s = (b, s2)" and b: "b = Inl e"
    then show ?thesis using step [OF e(3)] mirrors_back [OF m] by (auto simp: contract_def)
  next
    fix e s2 b n y assume e: "a = Inl e" "s' = s2\<lparr>bs_tx := bs_tx s\<rparr>" "reap_tx E before limit s = (b, s2)" and b: "b = Inr n" "e = ErrStore y"
    then obtain D where D: "D \<subseteq> expired M before" "mirrors E v (without D M) s2" using step [OF e(3)] by auto
    have "caches_ok M s2" by (rule without_caches(2) [of D M]) (use D in \<open>auto simp: mirrors_def expired_def\<close>)
    then show ?thesis using e b mirrors_back [OF m] by (auto simp: contract_def)
  next
    fix n assume a: "a = Inr n" "reap_tx E before limit s = (Inr n, s')"
    then show ?thesis using step [OF a(2)] by (auto simp: contract_def)
  qed
qed

lemma read_calls:
  assumes E: "env_ok E v" and g: "bolt_good (be_proto E) excl' (v (bs_tx s)) used" and m: "mirrors E v M s"
  shows "nul_free i \<Longrightarrow> bolt_GetRun E i s = (a, s') \<Longrightarrow> answers_get M i a \<and> mirrors E v M s'"
    "nul_free i \<Longrightarrow> bolt_GetRunHead E i s = (a, s') \<Longrightarrow> answers_head M i a \<and> mirrors E v M s'"
    "bolt_ListNonterminal E s = (al, s') \<Longrightarrow> answers_list M al \<and> mirrors E v M s'"
    "nul_free p \<Longrightarrow> bolt_GetActiveRunID E p rid s = (aa, s') \<Longrightarrow> answers_active M p rid aa \<and> mirrors E v M s'"
proof -
  note e = env_okD [OF E]
  have M: "stored_all E (v (bs_tx s)) M" "caches_ok M s" and inv: "bolt_inv (be_proto E) (v (bs_tx s))"
    using m g by (simp_all add: mirrors_def bolt_good_def)
  show "answers_get M i a \<and> mirrors E v M s'" if "nul_free i" "bolt_GetRun E i s = (a, s')"
    using getRun_stored [OF e(1,3) that(1) m] that(2) M by (auto simp: bolt_GetRun_def bolt_view_def mirrors_def)
  show "answers_head M i a \<and> mirrors E v M s'" if "nul_free i" "bolt_GetRunHead E i s = (a, s')"
    using getHead_stored [OF e(1,3) that(1) M(1)] that(2) m by (auto simp: bolt_GetRunHead_def bolt_view_def)
  have same: "list_slots E rows out s = (fst (list_slots E rows out s), s)" for rows out
  proof (induction rows arbitrary: out)
    case (Cons row rows)
    obtain k x where row: "row = (k, x)" by (cases row)
    obtain a where a: "getHead E (the_bytes x) s = (a, s)" using getHead_state [of E "the_bytes x" s] by metis
    show ?case
    proof (cases a)
      case (Inl e)
      then show ?thesis by (simp add: row a)
    next
      case (Inr h)
      then show ?thesis using Cons.IH [of "out @ [h]"] by (simp add: row a)
    qed
  qed simp
  have "bolt_ListNonterminal E s = (fst (bolt_ListNonterminal E s), s)"
    using same [of "bt_walk (be_db E) (bs_tx s) SlotsB" "[]"]
    by (cases "list_slots E (bt_walk (be_db E) (bs_tx s) SlotsB) [] s")
      (simp add: bolt_ListNonterminal_def bolt_view_def act_then_def act_walk_def act_read_def)
  then show "answers_list M al \<and> mirrors E v M s'" if "bolt_ListNonterminal E s = (al, s')"
    using list_stored [OF e(1,3) inv M(1)] that m by simp
  show "answers_active M p rid aa \<and> mirrors E v M s'" if "nul_free p" "bolt_GetActiveRunID E p rid s = (aa, s')"
    using active_stored [OF e(1) inv M(1) that(1), of rid] that(2) m
    by (auto simp: bolt_GetActiveRunID_def bolt_view_def act_get_def act_read_def)
qed

section \<open>Between the calls\<close>

lemma create_caches:
  assumes E: "env_ok E v" and g: "bolt_good (be_proto E) excl (v (bs_tx s)) used" and m: "mirrors E v M s" and run: "create_tx E rec ps s = (a, s')"
  shows "caches_ok M s'"
proof -
  note e = env_okD [OF E]
  obtain d s1 where d: "writeDrain E s = (d, s1)" by fastforce
  show ?thesis
  proof (cases d)
    case (Inl x)
    then show ?thesis using run d writeDrain_step [OF e(1) g m d] by (auto simp: create_tx_def act_then_def)
  next
    case (Inr u)
    then have g1: "bolt_good (be_proto E) excl (v (bs_tx s1)) used" and m1: "mirrors E v M s1" using writeDrain_step [OF e(1) g m d] by auto
    define own where "own = row_of (v (bs_tx s1) SlotsB (slotKeyFor (r_pipeline rec) (r_resource rec)))"
    define blocker where "blocker = (if own \<noteq> None then own else first_blocker E rec ps s1)"
    have go: "create_tx E rec ps s = (case blocker of Some i \<Rightarrow> act_then (getRun E i) (\<lambda>existing. act_ok (Some existing, False)) s1
        | None \<Rightarrow> act_then (putRun E rec) (\<lambda>_. act_then (act_put E SlotsB (slotKeyFor (r_pipeline rec) (r_resource rec)) (r_run rec)) (\<lambda>_. act_ok (None, True))) s1)"
      using d Inr get_step [OF e(1)] by (auto simp: create_tx_def act_then_def blocker_def own_def act_ok_def act_read_def split: option.splits)
    show ?thesis
    proof (cases blocker)
      case (Some i)
      have "\<exists>k. row_of (v (bs_tx s1) SlotsB k) = Some i"
        using Some first_blocker_Some [OF e(1), of rec ps s1 i] by (auto simp: blocker_def own_def split: if_splits)
      then have "nul_free i" using g1 slots_okD(1) [of "be_proto E" "v (bs_tx s1)"] by (fastforce simp: row_of_Some bolt_good_def bolt_inv_def live_def)
      from getRun_stored [OF e(1,3) this m1] show ?thesis using run go Some by (auto simp: act_then_def act_ok_def split: sum.splits prod.splits)
    next
      case None
      have "tidy (act_then (putRun E rec) (\<lambda>_. act_then (act_put E SlotsB (slotKeyFor (r_pipeline rec) (r_resource rec)) (r_run rec)) (\<lambda>_. act_ok (None :: run_record option, True))))"
        by (intro tidy_rules)
      then show ?thesis using run go None m1 tidy_caches unfolding mirrors_def by fastforce
    qed
  qed
qed

lemma apply_caches:
  assumes E: "env_ok E v" and nf: "nul_free i" and g: "bolt_good (be_proto E) excl (v (bs_tx s)) used" and m: "mirrors E v M s" and run: "apply_tx E i t s = (a, s')"
  shows "caches_ok M s'"
proof -
  note e = env_okD [OF E]
  obtain d s1 where d: "writeDrain E s = (d, s1)" by fastforce
  show ?thesis
  proof (cases d)
    case (Inl x)
    then show ?thesis using run d writeDrain_step [OF e(1) g m d] by (auto simp: apply_tx_def act_then_def)
  next
    case (Inr u)
    then have g1: "bolt_good (be_proto E) excl (v (bs_tx s1)) used" and m1: "mirrors E v M s1" using writeDrain_step [OF e(1) g m d] by auto
    have M: "stored_all E (v (bs_tx s1)) M" "caches_ok M s1" using m1 by (simp_all add: mirrors_def)
    note rows = stored_rows [OF M(1) nf, of "be_proto E"]
    have run1: "(if row_of (v (bs_tx s1) TerminalB i) \<noteq> None then act_fail ErrRunTerminal
        else if row_of (v (bs_tx s1) ActiveB (activeKey i tagMeta)) = None then act_fail ErrRunNotFound
        else case t_outcome t of Some oc \<Rightarrow> commit_terminal E i t oc | None \<Rightarrow> commit_progress E i t) s1 = (a, s')"
      using run d Inr get_step [OF e(1)] by (auto simp: apply_tx_def act_then_def split: if_splits)
    show ?thesis
    proof (cases "row_of (v (bs_tx s1) TerminalB i) \<noteq> None \<or> row_of (v (bs_tx s1) ActiveB (activeKey i tagMeta)) = None")
      case True
      then show ?thesis using run1 M(2) by (auto simp: act_fail_def split: if_splits)
    next
      case False
      then obtain r c where r: "M i = Some (r, c)" "\<not> terminal r" using rows g1 by (cases "M i") (auto simp: bolt_good_def)
      have run2: "(case t_outcome t of Some oc \<Rightarrow> commit_terminal E i t oc | None \<Rightarrow> commit_progress E i t) s1 = (a, s')" using run1 False by (auto split: if_splits)
      show ?thesis
      proof (cases "t_outcome t")
        case None
        then have "commit_progress E i t s1 = (a, s')" using run2 by simp
        from tidy_caches [OF tidy_run(1) this] show ?thesis using M(2) by blast
      next
        case (Some oc)
        obtain rec0 s2 where rec0: "getNonterminal E i s1 = (Inr rec0, s2)" "caches_ok M s2"
          using getNonterminal_stored [OF e(1,3) nf m1 r] by blast
        then have "terminal_writes E i (terminal_record t oc rec0) s2 = (a, s')" using run2 Some by (simp add: commit_terminal_eq act_then_def)
        from tidy_caches [OF tidy_run(3) this] show ?thesis using rec0(2) by blast
      qed
    qed
  qed
qed

text \<open>Clearing the stages of staged runs is invisible.\<close>

lemma cleared_good:
  assumes g: "bolt_good (be_proto E) excl (v (bs_tx s)) used" and m: "mirrors E v M s"
    and c: "\<exists>ids. v (bs_tx s') = clear_staged ids (v (bs_tx s)) \<and> set ids \<subseteq> {k. v (bs_tx s) StagedB k \<noteq> None} \<and> bs_blobs s' = bs_blobs s \<and> bs_outputs s' = bs_outputs s"
  shows "bolt_good (be_proto E) excl (v (bs_tx s')) used \<and> mirrors E v M s'"
proof -
  obtain ids where ids: "v (bs_tx s') = clear_staged ids (v (bs_tx s))" "set ids \<subseteq> {k. v (bs_tx s) StagedB k \<noteq> None}"
    "bs_blobs s' = bs_blobs s" "bs_outputs s' = bs_outputs s" using c by blast
  have "stored_all E (v (bs_tx s')) M" unfolding ids(1) using g m ids(2) by (intro stored_drain) (auto simp: mirrors_def bolt_good_def)
  moreover have "bolt_good (be_proto E) excl (v (bs_tx s')) used" unfolding ids(1) by (rule good_drain [OF g ids(2)])
  ultimately show ?thesis using m ids(3,4) by (simp add: mirrors_def caches_ok_def)
qed

lemma silent_good:
  assumes E: "env_ok E v" and st: "bolt_silent E excl s s'" and g: "bolt_good (be_proto E) excl (v (bs_tx s)) used" and m: "mirrors E v M s"
  shows "bolt_good (be_proto E) excl (v (bs_tx s')) used \<and> mirrors E v M s'"
  using st g m
proof (induction rule: bolt_silent.induct)
  case (drain fuel s res_drain s')
  from Drain_effect [OF env_okD(1) [OF E] drain(1)] show ?case by (rule cleared_good [OF drain(2,3)])
next
  case (batch n s res_drain s')
  from batch_effect [OF env_okD(1) [OF E] batch(1)] show ?case by (rule cleared_good [OF batch(2,3)])
next
  case (recount s n)
  then show ?case by (simp add: mirrors_def caches_ok_def)
next
  case (rolled_back_create rec s res_create s')
  then show ?case using mirrors_back create_caches [OF E rolled_back_create(2,3,1)] by auto
next
  case (rolled_back_apply i t s res_apply s')
  then show ?case using mirrors_back apply_caches [OF E rolled_back_apply(1,3,4,2)] by auto
next
  case (restart s opts)
  then show ?case by (simp add: mirrors_def caches_ok_def opened_def coherent_new Let_def)
qed

section \<open>Refinement\<close>

text \<open>The state of the store against the contents, after a history.\<close>

definition stands_for :: "('t, 'tx) bolt_env \<Rightarrow> ('tx \<Rightarrow> db_view) \<Rightarrow> (pipeline_id \<Rightarrow> pipeline_id list) \<Rightarrow> history \<Rightarrow> contents \<Rightarrow> 'tx bolt_store \<Rightarrow> bool" where
  "stands_for E v excl tr M s \<longleftrightarrow> mirrors E v M s \<and> bolt_good (be_proto E) excl (v (bs_tx s)) (used_by tr) \<and>
     (\<forall>i r c. M i = Some (r, c) \<longrightarrow> last_cursors tr i = Some c \<and> (terminal r \<longrightarrow> indexed_time (r_updated_at r)))"

lemma history_simps [simp]:
  "used_by [] = {}" "last_cursors [] = (\<lambda>_. None)" "last_cursors (tr @ [x]) = note_cursor x (last_cursors tr)"
  "used_by (tr @ [(c, a)]) = (case c of CallCreate rec \<Rightarrow> insert (r_run rec) (used_by tr) | _ \<Rightarrow> used_by tr)"
  by (auto simp: used_by_def last_cursors_def split: bolt_request.split)

lemma contract_cursors:
  assumes k: "contract excl M c a M'" and p: "proper tr c"
    and old: "\<forall>i r cu. M i = Some (r, cu) \<longrightarrow> last_cursors tr i = Some cu \<and> (terminal r \<longrightarrow> indexed_time (r_updated_at r))"
  shows "\<forall>i r cu. M' i = Some (r, cu) \<longrightarrow> last_cursors (tr @ [(c, a)]) i = Some cu \<and> (terminal r \<longrightarrow> indexed_time (r_updated_at r))"
proof (cases c)
  case (CallCreate rec)
  then show ?thesis using k p old by (auto simp: contract_def creatable_def storable_def split: bolt_answer.splits sum.splits option.splits if_splits)
next
  case (CallApply i t)
  obtain x where a: "a = AnsApply x" using k CallApply by (cases a) (simp_all add: contract_def)
  show ?thesis
  proof (cases x)
    case (Inl e)
    then show ?thesis using k old by (simp add: CallApply a contract_def)
  next
    case (Inr u)
    then obtain r cu where r: "M i = Some (r, cu)" "\<not> terminal r" "M' = M(i \<mapsto> (apply_transition t r, t_cursor t))" using k by (auto simp: CallApply a contract_def)
    have "terminal (apply_transition t r) \<longrightarrow> indexed_time (r_updated_at (apply_transition t r))"
      using p apply_transition_terminal [OF r(2), of t]
      by (auto simp: CallApply apply_transition_def apply_outcome_def compact_terminal_def apply_failure_def split: option.splits)
    then show ?thesis using old r(3) by (auto simp: CallApply a Inr)
  qed
next
  case (CallCancel i req)
  then show ?thesis using k old by (fastforce simp: contract_def terminal_def split: bolt_answer.splits sum.splits if_splits)
next
  case (CallReap before limit)
  then show ?thesis using k old by (auto simp: contract_def without_def split: bolt_answer.splits sum.splits if_splits)
qed (use k old in \<open>auto simp: contract_def split: bolt_answer.splits\<close>)

lemma call_tracks:
  assumes E: "env_ok E v" and sym: "excl_sym excl" and names: "excl_names excl"
    and tr: "stands_for E v excl tr M s" and p: "proper tr c" and run: "bolt_call E excl c s = (a, s')"
  shows "\<exists>M'. contract excl M c a M' \<and> stands_for E v excl (tr @ [(c, a)]) M' s'"
proof -
  note e = env_okD [OF E]
  have m: "mirrors E v M s" and g: "bolt_good (be_proto E) excl (v (bs_tx s)) (used_by tr)"
    and old: "\<forall>i r cu. M i = Some (r, cu) \<longrightarrow> last_cursors tr i = Some cu \<and> (terminal r \<longrightarrow> indexed_time (r_updated_at r))"
    using tr by (simp_all add: stands_for_def)
  have nf: "list_all nul_free (excl q)" for q using names by (simp add: excl_names_def)
  have step: "bolt_good (be_proto E) excl (v (bs_tx s')) used'" if "bolt_step E excl (s, used_by tr) (s', used')" for used'
    using bolt_step_good [OF e(1,2) sym that] g by simp
  have "(\<exists>M'. contract excl M c a M' \<and> mirrors E v M' s') \<and> bolt_good (be_proto E) excl (v (bs_tx s')) (used_by (tr @ [(c, a)]))"
  proof (cases c)
    case (CallCreate rec)
    then obtain x where x: "a = AnsCreate x" "bolt_CreateRun E rec (excl (r_pipeline rec)) s = (x, s')" using run by (auto simp: apfst_def map_prod_def split: prod.splits)
    have pr: "creatable rec" "r_run rec \<notin> used_by tr" using p CallCreate by simp_all
    have "bolt_step E excl (s, used_by tr) (s', insert (r_run rec) (used_by tr))"
      using pr x(2) by (intro bolt_step.create) (auto simp: creatable_def)
    then show ?thesis using create_call [where excl = excl, OF E pr nf g m x(2)] step by (simp add: CallCreate x(1))
  next
    case (CallApply i t)
    then obtain x where x: "a = AnsApply x" "bolt_ApplyTransition E i t s = (x, s')" using run by (auto simp: apfst_def map_prod_def split: prod.splits)
    have "bolt_step E excl (s, used_by tr) (s', used_by tr)" using p x(2) CallApply by (auto intro: bolt_step.app)
    moreover have "\<forall>r cu. M i = Some (r, cu) \<longrightarrow> last_cursors tr i = Some cu" using old by blast
    ultimately show ?thesis using apply_call [where excl = excl, OF E p [unfolded CallApply] _ g m x(2)] step by (simp add: CallApply x(1))
  next
    case (CallCancel i req)
    then obtain x where x: "a = AnsCancel x" "bolt_RequestCancel E i req s = (x, s')" using run by (auto simp: apfst_def map_prod_def split: prod.splits)
    have "bolt_step E excl (s, used_by tr) (s', used_by tr)" using p x(2) CallCancel by (auto intro: bolt_step.cancel)
    then show ?thesis using cancel_call [where excl = excl, OF E _ g m x(2)] p step by (simp add: CallCancel x(1))
  next
    case (CallReap before limit)
    then obtain x where x: "a = AnsReap x" "bolt_ReapTerminal E before limit s = (x, s')" using run by (auto simp: apfst_def map_prod_def split: prod.splits)
    have "bolt_step E excl (s, used_by tr) (s', used_by tr)" using x(2) by (auto intro: bolt_step.reap)
    then show ?thesis using reap_call [where excl = excl, OF E g m _ _ x(2)] p old step by (simp add: CallReap x(1))
  next
    case (CallGet i)
    then obtain x where x: "a = AnsRecord x" "bolt_GetRun E i s = (x, s')" using run by (auto simp: apfst_def map_prod_def split: prod.splits)
    have "bolt_step E excl (s, used_by tr) (s', used_by tr)" using x(2) by (auto intro: bolt_step.get)
    then show ?thesis using read_calls(1) [OF E g m _ x(2)] p step by (simp add: CallGet x(1) contract_def)
  next
    case (CallHead i)
    then obtain x where x: "a = AnsRecord x" "bolt_GetRunHead E i s = (x, s')" using run by (auto simp: apfst_def map_prod_def split: prod.splits)
    have "bolt_step E excl (s, used_by tr) (s', used_by tr)" using x(2) by (auto intro: bolt_step.head)
    then show ?thesis using read_calls(2) [OF E g m _ x(2)] p step by (simp add: CallHead x(1) contract_def)
  next
    case CallList
    then obtain x where x: "a = AnsList x" "bolt_ListNonterminal E s = (x, s')" using run by (auto simp: apfst_def map_prod_def split: prod.splits)
    have "bolt_step E excl (s, used_by tr) (s', used_by tr)" using x(2) by (auto intro: bolt_step.list)
    then show ?thesis using read_calls(3) [OF E g m x(2)] step by (simp add: CallList x(1) contract_def)
  next
    case (CallActive q rid)
    then obtain x where x: "a = AnsActive x" "bolt_GetActiveRunID E q rid s = (x, s')" using run by (auto simp: apfst_def map_prod_def split: prod.splits)
    have "bolt_step E excl (s, used_by tr) (s', used_by tr)" using x(2) by (auto intro: bolt_step.active)
    then show ?thesis using read_calls(4) [OF E g m _ x(2)] p step by (simp add: CallActive x(1) contract_def)
  qed
  then obtain M' where M': "contract excl M c a M'" "mirrors E v M' s'" and g': "bolt_good (be_proto E) excl (v (bs_tx s')) (used_by (tr @ [(c, a)]))" by blast
  show ?thesis using M' g' contract_cursors [OF M'(1) p old] by (auto simp: stands_for_def simp del: history_simps)
qed

lemma runs_track:
  assumes E: "env_ok E v" and sym: "excl_sym excl" and names: "excl_names excl" and fresh: "v tx = (\<lambda>_ _. None)" and run: "bolt_runs E excl (opened opts tx) tr s"
  shows "\<exists>M. contract_history excl tr M \<and> stands_for E v excl tr M s"
  using run
proof (induction rule: bolt_runs.induct)
  case start
  have tx: "bs_tx (opened opts tx) = tx" by (simp add: opened_def Let_def)
  have "bolt_good (be_proto E) excl (v tx) {}"
    by (simp add: fresh bolt_good_def bolt_inv_empty slots_exclusive_def known_def has_meta_def ended_def)
  moreover have "mirrors E v (\<lambda>_. None) (opened opts tx)"
    using tx fresh by (simp add: mirrors_def stored_all_def run_stored_def blank_def caches_ok_def) (simp add: opened_def coherent_new Let_def)
  ultimately have "stands_for E v excl [] (\<lambda>_. None) (opened opts tx)" by (simp add: stands_for_def tx)
  then show ?case using contract_history.start by blast
next
  case (call tr s c a s')
  then obtain M where M: "contract_history excl tr M" "stands_for E v excl tr M s" by blast
  from call_tracks [OF E sym names M(2) call(2,3)] show ?case using contract_history.call [OF M(1)] by blast
next
  case (silent tr s s')
  then obtain M where M: "contract_history excl tr M" "stands_for E v excl tr M s" by blast
  then have "bolt_good (be_proto E) excl (v (bs_tx s')) (used_by tr) \<and> mirrors E v M s'"
    using silent_good [OF E silent(2)] by (auto simp: stands_for_def)
  then show ?case using M by (auto simp: stands_for_def)
qed

section \<open>The property\<close>

text \<open>The example of \<open>Bolt_Example\<close>: two runs are admitted and listed, and the first ends.\<close>

definition ex_trace :: history where
  "ex_trace = [(CallCreate (ex_run ''1'' ''backup''), AnsCreate (Inr (None, True))), (CallCreate (ex_run ''2'' ''audit''), AnsCreate (Inr (None, True))),
     (CallList, AnsList (Inr [ex_run ''2'' ''audit'', ex_run ''1'' ''backup''])), (CallApply ''1'' ex_end, AnsApply (Inr ()))]"

lemma ex_creatable: "nul_free i \<Longrightarrow> nul_free p \<Longrightarrow> creatable (ex_run i p)"
  by (simp add: creatable_def ex_storable nil_bytes_def cursor_ok_def first_cursor_def two_phase_def) (simp add: ex_run_def zero_record_def)

lemma ex_runs: "bolt_runs ex_env ex_excl (opened [] []) ex_trace ex_store3"
proof -
  have 1: "bolt_runs ex_env ex_excl (opened [] []) ([] @ [(CallCreate (ex_run ''1'' ''backup''), AnsCreate (Inr (None, True)))]) ex_store1"
    by (rule bolt_runs.call [OF bolt_runs.start]) (simp_all add: ex_creatable ex_creates [unfolded ex_store0_def] ex_store1)
  have 2: "bolt_runs ex_env ex_excl (opened [] []) (([] @ [(CallCreate (ex_run ''1'' ''backup''), AnsCreate (Inr (None, True)))]) @
      [(CallCreate (ex_run ''2'' ''audit''), AnsCreate (Inr (None, True)))]) ex_store2"
    by (rule bolt_runs.call [OF 1]) (simp_all add: ex_creatable ex_creates ex_store1 ex_store2 used_by_def)
  have 3: "bolt_runs ex_env ex_excl (opened [] []) ((([] @ [(CallCreate (ex_run ''1'' ''backup''), AnsCreate (Inr (None, True)))]) @
      [(CallCreate (ex_run ''2'' ''audit''), AnsCreate (Inr (None, True)))]) @ [(CallList, AnsList (Inr [ex_run ''2'' ''audit'', ex_run ''1'' ''backup'']))]) ex_store2"
    by (rule bolt_runs.call [OF 2]) (simp_all add: ex_list)
  have "proper tr (CallApply ''1'' ex_end)" for tr
    by (simp add: ex_end_def ops_ok_def cursor_ok_def first_cursor_def two_phase_def indexed_time_def unix_epoch_def)
  then show ?thesis using bolt_runs.call [OF 3, of "CallApply ''1'' ex_end" "AnsApply (Inr ())" ex_store3]
    by (simp add: ex_trace_def ex_ends ex_store3)
qed

lemma ex_env_all: "env_ok ex_env plain_view" "excl_names ex_excl" "plain_view [] = (\<lambda>_ _. None)"
  using ex_env_ok by (simp_all add: env_ok_def excl_names_def ex_excl_def)

text \<open>
  Claim C3. The bbolt store refines the contract of a store. Take any sequence of calls of the store on a new file, with whatever
  answers it gives, and between the calls any drains, single batches of the background drain, transactions that were run and rolled back,
  and restarts. Then there are contents, one record and cursor per run, that explain every answer: a read answers the record
  that the accepted writes before it make (an empty input, state or output read back as nil), listings
  cover the live runs once each, a create is refused exactly by the live run that occupies its slot or an excluding one, a
  write is accepted only on a live run and has the whole effect of its transition, a cancel request is recorded
  once, a reap removes only runs ended before its time and none is missed below its limit, and an error leaves the contents
  as they were. Neither the cache of blobs, nor the rows kept beside, nor the staged removal of a run's rows, nor a restart shows.
\<close>

theorem bolt_refines_contract:
  assumes "env_ok E v" and "excl_sym excl" and "excl_names excl" and "v tx = (\<lambda>_ _. None)"
    and "bolt_runs E excl (opened opts tx) tr s"
  shows "\<exists>M. contract_history excl tr M"
  using runs_track [OF assms] by blast

theorem bolt_refines_contract_witness:
  "bolt_runs ex_env ex_excl (opened [] []) ex_trace ex_store3 \<and> (\<exists>M. contract_history ex_excl ex_trace M)"
  using bolt_refines_contract [OF ex_env_all(1) ex_excl_sym ex_env_all(2,3) ex_runs] ex_runs by blast

end
