(* ===== verification/Registry.thy ===== *)
theory Registry
  imports Bolt_Store Mem_Store
begin

text \<open>
  Opening a store from a URI: the registry of drivers (\<^verbatim>\<open>src/store/store.go\<close>) and the openers of the two drivers in the
  tree (\<^verbatim>\<open>src/store/bbolt/open.go\<close>, \<^verbatim>\<open>src/store/mem/open.go\<close>). A parsed URI is a record of the fields they read, and the
  parser of \<^verbatim>\<open>net/url\<close> is an argument; so is the opening of the database file at a path with its options. Text is bytes: the
  spaces that \<^verbatim>\<open>strings.TrimSpace\<close> cuts are written out as bytes, and of \<^verbatim>\<open>strings.ToLower\<close> what reaches ASCII, because
  a text with any other rune is no number in either case.
\<close>

section \<open>URIs\<close>

record url =
  u_scheme :: string
  u_opaque :: string
  u_host :: string
  u_path :: string
  u_raw_query :: string
  u_query :: "(string, string list) gomap"

datatype uri_error =
    URIParse | URINoScheme "string list" | ErrUnknownScheme string "string list"
  | URIHost | URINoPath | OptionGiven string nat | OptionValue string string | UnknownOption string
  | MemOptions | OpenFailed kernel_error

type_synonym 'st opener = "url \<Rightarrow> uri_error + 'st"

section \<open>Drivers\<close>

text \<open>The package variable \<^verbatim>\<open>drivers\<close>; None is a panic.\<close>

definition store_Register :: "string \<Rightarrow> 'st opener option \<Rightarrow> (string, 'st opener) gomap \<Rightarrow> (string, 'st opener) gomap option" where
  "store_Register scheme open drivers = (case open of
     None \<Rightarrow> None
   | Some f \<Rightarrow> if gm_has drivers scheme then None else Some (gm_put scheme f drivers))"

definition Schemes :: "(string, 'st opener) gomap \<Rightarrow> string list" where
  "Schemes drivers = sort (gm_keys drivers)"

definition store_Open :: "(string \<Rightarrow> url option) \<Rightarrow> (string, 'st opener) gomap \<Rightarrow> string \<Rightarrow> uri_error + 'st" where
  "store_Open parse drivers uri = (case parse uri of
     None \<Rightarrow> Inl URIParse
   | Some u \<Rightarrow> if u_scheme u = [] then Inl (URINoScheme (Schemes drivers))
     else (case gm_get drivers (u_scheme u) of
       None \<Rightarrow> Inl (ErrUnknownScheme (u_scheme u) (Schemes drivers))
     | Some f \<Rightarrow> f u))"

section \<open>Byte counts\<close>

text \<open>The bytes of the white space rune a text starts with.\<close>

fun space_width :: "string \<Rightarrow> nat" where
  "space_width [] = 0"
| "space_width (a # s) =
     (if byte a = 0x20 \<or> 0x09 \<le> byte a \<and> byte a \<le> 0x0D then 1
      else case s of [] \<Rightarrow> 0 | b # s' \<Rightarrow>
        if byte a = 0xC2 \<and> (byte b = 0x85 \<or> byte b = 0xA0) then 2
        else (case s' of [] \<Rightarrow> 0 | c # _ \<Rightarrow>
          if byte a = 0xE1 \<and> byte b = 0x9A \<and> byte c = 0x80
            \<or> byte a = 0xE2 \<and> byte b = 0x80 \<and> (0x80 \<le> byte c \<and> byte c \<le> 0x8A \<or> byte c = 0xA8 \<or> byte c = 0xA9 \<or> byte c = 0xAF)
            \<or> byte a = 0xE2 \<and> byte b = 0x81 \<and> byte c = 0x9F
            \<or> byte a = 0xE3 \<and> byte b = 0x80 \<and> byte c = 0x80 then 3 else 0))"

lemma space_width_le: "space_width s \<le> length s"
  by (cases s) (auto split: list.split)

lemma space_cut: "space_width s \<noteq> 0 \<Longrightarrow> length (drop (space_width s) s) < length s"
  using space_width_le [of s] unfolding length_drop by arith

function trim_left :: "string \<Rightarrow> string" where
  "trim_left s = (if space_width s = 0 then s else trim_left (drop (space_width s) s))"
  by auto
termination
  by (relation "measure length") (simp, simp only: in_measure space_cut not_False_eq_True)

declare trim_left.simps [simp del]

definition ends_in_space :: "nat \<Rightarrow> string \<Rightarrow> bool" where
  "ends_in_space n s \<longleftrightarrow> n \<le> length s \<and> space_width (drop (length s - n) s) = n"

function trim_right :: "string \<Rightarrow> string" where
  "trim_right s = (if ends_in_space 1 s then trim_right (take (length s - 1) s)
     else if ends_in_space 2 s then trim_right (take (length s - 2) s)
     else if ends_in_space 3 s then trim_right (take (length s - 3) s) else s)"
  by auto
termination
  by (relation "measure length") (auto simp: ends_in_space_def)

declare trim_right.simps [simp del]

definition TrimSpace :: "string \<Rightarrow> string" where
  "TrimSpace s = trim_right (trim_left s)"

text \<open>The two runes outside ASCII with an ASCII lower case are the Kelvin sign and the dotted capital I.\<close>

fun ToLower :: "string \<Rightarrow> string" where
  "ToLower [] = []"
| "ToLower (a # s) =
     (if 0x41 \<le> byte a \<and> byte a \<le> 0x5A then char_of (byte a + 0x20) # ToLower s
      else if byte a = 0xC4 then (case s of [] \<Rightarrow> [a] | b # s' \<Rightarrow> if byte b = 0xB0 then CHR ''i'' # ToLower s' else a # ToLower s)
      else if byte a = 0xE2 then (case s of b # c # s' \<Rightarrow>
          if byte b = 0x84 \<and> byte c = 0xAA then CHR ''k'' # ToLower s' else a # ToLower s | _ \<Rightarrow> a # ToLower s)
      else a # ToLower s)"

definition HasSuffix :: "string \<Rightarrow> string \<Rightarrow> bool" where
  "HasSuffix s suf \<longleftrightarrow> length suf \<le> length s \<and> drop (length s - length suf) s = suf"

fun cut_unit :: "(string \<times> int) list \<Rightarrow> string \<Rightarrow> string \<times> int" where
  "cut_unit [] s = (s, 1)"
| "cut_unit ((suf, factor) # us) s = (if HasSuffix s suf then (take (length s - length suf) s, factor) else cut_unit us s)"

definition byte_units :: "(string \<times> int) list" where
  "byte_units = [(''kib'', 2 ^ 10), (''mib'', 2 ^ 20), (''gib'', 2 ^ 30), (''k'', 2 ^ 10), (''m'', 2 ^ 20), (''g'', 2 ^ 30)]"

definition digit :: "char \<Rightarrow> bool" where
  "digit c \<longleftrightarrow> 0x30 \<le> byte c \<and> byte c \<le> 0x39"

definition decimal :: "string \<Rightarrow> int" where
  "decimal s = foldl (\<lambda>n c. 10 * n + (int (byte c) - 0x30)) 0 s"

text \<open>\<^verbatim>\<open>strconv.Atoi\<close>: an optional sign and digits, within 64 bits.\<close>

definition Atoi :: "string \<Rightarrow> int option" where
  "Atoi s = (let neg = (case s of c # _ \<Rightarrow> c = CHR ''-'' | [] \<Rightarrow> False);
       ds = (case s of c # r \<Rightarrow> if c = CHR ''-'' \<or> c = CHR ''+'' then r else s | [] \<Rightarrow> []);
       n = (if neg then - decimal ds else decimal ds)
     in if ds = [] \<or> \<not> list_all digit ds then None
        else if - (2 ^ 63) \<le> n \<and> n < 2 ^ 63 then Some n else None)"

text \<open>The product of two values of type \<^verbatim>\<open>int\<close>, which has 64 bits.\<close>

definition int_mul :: "int \<Rightarrow> int \<Rightarrow> int" where
  "int_mul a b = sint (word_of_int (a * b) :: 64 word)"

definition parseBytes :: "string \<Rightarrow> int option" where
  "parseBytes v = (case cut_unit byte_units (ToLower (TrimSpace v)) of (s, unit) \<Rightarrow>
     (case Atoi (TrimSpace s) of None \<Rightarrow> None | Some n \<Rightarrow> if n < 0 then None else Some (int_mul n unit)))"

section \<open>The openers\<close>

fun query_options :: "(string, string list) gomap \<Rightarrow> uri_error + bolt_option list" where
  "query_options [] = Inr []"
| "query_options ((key, vs) # q) =
     (if length vs \<noteq> 1 then Inl (OptionGiven key (length vs))
      else case parseBytes (hd vs) of
        None \<Rightarrow> Inl (OptionValue key (hd vs))
      | Some n \<Rightarrow>
        if key = ''blob_cache'' then map_sum id (Cons (WithBlobCache n)) (query_options q)
        else if key = ''output_cache'' then map_sum id (Cons (WithOutputCache n)) (query_options q)
        else Inl (UnknownOption key))"

definition bbolt_opener :: "(string \<Rightarrow> bolt_option list \<Rightarrow> uri_error + 'st) \<Rightarrow> 'st opener" where
  "bbolt_opener open u = (let path = (if u_opaque u \<noteq> [] then u_opaque u else u_path u) in
     if u_host u \<noteq> [] then Inl URIHost
     else if path = [] then Inl URINoPath
     else case query_options (u_query u) of Inl e \<Rightarrow> Inl e | Inr opts \<Rightarrow> open path opts)"

definition mem_opener :: "'st \<Rightarrow> 'st opener" where
  "mem_opener new u = (if u_host u \<noteq> [] \<or> u_path u \<noteq> [] \<or> u_opaque u \<noteq> [] \<or> u_raw_query u \<noteq> [] then Inl MemOptions else Inr new)"

section \<open>Facts\<close>

lemma store_Register_once: "store_Register scheme open drivers = Some d \<Longrightarrow> store_Register scheme open' d = None"
  by (auto simp: store_Register_def split: option.splits if_splits)

lemma store_Register_opens:
  assumes "store_Register scheme (Some f) drivers = Some d" and "parse uri = Some u" and "u_scheme u = scheme" and "scheme \<noteq> []"
  shows "store_Open parse d uri = f u"
  using assms by (auto simp: store_Register_def store_Open_def split: if_splits)

text \<open>A later registration does not change what an earlier scheme opens.\<close>

lemma store_Register_keeps:
  assumes "store_Register scheme (Some f) drivers = Some d" and "parse uri = Some u" and "u_scheme u \<noteq> scheme" and "store_Open parse drivers uri = Inr st"
  shows "store_Open parse d uri = Inr st"
  using assms by (auto simp: store_Register_def store_Open_def split: if_splits option.splits)

lemma Schemes_sorted: "sorted (Schemes d) \<and> set (Schemes d) = {s. gm_has d s}"
  by (auto simp: Schemes_def map_of_eq_None_iff)

text \<open>The options do not depend on the order in which the query's map is visited.\<close>

definition option_of :: "string \<Rightarrow> string list \<Rightarrow> bolt_option option" where
  "option_of key vs = (if length vs \<noteq> 1 then None else case parseBytes (hd vs) of None \<Rightarrow> None
     | Some n \<Rightarrow> if key = ''blob_cache'' then Some (WithBlobCache n) else if key = ''output_cache'' then Some (WithOutputCache n) else None)"

lemma query_option_None: "option_of k vs = None \<Longrightarrow> \<exists>e. query_options ((k, vs) # q) = Inl e"
  by (cases "length vs = 1"; cases "parseBytes (hd vs)") (simp_all add: option_of_def split: if_splits)

lemma query_option_Some: "option_of k vs = Some x \<Longrightarrow> query_options ((k, vs) # q) = map_sum id (Cons x) (query_options q)"
  by (cases "length vs = 1"; cases "parseBytes (hd vs)") (auto simp: option_of_def split: if_splits)

lemma query_options_eq:
  "(if \<forall>(k, vs)\<in>set q. option_of k vs \<noteq> None then query_options q = Inr (map (\<lambda>(k, vs). the (option_of k vs)) q)
    else \<exists>e. query_options q = Inl e)"
proof (induction q)
  case (Cons x q)
  obtain k vs where x: "x = (k, vs)" by fastforce
  show ?case
  proof (cases "option_of k vs")
    case None
    then show ?thesis using query_option_None [of k vs q] x by auto
  next
    case (Some y)
    have e: "query_options (x # q) = map_sum id (Cons y) (query_options q)" using query_option_Some [OF Some] x by simp
    show ?thesis unfolding e using Cons.IH Some x by (auto split: if_splits)
  qed
qed simp

definition configured :: "bolt_option list \<Rightarrow> bolt_config \<Rightarrow> bolt_config" where
  "configured opts c = fold apply_bolt_option opts c"

lemma config_of_query:
  assumes "gm_ok q" and "\<forall>(k, vs)\<in>set q. option_of k vs \<noteq> None"
  shows "configured (map (\<lambda>(k, vs). the (option_of k vs)) q) c =
    c\<lparr>bcf_blob_cache := (case gm_get q ''blob_cache'' of None \<Rightarrow> bcf_blob_cache c | Some vs \<Rightarrow> the (parseBytes (hd vs))),
      bcf_output_cache := (case gm_get q ''output_cache'' of None \<Rightarrow> bcf_output_cache c | Some vs \<Rightarrow> the (parseBytes (hd vs)))\<rparr>"
  using assms
proof (induction q arbitrary: c)
  case (Cons x q)
  obtain k vs where x: "x = (k, vs)" by fastforce
  have q: "gm_ok q" "gm_get q k = None" "\<forall>(k, vs)\<in>set q. option_of k vs \<noteq> None"
    using Cons.prems x by (auto simp: gm_ok_def map_of_eq_None_iff)
  have k: "option_of k vs \<noteq> None" using Cons.prems(2) x by simp
  then consider "k = ''blob_cache''" "option_of k vs = Some (WithBlobCache (the (parseBytes (hd vs))))"
    | "k = ''output_cache''" "option_of k vs = Some (WithOutputCache (the (parseBytes (hd vs))))"
    by (auto simp: option_of_def split: if_splits option.splits)
  then show ?case
  proof cases
    case 1
    then show ?thesis using Cons.IH [OF q(1,3)] q(2) x by (simp add: configured_def split: option.split)
  next
    case 2
    then show ?thesis using Cons.IH [OF q(1,3)] q(2) x by (simp add: configured_def split: option.split)
  qed
qed (simp add: configured_def)

lemma query_order:
  assumes "gm_ok q" and "mset q' = mset q" and "query_options q = Inr opts"
  shows "\<exists>opts'. query_options q' = Inr opts' \<and> configured opts' c = configured opts c"
proof -
  have s: "set q' = set q" using assms(2) by (rule mset_eq_setD)
  have ok: "gm_ok q'" using assms(1,2) by (metis gm_ok_def mset_eq_imp_distinct_iff mset_map)
  have all: "\<forall>(k, vs)\<in>set q. option_of k vs \<noteq> None" using query_options_eq [of q] assms(3) by (auto split: if_splits)
  have opts: "opts = map (\<lambda>(k, vs). the (option_of k vs)) q" using query_options_eq [of q] all assms(3) by simp
  have "gm_get q' = gm_get q" using gm_get_perm [OF assms(1) assms(2) [symmetric]] .
  then show ?thesis using query_options_eq [of q'] all s config_of_query [OF ok, of c] config_of_query [OF assms(1) all, of c] opts
    by auto
qed

lemma int_mul_exact: "0 \<le> a \<Longrightarrow> 0 \<le> b \<Longrightarrow> a * b < 2 ^ 63 \<Longrightarrow> int_mul a b = a * b"
  unfolding int_mul_def sint_sbintrunc'
  by (rule signed_take_bit_int_eq_self) (simp_all add: order_trans [OF _ mult_nonneg_nonneg])

text \<open>
  Examples. The last two are counts past the range of \<^verbatim>\<open>int\<close>: the number fits and the product wraps, to zero, which
  turns the cache off, and below zero.
\<close>

lemma parseBytes_examples:
  "parseBytes ''128MiB'' = Some (128 * 2 ^ 20)"
  "parseBytes '' +5 K '' = Some 5120"
  "parseBytes ''0'' = Some 0"
  "parseBytes ''-1'' = None"
  "parseBytes ''MiB'' = None"
  "parseBytes ''9223372036854775808'' = None"
  "parseBytes ''17179869184g'' = Some 0"
  "parseBytes ''9007199254740992k'' = Some (- (2 ^ 63))"
  by code_simp+

end
