(* ===== verification/Invocation.thy ===== *)
theory Invocation
  imports Driver Resolution
begin

text \<open>
  What the engine hands to application code: the invocation of an attempt and the view of a
  reducer (\<^verbatim>\<open>src/engine/invocation.go\<close>), with the accessors both offer, and the typed state lookup
  (\<^verbatim>\<open>src/state.go\<close>). Protobuf is outside the program: its messages are the type variable \<open>'m\<close>, and
  the functions used of it are the record \<open>protobuf\<close> of parameters. An accessor that may report a
  contract violation returns the updated record with its answer.
\<close>

section \<open>Protobuf as a parameter\<close>

record 'm protobuf =
  pb_valid :: "'m \<Rightarrow> bool"
  pb_marshal :: "'m \<Rightarrow> goerr + bytes"
  pb_unmarshal :: "'m \<Rightarrow> bytes option \<Rightarrow> goerr + 'm"
  pb_equal :: "'m \<Rightarrow> 'm \<Rightarrow> bool"

section \<open>Attempt invocations\<close>

record 'm invocation =
  inv_pipeline :: pipeline_id
  inv_resource :: resource_id
  inv_run :: run_id
  inv_step :: step_id
  inv_attempt :: u64
  inv_phase :: phase
  inv_input :: "bytes option"
  inv_new_input :: "'m option"
  inv_states :: "(step_id, bytes) gomap"
  inv_annotations :: "(string, string) gomap"
  inv_awaited :: "wake option"
  inv_failure :: "failure option"
  inv_violation :: "goerr option"

definition AwaitedRunID :: "'m invocation \<Rightarrow> run_id option" where
  "AwaitedRunID iv = (case inv_awaited iv of
     None \<Rightarrow> None
   | Some w \<Rightarrow> (case wk_targets w of [t] \<Rightarrow> Some t | _ \<Rightarrow> None))"

definition Awaited :: "'m invocation \<Rightarrow> wake option" where
  "Awaited iv = inv_awaited iv"

definition inv_Annotations :: "'m invocation \<Rightarrow> (string, string) gomap option" where
  "inv_Annotations iv = (if inv_annotations iv = [] then None else Some (inv_annotations iv))"

definition inv_StateBytes :: "step_id \<Rightarrow> 'm invocation \<Rightarrow> bytes option" where
  "inv_StateBytes k iv = gm_get (inv_states iv) k"

definition inv_ReportViolation :: "goerr \<Rightarrow> 'm invocation \<Rightarrow> 'm invocation" where
  "inv_ReportViolation err iv =
     (case inv_violation iv of None \<Rightarrow> iv\<lparr>inv_violation := Some err\<rparr> | Some _ \<Rightarrow> iv)"

definition inv_takeViolation :: "'m invocation \<Rightarrow> goerr option" where
  "inv_takeViolation iv = inv_violation iv"

definition inputDecodeError :: "goerr \<Rightarrow> goerr" where
  "inputDecodeError err = GoErr (''cannot decode pipeline input: '' @ error_string err) None None [err]"

definition stateDecodeError :: "step_id \<Rightarrow> goerr \<Rightarrow> goerr" where
  "stateDecodeError k err = GoErr (''cannot decode committed state of step '' @ k @ '': '' @ error_string err) None None [err]"

text \<open>\<^verbatim>\<open>proto.Unmarshal\<close> decodes into the message it is given; on an error the message handed back is
  the empty one here (the library may leave it partly filled, and the run is invalidated anyway).\<close>

definition inv_InputMessage :: "'m protobuf \<Rightarrow> 'm invocation \<Rightarrow> 'm option \<times> 'm invocation" where
  "inv_InputMessage pb iv = (case inv_new_input iv of
     None \<Rightarrow> (None, iv)
   | Some msg \<Rightarrow> (case pb_unmarshal pb msg (inv_input iv) of
       Inl err \<Rightarrow> (Some msg, inv_ReportViolation (inputDecodeError err) iv)
     | Inr m \<Rightarrow> (Some m, iv)))"

definition LookupState :: "'m protobuf \<Rightarrow> step_id \<Rightarrow> 'm \<Rightarrow> 'm invocation \<Rightarrow> 'm option \<times> 'm invocation" where
  "LookupState pb k new iv = (case inv_StateBytes k iv of
     None \<Rightarrow> (None, iv)
   | Some b \<Rightarrow> (case pb_unmarshal pb new (Some b) of
       Inl err \<Rightarrow> (None, inv_ReportViolation (stateDecodeError k err) iv)
     | Inr m \<Rightarrow> (Some m, iv)))"

section \<open>Reduce views\<close>

record 'm reduce_view =
  rv_input :: "bytes option"
  rv_new_input :: "'m option"
  rv_states :: "(step_id, bytes) gomap"
  rv_failure :: "failure option"
  rv_unwind_failures :: "(step_id, failure) gomap"
  rv_violation :: "goerr option"

definition rv_UnwindFailure :: "step_id \<Rightarrow> 'm reduce_view \<Rightarrow> failure option" where
  "rv_UnwindFailure k v = gm_get (rv_unwind_failures v) k"

definition rv_StateBytes :: "step_id \<Rightarrow> 'm reduce_view \<Rightarrow> bytes option" where
  "rv_StateBytes k v = gm_get (rv_states v) k"

definition rv_ReportViolation :: "goerr \<Rightarrow> 'm reduce_view \<Rightarrow> 'm reduce_view" where
  "rv_ReportViolation err v =
     (case rv_violation v of None \<Rightarrow> v\<lparr>rv_violation := Some err\<rparr> | Some _ \<Rightarrow> v)"

definition rv_takeViolation :: "'m reduce_view \<Rightarrow> goerr option" where
  "rv_takeViolation v = rv_violation v"

definition rv_InputMessage :: "'m protobuf \<Rightarrow> 'm reduce_view \<Rightarrow> 'm option \<times> 'm reduce_view" where
  "rv_InputMessage pb v = (case rv_new_input v of
     None \<Rightarrow> (None, v)
   | Some msg \<Rightarrow> (case pb_unmarshal pb msg (rv_input v) of
       Inl err \<Rightarrow> (Some msg, rv_ReportViolation (inputDecodeError err) v)
     | Inr m \<Rightarrow> (Some m, v)))"

section \<open>Facts\<close>

text \<open>What a handler may do to its invocation: read it, and report violations.\<close>

inductive inv_use :: "'m protobuf \<Rightarrow> 'm invocation \<Rightarrow> 'm invocation \<Rightarrow> bool" for pb where
  report: "inv_use pb iv (inv_ReportViolation err iv)"
| input: "inv_InputMessage pb iv = (m, iv') \<Longrightarrow> inv_use pb iv iv'"
| lookup: "LookupState pb k new iv = (m, iv') \<Longrightarrow> inv_use pb iv iv'"

lemma inv_use_effect: "inv_use pb iv iv' \<Longrightarrow> iv' = iv \<or> (inv_violation iv = None \<and> (\<exists>err. iv' = iv\<lparr>inv_violation := Some err\<rparr>))"
  by (induction rule: inv_use.induct)
     (auto simp: inv_ReportViolation_def inv_InputMessage_def LookupState_def split: option.splits sum.splits)

lemma inv_uses_effect:
  "(inv_use pb)\<^sup>*\<^sup>* iv iv' \<Longrightarrow> iv' = iv \<or> (inv_violation iv = None \<and> (\<exists>err. iv' = iv\<lparr>inv_violation := Some err\<rparr>))"
proof (induction rule: rtranclp_induct)
  case (step y z)
  then show ?case using inv_use_effect [OF step(2)] by auto
qed simp

end
