(* ===== verification/Signals.thy ===== *)
theory Signals
  imports Prelude
begin

text \<open>
  The small synchronisation primitives: the keyed one-shot broadcast and the single-slot signals of
  \<^verbatim>\<open>src/internal/watchset/watchset.go\<close>, the sticky test-and-clear flag of
  \<^verbatim>\<open>src/internal/dirtyset/dirtyset.go\<close> and the write-then-read-only map of
  \<^verbatim>\<open>src/internal/frozen/frozen.go\<close>. A channel is a number drawn from a counter; a closed broadcast channel
  is a member of \<open>closed\<close>, a filled one-slot buffer a member of \<open>full\<close>. Each method runs under its mutex;
  \<^verbatim>\<open>Notify\<close> closes the channels after it has taken them out of the map, which nobody else can then reach.
\<close>

section \<open>Broadcast sets\<close>

record 'k watch_set =
  wset_watchers :: "('k, nat list) gomap"
  wset_next :: nat
  wset_closed :: "nat set"

definition watchers_of :: "'k watch_set \<Rightarrow> 'k \<Rightarrow> nat list" where
  "watchers_of s k = (case gm_get (wset_watchers s) k of None \<Rightarrow> [] | Some chs \<Rightarrow> chs)"

definition Watch :: "'k \<Rightarrow> 'k watch_set \<Rightarrow> nat \<times> 'k watch_set" where
  "Watch k s = (wset_next s, s\<lparr>wset_next := Suc (wset_next s),
     wset_watchers := gm_put k (watchers_of s k @ [wset_next s]) (wset_watchers s)\<rparr>)"

text \<open>The cancel function \<^verbatim>\<open>Watch\<close> returns.\<close>

definition watch_cancel :: "'k \<Rightarrow> nat \<Rightarrow> 'k watch_set \<Rightarrow> 'k watch_set" where
  "watch_cancel k ch s =
     (let chs = remove1 ch (watchers_of s k)
      in s\<lparr>wset_watchers := (if chs = [] then gm_del k (wset_watchers s) else gm_put k chs (wset_watchers s))\<rparr>)"

text \<open>Closing a closed channel panics: \<open>None\<close>.\<close>

fun close_all :: "nat list \<Rightarrow> nat set \<Rightarrow> nat set option" where
  "close_all [] closed = Some closed"
| "close_all (ch # chs) closed = (if ch \<in> closed then None else close_all chs (insert ch closed))"

definition Notify :: "'k \<Rightarrow> 'k watch_set \<Rightarrow> 'k watch_set option" where
  "Notify k s = (case close_all (watchers_of s k) (wset_closed s) of None \<Rightarrow> None
     | Some closed \<Rightarrow> Some (s\<lparr>wset_watchers := gm_del k (wset_watchers s), wset_closed := closed\<rparr>))"

definition wset_inv :: "'k watch_set \<Rightarrow> bool" where
  "wset_inv s \<longleftrightarrow> (\<forall>k. distinct (watchers_of s k) \<and> set (watchers_of s k) \<inter> wset_closed s = {}
       \<and> (\<forall>ch\<in>set (watchers_of s k). ch < wset_next s))
     \<and> (\<forall>j k. j \<noteq> k \<longrightarrow> set (watchers_of s j) \<inter> set (watchers_of s k) = {})
     \<and> (\<forall>ch\<in>wset_closed s. ch < wset_next s)"

lemma watchers_of_Watch [simp]:
  "watchers_of (snd (Watch k s)) j = (if j = k then watchers_of s k @ [wset_next s] else watchers_of s j)"
  by (simp add: watchers_of_def Watch_def)

lemma watchers_of_cancel [simp]:
  "watchers_of (watch_cancel k ch s) j = (if j = k then remove1 ch (watchers_of s k) else watchers_of s j)"
  by (auto simp: watchers_of_def watch_cancel_def Let_def)

lemma close_all_ok: "distinct chs \<Longrightarrow> set chs \<inter> closed = {} \<Longrightarrow> close_all chs closed = Some (closed \<union> set chs)"
  by (induction chs arbitrary: closed) auto

lemma Watch_inv: "wset_inv s \<Longrightarrow> wset_inv (snd (Watch k s))"
  unfolding wset_inv_def watchers_of_Watch by (auto simp: Watch_def less_Suc_eq split: if_splits)

lemma cancel_inv: "wset_inv s \<Longrightarrow> wset_inv (watch_cancel k ch s)"
  unfolding wset_inv_def watchers_of_cancel
  by (auto simp: watch_cancel_def Let_def split: if_splits dest: notin_set_remove1) (meson disjoint_iff notin_set_remove1)+

lemma Notify_effect:
  assumes "wset_inv s"
  shows "\<exists>s'. Notify k s = Some s' \<and> wset_inv s' \<and> wset_closed s' = wset_closed s \<union> set (watchers_of s k)
    \<and> (\<forall>j. watchers_of s' j = (if j = k then [] else watchers_of s j))"
proof -
  have ok: "distinct (watchers_of s k)" "set (watchers_of s k) \<inter> wset_closed s = {}" using assms by (auto simp: wset_inv_def)
  let ?s = "s\<lparr>wset_watchers := gm_del k (wset_watchers s), wset_closed := wset_closed s \<union> set (watchers_of s k)\<rparr>"
  have w: "watchers_of ?s j = (if j = k then [] else watchers_of s j)" for j by (simp add: watchers_of_def)
  have "wset_inv ?s" using assms unfolding wset_inv_def w by auto (meson disjoint_iff)
  then show ?thesis using close_all_ok [OF ok] w by (simp add: Notify_def)
qed

section \<open>Signals\<close>

record 'k signals =
  sig_armed :: "('k, nat) gomap"
  sig_next :: nat
  sig_full :: "nat set"

definition Arm :: "'k \<Rightarrow> 'k signals \<Rightarrow> nat \<times> 'k signals" where
  "Arm k s = (sig_next s, s\<lparr>sig_next := Suc (sig_next s), sig_armed := gm_put k (sig_next s) (sig_armed s)\<rparr>)"

definition Disarm :: "'k \<Rightarrow> 'k signals \<Rightarrow> 'k signals" where
  "Disarm k s = s\<lparr>sig_armed := gm_del k (sig_armed s)\<rparr>"

definition Fire :: "'k \<Rightarrow> 'k signals \<Rightarrow> 'k signals" where
  "Fire k s = (case gm_get (sig_armed s) k of None \<Rightarrow> s | Some ch \<Rightarrow> s\<lparr>sig_full := insert ch (sig_full s)\<rparr>)"

definition signals_Len :: "'k signals \<Rightarrow> nat" where
  "signals_Len s = length (sig_armed s)"

lemma Fire_armed: "gm_get (sig_armed s) k = Some ch \<Longrightarrow> ch \<in> sig_full (Fire k s)"
  by (simp add: Fire_def)

lemma Fire_sel [simp]: "sig_armed (Fire k s) = sig_armed s" "sig_next (Fire k s) = sig_next s" "sig_full s \<subseteq> sig_full (Fire k s)"
  by (auto simp: Fire_def split: option.split)

section \<open>Dirty flags\<close>

record 'k dirty_set =
  ds_marked :: "'k set"

definition dirty_Mark :: "'k \<Rightarrow> 'k dirty_set \<Rightarrow> 'k dirty_set" where
  "dirty_Mark k s = s\<lparr>ds_marked := insert k (ds_marked s)\<rparr>"

definition Take :: "'k \<Rightarrow> 'k dirty_set \<Rightarrow> bool \<times> 'k dirty_set" where
  "Take k s = (k \<in> ds_marked s, s\<lparr>ds_marked := ds_marked s - {k}\<rparr>)"

text \<open>
  The discipline the package asks of its users: writers mark after they write, the holder takes first
  and then reads. \<open>cell\<close> is the written value, \<open>unmarked\<close> the writes of \<open>k\<close> whose mark has not happened yet,
  \<open>copy\<close> the holder's copy and \<open>reloading\<close> the holder between a successful take and its read.
\<close>

record 'k dirty_user =
  du_set :: "'k dirty_set"
  du_cell :: nat
  du_unmarked :: nat
  du_copy :: nat
  du_reloading :: bool

inductive dirty_step :: "'k \<Rightarrow> 'k dirty_user \<Rightarrow> 'k dirty_user \<Rightarrow> bool" for k where
  wr: "dirty_step k u (u\<lparr>du_cell := Suc (du_cell u), du_unmarked := Suc (du_unmarked u)\<rparr>)"
| mark: "du_unmarked u = Suc n \<Longrightarrow> dirty_step k u (u\<lparr>du_set := dirty_Mark k (du_set u), du_unmarked := n\<rparr>)"
| other: "j \<noteq> k \<Longrightarrow> dirty_step k u (u\<lparr>du_set := dirty_Mark j (du_set u)\<rparr>)"
| other_take: "j \<noteq> k \<Longrightarrow> dirty_step k u (u\<lparr>du_set := snd (Take j (du_set u))\<rparr>)"
| take: "\<not> du_reloading u \<Longrightarrow> Take k (du_set u) = (b, s') \<Longrightarrow> dirty_step k u (u\<lparr>du_set := s', du_reloading := b\<rparr>)"
| read: "du_reloading u \<Longrightarrow> dirty_step k u (u\<lparr>du_copy := du_cell u, du_reloading := False\<rparr>)"

definition dirty_inv :: "'k \<Rightarrow> 'k dirty_user \<Rightarrow> bool" where
  "dirty_inv k u \<longleftrightarrow> du_copy u = du_cell u \<or> k \<in> ds_marked (du_set u) \<or> du_reloading u \<or> 0 < du_unmarked u"

lemma dirty_step_inv: "dirty_step k u u' \<Longrightarrow> dirty_inv k u \<Longrightarrow> dirty_inv k u'"
  by (induction rule: dirty_step.induct) (auto simp: dirty_inv_def dirty_Mark_def Take_def)

section \<open>Frozen maps\<close>

record ('k, 'v) frozen_map =
  fz_frozen :: bool
  fz_m :: "('k, 'v) gomap"

text \<open>\<^verbatim>\<open>Put\<close> panics on a frozen map: \<open>None\<close>.\<close>

definition Put :: "'k \<Rightarrow> 'v \<Rightarrow> ('k, 'v) frozen_map \<Rightarrow> ('k, 'v) frozen_map option" where
  "Put k v f = (if fz_frozen f then None else Some (f\<lparr>fz_m := gm_put k v (fz_m f)\<rparr>))"

definition Get :: "'k \<Rightarrow> ('k, 'v) frozen_map \<Rightarrow> 'v option" where
  "Get k f = gm_get (fz_m f) k"

definition frozen_Len :: "('k, 'v) frozen_map \<Rightarrow> nat" where
  "frozen_Len f = length (fz_m f)"

text \<open>\<^verbatim>\<open>Range\<close> over the entries seen at the call; the callback threads the caller's state.\<close>

fun range_loop :: "('k \<Rightarrow> 'v \<Rightarrow> 'a \<Rightarrow> bool \<times> 'a) \<Rightarrow> ('k \<times> 'v) list \<Rightarrow> 'a \<Rightarrow> 'a" where
  "range_loop fn [] a = a"
| "range_loop fn ((k, v) # rest) a = (case fn k v a of (True, a') \<Rightarrow> range_loop fn rest a' | (False, a') \<Rightarrow> a')"

definition Range :: "('k \<Rightarrow> 'v \<Rightarrow> 'a \<Rightarrow> bool \<times> 'a) \<Rightarrow> ('k, 'v) frozen_map \<Rightarrow> 'a \<Rightarrow> 'a" where
  "Range fn f a = range_loop fn (fz_m f) a"

definition Freeze :: "('k, 'v) frozen_map \<Rightarrow> ('k, 'v) frozen_map" where
  "Freeze f = f\<lparr>fz_frozen := True\<rparr>"

inductive frozen_step :: "('k, 'v) frozen_map \<Rightarrow> ('k, 'v) frozen_map \<Rightarrow> bool" where
  put: "Put k v f = Some f' \<Longrightarrow> frozen_step f f'"
| freeze: "frozen_step f (Freeze f)"

lemma frozen_stable: "frozen_step\<^sup>*\<^sup>* f f' \<Longrightarrow> fz_frozen f \<Longrightarrow> fz_frozen f' \<and> fz_m f' = fz_m f"
proof (induction rule: rtranclp_induct)
  case (step y z)
  then show ?case by (auto elim!: frozen_step.cases simp: Put_def Freeze_def split: if_splits)
qed simp

section \<open>Properties\<close>

text \<open>A channel registered by \<^verbatim>\<open>Watch\<close> is closed by the next \<^verbatim>\<open>Notify\<close> of its key, not by a notify of another key,
  and no notify ever closes a channel twice.\<close>

theorem watch_then_notify:
  assumes "wset_inv s" and "Watch k s = (ch, s1)"
  shows "\<exists>s2. Notify j s1 = Some s2 \<and> wset_inv s2 \<and> (ch \<in> wset_closed s2 \<longleftrightarrow> j = k)"
proof -
  have s1: "wset_inv s1" "watchers_of s1 i = (if i = k then watchers_of s k @ [wset_next s] else watchers_of s i)"
    "wset_closed s1 = wset_closed s" for i
    using Watch_inv [OF assms(1), of k] watchers_of_Watch [of k s i] assms(2) by (auto simp: Watch_def)
  have ch: "ch = wset_next s" using assms(2) by (simp add: Watch_def)
  have "ch \<notin> wset_closed s" "ch \<notin> set (watchers_of s i)" for i using assms(1) ch by (auto simp: wset_inv_def)
  then show ?thesis using Notify_effect [OF s1(1), of j] s1(2,3) ch by (auto split: if_splits)
qed

theorem watch_then_notify_witness:
  "\<exists>ch s1 s2. Watch ''run'' \<lparr>wset_watchers = [], wset_next = 0, wset_closed = {}\<rparr> = (ch, s1) \<and> Notify ''run'' s1 = Some s2
     \<and> ch \<in> wset_closed s2"
proof -
  have inv: "wset_inv (\<lparr>wset_watchers = [], wset_next = 0, wset_closed = {}\<rparr> :: string watch_set)"
    by (simp add: wset_inv_def watchers_of_def)
  obtain ch s1 where w: "Watch ''run'' \<lparr>wset_watchers = [], wset_next = 0, wset_closed = {}\<rparr> = (ch, s1)" by fastforce
  from watch_then_notify [OF inv w, of "''run''"] w show ?thesis by auto
qed

text \<open>With writers that mark after they write and a holder that takes before it reads, a holder that is not
  reloading and finds no mark, with no write still waiting for its mark, has a copy that is up to date.\<close>

theorem dirtyset_no_missed_update:
  assumes "(dirty_step k)\<^sup>*\<^sup>* u u'" and "du_copy u = du_cell u" and "\<not> du_reloading u'" and "du_unmarked u' = 0"
    and "Take k (du_set u') = (False, s')"
  shows "du_copy u' = du_cell u'"
proof -
  have "dirty_inv k u'" using assms(1)
    by (induction rule: rtranclp_induct) (auto simp: dirty_inv_def assms(2) dest: dirty_step_inv [unfolded dirty_inv_def])
  then show ?thesis using assms(3-5) by (auto simp: dirty_inv_def Take_def)
qed

abbreviation wit_dirty :: "nat set \<Rightarrow> nat \<Rightarrow> nat \<Rightarrow> nat \<Rightarrow> bool \<Rightarrow> nat dirty_user" where
  "wit_dirty m c n d b \<equiv> \<lparr>du_set = \<lparr>ds_marked = m\<rparr>, du_cell = c, du_unmarked = n, du_copy = d, du_reloading = b\<rparr>"

theorem dirtyset_no_missed_update_witness: "du_copy (wit_dirty {} 1 0 1 False) = 1"
proof -
  have "dirty_step 7 (wit_dirty {} 0 0 0 False) (wit_dirty {} 1 1 0 False)"
    using dirty_step.wr [of 7 "wit_dirty {} 0 0 0 False"] by simp
  moreover have "dirty_step 7 (wit_dirty {} 1 1 0 False) (wit_dirty {7} 1 0 0 False)"
    using dirty_step.mark [of "wit_dirty {} 1 1 0 False" 0 7] by (simp add: dirty_Mark_def)
  moreover have "dirty_step 7 (wit_dirty {7} 1 0 0 False) (wit_dirty {} 1 0 0 True)"
    using dirty_step.take [of "wit_dirty {7} 1 0 0 False" 7 True "\<lparr>ds_marked = {}\<rparr>"] by (simp add: Take_def)
  moreover have "dirty_step 7 (wit_dirty {} 1 0 0 True) (wit_dirty {} 1 0 1 False)"
    using dirty_step.read [of "wit_dirty {} 1 0 0 True" 7] by simp
  ultimately have "(dirty_step 7)\<^sup>*\<^sup>* (wit_dirty {} 0 0 0 False) (wit_dirty {} 1 0 1 False)"
    by (meson converse_rtranclp_into_rtranclp r_into_rtranclp)
  from dirtyset_no_missed_update [OF this, of "\<lparr>ds_marked = {}\<rparr>"] show ?thesis by (simp add: Take_def)
qed

text \<open>Once a frozen map is frozen, every later \<^verbatim>\<open>Put\<close> panics and every lookup keeps its answer; before that, a
  \<^verbatim>\<open>Put\<close> is what the next lookup of its key returns and changes no other key.\<close>

theorem frozen_map_stable:
  assumes "frozen_step\<^sup>*\<^sup>* (Freeze f) f'"
  shows "Put k v f' = None \<and> Get k f' = Get k f \<and> (fz_frozen f \<or> (\<exists>g. Put k v f = Some g \<and> Get j g = (if j = k then Some v else Get j f)))"
  using frozen_stable [OF assms] by (auto simp: Freeze_def Put_def Get_def)

theorem frozen_map_stable_witness:
  "Get ''p'' (Freeze \<lparr>fz_frozen = False, fz_m = [(''p'', 1::nat)]\<rparr>) = Some 1"
  using frozen_map_stable [OF rtranclp.rtrancl_refl, where f = "\<lparr>fz_frozen = False, fz_m = [(''p'', 1::nat)]\<rparr>" and k = "''p''"]
  by (simp add: Get_def)

end
