(* ===== verification/Bind.thy ===== *)
theory Bind
  imports Invocation Ledger Signals Ids Store_Spec
begin

text \<open>
  Pipeline definitions and their registration: \<^verbatim>\<open>src/pipelinedef/pipelinedef.go\<close>,
  \<^verbatim>\<open>src/engine/bind.go\<close>, \<^verbatim>\<open>src/engine/middleware.go\<close> and the registration part of
  \<^verbatim>\<open>src/engine/engine.go\<close> (\<^verbatim>\<open>register\<close>, \<^verbatim>\<open>checkRunClasses\<close>, \<^verbatim>\<open>runClassOf\<close>, \<^verbatim>\<open>resolveMutexes\<close>).
  A composed handler is the type variable \<open>'h\<close>, an unwind adapter \<open>'u\<close>; middleware is a function
  on \<open>'h\<close>, and a nil entry of a slice is \<open>None\<close>. Calling a nil middleware is Go's nil dereference
  and is the error \<open>BindPanic\<close>.

  The lemmas show which definitions \<^verbatim>\<open>Bind\<close> accepts and what it builds from them, that a step has
  one owner among the registered pipelines, and that the exclusion sets computed at \<^verbatim>\<open>Start\<close> are
  exactly the pipelines that share a mutex, hence symmetric.
\<close>

section \<open>Definitions\<close>

record ('h, 'u) pstep =
  ps_id :: step_id
  ps_unwind :: bool
  ps_retired :: bool
  ps_has_state :: bool
  ps_class :: string
  ps_run :: "'h option"
  ps_unwind_func :: "'u option"

datatype 'm reduce_result =
    Reduced "'m option" "goerr list"
  | ReducePanic string

type_synonym 'm reducer = "'m reduce_view \<Rightarrow> 'm reduce_result"

record ('h, 'u, 'm) config =
  cf_id :: pipeline_id
  cf_steps :: "('h, 'u) pstep list"
  cf_mutexes :: "string list"
  cf_class :: string
  cf_run_class :: string
  cf_middleware :: "('h \<Rightarrow> 'h) option list"
  cf_new_input :: "'m option"
  cf_reduce :: "'m reducer option"
  cf_reduce_failure :: "'m reducer option"

text \<open>\<^verbatim>\<open>pipelinedef.New\<close> copies the slices and applies the default concurrency class.\<close>

definition def_New :: "('h, 'u, 'm) config \<Rightarrow> ('h, 'u, 'm) config" where
  "def_New cfg = cfg\<lparr>cf_steps := map (\<lambda>s. if ps_class s = [] then s\<lparr>ps_class := cf_class cfg\<rparr> else s) (cf_steps cfg)\<rparr>"

definition def_WithMiddleware :: "('h \<Rightarrow> 'h) option list \<Rightarrow> ('h, 'u, 'm) config \<Rightarrow> ('h, 'u, 'm) config" where
  "def_WithMiddleware mw c = c\<lparr>cf_middleware := cf_middleware c @ mw\<rparr>"

section \<open>Middleware\<close>

text \<open>\<^verbatim>\<open>wrap\<close>: both loops run backwards; \<open>None\<close> is the call of a nil middleware.\<close>

fun wrap_chain :: "('h \<Rightarrow> 'h) option list \<Rightarrow> 'h \<Rightarrow> 'h option" where
  "wrap_chain [] h = Some h"
| "wrap_chain (mw # chain) h = (case wrap_chain chain h of
     None \<Rightarrow> None
   | Some h' \<Rightarrow> (case mw of None \<Rightarrow> None | Some f \<Rightarrow> Some (f h')))"

fun wrap :: "'h \<Rightarrow> ('h \<Rightarrow> 'h) option list list \<Rightarrow> 'h option" where
  "wrap h [] = Some h"
| "wrap h (chain # cs) = (case wrap h cs of None \<Rightarrow> None | Some h' \<Rightarrow> wrap_chain chain h')"

section \<open>Binding\<close>

record ('h, 'u) bound_step =
  bs_step :: "('h, 'u) pstep"
  bs_forward :: 'h
  bs_unwind :: "'h option"

record ('h, 'u, 'm) bound_def =
  bd_cfg :: "('h, 'u, 'm) config"
  bd_steps :: "(step_id, ('h, 'u) bound_step) gomap"
  bd_topo :: topology
  bd_excludes :: "pipeline_id list"

datatype bind_error =
    EmptyPipelineID | BadPipelineID | BadMutex string | NilMiddleware nat | NoSteps
  | EmptyStepID | BadStepID step_id | DuplicateStep step_id | NoRunAdapter step_id
  | UnwindDisagrees step_id | BindPanic | BindStarted | BoundTwice pipeline_id
  | StepOwned step_id pipeline_id pipeline_id

fun nil_index :: "nat \<Rightarrow> 'a option list \<Rightarrow> nat option" where
  "nil_index i [] = None"
| "nil_index i (x # xs) = (if x = None then Some i else nil_index (Suc i) xs)"

text \<open>One iteration of the loop over the steps.\<close>

definition bind_step :: "('u \<Rightarrow> 'h) \<Rightarrow> ('h \<Rightarrow> 'h) option list \<Rightarrow> ('h, 'u, 'm) config \<Rightarrow> ('h, 'u) pstep \<Rightarrow>
    ('h, 'u, 'm) bound_def \<Rightarrow> bind_error + ('h, 'u, 'm) bound_def" where
  "bind_step adapt engineMW cfg sc d =
     (if ps_id sc = [] then Inl EmptyStepID
      else if invalidID (ps_id sc) then Inl (BadStepID (ps_id sc))
      else if gm_has (bd_steps d) (ps_id sc) then Inl (DuplicateStep (ps_id sc))
      else case ps_run sc of None \<Rightarrow> Inl (NoRunAdapter (ps_id sc))
      | Some run \<Rightarrow>
        if ps_unwind sc \<noteq> (ps_unwind_func sc \<noteq> None) then Inl (UnwindDisagrees (ps_id sc))
        else case wrap run [engineMW, cf_middleware cfg] of
          None \<Rightarrow> Inl BindPanic
        | Some fwd \<Rightarrow>
          (case (case ps_unwind_func sc of None \<Rightarrow> Some None
                 | Some uf \<Rightarrow> map_option Some (wrap (adapt uf) [engineMW, cf_middleware cfg])) of
             None \<Rightarrow> Inl BindPanic
           | Some unw \<Rightarrow> Inr (d\<lparr>bd_steps := gm_put (ps_id sc) \<lparr>bs_step = sc, bs_forward = fwd, bs_unwind = unw\<rparr> (bd_steps d),
               bd_topo := bd_topo d @ [\<lparr>ls_id = ps_id sc, ls_unwind = ps_unwind sc, ls_retired = ps_retired sc\<rparr>]\<rparr>)))"

fun bind_steps :: "('u \<Rightarrow> 'h) \<Rightarrow> ('h \<Rightarrow> 'h) option list \<Rightarrow> ('h, 'u, 'm) config \<Rightarrow> ('h, 'u) pstep list \<Rightarrow>
    ('h, 'u, 'm) bound_def \<Rightarrow> bind_error + ('h, 'u, 'm) bound_def" where
  "bind_steps adapt engineMW cfg [] d = Inr d"
| "bind_steps adapt engineMW cfg (sc # scs) d = (case bind_step adapt engineMW cfg sc d of
     Inl e \<Rightarrow> Inl e | Inr d' \<Rightarrow> bind_steps adapt engineMW cfg scs d')"

definition bindDefinition :: "('u \<Rightarrow> 'h) \<Rightarrow> ('h, 'u, 'm) config \<Rightarrow> ('h \<Rightarrow> 'h) option list \<Rightarrow> bind_error + ('h, 'u, 'm) bound_def" where
  "bindDefinition adapt cfg engineMW =
     (if cf_id cfg = [] then Inl EmptyPipelineID
      else if invalidID (cf_id cfg) then Inl BadPipelineID
      else case find (\<lambda>m. m = [] \<or> invalidID m) (cf_mutexes cfg) of
        Some m \<Rightarrow> Inl (BadMutex m)
      | None \<Rightarrow> (case nil_index 0 (cf_middleware cfg) of
          Some i \<Rightarrow> Inl (NilMiddleware i)
        | None \<Rightarrow> if cf_steps cfg = [] then Inl NoSteps
            else bind_steps adapt engineMW cfg (cf_steps cfg)
              \<lparr>bd_cfg = cfg, bd_steps = [], bd_topo = [], bd_excludes = []\<rparr>))"

section \<open>Registration\<close>

record ('h, 'u, 'm) registry =
  rg_started :: bool
  rg_pipelines :: "(pipeline_id, ('h, 'u, 'm) bound_def) frozen_map"
  rg_step_owner :: "(step_id, pipeline_id) frozen_map"

definition empty_registry :: "('h, 'u, 'm) registry" where
  "empty_registry = \<lparr>rg_started = False, rg_pipelines = \<lparr>fz_frozen = False, fz_m = []\<rparr>,
     rg_step_owner = \<lparr>fz_frozen = False, fz_m = []\<rparr>\<rparr>"

fun owned_step :: "(step_id, pipeline_id) frozen_map \<Rightarrow> step_id list \<Rightarrow> (step_id \<times> pipeline_id) option" where
  "owned_step owners [] = None"
| "owned_step owners (k # ks) = (case Get k owners of Some p \<Rightarrow> Some (k, p) | None \<Rightarrow> owned_step owners ks)"

fun put_owners :: "pipeline_id \<Rightarrow> step_id list \<Rightarrow> (step_id, pipeline_id) frozen_map \<Rightarrow> (step_id, pipeline_id) frozen_map option" where
  "put_owners p [] owners = Some owners"
| "put_owners p (k # ks) owners = (case Put k p owners of None \<Rightarrow> None | Some o' \<Rightarrow> put_owners p ks o')"

definition register :: "('h, 'u, 'm) bound_def \<Rightarrow> ('h, 'u, 'm) registry \<Rightarrow> bind_error + ('h, 'u, 'm) registry" where
  "register d e = (let p = cf_id (bd_cfg d) in
     if rg_started e then Inl BindStarted
     else if Get p (rg_pipelines e) \<noteq> None then Inl (BoundTwice p)
     else case owned_step (rg_step_owner e) (gm_keys (bd_steps d)) of
       Some (k, owner) \<Rightarrow> Inl (StepOwned k owner p)
     | None \<Rightarrow> (case Put p d (rg_pipelines e) of None \<Rightarrow> Inl BindPanic
       | Some ps \<Rightarrow> (case put_owners p (gm_keys (bd_steps d)) (rg_step_owner e) of None \<Rightarrow> Inl BindPanic
         | Some owners \<Rightarrow> Inr (e\<lparr>rg_pipelines := ps, rg_step_owner := owners\<rparr>))))"

definition Engine_Bind :: "('u \<Rightarrow> 'h) \<Rightarrow> ('h \<Rightarrow> 'h) option list \<Rightarrow> ('h, 'u, 'm) config \<Rightarrow> ('h, 'u, 'm) registry \<Rightarrow>
    bind_error + ('h, 'u, 'm) registry" where
  "Engine_Bind adapt engineMW cfg e = (case bindDefinition adapt cfg engineMW of
     Inl err \<Rightarrow> Inl err | Inr bd \<Rightarrow> register bd e)"

definition runClassOf :: "(pipeline_id, ('h, 'u, 'm) bound_def) frozen_map \<Rightarrow> pipeline_id \<Rightarrow> string" where
  "runClassOf pipelines p = (case Get p pipelines of None \<Rightarrow> [] | Some def \<Rightarrow> cf_run_class (bd_cfg def))"

definition checkRunClasses :: "(string, int) gomap \<Rightarrow> (string, int) gomap \<Rightarrow> string option" where
  "checkRunClasses runClassCapacity classCapacity = find (\<lambda>name. gm_has classCapacity name) (gm_keys runClassCapacity)"

section \<open>Exclusion sets\<close>

definition holders_add :: "pipeline_id \<Rightarrow> string \<Rightarrow> (string, pipeline_id list) gomap \<Rightarrow> (string, pipeline_id list) gomap" where
  "holders_add p m holders = gm_put m ((case gm_get holders m of None \<Rightarrow> [] | Some ps \<Rightarrow> ps) @ [p]) holders"

definition mutex_holders :: "(pipeline_id, ('h, 'u, 'm) bound_def) frozen_map \<Rightarrow> (string, pipeline_id list) gomap" where
  "mutex_holders pipelines =
     Range (\<lambda>p d holders. (True, fold (holders_add p) (cf_mutexes (bd_cfg d)) holders)) pipelines []"

definition exclusion_set :: "(string, pipeline_id list) gomap \<Rightarrow> pipeline_id \<Rightarrow> ('h, 'u, 'm) bound_def \<Rightarrow> pipeline_id list" where
  "exclusion_set holders p d = remdups_adj (sort
     (fold (\<lambda>m s. s @ (case gm_get holders m of None \<Rightarrow> [] | Some ps \<Rightarrow> ps)) (cf_mutexes (bd_cfg d)) [p]))"

text \<open>\<^verbatim>\<open>resolveMutexes\<close> writes the set through the definition's pointer, so the map's entries change in place.\<close>

definition resolveMutexes :: "(pipeline_id, ('h, 'u, 'm) bound_def) frozen_map \<Rightarrow> (pipeline_id, ('h, 'u, 'm) bound_def) frozen_map" where
  "resolveMutexes pipelines = (let holders = mutex_holders pipelines in
     pipelines\<lparr>fz_m := Range (\<lambda>p d m. (True, gm_put p (d\<lparr>bd_excludes := exclusion_set holders p d\<rparr>) m)) pipelines (fz_m pipelines)\<rparr>)"

section \<open>Facts about binding\<close>

abbreviation compose :: "('h \<Rightarrow> 'h) option list \<Rightarrow> 'h \<Rightarrow> 'h" where
  "compose mws h \<equiv> foldr (\<lambda>mw. the mw) mws h"

lemma wrap_chain_eq: "wrap_chain chain h = (if None \<in> set chain then None else Some (compose chain h))"
  by (induction chain) (auto split: option.split)

lemma wrap_eq: "wrap h [a, b] = (if None \<in> set (a @ b) then None else Some (compose (a @ b) h))"
  by (simp add: wrap_chain_eq)

lemma nil_index_None: "nil_index i xs = None \<longleftrightarrow> None \<notin> set xs"
  by (induction xs arbitrary: i) auto

lemma find_None: "find P xs = None \<longleftrightarrow> (\<forall>x\<in>set xs. \<not> P x)"
  by (auto simp: find_None_iff)

lemma mutexes_ok:
  "find (\<lambda>m. m = [] \<or> invalidID m) (cf_mutexes cfg) = None \<longleftrightarrow> list_all (\<lambda>m. m \<noteq> [] \<and> \<not> invalidID m) (cf_mutexes cfg)"
  by (auto simp: find_None list_all_iff)

definition step_valid :: "('h, 'u) pstep \<Rightarrow> bool" where
  "step_valid sc \<longleftrightarrow> ps_id sc \<noteq> [] \<and> \<not> invalidID (ps_id sc) \<and> ps_run sc \<noteq> None \<and> ps_unwind sc = (ps_unwind_func sc \<noteq> None)"

definition bound_of :: "('u \<Rightarrow> 'h) \<Rightarrow> ('h \<Rightarrow> 'h) option list \<Rightarrow> ('h, 'u) pstep \<Rightarrow> ('h, 'u) bound_step" where
  "bound_of adapt mws sc = \<lparr>bs_step = sc, bs_forward = compose mws (the (ps_run sc)),
     bs_unwind = map_option (\<lambda>uf. compose mws (adapt uf)) (ps_unwind_func sc)\<rparr>"

definition lstep_of :: "('h, 'u) pstep \<Rightarrow> lstep" where
  "lstep_of sc = \<lparr>ls_id = ps_id sc, ls_unwind = ps_unwind sc, ls_retired = ps_retired sc\<rparr>"

lemma gm_put_fresh: "\<not> gm_has m k \<Longrightarrow> gm_put k v m = m @ [(k, v)]"
  by (induction m) (auto split: if_splits)

lemma bind_step_eq:
  assumes "None \<notin> set (cf_middleware cfg)"
  shows "(if step_valid sc \<and> \<not> gm_has (bd_steps d) (ps_id sc) \<and> None \<notin> set mw
     then bind_step adapt mw cfg sc d =
       Inr (d\<lparr>bd_steps := gm_put (ps_id sc) (bound_of adapt (mw @ cf_middleware cfg) sc) (bd_steps d),
              bd_topo := bd_topo d @ [lstep_of sc]\<rparr>)
     else (\<exists>e. bind_step adapt mw cfg sc d = Inl e))"
  using assms
  by (auto simp: bind_step_def step_valid_def wrap_eq bound_of_def lstep_of_def simp del: wrap.simps split: option.splits)

lemma bind_steps_eq:
  assumes "None \<notin> set (cf_middleware cfg)"
  shows "(if list_all step_valid scs \<and> distinct (map ps_id scs) \<and> (\<forall>sc\<in>set scs. \<not> gm_has (bd_steps d) (ps_id sc)) \<and> (scs \<noteq> [] \<longrightarrow> None \<notin> set mw)
     then bind_steps adapt mw cfg scs d =
       Inr (d\<lparr>bd_steps := bd_steps d @ map (\<lambda>sc. (ps_id sc, bound_of adapt (mw @ cf_middleware cfg) sc)) scs,
              bd_topo := bd_topo d @ map lstep_of scs\<rparr>)
     else (\<exists>e. bind_steps adapt mw cfg scs d = Inl e))"
proof (induction scs arbitrary: d)
  case (Cons sc scs)
  let ?b = "bound_of adapt (mw @ cf_middleware cfg) sc"
  let ?d = "d\<lparr>bd_steps := gm_put (ps_id sc) ?b (bd_steps d), bd_topo := bd_topo d @ [lstep_of sc]\<rparr>"
  show ?case
  proof (cases "step_valid sc \<and> \<not> gm_has (bd_steps d) (ps_id sc) \<and> None \<notin> set mw")
    case True
    then have s: "bind_step adapt mw cfg sc d = Inr ?d" using bind_step_eq [OF assms, of sc d mw adapt] by simp
    have put: "gm_put (ps_id sc) ?b (bd_steps d) = bd_steps d @ [(ps_id sc, ?b)]"
      using True by (blast intro: gm_put_fresh)
    have cond: "(\<forall>s\<in>set scs. \<not> gm_has (bd_steps ?d) (ps_id s)) \<longleftrightarrow>
        ps_id sc \<notin> ps_id ` set scs \<and> (\<forall>s\<in>set scs. \<not> gm_has (bd_steps d) (ps_id s))"
      by (auto split: if_splits) (metis imageI)
    have next_step: "bind_steps adapt mw cfg (sc # scs) d = bind_steps adapt mw cfg scs ?d" using s by simp
    show ?thesis
    proof (cases "list_all step_valid scs \<and> distinct (map ps_id scs) \<and> ps_id sc \<notin> ps_id ` set scs \<and> (\<forall>s\<in>set scs. \<not> gm_has (bd_steps d) (ps_id s))")
      case all: True
      then have "bind_steps adapt mw cfg scs ?d = Inr (?d\<lparr>bd_steps := bd_steps ?d @ map (\<lambda>sc. (ps_id sc, bound_of adapt (mw @ cf_middleware cfg) sc)) scs,
              bd_topo := bd_topo ?d @ map lstep_of scs\<rparr>)"
        using Cons.IH [of ?d] True unfolding cond by argo
      then show ?thesis unfolding next_step using all True by (simp add: put)
    next
      case none: False
      then have "\<exists>e. bind_steps adapt mw cfg scs ?d = Inl e" using Cons.IH [of ?d] True unfolding cond by argo
      then show ?thesis unfolding next_step using none by auto
    qed
  next
    case False
    then obtain e where "bind_step adapt mw cfg sc d = Inl e" using bind_step_eq [OF assms, of sc d mw adapt] by (auto split: if_splits)
    then show ?thesis using False by auto
  qed
qed simp

lemma bindDefinition_eq:
  "(if cf_id cfg \<noteq> [] \<and> \<not> invalidID (cf_id cfg) \<and> list_all (\<lambda>m. m \<noteq> [] \<and> \<not> invalidID m) (cf_mutexes cfg)
       \<and> None \<notin> set (cf_middleware cfg) \<and> None \<notin> set engineMW \<and> cf_steps cfg \<noteq> []
       \<and> list_all step_valid (cf_steps cfg) \<and> distinct (map ps_id (cf_steps cfg))
    then bindDefinition adapt cfg engineMW = Inr \<lparr>bd_cfg = cfg,
        bd_steps = map (\<lambda>sc. (ps_id sc, bound_of adapt (engineMW @ cf_middleware cfg) sc)) (cf_steps cfg),
        bd_topo = map lstep_of (cf_steps cfg), bd_excludes = []\<rparr>
    else \<exists>err. bindDefinition adapt cfg engineMW = Inl err)"
proof (cases "cf_id cfg \<noteq> [] \<and> \<not> invalidID (cf_id cfg) \<and> list_all (\<lambda>m. m \<noteq> [] \<and> \<not> invalidID m) (cf_mutexes cfg)
       \<and> None \<notin> set (cf_middleware cfg) \<and> cf_steps cfg \<noteq> []")
  case True
  let ?d = "\<lparr>bd_cfg = cfg, bd_steps = [], bd_topo = [], bd_excludes = []\<rparr>"
  have "find (\<lambda>m. m = [] \<or> invalidID m) (cf_mutexes cfg) = None" "nil_index 0 (cf_middleware cfg) = None"
    using True mutexes_ok [of cfg] nil_index_None [of 0 "cf_middleware cfg"] by blast+
  then have "bindDefinition adapt cfg engineMW = bind_steps adapt engineMW cfg (cf_steps cfg) ?d"
    using True by (simp add: bindDefinition_def)
  then show ?thesis using bind_steps_eq [of cfg "cf_steps cfg" ?d engineMW adapt] True by (simp split: if_splits)
next
  case False
  then have "\<exists>err. bindDefinition adapt cfg engineMW = Inl err"
    using mutexes_ok [of cfg] nil_index_None [of 0 "cf_middleware cfg"]
    by (cases "find (\<lambda>m. m = [] \<or> invalidID m) (cf_mutexes cfg)"; cases "nil_index 0 (cf_middleware cfg)")
       (simp_all add: bindDefinition_def, blast)
  then show ?thesis using False by argo
qed

section \<open>Facts about registration\<close>

definition registry_ok :: "('h, 'u, 'm) registry \<Rightarrow> bool" where
  "registry_ok e \<longleftrightarrow> (\<forall>p d k. Get p (rg_pipelines e) = Some d \<longrightarrow> cf_id (bd_cfg d) = p \<and>
     (gm_has (bd_steps d) k \<longrightarrow> Get k (rg_step_owner e) = Some p))"

lemma owned_step_None: "owned_step owners ks = None \<longleftrightarrow> (\<forall>k\<in>set ks. Get k owners = None)"
  by (induction ks) (auto split: option.splits)

lemma put_owners_Get: "put_owners p ks owners = Some owners' \<Longrightarrow>
  Get k owners' = (if k \<in> set ks then Some p else Get k owners)"
  by (induction ks arbitrary: owners) (auto simp: Put_def Get_def split: option.splits if_splits)

lemma register_ok:
  assumes "registry_ok e" and "register d e = Inr e'"
  shows "registry_ok e'"
proof -
  let ?p = "cf_id (bd_cfg d)"
  from assms(2) obtain ps owners where fresh: "Get ?p (rg_pipelines e) = None"
      "owned_step (rg_step_owner e) (gm_keys (bd_steps d)) = None"
    and ps: "Put ?p d (rg_pipelines e) = Some ps"
    and ow: "put_owners ?p (gm_keys (bd_steps d)) (rg_step_owner e) = Some owners"
    and e': "e' = e\<lparr>rg_pipelines := ps, rg_step_owner := owners\<rparr>"
    by (auto simp: register_def Let_def split: if_splits option.splits)
  have gp: "Get q ps = (if q = ?p then Some d else Get q (rg_pipelines e))" for q
    using ps by (auto simp: Put_def Get_def split: if_splits)
  have go: "Get k owners = (if gm_has (bd_steps d) k then Some ?p else Get k (rg_step_owner e))" for k
    using put_owners_Get [OF ow, of k] by (simp add: map_of_eq_None_iff)
  have free: "Get k (rg_step_owner e) = None" if "gm_has (bd_steps d) k" for k
    using fresh(2) that unfolding owned_step_None map_of_eq_None_iff by (metis list.set_map)
  show ?thesis unfolding registry_ok_def
  proof (intro allI impI)
    fix q d' k assume a: "Get q (rg_pipelines e') = Some d'"
    show "cf_id (bd_cfg d') = q \<and> (gm_has (bd_steps d') k \<longrightarrow> Get k (rg_step_owner e') = Some q)"
    proof (cases "q = ?p")
      case True
      then show ?thesis using a gp go e' by simp
    next
      case False
      then have "Get q (rg_pipelines e) = Some d'" using a gp e' by simp
      then have "cf_id (bd_cfg d') = q" "gm_has (bd_steps d') k \<longrightarrow> Get k (rg_step_owner e) = Some q"
        using assms(1) unfolding registry_ok_def by blast+
      then show ?thesis using go [of k] free [of k] e' by (auto split: if_splits)
    qed
  qed
qed

inductive registering :: "('u \<Rightarrow> 'h) \<Rightarrow> ('h \<Rightarrow> 'h) option list \<Rightarrow> ('h, 'u, 'm) registry \<Rightarrow> bool" for adapt mw where
  init: "registering adapt mw empty_registry"
| bind: "registering adapt mw e \<Longrightarrow> Engine_Bind adapt mw cfg e = Inr e' \<Longrightarrow> registering adapt mw e'"

lemma registering_ok: "registering adapt mw e \<Longrightarrow> registry_ok e"
proof (induction rule: registering.induct)
  case init
  then show ?case by (simp add: registry_ok_def empty_registry_def Get_def)
next
  case (bind e cfg e')
  then show ?case by (auto simp: Engine_Bind_def split: sum.splits intro: register_ok)
qed

section \<open>Facts about exclusion sets\<close>

lemma range_loop_fold: "range_loop (\<lambda>k v a. (True, f k v a)) m a = fold (\<lambda>(k, v). f k v) m a"
  by (induction m arbitrary: a) auto

definition holds_in :: "(string, pipeline_id list) gomap \<Rightarrow> string \<Rightarrow> pipeline_id set" where
  "holds_in holders m = set (case gm_get holders m of None \<Rightarrow> [] | Some ps \<Rightarrow> ps)"

lemma holds_in_add: "holds_in (holders_add p m h) m' = (if m' = m then insert p (holds_in h m) else holds_in h m')"
  by (auto simp: holds_in_def holders_add_def split: option.split)

lemma holds_in_fold: "holds_in (fold (holders_add p) ms h) m = (if m \<in> set ms then insert p (holds_in h m) else holds_in h m)"
  by (induction ms arbitrary: h) (auto simp: holds_in_add)

lemma holds_in_pipelines:
  "holds_in (fold (\<lambda>(p, d). fold (holders_add p) (cf_mutexes (bd_cfg d))) ps h) m
     = holds_in h m \<union> {p. \<exists>d. (p, d) \<in> set ps \<and> m \<in> set (cf_mutexes (bd_cfg d))}"
proof (induction ps arbitrary: h)
  case (Cons x ps)
  obtain p d where x: "x = (p, d)" by (cases x)
  then show ?case unfolding fold_simps Cons.IH by (auto simp: holds_in_fold)
qed simp

lemma holds_in_mutex_holders:
  "holds_in (mutex_holders ps) m = {p. \<exists>d. (p, d) \<in> set (fz_m ps) \<and> m \<in> set (cf_mutexes (bd_cfg d))}"
  unfolding mutex_holders_def Range_def range_loop_fold holds_in_pipelines by (simp add: holds_in_def)

lemma set_exclusion_fold:
  "set (fold (\<lambda>m s. s @ (case gm_get h m of None \<Rightarrow> [] | Some ps \<Rightarrow> ps)) ms s) = set s \<union> (\<Union>m\<in>set ms. holds_in h m)"
  by (induction ms arbitrary: s) (auto simp: holds_in_def)

lemma set_exclusion_set: "set (exclusion_set h p d) = insert p (\<Union>m\<in>set (cf_mutexes (bd_cfg d)). holds_in h m)"
  by (simp add: exclusion_set_def set_exclusion_fold)

lemma sorted_exclusion_set: "sorted (exclusion_set h p d) \<and> distinct (exclusion_set h p d)"
proof -
  have "distinct (remdups_adj xs)" if "sorted xs" for xs :: "string list"
    using that by (induction xs rule: remdups_adj.induct) (auto simp: order_le_less)
  then show ?thesis by (simp add: exclusion_set_def)
qed

lemma fold_put_get:
  "gm_ok ps \<Longrightarrow> gm_get (fold (\<lambda>(p, d). gm_put p (f p d)) ps m) q = (case gm_get ps q of None \<Rightarrow> gm_get m q | Some d \<Rightarrow> Some (f q d))"
proof (induction ps arbitrary: m)
  case (Cons x ps)
  obtain p d where x: "x = (p, d)" by (cases x)
  have ok: "gm_ok ps" "gm_get ps p = None" using Cons.prems x by (auto simp: gm_ok_def map_of_eq_None_iff)
  show ?case using Cons.IH [OF ok(1)] ok(2) x by (auto split: option.split)
qed simp

lemma resolveMutexes_Get:
  assumes "gm_ok (fz_m ps)"
  shows "Get p (resolveMutexes ps) = map_option (\<lambda>d. d\<lparr>bd_excludes := exclusion_set (mutex_holders ps) p d\<rparr>) (Get p ps)"
  using fold_put_get [OF assms, of "\<lambda>p d. d\<lparr>bd_excludes := exclusion_set (mutex_holders ps) p d\<rparr>" "fz_m ps" p]
  by (simp add: resolveMutexes_def Let_def Range_def range_loop_fold Get_def split: option.split)

definition excludes_of :: "(pipeline_id, ('h, 'u, 'm) bound_def) frozen_map \<Rightarrow> pipeline_id \<Rightarrow> pipeline_id list" where
  "excludes_of ps p = (case Get p ps of None \<Rightarrow> [] | Some d \<Rightarrow> bd_excludes d)"

definition mutexes_of :: "(pipeline_id, ('h, 'u, 'm) bound_def) frozen_map \<Rightarrow> pipeline_id \<Rightarrow> string set" where
  "mutexes_of ps p = (case Get p ps of None \<Rightarrow> {} | Some d \<Rightarrow> set (cf_mutexes (bd_cfg d)))"

lemma excludes_exact:
  assumes "gm_ok (fz_m ps)" and "Get p ps \<noteq> None"
  shows "q \<in> set (excludes_of (resolveMutexes ps) p) \<longleftrightarrow> q = p \<or> mutexes_of ps p \<inter> mutexes_of ps q \<noteq> {}"
proof -
  obtain d where d: "Get p ps = Some d" using assms(2) by auto
  then have e: "set (excludes_of (resolveMutexes ps) p) = insert p (\<Union>m\<in>set (cf_mutexes (bd_cfg d)). holds_in (mutex_holders ps) m)"
    by (simp add: excludes_of_def resolveMutexes_Get [OF assms(1)] set_exclusion_set)
  have "(\<exists>d'. (q, d') \<in> set (fz_m ps) \<and> m \<in> set (cf_mutexes (bd_cfg d'))) \<longleftrightarrow> m \<in> mutexes_of ps q" for m
    by (simp add: gm_get_mem [OF assms(1), symmetric] mutexes_of_def Get_def split: option.split)
  then show ?thesis unfolding e holds_in_mutex_holders using d by (auto simp: mutexes_of_def)
qed

section \<open>Properties\<close>

text \<open>
  Claim C38. \<^verbatim>\<open>Bind\<close>'s validation accepts exactly the well-formed definitions (non-empty NUL-free
  UTF-8 identifiers and mutexes, at least one step, no step twice, every step with its adapters,
  no nil middleware), and what it builds is the definition: the topology in declaration order,
  and every step under its own id with its operations wrapped by the engine's middleware around
  the pipeline's, first listed outermost.
\<close>

theorem bind_spec:
  "(if cf_id cfg \<noteq> [] \<and> \<not> invalidID (cf_id cfg) \<and> list_all (\<lambda>m. m \<noteq> [] \<and> \<not> invalidID m) (cf_mutexes cfg)
       \<and> None \<notin> set (cf_middleware cfg) \<and> None \<notin> set engineMW \<and> cf_steps cfg \<noteq> []
       \<and> list_all step_valid (cf_steps cfg) \<and> distinct (map ps_id (cf_steps cfg))
    then bindDefinition adapt cfg engineMW = Inr \<lparr>bd_cfg = cfg,
        bd_steps = map (\<lambda>sc. (ps_id sc, bound_of adapt (engineMW @ cf_middleware cfg) sc)) (cf_steps cfg),
        bd_topo = map lstep_of (cf_steps cfg), bd_excludes = []\<rparr>
    else \<exists>err. bindDefinition adapt cfg engineMW = Inl err)"
  by (rule bindDefinition_eq)

text \<open>Claim C39. Among the pipelines an engine has accepted, a step belongs to exactly one.\<close>

theorem step_has_one_owner:
  assumes "registering adapt mw e"
    and "Get p (rg_pipelines e) = Some d" and "gm_has (bd_steps d) k"
    and "Get q (rg_pipelines e) = Some d'" and "gm_has (bd_steps d') k"
  shows "p = q"
  using registering_ok [OF assms(1)] assms(2-5) unfolding registry_ok_def by (metis option.inject)

abbreviation wit_step :: "step_id \<Rightarrow> (nat, nat) pstep" where
  "wit_step k \<equiv> \<lparr>ps_id = k, ps_unwind = False, ps_retired = False, ps_has_state = False, ps_class = [], ps_run = Some 0, ps_unwind_func = None\<rparr>"

abbreviation wit_cfg :: "pipeline_id \<Rightarrow> step_id \<Rightarrow> string list \<Rightarrow> (nat, nat, nat) config" where
  "wit_cfg p k ms \<equiv> \<lparr>cf_id = p, cf_steps = [wit_step k], cf_mutexes = ms, cf_class = [], cf_run_class = [], cf_middleware = [],
     cf_new_input = None, cf_reduce = None, cf_reduce_failure = None\<rparr>"

abbreviation wit_bound :: "pipeline_id \<Rightarrow> step_id \<Rightarrow> string list \<Rightarrow> (nat, nat, nat) bound_def" where
  "wit_bound p k ms \<equiv> \<lparr>bd_cfg = wit_cfg p k ms, bd_steps = [(k, \<lparr>bs_step = wit_step k, bs_forward = 0, bs_unwind = None\<rparr>)],
     bd_topo = [\<lparr>ls_id = k, ls_unwind = False, ls_retired = False\<rparr>], bd_excludes = []\<rparr>"

abbreviation wit_registry :: "(nat, nat, nat) registry" where
  "wit_registry \<equiv> \<lparr>rg_started = False, rg_pipelines = \<lparr>fz_frozen = False, fz_m = [(''a'', wit_bound ''a'' ''s'' [''m''])]\<rparr>,
     rg_step_owner = \<lparr>fz_frozen = False, fz_m = [(''s'', ''a'')]\<rparr>\<rparr>"

lemma wit_registering: "registering id [] wit_registry"
proof -
  have v: "\<not> invalidID ''a''" "\<not> invalidID ''s''" "\<not> invalidID ''m''"
    by (simp_all add: invalidID_def valid_utf8.simps lead_width_def)
  have "Engine_Bind id [] (wit_cfg ''a'' ''s'' [''m'']) empty_registry = Inr wit_registry"
    by (simp add: Engine_Bind_def bindDefinition_def v bind_step_def register_def empty_registry_def Get_def Put_def Let_def)
  then show ?thesis by (rule registering.bind [OF registering.init])
qed

theorem step_has_one_owner_witness:
  "\<exists>d. Get ''a'' (rg_pipelines wit_registry) = Some d \<and> gm_has (bd_steps d) ''s'' \<and> ''a'' = ''a''"
  using step_has_one_owner [OF wit_registering, of "''a''" "wit_bound ''a'' ''s'' [''m'']" "''s''" "''a''" "wit_bound ''a'' ''s'' [''m'']"]
  by (simp add: Get_def)

text \<open>
  Claim C40. The exclusion sets computed at \<^verbatim>\<open>Start\<close> are exact and symmetric: a bound pipeline
  excludes itself and precisely the bound pipelines that share one of its mutexes, in sorted order
  without repetition, whatever order the maps are visited in.
\<close>

theorem resolveMutexes_spec:
  assumes "gm_ok (fz_m ps)" and "Get p ps \<noteq> None"
  shows "sorted (excludes_of (resolveMutexes ps) p) \<and> distinct (excludes_of (resolveMutexes ps) p) \<and>
    set (excludes_of (resolveMutexes ps) p) = insert p {q. mutexes_of ps p \<inter> mutexes_of ps q \<noteq> {}} \<and>
    excl_sym (excludes_of (resolveMutexes ps))"
proof -
  obtain d where d: "Get p ps = Some d" using assms(2) by auto
  have "excl_sym (excludes_of (resolveMutexes ps))" unfolding excl_sym_def
  proof (intro allI impI)
    fix a b assume ab: "b \<in> set (excludes_of (resolveMutexes ps) a)"
    then have a: "Get a ps \<noteq> None" by (cases "Get a ps") (auto simp: excludes_of_def resolveMutexes_Get [OF assms(1)])
    then have eq: "b = a \<or> mutexes_of ps a \<inter> mutexes_of ps b \<noteq> {}" using excludes_exact [OF assms(1)] ab by blast
    then have b: "Get b ps \<noteq> None" using a by (auto simp: mutexes_of_def split: option.splits)
    show "a \<in> set (excludes_of (resolveMutexes ps) b)" using eq excludes_exact [OF assms(1) b] by blast
  qed
  then show ?thesis using excludes_exact [OF assms] sorted_exclusion_set [of "mutex_holders ps" p d] d
    by (auto simp: excludes_of_def resolveMutexes_Get [OF assms(1)])
qed

theorem resolveMutexes_spec_witness:
  "set (excludes_of (resolveMutexes \<lparr>fz_frozen = True, fz_m = [(''a'', wit_bound ''a'' ''s'' [''m'']), (''b'', wit_bound ''b'' ''t'' [''m''])]\<rparr>) ''a'')
     = {''a'', ''b''}"
proof -
  let ?ps = "\<lparr>fz_frozen = True, fz_m = [(''a'', wit_bound ''a'' ''s'' [''m'']), (''b'', wit_bound ''b'' ''t'' [''m''])]\<rparr>"
  have "gm_ok (fz_m ?ps)" "Get ''a'' ?ps \<noteq> None" by (simp_all add: gm_ok_def Get_def)
  from resolveMutexes_spec [OF this] show ?thesis by (auto simp: mutexes_of_def Get_def)
qed

end
