(* ===== verification/Tokenpool.thy ===== *)
theory Tokenpool
  imports Prelude
begin

text \<open>
  The keyed counting semaphore behind the concurrency classes
  (\<^verbatim>\<open>src/internal/tokenpool/tokenpool.go\<close>) and, as the locale \<open>kick_discipline\<close>, the contract both
  pools share with their callers: a pool never wakes anybody itself, it returns the members
  the caller must kick, and no member that could proceed is ever left without an outstanding
  kick. A class pointer of the source is re-read from the map after each update through it,
  which is what the pointer's holder sees. Every operation runs under the pool's mutex.
\<close>

section \<open>Outstanding kicks\<close>

text \<open>
  \<open>ready p\<close> is the set of members that could proceed now. One step of the pool is a call by some
  member (or by nobody, \<open>None\<close>): the caller's outstanding kick is consumed by its call and the
  kicks of the step become outstanding.
\<close>

locale kick_discipline =
  fixes inv :: "'p \<Rightarrow> bool"
    and ready :: "'p \<Rightarrow> 'w set"
    and step :: "'p \<Rightarrow> 'w option \<Rightarrow> 'w set \<Rightarrow> 'p \<Rightarrow> bool"
  assumes step_inv: "inv p \<Longrightarrow> step p who kicks p' \<Longrightarrow> inv p'"
    and step_ready: "inv p \<Longrightarrow> step p who kicks p' \<Longrightarrow> ready p' \<subseteq> (ready p - set_option who) \<union> kicks"
begin

inductive run :: "'p \<times> 'w set \<Rightarrow> 'p \<times> 'w set \<Rightarrow> bool" where
  refl: "run c c"
| call: "run c (p, K) \<Longrightarrow> step p who kicks p' \<Longrightarrow> run c (p', (K - set_option who) \<union> kicks)"

lemma run_ready:
  assumes "run c c'" and "inv (fst c)" and "ready (fst c) \<subseteq> snd c"
  shows "inv (fst c') \<and> ready (fst c') \<subseteq> snd c'"
  using assms
proof (induction rule: run.induct)
  case (call c p K who kicks p')
  then have "inv p" "ready p \<subseteq> K" by auto
  then show ?case using step_inv [OF _ call(2)] step_ready [OF _ call(2)] by auto
qed simp

end

section \<open>State\<close>

record 'w tclass =
  tc_capacity :: int
  tc_inUse :: int
  tc_waiters :: "'w list"

record 'k tpark =
  pk_key :: 'k
  pk_since :: gotime

record ('k, 'w) tpool =
  tp_capacity :: "('k, int) gomap"
  tp_classes :: "('k, 'w tclass) gomap"
  tp_parked :: "('w, 'k tpark) gomap"

record tusage =
  tu_capacity :: int
  tu_inUse :: int
  tu_waiting :: int

definition New :: "('k, int) gomap \<Rightarrow> ('k, 'w) tpool" where
  "New capacity = \<lparr>tp_capacity = capacity, tp_classes = [], tp_parked = []\<rparr>"

section \<open>Operations\<close>

definition nextWaiter :: "'w tclass \<Rightarrow> 'w option" where
  "nextWaiter c = (if tc_inUse c < tc_capacity c then (case tc_waiters c of [] \<Rightarrow> None | x # _ \<Rightarrow> Some x) else None)"

definition class_kick :: "'k \<Rightarrow> ('k, 'w) tpool \<Rightarrow> 'w list" where
  "class_kick k p = (case gm_get (tp_classes p) k of None \<Rightarrow> []
     | Some c \<Rightarrow> (case nextWaiter c of None \<Rightarrow> [] | Some x \<Rightarrow> [x]))"

definition upd_class :: "'k \<Rightarrow> ('w tclass \<Rightarrow> 'w tclass) \<Rightarrow> ('k, 'w) tpool \<Rightarrow> ('k, 'w) tpool" where
  "upd_class k f p = (case gm_get (tp_classes p) k of None \<Rightarrow> p
     | Some c \<Rightarrow> p\<lparr>tp_classes := gm_put k (f c) (tp_classes p)\<rparr>)"

definition drop_waiter :: "'w \<Rightarrow> 'w tclass \<Rightarrow> 'w tclass" where
  "drop_waiter w c = c\<lparr>tc_waiters := filter (\<lambda>x. x \<noteq> w) (tc_waiters c)\<rparr>"

text \<open>The closure \<^verbatim>\<open>unpark\<close> of \<^verbatim>\<open>Acquire\<close>.\<close>

definition unpark :: "'w \<Rightarrow> 'k tpark option \<Rightarrow> bool \<Rightarrow> ('k, 'w) tpool \<Rightarrow> ('k, 'w) tpool \<times> 'w list" where
  "unpark w prior samePending p = (case prior of None \<Rightarrow> (p, [])
     | Some pk \<Rightarrow> (let p1 = upd_class (pk_key pk) (drop_waiter w) (p\<lparr>tp_parked := gm_del w (tp_parked p)\<rparr>)
                   in (p1, if samePending then [] else class_kick (pk_key pk) p1)))"

definition class_for :: "'k \<Rightarrow> int \<Rightarrow> ('k, 'w) tpool \<Rightarrow> ('k, 'w) tpool" where
  "class_for k cap p = (case gm_get (tp_classes p) k of
     None \<Rightarrow> p\<lparr>tp_classes := gm_put k \<lparr>tc_capacity = cap, tc_inUse = 0, tc_waiters = []\<rparr> (tp_classes p)\<rparr>
   | Some _ \<Rightarrow> p)"

definition has_room :: "'k \<Rightarrow> ('k, 'w) tpool \<Rightarrow> bool" where
  "has_room k p = (case gm_get (tp_classes p) k of None \<Rightarrow> False | Some c \<Rightarrow> tc_inUse c < tc_capacity c)"

definition enqueue :: "'w \<Rightarrow> 'w tclass \<Rightarrow> 'w tclass" where
  "enqueue w c = (if w \<in> set (tc_waiters c) then c else c\<lparr>tc_waiters := tc_waiters c @ [w]\<rparr>)"

definition leave_prior :: "'k \<Rightarrow> 'w \<Rightarrow> 'k tpark option \<Rightarrow> ('k, 'w) tpool \<Rightarrow> ('k, 'w) tpool \<times> 'w list" where
  "leave_prior k w prior p = (case prior of None \<Rightarrow> (p, [])
     | Some pk \<Rightarrow> if pk_key pk \<noteq> k
         then (let p1 = upd_class (pk_key pk) (drop_waiter w) p in (p1, class_kick (pk_key pk) p1))
         else (p, []))"

definition Acquire :: "'k \<Rightarrow> 'w \<Rightarrow> bool \<Rightarrow> gotime \<Rightarrow> ('k, 'w) tpool \<Rightarrow> (bool \<times> bool \<times> duration \<times> 'w list) \<times> ('k, 'w) tpool" where
  "Acquire k w bypass now p = (let prior = gm_get (tp_parked p) w in
     if bypass then (case unpark w prior False p of (p1, kicks) \<Rightarrow> ((True, False, 0, kicks), p1))
     else case gm_get (tp_capacity p) k of
       None \<Rightarrow> (case unpark w prior False p of (p1, kicks) \<Rightarrow> ((True, False, 0, kicks), p1))
     | Some cap \<Rightarrow>
        let p0 = class_for k cap p in
        if has_room k p0
        then (case unpark w prior (map_option pk_key prior = Some k) p0 of (p1, kicks) \<Rightarrow>
           let p2 = upd_class k (\<lambda>c. c\<lparr>tc_inUse := tc_inUse c + 1\<rparr>) p1 in
           ((True, True, (case prior of None \<Rightarrow> 0 | Some pk \<Rightarrow> time_sub now (pk_since pk)), kicks @ class_kick k p2), p2))
        else (case leave_prior k w prior p0 of (p1, kicks) \<Rightarrow>
           let p2 = upd_class k (enqueue w) p1;
               since = (case prior of None \<Rightarrow> now | Some pk \<Rightarrow> pk_since pk) in
           ((False, False, 0, kicks), p2\<lparr>tp_parked := gm_put w \<lparr>pk_key = k, pk_since = since\<rparr> (tp_parked p2)\<rparr>)))"

text \<open>\<^verbatim>\<open>Release\<close> panics on a token that was never acquired: \<open>None\<close>.\<close>

definition Release :: "'k \<Rightarrow> ('k, 'w) tpool \<Rightarrow> ('w option \<times> ('k, 'w) tpool) option" where
  "Release k p = (case gm_get (tp_classes p) k of
     None \<Rightarrow> None
   | Some c \<Rightarrow> if tc_inUse c \<le> 0 then None
       else (let c' = c\<lparr>tc_inUse := tc_inUse c - 1\<rparr> in
         Some (nextWaiter c', p\<lparr>tp_classes := gm_put k c' (tp_classes p)\<rparr>)))"

definition Clear :: "'w \<Rightarrow> ('k, 'w) tpool \<Rightarrow> 'w option \<times> ('k, 'w) tpool" where
  "Clear w p = (case gm_get (tp_parked p) w of
     None \<Rightarrow> (None, p)
   | Some pk \<Rightarrow> (let p1 = p\<lparr>tp_parked := gm_del w (tp_parked p)\<rparr> in
       case gm_get (tp_classes p1) (pk_key pk) of
         None \<Rightarrow> (None, p1)
       | Some c \<Rightarrow> (let c' = drop_waiter w c in (nextWaiter c', p1\<lparr>tp_classes := gm_put (pk_key pk) c' (tp_classes p1)\<rparr>))))"

definition ParkedOn :: "'w \<Rightarrow> ('k, 'w) tpool \<Rightarrow> 'k option" where
  "ParkedOn w p = map_option pk_key (gm_get (tp_parked p) w)"

definition Snapshot :: "('k, 'w) tpool \<Rightarrow> ('k, tusage) gomap" where
  "Snapshot p = map (\<lambda>(k, c). (k, \<lparr>tu_capacity = tc_capacity c, tu_inUse = tc_inUse c, tu_waiting = int (length (tc_waiters c))\<rparr>)) (tp_classes p)"

section \<open>Invariant\<close>

definition tp_inv :: "('k, 'w) tpool \<Rightarrow> bool" where
  "tp_inv p \<longleftrightarrow> (\<forall>k c. gm_get (tp_classes p) k = Some c \<longrightarrow>
       gm_get (tp_capacity p) k = Some (tc_capacity c) \<and> 0 \<le> tc_inUse c \<and> tc_inUse c \<le> max 0 (tc_capacity c)
       \<and> distinct (tc_waiters c))
     \<and> (\<forall>w k. (\<exists>c. gm_get (tp_classes p) k = Some c \<and> w \<in> set (tc_waiters c)) \<longleftrightarrow> ParkedOn w p = Some k)"

definition tp_ready :: "('k, 'w) tpool \<Rightarrow> 'w set" where
  "tp_ready p = {x. \<exists>k c. gm_get (tp_classes p) k = Some c \<and> nextWaiter c = Some x}"

inductive tp_step :: "('k, 'w) tpool \<Rightarrow> 'w option \<Rightarrow> 'w set \<Rightarrow> ('k, 'w) tpool \<Rightarrow> bool" where
  acquire: "Acquire k w bypass now p = ((granted, held, waited, kicks), p') \<Longrightarrow> tp_step p (Some w) (set kicks) p'"
| release: "Release k p = Some (kick, p') \<Longrightarrow> tp_step p None (set_option kick) p'"
| clear: "Clear w p = (kick, p') \<Longrightarrow> tp_step p (Some w) (set_option kick) p'"

abbreviation tcls :: "('k, 'w) tpool \<Rightarrow> 'k \<Rightarrow> 'w tclass option" where
  "tcls p \<equiv> gm_get (tp_classes p)"

lemma upd_class_sel [simp, pool_simps]:
  "tcls (upd_class k f p) = (tcls p)(k := map_option f (tcls p k))"
  "tp_parked (upd_class k f p) = tp_parked p" "tp_capacity (upd_class k f p) = tp_capacity p"
  by (auto simp: upd_class_def fun_eq_iff split: option.split)

lemma drop_waiter_sel [simp, pool_simps]:
  "tc_waiters (drop_waiter w c) = filter (\<lambda>x. x \<noteq> w) (tc_waiters c)"
  "tc_inUse (drop_waiter w c) = tc_inUse c" "tc_capacity (drop_waiter w c) = tc_capacity c"
  by (simp_all add: drop_waiter_def)

lemma drop_waiter_absent [simp]: "w \<notin> set (tc_waiters c) \<Longrightarrow> drop_waiter w c = c"
  by (induction c) (auto simp: drop_waiter_def filter_id_conv)

lemma enqueue_sel [simp, pool_simps]:
  "set (tc_waiters (enqueue w c)) = insert w (set (tc_waiters c))"
  "distinct (tc_waiters c) \<Longrightarrow> distinct (tc_waiters (enqueue w c))"
  "tc_inUse (enqueue w c) = tc_inUse c" "tc_capacity (enqueue w c) = tc_capacity c"
  by (auto simp: enqueue_def)

lemma nextWaiter_Some: "nextWaiter c = Some x \<longleftrightarrow> tc_inUse c < tc_capacity c \<and> (\<exists>ys. tc_waiters c = x # ys)"
  by (auto simp: nextWaiter_def split: list.splits)

lemma tp_invD:
  assumes "tp_inv p"
  shows "tcls p k = Some c \<Longrightarrow> gm_get (tp_capacity p) k = Some (tc_capacity c) \<and> 0 \<le> tc_inUse c
      \<and> tc_inUse c \<le> max 0 (tc_capacity c) \<and> distinct (tc_waiters c)"
    "tcls p k = Some c \<Longrightarrow> w \<in> set (tc_waiters c) \<longleftrightarrow> ParkedOn w p = Some k"
    "ParkedOn w p = Some k \<Longrightarrow> \<exists>c. tcls p k = Some c \<and> w \<in> set (tc_waiters c)"
  using assms unfolding tp_inv_def by (blast, metis option.inject, blast)

lemma tp_inv_ext:
  assumes "tp_capacity p' = tp_capacity p" "tcls p' = cls" "\<And>w. ParkedOn w p' = par w"
    and "\<And>k c. cls k = Some c \<Longrightarrow> gm_get (tp_capacity p) k = Some (tc_capacity c) \<and> 0 \<le> tc_inUse c
      \<and> tc_inUse c \<le> max 0 (tc_capacity c) \<and> distinct (tc_waiters c)"
    and "\<And>w k. (\<exists>c. cls k = Some c \<and> w \<in> set (tc_waiters c)) \<longleftrightarrow> par w = Some k"
  shows "tp_inv p'"
  unfolding tp_inv_def assms(1-3) using assms(4,5) by blast

lemma ParkedOn_upd [simp, pool_simps]:
  "ParkedOn v (p\<lparr>tp_parked := gm_del w (tp_parked p)\<rparr>) = (if v = w then None else ParkedOn v p)"
  "ParkedOn v (p\<lparr>tp_parked := gm_put w pk (tp_parked p)\<rparr>) = (if v = w then Some (pk_key pk) else ParkedOn v p)"
  "ParkedOn v (upd_class k f p) = ParkedOn v p"
  by (simp_all add: ParkedOn_def)

text \<open>Unparking removes the waiter from the one queue it stands in.\<close>

lemma unpark_effect:
  assumes "tp_inv p" and "unpark w (gm_get (tp_parked p) w) b p = (p1, kicks)"
  shows "tcls p1 = (\<lambda>k. map_option (drop_waiter w) (tcls p k))" "\<And>v. ParkedOn v p1 = (if v = w then None else ParkedOn v p)"
    "tp_capacity p1 = tp_capacity p"
    "kicks = (case ParkedOn w p of None \<Rightarrow> [] | Some k \<Rightarrow> if b then [] else class_kick k p1)"
proof -
  have out: "map_option (drop_waiter w) (tcls p k) = tcls p k" if "ParkedOn w p \<noteq> Some k" for k
    using that tp_invD(2) [OF assms(1), of k] by (cases "tcls p k") auto
  show "tcls p1 = (\<lambda>k. map_option (drop_waiter w) (tcls p k))"
  proof (cases "gm_get (tp_parked p) w")
    case None
    then show ?thesis using assms(2) out by (auto simp: unpark_def ParkedOn_def)
  next
    case (Some pk)
    then have "tcls p1 = (tcls p)(pk_key pk := map_option (drop_waiter w) (tcls p (pk_key pk)))"
      using assms(2) by (auto simp: unpark_def Let_def)
    then show ?thesis using out Some by (auto simp: ParkedOn_def fun_eq_iff)
  qed
  show "\<And>v. ParkedOn v p1 = (if v = w then None else ParkedOn v p)" "tp_capacity p1 = tp_capacity p"
    "kicks = (case ParkedOn w p of None \<Rightarrow> [] | Some k \<Rightarrow> if b then [] else class_kick k p1)"
    using assms(2) by (auto simp: unpark_def Let_def ParkedOn_def split: option.splits)
qed

lemma inv_drop_all:
  assumes "tp_inv p" "tp_capacity p1 = tp_capacity p" "tcls p1 = (\<lambda>k. map_option (drop_waiter w) (tcls p k))"
    "\<And>v. ParkedOn v p1 = (if v = w then None else ParkedOn v p)"
  shows "tp_inv p1"
proof (rule tp_inv_ext [OF assms(2-4)])
  fix k c assume "map_option (drop_waiter w) (tcls p k) = Some c"
  then show "gm_get (tp_capacity p) k = Some (tc_capacity c) \<and> 0 \<le> tc_inUse c
      \<and> tc_inUse c \<le> max 0 (tc_capacity c) \<and> distinct (tc_waiters c)"
    using tp_invD(1) [OF assms(1), of k] by (auto simp: distinct_filter)
next
  fix v k
  show "(\<exists>c. map_option (drop_waiter w) (tcls p k) = Some c \<and> v \<in> set (tc_waiters c)) \<longleftrightarrow> (if v = w then None else ParkedOn v p) = Some k"
    using tp_invD(2) [OF assms(1), of k _ v] tp_invD(3) [OF assms(1), of v k] by (cases "tcls p k") auto
qed

lemma class_kick_iff: "x \<in> set (class_kick k p) \<longleftrightarrow> (\<exists>c. tcls p k = Some c \<and> nextWaiter c = Some x)"
proof (cases "tcls p k")
  case (Some c)
  then show ?thesis by (cases "nextWaiter c") (auto simp: class_kick_def)
qed (simp add: class_kick_def)

lemma tp_ready_iff: "x \<in> tp_ready p \<longleftrightarrow> (\<exists>k. x \<in> set (class_kick k p))"
  by (simp add: tp_ready_def class_kick_iff)

lemma class_kick_cong: "tcls p k = tcls p' k \<Longrightarrow> class_kick k p = class_kick k p'"
  by (simp add: class_kick_def)

lemma class_kick_member:
  "x \<in> set (class_kick k p) \<Longrightarrow> \<exists>c. tcls p k = Some c \<and> x \<in> set (tc_waiters c) \<and> tc_inUse c < tc_capacity c"
  by (auto simp: class_kick_iff nextWaiter_Some)

text \<open>Once a member is dropped everywhere, only the queue it stood in can expose a new head.\<close>

lemma ready_drop_all:
  assumes "tp_inv p" "tcls p1 = (\<lambda>k. map_option (drop_waiter w) (tcls p k))"
    and "x \<in> set (class_kick k p1)" and "ParkedOn w p \<noteq> Some k"
  shows "x \<in> tp_ready p - {w}"
proof -
  have "map_option (drop_waiter w) (tcls p k) = tcls p k"
    using assms(4) tp_invD(2) [OF assms(1), of k] by (cases "tcls p k") auto
  then have "class_kick k p1 = class_kick k p" using assms(2) by (simp add: class_kick_def)
  moreover have "x \<noteq> w"
    using class_kick_member [OF assms(3)] assms(2) by auto
  ultimately show ?thesis using assms(3) by (auto simp: tp_ready_iff)
qed

lemma class_for_effect:
  assumes "tp_inv p" "gm_get (tp_capacity p) k = Some cap"
  shows "tp_inv (class_for k cap p)" "tp_parked (class_for k cap p) = tp_parked p" "tp_ready (class_for k cap p) = tp_ready p"
    "tp_capacity (class_for k cap p) = tp_capacity p" "tcls (class_for k cap p) k \<noteq> None"
    "\<And>v. ParkedOn v (class_for k cap p) = ParkedOn v p"
proof -
  show par: "tp_parked (class_for k cap p) = tp_parked p" and cap: "tp_capacity (class_for k cap p) = tp_capacity p"
    and "tcls (class_for k cap p) k \<noteq> None"
    by (auto simp: class_for_def split: option.split)
  show parked: "\<And>v. ParkedOn v (class_for k cap p) = ParkedOn v p" by (simp add: ParkedOn_def par)
  show "tp_ready (class_for k cap p) = tp_ready p"
  proof -
    have "class_kick j (class_for k cap p) = class_kick j p" for j
      by (simp add: class_kick_def class_for_def nextWaiter_def split: option.split)
    then show ?thesis by (simp add: set_eq_iff tp_ready_iff)
  qed
  show "tp_inv (class_for k cap p)"
  proof (cases "tcls p k")
    case None
    let ?c = "\<lparr>tc_capacity = cap, tc_inUse = 0, tc_waiters = []\<rparr>"
    have "ParkedOn v p \<noteq> Some k" for v using tp_invD(3) [OF assms(1), of v k] None by auto
    note none = this
    have cls: "tcls (class_for k cap p) = (tcls p)(k \<mapsto> ?c)" using None by (simp add: class_for_def fun_eq_iff)
    show ?thesis
    proof (rule tp_inv_ext [OF cap cls parked])
      show "gm_get (tp_capacity p) j = Some (tc_capacity c') \<and> 0 \<le> tc_inUse c'
          \<and> tc_inUse c' \<le> max 0 (tc_capacity c') \<and> distinct (tc_waiters c')"
        if "((tcls p)(k \<mapsto> ?c)) j = Some c'" for j c'
        using that assms(2) tp_invD(1) [OF assms(1), of j] by (auto split: if_splits)
      show "(\<exists>c'. ((tcls p)(k \<mapsto> ?c)) j = Some c' \<and> v \<in> set (tc_waiters c')) \<longleftrightarrow> ParkedOn v p = Some j" for v j
        using none [of v] tp_invD(2) [OF assms(1), of j _ v] tp_invD(3) [OF assms(1), of v j] by auto
    qed
  qed (simp add: class_for_def assms(1))
qed

lemma take_token:
  assumes "tp_inv p" "has_room k p" and "p2 = upd_class k (\<lambda>c. c\<lparr>tc_inUse := tc_inUse c + 1\<rparr>) p"
  shows "tp_inv p2" "x \<in> tp_ready p2 \<Longrightarrow> x \<in> set (class_kick k p2) \<or> (\<exists>j. j \<noteq> k \<and> x \<in> set (class_kick j p))"
proof -
  obtain c where c: "tcls p k = Some c" "tc_inUse c < tc_capacity c"
    using assms(2) by (auto simp: has_room_def split: option.splits)
  show "tp_inv p2"
  proof (rule tp_inv_ext [where p = p])
    show "tcls p2 = (tcls p)(k \<mapsto> c\<lparr>tc_inUse := tc_inUse c + 1\<rparr>)" "tp_capacity p2 = tp_capacity p"
      "\<And>v. ParkedOn v p2 = ParkedOn v p"
      using c by (simp_all add: assms(3) fun_eq_iff)
    show "gm_get (tp_capacity p) j = Some (tc_capacity c') \<and> 0 \<le> tc_inUse c'
        \<and> tc_inUse c' \<le> max 0 (tc_capacity c') \<and> distinct (tc_waiters c')"
      if "((tcls p)(k \<mapsto> c\<lparr>tc_inUse := tc_inUse c + 1\<rparr>)) j = Some c'" for j c'
      using that c tp_invD(1) [OF assms(1), of j] by (auto split: if_splits)
    show "(\<exists>c'. ((tcls p)(k \<mapsto> c\<lparr>tc_inUse := tc_inUse c + 1\<rparr>)) j = Some c' \<and> v \<in> set (tc_waiters c'))
        \<longleftrightarrow> ParkedOn v p = Some j" for v j
      using c tp_invD(2) [OF assms(1), of j _ v] tp_invD(3) [OF assms(1), of v j] by auto
  qed
  show "x \<in> set (class_kick k p2) \<or> (\<exists>j. j \<noteq> k \<and> x \<in> set (class_kick j p))" if x: "x \<in> tp_ready p2"
  proof -
    obtain j where "x \<in> set (class_kick j p2)" using x by (auto simp: tp_ready_iff)
    moreover have "j \<noteq> k \<Longrightarrow> class_kick j p2 = class_kick j p" by (simp add: class_kick_def assms(3))
    ultimately show ?thesis by metis
  qed
qed

lemma leave_prior_effect:
  assumes "tp_inv p" and "leave_prior k w (gm_get (tp_parked p) w) p = (p1, kicks)"
  shows "tcls p1 = (\<lambda>j. if j = k then tcls p j else map_option (drop_waiter w) (tcls p j))"
    "tp_parked p1 = tp_parked p" "tp_capacity p1 = tp_capacity p"
    "kicks = (case ParkedOn w p of None \<Rightarrow> [] | Some j \<Rightarrow> if j = k then [] else class_kick j p1)"
proof -
  have out: "map_option (drop_waiter w) (tcls p j) = tcls p j" if "ParkedOn w p \<noteq> Some j" for j
    using that tp_invD(2) [OF assms(1), of j] by (cases "tcls p j") auto
  show "tcls p1 = (\<lambda>j. if j = k then tcls p j else map_option (drop_waiter w) (tcls p j))"
  proof (cases "gm_get (tp_parked p) w")
    case None
    then show ?thesis using assms(2) out by (auto simp: leave_prior_def ParkedOn_def fun_eq_iff)
  next
    case (Some pk)
    then have "tcls p1 = (if pk_key pk = k then tcls p else (tcls p)(pk_key pk := map_option (drop_waiter w) (tcls p (pk_key pk))))"
      using assms(2) by (auto simp: leave_prior_def Let_def split: if_splits)
    then show ?thesis using out Some by (auto simp: ParkedOn_def fun_eq_iff)
  qed
  show "tp_parked p1 = tp_parked p" "tp_capacity p1 = tp_capacity p"
    "kicks = (case ParkedOn w p of None \<Rightarrow> [] | Some j \<Rightarrow> if j = k then [] else class_kick j p1)"
    using assms(2) by (auto simp: leave_prior_def Let_def ParkedOn_def split: option.splits if_splits)
qed

lemma park_effect:
  assumes inv: "tp_inv p" and k: "tcls p k = Some c" "\<not> tc_inUse c < tc_capacity c"
    and lp: "leave_prior k w (gm_get (tp_parked p) w) p = (p1, kicks)"
    and p': "p' = (upd_class k (enqueue w) p1)\<lparr>tp_parked := gm_put w \<lparr>pk_key = k, pk_since = since\<rparr> (tp_parked (upd_class k (enqueue w) p1))\<rparr>"
  shows "tp_inv p'" "x \<in> tp_ready p' \<Longrightarrow> x \<in> tp_ready p - {w} \<or> x \<in> set kicks"
proof -
  note e = leave_prior_effect [OF inv lp]
  have cls: "tcls p' = (\<lambda>j. if j = k then Some (enqueue w c) else map_option (drop_waiter w) (tcls p j))"
    using e(1) k(1) by (simp add: p' fun_eq_iff)
  have par: "ParkedOn v p' = (if v = w then Some k else ParkedOn v p)" for v
    by (simp add: p' ParkedOn_def e(2))
  show "tp_inv p'"
  proof (rule tp_inv_ext [OF _ cls par])
    show "tp_capacity p' = tp_capacity p" by (simp add: p' e(3))
    fix j c' assume "(if j = k then Some (enqueue w c) else map_option (drop_waiter w) (tcls p j)) = Some c'"
    then show "gm_get (tp_capacity p) j = Some (tc_capacity c') \<and> 0 \<le> tc_inUse c'
        \<and> tc_inUse c' \<le> max 0 (tc_capacity c') \<and> distinct (tc_waiters c')"
      using tp_invD(1) [OF inv, of j] k(1) by (auto split: if_splits)
  next
    fix v j
    show "(\<exists>c'. (if j = k then Some (enqueue w c) else map_option (drop_waiter w) (tcls p j)) = Some c' \<and> v \<in> set (tc_waiters c'))
        \<longleftrightarrow> (if v = w then Some k else ParkedOn v p) = Some j"
      using tp_invD(2) [OF inv, of j _ v] tp_invD(3) [OF inv, of v j] k(1) by (cases "tcls p j") auto
  qed
  show "x \<in> tp_ready p - {w} \<or> x \<in> set kicks" if x: "x \<in> tp_ready p'"
  proof -
    obtain j where j: "x \<in> set (class_kick j p')" using x by (auto simp: tp_ready_iff)
    have "j \<noteq> k" using class_kick_member [OF j] k(2) by (auto simp: cls)
    then have eq: "class_kick j p' = class_kick j p1" and jk: "tcls p1 j = map_option (drop_waiter w) (tcls p j)"
      using e(1) by (simp_all add: class_kick_def cls)
    show ?thesis
    proof (cases "ParkedOn w p = Some j")
      case True
      then show ?thesis using j eq e(4) \<open>j \<noteq> k\<close> by simp
    next
      case False
      let ?q = "p\<lparr>tp_classes := map (\<lambda>(k, c). (k, drop_waiter w c)) (tp_classes p)\<rparr>"
      have q: "tcls ?q = (\<lambda>k. map_option (drop_waiter w) (tcls p k))" by (simp add: map_of_map)
      have "class_kick j ?q = class_kick j p1" by (rule class_kick_cong) (simp only: q jk)
      then have "x \<in> set (class_kick j ?q)" using j eq by simp
      then show ?thesis using ready_drop_all [OF inv q _ False] by simp
    qed
  qed
qed

lemma unpark_ready:
  assumes "tp_inv p" and "unpark w (gm_get (tp_parked p) w) b p = (p1, kicks)"
  shows "tp_inv p1" "x \<in> set (class_kick j p1) \<Longrightarrow> \<not> b \<or> ParkedOn w p \<noteq> Some j \<Longrightarrow> x \<in> tp_ready p - {w} \<or> x \<in> set kicks"
proof -
  note e = unpark_effect [OF assms]
  show "tp_inv p1" by (rule inv_drop_all [OF assms(1) e(3,1,2)])
  show "x \<in> tp_ready p - {w} \<or> x \<in> set kicks" if "x \<in> set (class_kick j p1)" "\<not> b \<or> ParkedOn w p \<noteq> Some j"
    using that ready_drop_all [OF assms(1) e(1) that(1)] e(4) by (cases "ParkedOn w p = Some j") auto
qed

lemma tp_Acquire_cases:
  assumes inv: "tp_inv p" and run: "Acquire k w bypass now p = ((granted, held, waited, kicks), p')"
  obtains (free) "bypass \<or> gm_get (tp_capacity p) k = None" "unpark w (gm_get (tp_parked p) w) False p = (p', kicks)"
      "granted" "\<not> held"
  | (grant) cap p0 p1 ks where "\<not> bypass" "gm_get (tp_capacity p) k = Some cap" "p0 = class_for k cap p" "has_room k p0"
      "unpark w (gm_get (tp_parked p0) w) (ParkedOn w p0 = Some k) p0 = (p1, ks)"
      "p' = upd_class k (\<lambda>c. c\<lparr>tc_inUse := tc_inUse c + 1\<rparr>) p1" "kicks = ks @ class_kick k p'" "granted" "held"
  | (park) cap p0 p1 since where "\<not> bypass" "gm_get (tp_capacity p) k = Some cap" "p0 = class_for k cap p" "\<not> has_room k p0"
      "leave_prior k w (gm_get (tp_parked p0) w) p0 = (p1, kicks)"
      "p' = (upd_class k (enqueue w) p1)\<lparr>tp_parked := gm_put w \<lparr>pk_key = k, pk_since = since\<rparr> (tp_parked (upd_class k (enqueue w) p1))\<rparr>"
      "\<not> granted" "\<not> held"
proof (cases "bypass \<or> gm_get (tp_capacity p) k = None")
  case True
  obtain p1 ks where "unpark w (gm_get (tp_parked p) w) False p = (p1, ks)" by fastforce
  with True run show ?thesis by (intro free) (auto simp: Acquire_def Let_def split: if_splits)
next
  case False
  then obtain cap where cap: "gm_get (tp_capacity p) k = Some cap" "\<not> bypass" by auto
  define p0 where "p0 = class_for k cap p"
  have par: "tp_parked p0 = tp_parked p" using class_for_effect(2) [OF inv cap(1)] by (simp add: p0_def)
  show ?thesis
  proof (cases "has_room k p0")
    case True
    obtain p1 ks where "unpark w (gm_get (tp_parked p0) w) (ParkedOn w p0 = Some k) p0 = (p1, ks)" by fastforce
    with True cap run show ?thesis
      by (intro grant [OF cap(2,1) p0_def]) (auto simp: Acquire_def Let_def p0_def [symmetric] ParkedOn_def par)
  next
    case False
    obtain p1 ks where "leave_prior k w (gm_get (tp_parked p0) w) p0 = (p1, ks)" by fastforce
    with False cap run show ?thesis
      by (intro park [OF cap(2,1) p0_def False]) (auto simp: Acquire_def Let_def p0_def [symmetric] par)
  qed
qed

lemma tp_Acquire_effect:
  assumes inv: "tp_inv p" and run: "Acquire k w bypass now p = ((granted, held, waited, kicks), p')"
  shows "tp_inv p' \<and> tp_ready p' \<subseteq> (tp_ready p - {w}) \<union> set kicks"
  using run
proof (rule tp_Acquire_cases [OF inv])
  assume "unpark w (gm_get (tp_parked p) w) False p = (p', kicks)"
  from unpark_ready [OF inv this] show ?thesis by (meson subsetI tp_ready_iff Un_iff)
next
  fix cap p0 p1 ks
  assume g: "gm_get (tp_capacity p) k = Some cap" "p0 = class_for k cap p" "has_room k p0"
    "unpark w (gm_get (tp_parked p0) w) (ParkedOn w p0 = Some k) p0 = (p1, ks)"
    "p' = upd_class k (\<lambda>c. c\<lparr>tc_inUse := tc_inUse c + 1\<rparr>) p1" "kicks = ks @ class_kick k p'"
  note e = class_for_effect [OF inv g(1), folded g(2)]
  have room: "has_room k p1"
    using g(3) unpark_effect(1) [OF e(1) g(4)] by (auto simp: has_room_def split: option.splits)
  note t = take_token [OF unpark_ready(1) [OF e(1) g(4)] room g(5)]
  have "x \<in> (tp_ready p - {w}) \<union> set kicks" if x: "x \<in> tp_ready p'" for x
    using t(2) [OF x] unpark_ready(2) [OF e(1) g(4), of x] by (auto simp: g(6) e(3))
  then show ?thesis using t(1) by auto
next
  fix cap p0 p1 since
  assume g: "gm_get (tp_capacity p) k = Some cap" "p0 = class_for k cap p" "\<not> has_room k p0"
    "leave_prior k w (gm_get (tp_parked p0) w) p0 = (p1, kicks)"
    "p' = (upd_class k (enqueue w) p1)\<lparr>tp_parked := gm_put w \<lparr>pk_key = k, pk_since = since\<rparr> (tp_parked (upd_class k (enqueue w) p1))\<rparr>"
  note e = class_for_effect [OF inv g(1), folded g(2)]
  obtain c where c: "tcls p0 k = Some c" "\<not> tc_inUse c < tc_capacity c"
    using g(3) e(5) by (auto simp: has_room_def)
  show ?thesis using park_effect [OF e(1) c g(4,5)] by (auto simp: e(3))
qed

lemma tp_Release_effect:
  assumes inv: "tp_inv p" and run: "Release k p = Some (kick, p')"
  shows "tp_inv p' \<and> tp_ready p' \<subseteq> tp_ready p \<union> set_option kick"
proof -
  obtain c where c: "tcls p k = Some c" "0 < tc_inUse c" "kick = nextWaiter (c\<lparr>tc_inUse := tc_inUse c - 1\<rparr>)"
    "p' = p\<lparr>tp_classes := gm_put k (c\<lparr>tc_inUse := tc_inUse c - 1\<rparr>) (tp_classes p)\<rparr>"
    using run by (auto simp: Release_def Let_def split: option.splits if_splits)
  have "tp_inv p'"
  proof (rule tp_inv_ext [where p = p])
    show "tcls p' = (tcls p)(k \<mapsto> c\<lparr>tc_inUse := tc_inUse c - 1\<rparr>)" "tp_capacity p' = tp_capacity p"
      "\<And>v. ParkedOn v p' = ParkedOn v p"
      by (simp_all add: c(4) ParkedOn_def fun_eq_iff)
    show "gm_get (tp_capacity p) j = Some (tc_capacity c') \<and> 0 \<le> tc_inUse c'
        \<and> tc_inUse c' \<le> max 0 (tc_capacity c') \<and> distinct (tc_waiters c')"
      if "((tcls p)(k \<mapsto> c\<lparr>tc_inUse := tc_inUse c - 1\<rparr>)) j = Some c'" for j c'
      using that c tp_invD(1) [OF inv, of j] by (auto split: if_splits)
    show "(\<exists>c'. ((tcls p)(k \<mapsto> c\<lparr>tc_inUse := tc_inUse c - 1\<rparr>)) j = Some c' \<and> v \<in> set (tc_waiters c'))
        \<longleftrightarrow> ParkedOn v p = Some j" for v j
      using c tp_invD(2) [OF inv, of j _ v] tp_invD(3) [OF inv, of v j] by auto
  qed
  moreover have "x \<in> tp_ready p \<union> set_option kick" if x: "x \<in> tp_ready p'" for x
  proof -
    obtain j where j: "x \<in> set (class_kick j p')" using x by (auto simp: tp_ready_iff)
    have "j = k \<Longrightarrow> nextWaiter (c\<lparr>tc_inUse := tc_inUse c - 1\<rparr>) = Some x" using j by (simp add: class_kick_iff c(4))
    moreover have "j \<noteq> k \<Longrightarrow> x \<in> set (class_kick j p)" using j by (simp add: class_kick_iff c(4))
    ultimately show ?thesis by (cases "j = k") (auto simp: c(3) tp_ready_iff)
  qed
  ultimately show ?thesis by blast
qed

lemma Clear_unpark:
  assumes "tp_inv p" and "Clear w p = (kick, p')"
  shows "\<exists>kicks. unpark w (gm_get (tp_parked p) w) False p = (p', kicks) \<and> set kicks = set_option kick"
proof (cases "gm_get (tp_parked p) w")
  case None
  then show ?thesis using assms(2) by (simp add: Clear_def unpark_def)
next
  case (Some pk)
  then obtain c where c: "tcls p (pk_key pk) = Some c" using tp_invD(3) [OF assms(1), of w "pk_key pk"] by (auto simp: ParkedOn_def)
  then have r: "kick = nextWaiter (drop_waiter w c)"
    "p' = p\<lparr>tp_parked := gm_del w (tp_parked p), tp_classes := gm_put (pk_key pk) (drop_waiter w c) (tp_classes p)\<rparr>"
    using assms(2) Some by (auto simp: Clear_def Let_def)
  then show ?thesis using Some c
    by (cases "nextWaiter (drop_waiter w c)") (auto simp: unpark_def Let_def upd_class_def class_kick_def)
qed

lemma tp_Clear_effect:
  assumes inv: "tp_inv p" and run: "Clear w p = (kick, p')"
  shows "tp_inv p' \<and> tp_ready p' \<subseteq> (tp_ready p - {w}) \<union> set_option kick"
proof -
  obtain ks where u: "unpark w (gm_get (tp_parked p) w) False p = (p', ks)" "set ks = set_option kick"
    using Clear_unpark [OF assms] by blast
  then have "Acquire k w True now p = ((True, False, 0, ks), p')" for k now by (simp add: Acquire_def)
  from tp_Acquire_effect [OF inv this] show ?thesis by (simp add: u(2))
qed

lemma tp_step_effect:
  "tp_step p who kicks p' \<Longrightarrow> tp_inv p \<Longrightarrow> tp_inv p' \<and> tp_ready p' \<subseteq> (tp_ready p - set_option who) \<union> kicks"
proof (induction rule: tp_step.induct)
  case (acquire k w bypass now p granted held waited kicks p')
  then show ?case using tp_Acquire_effect by fastforce
next
  case (release k p kick p')
  then show ?case using tp_Release_effect by fastforce
next
  case (clear w p kick p')
  then show ?case using tp_Clear_effect by fastforce
qed

interpretation tp: kick_discipline tp_inv tp_ready tp_step
  by unfold_locales (use tp_step_effect in blast)+

section \<open>What Acquire does\<close>

definition queue_of :: "('k, 'w) tpool \<Rightarrow> 'k \<Rightarrow> 'w list" where
  "queue_of p k = (case tcls p k of None \<Rightarrow> [] | Some c \<Rightarrow> tc_waiters c)"

definition in_use_of :: "('k, 'w) tpool \<Rightarrow> 'k \<Rightarrow> int" where
  "in_use_of p k = (case tcls p k of None \<Rightarrow> 0 | Some c \<Rightarrow> tc_inUse c)"

lemma class_for_queue [simp]: "queue_of (class_for k cap p) j = queue_of p j" "in_use_of (class_for k cap p) j = in_use_of p j"
  by (simp_all add: queue_of_def in_use_of_def class_for_def split: option.split)

lemma unpark_queue:
  assumes "tp_inv p" and "unpark w (gm_get (tp_parked p) w) b p = (p1, kicks)"
  shows "queue_of p1 j = filter (\<lambda>x. x \<noteq> w) (queue_of p j)" "in_use_of p1 j = in_use_of p j"
  using unpark_effect(1) [OF assms] by (auto simp: queue_of_def in_use_of_def split: option.split)

lemma has_room_class_for:
  assumes "tp_inv p" "gm_get (tp_capacity p) k = Some cap"
  shows "has_room k (class_for k cap p) \<longleftrightarrow> in_use_of p k < cap"
  using tp_invD(1) [OF assms(1), of k] assms(2)
  by (auto simp: has_room_def class_for_def in_use_of_def split: option.splits)

lemma queue_grant:
  assumes "tcls p k \<noteq> None"
  shows "queue_of (upd_class k (\<lambda>c. c\<lparr>tc_inUse := tc_inUse c + 1\<rparr>) p) j = queue_of p j"
    "in_use_of (upd_class k (\<lambda>c. c\<lparr>tc_inUse := tc_inUse c + 1\<rparr>) p) j = in_use_of p j + (if j = k then 1 else 0)"
  using assms by (auto simp: queue_of_def in_use_of_def split: option.split)

lemma queue_park:
  assumes "tp_inv p" "leave_prior k w (gm_get (tp_parked p) w) p = (p1, kicks)" "tcls p k \<noteq> None"
    and "tp_classes p' = tp_classes (upd_class k (enqueue w) p1)"
  shows "queue_of p' j = (if j = k then (if w \<in> set (queue_of p k) then queue_of p k else queue_of p k @ [w])
      else filter (\<lambda>x. x \<noteq> w) (queue_of p j))" "in_use_of p' j = in_use_of p j"
  using assms(3) leave_prior_effect(1) [OF assms(1,2)]
  by (auto simp: queue_of_def in_use_of_def assms(4) enqueue_def split: option.split)

text \<open>Claim C26. What an acquire does: it is granted when the caller bypasses the gate, when the key is
  unlimited or when a token is free, and takes a token in the last case only; a refused waiter
  joins the tail of the key's queue or keeps its place, and leaves every other queue; a granted one
  leaves every queue; all other waiters keep their order.\<close>

theorem tokenpool_acquire_spec:
  assumes inv: "tp_inv p" and run: "Acquire k w bypass now p = ((granted, held, waited, kicks), p')"
  shows "(granted \<longleftrightarrow> bypass \<or> (case gm_get (tp_capacity p) k of None \<Rightarrow> True | Some cap \<Rightarrow> in_use_of p k < cap))
    \<and> (held \<longleftrightarrow> granted \<and> \<not> bypass \<and> gm_has (tp_capacity p) k)
    \<and> queue_of p' j = (if \<not> granted \<and> j = k then (if w \<in> set (queue_of p k) then queue_of p k else queue_of p k @ [w])
           else filter (\<lambda>x. x \<noteq> w) (queue_of p j))
    \<and> in_use_of p' j = in_use_of p j + (if held \<and> j = k then 1 else 0)"
  using run
proof (rule tp_Acquire_cases [OF inv])
  assume "bypass \<or> gm_get (tp_capacity p) k = None" "unpark w (gm_get (tp_parked p) w) False p = (p', kicks)" "granted" "\<not> held"
  then show ?thesis using unpark_queue [OF inv] by auto
next
  fix cap p0 p1 ks
  assume g: "\<not> bypass" "gm_get (tp_capacity p) k = Some cap" "p0 = class_for k cap p" "has_room k p0"
    "unpark w (gm_get (tp_parked p0) w) (ParkedOn w p0 = Some k) p0 = (p1, ks)"
    "p' = upd_class k (\<lambda>c. c\<lparr>tc_inUse := tc_inUse c + 1\<rparr>) p1" "granted" "held"
  note e = class_for_effect [OF inv g(2), folded g(3)]
  have "tcls p1 k \<noteq> None" using unpark_effect(1) [OF e(1) g(5)] e(5) by auto
  from queue_grant [OF this, of j] show ?thesis
    using unpark_queue [OF e(1) g(5), of j] has_room_class_for [OF inv g(2)] g by simp
next
  fix cap p0 p1 since
  assume g: "\<not> bypass" "gm_get (tp_capacity p) k = Some cap" "p0 = class_for k cap p" "\<not> has_room k p0"
    "leave_prior k w (gm_get (tp_parked p0) w) p0 = (p1, kicks)"
    "p' = (upd_class k (enqueue w) p1)\<lparr>tp_parked := gm_put w \<lparr>pk_key = k, pk_since = since\<rparr> (tp_parked (upd_class k (enqueue w) p1))\<rparr>"
    "\<not> granted" "\<not> held"
  note e = class_for_effect [OF inv g(2), folded g(3)]
  have "tp_classes p' = tp_classes (upd_class k (enqueue w) p1)" by (simp add: g(6))
  from queue_park [OF e(1) g(5) e(5) this, of j] show ?thesis
    using has_room_class_for [OF inv g(2)] g by simp
qed

theorem tokenpool_acquire_spec_witness:
  "queue_of (snd (Acquire ''gpu'' ''b'' False 7 (snd (Acquire ''gpu'' ''a'' False 5 (New [(''gpu'', 1)]))))) ''gpu'' = [''b'']"
proof -
  let ?p = "snd (Acquire ''gpu'' ''a'' False 5 (New [(''gpu'', 1)])) :: (string, string) tpool"
  have p: "?p = \<lparr>tp_capacity = [(''gpu'', 1)], tp_classes = [(''gpu'', \<lparr>tc_capacity = 1, tc_inUse = 1, tc_waiters = []\<rparr>)], tp_parked = []\<rparr>"
    by (simp add: Acquire_def New_def Let_def class_for_def has_room_def unpark_def upd_class_def)
  have inv: "tp_inv ?p" unfolding p by (simp add: tp_inv_def ParkedOn_def)
  obtain g h wt ks p' where run: "Acquire ''gpu'' ''b'' False 7 ?p = ((g, h, wt, ks), p')" by (metis prod_cases4 surj_pair)
  from tokenpool_acquire_spec [OF inv run, of "''gpu''"] show ?thesis
    unfolding p using run [unfolded p] by (simp add: queue_of_def in_use_of_def)
qed

definition tp_history :: "('k, int) gomap \<Rightarrow> ('k, 'w) tpool \<times> 'w set \<Rightarrow> bool" where
  "tp_history cap c \<longleftrightarrow> tp.run (New cap, {}) c"

lemma tp_inv_New [simp, intro]: "tp_inv (New cap)"
  by (simp add: tp_inv_def New_def ParkedOn_def)

lemma tp_ready_New [simp]: "tp_ready (New cap) = {}"
  by (simp add: tp_ready_def New_def)

lemma tp_capacity_step: "tp_step p who kicks p' \<Longrightarrow> tp_inv p \<Longrightarrow> tp_capacity p' = tp_capacity p"
proof (induction rule: tp_step.induct)
  case (acquire k w bypass now p granted held waited kicks p')
  from acquire(1) show ?case
  proof (rule tp_Acquire_cases [OF acquire(2)])
    assume "unpark w (gm_get (tp_parked p) w) False p = (p', kicks)"
    then show ?thesis using unpark_effect(3) [OF acquire(2)] by simp
  next
    fix cap p0 p1 ks
    assume g: "gm_get (tp_capacity p) k = Some cap" "p0 = class_for k cap p"
      "unpark w (gm_get (tp_parked p0) w) (ParkedOn w p0 = Some k) p0 = (p1, ks)"
      "p' = upd_class k (\<lambda>c. c\<lparr>tc_inUse := tc_inUse c + 1\<rparr>) p1"
    note e = class_for_effect [OF acquire(2) g(1), folded g(2)]
    show ?thesis using unpark_effect(3) [OF e(1) g(3)] e(4) g(4) by simp
  next
    fix cap p0 p1 since
    assume g: "gm_get (tp_capacity p) k = Some cap" "p0 = class_for k cap p"
      "leave_prior k w (gm_get (tp_parked p0) w) p0 = (p1, kicks)"
      "p' = (upd_class k (enqueue w) p1)\<lparr>tp_parked := gm_put w \<lparr>pk_key = k, pk_since = since\<rparr> (tp_parked (upd_class k (enqueue w) p1))\<rparr>"
    note e = class_for_effect [OF acquire(2) g(1), folded g(2)]
    show ?thesis using leave_prior_effect(3) [OF e(1) g(3)] e(4) g(4) by simp
  qed
next
  case (release k p kick p')
  then show ?case by (auto simp: Release_def Let_def split: option.splits if_splits)
next
  case (clear w p kick p')
  then show ?case by (auto simp: Clear_def Let_def split: option.splits)
qed

lemma tp_run_capacity:
  "tp.run c c' \<Longrightarrow> tp_inv (fst c) \<Longrightarrow> tp_inv (fst c') \<and> tp_capacity (fst c') = tp_capacity (fst c)"
proof (induction rule: tp.run.induct)
  case (call c p K who kicks p')
  then show ?case using tp_capacity_step [OF call(2)] tp_step_effect [OF call(2)] by simp
qed simp

text \<open>Claim C25. In every history of a token pool in which the caller delivers the kicks it is handed, the
  tokens in use of a limited key stay within its capacity, its queue is the waiters parked on it, each once,
  and a free token never strands a queue: if anybody waits while a token is free, the first in line has an
  outstanding kick.\<close>

theorem tokenpool_no_stranded_queue:
  assumes "tp_history capacity (p, K)" and "gm_get capacity k = Some cap"
  shows "0 \<le> in_use_of p k \<and> in_use_of p k \<le> max 0 cap
    \<and> distinct (queue_of p k) \<and> set (queue_of p k) = {x. ParkedOn x p = Some k}
    \<and> (in_use_of p k < cap \<and> queue_of p k \<noteq> [] \<longrightarrow> hd (queue_of p k) \<in> K)"
proof -
  have run: "tp.run (New capacity, {}) (p, K)" using assms(1) by (simp add: tp_history_def)
  have inv: "tp_inv p" and cap: "tp_capacity p = capacity"
    using tp_run_capacity [OF run] tp_inv_New [of capacity] by (simp_all, simp add: New_def)
  have ready: "tp_ready p \<subseteq> K"
    using tp.run_ready [OF run] by simp
  show ?thesis
  proof (cases "tcls p k")
    case None
    then show ?thesis using tp_invD(3) [OF inv, of _ k] by (auto simp: in_use_of_def queue_of_def)
  next
    case (Some c)
    have "tc_inUse c < tc_capacity c \<Longrightarrow> tc_waiters c = x # ys \<Longrightarrow> x \<in> K" for x ys
      using Some ready by (auto simp: tp_ready_def nextWaiter_Some)
    then show ?thesis
      using tp_invD(1) [OF inv Some] tp_invD(2) [OF inv Some] Some cap assms(2)
      by (auto simp: in_use_of_def queue_of_def neq_Nil_conv)
  qed
qed

theorem tokenpool_no_stranded_queue_witness:
  "\<exists>p K. tp_history [(''gpu'', 1)] (p, K) \<and> queue_of p ''gpu'' = [''b''] \<and> in_use_of p ''gpu'' = 0 \<and> ''b'' \<in> K"
proof -
  let ?c = "\<lambda>n ws. [(''gpu'', \<lparr>tc_capacity = 1, tc_inUse = n, tc_waiters = ws\<rparr>)] :: (string, string tclass) gomap"
  let ?pk = "[(''b'', \<lparr>pk_key = ''gpu'', pk_since = 7\<rparr>)] :: (string, string tpark) gomap"
  let ?p1 = "\<lparr>tp_capacity = [(''gpu'', 1)], tp_classes = ?c 1 [], tp_parked = []\<rparr> :: (string, string) tpool"
  let ?p2 = "\<lparr>tp_capacity = [(''gpu'', 1)], tp_classes = ?c 1 [''b''], tp_parked = ?pk\<rparr> :: (string, string) tpool"
  let ?p3 = "\<lparr>tp_capacity = [(''gpu'', 1)], tp_classes = ?c 0 [''b''], tp_parked = ?pk\<rparr> :: (string, string) tpool"
  note defs = Acquire_def New_def Let_def class_for_def has_room_def unpark_def upd_class_def class_kick_def nextWaiter_def leave_prior_def enqueue_def
  have 1: "tp_step (New [(''gpu'', 1)]) (Some ''a'') (set []) ?p1"
    by (rule tp_step.acquire [where k = "''gpu''" and bypass = False and now = 5 and granted = True and held = True and waited = 0])
      (simp add: defs)
  have 2: "tp_step ?p1 (Some ''b'') (set []) ?p2"
    by (rule tp_step.acquire [where k = "''gpu''" and bypass = False and now = 7 and granted = False and held = False and waited = 0])
      (simp add: defs)
  have 3: "tp_step ?p2 None (set_option (Some ''b'')) ?p3"
    by (rule tp_step.release [where k = "''gpu''"]) (simp add: Release_def nextWaiter_def)
  have "tp_history [(''gpu'', 1)] (?p3, {''b''})"
    using tp.run.call [OF tp.run.call [OF tp.run.call [OF tp.run.refl [of "(New [(''gpu'', 1)], {})"] 1] 2] 3]
    by (simp add: tp_history_def)
  moreover have "queue_of ?p3 ''gpu'' = [''b'']" "in_use_of ?p3 ''gpu'' = 0" by (simp_all add: queue_of_def in_use_of_def)
  moreover have "hd (queue_of ?p3 ''gpu'') \<in> {''b''}"
    by (rule tokenpool_no_stranded_queue [OF calculation(1), of "''gpu''" 1, THEN conjunct2, THEN conjunct2, THEN conjunct2, THEN conjunct2, THEN mp])
      (simp_all add: queue_of_def in_use_of_def)
  moreover have "''b'' \<in> {''b''}" using calculation(2,4) by simp
  ultimately show ?thesis by (intro exI [of _ ?p3] exI [of _ "{''b''}"] conjI)
qed

end
