(* ===== verification/Runpool.thy ===== *)
theory Runpool
  imports Tokenpool
begin

text \<open>
  The pool of held tokens with an ordered line behind the run classes
  (\<^verbatim>\<open>src/internal/runpool/runpool.go\<close>): a member is admitted into its key's line at a place, takes
  the token when it and everybody ahead fit in the free capacity, and holds it until released.
  The maps to \<^verbatim>\<open>struct{}\<close> are sets. \<^verbatim>\<open>slices.BinarySearchFunc\<close> on a sorted line returns the first
  position whose order is not below the target, the length of the prefix below it. A nil class
  dereference is the result \<open>None\<close>. The kick contract is an interpretation of \<open>kick_discipline\<close>.
\<close>

section \<open>State\<close>

record ('w, 'o) rclass =
  rc_capacity :: int
  rc_inUse :: int
  rc_line :: "('w \<times> 'o) list"
  rc_sidelined :: int

record ('k, 'w, 'o) rpool =
  rp_capacity :: "('k, int) gomap"
  rp_classes :: "('k, ('w, 'o) rclass) gomap"
  rp_holders :: "('w, 'k) gomap"
  rp_pending :: "('w, 'k) gomap"
  rp_sidelined :: "'w set"
  rp_parked :: "'w set"

record rusage =
  ru_capacity :: int
  ru_inUse :: int
  ru_waiting :: int
  ru_pending :: int

definition New :: "('k, int) gomap \<Rightarrow> ('k, 'w, 'o) rpool" where
  "New capacity = \<lparr>rp_capacity = capacity, rp_classes = [], rp_holders = [], rp_pending = [], rp_sidelined = {}, rp_parked = {}\<rparr>"

section \<open>Operations\<close>

definition pendingCount :: "('w, 'o) rclass \<Rightarrow> int" where
  "pendingCount c = int (length (rc_line c)) + rc_sidelined c"

fun index_of :: "'w \<Rightarrow> ('w \<times> 'o) list \<Rightarrow> nat option" where
  "index_of w [] = None"
| "index_of w (x # xs) = (if fst x = w then Some 0 else map_option Suc (index_of w xs))"

definition insert_at :: "'w \<Rightarrow> 'o::linorder \<Rightarrow> ('w \<times> 'o) list \<Rightarrow> nat \<times> ('w \<times> 'o) list" where
  "insert_at w order line = (let i = length (takeWhile (\<lambda>x. snd x < order) line)
     in (i, take i line @ (w, order) # drop i line))"

definition delete_at :: "nat \<Rightarrow> 'a list \<Rightarrow> 'a list" where
  "delete_at i xs = take i xs @ drop (Suc i) xs"

definition head :: "('w, 'o) rclass \<Rightarrow> 'w option" where
  "head c = (if rc_inUse c < rc_capacity c then (case rc_line c of [] \<Rightarrow> None | x # _ \<Rightarrow> Some (fst x)) else None)"

definition classFor :: "'k \<Rightarrow> ('k, 'w, 'o) rpool \<Rightarrow> (('w, 'o) rclass \<times> ('k, 'w, 'o) rpool) option" where
  "classFor k p = (case gm_get (rp_capacity p) k of None \<Rightarrow> None
     | Some cap \<Rightarrow> (case gm_get (rp_classes p) k of
          Some c \<Rightarrow> Some (c, p)
        | None \<Rightarrow> (let c = \<lparr>rc_capacity = cap, rc_inUse = 0, rc_line = [], rc_sidelined = 0\<rparr>
                  in Some (c, p\<lparr>rp_classes := gm_put k c (rp_classes p)\<rparr>))))"

definition set_class :: "'k \<Rightarrow> ('w, 'o) rclass \<Rightarrow> ('k, 'w, 'o) rpool \<Rightarrow> ('k, 'w, 'o) rpool" where
  "set_class k c p = p\<lparr>rp_classes := gm_put k c (rp_classes p)\<rparr>"

definition Admit :: "'k \<Rightarrow> 'w \<Rightarrow> 'o::linorder \<Rightarrow> int \<Rightarrow> ('k, 'w, 'o) rpool \<Rightarrow> bool \<times> ('k, 'w, 'o) rpool" where
  "Admit k w order maxPending p = (case classFor k p of
     None \<Rightarrow> (True, p)
   | Some (c, p) \<Rightarrow>
       if gm_has (rp_holders p) w then (True, p)
       else if gm_has (rp_pending p) w then (True, p)
       else if 0 < maxPending \<and> maxPending \<le> pendingCount c then (False, p)
       else (True, set_class k (c\<lparr>rc_line := snd (insert_at w order (rc_line c))\<rparr>)
                     (p\<lparr>rp_pending := gm_put w k (rp_pending p)\<rparr>)))"

text \<open>The part of \<^verbatim>\<open>Acquire\<close> that finds or makes the member's place in line.\<close>

definition place :: "'w \<Rightarrow> 'o::linorder \<Rightarrow> ('w, 'o) rclass \<Rightarrow> ('k, 'w, 'o) rpool \<Rightarrow> nat \<times> ('w, 'o) rclass \<times> ('k, 'w, 'o) rpool" where
  "place w order c p = (case index_of w (rc_line c) of
     Some i \<Rightarrow> (i, c, p)
   | None \<Rightarrow> (let c1 = (if w \<in> rp_sidelined p then c\<lparr>rc_sidelined := rc_sidelined c - 1\<rparr> else c);
                 p1 = p\<lparr>rp_sidelined := rp_sidelined p - {w}\<rparr>;
                 (i, line) = insert_at w order (rc_line c1)
             in (i, c1\<lparr>rc_line := line\<rparr>, p1)))"

definition Acquire :: "'k \<Rightarrow> 'w \<Rightarrow> 'o::linorder \<Rightarrow> ('k, 'w, 'o) rpool \<Rightarrow> (bool \<times> 'w option) \<times> ('k, 'w, 'o) rpool" where
  "Acquire k w order p = (case classFor k p of
     None \<Rightarrow> ((True, None), p)
   | Some (c, p) \<Rightarrow>
       if gm_has (rp_holders p) w then ((True, None), p)
       else (let p1 = (if gm_has (rp_pending p) w then p else p\<lparr>rp_pending := gm_put w k (rp_pending p)\<rparr>);
                 (idx, c2, p2) = place w order c p1
             in if rc_capacity c2 \<le> rc_inUse c2 + int idx
                then ((False, None), set_class k c2 (p2\<lparr>rp_parked := insert w (rp_parked p2)\<rparr>))
                else (let c3 = c2\<lparr>rc_line := delete_at idx (rc_line c2), rc_inUse := rc_inUse c2 + 1\<rparr>
                      in ((True, head c3), set_class k c3 (p2\<lparr>rp_parked := rp_parked p2 - {w},
                            rp_pending := gm_del w (rp_pending p2), rp_holders := gm_put w k (rp_holders p2)\<rparr>)))))"

definition remove_line :: "'w \<Rightarrow> ('w, 'o) rclass \<Rightarrow> ('w, 'o) rclass" where
  "remove_line w c = (case index_of w (rc_line c) of None \<Rightarrow> c | Some i \<Rightarrow> c\<lparr>rc_line := delete_at i (rc_line c)\<rparr>)"

definition forget :: "('w, 'o) rclass \<Rightarrow> 'w \<Rightarrow> ('k, 'w, 'o) rpool \<Rightarrow> ('w, 'o) rclass \<times> ('k, 'w, 'o) rpool" where
  "forget c w p =
     (if gm_get (rp_pending p) w = None then (c, p)
      else let p1 = p\<lparr>rp_pending := gm_del w (rp_pending p), rp_parked := rp_parked p - {w}\<rparr> in
        if w \<in> rp_sidelined p1
        then (c\<lparr>rc_sidelined := rc_sidelined c - 1\<rparr>, p1\<lparr>rp_sidelined := rp_sidelined p1 - {w}\<rparr>)
        else (remove_line w c, p1))"

definition Hold :: "'k \<Rightarrow> 'w \<Rightarrow> ('k, 'w, 'o) rpool \<Rightarrow> ('k, 'w, 'o) rpool" where
  "Hold k w p = (case classFor k p of
     None \<Rightarrow> p
   | Some (c, p) \<Rightarrow> if gm_has (rp_holders p) w then p
       else (case forget c w p of (c1, p1) \<Rightarrow>
         set_class k (c1\<lparr>rc_inUse := rc_inUse c1 + 1\<rparr>) (p1\<lparr>rp_holders := gm_put w k (rp_holders p1)\<rparr>)))"

definition Release :: "'w \<Rightarrow> ('k, 'w, 'o) rpool \<Rightarrow> ('w option \<times> ('k, 'w, 'o) rpool) option" where
  "Release w p = (case gm_get (rp_holders p) w of
     Some k \<Rightarrow> (case gm_get (rp_classes p) k of None \<Rightarrow> None
       | Some c \<Rightarrow> (let c1 = c\<lparr>rc_inUse := rc_inUse c - 1\<rparr>
                    in Some (head c1, set_class k c1 (p\<lparr>rp_holders := gm_del w (rp_holders p)\<rparr>))))
   | None \<Rightarrow> (case gm_get (rp_pending p) w of
       Some k \<Rightarrow> (case gm_get (rp_classes p) k of None \<Rightarrow> None
         | Some c \<Rightarrow> (case forget c w p of (c1, p1) \<Rightarrow> Some (head c1, set_class k c1 p1)))
     | None \<Rightarrow> Some (None, p)))"

definition Clear :: "'w \<Rightarrow> ('k, 'w, 'o) rpool \<Rightarrow> ('w option \<times> ('k, 'w, 'o) rpool) option" where
  "Clear w p = (case gm_get (rp_pending p) w of
     None \<Rightarrow> Some (None, p)
   | Some k \<Rightarrow> if w \<in> rp_sidelined p then Some (None, p)
       else (case gm_get (rp_classes p) k of None \<Rightarrow> None
         | Some c \<Rightarrow> (let c1 = (remove_line w c)\<lparr>rc_sidelined := rc_sidelined c + 1\<rparr>
             in Some (head c1, set_class k c1 (p\<lparr>rp_parked := rp_parked p - {w}, rp_sidelined := insert w (rp_sidelined p)\<rparr>)))))"

definition Holds :: "'w \<Rightarrow> ('k, 'w, 'o) rpool \<Rightarrow> bool" where
  "Holds w p = gm_has (rp_holders p) w"

definition ParkedOn :: "'w \<Rightarrow> ('k, 'w, 'o) rpool \<Rightarrow> 'k option" where
  "ParkedOn w p = (if w \<in> rp_parked p then gm_get (rp_pending p) w else None)"

definition Pending :: "'k \<Rightarrow> ('k, 'w, 'o) rpool \<Rightarrow> int" where
  "Pending k p = (case gm_get (rp_classes p) k of None \<Rightarrow> 0 | Some c \<Rightarrow> pendingCount c)"

definition Snapshot :: "('k, 'w, 'o) rpool \<Rightarrow> ('k, rusage) gomap" where
  "Snapshot p = map (\<lambda>(k, c). (k, \<lparr>ru_capacity = rc_capacity c, ru_inUse = rc_inUse c,
     ru_waiting = int (length (filter (\<lambda>x. fst x \<in> rp_parked p) (rc_line c))), ru_pending = pendingCount c\<rparr>)) (rp_classes p)"

section \<open>Invariant\<close>

text \<open>\<open>key\<close> is the caller's fixed assignment of a key to each member.\<close>

definition rp_inv :: "('w \<Rightarrow> 'k) \<Rightarrow> ('k, 'w, 'o::linorder) rpool \<Rightarrow> bool" where
  "rp_inv key p \<longleftrightarrow>
     (\<forall>k c. gm_get (rp_classes p) k = Some c \<longrightarrow> gm_get (rp_capacity p) k = Some (rc_capacity c)
        \<and> sorted (map snd (rc_line c)) \<and> distinct (map fst (rc_line c))
        \<and> rc_inUse c = int (card {w. gm_get (rp_holders p) w = Some k})
        \<and> rc_sidelined c = int (card {w \<in> rp_sidelined p. gm_get (rp_pending p) w = Some k})
        \<and> fst ` set (rc_line c) = {w. gm_get (rp_pending p) w = Some k \<and> w \<notin> rp_sidelined p})
     \<and> (\<forall>w k. gm_get (rp_holders p) w = Some k \<longrightarrow> gm_has (rp_classes p) k \<and> gm_get (rp_pending p) w = None \<and> k = key w)
     \<and> (\<forall>w k. gm_get (rp_pending p) w = Some k \<longrightarrow> gm_has (rp_classes p) k \<and> k = key w)
     \<and> rp_sidelined p \<subseteq> dom (gm_get (rp_pending p)) \<and> rp_parked p \<subseteq> dom (gm_get (rp_pending p)) - rp_sidelined p"

definition rp_ready :: "('k, 'w, 'o) rpool \<Rightarrow> 'w set" where
  "rp_ready p = {x. \<exists>k c. gm_get (rp_classes p) k = Some c \<and> head c = Some x}"

inductive rp_step :: "('w \<Rightarrow> 'k) \<Rightarrow> ('k, 'w, 'o::linorder) rpool \<Rightarrow> 'w option \<Rightarrow> 'w set \<Rightarrow> ('k, 'w, 'o) rpool \<Rightarrow> bool"
  for key where
  admit: "Admit (key w) w order maxPending p = (ok, p') \<Longrightarrow> rp_step key p None (if ok then {w} else {}) p'"
| acquire: "Acquire (key w) w order p = ((granted, kick), p') \<Longrightarrow> rp_step key p (Some w) (set_option kick) p'"
| hold: "gm_get (rp_pending p) w = None \<Longrightarrow> Hold (key w) w p = p' \<Longrightarrow> rp_step key p None {} p'"
| release: "Release w p = Some (kick, p') \<Longrightarrow> rp_step key p (Some w) (set_option kick) p'"
| clear: "Clear w p = Some (kick, p') \<Longrightarrow> rp_step key p (Some w) (set_option kick) p'"

abbreviation rcls :: "('k, 'w, 'o) rpool \<Rightarrow> 'k \<Rightarrow> ('w, 'o) rclass option" where
  "rcls p \<equiv> gm_get (rp_classes p)"

lemma set_class_sel [simp, pool_simps]:
  "rcls (set_class k c p) = (rcls p)(k \<mapsto> c)" "rp_capacity (set_class k c p) = rp_capacity p"
  "rp_holders (set_class k c p) = rp_holders p" "rp_pending (set_class k c p) = rp_pending p"
  "rp_sidelined (set_class k c p) = rp_sidelined p" "rp_parked (set_class k c p) = rp_parked p"
  by (auto simp: set_class_def fun_eq_iff)

lemma head_Some: "head c = Some x \<longleftrightarrow> rc_inUse c < rc_capacity c \<and> (\<exists>o' ys. rc_line c = (x, o') # ys)"
  by (auto simp: head_def split: list.splits)

subsection \<open>Lines\<close>

lemma index_of_None: "index_of w xs = None \<longleftrightarrow> w \<notin> fst ` set xs"
  by (induction xs) auto

lemma index_of_Some: "index_of w xs = Some i \<Longrightarrow> i < length xs \<and> fst (xs ! i) = w"
  by (induction xs arbitrary: i) (auto split: if_splits simp: nth_Cons split: nat.split)

lemma delete_at_split:
  assumes "i < length xs"
  shows "xs = take i xs @ xs ! i # drop (Suc i) xs" "delete_at i xs = take i xs @ drop (Suc i) xs"
  using assms by (simp_all add: id_take_nth_drop delete_at_def)

lemma delete_at_line:
  assumes "index_of w xs = Some i" "distinct (map fst xs)"
  shows "fst ` set (delete_at i xs) = fst ` set xs - {w}" "distinct (map fst (delete_at i xs))"
    "sorted (map snd xs) \<Longrightarrow> sorted (map snd (delete_at i xs))"
proof -
  have i: "i < length xs" "fst (xs ! i) = w" using index_of_Some [OF assms(1)] by auto
  note sp = delete_at_split [OF i(1)]
  have d: "distinct (map fst (take i xs @ xs ! i # drop (Suc i) xs))" using assms(2) sp(1) by simp
  then have "w \<notin> fst ` set (take i xs @ drop (Suc i) xs)" "distinct (map fst (take i xs @ drop (Suc i) xs))"
    using i(2) by (auto simp: image_iff)
  moreover have "fst ` set xs = insert w (fst ` set (take i xs @ drop (Suc i) xs))"
    by (subst (1) sp(1)) (auto simp: i(2))
  ultimately show "fst ` set (delete_at i xs) = fst ` set xs - {w}" "distinct (map fst (delete_at i xs))"
    by (auto simp: sp(2))
  assume "sorted (map snd xs)"
  then have "sorted (map snd (take i xs @ xs ! i # drop (Suc i) xs))" using sp(1) by simp
  then show "sorted (map snd (delete_at i xs))" unfolding sp(2) by (simp add: sorted_append)
qed

lemma insert_at_line:
  assumes "insert_at w order xs = (i, ys)" "sorted (map snd xs)"
  shows "i = length (filter (\<lambda>x. snd x < order) xs)" "fst ` set ys = insert w (fst ` set xs)" "sorted (map snd ys)"
    "w \<notin> fst ` set xs \<Longrightarrow> distinct (map fst xs) \<Longrightarrow> distinct (map fst ys)"
    "w \<notin> fst ` set xs \<Longrightarrow> index_of w ys = Some i" "i = 0 \<or> (xs \<noteq> [] \<and> hd ys = hd xs)"
proof -
  define T where "T = takeWhile (\<lambda>x. snd x < order) xs"
  define D where "D = dropWhile (\<lambda>x. snd x < order) xs"
  have tk: "take (length T) xs = T" "drop (length T) xs = D" unfolding T_def D_def
    by (simp_all add: takeWhile_eq_take [symmetric] dropWhile_eq_drop [symmetric])
  have xs: "xs = T @ D" by (simp add: T_def D_def)
  have i: "i = length T" and ys: "ys = T @ (w, order) # D"
    using assms(1) tk by (auto simp: insert_at_def Let_def T_def [symmetric])
  have T: "\<forall>x\<in>set T. snd x < order" by (auto simp: T_def dest: set_takeWhileD)
  have sD: "sorted (map snd D)" "sorted (map snd T)" using assms(2) xs by (auto simp: sorted_append)
  have D: "\<forall>x\<in>set D. order \<le> snd x"
  proof (cases D)
    case (Cons d ds)
    then have "order \<le> snd d" unfolding D_def by (metis dropWhile_eq_Cons_conv not_le)
    then show ?thesis using sD(1) Cons by auto
  qed simp
  show "i = length (filter (\<lambda>x. snd x < order) xs)" using T D by (subst xs) (auto simp: i filter_id_conv filter_empty_conv)
  show "fst ` set ys = insert w (fst ` set xs)" by (auto simp: ys xs)
  have "\<forall>x\<in>set T. \<forall>y\<in>set D. snd x \<le> snd y" using T D by (meson less_imp_le less_le_trans)
  then show "sorted (map snd ys)" using T D sD by (fastforce simp: ys sorted_append less_imp_le)
  show "distinct (map fst ys)" if "w \<notin> fst ` set xs" "distinct (map fst xs)"
    using that by (auto simp: ys xs image_Un)
  show "index_of w ys = Some i" if "w \<notin> fst ` set xs"
  proof -
    have "w \<notin> fst ` set T" using that xs by auto
    then show ?thesis unfolding ys i by (induction T) auto
  qed
  show "i = 0 \<or> (xs \<noteq> [] \<and> hd ys = hd xs)" by (cases T) (auto simp: i ys xs)
qed

subsection \<open>Preservation\<close>

lemma rp_invD:
  assumes "rp_inv key p"
  shows "rcls p k = Some c \<Longrightarrow> gm_get (rp_capacity p) k = Some (rc_capacity c)"
    "rcls p k = Some c \<Longrightarrow> sorted (map snd (rc_line c)) \<and> distinct (map fst (rc_line c))"
    "rcls p k = Some c \<Longrightarrow> rc_inUse c = int (card {w. gm_get (rp_holders p) w = Some k})"
    "rcls p k = Some c \<Longrightarrow> rc_sidelined c = int (card {w \<in> rp_sidelined p. gm_get (rp_pending p) w = Some k})"
    "rcls p k = Some c \<Longrightarrow> fst ` set (rc_line c) = {w. gm_get (rp_pending p) w = Some k \<and> w \<notin> rp_sidelined p}"
    "gm_get (rp_holders p) w = Some k \<Longrightarrow> gm_has (rp_classes p) k \<and> gm_get (rp_pending p) w = None \<and> k = key w"
    "gm_get (rp_pending p) w = Some k \<Longrightarrow> gm_has (rp_classes p) k \<and> k = key w"
    "w \<in> rp_sidelined p \<Longrightarrow> gm_get (rp_pending p) w \<noteq> None"
    "w \<in> rp_parked p \<Longrightarrow> gm_get (rp_pending p) w \<noteq> None \<and> w \<notin> rp_sidelined p"
  using assms unfolding rp_inv_def by blast+

lemma card_off:
  assumes "finite A" "finite B" "\<And>v. v \<noteq> w \<Longrightarrow> v \<in> B \<longleftrightarrow> v \<in> A"
  shows "int (card B) = int (card A) + (if w \<in> B then 1 else 0) - (if w \<in> A then 1 else 0)"
proof -
  have AB: "A - {w} = B - {w}" using assms(3) by auto
  have X: "card X = card (X - {w}) + (if w \<in> X then 1 else 0)" if "finite X" for X
    using card.remove [OF that, of w] by simp
  show ?thesis using X [OF assms(1)] X [OF assms(2)] by (simp add: AB)
qed

lemma fin_keys: "finite {v. gm_get m v = Some x}"
  by (rule finite_subset [OF _ finite_dom_map_of [of m]]) auto

text \<open>One member \<open>w\<close> of the class \<open>k\<close> changes; everything about the others stays.\<close>

lemma rp_inv_change:
  assumes inv: "rp_inv key p" and k: "k = key w"
    and cap: "rp_capacity p' = rp_capacity p" and cls: "rcls p' = (rcls p)(k \<mapsto> c')" and c: "rcls p k = Some c"
    and off: "\<And>v. v \<noteq> w \<Longrightarrow> gm_get (rp_holders p') v = gm_get (rp_holders p) v \<and> gm_get (rp_pending p') v = gm_get (rp_pending p) v
        \<and> (v \<in> rp_sidelined p' \<longleftrightarrow> v \<in> rp_sidelined p) \<and> (v \<in> rp_parked p' \<longleftrightarrow> v \<in> rp_parked p)"
    and hw: "gm_get (rp_holders p) w \<in> {None, Some k}" "gm_get (rp_holders p') w \<in> {None, Some k}"
        "gm_get (rp_pending p') w \<in> {None, Some k}"
    and w': "gm_get (rp_holders p') w = None \<or> gm_get (rp_pending p') w = None"
        "w \<in> rp_sidelined p' \<Longrightarrow> gm_get (rp_pending p') w \<noteq> None"
        "w \<in> rp_parked p' \<Longrightarrow> gm_get (rp_pending p') w \<noteq> None \<and> w \<notin> rp_sidelined p'"
    and c': "rc_capacity c' = rc_capacity c" "sorted (map snd (rc_line c'))" "distinct (map fst (rc_line c'))"
        "rc_inUse c' = rc_inUse c + (if gm_get (rp_holders p') w = None then 0 else 1) - (if gm_get (rp_holders p) w = None then 0 else 1)"
        "rc_sidelined c' = rc_sidelined c + (if w \<in> rp_sidelined p' then 1 else 0) - (if w \<in> rp_sidelined p then 1 else 0)"
        "fst ` set (rc_line c') = (fst ` set (rc_line c) - {w}) \<union> (if gm_get (rp_pending p') w \<noteq> None \<and> w \<notin> rp_sidelined p' then {w} else {})"
  shows "rp_inv key p'"
proof -
  note D = rp_invD [OF inv]
  have same: "{v. gm_get (rp_holders p') v = Some j} = {v. gm_get (rp_holders p) v = Some j}"
    "{v \<in> rp_sidelined p'. gm_get (rp_pending p') v = Some j} = {v \<in> rp_sidelined p. gm_get (rp_pending p) v = Some j}"
    "{v. gm_get (rp_pending p') v = Some j \<and> v \<notin> rp_sidelined p'} = {v. gm_get (rp_pending p) v = Some j \<and> v \<notin> rp_sidelined p}"
    if j: "j \<noteq> k" for j
  proof -
    have wj: "gm_get (rp_holders p) w \<noteq> Some j" "gm_get (rp_holders p') w \<noteq> Some j"
      "gm_get (rp_pending p) w \<noteq> Some j" "gm_get (rp_pending p') w \<noteq> Some j"
      using j hw k D(7) [of w j] by auto
    have "gm_get (rp_holders p') v = Some j \<longleftrightarrow> gm_get (rp_holders p) v = Some j"
      "gm_get (rp_pending p') v = Some j \<and> v \<in> rp_sidelined p' \<longleftrightarrow> gm_get (rp_pending p) v = Some j \<and> v \<in> rp_sidelined p"
      "gm_get (rp_pending p') v = Some j \<and> v \<notin> rp_sidelined p' \<longleftrightarrow> gm_get (rp_pending p) v = Some j \<and> v \<notin> rp_sidelined p" for v
      using wj off [of v] by (cases "v = w"; simp)+
    then show "{v. gm_get (rp_holders p') v = Some j} = {v. gm_get (rp_holders p) v = Some j}"
      "{v \<in> rp_sidelined p'. gm_get (rp_pending p') v = Some j} = {v \<in> rp_sidelined p. gm_get (rp_pending p) v = Some j}"
      "{v. gm_get (rp_pending p') v = Some j \<and> v \<notin> rp_sidelined p'} = {v. gm_get (rp_pending p) v = Some j \<and> v \<notin> rp_sidelined p}"
      by blast+
  qed
  have pw: "w \<in> rp_sidelined p \<Longrightarrow> gm_get (rp_pending p) w = Some k" using D(7,8) [of w] k by auto
  have use: "rc_inUse c' = int (card {v. gm_get (rp_holders p') v = Some k})"
    using card_off [of "{v. gm_get (rp_holders p) v = Some k}" "{v. gm_get (rp_holders p') v = Some k}" w, OF fin_keys fin_keys]
      off hw c'(4) D(3) [OF c] by auto
  have side: "rc_sidelined c' = int (card {v \<in> rp_sidelined p'. gm_get (rp_pending p') v = Some k})"
  proof -
    have "finite {v \<in> S. gm_get m v = Some k}" for S and m :: "('a, 'b) gomap"
      by (rule finite_subset [OF _ fin_keys [of m k]]) auto
    from card_off [OF this this, of w "rp_sidelined p'" "rp_pending p'" "rp_sidelined p" "rp_pending p"]
    show ?thesis using off c'(5) D(4) [OF c] pw w'(2) hw(3) by auto
  qed
  have line: "fst ` set (rc_line c') = {v. gm_get (rp_pending p') v = Some k \<and> v \<notin> rp_sidelined p'}"
  proof (rule set_eqI)
    fix v
    show "v \<in> fst ` set (rc_line c') \<longleftrightarrow> v \<in> {v. gm_get (rp_pending p') v = Some k \<and> v \<notin> rp_sidelined p'}"
      unfolding c'(6) D(5) [OF c] using off [of v] hw(3) by (cases "v = w") auto
  qed
  show ?thesis unfolding rp_inv_def cap cls
  proof (intro conjI allI impI)
    fix j d assume d: "((rcls p)(k \<mapsto> c')) j = Some d"
    show "gm_get (rp_capacity p) j = Some (rc_capacity d)" "sorted (map snd (rc_line d))" "distinct (map fst (rc_line d))"
      "rc_inUse d = int (card {v. gm_get (rp_holders p') v = Some j})"
      "rc_sidelined d = int (card {v \<in> rp_sidelined p'. gm_get (rp_pending p') v = Some j})"
      "fst ` set (rc_line d) = {v. gm_get (rp_pending p') v = Some j \<and> v \<notin> rp_sidelined p'}"
      using d D(1-5) [of j d] D(1) [OF c] same [of j] c'(1-3) use side line by (auto split: if_splits)
  next
    fix v j assume "gm_get (rp_holders p') v = Some j"
    then have H: "j = k \<and> v = w \<and> gm_get (rp_pending p') w = None \<or> v \<noteq> w \<and> gm_get (rp_holders p) v = Some j"
      using off [of v] hw w'(1) by (cases "v = w") auto
    then have j: "rcls p j \<noteq> None \<and> j = key v \<and> v \<noteq> w \<and> gm_get (rp_pending p) v = None \<or> j = k \<and> v = w \<and> gm_get (rp_pending p') w = None"
      using D(6) by blast
    show "j = key v" using j k by blast
    show "((rcls p)(k \<mapsto> c')) j \<noteq> None" using j by (metis fun_upd_apply option.distinct(1))
    show "gm_get (rp_pending p') v = None" using j off [of v] by metis
  next
    fix v j assume "gm_get (rp_pending p') v = Some j"
    then have "j = k \<and> v = w \<or> gm_get (rp_pending p) v = Some j" using off [of v] hw(3) by (cases "v = w") simp_all
    then have j: "rcls p j \<noteq> None \<and> j = key v \<or> j = k \<and> v = w" using D(7) by blast
    show "j = key v" using j k by blast
    show "((rcls p)(k \<mapsto> c')) j \<noteq> None" using j by (metis fun_upd_apply option.distinct(1))
  next
    show "rp_sidelined p' \<subseteq> dom (gm_get (rp_pending p'))"
      using D(8) off w'(2) by (metis domIff subsetI)
    show "rp_parked p' \<subseteq> dom (gm_get (rp_pending p')) - rp_sidelined p'"
      using D(9) off w'(3) by (metis DiffI domIff subsetI)
  qed
qed

lemma classFor_effect:
  assumes inv: "rp_inv key p" and run: "classFor k p = Some (c, p1)"
  shows "rp_inv key p1" "rcls p1 k = Some c" "rp_holders p1 = rp_holders p" "rp_pending p1 = rp_pending p"
    "rp_sidelined p1 = rp_sidelined p" "rp_parked p1 = rp_parked p" "rp_ready p1 = rp_ready p"
    "rp_capacity p1 = rp_capacity p" "gm_get (rp_capacity p) k = Some (rc_capacity c)"
    "rcls p k = None \<and> rc_line c = [] \<and> rc_inUse c = 0 \<and> rc_sidelined c = 0 \<or> rcls p k = Some c"
proof -
  note D = rp_invD [OF inv]
  obtain cap where cap: "gm_get (rp_capacity p) k = Some cap" using run by (auto simp: classFor_def split: option.splits)
  show "rcls p1 k = Some c" "rp_holders p1 = rp_holders p" "rp_pending p1 = rp_pending p"
    "rp_sidelined p1 = rp_sidelined p" "rp_parked p1 = rp_parked p" "rp_capacity p1 = rp_capacity p"
    "rcls p k = None \<and> rc_line c = [] \<and> rc_inUse c = 0 \<and> rc_sidelined c = 0 \<or> rcls p k = Some c"
    using run by (auto simp: classFor_def Let_def split: option.splits)
  show "gm_get (rp_capacity p) k = Some (rc_capacity c)"
    using run D(1) cap by (auto simp: classFor_def Let_def split: option.splits)
  show "rp_inv key p1"
  proof (cases "rcls p k")
    case None
    then have p1: "p1 = p\<lparr>rp_classes := gm_put k c (rp_classes p)\<rparr>" and c: "c = \<lparr>rc_capacity = cap, rc_inUse = 0, rc_line = [], rc_sidelined = 0\<rparr>"
      using run cap by (auto simp: classFor_def Let_def)
    have none: "gm_get (rp_holders p) w \<noteq> Some k" "gm_get (rp_pending p) w \<noteq> Some k" for w
      using D(6,7) [of w k] None by auto
    have kc: "gm_get (rp_capacity p) k = Some (rc_capacity c)" "sorted (map snd (rc_line c))" "distinct (map fst (rc_line c))"
      "rc_inUse c = int (card {w. gm_get (rp_holders p) w = Some k})"
      "rc_sidelined c = int (card {w \<in> rp_sidelined p. gm_get (rp_pending p) w = Some k})"
      "fst ` set (rc_line c) = {w. gm_get (rp_pending p) w = Some k \<and> w \<notin> rp_sidelined p}"
      using none cap by (simp_all add: c)
    have "(rcls p1 j = Some d) \<longleftrightarrow> (if j = k then d = c else rcls p j = Some d)" for j d by (auto simp: p1)
    then show ?thesis using inv kc None unfolding rp_inv_def by (simp add: p1) metis
  next
    case (Some c')
    then show ?thesis using run cap inv by (simp add: classFor_def)
  qed
  show "rp_ready p1 = rp_ready p"
  proof (cases "rcls p k")
    case None
    then have p1: "p1 = p\<lparr>rp_classes := gm_put k c (rp_classes p)\<rparr>" and c: "head c = None"
      using run cap by (auto simp: classFor_def Let_def head_def)
    have "(\<exists>d. rcls p1 j = Some d \<and> head d = Some x) \<longleftrightarrow> (\<exists>d. rcls p j = Some d \<and> head d = Some x)" for j x
      using None c by (auto simp: p1)
    then show ?thesis by (simp add: rp_ready_def)
  next
    case (Some c')
    then show ?thesis using run cap by (simp add: classFor_def)
  qed
qed

text \<open>A step that only changes the class of the calling member: what it exposes is that class's head.\<close>

lemma ready_change:
  assumes inv: "rp_inv key p" and k: "k = key w" and cls: "rcls p' = (rcls p)(k \<mapsto> c')" and x: "x \<in> rp_ready p'"
  shows "head c' = Some x \<or> x \<in> rp_ready p - {w}"
proof -
  obtain j d where d: "rcls p' j = Some d" "head d = Some x" using x by (auto simp: rp_ready_def)
  show ?thesis
  proof (cases "j = k")
    case True
    then show ?thesis using d by (simp add: cls)
  next
    case False
    then have j: "rcls p j = Some d" using d by (simp add: cls)
    have "x \<in> fst ` set (rc_line d)" using d(2) by (auto simp: head_Some)
    then have "j = key x" using rp_invD(5) [OF inv j] rp_invD(7) [OF inv, of x j] by auto
    then show ?thesis using False k j d(2) by (auto simp: rp_ready_def)
  qed
qed

lemma ready_same:
  assumes inv: "rp_inv key p" and out: "gm_get (rp_pending p) w = None \<or> w \<in> rp_sidelined p"
  shows "w \<notin> rp_ready p"
proof
  assume "w \<in> rp_ready p"
  then obtain j d o' ys where "rcls p j = Some d" "rc_line d = (w, o') # ys" by (auto simp: rp_ready_def head_Some)
  then have "rcls p j = Some d" "w \<in> fst ` set (rc_line d)" by simp_all
  then show False using rp_invD(5) [OF inv] out by auto
qed

lemma place_effect:
  assumes inv: "rp_inv key p" and k: "k = key w" and c: "rcls p k = Some c"
    and p1: "p1 = (if gm_has (rp_pending p) w then p else p\<lparr>rp_pending := gm_put w k (rp_pending p)\<rparr>)"
    and pl: "place w order c p1 = (i, c2, p2)"
  shows "rp_classes p2 = rp_classes p" "rp_capacity p2 = rp_capacity p" "rp_holders p2 = rp_holders p" "rp_parked p2 = rp_parked p"
    "gm_get (rp_pending p2) = (gm_get (rp_pending p))(w \<mapsto> k)" "rp_sidelined p2 = rp_sidelined p - {w}"
    "rc_capacity c2 = rc_capacity c" "rc_inUse c2 = rc_inUse c" "sorted (map snd (rc_line c2))" "distinct (map fst (rc_line c2))"
    "index_of w (rc_line c2) = Some i" "fst ` set (rc_line c2) = insert w (fst ` set (rc_line c))"
    "rc_sidelined c2 = rc_sidelined c - (if w \<in> rp_sidelined p then 1 else 0)"
    "i = (case index_of w (rc_line c) of Some j \<Rightarrow> j | None \<Rightarrow> length (filter (\<lambda>x. snd x < order) (rc_line c)))"
    "i = 0 \<or> rc_line c \<noteq> [] \<and> hd (rc_line c2) = hd (rc_line c)"
proof -
  note D = rp_invD [OF inv]
  have pw: "gm_get (rp_pending p) w = Some j \<Longrightarrow> j = k" for j using D(7) [of w j] k by blast
  have p1': "rp_classes p1 = rp_classes p" "rp_capacity p1 = rp_capacity p" "rp_holders p1 = rp_holders p"
    "rp_parked p1 = rp_parked p" "rp_sidelined p1 = rp_sidelined p" "gm_get (rp_pending p1) = (gm_get (rp_pending p))(w \<mapsto> k)"
    using pw by (auto simp: p1 fun_eq_iff)
  have line: "sorted (map snd (rc_line c))" "distinct (map fst (rc_line c))" using D(2) [OF c] by auto
  have inline: "w \<in> fst ` set (rc_line c) \<Longrightarrow> w \<notin> rp_sidelined p" using D(5) [OF c] by auto
  have "rp_classes p2 = rp_classes p \<and> rp_capacity p2 = rp_capacity p \<and> rp_holders p2 = rp_holders p \<and> rp_parked p2 = rp_parked p
    \<and> gm_get (rp_pending p2) = (gm_get (rp_pending p))(w \<mapsto> k) \<and> rp_sidelined p2 = rp_sidelined p - {w}
    \<and> rc_capacity c2 = rc_capacity c \<and> rc_inUse c2 = rc_inUse c \<and> sorted (map snd (rc_line c2)) \<and> distinct (map fst (rc_line c2))
    \<and> index_of w (rc_line c2) = Some i \<and> fst ` set (rc_line c2) = insert w (fst ` set (rc_line c))
    \<and> rc_sidelined c2 = rc_sidelined c - (if w \<in> rp_sidelined p then 1 else 0)
    \<and> i = (case index_of w (rc_line c) of Some j \<Rightarrow> j | None \<Rightarrow> length (filter (\<lambda>x. snd x < order) (rc_line c)))
    \<and> (i = 0 \<or> rc_line c \<noteq> [] \<and> hd (rc_line c2) = hd (rc_line c))"
  proof (cases "index_of w (rc_line c)")
    case (Some j)
    then have r: "i = j" "c2 = c" "p2 = p1" using pl by (auto simp: place_def)
    have "j < length (rc_line c)" "w \<in> fst ` set (rc_line c)"
      using index_of_Some [OF Some] Some index_of_None [of w "rc_line c"] by auto
    then show ?thesis using Some r p1' line inline by auto
  next
    case None
    obtain j ys where ins: "insert_at w order (rc_line c) = (j, ys)" by fastforce
    then have r: "i = j" "p2 = p1\<lparr>rp_sidelined := rp_sidelined p1 - {w}\<rparr>" "rc_line c2 = ys" "rc_capacity c2 = rc_capacity c"
      "rc_inUse c2 = rc_inUse c" "rc_sidelined c2 = rc_sidelined c - (if w \<in> rp_sidelined p then 1 else 0)"
      using pl None by (auto simp: place_def Let_def p1' split: if_splits)
    have out: "w \<notin> fst ` set (rc_line c)" using None by (simp add: index_of_None)
    show ?thesis using insert_at_line [OF ins line(1)] out line(2) None r p1' by (simp add: filter_empty_conv fun_upd_def)
  qed
  then show "rp_classes p2 = rp_classes p" "rp_capacity p2 = rp_capacity p" "rp_holders p2 = rp_holders p" "rp_parked p2 = rp_parked p"
    "gm_get (rp_pending p2) = (gm_get (rp_pending p))(w \<mapsto> k)" "rp_sidelined p2 = rp_sidelined p - {w}"
    "rc_capacity c2 = rc_capacity c" "rc_inUse c2 = rc_inUse c" "sorted (map snd (rc_line c2))" "distinct (map fst (rc_line c2))"
    "index_of w (rc_line c2) = Some i" "fst ` set (rc_line c2) = insert w (fst ` set (rc_line c))"
    "rc_sidelined c2 = rc_sidelined c - (if w \<in> rp_sidelined p then 1 else 0)"
    "i = (case index_of w (rc_line c) of Some j \<Rightarrow> j | None \<Rightarrow> length (filter (\<lambda>x. snd x < order) (rc_line c)))"
    "i = 0 \<or> rc_line c \<noteq> [] \<and> hd (rc_line c2) = hd (rc_line c)" by - (elim conjE, assumption)+
qed

lemma rp_Acquire_cases:
  assumes run: "Acquire k w order p = ((granted, kick), p')"
  obtains (free) "classFor k p = None" "granted" "kick = None" "p' = p"
  | (holder) c where "classFor k p = Some (c, p')" "gm_has (rp_holders p') w" "granted" "kick = None"
  | (refuse) c p0 p1 i c2 p2 where "classFor k p = Some (c, p0)" "gm_get (rp_holders p0) w = None"
      "p1 = (if gm_has (rp_pending p0) w then p0 else p0\<lparr>rp_pending := gm_put w k (rp_pending p0)\<rparr>)"
      "place w order c p1 = (i, c2, p2)" "rc_capacity c2 \<le> rc_inUse c2 + int i" "\<not> granted" "kick = None"
      "p' = set_class k c2 (p2\<lparr>rp_parked := insert w (rp_parked p2)\<rparr>)"
  | (grant) c p0 p1 i c2 p2 c3 where "classFor k p = Some (c, p0)" "gm_get (rp_holders p0) w = None"
      "p1 = (if gm_has (rp_pending p0) w then p0 else p0\<lparr>rp_pending := gm_put w k (rp_pending p0)\<rparr>)"
      "place w order c p1 = (i, c2, p2)" "\<not> rc_capacity c2 \<le> rc_inUse c2 + int i" "granted"
      "c3 = c2\<lparr>rc_line := delete_at i (rc_line c2), rc_inUse := rc_inUse c2 + 1\<rparr>" "kick = head c3"
      "p' = set_class k c3 (p2\<lparr>rp_parked := rp_parked p2 - {w}, rp_pending := gm_del w (rp_pending p2), rp_holders := gm_put w k (rp_holders p2)\<rparr>)"
proof (cases "classFor k p")
  case None
  then show ?thesis using run by (intro free) (auto simp: Acquire_def)
next
  case (Some x)
  obtain c p0 where cp: "classFor k p = Some (c, p0)" using Some by (cases x) auto
  show ?thesis
  proof (cases "gm_has (rp_holders p0) w")
    case True
    then show ?thesis using run cp by (intro holder) (auto simp: Acquire_def)
  next
    case False
    define p1 where "p1 = (if gm_has (rp_pending p0) w then p0 else p0\<lparr>rp_pending := gm_put w k (rp_pending p0)\<rparr>)"
    obtain i c2 p2 where pl: "place w order c p1 = (i, c2, p2)" by (metis prod_cases3)
    have hn: "gm_get (rp_holders p0) w = None" using False by simp
    show ?thesis
    proof (cases "rc_capacity c2 \<le> rc_inUse c2 + int i")
      case True
      then show ?thesis using run cp hn pl [unfolded p1_def]
        by (intro refuse [OF cp hn p1_def pl True]) (simp_all add: Acquire_def Let_def)
    next
      case False
      then show ?thesis using run cp hn pl [unfolded p1_def]
        by (intro grant [OF cp hn p1_def pl False _ refl]) (simp_all add: Acquire_def Let_def)
    qed
  qed
qed

lemma rp_Acquire_effect:
  assumes inv: "rp_inv key p" and k: "k = key w" and run: "Acquire k w order p = ((granted, kick), p')"
  shows "rp_inv key p' \<and> rp_ready p' \<subseteq> (rp_ready p - {w}) \<union> set_option kick"
  using run
proof (cases rule: rp_Acquire_cases)
  case free
  have "gm_get (rp_capacity p) k = None" using free by (auto simp: classFor_def Let_def split: option.splits)
  then have "rcls p k = None" using rp_invD(1) [OF inv, of k] by (cases "rcls p k") auto
  then have "gm_get (rp_pending p) w = None"
    using rp_invD(7) [OF inv, of w] k by (cases "gm_get (rp_pending p) w") auto
  then show ?thesis using inv free ready_same [OF inv] by auto
next
  case (holder c)
  note e = classFor_effect [OF inv holder(1)]
  have "gm_get (rp_pending p') w = None" using holder(2) rp_invD(6) [OF e(1), of w] by auto
  then show ?thesis using e(1,7) ready_same [OF e(1)] by auto
next
  case (refuse c p0 p1 i c2 p2)
  note e = classFor_effect [OF inv refuse(1)]
  note pl = place_effect [OF e(1) k e(2) refuse(3,4)]
  have inv': "rp_inv key p'"
    by (rule rp_inv_change [OF e(1) k _ _ e(2), where c' = c2])
      (use pl refuse(2) in \<open>auto simp: refuse(8)\<close>)
  have cls: "rcls p' = (rcls p0)(k \<mapsto> c2)" using pl(1) by (simp add: refuse(8) fun_upd_def)
  have "x \<in> rp_ready p - {w}" if x: "x \<in> rp_ready p'" for x
  proof (cases "head c2 = Some x")
    case True
    then have i: "i \<noteq> 0" "rc_inUse c < rc_capacity c" "rc_line c2 \<noteq> []" "fst (hd (rc_line c2)) = x"
      using refuse(5) pl(7,8) by (auto simp: head_Some)
    then have "rc_line c \<noteq> []" "hd (rc_line c2) = hd (rc_line c)" using pl(15) by auto
    then have "head c = Some x" using i by (cases "rc_line c") (auto simp: head_def)
    moreover have "x \<noteq> w"
    proof
      assume "x = w"
      then have "index_of w (rc_line c2) = Some 0" using i(3,4) by (cases "rc_line c2") auto
      then show False using pl(11) i(1) by simp
    qed
    ultimately have "x \<in> rp_ready p0 - {w}" using e(2) by (auto simp: rp_ready_def)
    then show ?thesis by (simp add: e(7))
  next
    case False
    then show ?thesis using ready_change [OF e(1) k cls x] e(7) by simp
  qed
  then show ?thesis using inv' by auto
next
  case (grant c p0 p1 i c2 p2 c3)
  note e = classFor_effect [OF inv grant(1)]
  note pl = place_effect [OF e(1) k e(2) grant(3,4)]
  note del = delete_at_line [OF pl(11,10)]
  have inv': "rp_inv key p'"
    by (rule rp_inv_change [OF e(1) k _ _ e(2), where c' = c3])
      (use pl(1-10,12,13) del pl(9) grant(2) rp_invD(9) [OF e(1), of w] in \<open>auto simp: grant(7,9)\<close>)
  have cls: "rcls p' = (rcls p0)(k \<mapsto> c3)" using pl(1) by (simp add: grant(9) fun_upd_def)
  have "x \<in> (rp_ready p - {w}) \<union> set_option kick" if "x \<in> rp_ready p'" for x
    using ready_change [OF e(1) k cls that] e(7) grant(8) by auto
  then show ?thesis using inv' by auto
qed

lemma remove_line_effect:
  assumes "sorted (map snd (rc_line c))" "distinct (map fst (rc_line c))"
  shows "fst ` set (rc_line (remove_line w c)) = fst ` set (rc_line c) - {w}" "sorted (map snd (rc_line (remove_line w c)))"
    "distinct (map fst (rc_line (remove_line w c)))" "rc_capacity (remove_line w c) = rc_capacity c"
    "rc_inUse (remove_line w c) = rc_inUse c" "rc_sidelined (remove_line w c) = rc_sidelined c"
  using assms delete_at_line [of w "rc_line c"] index_of_None [of w "rc_line c"]
  by (auto simp: remove_line_def split: option.split)

lemma Admit_effect:
  assumes inv: "rp_inv key p" and k: "k = key w" and run: "Admit k w order maxPending p = (ok, p')"
  shows "rp_inv key p' \<and> rp_ready p' \<subseteq> rp_ready p \<union> (if ok then {w} else {})"
proof (cases "classFor k p")
  case None
  then show ?thesis using inv run by (auto simp: Admit_def)
next
  case (Some x)
  obtain c p0 where cp: "classFor k p = Some (c, p0)" using Some by (cases x) auto
  note e = classFor_effect [OF inv cp]
  show ?thesis
  proof (cases "gm_get (rp_holders p0) w = None \<and> gm_get (rp_pending p0) w = None \<and> \<not> (0 < maxPending \<and> maxPending \<le> pendingCount c)")
    case False
    then have "p' = p0" using run cp by (auto simp: Admit_def split: if_splits)
    then show ?thesis using e(1,7) by auto
  next
    case True
    obtain i ys where ins: "insert_at w order (rc_line c) = (i, ys)" by fastforce
    define c' where "c' = c\<lparr>rc_line := ys\<rparr>"
    have r: "ok" "p' = set_class k c' (p0\<lparr>rp_pending := gm_put w k (rp_pending p0)\<rparr>)"
      using run cp True ins by (auto simp: Admit_def c'_def)
    have line: "sorted (map snd (rc_line c))" "distinct (map fst (rc_line c))" using rp_invD(2) [OF e(1,2)] by auto
    have out: "w \<notin> fst ` set (rc_line c)" "w \<notin> rp_sidelined p0" "w \<notin> rp_parked p0"
      using rp_invD(5) [OF e(1,2)] rp_invD(8,9) [OF e(1), of w] True by auto
    note L = insert_at_line [OF ins line(1)]
    have inv': "rp_inv key p'"
      by (rule rp_inv_change [OF e(1) k _ _ e(2), where c' = c'])
        (use L(2-4) line out True in \<open>auto simp: r(2) c'_def\<close>)
    have cls: "rcls p' = (rcls p0)(k \<mapsto> c')" by (simp add: r(2) fun_upd_def)
    have "x \<in> rp_ready p \<union> {w}" if x: "x \<in> rp_ready p'" for x
    proof (cases "head c' = Some x")
      case True
      then have c: "rc_inUse c < rc_capacity c" "ys \<noteq> []" "fst (hd ys) = x" by (auto simp: head_Some c'_def)
      show ?thesis
      proof (cases "i = 0")
        case True
        then have "index_of w ys = Some 0" using L(5) out(1) by simp
        then show ?thesis using c by (cases ys) (auto split: if_splits)
      next
        case False
        then have "head c = Some x" using L(6) c by (cases "rc_line c") (auto simp: head_def)
        then have "x \<in> rp_ready p0" using e(2) by (auto simp: rp_ready_def)
        then show ?thesis by (simp add: e(7))
      qed
    next
      case False
      then show ?thesis using ready_change [OF e(1) k cls x] e(7) by simp
    qed
    then show ?thesis using inv' r(1) by auto
  qed
qed

lemma Hold_effect:
  assumes inv: "rp_inv key p" and k: "k = key w" and np: "gm_get (rp_pending p) w = None"
  shows "rp_inv key (Hold k w p) \<and> rp_ready (Hold k w p) \<subseteq> rp_ready p"
proof (cases "classFor k p")
  case None
  then show ?thesis using inv by (auto simp: Hold_def)
next
  case (Some x)
  obtain c p0 where cp: "classFor k p = Some (c, p0)" using Some by (cases x) auto
  note e = classFor_effect [OF inv cp]
  show ?thesis
  proof (cases "gm_has (rp_holders p0) w")
    case True
    then show ?thesis using e(1,7) cp by (simp add: Hold_def)
  next
    case False
    define c' where "c' = c\<lparr>rc_inUse := rc_inUse c + 1\<rparr>"
    have r: "Hold k w p = set_class k c' (p0\<lparr>rp_holders := gm_put w k (rp_holders p0)\<rparr>)"
      using cp False np e(4) by (simp add: Hold_def forget_def c'_def)
    have line: "sorted (map snd (rc_line c))" "distinct (map fst (rc_line c))" using rp_invD(2) [OF e(1,2)] by auto
    have out: "w \<notin> fst ` set (rc_line c)" "w \<notin> rp_sidelined p0" "w \<notin> rp_parked p0"
      using rp_invD(5) [OF e(1,2)] rp_invD(8,9) [OF e(1), of w] np e(4) by auto
    have inv': "rp_inv key (Hold k w p)"
      by (rule rp_inv_change [OF e(1) k _ _ e(2), where c' = c'])
        (use line out False np e(4) in \<open>auto simp: r c'_def\<close>)
    have cls: "rcls (Hold k w p) = (rcls p0)(k \<mapsto> c')" by (simp add: r fun_upd_def)
    have "head c' = Some x \<Longrightarrow> head c = Some x" for x by (auto simp: head_Some c'_def)
    then have "x \<in> rp_ready p" if "x \<in> rp_ready (Hold k w p)" for x
      using ready_change [OF e(1) k cls that] e(2,7) unfolding rp_ready_def by blast
    then show ?thesis using inv' by auto
  qed
qed

lemma forget_effect:
  assumes inv: "rp_inv key p" and k: "gm_get (rp_pending p) w = Some k" and c: "rcls p k = Some c"
    and run: "forget c w p = (c', p1)" and p': "p' = set_class k c' p1"
  shows "rp_inv key p'" "rcls p' = (rcls p)(k \<mapsto> c')"
proof -
  note D = rp_invD [OF inv]
  have kw: "k = key w" using D(7) [OF k] by simp
  have nh: "gm_get (rp_holders p) w = None" using D(6) [of w] k by (cases "gm_get (rp_holders p) w") auto
  have line: "sorted (map snd (rc_line c))" "distinct (map fst (rc_line c))" using D(2) [OF c] by auto
  have inline: "w \<in> fst ` set (rc_line c) \<longleftrightarrow> w \<notin> rp_sidelined p" using D(5) [OF c] k by auto
  show "rcls p' = (rcls p)(k \<mapsto> c')"
    using run k by (auto simp: p' forget_def Let_def fun_upd_def split: if_splits)
  show "rp_inv key p'"
  proof (cases "w \<in> rp_sidelined p")
    case True
    then have "c' = c\<lparr>rc_sidelined := rc_sidelined c - 1\<rparr>"
      "p1 = p\<lparr>rp_pending := gm_del w (rp_pending p), rp_parked := rp_parked p - {w}, rp_sidelined := rp_sidelined p - {w}\<rparr>"
      using run k by (auto simp: forget_def Let_def)
    then show ?thesis
      by (intro rp_inv_change [OF inv kw _ _ c, where c' = c'])
        (use line inline True nh in \<open>auto simp: p'\<close>)
  next
    case False
    then have c': "c' = remove_line w c" and p1: "p1 = p\<lparr>rp_pending := gm_del w (rp_pending p), rp_parked := rp_parked p - {w}\<rparr>"
      using run k by (auto simp: forget_def Let_def)
    show ?thesis
      by (rule rp_inv_change [OF inv kw _ _ c, where c' = c'])
        (use remove_line_effect [OF line] False nh in \<open>auto simp: p' p1 c'\<close>)
  qed
qed

lemma rp_Release_effect:
  assumes inv: "rp_inv key p" and run: "Release w p = Some (kick, p')"
  shows "rp_inv key p' \<and> rp_ready p' \<subseteq> (rp_ready p - {w}) \<union> set_option kick"
proof -
  consider (none) "gm_get (rp_holders p) w = None" "gm_get (rp_pending p) w = None" "p' = p"
    | (holder) k c c' where "gm_get (rp_holders p) w = Some k" "rcls p k = Some c" "c' = c\<lparr>rc_inUse := rc_inUse c - 1\<rparr>"
        "kick = head c'" "p' = set_class k c' (p\<lparr>rp_holders := gm_del w (rp_holders p)\<rparr>)"
    | (pend) k c c' p1 where "gm_get (rp_pending p) w = Some k" "rcls p k = Some c" "forget c w p = (c', p1)"
        "kick = head c'" "p' = set_class k c' p1"
    using run by (fastforce simp: Release_def Let_def split: option.splits prod.splits)
  then show ?thesis
  proof cases
    case none
    then show ?thesis using inv ready_same [OF inv] by auto
  next
    case (holder k c c')
    have kw: "k = key w" using rp_invD(6) [OF inv holder(1)] by simp
    have np: "gm_get (rp_pending p) w = None" using rp_invD(6) [OF inv holder(1)] by simp
    have line: "sorted (map snd (rc_line c))" "distinct (map fst (rc_line c))" using rp_invD(2) [OF inv holder(2)] by auto
    have out: "w \<notin> fst ` set (rc_line c)" "w \<notin> rp_sidelined p" "w \<notin> rp_parked p"
      using rp_invD(5) [OF inv holder(2)] rp_invD(8,9) [OF inv, of w] np by auto
    have inv': "rp_inv key p'"
      by (rule rp_inv_change [OF inv kw _ _ holder(2), where c' = c'])
        (use line out holder(1) np in \<open>auto simp: holder(3,5)\<close>)
    have cls: "rcls p' = (rcls p)(k \<mapsto> c')" by (simp add: holder(5) fun_upd_def)
    have "x \<in> (rp_ready p - {w}) \<union> set_option kick" if "x \<in> rp_ready p'" for x
      using ready_change [OF inv kw cls that] holder(4) by auto
    then show ?thesis using inv' by auto
  next
    case (pend k c c' p1)
    note f = forget_effect [OF inv pend(1,2,3,5)]
    have kw: "k = key w" using rp_invD(7) [OF inv pend(1)] by simp
    have "x \<in> (rp_ready p - {w}) \<union> set_option kick" if "x \<in> rp_ready p'" for x
      using ready_change [OF inv kw f(2) that] pend(4) by auto
    then show ?thesis using f(1) by auto
  qed
qed

lemma rp_Clear_effect:
  assumes inv: "rp_inv key p" and run: "Clear w p = Some (kick, p')"
  shows "rp_inv key p' \<and> rp_ready p' \<subseteq> (rp_ready p - {w}) \<union> set_option kick"
proof -
  consider (none) "gm_get (rp_pending p) w = None \<or> w \<in> rp_sidelined p" "p' = p"
    | (line) k c c' where "gm_get (rp_pending p) w = Some k" "w \<notin> rp_sidelined p" "rcls p k = Some c"
        "c' = (remove_line w c)\<lparr>rc_sidelined := rc_sidelined c + 1\<rparr>" "kick = head c'"
        "p' = set_class k c' (p\<lparr>rp_parked := rp_parked p - {w}, rp_sidelined := insert w (rp_sidelined p)\<rparr>)"
    using run by (fastforce simp: Clear_def Let_def split: option.splits if_splits)
  then show ?thesis
  proof cases
    case none
    then show ?thesis using inv ready_same [OF inv none(1)] by auto
  next
    case (line k c c')
    have kw: "k = key w" using rp_invD(7) [OF inv line(1)] by simp
    have nh: "gm_get (rp_holders p) w = None" using rp_invD(6) [OF inv, of w] line(1) by (cases "gm_get (rp_holders p) w") auto
    have ok: "sorted (map snd (rc_line c))" "distinct (map fst (rc_line c))" using rp_invD(2) [OF inv line(3)] by auto
    have inv': "rp_inv key p'"
      by (rule rp_inv_change [OF inv kw _ _ line(3), where c' = c'])
        (use remove_line_effect [OF ok] line(1,2) nh in \<open>auto simp: line(4,6)\<close>)
    have cls: "rcls p' = (rcls p)(k \<mapsto> c')" by (simp add: line(6) fun_upd_def)
    have "x \<in> (rp_ready p - {w}) \<union> set_option kick" if "x \<in> rp_ready p'" for x
      using ready_change [OF inv kw cls that] line(5) by auto
    then show ?thesis using inv' by auto
  qed
qed

lemma rp_step_effect:
  "rp_step key p who kicks p' \<Longrightarrow> rp_inv key p \<Longrightarrow> rp_inv key p' \<and> rp_ready p' \<subseteq> (rp_ready p - set_option who) \<union> kicks"
proof (induction rule: rp_step.induct)
  case (admit w order maxPending p ok p')
  then show ?case using Admit_effect [OF admit(2) refl admit(1)] by simp
next
  case (acquire w order p granted kick p')
  then show ?case using rp_Acquire_effect [OF acquire(2) refl acquire(1)] by simp
next
  case (hold p w p')
  then show ?case using Hold_effect [OF hold(3) refl hold(1)] by simp
next
  case (release w p kick p')
  then show ?case using rp_Release_effect [OF release(2,1)] by simp
next
  case (clear w p kick p')
  then show ?case using rp_Clear_effect [OF clear(2,1)] by simp
qed

interpretation rp: kick_discipline "rp_inv key" rp_ready "rp_step key" for key
  by unfold_locales (use rp_step_effect in blast)+

section \<open>Properties\<close>

lemma rp_inv_New [simp, intro]: "rp_inv key (New capacity)"
  by (simp add: rp_inv_def New_def)

lemma rp_ready_New [simp]: "rp_ready (New capacity) = {}"
  by (simp add: rp_ready_def New_def)

definition rp_history :: "('w \<Rightarrow> 'k) \<Rightarrow> ('k, int) gomap \<Rightarrow> ('k, 'w, 'o::linorder) rpool \<times> 'w set \<Rightarrow> bool" where
  "rp_history key capacity c \<longleftrightarrow> rp.run key (New capacity, {}) c"

lemma rp_history_inv:
  assumes "rp_history key capacity (p, K)"
  shows "rp_inv key p \<and> rp_ready p \<subseteq> K"
  using rp.run_ready [of key "(New capacity, {})" "(p, K)"] assms by (simp add: rp_history_def)

lemma classFor_capacity: "classFor k p = Some (c, p1) \<Longrightarrow> rp_capacity p1 = rp_capacity p"
  by (auto simp: classFor_def Let_def split: option.splits)

lemma place_capacity: "place w order c p = (i, c2, p2) \<Longrightarrow> rp_capacity p2 = rp_capacity p"
  by (auto simp: place_def Let_def split: option.splits prod.splits)

lemma rp_capacity_step: "rp_step key p who kicks p' \<Longrightarrow> rp_capacity p' = rp_capacity p"
proof (induction rule: rp_step.induct)
  case (admit w order maxPending p ok p')
  show ?case
  proof (cases "classFor (key w) p")
    case None
    then show ?thesis using admit by (simp add: Admit_def)
  next
    case (Some x)
    then obtain c p0 where c: "classFor (key w) p = Some (c, p0)" by (cases x) auto
    then show ?thesis using admit classFor_capacity [OF c] by (auto simp: Admit_def split: if_splits)
  qed
next
  case (acquire w order p granted kick p')
  then show ?case
  proof (cases rule: rp_Acquire_cases)
    case (refuse c p0 p1 i c2 p2)
    then show ?thesis using place_capacity [OF refuse(4)] classFor_capacity [OF refuse(1)] by simp
  next
    case (grant c p0 p1 i c2 p2 c3)
    then show ?thesis using place_capacity [OF grant(4)] classFor_capacity [OF grant(1)] by simp
  qed (auto dest: classFor_capacity)
next
  case (hold p w p')
  show ?case
  proof (cases "classFor (key w) p")
    case None
    then show ?thesis using hold by (simp add: Hold_def)
  next
    case (Some x)
    then obtain c p0 where c: "classFor (key w) p = Some (c, p0)" by (cases x) auto
    then show ?thesis using hold classFor_capacity [OF c] by (auto simp: Hold_def forget_def Let_def split: if_splits)
  qed
next
  case (release w p kick p')
  then show ?case by (auto simp: Release_def Let_def forget_def split: option.splits prod.splits if_splits)
next
  case (clear w p kick p')
  then show ?case by (auto simp: Clear_def Let_def split: option.splits if_splits)
qed

lemma rp_history_capacity:
  assumes "rp_history key capacity (p, K)"
  shows "rp_capacity p = capacity"
proof -
  have "rp.run key c c' \<Longrightarrow> rp_capacity (fst c') = rp_capacity (fst c)" for c c'
    by (induction rule: rp.run.induct) (auto dest: rp_capacity_step)
  from this [of "(New capacity, {})" "(p, K)"] show ?thesis using assms by (simp add: rp_history_def New_def)
qed


definition ahead :: "'w \<Rightarrow> 'o::linorder \<Rightarrow> ('w \<times> 'o) list \<Rightarrow> nat" where
  "ahead w order line = (case index_of w line of Some i \<Rightarrow> i | None \<Rightarrow> length (filter (\<lambda>x. snd x < order) line))"

definition fits :: "'k \<Rightarrow> 'w \<Rightarrow> 'o::linorder \<Rightarrow> ('k, 'w, 'o) rpool \<Rightarrow> bool" where
  "fits k w order p = (case gm_get (rp_capacity p) k of None \<Rightarrow> True
     | Some cap \<Rightarrow> (case gm_get (rp_classes p) k of None \<Rightarrow> 0 < cap
         | Some c \<Rightarrow> rc_inUse c + int (ahead w order (rc_line c)) < cap))"

lemma place_fits:
  assumes inv: "rp_inv key p" and k: "k = key w" and cp: "classFor k p = Some (c, p0)"
    and p1: "p1 = (if gm_has (rp_pending p0) w then p0 else p0\<lparr>rp_pending := gm_put w k (rp_pending p0)\<rparr>)"
    and pl: "place w order c p1 = (i, c2, p2)"
  shows "fits k w order p \<longleftrightarrow> rc_inUse c2 + int i < rc_capacity c2" "gm_get (rp_pending p2) w = Some k"
    "rp_holders p2 = rp_holders p" "gm_get (rp_capacity p) k = Some (rc_capacity c2)"
proof -
  note e = classFor_effect [OF inv cp]
  note pl = place_effect [OF e(1) k e(2) p1 pl]
  have i: "i = ahead w order (rc_line c)" using pl(14) by (simp add: ahead_def)
  show "gm_get (rp_pending p2) w = Some k" "rp_holders p2 = rp_holders p" "gm_get (rp_capacity p) k = Some (rc_capacity c2)"
    using e(3,9) pl(3,5,7) by simp_all
  show "fits k w order p \<longleftrightarrow> rc_inUse c2 + int i < rc_capacity c2"
    using e(9,10) pl(7,8) i by (cases "rcls p k") (simp_all add: fits_def, simp add: ahead_def)
qed

text \<open>Claim C28. A member is granted exactly when its class is unlimited, it already holds, or it and every
  member ahead of it in line fit in the free capacity; the place of a member not in line is given by
  its order, not by its arrival. A grant makes it a holder and a refusal parks it in line.\<close>

theorem runpool_acquire_spec:
  assumes inv: "rp_inv key p" and k: "k = key w" and run: "Acquire k w order p = ((granted, kick), p')"
    and lim: "gm_get (rp_capacity p) k = Some cap"
  shows "(granted \<longleftrightarrow> Holds w p \<or> fits k w order p) \<and> (Holds w p' \<longleftrightarrow> granted)
    \<and> ParkedOn w p' = (if granted then None else Some k)"
  using run
proof (cases rule: rp_Acquire_cases)
  case free
  then show ?thesis using lim by (auto simp: classFor_def Let_def split: option.splits)
next
  case (holder c)
  note e = classFor_effect [OF inv holder(1)]
  have "w \<notin> rp_parked p'" using rp_invD(6,9) [OF e(1), of w] holder(2) by auto
  then show ?thesis using holder e(3) by (simp add: Holds_def ParkedOn_def)
next
  case (refuse c p0 p1 i c2 p2)
  note f = place_fits [OF inv k refuse(1,3,4)]
  have "\<not> Holds w p" using refuse(2) classFor_effect(3) [OF inv refuse(1)] by (simp add: Holds_def)
  moreover have "\<not> Holds w p'" using calculation f(3) refuse(8) by (simp add: Holds_def)
  moreover have "ParkedOn w p' = Some k" using f(2) refuse(8) by (simp add: ParkedOn_def)
  ultimately show ?thesis using f(1) refuse(5,6) by simp
next
  case (grant c p0 p1 i c2 p2 c3)
  note f = place_fits [OF inv k grant(1,3,4)]
  have "Holds w p'" "ParkedOn w p' = None" using grant(9) by (simp_all add: Holds_def ParkedOn_def)
  then show ?thesis using f(1) grant(5,6) by simp
qed

text \<open>Claim C29. Admission: a member is refused exactly when it is new to a limited class whose pending count has
  reached the cap, and an accepted new member adds one to the pending count, so that admission never
  takes the count past the cap.\<close>

theorem runpool_admit_spec:
  assumes inv: "rp_inv key p" and k: "k = key w" and run: "Admit k w order maxPending p = (ok, p')"
    and lim: "gm_get (rp_capacity p) k = Some cap"
  shows "(\<not> ok \<longleftrightarrow> \<not> Holds w p \<and> gm_get (rp_pending p) w = None \<and> 0 < maxPending \<and> maxPending \<le> Pending k p)
    \<and> Pending k p' = Pending k p + (if ok \<and> \<not> Holds w p \<and> gm_get (rp_pending p) w = None then 1 else 0)"
proof -
  obtain c p0 where cp: "classFor k p = Some (c, p0)"
    using lim by (cases "classFor k p") (auto simp: classFor_def Let_def split: option.splits)
  note e = classFor_effect [OF inv cp]
  have cnt: "Pending k p = pendingCount c" "Pending k p0 = pendingCount c"
    using e(2,10) by (auto simp: Pending_def pendingCount_def)
  obtain i ys where ins: "insert_at w order (rc_line c) = (i, ys)" by fastforce
  have "length ys = Suc (length (rc_line c))" using ins by (auto simp: insert_at_def Let_def)
  then show ?thesis using run cp cnt e(3,4) ins
    by (auto simp: Admit_def Holds_def Pending_def pendingCount_def split: if_splits)
qed

abbreviation wit_pool :: "(string, string, string) rpool" where
  "wit_pool \<equiv> \<lparr>rp_capacity = [(''build'', 1)],
     rp_classes = [(''build'', \<lparr>rc_capacity = 1, rc_inUse = 0, rc_line = [(''r2'', ''02'')], rc_sidelined = 0\<rparr>)],
     rp_holders = [], rp_pending = [(''r2'', ''build'')], rp_sidelined = {}, rp_parked = {}\<rparr>"

lemma wit_admit: "Admit ''build'' ''r2'' ''02'' 0 (New [(''build'', 1)]) = (True, wit_pool)"
  by (simp add: Admit_def New_def classFor_def Let_def insert_at_def set_class_def)

lemma wit_pool_history: "rp_history (\<lambda>_. ''build'') [(''build'', 1)] (wit_pool, {''r2''})"
proof -
  have "rp_step (\<lambda>_. ''build'') (New [(''build'', 1)]) None (if True then {''r2''} else {}) wit_pool"
    by (rule rp_step.admit [where w = "''r2''" and order = "''02''" and maxPending = 0]) (rule wit_admit)
  from rp.run.call [OF rp.run.refl [of _ "(New [(''build'', 1)], {})"] this] show ?thesis
    by (simp add: rp_history_def)
qed

lemma wit_pool_inv: "rp_inv (\<lambda>_. ''build'') wit_pool"
  using rp_history_inv [OF wit_pool_history] by simp


theorem runpool_acquire_spec_witness:
  "fst (fst (Acquire ''build'' ''r2'' ''02'' wit_pool)) \<and> Holds ''r2'' (snd (Acquire ''build'' ''r2'' ''02'' wit_pool))"
proof -
  obtain g kk p' where run: "Acquire ''build'' ''r2'' ''02'' wit_pool = ((g, kk), p')" by (metis surj_pair)
  have "fits ''build'' ''r2'' ''02'' wit_pool" by (simp add: fits_def ahead_def)
  with runpool_acquire_spec [OF wit_pool_inv refl run, of 1] run show ?thesis by simp
qed

theorem runpool_admit_spec_witness:
  "\<not> fst (Admit ''build'' ''r3'' ''03'' 1 wit_pool)"
proof -
  obtain ok p' where run: "Admit ''build'' ''r3'' ''03'' 1 wit_pool = (ok, p')" by fastforce
  have "Pending ''build'' wit_pool = 1" "\<not> Holds ''r3'' wit_pool" by (simp_all add: Pending_def pendingCount_def Holds_def)
  with runpool_admit_spec [OF wit_pool_inv refl run, of 1] run show ?thesis by simp
qed

end
