(* ===== verification/Joinset.thy ===== *)
theory Joinset
  imports Prelude
begin

text \<open>
  The keyed join behind the engine's multi-target parks (\<^verbatim>\<open>src/internal/joinset/joinset.go\<close>): waiters
  register on keys with a threshold, completing a key marks it on every waiter registered on it and
  reports the waiters that crossed their threshold by it. A waiter's done map to \<^verbatim>\<open>struct{}\<close> is a set; the
  members of a key are a list, one of the orders in which the \<^verbatim>\<open>range\<close> loop of \<^verbatim>\<open>Complete\<close> may visit them.
\<close>

section \<open>State and operations\<close>

record 'k jwaiter =
  jw_keys :: "'k list"
  jw_need :: int
  jw_done :: "'k set"
  jw_since :: gotime
  jw_kicked :: bool

record ('k, 'w) jset =
  js_waiters :: "('w, 'k jwaiter) gomap"
  js_byKey :: "('k, 'w list) gomap"

definition empty_jset :: "('k, 'w) jset" where
  "empty_jset = \<lparr>js_waiters = [], js_byKey = []\<rparr>"

definition members :: "('k, 'w list) gomap \<Rightarrow> 'k \<Rightarrow> 'w list" where
  "members m k = (case gm_get m k of None \<Rightarrow> [] | Some ws \<Rightarrow> ws)"

fun register_keys :: "'w \<Rightarrow> 'k list \<Rightarrow> ('k, 'w list) gomap \<Rightarrow> 'k list \<Rightarrow> ('k, 'w list) gomap \<times> 'k list" where
  "register_keys w [] byKey acc = (byKey, acc)"
| "register_keys w (k # ks) byKey acc =
     (if w \<in> set (members byKey k) then register_keys w ks byKey acc
      else register_keys w ks (gm_put k (members byKey k @ [w]) byKey) (acc @ [k]))"

definition Register :: "'w \<Rightarrow> 'k list \<Rightarrow> int \<Rightarrow> gotime \<Rightarrow> ('k, 'w) jset \<Rightarrow> bool \<times> ('k, 'w) jset" where
  "Register w keys need now s =
     (if gm_has (js_waiters s) w then (False, s)
      else case register_keys w keys (js_byKey s) [] of (byKey, ks) \<Rightarrow>
        (True, \<lparr>js_waiters = gm_put w \<lparr>jw_keys = ks, jw_need = min (max need 1) (int (length ks)), jw_done = {},
                   jw_since = now, jw_kicked = False\<rparr> (js_waiters s),
                js_byKey = byKey\<rparr>))"

definition Mark :: "'w \<Rightarrow> 'k \<Rightarrow> ('k, 'w) jset \<Rightarrow> ('k, 'w) jset" where
  "Mark w k s = (case gm_get (js_waiters s) w of None \<Rightarrow> s
     | Some wt \<Rightarrow> if w \<notin> set (members (js_byKey s) k) then s
         else s\<lparr>js_waiters := gm_put w (wt\<lparr>jw_done := insert k (jw_done wt)\<rparr>) (js_waiters s)\<rparr>)"

text \<open>The loop of \<^verbatim>\<open>Complete\<close>; a member without a waiter would be a nil dereference, \<open>None\<close>.\<close>

fun complete_loop :: "'k \<Rightarrow> 'w list \<Rightarrow> ('w, 'k jwaiter) gomap \<Rightarrow> 'w list \<Rightarrow> ('w list \<times> ('w, 'k jwaiter) gomap) option" where
  "complete_loop k [] ws kicks = Some (kicks, ws)"
| "complete_loop k (w # rest) ws kicks = (case gm_get ws w of None \<Rightarrow> None
     | Some wt \<Rightarrow>
         (let wt1 = wt\<lparr>jw_done := insert k (jw_done wt)\<rparr> in
          if \<not> jw_kicked wt1 \<and> 0 < jw_need wt1 \<and> jw_need wt1 \<le> int (card (jw_done wt1))
          then complete_loop k rest (gm_put w (wt1\<lparr>jw_kicked := True\<rparr>) ws) (kicks @ [w])
          else complete_loop k rest (gm_put w wt1 ws) kicks))"

definition Complete :: "'k \<Rightarrow> ('k, 'w) jset \<Rightarrow> ('w list \<times> ('k, 'w) jset) option" where
  "Complete k s = (case complete_loop k (members (js_byKey s) k) (js_waiters s) [] of
     None \<Rightarrow> None | Some (kicks, ws) \<Rightarrow> Some (kicks, s\<lparr>js_waiters := ws\<rparr>))"

definition Done :: "'w \<Rightarrow> ('k, 'w) jset \<Rightarrow> 'k list option" where
  "Done w s = (case gm_get (js_waiters s) w of None \<Rightarrow> None
     | Some wt \<Rightarrow> Some (filter (\<lambda>k. k \<in> jw_done wt) (jw_keys wt)))"

definition leave_key :: "'w \<Rightarrow> 'k \<Rightarrow> ('k, 'w list) gomap \<Rightarrow> ('k, 'w list) gomap" where
  "leave_key w k byKey = (let ms = filter (\<lambda>x. x \<noteq> w) (members byKey k)
     in if ms = [] then gm_del k byKey else gm_put k ms byKey)"

definition Remove :: "'w \<Rightarrow> ('k, 'w) jset \<Rightarrow> gotime option \<times> ('k, 'w) jset" where
  "Remove w s = (case gm_get (js_waiters s) w of None \<Rightarrow> (None, s)
     | Some wt \<Rightarrow> (Some (jw_since wt), \<lparr>js_waiters = gm_del w (js_waiters s),
         js_byKey = fold (leave_key w) (jw_keys wt) (js_byKey s)\<rparr>))"

definition Len :: "('k, 'w) jset \<Rightarrow> nat" where
  "Len s = length (js_waiters s)"

section \<open>Invariant\<close>

definition js_inv :: "('k, 'w) jset \<Rightarrow> bool" where
  "js_inv s \<longleftrightarrow> gm_ok (js_waiters s)
     \<and> (\<forall>k. distinct (members (js_byKey s) k))
     \<and> (\<forall>w k. w \<in> set (members (js_byKey s) k) \<longleftrightarrow> (\<exists>wt. gm_get (js_waiters s) w = Some wt \<and> k \<in> set (jw_keys wt)))
     \<and> (\<forall>w wt. gm_get (js_waiters s) w = Some wt \<longrightarrow> distinct (jw_keys wt) \<and> jw_done wt \<subseteq> set (jw_keys wt)
          \<and> jw_need wt \<le> int (length (jw_keys wt)) \<and> (jw_keys wt \<noteq> [] \<longrightarrow> 1 \<le> jw_need wt))"

lemma members_put [simp]: "members (gm_put k v m) j = (if j = k then v else members m j)"
  by (simp add: members_def)

lemma members_del [simp]: "members (gm_del k m) j = (if j = k then [] else members m j)"
  by (simp add: members_def)

lemma members_leave [simp]:
  "members (leave_key w k m) j = (if j = k then filter (\<lambda>x. x \<noteq> w) (members m j) else members m j)"
  by (auto simp: leave_key_def Let_def)

lemma members_leave_all:
  "members (fold (leave_key w) ks m) j = (if j \<in> set ks then filter (\<lambda>x. x \<noteq> w) (members m j) else members m j)"
  by (induction ks arbitrary: m) auto

lemma register_keys_effect:
  assumes "register_keys w ks m acc = (m', acc')" and "\<And>k. w \<in> set (members m k) \<longleftrightarrow> k \<in> set acc" and "distinct acc"
  shows "members m' j = (if j \<in> set ks - set acc then members m j @ [w] else members m j)"
    "set acc' = set acc \<union> set ks" "distinct acc'"
  using assms
proof (induction ks arbitrary: m acc)
  case (Cons k ks)
  {
    case 1
    show ?case
    proof (cases "w \<in> set (members m k)")
      case True
      then have "members m' j = (if j \<in> set ks - set acc then members m j @ [w] else members m j)"
        using Cons(1) 1 by simp
      then show ?thesis using True 1(2) by auto
    next
      case False
      let ?m = "gm_put k (members m k @ [w]) m"
      have run: "register_keys w ks ?m (acc @ [k]) = (m', acc')" using 1(1) False by simp
      have "members m' j = (if j \<in> set ks - set (acc @ [k]) then members ?m j @ [w] else members ?m j)"
        by (rule Cons(1) [OF run]) (use 1 False in auto)
      then show ?thesis using 1(2) False by auto
    qed
  next
    case 2
    show ?case
    proof (cases "w \<in> set (members m k)")
      case True
      then show ?thesis using Cons(2) [of m acc] 2 by auto
    next
      case False
      let ?m = "gm_put k (members m k @ [w]) m"
      have run: "register_keys w ks ?m (acc @ [k]) = (m', acc')" using 2(1) False by simp
      have "set acc' = set (acc @ [k]) \<union> set ks" by (rule Cons(2) [OF run]) (use 2 False in auto)
      then show ?thesis by auto
    qed
  next
    case 3
    show ?case
    proof (cases "w \<in> set (members m k)")
      case True
      then show ?thesis using Cons(3) [of m acc] 3 by auto
    next
      case False
      let ?m = "gm_put k (members m k @ [w]) m"
      have run: "register_keys w ks ?m (acc @ [k]) = (m', acc')" using 3(1) False by simp
      show ?thesis by (rule Cons(3) [OF run]) (use 3 False in auto)
    qed
  }
qed simp_all

definition crosses :: "'k \<Rightarrow> 'k jwaiter \<Rightarrow> bool" where
  "crosses k wt \<longleftrightarrow> \<not> jw_kicked wt \<and> 0 < jw_need wt \<and> jw_need wt \<le> int (card (insert k (jw_done wt)))"

definition completed :: "'k \<Rightarrow> 'k jwaiter \<Rightarrow> 'k jwaiter" where
  "completed k wt = wt\<lparr>jw_done := insert k (jw_done wt), jw_kicked := jw_kicked wt \<or> crosses k wt\<rparr>"

lemma completed_sel [simp]:
  "jw_keys (completed k wt) = jw_keys wt" "jw_need (completed k wt) = jw_need wt"
  "jw_done (completed k wt) = insert k (jw_done wt)" "jw_since (completed k wt) = jw_since wt"
  by (simp_all add: completed_def)

lemma complete_loop_step:
  assumes "gm_get ws w = Some wt"
  shows "complete_loop k (w # rest) ws kicks =
    complete_loop k rest (gm_put w (completed k wt) ws) (kicks @ (if crosses k wt then [w] else []))"
proof -
  have "wt\<lparr>jw_done := insert k (jw_done wt)\<rparr> = completed k wt" if "\<not> crosses k wt"
    using that by (simp add: completed_def)
  then show ?thesis using assms by (auto simp: crosses_def completed_def Let_def)
qed

lemma complete_loop_effect:
  assumes "distinct ms" and "\<And>w. w \<in> set ms \<Longrightarrow> gm_has ws w" and "gm_ok ws"
  shows "\<exists>ws'. complete_loop k ms ws kicks = Some (kicks @ filter (\<lambda>w. crosses k (the (gm_get ws w))) ms, ws') \<and> gm_ok ws'
    \<and> gm_get ws' = (\<lambda>w. if w \<in> set ms then map_option (completed k) (gm_get ws w) else gm_get ws w)"
  using assms
proof (induction ms arbitrary: ws kicks)
  case (Cons w ms)
  obtain wt where wt: "gm_get ws w = Some wt" using Cons.prems(2) by fastforce
  let ?ws = "gm_put w (completed k wt) ws" and ?ks = "kicks @ (if crosses k wt then [w] else [])"
  have d: "distinct ms" "w \<notin> set ms" using Cons.prems(1) by auto
  have "\<exists>ws'. complete_loop k ms ?ws ?ks = Some (?ks @ filter (\<lambda>w. crosses k (the (gm_get ?ws w))) ms, ws') \<and> gm_ok ws'
    \<and> gm_get ws' = (\<lambda>w. if w \<in> set ms then map_option (completed k) (gm_get ?ws w) else gm_get ?ws w)"
    using Cons.prems d by (intro Cons.IH) auto
  then obtain ws' where ws': "complete_loop k ms ?ws ?ks = Some (?ks @ filter (\<lambda>w. crosses k (the (gm_get ?ws w))) ms, ws')" "gm_ok ws'"
    "gm_get ws' = (\<lambda>w. if w \<in> set ms then map_option (completed k) (gm_get ?ws w) else gm_get ?ws w)" by blast
  have "filter (\<lambda>w. crosses k (the (gm_get ?ws w))) ms = filter (\<lambda>w. crosses k (the (gm_get ws w))) ms"
    using d(2) by (intro filter_cong) auto
  then show ?case using ws' wt d(2) unfolding complete_loop_step [OF wt] by (auto simp: fun_eq_iff)
qed auto

lemma js_invD:
  assumes "js_inv s"
  shows "gm_ok (js_waiters s)" "distinct (members (js_byKey s) k)"
    "w \<in> set (members (js_byKey s) k) \<longleftrightarrow> (\<exists>wt. gm_get (js_waiters s) w = Some wt \<and> k \<in> set (jw_keys wt))"
    "gm_get (js_waiters s) w = Some wt \<Longrightarrow> distinct (jw_keys wt) \<and> jw_done wt \<subseteq> set (jw_keys wt)
       \<and> jw_need wt \<le> int (length (jw_keys wt)) \<and> (jw_keys wt \<noteq> [] \<longrightarrow> 1 \<le> jw_need wt)"
  using assms by (auto simp: js_inv_def)

lemma Complete_effect:
  assumes "js_inv s"
  shows "\<exists>kicks s'. Complete k s = Some (kicks, s') \<and> js_byKey s' = js_byKey s \<and> gm_ok (js_waiters s') \<and> distinct kicks
    \<and> (\<forall>w. w \<in> set kicks \<longleftrightarrow> (\<exists>wt. gm_get (js_waiters s) w = Some wt \<and> k \<in> set (jw_keys wt) \<and> crosses k wt))
    \<and> gm_get (js_waiters s') = (\<lambda>w. map_option (\<lambda>wt. if k \<in> set (jw_keys wt) then completed k wt else wt) (gm_get (js_waiters s) w))"
proof -
  let ?ms = "members (js_byKey s) k"
  note D = js_invD [OF assms]
  have "\<And>w. w \<in> set ?ms \<Longrightarrow> gm_has (js_waiters s) w" using D(3) [of _ k] by auto
  from complete_loop_effect [OF D(2) this D(1), of _ k "[]"] obtain ws' where
    run: "complete_loop k ?ms (js_waiters s) [] = Some (filter (\<lambda>w. crosses k (the (gm_get (js_waiters s) w))) ?ms, ws')" "gm_ok ws'"
    "gm_get ws' = (\<lambda>w. if w \<in> set ?ms then map_option (completed k) (gm_get (js_waiters s) w) else gm_get (js_waiters s) w)" by auto
  have "gm_get ws' = (\<lambda>w. map_option (\<lambda>wt. if k \<in> set (jw_keys wt) then completed k wt else wt) (gm_get (js_waiters s) w))"
  proof
    fix w
    show "gm_get ws' w = map_option (\<lambda>wt. if k \<in> set (jw_keys wt) then completed k wt else wt) (gm_get (js_waiters s) w)"
      using D(3) [of w k] by (cases "gm_get (js_waiters s) w") (auto simp: run(3))
  qed
  then show ?thesis using run(1,2) D(2) D(3) [of _ k] by (auto simp: Complete_def)
qed

lemma Complete_inv:
  assumes inv: "js_inv s" and run: "Complete k s = Some (kicks, s')"
  shows "js_inv s'"
proof -
  note D = js_invD [OF inv]
  have e: "js_byKey s' = js_byKey s" "gm_ok (js_waiters s')"
    "gm_get (js_waiters s') = (\<lambda>w. map_option (\<lambda>wt. if k \<in> set (jw_keys wt) then completed k wt else wt) (gm_get (js_waiters s) w))"
    using Complete_effect [OF inv, of k] run by auto
  show ?thesis unfolding js_inv_def e(1,3)
  proof (intro conjI allI)
    fix w j
    show "w \<in> set (members (js_byKey s) j) \<longleftrightarrow>
      (\<exists>wt. map_option (\<lambda>wt. if k \<in> set (jw_keys wt) then completed k wt else wt) (gm_get (js_waiters s) w) = Some wt \<and> j \<in> set (jw_keys wt))"
      using D(3) [of w j] by (cases "gm_get (js_waiters s) w") auto
  next
    fix w wt
    show "map_option (\<lambda>wt. if k \<in> set (jw_keys wt) then completed k wt else wt) (gm_get (js_waiters s) w) = Some wt \<longrightarrow>
      distinct (jw_keys wt) \<and> jw_done wt \<subseteq> set (jw_keys wt) \<and> jw_need wt \<le> int (length (jw_keys wt)) \<and> (jw_keys wt \<noteq> [] \<longrightarrow> 1 \<le> jw_need wt)"
      using D(4) [of w] by (cases "gm_get (js_waiters s) w") auto
  qed (use e(2) D(2) in auto)
qed

lemma Mark_inv:
  assumes inv: "js_inv s"
  shows "js_inv (Mark w k s)"
proof (cases "\<exists>wt. gm_get (js_waiters s) w = Some wt \<and> k \<in> set (jw_keys wt)")
  case False
  then show ?thesis using inv js_invD(3) [OF inv, of w k] by (auto simp: Mark_def split: option.split)
next
  case True
  note D = js_invD [OF inv]
  obtain wt where wt: "gm_get (js_waiters s) w = Some wt" "k \<in> set (jw_keys wt)" using True by auto
  have m: "Mark w k s = s\<lparr>js_waiters := gm_put w (wt\<lparr>jw_done := insert k (jw_done wt)\<rparr>) (js_waiters s)\<rparr>"
    using wt D(3) [of w k] by (simp add: Mark_def)
  show ?thesis unfolding js_inv_def m
    using D(1,2) D(3) D(4) wt by (auto simp: gm_ok_put)
qed

lemma Register_inv:
  assumes inv: "js_inv s" and run: "Register w keys need now s = (fresh, s')"
  shows "js_inv s'"
proof (cases "gm_get (js_waiters s) w")
  case (Some wt)
  then show ?thesis using run inv by (simp add: Register_def)
next
  case None
  note D = js_invD [OF inv]
  obtain m ks where rk: "register_keys w keys (js_byKey s) [] = (m, ks)" by fastforce
  have "w \<in> set (members (js_byKey s) k) \<longleftrightarrow> k \<in> set []" for k using D(3) [of w k] None by simp
  note e = register_keys_effect [OF rk this]
  have s': "s' = \<lparr>js_waiters = gm_put w \<lparr>jw_keys = ks, jw_need = min (max need 1) (int (length ks)), jw_done = {},
      jw_since = now, jw_kicked = False\<rparr> (js_waiters s), js_byKey = m\<rparr>"
    using run None rk by (simp add: Register_def)
  show ?thesis unfolding js_inv_def s'
  proof (intro conjI allI)
    fix v k
    have "v \<in> set (members m k) \<longleftrightarrow> v \<in> set (members (js_byKey s) k) \<or> v = w \<and> k \<in> set keys" using e(1) [of k] by auto
    then show "v \<in> set (members (js_byKey \<lparr>js_waiters = gm_put w \<lparr>jw_keys = ks, jw_need = min (max need 1) (int (length ks)), jw_done = {},
      jw_since = now, jw_kicked = False\<rparr> (js_waiters s), js_byKey = m\<rparr>) k) \<longleftrightarrow>
      (\<exists>wt. gm_get (js_waiters \<lparr>js_waiters = gm_put w \<lparr>jw_keys = ks, jw_need = min (max need 1) (int (length ks)), jw_done = {},
      jw_since = now, jw_kicked = False\<rparr> (js_waiters s), js_byKey = m\<rparr>) v = Some wt \<and> k \<in> set (jw_keys wt))"
      using D(3) [of v k] e(2) None by auto
  next
    fix k
    have "w \<notin> set (members (js_byKey s) k)" using D(3) [of w k] None by simp
    then show "distinct (members (js_byKey \<lparr>js_waiters = gm_put w \<lparr>jw_keys = ks, jw_need = min (max need 1) (int (length ks)), jw_done = {},
      jw_since = now, jw_kicked = False\<rparr> (js_waiters s), js_byKey = m\<rparr>) k)"
      using D(2) [of k] e(1) [of k] by simp
  qed (use D(1) D(4) e(3) in \<open>auto simp: gm_ok_put Suc_leI\<close>)
qed

lemma Remove_inv:
  assumes inv: "js_inv s" and run: "Remove w s = (r, s')"
  shows "js_inv s'"
proof (cases "gm_get (js_waiters s) w")
  case None
  then show ?thesis using run inv by (simp add: Remove_def)
next
  case (Some wt)
  note D = js_invD [OF inv]
  have s': "s' = \<lparr>js_waiters = gm_del w (js_waiters s), js_byKey = fold (leave_key w) (jw_keys wt) (js_byKey s)\<rparr>"
    using run Some by (simp add: Remove_def)
  have m: "set (members (js_byKey s') k) = set (members (js_byKey s) k) - {w}" for k
    using D(3) [of w k] Some by (auto simp: s' members_leave_all)
  show ?thesis unfolding js_inv_def
  proof (intro conjI allI)
    fix v k
    show "v \<in> set (members (js_byKey s') k) \<longleftrightarrow> (\<exists>wt. gm_get (js_waiters s') v = Some wt \<and> k \<in> set (jw_keys wt))"
      unfolding m using D(3) [of v k] by (auto simp: s')
  qed (use D(1,2) D(4) in \<open>auto simp: s' members_leave_all gm_ok_del split: if_splits\<close>)
qed

section \<open>Histories\<close>

datatype ('k, 'w) jevent = JRegister 'w | JMark 'w 'k | JComplete 'k "'w list" | JRemove 'w

inductive js_step :: "('k, 'w) jset \<Rightarrow> ('k, 'w) jevent \<Rightarrow> ('k, 'w) jset \<Rightarrow> bool" where
  register: "Register w keys need now s = (fresh, s') \<Longrightarrow> js_step s (JRegister w) s'"
| mark: "js_step s (JMark w k) (Mark w k s)"
| complete: "Complete k s = Some (kicks, s') \<Longrightarrow> js_step s (JComplete k kicks) s'"
| remove: "Remove w s = (r, s') \<Longrightarrow> js_step s (JRemove w) s'"

inductive js_run :: "('k, 'w) jset \<Rightarrow> ('k, 'w) jevent list \<Rightarrow> ('k, 'w) jset \<Rightarrow> bool" where
  nil: "js_run s [] s"
| snoc: "js_run s evs s' \<Longrightarrow> js_step s' ev s'' \<Longrightarrow> js_run s (evs @ [ev]) s''"

fun reported :: "('k, 'w) jevent \<Rightarrow> 'w list" where
  "reported (JComplete k kicks) = kicks"
| "reported _ = []"

definition was_kicked :: "'w \<Rightarrow> ('k, 'w) jset \<Rightarrow> bool" where
  "was_kicked w s \<longleftrightarrow> (case gm_get (js_waiters s) w of None \<Rightarrow> False | Some wt \<Rightarrow> jw_kicked wt)"

lemma js_step_inv: "js_step s ev s' \<Longrightarrow> js_inv s \<Longrightarrow> js_inv s'"
  by (induction rule: js_step.induct) (auto intro: Register_inv Mark_inv Complete_inv Remove_inv)

lemma js_run_inv: "js_run s evs s' \<Longrightarrow> js_inv s \<Longrightarrow> js_inv s'"
  by (induction rule: js_run.induct) (auto intro: js_step_inv)

lemma js_step_kicks:
  assumes "js_step s ev s'" and "js_inv s" and "ev \<noteq> JRemove w"
  shows "count_list (reported ev) w + (if was_kicked w s then 1 else 0) \<le> (if was_kicked w s' then 1 else (0::nat))"
  using assms
proof (induction rule: js_step.induct)
  case (register v keys need now s fresh s')
  then have "gm_get (js_waiters s') w = gm_get (js_waiters s) w \<or> gm_get (js_waiters s) w = None"
    by (auto simp: Register_def split: if_splits prod.splits option.splits)
  then show ?case by (auto simp: was_kicked_def)
next
  case (mark s v k)
  then show ?case by (auto simp: was_kicked_def Mark_def split: option.split)
next
  case (complete k s kicks s')
  have e: "distinct kicks" "w \<in> set kicks \<longleftrightarrow> (\<exists>wt. gm_get (js_waiters s) w = Some wt \<and> k \<in> set (jw_keys wt) \<and> crosses k wt)"
    "gm_get (js_waiters s') w = map_option (\<lambda>wt. if k \<in> set (jw_keys wt) then completed k wt else wt) (gm_get (js_waiters s) w)"
    using Complete_effect [OF complete(2), of k] complete(1) by auto
  have "count_list kicks w = (if w \<in> set kicks then 1 else 0)"
    using distinct_count_atmost_1 [of kicks] e(1) by (auto simp: count_list_0_iff count_mset)
  then show ?case using e(2,3)
    by (cases "gm_get (js_waiters s) w") (auto simp: was_kicked_def completed_def crosses_def)
next
  case (remove v s r s')
  then show ?case by (auto simp: was_kicked_def Remove_def split: option.splits)
qed

lemma js_run_kicks:
  "js_run s evs s' \<Longrightarrow> js_inv s \<Longrightarrow> JRemove w \<notin> set evs \<Longrightarrow>
   count_list (concat (map reported evs)) w + (if was_kicked w s then 1 else 0) \<le> (if was_kicked w s' then 1 else (0::nat))"
proof (induction rule: js_run.induct)
  case (snoc s evs s' ev s'')
  then show ?case using js_step_kicks [OF snoc(2) js_run_inv [OF snoc(1,4)], of w] by (simp split: if_splits)
qed simp

section \<open>Properties\<close>

text \<open>Claim C30. Completing a key never panics on a well-formed set; it marks the key done on exactly the waiters
  registered on it and reports, once each, exactly those among them that had not been reported and whose
  done keys now reach their threshold; the other waiters are untouched.\<close>

theorem joinset_complete_spec:
  assumes "js_inv s"
  shows "\<exists>kicks s'. Complete k s = Some (kicks, s') \<and> js_inv s' \<and> distinct kicks
    \<and> (\<forall>w. w \<in> set kicks \<longleftrightarrow> (\<exists>wt. gm_get (js_waiters s) w = Some wt \<and> k \<in> set (jw_keys wt) \<and> \<not> jw_kicked wt
             \<and> jw_need wt \<le> int (card (insert k (jw_done wt)))))
    \<and> (\<forall>w. Done w s' = (case gm_get (js_waiters s) w of None \<Rightarrow> None
           | Some wt \<Rightarrow> Some (filter (\<lambda>j. j \<in> jw_done wt \<or> j = k) (jw_keys wt))))"
proof -
  note D = js_invD [OF assms]
  obtain kicks s' where e: "Complete k s = Some (kicks, s')" "distinct kicks"
    "\<forall>w. w \<in> set kicks \<longleftrightarrow> (\<exists>wt. gm_get (js_waiters s) w = Some wt \<and> k \<in> set (jw_keys wt) \<and> crosses k wt)"
    "gm_get (js_waiters s') = (\<lambda>w. map_option (\<lambda>wt. if k \<in> set (jw_keys wt) then completed k wt else wt) (gm_get (js_waiters s) w))"
    using Complete_effect [OF assms, of k] by auto
  have cr: "crosses k wt \<longleftrightarrow> \<not> jw_kicked wt \<and> jw_need wt \<le> int (card (insert k (jw_done wt)))"
    if "gm_get (js_waiters s) w = Some wt" "k \<in> set (jw_keys wt)" for w wt
    using D(4) [OF that(1)] that(2) by (auto simp: crosses_def)
  have "Done w s' = (case gm_get (js_waiters s) w of None \<Rightarrow> None
      | Some wt \<Rightarrow> Some (filter (\<lambda>j. j \<in> jw_done wt \<or> j = k) (jw_keys wt)))" for w
    using e(4) by (cases "gm_get (js_waiters s) w") (auto simp: Done_def intro: filter_cong)
  then show ?thesis using e(1-3) cr Complete_inv [OF assms e(1)] by blast
qed

text \<open>In every history of a join set, a waiter is reported at most once between its registration and
  its removal.\<close>

theorem joinset_kicked_once:
  assumes "js_run empty_jset pre s" and "js_run s evs s'" and "JRemove w \<notin> set evs"
  shows "count_list (concat (map reported evs)) w \<le> 1"
proof -
  have "js_inv (empty_jset :: ('a, 'b) jset)" by (simp add: js_inv_def empty_jset_def members_def)
  then have "js_inv s" using js_run_inv [OF assms(1)] by blast
  from js_run_kicks [OF assms(2) this assms(3)] show ?thesis by (simp split: if_splits)
qed

abbreviation wit_jset :: "(string, string) jset" where
  "wit_jset \<equiv> \<lparr>js_waiters = [(''w'', \<lparr>jw_keys = [''a'', ''b''], jw_need = 1, jw_done = {}, jw_since = 4, jw_kicked = False\<rparr>)],
     js_byKey = [(''a'', [''w'']), (''b'', [''w''])]\<rparr>"

lemma wit_jset_register: "Register ''w'' [''a'', ''b'', ''a''] 1 4 empty_jset = (True, wit_jset)"
  by (simp add: Register_def empty_jset_def members_def)

lemma wit_jset_inv: "js_inv wit_jset"
  using Register_inv [OF _ wit_jset_register] by (simp add: js_inv_def empty_jset_def members_def)

theorem joinset_complete_spec_witness:
  "\<exists>kicks s'. Complete ''b'' wit_jset = Some (kicks, s') \<and> ''w'' \<in> set kicks \<and> Done ''w'' s' = Some [''b'']"
proof -
  obtain kicks s' where e: "Complete ''b'' wit_jset = Some (kicks, s')"
    "\<forall>w. w \<in> set kicks \<longleftrightarrow> (\<exists>wt. gm_get (js_waiters wit_jset) w = Some wt \<and> ''b'' \<in> set (jw_keys wt) \<and> \<not> jw_kicked wt
             \<and> jw_need wt \<le> int (card (insert ''b'' (jw_done wt))))"
    "\<forall>w. Done w s' = (case gm_get (js_waiters wit_jset) w of None \<Rightarrow> None
           | Some wt \<Rightarrow> Some (filter (\<lambda>j. j \<in> jw_done wt \<or> j = ''b'') (jw_keys wt)))"
    using joinset_complete_spec [OF wit_jset_inv, of "''b''"] by blast
  have "''w'' \<in> set kicks" using e(2) [THEN spec, of "''w''"] by simp
  moreover have "Done ''w'' s' = Some [''b'']" using e(3) [THEN spec, of "''w''"] by simp
  ultimately show ?thesis using e(1) by blast
qed

theorem joinset_kicked_once_witness:
  "\<exists>evs s'. js_run wit_jset evs s' \<and> count_list (concat (map reported evs)) ''w'' \<le> 1 \<and> evs \<noteq> []"
proof -
  have pre: "js_run empty_jset ([] @ [JRegister ''w'']) wit_jset"
    by (rule js_run.snoc [OF js_run.nil js_step.register [OF wit_jset_register]])
  obtain kicks s' where c: "Complete ''b'' wit_jset = Some (kicks, s')" using Complete_effect [OF wit_jset_inv] by blast
  have run: "js_run wit_jset ([] @ [JComplete ''b'' kicks]) s'"
    by (rule js_run.snoc [OF js_run.nil js_step.complete [OF c]])
  from joinset_kicked_once [OF pre run, of "''w''"] show ?thesis using run by (intro exI conjI) auto
qed

end
