(* ===== verification/Dispatcher.thy ===== *)
theory Dispatcher
  imports Signals
begin

text \<open>
  The keyed single-flight worker scheduler (\<^verbatim>\<open>src/internal/dispatcher/dispatcher.go\<close>) as a state machine: the
  maps under the mutex, the armed wakes, the semaphore and the multiset of worker goroutines, each
  at one of the program points between its synchronisation operations. A step is one critical section or
  channel operation of one goroutine, so that every interleaving is a sequence of steps. The worker callback
  is arbitrary: it may return any delay and any answer to whether another dispatch is wanted. \<open>d_owed\<close> is a
  ghost: the keys dispatched since the last start of their callback.
\<close>

section \<open>State\<close>

datatype worker_pc =
    Spawning duration        \<comment> \<open>in \<^verbatim>\<open>Dispatch\<close>, slot taken, wake not armed yet\<close>
  | Waiting nat              \<comment> \<open>in the delay's select, on the armed channel\<close>
  | AtSem                    \<comment> \<open>at the semaphore\<close>
  | Running                  \<comment> \<open>in the callback\<close>
  | Ran duration bool        \<comment> \<open>callback returned, semaphore not released yet\<close>
  | Clearing duration bool   \<comment> \<open>before \<^verbatim>\<open>clearActive\<close>\<close>
  | Redispatching duration bool  \<comment> \<open>slot released, before the redispatch decision\<close>
  | Aborting                 \<comment> \<open>context done, before \<^verbatim>\<open>clearActive\<close>\<close>

record 'k dispatcher =
  d_concurrency :: nat
  d_active :: "'k set"
  d_repoke :: "'k set"
  d_wakes :: "'k signals"
  d_sem :: nat
  d_workers :: "('k \<times> worker_pc) multiset"
  d_ctx_done :: bool
  d_owed :: "'k set"

text \<open>\<^verbatim>\<open>New\<close> panics on a negative budget; zero means no semaphore.\<close>

definition New :: "int \<Rightarrow> 'k dispatcher option" where
  "New concurrency = (if concurrency < 0 then None
     else Some \<lparr>d_concurrency = nat concurrency, d_active = {}, d_repoke = {},
       d_wakes = \<lparr>sig_armed = [], sig_next = 0, sig_full = {}\<rparr>, d_sem = 0, d_workers = {#}, d_ctx_done = False, d_owed = {}\<rparr>)"

section \<open>Operations\<close>

text \<open>The locked part of \<^verbatim>\<open>Dispatch\<close>: a duplicate is recorded as a re-poke, otherwise the slot is taken.\<close>

definition Dispatch :: "'k \<Rightarrow> duration \<Rightarrow> 'k dispatcher \<Rightarrow> 'k dispatcher" where
  "Dispatch k delay d0 = (let d = d0\<lparr>d_owed := insert k (d_owed d0)\<rparr> in
     if k \<in> d_active d then d\<lparr>d_repoke := insert k (d_repoke d)\<rparr>
     else d\<lparr>d_active := insert k (d_active d), d_workers := add_mset (k, Spawning delay) (d_workers d)\<rparr>)"

definition Wake :: "'k \<Rightarrow> 'k dispatcher \<Rightarrow> 'k dispatcher" where
  "Wake k d = d\<lparr>d_wakes := Fire k (d_wakes d)\<rparr>"

definition clearActive :: "'k \<Rightarrow> 'k dispatcher \<Rightarrow> bool \<times> 'k dispatcher" where
  "clearActive k d = (k \<in> d_repoke d, d\<lparr>d_active := d_active d - {k}, d_repoke := d_repoke d - {k}\<rparr>)"

definition IsActive :: "'k \<Rightarrow> 'k dispatcher \<Rightarrow> bool" where
  "IsActive k d \<longleftrightarrow> k \<in> d_active d"

definition Active :: "'k dispatcher \<Rightarrow> nat" where
  "Active d = card (d_active d)"

definition Delayed :: "'k dispatcher \<Rightarrow> nat" where
  "Delayed d = signals_Len (d_wakes d)"

text \<open>The end of a worker: its slot is released, and a suppressed dispatch overrides what the callback asked.\<close>

definition finish :: "'k \<Rightarrow> duration \<Rightarrow> bool \<Rightarrow> 'k dispatcher \<Rightarrow> 'k dispatcher" where
  "finish k redispatchIn again d = (case clearActive k d of (repoke, d1) \<Rightarrow>
     d1\<lparr>d_workers := add_mset (k, if repoke then Redispatching 0 True else Redispatching redispatchIn again) (d_workers d1)\<rparr>)"

inductive dispatcher_step :: "'k dispatcher \<Rightarrow> 'k dispatcher \<Rightarrow> bool" where
  dispatch: "dispatcher_step d (Dispatch k delay d)"
| wake: "dispatcher_step d (Wake k d)"
| arm: "d_workers d = add_mset (k, Spawning delay) W \<Longrightarrow> 0 < delay \<Longrightarrow> Arm k (d_wakes d) = (ch, ws) \<Longrightarrow>
    dispatcher_step d (d\<lparr>d_wakes := ws, d_workers := add_mset (k, Waiting ch) W\<rparr>)"
| spawn: "d_workers d = add_mset (k, Spawning delay) W \<Longrightarrow> delay \<le> 0 \<Longrightarrow>
    dispatcher_step d (d\<lparr>d_workers := add_mset (k, AtSem) W\<rparr>)"
| timer: "d_workers d = add_mset (k, Waiting ch) W \<Longrightarrow>
    dispatcher_step d (d\<lparr>d_wakes := Disarm k (d_wakes d), d_workers := add_mset (k, AtSem) W\<rparr>)"
| woken: "d_workers d = add_mset (k, Waiting ch) W \<Longrightarrow> ch \<in> sig_full (d_wakes d) \<Longrightarrow>
    dispatcher_step d (d\<lparr>d_wakes := Disarm k (d_wakes d), d_workers := add_mset (k, AtSem) W\<rparr>)"
| wait_abort: "d_workers d = add_mset (k, Waiting ch) W \<Longrightarrow> d_ctx_done d \<Longrightarrow>
    dispatcher_step d (d\<lparr>d_wakes := Disarm k (d_wakes d), d_workers := add_mset (k, Aborting) W\<rparr>)"
| start: "d_workers d = add_mset (k, AtSem) W \<Longrightarrow> d_concurrency d = 0 \<Longrightarrow>
    dispatcher_step d (d\<lparr>d_workers := add_mset (k, Running) W, d_owed := d_owed d - {k}\<rparr>)"
| acquire: "d_workers d = add_mset (k, AtSem) W \<Longrightarrow> d_sem d < d_concurrency d \<Longrightarrow>
    dispatcher_step d (d\<lparr>d_sem := Suc (d_sem d), d_workers := add_mset (k, Running) W, d_owed := d_owed d - {k}\<rparr>)"
| sem_abort: "d_workers d = add_mset (k, AtSem) W \<Longrightarrow> 0 < d_concurrency d \<Longrightarrow> d_ctx_done d \<Longrightarrow>
    dispatcher_step d (d\<lparr>d_workers := add_mset (k, Aborting) W\<rparr>)"
| abort: "d_workers d = add_mset (k, Aborting) W \<Longrightarrow>
    dispatcher_step d (snd (clearActive k (d\<lparr>d_workers := W\<rparr>)))"
| ret: "d_workers d = add_mset (k, Running) W \<Longrightarrow>
    dispatcher_step d (d\<lparr>d_workers := add_mset (k, Ran redispatchIn again) W\<rparr>)"
| release: "d_workers d = add_mset (k, Ran redispatchIn again) W \<Longrightarrow>
    dispatcher_step d (d\<lparr>d_sem := (if d_concurrency d = 0 then d_sem d else d_sem d - 1),
       d_workers := add_mset (k, Clearing redispatchIn again) W\<rparr>)"
| finish: "d_workers d = add_mset (k, Clearing redispatchIn again) W \<Longrightarrow>
    dispatcher_step d (finish k redispatchIn again (d\<lparr>d_workers := W\<rparr>))"
| redispatch: "d_workers d = add_mset (k, Redispatching redispatchIn True) W \<Longrightarrow> \<not> d_ctx_done d \<Longrightarrow>
    dispatcher_step d (Dispatch k redispatchIn (d\<lparr>d_workers := W\<rparr>))"
| leave: "d_workers d = add_mset (k, Redispatching redispatchIn again) W \<Longrightarrow> \<not> again \<or> d_ctx_done d \<Longrightarrow>
    dispatcher_step d (d\<lparr>d_workers := W\<rparr>)"
| cancel: "dispatcher_step d (d\<lparr>d_ctx_done := True\<rparr>)"

section \<open>Invariant\<close>

fun holds_slot :: "worker_pc \<Rightarrow> bool" where
  "holds_slot (Redispatching _ _) = False"
| "holds_slot _ = True"

fun in_callback :: "worker_pc \<Rightarrow> bool" where
  "in_callback Running = True"
| "in_callback (Ran _ _) = True"
| "in_callback _ = False"

fun will_run :: "worker_pc \<Rightarrow> bool" where
  "will_run (Spawning _) = True"
| "will_run (Waiting _) = True"
| "will_run AtSem = True"
| "will_run (Redispatching _ again) = again"
| "will_run _ = False"

definition slot_count :: "'k \<Rightarrow> ('k \<times> worker_pc) multiset \<Rightarrow> nat" where
  "slot_count k W = size (filter_mset (\<lambda>x. fst x = k \<and> holds_slot (snd x)) W)"

definition callback_count :: "('k \<times> worker_pc) multiset \<Rightarrow> nat" where
  "callback_count W = size (filter_mset (\<lambda>x. in_callback (snd x)) W)"

definition dispatcher_inv :: "'k dispatcher \<Rightarrow> bool" where
  "dispatcher_inv d \<longleftrightarrow>
     (\<forall>k. slot_count k (d_workers d) = (if k \<in> d_active d then 1 else 0))
   \<and> d_repoke d \<subseteq> d_active d
   \<and> (0 < d_concurrency d \<longrightarrow> callback_count (d_workers d) = d_sem d \<and> d_sem d \<le> d_concurrency d)
   \<and> (\<forall>k ch. (k, Waiting ch) \<in># d_workers d \<longrightarrow> gm_get (sig_armed (d_wakes d)) k = Some ch)
   \<and> (d_ctx_done d \<or> (\<forall>k. (k, Aborting) \<notin># d_workers d))
   \<and> (d_ctx_done d \<or> (\<forall>k\<in>d_owed d. k \<in> d_repoke d \<or> (\<exists>pc. (k, pc) \<in># d_workers d \<and> will_run pc)))"

lemma slot_count_add [simp]:
  "slot_count k (add_mset x W) = (if fst x = k \<and> holds_slot (snd x) then Suc (slot_count k W) else slot_count k W)"
  by (simp add: slot_count_def)

lemma callback_count_add [simp]:
  "callback_count (add_mset x W) = (if in_callback (snd x) then Suc (callback_count W) else callback_count W)"
  by (simp add: callback_count_def)

lemma slot_count_member: "x \<in># W \<Longrightarrow> holds_slot (snd x) \<Longrightarrow> 0 < slot_count (fst x) W"
  by (auto dest!: multi_member_split simp: slot_count_def)

lemma dispatcher_invD:
  assumes "dispatcher_inv d"
  shows "slot_count k (d_workers d) = (if k \<in> d_active d then 1 else 0)" "d_repoke d \<subseteq> d_active d"
    "0 < d_concurrency d \<Longrightarrow> callback_count (d_workers d) = d_sem d \<and> d_sem d \<le> d_concurrency d"
    "(k, Waiting ch) \<in># d_workers d \<Longrightarrow> gm_get (sig_armed (d_wakes d)) k = Some ch"
    "\<not> d_ctx_done d \<Longrightarrow> k \<in> d_owed d \<Longrightarrow> k \<in> d_repoke d \<or> (\<exists>pc. (k, pc) \<in># d_workers d \<and> will_run pc)"
    "(k, Aborting) \<in># d_workers d \<Longrightarrow> d_ctx_done d"
  using assms by (auto simp: dispatcher_inv_def)

text \<open>A worker that holds its key's slot is the only one that does.\<close>

lemma only_holder:
  assumes "dispatcher_inv d" "d_workers d = add_mset (k, pc) W" "holds_slot pc"
  shows "slot_count k W = 0" "k \<in> d_active d" "(k, Waiting ch) \<notin># W"
  using dispatcher_invD(1) [OF assms(1), of k] assms(2,3) slot_count_member [of "(k, Waiting ch)" W] by (auto split: if_splits)

text \<open>A worker moves between two points at which it holds the slot.\<close>

lemma move_inv:
  assumes inv: "dispatcher_inv d" and w: "d_workers d = add_mset (k, pc) W" "holds_slot pc" "holds_slot pc'"
    and d': "d_workers d' = add_mset (k, pc') W" "d_active d' = d_active d" "d_repoke d' = d_repoke d"
      "d_concurrency d' = d_concurrency d" "d_ctx_done d' = d_ctx_done d"
    and sem: "0 < d_concurrency d \<Longrightarrow> d_sem d' + (if in_callback pc then 1 else 0) = d_sem d + (if in_callback pc' then 1 else 0)
      \<and> d_sem d' \<le> d_concurrency d"
    and armed: "\<And>j. j \<noteq> k \<Longrightarrow> gm_get (sig_armed (d_wakes d')) j = gm_get (sig_armed (d_wakes d)) j"
      "\<And>ch. pc' = Waiting ch \<Longrightarrow> gm_get (sig_armed (d_wakes d')) k = Some ch"
    and owed: "d_owed d' \<subseteq> d_owed d" "will_run pc \<Longrightarrow> will_run pc' \<or> k \<notin> d_owed d' \<or> d_ctx_done d"
    and ab: "pc' = Aborting \<Longrightarrow> d_ctx_done d"
  shows "dispatcher_inv d'"
proof -
  note D = dispatcher_invD [OF inv]
  have slot: "slot_count j (d_workers d') = (if j \<in> d_active d' then 1 else 0)" for j
    using D(1) [of j] w d'(1,2) by (simp split: if_splits)
  have cb: "callback_count (d_workers d') = d_sem d' \<and> d_sem d' \<le> d_concurrency d'" if c: "0 < d_concurrency d'"
    using D(3) sem c w(1) d'(1,4) by (simp split: if_splits)
  have wait: "gm_get (sig_armed (d_wakes d')) j = Some ch" if "(j, Waiting ch) \<in># d_workers d'" for j ch
    using that only_holder(3) [OF inv w(1,2), of ch] D(4) [of j ch] armed w(1) d'(1) by (cases "j = k") auto
  have "j \<in> d_repoke d' \<or> (\<exists>pc. (j, pc) \<in># d_workers d' \<and> will_run pc)" if nd: "\<not> d_ctx_done d'" and o: "j \<in> d_owed d'" for j
  proof -
    have "j \<in> d_repoke d \<or> (\<exists>q. (j, q) \<in># add_mset (k, pc) W \<and> will_run q)"
      using D(5) [of j] nd o owed(1) d'(5) w(1) by auto
    then show ?thesis using owed(2) nd o d'(1,3,5) by auto
  qed
  moreover have "d_ctx_done d'" if "(j, Aborting) \<in># d_workers d'" for j
    using that ab D(6) [of j] w(1) d'(1,5) by auto
  ultimately show ?thesis using slot cb wait D(2) d'(2,3) unfolding dispatcher_inv_def by blast
qed

lemma Dispatch_inv:
  assumes slot: "\<And>j. slot_count j (d_workers d) = (if j \<in> d_active d then 1 else 0)" and rep: "d_repoke d \<subseteq> d_active d"
    and sem: "0 < d_concurrency d \<longrightarrow> callback_count (d_workers d) = d_sem d \<and> d_sem d \<le> d_concurrency d"
    and wait: "\<And>j ch. (j, Waiting ch) \<in># d_workers d \<Longrightarrow> gm_get (sig_armed (d_wakes d)) j = Some ch"
    and owed: "\<And>j. \<not> d_ctx_done d \<Longrightarrow> j \<in> d_owed d - {k} \<Longrightarrow> j \<in> d_repoke d \<or> (\<exists>pc. (j, pc) \<in># d_workers d \<and> will_run pc)"
    and ab: "\<And>j. (j, Aborting) \<in># d_workers d \<Longrightarrow> d_ctx_done d"
  shows "dispatcher_inv (Dispatch k delay d)"
proof (cases "k \<in> d_active d")
  case True
  have "j \<in> insert k (d_repoke d) \<or> (\<exists>pc. (j, pc) \<in># d_workers d \<and> will_run pc)"
    if "\<not> d_ctx_done d" "j \<in> insert k (d_owed d)" for j
    using owed [of j] that by (cases "j = k") auto
  then show ?thesis using True slot rep sem wait ab unfolding dispatcher_inv_def
    by (auto simp: Dispatch_def Let_def)
next
  case False
  have "j \<in> d_repoke d \<or> (\<exists>pc. (j, pc) \<in># add_mset (k, Spawning delay) (d_workers d) \<and> will_run pc)"
    if "\<not> d_ctx_done d" "j \<in> insert k (d_owed d)" for j
    using owed [of j] that by (cases "j = k") auto
  then show ?thesis using False slot rep sem wait ab unfolding dispatcher_inv_def
    by (auto simp: Dispatch_def Let_def)
qed

lemma release_slot_inv:
  assumes inv: "dispatcher_inv d" and w: "d_workers d = add_mset (k, pc) W" "holds_slot pc" "\<not> in_callback pc" "\<not> will_run pc"
    and d': "d_workers d' = W + X" "d_active d' = d_active d - {k}" "d_repoke d' = d_repoke d - {k}"
      "d_concurrency d' = d_concurrency d" "d_ctx_done d' = d_ctx_done d" "d_sem d' = d_sem d" "d_wakes d' = d_wakes d" "d_owed d' = d_owed d"
    and X: "\<And>x. x \<in># X \<Longrightarrow> fst x = k \<and> \<not> holds_slot (snd x)" "k \<in> d_repoke d \<Longrightarrow> \<not> d_ctx_done d \<Longrightarrow> \<exists>x. x \<in># X \<and> will_run (snd x)"
  shows "dispatcher_inv d'"
proof -
  note D = dispatcher_invD [OF inv]
  have X0: "\<not> in_callback (snd x)" "snd x \<noteq> Waiting ch" if "x \<in># X" for x ch using X(1) [OF that] by (cases "snd x"; simp)+
  have "slot_count j (W + X) = slot_count j W" "callback_count (W + X) = callback_count W" for j
    using X(1) X0(1) by (auto simp: slot_count_def callback_count_def)
  then have "slot_count j (d_workers d') = (if j \<in> d_active d' then 1 else 0)"
    "0 < d_concurrency d' \<Longrightarrow> callback_count (d_workers d') = d_sem d' \<and> d_sem d' \<le> d_concurrency d'" for j
    using D(1) [of j] D(3) w d' by (auto split: if_splits)
  moreover have "gm_get (sig_armed (d_wakes d')) j = Some ch" if "(j, Waiting ch) \<in># d_workers d'" for j ch
    using that X0(2) [of "(j, Waiting ch)" ch] D(4) [of j ch] w(1) d'(1,7) by auto
  moreover have "j \<in> d_repoke d' \<or> (\<exists>pc. (j, pc) \<in># d_workers d' \<and> will_run pc)" if nd: "\<not> d_ctx_done d'" and o: "j \<in> d_owed d'" for j
  proof -
    consider "j \<in> d_repoke d" "j \<noteq> k" | "j = k" "k \<in> d_repoke d" | q where "(j, q) \<in># W" "will_run q"
      using D(5) [of j] nd o w(1,4) d'(5,8) by auto
    then show ?thesis
    proof cases
      case 2
      then obtain x where "x \<in># X" "will_run (snd x)" using X(2) nd d'(5) by auto
      then show ?thesis using X(1) [of x] 2 d'(1) by (cases x) auto
    qed (use d' in auto)
  qed
  moreover have "d_ctx_done d'" if "(j, Aborting) \<in># d_workers d'" for j
    using that X(1) [of "(j, Aborting)"] D(6) [of j] w(1) d'(1,5) by auto
  ultimately show ?thesis using D(2) d'(2,3) unfolding dispatcher_inv_def by blast
qed

lemma gone_inv:
  assumes inv: "dispatcher_inv d" and w: "d_workers d = add_mset (k, Redispatching n again) W" and a: "\<not> again \<or> d_ctx_done d"
  shows "dispatcher_inv (d\<lparr>d_workers := W\<rparr>)"
proof -
  note D = dispatcher_invD [OF inv]
  have "j \<in> d_repoke d \<or> (\<exists>pc. (j, pc) \<in># W \<and> will_run pc)" if "\<not> d_ctx_done d" "j \<in> d_owed d" for j
    using D(5) [of j] that a w by auto
  then show ?thesis using D(1-4,6) unfolding w dispatcher_inv_def by auto
qed

lemma dispatcher_step_inv: "dispatcher_step d d' \<Longrightarrow> dispatcher_inv d \<Longrightarrow> dispatcher_inv d'"
proof (induction rule: dispatcher_step.induct)
  case (dispatch d k delay)
  show ?case using dispatcher_invD [OF dispatch] by (intro Dispatch_inv) auto
next
  case (wake d k)
  then show ?case by (simp add: Wake_def dispatcher_inv_def)
next
  case (arm d k delay W ch ws)
  show ?case
    by (rule move_inv [OF arm(4,1), where pc' = "Waiting ch"])
      (use arm(3) dispatcher_invD(3) [OF arm(4)] in \<open>auto simp: Arm_def\<close>)
next
  case (spawn d k delay W)
  show ?case
    by (rule move_inv [OF spawn(3,1), where pc' = AtSem]) (use dispatcher_invD(3) [OF spawn(3)] in auto)
next
  case (timer d k ch W)
  show ?case
    by (rule move_inv [OF timer(2,1), where pc' = AtSem]) (use dispatcher_invD(3) [OF timer(2)] in \<open>auto simp: Disarm_def\<close>)
next
  case (woken d k ch W)
  show ?case
    by (rule move_inv [OF woken(3,1), where pc' = AtSem]) (use dispatcher_invD(3) [OF woken(3)] in \<open>auto simp: Disarm_def\<close>)
next
  case (wait_abort d k ch W)
  show ?case
    by (rule move_inv [OF wait_abort(3,1), where pc' = Aborting])
      (use wait_abort(2) dispatcher_invD(3) [OF wait_abort(3)] in \<open>auto simp: Disarm_def\<close>)
next
  case (start d k W)
  show ?case by (rule move_inv [OF start(3,1), where pc' = Running]) (use start(2) in auto)
next
  case (acquire d k W)
  show ?case by (rule move_inv [OF acquire(3,1), where pc' = Running]) (use acquire(2) in auto)
next
  case (sem_abort d k W)
  show ?case
    by (rule move_inv [OF sem_abort(4,1), where pc' = Aborting]) (use sem_abort(3) dispatcher_invD(3) [OF sem_abort(4)] in auto)
next
  case (abort d k W)
  have "d_ctx_done d" using dispatcher_invD(6) [OF abort(2), of k] abort(1) by simp
  then show ?case
    by (intro release_slot_inv [OF abort(2,1), where X = "{#}"]) (auto simp: clearActive_def)
next
  case (ret d k W redispatchIn again)
  show ?case
    by (rule move_inv [OF ret(2,1), where pc' = "Ran redispatchIn again"]) (use dispatcher_invD(3) [OF ret(2)] in auto)
next
  case (release d k redispatchIn again W)
  show ?case
    by (rule move_inv [OF release(2,1), where pc' = "Clearing redispatchIn again"])
      (use dispatcher_invD(3) [OF release(2)] release(1) in auto)
next
  case (finish d k redispatchIn again W)
  let ?x = "(k, if k \<in> d_repoke d then Redispatching 0 True else Redispatching redispatchIn again)"
  show ?case
    by (rule release_slot_inv [OF finish(2,1), where X = "{#?x#}"])
      (auto simp: finish_def clearActive_def)
next
  case (redispatch d k redispatchIn W)
  note D = dispatcher_invD [OF redispatch(3)]
  have "j \<in> d_repoke d \<or> (\<exists>pc. (j, pc) \<in># W \<and> will_run pc)" if "\<not> d_ctx_done d" "j \<in> d_owed d - {k}" for j
    using D(5) [of j] that redispatch(1) by auto
  then show ?case using D(1-4,6) unfolding redispatch(1) by (intro Dispatch_inv) auto
next
  case (leave d k redispatchIn again W)
  then show ?case by (intro gone_inv)
next
  case (cancel d)
  then show ?case by (simp add: dispatcher_inv_def)
qed

lemma dispatcher_reach_inv:
  assumes "New concurrency = Some d0" and "dispatcher_step\<^sup>*\<^sup>* d0 d"
  shows "dispatcher_inv d"
  using assms(2)
proof (induction rule: rtranclp_induct)
  case base
  then show ?case using assms(1) by (auto simp: New_def dispatcher_inv_def slot_count_def callback_count_def split: if_splits)
qed (rule dispatcher_step_inv)

lemma dispatcher_concurrency: "dispatcher_step d d' \<Longrightarrow> d_concurrency d' = d_concurrency d"
  by (induction rule: dispatcher_step.induct) (auto simp: Dispatch_def Wake_def Let_def clearActive_def finish_def)

lemma in_callback_slot: "in_callback pc \<Longrightarrow> holds_slot pc"
  by (cases pc) auto

lemma callbacks_of_key: "size (filter_mset (\<lambda>x. fst x = k \<and> in_callback (snd x)) W) \<le> slot_count k W"
  by (induction W) (auto simp: in_callback_slot slot_count_def)

section \<open>Properties\<close>

text \<open>Claim C23. In every interleaving, a key never has two callbacks in progress, and a configured concurrency
  budget bounds the callbacks in progress over all keys.\<close>

theorem dispatcher_single_flight:
  assumes "New concurrency = Some d0" and "dispatcher_step\<^sup>*\<^sup>* d0 d"
  shows "size (filter_mset (\<lambda>x. fst x = k \<and> in_callback (snd x)) (d_workers d)) \<le> 1
    \<and> (concurrency = 0 \<or> int (callback_count (d_workers d)) \<le> concurrency)"
proof -
  have inv: "dispatcher_inv d" by (rule dispatcher_reach_inv [OF assms])
  have "d_concurrency d = d_concurrency d0" using assms(2)
    by (induction rule: rtranclp_induct) (auto dest: dispatcher_concurrency)
  then have "d_concurrency d = nat concurrency" "0 \<le> concurrency" using assms(1) by (auto simp: New_def split: if_splits)
  then have "concurrency = 0 \<or> int (callback_count (d_workers d)) \<le> concurrency"
    using dispatcher_invD(3) [OF inv] by (cases "concurrency = 0") auto
  moreover have "slot_count k (d_workers d) \<le> 1" using dispatcher_invD(1) [OF inv, of k] by simp
  ultimately show ?thesis using order_trans [OF callbacks_of_key [of k "d_workers d"]] by blast
qed

text \<open>Claim C24. A dispatch is never lost: while the context is not done, a key dispatched since its callback last
  started has a worker that has not started the callback yet, or one that is bound to redispatch, or
  a recorded re-poke together with the worker whose exit honours it; and a \<^verbatim>\<open>Wake\<close> of a delayed worker always
  reaches the channel that worker waits on.\<close>

theorem dispatcher_no_lost_dispatch:
  assumes "New concurrency = Some d0" and "dispatcher_step\<^sup>*\<^sup>* d0 d" and "\<not> d_ctx_done d"
  shows "(k \<in> d_owed d \<longrightarrow> (\<exists>pc. (k, pc) \<in># d_workers d \<and> (will_run pc \<or> k \<in> d_repoke d \<and> holds_slot pc)))
    \<and> ((k, Waiting ch) \<in># d_workers d \<longrightarrow> ch \<in> sig_full (d_wakes (Wake k d)))"
proof -
  have inv: "dispatcher_inv d" by (rule dispatcher_reach_inv [OF assms(1,2)])
  note D = dispatcher_invD [OF inv]
  have "\<exists>pc. (k, pc) \<in># d_workers d \<and> holds_slot pc" if "k \<in> d_repoke d"
  proof -
    have "0 < slot_count k (d_workers d)" using D(1) [of k] D(2) that by auto
    then obtain x where "x \<in># filter_mset (\<lambda>x. fst x = k \<and> holds_slot (snd x)) (d_workers d)"
      by (metis slot_count_def multiset_nonemptyE size_empty less_numeral_extra(3))
    then show ?thesis by (cases x) auto
  qed
  then show ?thesis using D(5) [OF assms(3), of k] D(4) [of k ch] Fire_armed [of "d_wakes d" k ch]
    by (auto simp: Wake_def)
qed

lemma wit_dispatch:
  "dispatcher_step\<^sup>*\<^sup>* (the (New 1)) (Dispatch ''r'' 5 (the (New 1)))"
  by (rule r_into_rtranclp, rule dispatcher_step.dispatch)

theorem dispatcher_single_flight_witness:
  "callback_count (d_workers (Dispatch ''r'' 5 (the (New 1)))) \<le> 1"
  using dispatcher_single_flight [OF _ wit_dispatch, of 1] by (simp add: New_def)

theorem dispatcher_no_lost_dispatch_witness:
  "\<exists>pc. (''r'', pc) \<in># d_workers (Dispatch ''r'' 5 (the (New 1)))"
  using dispatcher_no_lost_dispatch [OF _ wit_dispatch, of 1 "''r''"] by (simp add: New_def Dispatch_def)

end
