(* ===== verification/Engine_State.thy ===== *)
theory Engine_State
  imports Complex_Main Bind Store_Spec Runpool Joinset Dispatcher
begin

text \<open>
  The engine's state and the operations every part of it uses (\<^verbatim>\<open>src/engine/engine.go\<close>,
  \<^verbatim>\<open>src/engine/observer.go\<close>): the store handle and the clock, events, the two class gates, attempt
  contexts and preemption, cancel requests, the durable transition \<^verbatim>\<open>apply\<close>, retry backoff and
  invalidity.

  \<open>('s, 'm) engine\<close> is the mutable state of \<^verbatim>\<open>Engine\<close>, with the store's own state \<open>'s\<close> in it.
  \<open>('s, 'm) env\<close> is what does not change after \<^verbatim>\<open>Start\<close>: the store's operations, the configuration,
  the frozen pipelines, and the environment the engine runs in. The clock is a sequence of
  readings, the random source a sequence of draws. Other goroutines are \<open>ev_yield\<close>: it is applied
  before every store call and at every iteration of a worker, and may change the engine as it
  likes; the theorems say what they assume of it. A handler is a function of the invocation and
  the engine state, so it may call the engine, and what happens while it runs is part of it.

  A send on a closed channel, a double close or another Go panic outside a handler sets
  \<open>e_crashed\<close>. Log lines are not modelled; observer events are recorded in \<open>e_events\<close>, with one
  more event, \<open>EvInvoke\<close>, that records each call of application code and the store it was made on.
\<close>

section \<open>State\<close>

datatype cancel_cause = CausePreempted string | CauseStopping

record attempt_handle =
  ah_phase :: phase
  ah_cause :: "cancel_cause option"

record invalid_error =
  ie_pipeline :: pipeline_id
  ie_reason :: string

datatype attempt_result = AttemptSucceeded | AttemptRetrying | AttemptFailed | AttemptAwaiting | AttemptCanceled | AttemptInterrupted

datatype ('s, 'm) event =
    EvInvoke "'m invocation" 's
  | EvRunScheduled run_id gotime "(string, string) gomap"
  | EvAttemptDone run_id step_id phase u64 duration attempt_result "goerr option" duration bool
  | EvRunUnwinding run_id step_id failure_kind string string
  | EvRunTerminal run_id outcome duration "failure option"
  | EvRunInvalid run_id step_id string
  | EvWaiterWoken run_id "run_id list" "run_id list" bool duration
  | EvClassWait run_id string duration
  | EvRunsReaped int

record ('s, 'm) engine =
  e_store :: 's
  e_tick :: nat
  e_pool :: "(string, run_id) tpool"
  e_runs :: "(string, run_id, string) rpool"
  e_invalid :: "(run_id, invalid_error) gomap"
  e_attempts :: "(run_id, attempt_handle) gomap"
  e_pending_preempt :: "(run_id, string) gomap"
  e_dirty :: "run_id dirty_set"
  e_waiters :: "run_id watch_set"
  e_joins :: "(run_id, run_id) jset"
  e_await_timers :: "(run_id, nat) gomap"
  e_timer_tasks :: "(run_id \<times> nat \<times> duration) list"
  e_next_chan :: nat
  e_disp :: "run_id dispatcher"
  e_stopped :: bool
  e_draining :: bool
  e_crashed :: bool
  e_events :: "('s, 'm) event list"

datatype 'm hresult =
    HReturn "'m option" "goerr option" "goerr list"
  | HPanic string "goerr list"

type_synonym ('s, 'm) handler = "'m invocation \<Rightarrow> ('s, 'm) engine \<Rightarrow> 'm hresult \<times> ('s, 'm) engine"
type_synonym ('s, 'm) edef = "(('s, 'm) handler, ('s, 'm) handler, 'm) bound_def"

record retry_policy =
  rp_initial :: duration
  rp_max :: duration
  rp_multiplier :: rat

record ('s, 'm) env =
  ev_ops :: "'s store_ops"
  ev_pb :: "'m protobuf"
  ev_pipelines :: "(pipeline_id, ('s, 'm) edef) frozen_map"
  ev_run_class_queue :: "(string, int) gomap"
  ev_text_limit :: int
  ev_retry :: retry_policy
  ev_recovery_backoff :: duration
  ev_terminal_after :: duration
  ev_clock :: "nat \<Rightarrow> gotime"
  ev_rand :: "nat \<Rightarrow> rat"
  ev_yield :: "nat \<Rightarrow> ('s, 'm) engine \<Rightarrow> ('s, 'm) engine"
  ev_new_run_id :: "nat \<Rightarrow> gotime \<Rightarrow> run_id"

section \<open>The clock, other goroutines, and the store handle\<close>

definition tick :: "('s, 'm) engine \<Rightarrow> ('s, 'm) engine" where
  "tick e = e\<lparr>e_tick := Suc (e_tick e)\<rparr>"

definition Now :: "('s, 'm) env \<Rightarrow> ('s, 'm) engine \<Rightarrow> gotime \<times> ('s, 'm) engine" where
  "Now env e = (ev_clock env (e_tick e), tick e)"

definition yields :: "('s, 'm) env \<Rightarrow> ('s, 'm) engine \<Rightarrow> ('s, 'm) engine" where
  "yields env e = ev_yield env (e_tick e) (tick e)"

definition store_call :: "('s, 'm) env \<Rightarrow> ('s \<Rightarrow> 'a \<times> 's) \<Rightarrow> ('s, 'm) engine \<Rightarrow> 'a \<times> ('s, 'm) engine" where
  "store_call env f e = (let e1 = yields env e; (res, s) = f (e_store e1) in (res, e1\<lparr>e_store := s\<rparr>))"

definition st_get :: "('s, 'm) env \<Rightarrow> run_id \<Rightarrow> ('s, 'm) engine \<Rightarrow> run_record result \<times> ('s, 'm) engine" where
  "st_get env i = store_call env (\<lambda>s. so_get (ev_ops env) s i)"

definition st_head :: "('s, 'm) env \<Rightarrow> run_id \<Rightarrow> ('s, 'm) engine \<Rightarrow> run_record result \<times> ('s, 'm) engine" where
  "st_head env i = store_call env (\<lambda>s. so_head (ev_ops env) s i)"

definition st_apply :: "('s, 'm) env \<Rightarrow> run_id \<Rightarrow> transition \<Rightarrow> ('s, 'm) engine \<Rightarrow> unit result \<times> ('s, 'm) engine" where
  "st_apply env i t = store_call env (\<lambda>s. so_apply (ev_ops env) s i t)"

definition st_cancel :: "('s, 'm) env \<Rightarrow> run_id \<Rightarrow> cancel_request \<Rightarrow> ('s, 'm) engine \<Rightarrow> bool result \<times> ('s, 'm) engine" where
  "st_cancel env i req = store_call env (\<lambda>s. so_cancel (ev_ops env) s i req)"

section \<open>Events, dispatches and broadcasts\<close>

definition emit :: "('s, 'm) event \<Rightarrow> ('s, 'm) engine \<Rightarrow> ('s, 'm) engine" where
  "emit ev e = e\<lparr>e_events := e_events e @ [ev]\<rparr>"

definition dispatch :: "run_id \<Rightarrow> duration \<Rightarrow> ('s, 'm) engine \<Rightarrow> ('s, 'm) engine" where
  "dispatch i d e = e\<lparr>e_disp := Dispatch i d (e_disp e)\<rparr>"

fun dispatch_kick :: "run_id option \<Rightarrow> ('s, 'm) engine \<Rightarrow> ('s, 'm) engine" where
  "dispatch_kick None e = e"
| "dispatch_kick (Some i) e = dispatch i 0 e"

definition crash :: "('s, 'm) engine \<Rightarrow> ('s, 'm) engine" where
  "crash e = e\<lparr>e_crashed := True\<rparr>"

definition notify_waiters :: "run_id \<Rightarrow> ('s, 'm) engine \<Rightarrow> ('s, 'm) engine" where
  "notify_waiters i e = (case Notify i (e_waiters e) of None \<Rightarrow> crash e | Some w \<Rightarrow> e\<lparr>e_waiters := w\<rparr>)"

definition awaitTargetDone :: "run_id \<Rightarrow> ('s, 'm) engine \<Rightarrow> ('s, 'm) engine" where
  "awaitTargetDone target e = (case Complete target (e_joins e) of
     None \<Rightarrow> crash e
   | Some (parkers, j) \<Rightarrow> fold (\<lambda>parker. dispatch parker 0) parkers (e\<lparr>e_joins := j\<rparr>))"

section \<open>Class gates\<close>

definition acquireRunClass :: "('s, 'm) env \<Rightarrow> run_record \<Rightarrow> ('s, 'm) edef \<Rightarrow> ('s, 'm) engine \<Rightarrow> bool \<times> ('s, 'm) engine" where
  "acquireRunClass env rec def e = (let rc = cf_run_class (bd_cfg def) in
     if rc = [] \<or> \<not> is_zero (r_started_at rec) then (True, e)
     else let wasQueued = Runpool.ParkedOn (r_run rec) (e_runs e) \<noteq> None in
       case Runpool.Acquire rc (r_run rec) (eligibilityKey rec) (e_runs e) of ((granted, kick), p) \<Rightarrow>
         let e1 = dispatch_kick kick (e\<lparr>e_runs := p\<rparr>) in
         if \<not> granted then (False, e1)
         else if wasQueued
           then (case Now env e1 of (now, e2) \<Rightarrow> (True, emit (EvClassWait (r_run rec) rc (time_sub now (eligibleSince rec))) e2))
           else (True, e1))"

definition releaseRunClass :: "run_id \<Rightarrow> ('s, 'm) engine \<Rightarrow> ('s, 'm) engine" where
  "releaseRunClass i e = (case Runpool.Release i (e_runs e) of
     None \<Rightarrow> crash e | Some (kick, p) \<Rightarrow> dispatch_kick kick (e\<lparr>e_runs := p\<rparr>))"

definition acquireClass :: "('s, 'm) env \<Rightarrow> run_record \<Rightarrow> string \<Rightarrow> ('s, 'm) engine \<Rightarrow> (bool \<times> bool \<times> duration) \<times> ('s, 'm) engine" where
  "acquireClass env rec class_name e = (let bypass = (class_name = []); (now, e1) = Now env e in
     case Tokenpool.Acquire class_name (r_run rec) bypass now (e_pool e1) of ((granted, held, waited, kicks), p) \<Rightarrow>
       ((granted, held, waited), fold (\<lambda>i. dispatch i 0) kicks (e1\<lparr>e_pool := p\<rparr>)))"

definition releaseClass :: "string \<Rightarrow> ('s, 'm) engine \<Rightarrow> ('s, 'm) engine" where
  "releaseClass class_name e = (case Tokenpool.Release class_name (e_pool e) of
     None \<Rightarrow> crash e | Some (kick, p) \<Rightarrow> dispatch_kick kick (e\<lparr>e_pool := p\<rparr>))"

definition clearClassWait :: "run_id \<Rightarrow> ('s, 'm) engine \<Rightarrow> ('s, 'm) engine" where
  "clearClassWait i e = (case Tokenpool.Clear i (e_pool e) of (kick, p) \<Rightarrow> dispatch_kick kick (e\<lparr>e_pool := p\<rparr>))"

section \<open>Parks and invalidity\<close>

definition unpark :: "run_id \<Rightarrow> ('s, 'm) engine \<Rightarrow> gotime option \<times> ('s, 'm) engine" where
  "unpark i e = (case Remove i (e_joins e) of (since, j) \<Rightarrow>
     (since, e\<lparr>e_joins := j, e_await_timers := gm_del i (e_await_timers e)\<rparr>))"

definition clear_run_line :: "run_id \<Rightarrow> ('s, 'm) engine \<Rightarrow> ('s, 'm) engine" where
  "clear_run_line i e = (case Runpool.Clear i (e_runs e) of
     None \<Rightarrow> crash e | Some (kick, p) \<Rightarrow> dispatch_kick kick (e\<lparr>e_runs := p\<rparr>))"

definition markInvalid :: "run_record \<Rightarrow> step_id \<Rightarrow> string \<Rightarrow> ('s, 'm) engine \<Rightarrow> ('s, 'm) engine" where
  "markInvalid rec k reason e =
     (if map_option ie_reason (gm_get (e_invalid e) (r_run rec)) = Some reason then e
      else let e1 = e\<lparr>e_invalid := gm_put (r_run rec) \<lparr>ie_pipeline = r_pipeline rec, ie_reason = reason\<rparr> (e_invalid e)\<rparr> in
        notify_waiters (r_run rec) (snd (unpark (r_run rec)
          (emit (EvRunInvalid (r_run rec) k reason) (clear_run_line (r_run rec) (clearClassWait (r_run rec) e1))))))"

definition invalidFor :: "run_id \<Rightarrow> ('s, 'm) engine \<Rightarrow> invalid_error option" where
  "invalidFor i e = gm_get (e_invalid e) i"

section \<open>Attempt contexts and cancel requests\<close>

text \<open>
  A context keeps the first cause it is canceled with, and a child of a canceled context is
  canceled with its parent's cause. The base context is only ever canceled by \<^verbatim>\<open>Stop\<close>, so an attempt
  context not canceled before has the cause \<^verbatim>\<open>ErrEngineStopping\<close> once the engine stopped, and later
  cancels of it do nothing.
\<close>

definition ctx_cancel :: "run_id \<Rightarrow> cancel_cause \<Rightarrow> ('s, 'm) engine \<Rightarrow> ('s, 'm) engine" where
  "ctx_cancel i c e = (if e_stopped e then e else
     case gm_get (e_attempts e) i of
       None \<Rightarrow> e
     | Some h \<Rightarrow> (case ah_cause h of Some _ \<Rightarrow> e
         | None \<Rightarrow> e\<lparr>e_attempts := gm_put i (h\<lparr>ah_cause := Some c\<rparr>) (e_attempts e)\<rparr>))"

definition ctx_cause :: "run_id \<Rightarrow> ('s, 'm) engine \<Rightarrow> cancel_cause option" where
  "ctx_cause i e = (case map_option ah_cause (gm_get (e_attempts e) i) of
     Some (Some c) \<Rightarrow> Some c
   | _ \<Rightarrow> if e_stopped e then Some CauseStopping else None)"

definition preemptedBy :: "run_id \<Rightarrow> ('s, 'm) engine \<Rightarrow> string option" where
  "preemptedBy i e = (case ctx_cause i e of Some (CausePreempted c) \<Rightarrow> Some c | _ \<Rightarrow> None)"

definition stoppedBy :: "run_id \<Rightarrow> ('s, 'm) engine \<Rightarrow> bool" where
  "stoppedBy i e \<longleftrightarrow> ctx_cause i e = Some CauseStopping"

definition attemptContext :: "run_id \<Rightarrow> phase \<Rightarrow> ('s, 'm) engine \<Rightarrow> ('s, 'm) engine" where
  "attemptContext i p e =
     (let pending = gm_get (e_pending_preempt e) i;
          e1 = e\<lparr>e_attempts := gm_put i \<lparr>ah_phase = p, ah_cause = None\<rparr> (e_attempts e),
                 e_pending_preempt := gm_del i (e_pending_preempt e)\<rparr>
      in case pending of
           Some cause \<Rightarrow> if p = PhaseForward then ctx_cancel i (CausePreempted cause) e1 else e1
         | None \<Rightarrow> e1)"

definition attempt_done :: "run_id \<Rightarrow> ('s, 'm) engine \<Rightarrow> ('s, 'm) engine" where
  "attempt_done i e = e\<lparr>e_attempts := gm_del i (e_attempts e)\<rparr>"

definition preemptAttempt :: "run_id \<Rightarrow> string \<Rightarrow> ('s, 'm) engine \<Rightarrow> ('s, 'm) engine" where
  "preemptAttempt i cause e = (case gm_get (e_attempts e) i of
     None \<Rightarrow> e\<lparr>e_pending_preempt := gm_put i cause (e_pending_preempt e)\<rparr>
   | Some h \<Rightarrow> if ah_phase h = PhaseForward then ctx_cancel i (CausePreempted cause) e else e)"

definition requestCancel :: "('s, 'm) env \<Rightarrow> run_id \<Rightarrow> string \<Rightarrow> ('s, 'm) engine \<Rightarrow> unit result \<times> ('s, 'm) engine" where
  "requestCancel env i cause0 e =
     (let cause = boundText (ev_text_limit env) cause0; (now, e1) = Now env e in
      case st_cancel env i \<lparr>cr_cause = cause, cr_at = now\<rparr> e1 of
        (Inl err, e2) \<Rightarrow> (Inl err, e2)
      | (Inr False, e2) \<Rightarrow> (Inr (), e2)
      | (Inr True, e2) \<Rightarrow>
          let e3 = preemptAttempt i cause (e2\<lparr>e_dirty := dirty_Mark i (e_dirty e2)\<rparr>)
          in (Inr (), dispatch i 0 (e3\<lparr>e_disp := Wake i (e_disp e3)\<rparr>)))"

section \<open>Durable transitions\<close>

definition activeCursor :: "run_record \<Rightarrow> step_id \<Rightarrow> u64 \<Rightarrow> cursor" where
  "activeCursor rec k attempts = \<lparr>cu_phase = r_phase rec, cu_step = k, cu_attempts = attempts,
     cu_awaiting = r_awaiting rec, cu_awaited = r_awaited rec, cu_next_attempt_at = r_next_attempt_at rec,
     cu_last_error = r_last_error rec, cu_last_reason = r_last_reason rec, cu_last_error_at = r_last_error_at rec,
     cu_updated_at = zero_time, cu_started_at = r_started_at rec\<rparr>"

definition idleCursor :: "run_record \<Rightarrow> cursor" where
  "idleCursor rec = activeCursor rec [] 0"

definition markStarted :: "('s, 'm) env \<Rightarrow> run_record \<Rightarrow> ('s, 'm) engine \<Rightarrow> run_record \<times> ('s, 'm) engine" where
  "markStarted env rec e = (if is_zero (r_started_at rec)
     then (case Now env e of (now, e1) \<Rightarrow> (rec\<lparr>r_started_at := now\<rparr>, e1)) else (rec, e))"

text \<open>The loop of \<^verbatim>\<open>apply\<close> that flushes unresolved operations the transition does not cover.\<close>

definition flush_op :: "step_id \<Rightarrow> step_record \<Rightarrow> phase \<Rightarrow> op_write list \<Rightarrow> op_write list" where
  "flush_op k sr p ops =
     (if or_status (sr_op p sr) \<noteq> OpUnresolved then ops
      else if list_ex (\<lambda>ow. ow_step ow = k \<and> ow_phase ow = p) ops then ops
      else ops @ [\<lparr>ow_step = k, ow_phase = p, ow_record = sr_op p sr\<rparr>])"

fun flush_ops :: "step_id \<Rightarrow> (step_id \<times> step_record) list \<Rightarrow> op_write list \<Rightarrow> op_write list" where
  "flush_ops cur [] ops = ops"
| "flush_ops cur ((k, sr) # rest) ops =
     (if k = cur then flush_ops cur rest ops
      else flush_ops cur rest (flush_op k sr PhaseUnwind (flush_op k sr PhaseForward ops)))"

definition apply_rec :: "('s, 'm) env \<Rightarrow> run_record \<Rightarrow> transition \<Rightarrow> ('s, 'm) engine \<Rightarrow> bool \<times> run_record \<times> ('s, 'm) engine" where
  "apply_rec env rec t e = (case Now env e of (now, e1) \<Rightarrow>
     let rec1 = rec\<lparr>r_updated_at := now\<rparr>;
         c = (t_cursor t)\<lparr>cu_updated_at := now\<rparr>;
         t1 = t\<lparr>t_cursor := c, t_ops := flush_ops (cu_step c) (r_steps rec1) (t_ops t)\<rparr>
     in case st_apply env (r_run rec1) t1 e1 of
          (Inl err, e2) \<Rightarrow> (False, rec1, e2)
        | (Inr _, e2) \<Rightarrow> (True, rec1, e2))"

section \<open>Retry backoff\<close>

text \<open>
  The source computes in \<^verbatim>\<open>float64\<close>; the model computes the same expression over the rationals, and
  takes the draw of \<^verbatim>\<open>rand.Float64\<close>, a number in \<open>[0, 1)\<close>, from the environment. The conversion to
  \<^verbatim>\<open>time.Duration\<close> truncates towards zero.
\<close>

definition backoff_base :: "retry_policy \<Rightarrow> u64 \<Rightarrow> rat" where
  "backoff_base p attempts =
     (let mult = (if rp_multiplier p < 1 then 1 else rp_multiplier p);
          d = of_int (rp_initial p) * mult ^ unat (attempts - 1)
      in if 0 < rp_max p \<and> of_int (rp_max p) < d then of_int (rp_max p) else d)"

definition truncate_rat :: "rat \<Rightarrow> int" where
  "truncate_rat x = (if x < 0 then - \<lfloor>- x\<rfloor> else \<lfloor>x\<rfloor>)"

definition backoff :: "('s, 'm) env \<Rightarrow> u64 \<Rightarrow> ('s, 'm) engine \<Rightarrow> duration \<times> ('s, 'm) engine" where
  "backoff env attempts e = (let d = backoff_base (ev_retry env) attempts
     in (truncate_rat (d / 2 + ev_rand env (e_tick e) * d / 2), tick e))"

section \<open>Facts read from a record\<close>

fun opState :: "op_status \<Rightarrow> ledger_op" where
  "opState OpUnresolved = LOpUnresolved"
| "opState OpSucceeded = LOpSucceeded"
| "opState OpFailed = LOpFailed"
| "opState OpNone = LOpNone"

definition factsOf :: "run_record \<Rightarrow> facts" where
  "factsOf rec = \<lparr>fa_forward = map (\<lambda>(k, sr). (k, opState (or_status (sr_forward sr)))) (r_steps rec),
     fa_unwind = map (\<lambda>(k, sr). (k, opState (or_status (sr_unwind sr)))) (r_steps rec)\<rparr>"

definition hasUnresolvedOp :: "run_record \<Rightarrow> bool" where
  "hasUnresolvedOp rec = list_ex (\<lambda>(k, sr). or_status (sr_forward sr) = OpUnresolved \<or> or_status (sr_unwind sr) = OpUnresolved) (r_steps rec)"

definition committedStates :: "run_record \<Rightarrow> (step_id, bytes) gomap" where
  "committedStates rec = List.map_filter (\<lambda>(k, sr).
     if or_status (sr_forward sr) = OpSucceeded then map_option (Pair k) (or_state (sr_forward sr)) else None) (r_steps rec)"

definition unwindFailuresByStep :: "run_record \<Rightarrow> (step_id, failure) gomap" where
  "unwindFailuresByStep rec = List.map_filter (\<lambda>(k, sr).
     if or_status (sr_unwind sr) = OpFailed then map_option (Pair k) (or_failure (sr_unwind sr)) else None) (r_steps rec)"

definition recordLastError :: "('s, 'm) env \<Rightarrow> run_record \<Rightarrow> goerr \<Rightarrow> gotime \<Rightarrow> run_record" where
  "recordLastError env rec err now = rec\<lparr>r_last_error := boundText (ev_text_limit env) (error_string err),
     r_last_reason := boundText (ev_text_limit env) (FailureReason (Some err)), r_last_error_at := now\<rparr>"

definition clearLastError :: "run_record \<Rightarrow> run_record" where
  "clearLastError rec = rec\<lparr>r_last_error := [], r_last_reason := [], r_last_error_at := zero_time\<rparr>"

end
