(* ===== verification/Observer.thy ===== *)
theory Observer
  imports Engine_State Mem_Store
begin

text \<open>
  Observers (\<^verbatim>\<open>src/observe/observe.go\<close>, \<^verbatim>\<open>src/engine/observer.go\<close>): the events, the fan-out to the installed callbacks with
  its recovery of panics, and the decorator that reports every call of a store. A callback changes the
  application's state \<open>'a\<close> and may panic with a value. A panic stops the loop over the observers and leaves the
  method it is raised in, unless it is recovered; as in the stores, a method that panics answers \<open>GoPanic\<close>.
  The lemmas show that no panic of a callback gets out, that every installed callback is called once for each event, and
  that the decorated store is again a store in the sense of \<open>run_store\<close>, so that everything shown of the engine holds
  with observers installed.
\<close>

section \<open>Events\<close>

record run_event =
  re_pipeline :: pipeline_id
  re_resource :: resource_id
  re_run :: run_id
  re_start_at :: gotime
  re_annotations :: "(string, string) gomap"

fun attempt_result_string :: "attempt_result \<Rightarrow> string" where
  "attempt_result_string AttemptSucceeded = ''succeeded''"
| "attempt_result_string AttemptRetrying = ''retrying''"
| "attempt_result_string AttemptFailed = ''failed''"
| "attempt_result_string AttemptAwaiting = ''awaiting''"
| "attempt_result_string AttemptInterrupted = ''interrupted''"
| "attempt_result_string AttemptCanceled = ''canceled''"

record attempt_event =
  ae_pipeline :: pipeline_id
  ae_resource :: resource_id
  ae_run :: run_id
  ae_step :: step_id
  ae_phase :: phase
  ae_attempt :: u64
  ae_duration :: duration
  ae_result :: attempt_result
  ae_err :: "goerr option"
  ae_retry_in :: duration
  ae_panicked :: bool

record run_failure_event =
  fe_pipeline :: pipeline_id
  fe_resource :: resource_id
  fe_run :: run_id
  fe_step :: step_id
  fe_kind :: "failure_kind option"
  fe_reason :: string
  fe_message :: string

record run_terminal_event =
  te_pipeline :: pipeline_id
  te_resource :: resource_id
  te_run :: run_id
  te_outcome :: outcome
  te_kind :: "failure_kind option"
  te_reason :: string
  te_duration :: duration
  te_annotations :: "(string, string) gomap"

record wake_event =
  we_pipeline :: pipeline_id
  we_resource :: resource_id
  we_run :: run_id
  we_targets :: "run_id list"
  we_done :: "run_id list"
  we_expired :: bool
  we_duration :: duration

datatype class_scope = ClassScopeOperation | ClassScopeRun

definition class_scope_string :: "class_scope \<Rightarrow> string" where
  "class_scope_string s = (if s = ClassScopeRun then ''run'' else ''operation'')"

record class_wait_event =
  ce_pipeline :: pipeline_id
  ce_resource :: resource_id
  ce_run :: run_id
  ce_class :: string
  ce_scope :: class_scope
  ce_duration :: duration

record store_op_event =
  se_op :: string
  se_write :: bool
  se_duration :: duration
  se_err :: "kernel_error option"

section \<open>Observers\<close>

type_synonym ('a, 'e) callback = "'e \<Rightarrow> 'a \<Rightarrow> 'a \<times> string option"

record 'a observer =
  ob_run_scheduled :: "('a, run_event) callback option"
  ob_attempt_done :: "('a, attempt_event) callback option"
  ob_run_unwinding :: "('a, run_failure_event) callback option"
  ob_run_terminal :: "('a, run_terminal_event) callback option"
  ob_run_invalid :: "('a, run_failure_event) callback option"
  ob_waiter_woken :: "('a, wake_event) callback option"
  ob_class_wait :: "('a, class_wait_event) callback option"
  ob_runs_reaped :: "('a, int) callback option"
  ob_store_op :: "('a, store_op_event) callback option"

text \<open>The application's state with the panics logged so far.\<close>

type_synonym 'a app = "'a \<times> string list"

text \<open>A piece of code that runs callbacks ends in a state, and with a panic or without one.\<close>

type_synonym 'a ended = "'a app \<times> string option"

definition run_callback :: "('a, 'e) callback \<Rightarrow> 'e \<Rightarrow> 'a app \<Rightarrow> 'a ended" where
  "run_callback g ev st = (case g ev (fst st) of (a, p) \<Rightarrow> ((a, snd st), p))"

text \<open>The deferred function: a panic is recovered and logged.\<close>

definition recovered :: "'a ended \<Rightarrow> 'a ended" where
  "recovered x = (case x of (st, None) \<Rightarrow> (st, None) | (st, Some p) \<Rightarrow> ((fst st, snd st @ [p]), None))"

definition emit_to :: "('a, 'e) callback option \<Rightarrow> 'e \<Rightarrow> 'a app \<Rightarrow> 'a ended" where
  "emit_to f ev st = (case f of None \<Rightarrow> (st, None) | Some g \<Rightarrow> recovered (run_callback g ev st))"

text \<open>The loop over the installed observers.\<close>

fun emit_each :: "('a observer \<Rightarrow> ('a, 'e) callback option) \<Rightarrow> 'a observer list \<Rightarrow> 'e \<Rightarrow> 'a app \<Rightarrow> 'a ended" where
  "emit_each sel [] ev st = (st, None)"
| "emit_each sel (x # xs) ev st = (case emit_to (sel x) ev st of
     (st1, None) \<Rightarrow> emit_each sel xs ev st1 | (st1, Some p) \<Rightarrow> (st1, Some p))"

definition emitRunScheduled :: "'a observer list \<Rightarrow> run_event \<Rightarrow> 'a app \<Rightarrow> 'a ended" where
  "emitRunScheduled obs ev st = emit_each ob_run_scheduled obs ev st"

definition emitAttemptDone :: "'a observer list \<Rightarrow> attempt_event \<Rightarrow> 'a app \<Rightarrow> 'a ended" where
  "emitAttemptDone obs ev st = emit_each ob_attempt_done obs ev st"

definition emitRunUnwinding :: "'a observer list \<Rightarrow> run_failure_event \<Rightarrow> 'a app \<Rightarrow> 'a ended" where
  "emitRunUnwinding obs ev st = emit_each ob_run_unwinding obs ev st"

definition WithObserver :: "'a observer list \<Rightarrow> 'a observer list \<Rightarrow> 'a observer list" where
  "WithObserver o1 installed = installed @ o1"

text \<open>\<^verbatim>\<open>copyAnnotations\<close>: nil for an empty map, otherwise a new map with its entries.\<close>

definition copyAnnotations :: "(string, string) gomap \<Rightarrow> (string, string) gomap" where
  "copyAnnotations m = (if length m = 0 then [] else fold (\<lambda>(k, v) out. gm_put k v out) m [])"

definition terminal_event :: "run_record \<Rightarrow> outcome \<Rightarrow> run_terminal_event" where
  "terminal_event rec oc = \<lparr>te_pipeline = r_pipeline rec, te_resource = r_resource rec, te_run = r_run rec, te_outcome = oc,
     te_kind = map_option f_kind (r_failure rec), te_reason = (case r_failure rec of None \<Rightarrow> [] | Some f \<Rightarrow> f_reason f),
     te_duration = time_sub (r_updated_at rec) (r_created_at rec), te_annotations = copyAnnotations (r_annotations rec)\<rparr>"

text \<open>A record without an outcome is a nil dereference, which nothing recovers.\<close>

definition emitRunTerminal :: "'a observer list \<Rightarrow> run_record \<Rightarrow> 'a app \<Rightarrow> 'a ended" where
  "emitRunTerminal obs rec st = (if obs = [] then (st, None)
     else case r_outcome rec of None \<Rightarrow> (st, Some ''nil dereference'')
       | Some oc \<Rightarrow> emit_each ob_run_terminal obs (terminal_event rec oc) st)"

definition emitRunInvalid :: "'a observer list \<Rightarrow> run_failure_event \<Rightarrow> 'a app \<Rightarrow> 'a ended" where
  "emitRunInvalid obs ev st = emit_each ob_run_invalid obs ev st"

definition emitWaiterWoken :: "'a observer list \<Rightarrow> wake_event \<Rightarrow> 'a app \<Rightarrow> 'a ended" where
  "emitWaiterWoken obs ev st = emit_each ob_waiter_woken obs ev st"

definition emitClassWait :: "'a observer list \<Rightarrow> class_wait_event \<Rightarrow> 'a app \<Rightarrow> 'a ended" where
  "emitClassWait obs ev st = emit_each ob_class_wait obs ev st"

definition emitRunsReaped :: "'a observer list \<Rightarrow> int \<Rightarrow> 'a app \<Rightarrow> 'a ended" where
  "emitRunsReaped obs n st = emit_each ob_runs_reaped obs n st"

definition emitStoreOp :: "'a observer list \<Rightarrow> store_op_event \<Rightarrow> 'a app \<Rightarrow> 'a ended" where
  "emitStoreOp obs ev st = emit_each ob_store_op obs ev st"

definition hasStoreObserver :: "'a observer list \<Rightarrow> bool" where
  "hasStoreObserver obs \<longleftrightarrow> list_ex (\<lambda>x. ob_store_op x \<noteq> None) obs"

section \<open>The observed store\<close>

definition panicked :: "'r result \<Rightarrow> bool" where
  "panicked r \<longleftrightarrow> (case r of Inl (GoPanic p) \<Rightarrow> True | _ \<Rightarrow> False)"

record ('s, 'a) observed_store =
  os_inner :: 's
  os_app :: "'a app"
  os_tick :: nat

text \<open>
  One method: the clock is read, the store is called, and the event is emitted at a second reading. A panic of the store
  leaves the method before the event; one of the emission leaves it with the store's answer lost.
\<close>

definition observed_call :: "(nat \<Rightarrow> gotime) \<Rightarrow> 'a observer list \<Rightarrow> string \<Rightarrow> bool \<Rightarrow> ('s \<Rightarrow> 'r result \<times> 's) \<Rightarrow>
    ('s, 'a) observed_store \<Rightarrow> 'r result \<times> ('s, 'a) observed_store" where
  "observed_call clock obs name w call s =
     (let start = clock (os_tick s); (r, inner) = call (os_inner s); s1 = s\<lparr>os_inner := inner, os_tick := os_tick s + 1\<rparr> in
      if panicked r then (r, s1)
      else case emitStoreOp obs \<lparr>se_op = name, se_write = w, se_duration = time_sub (clock (os_tick s1)) start,
             se_err = (case r of Inl e \<Rightarrow> Some e | Inr _ \<Rightarrow> None)\<rparr> (os_app s1) of
        (app, p) \<Rightarrow> (case p of None \<Rightarrow> r | Some v \<Rightarrow> Inl (GoPanic v), s1\<lparr>os_app := app, os_tick := os_tick s1 + 1\<rparr>))"

definition observed_ops :: "(nat \<Rightarrow> gotime) \<Rightarrow> 'a observer list \<Rightarrow> 's store_ops \<Rightarrow> ('s, 'a) observed_store store_ops" where
  "observed_ops clock obs so = \<lparr>
     so_create = (\<lambda>s rec excluding. observed_call clock obs ''CreateRun'' True (\<lambda>i. so_create so i rec excluding) s),
     so_get = (\<lambda>s i. observed_call clock obs ''GetRun'' False (\<lambda>t. so_get so t i) s),
     so_head = (\<lambda>s i. observed_call clock obs ''GetRunHead'' False (\<lambda>t. so_head so t i) s),
     so_apply = (\<lambda>s i tr. observed_call clock obs ''ApplyTransition'' True (\<lambda>t. so_apply so t i tr) s),
     so_reap = (\<lambda>s before limit. observed_call clock obs ''ReapTerminal'' True (\<lambda>t. so_reap so t before limit) s),
     so_cancel = (\<lambda>s i req. observed_call clock obs ''RequestCancel'' True (\<lambda>t. so_cancel so t i req) s),
     so_list = (\<lambda>s. observed_call clock obs ''ListNonterminal'' False (so_list so) s),
     so_active = (\<lambda>s p r. observed_call clock obs ''GetActiveRunID'' False (\<lambda>t. so_active so t p r) s)\<rparr>"

section \<open>What the observers see\<close>

lemma emit_to_eq: "emit_to f ev st = ((case f of None \<Rightarrow> st
    | Some g \<Rightarrow> (fst (g ev (fst st)), snd st @ (case snd (g ev (fst st)) of None \<Rightarrow> [] | Some p \<Rightarrow> [p]))), None)"
  by (auto simp: emit_to_def run_callback_def recovered_def split: option.split prod.split)

text \<open>Every callback that is installed runs once, in the order of installation, whether or not one before it panicked.\<close>

lemma emits_all:
  "snd (emit_each sel obs ev st) = None"
  "fst (fst (emit_each sel obs ev st)) = fold (\<lambda>g a. fst (g ev a)) (List.map_filter sel obs) (fst st)"
  by (induction obs arbitrary: st) (auto simp: emit_to_eq List.map_filter_simps split: option.split)

lemma copy_fold: "distinct (map fst m) \<Longrightarrow>
    gm_get (fold (\<lambda>(k, v) out. gm_put k v out) m out) k = (if k \<in> set (map fst m) then gm_get m k else gm_get out k)"
proof (induction m arbitrary: out)
  case (Cons x m)
  then show ?case by (cases x) (auto simp: gm_get_put)
qed simp

lemma copyAnnotations_get: "distinct (map fst m) \<Longrightarrow> gm_get (copyAnnotations m) k = gm_get m k"
  by (auto simp: copyAnnotations_def copy_fold dest: map_of_SomeD intro: sym [OF iffD2 [OF map_of_eq_None_iff]])

lemma emitStoreOp_returns: "emitStoreOp obs ev st = (fst (emitStoreOp obs ev st), None)"
  by (simp add: emitStoreOp_def emits_all prod_eq_iff)

text \<open>
  What a decorated method is to do: answer what the store answers and leave the store as the call leaves it, having
  handed each subscribed callback, in order, one event with the method's name, the time between the two readings
  and the error the caller gets; after a panic of the store there is no event.
\<close>

definition watched :: "(nat \<Rightarrow> gotime) \<Rightarrow> 'a observer list \<Rightarrow> string \<Rightarrow> bool \<Rightarrow> ('s \<Rightarrow> 'r result \<times> 's) \<Rightarrow> ('s, 'a) observed_store \<Rightarrow>
    'r result \<times> ('s, 'a) observed_store \<Rightarrow> bool" where
  "watched clock obs name w call s x \<longleftrightarrow>
     fst x = fst (call (os_inner s)) \<and> os_inner (snd x) = snd (call (os_inner s)) \<and>
     fst (os_app (snd x)) = (case fst x of Inl (GoPanic p) \<Rightarrow> fst (os_app s) | _ \<Rightarrow>
       fold (\<lambda>g a. fst (g \<lparr>se_op = name, se_write = w, se_duration = time_sub (clock (os_tick s + 1)) (clock (os_tick s)),
           se_err = (case fst x of Inl e \<Rightarrow> Some e | Inr _ \<Rightarrow> None)\<rparr> a))
         (List.map_filter ob_store_op obs) (fst (os_app s)))"

lemma observed_call_watched: "watched clock obs name w call s (observed_call clock obs name w call s)"
proof -
  obtain r inner where c: "call (os_inner s) = (r, inner)" by fastforce
  have f: "fst (fst (emitStoreOp obs ev st)) = fold (\<lambda>g a. fst (g ev a)) (List.map_filter ob_store_op obs) (fst st)" for ev st
    by (simp add: emitStoreOp_def emits_all)
  show ?thesis
  proof (cases "panicked r")
    case True
    then show ?thesis using c by (auto simp: watched_def observed_call_def panicked_def split: sum.splits kernel_error.splits)
  next
    case False
    have "observed_call clock obs name w call s = (r, s\<lparr>os_inner := inner,
        os_app := fst (emitStoreOp obs \<lparr>se_op = name, se_write = w, se_duration = time_sub (clock (os_tick s + 1)) (clock (os_tick s)),
          se_err = (case r of Inl e \<Rightarrow> Some e | Inr _ \<Rightarrow> None)\<rparr> (os_app s)), os_tick := os_tick s + 2\<rparr>)"
      using c False by (simp add: observed_call_def Let_def) (subst emitStoreOp_returns, simp)
    then show ?thesis using c False f
      by (auto simp: watched_def panicked_def split: sum.splits kernel_error.splits)
  qed
qed

lemma observed_call_eq:
  "observed_call clock obs name w call s = (r, s') \<Longrightarrow> call (os_inner s) = (r, os_inner s')"
  using observed_call_watched [of clock obs name w call s] by (auto simp: watched_def prod_eq_iff)

text \<open>Without a subscriber the application's state is as it was: leaving the decorator out is the same.\<close>

lemma unobserved: "\<not> hasStoreObserver obs \<Longrightarrow> fst (os_app (snd (observed_call clock obs name w call s))) = fst (os_app s)"
proof -
  assume "\<not> hasStoreObserver obs"
  then have "List.map_filter ob_store_op obs = []" by (auto simp: hasStoreObserver_def List.map_filter_def list_ex_iff filter_empty_conv)
  then show ?thesis using observed_call_watched [of clock obs name w call s]
    by (auto simp: watched_def split: sum.splits kernel_error.splits)
qed

text \<open>The decorated store keeps every law of the contract.\<close>

lemma observed_sel:
  "so_create (observed_ops clock obs so) s rec excl = observed_call clock obs ''CreateRun'' True (\<lambda>i. so_create so i rec excl) s"
  "so_get (observed_ops clock obs so) s i = observed_call clock obs ''GetRun'' False (\<lambda>t. so_get so t i) s"
  "so_head (observed_ops clock obs so) s i = observed_call clock obs ''GetRunHead'' False (\<lambda>t. so_head so t i) s"
  "so_apply (observed_ops clock obs so) s i tr = observed_call clock obs ''ApplyTransition'' True (\<lambda>t. so_apply so t i tr) s"
  "so_reap (observed_ops clock obs so) s before limit = observed_call clock obs ''ReapTerminal'' True (\<lambda>t. so_reap so t before limit) s"
  "so_cancel (observed_ops clock obs so) s i req = observed_call clock obs ''RequestCancel'' True (\<lambda>t. so_cancel so t i req) s"
  "so_list (observed_ops clock obs so) s = observed_call clock obs ''ListNonterminal'' False (so_list so) s"
  "so_active (observed_ops clock obs so) s p r = observed_call clock obs ''GetActiveRunID'' False (\<lambda>t. so_active so t p r) s"
  by (simp_all add: observed_ops_def)

lemma observed_run_store:
  fixes sinv :: "'s \<Rightarrow> bool" and rec_of :: "'s \<Rightarrow> run_id \<Rightarrow> run_record option"
  assumes st: "run_store so sinv rec_of"
  shows "run_store (observed_ops clock obs so) (\<lambda>s. sinv (os_inner s)) (\<lambda>s. rec_of (os_inner s))"
proof (unfold_locales, unfold observed_sel, goal_cases)
  case 1 then show ?case by (rule run_store.identity [OF st])
next
  case 2 from 2(1-4) observed_call_eq [OF 2(5)] show ?case by (rule run_store.create_law [OF st])
next
  case 3 from 3(1) observed_call_eq [OF 3(2)] show ?case by (rule run_store.get_law [OF st])
next
  case 4 from 4(1) observed_call_eq [OF 4(2)] show ?case by (rule run_store.head_law [OF st])
next
  case 5 from 5(1) observed_call_eq [OF 5(2)] show ?case by (rule run_store.apply_law [OF st])
next
  case 6 from 6(1) observed_call_eq [OF 6(2)] show ?case by (rule run_store.reap_law [OF st])
next
  case 7 from 7(1) observed_call_eq [OF 7(2)] show ?case by (rule run_store.cancel_law [OF st])
next
  case 8 from 8(1) observed_call_eq [OF 8(2)] show ?case by (rule run_store.list_law [OF st])
next
  case 9 from 9(1,2) observed_call_eq [OF 9(3)] show ?case by (rule run_store.active_law [OF st])
next
  case 10 then show ?case by (rule run_store.steps_law [OF st])
qed

text \<open>Two observers whose callback of \<open>StoreOp\<close> counts and panics: both run.\<close>

definition panicking_observer :: "nat observer" where
  "panicking_observer = \<lparr>ob_run_scheduled = None, ob_attempt_done = None, ob_run_unwinding = None, ob_run_terminal = None,
     ob_run_invalid = None, ob_waiter_woken = None, ob_class_wait = None, ob_runs_reaped = None,
     ob_store_op = Some (\<lambda>ev n. (Suc n, Some (se_op ev)))\<rparr>"

lemma panicking_observer_runs:
  "os_app (snd (observed_call clock [panicking_observer, panicking_observer] ''GetRun'' False (\<lambda>s. (Inr (), s))
     \<lparr>os_inner = s, os_app = (0, []), os_tick = 0\<rparr>)) = (2, [''GetRun'', ''GetRun''])"
  by (simp add: observed_call_def panicked_def emitStoreOp_def emit_to_eq panicking_observer_def)

text \<open>
  Claim C31. Whatever the installed callbacks do and however often they panic, the store decorated with them answers every call
  as the store itself does and leaves it as that call does: no panic of a callback reaches the caller. Each subscribed callback is
  handed exactly one event for each call, in the order of installation, with the method's own name, whether
  it writes, the time between the clock's two readings and the error the caller gets. So the decorated store keeps the contract
  that the store keeps, on the same records.
\<close>

theorem observed_store_contract:
  fixes so :: "'s store_ops" and sinv :: "'s \<Rightarrow> bool" and rec_of :: "'s \<Rightarrow> run_id \<Rightarrow> run_record option" and clock :: "nat \<Rightarrow> gotime" and obs :: "'a observer list"
  assumes "run_store so sinv rec_of"
  defines "dec \<equiv> observed_ops clock obs so"
  shows "run_store dec (\<lambda>s. sinv (os_inner s)) (\<lambda>s. rec_of (os_inner s))
    \<and> watched clock obs ''CreateRun'' True (\<lambda>t. so_create so t rec excluding) s (so_create dec s rec excluding)
    \<and> watched clock obs ''GetRun'' False (\<lambda>t. so_get so t i) s (so_get dec s i)
    \<and> watched clock obs ''GetRunHead'' False (\<lambda>t. so_head so t i) s (so_head dec s i)
    \<and> watched clock obs ''ApplyTransition'' True (\<lambda>t. so_apply so t i tr) s (so_apply dec s i tr)
    \<and> watched clock obs ''RequestCancel'' True (\<lambda>t. so_cancel so t i req) s (so_cancel dec s i req)
    \<and> watched clock obs ''ReapTerminal'' True (\<lambda>t. so_reap so t before limit) s (so_reap dec s before limit)
    \<and> watched clock obs ''ListNonterminal'' False (so_list so) s (so_list dec s)
    \<and> watched clock obs ''GetActiveRunID'' False (\<lambda>t. so_active so t p r) s (so_active dec s p r)"
  unfolding dec_def observed_sel by (intro conjI observed_run_store [OF assms(1)] observed_call_watched)

theorem observed_store_contract_witness:
  "\<exists>dec s'. dec = observed_ops (\<lambda>t. int t) [panicking_observer, panicking_observer] mem_ops \<and>
     run_store dec (\<lambda>s. mem_inv (os_inner s)) (\<lambda>s. mem_rec (os_inner s)) \<and>
     s' = so_get dec \<lparr>os_inner = New, os_app = (0, []), os_tick = 0\<rparr> ''1'' \<and> fst s' = Inl ErrRunNotFound \<and> fst (os_app (snd s')) = 2"
proof -
  let ?dec = "observed_ops (\<lambda>t. int t) [panicking_observer, panicking_observer] mem_ops"
  let ?s = "\<lparr>os_inner = New, os_app = (0, []), os_tick = 0\<rparr>"
  note c = observed_store_contract [OF ms.run_store_axioms, where clock = "\<lambda>t. int t" and obs = "[panicking_observer, panicking_observer]"
    and s = ?s and i = "''1''"]
  have r: "so_get mem_ops New ''1'' = (Inl ErrRunNotFound, New)" by (simp add: mem_ops_def GetRun_def New_def)
  from c [THEN conjunct2, THEN conjunct2, THEN conjunct1] r
  have "fst (so_get ?dec ?s ''1'') = Inl ErrRunNotFound \<and> fst (os_app (snd (so_get ?dec ?s ''1''))) = 2"
    by (simp add: watched_def panicking_observer_def List.map_filter_simps)
  then show ?thesis using c [THEN conjunct1] by blast
qed

end
