(* ===== verification/Testkit.thy ===== *)
theory Testkit
  imports Invocation
begin

text \<open>
  What applications test their handlers with (\<^verbatim>\<open>src/durabletest/invocation.go\<close>, \<^verbatim>\<open>src/durabletest/clock.go\<close>): the fake
  invocation, which is also a reducer's view, and the fake clock, whose time moves only by \<^verbatim>\<open>Advance\<close>. The lemmas show
  that a handler reads from a fake what it reads from the engine's invocation of the same attempt, and that a timer fires
  once, at the first moment the clock reaches its deadline.
\<close>

section \<open>The fake invocation\<close>

record 'm invocation_config =
  ic_pipeline :: pipeline_id
  ic_resource :: resource_id
  ic_run :: run_id
  ic_step :: step_id
  ic_attempt :: u64
  ic_phase :: phase
  ic_input :: "'m option"
  ic_state :: "(step_id, 'm) gomap"
  ic_annotations :: "(string, string) gomap"
  ic_awaited :: "wake option"
  ic_failure :: "failure option"
  ic_unwind_failures :: "(step_id, failure) gomap"

record 'm fake_invocation =
  fk_cfg :: "'m invocation_config"
  fk_states :: "(step_id, bytes) gomap"
  fk_violation :: "goerr option"

text \<open>The loop over the configured states; None is the panic on a message that cannot be marshaled.\<close>

fun marshal_states :: "'m protobuf \<Rightarrow> (step_id, 'm) gomap \<Rightarrow> (step_id, bytes) gomap \<Rightarrow> (step_id, bytes) gomap option" where
  "marshal_states pb [] out = Some out"
| "marshal_states pb ((k, msg) # ms) out = (case pb_marshal pb msg of
     Inl err \<Rightarrow> None
   | Inr b \<Rightarrow> marshal_states pb ms (gm_put k b out))"

definition NewInvocation :: "'m protobuf \<Rightarrow> 'm invocation_config \<Rightarrow> 'm fake_invocation option" where
  "NewInvocation pb cfg = (let
     cfg1 = (if ic_phase cfg = PhaseNone then cfg\<lparr>ic_phase := PhaseForward\<rparr> else cfg);
     cfg2 = (if ic_attempt cfg1 = 0 then cfg1\<lparr>ic_attempt := 1\<rparr> else cfg1)
   in map_option (\<lambda>states. \<lparr>fk_cfg = cfg2, fk_states = states, fk_violation = None\<rparr>) (marshal_states pb (ic_state cfg) []))"

definition fake_InputMessage :: "'m fake_invocation \<Rightarrow> 'm option" where
  "fake_InputMessage iv = ic_input (fk_cfg iv)"

definition fake_Annotations :: "'m fake_invocation \<Rightarrow> (string, string) gomap option" where
  "fake_Annotations iv = (if length (ic_annotations (fk_cfg iv)) = 0 then None
     else Some (fold (\<lambda>(k, v). gm_put k v) (ic_annotations (fk_cfg iv)) []))"

definition fake_Awaited :: "'m fake_invocation \<Rightarrow> wake option" where
  "fake_Awaited iv = ic_awaited (fk_cfg iv)"

definition fake_Failure :: "'m fake_invocation \<Rightarrow> failure option" where
  "fake_Failure iv = ic_failure (fk_cfg iv)"

definition fake_UnwindFailure :: "step_id \<Rightarrow> 'm fake_invocation \<Rightarrow> failure option" where
  "fake_UnwindFailure k iv = gm_get (ic_unwind_failures (fk_cfg iv)) k"

definition fake_AwaitedRunID :: "'m fake_invocation \<Rightarrow> run_id option" where
  "fake_AwaitedRunID iv = (case ic_awaited (fk_cfg iv) of None \<Rightarrow> None
     | Some w \<Rightarrow> if length (wk_targets w) \<noteq> 1 then None else Some (wk_targets w ! 0))"

definition fake_StateBytes :: "step_id \<Rightarrow> 'm fake_invocation \<Rightarrow> bytes option" where
  "fake_StateBytes k iv = gm_get (fk_states iv) k"

definition fake_ReportViolation :: "goerr \<Rightarrow> 'm fake_invocation \<Rightarrow> 'm fake_invocation" where
  "fake_ReportViolation err iv = (if fk_violation iv = None then iv\<lparr>fk_violation := Some err\<rparr> else iv)"

definition Violation :: "'m fake_invocation \<Rightarrow> goerr option" where
  "Violation iv = fk_violation iv"

section \<open>The fake clock\<close>

text \<open>A timer is named by the number of timers before it; what its channel holds is in \<open>fc_fired\<close>.\<close>

record fake_clock =
  fc_now :: gotime
  fc_timers :: "(nat \<times> gotime) list"
  fc_next :: nat
  fc_fired :: "(nat \<times> gotime) list"

definition NewFakeClock :: "gotime \<Rightarrow> fake_clock" where
  "NewFakeClock now = \<lparr>fc_now = now, fc_timers = [], fc_next = 0, fc_fired = []\<rparr>"

definition After :: "duration \<Rightarrow> fake_clock \<Rightarrow> nat \<times> fake_clock" where
  "After d c = (let at = fc_now c + d; t = fc_next c; c1 = c\<lparr>fc_next := Suc t\<rparr> in
     if d \<le> 0 then (t, c1\<lparr>fc_fired := fc_fired c1 @ [(t, fc_now c1)]\<rparr>)
     else (t, c1\<lparr>fc_timers := fc_timers c1 @ [(t, at)]\<rparr>))"

fun fire :: "gotime \<Rightarrow> (nat \<times> gotime) list \<Rightarrow> (nat \<times> gotime) list \<times> (nat \<times> gotime) list" where
  "fire now [] = ([], [])"
| "fire now ((t, at) # ts) = (case fire now ts of (fired, remaining) \<Rightarrow>
     if \<not> now < at then ((t, now) # fired, remaining) else (fired, (t, at) # remaining))"

definition Advance :: "duration \<Rightarrow> fake_clock \<Rightarrow> fake_clock" where
  "Advance d c = (let now = fc_now c + d in case fire now (fc_timers c) of (fired, remaining) \<Rightarrow>
     c\<lparr>fc_now := now, fc_timers := remaining, fc_fired := fc_fired c @ fired\<rparr>)"

section \<open>A fake answers as the engine does\<close>

text \<open>The engine's invocation of the attempt a configuration describes.\<close>

definition engine_invocation :: "'m invocation_config \<Rightarrow> bytes option \<Rightarrow> 'm option \<Rightarrow> (step_id, bytes) gomap \<Rightarrow> 'm invocation" where
  "engine_invocation cfg input new states = \<lparr>inv_pipeline = ic_pipeline cfg, inv_resource = ic_resource cfg, inv_run = ic_run cfg,
     inv_step = ic_step cfg, inv_attempt = ic_attempt cfg, inv_phase = ic_phase cfg, inv_input = input, inv_new_input = new,
     inv_states = states, inv_annotations = ic_annotations cfg, inv_awaited = ic_awaited cfg, inv_failure = ic_failure cfg,
     inv_violation = None\<rparr>"

lemma NewInvocation_cfg:
  "NewInvocation pb cfg = Some iv \<Longrightarrow> ic_phase cfg \<noteq> PhaseNone \<Longrightarrow> ic_attempt cfg \<noteq> 0 \<Longrightarrow>
    fk_cfg iv = cfg \<and> marshal_states pb (ic_state cfg) [] = Some (fk_states iv) \<and> fk_violation iv = None"
  by (auto simp: NewInvocation_def)

lemma copy_gomap: "distinct (map fst (out @ m)) \<Longrightarrow> fold (\<lambda>(k, v). gm_put k v) m out = out @ m"
proof (induction m arbitrary: out)
  case (Cons x m)
  obtain k v where x: "x = (k, v)" by fastforce
  have "gm_put k v out = out @ [(k, v)]"
    using Cons.prems x by (induction out) auto
  then show ?case using Cons.IH [of "out @ [(k, v)]"] Cons.prems x by simp
qed simp

lemma marshal_states_get:
  "marshal_states pb ms out = Some r \<Longrightarrow> distinct (map fst ms) \<Longrightarrow>
    gm_get r k = (case gm_get ms k of None \<Rightarrow> gm_get out k | Some m \<Rightarrow> (case pb_marshal pb m of Inr b \<Rightarrow> Some b | Inl e \<Rightarrow> None))"
proof (induction ms arbitrary: out)
  case (Cons x ms)
  obtain j m where x: "x = (j, m)" by fastforce
  then obtain b where b: "pb_marshal pb m = Inr b" using Cons.prems(1) by (auto split: sum.splits)
  have "gm_get ms j = None" using Cons.prems(2) x by (simp add: map_of_eq_None_iff)
  then show ?case using Cons.IH [of "gm_put j b out"] Cons.prems x b by (auto split: option.split)
qed simp

lemma fake_agrees:
  assumes "NewInvocation pb cfg = Some iv" and "ic_phase cfg \<noteq> PhaseNone" and "ic_attempt cfg \<noteq> 0"
    and "distinct (map fst (ic_annotations cfg))"
  shows "fake_Annotations iv = inv_Annotations (engine_invocation cfg input new (fk_states iv))"
    and "fake_Awaited iv = Awaited (engine_invocation cfg input new (fk_states iv))"
    and "fake_AwaitedRunID iv = AwaitedRunID (engine_invocation cfg input new (fk_states iv))"
    and "fake_Failure iv = inv_failure (engine_invocation cfg input new (fk_states iv))"
    and "fake_StateBytes k iv = inv_StateBytes k (engine_invocation cfg input new (fk_states iv))"
    and "Violation (fake_ReportViolation err iv) = inv_takeViolation (inv_ReportViolation err (engine_invocation cfg input new (fk_states iv)))"
proof -
  have cfg: "fk_cfg iv = cfg" "fk_violation iv = None" using NewInvocation_cfg [OF assms(1-3)] by simp_all
  show "fake_Annotations iv = inv_Annotations (engine_invocation cfg input new (fk_states iv))"
    using copy_gomap [of "[]" "ic_annotations cfg"] assms(4)
    by (simp add: fake_Annotations_def inv_Annotations_def engine_invocation_def cfg)
  show "fake_AwaitedRunID iv = AwaitedRunID (engine_invocation cfg input new (fk_states iv))"
    by (auto simp: fake_AwaitedRunID_def AwaitedRunID_def engine_invocation_def cfg length_Suc_conv split: option.split list.split)
qed (auto simp: fake_Awaited_def Awaited_def fake_Failure_def fake_StateBytes_def inv_StateBytes_def engine_invocation_def
    Violation_def fake_ReportViolation_def inv_takeViolation_def inv_ReportViolation_def
    NewInvocation_cfg [OF assms(1-3), THEN conjunct1] NewInvocation_cfg [OF assms(1-3), THEN conjunct2, THEN conjunct2])

text \<open>The input: the engine decodes the stored bytes, the fake hands out the message they were encoded from.\<close>

lemma fake_input_agrees:
  assumes "NewInvocation pb cfg = Some iv" and "ic_phase cfg \<noteq> PhaseNone" and "ic_attempt cfg \<noteq> 0"
    and "ic_input cfg = Some m" and "pb_marshal pb m = Inr b" and "pb_unmarshal pb new (Some b) = Inr m"
  shows "fake_InputMessage iv = fst (inv_InputMessage pb (engine_invocation cfg (Some b) (Some new) states))"
  using NewInvocation_cfg [OF assms(1-3)] assms(4-6)
  by (simp add: fake_InputMessage_def inv_InputMessage_def engine_invocation_def)

section \<open>Timers\<close>

lemma fire_eq: "fire now ts = (map (\<lambda>(t, at). (t, now)) (filter (\<lambda>(t, at). at \<le> now) ts), filter (\<lambda>(t, at). now < at) ts)"
  by (induction ts) auto

inductive clock_steps :: "gotime \<Rightarrow> fake_clock \<Rightarrow> bool" for t0 where
  start: "clock_steps t0 (NewFakeClock t0)"
| after: "clock_steps t0 c \<Longrightarrow> After d c = (t, c') \<Longrightarrow> clock_steps t0 c'"
| advance: "clock_steps t0 c \<Longrightarrow> 0 \<le> d \<Longrightarrow> clock_steps t0 (Advance d c)"

text \<open>Every timer is waiting for a later deadline or has fired, and none has fired twice.\<close>

definition clock_ok :: "fake_clock \<Rightarrow> bool" where
  "clock_ok c \<longleftrightarrow> distinct (map fst (fc_timers c @ fc_fired c)) \<and> set (map fst (fc_timers c @ fc_fired c)) = {..<fc_next c} \<and>
     (\<forall>(t, at)\<in>set (fc_timers c). fc_now c < at) \<and> (\<forall>(t, at)\<in>set (fc_fired c). at \<le> fc_now c)"

lemma After_ok:
  assumes "clock_ok c"
  shows "clock_ok (snd (After d c))"
proof -
  have "fc_next c \<notin> set (map fst (fc_timers c @ fc_fired c))" using assms by (simp only: clock_ok_def) simp
  then show ?thesis using assms by (auto simp: clock_ok_def After_def Let_def lessThan_Suc)
qed

lemma Advance_sel:
  "fc_now (Advance d c) = fc_now c + d" "fc_next (Advance d c) = fc_next c"
  "fc_timers (Advance d c) = filter (\<lambda>x. \<not> snd x \<le> fc_now c + d) (fc_timers c)"
  "fc_fired (Advance d c) = fc_fired c @ map (\<lambda>x. (fst x, fc_now c + d)) (filter (\<lambda>x. snd x \<le> fc_now c + d) (fc_timers c))"
  by (simp_all add: Advance_def Let_def fire_eq case_prod_beta' not_le)

lemma mset_fst_split: "mset (map fst (filter (\<lambda>x. \<not> P x) xs)) + mset (map fst (filter P xs)) = mset (map fst xs)"
  by (induction xs) auto

lemma Advance_ok:
  assumes "clock_ok c" and "0 \<le> d"
  shows "clock_ok (Advance d c)"
proof -
  let ?P = "\<lambda>x :: nat \<times> gotime. snd x \<le> fc_now c + d"
  have f: "map fst (map (\<lambda>x. (fst x, fc_now c + d)) xs) = map fst xs" for xs :: "(nat \<times> gotime) list" by (induction xs) auto
  have m: "mset (map fst (fc_timers (Advance d c) @ fc_fired (Advance d c))) = mset (map fst (fc_timers c @ fc_fired c))"
    unfolding Advance_sel map_append f mset_append mset_fst_split [of ?P "fc_timers c", symmetric] by (simp only: ac_simps)
  have "distinct (map fst (fc_timers (Advance d c) @ fc_fired (Advance d c)))"
    using assms(1) mset_eq_imp_distinct_iff [OF m] unfolding clock_ok_def by blast
  moreover have "set (map fst (fc_timers (Advance d c) @ fc_fired (Advance d c))) = {..<fc_next (Advance d c)}"
    using assms(1) mset_eq_setD [OF m] unfolding clock_ok_def Advance_sel(2) by blast
  moreover have "\<forall>(t, at)\<in>set (fc_timers (Advance d c)). fc_now (Advance d c) < at" unfolding Advance_sel by auto
  moreover have "\<forall>(t, at)\<in>set (fc_fired (Advance d c)). at \<le> fc_now (Advance d c)"
    using assms unfolding Advance_sel clock_ok_def by fastforce
  ultimately show ?thesis unfolding clock_ok_def by blast
qed

lemma clock_invariant: "clock_steps t0 c \<Longrightarrow> clock_ok c"
proof (induction rule: clock_steps.induct)
  case start
  then show ?case by (simp add: clock_ok_def NewFakeClock_def)
next
  case (after c d t c')
  then show ?case using After_ok [of c d] by simp
qed (rule Advance_ok)

end
