(* ===== verification/Generate.thy ===== *)
theory Generate
  imports Bind
begin

text \<open>
  The code generator \<^verbatim>\<open>protoc-gen-durable\<close> (\<^verbatim>\<open>src/cmd/protoc-gen-durable/internal/gen/gen.go\<close>): the collection of
  the declarations from the messages of the files, their validation with every error it reports, the grouping
  into output files, and the configuration that an emitted constructor builds. A descriptor is the tree of the
  messages with the fields the generator reads. The emitted text is not modelled: of \<^verbatim>\<open>emitDefinition\<close> it is the
  meaning of the \<^verbatim>\<open>Config\<close> literal it writes, with the application's handlers as a record of functions of a method's
  name.

  The lemmas show what the generator accepts, and that what it accepts an engine binds.
\<close>

section \<open>Descriptors\<close>

record step_options =
  sto_id :: string
  sto_unwind :: bool
  sto_retired :: bool
  sto_class :: string

record pipeline_options =
  po_id :: string
  po_input :: string
  po_output :: string
  po_failure_output :: string
  po_mutexes :: "string list"
  po_class :: string
  po_run_class :: string

record message_info =
  mi_full :: string
  mi_name :: string
  mi_fields :: nat
  mi_step :: "step_options option"
  mi_pipeline :: "pipeline_options option"

datatype message = Message (m_info: message_info) (m_messages: "message list")

abbreviation FullName :: "message \<Rightarrow> string" where "FullName m \<equiv> mi_full (m_info m)"

abbreviation stepOptions :: "message \<Rightarrow> step_options option" where "stepOptions m \<equiv> mi_step (m_info m)"

abbreviation pipelineOptions :: "message \<Rightarrow> pipeline_options option" where "pipelineOptions m \<equiv> mi_pipeline (m_info m)"

record gen_file =
  gf_path :: string
  gf_import_path :: string
  gf_generate :: bool
  gf_messages :: "message list"

text \<open>\<^verbatim>\<open>walkMessages\<close> calls its function on each message before the messages nested in it.\<close>

fun walkMessages :: "message list \<Rightarrow> message list" where
  "walkMessages [] = []"
| "walkMessages (Message i ns # ms) = Message i ns # walkMessages ns @ walkMessages ms"

definition indexMessages :: "gen_file list \<Rightarrow> (string, message) gomap" where
  "indexMessages fs = fold (\<lambda>f idx. fold (\<lambda>m. gm_put (FullName m) m) (walkMessages (gf_messages f)) idx) fs []"

fun trimDot :: "string \<Rightarrow> string" where
  "trimDot [] = []"
| "trimDot (c # s) = (if c = CHR ''.'' then s else c # s)"

section \<open>Declarations\<close>

record step_decl =
  sd_msg :: message
  sd_opts :: step_options
  sd_has_state :: bool

record pipeline_decl =
  pd_msg :: message
  pd_file :: gen_file
  pd_opts :: pipeline_options
  pd_input :: "message option"
  pd_output :: "message option"
  pd_failure_output :: "message option"
  pd_steps :: "step_decl list"

datatype gen_error =
    StepTopLevel string
  | StepNotDirect string
  | PipelineNotTop string
  | NotAStep string string
  | NestedInStep string
  | StepNoID string
  | StepIDTwice string string string
  | PipelineNoID string
  | PipelineIDTwice string string string
  | PipelineFields string
  | PipelineNoSteps string
  | InputNotFound string string
  | OutputNotFound string string
  | FailureOutputNotFound string string
  | MethodTwice string string string string

definition methodName :: "step_decl \<Rightarrow> string" where
  "methodName s = mi_name (m_info (sd_msg s))"

section \<open>Collection\<close>

text \<open>The errors so far and the map from step ids to the messages that declare them.\<close>

type_synonym gen_state = "gen_error list \<times> (string, string) gomap"

definition declared :: "message \<Rightarrow> bool" where
  "declared m \<longleftrightarrow> stepOptions m \<noteq> None \<or> pipelineOptions m \<noteq> None"

definition claim_step_id :: "string \<Rightarrow> string \<Rightarrow> gen_state \<Rightarrow> gen_state" where
  "claim_step_id i full st = (case st of (errs, byID) \<Rightarrow>
     if i = [] then (errs @ [StepNoID full], byID)
     else (case gm_get byID i of
       Some prev \<Rightarrow> (errs @ [StepIDTwice i prev full], byID)
     | None \<Rightarrow> (errs, gm_put i full byID)))"

definition collect_step :: "message \<Rightarrow> message \<Rightarrow> gen_state \<times> step_decl list \<Rightarrow> gen_state \<times> step_decl list" where
  "collect_step m n acc = (case acc of ((errs, byID), steps) \<Rightarrow> (case stepOptions n of
     None \<Rightarrow> ((errs @ [NotAStep (FullName m) (mi_name (m_info n))], byID), steps)
   | Some so \<Rightarrow>
     let errs1 = errs @ (if pipelineOptions n \<noteq> None then [PipelineNotTop (FullName n)] else []);
         errs2 = errs1 @ map (\<lambda>x. NestedInStep (FullName x)) (filter declared (walkMessages (m_messages n)))
     in (claim_step_id (sto_id so) (FullName n) (errs2, byID),
         steps @ [\<lparr>sd_msg = n, sd_opts = so, sd_has_state = mi_fields (m_info n) > 0\<rparr>])))"

definition stray_errors :: "message \<Rightarrow> gen_error list" where
  "stray_errors n = (if stepOptions n \<noteq> None then [StepNotDirect (FullName n)] else []) @
     (if pipelineOptions n \<noteq> None then [PipelineNotTop (FullName n)] else [])"

definition collect_message :: "gen_file \<Rightarrow> message \<Rightarrow> gen_state \<times> pipeline_decl list \<Rightarrow> gen_state \<times> pipeline_decl list" where
  "collect_message f m acc = (case acc of ((errs, byID), pls) \<Rightarrow>
     let errs1 = errs @ (if stepOptions m \<noteq> None then [StepTopLevel (FullName m)] else []) in
     (case pipelineOptions m of
       None \<Rightarrow> ((errs1 @ concat (map stray_errors (walkMessages (m_messages m))), byID), pls)
     | Some po \<Rightarrow> (case fold (collect_step m) (m_messages m) ((errs1, byID), []) of (st, steps) \<Rightarrow>
         (st, pls @ [\<lparr>pd_msg = m, pd_file = f, pd_opts = po, pd_input = None, pd_output = None, pd_failure_output = None,
            pd_steps = steps\<rparr>]))))"

definition collect_file :: "gen_file \<Rightarrow> gen_state \<times> pipeline_decl list \<Rightarrow> gen_state \<times> pipeline_decl list" where
  "collect_file f acc = (if gf_generate f then fold (collect_message f) (gf_messages f) acc else acc)"

section \<open>Validation\<close>

definition claim_pipeline_id :: "string \<Rightarrow> string \<Rightarrow> gen_state \<Rightarrow> gen_state" where
  "claim_pipeline_id i full st = (case st of (errs, ids) \<Rightarrow>
     if i = [] then (errs @ [PipelineNoID full], ids)
     else (case gm_get ids i of
       Some prev \<Rightarrow> (errs @ [PipelineIDTwice i prev full], ids)
     | None \<Rightarrow> (errs, gm_put i full ids)))"

text \<open>A type named by an option: None when the option is empty, an error when no message has the name.\<close>

definition resolve_type :: "(string, message) gomap \<Rightarrow> (string \<Rightarrow> gen_error) \<Rightarrow> string \<Rightarrow> gen_error list \<times> message option" where
  "resolve_type messages err s = (if s = [] then ([], None)
     else case gm_get messages (trimDot s) of None \<Rightarrow> ([err s], None) | Some m \<Rightarrow> ([], Some m))"

definition check_pipeline :: "(string, message) gomap \<Rightarrow> pipeline_decl \<Rightarrow> gen_state \<times> pipeline_decl list \<Rightarrow> gen_state \<times> pipeline_decl list" where
  "check_pipeline messages pl acc = (case acc of (st, pls) \<Rightarrow>
     let full = FullName (pd_msg pl); po = pd_opts pl in
     (case claim_pipeline_id (po_id po) full st of (errs1, ids) \<Rightarrow>
       let errs2 = errs1 @ (if mi_fields (m_info (pd_msg pl)) > 0 then [PipelineFields full] else []);
           errs3 = errs2 @ (if length (pd_steps pl) = 0 then [PipelineNoSteps full] else []) in
       (case (resolve_type messages (InputNotFound full) (po_input po),
              resolve_type messages (OutputNotFound full) (po_output po),
              resolve_type messages (FailureOutputNotFound full) (po_failure_output po)) of
         ((e1, i), (e2, out), (e3, fo)) \<Rightarrow> ((errs3 @ e1 @ e2 @ e3, ids),
           pls @ [pl\<lparr>pd_input := i, pd_output := out, pd_failure_output := fo\<rparr>]))))"

text \<open>The methods of a pipeline's handler interface, in the order they are claimed, with their claimants.\<close>

definition step_claims :: "step_decl \<Rightarrow> (string \<times> string) list" where
  "step_claims s = (methodName s, ''step '' @ sto_id (sd_opts s)) #
     (if sto_unwind (sd_opts s) then [(''Unwind'' @ methodName s, ''the unwind of step '' @ sto_id (sd_opts s))] else [])"

definition method_claims :: "pipeline_decl \<Rightarrow> (string \<times> string) list" where
  "method_claims pl = (if pd_output pl \<noteq> None then [(''ReduceOutput'', ''the output reducer'')] else []) @
     (if pd_failure_output pl \<noteq> None then [(''ReduceFailure'', ''the failure reducer'')] else []) @
     concat (map step_claims (pd_steps pl))"

definition claim_method :: "string \<Rightarrow> string \<times> string \<Rightarrow> gen_state \<Rightarrow> gen_state" where
  "claim_method full c st = (case (c, st) of ((meth, claimant), (errs, methods)) \<Rightarrow>
     (errs @ (case gm_get methods meth of Some prev \<Rightarrow> [MethodTwice full meth prev claimant] | None \<Rightarrow> []),
      gm_put meth claimant methods))"

definition check_methods :: "pipeline_decl \<Rightarrow> gen_error list \<Rightarrow> gen_error list" where
  "check_methods pl errs = fst (fold (claim_method (FullName (pd_msg pl))) (method_claims pl) (errs, []))"

section \<open>Output files\<close>

record gen_unit =
  gu_file :: gen_file
  gu_pipelines :: "pipeline_decl list"
  gu_options :: bool

definition by_file :: "pipeline_decl \<Rightarrow> (gen_file, pipeline_decl list) gomap \<times> gen_file list \<Rightarrow>
    (gen_file, pipeline_decl list) gomap \<times> gen_file list" where
  "by_file pl acc = (case acc of (byFile, order) \<Rightarrow>
     (gm_put (pd_file pl) ((case gm_get byFile (pd_file pl) of None \<Rightarrow> [] | Some ps \<Rightarrow> ps) @ [pl]) byFile,
      if gm_has byFile (pd_file pl) then order else order @ [pd_file pl]))"

fun emit_files :: "(gen_file, pipeline_decl list) gomap \<Rightarrow> gen_file list \<Rightarrow> string list \<Rightarrow> gen_unit list" where
  "emit_files byFile [] optionsDone = []"
| "emit_files byFile (f # fs) optionsDone =
     \<lparr>gu_file = f, gu_pipelines = (case gm_get byFile f of None \<Rightarrow> [] | Some ps \<Rightarrow> ps),
      gu_options = (gf_import_path f \<notin> set optionsDone)\<rparr>
     # emit_files byFile fs (gf_import_path f # optionsDone)"

text \<open>
  The plugin's entry point: the joined errors, or the files to emit. A file is one pointer of the plugin's request, whose
  files have different paths.
\<close>

definition gen_pipelines :: "gen_file list \<Rightarrow> gen_error list \<times> pipeline_decl list" where
  "gen_pipelines fs = (case fold collect_file fs (([], []), []) of ((errs1, byID), pls1) \<Rightarrow>
     (case fold (check_pipeline (indexMessages fs)) pls1 ((errs1, []), []) of ((errs2, ids), pls2) \<Rightarrow>
       (fold check_methods pls2 errs2, pls2)))"

definition GenerateFiles :: "gen_file list \<Rightarrow> gen_error list + gen_unit list" where
  "GenerateFiles fs = (case gen_pipelines fs of (errs, pls) \<Rightarrow>
     if errs \<noteq> [] then Inl errs
     else (case fold by_file pls ([], []) of (byFile, order) \<Rightarrow> Inr (emit_files byFile order [])))"

section \<open>The emitted constructor\<close>

record ('h, 'u, 'm) handlers =
  hd_run :: "string \<Rightarrow> 'h"
  hd_unwind :: "string \<Rightarrow> 'u"
  hd_output :: "'m reducer"
  hd_failure :: "'m reducer"

definition generated_step :: "('h, 'u, 'm) handlers \<Rightarrow> step_decl \<Rightarrow> ('h, 'u) pstep" where
  "generated_step h s = \<lparr>ps_id = sto_id (sd_opts s), ps_unwind = sto_unwind (sd_opts s), ps_retired = sto_retired (sd_opts s),
     ps_has_state = sd_has_state s, ps_class = sto_class (sd_opts s), ps_run = Some (hd_run h (methodName s)),
     ps_unwind_func = (if sto_unwind (sd_opts s) then Some (hd_unwind h (''Unwind'' @ methodName s)) else None)\<rparr>"

definition generated_config :: "('h, 'u, 'm) handlers \<Rightarrow> (message \<Rightarrow> 'm) \<Rightarrow> pipeline_decl \<Rightarrow>
    (('h, 'u, 'm) config \<Rightarrow> ('h, 'u, 'm) config) list \<Rightarrow> ('h, 'u, 'm) config" where
  "generated_config h new pl opts = def_New (fold (\<lambda>g. g) opts
     \<lparr>cf_id = po_id (pd_opts pl), cf_steps = map (generated_step h) (pd_steps pl), cf_mutexes = po_mutexes (pd_opts pl),
      cf_class = po_class (pd_opts pl), cf_run_class = po_run_class (pd_opts pl), cf_middleware = [],
      cf_new_input = map_option new (pd_input pl),
      cf_reduce = (if pd_output pl \<noteq> None then Some (hd_output h) else None),
      cf_reduce_failure = (if pd_failure_output pl \<noteq> None then Some (hd_failure h) else None)\<rparr>)"

section \<open>What is accepted\<close>

definition step_ok :: "message \<Rightarrow> bool" where
  "step_ok n \<longleftrightarrow> (case stepOptions n of None \<Rightarrow> False | Some so \<Rightarrow> sto_id so \<noteq> []) \<and> pipelineOptions n = None \<and>
     list_all (\<lambda>x. \<not> declared x) (walkMessages (m_messages n))"

definition message_ok :: "message \<Rightarrow> bool" where
  "message_ok m \<longleftrightarrow> stepOptions m = None \<and>
     (if pipelineOptions m = None then list_all (\<lambda>x. \<not> declared x) (walkMessages (m_messages m)) else list_all step_ok (m_messages m))"

definition msg_step_id :: "message \<Rightarrow> string" where
  "msg_step_id n = sto_id (the (stepOptions n))"

definition msg_step_ids :: "message \<Rightarrow> string list" where
  "msg_step_ids m = (if pipelineOptions m = None then [] else map msg_step_id (m_messages m))"

definition step_of :: "message \<Rightarrow> step_decl" where
  "step_of n = \<lparr>sd_msg = n, sd_opts = the (stepOptions n), sd_has_state = mi_fields (m_info n) > 0\<rparr>"

definition decls_of :: "gen_file \<Rightarrow> message \<Rightarrow> pipeline_decl list" where
  "decls_of f m = (case pipelineOptions m of None \<Rightarrow> []
     | Some po \<Rightarrow> [\<lparr>pd_msg = m, pd_file = f, pd_opts = po, pd_input = None, pd_output = None, pd_failure_output = None,
         pd_steps = map step_of (m_messages m)\<rparr>])"

text \<open>What a fold over declarations that claim ids does: all is well, and the ids are taken, or there are errors.\<close>

definition claims_to :: "bool \<Rightarrow> string list \<Rightarrow> 'd list \<Rightarrow> gen_state \<times> 'd list \<Rightarrow> gen_state \<times> 'd list \<Rightarrow> bool" where
  "claims_to ok ids ds acc acc' \<longleftrightarrow> (case (acc, acc') of (((errs, m), xs), ((errs', m'), xs')) \<Rightarrow>
     (errs' = [] \<longleftrightarrow> errs = [] \<and> ok \<and> distinct ids \<and> set ids \<inter> dom (gm_get m) = {}) \<and>
     (errs' = [] \<longrightarrow> xs' = xs @ ds \<and> dom (gm_get m') = set ids \<union> dom (gm_get m)))"

lemma claims_to_refl: "claims_to True [] [] acc acc"
  by (auto simp: claims_to_def split: prod.split)

lemma claims_to_trans:
  assumes "claims_to ok ids ds a b" and "claims_to ok' ids' ds' b c"
  shows "claims_to (ok \<and> ok') (ids @ ids') (ds @ ds') a c"
proof -
  obtain ea ma xa where a: "a = ((ea, ma), xa)" by (metis prod.collapse)
  obtain eb mb xb where b: "b = ((eb, mb), xb)" by (metis prod.collapse)
  obtain ec mc xc where c: "c = ((ec, mc), xc)" by (metis prod.collapse)
  show ?thesis
  proof (cases "eb = []")
    case True
    then have "dom (gm_get mb) = set ids \<union> dom (gm_get ma)" "xb = xa @ ds" "ea = [] \<and> ok \<and> distinct ids \<and> set ids \<inter> dom (gm_get ma) = {}"
      using assms(1) by (simp_all add: claims_to_def a b)
    then show ?thesis using assms(2) True by (auto simp: claims_to_def a b c)
  next
    case False
    then show ?thesis using assms by (auto simp: claims_to_def a b c)
  qed
qed

lemma claims_to_fold:
  assumes "\<And>x acc. claims_to (ok x) (ids x) (ds x) acc (f x acc)"
  shows "claims_to (list_all ok xs) (concat (map ids xs)) (concat (map ds xs)) acc (fold f xs acc)"
proof (induction xs arbitrary: acc)
  case Nil
  then show ?case using claims_to_refl by simp
next
  case (Cons x xs)
  show ?case using claims_to_trans [OF assms [of x acc] Cons.IH] by simp
qed

lemma filter_declared: "map (\<lambda>x. NestedInStep (FullName x)) (filter declared ms) = [] \<longleftrightarrow> list_all (\<lambda>x. \<not> declared x) ms"
  by (induction ms) auto

lemma collect_step_claims: "claims_to (step_ok n) [msg_step_id n] [step_of n] acc (collect_step m n acc)"
proof -
  obtain errs byID steps where acc: "acc = ((errs, byID), steps)" by (metis prod.collapse)
  show ?thesis
    unfolding claims_to_def acc collect_step_def step_ok_def msg_step_id_def step_of_def claim_step_id_def Let_def
    by (auto simp: filter_declared [symmetric] list_all_iff split: option.split)
qed

lemma stray_errors_Nil: "concat (map stray_errors ms) = [] \<longleftrightarrow> list_all (\<lambda>x. \<not> declared x) ms"
  by (induction ms) (auto simp: stray_errors_def declared_def)

lemma collect_message_claims: "claims_to (message_ok m) (msg_step_ids m) (decls_of f m) acc (collect_message f m acc)"
proof -
  obtain errs byID pls where acc: "acc = ((errs, byID), pls)" by (metis prod.collapse)
  let ?errs = "errs @ (if stepOptions m \<noteq> None then [StepTopLevel (FullName m)] else [])"
  show ?thesis
  proof (cases "pipelineOptions m")
    case None
    then show ?thesis using stray_errors_Nil [of "walkMessages (m_messages m)"]
      by (auto simp: claims_to_def acc collect_message_def message_ok_def msg_step_ids_def decls_of_def simp del: concat_eq_Nil_conv)
  next
    case (Some po)
    obtain st steps where r: "fold (collect_step m) (m_messages m) ((?errs, byID), []) = (st, steps)" by fastforce
    have "claims_to (list_all step_ok (m_messages m)) (concat (map (\<lambda>n. [msg_step_id n]) (m_messages m)))
        (concat (map (\<lambda>n. [step_of n]) (m_messages m))) ((?errs, byID), []) (st, steps)"
      unfolding r [symmetric] by (rule claims_to_fold) (rule collect_step_claims)
    then have "claims_to (list_all step_ok (m_messages m)) (map msg_step_id (m_messages m)) (map step_of (m_messages m))
        ((?errs, byID), []) (st, steps)" by simp
    then show ?thesis using Some r
      by (auto simp: claims_to_def acc collect_message_def message_ok_def msg_step_ids_def decls_of_def split: prod.splits)
  qed
qed

definition file_messages :: "gen_file \<Rightarrow> message list" where
  "file_messages f = (if gf_generate f then gf_messages f else [])"

definition file_decls :: "gen_file \<Rightarrow> pipeline_decl list" where
  "file_decls f = concat (map (decls_of f) (file_messages f))"

lemma collect_file_claims:
  "claims_to (list_all message_ok (file_messages f)) (concat (map msg_step_ids (file_messages f))) (file_decls f) acc (collect_file f acc)"
proof -
  have "claims_to (list_all message_ok (file_messages f)) (concat (map msg_step_ids (file_messages f))) (file_decls f) acc
      (fold (collect_message f) (file_messages f) acc)"
    unfolding file_decls_def by (rule claims_to_fold) (rule collect_message_claims)
  then show ?thesis by (cases "gf_generate f") (simp_all add: collect_file_def file_messages_def)
qed

definition type_ok :: "(string, message) gomap \<Rightarrow> string \<Rightarrow> bool" where
  "type_ok messages s \<longleftrightarrow> s = [] \<or> gm_has messages (trimDot s)"

definition type_named :: "(string, message) gomap \<Rightarrow> string \<Rightarrow> message option" where
  "type_named messages s = (if s = [] then None else gm_get messages (trimDot s))"

lemma resolve_type_eq: "resolve_type messages err s = (if type_ok messages s then [] else [err s], type_named messages s)"
  by (auto simp: resolve_type_def type_ok_def type_named_def split: option.split)

definition decl_ok :: "(string, message) gomap \<Rightarrow> pipeline_decl \<Rightarrow> bool" where
  "decl_ok messages pl \<longleftrightarrow> po_id (pd_opts pl) \<noteq> [] \<and> mi_fields (m_info (pd_msg pl)) = 0 \<and> pd_steps pl \<noteq> [] \<and>
     type_ok messages (po_input (pd_opts pl)) \<and> type_ok messages (po_output (pd_opts pl)) \<and>
     type_ok messages (po_failure_output (pd_opts pl))"

definition resolved :: "(string, message) gomap \<Rightarrow> pipeline_decl \<Rightarrow> pipeline_decl" where
  "resolved messages pl = pl\<lparr>pd_input := type_named messages (po_input (pd_opts pl)),
     pd_output := type_named messages (po_output (pd_opts pl)),
     pd_failure_output := type_named messages (po_failure_output (pd_opts pl))\<rparr>"

lemma check_pipeline_claims:
  "claims_to (decl_ok messages pl) [po_id (pd_opts pl)] [resolved messages pl] acc (check_pipeline messages pl acc)"
proof -
  obtain errs ids pls where acc: "acc = ((errs, ids), pls)" by (metis prod.collapse)
  show ?thesis
    unfolding claims_to_def acc check_pipeline_def decl_ok_def resolved_def claim_pipeline_id_def resolve_type_eq Let_def
    by (auto split: option.split)
qed

lemma claim_method_pair: "claim_method full (meth, claimant) (errs, methods) =
    (errs @ (case gm_get methods meth of Some prev \<Rightarrow> [MethodTwice full meth prev claimant] | None \<Rightarrow> []),
     gm_put meth claimant methods)"
  by (simp add: claim_method_def)

lemma claim_method_fold:
  "fst (fold (claim_method full) cs (errs, methods)) = [] \<longleftrightarrow>
    errs = [] \<and> distinct (map fst cs) \<and> set (map fst cs) \<inter> dom (gm_get methods) = {}"
proof (induction cs arbitrary: errs methods)
  case (Cons c cs)
  obtain meth claimant where c: "c = (meth, claimant)" by fastforce
  have d: "dom (gm_get (gm_put meth claimant methods)) = insert meth (dom (gm_get methods))" by (auto split: if_splits)
  show ?case unfolding c fold_simps claim_method_pair Cons.IH d
    by (cases "gm_get methods meth") auto
qed simp

lemma check_methods_fold:
  "fold check_methods pls errs = [] \<longleftrightarrow> errs = [] \<and> list_all (\<lambda>pl. distinct (map fst (method_claims pl))) pls"
  by (induction pls arbitrary: errs) (auto simp: check_methods_def claim_method_fold)

definition decls :: "gen_file list \<Rightarrow> pipeline_decl list" where
  "decls fs = concat (map file_decls fs)"

text \<open>The declarations a request must consist of.\<close>

definition request_ok :: "gen_file list \<Rightarrow> bool" where
  "request_ok fs \<longleftrightarrow>
     list_all (\<lambda>f. list_all message_ok (file_messages f)) fs \<and>
     distinct (concat (map (\<lambda>f. concat (map msg_step_ids (file_messages f))) fs)) \<and>
     list_all (decl_ok (indexMessages fs)) (decls fs) \<and>
     distinct (map (\<lambda>pl. po_id (pd_opts pl)) (decls fs)) \<and>
     list_all (\<lambda>pl. distinct (map fst (method_claims (resolved (indexMessages fs) pl)))) (decls fs)"

lemma gen_pipelines_eq:
  "(fst (gen_pipelines fs) = [] \<longleftrightarrow> request_ok fs) \<and>
   (fst (gen_pipelines fs) = [] \<longrightarrow> snd (gen_pipelines fs) = map (resolved (indexMessages fs)) (decls fs))"
proof -
  obtain e1 by1 p1 where c: "fold collect_file fs (([], []), []) = ((e1, by1), p1)" by (metis prod.collapse)
  obtain e2 ids p2 where v: "fold (check_pipeline (indexMessages fs)) p1 ((e1, []), []) = ((e2, ids), p2)" by (metis prod.collapse)
  have C: "claims_to (list_all (\<lambda>f. list_all message_ok (file_messages f)) fs)
      (concat (map (\<lambda>f. concat (map msg_step_ids (file_messages f))) fs)) (decls fs) (([], []), []) ((e1, by1), p1)"
    unfolding c [symmetric] decls_def by (rule claims_to_fold) (rule collect_file_claims)
  have "claims_to (list_all (decl_ok (indexMessages fs)) p1) (concat (map (\<lambda>pl. [po_id (pd_opts pl)]) p1))
      (concat (map (\<lambda>pl. [resolved (indexMessages fs) pl]) p1)) ((e1, []), []) ((e2, ids), p2)"
    unfolding v [symmetric] by (rule claims_to_fold) (rule check_pipeline_claims)
  then have V: "claims_to (list_all (decl_ok (indexMessages fs)) p1) (map (\<lambda>pl. po_id (pd_opts pl)) p1) (map (resolved (indexMessages fs)) p1)
      ((e1, []), []) ((e2, ids), p2)" by simp
  have g: "gen_pipelines fs = (fold check_methods p2 e2, p2)" by (simp add: gen_pipelines_def c v)
  show ?thesis
  proof (cases "e1 = []")
    case True
    then have p1: "p1 = decls fs" using C by (simp add: claims_to_def)
    show ?thesis unfolding g fst_conv snd_conv check_methods_fold request_ok_def
      using C V True by (cases "e2 = []") (auto simp: claims_to_def p1 list_all_iff)
  next
    case False
    then show ?thesis unfolding g fst_conv snd_conv check_methods_fold request_ok_def
      using C V by (auto simp: claims_to_def)
  qed
qed

section \<open>Grouping by file\<close>

lemma by_file_inv:
  assumes "gm_ok byFile" and "order = gm_keys byFile"
  shows "case by_file pl (byFile, order) of (b, ord) \<Rightarrow>
    gm_ok b \<and> ord = gm_keys b \<and> set (concat (map snd b)) = insert pl (set (concat (map snd byFile)))"
proof (cases "gm_get byFile (pd_file pl)")
  case None
  then have put: "gm_put (pd_file pl) [pl] byFile = byFile @ [(pd_file pl, [pl])]" by (intro gm_put_fresh) simp
  show ?thesis using None assms gm_ok_put [OF assms(1), of "pd_file pl" "[pl]"] by (auto simp: by_file_def put)
next
  case (Some ps)
  have "gm_keys (gm_put (pd_file pl) v byFile) = gm_keys byFile" for v
    using map_of_SomeD [OF Some] by (force simp: update_keys)
  moreover have "set (concat (map snd (gm_put (pd_file pl) (ps @ [pl]) byFile))) = insert pl (set (concat (map snd byFile)))"
    using Some by (induction byFile) (auto split: if_splits)
  ultimately show ?thesis using Some assms gm_ok_put [OF assms(1)] by (simp add: by_file_def)
qed

lemma by_file_fold:
  assumes "gm_ok byFile" and "order = gm_keys byFile"
  shows "case fold by_file pls (byFile, order) of (b, ord) \<Rightarrow>
    gm_ok b \<and> ord = gm_keys b \<and> set (concat (map snd b)) = set pls \<union> set (concat (map snd byFile))"
  using assms
proof (induction pls arbitrary: byFile order)
  case (Cons pl pls)
  obtain b ord where b: "by_file pl (byFile, order) = (b, ord)" by fastforce
  have i: "gm_ok b" "ord = gm_keys b" "set (concat (map snd b)) = insert pl (set (concat (map snd byFile)))"
    using by_file_inv [OF Cons.prems, of pl] unfolding b by simp_all
  show ?case using Cons.IH [OF i(1,2)] unfolding fold_simps b i(3) by (auto split: prod.splits)
qed simp

lemma emit_files_pipelines:
  "map gu_pipelines (emit_files byFile fs done_paths) = map (\<lambda>f. case gm_get byFile f of None \<Rightarrow> [] | Some ps \<Rightarrow> ps) fs"
  by (induction fs arbitrary: done_paths) auto

definition accepted :: "gen_unit list \<Rightarrow> pipeline_decl list" where
  "accepted units = concat (map gu_pipelines units)"

lemma gm_values: "gm_ok m \<Longrightarrow> map (\<lambda>k. case gm_get m k of None \<Rightarrow> [] | Some v \<Rightarrow> v) (gm_keys m) = map snd m"
  by (auto simp: gm_ok_def intro!: map_cong)

lemma GenerateFiles_accepted:
  assumes "GenerateFiles fs = Inr units"
  shows "request_ok fs" and "set (accepted units) = resolved (indexMessages fs) ` set (decls fs)"
proof -
  obtain errs pls where g: "gen_pipelines fs = (errs, pls)" by fastforce
  with assms have e: "errs = []" by (auto simp: GenerateFiles_def split: if_splits)
  then show "request_ok fs" using gen_pipelines_eq [of fs] g by simp
  have pls: "pls = map (resolved (indexMessages fs)) (decls fs)" using gen_pipelines_eq [of fs] g e by simp
  obtain b ord where b: "fold by_file pls ([], []) = (b, ord)" by fastforce
  have i: "gm_ok b" "ord = gm_keys b" "set (concat (map snd b)) = set pls"
    using by_file_fold [of "[]" "[]" pls] unfolding b by (simp_all add: gm_ok_def)
  have "units = emit_files b ord []" using assms g e b by (simp add: GenerateFiles_def)
  then have "accepted units = concat (map snd b)" using gm_values [OF i(1)] by (simp only: accepted_def emit_files_pipelines i(2))
  then show "set (accepted units) = resolved (indexMessages fs) ` set (decls fs)" using i(3) pls by simp
qed

section \<open>What is accepted binds\<close>

definition pl_steps :: "pipeline_decl \<Rightarrow> string list" where
  "pl_steps pl = map (\<lambda>s. sto_id (sd_opts s)) (pd_steps pl)"

lemma pl_steps_decls: "concat (map (\<lambda>f. concat (map msg_step_ids (file_messages f))) fs) = concat (map pl_steps (decls fs))"
proof -
  have m: "msg_step_ids m = concat (map pl_steps (decls_of f m))" for f m
    by (auto simp: msg_step_ids_def decls_of_def pl_steps_def step_of_def msg_step_id_def split: option.split)
  have "concat (map msg_step_ids ms) = concat (map pl_steps (concat (map (decls_of f) ms)))" for f ms
    by (induction ms) (simp_all add: m [of _ f])
  then have "concat (map msg_step_ids (file_messages f)) = concat (map pl_steps (file_decls f))" for f by (simp add: file_decls_def)
  then show ?thesis by (induction fs) (simp_all add: decls_def)
qed

lemma distinct_concat_map:
  "distinct (concat (map f xs)) \<Longrightarrow> x \<in> set xs \<Longrightarrow> distinct (f x)"
  by (induction xs) auto

lemma distinct_concat_map_disjoint:
  assumes "distinct (concat (map f xs))" and "x \<in> set xs" and "y \<in> set xs" and "x \<noteq> y"
  shows "set (f x) \<inter> set (f y) = {}"
  using assms by (induction xs) auto

lemma decl_steps_named:
  assumes "list_all (\<lambda>f. list_all message_ok (file_messages f)) fs" and "pl \<in> set (decls fs)" and "k \<in> set (pl_steps pl)"
  shows "k \<noteq> []"
proof -
  from assms(2) obtain f m where f: "f \<in> set fs" "m \<in> set (file_messages f)" "pl \<in> set (decls_of f m)"
    by (auto simp: decls_def file_decls_def)
  then obtain po where po: "pipelineOptions m = Some po" by (cases "pipelineOptions m") (simp_all add: decls_of_def)
  then have "pd_steps pl = map step_of (m_messages m)" using f(3) by (simp add: decls_of_def)
  moreover have "message_ok m" using assms(1) f(1,2) by (auto simp: list_all_iff)
  then have "list_all step_ok (m_messages m)" using po by (simp add: message_ok_def)
  ultimately show ?thesis using assms(3) by (auto simp: pl_steps_def step_of_def list_all_iff step_ok_def split: option.splits)
qed

lemma accepted_facts:
  assumes "GenerateFiles fs = Inr units"
  shows "\<And>pl. pl \<in> set (accepted units) \<Longrightarrow>
      po_id (pd_opts pl) \<noteq> [] \<and> pd_steps pl \<noteq> [] \<and> distinct (pl_steps pl) \<and> [] \<notin> set (pl_steps pl)"
    and "\<And>p q. p \<in> set (accepted units) \<Longrightarrow> q \<in> set (accepted units) \<Longrightarrow> p \<noteq> q \<Longrightarrow>
      po_id (pd_opts p) \<noteq> po_id (pd_opts q) \<and> set (pl_steps p) \<inter> set (pl_steps q) = {}"
proof -
  let ?r = "resolved (indexMessages fs)"
  have ok: "request_ok fs" and acc: "set (accepted units) = ?r ` set (decls fs)" using GenerateFiles_accepted [OF assms] by simp_all
  have sel: "pd_opts (?r d) = pd_opts d" "pd_steps (?r d) = pd_steps d" "pl_steps (?r d) = pl_steps d" for d
    by (simp_all add: resolved_def pl_steps_def)
  have steps: "distinct (concat (map pl_steps (decls fs)))" and ids: "distinct (map (\<lambda>pl. po_id (pd_opts pl)) (decls fs))"
    and msgs: "list_all (\<lambda>f. list_all message_ok (file_messages f)) fs"
    and each: "\<And>d. d \<in> set (decls fs) \<Longrightarrow> decl_ok (indexMessages fs) d"
    using ok pl_steps_decls [of fs] by (auto simp: request_ok_def list_all_iff)
  show "po_id (pd_opts pl) \<noteq> [] \<and> pd_steps pl \<noteq> [] \<and> distinct (pl_steps pl) \<and> [] \<notin> set (pl_steps pl)"
    if pl: "pl \<in> set (accepted units)" for pl
  proof -
    from pl acc obtain d where d: "pl = ?r d" "d \<in> set (decls fs)" by auto
    show ?thesis unfolding d(1) sel
      using each [OF d(2)] distinct_concat_map [OF steps d(2)] decl_steps_named [OF msgs d(2)] by (auto simp: decl_ok_def)
  qed
  show "po_id (pd_opts p) \<noteq> po_id (pd_opts q) \<and> set (pl_steps p) \<inter> set (pl_steps q) = {}"
    if p: "p \<in> set (accepted units)" and q: "q \<in> set (accepted units)" and ne: "p \<noteq> q" for p q
  proof -
    from p q acc obtain d e where d: "p = ?r d" "d \<in> set (decls fs)" and e: "q = ?r e" "e \<in> set (decls fs)" by auto
    then have "d \<noteq> e" using ne by auto
    then show ?thesis unfolding d(1) e(1) sel
      using inj_onD [OF distinct_map [THEN iffD1, OF ids, THEN conjunct2]] d e distinct_concat_map_disjoint [OF steps d(2) e(2)] by blast
  qed
qed

definition registry_open :: "('h, 'u, 'm) registry \<Rightarrow> bool" where
  "registry_open e \<longleftrightarrow> \<not> rg_started e \<and> \<not> fz_frozen (rg_pipelines e) \<and> \<not> fz_frozen (rg_step_owner e)"

lemma put_owners_open:
  "\<not> fz_frozen owners \<Longrightarrow> \<exists>o'. put_owners p ks owners = Some o' \<and> \<not> fz_frozen o'"
  by (induction ks arbitrary: owners) (auto simp: Put_def)

lemma register_open:
  assumes "registry_open e" and "Get (cf_id (bd_cfg d)) (rg_pipelines e) = None"
    and "\<And>k. gm_has (bd_steps d) k \<Longrightarrow> Get k (rg_step_owner e) = None"
  obtains e' where "register d e = Inr e'" and "registry_open e'"
    and "\<And>q. q \<noteq> cf_id (bd_cfg d) \<Longrightarrow> Get q (rg_pipelines e') = Get q (rg_pipelines e)"
    and "\<And>k. \<not> gm_has (bd_steps d) k \<Longrightarrow> Get k (rg_step_owner e') = Get k (rg_step_owner e)"
proof -
  let ?p = "cf_id (bd_cfg d)" and ?ks = "gm_keys (bd_steps d)"
  obtain owners where ow: "put_owners ?p ?ks (rg_step_owner e) = Some owners" "\<not> fz_frozen owners"
    using put_owners_open assms(1) unfolding registry_open_def by blast
  have own: "owned_step (rg_step_owner e) ?ks = None" using assms(3) by (auto simp: owned_step_None map_of_eq_None_iff)
  have ps: "Put ?p d (rg_pipelines e) = Some ((rg_pipelines e)\<lparr>fz_m := gm_put ?p d (fz_m (rg_pipelines e))\<rparr>)"
    using assms(1) by (simp add: Put_def registry_open_def)
  let ?e = "e\<lparr>rg_pipelines := (rg_pipelines e)\<lparr>fz_m := gm_put ?p d (fz_m (rg_pipelines e))\<rparr>, rg_step_owner := owners\<rparr>"
  show ?thesis
  proof (rule that [of ?e])
    show "register d e = Inr ?e" using assms(1,2) own ps ow by (simp add: register_def Let_def registry_open_def)
    show "registry_open ?e" using assms(1) ow by (simp add: registry_open_def)
    show "Get q (rg_pipelines ?e) = Get q (rg_pipelines e)" if "q \<noteq> ?p" for q using that by (simp add: Get_def)
    show "Get k (rg_step_owner ?e) = Get k (rg_step_owner e)" if "\<not> gm_has (bd_steps d) k" for k
      using that put_owners_Get [OF ow(1), of k] by (auto simp: map_of_eq_None_iff)
  qed
qed

lemma fold_WithMiddleware:
  "fold (\<lambda>g. g) (map def_WithMiddleware mws) cfg = cfg\<lparr>cf_middleware := cf_middleware cfg @ concat mws\<rparr>"
  by (induction mws arbitrary: cfg) (simp_all add: def_WithMiddleware_def)

text \<open>Names a store can hold: what a proto string may break, and the generator does not look at.\<close>

definition storable_names :: "pipeline_decl \<Rightarrow> bool" where
  "storable_names pl \<longleftrightarrow> \<not> invalidID (po_id (pd_opts pl)) \<and> list_all (\<lambda>m. m \<noteq> [] \<and> \<not> invalidID m) (po_mutexes (pd_opts pl)) \<and>
     list_all (\<lambda>k. \<not> invalidID k) (pl_steps pl)"

lemma generated_bind:
  fixes h :: "('h, 'u, 'm) handlers"
  assumes pl: "po_id (pd_opts pl) \<noteq> []" "pd_steps pl \<noteq> []" "distinct (pl_steps pl)" "[] \<notin> set (pl_steps pl)"
    and "storable_names pl" and "None \<notin> set (concat mws)" and "None \<notin> set mw"
  obtains d where "bindDefinition adapt (generated_config h new pl (map def_WithMiddleware mws)) mw = Inr d"
    and "cf_id (bd_cfg d) = po_id (pd_opts pl)" and "\<And>k. gm_has (bd_steps d) k \<longleftrightarrow> k \<in> set (pl_steps pl)"
proof -
  let ?c = "generated_config h new pl (map def_WithMiddleware mws)"
  have c: "cf_id ?c = po_id (pd_opts pl)" "cf_mutexes ?c = po_mutexes (pd_opts pl)" "cf_middleware ?c = concat mws"
    "length (cf_steps ?c) = length (pd_steps pl)" "map ps_id (cf_steps ?c) = pl_steps pl"
    by (auto simp: generated_config_def def_New_def fold_WithMiddleware pl_steps_def generated_step_def)
  have "list_all step_valid (cf_steps ?c)" unfolding list_all_iff
  proof
    fix sc assume "sc \<in> set (cf_steps ?c)"
    then obtain s where s: "s \<in> set (pd_steps pl)" "ps_id sc = sto_id (sd_opts s)" "ps_run sc \<noteq> None"
        "ps_unwind sc = (ps_unwind_func sc \<noteq> None)"
      by (auto simp: generated_config_def def_New_def fold_WithMiddleware generated_step_def)
    then have "ps_id sc \<in> set (pl_steps pl)" by (simp add: pl_steps_def)
    then show "step_valid sc" using s(3,4) pl(4) assms(5) by (auto simp: step_valid_def storable_names_def list_all_iff)
  qed
  moreover have "cf_steps ?c \<noteq> []" using c(4) pl(2) by fastforce
  ultimately have "bindDefinition adapt ?c mw = Inr \<lparr>bd_cfg = ?c,
        bd_steps = map (\<lambda>sc. (ps_id sc, bound_of adapt (mw @ cf_middleware ?c) sc)) (cf_steps ?c),
        bd_topo = map lstep_of (cf_steps ?c), bd_excludes = []\<rparr>"
    using bindDefinition_eq [of ?c mw adapt] pl assms(5-7) unfolding c storable_names_def by simp
  moreover have "gm_has (map (\<lambda>sc. (ps_id sc, bound_of adapt (mw @ cf_middleware ?c) sc)) (cf_steps ?c)) k \<longleftrightarrow> k \<in> set (pl_steps pl)" for k
    unfolding c(5) [symmetric] by (auto simp: map_of_eq_None_iff image_image)
  ultimately show ?thesis using that c(1) by simp
qed

text \<open>The definitions bound to an engine, one after the other.\<close>

fun bind_all :: "('u \<Rightarrow> 'h) \<Rightarrow> ('h \<Rightarrow> 'h) option list \<Rightarrow> ('h, 'u, 'm) config list \<Rightarrow> ('h, 'u, 'm) registry \<Rightarrow>
    bind_error + ('h, 'u, 'm) registry" where
  "bind_all adapt mw [] e = Inr e"
| "bind_all adapt mw (c # cs) e = (case Engine_Bind adapt mw c e of Inl err \<Rightarrow> Inl err | Inr e' \<Rightarrow> bind_all adapt mw cs e')"

lemma bind_all_open:
  fixes h :: "pipeline_decl \<Rightarrow> ('h, 'u, 'm) handlers"
  assumes each: "\<And>pl. pl \<in> set pls \<Longrightarrow> po_id (pd_opts pl) \<noteq> [] \<and> pd_steps pl \<noteq> [] \<and> distinct (pl_steps pl) \<and> [] \<notin> set (pl_steps pl)
      \<and> storable_names pl \<and> None \<notin> set (concat (mws pl))"
    and apart: "\<And>p q. p \<in> set pls \<Longrightarrow> q \<in> set pls \<Longrightarrow> p \<noteq> q \<Longrightarrow>
      po_id (pd_opts p) \<noteq> po_id (pd_opts q) \<and> set (pl_steps p) \<inter> set (pl_steps q) = {}"
    and "distinct pls" and mw: "None \<notin> set mw" and "registry_open e"
    and "\<And>pl. pl \<in> set pls \<Longrightarrow> Get (po_id (pd_opts pl)) (rg_pipelines e) = None"
    and "\<And>pl k. pl \<in> set pls \<Longrightarrow> k \<in> set (pl_steps pl) \<Longrightarrow> Get k (rg_step_owner e) = None"
  shows "\<exists>e'. bind_all adapt mw (map (\<lambda>pl. generated_config (h pl) new pl (map def_WithMiddleware (mws pl))) pls) e = Inr e'"
  using assms
proof (induction pls arbitrary: e)
  case (Cons pl pls)
  let ?c = "generated_config (h pl) new pl (map def_WithMiddleware (mws pl))"
  have p: "po_id (pd_opts pl) \<noteq> []" "pd_steps pl \<noteq> []" "distinct (pl_steps pl)" "[] \<notin> set (pl_steps pl)" "storable_names pl"
    "None \<notin> set (concat (mws pl))" using Cons.prems(1) [of pl] by simp_all
  obtain d where d: "bindDefinition adapt ?c mw = Inr d" "cf_id (bd_cfg d) = po_id (pd_opts pl)"
    "\<And>k. gm_has (bd_steps d) k \<longleftrightarrow> k \<in> set (pl_steps pl)" by (rule generated_bind [OF p mw]) blast
  have "Get (cf_id (bd_cfg d)) (rg_pipelines e) = None" "\<And>k. gm_has (bd_steps d) k \<Longrightarrow> Get k (rg_step_owner e) = None"
    using Cons.prems(6) [of pl] Cons.prems(7) [of pl] d(2,3) by simp_all
  then obtain e' where e': "register d e = Inr e'" "registry_open e'"
    "\<And>q. q \<noteq> cf_id (bd_cfg d) \<Longrightarrow> Get q (rg_pipelines e') = Get q (rg_pipelines e)"
    "\<And>k. \<not> gm_has (bd_steps d) k \<Longrightarrow> Get k (rg_step_owner e') = Get k (rg_step_owner e)"
    using register_open [OF Cons.prems(5)] by blast
  have other: "po_id (pd_opts q) \<noteq> po_id (pd_opts pl) \<and> set (pl_steps q) \<inter> set (pl_steps pl) = {}" if "q \<in> set pls" for q
    using Cons.prems(2) [of q pl] Cons.prems(3) that by auto
  have "\<exists>r. bind_all adapt mw (map (\<lambda>pl. generated_config (h pl) new pl (map def_WithMiddleware (mws pl))) pls) e' = Inr r"
  proof (rule Cons.IH [OF _ _ _ mw e'(2)])
    show "Get (po_id (pd_opts q)) (rg_pipelines e') = None" if "q \<in> set pls" for q
      using other [OF that] e'(3) Cons.prems(6) [of q] d(2) that by simp
    show "Get k (rg_step_owner e') = None" if "q \<in> set pls" "k \<in> set (pl_steps q)" for q k
      using other [OF that(1)] e'(4) [of k] Cons.prems(7) [of q k] d(3) [of k] that by auto
  qed (use Cons.prems(1,2,3) in auto)
  then show ?case using d(1) e'(1) by (simp add: Engine_Bind_def)
qed simp

section \<open>Properties\<close>

text \<open>
  Claim C36. The generator accepts exactly the well-formed requests: every step is nested directly in its pipeline and has an
  id, nothing else carries an option, step ids and pipeline ids are unique over the whole request, a pipeline has steps and no
  fields of its own, its types exist, and the methods of its handler interface are distinct. Every other request is an error
  with nothing emitted.
\<close>

theorem generator_accepts:
  "(if request_ok fs then \<exists>units. GenerateFiles fs = Inr units \<and> set (accepted units) = resolved (indexMessages fs) ` set (decls fs)
    else \<exists>err errs. GenerateFiles fs = Inl (err # errs))"
proof (cases "request_ok fs")
  case True
  then have "fst (gen_pipelines fs) = []" using gen_pipelines_eq by blast
  then obtain pls where "gen_pipelines fs = ([], pls)" by (metis prod.collapse)
  then obtain units where "GenerateFiles fs = Inr units"
    by (cases "fold by_file pls ([], [])") (simp add: GenerateFiles_def)
  then show ?thesis using True GenerateFiles_accepted(2) by auto
next
  case False
  then have "fst (gen_pipelines fs) \<noteq> []" using gen_pipelines_eq by blast
  then obtain err errs where "fst (gen_pipelines fs) = err # errs" by (auto simp: neq_Nil_conv)
  then show ?thesis using False by (cases "gen_pipelines fs") (simp add: GenerateFiles_def)
qed

text \<open>
  Claim C37. What the generator accepts, an engine binds: the definitions of any of the generated pipelines, in any order and
  with any handlers and middleware, are all accepted by \<^verbatim>\<open>Bind\<close>, as long as their names can be stored. In particular no two of
  them claim the same step.
\<close>

theorem generated_definitions_bind:
  assumes "GenerateFiles fs = Inr units" and "distinct pls" and "set pls \<subseteq> set (accepted units)"
    and "list_all (\<lambda>pl. storable_names pl \<and> None \<notin> set (concat (mws pl))) pls" and "None \<notin> set engineMW"
  shows "\<exists>e. bind_all adapt engineMW (map (\<lambda>pl. generated_config (h pl) new pl (map def_WithMiddleware (mws pl))) pls)
    empty_registry = Inr e"
proof (rule bind_all_open [OF _ _ assms(2,5)])
  show "po_id (pd_opts pl) \<noteq> [] \<and> pd_steps pl \<noteq> [] \<and> distinct (pl_steps pl) \<and> [] \<notin> set (pl_steps pl)
      \<and> storable_names pl \<and> None \<notin> set (concat (mws pl))" if "pl \<in> set pls" for pl
    using accepted_facts(1) [OF assms(1), of pl] assms(3,4) that unfolding list_all_iff by blast
  show "po_id (pd_opts p) \<noteq> po_id (pd_opts q) \<and> set (pl_steps p) \<inter> set (pl_steps q) = {}"
    if "p \<in> set pls" "q \<in> set pls" "p \<noteq> q" for p q
    using accepted_facts(2) [OF assms(1), of p q] assms(3) that by blast
qed (simp_all add: registry_open_def empty_registry_def Get_def)

abbreviation wit_info :: "string \<Rightarrow> string \<Rightarrow> nat \<Rightarrow> message_info" where
  "wit_info full name n \<equiv> \<lparr>mi_full = full, mi_name = name, mi_fields = n, mi_step = None, mi_pipeline = None\<rparr>"

abbreviation wit_gen_step :: "string \<Rightarrow> string \<Rightarrow> string \<Rightarrow> bool \<Rightarrow> message" where
  "wit_gen_step full name k u \<equiv> Message (wit_info full name 1\<lparr>mi_step := Some \<lparr>sto_id = k, sto_unwind = u, sto_retired = False, sto_class = []\<rparr>\<rparr>) []"

abbreviation wit_gen_pipeline :: "string \<Rightarrow> string \<Rightarrow> message list \<Rightarrow> message" where
  "wit_gen_pipeline name out ns \<equiv> Message (wit_info name name 0\<lparr>mi_pipeline := Some \<lparr>po_id = name, po_input = [], po_output = out,
     po_failure_output = [], po_mutexes = [''m''], po_class = [], po_run_class = []\<rparr>\<rparr>) ns"

abbreviation wit_file :: "gen_file" where
  "wit_file \<equiv> \<lparr>gf_path = ''f'', gf_import_path = ''p'', gf_generate = True,
     gf_messages = [wit_gen_pipeline ''A'' ''.Out'' [wit_gen_step ''A.S'' ''S'' ''s'' True, wit_gen_step ''A.T'' ''T'' ''t'' False],
       wit_gen_pipeline ''B'' [] [wit_gen_step ''B.S'' ''S'' ''u'' False], Message (wit_info ''Out'' ''Out'' 2) []]\<rparr>"

abbreviation wit_handlers :: "(nat, nat, nat) handlers" where
  "wit_handlers \<equiv> \<lparr>hd_run = length, hd_unwind = length, hd_output = (\<lambda>_. Reduced None []), hd_failure = (\<lambda>_. Reduced None [])\<rparr>"

lemma wit_gen_ids: "\<not> invalidID ''A''" "\<not> invalidID ''B''" "\<not> invalidID ''s''" "\<not> invalidID ''t''" "\<not> invalidID ''u''" "\<not> invalidID ''m''"
  by (simp_all add: invalidID_def valid_utf8.simps lead_width_def)

lemma wit_generated: "\<exists>a b. GenerateFiles [wit_file] = Inr [\<lparr>gu_file = wit_file, gu_pipelines = [a, b], gu_options = True\<rparr>] \<and>
    a \<noteq> b \<and> storable_names a \<and> storable_names b"
  by (simp add: GenerateFiles_def gen_pipelines_def collect_file_def collect_message_def collect_step_def claim_step_id_def Let_def
      check_pipeline_def claim_pipeline_id_def resolve_type_def indexMessages_def check_methods_def claim_method_def method_claims_def
      step_claims_def methodName_def by_file_def stray_errors_def storable_names_def pl_steps_def wit_gen_ids)

theorem generated_definitions_bind_witness:
  "\<exists>a b e. GenerateFiles [wit_file] = Inr [\<lparr>gu_file = wit_file, gu_pipelines = [a, b], gu_options = True\<rparr>] \<and>
    bind_all id [Some (\<lambda>x. x)] (map (\<lambda>pl. generated_config wit_handlers (\<lambda>_. 0) pl (map def_WithMiddleware [[Some Suc]])) [b, a])
      empty_registry = Inr e"
proof -
  obtain a b where g: "GenerateFiles [wit_file] = Inr [\<lparr>gu_file = wit_file, gu_pipelines = [a, b], gu_options = True\<rparr>]"
      "a \<noteq> b" "storable_names a" "storable_names b" using wit_generated by blast
  show ?thesis
    using generated_definitions_bind [OF g(1), of "[b, a]" "\<lambda>_. [[Some Suc]]" "[Some (\<lambda>x. x)]" id "\<lambda>_. wit_handlers" "\<lambda>_. 0"] g
    by (auto simp: accepted_def)
qed

end
