(* ===== verification/Engine_Await.thy ===== *)
theory Engine_Await
  imports Engine_State
begin

text \<open>
  Parks (\<^verbatim>\<open>src/engine/engine.go\<close>): the await gate, the wake that settles a park into the operation's
  memory, the record of a new park, and the bounded search for an await cycle. The deadline timer
  of a park is a goroutine: arming it records the task, and \<open>timer_fired\<close> is what the goroutine does
  when its clock channel delivers.
\<close>

section \<open>Settling a park\<close>

definition awaitNeed :: "await \<Rightarrow> int" where
  "awaitNeed park = (if aw_mode park = AwaitModeAny then 1 else int (length (aw_targets park)))"

definition settleAwait :: "run_record \<Rightarrow> run_id list \<Rightarrow> bool \<Rightarrow> run_record" where
  "settleAwait rec done expired = rec\<lparr>
     r_awaited := map_option (\<lambda>park. \<lparr>wk_targets = aw_targets park, wk_done = done, wk_expired = expired\<rparr>) (r_awaiting rec),
     r_awaiting := None\<rparr>"

definition await_targets :: "run_record \<Rightarrow> run_id list" where
  "await_targets rec = (case r_awaiting rec of None \<Rightarrow> [] | Some park \<Rightarrow> aw_targets park)"

definition wake_run :: "('s, 'm) env \<Rightarrow> run_record \<Rightarrow> run_id list \<Rightarrow> bool \<Rightarrow> ('s, 'm) engine \<Rightarrow> run_record \<times> ('s, 'm) engine" where
  "wake_run env rec done expired e = (case unpark (r_run rec) e of
     (None, e1) \<Rightarrow> (settleAwait rec done expired, e1)
   | (Some since, e1) \<Rightarrow> (case Now env e1 of (now, e2) \<Rightarrow>
       (settleAwait rec done expired,
        emit (EvWaiterWoken (r_run rec) (await_targets rec) done expired (time_sub now since)) e2)))"

section \<open>Targets and cycles\<close>

definition targetDone :: "('s, 'm) env \<Rightarrow> run_id \<Rightarrow> ('s, 'm) engine \<Rightarrow> bool result \<times> ('s, 'm) engine" where
  "targetDone env target e = (case st_head env target e of
     (Inl err, e1) \<Rightarrow> (if err = ErrRunNotFound then (Inr True, e1) else (Inl err, e1))
   | (Inr trec, e1) \<Rightarrow> (Inr (terminal trec), e1))"

definition maxVisited :: nat where
  "maxVisited = 1024"

text \<open>
  The walk of \<^verbatim>\<open>awaitCycle\<close>. The stack's top is the end of the list, as in the source. Every
  iteration pops one entry, and either pushes nothing or marks a new run as visited, of which
  there are at most 1024, so the walk ends.
\<close>

function cycle_walk :: "('s, 'm) env \<Rightarrow> run_id \<Rightarrow> run_id list \<Rightarrow> run_id list \<Rightarrow> ('s, 'm) engine \<Rightarrow> bool result \<times> ('s, 'm) engine" where
  "cycle_walk env self stack visited e =
     (if stack = [] \<or> maxVisited \<le> length visited then (Inr False, e)
      else let cur = last stack; rest = butlast stack in
        if cur = self then (Inr True, e)
        else if cur \<in> set visited then cycle_walk env self rest visited e
        else case st_head env cur e of
          (Inl err, e1) \<Rightarrow> if err = ErrRunNotFound then cycle_walk env self rest (cur # visited) e1 else (Inl err, e1)
        | (Inr rec, e1) \<Rightarrow>
            if terminal rec then cycle_walk env self rest (cur # visited) e1
            else (case r_awaiting rec of
                None \<Rightarrow> cycle_walk env self rest (cur # visited) e1
              | Some park \<Rightarrow> cycle_walk env self (rest @ aw_targets park) (cur # visited) e1))"
  by pat_completeness auto
termination
  by (relation "measures [\<lambda>(env, self, stack, visited, e). maxVisited - length visited, \<lambda>(env, self, stack, visited, e). length stack]") auto

declare cycle_walk.simps [simp del]

definition awaitCycle :: "('s, 'm) env \<Rightarrow> run_id \<Rightarrow> run_id list \<Rightarrow> ('s, 'm) engine \<Rightarrow> bool result \<times> ('s, 'm) engine" where
  "awaitCycle env self targets e = cycle_walk env self targets [] e"

section \<open>The gate\<close>

definition join_done :: "run_id \<Rightarrow> ('s, 'm) engine \<Rightarrow> run_id list" where
  "join_done i e = (case Done i (e_joins e) of None \<Rightarrow> [] | Some done \<Rightarrow> done)"

text \<open>The first-run reads of the targets; \<open>False\<close> is a read that failed.\<close>

fun read_targets :: "('s, 'm) env \<Rightarrow> run_id \<Rightarrow> run_id list \<Rightarrow> ('s, 'm) engine \<Rightarrow> bool \<times> ('s, 'm) engine" where
  "read_targets env i [] e = (True, e)"
| "read_targets env i (t # ts) e = (case targetDone env t e of
     (Inl err, e1) \<Rightarrow> (False, e1)
   | (Inr ok, e1) \<Rightarrow> read_targets env i ts (if ok then e1\<lparr>e_joins := Joinset.Mark i t (e_joins e1)\<rparr> else e1))"

definition arm_timer :: "run_id \<Rightarrow> duration \<Rightarrow> ('s, 'm) engine \<Rightarrow> ('s, 'm) engine" where
  "arm_timer i remaining e = (case gm_get (e_await_timers e) i of
     Some _ \<Rightarrow> e
   | None \<Rightarrow> e\<lparr>e_await_timers := gm_put i (e_next_chan e) (e_await_timers e),
       e_timer_tasks := e_timer_tasks e @ [(i, e_next_chan e, remaining)], e_next_chan := Suc (e_next_chan e)\<rparr>)"

definition timer_fired :: "run_id \<Rightarrow> nat \<Rightarrow> ('s, 'm) engine \<Rightarrow> ('s, 'm) engine" where
  "timer_fired i stop e = (if gm_get (e_await_timers e) i = Some stop then dispatch i 0 e else e)"

text \<open>The part of the gate after the first-run reads.\<close>

definition gate_settle :: "('s, 'm) env \<Rightarrow> run_record \<Rightarrow> await \<Rightarrow> ('s, 'm) engine \<Rightarrow> bool \<times> run_record \<times> ('s, 'm) engine" where
  "gate_settle env rec park e =
     (let done = join_done (r_run rec) e in
      if awaitNeed park \<le> int (length done) then (False, wake_run env rec done False e)
      else if is_zero (aw_deadline park) then (True, rec, e)
      else case Now env e of (now, e1) \<Rightarrow>
        let remaining = time_sub (aw_deadline park) now in
        if remaining \<le> 0 then (False, wake_run env rec done True e1)
        else (True, rec, arm_timer (r_run rec) remaining e1))"

definition cycle_reason :: "run_id list \<Rightarrow> string" where
  "cycle_reason targets = ''await cycle: awaiting runs ['' @ join_with '' '' targets @ ''] would deadlock back to this run''"

definition awaitGate :: "('s, 'm) env \<Rightarrow> run_record \<Rightarrow> ('s, 'm) engine \<Rightarrow> bool \<times> run_record \<times> ('s, 'm) engine" where
  "awaitGate env rec e = (case r_awaiting rec of
     None \<Rightarrow> (False, rec, e)
   | Some park \<Rightarrow>
      if aw_targets park = [] then (True, rec, markInvalid rec [] ''await with no targets'' e)
      else case Now env e of (now, e1) \<Rightarrow>
        case Register (r_run rec) (aw_targets park) (awaitNeed park) now (e_joins e1) of
          (False, j) \<Rightarrow> gate_settle env rec park (e1\<lparr>e_joins := j\<rparr>)
        | (True, j) \<Rightarrow>
            (case awaitCycle env (r_run rec) (aw_targets park) (e1\<lparr>e_joins := j\<rparr>) of (cyc, e2) \<Rightarrow>
              if cyc = Inr True
              then (True, rec, markInvalid rec [] (cycle_reason (aw_targets park)) (snd (unpark (r_run rec) e2)))
              else case read_targets env (r_run rec) (aw_targets park) e2 of
                (False, e3) \<Rightarrow> (False, settleAwait rec (join_done (r_run rec) e3) False, snd (unpark (r_run rec) e3))
              | (True, e3) \<Rightarrow> gate_settle env rec park e3))"

definition retryGate :: "('s, 'm) env \<Rightarrow> run_record \<Rightarrow> ('s, 'm) engine \<Rightarrow> duration option \<times> ('s, 'm) engine" where
  "retryGate env rec e =
     (if is_zero (r_next_attempt_at rec) then (None, e)
      else case Now env e of (now, e1) \<Rightarrow>
        (if now < r_next_attempt_at rec then Some (time_sub (r_next_attempt_at rec) now) else None, e1))"

section \<open>Recording a park\<close>

text \<open>How a run function ends: \<open>Advance\<close> is \<^verbatim>\<open>done=true\<close>, \<open>Leave d again\<close> the redispatch answer.\<close>

datatype verdict = Advance | Leave duration bool

definition parkAwait :: "('s, 'm) env \<Rightarrow> run_record \<Rightarrow> step_id \<Rightarrow> u64 \<Rightarrow> await \<Rightarrow> duration \<Rightarrow> duration \<Rightarrow> ('s, 'm) engine \<Rightarrow>
    verdict \<times> run_record \<times> ('s, 'm) engine" where
  "parkAwait env rec k attempts park0 timeout elapsed e =
     (if aw_targets park0 = [] then (Leave 0 False, rec, markInvalid rec k ''await with no targets'' e)
      else if list_ex (\<lambda>t. t = []) (aw_targets park0) then (Leave 0 False, rec, markInvalid rec k ''await with empty RunID'' e)
      else
        let (park, e1) = (if 0 < timeout then (case Now env e of (now, e1) \<Rightarrow> (park0\<lparr>aw_deadline := now + timeout\<rparr>, e1)) else (park0, e));
            rec1 = rec\<lparr>r_awaiting := Some park, r_awaited := None\<rparr>
        in case apply_rec env rec1 \<lparr>t_cursor = activeCursor rec1 k attempts, t_ops = [], t_failure = None, t_output = None, t_outcome = None\<rparr> e1 of
          (False, rec2, e2) \<Rightarrow> (Leave second True, rec2, e2)
        | (True, rec2, e2) \<Rightarrow>
           (case awaitCycle env (r_run rec2) (aw_targets park) e2 of
              (Inl err, e3) \<Rightarrow> (Leave second True, rec2, e3)
            | (Inr True, e3) \<Rightarrow> (Leave 0 False, rec2, markInvalid rec2 k (cycle_reason (aw_targets park)) e3)
            | (Inr False, e3) \<Rightarrow> (Advance, rec2,
                emit (EvAttemptDone (r_run rec2) k (r_phase rec2) attempts elapsed AttemptAwaiting None 0 False) e3)))"

end
