(* ===== verification/Engine_Run.thy ===== *)
theory Engine_Run
  imports Engine_Await
begin

text \<open>
  The worker (\<^verbatim>\<open>src/engine/engine.go\<close>): the invocation of handlers and reducers, the forward and the
  unwind operation, the cancellation of a pending operation, the terminal commits, and the loop
  \<^verbatim>\<open>processRun\<close> that reconciles one run until it is terminal, invalid, waiting or stopped. One
  iteration of the loop is \<open>process_step\<close>; the loop itself takes a bound on the iterations, since a
  handler that parks on finished runs forever never leaves it.
\<close>

section \<open>Calling application code\<close>

definition invocation_of :: "run_record \<Rightarrow> ('s, 'm) edef \<Rightarrow> step_id \<Rightarrow> u64 \<Rightarrow> phase \<Rightarrow> 'm invocation" where
  "invocation_of rec def k attempt p = \<lparr>inv_pipeline = r_pipeline rec, inv_resource = r_resource rec, inv_run = r_run rec,
     inv_step = k, inv_attempt = attempt, inv_phase = p, inv_input = r_input rec, inv_new_input = cf_new_input (bd_cfg def),
     inv_states = committedStates rec, inv_annotations = r_annotations rec, inv_awaited = None, inv_failure = None,
     inv_violation = None\<rparr>"

text \<open>The violation the engine finds after the call: the first one the application reported.\<close>

definition reported_violation :: "'m invocation \<Rightarrow> goerr list \<Rightarrow> goerr option" where
  "reported_violation iv reports = inv_takeViolation (fold inv_ReportViolation reports iv)"

record 'm attempt =
  at_state :: "'m option"
  at_panicked :: bool
  at_interrupted :: bool
  at_preempted :: "string option"
  at_err :: "goerr option"
  at_violation :: "goerr option"

definition panic_error :: "string \<Rightarrow> string \<Rightarrow> goerr" where
  "panic_error what p = GoErr (what @ '' panic: '' @ p) None None []"

definition invokeForward :: "('s, 'm) handler \<Rightarrow> 'm invocation \<Rightarrow> ('s, 'm) engine \<Rightarrow> 'm attempt \<times> ('s, 'm) engine" where
  "invokeForward h iv e =
     (let e1 = attemptContext (inv_run iv) PhaseForward e; e2 = emit (EvInvoke iv (e_store e1)) e1 in
      case h iv e2 of
        (HReturn state err reports, e3) \<Rightarrow>
          (\<lparr>at_state = state, at_panicked = False, at_interrupted = stoppedBy (inv_run iv) e3, at_preempted = preemptedBy (inv_run iv) e3,
            at_err = err, at_violation = reported_violation iv reports\<rparr>, attempt_done (inv_run iv) e3)
      | (HPanic p reports, e3) \<Rightarrow>
          (\<lparr>at_state = None, at_panicked = True, at_interrupted = False, at_preempted = None,
            at_err = Some (panic_error ''handler'' p), at_violation = reported_violation iv reports\<rparr>, attempt_done (inv_run iv) e3))"

text \<open>A step without an unwind adapter has a nil handler; calling it panics inside the recovered call.\<close>

definition invokeUnwind :: "('s, 'm) handler option \<Rightarrow> 'm invocation \<Rightarrow> ('s, 'm) engine \<Rightarrow> 'm attempt \<times> ('s, 'm) engine" where
  "invokeUnwind h iv e =
     (let e1 = attemptContext (inv_run iv) PhaseUnwind e; e2 = emit (EvInvoke iv (e_store e1)) e1 in
      case (case h of None \<Rightarrow> (HPanic ''nil handler'' [], e2) | Some f \<Rightarrow> f iv e2) of
        (HReturn state err reports, e3) \<Rightarrow>
          (\<lparr>at_state = None, at_panicked = False, at_interrupted = stoppedBy (inv_run iv) e3, at_preempted = None,
            at_err = err, at_violation = reported_violation iv reports\<rparr>, attempt_done (inv_run iv) e3)
      | (HPanic p reports, e3) \<Rightarrow>
          (\<lparr>at_state = None, at_panicked = True, at_interrupted = False, at_preempted = None,
            at_err = Some (panic_error ''unwind handler'' p), at_violation = reported_violation iv reports\<rparr>, attempt_done (inv_run iv) e3))"

section \<open>Terminal commits\<close>

definition completeRun :: "run_record \<Rightarrow> ('s, 'm) engine \<Rightarrow> ('s, 'm) engine" where
  "completeRun rec e = (let i = r_run rec;
      e1 = emit (EvRunTerminal i (case r_outcome rec of None \<Rightarrow> OutcomeNone | Some oc \<Rightarrow> oc)
             (time_sub (r_updated_at rec) (r_created_at rec)) (r_failure rec)) e;
      e2 = releaseRunClass i e1;
      e3 = e2\<lparr>e_pending_preempt := gm_del i (e_pending_preempt e2)\<rparr>
    in awaitTargetDone i (notify_waiters i e3))"

definition rv_reported :: "'m reduce_view \<Rightarrow> goerr list \<Rightarrow> goerr option" where
  "rv_reported v reports = rv_takeViolation (fold rv_ReportViolation reports v)"

text \<open>\<^verbatim>\<open>reduceInto\<close>: \<open>None\<close> is a fault that marked the run invalid.\<close>

definition reduceInto :: "('s, 'm) env \<Rightarrow> run_record \<Rightarrow> string \<Rightarrow> 'm reducer \<Rightarrow> 'm reduce_view \<Rightarrow> ('s, 'm) engine \<Rightarrow>
    run_record option \<times> ('s, 'm) engine" where
  "reduceInto env rec what reduce view e = (case reduce view of
     ReducePanic p \<Rightarrow> (None, markInvalid rec [] (error_string (panic_error what p)) e)
   | Reduced out reports \<Rightarrow>
      (case rv_reported view reports of
         Some v \<Rightarrow> (None, markInvalid rec [] (error_string v) e)
       | None \<Rightarrow>
          (case out of
             None \<Rightarrow> (None, markInvalid rec [] (what @ '' returned nil output'') e)
           | Some msg \<Rightarrow>
              if \<not> pb_valid (ev_pb env) msg then (None, markInvalid rec [] (what @ '' returned nil output'') e)
              else (case pb_marshal (ev_pb env) msg of
                  Inl merr \<Rightarrow> (None, markInvalid rec [] (''cannot serialize '' @ what @ '' output: '' @ error_string merr) e)
                | Inr b \<Rightarrow> (Some (rec\<lparr>r_output := Some b\<rparr>), e)))))"

definition commit_outcome :: "('s, 'm) env \<Rightarrow> run_record \<Rightarrow> outcome \<Rightarrow> ('s, 'm) engine \<Rightarrow> bool \<times> run_record \<times> ('s, 'm) engine" where
  "commit_outcome env rec oc e =
     (let rec1 = rec\<lparr>r_outcome := Some oc, r_phase := PhaseDone\<rparr> in
      case apply_rec env rec1 \<lparr>t_cursor = idleCursor rec1, t_ops = [], t_failure = None, t_output = r_output rec1, t_outcome = r_outcome rec1\<rparr> e of
        (False, rec2, e1) \<Rightarrow> (False, rec2, e1)
      | (True, rec2, e1) \<Rightarrow> (True, rec2, completeRun rec2 e1))"

definition reduceAndComplete :: "('s, 'm) env \<Rightarrow> run_record \<Rightarrow> ('s, 'm) edef \<Rightarrow> ('s, 'm) engine \<Rightarrow> bool \<times> run_record \<times> ('s, 'm) engine" where
  "reduceAndComplete env rec def e = (case cf_reduce (bd_cfg def) of
     None \<Rightarrow> commit_outcome env rec OutcomeSuccess e
   | Some reduce \<Rightarrow>
      (let view = \<lparr>rv_input = r_input rec, rv_new_input = cf_new_input (bd_cfg def), rv_states = committedStates rec,
                   rv_failure = None, rv_unwind_failures = [], rv_violation = None\<rparr>
       in case reduceInto env rec ''reducer'' reduce view e of
            (None, e1) \<Rightarrow> (False, rec, e1)
          | (Some rec1, e1) \<Rightarrow> commit_outcome env rec1 OutcomeSuccess e1))"

definition reduceFailureAndComplete :: "('s, 'm) env \<Rightarrow> run_record \<Rightarrow> ('s, 'm) edef \<Rightarrow> ('s, 'm) engine \<Rightarrow> bool \<times> run_record \<times> ('s, 'm) engine" where
  "reduceFailureAndComplete env rec def e = (case cf_reduce_failure (bd_cfg def) of
     None \<Rightarrow> commit_outcome env rec OutcomeFailure e
   | Some reduce \<Rightarrow>
      (let view = \<lparr>rv_input = r_input rec, rv_new_input = cf_new_input (bd_cfg def), rv_states = committedStates rec,
                   rv_failure = r_failure rec, rv_unwind_failures = unwindFailuresByStep rec, rv_violation = None\<rparr>
       in case reduceInto env rec ''failure reducer'' reduce view e of
            (None, e1) \<Rightarrow> (False, rec, e1)
          | (Some rec1, e1) \<Rightarrow> commit_outcome env rec1 OutcomeFailure e1))"

section \<open>Resolving an operation\<close>

text \<open>The transition that resolves an operation: the idle cursor and the operation's record.\<close>

definition resolve_transition :: "run_record \<Rightarrow> step_id \<Rightarrow> phase \<Rightarrow> failure option \<Rightarrow> transition" where
  "resolve_transition rec k p failure = \<lparr>t_cursor = idleCursor rec,
     t_ops = [\<lparr>ow_step = k, ow_phase = p, ow_record = rec_op rec k p\<rparr>], t_failure = failure, t_output = None, t_outcome = None\<rparr>"

definition cursor_transition :: "run_record \<Rightarrow> step_id \<Rightarrow> u64 \<Rightarrow> transition" where
  "cursor_transition rec k attempts = \<lparr>t_cursor = activeCursor rec k attempts, t_ops = [], t_failure = None, t_output = None, t_outcome = None\<rparr>"

fun cascade :: "('s, 'm) env \<Rightarrow> string \<Rightarrow> run_id list \<Rightarrow> ('s, 'm) engine \<Rightarrow> ('s, 'm) engine" where
  "cascade env cause [] e = e"
| "cascade env cause (t # ts) e = cascade env cause ts (snd (requestCancel env t cause e))"

definition cancel_cause_text :: "run_record \<Rightarrow> string option \<Rightarrow> string" where
  "cancel_cause_text rec preempted =
     (let requested = (case r_cancel rec of None \<Rightarrow> [] | Some c \<Rightarrow> cr_cause c);
          cut_by = (case preempted of None \<Rightarrow> [] | Some c \<Rightarrow> c)
      in if requested \<noteq> [] then requested else if cut_by \<noteq> [] then cut_by else ''canceled'')"

definition cancel_reason_text :: "goerr option \<Rightarrow> string" where
  "cancel_reason_text err = (case err of None \<Rightarrow> []
     | Some _ \<Rightarrow> (case FailureInfo err of (kd, r, ok) \<Rightarrow> if ok then r else FailureReason err))"

text \<open>The record \<^verbatim>\<open>cancelOperation\<close> builds before it applies it.\<close>

definition canceled_rec :: "('s, 'm) env \<Rightarrow> run_record \<Rightarrow> step_id \<Rightarrow> string option \<Rightarrow> goerr option \<Rightarrow> gotime \<Rightarrow> run_record" where
  "canceled_rec env rec k preempted err now =
     (let op = (rec_op rec k PhaseForward)\<lparr>or_status := OpFailed\<rparr>;
          fl = \<lparr>f_step = k, f_phase = PhaseForward, f_attempt = or_attempts op,
                f_message = boundText (ev_text_limit env) (cancel_cause_text rec preempted), f_at = now,
                f_kind = FailureKindCanceled, f_reason = boundText (ev_text_limit env) (cancel_reason_text err)\<rparr>;
          rec1 = put_op k PhaseForward op rec;
          rec2 = clearLastError (rec1\<lparr>r_failure := Some fl, r_phase := PhaseUnwind, r_next_attempt_at := zero_time,
                   r_awaiting := None, r_awaited := None\<rparr>)
      in put_op k PhaseForward (op\<lparr>or_failure := Some fl, or_order := next_order rec2\<rparr>) rec2)"

definition cancelOperation :: "('s, 'm) env \<Rightarrow> run_record \<Rightarrow> step_id \<Rightarrow> string option \<Rightarrow> goerr option \<Rightarrow> duration \<Rightarrow> ('s, 'm) engine \<Rightarrow>
    bool \<times> run_record \<times> ('s, 'm) engine" where
  "cancelOperation env rec k preempted err elapsed e =
     (case Now env e of (now, e1) \<Rightarrow>
      let cause = cancel_cause_text rec preempted;
          reason = cancel_reason_text err;
          park = r_awaiting rec;
          rec1 = canceled_rec env rec k preempted err now;
          e2 = (case park of None \<Rightarrow> e1 | Some _ \<Rightarrow> snd (unpark (r_run rec) e1))
      in case apply_rec env rec1 (resolve_transition rec1 k PhaseForward (r_failure rec1)) e2 of
          (False, rec2, e3) \<Rightarrow> (False, rec2, e3)
        | (True, rec2, e3) \<Rightarrow>
           let e4 = (case park of Some pk \<Rightarrow> if aw_cancel_cascade pk then cascade env cause (aw_targets pk) e3 else e3 | None \<Rightarrow> e3);
               e5 = clearClassWait (r_run rec) e4;
               e6 = (case err of None \<Rightarrow> e5
                     | Some _ \<Rightarrow> emit (EvAttemptDone (r_run rec) k PhaseForward (or_attempts (rec_op rec2 k PhaseForward)) elapsed AttemptCanceled err 0 False) e5)
           in (True, rec2, emit (EvRunUnwinding (r_run rec) k FailureKindCanceled reason cause) e6))"

section \<open>Running an operation\<close>

definition reserved_rec :: "run_record \<Rightarrow> step_id \<Rightarrow> phase \<Rightarrow> run_record" where
  "reserved_rec rec k p = (put_op k p ((rec_op rec k p)\<lparr>or_status := OpUnresolved, or_attempts := or_attempts (rec_op rec k p) + 1\<rparr>) rec)
     \<lparr>r_next_attempt_at := zero_time\<rparr>"

text \<open>The durable reservation of an attempt, before application code runs.\<close>

definition reserve_attempt :: "('s, 'm) env \<Rightarrow> run_record \<Rightarrow> step_id \<Rightarrow> phase \<Rightarrow> ('s, 'm) engine \<Rightarrow> bool \<times> run_record \<times> ('s, 'm) engine" where
  "reserve_attempt env rec k p e =
     (case markStarted env (reserved_rec rec k p) e of (rec1, e1) \<Rightarrow>
        apply_rec env rec1 (cursor_transition rec1 k (or_attempts (rec_op rec1 k p))) e1)"

definition failure_of :: "('s, 'm) env \<Rightarrow> step_id \<Rightarrow> phase \<Rightarrow> u64 \<Rightarrow> goerr \<Rightarrow> gotime \<Rightarrow> failure_kind \<Rightarrow> string \<Rightarrow> failure" where
  "failure_of env k p attempts cause now kd reason = \<lparr>f_step = k, f_phase = p, f_attempt = attempts,
     f_message = boundText (ev_text_limit env) (error_string cause), f_at = now, f_kind = kd, f_reason = boundText (ev_text_limit env) reason\<rparr>"

text \<open>The records the three durable outcomes of an attempt build before they apply them.\<close>

definition succeeded_rec :: "run_record \<Rightarrow> step_id \<Rightarrow> phase \<Rightarrow> bytes option \<Rightarrow> run_record" where
  "succeeded_rec rec k p st =
     (let op = (rec_op rec k p)\<lparr>or_status := OpSucceeded\<rparr>;
          op1 = (if p = PhaseForward then op\<lparr>or_state := st\<rparr> else op);
          rec1 = put_op k p op1 rec
      in clearLastError ((put_op k p (op1\<lparr>or_order := next_order rec1\<rparr>) rec1)\<lparr>r_awaited := None\<rparr>))"

definition failed_forward_rec :: "run_record \<Rightarrow> step_id \<Rightarrow> failure \<Rightarrow> run_record" where
  "failed_forward_rec rec k fl =
     (let op = (rec_op rec k PhaseForward)\<lparr>or_status := OpFailed\<rparr>;
          rec1 = clearLastError ((put_op k PhaseForward op rec)\<lparr>r_failure := Some fl, r_phase := PhaseUnwind, r_awaited := None\<rparr>)
      in put_op k PhaseForward (op\<lparr>or_failure := Some fl, or_order := next_order rec1\<rparr>) rec1)"

definition failed_unwind_rec :: "run_record \<Rightarrow> step_id \<Rightarrow> failure \<Rightarrow> run_record" where
  "failed_unwind_rec rec k fl =
     (let op = (rec_op rec k PhaseUnwind)\<lparr>or_status := OpFailed, or_failure := Some fl\<rparr>;
          rec1 = put_op k PhaseUnwind op rec
      in clearLastError ((put_op k PhaseUnwind (op\<lparr>or_order := next_order rec1\<rparr>) rec1)\<lparr>r_awaited := None\<rparr>))"

text \<open>The state a successful forward attempt commits: \<open>Inl\<close> is the reason the run becomes invalid.\<close>

definition state_to_commit :: "('s, 'm) env \<Rightarrow> bool \<Rightarrow> 'm option \<Rightarrow> string + bytes option" where
  "state_to_commit env has_state st =
     (if \<not> has_state then Inr None
      else case st of
        None \<Rightarrow> Inl ''state-producing handler returned nil state with nil error''
      | Some msg \<Rightarrow>
          if \<not> pb_valid (ev_pb env) msg then Inl ''state-producing handler returned nil state with nil error''
          else (case pb_marshal (ev_pb env) msg of
              Inl merr \<Rightarrow> Inl (''cannot serialize successful state: '' @ error_string merr)
            | Inr b \<Rightarrow> Inr (Some b)))"

definition commit_success :: "('s, 'm) env \<Rightarrow> run_record \<Rightarrow> step_id \<Rightarrow> phase \<Rightarrow> bytes option \<Rightarrow> duration \<Rightarrow> ('s, 'm) engine \<Rightarrow>
    verdict \<times> run_record \<times> ('s, 'm) engine" where
  "commit_success env rec k p st elapsed e =
     (let rec1 = succeeded_rec rec k p st in
      case apply_rec env rec1 (resolve_transition rec1 k p None) e of
        (False, rec2, e1) \<Rightarrow> (Leave second True, rec2, e1)
      | (True, rec2, e1) \<Rightarrow> (Advance, rec2,
          emit (EvAttemptDone (r_run rec) k p (or_attempts (rec_op rec2 k p)) elapsed AttemptSucceeded None 0 False) e1))"

definition schedule_retry :: "('s, 'm) env \<Rightarrow> run_record \<Rightarrow> step_id \<Rightarrow> phase \<Rightarrow> goerr \<Rightarrow> gotime \<Rightarrow> duration \<Rightarrow> bool \<Rightarrow> ('s, 'm) engine \<Rightarrow>
    verdict \<times> run_record \<times> ('s, 'm) engine" where
  "schedule_retry env rec k p err now elapsed panicked e =
     (let attempts = or_attempts (rec_op rec k p) in
      case backoff env attempts e of (d, e1) \<Rightarrow>
      let rec1 = recordLastError env (rec\<lparr>r_next_attempt_at := now + d\<rparr>) err now in
      case apply_rec env rec1 (cursor_transition rec1 k attempts) e1 of
        (False, rec2, e2) \<Rightarrow> (Leave second True, rec2, e2)
      | (True, rec2, e2) \<Rightarrow> (Leave d True, rec2,
          emit (EvAttemptDone (r_run rec) k p attempts elapsed AttemptRetrying (Some err) d panicked) e2))"

definition fail_forward :: "('s, 'm) env \<Rightarrow> run_record \<Rightarrow> step_id \<Rightarrow> goerr \<Rightarrow> failure_kind \<Rightarrow> string \<Rightarrow> gotime \<Rightarrow> duration \<Rightarrow> ('s, 'm) engine \<Rightarrow>
    verdict \<times> run_record \<times> ('s, 'm) engine" where
  "fail_forward env rec k cause kd reason now elapsed e =
     (let fl = failure_of env k PhaseForward (or_attempts (rec_op rec k PhaseForward)) cause now kd reason;
          rec1 = failed_forward_rec rec k fl in
      case apply_rec env rec1 (resolve_transition rec1 k PhaseForward (r_failure rec1)) e of
        (False, rec2, e1) \<Rightarrow> (Leave second True, rec2, e1)
      | (True, rec2, e1) \<Rightarrow> (Advance, rec2,
          emit (EvRunUnwinding (r_run rec) k (f_kind fl) (f_reason fl) (f_message fl))
            (emit (EvAttemptDone (r_run rec) k PhaseForward (f_attempt fl) elapsed AttemptFailed (Some cause) 0 False) e1)))"

definition fail_unwind :: "('s, 'm) env \<Rightarrow> run_record \<Rightarrow> step_id \<Rightarrow> goerr \<Rightarrow> failure_kind \<Rightarrow> string \<Rightarrow> gotime \<Rightarrow> duration \<Rightarrow> ('s, 'm) engine \<Rightarrow>
    verdict \<times> run_record \<times> ('s, 'm) engine" where
  "fail_unwind env rec k cause kd reason now elapsed e =
     (let fl = failure_of env k PhaseUnwind (or_attempts (rec_op rec k PhaseUnwind)) cause now kd reason;
          rec1 = failed_unwind_rec rec k fl in
      case apply_rec env rec1 (resolve_transition rec1 k PhaseUnwind None) e of
        (False, rec2, e1) \<Rightarrow> (Leave second True, rec2, e1)
      | (True, rec2, e1) \<Rightarrow> (Advance, rec2,
          emit (EvAttemptDone (r_run rec) k PhaseUnwind (f_attempt fl) elapsed AttemptFailed (Some cause) 0 False) e1))"

definition interrupt_attempt :: "run_record \<Rightarrow> step_id \<Rightarrow> phase \<Rightarrow> goerr \<Rightarrow> duration \<Rightarrow> ('s, 'm) engine \<Rightarrow> verdict \<times> run_record \<times> ('s, 'm) engine" where
  "interrupt_attempt rec k p err elapsed e = (Leave 0 False, rec,
     emit (EvAttemptDone (r_run rec) k p (or_attempts (rec_op rec k p)) elapsed AttemptInterrupted (Some err) 0 False) e)"

text \<open>\<^verbatim>\<open>runForward\<close> after the handler returned.\<close>

definition resolve_forward :: "('s, 'm) env \<Rightarrow> run_record \<Rightarrow> bool \<Rightarrow> step_id \<Rightarrow> 'm attempt \<Rightarrow> gotime \<Rightarrow> ('s, 'm) engine \<Rightarrow>
    verdict \<times> run_record \<times> ('s, 'm) engine" where
  "resolve_forward env rec has_state k a opStart e =
     (case at_violation a of
        Some v \<Rightarrow> (Leave 0 False, rec, markInvalid rec k (error_string v) e)
      | None \<Rightarrow>
     (case (at_err a, at_preempted a) of
        (Some err, Some cause) \<Rightarrow>
          (case Now env e of (now, e1) \<Rightarrow>
            (case cancelOperation env rec k (Some cause) (Some err) (time_sub now opStart) e1 of
               (ok, rec1, e2) \<Rightarrow> (if ok then Advance else Leave second True, rec1, e2)))
      | _ \<Rightarrow>
     (case AwaitRequest (at_err a) of
        Some park \<Rightarrow>
          (case Now env e of (now, e1) \<Rightarrow>
             parkAwait env rec k (or_attempts (rec_op rec k PhaseForward)) park (AwaitTimeout (at_err a)) (time_sub now opStart) e1)
      | None \<Rightarrow>
     (case Now env e of (now, e1) \<Rightarrow>
       (case at_err a of
          None \<Rightarrow> (case state_to_commit env has_state (at_state a) of
              Inl reason \<Rightarrow> (Leave 0 False, rec, markInvalid rec k reason e1)
            | Inr st \<Rightarrow> commit_success env rec k PhaseForward st (time_sub now opStart) e1)
        | Some err \<Rightarrow>
            (case FailureInfo (Some err) of (kd, reason, _) \<Rightarrow>
             (case FailureCause (Some err) of
                Some cause \<Rightarrow> fail_forward env rec k cause kd reason now (time_sub now opStart) e1
              | None \<Rightarrow>
                  if at_interrupted a \<and> \<not> at_panicked a then interrupt_attempt rec k PhaseForward err (time_sub now opStart) e1
                  else schedule_retry env rec k PhaseForward err now (time_sub now opStart) (at_panicked a) e1)))))))"

definition runForward :: "('s, 'm) env \<Rightarrow> run_record \<Rightarrow> ('s, 'm) edef \<Rightarrow> (('s, 'm) handler, ('s, 'm) handler) bound_step \<Rightarrow> step_id \<Rightarrow> ('s, 'm) engine \<Rightarrow>
    verdict \<times> run_record \<times> ('s, 'm) engine" where
  "runForward env rec def sc k e =
     (case reserve_attempt env rec k PhaseForward e of
        (False, rec1, e1) \<Rightarrow> (Leave second True, rec1, e1)
      | (True, rec1, e1) \<Rightarrow>
          let iv = (invocation_of rec1 def k (or_attempts (rec_op rec1 k PhaseForward)) PhaseForward)\<lparr>inv_awaited := r_awaited rec1\<rparr>;
              (opStart, e2) = Now env e1;
              (a, e3) = invokeForward (bs_forward sc) iv e2
          in resolve_forward env rec1 (ps_has_state (bs_step sc)) k a opStart e3)"

definition resolve_unwind :: "('s, 'm) env \<Rightarrow> run_record \<Rightarrow> step_id \<Rightarrow> 'm attempt \<Rightarrow> gotime \<Rightarrow> ('s, 'm) engine \<Rightarrow>
    verdict \<times> run_record \<times> ('s, 'm) engine" where
  "resolve_unwind env rec k a opStart e =
     (case at_violation a of
        Some v \<Rightarrow> (Leave 0 False, rec, markInvalid rec k (error_string v) e)
      | None \<Rightarrow>
     (case AwaitRequest (at_err a) of
        Some park \<Rightarrow>
          (case Now env e of (now, e1) \<Rightarrow>
             parkAwait env rec k (or_attempts (rec_op rec k PhaseUnwind)) park (AwaitTimeout (at_err a)) (time_sub now opStart) e1)
      | None \<Rightarrow>
     (case Now env e of (now, e1) \<Rightarrow>
       (case at_err a of
          None \<Rightarrow> commit_success env rec k PhaseUnwind None (time_sub now opStart) e1
        | Some err \<Rightarrow>
            (case FailureInfo (Some err) of (kd, reason, _) \<Rightarrow>
             (case FailureCause (Some err) of
                Some cause \<Rightarrow> fail_unwind env rec k cause kd reason now (time_sub now opStart) e1
              | None \<Rightarrow>
                  if at_interrupted a \<and> \<not> at_panicked a then interrupt_attempt rec k PhaseUnwind err (time_sub now opStart) e1
                  else schedule_retry env rec k PhaseUnwind err now (time_sub now opStart) (at_panicked a) e1))))))"

definition runUnwind :: "('s, 'm) env \<Rightarrow> run_record \<Rightarrow> ('s, 'm) edef \<Rightarrow> (('s, 'm) handler, ('s, 'm) handler) bound_step \<Rightarrow> step_id \<Rightarrow> ('s, 'm) engine \<Rightarrow>
    verdict \<times> run_record \<times> ('s, 'm) engine" where
  "runUnwind env rec def sc k e =
     (case reserve_attempt env rec k PhaseUnwind e of
        (False, rec1, e1) \<Rightarrow> (Leave second True, rec1, e1)
      | (True, rec1, e1) \<Rightarrow>
          let iv = (invocation_of rec1 def k (or_attempts (rec_op rec1 k PhaseUnwind)) PhaseUnwind)
                     \<lparr>inv_awaited := r_awaited rec1, inv_failure := r_failure rec1\<rparr>;
              (opStart, e2) = Now env e1;
              (a, e3) = invokeUnwind (bs_unwind sc) iv e2
          in resolve_unwind env rec1 k a opStart e3)"

section \<open>The worker loop\<close>

text \<open>How one iteration ends: the worker returns, or goes on with the record it carries.\<close>

datatype iteration = Return duration bool | Carry run_record

definition of_verdict :: "verdict \<times> run_record \<times> ('s, 'm) engine \<Rightarrow> iteration \<times> ('s, 'm) engine" where
  "of_verdict x = (case x of (Advance, rec, e) \<Rightarrow> (Carry rec, e) | (Leave d again, rec, e) \<Rightarrow> (Return d again, e))"

text \<open>The gate of a concurrency class around a run function, with the release of the token it held.\<close>

definition with_class :: "('s, 'm) env \<Rightarrow> run_record \<Rightarrow> string \<Rightarrow> (('s, 'm) engine \<Rightarrow> verdict \<times> run_record \<times> ('s, 'm) engine) \<Rightarrow> ('s, 'm) engine \<Rightarrow>
    iteration \<times> ('s, 'm) engine" where
  "with_class env rec class_name run e = (case acquireClass env rec class_name e of
     ((proceed, held, waited), e1) \<Rightarrow>
       if \<not> proceed then (Return 0 False, e1)
       else let e2 = (if 0 < waited then emit (EvClassWait (r_run rec) class_name waited) e1 else e1) in
         (case run e2 of (vd, rec1, e3) \<Rightarrow> of_verdict (vd, rec1, if held then releaseClass class_name e3 else e3)))"

definition step_forward :: "('s, 'm) env \<Rightarrow> run_record \<Rightarrow> ('s, 'm) edef \<Rightarrow> step_id \<Rightarrow> ('s, 'm) engine \<Rightarrow> iteration \<times> ('s, 'm) engine" where
  "step_forward env rec def k e =
     (if e_draining e then (Return 0 False, e)
      else if r_cancel rec \<noteq> None then
        (case cancelOperation env rec k None None 0 e of
           (True, rec1, e1) \<Rightarrow> (Carry rec1, e1) | (False, rec1, e1) \<Rightarrow> (Return second True, e1))
      else case awaitGate env rec e of
        (True, rec1, e1) \<Rightarrow> (Return 0 False, e1)
      | (False, rec1, e1) \<Rightarrow> (case retryGate env rec1 e1 of
          (Some delay, e2) \<Rightarrow> (Return delay True, e2)
        | (None, e2) \<Rightarrow> (case acquireRunClass env rec1 def e2 of
            (False, e3) \<Rightarrow> (Return 0 False, e3)
          | (True, e3) \<Rightarrow> (case gm_get (bd_steps def) k of
              None \<Rightarrow> (Return 0 False, crash e3)
            | Some sc \<Rightarrow> with_class env rec1 (ps_class (bs_step sc)) (runForward env rec1 def sc k) e3))))"

definition step_unwind :: "('s, 'm) env \<Rightarrow> run_record \<Rightarrow> ('s, 'm) edef \<Rightarrow> step_id \<Rightarrow> ('s, 'm) engine \<Rightarrow> iteration \<times> ('s, 'm) engine" where
  "step_unwind env rec def k e =
     (if e_draining e then (Return 0 False, e)
      else case awaitGate env rec e of
        (True, rec1, e1) \<Rightarrow> (Return 0 False, e1)
      | (False, rec1, e1) \<Rightarrow> (case retryGate env rec1 e1 of
          (Some delay, e2) \<Rightarrow> (Return delay True, e2)
        | (None, e2) \<Rightarrow> (case gm_get (bd_steps def) k of
            None \<Rightarrow> (Return 0 False, crash e2)
          | Some sc \<Rightarrow> with_class env rec1 (ps_class (bs_step sc)) (runUnwind env rec1 def sc k) e2)))"

definition next_decision :: "('s, 'm) edef \<Rightarrow> run_record \<Rightarrow> decision option" where
  "next_decision def rec = (case r_phase rec of
     PhaseForward \<Rightarrow> Some (NextForward (bd_topo def) (factsOf rec))
   | PhaseUnwind \<Rightarrow> Some (NextUnwind (bd_topo def) (factsOf rec))
   | _ \<Rightarrow> None)"

definition unregistered_reason :: "pipeline_id \<Rightarrow> string" where
  "unregistered_reason p = ''pipeline '' @ p @ '' is not registered with the current deployment''"

definition bad_phase_reason :: "phase \<Rightarrow> string" where
  "bad_phase_reason p = ''nonterminal run in unexpected phase '' @ phase_string p"

definition reconcile :: "('s, 'm) env \<Rightarrow> run_record \<Rightarrow> ('s, 'm) engine \<Rightarrow> iteration \<times> ('s, 'm) engine" where
  "reconcile env rec e =
     (if terminal rec then (Return 0 False, awaitTargetDone (r_run rec) (notify_waiters (r_run rec) e))
      else case Get (r_pipeline rec) (ev_pipelines env) of
        None \<Rightarrow> (Return 0 False, markInvalid rec [] (unregistered_reason (r_pipeline rec)) e)
      | Some def \<Rightarrow> (case next_decision def rec of
          None \<Rightarrow> (Return 0 False, markInvalid rec [] (bad_phase_reason (r_phase rec)) e)
        | Some dec \<Rightarrow> (case d_kind dec of
            KindInvalid \<Rightarrow> (Return 0 False, markInvalid rec (d_step dec) (d_reason dec) e)
          | KindRunForward \<Rightarrow> step_forward env rec def (d_step dec) e
          | KindForwardComplete \<Rightarrow> (case reduceAndComplete env rec def e of
              (True, rec1, e1) \<Rightarrow> (Carry rec1, e1) | (False, rec1, e1) \<Rightarrow> (Return 0 False, e1))
          | KindRunUnwind \<Rightarrow> step_unwind env rec def (d_step dec) e
          | KindUnwindComplete \<Rightarrow> (case reduceFailureAndComplete env rec def e of (ok, rec1, e1) \<Rightarrow> (Return 0 False, e1)))))"

text \<open>One iteration: the stop check, the dirty mark taken before any read, the read when the mark was set or no record is carried.\<close>

definition process_step :: "('s, 'm) env \<Rightarrow> run_id \<Rightarrow> run_record option \<Rightarrow> ('s, 'm) engine \<Rightarrow> iteration \<times> ('s, 'm) engine" where
  "process_step env i carried e0 = (let e = yields env e0 in
     if e_stopped e then (Return 0 False, e)
     else case Take i (e_dirty e) of (marked, d) \<Rightarrow>
       let e1 = e\<lparr>e_dirty := d\<rparr> in
       case (if marked then None else carried) of
         Some rec \<Rightarrow> reconcile env rec e1
       | None \<Rightarrow> (case st_get env i e1 of
           (Inl err, e2) \<Rightarrow> (if err = ErrRunNotFound then Return 0 False else Return second True, e2)
         | (Inr rec, e2) \<Rightarrow> reconcile env rec e2))"

fun process_loop :: "nat \<Rightarrow> ('s, 'm) env \<Rightarrow> run_id \<Rightarrow> run_record option \<Rightarrow> ('s, 'm) engine \<Rightarrow> (duration \<times> bool \<times> ('s, 'm) engine) option" where
  "process_loop 0 env i carried e = None"
| "process_loop (Suc fuel) env i carried e = (case process_step env i carried e of
     (Return d again, e1) \<Rightarrow> Some (d, again, e1)
   | (Carry rec, e1) \<Rightarrow> process_loop fuel env i (Some rec) e1)"

definition processRun :: "nat \<Rightarrow> ('s, 'm) env \<Rightarrow> run_id \<Rightarrow> ('s, 'm) engine \<Rightarrow> (duration \<times> bool \<times> ('s, 'm) engine) option" where
  "processRun fuel env i e = process_loop fuel env i None e"

end
