(* ===== verification/Engine_Api.thy ===== *)
theory Engine_Api
  imports Engine_Run
begin

text \<open>
  The engine's construction and its public operations: options and \<^verbatim>\<open>New\<close>, \<^verbatim>\<open>Start\<close>, \<^verbatim>\<open>Stop\<close> and
  retention (\<^verbatim>\<open>src/engine/engine.go\<close>), scheduling and lookup (\<^verbatim>\<open>src/engine/pipeline.go\<close>,
  \<^verbatim>\<open>src/engine/lookup.go\<close>, \<^verbatim>\<open>src/schedule.go\<close>), the run handle (\<^verbatim>\<open>src/engine/run.go\<close>,
  \<^verbatim>\<open>src/engine/result.go\<close>) and the occupancy snapshot (\<^verbatim>\<open>src/engine/observer.go\<close>).
  A blocking call is modelled up to the point where it blocks: \<open>wait_step\<close> is one pass of the loop of
  \<^verbatim>\<open>Wait\<close>, ending in an answer or in the channel it sleeps on.
\<close>

section \<open>Configuration\<close>

record engine_config =
  ec_concurrency :: int
  ec_retry :: retry_policy
  ec_recovery_backoff :: duration
  ec_terminal_after :: duration
  ec_interval :: duration
  ec_drain_timeout :: duration
  ec_text_limit :: int
  ec_class_capacity :: "(string, int) gomap"
  ec_run_class_capacity :: "(string, int) gomap"
  ec_run_class_queue :: "(string, int) gomap"

datatype engine_option =
    WithConcurrency int
  | WithRetryPolicy retry_policy
  | WithConcurrencyClass string int
  | WithRunClass string int int
  | WithRetentionPolicy duration duration
  | WithRecoveryBackoff duration
  | WithTextLimit int
  | WithDrainTimeout duration

definition millisecond :: duration where
  "millisecond = 1000000"

definition defaultRetryPolicy :: retry_policy where
  "defaultRetryPolicy = \<lparr>rp_initial = 100 * millisecond, rp_max = 30 * second, rp_multiplier = 2\<rparr>"

definition default_config :: engine_config where
  "default_config = \<lparr>ec_concurrency = 0, ec_retry = defaultRetryPolicy, ec_recovery_backoff = 0, ec_terminal_after = 0,
     ec_interval = 0, ec_drain_timeout = 0, ec_text_limit = DefaultTextLimit, ec_class_capacity = [],
     ec_run_class_capacity = [], ec_run_class_queue = []\<rparr>"

fun apply_option :: "engine_option \<Rightarrow> engine_config \<Rightarrow> engine_config" where
  "apply_option (WithConcurrency n) c = (if 0 < n then c\<lparr>ec_concurrency := n\<rparr> else c)"
| "apply_option (WithRetryPolicy p) c = (if 0 < rp_initial p then c\<lparr>ec_retry := p\<rparr> else c)"
| "apply_option (WithConcurrencyClass name capacity) c =
     (if name \<noteq> [] \<and> 0 < capacity then c\<lparr>ec_class_capacity := gm_put name capacity (ec_class_capacity c)\<rparr> else c)"
| "apply_option (WithRunClass name capacity maxQueued) c =
     (if name \<noteq> [] \<and> 0 < capacity
      then (let c1 = c\<lparr>ec_run_class_capacity := gm_put name capacity (ec_run_class_capacity c)\<rparr> in
        if 0 < maxQueued then c1\<lparr>ec_run_class_queue := gm_put name maxQueued (ec_run_class_queue c1)\<rparr> else c1)
      else c)"
| "apply_option (WithRetentionPolicy terminalAfter interval) c =
     (if 0 < terminalAfter
      then c\<lparr>ec_terminal_after := terminalAfter, ec_interval := (if interval \<le> 0 then 600 * second else interval)\<rparr> else c)"
| "apply_option (WithRecoveryBackoff d) c = (if 0 \<le> d then c\<lparr>ec_recovery_backoff := d\<rparr> else c)"
| "apply_option (WithTextLimit n) c = (if 0 < n then c\<lparr>ec_text_limit := n\<rparr> else c)"
| "apply_option (WithDrainTimeout d) c = (if 0 < d then c\<lparr>ec_drain_timeout := d\<rparr> else c)"

definition configure :: "engine_option list \<Rightarrow> engine_config" where
  "configure opts = fold apply_option opts default_config"

text \<open>\<^verbatim>\<open>New\<close> and the dispatcher of \<^verbatim>\<open>Start\<close>; \<open>None\<close> is the panic of a negative worker budget.\<close>

definition Engine_New :: "engine_config \<Rightarrow> 's \<Rightarrow> ('s, 'm) engine option" where
  "Engine_New c s = map_option (\<lambda>d. \<lparr>e_store = s, e_tick = 0, e_pool = Tokenpool.New (ec_class_capacity c),
     e_runs = Runpool.New (ec_run_class_capacity c), e_invalid = [], e_attempts = [], e_pending_preempt = [],
     e_dirty = \<lparr>ds_marked = {}\<rparr>, e_waiters = \<lparr>wset_watchers = [], wset_next = 0, wset_closed = {}\<rparr>, e_joins = empty_jset,
     e_await_timers = [], e_timer_tasks = [], e_next_chan = 0, e_disp = d, e_stopped = False, e_draining = False,
     e_crashed = False, e_events = []\<rparr>) (Dispatcher.New (ec_concurrency c))"

section \<open>Start, stop and retention\<close>

definition seed_run :: "('s, 'm) env \<Rightarrow> run_record \<Rightarrow> ('s, 'm) engine \<Rightarrow> ('s, 'm) engine" where
  "seed_run env rec e = (let rc = runClassOf (ev_pipelines env) (r_pipeline rec) in
     if rc = [] then e
     else if is_zero (r_started_at rec)
       then e\<lparr>e_runs := snd (Admit rc (r_run rec) (eligibilityKey rec) 0 (e_runs e))\<rparr>
       else e\<lparr>e_runs := Hold rc (r_run rec) (e_runs e)\<rparr>)"

definition recover_run :: "('s, 'm) env \<Rightarrow> run_record \<Rightarrow> ('s, 'm) engine \<Rightarrow> ('s, 'm) engine" where
  "recover_run env rec e = dispatch (r_run rec) (if hasUnresolvedOp rec then ev_recovery_backoff env else 0) e"

text \<open>\<^verbatim>\<open>Start\<close> once registration is frozen: the holders are seeded before any worker is dispatched.\<close>

definition start_recovery :: "('s, 'm) env \<Rightarrow> ('s, 'm) engine \<Rightarrow> unit result \<times> ('s, 'm) engine" where
  "start_recovery env e = (case store_call env (so_list (ev_ops env)) e of
     (Inl err, e1) \<Rightarrow> (Inl err, e1)
   | (Inr recs, e1) \<Rightarrow> (Inr (), fold (recover_run env) recs (fold (seed_run env) recs e1)))"

datatype start_error = StartStarted | BothClasses string | Discovering kernel_error

text \<open>The registration side of \<^verbatim>\<open>Start\<close>: the class check, the freeze and the exclusion sets.\<close>

definition freeze_registry :: "engine_config \<Rightarrow> ('h, 'u, 'm) registry \<Rightarrow> start_error + ('h, 'u, 'm) registry" where
  "freeze_registry c r =
     (if rg_started r then Inl StartStarted
      else case checkRunClasses (ec_run_class_capacity c) (ec_class_capacity c) of
        Some name \<Rightarrow> Inl (BothClasses name)
      | None \<Rightarrow> Inr (r\<lparr>rg_started := True, rg_pipelines := resolveMutexes (Freeze (rg_pipelines r)),
          rg_step_owner := Freeze (rg_step_owner r)\<rparr>))"

definition reap_batch :: int where
  "reap_batch = 256"

text \<open>The loop of \<^verbatim>\<open>sweepRetention\<close>; a store that keeps answering full batches keeps it going, so it takes a bound.\<close>

fun sweep_loop :: "nat \<Rightarrow> ('s, 'm) env \<Rightarrow> gotime \<Rightarrow> int \<Rightarrow> ('s, 'm) engine \<Rightarrow> (int \<times> ('s, 'm) engine) option" where
  "sweep_loop 0 env cutoff acc e = None"
| "sweep_loop (Suc fuel) env cutoff acc e =
     (case store_call env (\<lambda>s. so_reap (ev_ops env) s cutoff reap_batch) e of
        (Inl err, e1) \<Rightarrow> Some (acc, e1)
      | (Inr n, e1) \<Rightarrow>
          let (acc1, e2) = (if 0 < n then (acc + n, emit (EvRunsReaped n) e1) else (acc, e1)) in
          if n < reap_batch then Some (acc1, e2) else sweep_loop fuel env cutoff acc1 e2)"

definition sweepRetention :: "nat \<Rightarrow> ('s, 'm) env \<Rightarrow> ('s, 'm) engine \<Rightarrow> (int \<times> ('s, 'm) engine) option" where
  "sweepRetention fuel env e = (case Now env e of (now, e1) \<Rightarrow> sweep_loop fuel env (now - ev_terminal_after env) 0 e1)"

text \<open>\<^verbatim>\<open>Stop\<close>: with a drain timeout the dispatch context ends first, then the base context does.\<close>

definition begin_drain :: "('s, 'm) engine \<Rightarrow> ('s, 'm) engine" where
  "begin_drain e = e\<lparr>e_draining := True, e_disp := (e_disp e)\<lparr>d_ctx_done := True\<rparr>\<rparr>"

definition cancel_base :: "('s, 'm) engine \<Rightarrow> ('s, 'm) engine" where
  "cancel_base e = e\<lparr>e_stopped := True, e_disp := (e_disp e)\<lparr>d_ctx_done := True\<rparr>\<rparr>"

definition Stop :: "engine_config \<Rightarrow> (('s, 'm) engine \<Rightarrow> ('s, 'm) engine) \<Rightarrow> ('s, 'm) engine \<Rightarrow> ('s, 'm) engine" where
  "Stop c drain e = cancel_base (if 0 < ec_drain_timeout c then drain (begin_drain e) else e)"

section \<open>Scheduling\<close>

record schedule_options =
  so_start_at :: gotime
  so_start_after :: duration
  so_annotations :: "(string, string) gomap option"

datatype schedule_option = WithAnnotations "(string, string) gomap" | StartAt gotime | StartAfter duration

fun apply_schedule_option :: "schedule_option \<Rightarrow> schedule_options \<Rightarrow> schedule_options" where
  "apply_schedule_option (WithAnnotations m) o' = o'\<lparr>so_annotations :=
     Some (fold (\<lambda>(k, v). gm_put k v) m (case so_annotations o' of None \<Rightarrow> [] | Some a \<Rightarrow> a))\<rparr>"
| "apply_schedule_option (StartAt t) o' = o'\<lparr>so_start_at := t, so_start_after := 0\<rparr>"
| "apply_schedule_option (StartAfter d) o' = o'\<lparr>so_start_at := zero_time, so_start_after := d\<rparr>"

definition schedule_options_of :: "(string, string) gomap list \<Rightarrow> schedule_option list \<Rightarrow> schedule_options" where
  "schedule_options_of annotated opts =
     fold apply_schedule_option (map WithAnnotations (filter (\<lambda>m. m \<noteq> []) annotated) @ opts)
       \<lparr>so_start_at = zero_time, so_start_after = 0, so_annotations = None\<rparr>"

datatype api_error =
    ErrNotStarted | BadResource resource_id | NilInput | CannotSerialize goerr | NoInputDeclared
  | BadAnnotation string | StoreError kernel_error | RunClassFull string int | ScheduleConflict run_id pipeline_id
  | CannotDecode run_id goerr | PipelineMismatch run_id pipeline_id pipeline_id | InvalidRun invalid_error
  | ErrRunInProgress | RunIsTerminal

definition input_bytes :: "('s, 'm) env \<Rightarrow> ('s, 'm) edef \<Rightarrow> 'm option \<Rightarrow> api_error + bytes option" where
  "input_bytes env def input = (case cf_new_input (bd_cfg def) of
     Some _ \<Rightarrow> (case input of
         None \<Rightarrow> Inl NilInput
       | Some msg \<Rightarrow> if \<not> pb_valid (ev_pb env) msg then Inl NilInput
           else (case pb_marshal (ev_pb env) msg of Inl err \<Rightarrow> Inl (CannotSerialize err) | Inr b \<Rightarrow> Inr (Some b)))
   | None \<Rightarrow> (case input of None \<Rightarrow> Inr None | Some _ \<Rightarrow> Inl NoInputDeclared))"

definition new_record :: "run_id \<Rightarrow> pipeline_id \<Rightarrow> resource_id \<Rightarrow> schedule_options \<Rightarrow> bytes option \<Rightarrow> gotime \<Rightarrow> run_record" where
  "new_record i p resource so input now = \<lparr>r_run = i, r_pipeline = p, r_resource = resource,
     r_annotations = (case so_annotations so of None \<Rightarrow> [] | Some a \<Rightarrow> a), r_input = input, r_phase = PhaseForward, r_steps = [],
     r_failure = None, r_output = None, r_outcome = None,
     r_next_attempt_at = (if \<not> is_zero (so_start_at so) then so_start_at so
                          else if 0 < so_start_after so then now + so_start_after so else zero_time),
     r_awaiting = None, r_awaited = None, r_last_error = [], r_last_reason = [], r_last_error_at = zero_time,
     r_cancel = None, r_created_at = now, r_updated_at = now, r_started_at = zero_time\<rparr>"

text \<open>The admission of a run class: \<open>Inl\<close> ends the call, \<open>Inr admitted\<close> goes on to the store.\<close>

definition admit_run :: "('s, 'm) env \<Rightarrow> ('s, 'm) edef \<Rightarrow> run_record \<Rightarrow> ('s, 'm) engine \<Rightarrow> (api_error + bool) \<times> ('s, 'm) engine" where
  "admit_run env def rec e = (let rc = cf_run_class (bd_cfg def) in
     if rc = [] then (Inr False, e)
     else let max_queued = (case gm_get (ev_run_class_queue env) rc of None \<Rightarrow> 0 | Some n \<Rightarrow> n) in
       case Admit rc (r_run rec) (eligibilityKey rec) max_queued (e_runs e) of
         (True, p) \<Rightarrow> (Inr True, e\<lparr>e_runs := p\<rparr>)
       | (False, p) \<Rightarrow> (case store_call env (\<lambda>s. so_active (ev_ops env) s (r_pipeline rec) (r_resource rec)) (e\<lparr>e_runs := p\<rparr>) of
            (Inl err, e1) \<Rightarrow> (Inl (StoreError err), e1)
          | (Inr None, e1) \<Rightarrow> (Inl (RunClassFull rc max_queued), e1)
          | (Inr (Some _), e1) \<Rightarrow> (Inr False, e1)))"

text \<open>The two corrections of the run class after the store answered.\<close>

definition settle_admission :: "('s, 'm) edef \<Rightarrow> run_record \<Rightarrow> bool \<Rightarrow> bool \<Rightarrow> ('s, 'm) engine \<Rightarrow> ('s, 'm) engine" where
  "settle_admission def rec admitted created e =
     (if admitted \<and> \<not> created
      then (case Runpool.Release (r_run rec) (e_runs e) of None \<Rightarrow> crash e | Some (kick, p) \<Rightarrow> e\<lparr>e_runs := p\<rparr>)
      else if cf_run_class (bd_cfg def) \<noteq> [] \<and> \<not> admitted \<and> created
        then e\<lparr>e_runs := snd (Admit (cf_run_class (bd_cfg def)) (r_run rec) (eligibilityKey rec) 0 (e_runs e))\<rparr>
      else e)"

definition answer_existing :: "('s, 'm) env \<Rightarrow> ('s, 'm) edef \<Rightarrow> 'm option \<Rightarrow> run_record \<Rightarrow> api_error + run_id \<times> bool" where
  "answer_existing env def input existing =
     (if r_pipeline existing \<noteq> cf_id (bd_cfg def) then Inl (ScheduleConflict (r_run existing) (r_pipeline existing))
      else case (cf_new_input (bd_cfg def), input) of
        (Some new, Some msg) \<Rightarrow> (case pb_unmarshal (ev_pb env) new (r_input existing) of
            Inl err \<Rightarrow> Inl (CannotDecode (r_run existing) err)
          | Inr old \<Rightarrow> if pb_equal (ev_pb env) old msg then Inr (r_run existing, False)
              else Inl (ScheduleConflict (r_run existing) (r_pipeline existing)))
      | _ \<Rightarrow> Inr (r_run existing, False))"

definition Schedule :: "('s, 'm) env \<Rightarrow> bool \<Rightarrow> ('s, 'm) edef \<Rightarrow> resource_id \<Rightarrow> 'm option \<Rightarrow> (string, string) gomap list \<Rightarrow> schedule_option list \<Rightarrow>
    ('s, 'm) engine \<Rightarrow> (api_error + run_id \<times> bool) \<times> ('s, 'm) engine" where
  "Schedule env started def resource input annotated opts e =
     (if \<not> started then (Inl ErrNotStarted, e)
      else if invalidID resource then (Inl (BadResource resource), e)
      else case input_bytes env def input of
        Inl err \<Rightarrow> (Inl err, e)
      | Inr ib \<Rightarrow>
        let so = schedule_options_of annotated opts in
        case find (\<lambda>(k, v). \<not> valid_utf8 k \<or> \<not> valid_utf8 v) (case so_annotations so of None \<Rightarrow> [] | Some a \<Rightarrow> a) of
          Some (k, v) \<Rightarrow> (Inl (BadAnnotation k), e)
        | None \<Rightarrow> (case Now env e of (now, e1) \<Rightarrow>
          let rec = new_record (ev_new_run_id env (e_tick e1) (max now unix_epoch)) (cf_id (bd_cfg def)) resource so ib now in
          case admit_run env def rec (tick e1) of
            (Inl err, e2) \<Rightarrow> (Inl err, e2)
          | (Inr admitted, e2) \<Rightarrow>
            (case store_call env (\<lambda>s. so_create (ev_ops env) s rec (bd_excludes def)) e2 of
               (Inl err, e3) \<Rightarrow> (Inl (StoreError err), settle_admission def rec admitted False e3)
             | (Inr (existing, created), e3) \<Rightarrow>
                 let e4 = settle_admission def rec admitted created e3 in
                 if created then (Inr (r_run rec, True),
                     dispatch (r_run rec) 0 (emit (EvRunScheduled (r_run rec) (r_next_attempt_at rec) (r_annotations rec)) e4))
                 else (case existing of
                     None \<Rightarrow> (Inl (StoreError (GoPanic ''nil record'')), crash e4)
                   | Some ex \<Rightarrow> (answer_existing env def input ex, e4)))))"

section \<open>Lookup and the run handle\<close>

definition Engine_GetRun :: "('s, 'm) env \<Rightarrow> run_id \<Rightarrow> ('s, 'm) engine \<Rightarrow> (api_error + run_id) \<times> ('s, 'm) engine" where
  "Engine_GetRun env i e = (case st_head env i e of
     (Inl err, e1) \<Rightarrow> (Inl (StoreError err), e1) | (Inr _, e1) \<Rightarrow> (Inr i, e1))"

definition Pipeline_GetRun :: "('s, 'm) env \<Rightarrow> ('s, 'm) edef \<Rightarrow> run_id \<Rightarrow> ('s, 'm) engine \<Rightarrow> (api_error + run_id) \<times> ('s, 'm) engine" where
  "Pipeline_GetRun env def i e = (case st_head env i e of
     (Inl err, e1) \<Rightarrow> (Inl (StoreError err), e1)
   | (Inr rec, e1) \<Rightarrow> (if r_pipeline rec \<noteq> cf_id (bd_cfg def)
        then Inl (PipelineMismatch i (cf_id (bd_cfg def)) (r_pipeline rec)) else Inr i, e1))"

definition GetActiveRun :: "('s, 'm) env \<Rightarrow> ('s, 'm) edef \<Rightarrow> resource_id \<Rightarrow> ('s, 'm) engine \<Rightarrow> (api_error + run_id option) \<times> ('s, 'm) engine" where
  "GetActiveRun env def resource e = (case store_call env (\<lambda>s. so_active (ev_ops env) s (cf_id (bd_cfg def)) resource) e of
     (Inl err, e1) \<Rightarrow> (Inl (StoreError err), e1) | (Inr i, e1) \<Rightarrow> (Inr i, e1))"

record run_result =
  rr_outcome :: outcome
  rr_failure :: "failure option"

definition resultOf :: "run_record \<Rightarrow> run_result" where
  "resultOf rec = \<lparr>rr_outcome = (case r_outcome rec of None \<Rightarrow> OutcomeNone | Some oc \<Rightarrow> oc), rr_failure = r_failure rec\<rparr>"

definition Succeeded :: "run_result \<Rightarrow> bool" where
  "Succeeded r \<longleftrightarrow> rr_outcome r = OutcomeSuccess"

definition Failed :: "run_result \<Rightarrow> bool" where
  "Failed r \<longleftrightarrow> rr_outcome r = OutcomeFailure"

definition Canceled :: "run_result \<Rightarrow> bool" where
  "Canceled r \<longleftrightarrow> (case rr_failure r of None \<Rightarrow> False | Some f \<Rightarrow> f_kind f = FailureKindCanceled)"

datatype wait_answer = WaitResult run_result | WaitError api_error | WaitBlocks nat

definition drop_watch :: "run_id \<Rightarrow> nat \<Rightarrow> ('s, 'm) engine \<Rightarrow> ('s, 'm) engine" where
  "drop_watch i ch e = e\<lparr>e_waiters := watch_cancel i ch (e_waiters e)\<rparr>"

definition wait_step :: "('s, 'm) env \<Rightarrow> bool \<Rightarrow> run_id \<Rightarrow> ('s, 'm) engine \<Rightarrow> wait_answer \<times> ('s, 'm) engine" where
  "wait_step env in_attempt i e = (case Watch i (e_waiters e) of (ch, w) \<Rightarrow>
     case st_head env i (e\<lparr>e_waiters := w\<rparr>) of
       (Inl err, e1) \<Rightarrow> (WaitError (StoreError err), drop_watch i ch e1)
     | (Inr rec, e1) \<Rightarrow>
         if terminal rec then (WaitResult (resultOf rec), drop_watch i ch e1)
         else (case invalidFor i e1 of
             Some ie \<Rightarrow> (WaitError (InvalidRun ie), drop_watch i ch e1)
           | None \<Rightarrow> if in_attempt then (WaitError ErrRunInProgress, drop_watch i ch e1) else (WaitBlocks ch, e1)))"

definition Cancel :: "('s, 'm) env \<Rightarrow> bool \<Rightarrow> run_id \<Rightarrow> string \<Rightarrow> ('s, 'm) engine \<Rightarrow> (api_error + unit) \<times> ('s, 'm) engine" where
  "Cancel env started i cause e = (if \<not> started then (Inl ErrNotStarted, e)
     else case requestCancel env i cause e of (Inl err, e1) \<Rightarrow> (Inl (StoreError err), e1) | (Inr _, e1) \<Rightarrow> (Inr (), e1))"

datatype run_state = RunStateRunnable | RunStateRunning | RunStateWaitingRetry | RunStateScheduled | RunStateAwaiting
  | RunStateThrottled | RunStateQueued | RunStateInvalid | RunStateDone

fun run_state_string :: "run_state \<Rightarrow> string" where
  "run_state_string RunStateRunnable = ''runnable''"
| "run_state_string RunStateRunning = ''running''"
| "run_state_string RunStateWaitingRetry = ''waiting-retry''"
| "run_state_string RunStateScheduled = ''scheduled''"
| "run_state_string RunStateAwaiting = ''awaiting''"
| "run_state_string RunStateThrottled = ''throttled''"
| "run_state_string RunStateQueued = ''queued''"
| "run_state_string RunStateInvalid = ''invalid''"
| "run_state_string RunStateDone = ''done''"

record status =
  st_pipeline :: pipeline_id
  st_resource :: resource_id
  st_run :: run_id
  st_phase :: phase
  st_state :: run_state
  st_step :: step_id
  st_attempt :: u64
  st_next_attempt_at :: gotime
  st_last_error :: string
  st_last_reason :: string
  st_last_error_at :: gotime
  st_outcome :: "outcome option"
  st_failure :: "failure option"
  st_invalid_reason :: string
  st_cancel_requested :: bool
  st_cancel_cause :: string
  st_awaiting_ids :: "run_id list"
  st_await_mode :: await_mode
  st_await_deadline :: gotime
  st_throttled_class :: string
  st_queued_class :: string
  st_started_at :: gotime

text \<open>The loop over the head's steps: the last unresolved operation visited wins, unwind over forward in one step.\<close>

definition current_op :: "step_id \<times> step_record \<Rightarrow> step_id \<times> u64 \<Rightarrow> step_id \<times> u64" where
  "current_op ksr cur = (case ksr of (k, sr) \<Rightarrow>
     let c1 = (if or_status (sr_forward sr) = OpUnresolved then (k, or_attempts (sr_forward sr)) else cur)
     in if or_status (sr_unwind sr) = OpUnresolved then (k, or_attempts (sr_unwind sr)) else c1)"

definition head_status :: "run_record \<Rightarrow> status" where
  "head_status rec = (let (k, n) = fold current_op (r_steps rec) ([], 0) in
     \<lparr>st_pipeline = r_pipeline rec, st_resource = r_resource rec, st_run = r_run rec, st_phase = r_phase rec, st_state = RunStateRunnable,
      st_step = k, st_attempt = n, st_next_attempt_at = zero_time, st_last_error = r_last_error rec, st_last_reason = r_last_reason rec,
      st_last_error_at = r_last_error_at rec, st_outcome = None, st_failure = r_failure rec, st_invalid_reason = [],
      st_cancel_requested = (r_cancel rec \<noteq> None), st_cancel_cause = (case r_cancel rec of None \<Rightarrow> [] | Some c \<Rightarrow> cr_cause c),
      st_awaiting_ids = [], st_await_mode = AwaitModeNone, st_await_deadline = zero_time, st_throttled_class = [], st_queued_class = [],
      st_started_at = r_started_at rec\<rparr>)"

text \<open>The order of the cases of \<^verbatim>\<open>Status\<close> for a nonterminal run: invalid, queued, awaiting, throttled, delayed, running, runnable.\<close>

definition nonterminal_status :: "('s, 'm) env \<Rightarrow> run_id \<Rightarrow> run_record \<Rightarrow> ('s, 'm) engine \<Rightarrow> status \<times> ('s, 'm) engine" where
  "nonterminal_status env i rec e = (let st = head_status rec in
     case invalidFor i e of Some ie \<Rightarrow> (st\<lparr>st_state := RunStateInvalid, st_invalid_reason := ie_reason ie\<rparr>, e)
   | None \<Rightarrow> (case Runpool.ParkedOn i (e_runs e) of Some c \<Rightarrow> (st\<lparr>st_state := RunStateQueued, st_queued_class := c\<rparr>, e)
   | None \<Rightarrow> (case (r_awaiting rec, r_cancel rec) of
       (Some park, None) \<Rightarrow> (st\<lparr>st_state := RunStateAwaiting, st_awaiting_ids := aw_targets park, st_await_mode := aw_mode park,
          st_await_deadline := aw_deadline park\<rparr>, e)
     | _ \<Rightarrow> (case Tokenpool.ParkedOn i (e_pool e) of Some c \<Rightarrow> (st\<lparr>st_state := RunStateThrottled, st_throttled_class := c\<rparr>, e)
   | None \<Rightarrow> (let (delayed, e1) = (if is_zero (r_next_attempt_at rec) then (False, e)
                    else case Now env e of (now, e1) \<Rightarrow> (now < r_next_attempt_at rec, e1)) in
       if delayed then (st\<lparr>st_state := (if \<not> is_zero (r_started_at rec) then RunStateWaitingRetry else RunStateScheduled),
                           st_next_attempt_at := r_next_attempt_at rec\<rparr>, e1)
       else if IsActive i (e_disp e1) then (st\<lparr>st_state := RunStateRunning\<rparr>, e1)
       else (st, e1))))))"

definition Status :: "('s, 'm) env \<Rightarrow> run_id \<Rightarrow> ('s, 'm) engine \<Rightarrow> (api_error + status) \<times> ('s, 'm) engine" where
  "Status env i e = (case st_head env i e of
     (Inl err, e1) \<Rightarrow> (Inl (StoreError err), e1)
   | (Inr rec, e1) \<Rightarrow>
       if terminal rec then (Inr ((head_status rec)\<lparr>st_state := RunStateDone, st_outcome := r_outcome rec\<rparr>), e1)
       else (case nonterminal_status env i rec e1 of (st, e2) \<Rightarrow> (Inr st, e2)))"

definition Run_Annotations :: "('s, 'm) env \<Rightarrow> run_id \<Rightarrow> ('s, 'm) engine \<Rightarrow> (api_error + (string, string) gomap option) \<times> ('s, 'm) engine" where
  "Run_Annotations env i e = (case st_head env i e of
     (Inl err, e1) \<Rightarrow> (Inl (StoreError err), e1)
   | (Inr rec, e1) \<Rightarrow> (Inr (if r_annotations rec = [] then None else Some (r_annotations rec)), e1))"

definition InputBytes :: "('s, 'm) env \<Rightarrow> run_id \<Rightarrow> ('s, 'm) engine \<Rightarrow> (api_error + bytes option) \<times> ('s, 'm) engine" where
  "InputBytes env i e = (case st_get env i e of
     (Inl err, e1) \<Rightarrow> (Inl (StoreError err), e1)
   | (Inr rec, e1) \<Rightarrow> (if terminal rec then Inl RunIsTerminal else Inr (r_input rec), e1))"

definition OutputBytes :: "('s, 'm) env \<Rightarrow> run_id \<Rightarrow> ('s, 'm) engine \<Rightarrow> (api_error + bytes option) \<times> ('s, 'm) engine" where
  "OutputBytes env i e = (case st_get env i e of
     (Inl err, e1) \<Rightarrow> (Inl (StoreError err), e1) | (Inr rec, e1) \<Rightarrow> (Inr (r_output rec), e1))"

section \<open>Occupancy\<close>

record engine_stats =
  es_active :: nat
  es_delayed :: nat
  es_awaiting :: nat
  es_invalid :: nat
  es_throttled :: int
  es_queued :: int
  es_classes :: "(string, tusage) gomap"
  es_run_classes :: "(string, rusage) gomap"

definition Stats :: "('s, 'm) engine \<Rightarrow> engine_stats" where
  "Stats e = \<lparr>es_active = Active (e_disp e), es_delayed = Delayed (e_disp e), es_awaiting = Len (e_joins e),
     es_invalid = length (e_invalid e),
     es_throttled = fold (\<lambda>(k, u) a. a + tu_waiting u) (Tokenpool.Snapshot (e_pool e)) 0,
     es_queued = fold (\<lambda>(k, u) a. a + ru_waiting u) (Runpool.Snapshot (e_runs e)) 0,
     es_classes = Tokenpool.Snapshot (e_pool e), es_run_classes = Runpool.Snapshot (e_runs e)\<rparr>"

end
