(* ===== verification/Otel.thy ===== *)
theory Otel
  imports Observer Engine_Api
begin

text \<open>
  The OpenTelemetry adapter (\<^verbatim>\<open>src/contrib/durableotel\<close>): its options, the middleware that wraps every attempt in a span, the
  annotator that carries the scheduling trace into a run, the observer that turns events into metrics, the gauges of the
  engine's occupancy and the log handler. The OpenTelemetry library is a parameter: a record of the propagators and of what the
  adapter reads from a context \<open>'c\<close>. What the adapter tells the library is a value: a span with its events, a
  list of measurements. A duration is recorded in nanoseconds, where the code divides by a second.

  The lemmas show that the middleware is transparent, that the metrics are the documented ones with the values of the
  events they report, and that no metric depends on the identity of a run or a resource.
\<close>

section \<open>The library\<close>

type_synonym carrier = "(string, string) gomap"

record 'c propagator =
  pg_inject :: "'c \<Rightarrow> carrier \<Rightarrow> carrier"
  pg_extract :: "'c \<Rightarrow> carrier \<Rightarrow> 'c"

record ('c, 'sc) otel_lib =
  ol_trace_context :: "'c propagator"
  ol_baggage :: "'c propagator"
  ol_composite :: "'c propagator \<Rightarrow> 'c propagator \<Rightarrow> 'c propagator"
  ol_span_context :: "'c \<Rightarrow> 'sc"
  ol_valid :: "'sc \<Rightarrow> bool"
  ol_members :: "'c \<Rightarrow> (string \<times> string) list"
  ol_member :: "'c \<Rightarrow> string \<Rightarrow> string \<times> string"
  ol_ids :: "'sc \<Rightarrow> string \<times> string \<times> string"

datatype attr_value = AString string | ABool bool | AInt int | AStrings "string list"

type_synonym attr = "string \<times> attr_value"

section \<open>Attribute keys\<close>

definition AttrPipeline :: string where "AttrPipeline = ''durable.pipeline''"
definition AttrResource :: string where "AttrResource = ''durable.resource''"
definition AttrRunID :: string where "AttrRunID = ''durable.run_id''"
definition AttrStep :: string where "AttrStep = ''durable.step''"
definition AttrPhase :: string where "AttrPhase = ''durable.phase''"
definition AttrAttempt :: string where "AttrAttempt = ''durable.attempt''"
definition AttrResult :: string where "AttrResult = ''durable.result''"
definition AttrOutcome :: string where "AttrOutcome = ''durable.outcome''"
definition AttrFailureKind :: string where "AttrFailureKind = ''durable.failure_kind''"
definition AttrReason :: string where "AttrReason = ''durable.reason''"
definition AttrRunFailureStep :: string where "AttrRunFailureStep = ''durable.run_failure.step''"
definition AttrRunFailureKind :: string where "AttrRunFailureKind = ''durable.run_failure.kind''"
definition AttrRunFailureReason :: string where "AttrRunFailureReason = ''durable.run_failure.reason''"
definition AttrClass :: string where "AttrClass = ''durable.class''"
definition AttrClassScope :: string where "AttrClassScope = ''durable.class.scope''"
definition AttrAwaitTargets :: string where "AttrAwaitTargets = ''durable.await_targets''"
definition AttrAwaitMode :: string where "AttrAwaitMode = ''durable.await_mode''"
definition AttrPanicked :: string where "AttrPanicked = ''durable.panicked''"
definition AttrStoreOp :: string where "AttrStoreOp = ''durable.store.op''"
definition AttrStoreWrite :: string where "AttrStoreWrite = ''durable.store.write''"
definition AttrError :: string where "AttrError = ''durable.error''"

lemmas attr_keys = AttrPipeline_def AttrResource_def AttrRunID_def AttrStep_def AttrPhase_def AttrAttempt_def AttrResult_def
  AttrOutcome_def AttrFailureKind_def AttrReason_def AttrRunFailureStep_def AttrRunFailureKind_def AttrRunFailureReason_def
  AttrClass_def AttrClassScope_def AttrAwaitTargets_def AttrAwaitMode_def AttrPanicked_def AttrStoreOp_def AttrStoreWrite_def
  AttrError_def

section \<open>Options\<close>

record ('c, 'tp, 'mp) otel_config =
  oc_tracer_provider :: 'tp
  oc_meter_provider :: 'mp
  oc_propagator :: "'c propagator"
  oc_span_annotations :: "string list"
  oc_baggage :: bool
  oc_span_baggage :: "string list"
  oc_span_baggage_all :: bool

datatype ('c, 'tp, 'mp) otel_option =
    WithTracerProvider "'tp option"
  | WithMeterProvider "'mp option"
  | WithPropagator "'c propagator option"
  | WithBaggagePropagation
  | WithSpanBaggage "string list"
  | WithSpanAnnotations "string list"

fun apply_otel_option :: "('c, 'tp, 'mp) otel_option \<Rightarrow> ('c, 'tp, 'mp) otel_config \<Rightarrow> ('c, 'tp, 'mp) otel_config" where
  "apply_otel_option (WithTracerProvider tp) c = (case tp of None \<Rightarrow> c | Some p \<Rightarrow> c\<lparr>oc_tracer_provider := p\<rparr>)"
| "apply_otel_option (WithMeterProvider mp) c = (case mp of None \<Rightarrow> c | Some p \<Rightarrow> c\<lparr>oc_meter_provider := p\<rparr>)"
| "apply_otel_option (WithPropagator pr) c = (case pr of None \<Rightarrow> c | Some p \<Rightarrow> c\<lparr>oc_propagator := p\<rparr>)"
| "apply_otel_option WithBaggagePropagation c = c\<lparr>oc_baggage := True\<rparr>"
| "apply_otel_option (WithSpanBaggage keys) c = (if length keys = 0 then c\<lparr>oc_span_baggage_all := True\<rparr>
     else c\<lparr>oc_span_baggage := oc_span_baggage c @ filter (\<lambda>k. k \<noteq> []) keys\<rparr>)"
| "apply_otel_option (WithSpanAnnotations keys) c = c\<lparr>oc_span_annotations := oc_span_annotations c @ filter (\<lambda>k. k \<noteq> []) keys\<rparr>"

text \<open>\<^verbatim>\<open>newConfig\<close>, over the global providers.\<close>

definition newConfig :: "('c, 'sc) otel_lib \<Rightarrow> 'tp \<Rightarrow> 'mp \<Rightarrow> ('c, 'tp, 'mp) otel_option list \<Rightarrow> ('c, 'tp, 'mp) otel_config" where
  "newConfig lib tp mp opts = (let cfg = fold apply_otel_option opts \<lparr>oc_tracer_provider = tp, oc_meter_provider = mp,
       oc_propagator = ol_trace_context lib, oc_span_annotations = [], oc_baggage = False, oc_span_baggage = [], oc_span_baggage_all = False\<rparr>
     in if oc_baggage cfg then cfg\<lparr>oc_propagator := ol_composite lib (oc_propagator cfg) (ol_baggage lib)\<rparr> else cfg)"

section \<open>Carrying the trace into a run\<close>

definition otel_inject :: "'c \<Rightarrow> ('c, 'tp, 'mp) otel_config \<Rightarrow> carrier" where
  "otel_inject ctx cfg = pg_inject (oc_propagator cfg) ctx []"

definition Annotator :: "('c, 'tp, 'mp) otel_config \<Rightarrow> 'c \<Rightarrow> (string, string) gomap" where
  "Annotator cfg = (\<lambda>ctx. otel_inject ctx cfg)"

section \<open>Spans\<close>

datatype span_event =
    SetAttributes "attr list"
  | RecordError goerr bool
  | SetStatus string
  | SpanEnd

record 'sc span =
  sp_name :: string
  sp_attrs :: "attr list"
  sp_link :: "'sc option"
  sp_events :: "span_event list"

datatype panic_value = PanicError goerr | PanicOther string

datatype 'm attempt_end = AttemptReturns "'m option" "goerr option" | AttemptPanics panic_value

text \<open>A handler acts on the application's state \<open>'s\<close>.\<close>

type_synonym ('c, 'm, 's) traced_handler = "'c \<Rightarrow> 'm invocation \<Rightarrow> 's \<Rightarrow> 'm attempt_end \<times> 's"

definition failure_attrs :: "'m invocation \<Rightarrow> attr list" where
  "failure_attrs iv = (case inv_failure iv of None \<Rightarrow> []
     | Some f \<Rightarrow> [(AttrRunFailureStep, AString (f_step f)), (AttrRunFailureKind, AString (failure_kind_string (f_kind f)))] @
         (if f_reason f \<noteq> [] then [(AttrRunFailureReason, AString (f_reason f))] else []))"

definition annotation_attrs :: "('c, 'tp, 'mp) otel_config \<Rightarrow> (string, string) gomap \<Rightarrow> attr list" where
  "annotation_attrs cfg annotations = concat (map (\<lambda>k. case gm_get annotations k of None \<Rightarrow> [] | Some x \<Rightarrow> [(k, AString x)]) (oc_span_annotations cfg))"

definition baggage_attrs :: "('c, 'sc) otel_lib \<Rightarrow> ('c, 'tp, 'mp) otel_config \<Rightarrow> 'c \<Rightarrow> attr list" where
  "baggage_attrs lib cfg ctx =
     (if oc_span_baggage_all cfg then map (\<lambda>(k, x). (k, AString x)) (ol_members lib ctx)
      else if 0 < length (oc_span_baggage cfg) then
        concat (map (\<lambda>k. case ol_member lib ctx k of (k', x) \<Rightarrow> if k' \<noteq> [] then [(k', AString x)] else []) (oc_span_baggage cfg))
      else [])"

definition attempt_attrs :: "'m invocation \<Rightarrow> attr list" where
  "attempt_attrs iv = [(AttrPipeline, AString (inv_pipeline iv)), (AttrResource, AString (inv_resource iv)), (AttrRunID, AString (inv_run iv)),
     (AttrStep, AString (inv_step iv)), (AttrPhase, AString (phase_string (inv_phase iv))), (AttrAttempt, AInt (sint (inv_attempt iv)))]"

definition annotations_of :: "'m invocation \<Rightarrow> (string, string) gomap" where
  "annotations_of iv = (case inv_Annotations iv of None \<Rightarrow> [] | Some m \<Rightarrow> m)"

text \<open>What the deferred recover and the code after the handler tell the span.\<close>

definition end_events :: "'m attempt_end \<Rightarrow> span_event list" where
  "end_events r = (case r of
     AttemptPanics p \<Rightarrow> [SetAttributes [(AttrPanicked, ABool True)],
       RecordError (case p of PanicError e \<Rightarrow> e | PanicOther s \<Rightarrow> GoErr (''handler panic: '' @ s) None None []) True, SetStatus ''handler panic'']
   | AttemptReturns out None \<Rightarrow> []
   | AttemptReturns out (Some err) \<Rightarrow> (case AwaitRequest (Some err) of
       Some park \<Rightarrow> [SetAttributes [(AttrAwaitTargets, AStrings (aw_targets park)), (AttrAwaitMode, AString (await_mode_string (aw_mode park)))]]
     | None \<Rightarrow> [RecordError err False, SetStatus (error_string err)] @
         (case FailureInfo (Some err) of (kind, reason, ok) \<Rightarrow> if \<not> ok then []
            else SetAttributes [(AttrFailureKind, AString (failure_kind_string kind))] #
              (if reason \<noteq> [] then [SetAttributes [(AttrReason, AString reason)]] else []))))"

text \<open>The wrapped handler; \<open>start\<close> is the tracer's, which puts a new span into the context.\<close>

definition Middleware :: "('c, 'sc) otel_lib \<Rightarrow> ('tp \<Rightarrow> string \<Rightarrow> attr list \<Rightarrow> 'sc option \<Rightarrow> 'c \<Rightarrow> 'c) \<Rightarrow> ('c, 'tp, 'mp) otel_config \<Rightarrow>
    ('c, 'm, 's) traced_handler \<Rightarrow> 'c \<Rightarrow> 'm invocation \<Rightarrow> 's \<Rightarrow> ('m attempt_end \<times> 's) \<times> 'sc span" where
  "Middleware lib start cfg next ctx iv s = (let
     annotations = annotations_of iv;
     ctx1 = pg_extract (oc_propagator cfg) ctx annotations;
     origin = ol_span_context lib ctx1;
     attrs = attempt_attrs iv @ failure_attrs iv @ annotation_attrs cfg annotations @ baggage_attrs lib cfg ctx1;
     link = (if ol_valid lib origin then Some origin else None);
     name = inv_step iv @ '' '' @ phase_string (inv_phase iv);
     ctx2 = start (oc_tracer_provider cfg) name attrs link ctx1
   in case next ctx2 iv s of (r, s') \<Rightarrow>
     ((r, s'), \<lparr>sp_name = name, sp_attrs = attrs, sp_link = link, sp_events = end_events r @ [SpanEnd]\<rparr>))"

section \<open>Metrics\<close>

text \<open>The boundaries of the histograms, in seconds.\<close>

definition attemptBoundaries :: "rat list" where
  "attemptBoundaries = [5 / 1000, 25 / 1000, 1 / 10, 5 / 10, 1, 25 / 10, 5, 10, 30, 60, 150, 300, 600, 1200]"

definition runBoundaries :: "rat list" where
  "runBoundaries = [1 / 10, 5 / 10, 1, 5, 15, 60, 300, 900, 3600, 14400, 43200, 86400]"

definition storeBoundaries :: "rat list" where
  "storeBoundaries = [5 / 10000, 1 / 1000, 25 / 10000, 5 / 1000, 1 / 100, 25 / 1000, 5 / 100, 1 / 10, 25 / 100, 5 / 10, 1, 25 / 10]"

text \<open>The instruments, in the order they are made; a histogram has boundaries.\<close>

definition instruments :: "(string \<times> rat list option) list" where
  "instruments = [(''durable.runs.scheduled'', None), (''durable.attempts'', None), (''durable.attempt.duration'', Some attemptBoundaries),
     (''durable.runs.unwinding'', None), (''durable.runs.terminal'', None), (''durable.run.duration'', Some runBoundaries),
     (''durable.runs.invalidated'', None), (''durable.await.duration'', Some runBoundaries),
     (''durable.class.wait.duration'', Some attemptBoundaries), (''durable.runs.reaped'', None),
     (''durable.store.op.duration'', Some storeBoundaries)]"

datatype measurement = Added string int "attr list" | Recorded string duration "attr list"

fun measured :: "measurement \<Rightarrow> attr list" where
  "measured (Added name n labels) = labels"
| "measured (Recorded name d labels) = labels"

definition kind_string :: "failure_kind option \<Rightarrow> string" where
  "kind_string k = (case k of None \<Rightarrow> ''system'' | Some f \<Rightarrow> failure_kind_string f)"

definition on_run_scheduled :: "run_event \<Rightarrow> measurement list" where
  "on_run_scheduled ev = [Added ''durable.runs.scheduled'' 1 [(AttrPipeline, AString (re_pipeline ev))]]"

definition on_attempt_done :: "attempt_event \<Rightarrow> measurement list" where
  "on_attempt_done ev = (let labels = [(AttrPipeline, AString (ae_pipeline ev)), (AttrStep, AString (ae_step ev)),
       (AttrPhase, AString (phase_string (ae_phase ev))), (AttrResult, AString (attempt_result_string (ae_result ev))),
       (AttrPanicked, ABool (ae_panicked ev))]
     in [Added ''durable.attempts'' 1 labels, Recorded ''durable.attempt.duration'' (ae_duration ev) labels])"

definition on_run_unwinding :: "run_failure_event \<Rightarrow> measurement list" where
  "on_run_unwinding ev = [Added ''durable.runs.unwinding'' 1 [(AttrPipeline, AString (fe_pipeline ev)),
     (AttrFailureKind, AString (kind_string (fe_kind ev))), (AttrReason, AString (fe_reason ev))]]"

definition on_run_terminal :: "run_terminal_event \<Rightarrow> measurement list" where
  "on_run_terminal ev = (let attrs = [(AttrPipeline, AString (te_pipeline ev)), (AttrOutcome, AString (outcome_string (te_outcome ev)))] in
     [Added ''durable.runs.terminal'' 1 (attrs @ (if te_outcome ev = OutcomeFailure
        then [(AttrFailureKind, AString (kind_string (te_kind ev))), (AttrReason, AString (te_reason ev))] else [])),
      Recorded ''durable.run.duration'' (te_duration ev) attrs])"

definition on_run_invalid :: "run_failure_event \<Rightarrow> measurement list" where
  "on_run_invalid ev = [Added ''durable.runs.invalidated'' 1 [(AttrPipeline, AString (fe_pipeline ev)), (AttrReason, AString (fe_reason ev))]]"

definition on_waiter_woken :: "wake_event \<Rightarrow> measurement list" where
  "on_waiter_woken ev = [Recorded ''durable.await.duration'' (we_duration ev) [(AttrPipeline, AString (we_pipeline ev))]]"

definition on_class_wait :: "class_wait_event \<Rightarrow> measurement list" where
  "on_class_wait ev = [Recorded ''durable.class.wait.duration'' (ce_duration ev)
     [(AttrClass, AString (ce_class ev)), (AttrClassScope, AString (class_scope_string (ce_scope ev)))]]"

definition on_runs_reaped :: "int \<Rightarrow> measurement list" where
  "on_runs_reaped n = [Added ''durable.runs.reaped'' n []]"

definition on_store_op :: "store_op_event \<Rightarrow> measurement list" where
  "on_store_op ev = [Recorded ''durable.store.op.duration'' (se_duration ev)
     [(AttrStoreOp, AString (se_op ev)), (AttrStoreWrite, ABool (se_write ev)), (AttrError, ABool (se_err ev \<noteq> None))]]"

definition recording :: "('e \<Rightarrow> measurement list) \<Rightarrow> (measurement list, 'e) callback option" where
  "recording f = Some (\<lambda>ev out. (out @ f ev, None))"

text \<open>\<^verbatim>\<open>NewObserver\<close>; \<open>mk\<close> is the meter's error for an instrument, joined over all of them.\<close>

definition NewObserver :: "(string \<Rightarrow> goerr option) \<Rightarrow> goerr list + measurement list observer" where
  "NewObserver mk = (let errs = List.map_filter mk (map fst instruments) in
     if errs \<noteq> [] then Inl errs
     else Inr \<lparr>ob_run_scheduled = recording on_run_scheduled, ob_attempt_done = recording on_attempt_done,
       ob_run_unwinding = recording on_run_unwinding, ob_run_terminal = recording on_run_terminal, ob_run_invalid = recording on_run_invalid,
       ob_waiter_woken = recording on_waiter_woken, ob_class_wait = recording on_class_wait, ob_runs_reaped = recording on_runs_reaped,
       ob_store_op = recording on_store_op\<rparr>)"

text \<open>What the callback of \<^verbatim>\<open>RegisterStats\<close> observes.\<close>

definition stats_observations :: "engine_stats \<Rightarrow> (string \<times> int \<times> attr list) list" where
  "stats_observations st = [(''durable.engine.runs.active'', int (es_active st), []), (''durable.engine.runs.awaiting'', int (es_awaiting st), []),
     (''durable.engine.runs.throttled'', es_throttled st, []), (''durable.engine.runs.delayed'', int (es_delayed st), []),
     (''durable.engine.runs.invalid'', int (es_invalid st), []), (''durable.engine.runs.queued'', es_queued st, [])] @
     concat (map (\<lambda>(name, cs). [(''durable.engine.class.capacity'', tu_capacity cs, [(AttrClass, AString name)]),
        (''durable.engine.class.in_use'', tu_inUse cs, [(AttrClass, AString name)]),
        (''durable.engine.class.waiting'', tu_waiting cs, [(AttrClass, AString name)])]) (es_classes st)) @
     concat (map (\<lambda>(name, rs). [(''durable.engine.run_class.capacity'', ru_capacity rs, [(AttrClass, AString name)]),
        (''durable.engine.run_class.in_use'', ru_inUse rs, [(AttrClass, AString name)]),
        (''durable.engine.run_class.waiting'', ru_waiting rs, [(AttrClass, AString name)]),
        (''durable.engine.run_class.queued'', ru_pending rs, [(AttrClass, AString name)])]) (es_run_classes st))"

section \<open>Logs\<close>

text \<open>The log handler: the attributes a record gets before the inner handler sees it.\<close>

definition log_Handle :: "('c, 'sc) otel_lib \<Rightarrow> ((string \<times> string) list \<Rightarrow> 'r) \<Rightarrow> 'c \<Rightarrow> (string \<times> string) list \<Rightarrow> 'r" where
  "log_Handle lib inner ctx rec = (let sc = ol_span_context lib ctx in
     if ol_valid lib sc then (case ol_ids lib sc of (tid, sid, flags) \<Rightarrow>
       inner (rec @ [(''trace_id'', tid), (''span_id'', sid), (''trace_flags'', flags)]))
     else inner rec)"

section \<open>What telemetry cannot do\<close>

text \<open>The events an engine emits, to one observer.\<close>

datatype telemetry =
    TRunScheduled run_event | TAttemptDone attempt_event | TRunUnwinding run_failure_event | TRunTerminal run_terminal_event
  | TRunInvalid run_failure_event | TWaiterWoken wake_event | TClassWait class_wait_event | TRunsReaped int | TStoreOp store_op_event

fun deliver :: "'a observer \<Rightarrow> telemetry \<Rightarrow> 'a app \<Rightarrow> 'a ended" where
  "deliver x (TRunScheduled ev) = emit_to (ob_run_scheduled x) ev"
| "deliver x (TAttemptDone ev) = emit_to (ob_attempt_done x) ev"
| "deliver x (TRunUnwinding ev) = emit_to (ob_run_unwinding x) ev"
| "deliver x (TRunTerminal ev) = emit_to (ob_run_terminal x) ev"
| "deliver x (TRunInvalid ev) = emit_to (ob_run_invalid x) ev"
| "deliver x (TWaiterWoken ev) = emit_to (ob_waiter_woken x) ev"
| "deliver x (TClassWait ev) = emit_to (ob_class_wait x) ev"
| "deliver x (TRunsReaped n) = emit_to (ob_runs_reaped x) n"
| "deliver x (TStoreOp ev) = emit_to (ob_store_op x) ev"

text \<open>The events in the order they happen; a panic that got out of a callback would end the engine's goroutine.\<close>

fun deliver_all :: "'a observer \<Rightarrow> telemetry list \<Rightarrow> 'a app \<Rightarrow> 'a ended" where
  "deliver_all x [] st = (st, None)"
| "deliver_all x (ev # evs) st = (case deliver x ev st of (st1, None) \<Rightarrow> deliver_all x evs st1 | (st1, Some p) \<Rightarrow> (st1, Some p))"

fun measurements :: "telemetry \<Rightarrow> measurement list" where
  "measurements (TRunScheduled ev) = on_run_scheduled ev"
| "measurements (TAttemptDone ev) = on_attempt_done ev"
| "measurements (TRunUnwinding ev) = on_run_unwinding ev"
| "measurements (TRunTerminal ev) = on_run_terminal ev"
| "measurements (TRunInvalid ev) = on_run_invalid ev"
| "measurements (TWaiterWoken ev) = on_waiter_woken ev"
| "measurements (TClassWait ev) = on_class_wait ev"
| "measurements (TRunsReaped n) = on_runs_reaped n"
| "measurements (TStoreOp ev) = on_store_op ev"

lemmas on_event_defs = on_run_scheduled_def on_attempt_done_def on_run_unwinding_def on_run_terminal_def on_run_invalid_def
  on_waiter_woken_def on_class_wait_def on_runs_reaped_def on_store_op_def

lemma NewObserver_delivers:
  "NewObserver mk = Inr x \<Longrightarrow> deliver x ev (out, panics) = ((out @ measurements ev, panics), None)"
  by (cases ev) (auto simp: NewObserver_def Let_def recording_def emit_to_eq split: if_splits)

lemma NewObserver_delivers_all:
  assumes "NewObserver mk = Inr x"
  shows "deliver_all x evs (out, panics) = ((out @ concat (map measurements evs), panics), None)"
  by (induction evs arbitrary: out) (simp_all add: NewObserver_delivers [OF assms])

section \<open>The documented metrics\<close>

text \<open>What an event says, the identities of its run included.\<close>

fun facts :: "telemetry \<Rightarrow> attr list" where
  "facts (TRunScheduled ev) = [(''durable.pipeline'', AString (re_pipeline ev)), (''durable.resource'', AString (re_resource ev)),
     (''durable.run_id'', AString (re_run ev))]"
| "facts (TAttemptDone ev) = [(''durable.pipeline'', AString (ae_pipeline ev)), (''durable.resource'', AString (ae_resource ev)),
     (''durable.run_id'', AString (ae_run ev)), (''durable.step'', AString (ae_step ev)), (''durable.phase'', AString (phase_string (ae_phase ev))),
     (''durable.attempt'', AInt (sint (ae_attempt ev))), (''durable.result'', AString (attempt_result_string (ae_result ev))),
     (''durable.panicked'', ABool (ae_panicked ev))]"
| "facts (TRunUnwinding ev) = [(''durable.pipeline'', AString (fe_pipeline ev)), (''durable.resource'', AString (fe_resource ev)),
     (''durable.run_id'', AString (fe_run ev)), (''durable.step'', AString (fe_step ev)),
     (''durable.failure_kind'', AString (kind_string (fe_kind ev))), (''durable.reason'', AString (fe_reason ev))]"
| "facts (TRunTerminal ev) = [(''durable.pipeline'', AString (te_pipeline ev)), (''durable.resource'', AString (te_resource ev)),
     (''durable.run_id'', AString (te_run ev)), (''durable.outcome'', AString (outcome_string (te_outcome ev))),
     (''durable.failure_kind'', AString (kind_string (te_kind ev))), (''durable.reason'', AString (te_reason ev))]"
| "facts (TRunInvalid ev) = [(''durable.pipeline'', AString (fe_pipeline ev)), (''durable.resource'', AString (fe_resource ev)),
     (''durable.run_id'', AString (fe_run ev)), (''durable.step'', AString (fe_step ev)),
     (''durable.failure_kind'', AString (kind_string (fe_kind ev))), (''durable.reason'', AString (fe_reason ev))]"
| "facts (TWaiterWoken ev) = [(''durable.pipeline'', AString (we_pipeline ev)), (''durable.resource'', AString (we_resource ev)),
     (''durable.run_id'', AString (we_run ev))]"
| "facts (TClassWait ev) = [(''durable.pipeline'', AString (ce_pipeline ev)), (''durable.resource'', AString (ce_resource ev)),
     (''durable.run_id'', AString (ce_run ev)), (''durable.class'', AString (ce_class ev)), (''durable.class.scope'', AString (class_scope_string (ce_scope ev)))]"
| "facts (TRunsReaped n) = []"
| "facts (TStoreOp ev) = [(''durable.store.op'', AString (se_op ev)), (''durable.store.write'', ABool (se_write ev)),
     (''durable.error'', ABool (se_err ev \<noteq> None))]"

text \<open>How much there is to count, and the time there is to record.\<close>

definition counted :: "telemetry \<Rightarrow> int" where
  "counted ev = (case ev of TRunsReaped n \<Rightarrow> n | _ \<Rightarrow> 1)"

definition lasted :: "telemetry \<Rightarrow> duration" where
  "lasted ev = (case ev of TAttemptDone a \<Rightarrow> ae_duration a | TRunTerminal t \<Rightarrow> te_duration t | TWaiterWoken w \<Rightarrow> we_duration w
     | TClassWait c \<Rightarrow> ce_duration c | TStoreOp x \<Rightarrow> se_duration x | _ \<Rightarrow> 0)"

text \<open>
  The table in the comment of \<^verbatim>\<open>NewObserver\<close>: the instruments an event goes to, whether each counts, and its
  labels. (The comment leaves out the scope of a class wait, which is a finding.)
\<close>

definition documented :: "telemetry \<Rightarrow> (string \<times> bool \<times> string list) list" where
  "documented ev = (case ev of
     TRunScheduled e \<Rightarrow> [(''durable.runs.scheduled'', True, [''durable.pipeline''])]
   | TAttemptDone e \<Rightarrow>
       [(''durable.attempts'', True, [''durable.pipeline'', ''durable.step'', ''durable.phase'', ''durable.result'', ''durable.panicked'']),
        (''durable.attempt.duration'', False, [''durable.pipeline'', ''durable.step'', ''durable.phase'', ''durable.result'', ''durable.panicked''])]
   | TRunUnwinding e \<Rightarrow> [(''durable.runs.unwinding'', True, [''durable.pipeline'', ''durable.failure_kind'', ''durable.reason''])]
   | TRunTerminal e \<Rightarrow>
       [(''durable.runs.terminal'', True, [''durable.pipeline'', ''durable.outcome''] @
           (if te_outcome e = OutcomeFailure then [''durable.failure_kind'', ''durable.reason''] else [])),
        (''durable.run.duration'', False, [''durable.pipeline'', ''durable.outcome''])]
   | TRunInvalid e \<Rightarrow> [(''durable.runs.invalidated'', True, [''durable.pipeline'', ''durable.reason''])]
   | TWaiterWoken e \<Rightarrow> [(''durable.await.duration'', False, [''durable.pipeline''])]
   | TClassWait e \<Rightarrow> [(''durable.class.wait.duration'', False, [''durable.class'', ''durable.class.scope''])]
   | TRunsReaped n \<Rightarrow> [(''durable.runs.reaped'', True, [])]
   | TStoreOp e \<Rightarrow> [(''durable.store.op.duration'', False, [''durable.store.op'', ''durable.store.write'', ''durable.error''])])"

text \<open>A measurement as the table has it: each label has the value the event has for it.\<close>

definition as_documented :: "telemetry \<Rightarrow> string \<times> bool \<times> string list \<Rightarrow> measurement \<Rightarrow> bool" where
  "as_documented ev d m \<longleftrightarrow> (case d of (name, counts, keys) \<Rightarrow>
     (if counts then \<exists>labels. m = Added name (counted ev) labels else \<exists>labels. m = Recorded name (lasted ev) labels) \<and>
     map_of instruments name \<noteq> None \<and> (map_of instruments name = Some None) = counts \<and>
     map fst (measured m) = keys \<and> list_all (\<lambda>(k, x). map_of (facts ev) k = Some x) (measured m))"

text \<open>The same event of another run on another resource.\<close>

fun of_other :: "(run_id \<Rightarrow> run_id) \<Rightarrow> (resource_id \<Rightarrow> resource_id) \<Rightarrow> telemetry \<Rightarrow> telemetry" where
  "of_other f g (TRunScheduled ev) = TRunScheduled (ev\<lparr>re_run := f (re_run ev), re_resource := g (re_resource ev)\<rparr>)"
| "of_other f g (TAttemptDone ev) = TAttemptDone (ev\<lparr>ae_run := f (ae_run ev), ae_resource := g (ae_resource ev)\<rparr>)"
| "of_other f g (TRunUnwinding ev) = TRunUnwinding (ev\<lparr>fe_run := f (fe_run ev), fe_resource := g (fe_resource ev)\<rparr>)"
| "of_other f g (TRunTerminal ev) = TRunTerminal (ev\<lparr>te_run := f (te_run ev), te_resource := g (te_resource ev)\<rparr>)"
| "of_other f g (TRunInvalid ev) = TRunInvalid (ev\<lparr>fe_run := f (fe_run ev), fe_resource := g (fe_resource ev)\<rparr>)"
| "of_other f g (TWaiterWoken ev) = TWaiterWoken (ev\<lparr>we_run := f (we_run ev), we_resource := g (we_resource ev),
     we_targets := map f (we_targets ev), we_done := map f (we_done ev)\<rparr>)"
| "of_other f g (TClassWait ev) = TClassWait (ev\<lparr>ce_run := f (ce_run ev), ce_resource := g (ce_resource ev)\<rparr>)"
| "of_other f g (TRunsReaped n) = TRunsReaped n"
| "of_other f g (TStoreOp ev) = TStoreOp ev"

lemma measurements_documented: "list_all2 (as_documented ev) (documented ev) (measurements ev)"
  by (cases ev) (auto simp: documented_def on_event_defs Let_def as_documented_def counted_def lasted_def attr_keys instruments_def)

lemma measurements_of_other: "measurements (of_other f g ev) = measurements ev"
  by (cases ev) (simp_all add: on_event_defs Let_def)

lemma documented_bounded:
  "list_all (\<lambda>(name, counts, keys). list_all (\<lambda>k. k \<noteq> ''durable.run_id'' \<and> k \<noteq> ''durable.resource'') keys \<and> distinct keys) (documented ev)"
  by (cases ev) (simp_all add: documented_def)

text \<open>The boundaries of every histogram increase, which the library asks for.\<close>

lemma boundaries_increase: "list_all (\<lambda>(name, bs). case bs of None \<Rightarrow> True | Some xs \<Rightarrow> sorted_wrt (<) xs) instruments"
  by (simp add: instruments_def attemptBoundaries_def runBoundaries_def storeBoundaries_def)

text \<open>The inner call is the handler's own, in a context with the attempt's span, and its end is passed on.\<close>

lemma Middleware_calls:
  "\<exists>ctx'. fst (Middleware lib start cfg next ctx iv s) = next ctx' iv s"
  by (simp add: Middleware_def Let_def case_prod_unfold) blast

lemma Middleware_span:
  "sp_events (snd (Middleware lib start cfg next ctx iv s)) = end_events (fst (fst (Middleware lib start cfg next ctx iv s))) @ [SpanEnd]"
  by (simp add: Middleware_def Let_def split: prod.splits)

lemma end_events_open: "SpanEnd \<notin> set (end_events r)"
  by (auto simp: end_events_def split: attempt_end.split option.split prod.split)

definition status_error :: "span_event \<Rightarrow> bool" where
  "status_error e \<longleftrightarrow> (case e of SetStatus m \<Rightarrow> True | _ \<Rightarrow> False)"

definition attempt_failed :: "'m attempt_end \<Rightarrow> bool" where
  "attempt_failed r \<longleftrightarrow> (case r of AttemptPanics p \<Rightarrow> True | AttemptReturns out err \<Rightarrow> err \<noteq> None \<and> AwaitRequest err = None)"

lemma end_events_status: "list_ex status_error (end_events r) = attempt_failed r"
  by (auto simp: end_events_def attempt_failed_def status_error_def split: attempt_end.split option.split prod.split)

text \<open>Options: baggage composes with the propagator in either order, and no empty key is looked up.\<close>

lemma baggage_order:
  "oc_propagator (newConfig lib tp mp [WithBaggagePropagation, WithPropagator (Some p)]) =
   oc_propagator (newConfig lib tp mp [WithPropagator (Some p), WithBaggagePropagation])"
  by (simp add: newConfig_def Let_def)

lemma apply_otel_option_keys:
  "[] \<notin> set (oc_span_annotations c @ oc_span_baggage c) \<Longrightarrow> [] \<notin> set (oc_span_annotations (apply_otel_option x c) @ oc_span_baggage (apply_otel_option x c))"
  by (cases x) (auto split: option.split)

lemma fold_otel_option_keys:
  "[] \<notin> set (oc_span_annotations c @ oc_span_baggage c) \<Longrightarrow>
    [] \<notin> set (oc_span_annotations (fold apply_otel_option opts c) @ oc_span_baggage (fold apply_otel_option opts c))"
proof (induction opts arbitrary: c)
  case (Cons x opts)
  then show ?case using Cons.IH [OF apply_otel_option_keys [OF Cons.prems]] by simp
qed simp

lemma newConfig_keys: "[] \<notin> set (oc_span_annotations (newConfig lib tp mp opts) @ oc_span_baggage (newConfig lib tp mp opts))"
  unfolding newConfig_def Let_def
  by (split if_split) (simp add: fold_otel_option_keys [simplified])

section \<open>Properties\<close>



text \<open>
  The tracing middleware is transparent: the handler is called once, with the invocation as it is, and what it
  returns or panics with is what the middleware returns or panics with. Its span ends once, after everything else, and has the
  error status exactly when the handler panicked or returned an error that does not park.
\<close>

theorem otel_middleware_transparent:
  "\<exists>ctx' r s' span. next ctx' iv s = (r, s') \<and> Middleware lib start cfg next ctx iv s = ((r, s'), span) \<and>
    (\<exists>events. sp_events span = events @ [SpanEnd] \<and> SpanEnd \<notin> set events \<and> (list_ex status_error events \<longleftrightarrow> attempt_failed r))"
proof -
  obtain r s' span where m: "Middleware lib start cfg next ctx iv s = ((r, s'), span)" by (metis prod.collapse)
  obtain ctx' where c: "next ctx' iv s = (r, s')" using Middleware_calls [of lib start cfg "next" ctx iv s] m by auto
  have "sp_events span = end_events r @ [SpanEnd]" using Middleware_span [of lib start cfg "next" ctx iv s] m by simp
  then show ?thesis using m c end_events_open end_events_status by blast
qed

end
