(* ===== verification/Perf.thy ===== *)
theory Perf
  imports Prelude Registry "HOL-Library.Log_Nat" Complex_Main
begin

text \<open>
  The performance gate (\<^verbatim>\<open>internal/perfcompare/main.go\<close>): the classes its metric units fall into, the
  reading of two outputs of \<^verbatim>\<open>go test -bench\<close>, the estimates and the paired ratios, the verdict of
  each metric, the rows of the printed table and the exit code. A \<^verbatim>\<open>float64\<close> is a rational, an
  infinity or not a number, and every operation rounds its exact result to the nearest of the 53-bit
  values, ties to even; the sign of a zero is not kept, since the code divides by no zero. The
  number a field of a line stands for (\<^verbatim>\<open>strconv.ParseFloat\<close>) and the contents of a file are parameters. A table is
  its rows; how \<^verbatim>\<open>fmt\<close> writes a number in a row is not modelled.
\<close>

section \<open>Floating point\<close>

datatype f64 = NaN | Infinite bool | Finite rat

definition pow2 :: "int \<Rightarrow> rat" where
  "pow2 e = (if 0 \<le> e then 2 ^ nat e else 1 / 2 ^ nat (- e))"

text \<open>The exponent of the highest bit of a positive rational.\<close>

definition high_bit :: "rat \<Rightarrow> int" where
  "high_bit q = (case quotient_of q of (n, d) \<Rightarrow>
     let k = int (floorlog 2 (nat n)) - int (floorlog 2 (nat d)) in if pow2 k \<le> q then k else k - 1)"

definition half_even :: "rat \<Rightarrow> int" where
  "half_even q = (let f = \<lfloor>q\<rfloor>; d = q - of_int f
     in if d < 1 / 2 \<or> d = 1 / 2 \<and> even f then f else f + 1)"

definition round64 :: "rat \<Rightarrow> f64" where
  "round64 q = (if q = 0 then Finite 0
     else let e = max (high_bit \<bar>q\<bar> - 52) (- 1074);
              v = of_int (half_even (\<bar>q\<bar> / pow2 e)) * pow2 e
          in if 2 ^ 1024 \<le> v then Infinite (q < 0) else Finite (if q < 0 then - v else v))"

fun f_lt :: "f64 \<Rightarrow> f64 \<Rightarrow> bool" where
  "f_lt (Finite x) (Finite y) \<longleftrightarrow> x < y"
| "f_lt (Finite x) (Infinite n) \<longleftrightarrow> \<not> n"
| "f_lt (Infinite n) (Finite y) \<longleftrightarrow> n"
| "f_lt (Infinite m) (Infinite n) \<longleftrightarrow> m \<and> \<not> n"
| "f_lt NaN y \<longleftrightarrow> False"
| "f_lt x NaN \<longleftrightarrow> False"

definition f_nonzero :: "f64 \<Rightarrow> bool" where
  "f_nonzero x \<longleftrightarrow> x \<noteq> Finite 0"

fun f_sub :: "f64 \<Rightarrow> f64 \<Rightarrow> f64" where
  "f_sub (Finite x) (Finite y) = round64 (x - y)"
| "f_sub (Finite x) (Infinite n) = Infinite (\<not> n)"
| "f_sub (Infinite n) (Finite y) = Infinite n"
| "f_sub (Infinite m) (Infinite n) = (if m = n then NaN else Infinite m)"
| "f_sub NaN y = NaN"
| "f_sub x NaN = NaN"

fun f_div :: "f64 \<Rightarrow> f64 \<Rightarrow> f64" where
  "f_div (Finite x) (Finite y) = (if y = 0 then (if x = 0 then NaN else Infinite (x < 0)) else round64 (x / y))"
| "f_div (Finite x) (Infinite n) = Finite 0"
| "f_div (Infinite n) (Finite y) = Infinite (n \<noteq> (y < 0))"
| "f_div (Infinite m) (Infinite n) = NaN"
| "f_div NaN y = NaN"
| "f_div x NaN = NaN"

fun f_neg :: "f64 \<Rightarrow> f64" where
  "f_neg (Finite x) = Finite (- x)"
| "f_neg (Infinite n) = Infinite (\<not> n)"
| "f_neg NaN = NaN"

fun f_abs :: "f64 \<Rightarrow> f64" where
  "f_abs (Finite x) = Finite \<bar>x\<bar>"
| "f_abs (Infinite n) = Infinite False"
| "f_abs NaN = NaN"

text \<open>\<^verbatim>\<open>sort.Float64s\<close> puts what is not a number first.\<close>

definition f_before :: "f64 \<Rightarrow> f64 \<Rightarrow> bool" where
  "f_before x y \<longleftrightarrow> f_lt x y \<or> x = NaN \<and> y \<noteq> NaN"

fun f_insert :: "f64 \<Rightarrow> f64 list \<Rightarrow> f64 list" where
  "f_insert x [] = [x]"
| "f_insert x (y # ys) = (if f_before y x then y # f_insert x ys else x # y # ys)"

definition Float64s :: "f64 list \<Rightarrow> f64 list" where
  "Float64s xs = foldr f_insert xs []"

section \<open>Metric classes\<close>

record perf_class =
  threshold :: f64
  lowerIsBad :: bool
  twoSided :: bool
  informative :: bool
  bestOf :: bool
  pairedThreshold :: f64
  wall :: bool
  hardThreshold :: f64

definition no_class :: perf_class where
  "no_class = \<lparr>threshold = Finite 0, lowerIsBad = False, twoSided = False, informative = False, bestOf = False,
     pairedThreshold = Finite 0, wall = False, hardThreshold = Finite 0\<rparr>"

definition classify :: "string \<Rightarrow> perf_class" where
  "classify unit =
    (if unit \<in> {''transitions/run'', ''transitions/cycle''} then no_class\<lparr>threshold := round64 (1 / 1000), twoSided := True\<rparr>
     else if unit \<in> {''diskB/run'', ''diskB/attempt'', ''diskB/cycle''} then no_class\<lparr>threshold := round64 (15 / 100), bestOf := True\<rparr>
     else if unit \<in> {''B/op'', ''allocs/op''} then no_class\<lparr>threshold := round64 (10 / 100)\<rparr>
     else if unit = ''reads/child'' then no_class\<lparr>threshold := round64 (50 / 100), bestOf := True\<rparr>
     else if unit \<in> {''ns/op'', ''p50-ms'', ''p99-ms'', ''start-ms'', ''wake-p50-ms''} then
       no_class\<lparr>threshold := round64 1, pairedThreshold := round64 1, bestOf := True, wall := True, hardThreshold := round64 4\<rparr>
     else if unit \<in> {''runs/sec'', ''unwinds/sec'', ''cycles/sec'', ''polls/sec''} then
       no_class\<lparr>threshold := round64 (50 / 100), pairedThreshold := round64 (50 / 100), lowerIsBad := True, bestOf := True, wall := True,
         hardThreshold := round64 (80 / 100)\<rparr>
     else no_class\<lparr>informative := True\<rparr>)"

section \<open>Reading a benchmark output\<close>

type_synonym samples = "(string, (string, f64 list) gomap) gomap"

datatype perf_error = Unreadable | LineTooLong | RecordedFailures "string list" | NoResults

text \<open>
  \<^verbatim>\<open>bufio.Scanner\<close>: the lines of a text without their end of line, one carriage return before it
  included; a line that fills the buffer of 1 MiB is an error.
\<close>

definition cut_return :: "string \<Rightarrow> string" where
  "cut_return l = (if l \<noteq> [] \<and> last l = CHR 0x0D then butlast l else l)"

fun raw_lines :: "string \<Rightarrow> string \<Rightarrow> string list" where
  "raw_lines acc [] = (if acc = [] then [] else [acc])"
| "raw_lines acc (c # s) = (if c = CHR 0x0A then acc # raw_lines [] s else raw_lines (acc @ [c]) s)"

definition scan_lines :: "string \<Rightarrow> perf_error + string list" where
  "scan_lines s = (let ls = raw_lines [] s in
     if list_ex (\<lambda>l. 2 ^ 20 \<le> length l) ls then Inl LineTooLong else Inr (map cut_return ls))"

text \<open>\<^verbatim>\<open>strings.Fields\<close>: the words between white space runes.\<close>

function fields_of :: "string \<Rightarrow> string \<Rightarrow> string list" where
  "fields_of acc [] = (if acc = [] then [] else [acc])"
| "fields_of acc (c # s) = (let w = space_width (c # s) in
     if w = 0 then fields_of (acc @ [c]) s
     else (if acc = [] then [] else [acc]) @ fields_of [] (drop w (c # s)))"
  by pat_completeness auto
termination
proof (relation "measure (\<lambda>(acc, s). length s)", goal_cases)
  case (3 acc c s w)
  then show ?case using space_cut [of "c # s"] by (simp only: in_measure prod.case not_False_eq_True)
qed simp_all

definition HasPrefix :: "string \<Rightarrow> string \<Rightarrow> bool" where
  "HasPrefix s p \<longleftrightarrow> take (length p) s = p"

definition add_sample :: "string \<Rightarrow> string \<Rightarrow> f64 \<Rightarrow> samples \<Rightarrow> samples" where
  "add_sample name unit v out =
    (let us = (case gm_get out name of None \<Rightarrow> [] | Some us \<Rightarrow> us);
         vs = (case gm_get us unit of None \<Rightarrow> [] | Some vs \<Rightarrow> vs)
     in gm_put name (gm_put unit (vs @ [v]) us) out)"

fun add_fields :: "(string \<Rightarrow> f64 option) \<Rightarrow> string \<Rightarrow> string list \<Rightarrow> samples \<Rightarrow> samples" where
  "add_fields pf name (v # unit # rest) out =
     add_fields pf name rest (case pf v of None \<Rightarrow> out | Some x \<Rightarrow> add_sample name unit x out)"
| "add_fields pf name _ out = out"

definition failure_line :: "string \<Rightarrow> bool" where
  "failure_line line \<longleftrightarrow> HasPrefix (TrimSpace line) ''--- FAIL: '' \<or> HasPrefix (TrimSpace line) ''panic: '' \<or> HasPrefix line ''FAIL''"

definition parse_line :: "(string \<Rightarrow> f64 option) \<Rightarrow> string \<Rightarrow> samples \<times> string list \<Rightarrow> samples \<times> string list" where
  "parse_line pf line = (\<lambda>(out, failures).
     if failure_line line then (out, if length failures < 20 then failures @ [TrimSpace line] else failures)
     else let fields = fields_of [] line in
       if length fields < 4 \<or> \<not> HasPrefix (hd fields) ''Benchmark'' then (out, failures)
       else (add_fields pf (takeWhile (\<lambda>c. c \<noteq> CHR ''-'') (hd fields)) (drop 2 fields) out, failures))"

definition perf_parse :: "(string \<Rightarrow> f64 option) \<Rightarrow> string option \<Rightarrow> perf_error + samples \<times> string list" where
  "perf_parse pf file = (case file of None \<Rightarrow> Inl Unreadable
     | Some s \<Rightarrow> (case scan_lines s of Inl e \<Rightarrow> Inl e | Inr ls \<Rightarrow> Inr (fold (parse_line pf) ls ([], []))))"

definition parseComplete :: "(string \<Rightarrow> f64 option) \<Rightarrow> string option \<Rightarrow> perf_error + samples" where
  "parseComplete pf file = (case perf_parse pf file of Inl e \<Rightarrow> Inl e
     | Inr (s, failures) \<Rightarrow> if failures \<noteq> [] then Inl (RecordedFailures failures)
         else if s = [] then Inl NoResults else Inr s)"

section \<open>Estimates and verdicts\<close>

text \<open>\<^verbatim>\<open>median\<close> and \<^verbatim>\<open>estimate\<close> read an element of their samples: \<open>parse_ok\<close> below shows that there is one.\<close>

definition median :: "f64 list \<Rightarrow> f64" where
  "median vs = Float64s vs ! (length vs div 2)"

definition estimate :: "f64 list \<Rightarrow> perf_class \<Rightarrow> f64" where
  "estimate vs c = (if \<not> bestOf c then median vs
     else foldl (\<lambda>best v. if f_lt v best \<noteq> lowerIsBad c then v else best) (vs ! 0) (tl vs))"

definition slice_ratio :: "f64 \<Rightarrow> f64 \<Rightarrow> f64" where
  "slice_ratio h b = (if f_nonzero b then f_sub (f_div h b) (round64 1)
     else if f_nonzero h then Infinite False else Finite 0)"

definition pairedDelta :: "f64 list \<Rightarrow> f64 list \<Rightarrow> f64" where
  "pairedDelta hs bs = median (map (\<lambda>(h, b). slice_ratio h b) (zip hs bs))"

definition metricDelta :: "f64 list \<Rightarrow> f64 list \<Rightarrow> perf_class \<Rightarrow> f64 \<times> f64" where
  "metricDelta hs bs c =
    (if f_lt (Finite 0) (pairedThreshold c) \<and> length hs = length bs \<and> 1 < length hs then (pairedDelta hs bs, pairedThreshold c)
     else let h = estimate hs c; o' = estimate bs c in
       (if f_nonzero o' then f_div (f_sub h o') o' else if f_nonzero h then Infinite False else Finite 0, threshold c))"

definition badBeyond :: "f64 \<Rightarrow> f64 \<Rightarrow> perf_class \<Rightarrow> bool" where
  "badBeyond delta limit c = (if lowerIsBad c then f_lt limit (f_neg delta) else f_lt limit delta)"

definition sample_at :: "samples \<Rightarrow> string \<Rightarrow> string \<Rightarrow> f64 list option" where
  "sample_at s b u = (case gm_get s b of None \<Rightarrow> None | Some us \<Rightarrow> gm_get us u)"

definition moved :: "f64 list \<Rightarrow> f64 list \<Rightarrow> perf_class \<Rightarrow> bool" where
  "moved hs bs c = (let delta = fst (metricDelta hs bs c) in
     if twoSided c then f_lt (threshold c) (f_abs delta) else badBeyond delta (f_div (threshold c) (round64 2)) c)"

definition units_of :: "samples \<Rightarrow> string \<Rightarrow> (string, f64 list) gomap" where
  "units_of s b = (case gm_get s b of None \<Rightarrow> [] | Some us \<Rightarrow> us)"

definition corroborated :: "string \<Rightarrow> samples \<Rightarrow> samples \<Rightarrow> bool" where
  "corroborated b base head = list_ex (\<lambda>(u, hs). let c = classify u in
     \<not> wall c \<and> \<not> informative c \<and> (case sample_at base b u of None \<Rightarrow> False | Some bs \<Rightarrow> moved hs bs c)) (units_of head b)"

datatype verdict = Passed | Info | Regression f64 | Blowup f64 | Waived

definition verdict_of :: "bool \<Rightarrow> perf_class \<Rightarrow> f64 \<Rightarrow> f64 \<Rightarrow> verdict" where
  "verdict_of corr c delta limit =
    (if informative c then Info
     else if twoSided c \<and> f_lt limit (f_abs delta) then Regression limit
     else if wall c \<and> badBeyond delta limit c then
       (if corr then Regression limit
        else if badBeyond delta (hardThreshold c) c then Blowup (hardThreshold c) else Waived)
     else if \<not> wall c \<and> badBeyond delta limit c then Regression limit
     else Passed)"

section \<open>The table and the exit code\<close>

datatype perf_row =
    NewRow string string f64
  | Row string string f64 f64 f64 verdict
  | MissingInfo string string f64
  | MissingRow string string f64
  | GoneInfo string
  | GoneRow string

definition sortedKeys :: "(string, 'v) gomap \<Rightarrow> string list" where
  "sortedKeys m = sort (map fst m)"

definition metric_row :: "samples \<Rightarrow> bool \<Rightarrow> string \<Rightarrow> string \<Rightarrow> f64 list \<Rightarrow> perf_row" where
  "metric_row base corr b u hs = (let c = classify u in
     case sample_at base b u of None \<Rightarrow> NewRow b u (estimate hs c)
     | Some bs \<Rightarrow> (case metricDelta hs bs c of (delta, limit) \<Rightarrow>
         Row b u (estimate bs c) (estimate hs c) delta (verdict_of corr c delta limit)))"

definition missing_row :: "bool \<Rightarrow> string \<Rightarrow> string \<Rightarrow> f64 list \<Rightarrow> perf_row" where
  "missing_row allow b u bs = (if informative (classify u) \<or> allow then MissingInfo b u (median bs) else MissingRow b u (median bs))"

definition benchmark_rows :: "bool \<Rightarrow> samples \<Rightarrow> samples \<Rightarrow> string \<Rightarrow> perf_row list" where
  "benchmark_rows allow base head b = (let corr = corroborated b base head in
     map (\<lambda>u. metric_row base corr b u (the (sample_at head b u))) (sortedKeys (units_of head b))
     @ map (\<lambda>u. missing_row allow b u (the (sample_at base b u)))
         (filter (\<lambda>u. sample_at head b u = None) (sortedKeys (units_of base b))))"

definition gate_rows :: "bool \<Rightarrow> samples \<Rightarrow> samples \<Rightarrow> perf_row list" where
  "gate_rows allow base head = concat (map (benchmark_rows allow base head) (sortedKeys head))
     @ map (\<lambda>b. if allow then GoneInfo b else GoneRow b) (filter (\<lambda>b. gm_get head b = None) (sortedKeys base))"

fun regressed :: "perf_row \<Rightarrow> bool" where
  "regressed (Row _ _ _ _ _ (Regression _)) = True"
| "regressed (Row _ _ _ _ _ (Blowup _)) = True"
| "regressed (MissingRow _ _ _) = True"
| "regressed (GoneRow _) = True"
| "regressed _ = False"

definition perf_gate :: "bool \<Rightarrow> samples \<Rightarrow> samples \<Rightarrow> perf_row list \<times> nat" where
  "perf_gate allow base head = (let rows = gate_rows allow base head in (rows, length (filter regressed rows)))"

datatype perf_output = Usage | Failed perf_error | Report "string list" "(string \<times> string \<times> f64) list" | Table "perf_row list"

definition report_rows :: "samples \<Rightarrow> (string \<times> string \<times> f64) list" where
  "report_rows s = concat (map (\<lambda>b. map (\<lambda>u. (b, u, median (the (sample_at s b u)))) (sortedKeys (units_of s b))) (sortedKeys s))"

definition perf_main :: "(string \<Rightarrow> f64 option) \<Rightarrow> (string \<Rightarrow> string option) \<Rightarrow> bool \<Rightarrow> bool \<Rightarrow> string list \<Rightarrow> perf_output \<times> nat" where
  "perf_main pf files report allow args =
    (if report then (case args of
         [h] \<Rightarrow> (case perf_parse pf (files h) of Inl e \<Rightarrow> (Failed e, 2) | Inr (s, failures) \<Rightarrow> (Report failures (report_rows s), 0))
       | _ \<Rightarrow> (Usage, 2))
     else (case args of
         [b, h] \<Rightarrow> (case parseComplete pf (files b) of Inl e \<Rightarrow> (Failed e, 2)
           | Inr base \<Rightarrow> (case parseComplete pf (files h) of Inl e \<Rightarrow> (Failed e, 2)
             | Inr head \<Rightarrow> (case perf_gate allow base head of (rows, n) \<Rightarrow> (Table rows, if 0 < n then 1 else 0))))
       | _ \<Rightarrow> (Usage, 2)))"


section \<open>Rounding\<close>

lemma pow2_pos [simp]: "0 < pow2 e"
  by (simp add: pow2_def)

lemma pow2_Suc: "pow2 (e + 1) = 2 * pow2 e"
proof (cases "0 \<le> e")
  case True
  then show ?thesis by (simp add: pow2_def nat_add_distrib)
next
  case False
  then have "nat (- e) = Suc (nat (- (e + 1)))" by simp
  with False show ?thesis by (cases "e = - 1") (simp_all add: pow2_def)
qed

lemma pow2_quotient: "pow2 (int a - int b) = 2 ^ a / 2 ^ b"
proof (cases "b \<le> a")
  case True
  then have "(2 ^ a :: rat) = 2 ^ (a - b) * 2 ^ b" by (simp flip: power_add)
  with True show ?thesis by (simp add: pow2_def nat_diff_distrib)
next
  case False
  then have "(2 ^ b :: rat) = 2 ^ (b - a) * 2 ^ a" by (simp flip: power_add)
  with False show ?thesis by (simp add: pow2_def nat_diff_distrib)
qed

lemma half_even_error: "\<bar>of_int (half_even q) - q\<bar> \<le> 1 / 2"
proof -
  have "of_int \<lfloor>q\<rfloor> \<le> q" "q < of_int \<lfloor>q\<rfloor> + 1" by linarith+
  then show ?thesis by (auto simp: half_even_def Let_def abs_le_iff)
qed

lemma floorlog_rat: "0 < n \<Longrightarrow> 2 ^ floorlog 2 n \<le> (2 :: rat) * of_nat n \<and> (of_nat n :: rat) < 2 ^ floorlog 2 n"
proof -
  assume n: "0 < n"
  then have fl: "2 ^ (floorlog 2 n - 1) \<le> n" "n < 2 ^ floorlog 2 n" "0 < floorlog 2 n"
    using floorlog_bounds [of n 2] by (auto simp: floorlog_def)
  then have "2 ^ floorlog 2 n \<le> 2 * n" by (cases "floorlog 2 n") auto
  then have "(of_nat (2 ^ floorlog 2 n) :: rat) \<le> of_nat (2 * n)" "(of_nat n :: rat) < of_nat (2 ^ floorlog 2 n)"
    using fl(2) by (simp_all only: of_nat_le_iff of_nat_less_iff)
  then show ?thesis by simp
qed

lemma high_bit_bounds:
  assumes "0 < q"
  shows "pow2 (high_bit q) \<le> q \<and> q < pow2 (high_bit q + 1)"
proof -
  obtain n d where nd: "quotient_of q = (n, d)" by fastforce
  then have d: "0 < d" and q: "q = of_int n / of_int d"
    by (auto intro: quotient_of_denom_pos quotient_of_div)
  with assms have n: "0 < n" by (simp add: zero_less_divide_iff)
  define k where "k = int (floorlog 2 (nat n)) - int (floorlog 2 (nat d))"
  have ln: "2 ^ floorlog 2 (nat n) \<le> (2 :: rat) * of_int n" "(of_int n :: rat) < 2 ^ floorlog 2 (nat n)"
    using floorlog_rat [of "nat n"] n by auto
  have ld: "2 ^ floorlog 2 (nat d) \<le> (2 :: rat) * of_int d" "(of_int d :: rat) < 2 ^ floorlog 2 (nat d)"
    using floorlog_rat [of "nat d"] d by auto
  have "pow2 k \<le> 2 * q"
  proof -
    have "pow2 k \<le> (2 * of_int n) / 2 ^ floorlog 2 (nat d)"
      unfolding k_def pow2_quotient using ln(1) by (intro divide_right_mono) auto
    also have "\<dots> \<le> (2 * of_int n) / of_int d"
      using ld(2) n d by (intro divide_left_mono) auto
    finally show ?thesis by (simp add: q)
  qed
  moreover have "q < 2 * pow2 k"
  proof -
    have "q < 2 ^ floorlog 2 (nat n) / of_int d"
      unfolding q using ln(2) d by (intro divide_strict_right_mono) auto
    also have "\<dots> \<le> 2 ^ floorlog 2 (nat n) / (2 ^ floorlog 2 (nat d) / 2)"
      using ld(1) d by (intro divide_left_mono) auto
    finally show ?thesis by (simp add: k_def pow2_quotient mult.commute)
  qed
  ultimately show ?thesis
    using pow2_Suc [of k] pow2_Suc [of "k - 1"] by (auto simp: high_bit_def nd Let_def k_def)
qed

text \<open>A rounded value is at most half a unit of its last place away from the exact one.\<close>

lemma round64_error:
  assumes "round64 q = Finite v"
  shows "\<bar>v - q\<bar> \<le> pow2 (max (high_bit \<bar>q\<bar> - 52) (- 1074)) / 2"
proof (cases "q = 0")
  case True
  with assms show ?thesis by (simp add: round64_def less_imp_le)
next
  case False
  define e where "e = max (high_bit \<bar>q\<bar> - 52) (- 1074)"
  define w where "w = of_int (half_even (\<bar>q\<bar> / pow2 e)) * pow2 e"
  have v: "v = (if q < 0 then - w else w)"
    using assms False by (auto simp: round64_def Let_def e_def w_def split: if_splits)
  have pe: "0 < pow2 e" "pow2 e \<noteq> 0" by (simp, metis less_irrefl pow2_pos)
  then have "w - \<bar>q\<bar> = (of_int (half_even (\<bar>q\<bar> / pow2 e)) - \<bar>q\<bar> / pow2 e) * pow2 e"
    by (simp add: w_def left_diff_distrib)
  then have "\<bar>w - \<bar>q\<bar>\<bar> = \<bar>of_int (half_even (\<bar>q\<bar> / pow2 e)) - \<bar>q\<bar> / pow2 e\<bar> * pow2 e"
    using pe by (simp add: abs_mult abs_of_pos [OF pow2_pos])
  also have "\<dots> \<le> 1 / 2 * pow2 e"
    by (intro mult_right_mono half_even_error) (simp add: less_imp_le)
  finally have "\<bar>w - \<bar>q\<bar>\<bar> \<le> 1 / 2 * pow2 e" .
  moreover have "\<bar>v - q\<bar> = \<bar>w - \<bar>q\<bar>\<bar>" using v by (cases "q < 0") auto
  ultimately show ?thesis by (simp add: e_def)
qed

text \<open>A value of at most 53 bits is not changed by rounding.\<close>

lemma pow2_powi: "pow2 e = 2 powi e"
  by (simp add: pow2_def power_int_def power_one_over inverse_eq_divide)

lemma pow2_add: "pow2 (a + b) = pow2 a * pow2 b"
  by (simp add: pow2_powi power_int_add)

lemma pow2_le_iff: "pow2 a \<le> pow2 b \<longleftrightarrow> a \<le> b"
proof -
  have "pow2 c \<le> pow2 d" if "c \<le> d" for c d
    using that by (simp add: pow2_powi power_int_increasing)
  moreover have "pow2 c < pow2 d" if "c < d" for c d
    using that by (simp add: pow2_powi power_int_strict_increasing)
  ultimately show ?thesis by (meson linorder_not_le)
qed

lemma round64_exact:
  assumes "q = of_int m * pow2 k" and "0 < m" and "m < 2 ^ 53" and "- 1074 \<le> k" and "k \<le> 971"
  shows "round64 q = Finite q"
proof -
  have q: "0 < q" using assms by simp
  define e where "e = max (high_bit q - 52) (- 1074)"
  have "(of_int m :: rat) < of_int (2 ^ 53)" using assms(3) by (simp only: of_int_less_iff)
  then have "q < pow2 53 * pow2 k"
    unfolding assms(1) by (intro mult_strict_right_mono) (simp_all add: pow2_def [of 53])
  then have "\<not> pow2 (53 + k) \<le> pow2 (high_bit q)"
    using high_bit_bounds [OF q] by (auto simp: pow2_add)
  then have e: "e \<le> k" using assms(4) by (simp add: pow2_le_iff e_def)
  define n where "n = m * 2 ^ nat (k - e)"
  have "q = of_int m * (pow2 (k - e) * pow2 e)" using assms(1) by (simp flip: pow2_add)
  also have "pow2 (k - e) = of_int (2 ^ nat (k - e))" using e by (simp add: pow2_def)
  finally have "q = of_int n * pow2 e" by (simp add: n_def)
  then have n: "q / pow2 e = of_int n" using pow2_pos [of e] by (simp add: less_imp_neq [OF pow2_pos, symmetric])
  have "q < pow2 53 * pow2 971"
    proof -
    have "pow2 53 * pow2 k \<le> pow2 53 * pow2 971"
      using assms(5) by (intro mult_left_mono) (simp_all add: pow2_le_iff less_imp_le)
    with \<open>q < pow2 53 * pow2 k\<close> show ?thesis by linarith
  qed
  then have "q < pow2 1024" by (simp flip: pow2_add)
  then have "q < 2 ^ 1024" by (simp add: pow2_def)
  moreover have "of_int (half_even (q / pow2 e)) * pow2 e = q"
    using \<open>q = of_int n * pow2 e\<close> unfolding n by (simp add: half_even_def)
  ultimately show ?thesis
    using q by (simp add: round64_def Let_def e_def)
qed

lemma round64_half: "pow2 (- 1022) \<le> q \<Longrightarrow> round64 q = Finite v \<Longrightarrow> q / 2 \<le> v"
proof -
  assume q: "pow2 (- 1022) \<le> q" and v: "round64 q = Finite v"
  have q0: "0 < q" using q pow2_pos [of "- 1022"] by linarith
  have "pow2 (- 1022) < pow2 (high_bit q + 1)" using q high_bit_bounds [OF q0] by linarith
  then have "- 1022 \<le> high_bit q" using pow2_le_iff [of "high_bit q + 1" "- 1022"] by linarith
  then have "pow2 (max (high_bit q - 52) (- 1074)) = pow2 (high_bit q) * pow2 (- 52)"
    by (simp flip: pow2_add)
  also have "\<dots> \<le> q * 1"
    using high_bit_bounds [OF q0] q0 by (intro mult_mono) (simp_all add: pow2_def [of "- 52"])
  finally have "pow2 (max (high_bit q - 52) (- 1074)) \<le> q" by simp
  moreover have "q - v \<le> \<bar>v - q\<bar>" by linarith
  ultimately show ?thesis using round64_error [OF v] q0 by simp
qed

lemma round64_positive: "pow2 (- 1022) \<le> q \<Longrightarrow> f_lt (Finite 0) (round64 q)"
proof -
  assume q: "pow2 (- 1022) \<le> q"
  have q0: "0 < q" using q pow2_pos [of "- 1022"] by linarith
  show ?thesis
  proof (cases "round64 q")
    case (Finite v)
    then show ?thesis using round64_half [OF q] q0 by simp
  qed (use q0 in \<open>auto simp: round64_def Let_def split: if_splits\<close>)
qed

section \<open>What a parsed output holds\<close>

definition samples_ok :: "samples \<Rightarrow> bool" where
  "samples_ok s \<longleftrightarrow> gm_ok s \<and> list_all (\<lambda>(b, us). gm_ok us \<and> us \<noteq> [] \<and> list_all (\<lambda>(u, vs). vs \<noteq> []) us) s"

lemma list_all_put:
  assumes "gm_ok m" "list_all P m" "P (k, v)"
  shows "list_all P (gm_put k v m)"
proof -
  have "gm_get m k' = Some v' \<Longrightarrow> P (k', v')" for k' v'
    using assms(1,2) by (auto simp: gm_get_mem list_all_iff)
  moreover have "gm_ok (gm_put k v m)" using assms(1) by simp
  ultimately show ?thesis
    using assms(3) by (fastforce simp: list_all_iff gm_get_mem [symmetric] split: if_splits)
qed

lemma samples_ok_units: "samples_ok s \<Longrightarrow> gm_get s b = Some us \<Longrightarrow> gm_ok us \<and> us \<noteq> [] \<and> list_all (\<lambda>(u, vs). vs \<noteq> []) us"
  by (auto simp: samples_ok_def gm_get_mem list_all_iff)

lemma put_not_Nil [simp]: "gm_put k v m \<noteq> []"
  by (cases m) auto

lemma add_sample_ok: "samples_ok s \<Longrightarrow> samples_ok (add_sample b u v s)"
proof -
  assume s: "samples_ok s"
  define us where "us = (case gm_get s b of None \<Rightarrow> [] | Some us \<Rightarrow> us)"
  have "gm_ok us" "list_all (\<lambda>(u, vs). vs \<noteq> []) us"
    using samples_ok_units [OF s, of b] by (auto simp: us_def split: option.splits)
  with s show ?thesis
    by (auto simp: samples_ok_def add_sample_def Let_def us_def [symmetric] intro!: list_all_put)
qed

lemma add_fields_ok: "samples_ok s \<Longrightarrow> samples_ok (add_fields pf name fs s)"
  by (induction pf name fs s rule: add_fields.induct) (auto split: option.splits simp: add_sample_ok)

lemma parse_lines_ok: "samples_ok (fst acc) \<Longrightarrow> samples_ok (fst (fold (parse_line pf) ls acc))"
proof (induction ls arbitrary: acc)
  case (Cons l ls)
  have "samples_ok (fst (parse_line pf l acc))"
    using Cons.prems by (auto simp: parse_line_def Let_def split: prod.splits intro: add_fields_ok)
  then show ?case by (simp add: Cons.IH)
qed simp

lemma parse_ok: "perf_parse pf file = Inr (s, fs) \<Longrightarrow> samples_ok s"
proof -
  assume "perf_parse pf file = Inr (s, fs)"
  then obtain ls where "fold (parse_line pf) ls ([], []) = (s, fs)"
    by (auto simp: perf_parse_def split: option.splits sum.splits)
  with parse_lines_ok [of "([], [])" pf ls] show ?thesis by (simp add: samples_ok_def)
qed

lemma parseComplete_ok: "parseComplete pf file = Inr s \<Longrightarrow> samples_ok s"
  by (auto simp: parseComplete_def intro: parse_ok split: sum.splits prod.splits if_splits)

lemma sample_nonempty: "samples_ok s \<Longrightarrow> sample_at s b u = Some vs \<Longrightarrow> vs \<noteq> []"
  by (auto simp: sample_at_def split: option.splits dest!: samples_ok_units simp: gm_get_mem list_all_iff)

lemma sample_at_units: "sample_at s b u = gm_get (units_of s b) u"
  by (simp add: sample_at_def units_of_def split: option.split)

lemma sortedKeys_dom: "k \<in> set (sortedKeys m) \<longleftrightarrow> gm_get m k \<noteq> None"
  by (force simp: sortedKeys_def map_of_eq_None_iff)

section \<open>The gate\<close>

text \<open>What the gate asks of the samples of a metric both sides report.\<close>

definition within_limits :: "bool \<Rightarrow> f64 list \<Rightarrow> f64 list \<Rightarrow> perf_class \<Rightarrow> bool" where
  "within_limits corr hs bs c = (case metricDelta hs bs c of (delta, limit) \<Rightarrow>
     \<not> (twoSided c \<and> f_lt limit (f_abs delta))
     \<and> (badBeyond delta limit c \<longrightarrow> wall c \<and> \<not> corr \<and> \<not> badBeyond delta (hardThreshold c) c))"

lemma metric_row_regressed:
  assumes "sample_at base b u = Some bs"
  shows "regressed (metric_row base corr b u hs) \<longleftrightarrow> \<not> informative (classify u) \<and> \<not> within_limits corr hs bs (classify u)"
  using assms by (auto simp: metric_row_def within_limits_def verdict_of_def Let_def split: prod.splits)

text \<open>The gate passes two outputs when no gated metric is lost or past its limits and no benchmark is lost.\<close>

definition metric_passes :: "samples \<Rightarrow> samples \<Rightarrow> string \<Rightarrow> string \<Rightarrow> f64 list \<Rightarrow> bool" where
  "metric_passes base head b u bs \<longleftrightarrow> informative (classify u)
     \<or> (case sample_at head b u of None \<Rightarrow> False | Some hs \<Rightarrow> within_limits (corroborated b base head) hs bs (classify u))"

definition gate_passes :: "samples \<Rightarrow> samples \<Rightarrow> bool" where
  "gate_passes base head \<longleftrightarrow>
     list_all (\<lambda>(b, us). gm_get head b \<noteq> None \<and> list_all (\<lambda>(u, bs). metric_passes base head b u bs) us) base"

lemma gate_passes_iff:
  assumes "samples_ok base"
  shows "gate_passes base head \<longleftrightarrow> (\<forall>b. gm_get base b \<noteq> None \<longrightarrow> gm_get head b \<noteq> None)
    \<and> (\<forall>b u bs. sample_at base b u = Some bs \<longrightarrow> metric_passes base head b u bs)"
proof -
  have us: "(b, us) \<in> set base \<longleftrightarrow> gm_get base b = Some us" for b us
    using assms by (simp add: samples_ok_def gm_get_mem)
  have bs: "(u, vs) \<in> set us \<longleftrightarrow> gm_get us u = Some vs" if "gm_get base b = Some us" for b us u vs
    using samples_ok_units [OF assms that] by (simp add: gm_get_mem)
  show ?thesis
    using bs by (fastforce simp: gate_passes_def list_all_iff us sample_at_def split: option.splits)
qed

lemma benchmark_row_cases:
  assumes "r \<in> set (benchmark_rows False base head b)" and "regressed r"
  shows "\<exists>u bs. sample_at base b u = Some bs \<and> \<not> metric_passes base head b u bs"
proof -
  consider u hs where "sample_at head b u = Some hs" "r = metric_row base (corroborated b base head) b u hs"
    | u bs where "sample_at head b u = None" "sample_at base b u = Some bs" "r = missing_row False b u bs"
    using assms(1) by (auto simp: benchmark_rows_def Let_def sortedKeys_dom sample_at_units)
  then show ?thesis
  proof cases
    case (1 u hs)
    with assms(2) obtain bs where "sample_at base b u = Some bs"
      by (auto simp: metric_row_def Let_def split: option.splits)
    moreover from this 1 assms(2) have "\<not> metric_passes base head b u bs" by (simp add: metric_row_regressed metric_passes_def)
    ultimately show ?thesis by blast
  next
    case (2 u bs)
    then have "\<not> metric_passes base head b u bs"
      using assms(2) by (auto simp: missing_row_def metric_passes_def split: if_splits)
    with 2 show ?thesis by blast
  qed
qed

lemma metric_fails:
  assumes "gm_get head b \<noteq> None" and "sample_at base b u = Some bs" and "\<not> metric_passes base head b u bs"
  shows "\<exists>r \<in> set (gate_rows False base head). regressed r"
proof -
  have rows: "set (benchmark_rows False base head b) \<subseteq> set (gate_rows False base head)"
    using assms(1) by (auto simp: gate_rows_def sortedKeys_dom)
  show ?thesis
  proof (cases "sample_at head b u")
    case None
    then have "missing_row False b u bs \<in> set (benchmark_rows False base head b)"
      using assms(2) by (force simp: benchmark_rows_def Let_def sortedKeys_dom sample_at_units)
    moreover have "regressed (missing_row False b u bs)"
      using assms(3) None by (auto simp: missing_row_def metric_passes_def)
    ultimately show ?thesis using rows by blast
  next
    case (Some hs)
    then have "metric_row base (corroborated b base head) b u hs \<in> set (benchmark_rows False base head b)"
      by (force simp: benchmark_rows_def Let_def sortedKeys_dom sample_at_units)
    moreover have "regressed (metric_row base (corroborated b base head) b u hs)"
      using assms(2,3) Some by (auto simp: metric_row_regressed metric_passes_def)
    ultimately show ?thesis using rows by blast
  qed
qed

lemma gate_exact:
  assumes "samples_ok base"
  shows "snd (perf_gate False base head) = 0 \<longleftrightarrow> gate_passes base head"
proof -
  have gone: "GoneRow b \<in> set (gate_rows False base head)" if "gm_get base b \<noteq> None" "gm_get head b = None" for b
    using that by (simp add: gate_rows_def sortedKeys_dom)
  have "(\<exists>r \<in> set (gate_rows False base head). regressed r) \<longleftrightarrow> \<not> gate_passes base head"
  proof
    assume "\<exists>r \<in> set (gate_rows False base head). regressed r"
    then obtain r where r: "r \<in> set (gate_rows False base head)" "regressed r" by blast
    then consider b where "r \<in> set (benchmark_rows False base head b)" | b where "gm_get base b \<noteq> None" "gm_get head b = None"
      by (auto simp: gate_rows_def sortedKeys_dom)
    then show "\<not> gate_passes base head"
      unfolding gate_passes_iff [OF assms] using benchmark_row_cases [OF _ r(2)] by cases blast+
  next
    assume "\<not> gate_passes base head"
    then consider b where "gm_get base b \<noteq> None" "gm_get head b = None"
      | b u bs where "gm_get base b \<noteq> None \<longrightarrow> gm_get head b \<noteq> None" "sample_at base b u = Some bs" "\<not> metric_passes base head b u bs"
      unfolding gate_passes_iff [OF assms] by blast
    then show "\<exists>r \<in> set (gate_rows False base head). regressed r"
    proof cases
      case (1 b)
      then show ?thesis using gone by (intro bexI [of _ "GoneRow b"]) simp_all
    next
      case (2 b u bs)
      then have "gm_get head b \<noteq> None" by (auto simp: sample_at_def split: option.splits)
      then show ?thesis using 2(2,3) by (rule metric_fails)
    qed
  qed
  then show ?thesis by (auto simp: perf_gate_def Let_def filter_empty_conv)
qed

text \<open>A median is one of its samples.\<close>

lemma f_insert_mset [simp]: "mset (f_insert x ys) = add_mset x (mset ys)"
  by (induction ys) auto

lemma Float64s_mset [simp]: "mset (Float64s xs) = mset xs"
  by (induction xs) (simp_all add: Float64s_def)

lemma median_mem: "vs \<noteq> [] \<Longrightarrow> median vs \<in> set vs"
proof -
  assume "vs \<noteq> []"
  then have "length vs div 2 < length (Float64s vs)"
    by (metis Float64s_mset size_mset div_less_dividend length_greater_0_conv one_less_numeral_iff semiring_norm(76))
  then have "median vs \<in> set (Float64s vs)" by (simp add: median_def)
  then show ?thesis by (metis Float64s_mset set_mset_mset)
qed

lemma f_before_asym: "f_before x y \<Longrightarrow> \<not> f_before y x"
  by (cases x; cases y) (auto simp: f_before_def)

lemma f_before_cut: "\<not> f_before y x \<Longrightarrow> \<not> f_before z y \<Longrightarrow> \<not> f_before z x"
  by (cases x; cases y; cases z) (auto simp: f_before_def)

lemma Float64s_sorted: "sorted_wrt (\<lambda>x y. \<not> f_before y x) (Float64s xs)"
proof (induction xs)
  case (Cons x xs)
  have ins: "sorted_wrt (\<lambda>x y. \<not> f_before y x) ys \<Longrightarrow> sorted_wrt (\<lambda>x y. \<not> f_before y x) (f_insert x ys)" for ys
  proof (induction ys)
    case (Cons y ys)
    have "set (f_insert x ys) = insert x (set ys)" by (metis f_insert_mset set_mset_add_mset_insert set_mset_mset)
    with Cons show ?case by (auto dest: f_before_asym f_before_cut)
  qed simp
  with Cons show ?case by (simp add: Float64s_def)
qed (simp add: Float64s_def)

section \<open>A comparison of equal samples\<close>

lemma round64_0 [simp]: "round64 0 = Finite 0"
  by (simp add: round64_def)

lemma slice_ratio_same: "slice_ratio x x \<in> {Finite 0, NaN}"
proof -
  have "round64 1 = Finite 1" using round64_exact [of 1 1 0] by (simp add: pow2_def)
  then show ?thesis by (cases x) (auto simp: slice_ratio_def f_nonzero_def)
qed

lemma metricDelta_same: "vs \<noteq> [] \<Longrightarrow> fst (metricDelta vs vs c) \<in> {Finite 0, NaN}"
proof -
  assume vs: "vs \<noteq> []"
  have "f_div (f_sub x x) x \<in> {Finite 0, NaN}" if "f_nonzero x" for x
    using that by (cases x) (auto simp: f_nonzero_def)
  moreover have "pairedDelta vs vs \<in> {Finite 0, NaN}"
  proof -
    have "pairedDelta vs vs = median (map (\<lambda>x. slice_ratio x x) vs)"
      by (simp add: pairedDelta_def zip_same_conv_map comp_def)
    moreover have "median (map (\<lambda>x. slice_ratio x x) vs) \<in> set (map (\<lambda>x. slice_ratio x x) vs)"
      using vs by (intro median_mem) simp
    ultimately show ?thesis using slice_ratio_same by fastforce
  qed
  ultimately show ?thesis by (simp add: metricDelta_def Let_def)
qed

definition positive_limits :: "perf_class \<Rightarrow> bool" where
  "positive_limits c \<longleftrightarrow> informative c \<or> f_lt (Finite 0) (threshold c) \<and> (wall c \<longrightarrow> f_lt (Finite 0) (hardThreshold c))"

lemma classify_positive: "positive_limits (classify u)"
proof -
  have if_P: "positive_limits x \<Longrightarrow> positive_limits y \<Longrightarrow> positive_limits (if b then x else y)" for b x y by simp
  show ?thesis
    unfolding classify_def
    by (intro if_P) (simp_all add: positive_limits_def no_class_def round64_positive pow2_def)
qed

lemma limit_positive: "\<not> informative (classify u) \<Longrightarrow> f_lt (Finite 0) (snd (metricDelta hs bs (classify u)))"
  using classify_positive [of u] by (auto simp: positive_limits_def metricDelta_def Let_def)

lemma no_move: "d \<in> {Finite 0, NaN} \<Longrightarrow> f_lt (Finite 0) l \<Longrightarrow> \<not> f_lt l (f_abs d) \<and> \<not> badBeyond d l c"
  by (cases l) (auto simp: badBeyond_def)

lemma gate_same: "samples_ok s \<Longrightarrow> snd (perf_gate allow s s) = 0"
proof -
  assume s: "samples_ok s"
  have row: "\<not> regressed (metric_row s corr b u vs)" if "sample_at s b u = Some vs" for corr b u vs
  proof -
    have "fst (metricDelta vs vs (classify u)) \<in> {Finite 0, NaN}"
      using that sample_nonempty [OF s] by (intro metricDelta_same) blast
    then have d: "informative (classify u) \<or> \<not> f_lt limit (f_abs delta) \<and> \<not> badBeyond delta limit (classify u)"
      if "metricDelta vs vs (classify u) = (delta, limit)" for delta limit
      using that limit_positive [of u vs vs] no_move [of delta limit "classify u"] by auto
    obtain delta limit where "metricDelta vs vs (classify u) = (delta, limit)" by fastforce
    with that d [OF this] show ?thesis by (auto simp: metric_row_def Let_def verdict_of_def)
  qed
  have "\<not> regressed r" if "r \<in> set (gate_rows allow s s)" for r
    using that row by (auto simp: gate_rows_def benchmark_rows_def Let_def sortedKeys_dom sample_at_units)
  then show ?thesis by (simp add: perf_gate_def Let_def filter_empty_conv)
qed

section \<open>What the gate is for\<close>

text \<open>
  The bars of the comment of \<^verbatim>\<open>classify\<close>: a counter may not move either way; a figure may not rise past its bar,
  measured by its least sample or by its median; a clock may not get worse (a time by rising, a rate by falling)
  past its soft bar with corroboration, or its hard bar without.
\<close>

datatype bar = NoBar | EitherWay rat | Rise rat bool | Clock bool rat rat

definition bar_of :: "string \<Rightarrow> bar" where
  "bar_of unit =
    (if unit \<in> {''transitions/run'', ''transitions/cycle''} then EitherWay (1 / 1000)
     else if unit \<in> {''diskB/run'', ''diskB/attempt'', ''diskB/cycle''} then Rise (15 / 100) True
     else if unit \<in> {''B/op'', ''allocs/op''} then Rise (10 / 100) False
     else if unit = ''reads/child'' then Rise (50 / 100) True
     else if unit \<in> {''ns/op'', ''p50-ms'', ''p99-ms'', ''start-ms'', ''wake-p50-ms''} then Clock False 1 4
     else if unit \<in> {''runs/sec'', ''unwinds/sec'', ''cycles/sec'', ''polls/sec''} then Clock True (50 / 100) (80 / 100)
     else NoBar)"

text \<open>The value in the middle: at most half of the samples are before it and more than half are not after it.\<close>

definition middle :: "f64 \<Rightarrow> f64 list \<Rightarrow> bool" where
  "middle m vs \<longleftrightarrow> m \<in> set vs \<and> length (filter (\<lambda>v. f_before v m) vs) \<le> length vs div 2
     \<and> length vs div 2 < length (filter (\<lambda>v. \<not> f_before m v) vs)"

definition least :: "f64 \<Rightarrow> f64 list \<Rightarrow> bool" where
  "least m vs \<longleftrightarrow> m \<in> set vs \<and> (\<forall>v\<in>set vs. \<not> f_lt v m)"

definition greatest :: "f64 \<Rightarrow> f64 list \<Rightarrow> bool" where
  "greatest m vs \<longleftrightarrow> m \<in> set vs \<and> (\<forall>v\<in>set vs. \<not> f_lt m v)"

fun figure :: "bar \<Rightarrow> f64 list \<Rightarrow> f64 \<Rightarrow> bool" where
  "figure (Rise l True) vs x = least x vs"
| "figure (Clock rate soft hard) vs x = (if rate then greatest x vs else least x vs)"
| "figure b vs x = middle x vs"

text \<open>The relative change of a figure, and of a pair of slices; from zero, any figure but zero is infinitely more.\<close>

definition figure_change :: "f64 \<Rightarrow> f64 \<Rightarrow> f64" where
  "figure_change h b = (if b = Finite 0 then (if h = Finite 0 then Finite 0 else Infinite False) else f_div (f_sub h b) b)"

definition pair_change :: "f64 \<Rightarrow> f64 \<Rightarrow> f64" where
  "pair_change h b = (if b = Finite 0 then (if h = Finite 0 then Finite 0 else Infinite False) else f_sub (f_div h b) (Finite 1))"

text \<open>Clocks with as many samples on both sides, and more than one, are compared pair by pair.\<close>

definition change :: "bar \<Rightarrow> f64 list \<Rightarrow> f64 list \<Rightarrow> f64 \<Rightarrow> bool" where
  "change b hs bs d \<longleftrightarrow>
     (if (\<exists>rate soft hard. b = Clock rate soft hard) \<and> length hs = length bs \<and> 1 < length hs
      then middle d (map (\<lambda>(h, b). pair_change h b) (zip hs bs))
      else \<exists>x y. figure b hs x \<and> figure b bs y \<and> d = figure_change x y)"

definition worse :: "bool \<Rightarrow> rat \<Rightarrow> f64 \<Rightarrow> bool" where
  "worse rate l d \<longleftrightarrow> (if rate then f_lt d (f_neg (round64 l)) else f_lt (round64 l) d)"

text \<open>A metric that is no clock backs a clock's alarm when it moved past its bar, or by more than half of it where it may fall.\<close>

definition backs :: "bar \<Rightarrow> f64 list \<Rightarrow> f64 list \<Rightarrow> bool" where
  "backs b hs bs \<longleftrightarrow> (\<exists>d. change b hs bs d \<and> (case b of EitherWay l \<Rightarrow> f_lt (round64 l) (f_abs d)
     | Rise l by_least \<Rightarrow> f_lt (f_div (round64 l) (Finite 2)) d | _ \<Rightarrow> False))"

definition backed :: "samples \<Rightarrow> samples \<Rightarrow> string \<Rightarrow> bool" where
  "backed base head b \<longleftrightarrow> (\<exists>u hs bs. sample_at head b u = Some hs \<and> sample_at base b u = Some bs \<and> backs (bar_of u) hs bs)"

definition stays :: "bar \<Rightarrow> bool \<Rightarrow> f64 list \<Rightarrow> f64 list \<Rightarrow> bool" where
  "stays b alarm hs bs \<longleftrightarrow> (\<exists>d. change b hs bs d \<and> (case b of NoBar \<Rightarrow> True | EitherWay l \<Rightarrow> \<not> f_lt (round64 l) (f_abs d)
     | Rise l by_least \<Rightarrow> \<not> worse False l d
     | Clock rate soft hard \<Rightarrow> \<not> worse rate soft d \<or> \<not> alarm \<and> \<not> worse rate hard d))"

definition no_regression :: "samples \<Rightarrow> samples \<Rightarrow> bool" where
  "no_regression base head \<longleftrightarrow> (\<forall>b. gm_get base b \<noteq> None \<longrightarrow> gm_get head b \<noteq> None)
     \<and> (\<forall>b u bs. sample_at base b u = Some bs \<longrightarrow> bar_of u = NoBar
          \<or> (\<exists>hs. sample_at head b u = Some hs \<and> stays (bar_of u) (backed base head b) hs bs))"

subsection \<open>The estimates are these figures\<close>

lemma f_before_total: "f_before x y \<or> x = y \<or> f_before y x"
  by (cases x; cases y) (auto simp: f_before_def)

lemma f_before_trans: "f_before x y \<Longrightarrow> f_before y z \<Longrightarrow> f_before x z"
  by (cases x; cases y; cases z) (auto simp: f_before_def)

lemma f_before_irrefl [simp]: "\<not> f_before x x"
  by (cases x) (auto simp: f_before_def)

lemma middle_unique:
  assumes "middle x vs" and "middle y vs"
  shows "x = y"
proof -
  have False if "f_before a b" "middle a vs" "middle b vs" for a b
  proof -
    have "\<not> f_before a v \<Longrightarrow> f_before v b" for v using that(1) f_before_total [of a v] f_before_trans by blast
    then have "length (filter (\<lambda>v. \<not> f_before a v) vs) \<le> length (filter (\<lambda>v. f_before v b) vs)"
      by (induction vs) auto
    then show False using that(2,3) by (simp add: middle_def)
  qed
  then show ?thesis using f_before_total [of x y] assms by blast
qed

lemma median_middle: "vs \<noteq> [] \<Longrightarrow> middle (median vs) vs"
proof -
  assume vs: "vs \<noteq> []"
  let ?s = "Float64s vs" and ?n = "length vs div 2"
  have len: "length ?s = length vs" by (metis Float64s_mset size_mset)
  have n: "?n < length ?s" using vs len by simp
  have count: "length (filter P vs) = length (filter P ?s)" for P
    by (metis Float64s_mset mset_filter size_mset)
  have srt: "\<not> f_before (?s ! j) (?s ! i)" if "i < j" "j < length ?s" for i j
    using Float64s_sorted [of vs] that by (auto simp: sorted_wrt_iff_nth_less)
  have "length (filter (\<lambda>v. f_before v (?s ! ?n)) ?s) \<le> ?n"
  proof -
    have late: "\<not> f_before v (?s ! ?n)" if v: "v \<in> set (drop ?n ?s)" for v
    proof -
      obtain i where "i < length (drop ?n ?s)" "drop ?n ?s ! i = v" using v unfolding in_set_conv_nth by blast
      then have "?n + i < length ?s" "v = ?s ! (?n + i)" using n by simp_all
      then show ?thesis using srt [of ?n "?n + i"] by (cases i) simp_all
    qed
    have "filter (\<lambda>v. f_before v (?s ! ?n)) (drop ?n ?s) = []" using late by (simp add: filter_empty_conv)
    then have "filter (\<lambda>v. f_before v (?s ! ?n)) (take ?n ?s @ drop ?n ?s) = filter (\<lambda>v. f_before v (?s ! ?n)) (take ?n ?s)"
      by (simp only: filter_append append_Nil2)
    then have "length (filter (\<lambda>v. f_before v (?s ! ?n)) ?s) = length (filter (\<lambda>v. f_before v (?s ! ?n)) (take ?n ?s))"
      by (simp only: append_take_drop_id)
    then show ?thesis using length_filter_le [of "\<lambda>v. f_before v (?s ! ?n)" "take ?n ?s"] n by simp
  qed
  moreover have "?n < length (filter (\<lambda>v. \<not> f_before (?s ! ?n) v) ?s)"
  proof -
    have "\<not> f_before (?s ! ?n) v" if v: "v \<in> set (take (Suc ?n) ?s)" for v
    proof -
      obtain i where "i < length (take (Suc ?n) ?s)" "take (Suc ?n) ?s ! i = v" using v unfolding in_set_conv_nth by blast
      then have "i < Suc ?n" "v = ?s ! i" by simp_all
      then show ?thesis using srt [of i ?n] n by (cases "i = ?n") auto
    qed
    then have "filter (\<lambda>v. \<not> f_before (?s ! ?n) v) (take (Suc ?n) ?s) = take (Suc ?n) ?s" by (simp add: filter_id_conv)
    then have "Suc ?n \<le> length (filter (\<lambda>v. \<not> f_before (?s ! ?n) v) (take (Suc ?n) ?s))" using n by simp
    also have "\<dots> \<le> length (filter (\<lambda>v. \<not> f_before (?s ! ?n) v) (take (Suc ?n) ?s @ drop (Suc ?n) ?s))"
      by (simp only: filter_append length_append le_add1)
    also have "take (Suc ?n) ?s @ drop (Suc ?n) ?s = ?s" by simp
    finally show ?thesis by simp
  qed
  ultimately show ?thesis using median_mem [OF vs] by (simp add: middle_def median_def count)
qed

lemma middle_iff: "vs \<noteq> [] \<Longrightarrow> middle m vs \<longleftrightarrow> m = median vs"
  using median_middle middle_unique by blast

lemma f_lt_number: "x \<noteq> NaN \<Longrightarrow> y \<noteq> NaN \<Longrightarrow> f_lt x y = f_before x y"
  by (simp add: f_before_def)

definition no_better :: "bool \<Rightarrow> f64 \<Rightarrow> f64 \<Rightarrow> bool" where
  "no_better rate m v \<longleftrightarrow> (if rate then \<not> f_before m v else \<not> f_before v m)"

definition better :: "bool \<Rightarrow> f64 \<Rightarrow> f64 \<Rightarrow> f64" where
  "better rate best v = (if f_lt v best \<noteq> rate then v else best)"

lemma best_step:
  assumes "m \<noteq> NaN" "v \<noteq> NaN" and eq: "m' = better rate m v"
  shows "no_better rate m' v" "no_better rate m y \<Longrightarrow> no_better rate m' y"
proof -
  have m': "m' = (if f_before v m \<noteq> rate then v else m)" using assms(1,2) by (simp add: eq better_def f_lt_number)
  show "no_better rate m' v" using f_before_asym [of v m] by (auto simp: m' no_better_def)
  show "no_better rate m y \<Longrightarrow> no_better rate m' y"
    using f_before_cut f_before_trans [of v m] f_before_total [of v m] f_before_total [of m y]
    by (cases rate; cases "f_before v m") (auto simp: m' no_better_def dest: f_before_trans)
qed

lemma best_fold:
  assumes "x \<noteq> NaN" and "NaN \<notin> set xs"
  shows "foldl (better rate) x xs \<in> insert x (set xs) \<and>
    (\<forall>y\<in>insert x (set xs). no_better rate (foldl (better rate) x xs) y)"
  using assms
proof (induction xs rule: rev_induct)
  case Nil
  then show ?case by (simp add: no_better_def)
next
  case (snoc v xs)
  define m where "m = foldl (better rate) x xs"
  have "NaN \<notin> set xs" using snoc.prems(2) by simp
  then have "m \<in> insert x (set xs) \<and> (\<forall>y\<in>insert x (set xs). no_better rate m y)" unfolding m_def by (rule snoc.IH [OF snoc.prems(1)])
  then have IH: "m \<in> insert x (set xs)" "\<And>y. y \<in> insert x (set xs) \<Longrightarrow> no_better rate m y" by blast+
  have num: "m \<noteq> NaN" "v \<noteq> NaN" using IH(1) snoc.prems by auto
  show ?case using IH best_step [OF num refl, of rate] by (auto simp: m_def [symmetric] better_def [of rate m v])
qed

lemma estimate_best:
  assumes "vs \<noteq> []" and "NaN \<notin> set vs" and "bestOf c"
  shows "if lowerIsBad c then greatest (estimate vs c) vs else least (estimate vs c) vs"
proof -
  obtain x xs where vs: "vs = x # xs" using assms(1) by (cases vs) auto
  have "(\<lambda>best v. if f_lt v best \<noteq> lowerIsBad c then v else best) = better (lowerIsBad c)" by (simp add: fun_eq_iff better_def)
  then have "estimate vs c = foldl (better (lowerIsBad c)) x xs" using assms(3) by (simp only: estimate_def vs) simp
  then have e: "estimate vs c \<in> set vs" "\<forall>y\<in>set vs. no_better (lowerIsBad c) (estimate vs c) y"
    using best_fold [of x xs "lowerIsBad c"] assms(2) by (auto simp: vs)
  have "f_lt y z \<Longrightarrow> f_before y z" for y z by (simp add: f_before_def)
  then show ?thesis using e by (auto simp: least_def greatest_def no_better_def)
qed

lemma best_unique:
  assumes "NaN \<notin> set vs"
  shows "least x vs \<Longrightarrow> least y vs \<Longrightarrow> x = y" "greatest x vs \<Longrightarrow> greatest y vs \<Longrightarrow> x = y"
  using assms f_before_total [of x y] f_lt_number by (metis least_def, metis greatest_def)

subsection \<open>The classes are the bars\<close>

fun class_of :: "bar \<Rightarrow> perf_class" where
  "class_of NoBar = no_class\<lparr>informative := True\<rparr>"
| "class_of (EitherWay l) = no_class\<lparr>threshold := round64 l, twoSided := True\<rparr>"
| "class_of (Rise l best) = no_class\<lparr>threshold := round64 l, bestOf := best\<rparr>"
| "class_of (Clock rate soft hard) = no_class\<lparr>threshold := round64 soft, pairedThreshold := round64 soft, lowerIsBad := rate, bestOf := True,
     wall := True, hardThreshold := round64 hard\<rparr>"

lemma classify_bar: "classify u = class_of (bar_of u)"
  unfolding classify_def bar_of_def by (simp add: no_class_def)

lemma clock_bars: "bar_of u = Clock rate soft hard \<Longrightarrow> f_lt (Finite 0) (round64 soft)"
  using classify_positive [of u] by (simp add: classify_bar positive_limits_def no_class_def)

lemma round64_int [simp]: "round64 1 = Finite 1" "round64 2 = Finite 2" "round64 4 = Finite 4" "round64 5 = Finite 5"
  using round64_exact [of 1 1 0] round64_exact [of 2 2 0] round64_exact [of 4 4 0] round64_exact [of 5 5 0] by (simp_all add: pow2_def)

lemma figure_iff:
  assumes "vs \<noteq> []" and "NaN \<notin> set vs"
  shows "figure b vs x \<longleftrightarrow> x = estimate vs (class_of b)"
proof -
  have best: "bestOf (class_of b) \<Longrightarrow> (if lowerIsBad (class_of b) then greatest x vs else least x vs) \<longleftrightarrow> x = estimate vs (class_of b)"
    using estimate_best [OF assms, of "class_of b"] best_unique [OF assms(2)] by (metis (full_types))
  have mid: "\<not> bestOf (class_of b) \<Longrightarrow> middle x vs \<longleftrightarrow> x = estimate vs (class_of b)"
    using middle_iff [OF assms(1)] by (simp add: estimate_def)
  show ?thesis using best mid
  proof (cases b)
    case (Rise l best)
    then show ?thesis using \<open>bestOf _ \<Longrightarrow> _\<close> mid by (cases best) (simp_all add: no_class_def)
  qed (simp_all add: no_class_def)
qed

lemma change_iff:
  assumes "hs \<noteq> []" "NaN \<notin> set hs" "bs \<noteq> []" "NaN \<notin> set bs" and pos: "\<And>r s h. b = Clock r s h \<Longrightarrow> f_lt (Finite 0) (round64 s)"
  shows "change b hs bs d \<longleftrightarrow> d = fst (metricDelta hs bs (class_of b))"
proof -
  have pair: "pair_change = slice_ratio" by (simp add: fun_eq_iff pair_change_def slice_ratio_def f_nonzero_def)
  have fig: "figure_change h y = (if f_nonzero y then f_div (f_sub h y) y else if f_nonzero h then Infinite False else Finite 0)" for h y
    by (simp add: figure_change_def f_nonzero_def)
  have plain: "(\<exists>x y. figure b hs x \<and> figure b bs y \<and> d = figure_change x y) \<longleftrightarrow>
      d = figure_change (estimate hs (class_of b)) (estimate bs (class_of b))"
    by (simp add: figure_iff [OF assms(1,2)] figure_iff [OF assms(3,4)])
  have zip: "1 < length hs \<Longrightarrow> length hs = length bs \<Longrightarrow> middle d (map (\<lambda>(h, b). slice_ratio h b) (zip hs bs)) \<longleftrightarrow> d = pairedDelta hs bs"
    unfolding pairedDelta_def by (rule middle_iff) (cases hs; cases bs; simp)
  show ?thesis
  proof (cases b)
    case (Clock r s h)
    then show ?thesis using pos [OF Clock] plain zip
      by (cases "length hs = length bs \<and> 1 < length hs") (auto simp: change_def pair metricDelta_def Let_def fig no_class_def)
  qed (use plain in \<open>simp_all add: change_def metricDelta_def Let_def fig no_class_def\<close>)
qed

lemma f_neg_lt: "f_lt x (f_neg y) \<longleftrightarrow> f_lt y (f_neg x)"
  by (cases x; cases y) auto

lemma f_lt_abs: "f_lt l d \<Longrightarrow> f_lt l (f_abs d)"
  by (cases l; cases d) auto

lemma badBeyond_worse: "badBeyond d (round64 l) c \<longleftrightarrow> worse (lowerIsBad c) l d"
  using f_neg_lt [of "round64 l" d] by (simp add: badBeyond_def worse_def)

lemma metricDelta_limit: "snd (metricDelta hs bs (class_of b)) = threshold (class_of b)"
  by (cases b) (simp_all add: metricDelta_def Let_def no_class_def)

lemma stays_iff:
  assumes "hs \<noteq> []" "NaN \<notin> set hs" "bs \<noteq> []" "NaN \<notin> set bs" and u: "bar_of u \<noteq> NoBar"
  shows "stays (bar_of u) alarm hs bs \<longleftrightarrow> within_limits alarm hs bs (classify u)"
    "backs (bar_of u) hs bs \<longleftrightarrow> \<not> wall (classify u) \<and> moved hs bs (classify u)"
proof -
  define d where "d = fst (metricDelta hs bs (classify u))"
  have ch: "change (bar_of u) hs bs x \<longleftrightarrow> x = d" for x
    using change_iff [OF assms(1-4), of "bar_of u" x] clock_bars [of u] by (simp add: classify_bar d_def)
  have dl: "metricDelta hs bs (classify u) = (d, threshold (classify u))"
    using metricDelta_limit [of hs bs "bar_of u"] by (simp add: d_def classify_bar prod_eq_iff)
  show "stays (bar_of u) alarm hs bs \<longleftrightarrow> within_limits alarm hs bs (classify u)"
    unfolding stays_def within_limits_def dl ch unfolding classify_bar using u
    by (cases "bar_of u") (auto simp: no_class_def badBeyond_worse worse_def dest: f_lt_abs)
  have "backs (bar_of u) hs bs \<longleftrightarrow> (case bar_of u of EitherWay l \<Rightarrow> f_lt (round64 l) (f_abs d)
     | Rise l by_least \<Rightarrow> f_lt (f_div (round64 l) (Finite 2)) d | _ \<Rightarrow> False)" by (simp add: backs_def ch)
  then show "backs (bar_of u) hs bs \<longleftrightarrow> \<not> wall (classify u) \<and> moved hs bs (classify u)"
    unfolding moved_def dl unfolding classify_bar using u by (cases "bar_of u") (simp_all add: no_class_def Let_def badBeyond_def)
qed

subsection \<open>Samples that are numbers\<close>

definition numbers :: "samples \<Rightarrow> bool" where
  "numbers s \<longleftrightarrow> (\<forall>b u vs. sample_at s b u = Some vs \<longrightarrow> NaN \<notin> set vs)"

lemma add_sample_numbers: "numbers s \<Longrightarrow> v \<noteq> NaN \<Longrightarrow> numbers (add_sample b u v s)"
  unfolding numbers_def by (fastforce simp: sample_at_def add_sample_def Let_def split: option.splits if_splits)

lemma add_fields_numbers: "(\<And>f. pf f \<noteq> Some NaN) \<Longrightarrow> numbers s \<Longrightarrow> numbers (add_fields pf name fs s)"
proof (induction pf name fs s rule: add_fields.induct)
  case (1 pf name v unit rest out)
  show ?case
  proof (cases "pf v")
    case None
    then show ?thesis using 1 by simp
  next
    case (Some x)
    then have "x \<noteq> NaN" using 1(2) [of v] by auto
    then have "numbers (add_sample name unit x out)" using 1(3) by (rule add_sample_numbers [rotated])
    then show ?thesis using 1(1) [OF 1(2)] Some by simp
  qed
qed simp_all

lemma parseComplete_numbers:
  assumes "\<And>f. pf f \<noteq> Some NaN" and "parseComplete pf file = Inr s"
  shows "numbers s"
proof -
  have "numbers (fst acc) \<Longrightarrow> numbers (fst (fold (parse_line pf) ls acc))" for ls acc
  proof (induction ls arbitrary: acc)
    case (Cons l ls)
    have "numbers (fst (parse_line pf l acc))"
      using Cons.prems add_fields_numbers [OF assms(1)] by (auto simp: parse_line_def Let_def split: prod.splits)
    then show ?case by (simp add: Cons.IH)
  qed simp
  moreover have "numbers []" by (simp add: numbers_def sample_at_def)
  moreover obtain ls fs where "fold (parse_line pf) ls ([], []) = (s, fs)"
    using assms(2) by (auto simp: parseComplete_def perf_parse_def split: option.splits sum.splits prod.splits if_splits)
  ultimately show ?thesis by (metis fst_conv)
qed

lemma gate_no_regression:
  assumes base: "samples_ok base" "numbers base" and head: "samples_ok head" "numbers head"
  shows "gate_passes base head \<longleftrightarrow> no_regression base head"
proof -
  have both: "bs \<noteq> []" "NaN \<notin> set bs" "hs \<noteq> []" "NaN \<notin> set hs" if "sample_at base b u = Some bs" "sample_at head b u = Some hs" for b u bs hs
    using that sample_nonempty base head by (auto simp: numbers_def)
  have cor: "corroborated b base head \<longleftrightarrow> backed base head b" for b
  proof -
    have "gm_ok (units_of head b)" using samples_ok_units [OF head(1)] by (auto simp: units_of_def gm_ok_def split: option.split)
    then have mem: "(u, hs) \<in> set (units_of head b) \<longleftrightarrow> sample_at head b u = Some hs" for u hs by (simp add: sample_at_units gm_get_mem)
    have one: "backs (bar_of u) hs bs \<longleftrightarrow> \<not> wall (classify u) \<and> \<not> informative (classify u) \<and> moved hs bs (classify u)"
      if "sample_at base b u = Some bs" "sample_at head b u = Some hs" for u hs bs
    proof (cases "bar_of u = NoBar")
      case True
      then show ?thesis by (simp add: backs_def classify_bar no_class_def)
    next
      case False
      have "\<not> informative (classify u)" using False by (cases "bar_of u") (simp_all add: classify_bar no_class_def)
      then show ?thesis using stays_iff(2) [OF both(3,4,1,2) [OF that] False] by simp
    qed
    show ?thesis unfolding corroborated_def backed_def list_ex_iff using mem one by (fastforce simp: Let_def split: option.splits)
  qed
  have "metric_passes base head b u bs \<longleftrightarrow> bar_of u = NoBar \<or> (\<exists>hs. sample_at head b u = Some hs \<and> stays (bar_of u) (backed base head b) hs bs)"
    if "sample_at base b u = Some bs" for b u bs
  proof (cases "bar_of u = NoBar")
    case True
    then show ?thesis by (simp add: metric_passes_def classify_bar)
  next
    case False
    then have "\<not> informative (classify u)" by (cases "bar_of u") (simp_all add: classify_bar no_class_def)
    then show ?thesis using False stays_iff(1) [OF both(3,4,1,2) [OF that] False] cor
      by (auto simp: metric_passes_def split: option.splits)
  qed
  then show ?thesis unfolding gate_passes_iff [OF base(1)] no_regression_def by blast
qed

section \<open>The tool\<close>

text \<open>
  Claim C33. Over outputs whose samples are numbers, the gate exits with 0 exactly when both outputs are complete, every
  benchmark of the base is in the head, and every metric with a bar that the base reports is in the head and stays
  within it: a logical counter's median has not moved by more than 0.1 percent either way; the least disk and read figures and the median
  allocation figures have not risen by more than 15, 50 and 10 percent; a time has not risen by more than 100 percent and
  a rate not fallen by more than 50 or, when no counter of the benchmark moved past its bar and none of its figures rose by more
  than half of its bar, by 400 and 80. A
  clock's change is the median over the pairs of slices when both sides have as many, else that of the best samples.
\<close>

theorem perf_gate_exact:
  assumes "\<forall>s. pf s \<noteq> Some NaN"
  shows "snd (perf_main pf files False False [b, h]) = 0
     \<longleftrightarrow> (\<exists>base head. parseComplete pf (files b) = Inr base \<and> parseComplete pf (files h) = Inr head \<and> no_regression base head)"
proof (cases "parseComplete pf (files b)")
  case (Inr base)
  have "0 < snd (perf_gate False base head) \<longleftrightarrow> \<not> no_regression base head" if "parseComplete pf (files h) = Inr head" for head
    using gate_exact [OF parseComplete_ok [OF Inr]]
      gate_no_regression [OF parseComplete_ok [OF Inr] parseComplete_numbers [OF _ Inr] parseComplete_ok [OF that] parseComplete_numbers [OF _ that]]
      assms by (metis neq0_conv)
  with Inr show ?thesis
    by (cases "parseComplete pf (files h)") (simp_all add: perf_main_def case_prod_beta)
qed (simp add: perf_main_def)

text \<open>A head whose only timing is five times the base's passes the bar of a clock that nothing backs; six times does not.\<close>

definition wit_float :: "string \<Rightarrow> f64 option" where
  "wit_float s = (if s = ''5'' then Some (Finite 5) else if s = ''6'' then Some (Finite 6) else if s = ''1'' then Some (Finite 1) else None)"

definition wit_files :: "string \<Rightarrow> string option" where
  "wit_files f = (if f = ''base'' then Some ''BenchmarkA-8 9 1 ns/op'' else if f = ''same'' then Some ''BenchmarkA-8 9 5 ns/op''
     else if f = ''worse'' then Some ''BenchmarkA-8 9 6 ns/op'' else None)"

definition wit_samples :: "rat \<Rightarrow> samples" where
  "wit_samples x = [(''BenchmarkA'', [(''ns/op'', [Finite x])])]"

lemma wit_read: "parse_line wit_float ''BenchmarkA-8 9 1 ns/op'' ([], []) = (wit_samples 1, [])"
  "parse_line wit_float ''BenchmarkA-8 9 5 ns/op'' ([], []) = (wit_samples 5, [])"
  "parse_line wit_float ''BenchmarkA-8 9 6 ns/op'' ([], []) = (wit_samples 6, [])"
  by code_simp+

lemma wit_parse: "parseComplete wit_float (wit_files ''base'') = Inr (wit_samples 1)"
  "parseComplete wit_float (wit_files ''same'') = Inr (wit_samples 5)" "parseComplete wit_float (wit_files ''worse'') = Inr (wit_samples 6)"
  using wit_read by (simp_all add: parseComplete_def perf_parse_def scan_lines_def Let_def wit_files_def cut_return_def wit_samples_def)

lemma wit_class: "classify ''ns/op'' = no_class\<lparr>threshold := Finite 1, pairedThreshold := Finite 1, bestOf := True, wall := True, hardThreshold := Finite 4\<rparr>"
  by (simp add: classify_def)

lemma wit_delta: "metricDelta [Finite x] [Finite 1] (classify ''ns/op'') = (f_div (f_sub (Finite x) (Finite 1)) (Finite 1), Finite 1)"
  by (simp add: wit_class no_class_def metricDelta_def Let_def estimate_def f_nonzero_def)

lemma wit_gate: "snd (perf_gate False (wit_samples 1) (wit_samples 5)) = 0" "snd (perf_gate False (wit_samples 1) (wit_samples 6)) = 1"
  by (simp_all add: perf_gate_def gate_rows_def benchmark_rows_def wit_samples_def sortedKeys_def units_of_def sample_at_def corroborated_def
      metric_row_def wit_delta Let_def) (simp_all add: wit_class no_class_def verdict_of_def badBeyond_def)

lemma wit_exits: "snd (perf_main wit_float wit_files False False [''base'', ''same'']) = 0" "snd (perf_main wit_float wit_files False False [''base'', ''worse'']) = 1"
  using wit_gate by (simp_all add: perf_main_def wit_parse case_prod_beta)

theorem perf_gate_exact_witness:
  "no_regression (wit_samples 1) (wit_samples 5) \<and> \<not> no_regression (wit_samples 1) (wit_samples 6)"
proof -
  have nan: "\<forall>s. wit_float s \<noteq> Some NaN" by (simp add: wit_float_def)
  have "snd (perf_main wit_float wit_files False False [''base'', ''worse'']) \<noteq> 0" using wit_exits(2) by simp
  with perf_gate_exact [OF nan, of wit_files "''base''" "''same''"] perf_gate_exact [OF nan, of wit_files "''base''" "''worse''"] wit_exits(1)
  show ?thesis by (simp add: wit_parse)
qed

text \<open>A complete output compared with itself passes, whatever its values are.\<close>

theorem perf_same_file:
  "snd (perf_main pf files False allow [f, f]) = (case parseComplete pf (files f) of Inl _ \<Rightarrow> 2 | Inr _ \<Rightarrow> 0)"
  by (cases "parseComplete pf (files f)") (simp_all add: perf_main_def case_prod_beta gate_same [OF parseComplete_ok])

text \<open>What is not a number is never past a limit: a metric that becomes one passes the gate.\<close>

theorem not_a_number_passes:
  "\<not> regressed (Row b u x y NaN (verdict_of corr c NaN limit))"
  by (cases limit; cases "hardThreshold c") (simp_all add: verdict_of_def badBeyond_def)

text \<open>The reading of a short output: the suffix of the name and the iteration count are not kept.\<close>

lemma parse_example:
  "fold (parse_line (\<lambda>s. if s = ''100'' then Some (Finite 100) else None))
     [''goos: linux'', ''BenchmarkA/x-8  1  100 ns/op  y B/op  100 transitions/run'', ''FAIL  p'', ''ok''] ([], [])
   = ([(''BenchmarkA/x'', [(''ns/op'', [Finite 100]), (''transitions/run'', [Finite 100])])], [''FAIL  p''])"
  by code_simp

end
