(* ===== verification/Engine_Rely.thy ===== *)
theory Engine_Rely
  imports Engine_Run
begin

text \<open>
  What goroutines may do to each other. A worker owns the record of its run: every other goroutine
  leaves a nonterminal record as it is, except that a cancel request may be added to it, and may only
  delete a terminal one (\<open>only_cancels\<close>); it never calls a handler for the run, and never takes the run's
  dirty mark (\<open>stable\<close>). This theory shows that every operation of the engine that is not the run's own
  worker keeps to that, with the store any implementation of the contract; a worker's own writes are
  the subject of the theories \<open>Engine_Sync\<close> and \<open>Engine_Worker\<close>.
\<close>

section \<open>The relation\<close>

definition only_cancels :: "run_record option \<Rightarrow> run_record option \<Rightarrow> bool" where
  "only_cancels x y = (case x of None \<Rightarrow> y = None
     | Some r \<Rightarrow> if terminal r then y = Some r \<or> y = None
         else (\<exists>c. y = Some (r\<lparr>r_cancel := c\<rparr>) \<and> (r_cancel r \<noteq> None \<longrightarrow> c = r_cancel r)))"

fun invoke_of :: "run_id \<Rightarrow> ('s, 'm) event \<Rightarrow> ('m invocation \<times> 's) option" where
  "invoke_of i (EvInvoke iv s) = (if inv_run iv = i then Some (iv, s) else None)"
| "invoke_of i _ = None"

text \<open>The handler calls made for a run so far, each with the store it was made on.\<close>

definition invokes :: "run_id \<Rightarrow> ('s, 'm) engine \<Rightarrow> ('m invocation \<times> 's) list" where
  "invokes i e = List.map_filter (invoke_of i) (e_events e)"

definition stable :: "('s \<Rightarrow> bool) \<Rightarrow> ('s \<Rightarrow> run_id \<Rightarrow> run_record option) \<Rightarrow> run_id \<Rightarrow> ('s, 'm) engine \<Rightarrow> ('s, 'm) engine \<Rightarrow> bool" where
  "stable sinv rec_of i e e' \<longleftrightarrow>
     (sinv (e_store e) \<longrightarrow> sinv (e_store e') \<and> only_cancels (rec_of (e_store e) i) (rec_of (e_store e') i)) \<and>
     invokes i e' = invokes i e \<and> (i \<in> ds_marked (e_dirty e) \<longrightarrow> i \<in> ds_marked (e_dirty e'))"

text \<open>The assumption on the environment: other goroutines and handlers keep to it.\<close>

definition keeps :: "('s \<Rightarrow> bool) \<Rightarrow> ('s \<Rightarrow> run_id \<Rightarrow> run_record option) \<Rightarrow> ('s, 'm) env \<Rightarrow> run_id \<Rightarrow> bool" where
  "keeps sinv rec_of env i \<longleftrightarrow> (\<forall>n e. stable sinv rec_of i e (ev_yield env n e)) \<and>
     (\<forall>p d k sc iv e. Get p (ev_pipelines env) = Some d \<longrightarrow> gm_get (bd_steps d) k = Some sc \<longrightarrow>
        stable sinv rec_of i e (snd (bs_forward sc iv e)) \<and>
        (\<forall>h. bs_unwind sc = Some h \<longrightarrow> stable sinv rec_of i e (snd (h iv e))))"

lemma only_cancels_refl [simp]: "only_cancels x x"
proof (cases x)
  case (Some r)
  have "r = r\<lparr>r_cancel := r_cancel r\<rparr>" by simp
  then show ?thesis using Some unfolding only_cancels_def by (simp only: option.case) (metis (full_types))
qed (simp add: only_cancels_def)

lemma only_cancels_trans:
  assumes "only_cancels x y" and "only_cancels y z"
  shows "only_cancels x z"
proof (cases x)
  case None
  then show ?thesis using assms by (simp add: only_cancels_def)
next
  case (Some r)
  show ?thesis
  proof (cases "terminal r")
    case True
    then show ?thesis using assms Some by (auto simp: only_cancels_def split: option.splits)
  next
    case False
    then obtain c where y: "y = Some (r\<lparr>r_cancel := c\<rparr>)" "r_cancel r \<noteq> None \<longrightarrow> c = r_cancel r"
      using assms(1) Some by (auto simp: only_cancels_def)
    then have "\<not> terminal (r\<lparr>r_cancel := c\<rparr>)" using False by (simp add: terminal_def)
    then obtain c' where "z = Some (r\<lparr>r_cancel := c'\<rparr>)" "c \<noteq> None \<longrightarrow> c' = c"
      using assms(2) y by (auto simp: only_cancels_def)
    then show ?thesis using Some y False by (auto simp: only_cancels_def)
  qed
qed

lemma stable_refl [simp, intro]: "stable sinv rec_of i e e"
  by (simp add: stable_def)

lemma stable_trans [trans]:
  "stable sinv rec_of i e e1 \<Longrightarrow> stable sinv rec_of i e1 e2 \<Longrightarrow> stable sinv rec_of i e e2"
  unfolding stable_def using only_cancels_trans by auto

lemma stable_frame:
  "e_store e' = e_store e \<Longrightarrow> invokes i e' = invokes i e \<Longrightarrow> e_dirty e' = e_dirty e \<Longrightarrow> stable sinv rec_of i e e'"
  by (simp add: stable_def)

section \<open>Operations that leave the store alone\<close>

text \<open>What an in-memory operation leaves unchanged: the store, the dirty marks, the calls of handlers.\<close>

definition untouched :: "('s, 'm) engine \<Rightarrow> ('s, 'm) engine \<Rightarrow> bool" where
  "untouched e e' \<longleftrightarrow> e_store e' = e_store e \<and> e_dirty e' = e_dirty e \<and> (\<forall>i. invokes i e' = invokes i e)"

lemma untouched_refl [simp, intro]: "untouched e e"
  by (simp add: untouched_def)

lemma untouched_trans [trans]: "untouched e e1 \<Longrightarrow> untouched e1 e2 \<Longrightarrow> untouched e e2"
  by (simp add: untouched_def)

lemma untouched_stable: "untouched e e' \<Longrightarrow> stable sinv rec_of i e e'"
  by (simp add: untouched_def stable_frame)

lemma invokes_snoc [simp]: "invokes i (e\<lparr>e_events := e_events e @ [ev]\<rparr>) = invokes i e @ (case invoke_of i ev of None \<Rightarrow> [] | Some x \<Rightarrow> [x])"
  by (simp add: invokes_def List.map_filter_def split: option.split)

lemma untouchedI:
  "e_store e' = e_store e \<Longrightarrow> e_dirty e' = e_dirty e \<Longrightarrow> e_events e' = e_events e \<Longrightarrow> untouched e e'"
  by (simp add: untouched_def invokes_def)

fun is_invoke :: "('s, 'm) event \<Rightarrow> bool" where
  "is_invoke (EvInvoke iv s) = True"
| "is_invoke _ = False"

lemma invoke_of_None [simp]: "\<not> is_invoke ev \<Longrightarrow> invoke_of i ev = None"
  by (cases ev) auto

lemma untouched_emit: "\<not> is_invoke ev \<Longrightarrow> untouched e (emit ev e)"
  by (simp add: emit_def untouched_def)

lemma untouched_tick: "untouched e (tick e)"
  by (simp add: tick_def untouchedI)

lemma untouched_Now: "Now env e = (t, e') \<Longrightarrow> untouched e e'"
  by (auto simp: Now_def untouched_tick)

lemma untouched_dispatch: "untouched e (dispatch i d e)"
  by (simp add: dispatch_def untouchedI)

lemma untouched_dispatch_kick: "untouched e (dispatch_kick k e)"
  by (cases k) (simp_all add: untouched_dispatch)

lemma untouched_crash: "untouched e (crash e)"
  by (simp add: crash_def untouchedI)

lemma untouched_fold_dispatch: "untouched e (fold (\<lambda>i. dispatch i 0) ks e)"
proof (induction ks arbitrary: e)
  case (Cons k ks)
  show ?case using untouched_trans [OF untouched_dispatch Cons [of "dispatch k 0 e"]] by simp
qed simp

lemma untouched_upd:
  "untouched (e\<lparr>e_pool := p\<rparr>) e' \<longleftrightarrow> untouched e e'" "untouched (e\<lparr>e_runs := q\<rparr>) e' \<longleftrightarrow> untouched e e'"
  "untouched (e\<lparr>e_joins := j\<rparr>) e' \<longleftrightarrow> untouched e e'" "untouched (e\<lparr>e_invalid := v\<rparr>) e' \<longleftrightarrow> untouched e e'"
  by (auto simp: untouched_def invokes_def)

lemma untouched_kick:
  "untouched e (dispatch_kick k (e\<lparr>e_pool := p\<rparr>))" "untouched e (dispatch_kick k (e\<lparr>e_runs := q\<rparr>))"
  "untouched e (fold (\<lambda>i. dispatch i 0) ks (e\<lparr>e_joins := j\<rparr>))" "untouched e (fold (\<lambda>i. dispatch i 0) ks (e\<lparr>e_pool := p\<rparr>))"
  using untouched_dispatch_kick [of "e\<lparr>e_pool := p\<rparr>"] untouched_dispatch_kick [of "e\<lparr>e_runs := q\<rparr>"]
    untouched_fold_dispatch [of "e\<lparr>e_joins := j\<rparr>"] untouched_fold_dispatch [of "e\<lparr>e_pool := p\<rparr>"]
  by (simp_all add: untouched_upd)

lemma untouched_notify: "untouched e (notify_waiters i e)"
  by (auto simp: notify_waiters_def untouched_crash untouchedI split: option.split)

lemma untouched_awaitTargetDone: "untouched e (awaitTargetDone i e)"
  by (auto simp: awaitTargetDone_def untouched_crash untouched_kick split: option.split)

lemma untouched_releaseRunClass: "untouched e (releaseRunClass i e)"
  by (auto simp: releaseRunClass_def untouched_crash untouched_kick split: option.split)

lemma untouched_releaseClass: "untouched e (releaseClass c e)"
  by (auto simp: releaseClass_def untouched_crash untouched_kick split: option.split)

lemma untouched_clearClassWait: "untouched e (clearClassWait i e)"
  by (auto simp: clearClassWait_def untouched_kick split: prod.split)

lemma untouched_clear_run_line: "untouched e (clear_run_line i e)"
  by (auto simp: clear_run_line_def untouched_crash untouched_kick split: option.split)

lemma untouched_unpark: "untouched e (snd (unpark i e))"
  by (auto simp: unpark_def untouchedI split: prod.split)

lemma untouched_markInvalid: "untouched e (markInvalid rec k reason e)"
proof (cases "map_option ie_reason (gm_get (e_invalid e) (r_run rec)) = Some reason")
  case False
  let ?e1 = "e\<lparr>e_invalid := gm_put (r_run rec) \<lparr>ie_pipeline = r_pipeline rec, ie_reason = reason\<rparr> (e_invalid e)\<rparr>"
  let ?e2 = "clear_run_line (r_run rec) (clearClassWait (r_run rec) ?e1)"
  have "untouched e ?e1" by (simp add: untouchedI)
  also have "untouched ?e1 (clearClassWait (r_run rec) ?e1)" by (rule untouched_clearClassWait)
  also have "untouched (clearClassWait (r_run rec) ?e1) ?e2" by (rule untouched_clear_run_line)
  also have "untouched ?e2 (emit (EvRunInvalid (r_run rec) k reason) ?e2)" by (simp add: untouched_emit)
  also have "untouched \<dots> (snd (unpark (r_run rec) \<dots>))" by (rule untouched_unpark)
  also have "untouched \<dots> (notify_waiters (r_run rec) \<dots>)" by (rule untouched_notify)
  finally show ?thesis using False by (simp add: markInvalid_def)
qed (simp add: markInvalid_def)

lemma untouched_acquireRunClass: "acquireRunClass env rec def e = (b, e') \<Longrightarrow> untouched e e'"
  by (auto simp: acquireRunClass_def Let_def untouched_kick split: if_splits prod.splits
      intro!: untouched_trans [OF untouched_kick(2) untouched_trans [OF untouched_Now untouched_emit]])

lemma untouched_acquireClass: "acquireClass env rec c e = (x, e') \<Longrightarrow> untouched e e'"
  by (auto simp: acquireClass_def Let_def split: prod.splits
      intro!: untouched_trans [OF untouched_Now untouched_kick(4)])

lemma untouched_completeRun: "untouched e (completeRun rec e)"
proof -
  let ?i = "r_run rec"
  let ?e1 = "emit (EvRunTerminal ?i (case r_outcome rec of None \<Rightarrow> OutcomeNone | Some oc \<Rightarrow> oc)
             (time_sub (r_updated_at rec) (r_created_at rec)) (r_failure rec)) e"
  let ?e2 = "releaseRunClass ?i ?e1"
  have "untouched e ?e1" by (simp add: untouched_emit)
  also have "untouched ?e1 ?e2" by (rule untouched_releaseRunClass)
  also have "untouched ?e2 (?e2\<lparr>e_pending_preempt := gm_del ?i (e_pending_preempt ?e2)\<rparr>)" by (simp add: untouchedI)
  also have "untouched \<dots> (notify_waiters ?i \<dots>)" by (rule untouched_notify)
  also have "untouched \<dots> (awaitTargetDone ?i \<dots>)" by (rule untouched_awaitTargetDone)
  finally show ?thesis by (simp add: completeRun_def Let_def)
qed

lemma untouched_retryGate: "retryGate env rec e = (d, e') \<Longrightarrow> untouched e e'"
  by (auto simp: retryGate_def split: if_splits prod.splits dest: untouched_Now)

lemma untouched_arm_timer: "untouched e (arm_timer i d e)"
  by (simp add: arm_timer_def untouchedI split: option.split)

lemma untouched_wake_run: "untouched e (snd (wake_run env rec done ex e))"
proof (cases "unpark (r_run rec) e")
  case (Pair since e1)
  then have "untouched e e1" using untouched_unpark [of e "r_run rec"] by simp
  moreover have "untouched e1 (emit (EvWaiterWoken i ts ds b d) (tick e1))" for i ts ds b d
    by (rule untouched_trans [OF untouched_tick untouched_emit]) simp
  ultimately show ?thesis using Pair
    by (auto simp: wake_run_def Now_def split: option.split intro: untouched_trans)
qed

lemma untouched_gate_settle: "untouched e (snd (snd (gate_settle env rec park e)))"
  by (auto simp: gate_settle_def Let_def Now_def untouched_wake_run untouched_tick
      intro: untouched_trans [OF untouched_tick] untouched_wake_run untouched_arm_timer)

lemma untouched_backoff: "backoff env n e = (d, e') \<Longrightarrow> untouched e e'"
  by (auto simp: backoff_def Let_def untouched_tick)

lemma untouched_markStarted: "markStarted env rec e = (rec', e') \<Longrightarrow> untouched e e'"
  by (auto simp: markStarted_def split: if_splits prod.splits dest: untouched_Now)

lemma untouched_ctx_cancel: "untouched e (ctx_cancel i c e)"
  by (auto simp: ctx_cancel_def untouchedI split: option.split)

lemma untouched_preemptAttempt: "untouched e (preemptAttempt i c e)"
  by (auto simp: preemptAttempt_def untouched_ctx_cancel untouchedI split: option.split)

lemma untouched_attemptContext: "untouched e (attemptContext i p e)"
proof -
  have "untouched e (e\<lparr>e_attempts := a, e_pending_preempt := q\<rparr>)" for a q by (simp add: untouchedI)
  then show ?thesis
    by (auto simp: attemptContext_def Let_def split: option.split intro: untouched_trans [OF _ untouched_ctx_cancel])
qed

lemma untouched_attempt_done: "untouched e (attempt_done i e)"
  by (simp add: attempt_done_def untouchedI)

lemma untouched_reduceInto: "reduceInto env rec what reduce view e = (x, e') \<Longrightarrow> untouched e e'"
  by (auto simp: reduceInto_def untouched_markInvalid split: reduce_result.splits option.splits if_splits sum.splits)

section \<open>How the composite operations decompose\<close>

text \<open>What the gate does to the record: nothing when it parks the run, and otherwise at most settle the park.\<close>

lemma fst_wake_run: "fst (wake_run env rec done ex e) = settleAwait rec done ex"
  by (simp add: wake_run_def split: prod.split option.split)

lemma gate_settle_rec:
  "gate_settle env rec park e = (b, rec', e') \<Longrightarrow> (if b then rec' = rec else \<exists>done ex. rec' = settleAwait rec done ex)"
  using fst_wake_run [of env rec] by (auto simp: gate_settle_def Let_def Now_def split: if_splits) (metis fst_conv)+

lemma awaitGate_rec:
  "awaitGate env rec e = (b, rec', e') \<Longrightarrow>
     (if b then rec' = rec else if r_awaiting rec = None then rec' = rec else \<exists>done ex. rec' = settleAwait rec done ex)"
  by (auto simp: awaitGate_def Now_def split: option.splits if_splits prod.splits bool.splits dest: gate_settle_rec)

lemma r_run_awaitGate: "awaitGate env rec e = (b, rec', e') \<Longrightarrow> r_run rec' = r_run rec"
  using awaitGate_rec [of env rec e b rec' e'] by (auto simp: settleAwait_def split: if_splits)

lemma parkAwait_cases:
  assumes "aw_targets park \<noteq> []" and "\<not> list_ex (\<lambda>t. t = []) (aw_targets park)"
  obtains park1 e1 ok rec2 e2 cyc e3 where "untouched e e1" and "aw_targets park1 = aw_targets park"
    and "apply_rec env (rec\<lparr>r_awaiting := Some park1, r_awaited := None\<rparr>)
           (cursor_transition (rec\<lparr>r_awaiting := Some park1, r_awaited := None\<rparr>) k n) e1 = (ok, rec2, e2)"
    and "awaitCycle env (r_run rec2) (aw_targets park1) e2 = (cyc, e3)"
    and "parkAwait env rec k n park timeout el e = (if ok then (case cyc of Inl err \<Rightarrow> (Leave second True, rec2, e3)
      | Inr True \<Rightarrow> (Leave 0 False, rec2, markInvalid rec2 k (cycle_reason (aw_targets park1)) e3)
      | Inr False \<Rightarrow> (Advance, rec2, emit (EvAttemptDone (r_run rec2) k (r_phase rec2) n el AttemptAwaiting None 0 False) e3))
    else (Leave second True, rec2, e2))"
proof -
  define park1 where "park1 = (if 0 < timeout then park\<lparr>aw_deadline := ev_clock env (e_tick e) + timeout\<rparr> else park)"
  define e1 where "e1 = (if 0 < timeout then tick e else e)"
  let ?rec1 = "rec\<lparr>r_awaiting := Some park1, r_awaited := None\<rparr>"
  obtain ok rec2 e2 where a: "apply_rec env ?rec1 (cursor_transition ?rec1 k n) e1 = (ok, rec2, e2)" by (metis prod_cases3)
  obtain cyc e3 where c: "awaitCycle env (r_run rec2) (aw_targets park1) e2 = (cyc, e3)" by fastforce
  have "untouched e e1" "aw_targets park1 = aw_targets park" by (simp_all add: e1_def park1_def untouched_tick)
  moreover have "parkAwait env rec k n park timeout el e = (if ok then (case cyc of Inl err \<Rightarrow> (Leave second True, rec2, e3)
      | Inr True \<Rightarrow> (Leave 0 False, rec2, markInvalid rec2 k (cycle_reason (aw_targets park1)) e3)
      | Inr False \<Rightarrow> (Advance, rec2, emit (EvAttemptDone (r_run rec2) k (r_phase rec2) n el AttemptAwaiting None 0 False) e3))
    else (Leave second True, rec2, e2))"
  proof (cases "0 < timeout")
    case True
    then have p1: "park1 = park\<lparr>aw_deadline := ev_clock env (e_tick e) + timeout\<rparr>" "e1 = tick e" by (simp_all add: park1_def e1_def)
    show ?thesis using True a c assms unfolding p1 by (simp add: parkAwait_def Now_def Let_def cursor_transition_def)
  next
    case False
    then have p1: "park1 = park" "e1 = e" by (simp_all add: park1_def e1_def)
    show ?thesis using False a c assms unfolding p1 by (simp add: parkAwait_def Let_def cursor_transition_def)
  qed
  ultimately show thesis using a c by (intro that [of e1 park1 ok rec2 e2 cyc e3])
qed

lemma cancelOperation_cases:
  obtains now e2 ok rec2 e3 where "untouched e e2"
    and "apply_rec env (canceled_rec env rec k pre err now)
           (resolve_transition (canceled_rec env rec k pre err now) k PhaseForward (r_failure (canceled_rec env rec k pre err now))) e2 = (ok, rec2, e3)"
    and "fst (cancelOperation env rec k pre err el e) = ok" and "fst (snd (cancelOperation env rec k pre err el e)) = rec2"
    and "\<exists>cause ts. untouched (cascade env cause ts e3) (snd (snd (cancelOperation env rec k pre err el e)))"
    and "\<not> ok \<Longrightarrow> snd (snd (cancelOperation env rec k pre err el e)) = e3"
proof -
  define e2 where "e2 = (case r_awaiting rec of None \<Rightarrow> tick e | Some _ \<Rightarrow> snd (unpark (r_run rec) (tick e)))"
  let ?now = "ev_clock env (e_tick e)"
  let ?rec1 = "canceled_rec env rec k pre err ?now"
  obtain ok rec2 e3 where a: "apply_rec env ?rec1 (resolve_transition ?rec1 k PhaseForward (r_failure ?rec1)) e2 = (ok, rec2, e3)"
    by (metis prod_cases3)
  have u: "untouched e e2" using untouched_trans [OF untouched_tick untouched_unpark]
    by (auto simp: e2_def untouched_tick split: option.split)
  let ?cause = "cancel_cause_text rec pre"
  define ts where "ts = (case r_awaiting rec of Some pk \<Rightarrow> if aw_cancel_cascade pk then aw_targets pk else [] | None \<Rightarrow> [])"
  let ?e4 = "cascade env ?cause ts e3"
  have ev: "untouched ?e4 (emit (EvRunUnwinding i' k' kd r' m') (clearClassWait j ?e4))"
      "untouched ?e4 (emit (EvRunUnwinding i' k' kd r' m') (emit (EvAttemptDone i2 k2 p2 n2 d2 AttemptCanceled er d3 pn) (clearClassWait j ?e4)))"
    for i' k' kd r' m' j i2 k2 p2 n2 d2 er d3 pn
    by (simp_all add: untouched_trans [OF untouched_clearClassWait untouched_emit]
        untouched_trans [OF untouched_trans [OF untouched_clearClassWait untouched_emit] untouched_emit])
  have e4: "(case r_awaiting rec of Some pk \<Rightarrow> if aw_cancel_cascade pk then cascade env ?cause (aw_targets pk) e3 else e3 | None \<Rightarrow> e3) = ?e4"
    by (simp add: ts_def split: option.split)
  have eq: "cancelOperation env rec k pre err el e = (if ok then (True, rec2, emit (EvRunUnwinding (r_run rec) k FailureKindCanceled (cancel_reason_text err) ?cause)
      (case err of None \<Rightarrow> clearClassWait (r_run rec) ?e4
       | Some _ \<Rightarrow> emit (EvAttemptDone (r_run rec) k PhaseForward (or_attempts (rec_op rec2 k PhaseForward)) el AttemptCanceled err 0 False) (clearClassWait (r_run rec) ?e4)))
    else (False, rec2, e3))"
    using a unfolding cancelOperation_def e4 [symmetric] by (simp add: Now_def Let_def e2_def)
  show thesis
  proof (rule that [OF u a])
    show "\<exists>cause ts. untouched (cascade env cause ts e3) (snd (snd (cancelOperation env rec k pre err el e)))"
    proof (cases ok)
      case True
      then show ?thesis unfolding eq using ev by (intro exI [of _ ?cause] exI [of _ ts]) (auto split: option.split)
    next
      case False
      then show ?thesis unfolding eq by (intro exI [of _ ?cause] exI [of _ "[]"]) simp
    qed
  qed (simp_all add: eq)
qed

section \<open>Operations on a store that keeps the contract\<close>

locale engine_client = run_store "ev_ops env" sinv rec_of
  for env :: "('s, 'm) env" and sinv :: "'s \<Rightarrow> bool" and rec_of :: "'s \<Rightarrow> run_id \<Rightarrow> run_record option" +
  fixes i :: run_id
  assumes keeps_run: "keeps sinv rec_of env i"
begin

lemma stable_yields: "stable sinv rec_of i e (yields env e)"
  using keeps_run stable_trans [OF untouched_stable [OF untouched_tick]] unfolding keeps_def yields_def by blast

lemma stable_forward:
  "Get p (ev_pipelines env) = Some d \<Longrightarrow> gm_get (bd_steps d) k = Some sc \<Longrightarrow> stable sinv rec_of i e (snd (bs_forward sc iv e))"
  using keeps_run unfolding keeps_def by blast

lemma stable_unwind:
  "Get p (ev_pipelines env) = Some d \<Longrightarrow> gm_get (bd_steps d) k = Some sc \<Longrightarrow> bs_unwind sc = Some h \<Longrightarrow> stable sinv rec_of i e (snd (h iv e))"
  using keeps_run unfolding keeps_def by blast

lemma stable_store:
  assumes "\<And>s. sinv s \<Longrightarrow> sinv (snd (f s)) \<and> only_cancels (rec_of s i) (rec_of (snd (f s)) i)"
  shows "stable sinv rec_of i e (snd (store_call env f e))"
proof -
  let ?e1 = "yields env e"
  have "stable sinv rec_of i ?e1 (?e1\<lparr>e_store := snd (f (e_store ?e1))\<rparr>)"
    using assms [of "e_store ?e1"] by (simp add: stable_def invokes_def)
  then have "stable sinv rec_of i e (?e1\<lparr>e_store := snd (f (e_store ?e1))\<rparr>)" using stable_trans [OF stable_yields] by blast
  then show ?thesis by (simp add: store_call_def Let_def case_prod_beta)
qed

lemma stable_st_get: "stable sinv rec_of i e (snd (st_get env j e))"
  unfolding st_get_def using get_law by (intro stable_store) (metis only_cancels_refl prod.collapse)

lemma stable_st_head: "stable sinv rec_of i e (snd (st_head env j e))"
  unfolding st_head_def using head_law by (intro stable_store) (metis only_cancels_refl prod.collapse)

lemma stable_st_apply:
  assumes "j \<noteq> i"
  shows "stable sinv rec_of i e (snd (st_apply env j t e))"
  unfolding st_apply_def
proof (rule stable_store)
  fix s assume inv: "sinv s"
  obtain res s' where a: "so_apply (ev_ops env) s j t = (res, s')" by fastforce
  from apply_law [OF inv a] assms show "sinv (snd (so_apply (ev_ops env) s j t)) \<and> only_cancels (rec_of s i) (rec_of (snd (so_apply (ev_ops env) s j t)) i)"
    unfolding a by (cases res) auto
qed

lemma only_cancels_request:
  assumes "sinv s"
  shows "sinv (snd (so_cancel (ev_ops env) s j req)) \<and> only_cancels (rec_of s i) (rec_of (snd (so_cancel (ev_ops env) s j req)) i)"
proof -
  obtain res s' where a: "so_cancel (ev_ops env) s j req = (res, s')" by fastforce
  note law = cancel_law [OF assms a]
  show ?thesis
  proof (cases "res = Inr True")
    case True
    then obtain r where r: "rec_of s j = Some r" "\<not> terminal r" "r_cancel r = None" "rec_of s' = (rec_of s)(j \<mapsto> r\<lparr>r_cancel := Some req\<rparr>)"
      using law by auto
    have "only_cancels (rec_of s i) (rec_of s' i)" using r by (cases "i = j") (auto simp: only_cancels_def)
    then show ?thesis using law a by simp
  next
    case False
    then show ?thesis using law a by (cases res) auto
  qed
qed

lemma stable_requestCancel: "stable sinv rec_of i e (snd (requestCancel env j cause e))"
proof -
  let ?req = "\<lparr>cr_cause = boundText (ev_text_limit env) cause, cr_at = ev_clock env (e_tick e)\<rparr>"
  let ?r = "st_cancel env j ?req (tick e)"
  have s: "stable sinv rec_of i e (snd ?r)"
    using stable_trans [OF untouched_stable [OF untouched_tick] stable_store [OF only_cancels_request]] by (simp add: st_cancel_def)
  have m: "stable sinv rec_of i e1 (e1\<lparr>e_dirty := dirty_Mark j (e_dirty e1)\<rparr>)" for e1 :: "('s, 'm) engine"
    by (simp add: stable_def invokes_def dirty_Mark_def)
  have u: "untouched (e1\<lparr>e_dirty := d\<rparr>) (dispatch j 0 (preemptAttempt j c (e1\<lparr>e_dirty := d\<rparr>)\<lparr>e_disp := q\<rparr>))" for e1 :: "('s, 'm) engine" and d q c
    by (rule untouched_trans [OF untouched_trans [OF untouched_preemptAttempt untouchedI] untouched_dispatch]) simp_all
  obtain res e2 where r: "?r = (res, e2)" by fastforce
  have "stable sinv rec_of i e (snd (requestCancel env j cause e))" if "res = Inr True"
    using stable_trans [OF stable_trans [OF s m] untouched_stable [OF u]] r that
    by (simp add: requestCancel_def Let_def Now_def)
  moreover have "snd (requestCancel env j cause e) = e2" if "res \<noteq> Inr True"
    using r that by (auto simp: requestCancel_def Let_def Now_def split: sum.split bool.split)
  ultimately show ?thesis using s r by (cases "res = Inr True") auto
qed

lemma stable_cascade: "stable sinv rec_of i e (cascade env cause ts e)"
proof (induction ts arbitrary: e)
  case (Cons t ts)
  show ?case using stable_trans [OF stable_requestCancel [of e t cause] Cons] by simp
qed simp

lemma stable_targetDone: "stable sinv rec_of i e (snd (targetDone env t e))"
  using stable_st_head [of e t] by (auto simp: targetDone_def split: prod.splits sum.splits)

lemma stable_cycle_walk: "env' = env \<Longrightarrow> stable sinv rec_of i e (snd (cycle_walk env' self stack visited e))"
proof (induction env' self stack visited e rule: cycle_walk.induct)
  case (1 env' self stack visited e)
  let ?cur = "last stack"
  note IH = 1(1-4)
  show ?case
  proof (cases "stack = [] \<or> maxVisited \<le> length visited \<or> ?cur = self")
    case True
    then show ?thesis by (subst cycle_walk.simps) (auto simp: Let_def)
  next
    case go: False
    show ?thesis
    proof (cases "?cur \<in> set visited")
      case True
      then show ?thesis using go 1(1) 1(6) by (subst cycle_walk.simps) (auto simp: Let_def)
    next
      case False
      obtain res e1 where h: "st_head env' ?cur e = (res, e1)" by fastforce
      have s: "stable sinv rec_of i e e1" using stable_st_head [of e ?cur] h 1(6) by simp
      then show ?thesis using go False 1(2-5) [OF _ refl refl] 1(6) h
        by (subst cycle_walk.simps) (auto simp: Let_def split: sum.split option.split intro: stable_trans [OF s], blast intro: stable_trans)
    qed
  qed
qed

lemma stable_awaitCycle: "stable sinv rec_of i e (snd (awaitCycle env self ts e))"
  by (simp add: awaitCycle_def stable_cycle_walk)

lemma stable_read_targets: "stable sinv rec_of i e (snd (read_targets env j ts e))"
proof (induction ts arbitrary: e)
  case (Cons t ts)
  obtain res e1 where r: "targetDone env t e = (res, e1)" by fastforce
  have s: "stable sinv rec_of i e e1" using stable_targetDone [of e t] r by simp
  have u: "untouched e1 (e1\<lparr>e_joins := j'\<rparr>)" for j' by (simp add: untouchedI)
  show ?case using r s Cons by (auto split: sum.split intro: stable_trans [OF s] stable_trans [OF stable_trans [OF s untouched_stable [OF u]]])
qed simp

lemma stable_awaitGate: "stable sinv rec_of i e (snd (snd (awaitGate env rec e)))"
proof (cases "r_awaiting rec")
  case (Some park)
  let ?j = "r_run rec" and ?ts = "aw_targets park"
  obtain b j where reg: "Register ?j ?ts (awaitNeed park) (ev_clock env (e_tick e)) (e_joins (tick e)) = (b, j)" by fastforce
  let ?e1 = "(tick e)\<lparr>e_joins := j\<rparr>"
  obtain cyc e2 where c: "awaitCycle env ?j ?ts ?e1 = (cyc, e2)" by fastforce
  obtain ok e3 where rd: "read_targets env ?j ?ts e2 = (ok, e3)" by fastforce
  have s1: "stable sinv rec_of i e ?e1"
    by (rule untouched_stable [OF untouched_trans [OF untouched_tick]]) (simp add: untouchedI)
  have s2: "stable sinv rec_of i e e2" using stable_trans [OF s1 stable_awaitCycle [of ?e1 ?j ?ts]] c by simp
  have s3: "stable sinv rec_of i e e3" using stable_trans [OF s2 stable_read_targets [of e2 ?j ?ts]] rd by simp
  note ends = stable_trans [OF s1 untouched_stable [OF untouched_gate_settle]]
    stable_trans [OF s2 untouched_stable [OF untouched_trans [OF untouched_unpark untouched_markInvalid]]]
    stable_trans [OF s3 untouched_stable [OF untouched_unpark]]
    stable_trans [OF s3 untouched_stable [OF untouched_gate_settle]]
    untouched_stable [OF untouched_markInvalid]
  show ?thesis using Some reg c rd
    by (cases b; cases ok) (auto simp: awaitGate_def Now_def intro: ends)
qed (simp add: awaitGate_def)

section \<open>The worker of another run\<close>

lemma stable_apply_other:
  assumes "apply_rec env rec t e = (ok, rec', e')" and "r_run rec \<noteq> i" and "stable sinv rec_of i e0 e"
  shows "stable sinv rec_of i e0 e'"
proof -
  define t1 where "t1 = t\<lparr>t_cursor := (t_cursor t)\<lparr>cu_updated_at := ev_clock env (e_tick e)\<rparr>,
      t_ops := flush_ops (cu_step (t_cursor t)) (r_steps rec) (t_ops t)\<rparr>"
  have "e' = snd (st_apply env (r_run rec) t1 (tick e))"
    using assms(1) by (auto simp: apply_rec_def Now_def Let_def t1_def split: prod.splits sum.splits)
  then show ?thesis
    using stable_trans [OF assms(3) stable_trans [OF untouched_stable [OF untouched_tick] stable_st_apply [OF assms(2)]]] by simp
qed

lemma stable_then: "stable sinv rec_of i e0 e \<Longrightarrow> untouched e e' \<Longrightarrow> stable sinv rec_of i e0 e'"
  using stable_trans untouched_stable by blast

lemma stable_intros:
  "\<not> is_invoke ev \<Longrightarrow> stable sinv rec_of i e0 e \<Longrightarrow> stable sinv rec_of i e0 (emit ev e)"
  "stable sinv rec_of i e0 e \<Longrightarrow> stable sinv rec_of i e0 (tick e)"
  "stable sinv rec_of i e0 e \<Longrightarrow> stable sinv rec_of i e0 (clearClassWait j e)"
  "stable sinv rec_of i e0 e \<Longrightarrow> stable sinv rec_of i e0 (snd (unpark j e))"
  "stable sinv rec_of i e0 e \<Longrightarrow> stable sinv rec_of i e0 (markInvalid rec k reason e)"
  "stable sinv rec_of i e0 e \<Longrightarrow> stable sinv rec_of i e0 (completeRun rec e)"
  "stable sinv rec_of i e0 e \<Longrightarrow> stable sinv rec_of i e0 (releaseClass c e)"
  "stable sinv rec_of i e0 e \<Longrightarrow> stable sinv rec_of i e0 (notify_waiters j e)"
  "stable sinv rec_of i e0 e \<Longrightarrow> stable sinv rec_of i e0 (awaitTargetDone j e)"
  "stable sinv rec_of i e0 e \<Longrightarrow> stable sinv rec_of i e0 (attemptContext j p e)"
  "stable sinv rec_of i e0 e \<Longrightarrow> stable sinv rec_of i e0 (attempt_done j e)"
  "stable sinv rec_of i e0 e \<Longrightarrow> stable sinv rec_of i e0 (crash e)"
  "stable sinv rec_of i e0 e \<Longrightarrow> stable sinv rec_of i e0 (cascade env cause ts e)"
  "stable sinv rec_of i e0 e \<Longrightarrow> stable sinv rec_of i e0 (snd (awaitCycle env j ts e))"
  by (blast intro: stable_then untouched_emit untouched_tick untouched_clearClassWait untouched_unpark untouched_markInvalid
      untouched_completeRun untouched_releaseClass untouched_notify untouched_awaitTargetDone untouched_attemptContext
      untouched_attempt_done untouched_crash stable_trans stable_cascade stable_awaitCycle)+

lemma stable_commit_other:
  assumes "r_run rec \<noteq> i" and "stable sinv rec_of i e0 e"
  shows "stable sinv rec_of i e0 (snd (snd (commit_outcome env rec oc e)))"
proof -
  let ?rec1 = "rec\<lparr>r_outcome := Some oc, r_phase := PhaseDone\<rparr>"
  let ?t = "\<lparr>t_cursor = idleCursor ?rec1, t_ops = [], t_failure = None, t_output = r_output ?rec1, t_outcome = r_outcome ?rec1\<rparr>"
  obtain ok rec2 e2 where a: "apply_rec env ?rec1 ?t e = (ok, rec2, e2)" by (metis prod_cases3)
  have s2: "stable sinv rec_of i e0 e2" by (rule stable_apply_other [OF a _ assms(2)]) (use assms in simp)
  show ?thesis using a s2 by (cases ok) (simp_all add: commit_outcome_def Let_def stable_intros)
qed

lemma r_run_reduceInto: "reduceInto env rec what rd view e = (Some rec1, e1) \<Longrightarrow> r_run rec1 = r_run rec"
  by (auto simp: reduceInto_def split: reduce_result.splits option.splits if_splits sum.splits)

lemma stable_reduce_other:
  assumes "r_run rec \<noteq> i"
  shows "stable sinv rec_of i e (snd (snd (reduceAndComplete env rec def e)))"
    and "stable sinv rec_of i e (snd (snd (reduceFailureAndComplete env rec def e)))"
  using assms
  by (auto simp: reduceAndComplete_def reduceFailureAndComplete_def Let_def r_run_reduceInto split: option.split prod.split
      intro!: stable_commit_other intro: untouched_stable untouched_reduceInto)

lemma r_run_canceled_rec [simp]: "r_run (canceled_rec env rec k pre err now) = r_run rec"
  by (simp add: canceled_rec_def Let_def clearLastError_def)

lemma stable_cancelOperation_other:
  assumes "r_run rec \<noteq> i" and "stable sinv rec_of i e0 e"
  shows "stable sinv rec_of i e0 (snd (snd (cancelOperation env rec k pre err el e)))"
proof (rule cancelOperation_cases [of e env rec k pre err el], goal_cases)
  case (1 now e2 ok rec2 e3)
  have "stable sinv rec_of i e0 e3" by (rule stable_apply_other [OF 1(2) _ stable_then [OF assms(2) 1(1)]]) (use assms in simp)
  then show ?case using 1(5) stable_intros(13) stable_then by blast
qed

lemma stable_parkAwait_other:
  assumes "r_run rec \<noteq> i" and "stable sinv rec_of i e0 e"
  shows "stable sinv rec_of i e0 (snd (snd (parkAwait env rec k n park timeout el e)))"
proof (cases "aw_targets park = [] \<or> list_ex (\<lambda>t. t = []) (aw_targets park)")
  case False
  then have f: "aw_targets park \<noteq> []" "\<not> list_ex (\<lambda>t. t = []) (aw_targets park)" by auto
  show ?thesis
  proof (rule parkAwait_cases [OF f, of e env rec k n timeout el], goal_cases)
    case (1 park1 e1 ok rec2 e2 cyc e3)
    have s2: "stable sinv rec_of i e0 e2" by (rule stable_apply_other [OF 1(3) _ stable_then [OF assms(2) 1(1)]]) (use assms in simp)
    have s3: "stable sinv rec_of i e0 e3" using stable_intros(14) [OF s2] 1(4) by (metis snd_conv)
    show ?case unfolding 1(5) using s2 s3 by (auto split: sum.split bool.split intro: stable_intros)
  qed
qed (use assms(2) in \<open>auto simp: parkAwait_def intro: stable_intros\<close>)

lemma r_run_op_recs [simp]:
  "r_run (succeeded_rec rec k p st) = r_run rec" "r_run (failed_forward_rec rec k fl) = r_run rec"
  "r_run (failed_unwind_rec rec k fl) = r_run rec" "r_run (reserved_rec rec k p) = r_run rec"
  "r_run (recordLastError env rec err now) = r_run rec"
  by (simp_all add: succeeded_rec_def failed_forward_rec_def failed_unwind_rec_def reserved_rec_def recordLastError_def Let_def clearLastError_def)

lemma stable_verdicts_other:
  assumes "r_run rec \<noteq> i" and "stable sinv rec_of i e0 e"
  shows "stable sinv rec_of i e0 (snd (snd (commit_success env rec k p st el e)))"
    and "stable sinv rec_of i e0 (snd (snd (fail_forward env rec k cause kd reason now el e)))"
    and "stable sinv rec_of i e0 (snd (snd (fail_unwind env rec k cause kd reason now el e)))"
    and "stable sinv rec_of i e0 (snd (snd (schedule_retry env rec k p err now el pn e)))"
    and "stable sinv rec_of i e0 (snd (snd (interrupt_attempt rec k p err el e)))"
proof -
  note other = stable_apply_other [OF _ _ assms(2)]
  show "stable sinv rec_of i e0 (snd (snd (commit_success env rec k p st el e)))"
    using assms(1) by (auto simp: commit_success_def Let_def split: prod.split bool.split dest!: other intro!: stable_intros(1))
  show "stable sinv rec_of i e0 (snd (snd (fail_forward env rec k cause kd reason now el e)))"
    using assms(1) by (auto simp: fail_forward_def Let_def split: prod.split bool.split dest!: other intro!: stable_intros(1))
  show "stable sinv rec_of i e0 (snd (snd (fail_unwind env rec k cause kd reason now el e)))"
    using assms(1) by (auto simp: fail_unwind_def Let_def split: prod.split bool.split dest!: other intro!: stable_intros(1))
  show "stable sinv rec_of i e0 (snd (snd (schedule_retry env rec k p err now el pn e)))"
    using assms(1) by (auto simp: schedule_retry_def backoff_def Let_def split: prod.split bool.split
        dest!: stable_apply_other [OF _ _ stable_intros(2) [OF assms(2)]] intro!: stable_intros(1))
  show "stable sinv rec_of i e0 (snd (snd (interrupt_attempt rec k p err el e)))"
    using assms(2) by (simp add: interrupt_attempt_def stable_intros(1))
qed

lemma stable_resolve_other:
  assumes "r_run rec \<noteq> i" and "stable sinv rec_of i e0 e"
  shows "stable sinv rec_of i e0 (snd (snd (resolve_forward env rec hs k a st e)))"
    and "stable sinv rec_of i e0 (snd (snd (resolve_unwind env rec k a st e)))"
proof -
  note now = stable_intros(2) [OF assms(2)]
  note parts = stable_parkAwait_other [OF assms(1) now] stable_verdicts_other [OF assms(1) now] stable_intros(5) [OF now] stable_intros(5) [OF assms(2)]
  have canc: "stable sinv rec_of i e0 e'" if "cancelOperation env rec k pre err el (tick e) = (ok, rec', e')" for pre err el ok rec' e'
    using stable_cancelOperation_other [OF assms(1) now, of k pre err el] that by simp
  show "stable sinv rec_of i e0 (snd (snd (resolve_forward env rec hs k a st e)))"
    by (auto simp: resolve_forward_def Now_def parts split: option.split prod.split sum.split dest: canc)
  show "stable sinv rec_of i e0 (snd (snd (resolve_unwind env rec k a st e)))"
    by (auto simp: resolve_unwind_def Now_def parts split: option.split prod.split sum.split)
qed

lemma stable_emit_other: "inv_run iv \<noteq> i \<Longrightarrow> stable sinv rec_of i e0 e \<Longrightarrow> stable sinv rec_of i e0 (emit (EvInvoke iv s) e)"
  by (simp add: stable_def emit_def)

lemma stable_invoke_other:
  fixes e0 e :: "('s, 'm) engine"
  assumes "inv_run iv \<noteq> i" and "stable sinv rec_of i e0 e"
  shows "(\<And>e. stable sinv rec_of i e (snd (h iv e))) \<Longrightarrow> stable sinv rec_of i e0 (snd (invokeForward h iv e))"
    and "(\<And>e f. ho = Some f \<Longrightarrow> stable sinv rec_of i e (snd (f iv e))) \<Longrightarrow> stable sinv rec_of i e0 (snd (invokeUnwind ho iv e))"
proof -
  let ?e2 = "\<lambda>p. emit (EvInvoke iv (e_store (attemptContext (inv_run iv) p e))) (attemptContext (inv_run iv) p e)"
  have e2: "stable sinv rec_of i e0 (?e2 p)" for p
    by (rule stable_emit_other [OF assms(1) stable_intros(10) [OF assms(2)]])
  show "stable sinv rec_of i e0 (snd (invokeForward h iv e))" if "\<And>e. stable sinv rec_of i e (snd (h iv e))"
    using stable_trans [OF e2 that] by (auto simp: invokeForward_def Let_def split: prod.split hresult.split intro!: stable_intros(11)) (metis snd_conv)+
  show "stable sinv rec_of i e0 (snd (invokeUnwind ho iv e))" if "\<And>e f. ho = Some f \<Longrightarrow> stable sinv rec_of i e (snd (f iv e))"
  proof (cases ho)
    case None
    then show ?thesis using e2 by (simp add: invokeUnwind_def Let_def stable_intros(11))
  next
    case (Some f)
    then show ?thesis using stable_trans [OF e2 that [OF Some]]
      by (auto simp: invokeUnwind_def Let_def split: prod.split hresult.split intro!: stable_intros(11)) (metis snd_conv)+
  qed
qed

lemma stable_reserve_other:
  assumes "r_run rec \<noteq> i" and "stable sinv rec_of i e0 e" and "reserve_attempt env rec k p e = (ok, rec', e')"
  shows "stable sinv rec_of i e0 e'" and "r_run rec' = r_run rec"
proof -
  obtain rec1 e1 where m: "markStarted env (reserved_rec rec k p) e = (rec1, e1)" by fastforce
  have r: "r_run rec1 = r_run rec" using m by (auto simp: markStarted_def Now_def split: if_splits)
  have a: "apply_rec env rec1 (cursor_transition rec1 k (or_attempts (rec_op rec1 k p))) e1 = (ok, rec', e')"
    using assms(3) m by (simp add: reserve_attempt_def)
  show "stable sinv rec_of i e0 e'"
    by (rule stable_apply_other [OF a _ stable_then [OF assms(2) untouched_markStarted [OF m]]]) (use r assms in simp)
  show "r_run rec' = r_run rec" using a r by (auto simp: apply_rec_def Now_def Let_def split: prod.splits sum.splits)
qed

lemma stable_run_other:
  assumes "r_run rec \<noteq> i" and "stable sinv rec_of i e0 e" and "Get p (ev_pipelines env) = Some def" and "gm_get (bd_steps def) k' = Some sc"
  shows "stable sinv rec_of i e0 (snd (snd (runForward env rec def sc k e)))"
    and "stable sinv rec_of i e0 (snd (snd (runUnwind env rec def sc k e)))"
proof -
  have f: "stable sinv rec_of i e (snd (bs_forward sc iv e))" "\<And>h. bs_unwind sc = Some h \<Longrightarrow> stable sinv rec_of i e (snd (h iv e))" for iv e
    using stable_forward [OF assms(3,4)] stable_unwind [OF assms(3,4)] by blast+
  have inv: "stable sinv rec_of i e0 (snd (invokeForward (bs_forward sc) iv (tick e1)))"
    "stable sinv rec_of i e0 (snd (invokeUnwind (bs_unwind sc) iv (tick e1)))"
    if "inv_run iv \<noteq> i" "stable sinv rec_of i e0 e1" for iv e1
    using stable_invoke_other [OF that(1) stable_intros(2) [OF that(2)]] f by blast+
  obtain ok rec1 e1 where r: "reserve_attempt env rec k PhaseForward e = (ok, rec1, e1)" by (metis prod_cases3)
  note res = stable_reserve_other [OF assms(1,2) r]
  let ?iv = "(invocation_of rec1 def k (or_attempts (rec_op rec1 k PhaseForward)) PhaseForward)\<lparr>inv_awaited := r_awaited rec1\<rparr>"
  have "inv_run ?iv \<noteq> i" using res assms(1) by (simp add: invocation_of_def)
  from inv(1) [OF this res(1)] show "stable sinv rec_of i e0 (snd (snd (runForward env rec def sc k e)))"
    using r res assms(1) by (cases ok) (auto simp: runForward_def Let_def Now_def split: prod.split intro: stable_resolve_other(1))
  obtain ok' rec1' e1' where r': "reserve_attempt env rec k PhaseUnwind e = (ok', rec1', e1')" by (metis prod_cases3)
  note res' = stable_reserve_other [OF assms(1,2) r']
  let ?iv' = "(invocation_of rec1' def k (or_attempts (rec_op rec1' k PhaseUnwind)) PhaseUnwind)\<lparr>inv_awaited := r_awaited rec1', inv_failure := r_failure rec1'\<rparr>"
  have "inv_run ?iv' \<noteq> i" using res' assms(1) by (simp add: invocation_of_def)
  from inv(2) [OF this res'(1)] show "stable sinv rec_of i e0 (snd (snd (runUnwind env rec def sc k e)))"
    using r' res' assms(1) by (cases ok') (auto simp: runUnwind_def Let_def Now_def split: prod.split intro: stable_resolve_other(2))
qed

lemma snd_of_verdict [simp]: "snd (of_verdict (vd, rec, e)) = e"
  by (simp add: of_verdict_def split: verdict.split)

lemma stable_with_class:
  assumes "stable sinv rec_of i e0 e" and "\<And>e. stable sinv rec_of i e0 e \<Longrightarrow> stable sinv rec_of i e0 (snd (snd (run e)))"
  shows "stable sinv rec_of i e0 (snd (with_class env rec c run e))"
proof -
  obtain x e1 where x: "acquireClass env rec c e = (x, e1)" by fastforce
  obtain pr h w where "x = (pr, h, w)" by (metis prod_cases3)
  with x have a: "acquireClass env rec c e = ((pr, h, w), e1)" by simp
  define e2 where "e2 = (if 0 < w then emit (EvClassWait (r_run rec) c w) e1 else e1)"
  have s1: "stable sinv rec_of i e0 e1" by (rule stable_then [OF assms(1) untouched_acquireClass [OF a]])
  then have s2: "stable sinv rec_of i e0 e2" by (simp add: e2_def stable_intros(1))
  obtain vd rec1 e3 where r: "run e2 = (vd, rec1, e3)" by (metis prod_cases3)
  have "stable sinv rec_of i e0 e3" using assms(2) [OF s2] r by simp
  then show ?thesis using a r s1 by (auto simp: with_class_def Let_def e2_def [symmetric] intro: stable_intros(7))
qed

lemma stable_steps_other:
  assumes "r_run rec \<noteq> i" and "Get p (ev_pipelines env) = Some def"
  shows "stable sinv rec_of i e (snd (step_forward env rec def k e))"
    and "stable sinv rec_of i e (snd (step_unwind env rec def k e))"
proof -
  obtain b rec1 e1 where g: "awaitGate env rec e = (b, rec1, e1)" by (metis prod_cases3)
  have r1: "r_run rec1 \<noteq> i" using r_run_awaitGate [OF g] assms(1) by simp
  have s1: "stable sinv rec_of i e e1" using stable_awaitGate [of e rec] g by simp
  obtain d e2 where rg: "retryGate env rec1 e1 = (d, e2)" by fastforce
  have s2: "stable sinv rec_of i e e2" by (rule stable_then [OF s1 untouched_retryGate [OF rg]])
  obtain b' e3 where rc: "acquireRunClass env rec1 def e2 = (b', e3)" by fastforce
  have s3: "stable sinv rec_of i e e3" by (rule stable_then [OF s2 untouched_acquireRunClass [OF rc]])
  have c: "stable sinv rec_of i e e'" if "cancelOperation env rec k pre err el e = (ok, rec', e')" for pre err el ok rec' e'
    using stable_cancelOperation_other [OF assms(1) stable_refl, of e k pre err el] that by simp
  have w: "stable sinv rec_of i e (snd (with_class env rec1 cl (runForward env rec1 def sc k) e3))"
    "stable sinv rec_of i e (snd (with_class env rec1 cl (runUnwind env rec1 def sc k) e2))" if "gm_get (bd_steps def) k = Some sc" for cl sc
    using stable_run_other [OF r1 _ assms(2) that] by (intro stable_with_class s2 s3; blast)+
  show "stable sinv rec_of i e (snd (step_forward env rec def k e))"
    using g rg rc s1 s2 s3 w(1) by (auto simp: step_forward_def split: option.split prod.split bool.split dest: c intro: stable_intros(12))
  show "stable sinv rec_of i e (snd (step_unwind env rec def k e))"
    using g rg s1 s2 w(2) by (auto simp: step_unwind_def split: option.split prod.split bool.split intro: stable_intros(12))
qed

lemma stable_reconcile_other:
  assumes "r_run rec \<noteq> i"
  shows "stable sinv rec_of i e (snd (reconcile env rec e))"
proof -
  have c: "stable sinv rec_of i e e'" if "reduceAndComplete env rec def e = (ok, rec', e')" for def ok rec' e'
    using stable_reduce_other(1) [OF assms, of e def] that by simp
  have d: "stable sinv rec_of i e e'" if "reduceFailureAndComplete env rec def e = (ok, rec', e')" for def ok rec' e'
    using stable_reduce_other(2) [OF assms, of e def] that by simp
  show ?thesis
    by (auto simp: reconcile_def stable_steps_other [OF assms] split: option.split kind.split prod.split bool.split
        dest: c d intro!: stable_intros(5,8,9))
qed

lemma stable_process_other:
  assumes "j \<noteq> i" and "\<And>rec. carried = Some rec \<Longrightarrow> r_run rec = j" and "sinv (e_store e)"
  shows "stable sinv rec_of i e (snd (process_step env j carried e))"
proof -
  let ?e = "yields env e"
  define e1 where "e1 = ?e\<lparr>e_dirty := snd (Take j (e_dirty ?e))\<rparr>"
  have s1: "stable sinv rec_of i e e1"
    by (rule stable_trans [OF stable_yields]) (use assms(1) in \<open>simp add: e1_def stable_def invokes_def Take_def\<close>)
  obtain res e2 where g: "st_get env j e1 = (res, e2)" by fastforce
  have s2: "stable sinv rec_of i e e2" using stable_trans [OF s1 stable_st_get [of e1 j]] g by simp
  have inv1: "sinv (e_store e1)" using s1 assms(3) by (simp add: stable_def)
  have "r_run rec = j" if "res = Inr rec" for rec
  proof -
    have y: "sinv (e_store (yields env e1))" using stable_yields [of e1] inv1 by (simp add: stable_def)
    obtain s' where gl: "so_get (ev_ops env) (e_store (yields env e1)) j = (res, s')"
      using g by (auto simp: st_get_def store_call_def Let_def split: prod.splits)
    have "rec_of (e_store (yields env e1)) j = Some rec" using get_law [OF y gl] that by simp
    then show ?thesis by (rule identity [OF y])
  qed
  then have rg: "stable sinv rec_of i e (snd (reconcile env rec e2))" if "res = Inr rec" for rec
    using stable_trans [OF s2 stable_reconcile_other] that assms(1) by blast
  have rc: "stable sinv rec_of i e (snd (reconcile env rec e1))" if "carried = Some rec" for rec
    using stable_trans [OF s1 stable_reconcile_other] assms(1,2) that by blast
  have e1: "?e\<lparr>e_dirty := (e_dirty ?e)\<lparr>ds_marked := ds_marked (e_dirty ?e) - {j}\<rparr>\<rparr> = e1" by (simp add: e1_def Take_def)
  have "snd (process_step env j carried e) = (if e_stopped ?e then ?e else
      case (if j \<in> ds_marked (e_dirty ?e) then None else carried) of Some rec \<Rightarrow> snd (reconcile env rec e1)
      | None \<Rightarrow> (case res of Inl err \<Rightarrow> e2 | Inr rec \<Rightarrow> snd (reconcile env rec e2)))"
  proof (cases "j \<in> ds_marked (e_dirty ?e)")
    case True
    then show ?thesis using g by (simp add: process_step_def Let_def Take_def e1 split: sum.split)
  next
    case False
    then have "e1 = ?e" by (simp add: e1_def Take_def)
    then show ?thesis using g False by (simp add: process_step_def Let_def Take_def split: option.split sum.split)
  qed
  then show ?thesis using s2 rg rc stable_yields [of e] by (auto split: option.split sum.split)
qed

end

end
