(* ===== verification/Engine_Spec.thy ===== *)
theory Engine_Spec
  imports Engine_Rely
begin

text \<open>
  What the engine promises about one run, as an abstract state machine: the phase, the operation of
  every step in either direction, the failure and the outcome. \<open>run_move\<close> is one durable move of the
  machine: reserving an attempt, resolving an operation, failing forward into the unwind, completing.
  Time, retries, parks, cancel requests and the queues are bookkeeping the machine does not see. The
  theory shows what every path of the machine keeps, and how the machine reads off a run record; that
  the worker's writes are paths of the machine is the subject of the theory \<open>Engine_Sync\<close>.
\<close>

section \<open>The machine\<close>

record run_abs =
  ra_phase :: phase
  ra_op :: "step_id \<Rightarrow> phase \<Rightarrow> operation_record"
  ra_failure :: "failure option"
  ra_outcome :: "outcome option"
  ra_pipeline :: pipeline_id

definition abs_run :: "run_record \<Rightarrow> run_abs" where
  "abs_run r = \<lparr>ra_phase = r_phase r, ra_op = rec_op r, ra_failure = r_failure r, ra_outcome = r_outcome r, ra_pipeline = r_pipeline r\<rparr>"

definition ra_put :: "step_id \<Rightarrow> phase \<Rightarrow> operation_record \<Rightarrow> run_abs \<Rightarrow> run_abs" where
  "ra_put k p op a = a\<lparr>ra_op := \<lambda>k' p'. if k' = k \<and> (p' = PhaseUnwind) = (p = PhaseUnwind) then op else ra_op a k' p'\<rparr>"

definition op_resolved :: "operation_record \<Rightarrow> bool" where
  "op_resolved op \<longleftrightarrow> or_status op = OpSucceeded \<or> or_status op = OpFailed"

text \<open>A resolution order later than every earlier one, unless the 32-bit counter wrapped to 0.\<close>

definition fresh_order :: "run_abs \<Rightarrow> u32 \<Rightarrow> bool" where
  "fresh_order a n \<longleftrightarrow> n = 0 \<or> (\<forall>k p. or_order (ra_op a k p) < n)"

definition compact_op :: "phase \<Rightarrow> operation_record \<Rightarrow> operation_record" where
  "compact_op p op = (if p = PhaseUnwind \<and> or_status op = OpFailed then op else zero_op)"

inductive run_move :: "topology \<Rightarrow> run_abs \<Rightarrow> run_abs \<Rightarrow> bool" for topo where
  reserve_forward: "ra_outcome a = None \<Longrightarrow> ra_phase a = PhaseForward \<Longrightarrow> k \<in> ls_id ` set topo \<Longrightarrow>
    \<not> op_resolved (ra_op a k PhaseForward) \<Longrightarrow>
    run_move topo a (ra_put k PhaseForward ((ra_op a k PhaseForward)
      \<lparr>or_status := OpUnresolved, or_attempts := or_attempts (ra_op a k PhaseForward) + 1\<rparr>) a)"
| reserve_unwind: "ra_outcome a = None \<Longrightarrow> ra_phase a = PhaseUnwind \<Longrightarrow> s \<in> set topo \<Longrightarrow> ls_unwind s \<Longrightarrow> k = ls_id s \<Longrightarrow>
    or_status (ra_op a k PhaseForward) = OpSucceeded \<Longrightarrow> \<not> op_resolved (ra_op a k PhaseUnwind) \<Longrightarrow>
    run_move topo a (ra_put k PhaseUnwind ((ra_op a k PhaseUnwind)
      \<lparr>or_status := OpUnresolved, or_attempts := or_attempts (ra_op a k PhaseUnwind) + 1\<rparr>) a)"
| succeed_forward: "ra_outcome a = None \<Longrightarrow> ra_phase a = PhaseForward \<Longrightarrow>
    or_status (ra_op a k PhaseForward) = OpUnresolved \<Longrightarrow> fresh_order a n \<Longrightarrow>
    run_move topo a (ra_put k PhaseForward ((ra_op a k PhaseForward)\<lparr>or_status := OpSucceeded, or_state := st, or_order := n\<rparr>) a)"
| succeed_unwind: "ra_outcome a = None \<Longrightarrow> ra_phase a = PhaseUnwind \<Longrightarrow>
    or_status (ra_op a k PhaseUnwind) = OpUnresolved \<Longrightarrow> fresh_order a n \<Longrightarrow>
    run_move topo a (ra_put k PhaseUnwind ((ra_op a k PhaseUnwind)\<lparr>or_status := OpSucceeded, or_order := n\<rparr>) a)"
| fail_forward: "ra_outcome a = None \<Longrightarrow> ra_phase a = PhaseForward \<Longrightarrow> \<not> op_resolved (ra_op a k PhaseForward) \<Longrightarrow>
    or_status (ra_op a k PhaseForward) = OpUnresolved \<or> f_kind fl = FailureKindCanceled \<Longrightarrow>
    f_step fl = k \<Longrightarrow> f_phase fl = PhaseForward \<Longrightarrow> f_attempt fl = or_attempts (ra_op a k PhaseForward) \<Longrightarrow> fresh_order a n \<Longrightarrow>
    run_move topo a (ra_put k PhaseForward ((ra_op a k PhaseForward)\<lparr>or_status := OpFailed, or_failure := Some fl, or_order := n\<rparr>)
      (a\<lparr>ra_phase := PhaseUnwind, ra_failure := Some fl\<rparr>))"
| fail_unwind: "ra_outcome a = None \<Longrightarrow> ra_phase a = PhaseUnwind \<Longrightarrow> or_status (ra_op a k PhaseUnwind) = OpUnresolved \<Longrightarrow>
    f_step fl = k \<Longrightarrow> f_phase fl = PhaseUnwind \<Longrightarrow> f_attempt fl = or_attempts (ra_op a k PhaseUnwind) \<Longrightarrow> fresh_order a n \<Longrightarrow>
    run_move topo a (ra_put k PhaseUnwind ((ra_op a k PhaseUnwind)\<lparr>or_status := OpFailed, or_failure := Some fl, or_order := n\<rparr>) a)"
| complete: "ra_outcome a = None \<Longrightarrow>
    ra_phase a = PhaseForward \<and> oc = OutcomeSuccess \<or> ra_phase a = PhaseUnwind \<and> oc = OutcomeFailure \<Longrightarrow>
    run_move topo a (a\<lparr>ra_phase := PhaseDone, ra_outcome := Some oc, ra_op := \<lambda>k p. compact_op p (ra_op a k p)\<rparr>)"

abbreviation run_path :: "topology \<Rightarrow> run_abs \<Rightarrow> run_abs \<Rightarrow> bool" where
  "run_path topo \<equiv> (run_move topo)\<^sup>*\<^sup>*"

definition run_start :: "run_abs \<Rightarrow> bool" where
  "run_start a \<longleftrightarrow> ra_phase a = PhaseForward \<and> ra_op a = (\<lambda>k p. zero_op) \<and> ra_failure a = None \<and> ra_outcome a = None"

section \<open>What every path keeps\<close>

text \<open>
  The shape of a run: forward without a failure and without unwinds; unwinding with one, where the
  failing step's operation is the only failed forward one and carries that failure, and only steps
  that succeeded are unwound; or finished with the outcome its failure calls for.
\<close>

definition run_wf :: "run_abs \<Rightarrow> bool" where
  "run_wf a \<longleftrightarrow> (case ra_outcome a of
     None \<Rightarrow>
       (ra_phase a = PhaseForward \<and> ra_failure a = None \<and> (\<forall>k. or_status (ra_op a k PhaseUnwind) = OpNone) \<and>
          (\<forall>k. or_status (ra_op a k PhaseForward) \<noteq> OpFailed)) \<or>
       (ra_phase a = PhaseUnwind \<and> (\<exists>fl. ra_failure a = Some fl \<and> f_phase fl = PhaseForward \<and>
          or_failure (ra_op a (f_step fl) PhaseForward) = Some fl \<and>
          (\<forall>k. or_status (ra_op a k PhaseForward) = OpFailed \<longleftrightarrow> k = f_step fl)) \<and>
          (\<forall>k. or_status (ra_op a k PhaseUnwind) \<noteq> OpNone \<longrightarrow> or_status (ra_op a k PhaseForward) = OpSucceeded))
   | Some oc \<Rightarrow> ra_phase a = PhaseDone \<and>
       (oc = OutcomeSuccess \<and> ra_failure a = None \<or> oc = OutcomeFailure \<and> ra_failure a \<noteq> None))"

lemma ra_put_sel [simp]:
  "ra_phase (ra_put k p op a) = ra_phase a" "ra_failure (ra_put k p op a) = ra_failure a" "ra_outcome (ra_put k p op a) = ra_outcome a"
  "ra_pipeline (ra_put k p op a) = ra_pipeline a"
  "ra_op (ra_put k p op a) k' p' = (if k' = k \<and> (p' = PhaseUnwind) = (p = PhaseUnwind) then op else ra_op a k' p')"
  by (simp_all add: ra_put_def)

lemma run_start_wf: "run_start a \<Longrightarrow> run_wf a"
  by (simp add: run_start_def run_wf_def zero_op_def)

lemma run_move_wf: "run_move topo a b \<Longrightarrow> run_wf a \<Longrightarrow> run_wf b"
proof (induction rule: run_move.induct)
  case (complete a oc)
  then show ?case by (auto simp: run_wf_def)
qed (auto simp: run_wf_def op_resolved_def)

lemma run_path_pipeline: "run_path topo a b \<Longrightarrow> ra_pipeline b = ra_pipeline a"
proof (induction rule: rtranclp_induct)
  case (step b c)
  from step(2) have "ra_pipeline c = ra_pipeline b" by (induction rule: run_move.induct) auto
  then show ?case using step(3) by simp
qed simp

lemma run_path_wf: "run_path topo a b \<Longrightarrow> run_wf a \<Longrightarrow> run_wf b"
  by (induction rule: rtranclp_induct) (auto intro: run_move_wf)

text \<open>Once resolved, an operation stays as it is until the run is terminal; the failure stays for good.\<close>

definition run_keeps :: "run_abs \<Rightarrow> run_abs \<Rightarrow> bool" where
  "run_keeps a b \<longleftrightarrow>
     (ra_outcome b = None \<longrightarrow> ra_outcome a = None \<and> (\<forall>k p. p = PhaseForward \<or> p = PhaseUnwind \<longrightarrow> op_resolved (ra_op a k p) \<longrightarrow> ra_op b k p = ra_op a k p)) \<and>
     (ra_outcome a \<noteq> None \<longrightarrow> b = a) \<and> (ra_failure a \<noteq> None \<longrightarrow> ra_failure b = ra_failure a) \<and>
     (ra_phase a = PhaseUnwind \<longrightarrow> ra_phase b = PhaseUnwind \<or> ra_phase b = PhaseDone)"

lemma run_keeps_refl [simp]: "run_keeps a a"
  by (simp add: run_keeps_def)

lemma run_keeps_trans:
  assumes ab: "run_keeps a b" and bc: "run_keeps b c" and d: "ra_phase b = PhaseDone \<Longrightarrow> ra_outcome b \<noteq> None"
  shows "run_keeps a c"
proof (cases "ra_outcome b = None")
  case True
  have 1: "ra_outcome a = None" "\<And>k p. p = PhaseForward \<or> p = PhaseUnwind \<Longrightarrow> op_resolved (ra_op a k p) \<Longrightarrow> ra_op b k p = ra_op a k p"
    using ab True unfolding run_keeps_def by blast+
  have 2: "ra_op c k p = ra_op a k p"
    if "ra_outcome c = None" "p = PhaseForward \<or> p = PhaseUnwind" "op_resolved (ra_op a k p)" for k p
    using bc 1(2) [OF that(2,3)] that unfolding run_keeps_def by metis
  have 3: "ra_failure a \<noteq> None \<longrightarrow> ra_failure c = ra_failure a"
    "ra_phase a = PhaseUnwind \<longrightarrow> ra_phase c = PhaseUnwind \<or> ra_phase c = PhaseDone"
    using ab bc d True unfolding run_keeps_def by metis+
  show ?thesis unfolding run_keeps_def using 1(1) 2 3 by blast
next
  case False
  then have "c = b" using bc by (simp add: run_keeps_def)
  then show ?thesis using ab by simp
qed

lemma run_wf_forward: "run_wf a \<Longrightarrow> ra_phase a = PhaseForward \<Longrightarrow> ra_failure a = None"
  by (auto simp: run_wf_def split: option.splits)

lemma run_move_keeps: "run_move topo a b \<Longrightarrow> run_wf a \<Longrightarrow> run_keeps a b"
proof (induction rule: run_move.induct)
  case (complete a oc)
  then show ?case by (auto simp: run_keeps_def)
qed (auto simp: run_keeps_def op_resolved_def dest: run_wf_forward)

lemma run_wf_done: "run_wf a \<Longrightarrow> ra_phase a = PhaseDone \<Longrightarrow> ra_outcome a \<noteq> None"
  by (auto simp: run_wf_def split: option.splits)

lemma run_path_keeps:
  assumes "run_path topo a b" and "run_wf a"
  shows "run_keeps a b"
  using assms(1)
proof (induction rule: rtranclp_induct)
  case (step b c)
  have "run_wf b" by (rule run_path_wf [OF step(1) assms(2)])
  then show ?case using run_keeps_trans [OF step(3) run_move_keeps [OF step(2)]] run_wf_done by blast
qed simp

section \<open>Reading the machine off a record\<close>

lemma abs_run_sel [simp]:
  "ra_phase (abs_run r) = r_phase r" "ra_op (abs_run r) = rec_op r" "ra_failure (abs_run r) = r_failure r" "ra_outcome (abs_run r) = r_outcome r"
  "ra_pipeline (abs_run r) = r_pipeline r"
  by (simp_all add: abs_run_def)

lemma abs_run_put_op: "abs_run (put_op k p op r) = ra_put k p op (abs_run r)"
  by (simp add: abs_run_def ra_put_def fun_eq_iff)

lemma rec_op_frame: "r_steps r' = r_steps r \<Longrightarrow> rec_op r' = rec_op r"
  by (simp add: fun_eq_iff rec_op_def rec_step_def)

lemma abs_run_eq:
  "r_steps r' = r_steps r \<Longrightarrow> abs_run r' = (abs_run r)\<lparr>ra_phase := r_phase r', ra_failure := r_failure r', ra_outcome := r_outcome r', ra_pipeline := r_pipeline r'\<rparr>"
  using rec_op_frame [of r' r] by (simp add: abs_run_def)

lemma rec_op_compact:
  assumes "gm_ok (r_steps r)"
  shows "rec_op (compact_terminal r) k p = compact_op p (rec_op r k p)"
  by (simp add: rec_op_def rec_step_def compact_terminal_def gm_get_compact [OF assms] compact_op_def sr_op_def zero_step_def zero_op_def
      split: option.split)

lemma abs_run_compact:
  assumes "gm_ok (r_steps r)"
  shows "abs_run (compact_terminal r) = (abs_run r)\<lparr>ra_op := \<lambda>k p. compact_op p (rec_op r k p)\<rparr>"
  using rec_op_compact [OF assms] by (simp add: abs_run_def fun_eq_iff) (simp add: compact_terminal_def)

lemma fresh_next_order: "fresh_order (abs_run r) (next_order r)"
proof (cases "max_order (r_steps r) = - 1")
  case True
  then show ?thesis by (simp add: fresh_order_def next_order_def)
next
  case False
  then show ?thesis using next_order_fresh by (simp add: fresh_order_def)
qed

section \<open>What the ledger selects\<close>

lemma forward_scan_mem: "forward_scan m u = Some v \<Longrightarrow> v = u \<or> (v, LOpUnresolved) \<in> set m"
  by (induction m u rule: forward_scan.induct) (auto split: ledger_op.splits if_splits)

lemma forward_find_run:
  "d_kind (forward_find m ss) = KindRunForward \<Longrightarrow>
     d_step (forward_find m ss) \<in> ls_id ` set ss \<and> fact_at m (d_step (forward_find m ss)) = LOpNone"
  by (induction ss) (auto simp: mk_decision_def invalid_def split: if_splits)

lemma forward_find_kind: "d_kind (forward_find m ss) \<in> {KindInvalid, KindRunForward, KindForwardComplete}"
  by (induction ss) (auto simp: mk_decision_def invalid_def)

lemma NextForward_kind: "d_kind (NextForward topo f) \<in> {KindInvalid, KindRunForward, KindForwardComplete}"
  using forward_find_kind by (auto simp: NextForward_def forward_violation_def mk_decision_def invalid_def split: option.split)

lemma NextForward_run:
  assumes "d_kind (NextForward topo f) = KindRunForward" and "gm_ok (fa_forward f)"
  shows "d_step (NextForward topo f) \<in> ls_id ` set topo \<and>
    (fact_at (fa_forward f) (d_step (NextForward topo f)) = LOpNone \<or> fact_at (fa_forward f) (d_step (NextForward topo f)) = LOpUnresolved)"
proof (cases "forward_scan (fa_forward f) []")
  case None
  then show ?thesis using assms(1) by (simp add: NextForward_def forward_violation_def)
next
  case (Some u)
  show ?thesis
  proof (cases "u = []")
    case True
    let ?ss = "drop (nat (forward_frontier (fa_forward f) 0 topo (-1) + 1)) topo"
    have nf: "NextForward topo f = forward_find (fa_forward f) ?ss" using Some True by (simp add: NextForward_def)
    show ?thesis using forward_find_run [of "fa_forward f" ?ss] assms(1) set_drop_subset [of _ topo] unfolding nf by blast
  next
    case False
    then have "(u, LOpUnresolved) \<in> set (fa_forward f)" using forward_scan_mem [OF Some] by simp
    then have "fact_at (fa_forward f) u = LOpUnresolved" by (rule fact_at_mem [OF assms(2)])
    then show ?thesis using Some False assms(1) topo_index_Some [of topo u]
      by (auto simp: NextForward_def mk_decision_def invalid_def split: option.splits)
  qed
qed

lemma unwind_find_kind: "d_kind (unwind_find f ss) \<in> {KindInvalid, KindRunUnwind, KindUnwindComplete}"
  by (induction ss) (auto simp: mk_decision_def split: ledger_op.split)

lemma NextUnwind_kind: "d_kind (NextUnwind topo f) \<in> {KindInvalid, KindRunUnwind, KindUnwindComplete}"
  using unwind_find_kind by (auto simp: NextUnwind_def unwind_violation_def split: option.split)

lemma unwind_find_run:
  "d_kind (unwind_find f ss) = KindRunUnwind \<Longrightarrow> \<exists>s\<in>set ss. ls_unwind s \<and> d_step (unwind_find f ss) = ls_id s \<and>
     fact_at (fa_forward f) (ls_id s) = LOpSucceeded \<and> (fact_at (fa_unwind f) (ls_id s) = LOpNone \<or> fact_at (fa_unwind f) (ls_id s) = LOpUnresolved)"
  by (induction ss) (auto simp: mk_decision_def split: ledger_op.splits if_splits)

lemma NextUnwind_run:
  assumes "d_kind (NextUnwind topo f) = KindRunUnwind"
  shows "\<exists>s\<in>set topo. ls_unwind s \<and> d_step (NextUnwind topo f) = ls_id s \<and>
     fact_at (fa_forward f) (ls_id s) = LOpSucceeded \<and> (fact_at (fa_unwind f) (ls_id s) = LOpNone \<or> fact_at (fa_unwind f) (ls_id s) = LOpUnresolved)"
proof (cases "unwind_scan (fa_unwind f) []")
  case None
  then show ?thesis using assms by (simp add: NextUnwind_def unwind_violation_def)
next
  case (Some u)
  let ?ss = "rev (take (unwind_frontier (fa_unwind f) 0 topo (length topo)) topo)"
  have nu: "NextUnwind topo f = unwind_find f ?ss" using Some by (simp add: NextUnwind_def)
  have sub: "set ?ss \<subseteq> set topo" using set_take_subset by simp
  show ?thesis using unwind_find_run [of f ?ss] assms sub unfolding nu by blast
qed

text \<open>The facts the ledger sees are the statuses of the record's operations.\<close>

lemma fact_at_factsOf:
  "fact_at (fa_forward (factsOf r)) k = opState (or_status (rec_op r k PhaseForward))"
  "fact_at (fa_unwind (factsOf r)) k = opState (or_status (rec_op r k PhaseUnwind))"
proof -
  have 1: "map_of (map (\<lambda>(k, sr). (k, g sr)) m) k = map_option g (map_of m k)" for g :: "step_record \<Rightarrow> ledger_op" and m
    by (induction m) auto
  show "fact_at (fa_forward (factsOf r)) k = opState (or_status (rec_op r k PhaseForward))"
    "fact_at (fa_unwind (factsOf r)) k = opState (or_status (rec_op r k PhaseUnwind))"
    by (simp_all add: fact_at_def factsOf_def 1 rec_op_def rec_step_def sr_op_def zero_step_def zero_op_def split: option.split)
qed

lemma opState_simps [simp]:
  "opState s = LOpNone \<longleftrightarrow> s = OpNone" "opState s = LOpUnresolved \<longleftrightarrow> s = OpUnresolved" "opState s = LOpSucceeded \<longleftrightarrow> s = OpSucceeded"
  by (cases s; simp)+

lemma gm_ok_factsOf: "gm_ok (r_steps r) \<Longrightarrow> gm_ok (fa_forward (factsOf r))"
  by (simp add: gm_ok_def factsOf_def case_prod_unfold comp_def)

text \<open>What a decision to run says about the record it was derived from.\<close>

lemma next_decision_forward:
  assumes "next_decision def r = Some dec" and "d_kind dec = KindRunForward" and "gm_ok (r_steps r)"
  shows "r_phase r = PhaseForward" and "d_step dec \<in> ls_id ` set (bd_topo def)" and "\<not> op_resolved (rec_op r (d_step dec) PhaseForward)"
proof -
  show p: "r_phase r = PhaseForward"
    using assms(1,2) NextUnwind_kind [of "bd_topo def" "factsOf r"] by (auto simp: next_decision_def split: phase.splits)
  then have "dec = NextForward (bd_topo def) (factsOf r)" using assms(1) by (simp add: next_decision_def)
  then show "d_step dec \<in> ls_id ` set (bd_topo def)" "\<not> op_resolved (rec_op r (d_step dec) PhaseForward)"
    using NextForward_run [of "bd_topo def" "factsOf r"] assms(2) gm_ok_factsOf [OF assms(3)] by (auto simp: op_resolved_def fact_at_factsOf)
qed

lemma next_decision_unwind:
  assumes "next_decision def r = Some dec" and "d_kind dec = KindRunUnwind"
  shows "r_phase r = PhaseUnwind" and "\<not> op_resolved (rec_op r (d_step dec) PhaseUnwind)"
    and "\<exists>s\<in>set (bd_topo def). ls_unwind s \<and> d_step dec = ls_id s" and "or_status (rec_op r (d_step dec) PhaseForward) = OpSucceeded"
proof -
  show p: "r_phase r = PhaseUnwind"
    using assms(1,2) NextForward_kind [of "bd_topo def" "factsOf r"] by (auto simp: next_decision_def split: phase.splits)
  then have "dec = NextUnwind (bd_topo def) (factsOf r)" using assms(1) by (simp add: next_decision_def)
  then show "\<not> op_resolved (rec_op r (d_step dec) PhaseUnwind)" "\<exists>s\<in>set (bd_topo def). ls_unwind s \<and> d_step dec = ls_id s"
    "or_status (rec_op r (d_step dec) PhaseForward) = OpSucceeded"
    using NextUnwind_run [of "bd_topo def" "factsOf r"] assms(2) by (auto simp: op_resolved_def fact_at_factsOf)
qed

lemma next_decision_complete:
  assumes "next_decision def r = Some dec"
  shows "d_kind dec = KindForwardComplete \<Longrightarrow> r_phase r = PhaseForward" and "d_kind dec = KindUnwindComplete \<Longrightarrow> r_phase r = PhaseUnwind"
  using assms NextForward_kind [of "bd_topo def" "factsOf r"] NextUnwind_kind [of "bd_topo def" "factsOf r"]
  by (auto simp: next_decision_def split: phase.splits)

end
