(* ===== verification/Engine_Sync.thy ===== *)
theory Engine_Sync
  imports Engine_Spec
begin

text \<open>
  The worker of a run against the store. A worker carries the record from one iteration to the next
  and rereads it only when the run is marked dirty, so the record it carries has to be what the
  store holds, up to a cancel request that arrived meanwhile. This theory shows that every write of
  the worker turns the stored record into the record the worker goes on with, that each write is a
  path of the machine of \<open>Engine_Spec\<close>, and that a handler is called only after the store holds
  the reservation of the attempt.
\<close>

section \<open>A transition and the record in memory\<close>

text \<open>Two records that agree on everything but the cursor fields and the cancel request.\<close>

definition same_frame :: "run_record \<Rightarrow> run_record \<Rightarrow> bool" where
  "same_frame r r' \<longleftrightarrow> r_run r' = r_run r \<and> r_pipeline r' = r_pipeline r \<and> r_resource r' = r_resource r \<and> r_annotations r' = r_annotations r \<and>
     r_input r' = r_input r \<and> r_output r' = r_output r \<and> r_outcome r' = r_outcome r \<and> r_created_at r' = r_created_at r"

definition same_core :: "run_record \<Rightarrow> run_record \<Rightarrow> bool" where
  "same_core r r' \<longleftrightarrow> same_frame r r' \<and> r_steps r' = r_steps r \<and> r_failure r' = r_failure r \<and> r_phase r' = r_phase r"

text \<open>The transition \<open>apply_rec\<close> hands to the store.\<close>

definition flushed :: "transition \<Rightarrow> run_record \<Rightarrow> gotime \<Rightarrow> transition" where
  "flushed t rec now = t\<lparr>t_cursor := (t_cursor t)\<lparr>cu_updated_at := now\<rparr>, t_ops := flush_ops (cu_step (t_cursor t)) (r_steps rec) (t_ops t)\<rparr>"

lemma same_core_refl [simp]: "same_core r r"
  by (simp add: same_core_def same_frame_def)

lemma same_core_cancel [simp]: "same_core r (r'\<lparr>r_cancel := c\<rparr>) = same_core r r'"
  by (simp add: same_core_def same_frame_def)

lemma apply_ops_noop:
  "(\<And>ow. ow \<in> set ows \<Longrightarrow> gm_has (r_steps r) (ow_step ow) \<and> rec_op r (ow_step ow) (ow_phase ow) = ow_record ow) \<Longrightarrow> apply_ops ows r = r"
proof (induction ows)
  case (Cons ow ows)
  have "put_op (ow_step ow) (ow_phase ow) (ow_record ow) r = r" using Cons.prems [of ow] put_op_same [of r "ow_step ow" "ow_phase ow"] by simp
  then show ?case using Cons by simp
qed simp

lemma flush_op_extra:
  "\<exists>extra. flush_op k sr p ops = ops @ extra \<and> (\<forall>ow\<in>set extra. ow_step ow = k \<and> ow_record ow = sr_op (ow_phase ow) sr)"
  by (auto simp: flush_op_def)

lemma flush_ops_extra:
  "\<exists>extra. flush_ops cur m ops = ops @ extra \<and>
     (\<forall>ow\<in>set extra. ow_step ow \<noteq> cur \<and> (\<exists>sr. (ow_step ow, sr) \<in> set m \<and> ow_record ow = sr_op (ow_phase ow) sr))"
proof (induction m arbitrary: ops)
  case (Cons x m)
  obtain k sr where x: "x = (k, sr)" by (cases x)
  obtain ex1 where 1: "flush_op k sr PhaseForward ops = ops @ ex1" "\<forall>ow\<in>set ex1. ow_step ow = k \<and> ow_record ow = sr_op (ow_phase ow) sr"
    using flush_op_extra by blast
  obtain ex2 where 2: "flush_op k sr PhaseUnwind (ops @ ex1) = (ops @ ex1) @ ex2" "\<forall>ow\<in>set ex2. ow_step ow = k \<and> ow_record ow = sr_op (ow_phase ow) sr"
    using flush_op_extra by blast
  obtain ex3 where 3: "flush_ops cur m (ops @ ex1 @ ex2) = (ops @ ex1 @ ex2) @ ex3"
      "\<forall>ow\<in>set ex3. ow_step ow \<noteq> cur \<and> (\<exists>sr. (ow_step ow, sr) \<in> set m \<and> ow_record ow = sr_op (ow_phase ow) sr)"
    using Cons [of "ops @ ex1 @ ex2"] by blast
  show ?case
  proof (cases "k = cur")
    case True
    then show ?thesis using Cons [of ops] x by auto
  next
    case False
    have "flush_ops cur (x # m) ops = ops @ (ex1 @ ex2 @ ex3)" using False x 1(1) 2(1) 3(1) by simp
    moreover have "\<forall>ow\<in>set (ex1 @ ex2 @ ex3). ow_step ow \<noteq> cur \<and> (\<exists>sr. (ow_step ow, sr) \<in> set (x # m) \<and> ow_record ow = sr_op (ow_phase ow) sr)"
      using False x 1(2) 2(2) 3(2) by fastforce
    ultimately show ?thesis by blast
  qed
qed simp

text \<open>Flushing writes only what the store already holds.\<close>

lemma flush_noop:
  assumes "gm_ok m" and "\<And>k. k \<noteq> cur \<Longrightarrow> gm_get (r_steps (apply_ops ops r)) k = gm_get m k"
  shows "apply_ops (flush_ops cur m ops) r = apply_ops ops r"
proof -
  obtain extra where f: "flush_ops cur m ops = ops @ extra"
    and ex: "\<forall>ow\<in>set extra. ow_step ow \<noteq> cur \<and> (\<exists>sr. (ow_step ow, sr) \<in> set m \<and> ow_record ow = sr_op (ow_phase ow) sr)"
    using flush_ops_extra by blast
  have "apply_ops extra (apply_ops ops r) = apply_ops ops r"
  proof (rule apply_ops_noop)
    fix ow assume "ow \<in> set extra"
    then obtain sr where "ow_step ow \<noteq> cur" "gm_get m (ow_step ow) = Some sr" "ow_record ow = sr_op (ow_phase ow) sr"
      using ex gm_get_mem [OF assms(1)] by blast
    then show "gm_has (r_steps (apply_ops ops r)) (ow_step ow) \<and> rec_op (apply_ops ops r) (ow_step ow) (ow_phase ow) = ow_record ow"
      using assms(2) by (simp add: rec_op_def rec_step_def)
  qed
  then show ?thesis by (simp add: f apply_ops_append)
qed

text \<open>What the store holds after the transition: the record in memory, with the store's cancel request.\<close>

definition written :: "transition \<Rightarrow> run_record \<Rightarrow> run_record \<Rightarrow> bool" where
  "written t rec rec1 \<longleftrightarrow> (\<forall>r now. same_core rec r \<longrightarrow> gm_ok (r_steps r) \<longrightarrow>
     apply_transition (flushed t rec1 now) r = rec1\<lparr>r_updated_at := now, r_cancel := r_cancel r\<rparr>)"

lemma put_op_cong: "r_steps r = r_steps r' \<Longrightarrow> r_steps (put_op k p op r) = r_steps (put_op k p op r')"
  by (simp add: put_op_def rec_step_def)

lemma written_cursor:
  assumes "same_frame rec rec1" and "r_failure rec1 = r_failure rec" and "k \<noteq> []" and p: "p = r_phase rec1"
    and st: "r_steps rec1 = r_steps (put_op k p ((rec_op rec k p)\<lparr>or_status := OpUnresolved, or_attempts := n\<rparr>) rec)"
  shows "written (cursor_transition rec1 k n) rec rec1"
  unfolding written_def
proof (intro allI impI)
  fix r now assume r: "same_core rec r" "gm_ok (r_steps r)"
  have steps: "r_steps r = r_steps rec" using r(1) by (simp add: same_core_def)
  have get: "gm_get (r_steps r) k' = gm_get (r_steps rec1) k'" if "k' \<noteq> k" for k'
    using that by (simp add: st steps put_op_def)
  have ok: "gm_ok (r_steps rec1)" using r(2) by (simp add: st steps [symmetric] gm_ok_put_op)
  have fl: "apply_ops (flush_ops k (r_steps rec1) []) r = r" using flush_noop [OF ok, of k "[]" r] get by simp
  have op: "rec_op (r\<lparr>r_phase := x1, r_next_attempt_at := x2, r_last_error := x3, r_last_reason := x4, r_last_error_at := x5, r_awaiting := x6,
      r_awaited := x7, r_updated_at := x8, r_started_at := x9\<rparr>) k p = rec_op rec k p" for x1 x2 x3 x4 x5 x6 x7 x8 x9
    by (simp add: rec_op_def rec_step_def steps)
  show "apply_transition (flushed (cursor_transition rec1 k n) rec1 now) r = rec1\<lparr>r_updated_at := now, r_cancel := r_cancel r\<rparr>"
    using assms(1,2,3) r(1) fl op [folded p]
    by (intro run_record.equality)
      (simp_all add: apply_transition_def flushed_def cursor_transition_def activeCursor_def apply_outcome_def apply_failure_def
        apply_cursor_def Let_def same_frame_def same_core_def p [symmetric] st put_op_def rec_step_def steps)
qed

lemma written_resolve:
  assumes "same_frame rec rec1" and f: "r_failure rec1 = (case fo of None \<Rightarrow> r_failure rec | Some fl \<Rightarrow> Some fl)"
    and st: "r_steps rec1 = r_steps (put_op k p (rec_op rec1 k p) rec)"
  shows "written (resolve_transition rec1 k p fo) rec rec1"
  unfolding written_def
proof (intro allI impI)
  fix r now assume r: "same_core rec r" "gm_ok (r_steps r)"
  have steps: "r_steps r = r_steps rec" using r(1) by (simp add: same_core_def)
  let ?r1 = "put_op k p (rec_op rec1 k p) r"
  have st': "r_steps ?r1 = r_steps rec1" by (rule trans [OF put_op_cong [OF steps] st [symmetric]])
  have ok: "gm_ok (r_steps rec1)" using gm_ok_put_op [OF r(2), of k p "rec_op rec1 k p"] st' by simp
  have fl: "apply_ops (flush_ops [] (r_steps rec1) [\<lparr>ow_step = k, ow_phase = p, ow_record = rec_op rec1 k p\<rparr>]) r = ?r1"
    by (subst flush_noop [OF ok]) (simp_all add: st')
  show "apply_transition (flushed (resolve_transition rec1 k p fo) rec1 now) r = rec1\<lparr>r_updated_at := now, r_cancel := r_cancel r\<rparr>"
    using assms(1) f r(1) fl st'
    by (intro run_record.equality)
      (simp_all add: apply_transition_def flushed_def resolve_transition_def idleCursor_def activeCursor_def apply_outcome_def apply_failure_def
        apply_cursor_def Let_def same_frame_def same_core_def split: option.splits)
qed

text \<open>The terminal commit: the store holds the compacted record.\<close>

lemma written_outcome:
  fixes rec r :: run_record and out :: "bytes option" and oc :: outcome
  assumes "same_core rec r" and "gm_ok (r_steps r)"
  defines "rec1 \<equiv> rec\<lparr>r_output := out, r_outcome := Some oc, r_phase := PhaseDone\<rparr>"
  shows "apply_transition (flushed \<lparr>t_cursor = idleCursor rec1, t_ops = [], t_failure = None, t_output = r_output rec1, t_outcome = r_outcome rec1\<rparr> rec1 now) r
    = compact_terminal (rec1\<lparr>r_updated_at := now, r_cancel := r_cancel r\<rparr>)"
proof -
  have steps: "r_steps r = r_steps rec1" using assms(1) by (simp add: same_core_def rec1_def)
  have fl: "apply_ops (flush_ops [] (r_steps rec1) []) r = r"
    using flush_noop [of "r_steps rec1" "[]" "[]" r] assms(2) by (simp add: steps)
  show ?thesis using assms(1) fl steps
    by (intro run_record.equality)
      (simp_all add: apply_transition_def flushed_def idleCursor_def activeCursor_def apply_outcome_def apply_failure_def compact_terminal_def
        apply_cursor_def Let_def same_frame_def same_core_def rec1_def)
qed

section \<open>The records the worker builds\<close>

lemma same_core_abs: "same_core rec r \<Longrightarrow> abs_run r = abs_run rec"
  using rec_op_frame [of r rec] by (simp add: abs_run_def same_core_def same_frame_def)

lemma reserved_written:
  assumes "k \<noteq> []" and "r_phase rec = p" and "rec1 = (reserved_rec rec k p)\<lparr>r_started_at := t\<rparr>"
  shows "written (cursor_transition rec1 k (or_attempts (rec_op rec1 k p))) rec rec1" and "same_frame rec rec1"
proof -
  show sf: "same_frame rec rec1" by (simp add: assms(3) reserved_rec_def same_frame_def)
  have n: "or_attempts (rec_op rec1 k p) = or_attempts (rec_op rec k p) + 1"
    by (simp add: assms(3) reserved_rec_def rec_op_def rec_step_def put_op_def)
  show "written (cursor_transition rec1 k (or_attempts (rec_op rec1 k p))) rec rec1"
    by (rule written_cursor [OF sf _ assms(1), of p]) (simp_all add: assms(3) assms(2) [symmetric] reserved_rec_def n [unfolded assms(3)] put_op_def rec_op_def rec_step_def)
qed

text \<open>A transition that only moves the cursor of an operation in flight.\<close>

lemma in_flight_written:
  assumes "k \<noteq> []" and "same_core rec rec1" and "r_phase rec = p" and "gm_has (r_steps rec) k" and "or_status (rec_op rec k p) = OpUnresolved"
  shows "written (cursor_transition rec1 k (or_attempts (rec_op rec k p))) rec rec1"
proof (rule written_cursor [OF _ _ assms(1), of rec rec1 p])
  have "(rec_op rec k p)\<lparr>or_status := OpUnresolved, or_attempts := or_attempts (rec_op rec k p)\<rparr> = rec_op rec k p"
    using assms(5) by simp
  then show "r_steps rec1 = r_steps (put_op k p ((rec_op rec k p)\<lparr>or_status := OpUnresolved, or_attempts := or_attempts (rec_op rec k p)\<rparr>) rec)"
    using put_op_same [OF assms(4), of p] assms(2) by (simp add: same_core_def)
qed (use assms in \<open>simp_all add: same_core_def\<close>)

lemma resolved_written:
  assumes "same_frame rec rec1" and "r_failure rec1 = (case fo of None \<Rightarrow> r_failure rec | Some fl \<Rightarrow> Some fl)"
    and "r_steps rec1 = r_steps (put_op k p op rec)"
  shows "written (resolve_transition rec1 k p fo) rec rec1"
proof -
  have "rec_op rec1 k p = op" by (simp add: rec_op_frame [OF assms(3)])
  then show ?thesis using written_resolve [OF assms(1,2)] assms(3) by simp
qed

lemma succeeded_written:
  "same_frame rec (succeeded_rec rec k p st)" "written (resolve_transition (succeeded_rec rec k p st) k p None) rec (succeeded_rec rec k p st)"
proof -
  show sf: "same_frame rec (succeeded_rec rec k p st)"
    by (simp add: succeeded_rec_def same_frame_def Let_def clearLastError_def)
  show "written (resolve_transition (succeeded_rec rec k p st) k p None) rec (succeeded_rec rec k p st)"
    by (rule resolved_written [OF sf]) (simp_all add: succeeded_rec_def Let_def clearLastError_def)
qed

lemma failed_unwind_written:
  "same_frame rec (failed_unwind_rec rec k fl)" "written (resolve_transition (failed_unwind_rec rec k fl) k PhaseUnwind None) rec (failed_unwind_rec rec k fl)"
proof -
  show sf: "same_frame rec (failed_unwind_rec rec k fl)"
    by (simp add: failed_unwind_rec_def same_frame_def Let_def clearLastError_def)
  show "written (resolve_transition (failed_unwind_rec rec k fl) k PhaseUnwind None) rec (failed_unwind_rec rec k fl)"
    by (rule resolved_written [OF sf]) (simp_all add: failed_unwind_rec_def Let_def clearLastError_def)
qed

text \<open>The failure a resolution records: it names the operation and its attempt, and opens the unwind.\<close>

definition failed_rec :: "run_record \<Rightarrow> run_record \<Rightarrow> step_id \<Rightarrow> failure \<Rightarrow> bool" where
  "failed_rec rec rec1 k fl \<longleftrightarrow> same_frame rec rec1 \<and> r_failure rec1 = Some fl \<and> r_phase rec1 = PhaseUnwind \<and> r_cancel rec1 = r_cancel rec \<and>
     (\<exists>n. fresh_order (abs_run rec) n \<and> r_steps rec1 = r_steps (put_op k PhaseForward
       ((rec_op rec k PhaseForward)\<lparr>or_status := OpFailed, or_failure := Some fl, or_order := n\<rparr>) rec))"

lemma max_order_put_op:
  assumes "or_order op = or_order (rec_op r k p)"
  shows "fresh_order (abs_run r) (next_order (put_op k p op r))"
proof -
  have "or_order (rec_op (put_op k p op r) k' p') = or_order (rec_op r k' p')" for k' p'
    using assms by (auto simp: rec_op_def sr_op_def sr_put_def)
  then show ?thesis using fresh_next_order [of "put_op k p op r"] by (simp add: fresh_order_def)
qed

lemma failed_forward_failed: "failed_rec rec (failed_forward_rec rec k fl) k fl"
proof -
  let ?op = "(rec_op rec k PhaseForward)\<lparr>or_status := OpFailed\<rparr>"
  let ?n = "next_order (put_op k PhaseForward ?op rec)"
  have "fresh_order (abs_run rec) ?n" by (rule max_order_put_op) simp
  moreover have "r_steps (failed_forward_rec rec k fl) = r_steps (put_op k PhaseForward (?op\<lparr>or_failure := Some fl, or_order := ?n\<rparr>) rec)"
    by (simp add: failed_forward_rec_def Let_def clearLastError_def put_op_def rec_step_def next_order_def)
  ultimately show ?thesis
    by (auto simp: failed_rec_def same_frame_def) (simp_all add: failed_forward_rec_def Let_def clearLastError_def)
qed

lemma canceled_failed:
  "failed_rec rec (canceled_rec env rec k pre err now) k (the (r_failure (canceled_rec env rec k pre err now)))"
proof -
  let ?op = "(rec_op rec k PhaseForward)\<lparr>or_status := OpFailed\<rparr>" and ?r = "canceled_rec env rec k pre err now"
  let ?n = "next_order (put_op k PhaseForward ?op rec)"
  have "fresh_order (abs_run rec) ?n" by (rule max_order_put_op) simp
  moreover have "r_steps ?r = r_steps (put_op k PhaseForward (?op\<lparr>or_failure := Some (the (r_failure ?r)), or_order := ?n\<rparr>) rec)"
    by (simp add: canceled_rec_def Let_def clearLastError_def put_op_def rec_step_def next_order_def)
  ultimately show ?thesis
    by (auto simp: failed_rec_def same_frame_def) (simp_all add: canceled_rec_def Let_def clearLastError_def)
qed

lemma canceled_failure:
  "f_step (the (r_failure (canceled_rec env rec k pre err now))) = k"
  "f_phase (the (r_failure (canceled_rec env rec k pre err now))) = PhaseForward"
  "f_attempt (the (r_failure (canceled_rec env rec k pre err now))) = or_attempts (rec_op rec k PhaseForward)"
  "f_kind (the (r_failure (canceled_rec env rec k pre err now))) = FailureKindCanceled"
  by (simp_all add: canceled_rec_def Let_def clearLastError_def)

lemma failed_written: "failed_rec rec rec1 k fl \<Longrightarrow> written (resolve_transition rec1 k PhaseForward (r_failure rec1)) rec rec1"
  unfolding failed_rec_def by (elim conjE exE, rule resolved_written) auto

section \<open>The moves the records make\<close>

lemma failed_move:
  assumes "failed_rec rec rec1 k fl" and "r_outcome rec = None" and "r_phase rec = PhaseForward" and "\<not> op_resolved (rec_op rec k PhaseForward)"
    and "or_status (rec_op rec k PhaseForward) = OpUnresolved \<or> f_kind fl = FailureKindCanceled"
    and "f_step fl = k" and "f_phase fl = PhaseForward" and "f_attempt fl = or_attempts (rec_op rec k PhaseForward)"
  shows "run_move topo (abs_run rec) (abs_run rec1)"
proof -
  obtain n where n: "fresh_order (abs_run rec) n" and st: "r_steps rec1 = r_steps (put_op k PhaseForward
       ((rec_op rec k PhaseForward)\<lparr>or_status := OpFailed, or_failure := Some fl, or_order := n\<rparr>) rec)"
    using assms(1) by (auto simp: failed_rec_def)
  let ?a = "abs_run rec"
  have "abs_run rec1 = ra_put k PhaseForward ((ra_op ?a k PhaseForward)\<lparr>or_status := OpFailed, or_failure := Some fl, or_order := n\<rparr>)
      (?a\<lparr>ra_phase := PhaseUnwind, ra_failure := Some fl\<rparr>)"
    unfolding abs_run_eq [OF st] abs_run_put_op using assms(1)
    by (simp add: failed_rec_def ra_put_def same_frame_def) (simp add: abs_run_def fun_eq_iff)
  then show ?thesis using run_move.fail_forward [of ?a k fl n topo] n assms by simp
qed

lemma reserved_move:
  assumes "r_outcome rec = None" and "r_phase rec = p" and "\<not> op_resolved (rec_op rec k p)"
    and "p = PhaseForward \<and> k \<in> ls_id ` set topo \<or>
      p = PhaseUnwind \<and> (\<exists>s\<in>set topo. ls_unwind s \<and> k = ls_id s) \<and> or_status (rec_op rec k PhaseForward) = OpSucceeded"
  shows "run_move topo (abs_run rec) (abs_run ((reserved_rec rec k p)\<lparr>r_started_at := t\<rparr>))"
proof -
  let ?op = "(rec_op rec k p)\<lparr>or_status := OpUnresolved, or_attempts := or_attempts (rec_op rec k p) + 1\<rparr>"
  have st: "r_steps ((reserved_rec rec k p)\<lparr>r_started_at := t\<rparr>) = r_steps (put_op k p ?op rec)" by (simp add: reserved_rec_def)
  have "abs_run ((reserved_rec rec k p)\<lparr>r_started_at := t\<rparr>) = ra_put k p ?op (abs_run rec)"
    unfolding abs_run_eq [OF st] abs_run_put_op by (simp add: reserved_rec_def ra_put_def abs_run_def)
  then show ?thesis using assms run_move.reserve_forward [of "abs_run rec" k topo] run_move.reserve_unwind [of "abs_run rec" _ topo k] by auto
qed

lemma succeeded_move:
  assumes "r_outcome rec = None" and "r_phase rec = p" and "p = PhaseForward \<or> p = PhaseUnwind" and "or_status (rec_op rec k p) = OpUnresolved"
  shows "run_move topo (abs_run rec) (abs_run (succeeded_rec rec k p st))"
proof -
  let ?op = "let op = (rec_op rec k p)\<lparr>or_status := OpSucceeded\<rparr> in if p = PhaseForward then op\<lparr>or_state := st\<rparr> else op"
  let ?n = "next_order (put_op k p ?op rec)"
  have n: "fresh_order (abs_run rec) ?n" by (rule max_order_put_op) (simp add: Let_def)
  have s: "r_steps (succeeded_rec rec k p st) = r_steps (put_op k p (?op\<lparr>or_order := ?n\<rparr>) rec)"
    by (simp add: succeeded_rec_def Let_def clearLastError_def)
  have "abs_run (succeeded_rec rec k p st) = ra_put k p (?op\<lparr>or_order := ?n\<rparr>) (abs_run rec)"
    unfolding abs_run_eq [OF s] abs_run_put_op by (simp add: succeeded_rec_def ra_put_def abs_run_def Let_def clearLastError_def)
  then show ?thesis using assms n run_move.succeed_forward [of "abs_run rec" k ?n topo st] run_move.succeed_unwind [of "abs_run rec" k ?n topo]
    by (auto simp: Let_def)
qed

lemma failed_unwind_move:
  assumes "r_outcome rec = None" and "r_phase rec = PhaseUnwind" and "or_status (rec_op rec k PhaseUnwind) = OpUnresolved"
    and "f_step fl = k" and "f_phase fl = PhaseUnwind" and "f_attempt fl = or_attempts (rec_op rec k PhaseUnwind)"
  shows "run_move topo (abs_run rec) (abs_run (failed_unwind_rec rec k fl))"
proof -
  let ?op = "(rec_op rec k PhaseUnwind)\<lparr>or_status := OpFailed, or_failure := Some fl\<rparr>"
  let ?n = "next_order (put_op k PhaseUnwind ?op rec)"
  have n: "fresh_order (abs_run rec) ?n" by (rule max_order_put_op) simp
  have s: "r_steps (failed_unwind_rec rec k fl) = r_steps (put_op k PhaseUnwind (?op\<lparr>or_order := ?n\<rparr>) rec)"
    by (simp add: failed_unwind_rec_def Let_def clearLastError_def)
  have "abs_run (failed_unwind_rec rec k fl) = ra_put k PhaseUnwind (?op\<lparr>or_order := ?n\<rparr>) (abs_run rec)"
    unfolding abs_run_eq [OF s] abs_run_put_op by (simp add: failed_unwind_rec_def ra_put_def abs_run_def Let_def clearLastError_def)
  then show ?thesis using assms n run_move.fail_unwind [of "abs_run rec" k fl ?n topo] by simp
qed

lemma completed_move:
  assumes "gm_ok (r_steps rec)" and "r_outcome rec = None"
    and "r_phase rec = PhaseForward \<and> oc = OutcomeSuccess \<or> r_phase rec = PhaseUnwind \<and> oc = OutcomeFailure"
  shows "run_move topo (abs_run rec) (abs_run (compact_terminal (rec\<lparr>r_output := out, r_outcome := Some oc, r_phase := PhaseDone, r_updated_at := now, r_cancel := c\<rparr>)))"
proof -
  let ?r = "rec\<lparr>r_output := out, r_outcome := Some oc, r_phase := PhaseDone, r_updated_at := now, r_cancel := c\<rparr>"
  have ok: "gm_ok (r_steps ?r)" and st: "r_steps ?r = r_steps rec" using assms(1) by simp_all
  have "abs_run (compact_terminal ?r) = (abs_run rec)\<lparr>ra_phase := PhaseDone, ra_outcome := Some oc, ra_op := \<lambda>k p. compact_op p (ra_op (abs_run rec) k p)\<rparr>"
    unfolding abs_run_compact [OF ok] abs_run_eq [OF st] using rec_op_frame [OF st] by (simp add: abs_run_def)
  then show ?thesis using run_move.complete [of "abs_run rec" oc topo] assms(2,3) by simp
qed

section \<open>Following the stored record\<close>

text \<open>
  Where a worker stands: the store holds the run's record, reached from \<open>a0\<close> by moves of the machine,
  and the handler calls made for the run are \<open>L\<close>. \<open>tracks\<close> adds that the worker's record agrees with it
  up to the cursor, \<open>carries\<close> that it is the stored one up to a cancel request.
\<close>

definition settled :: "('s \<Rightarrow> bool) \<Rightarrow> ('s \<Rightarrow> run_id \<Rightarrow> run_record option) \<Rightarrow> topology \<Rightarrow> run_abs \<Rightarrow> ('m invocation \<times> 's) list \<Rightarrow> run_id \<Rightarrow>
    ('s, 'm) engine \<Rightarrow> bool" where
  "settled sinv rec_of topo a0 L i e \<longleftrightarrow> sinv (e_store e) \<and> invokes i e = L \<and>
     (\<exists>r. rec_of (e_store e) i = Some r \<and> run_path topo a0 (abs_run r))"

definition tracks :: "('s \<Rightarrow> bool) \<Rightarrow> ('s \<Rightarrow> run_id \<Rightarrow> run_record option) \<Rightarrow> topology \<Rightarrow> run_abs \<Rightarrow> ('m invocation \<times> 's) list \<Rightarrow> run_record \<Rightarrow>
    ('s, 'm) engine \<Rightarrow> bool" where
  "tracks sinv rec_of topo a0 L rec e \<longleftrightarrow> sinv (e_store e) \<and> invokes (r_run rec) e = L \<and> \<not> terminal rec \<and>
     (\<exists>r. rec_of (e_store e) (r_run rec) = Some r \<and> same_core rec r \<and> (r_cancel rec \<noteq> None \<longrightarrow> r_cancel r = r_cancel rec) \<and>
        run_path topo a0 (abs_run r))"

definition carries :: "('s \<Rightarrow> bool) \<Rightarrow> ('s \<Rightarrow> run_id \<Rightarrow> run_record option) \<Rightarrow> topology \<Rightarrow> run_abs \<Rightarrow> ('m invocation \<times> 's) list \<Rightarrow> run_record \<Rightarrow>
    ('s, 'm) engine \<Rightarrow> bool" where
  "carries sinv rec_of topo a0 L rec e \<longleftrightarrow> tracks sinv rec_of topo a0 L rec e \<and>
     (\<exists>c. rec_of (e_store e) (r_run rec) = Some (rec\<lparr>r_cancel := c\<rparr>))"

lemma tracks_settled: "tracks sinv rec_of topo a0 L rec e \<Longrightarrow> settled sinv rec_of topo a0 L (r_run rec) e"
  by (auto simp: tracks_def settled_def)

lemma settledI:
  "sinv (e_store e) \<Longrightarrow> invokes i e = L \<Longrightarrow> rec_of (e_store e) i = Some r \<Longrightarrow> run_path topo a0 (abs_run r) \<Longrightarrow> settled sinv rec_of topo a0 L i e"
  by (auto simp: settled_def)

lemma carries_tracks: "carries sinv rec_of topo a0 L rec e \<Longrightarrow> tracks sinv rec_of topo a0 L rec e"
  by (simp add: carries_def)

lemma settled_untouched: "settled sinv rec_of topo a0 L i e \<Longrightarrow> untouched e e' \<Longrightarrow> settled sinv rec_of topo a0 L i e'"
  by (simp add: settled_def untouched_def)

lemma tracks_stable:
  assumes "tracks sinv rec_of topo a0 L rec e" and "stable sinv rec_of (r_run rec) e e'"
  shows "tracks sinv rec_of topo a0 L rec e'"
proof -
  obtain r where r: "rec_of (e_store e) (r_run rec) = Some r" "same_core rec r" "r_cancel rec \<noteq> None \<longrightarrow> r_cancel r = r_cancel rec"
      "run_path topo a0 (abs_run r)" "\<not> terminal rec" "sinv (e_store e)" "invokes (r_run rec) e = L"
    using assms(1) by (auto simp: tracks_def)
  have "\<not> terminal r" using r(2,5) by (simp add: terminal_def same_core_def same_frame_def)
  then obtain c where c: "rec_of (e_store e') (r_run rec) = Some (r\<lparr>r_cancel := c\<rparr>)" "r_cancel r \<noteq> None \<longrightarrow> c = r_cancel r"
    using assms(2) r(1,6) by (auto simp: stable_def only_cancels_def)
  have "abs_run (r\<lparr>r_cancel := c\<rparr>) = abs_run r" using same_core_abs [of r "r\<lparr>r_cancel := c\<rparr>"] by simp
  then show ?thesis using r c assms(2) by (auto simp: tracks_def stable_def)
qed

lemma carries_stable:
  assumes "carries sinv rec_of topo a0 L rec e" and "stable sinv rec_of (r_run rec) e e'"
  shows "carries sinv rec_of topo a0 L rec e'"
proof -
  obtain c where c: "rec_of (e_store e) (r_run rec) = Some (rec\<lparr>r_cancel := c\<rparr>)" "\<not> terminal rec" "sinv (e_store e)"
    using assms(1) by (auto simp: carries_def tracks_def)
  then have "\<not> terminal (rec\<lparr>r_cancel := c\<rparr>)" by (simp add: terminal_def)
  then obtain c' where "rec_of (e_store e') (r_run rec) = Some (rec\<lparr>r_cancel := c'\<rparr>)"
    using assms(2) c by (auto simp: stable_def only_cancels_def)
  then show ?thesis using tracks_stable [OF _ assms(2)] assms(1) by (auto simp: carries_def)
qed

lemmas tracks_untouched = tracks_stable [OF _ untouched_stable]
lemmas carries_untouched = carries_stable [OF _ untouched_stable]

lemma tracks_core: "tracks sinv rec_of topo a0 L rec e \<Longrightarrow> same_core rec rec' \<Longrightarrow> r_cancel rec' = r_cancel rec \<Longrightarrow> tracks sinv rec_of topo a0 L rec' e"
  by (auto simp: tracks_def same_core_def same_frame_def terminal_def)

text \<open>An operation in flight: its attempt is reserved and its outcome open.\<close>

definition in_flight :: "run_record \<Rightarrow> step_id \<Rightarrow> phase \<Rightarrow> bool" where
  "in_flight rec k p \<longleftrightarrow> k \<noteq> [] \<and> r_phase rec = p \<and> (p = PhaseForward \<or> p = PhaseUnwind) \<and> gm_has (r_steps rec) k \<and>
     or_status (rec_op rec k p) = OpUnresolved"

text \<open>How a run function ends: the store settled, and the record to go on with carried.\<close>

definition concludes :: "('s \<Rightarrow> bool) \<Rightarrow> ('s \<Rightarrow> run_id \<Rightarrow> run_record option) \<Rightarrow> topology \<Rightarrow> run_abs \<Rightarrow> ('m invocation \<times> 's) list \<Rightarrow> run_id \<Rightarrow>
    verdict \<times> run_record \<times> ('s, 'm) engine \<Rightarrow> bool" where
  "concludes sinv rec_of topo a0 L i x \<longleftrightarrow> (case x of (vd, rec, e) \<Rightarrow> settled sinv rec_of topo a0 L i e \<and>
     (vd = Advance \<longrightarrow> r_run rec = i \<and> carries sinv rec_of topo a0 L rec e))"

lemma concludes_leave: "settled sinv rec_of topo a0 L i e \<Longrightarrow> concludes sinv rec_of topo a0 L i (Leave d again, rec, e)"
  by (simp add: concludes_def)

lemma concludes_advance: "carries sinv rec_of topo a0 L rec e \<Longrightarrow> r_run rec = i \<Longrightarrow> concludes sinv rec_of topo a0 L i (Advance, rec, e)"
  using tracks_settled [OF carries_tracks, of sinv rec_of topo a0 L rec e] by (simp add: concludes_def)

context engine_client
begin

lemma apply_stored:
  assumes tr: "tracks sinv rec_of topo a0 L rec e" and i: "r_run rec = i" "r_run rec1 = i" and ap: "apply_rec env rec1 t e = (ok, rec2, e2)"
  obtains r where "rec2 = rec1\<lparr>r_updated_at := ev_clock env (e_tick e)\<rparr>" and "sinv (e_store e2)" and "invokes i e2 = L"
    and "same_core rec r" and "gm_ok (r_steps r)" and "r_cancel rec \<noteq> None \<longrightarrow> r_cancel r = r_cancel rec" and "run_path topo a0 (abs_run r)"
    and "rec_of (e_store e2) i = Some (if ok then apply_transition (flushed t rec1 (ev_clock env (e_tick e))) r else r)"
proof -
  let ?now = "ev_clock env (e_tick e)"
  let ?y = "yields env (tick e)"
  obtain res s where so: "so_apply (ev_ops env) (e_store ?y) i (flushed t rec1 ?now) = (res, s)" by fastforce
  have e2: "e2 = ?y\<lparr>e_store := s\<rparr>" and ok: "ok \<longleftrightarrow> (\<exists>u. res = Inr u)" and r2: "rec2 = rec1\<lparr>r_updated_at := ?now\<rparr>"
    using ap so i by (auto simp: apply_rec_def Now_def Let_def st_apply_def store_call_def flushed_def split: sum.splits prod.splits)
  have "tracks sinv rec_of topo a0 L rec ?y"
    by (rule tracks_stable [OF tr]) (simp add: i stable_trans [OF untouched_stable [OF untouched_tick] stable_yields])
  then obtain r where r: "sinv (e_store ?y)" "rec_of (e_store ?y) i = Some r" "same_core rec r" "invokes i ?y = L"
      "r_cancel rec \<noteq> None \<longrightarrow> r_cancel r = r_cancel rec" "run_path topo a0 (abs_run r)"
    by (auto simp: tracks_def i)
  note law = apply_law [OF r(1) so]
  have "rec_of s i = Some (if ok then apply_transition (flushed t rec1 ?now) r else r)"
    using law ok r(2) by (cases res) auto
  then show thesis using r law steps_law [OF r(1,2)] by (intro that [OF r2]) (auto simp: e2 invokes_def)
qed

lemma apply_tracks:
  assumes tr: "tracks sinv rec_of topo a0 L rec e" and i: "r_run rec = i"
    and w: "written t rec rec1" and mv: "run_path topo (abs_run rec) (abs_run rec1)" and sf: "same_frame rec rec1"
    and ca: "r_cancel rec1 = r_cancel rec" and ap: "apply_rec env rec1 t e = (ok, rec2, e2)"
  shows "settled sinv rec_of topo a0 L i e2" and "ok \<Longrightarrow> carries sinv rec_of topo a0 L rec2 e2"
    and "rec2 = rec1\<lparr>r_updated_at := ev_clock env (e_tick e)\<rparr>"
proof -
  have i1: "r_run rec1 = i" using sf i by (simp add: same_frame_def)
  obtain r where r2: "rec2 = rec1\<lparr>r_updated_at := ev_clock env (e_tick e)\<rparr>" and sinv2: "sinv (e_store e2)" and iv: "invokes i e2 = L"
    and core: "same_core rec r" and ok: "gm_ok (r_steps r)" and rc: "r_cancel rec \<noteq> None \<longrightarrow> r_cancel r = r_cancel rec"
    and path: "run_path topo a0 (abs_run r)"
    and st: "rec_of (e_store e2) i = Some (if ok then apply_transition (flushed t rec1 (ev_clock env (e_tick e))) r else r)"
    by (rule apply_stored [OF tr i i1 ap])
  show "rec2 = rec1\<lparr>r_updated_at := ev_clock env (e_tick e)\<rparr>" by (rule r2)
  have ab: "abs_run (rec2\<lparr>r_cancel := c\<rparr>) = abs_run rec1" for c
    by (rule same_core_abs) (simp add: r2 same_core_def same_frame_def)
  have path1: "run_path topo a0 (abs_run rec1)" using path mv same_core_abs [OF core] by simp
  have st1: "rec_of (e_store e2) i = Some (rec2\<lparr>r_cancel := r_cancel r\<rparr>)" if ok
    using st that w core ok by (simp add: written_def r2)
  show "settled sinv rec_of topo a0 L i e2"
  proof (cases ok)
    case True
    show ?thesis by (rule settledI [of sinv e2 i L rec_of, OF sinv2 iv st1 [OF True]]) (simp add: ab path1)
  next
    case False
    show ?thesis by (rule settledI [of sinv e2 i L rec_of r, OF sinv2 iv _ path]) (simp add: st False)
  qed
  have nt: "\<not> terminal rec2" using tr sf by (simp add: r2 tracks_def terminal_def same_frame_def)
  have i2: "r_run rec2 = i" by (simp add: r2 i1)
  show "carries sinv rec_of topo a0 L rec2 e2" if ok
    unfolding carries_def tracks_def i2
    using st1 [OF that] ab path1 iv sinv2 nt rc ca by (auto simp: r2)
qed

text \<open>The terminal commit.\<close>

lemma outcome_stored:
  assumes tr: "tracks sinv rec_of topo a0 L rec e" and i: "r_run rec = i"
    and oc: "r_phase rec = PhaseForward \<and> oc = OutcomeSuccess \<or> r_phase rec = PhaseUnwind \<and> oc = OutcomeFailure"
    and rec1: "rec1 = rec\<lparr>r_output := out, r_outcome := Some oc, r_phase := PhaseDone\<rparr>"
    and ap: "apply_rec env rec1 \<lparr>t_cursor = idleCursor rec1, t_ops = [], t_failure = None, t_output = r_output rec1, t_outcome = r_outcome rec1\<rparr> e = (ok, rec2, e2)"
  shows "settled sinv rec_of topo a0 L i e2" and "rec2 = rec1\<lparr>r_updated_at := ev_clock env (e_tick e)\<rparr>"
    and "ok \<Longrightarrow> \<exists>c. rec_of (e_store e2) i = Some (compact_terminal (rec2\<lparr>r_cancel := c\<rparr>))"
proof -
  let ?now = "ev_clock env (e_tick e)" and ?t = "\<lparr>t_cursor = idleCursor rec1, t_ops = [], t_failure = None, t_output = r_output rec1, t_outcome = r_outcome rec1\<rparr>"
  have i1: "r_run rec1 = i" using i by (simp add: rec1)
  obtain r where r2: "rec2 = rec1\<lparr>r_updated_at := ?now\<rparr>" and sinv2: "sinv (e_store e2)" and iv: "invokes i e2 = L"
    and core: "same_core rec r" and gok: "gm_ok (r_steps r)" and path: "run_path topo a0 (abs_run r)"
    and st: "rec_of (e_store e2) i = Some (if ok then apply_transition (flushed ?t rec1 ?now) r else r)"
    by (rule apply_stored [OF tr i i1 ap])
  show "rec2 = rec1\<lparr>r_updated_at := ?now\<rparr>" by (rule r2)
  have st1: "rec_of (e_store e2) i = Some (compact_terminal (rec2\<lparr>r_cancel := r_cancel r\<rparr>))" if ok
    using st that written_outcome [OF core gok, where out = out and oc = oc and now = ?now] by (simp add: rec1 [symmetric] r2)
  then show "ok \<Longrightarrow> \<exists>c. rec_of (e_store e2) i = Some (compact_terminal (rec2\<lparr>r_cancel := c\<rparr>))" by blast
  have mv: "run_move topo (abs_run rec) (abs_run (compact_terminal (rec2\<lparr>r_cancel := c\<rparr>)))" for c
    using completed_move [where rec = rec and oc = oc and topo = topo and out = out and now = ?now and c = c] oc core gok tr by (simp add: rec1 r2 same_core_def tracks_def terminal_def)
  show "settled sinv rec_of topo a0 L i e2"
  proof (cases ok)
    case True
    show ?thesis by (rule settledI [of sinv e2 i L rec_of, OF sinv2 iv st1 [OF True]]) (use path same_core_abs [OF core] mv in \<open>metis rtranclp.rtrancl_into_rtrancl\<close>)
  next
    case False
    show ?thesis by (rule settledI [of sinv e2 i L rec_of r, OF sinv2 iv _ path]) (simp add: st False)
  qed
qed

end

end
