(* ===== verification/Engine_Worker.thy ===== *)
theory Engine_Worker
  imports Engine_Sync
begin

text \<open>
  The worker of a run: every function it runs leaves the store settled on a path of the machine of
  \<open>Engine_Spec\<close>, calls at most one handler per iteration, only after the attempt is durably reserved, and
  goes on only with the record the store holds. The lemmas follow the functions of \<open>Engine_Run\<close>, inside
  the locale \<open>engine_client\<close>, so they hold for every store that keeps the contract.
\<close>

section \<open>Calls\<close>

text \<open>A handler call made on a store that holds the reservation of its attempt, one past the attempts of \<open>rec\<close>.\<close>

definition reserved_call :: "('s \<Rightarrow> run_id \<Rightarrow> run_record option) \<Rightarrow> run_record \<Rightarrow> 'm invocation \<Rightarrow> 's \<Rightarrow> bool" where
  "reserved_call rec_of rec iv s \<longleftrightarrow> inv_run iv = r_run rec \<and> inv_phase iv = r_phase rec \<and>
     inv_attempt iv = or_attempts (rec_op rec (inv_step iv) (inv_phase iv)) + 1 \<and>
     \<not> op_resolved (rec_op rec (inv_step iv) (inv_phase iv)) \<and>
     (inv_phase iv = PhaseForward \<longrightarrow> r_cancel rec = None) \<and>
     (\<exists>r. rec_of s (r_run rec) = Some r \<and> \<not> terminal r \<and> r_phase r = inv_phase iv \<and>
        or_status (rec_op r (inv_step iv) (inv_phase iv)) = OpUnresolved \<and> or_attempts (rec_op r (inv_step iv) (inv_phase iv)) = inv_attempt iv \<and>
        inv_input iv = r_input r \<and> inv_states iv = committedStates r \<and> inv_awaited iv = r_awaited r \<and>
        (inv_phase iv = PhaseUnwind \<longrightarrow> inv_failure iv = r_failure r))"

definition call_list :: "('s \<Rightarrow> run_id \<Rightarrow> run_record option) \<Rightarrow> run_record \<Rightarrow> ('m invocation \<times> 's) list \<Rightarrow> ('m invocation \<times> 's) list \<Rightarrow> bool" where
  "call_list rec_of rec L L' \<longleftrightarrow> L' = L \<or> (\<exists>iv s. L' = L @ [(iv, s)] \<and> reserved_call rec_of rec iv s)"

text \<open>How an iteration ends.\<close>

definition iterates :: "('s \<Rightarrow> bool) \<Rightarrow> ('s \<Rightarrow> run_id \<Rightarrow> run_record option) \<Rightarrow> topology \<Rightarrow> run_abs \<Rightarrow> ('m invocation \<times> 's) list \<Rightarrow> run_id \<Rightarrow>
    iteration \<times> ('s, 'm) engine \<Rightarrow> bool" where
  "iterates sinv rec_of topo a0 L i x \<longleftrightarrow> settled sinv rec_of topo a0 L i (snd x) \<and>
     (\<forall>rec. fst x = Carry rec \<longrightarrow> r_run rec = i \<and>
        (if terminal rec then \<exists>c. rec_of (e_store (snd x)) i = Some (compact_terminal (rec\<lparr>r_cancel := c\<rparr>))
         else carries sinv rec_of topo a0 L rec (snd x)))"

lemma iterates_return: "settled sinv rec_of topo a0 L i e \<Longrightarrow> iterates sinv rec_of topo a0 L i (Return d again, e)"
  by (simp add: iterates_def)

lemma iterates_carry: "carries sinv rec_of topo a0 L rec e \<Longrightarrow> r_run rec = i \<Longrightarrow> iterates sinv rec_of topo a0 L i (Carry rec, e)"
  using tracks_settled [OF carries_tracks, of sinv rec_of topo a0 L rec e] by (simp add: iterates_def carries_def tracks_def)

lemma in_flight_core: "in_flight rec k p \<Longrightarrow> same_core rec rec' \<Longrightarrow> in_flight rec' k p"
  using rec_op_frame [of rec' rec] by (simp add: in_flight_def same_core_def)

lemma reserve_rec1:
  assumes "reserve_attempt env rec k p e = (ok, rec2, e2)"
  obtains t e1 where "untouched e e1"
    and "apply_rec env ((reserved_rec rec k p)\<lparr>r_started_at := t\<rparr>)
      (cursor_transition ((reserved_rec rec k p)\<lparr>r_started_at := t\<rparr>) k (or_attempts (rec_op ((reserved_rec rec k p)\<lparr>r_started_at := t\<rparr>) k p))) e1 = (ok, rec2, e2)"
proof -
  obtain rec1 e1 where m: "markStarted env (reserved_rec rec k p) e = (rec1, e1)" by fastforce
  have "rec1 = (reserved_rec rec k p)\<lparr>r_started_at := r_started_at rec1\<rparr>"
    using m by (auto simp: markStarted_def Now_def split: if_splits)
  then show thesis using that [OF untouched_markStarted [OF m], of "r_started_at rec1"] assms m by (simp add: reserve_attempt_def)
qed

text \<open>The topology a pipeline is bound to; \<open>Bind\<close> rejects a step without a name.\<close>

definition topo_of :: "('s, 'm) env \<Rightarrow> pipeline_id \<Rightarrow> topology" where
  "topo_of env p = (case Get p (ev_pipelines env) of None \<Rightarrow> [] | Some d \<Rightarrow> bd_topo d)"

definition named_steps :: "('s, 'm) env \<Rightarrow> bool" where
  "named_steps env \<longleftrightarrow> (\<forall>p. [] \<notin> ls_id ` set (topo_of env p))"

context engine_client
begin

section \<open>Reserving and resolving\<close>

lemma reserve_tracks:
  assumes tr: "tracks sinv rec_of topo a0 L rec e" and i: "r_run rec = i" and k: "k \<noteq> []" and p: "r_phase rec = p"
    and sel: "p = PhaseForward \<and> k \<in> ls_id ` set topo \<or>
      p = PhaseUnwind \<and> (\<exists>s\<in>set topo. ls_unwind s \<and> k = ls_id s) \<and> or_status (rec_op rec k PhaseForward) = OpSucceeded"
    and un: "\<not> op_resolved (rec_op rec k p)" and re: "reserve_attempt env rec k p e = (ok, rec2, e2)"
  shows "settled sinv rec_of topo a0 L i e2" and "ok \<Longrightarrow> carries sinv rec_of topo a0 L rec2 e2" and "in_flight rec2 k p"
    and "or_attempts (rec_op rec2 k p) = or_attempts (rec_op rec k p) + 1" and "r_run rec2 = i"
proof -
  obtain t e1 where u: "untouched e e1" and ap: "apply_rec env ((reserved_rec rec k p)\<lparr>r_started_at := t\<rparr>)
      (cursor_transition ((reserved_rec rec k p)\<lparr>r_started_at := t\<rparr>) k (or_attempts (rec_op ((reserved_rec rec k p)\<lparr>r_started_at := t\<rparr>) k p))) e1 = (ok, rec2, e2)"
    using reserve_rec1 [OF re] by metis
  have nt: "r_outcome rec = None" using tr by (simp add: tracks_def terminal_def)
  note w = reserved_written [OF k p refl, of t]
  note res = apply_tracks [OF tracks_untouched [OF tr u] i w(1) r_into_rtranclp [of "run_move topo", OF reserved_move [OF nt p un sel]] w(2) _ ap]
  have ca: "r_cancel ((reserved_rec rec k p)\<lparr>r_started_at := t\<rparr>) = r_cancel rec" by (simp add: reserved_rec_def)
  show "settled sinv rec_of topo a0 L i e2" "ok \<Longrightarrow> carries sinv rec_of topo a0 L rec2 e2" using res(1,2) [OF ca] by auto
  have r2: "rec2 = ((reserved_rec rec k p)\<lparr>r_started_at := t\<rparr>)\<lparr>r_updated_at := ev_clock env (e_tick e1)\<rparr>" by (rule res(3) [OF ca])
  show "in_flight rec2 k p" "or_attempts (rec_op rec2 k p) = or_attempts (rec_op rec k p) + 1" "r_run rec2 = i"
    using k p i sel by (auto simp: r2 in_flight_def reserved_rec_def rec_op_def rec_step_def put_op_def)
qed

lemma parkAwait_concludes:
  assumes tr: "tracks sinv rec_of topo a0 L rec e" and i: "r_run rec = i" and fl: "in_flight rec k p"
  shows "concludes sinv rec_of topo a0 L i (parkAwait env rec k (or_attempts (rec_op rec k p)) park timeout el e)"
proof (cases "aw_targets park = [] \<or> list_ex (\<lambda>t. t = []) (aw_targets park)")
  case False
  then have f: "aw_targets park \<noteq> []" "\<not> list_ex (\<lambda>t. t = []) (aw_targets park)" by auto
  show ?thesis
  proof (rule parkAwait_cases [OF f, of e env rec k "or_attempts (rec_op rec k p)" timeout el], goal_cases)
    case (1 park1 e1 ok rec2 e2 cyc e3)
    let ?rec1 = "rec\<lparr>r_awaiting := Some park1, r_awaited := None\<rparr>"
    have core: "same_core rec ?rec1" by (simp add: same_core_def same_frame_def)
    have w: "written (cursor_transition ?rec1 k (or_attempts (rec_op rec k p))) rec ?rec1"
      using fl by (intro in_flight_written [OF _ core]) (auto simp: in_flight_def)
    have path: "run_path topo (abs_run rec) (abs_run ?rec1)" by (simp add: same_core_abs [OF core])
    have frame: "same_frame rec ?rec1" by (simp add: same_frame_def)
    note res = apply_tracks [OF tracks_untouched [OF tr 1(1)] i w path frame _ 1(3)]
    have i2: "r_run rec2 = i" using res(3) i by simp
    have st: "stable sinv rec_of i e2 e3" using stable_awaitCycle [of e2 "r_run rec2" "aw_targets park1"] 1(4) by simp
    have c3: "carries sinv rec_of topo a0 L rec2 e3" if ok using carries_stable [of sinv rec_of topo a0 L rec2 e2 e3] res(2) that st i2 by simp
    note s3 = tracks_settled [OF carries_tracks [OF c3], unfolded i2]
    show ?case unfolding 1(5)
      using res(1) c3 s3 i2
      by (auto split: sum.split bool.split intro!: concludes_leave concludes_advance settled_untouched [OF _ untouched_markInvalid]
          carries_untouched [OF _ untouched_emit])
  qed
qed (use tracks_settled [OF tr] i in \<open>auto simp: parkAwait_def intro!: concludes_leave settled_untouched [OF _ untouched_markInvalid]\<close>)

lemma verdict_concludes:
  assumes tr: "tracks sinv rec_of topo a0 L rec e" and i: "r_run rec = i" and w: "written t rec rec1"
    and mv: "run_path topo (abs_run rec) (abs_run rec1)" and sf: "same_frame rec rec1" and ca: "r_cancel rec1 = r_cancel rec"
    and u: "\<And>rec2 e2. untouched e2 (report rec2 e2)"
  shows "concludes sinv rec_of topo a0 L i (case apply_rec env rec1 t e of
      (False, rec2, e2) \<Rightarrow> (Leave second True, rec2, e2) | (True, rec2, e2) \<Rightarrow> (vd, rec2, report rec2 e2))"
proof -
  obtain ok rec2 e2 where ap: "apply_rec env rec1 t e = (ok, rec2, e2)" by (metis prod_cases3)
  note res = apply_tracks [OF tr i w mv sf ca ap]
  have i2: "r_run rec2 = i" using res(3) sf i by (simp add: same_frame_def)
  show ?thesis
  proof (cases ok)
    case True
    have "carries sinv rec_of topo a0 L rec2 (report rec2 e2)" by (rule carries_untouched [OF res(2) [OF True] u])
    then show ?thesis using ap True i2 concludes_advance [of sinv rec_of topo a0 L rec2 "report rec2 e2" i]
      by (cases vd) (auto simp: concludes_def)
  next
    case False
    then show ?thesis using ap res(1) by (simp add: concludes_leave)
  qed
qed

lemma succeed_concludes:
  assumes tr: "tracks sinv rec_of topo a0 L rec e" and i: "r_run rec = i" and fl: "in_flight rec k p"
  shows "concludes sinv rec_of topo a0 L i (commit_success env rec k p st el e)"
proof -
  have "run_move topo (abs_run rec) (abs_run (succeeded_rec rec k p st))"
    by (rule succeeded_move) (use tr fl in \<open>auto simp: tracks_def terminal_def in_flight_def\<close>)
  then show ?thesis unfolding commit_success_def Let_def
    by (intro verdict_concludes [OF tr i succeeded_written(2) r_into_rtranclp [of "run_move topo"] succeeded_written(1)])
      (simp_all add: untouched_emit succeeded_rec_def Let_def clearLastError_def)
qed

lemma fail_forward_concludes:
  assumes tr: "tracks sinv rec_of topo a0 L rec e" and i: "r_run rec = i" and fl: "in_flight rec k PhaseForward"
  shows "concludes sinv rec_of topo a0 L i (fail_forward env rec k cause kd reason now el e)"
proof -
  let ?f = "failure_of env k PhaseForward (or_attempts (rec_op rec k PhaseForward)) cause now kd reason"
  have mv: "run_move topo (abs_run rec) (abs_run (failed_forward_rec rec k ?f))"
    by (rule failed_move [OF failed_forward_failed])
      (use tr fl in \<open>auto simp: tracks_def terminal_def in_flight_def op_resolved_def failure_of_def\<close>)
  have sf: "same_frame rec (failed_forward_rec rec k ?f)" "r_cancel (failed_forward_rec rec k ?f) = r_cancel rec"
    using failed_forward_failed [of rec k ?f] by (simp_all add: failed_rec_def)
  show ?thesis unfolding fail_forward_def Let_def
    by (intro verdict_concludes [OF tr i failed_written [OF failed_forward_failed] r_into_rtranclp [of "run_move topo", OF mv] sf]
        untouched_trans [OF untouched_emit untouched_emit]) simp_all
qed

lemma fail_unwind_concludes:
  assumes tr: "tracks sinv rec_of topo a0 L rec e" and i: "r_run rec = i" and fl: "in_flight rec k PhaseUnwind"
  shows "concludes sinv rec_of topo a0 L i (fail_unwind env rec k cause kd reason now el e)"
proof -
  let ?f = "failure_of env k PhaseUnwind (or_attempts (rec_op rec k PhaseUnwind)) cause now kd reason"
  have mv: "run_move topo (abs_run rec) (abs_run (failed_unwind_rec rec k ?f))"
    by (rule failed_unwind_move) (use tr fl in \<open>auto simp: tracks_def terminal_def in_flight_def failure_of_def\<close>)
  have ca: "r_cancel (failed_unwind_rec rec k ?f) = r_cancel rec" by (simp add: failed_unwind_rec_def Let_def clearLastError_def)
  show ?thesis unfolding fail_unwind_def Let_def
    by (intro verdict_concludes [OF tr i failed_unwind_written(2) r_into_rtranclp [of "run_move topo", OF mv] failed_unwind_written(1) ca]
        untouched_emit) simp
qed

lemma retry_concludes:
  assumes tr: "tracks sinv rec_of topo a0 L rec e" and i: "r_run rec = i" and fl: "in_flight rec k p"
  shows "concludes sinv rec_of topo a0 L i (schedule_retry env rec k p err now el pn e)"
proof -
  obtain d e1 where b: "backoff env (or_attempts (rec_op rec k p)) e = (d, e1)" by fastforce
  let ?rec1 = "recordLastError env (rec\<lparr>r_next_attempt_at := now + d\<rparr>) err now"
  have core: "same_core rec ?rec1" by (simp add: recordLastError_def same_core_def same_frame_def)
  have w: "written (cursor_transition ?rec1 k (or_attempts (rec_op rec k p))) rec ?rec1"
    using fl by (intro in_flight_written [OF _ core]) (auto simp: in_flight_def)
  have path: "run_path topo (abs_run rec) (abs_run ?rec1)" by (simp add: same_core_abs [OF core])
  have "concludes sinv rec_of topo a0 L i (case apply_rec env ?rec1 (cursor_transition ?rec1 k (or_attempts (rec_op rec k p))) e1 of
      (False, rec2, e2) \<Rightarrow> (Leave second True, rec2, e2)
    | (True, rec2, e2) \<Rightarrow> (Leave d True, rec2, emit (EvAttemptDone (r_run rec) k p (or_attempts (rec_op rec k p)) el AttemptRetrying (Some err) d pn) e2))"
    by (rule verdict_concludes [OF tracks_untouched [OF tr untouched_backoff [OF b]] i w path])
      (simp_all add: untouched_emit recordLastError_def same_frame_def)
  then show ?thesis by (simp add: schedule_retry_def Let_def b)
qed

lemma interrupt_concludes:
  assumes "tracks sinv rec_of topo a0 L rec e" and "r_run rec = i"
  shows "concludes sinv rec_of topo a0 L i (interrupt_attempt rec k p err el e)"
  using settled_untouched [OF tracks_settled [OF assms(1)] untouched_emit] assms(2) by (simp add: interrupt_attempt_def concludes_leave)

lemma markInvalid_concludes:
  assumes "tracks sinv rec_of topo a0 L rec e" and "r_run rec = i"
  shows "concludes sinv rec_of topo a0 L i (Leave 0 False, rec, markInvalid rec' k reason e)"
  using settled_untouched [OF tracks_settled [OF assms(1)] untouched_markInvalid] assms(2) by (simp add: concludes_leave)

text \<open>The cancellation of a pending operation, reserved or not.\<close>

lemma cancel_tracks:
  assumes tr: "tracks sinv rec_of topo a0 L rec e" and i: "r_run rec = i" and p: "r_phase rec = PhaseForward"
    and un: "\<not> op_resolved (rec_op rec k PhaseForward)" and c: "cancelOperation env rec k pre err el e = (ok, rec', e')"
  shows "settled sinv rec_of topo a0 L i e' \<and> (ok \<longrightarrow> r_run rec' = i \<and> carries sinv rec_of topo a0 L rec' e')"
proof (rule cancelOperation_cases [of e env rec k pre err el], goal_cases)
  case (1 now e2 ok1 rec2 e3)
  let ?r = "canceled_rec env rec k pre err now"
  have r2: "rec2 = rec'" "ok1 = ok" using 1(3,4) c by simp_all
  note f = canceled_failed [of rec env k pre err now]
  have mv: "run_move topo (abs_run rec) (abs_run ?r)"
    by (rule failed_move [OF f]) (use tr p un in \<open>auto simp: tracks_def terminal_def canceled_failure\<close>)
  have sf: "same_frame rec ?r" "r_cancel ?r = r_cancel rec" using f by (simp_all add: failed_rec_def)
  note res = apply_tracks [OF tracks_untouched [OF tr 1(1)] i failed_written [OF f] r_into_rtranclp [of "run_move topo", OF mv] sf 1(2)]
  have i2: "r_run rec' = i" using res(3) sf(1) i r2 by (simp add: same_frame_def)
  show ?case
  proof (cases ok)
    case True
    obtain cause ts where u: "untouched (cascade env cause ts e3) e'" using 1(5) c by auto
    have "carries sinv rec_of topo a0 L rec' e3" using res(2) r2 True by simp
    then have "carries sinv rec_of topo a0 L rec' (cascade env cause ts e3)" by (rule carries_stable) (simp add: i2 stable_cascade)
    then have "carries sinv rec_of topo a0 L rec' e'" by (rule carries_untouched [OF _ u])
    then show ?thesis using tracks_settled [OF carries_tracks] i2 by blast
  next
    case False
    then have "e' = e3" using c 1(6) r2 by simp
    then show ?thesis using res(1) False by simp
  qed
qed

section \<open>Running an operation\<close>

lemma resolve_forward_concludes:
  assumes tr: "tracks sinv rec_of topo a0 L rec e" and i: "r_run rec = i" and fl: "in_flight rec k PhaseForward"
  shows "concludes sinv rec_of topo a0 L i (resolve_forward env rec hs k a st e)"
proof -
  note tk = tracks_untouched [OF tr untouched_tick]
  have p: "r_phase rec = PhaseForward" "\<not> op_resolved (rec_op rec k PhaseForward)" using fl by (auto simp: in_flight_def op_resolved_def)
  have can: "concludes sinv rec_of topo a0 L i (if ok then Advance else Leave second True, rec', e')"
    if "cancelOperation env rec k pre err el (tick e) = (ok, rec', e')" for pre err el ok rec' e'
    using cancel_tracks [OF tk i p that] by (auto simp: concludes_def)
  note parts = parkAwait_concludes [OF tk i fl] succeed_concludes [OF tk i fl] fail_forward_concludes [OF tk i fl] retry_concludes [OF tk i fl]
    interrupt_concludes [OF tk i] markInvalid_concludes [OF tk i] markInvalid_concludes [OF tr i]
  show ?thesis
    by (cases "at_violation a"; cases "at_err a"; cases "at_preempted a"; cases "AwaitRequest (at_err a)"; cases "state_to_commit env hs (at_state a)")
      (auto simp: resolve_forward_def Now_def parts split: option.split prod.split dest!: can)
qed

lemma resolve_unwind_concludes:
  assumes tr: "tracks sinv rec_of topo a0 L rec e" and i: "r_run rec = i" and fl: "in_flight rec k PhaseUnwind"
  shows "concludes sinv rec_of topo a0 L i (resolve_unwind env rec k a st e)"
proof -
  note tk = tracks_untouched [OF tr untouched_tick]
  note parts = parkAwait_concludes [OF tk i fl] succeed_concludes [OF tk i fl] fail_unwind_concludes [OF tk i fl] retry_concludes [OF tk i fl]
    interrupt_concludes [OF tk i] markInvalid_concludes [OF tr i]
  show ?thesis unfolding resolve_unwind_def Now_def
    by (simp add: parts split: option.split prod.split)
qed

text \<open>The call itself: one more entry in the list of calls, on the store as the reservation left it.\<close>

lemma tracks_call:
  assumes "tracks sinv rec_of topo a0 L rec e" and "inv_run iv = r_run rec"
  shows "tracks sinv rec_of topo a0 (L @ [(iv, e_store e)]) rec (emit (EvInvoke iv (e_store (attemptContext j p e))) (attemptContext j p e))"
proof -
  have u: "untouched e (attemptContext j p e)" by (rule untouched_attemptContext)
  then have "e_store (attemptContext j p e) = e_store e" by (simp add: untouched_def)
  then show ?thesis using tracks_untouched [OF assms(1) u] assms(2) by (simp add: tracks_def emit_def)
qed

lemma invoke_tracks:
  assumes tr: "tracks sinv rec_of topo a0 L rec e" and i: "r_run rec = i" and iv: "inv_run iv = i"
  shows "(\<And>e. stable sinv rec_of i e (snd (h iv e))) \<Longrightarrow>
      tracks sinv rec_of topo a0 (L @ [(iv, e_store e)]) rec (snd (invokeForward h iv e))"
    and "(\<And>e f. ho = Some f \<Longrightarrow> stable sinv rec_of i e (snd (f iv e))) \<Longrightarrow>
      tracks sinv rec_of topo a0 (L @ [(iv, e_store e)]) rec (snd (invokeUnwind ho iv e))"
proof -
  let ?e2 = "\<lambda>p. emit (EvInvoke iv (e_store (attemptContext (inv_run iv) p e))) (attemptContext (inv_run iv) p e)"
  have e2: "tracks sinv rec_of topo a0 (L @ [(iv, e_store e)]) rec (?e2 p)" for p
    by (rule tracks_call [OF tr]) (use i iv in simp)
  have fin: "tracks sinv rec_of topo a0 (L @ [(iv, e_store e)]) rec (attempt_done j e3)" if "stable sinv rec_of i (?e2 p) e3" for p e3 j
    using tracks_untouched [OF tracks_stable [OF e2 [of p]] untouched_attempt_done] that i by blast
  show "tracks sinv rec_of topo a0 (L @ [(iv, e_store e)]) rec (snd (invokeForward h iv e))" if "\<And>e. stable sinv rec_of i e (snd (h iv e))"
    using fin [of PhaseForward "snd (h iv (?e2 PhaseForward))"] that
    by (auto simp: invokeForward_def Let_def split: prod.split hresult.split)
  show "tracks sinv rec_of topo a0 (L @ [(iv, e_store e)]) rec (snd (invokeUnwind ho iv e))"
    if "\<And>e f. ho = Some f \<Longrightarrow> stable sinv rec_of i e (snd (f iv e))"
  proof (cases ho)
    case None
    then show ?thesis using fin [of PhaseUnwind "?e2 PhaseUnwind"] by (simp add: invokeUnwind_def Let_def)
  next
    case (Some f)
    then show ?thesis using fin [of PhaseUnwind "snd (f iv (?e2 PhaseUnwind))"] that [OF Some]
      by (auto simp: invokeUnwind_def Let_def split: prod.split hresult.split)
  qed
qed

text \<open>A call made right after a reservation is a reserved call.\<close>

lemma reserved_callI:
  assumes c: "carries sinv rec_of topo a0 L rec1 e" and run: "r_run rec1 = r_run rec" and fl: "in_flight rec1 k p"
    and at: "or_attempts (rec_op rec1 k p) = or_attempts (rec_op rec k p) + 1" and ph: "r_phase rec = p"
    and un: "\<not> op_resolved (rec_op rec k p)" and ca: "p = PhaseForward \<longrightarrow> r_cancel rec = None"
    and iv: "iv = (invocation_of rec1 def k (or_attempts (rec_op rec1 k p)) p)\<lparr>inv_awaited := r_awaited rec1, inv_failure := fo\<rparr>"
    and fo: "p = PhaseUnwind \<longrightarrow> fo = r_failure rec1"
  shows "reserved_call rec_of rec iv (e_store e)"
proof -
  obtain c' where st: "rec_of (e_store e) (r_run rec1) = Some (rec1\<lparr>r_cancel := c'\<rparr>)" and nt: "\<not> terminal rec1"
    using c by (auto simp: carries_def tracks_def)
  have op: "rec_op (rec1\<lparr>r_cancel := c'\<rparr>) = rec_op rec1" by (rule rec_op_frame) simp
  have "committedStates (rec1\<lparr>r_cancel := c'\<rparr>) = committedStates rec1" by (simp add: committedStates_def)
  then show ?thesis unfolding reserved_call_def using st nt run fl at ph un ca fo op
    by (simp add: iv invocation_of_def in_flight_def terminal_def)
qed

text \<open>One more call at most, and a conclusion.\<close>

lemma runForward_concludes:
  assumes tr: "tracks sinv rec_of topo a0 L rec e" and i: "r_run rec = i" and k: "k \<noteq> []" and p: "r_phase rec = PhaseForward"
    and sel: "k \<in> ls_id ` set topo" and un: "\<not> op_resolved (rec_op rec k PhaseForward)" and ca: "r_cancel rec = None"
    and sc: "Get pid (ev_pipelines env) = Some def" "gm_get (bd_steps def) k' = Some sc"
  shows "\<exists>L'. call_list rec_of rec L L' \<and> concludes sinv rec_of topo a0 L' i (runForward env rec def sc k e)"
proof -
  obtain ok rec1 e1 where r: "reserve_attempt env rec k PhaseForward e = (ok, rec1, e1)" by (metis prod_cases3)
  have sel': "PhaseForward = PhaseForward \<and> k \<in> ls_id ` set topo \<or> PhaseForward = PhaseUnwind \<and> (\<exists>s\<in>set topo. ls_unwind s \<and> k = ls_id s) \<and>
    or_status (rec_op rec k PhaseForward) = OpSucceeded" using sel by simp
  note res = reserve_tracks [OF tr i k p sel' un r]
  show ?thesis
  proof (cases ok)
    case False
    then show ?thesis using r res(1) by (intro exI [of _ L]) (simp add: runForward_def call_list_def concludes_leave)
  next
    case True
    let ?iv = "(invocation_of rec1 def k (or_attempts (rec_op rec1 k PhaseForward)) PhaseForward)\<lparr>inv_awaited := r_awaited rec1\<rparr>"
    have c: "carries sinv rec_of topo a0 L rec1 (tick e1)" by (rule carries_untouched [OF res(2) [OF True] untouched_tick])
    have iv: "?iv = (invocation_of rec1 def k (or_attempts (rec_op rec1 k PhaseForward)) PhaseForward)\<lparr>inv_awaited := r_awaited rec1, inv_failure := None\<rparr>"
      by (simp add: invocation_of_def)
    have rc: "reserved_call rec_of rec ?iv (e_store (tick e1))"
      by (rule reserved_callI [OF c _ res(3,4) p un _ iv]) (use i res(5) ca in simp_all)
    have t3: "tracks sinv rec_of topo a0 (L @ [(?iv, e_store (tick e1))]) rec1 (snd (invokeForward (bs_forward sc) ?iv (tick e1)))"
      by (rule invoke_tracks(1) [OF carries_tracks [OF c] res(5)]) (use res(5) stable_forward [OF sc] in \<open>simp_all add: invocation_of_def\<close>)
    show ?thesis
      by (rule exI [of _ "L @ [(?iv, e_store (tick e1))]"])
        (use r True rc t3 resolve_forward_concludes [OF _ res(5,3)] in \<open>auto simp: runForward_def Let_def Now_def call_list_def split: prod.split\<close>)
  qed
qed

lemma runUnwind_concludes:
  assumes tr: "tracks sinv rec_of topo a0 L rec e" and i: "r_run rec = i" and k: "k \<noteq> []" and p: "r_phase rec = PhaseUnwind"
    and sel: "\<exists>s\<in>set topo. ls_unwind s \<and> k = ls_id s" "or_status (rec_op rec k PhaseForward) = OpSucceeded"
    and un: "\<not> op_resolved (rec_op rec k PhaseUnwind)"
    and sc: "Get pid (ev_pipelines env) = Some def" "gm_get (bd_steps def) k' = Some sc"
  shows "\<exists>L'. call_list rec_of rec L L' \<and> concludes sinv rec_of topo a0 L' i (runUnwind env rec def sc k e)"
proof -
  obtain ok rec1 e1 where r: "reserve_attempt env rec k PhaseUnwind e = (ok, rec1, e1)" by (metis prod_cases3)
  have sel': "PhaseUnwind = PhaseForward \<and> k \<in> ls_id ` set topo \<or> PhaseUnwind = PhaseUnwind \<and> (\<exists>s\<in>set topo. ls_unwind s \<and> k = ls_id s) \<and>
    or_status (rec_op rec k PhaseForward) = OpSucceeded" using sel by simp
  note res = reserve_tracks [OF tr i k p sel' un r]
  show ?thesis
  proof (cases ok)
    case False
    then show ?thesis using r res(1) by (intro exI [of _ L]) (simp add: runUnwind_def call_list_def concludes_leave)
  next
    case True
    let ?iv = "(invocation_of rec1 def k (or_attempts (rec_op rec1 k PhaseUnwind)) PhaseUnwind)\<lparr>inv_awaited := r_awaited rec1, inv_failure := r_failure rec1\<rparr>"
    have c: "carries sinv rec_of topo a0 L rec1 (tick e1)" by (rule carries_untouched [OF res(2) [OF True] untouched_tick])
    have rc: "reserved_call rec_of rec ?iv (e_store (tick e1))"
      by (rule reserved_callI [OF c _ res(3,4) p un _ refl]) (use i res(5) in simp_all)
    have t3: "tracks sinv rec_of topo a0 (L @ [(?iv, e_store (tick e1))]) rec1 (snd (invokeUnwind (bs_unwind sc) ?iv (tick e1)))"
      by (rule invoke_tracks(2) [OF carries_tracks [OF c] res(5)]) (use res(5) stable_unwind [OF sc] in \<open>simp_all add: invocation_of_def\<close>)
    show ?thesis
      by (rule exI [of _ "L @ [(?iv, e_store (tick e1))]"])
        (use r True rc t3 resolve_unwind_concludes [OF _ res(5,3)] in \<open>auto simp: runUnwind_def Let_def Now_def call_list_def split: prod.split\<close>)
  qed
qed

section \<open>Completing a run\<close>

lemma commit_settled:
  assumes tr: "tracks sinv rec_of topo a0 L rec e" and i: "r_run rec = i"
    and oc: "r_phase rec = PhaseForward \<and> oc = OutcomeSuccess \<or> r_phase rec = PhaseUnwind \<and> oc = OutcomeFailure"
    and c: "commit_outcome env (rec\<lparr>r_output := out\<rparr>) oc e = (ok, rec2, e2)"
  shows "settled sinv rec_of topo a0 L i e2" and "r_run rec2 = i" and "terminal rec2"
    and "ok \<Longrightarrow> \<exists>c. rec_of (e_store e2) i = Some (compact_terminal (rec2\<lparr>r_cancel := c\<rparr>))"
proof -
  let ?rec1 = "rec\<lparr>r_output := out, r_outcome := Some oc, r_phase := PhaseDone\<rparr>"
  obtain ok1 rec3 e3 where ap: "apply_rec env ?rec1 \<lparr>t_cursor = idleCursor ?rec1, t_ops = [], t_failure = None, t_output = r_output ?rec1, t_outcome = r_outcome ?rec1\<rparr> e
      = (ok1, rec3, e3)" by (metis prod_cases3)
  note res = outcome_stored [OF tr i oc refl ap]
  have eq: "commit_outcome env (rec\<lparr>r_output := out\<rparr>) oc e = (ok1, rec3, if ok1 then completeRun rec3 e3 else e3)"
    using ap by (simp add: commit_outcome_def Let_def)
  then have r2: "rec2 = rec3" "ok = ok1" "e2 = (if ok1 then completeRun rec3 e3 else e3)" using c by simp_all
  then have u: "untouched e3 e2" by (simp add: untouched_completeRun)
  show "settled sinv rec_of topo a0 L i e2" by (rule settled_untouched [OF res(1) u])
  show "r_run rec2 = i" "terminal rec2" using res(2) i r2(1) by (simp_all add: terminal_def)
  show "ok \<Longrightarrow> \<exists>c. rec_of (e_store e2) i = Some (compact_terminal (rec2\<lparr>r_cancel := c\<rparr>))"
    using res(3) u r2 by (simp add: untouched_def)
qed

lemma commit_same_settled:
  assumes "tracks sinv rec_of topo a0 L rec e" and "r_run rec = i"
    and "r_phase rec = PhaseForward \<and> oc = OutcomeSuccess \<or> r_phase rec = PhaseUnwind \<and> oc = OutcomeFailure"
    and "commit_outcome env rec oc e = (ok, rec2, e2)"
  shows "settled sinv rec_of topo a0 L i e2 \<and> r_run rec2 = i \<and> terminal rec2 \<and>
    (ok \<longrightarrow> (\<exists>c. rec_of (e_store e2) i = Some (compact_terminal (rec2\<lparr>r_cancel := c\<rparr>))))"
proof -
  have "commit_outcome env (rec\<lparr>r_output := r_output rec\<rparr>) oc e = (ok, rec2, e2)" using assms(4) by simp
  from commit_settled [OF assms(1-3) this] show ?thesis by simp
qed

lemma reduceInto_cases:
  assumes "reduceInto env rec what rd view e = (x, e1)"
  shows "untouched e e1" and "x = Some rec1 \<Longrightarrow> \<exists>b. rec1 = rec\<lparr>r_output := Some b\<rparr>"
  using assms by (auto simp: reduceInto_def untouched_markInvalid split: reduce_result.splits option.splits if_splits sum.splits)

lemma reduce_settled:
  assumes tr: "tracks sinv rec_of topo a0 L rec e" and i: "r_run rec = i"
  shows "r_phase rec = PhaseForward \<Longrightarrow> reduceAndComplete env rec def e = (ok, rec1, e1) \<Longrightarrow>
      settled sinv rec_of topo a0 L i e1 \<and> (ok \<longrightarrow> r_run rec1 = i \<and> terminal rec1 \<and>
        (\<exists>c. rec_of (e_store e1) i = Some (compact_terminal (rec1\<lparr>r_cancel := c\<rparr>))))"
    and "r_phase rec = PhaseUnwind \<Longrightarrow> reduceFailureAndComplete env rec def e = (ok, rec1, e1) \<Longrightarrow> settled sinv rec_of topo a0 L i e1"
proof -
  have fault: "settled sinv rec_of topo a0 L i e2" if "reduceInto env rec what rd view e = (x, e2)" for what rd view x e2
    using settled_untouched [OF tracks_settled [OF tr] reduceInto_cases(1) [OF that]] i by simp
  have good: "settled sinv rec_of topo a0 L i e3 \<and> r_run rec3 = i \<and> terminal rec3 \<and>
      (ok2 \<longrightarrow> (\<exists>c. rec_of (e_store e3) i = Some (compact_terminal (rec3\<lparr>r_cancel := c\<rparr>))))"
    if ri: "reduceInto env rec what rd view e = (Some rec2, e2)" and co: "commit_outcome env rec2 oc e2 = (ok2, rec3, e3)"
      and ph: "r_phase rec = PhaseForward \<and> oc = OutcomeSuccess \<or> r_phase rec = PhaseUnwind \<and> oc = OutcomeFailure" for what rd view rec2 e2 oc ok2 rec3 e3
  proof -
    obtain b where "rec2 = rec\<lparr>r_output := Some b\<rparr>" using reduceInto_cases(2) [OF ri] by blast
    with commit_settled [OF tracks_untouched [OF tr reduceInto_cases(1) [OF ri]] i ph] co show ?thesis by blast
  qed
  show "settled sinv rec_of topo a0 L i e1 \<and> (ok \<longrightarrow> r_run rec1 = i \<and> terminal rec1 \<and>
        (\<exists>c. rec_of (e_store e1) i = Some (compact_terminal (rec1\<lparr>r_cancel := c\<rparr>))))"
    if "r_phase rec = PhaseForward" "reduceAndComplete env rec def e = (ok, rec1, e1)"
    using that commit_same_settled [OF tr i] fault good
    by (auto simp: reduceAndComplete_def Let_def split: option.splits prod.splits)
  show "settled sinv rec_of topo a0 L i e1" if "r_phase rec = PhaseUnwind" "reduceFailureAndComplete env rec def e = (ok, rec1, e1)"
    using that commit_same_settled [OF tr i] fault good
    by (auto simp: reduceFailureAndComplete_def Let_def split: option.splits prod.splits)
qed

section \<open>One iteration\<close>

lemma gate_tracks:
  assumes tr: "tracks sinv rec_of topo a0 L rec e" and i: "r_run rec = i" and g: "awaitGate env rec e = (b, rec1, e1)"
  shows "same_core rec rec1" and "r_cancel rec1 = r_cancel rec" and "tracks sinv rec_of topo a0 L rec1 e1" and "r_run rec1 = i"
proof -
  have settle: "same_core rec (settleAwait rec d ex)" "r_cancel (settleAwait rec d ex) = r_cancel rec" for d ex
    by (simp_all add: settleAwait_def same_core_def same_frame_def)
  show c: "same_core rec rec1" "r_cancel rec1 = r_cancel rec" using awaitGate_rec [OF g] settle by (auto split: if_splits)
  have "tracks sinv rec_of topo a0 L rec e1" by (rule tracks_stable [OF tr]) (use stable_awaitGate [of e rec] g i in simp)
  then show "tracks sinv rec_of topo a0 L rec1 e1" by (rule tracks_core [OF _ c])
  show "r_run rec1 = i" using c i by (simp add: same_core_def same_frame_def)
qed

lemma call_list_core:
  fixes L L' :: "('b invocation \<times> 's) list"
  assumes "call_list rec_of rec1 L L'" and "same_core rec rec1" and "r_cancel rec1 = r_cancel rec"
  shows "call_list rec_of rec L L'"
proof -
  have "rec_op rec1 = rec_op rec" using assms(2) by (intro rec_op_frame) (simp add: same_core_def)
  then have "reserved_call rec_of rec1 iv s \<longleftrightarrow> reserved_call rec_of rec iv s" for iv :: "'b invocation" and s
    using assms(2,3) by (simp add: reserved_call_def same_core_def same_frame_def)
  then show ?thesis using assms(1) by (simp add: call_list_def)
qed

lemma call_list_same [simp]: "call_list rec_of rec L L"
  by (simp add: call_list_def)

lemma concludes_iterates:
  assumes "concludes sinv rec_of topo a0 L i (vd, rec, e)" and "untouched e e'"
  shows "iterates sinv rec_of topo a0 L i (of_verdict (vd, rec, e'))"
proof (cases vd)
  case Advance
  then have c: "r_run rec = i" "carries sinv rec_of topo a0 L rec e'"
    using assms(1) carries_untouched [OF _ assms(2)] by (auto simp: concludes_def)
  then show ?thesis using Advance iterates_carry by (simp add: of_verdict_def)
next
  case (Leave d again)
  then show ?thesis using settled_untouched [OF _ assms(2)] assms(1) by (auto simp: of_verdict_def iterates_def concludes_def)
qed

lemma with_class_iterates:
  assumes tr: "tracks sinv rec_of topo a0 L rec e" and i: "r_run rec = i"
    and run: "\<And>e. tracks sinv rec_of topo a0 L rec e \<Longrightarrow> \<exists>L'. call_list rec_of rec L L' \<and> concludes sinv rec_of topo a0 L' i (run e)"
  shows "\<exists>L'. call_list rec_of rec L L' \<and> iterates sinv rec_of topo a0 L' i (with_class env rec cl run e)"
proof -
  obtain x e1 where x: "acquireClass env rec cl e = (x, e1)" by fastforce
  obtain pr h w where "x = (pr, h, w)" by (metis prod_cases3)
  with x have a: "acquireClass env rec cl e = ((pr, h, w), e1)" by simp
  have t1: "tracks sinv rec_of topo a0 L rec e1" by (rule tracks_untouched [OF tr untouched_acquireClass [OF a]])
  define e2 where "e2 = (if 0 < w then emit (EvClassWait (r_run rec) cl w) e1 else e1)"
  have t2: "tracks sinv rec_of topo a0 L rec e2" using t1 tracks_untouched [OF t1 untouched_emit] by (simp add: e2_def)
  obtain vd rec1 e3 where r: "run e2 = (vd, rec1, e3)" by (metis prod_cases3)
  obtain L' where L': "call_list rec_of rec L L'" "concludes sinv rec_of topo a0 L' i (vd, rec1, e3)" using run [OF t2] r by auto
  show ?thesis
  proof (cases pr)
    case True
    have "untouched e3 (if h then releaseClass cl e3 else e3)" by (simp add: untouched_releaseClass)
    from concludes_iterates [OF L'(2) this] show ?thesis
      using L'(1) a r True by (auto simp: with_class_def Let_def e2_def [symmetric])
  next
    case False
    then show ?thesis using a tracks_settled [OF t1] i
      by (intro exI [of _ L]) (simp add: with_class_def iterates_return)
  qed
qed

lemma step_forward_iterates:
  assumes tr: "tracks sinv rec_of topo a0 L rec e" and i: "r_run rec = i" and k: "k \<noteq> []" and p: "r_phase rec = PhaseForward"
    and sel: "k \<in> ls_id ` set topo" and un: "\<not> op_resolved (rec_op rec k PhaseForward)" and def: "Get pid (ev_pipelines env) = Some def"
  shows "\<exists>L'. call_list rec_of rec L L' \<and> iterates sinv rec_of topo a0 L' i (step_forward env rec def k e)"
proof -
  obtain b rec1 e1 where g: "awaitGate env rec e = (b, rec1, e1)" by (metis prod_cases3)
  note gate = gate_tracks [OF tr i g]
  obtain d e2 where rg: "retryGate env rec1 e1 = (d, e2)" by fastforce
  have t2: "tracks sinv rec_of topo a0 L rec1 e2" by (rule tracks_untouched [OF gate(3) untouched_retryGate [OF rg]])
  obtain b' e3 where rc: "acquireRunClass env rec1 def e2 = (b', e3)" by fastforce
  have t3: "tracks sinv rec_of topo a0 L rec1 e3" by (rule tracks_untouched [OF t2 untouched_acquireRunClass [OF rc]])
  have op: "rec_op rec1 = rec_op rec" using gate(1) by (intro rec_op_frame) (simp add: same_core_def)
  note s = tracks_settled [OF tr, unfolded i] tracks_settled [OF gate(3), unfolded gate(4)] tracks_settled [OF t2, unfolded gate(4)]
    tracks_settled [OF t3, unfolded gate(4)]
  have same: ?thesis if "iterates sinv rec_of topo a0 L i (step_forward env rec def k e)" using that call_list_same by blast
  show ?thesis
  proof (cases "e_draining e \<or> r_cancel rec \<noteq> None \<or> b \<or> d \<noteq> None \<or> \<not> b' \<or> gm_get (bd_steps def) k = None")
    case True
    obtain ok rec' e' where c: "cancelOperation env rec k None None 0 e = (ok, rec', e')" by (metis prod_cases3)
    have "iterates sinv rec_of topo a0 L i (Return d1 f1, e)" "iterates sinv rec_of topo a0 L i (Return d1 f1, e1)"
      "iterates sinv rec_of topo a0 L i (Return d1 f1, e2)" "iterates sinv rec_of topo a0 L i (Return d1 f1, e3)"
      "iterates sinv rec_of topo a0 L i (Return d1 f1, crash e3)" for d1 f1
      using s settled_untouched [OF s(4) untouched_crash] by (simp_all add: iterates_return)
    moreover have "iterates sinv rec_of topo a0 L i (if ok then Carry rec' else Return second True, e')"
      using cancel_tracks [OF tr i p un c] by (simp add: iterates_carry iterates_return)
    ultimately show ?thesis using True g rg rc c
      by (intro same) (auto simp: step_forward_def split: bool.split option.split if_splits)
  next
    case False
    then obtain sc where sc: "gm_get (bd_steps def) k = Some sc" by auto
    have run: "\<exists>L'. call_list rec_of rec1 L L' \<and> concludes sinv rec_of topo a0 L' i (runForward env rec1 def sc k e4)"
      if "tracks sinv rec_of topo a0 L rec1 e4" for e4
      by (rule runForward_concludes [OF that gate(4) k _ sel _ _ def sc]) (use False gate p un op in \<open>simp_all add: same_core_def\<close>)
    have "\<exists>L'. call_list rec_of rec1 L L' \<and>
        iterates sinv rec_of topo a0 L' i (with_class env rec1 (ps_class (bs_step sc)) (runForward env rec1 def sc k) e3)"
      by (rule with_class_iterates [OF t3 gate(4) run])
    moreover have "step_forward env rec def k e = with_class env rec1 (ps_class (bs_step sc)) (runForward env rec1 def sc k) e3"
      using False g rg rc sc by (auto simp: step_forward_def)
    ultimately show ?thesis using call_list_core [OF _ gate(1,2)] by metis
  qed
qed

lemma step_unwind_iterates:
  assumes tr: "tracks sinv rec_of topo a0 L rec e" and i: "r_run rec = i" and k: "k \<noteq> []" and p: "r_phase rec = PhaseUnwind"
    and sel: "\<exists>s\<in>set topo. ls_unwind s \<and> k = ls_id s" "or_status (rec_op rec k PhaseForward) = OpSucceeded"
    and un: "\<not> op_resolved (rec_op rec k PhaseUnwind)" and def: "Get pid (ev_pipelines env) = Some def"
  shows "\<exists>L'. call_list rec_of rec L L' \<and> iterates sinv rec_of topo a0 L' i (step_unwind env rec def k e)"
proof -
  obtain b rec1 e1 where g: "awaitGate env rec e = (b, rec1, e1)" by (metis prod_cases3)
  note gate = gate_tracks [OF tr i g]
  obtain d e2 where rg: "retryGate env rec1 e1 = (d, e2)" by fastforce
  have t2: "tracks sinv rec_of topo a0 L rec1 e2" by (rule tracks_untouched [OF gate(3) untouched_retryGate [OF rg]])
  have op: "rec_op rec1 = rec_op rec" using gate(1) by (intro rec_op_frame) (simp add: same_core_def)
  note s = tracks_settled [OF tr, unfolded i] tracks_settled [OF gate(3), unfolded gate(4)] tracks_settled [OF t2, unfolded gate(4)]
  have same: ?thesis if "iterates sinv rec_of topo a0 L i (step_unwind env rec def k e)" using that call_list_same by blast
  show ?thesis
  proof (cases "e_draining e \<or> b \<or> d \<noteq> None \<or> gm_get (bd_steps def) k = None")
    case True
    have "iterates sinv rec_of topo a0 L i (Return d1 f1, e)" "iterates sinv rec_of topo a0 L i (Return d1 f1, e1)"
      "iterates sinv rec_of topo a0 L i (Return d1 f1, e2)" "iterates sinv rec_of topo a0 L i (Return d1 f1, crash e2)" for d1 f1
      using s settled_untouched [OF s(3) untouched_crash] by (simp_all add: iterates_return)
    then show ?thesis using True g rg by (intro same) (auto simp: step_unwind_def split: bool.split option.split)
  next
    case False
    then obtain sc where sc: "gm_get (bd_steps def) k = Some sc" by auto
    have run: "\<exists>L'. call_list rec_of rec1 L L' \<and> concludes sinv rec_of topo a0 L' i (runUnwind env rec1 def sc k e4)"
      if "tracks sinv rec_of topo a0 L rec1 e4" for e4
      by (rule runUnwind_concludes [OF that gate(4) k _ sel(1) _ _ def sc]) (use gate p un op sel in \<open>simp_all add: same_core_def\<close>)
    have "\<exists>L'. call_list rec_of rec1 L L' \<and>
        iterates sinv rec_of topo a0 L' i (with_class env rec1 (ps_class (bs_step sc)) (runUnwind env rec1 def sc k) e2)"
      by (rule with_class_iterates [OF t2 gate(4) run])
    moreover have "step_unwind env rec def k e = with_class env rec1 (ps_class (bs_step sc)) (runUnwind env rec1 def sc k) e2"
      using False g rg sc by (auto simp: step_unwind_def)
    ultimately show ?thesis using call_list_core [OF _ gate(1,2)] by metis
  qed
qed

lemma reconcile_iterates:
  assumes tr: "tracks sinv rec_of topo a0 L rec e" and i: "r_run rec = i" and topo: "topo = topo_of env (r_pipeline rec)" and nm: "named_steps env"
  shows "\<exists>L'. call_list rec_of rec L L' \<and> iterates sinv rec_of topo a0 L' i (reconcile env rec e)"
proof -
  note s = tracks_settled [OF tr, unfolded i]
  have nt: "\<not> terminal rec" using tr by (simp add: tracks_def)
  have ok: "gm_ok (r_steps rec)" using tr steps_law [of "e_store e" i] by (auto simp: tracks_def i same_core_def)
  have same: ?thesis if "iterates sinv rec_of topo a0 L i (reconcile env rec e)" using that call_list_same by blast
  have inval: "iterates sinv rec_of topo a0 L i (Return d f, markInvalid rec k reason e)" for d f k reason
    by (rule iterates_return [OF settled_untouched [OF s untouched_markInvalid]])
  show ?thesis
  proof (cases "Get (r_pipeline rec) (ev_pipelines env)")
    case None
    then show ?thesis using inval nt by (intro same) (simp add: reconcile_def)
  next
    case def: (Some def)
    then have topo': "topo = bd_topo def" using topo by (simp add: topo_of_def)
    have k: "k \<in> ls_id ` set topo \<Longrightarrow> k \<noteq> []" for k using nm unfolding topo named_steps_def by metis
    show ?thesis
    proof (cases "next_decision def rec")
      case None
      then show ?thesis using inval nt def by (intro same) (simp add: reconcile_def)
    next
      case dec: (Some dec)
      note rc = reconcile_def [of env rec e] nt def dec
      show ?thesis
      proof (cases "d_kind dec")
        case KindRunForward
        note nd = next_decision_forward [OF dec KindRunForward ok]
        show ?thesis using step_forward_iterates [OF tr i k nd(1) _ nd(3) def] nd(2) KindRunForward rc by (simp add: topo')
      next
        case KindForwardComplete
        have ph: "r_phase rec = PhaseForward" using next_decision_complete(1) [OF dec KindForwardComplete] .
        obtain okc rec1 e1 where c: "reduceAndComplete env rec def e = (okc, rec1, e1)" by (metis prod_cases3)
        show ?thesis using reduce_settled(1) [OF tr i ph c] KindForwardComplete rc c
          by (intro same) (auto simp: iterates_def split: bool.split)
      next
        case KindRunUnwind
        note nd = next_decision_unwind [OF dec KindRunUnwind]
        then have kt: "d_step dec \<noteq> []" "\<exists>s\<in>set topo. ls_unwind s \<and> d_step dec = ls_id s" using k topo' by auto
        show ?thesis using step_unwind_iterates [OF tr i kt(1) nd(1) kt(2) nd(4) nd(2) def] KindRunUnwind rc by simp
      next
        case KindUnwindComplete
        have ph: "r_phase rec = PhaseUnwind" using next_decision_complete(2) [OF dec KindUnwindComplete] .
        obtain okc rec1 e1 where c: "reduceFailureAndComplete env rec def e = (okc, rec1, e1)" by (metis prod_cases3)
        show ?thesis using reduce_settled(2) [OF tr i ph c] KindUnwindComplete rc c
          by (intro same) (simp add: iterates_return)
      next
        case KindInvalid
        then show ?thesis using inval rc by (intro same) simp
      qed
    qed
  qed
qed

end

end
