(* ===== verification/Engine_Loop.thy ===== *)
theory Engine_Loop
  imports Engine_Worker
begin

text \<open>
  The worker loop (\<^verbatim>\<open>processRun\<close> of \<^verbatim>\<open>src/engine/engine.go\<close>) as a whole: an iteration that starts with
  nothing carried, or with the record the store holds, keeps the run on a path of the machine, and so
  does the loop, over any number of iterations and whatever other goroutines do in between. The
  properties instantiate the lemmas for the in-memory store in their witnesses.
\<close>

section \<open>One iteration from a stored record\<close>

text \<open>What a worker may bring into an iteration: nothing, or the stored record up to a cancel request.\<close>

definition carried_ok :: "run_record option \<Rightarrow> run_record \<Rightarrow> bool" where
  "carried_ok carried r = (case carried of None \<Rightarrow> True
     | Some rec \<Rightarrow> (\<exists>c. r = rec\<lparr>r_cancel := c\<rparr> \<and> (r_cancel rec \<noteq> None \<longrightarrow> c = r_cancel rec)))"

text \<open>A run that ended may be gone from the store.\<close>

definition ends :: "('s \<Rightarrow> bool) \<Rightarrow> ('s \<Rightarrow> run_id \<Rightarrow> run_record option) \<Rightarrow> topology \<Rightarrow> run_abs \<Rightarrow> run_id \<Rightarrow> ('s, 'm) engine \<Rightarrow> bool" where
  "ends sinv rec_of topo a0 i e \<longleftrightarrow> sinv (e_store e) \<and> (case rec_of (e_store e) i of
     Some r \<Rightarrow> run_path topo a0 (abs_run r) | None \<Rightarrow> (\<exists>a. run_path topo a0 a \<and> ra_outcome a \<noteq> None))"

lemma settled_ends: "settled sinv rec_of topo a0 L i e \<Longrightarrow> ends sinv rec_of topo a0 i e"
  by (auto simp: settled_def ends_def)

lemma ends_stable:
  assumes "ends sinv rec_of topo a0 i e" and "stable sinv rec_of i e e'"
  shows "ends sinv rec_of topo a0 i e'"
proof (cases "rec_of (e_store e) i")
  case None
  then show ?thesis using assms by (auto simp: ends_def stable_def only_cancels_def)
next
  case (Some r)
  have ab: "abs_run (r\<lparr>r_cancel := c\<rparr>) = abs_run r" for c using same_core_abs [of r "r\<lparr>r_cancel := c\<rparr>"] by simp
  have oc: "only_cancels (Some r) (rec_of (e_store e') i)" "sinv (e_store e')" and path: "run_path topo a0 (abs_run r)"
    using assms Some by (auto simp: ends_def stable_def)
  show ?thesis
  proof (cases "terminal r")
    case True
    then have "ra_outcome (abs_run r) \<noteq> None" by (simp add: terminal_def)
    then have "\<exists>a. run_path topo a0 a \<and> ra_outcome a \<noteq> None" using path by blast
    then show ?thesis using True oc path unfolding ends_def only_cancels_def by (cases "rec_of (e_store e') i") simp_all
  next
    case False
    then show ?thesis using oc path ab by (auto simp: ends_def only_cancels_def)
  qed
qed

text \<open>Where a worker stands between iterations.\<close>

definition standing :: "('s \<Rightarrow> bool) \<Rightarrow> ('s \<Rightarrow> run_id \<Rightarrow> run_record option) \<Rightarrow> topology \<Rightarrow> run_abs \<Rightarrow> run_id \<Rightarrow> run_record option \<Rightarrow>
    ('s, 'm) engine \<Rightarrow> bool" where
  "standing sinv rec_of topo a0 i carried e \<longleftrightarrow> ends sinv rec_of topo a0 i e \<and>
     (if \<exists>r. rec_of (e_store e) i = Some r \<and> \<not> terminal r then carried_ok carried (the (rec_of (e_store e) i))
      else \<forall>rec. carried = Some rec \<longrightarrow> terminal rec)"

text \<open>The handler calls of a stretch of a run: each on a reservation the store held.\<close>

definition durable_calls :: "('s \<Rightarrow> run_id \<Rightarrow> run_record option) \<Rightarrow> topology \<Rightarrow> run_abs \<Rightarrow> ('m invocation \<times> 's) list \<Rightarrow> bool" where
  "durable_calls rec_of topo a0 new \<longleftrightarrow> (\<forall>(iv, s)\<in>set new. \<exists>rec. run_path topo a0 (abs_run rec) \<and> reserved_call rec_of rec iv s)"

lemma carries_stored:
  assumes "carries sinv rec_of topo a0 L rec e"
  shows "\<exists>c. rec_of (e_store e) (r_run rec) = Some (rec\<lparr>r_cancel := c\<rparr>) \<and> (r_cancel rec \<noteq> None \<longrightarrow> c = r_cancel rec)"
proof -
  obtain c r where c: "rec_of (e_store e) (r_run rec) = Some (rec\<lparr>r_cancel := c\<rparr>)"
    and r: "rec_of (e_store e) (r_run rec) = Some r" "r_cancel rec \<noteq> None \<longrightarrow> r_cancel r = r_cancel rec"
    using assms unfolding carries_def tracks_def by blast
  have "r_cancel r = c" using c r(1) by simp
  then show ?thesis using c r(2) by blast
qed

lemma call_list_new:
  assumes "call_list rec_of rec L L'" and "run_path topo a0 (abs_run rec)"
  shows "\<exists>new. L' = L @ new \<and> length new \<le> 1 \<and> durable_calls rec_of topo a0 new"
  using assms(1) unfolding call_list_def
proof (elim disjE exE conjE)
  fix iv s assume "L' = L @ [(iv, s)]" "reserved_call rec_of rec iv s"
  then show ?thesis using assms(2) by (intro exI [of _ "[(iv, s)]"]) (auto simp: durable_calls_def)
qed (auto simp: durable_calls_def)

lemma tracksI:
  assumes "sinv (e_store e)" and "invokes (r_run rec) e = L" and "\<not> terminal r" and "rec_of (e_store e) (r_run rec) = Some r"
    and "r = rec\<lparr>r_cancel := c\<rparr>" and "r_cancel rec \<noteq> None \<longrightarrow> c = r_cancel rec" and "run_path topo a0 (abs_run rec)"
  shows "tracks sinv rec_of topo a0 L rec e"
  using assms same_core_abs [of rec r] by (auto simp: tracks_def terminal_def)

lemma apply_rec_record: "apply_rec env rec t e = (ok, rec', e') \<Longrightarrow> r_phase rec' = r_phase rec \<and> r_outcome rec' = r_outcome rec"
  by (auto simp: apply_rec_def Let_def split: prod.splits sum.splits)

text \<open>A forward run whose record has a cancel request is taken out of the forward phase, or ends.\<close>

lemma cancel_leaves_forward:
  assumes rc: "reconcile env rec e = (Carry rec', e')" and ph: "r_phase rec = PhaseForward" and c: "r_cancel rec \<noteq> None"
  shows "terminal rec' \<or> r_phase rec' \<noteq> PhaseForward"
proof -
  obtain def dec where d: "Get (r_pipeline rec) (ev_pipelines env) = Some def" "dec = NextForward (bd_topo def) (factsOf rec)" "\<not> terminal rec"
    "next_decision def rec = Some dec" using rc ph by (auto simp: reconcile_def next_decision_def split: if_splits option.splits)
  have canceled: "r_phase (canceled_rec env rec k pre err now) = PhaseUnwind" for k pre err now
    by (simp add: canceled_rec_def Let_def put_op_def clearLastError_def)
  have cancel: "r_phase rec1 = PhaseUnwind" if "cancelOperation env rec k None None 0 e = (True, rec1, e1)" for k rec1 e1
    using that apply_rec_record canceled by (fastforce simp: cancelOperation_def Let_def split: prod.splits bool.splits)
  have commit: "terminal rec2" if "commit_outcome env rec1 oc e1 = (True, rec2, e2)" for rec1 oc e1 rec2 e2
    using that apply_rec_record by (fastforce simp: commit_outcome_def Let_def terminal_def split: prod.splits bool.splits)
  have "d_kind dec \<in> {KindInvalid, KindRunForward, KindForwardComplete}" unfolding d(2) by (rule NextForward_kind)
  then show ?thesis
    using rc d(1,3,4) c cancel commit
    by (auto simp: reconcile_def step_forward_def reduceAndComplete_def Let_def split: if_splits prod.splits bool.splits option.splits)
qed

lemma path_past_forward: "run_path topo a b \<Longrightarrow> ra_phase a \<noteq> PhaseForward \<Longrightarrow> ra_phase b \<noteq> PhaseForward"
proof (induction rule: rtranclp_induct)
  case (step b c)
  from step(2) step(3) [OF step(4)] show ?case by (cases rule: run_move.cases) auto
qed

text \<open>The run is past its forward phase, or a cancel request is durable and the worker will read the record before it decides.\<close>

definition stops_forward :: "('s \<Rightarrow> run_id \<Rightarrow> run_record option) \<Rightarrow> run_id \<Rightarrow> run_record option \<Rightarrow> ('s, 'm) engine \<Rightarrow> bool" where
  "stops_forward rec_of i carried e \<longleftrightarrow> (\<forall>r. rec_of (e_store e) i = Some r \<longrightarrow> \<not> terminal r \<longrightarrow>
     r_phase r \<noteq> PhaseForward \<or> r_cancel r \<noteq> None \<and> (carried = None \<or> i \<in> ds_marked (e_dirty e)))"

definition spares_forward :: "('m invocation \<times> 's) list \<Rightarrow> bool" where
  "spares_forward new \<longleftrightarrow> list_all (\<lambda>(iv, s). inv_phase iv \<noteq> PhaseForward) new"

text \<open>The iterations of a worker: each goes on with the record the one before it carries.\<close>

inductive iterations :: "('s, 'm) env \<Rightarrow> run_id \<Rightarrow> run_record option \<times> ('s, 'm) engine \<Rightarrow> run_record option \<times> ('s, 'm) engine \<Rightarrow> bool" for env i where
  start: "iterations env i x x"
| more: "iterations env i x (carried, e) \<Longrightarrow> process_step env i carried e = (Carry rec, e') \<Longrightarrow> iterations env i x (Some rec, e')"

lemma spares_forward_append: "spares_forward xs \<Longrightarrow> spares_forward ys \<Longrightarrow> spares_forward (xs @ ys)"
  by (simp add: spares_forward_def)

context engine_client
begin

lemma stored_stable:
  assumes "sinv (e_store e)" and "rec_of (e_store e) i = Some r" and "\<not> terminal r" and "stable sinv rec_of i e e'"
  obtains c where "sinv (e_store e')" and "rec_of (e_store e') i = Some (r\<lparr>r_cancel := c\<rparr>)" and "r_cancel r \<noteq> None \<longrightarrow> c = r_cancel r"
    and "invokes i e' = invokes i e"
  using assms by (auto simp: stable_def only_cancels_def)

lemma process_iterates:
  assumes inv: "sinv (e_store e)" and r: "rec_of (e_store e) i = Some r" and nt: "\<not> terminal r" and car: "carried_ok carried r"
    and nm: "named_steps env" and path: "run_path topo a0 (abs_run r)" and topo: "topo = topo_of env (r_pipeline r)"
  shows "\<exists>rec L'. same_core r rec \<and> (carried = None \<or> i \<in> ds_marked (e_dirty e) \<longrightarrow> r_cancel r \<noteq> None \<longrightarrow> r_cancel rec = r_cancel r) \<and>
    call_list rec_of rec (invokes i e) L' \<and> iterates sinv rec_of topo a0 L' i (process_step env i carried e) \<and>
    (\<forall>rec'. fst (process_step env i carried e) = Carry rec' \<longrightarrow> (\<exists>e2. process_step env i carried e = reconcile env rec e2))"
proof -
  let ?y = "yields env e"
  define e1 where "e1 = ?y\<lparr>e_dirty := snd (Take i (e_dirty ?y))\<rparr>"
  have ri: "r_run r = i" by (rule identity [OF inv r])
  have st0: "stable sinv rec_of i e ?y" by (rule stable_yields)
  obtain c0 where y: "sinv (e_store ?y)" "rec_of (e_store ?y) i = Some (r\<lparr>r_cancel := c0\<rparr>)" "r_cancel r \<noteq> None \<longrightarrow> c0 = r_cancel r"
      "invokes i ?y = invokes i e" using stored_stable [OF inv r nt st0] .
  have e1: "e_store e1 = e_store ?y" "invokes i e1 = invokes i e" using y(4) by (simp_all add: e1_def invokes_def)
  have ab: "abs_run (r\<lparr>r_cancel := c\<rparr>) = abs_run r" for c using same_core_abs [of r "r\<lparr>r_cancel := c\<rparr>"] by simp
  have stop: "settled sinv rec_of topo a0 (invokes i e) i ?y" using y path ab by (auto simp: settled_def)
  have go: ?thesis if ex: "\<exists>rec. same_core r rec \<and> (carried = None \<or> i \<in> ds_marked (e_dirty e) \<longrightarrow> r_cancel r \<noteq> None \<longrightarrow> r_cancel rec = r_cancel r) \<and>
      tracks sinv rec_of topo a0 (invokes i e) rec e2 \<and> process_step env i carried e = reconcile env rec e2" for e2
  proof -
    obtain rec where w: "same_core r rec" "carried = None \<or> i \<in> ds_marked (e_dirty e) \<longrightarrow> r_cancel r \<noteq> None \<longrightarrow> r_cancel rec = r_cancel r"
      "tracks sinv rec_of topo a0 (invokes i e) rec e2" "process_step env i carried e = reconcile env rec e2" using ex by blast
    have "r_run rec = i" "topo = topo_of env (r_pipeline rec)" using w(1) ri topo by (simp_all add: same_core_def same_frame_def)
    from reconcile_iterates [OF w(3) this nm] obtain L' where "call_list rec_of rec (invokes i e) L'"
      "iterates sinv rec_of topo a0 L' i (reconcile env rec e2)" by blast
    then show ?thesis using w by (intro exI [of _ rec] exI [of _ L']) auto
  qed
  show ?thesis
  proof (cases "e_stopped ?y")
    case True
    then show ?thesis using stop by (intro exI [of _ r] exI [of _ "invokes i e"]) (auto simp: process_step_def Let_def call_list_def iterates_def)
  next
    case run: False
    show ?thesis
    proof (cases "carried = None \<or> i \<in> ds_marked (e_dirty ?y)")
      case False
      then obtain rec where c: "carried = Some rec" by auto
      then obtain c where rec: "carried = Some rec" "r = rec\<lparr>r_cancel := c\<rparr>" "r_cancel rec \<noteq> None \<longrightarrow> c = r_cancel rec"
        using car unfolding carried_ok_def c option.case by blast
      have core: "same_core r rec" using rec(2) by (simp add: same_core_def same_frame_def)
      have "tracks sinv rec_of topo a0 (invokes i e) rec e1"
        by (rule tracksI [of _ _ _ _ "r\<lparr>r_cancel := c0\<rparr>" _ c0])
          (use y e1 ri rec nt path same_core_abs [OF core] in \<open>auto simp: terminal_def\<close>)
      moreover have "process_step env i carried e = reconcile env rec e1"
        using run False rec by (simp add: process_step_def Let_def Take_def e1_def)
      moreover have "i \<notin> ds_marked (e_dirty e)" using False st0 by (auto simp: stable_def)
      ultimately show ?thesis using go core rec(1) by blast
    next
      case True
      obtain res e2 where g: "st_get env i e1 = (res, e2)" by fastforce
      let ?z = "yields env e1"
      have at1: "rec_of (e_store e1) i = Some (r\<lparr>r_cancel := c0\<rparr>)" "sinv (e_store e1)" "\<not> terminal (r\<lparr>r_cancel := c0\<rparr>)"
        using y e1 nt by (simp_all add: terminal_def)
      obtain c1 where z: "sinv (e_store ?z)" "rec_of (e_store ?z) i = Some (r\<lparr>r_cancel := c1\<rparr>)" "c0 \<noteq> None \<longrightarrow> c1 = c0" "invokes i ?z = invokes i e"
        using stored_stable [OF at1(2,1,3) stable_yields] e1(2) by auto
      obtain s where so: "so_get (ev_ops env) (e_store ?z) i = (res, s)" and e2: "e2 = ?z\<lparr>e_store := s\<rparr>"
        using g by (auto simp: st_get_def store_call_def Let_def split: prod.splits)
      note law = get_law [OF z(1) so]
      have iv2: "invokes i e2 = invokes i e" using z(4) by (simp add: e2 invokes_def)
      have ps: "process_step env i carried e = (case res of
          Inl err \<Rightarrow> (if err = ErrRunNotFound then Return 0 False else Return second True, e2) | Inr rec \<Rightarrow> reconcile env rec e2)"
        using run True g by (cases "i \<in> ds_marked (e_dirty ?y)") (auto simp: process_step_def Let_def Take_def e1_def split: sum.split)
      show ?thesis
      proof (cases res)
        case (Inl err)
        have "settled sinv rec_of topo a0 (invokes i e) i e2"
          by (rule settledI [of sinv e2 i _ rec_of "r\<lparr>r_cancel := c1\<rparr>"]) (use law z iv2 path ab in \<open>simp_all add: e2\<close>)
        then show ?thesis using ps Inl by (intro exI [of _ r] exI [of _ "invokes i e"]) (auto simp: call_list_def iterates_def)
      next
        case (Inr rec)
        then have rec: "rec = r\<lparr>r_cancel := c1\<rparr>" using law z(2) by simp
        have "tracks sinv rec_of topo a0 (invokes i e) rec e2"
          by (rule tracksI [of _ _ _ _ rec _ c1]) (use law z iv2 path ab nt ri in \<open>simp_all add: e2 rec terminal_def\<close>)
        moreover have "process_step env i carried e = reconcile env rec e2" using ps Inr by simp
        ultimately show ?thesis using y(3) z(3) rec by (intro go exI [of _ rec]) auto
      qed
    qed
  qed
qed

lemma process_finished:
  assumes en: "ends sinv rec_of topo a0 i e" and fin: "\<nexists>r. rec_of (e_store e) i = Some r \<and> \<not> terminal r"
    and car: "\<And>rec. carried = Some rec \<Longrightarrow> terminal rec"
  shows "(\<exists>d again. fst (process_step env i carried e) = Return d again) \<and> ends sinv rec_of topo a0 i (snd (process_step env i carried e)) \<and>
    invokes i (snd (process_step env i carried e)) = invokes i e"
proof -
  let ?y = "yields env e"
  define e1 where "e1 = ?y\<lparr>e_dirty := snd (Take i (e_dirty ?y))\<rparr>"
  have gone: "\<nexists>r. rec_of (e_store e'') i = Some r \<and> \<not> terminal r"
    if "\<nexists>r. rec_of (e_store e') i = Some r \<and> \<not> terminal r" "stable sinv rec_of i e' e''" "sinv (e_store e')" for e' e'' :: "('s, 'm) engine"
    using that by (auto simp: stable_def only_cancels_def split: option.splits if_splits)
  have y: "ends sinv rec_of topo a0 i ?y" "invokes i ?y = invokes i e" "sinv (e_store e)" "sinv (e_store ?y)"
    using ends_stable [OF en stable_yields] stable_yields [of e] en by (auto simp: stable_def ends_def)
  have e1: "ends sinv rec_of topo a0 i e1" "invokes i e1 = invokes i e" "\<nexists>r. rec_of (e_store e1) i = Some r \<and> \<not> terminal r"
    using y gone [OF fin stable_yields] by (simp_all add: e1_def ends_def invokes_def)
  let ?z = "yields env e1"
  obtain res s where so: "so_get (ev_ops env) (e_store ?z) i = (res, s)" by fastforce
  define e2 where "e2 = ?z\<lparr>e_store := s\<rparr>"
  have g: "st_get env i e1 = (res, e2)" using so by (simp add: st_get_def store_call_def Let_def e2_def)
  have s1: "sinv (e_store e1)" using e1(1) by (simp add: ends_def)
  have z: "sinv (e_store ?z)" using stable_yields [of e1] s1 by (simp add: stable_def)
  have e2: "stable sinv rec_of i e1 e2" using stable_st_get [of e1 i] g by simp
  then have en2: "ends sinv rec_of topo a0 i e2" "invokes i e2 = invokes i e" using ends_stable [OF e1(1)] e1(2) by (auto simp: stable_def)
  have trm: "terminal rec" if "res = Inr rec" for rec
    using get_law [OF z so] that gone [OF e1(3) stable_yields s1] by auto
  have done': "fst (reconcile env rec e') = Return 0 False" "untouched e' (snd (reconcile env rec e'))" if "terminal rec" for rec and e' :: "('s, 'm) engine"
    using that untouched_trans [OF untouched_notify untouched_awaitTargetDone] by (simp_all add: reconcile_def)
  have rc: "(\<exists>d again. fst (reconcile env rec e') = Return d again) \<and> ends sinv rec_of topo a0 i (snd (reconcile env rec e')) \<and>
      invokes i (snd (reconcile env rec e')) = invokes i e"
    if "terminal rec" "ends sinv rec_of topo a0 i e'" "invokes i e' = invokes i e" for rec e'
    using done' [OF that(1), of e'] that by (auto simp: untouched_def ends_def)
  show ?thesis
  proof (cases "e_stopped ?y")
    case True
    then show ?thesis using y by (auto simp: process_step_def Let_def)
  next
    case run: False
    show ?thesis
    proof (cases "carried = None \<or> i \<in> ds_marked (e_dirty ?y)")
      case False
      then obtain rec where c: "carried = Some rec" by auto
      then have "process_step env i carried e = reconcile env rec e1" using run False by (simp add: process_step_def Let_def Take_def e1_def)
      then show ?thesis using rc [OF car [OF c] e1(1,2)] by simp
    next
      case True
      have ps: "process_step env i carried e = (case res of
          Inl err \<Rightarrow> (if err = ErrRunNotFound then Return 0 False else Return second True, e2) | Inr rec \<Rightarrow> reconcile env rec e2)"
        using run True g by (cases "i \<in> ds_marked (e_dirty ?y)") (auto simp: process_step_def Let_def Take_def e1_def split: sum.split)
      show ?thesis using rc [OF trm en2] en2 by (cases res) (auto simp: ps)
    qed
  qed
qed

lemma process_standing:
  assumes st: "standing sinv rec_of topo a0 i carried e" and nm: "named_steps env" and topo: "topo = topo_of env (ra_pipeline a0)"
    and ps: "process_step env i carried e = (it, e')"
  shows "\<exists>new. invokes i e' = invokes i e @ new \<and> length new \<le> 1 \<and> durable_calls rec_of topo a0 new \<and> ends sinv rec_of topo a0 i e' \<and>
    (\<forall>rec. it = Carry rec \<longrightarrow> standing sinv rec_of topo a0 i (Some rec) e')"
proof (cases "\<exists>r. rec_of (e_store e) i = Some r \<and> \<not> terminal r")
  case False
  then have en: "ends sinv rec_of topo a0 i e" and car: "\<forall>rec. carried = Some rec \<longrightarrow> terminal rec"
    using st by (simp_all only: standing_def if_False) blast+
  have "\<exists>d again. it = Return d again" "ends sinv rec_of topo a0 i e'" "invokes i e' = invokes i e"
    using process_finished [OF en False, of carried] car ps by simp_all
  then show ?thesis by (intro exI [of _ "[]"]) (auto simp: durable_calls_def)
next
  case True
  then obtain r where r: "rec_of (e_store e) i = Some r" "\<not> terminal r" by blast
  then have car: "carried_ok carried r" and en: "sinv (e_store e)" "run_path topo a0 (abs_run r)"
    using st by (auto simp: standing_def ends_def)
  have "topo = topo_of env (r_pipeline r)" using run_path_pipeline [OF en(2)] topo by simp
  from process_iterates [OF en(1) r car nm en(2) this] obtain rec L' where core: "same_core r rec"
    and cl: "call_list rec_of rec (invokes i e) L'" and it: "iterates sinv rec_of topo a0 L' i (it, e')" using ps by auto
  have path: "run_path topo a0 (abs_run rec)" using en(2) same_core_abs [OF core] by simp
  obtain new where new: "L' = invokes i e @ new" "length new \<le> 1" "durable_calls rec_of topo a0 new"
    using call_list_new [OF cl path] by blast
  have se: "settled sinv rec_of topo a0 L' i e'" using it by (simp add: iterates_def)
  have "standing sinv rec_of topo a0 i (Some rec') e'" if ic: "it = Carry rec'" for rec'
  proof (cases "terminal rec'")
    case True
    then obtain c where "rec_of (e_store e') i = Some (compact_terminal (rec'\<lparr>r_cancel := c\<rparr>))" using it ic by (auto simp: iterates_def)
    then show ?thesis using True settled_ends [OF se] by (auto simp: standing_def terminal_def compact_terminal_def)
  next
    case False
    then have c: "carries sinv rec_of topo a0 L' rec' e'" "r_run rec' = i" using it ic by (auto simp: iterates_def)
    then obtain c' where s: "rec_of (e_store e') i = Some (rec'\<lparr>r_cancel := c'\<rparr>)" "r_cancel rec' \<noteq> None \<longrightarrow> c' = r_cancel rec'"
      using carries_stored [OF c(1)] by blast
    have ok: "carried_ok (Some rec') (rec'\<lparr>r_cancel := c'\<rparr>)" unfolding carried_ok_def option.case using s(2) by blast
    have "\<exists>r. rec_of (e_store e') i = Some r \<and> \<not> terminal r" using s(1) False by (simp add: terminal_def)
    then show ?thesis using s ok settled_ends [OF se] by (simp add: standing_def)
  qed
  then show ?thesis using new se settled_ends [OF se] by (auto simp: settled_def)
qed

lemma process_spares_forward:
  assumes st: "standing sinv rec_of topo a0 i carried e" and nm: "named_steps env" and topo: "topo = topo_of env (ra_pipeline a0)"
    and ps: "process_step env i carried e = (it, e')" and sf: "stops_forward rec_of i carried e"
  shows "\<exists>new. invokes i e' = invokes i e @ new \<and> spares_forward new \<and>
    (\<forall>rec. it = Carry rec \<longrightarrow> standing sinv rec_of topo a0 i (Some rec) e' \<and> stops_forward rec_of i (Some rec) e')"
proof (cases "\<exists>r. rec_of (e_store e) i = Some r \<and> \<not> terminal r")
  case False
  then have en: "ends sinv rec_of topo a0 i e" and car: "\<forall>rec. carried = Some rec \<longrightarrow> terminal rec"
    using st by (simp_all only: standing_def if_False) blast+
  have "\<exists>d again. it = Return d again" "invokes i e' = invokes i e"
    using process_finished [OF en False, of carried] car ps by simp_all
  then show ?thesis by (intro exI [of _ "[]"]) (auto simp: spares_forward_def)
next
  case True
  then obtain r where r: "rec_of (e_store e) i = Some r" "\<not> terminal r" by blast
  then have car: "carried_ok carried r" and inv: "sinv (e_store e)" using st by (auto simp: standing_def ends_def)
  from process_iterates [OF inv r car nm rtranclp.rtrancl_refl refl] obtain rec L' where core: "same_core r rec"
    and rcan: "carried = None \<or> i \<in> ds_marked (e_dirty e) \<longrightarrow> r_cancel r \<noteq> None \<longrightarrow> r_cancel rec = r_cancel r"
    and cl: "call_list rec_of rec (invokes i e) L'" and it: "iterates sinv rec_of (topo_of env (r_pipeline r)) (abs_run r) L' i (it, e')"
    and rc: "\<And>rec'. it = Carry rec' \<Longrightarrow> \<exists>e2. (it, e') = reconcile env rec e2" using ps by auto
  have ph: "r_phase rec = r_phase r" using core by (simp add: same_core_def same_frame_def)
  have go: "r_phase r \<noteq> PhaseForward \<or> r_cancel rec \<noteq> None" using sf r rcan by (auto simp: stops_forward_def)
  have L': "invokes i e' = L'" using it by (simp add: iterates_def settled_def)
  have calls: "\<exists>new. L' = invokes i e @ new \<and> spares_forward new"
  proof (cases "L' = invokes i e")
    case True
    then show ?thesis by (intro exI [of _ "[]"]) (simp add: spares_forward_def)
  next
    case False
    then obtain iv s where "L' = invokes i e @ [(iv, s)]" "reserved_call rec_of rec iv s" using cl unfolding call_list_def by blast
    then show ?thesis using go ph by (intro exI [of _ "[(iv, s)]"]) (auto simp: reserved_call_def spares_forward_def)
  qed
  have "stops_forward rec_of i (Some rec') e'" if c: "it = Carry rec'" for rec'
  proof (cases "terminal rec'")
    case True
    then obtain co where "rec_of (e_store e') i = Some (compact_terminal (rec'\<lparr>r_cancel := co\<rparr>))" using it c by (auto simp: iterates_def)
    then show ?thesis using True by (auto simp: stops_forward_def terminal_def compact_terminal_def)
  next
    case False
    then have k: "carries sinv rec_of (topo_of env (r_pipeline r)) (abs_run r) L' rec' e'" "r_run rec' = i" using it c by (auto simp: iterates_def)
    obtain co where s: "rec_of (e_store e') i = Some (rec'\<lparr>r_cancel := co\<rparr>)" using carries_stored [OF k(1)] k(2) by blast
    obtain r' where r': "rec_of (e_store e') i = Some r'" "run_path (topo_of env (r_pipeline r)) (abs_run r) (abs_run r')"
      using it by (auto simp: iterates_def settled_def)
    have "abs_run (rec'\<lparr>r_cancel := co\<rparr>) = abs_run rec'" using same_core_abs [of rec' "rec'\<lparr>r_cancel := co\<rparr>"] by simp
    then have path: "run_path (topo_of env (r_pipeline r)) (abs_run r) (abs_run rec')" using s r' by simp
    have "r_phase rec' \<noteq> PhaseForward"
    proof (cases "r_phase r = PhaseForward")
      case True
      obtain e2 where "reconcile env rec e2 = (Carry rec', e')" using rc [OF c] c by metis
      from cancel_leaves_forward [OF this] show ?thesis using True go ph False by simp
    next
      case False
      then show ?thesis using path_past_forward [OF path] by (simp add: abs_run_def)
    qed
    then show ?thesis using s by (simp add: stops_forward_def)
  qed
  then show ?thesis using calls L' process_standing [OF st nm topo ps] by blast
qed

lemma iterations_spare_forward:
  assumes "iterations env i x y" and "standing sinv rec_of topo a0 i (fst x) (snd x)" and "stops_forward rec_of i (fst x) (snd x)"
    and nm: "named_steps env" and topo: "topo = topo_of env (ra_pipeline a0)"
  shows "\<exists>new. invokes i (snd y) = invokes i (snd x) @ new \<and> spares_forward new \<and> standing sinv rec_of topo a0 i (fst y) (snd y) \<and>
    stops_forward rec_of i (fst y) (snd y)"
  using assms(1-3)
proof (induction rule: iterations.induct)
  case (start x)
  then show ?case by (intro exI [of _ "[]"]) (simp add: spares_forward_def)
next
  case (more x carried e rec e')
  then obtain new where new: "invokes i e = invokes i (snd x) @ new" "spares_forward new" "standing sinv rec_of topo a0 i carried e"
    "stops_forward rec_of i carried e" by auto
  from process_spares_forward [OF new(3) nm topo more(2) new(4)] obtain new' where
    "invokes i e' = invokes i e @ new'" "spares_forward new'" "standing sinv rec_of topo a0 i (Some rec) e'" "stops_forward rec_of i (Some rec) e'" by blast
  then show ?case using new spares_forward_append by (intro exI [of _ "new @ new'"]) simp
qed

lemma durable_calls_append: "durable_calls rec_of topo a0 xs \<Longrightarrow> durable_calls rec_of topo a0 ys \<Longrightarrow> durable_calls rec_of topo a0 (xs @ ys)"
  unfolding durable_calls_def by auto

lemma process_loop_standing:
  assumes "standing sinv rec_of topo a0 i carried e" and "named_steps env" and "topo = topo_of env (ra_pipeline a0)"
    and "process_loop fuel env i carried e = Some (d, again, e')"
  shows "\<exists>new. invokes i e' = invokes i e @ new \<and> length new \<le> fuel \<and> durable_calls rec_of topo a0 new \<and> ends sinv rec_of topo a0 i e'"
  using assms(1,4)
proof (induction fuel arbitrary: carried e)
  case (Suc fuel)
  obtain it e1 where ps: "process_step env i carried e = (it, e1)" by fastforce
  from process_standing [OF Suc.prems(1) assms(2,3) ps] obtain new where new: "invokes i e1 = invokes i e @ new" "length new \<le> 1"
      "durable_calls rec_of topo a0 new" "ends sinv rec_of topo a0 i e1" "\<And>rec. it = Carry rec \<Longrightarrow> standing sinv rec_of topo a0 i (Some rec) e1"
    by blast
  show ?case
  proof (cases it)
    case (Return d' again')
    then have "e' = e1" using Suc.prems(2) ps by simp
    then show ?thesis using new by (intro exI [of _ new]) simp
  next
    case (Carry rec)
    then have "process_loop fuel env i (Some rec) e1 = Some (d, again, e')" using Suc.prems(2) ps by simp
    from Suc.IH [OF new(5) [OF Carry] this] obtain new' where "invokes i e' = invokes i e1 @ new'" "length new' \<le> fuel"
      "durable_calls rec_of topo a0 new'" "ends sinv rec_of topo a0 i e'" by blast
    then show ?thesis using new durable_calls_append by (intro exI [of _ "new @ new'"]) auto
  qed
qed simp

end

end
