(* ===== verification/Engine_Props.thy ===== *)
theory Engine_Props
  imports Engine_Loop Engine_Api Mem_Store
begin

text \<open>
  The properties of the worker. Their statements quantify over every store that keeps the contract
  (\<open>run_store\<close>) and over every environment in which other goroutines keep to \<open>stable\<close> (\<open>keeps\<close>). The
  theory also interprets the worker's locale on the in-memory store, with any pipelines, clock and
  configuration, handlers that only compute, and cancel requests arriving at every point at which
  other goroutines may run; the witnesses run a two-step pipeline there.
\<close>

section \<open>The worker on the in-memory store\<close>

definition pure_step :: "('m invocation \<Rightarrow> 'm hresult) \<Rightarrow> (('s, 'm) handler, ('s, 'm) handler) bound_step \<Rightarrow> (('s, 'm) handler, ('s, 'm) handler) bound_step" where
  "pure_step h sc = sc\<lparr>bs_forward := \<lambda>iv e. (h iv, e), bs_unwind := map_option (\<lambda>f iv e. (h iv, e)) (bs_unwind sc)\<rparr>"

definition pure_def :: "('m invocation \<Rightarrow> 'm hresult) \<Rightarrow> ('s, 'm) edef \<Rightarrow> ('s, 'm) edef" where
  "pure_def h d = d\<lparr>bd_steps := map (\<lambda>(k, sc). (k, pure_step h sc)) (bd_steps d)\<rparr>"

text \<open>The environment \<open>env\<close> with the in-memory store, handlers that compute \<open>h\<close>, and no other goroutine.\<close>

definition mem_env :: "('m invocation \<Rightarrow> 'm hresult) \<Rightarrow> (mem_store, 'm) env \<Rightarrow> (mem_store, 'm) env" where
  "mem_env h env = env\<lparr>ev_ops := mem_ops, ev_yield := \<lambda>n e. e,
     ev_pipelines := (ev_pipelines env)\<lparr>fz_m := map (\<lambda>(p, d). (p, pure_def h d)) (fz_m (ev_pipelines env))\<rparr>\<rparr>"

text \<open>The same with cancel requests: at tick \<open>n\<close> other goroutines cancel the runs \<open>who n\<close>.\<close>

definition busy_env :: "(nat \<Rightarrow> run_id list) \<Rightarrow> ('m invocation \<Rightarrow> 'm hresult) \<Rightarrow> (mem_store, 'm) env \<Rightarrow> (mem_store, 'm) env" where
  "busy_env who h env = (mem_env h env)\<lparr>ev_yield := \<lambda>n e. cascade (mem_env h env) ''requested'' (who n) e\<rparr>"

lemma map_of_map_snd: "map_of (map (\<lambda>(k, v). (k, f v)) m) k = map_option f (map_of m k)"
  by (induction m) auto

lemma mem_env_sel [simp]:
  "ev_ops (mem_env h env) = mem_ops" "ev_yield (mem_env h env) n e = e"
  "Get p (ev_pipelines (mem_env h env)) = map_option (pure_def h) (Get p (ev_pipelines env))"
  by (simp_all add: mem_env_def Get_def map_of_map_snd)

lemma busy_env_sel [simp]:
  "ev_ops (busy_env who h env) = mem_ops" "ev_yield (busy_env who h env) n e = cascade (mem_env h env) ''requested'' (who n) e"
  "ev_pipelines (busy_env who h env) = ev_pipelines (mem_env h env)"
  by (simp_all add: busy_env_def)

lemma pure_def_stable:
  "Get p (ev_pipelines (mem_env h env)) = Some d \<Longrightarrow> gm_get (bd_steps d) k = Some sc \<Longrightarrow>
     stable sinv rec_of i e (snd (bs_forward sc iv e)) \<and> (\<forall>f. bs_unwind sc = Some f \<longrightarrow> stable sinv rec_of i e (snd (f iv e)))"
  by (auto simp: pure_def_def map_of_map_snd pure_step_def)

lemma run_store_mem: "so = mem_ops \<Longrightarrow> run_store so mem_inv mem_rec"
  using ms.run_store_axioms by simp

interpretation quiet: engine_client "mem_env h env" mem_inv mem_rec i for h :: "'m invocation \<Rightarrow> 'm hresult" and env i
proof (intro engine_client.intro engine_client_axioms.intro)
  show "run_store (ev_ops (mem_env h env)) mem_inv mem_rec" by (simp add: run_store_mem)
  show "keeps mem_inv mem_rec (mem_env h env) i" using pure_def_stable by (simp add: keeps_def) blast
qed

interpretation busy: engine_client "busy_env who h env" mem_inv mem_rec i for who and h :: "'m invocation \<Rightarrow> 'm hresult" and env i
proof (intro engine_client.intro engine_client_axioms.intro)
  show "run_store (ev_ops (busy_env who h env)) mem_inv mem_rec" by (simp add: run_store_mem)
  show "keeps mem_inv mem_rec (busy_env who h env) i"
    using pure_def_stable quiet.stable_cascade by (simp add: keeps_def) blast
qed

section \<open>A pipeline that runs\<close>

definition wit_pb :: "unit protobuf" where
  "wit_pb = \<lparr>pb_valid = \<lambda>m. True, pb_marshal = \<lambda>m. Inr [], pb_unmarshal = \<lambda>m b. Inr (), pb_equal = \<lambda>a b. True\<rparr>"

text \<open>A pipeline of one step that fails for good; the step is not unwound, so the run then ends as a failure.\<close>

definition wit_edef :: "('s, unit) edef" where
  "wit_edef = \<lparr>bd_cfg = \<lparr>cf_id = ''p'', cf_steps = [], cf_mutexes = [], cf_class = [], cf_run_class = [], cf_middleware = [],
       cf_new_input = None, cf_reduce = None, cf_reduce_failure = None\<rparr>,
     bd_steps = [(''a'', \<lparr>bs_step = \<lparr>ps_id = ''a'', ps_unwind = False, ps_retired = False, ps_has_state = False, ps_class = [], ps_run = None, ps_unwind_func = None\<rparr>,
       bs_forward = \<lambda>iv e. (HPanic [] [], e), bs_unwind = None\<rparr>)],
     bd_topo = [\<lparr>ls_id = ''a'', ls_unwind = False, ls_retired = False\<rparr>], bd_excludes = []\<rparr>"

definition wit_handler :: "unit invocation \<Rightarrow> unit hresult" where
  "wit_handler iv = HReturn None (Some (Fail (Some (GoErr ''disk'' None None [])) [])) []"

definition wit_env :: "(mem_store, unit) env" where
  "wit_env = mem_env wit_handler \<lparr>ev_ops = mem_ops, ev_pb = wit_pb, ev_pipelines = \<lparr>fz_frozen = True, fz_m = [(''p'', wit_edef)]\<rparr>,
     ev_run_class_queue = [], ev_text_limit = 64, ev_retry = \<lparr>rp_initial = 1, rp_max = 10, rp_multiplier = 2\<rparr>, ev_recovery_backoff = 1,
     ev_terminal_after = 1, ev_clock = \<lambda>n. 10 + int n, ev_rand = \<lambda>n. 0, ev_yield = \<lambda>n e. e, ev_new_run_id = \<lambda>n t. []\<rparr>"

definition wit_engine :: "(mem_store, unit) engine" where
  "wit_engine = the (Engine_New default_config \<lparr>ms_runs = [(''1'', wit_rec ''1'' ''p'')], ms_slots = [(''p'' @ [CHR 0x00] @ ''db'', ''1'')], ms_inflight = []\<rparr>)"

definition wit_view :: "duration \<times> bool \<times> (mem_store, unit) engine \<Rightarrow> (phase \<times> outcome option \<times> failure_kind option \<times> (step_id \<times> phase \<times> u64) list) option" where
  "wit_view x = (case x of (d, again, e) \<Rightarrow> map_option (\<lambda>r. (r_phase r, r_outcome r, map_option f_kind (r_failure r),
     map (\<lambda>(iv, s). (inv_step iv, inv_phase iv, inv_attempt iv)) (invokes ''1'' e))) (mem_rec (e_store e) ''1''))"

lemma wit_run: "Option.bind (processRun 3 wit_env ''1'' wit_engine) wit_view =
    Some (PhaseDone, Some OutcomeFailure, Some FailureKindSystem, [(''a'', PhaseForward, 1)])"
  by code_simp

lemma wit_step: "(case process_step wit_env ''1'' None wit_engine of (Carry rec, e) \<Rightarrow> r_phase rec = PhaseUnwind | _ \<Rightarrow> False)"
  by code_simp

lemma wit_topo: "topo_of wit_env p = (if p = ''p'' then [\<lparr>ls_id = ''a'', ls_unwind = False, ls_retired = False\<rparr>] else [])"
  by (simp add: topo_of_def wit_env_def) (simp add: Get_def pure_def_def wit_edef_def)

lemma wit_named: "named_steps wit_env"
  by (auto simp: named_steps_def wit_topo)

lemma wit_client: "run_store (ev_ops wit_env) mem_inv mem_rec" "keeps mem_inv mem_rec wit_env i"
  using quiet.keeps_run [where h = wit_handler and i = i] by (simp_all add: wit_env_def run_store_mem)

lemma wit_engine_store: "e_store wit_engine = \<lparr>ms_runs = [(''1'', wit_rec ''1'' ''p'')], ms_slots = [(''p'' @ [CHR 0x00] @ ''db'', ''1'')], ms_inflight = []\<rparr>"
  by (simp add: wit_engine_def Engine_New_def Dispatcher.New_def default_config_def)

lemma wit_engine_rec: "mem_inv (e_store wit_engine)" "mem_rec (e_store wit_engine) ''1'' = Some (wit_rec ''1'' ''p'')"
proof -
  show "mem_inv (e_store wit_engine)"
    by (simp add: wit_engine_store mem_inv_def gm_ok_def wit_rec_def terminal_def nul_free_def slotKey_def)
  show "mem_rec (e_store wit_engine) ''1'' = Some (wit_rec ''1'' ''p'')" by (simp add: wit_engine_store)
qed

lemma wit_start: "run_start (abs_run (wit_rec i p))"
  by (simp add: run_start_def abs_run_def wit_rec_def fun_eq_iff rec_op_def rec_step_def)

lemma wit_ran:
  obtains d again e r where "processRun 3 wit_env ''1'' wit_engine = Some (d, again, e)" and "mem_rec (e_store e) ''1'' = Some r"
    and "r_outcome r = Some OutcomeFailure"
    and "map (\<lambda>(iv, s). (inv_step iv, inv_phase iv, inv_attempt iv)) (invokes ''1'' e) = [(''a'', PhaseForward, 1)]"
proof -
  obtain x where x: "processRun 3 wit_env ''1'' wit_engine = Some x"
    and v: "wit_view x = Some (PhaseDone, Some OutcomeFailure, Some FailureKindSystem, [(''a'', PhaseForward, 1)])"
    using wit_run by (auto simp: Option.bind_eq_Some_conv)
  obtain d again e where "x = (d, again, e)" by (metis prod_cases3)
  then show thesis using that x v by (auto simp: wit_view_def)
qed

section \<open>Properties\<close>

lemma standing_start:
  assumes "sinv (e_store e)" and "rec_of (e_store e) i = Some r"
  shows "standing sinv rec_of topo (abs_run r) i None e"
  using assms by (simp add: standing_def ends_def carried_ok_def)

lemma client_of: "run_store (ev_ops env) sinv rec_of \<Longrightarrow> keeps sinv rec_of env i \<Longrightarrow> engine_client env sinv rec_of i"
  by (simp add: engine_client.intro engine_client_axioms.intro)

text \<open>Claim C1. The worker implements the run machine: whatever other goroutines do meanwhile, a worker that takes up
  a run and returns has moved the stored record along a path of the machine, and a record that is gone
  from the store had reached an outcome.\<close>

theorem worker_refines:
  assumes "run_store (ev_ops env) sinv rec_of" and "keeps sinv rec_of env i" and "named_steps env"
    and "sinv (e_store e)" and "rec_of (e_store e) i = Some r" and "processRun fuel env i e = Some (d, again, e')"
  shows "sinv (e_store e') \<and> (case rec_of (e_store e') i of
      Some r' \<Rightarrow> run_path (topo_of env (r_pipeline r)) (abs_run r) (abs_run r')
    | None \<Rightarrow> (\<exists>a. run_path (topo_of env (r_pipeline r)) (abs_run r) a \<and> ra_outcome a \<noteq> None))"
  using engine_client.process_loop_standing [OF client_of [OF assms(1,2)] standing_start [of sinv e rec_of i r] assms(3), of _ fuel d again e'] assms(4-6)
  by (auto simp: processRun_def ends_def)

theorem worker_refines_witness:
  "\<exists>d again e' r'. processRun 3 wit_env ''1'' wit_engine = Some (d, again, e') \<and> mem_rec (e_store e') ''1'' = Some r' \<and>
     r_outcome r' = Some OutcomeFailure \<and> run_path (topo_of wit_env ''p'') (abs_run (wit_rec ''1'' ''p'')) (abs_run r')"
proof -
  obtain d again e r where w: "processRun 3 wit_env ''1'' wit_engine = Some (d, again, e)" "mem_rec (e_store e) ''1'' = Some r"
    "r_outcome r = Some OutcomeFailure" "map (\<lambda>(iv, s). (inv_step iv, inv_phase iv, inv_attempt iv)) (invokes ''1'' e) = [(''a'', PhaseForward, 1)]"
    by (rule wit_ran)
  from worker_refines [OF wit_client wit_named wit_engine_rec w(1)] w show ?thesis by (auto simp: wit_rec_def)
qed

text \<open>Claim C2. A handler is called only on a durable reservation: at the time of every call a worker makes, the store
  holds the operation as unresolved with the attempt number the call carries, one past the attempts of a
  record the run had reached, and the call's inputs, states, wake and failure are those of the stored
  record; a forward call was decided on a record without a cancel request.\<close>

theorem worker_calls_reserved:
  assumes "run_store (ev_ops env) sinv rec_of" and "keeps sinv rec_of env i" and "named_steps env"
    and "sinv (e_store e)" and "rec_of (e_store e) i = Some r" and "processRun fuel env i e = Some (d, again, e')"
  shows "\<exists>new. invokes i e' = invokes i e @ new \<and> length new \<le> fuel \<and> durable_calls rec_of (topo_of env (r_pipeline r)) (abs_run r) new"
  using engine_client.process_loop_standing [OF client_of [OF assms(1,2)] standing_start [of sinv e rec_of i r] assms(3), of _ fuel d again e'] assms(4-6)
  by (auto simp: processRun_def)

theorem worker_calls_reserved_witness:
  "\<exists>d again e' iv s. processRun 3 wit_env ''1'' wit_engine = Some (d, again, e') \<and> invokes ''1'' e' = invokes ''1'' wit_engine @ [(iv, s)] \<and>
     inv_step iv = ''a'' \<and> inv_attempt iv = 1 \<and> durable_calls mem_rec (topo_of wit_env ''p'') (abs_run (wit_rec ''1'' ''p'')) [(iv, s)]"
proof -
  obtain d again e r where w: "processRun 3 wit_env ''1'' wit_engine = Some (d, again, e)" "mem_rec (e_store e) ''1'' = Some r"
    "r_outcome r = Some OutcomeFailure" "map (\<lambda>(iv, s). (inv_step iv, inv_phase iv, inv_attempt iv)) (invokes ''1'' e) = [(''a'', PhaseForward, 1)]"
    by (rule wit_ran)
  have none: "invokes ''1'' wit_engine = []"
    by (simp add: invokes_def wit_engine_def Engine_New_def Dispatcher.New_def default_config_def List.map_filter_def)
  from worker_calls_reserved [OF wit_client wit_named wit_engine_rec w(1)] w(1,4) none show ?thesis by (auto simp: wit_rec_def)
qed

text \<open>Claim C5. A worker keeps the shape of a run and what was settled: in the forward phase there is no failure and no
  unwind; in the unwind phase exactly the failing step failed, its operation carries the run's failure, and
  only steps that succeeded are unwound; a terminal run has the outcome its failure calls for. A resolved
  operation never changes before the run is terminal, a terminal run never, and the failure stays.\<close>

theorem worker_keeps_shape:
  assumes "run_store (ev_ops env) sinv rec_of" and "keeps sinv rec_of env i" and "named_steps env"
    and "sinv (e_store e)" and "rec_of (e_store e) i = Some r" and "run_wf (abs_run r)"
    and "processRun fuel env i e = Some (d, again, e')" and "rec_of (e_store e') i = Some r'"
  shows "run_wf (abs_run r') \<and> run_keeps (abs_run r) (abs_run r')"
proof -
  have "run_path (topo_of env (r_pipeline r)) (abs_run r) (abs_run r')"
    using engine_client.process_loop_standing [OF client_of [OF assms(1,2)] standing_start [of sinv e rec_of i r] assms(3), of _ fuel d again e'] assms(4,5,7,8)
    by (auto simp: processRun_def ends_def)
  then show ?thesis using run_path_wf run_path_keeps assms(6) by blast
qed

theorem worker_keeps_shape_witness:
  "\<exists>d again e' r'. processRun 3 wit_env ''1'' wit_engine = Some (d, again, e') \<and> mem_rec (e_store e') ''1'' = Some r' \<and>
     run_wf (abs_run r') \<and> run_keeps (abs_run (wit_rec ''1'' ''p'')) (abs_run r')"
proof -
  obtain d again e r where w: "processRun 3 wit_env ''1'' wit_engine = Some (d, again, e)" "mem_rec (e_store e) ''1'' = Some r"
    "r_outcome r = Some OutcomeFailure" "map (\<lambda>(iv, s). (inv_step iv, inv_phase iv, inv_attempt iv)) (invokes ''1'' e) = [(''a'', PhaseForward, 1)]"
    by (rule wit_ran)
  from worker_keeps_shape [OF wit_client wit_named wit_engine_rec run_start_wf [OF wit_start] w(1,2)] w show ?thesis by blast
qed

text \<open>Claim C10. The record a worker carries into its next iteration without reading the store again is the stored one, up
  to a cancel request recorded meanwhile; after a terminal commit the store holds its compaction.\<close>

theorem worker_carries_stored:
  assumes "run_store (ev_ops env) sinv rec_of" and "keeps sinv rec_of env i" and "named_steps env"
    and "sinv (e_store e)" and "rec_of (e_store e) i = Some r" and "\<not> terminal r" and "carried_ok carried r"
    and "process_step env i carried e = (Carry rec, e')"
  shows "r_run rec = i \<and> (if terminal rec then \<exists>c. rec_of (e_store e') i = Some (compact_terminal (rec\<lparr>r_cancel := c\<rparr>))
    else \<exists>c. rec_of (e_store e') i = Some (rec\<lparr>r_cancel := c\<rparr>) \<and> (r_cancel rec \<noteq> None \<longrightarrow> c = r_cancel rec))"
proof -
  let ?topo = "topo_of env (r_pipeline r)"
  obtain L' where it: "iterates sinv rec_of ?topo (abs_run r) L' i (Carry rec, e')"
    using engine_client.process_iterates [OF client_of [OF assms(1,2)] assms(4-7,3) rtranclp.rtrancl_refl refl] assms(8) by auto
  show ?thesis
  proof (cases "terminal rec")
    case True
    then show ?thesis using it by (simp add: iterates_def)
  next
    case False
    then have c: "carries sinv rec_of ?topo (abs_run r) L' rec e'" "r_run rec = i" using it by (simp_all add: iterates_def)
    then show ?thesis using carries_stored [OF c(1)] False by simp
  qed
qed

theorem worker_carries_stored_witness:
  "\<exists>rec e'. process_step wit_env ''1'' None wit_engine = (Carry rec, e') \<and> r_phase rec = PhaseUnwind \<and>
     (\<exists>c. mem_rec (e_store e') ''1'' = Some (if terminal rec then compact_terminal (rec\<lparr>r_cancel := c\<rparr>) else rec\<lparr>r_cancel := c\<rparr>))"
proof -
  obtain rec e' where w: "process_step wit_env ''1'' None wit_engine = (Carry rec, e')" "r_phase rec = PhaseUnwind"
    using wit_step by (cases "process_step wit_env ''1'' None wit_engine") (auto split: iteration.splits)
  have "\<not> terminal (wit_rec ''1'' ''p'')" "carried_ok None (wit_rec ''1'' ''p'')" by (simp_all add: terminal_def wit_rec_def carried_ok_def)
  from worker_carries_stored [OF wit_client wit_named wit_engine_rec this w(1)] w show ?thesis by (auto split: if_splits)
qed

text \<open>A request of the engine that the store records leaves the run's dirty mark set.\<close>

lemma accepted_cancel_marks:
  assumes "Now env e = (now, e1)" and "st_cancel env i \<lparr>cr_cause = boundText (ev_text_limit env) cause, cr_at = now\<rparr> e1 = (Inr True, e2)"
  shows "i \<in> ds_marked (e_dirty (snd (requestCancel env i cause e)))"
  using assms by (simp add: requestCancel_def Let_def dirty_Mark_def preemptAttempt_def dispatch_def ctx_cancel_def split: option.split)

text \<open>Claim C11. A durable cancel request stops forward work: a worker that reads the run after the request was recorded, because it
  takes the run up or because it finds the dirty mark that an accepted request leaves, calls no forward handler in that
  iteration nor in any later one, whatever other goroutines do meanwhile. (It leaves out the iteration of a worker that read its record
  before the request and took the mark before it was set: that one may still make the forward call it had
  decided on, and the next iteration reads the mark.)\<close>

theorem cancel_stops_forward:
  assumes "run_store (ev_ops env) sinv rec_of" and "keeps sinv rec_of env i" and "named_steps env"
    and "sinv (e_store e)" and "rec_of (e_store e) i = Some r" and "\<not> terminal r" and "carried_ok carried r"
    and "r_cancel r \<noteq> None" and "carried = None \<or> i \<in> ds_marked (e_dirty e)"
    and "iterations env i (carried, e) (carried1, e1)" and "process_step env i carried1 e1 = (it, e')"
  shows "\<exists>new. invokes i e' = invokes i e @ new \<and> list_all (\<lambda>(iv, s). inv_phase iv \<noteq> PhaseForward) new"
proof -
  note cl = client_of [OF assms(1,2)]
  have st: "standing sinv rec_of (topo_of env (r_pipeline r)) (abs_run r) i carried e"
    using assms(4-7) by (simp add: standing_def ends_def)
  have sf: "stops_forward rec_of i carried e" using assms(5,8,9) by (simp add: stops_forward_def)
  have topo: "topo_of env (r_pipeline r) = topo_of env (ra_pipeline (abs_run r))" by (simp add: abs_run_def)
  obtain new where new: "invokes i e1 = invokes i e @ new" "spares_forward new"
    "standing sinv rec_of (topo_of env (r_pipeline r)) (abs_run r) i carried1 e1" "stops_forward rec_of i carried1 e1"
    using engine_client.iterations_spare_forward [OF cl assms(10) _ _ assms(3) topo] st sf by auto
  obtain new' where "invokes i e' = invokes i e1 @ new'" "spares_forward new'"
    using engine_client.process_spares_forward [OF cl new(3) assms(3) topo assms(11) new(4)] by blast
  then show ?thesis using new(1,2) spares_forward_append
    by (intro exI [of _ "new @ new'"]) (auto simp: spares_forward_def)
qed

text \<open>The run of the example, canceled before its worker takes it up: the second iteration ends it.\<close>

definition wit_canceled :: "(mem_store, unit) engine" where
  "wit_canceled = wit_engine\<lparr>e_store := snd (RequestCancel (e_store wit_engine) ''1'' \<lparr>cr_cause = ''stop'', cr_at = 5\<rparr>)\<rparr>"

lemma wit_canceled_steps: "(case process_step wit_env ''1'' None wit_canceled of
    (Carry rec, e1) \<Rightarrow> (case process_step wit_env ''1'' (Some rec) e1 of (it, e2) \<Rightarrow>
       r_phase rec = PhaseUnwind \<and> map_option r_outcome (mem_rec (e_store e2) ''1'') = Some (Some OutcomeFailure))
  | _ \<Rightarrow> False)"
  by code_simp

theorem cancel_stops_forward_witness:
  "\<exists>rec e1 it e2 new. process_step wit_env ''1'' None wit_canceled = (Carry rec, e1) \<and> process_step wit_env ''1'' (Some rec) e1 = (it, e2) \<and>
     map_option r_outcome (mem_rec (e_store e2) ''1'') = Some (Some OutcomeFailure) \<and>
     invokes ''1'' e2 = invokes ''1'' wit_canceled @ new \<and> list_all (\<lambda>(iv, s). inv_phase iv \<noteq> PhaseForward) new"
proof -
  let ?r = "(wit_rec ''1'' ''p'')\<lparr>r_cancel := Some \<lparr>cr_cause = ''stop'', cr_at = 5\<rparr>\<rparr>"
  have r: "mem_rec (e_store wit_canceled) ''1'' = Some ?r" "mem_inv (e_store wit_canceled)"
    using RequestCancel_law [OF wit_engine_rec(1), of "''1''" "\<lparr>cr_cause = ''stop'', cr_at = 5\<rparr>"]
    by (auto simp: wit_canceled_def wit_engine_store RequestCancel_def wit_rec_def terminal_def)
  have h: "\<not> terminal ?r" "carried_ok None ?r" "r_cancel ?r \<noteq> None" by (simp_all add: terminal_def wit_rec_def carried_ok_def)
  obtain rec e1 where s1: "process_step wit_env ''1'' None wit_canceled = (Carry rec, e1)"
    using wit_canceled_steps by (auto split: prod.splits iteration.splits)
  obtain it e2 where s2: "process_step wit_env ''1'' (Some rec) e1 = (it, e2)" by fastforce
  have out: "map_option r_outcome (mem_rec (e_store e2) ''1'') = Some (Some OutcomeFailure)" using wit_canceled_steps s1 s2 by simp
  have it: "iterations wit_env ''1'' (None, wit_canceled) (Some rec, e1)" by (rule iterations.more [OF iterations.start s1])
  from cancel_stops_forward [OF wit_client wit_named r(2,1) h disjI1 [OF refl] it s2] s1 s2 out show ?thesis by blast
qed

text \<open>Claim C14. Workers of different runs do not interfere: an iteration for run \<open>j\<close> changes the record of another run at most
  by recording a cancel request on it, and calls none of its handlers.\<close>

theorem workers_do_not_interfere:
  assumes "run_store (ev_ops env) sinv rec_of" and "keeps sinv rec_of env i" and "j \<noteq> i"
    and "\<forall>rec. carried = Some rec \<longrightarrow> r_run rec = j" and "sinv (e_store e)" and "process_step env j carried e = (it, e')"
  shows "sinv (e_store e') \<and> only_cancels (rec_of (e_store e) i) (rec_of (e_store e') i) \<and> invokes i e' = invokes i e"
  using engine_client.stable_process_other [OF client_of [OF assms(1,2)] assms(3), of carried e] assms(4-6) by (simp add: stable_def)

text \<open>A store with two runs; the worker of the first calls a handler.\<close>

definition wit_two :: "(mem_store, unit) engine" where
  "wit_two = wit_engine\<lparr>e_store := \<lparr>ms_runs = [(''1'', wit_rec ''1'' ''p''), (''2'', wit_rec ''2'' ''q'')],
     ms_slots = [(''p'' @ [CHR 0x00] @ ''db'', ''1''), (''q'' @ [CHR 0x00] @ ''db'', ''2'')], ms_inflight = []\<rparr>\<rparr>"

lemma wit_two_rec: "mem_inv (e_store wit_two)" "mem_rec (e_store wit_two) ''2'' = Some (wit_rec ''2'' ''q'')"
proof -
  show "mem_inv (e_store wit_two)"
    by (simp add: wit_two_def mem_inv_def gm_ok_def wit_rec_def terminal_def nul_free_def slotKey_def)
  show "mem_rec (e_store wit_two) ''2'' = Some (wit_rec ''2'' ''q'')" by (simp add: wit_two_def)
qed

lemma wit_two_step: "length (invokes ''1'' (snd (process_step wit_env ''1'' None wit_two))) = 1"
  by code_simp

theorem workers_do_not_interfere_witness:
  "\<exists>e'. e' = snd (process_step wit_env ''1'' None wit_two) \<and> length (invokes ''1'' e') = 1 \<and> mem_inv (e_store e') \<and>
     only_cancels (Some (wit_rec ''2'' ''q'')) (mem_rec (e_store e') ''2'') \<and> invokes ''2'' e' = invokes ''2'' wit_two"
proof -
  obtain it e' where s: "process_step wit_env ''1'' None wit_two = (it, e')" by fastforce
  from workers_do_not_interfere [OF wit_client _ _ wit_two_rec(1) s, of "''2''"] s wit_two_rec(2) wit_two_step show ?thesis by simp
qed

end
