(* ===== verification/Spec2Isabelle.thy ===== *)
theory Spec2Isabelle
  imports Ledger Mem_Store Storage Blobcache Bolt_Contract Registry Observer Testkit Generate Otel Perf Engine_Props Engine_Api
begin

text \<open>
  Verification development of the durable execution engine (\<^verbatim>\<open>dangra/durable\<close>).

  \<^bold>\<open>The program.\<close> An application declares pipelines of steps and binds them to an engine. Scheduling a
  run of a pipeline on a resource stores a run record; a worker takes the run up, reconciles the stored
  facts with the pipeline's topology, and runs one operation after another: forward until every step
  succeeded or one failed for good, then the unwinds of the steps that succeeded, in reverse, and last a
  reducer and the terminal commit. Before a handler is called its attempt is durably reserved, so that a
  crash loses no fact. Runs may be delayed, retried with backoff, parked on other runs, throttled by
  concurrency classes, queued by run classes and canceled; a run whose facts do not fit the deployment
  is invalid and left alone.

  \<^bold>\<open>The theories.\<close>
  \<^item> \<open>Prelude\<close>: identifier types, Go maps as association lists, Go time, shared lemmas and collections.
  \<^item> \<open>Kernel\<close> (\<^verbatim>\<open>src/kernel/kernel.go\<close>): phases, outcomes, failures, parks and wakes.
  \<^item> \<open>Resolution\<close> (\<^verbatim>\<open>src/fail.go\<close>, \<^verbatim>\<open>src/await.go\<close>): the errors a handler returns and how they are read back.
  \<^item> \<open>Ledger\<close> (\<^verbatim>\<open>src/internal/ledger/ledger.go\<close>): the decision what to run next. Its lemmas give the order
    in which repeated decisions run the steps, forward and backward, when a run is invalid, and that the
    iteration order of Go's maps does not matter.
  \<^item> \<open>Driver\<close>, \<open>Store_Spec\<close> (\<^verbatim>\<open>src/store/driver/driver.go\<close>): run records, transitions, and the store contract as
    the locale \<open>run_store\<close>, with what a client may rely on over every history of store calls.
  \<^item> \<open>Mem_Store\<close> (\<^verbatim>\<open>src/store/mem/mem.go\<close>): every method of the in-memory store, its invariant, and the
    interpretation of \<open>run_store\<close> on it.
  \<^item> \<open>Storage\<close> (\<^verbatim>\<open>src/store/internal/storagepb/convert.go\<close>): the conversions between records and protobuf messages,
    with the round trips of every row and of the terminal record.
  \<^item> \<open>Blobcache\<close> (\<^verbatim>\<open>src/store/bbolt/blobcache.go\<close>): the cache of the bbolt store, with its accounting, its eviction
    and the coherence of what it holds.
  \<^item> \<open>Bolt_Keys\<close>, \<open>Bolt_Store\<close> (\<^verbatim>\<open>src/store/bbolt/store.go\<close>): the keys of the bbolt store with their order, and every method
    of it, the drains and its opening, as actions on a transaction of the bbolt library, a parameter. \<open>Bolt_Rules\<close> states what is relied on of
    the library and gives one rule per action; \<open>Bolt_Inv\<close> is the invariant of the buckets and what keeps it; \<open>Bolt_History\<close> shows
    it over every sequence of calls, drains, failures and restarts; \<open>Bolt_Example\<close> is a database and a
    codec on which the witnesses are evaluated; \<open>Bolt_Props\<close> states the properties, among them that no read can tell whether a terminal run has been drained.
  \<^item> \<open>Bolt_Rows\<close>, \<open>Bolt_Refine\<close>, \<open>Bolt_Create\<close>, \<open>Bolt_Ended\<close>, \<open>Bolt_Sim\<close>, \<open>Bolt_Trace\<close>, \<open>Bolt_Head\<close>, \<open>Bolt_Contract\<close>: the bbolt
    store against the contract of a store. \<open>Bolt_Rows\<close> says what the rows of a run stand for and that reading them gives that; \<open>Bolt_Refine\<close>,
    \<open>Bolt_Create\<close> and \<open>Bolt_Ended\<close> what each write makes of them; \<open>Bolt_Sim\<close> relates a state of the store, its caches included, to
    the contents, one record and cursor per run; \<open>Bolt_Trace\<close> and \<open>Bolt_Head\<close> follow each method; \<open>Bolt_Contract\<close> shows that every
    history of calls and answers is one the contract allows. What it asks of the client is \<open>proper\<close> there:
    fresh ids, names without a NUL, and that a transition which is not the last writes the operation the run's cursor had in
    flight unless its own cursor goes on with it, because the store keeps such an operation in the cursor row alone. The engine's transitions do, by
    the flushing loop of \<^verbatim>\<open>apply\<close>: \<open>engine_flushes\<close> below.
  \<^item> \<open>Tokenpool\<close>, \<open>Runpool\<close>, \<open>Joinset\<close>, \<open>Signals\<close>, \<open>Dispatcher\<close> (\<^verbatim>\<open>src/internal/\<close>, \<^verbatim>\<open>src/engine/signals.go\<close>): the
    engine's in-memory structures, each with an invariant over every sequence of its operations; the
    dispatcher as a step relation over the critical sections and channel operations of its goroutines.
  \<^item> \<open>Ids\<close>, \<open>Invocation\<close>, \<open>Bind\<close> (\<^verbatim>\<open>src/engine/ids.go\<close>, \<^verbatim>\<open>src/engine/invocation.go\<close>, \<^verbatim>\<open>src/engine/bind.go\<close>,
    \<^verbatim>\<open>src/engine/middleware.go\<close>, \<^verbatim>\<open>src/pipelinedef\<close>): stored text, what a handler and a reducer see,
    definitions, middleware, binding and mutex resolution.
  \<^item> \<open>Engine_State\<close>, \<open>Engine_Await\<close>, \<open>Engine_Run\<close>, \<open>Engine_Api\<close> (\<^verbatim>\<open>src/engine/engine.go\<close>, \<^verbatim>\<open>pipeline.go\<close>, \<^verbatim>\<open>run.go\<close>,
    \<^verbatim>\<open>lookup.go\<close>, \<^verbatim>\<open>observer.go\<close>): the engine's state, the class gates, cancel requests, parks, the durable
    transition, the worker loop, construction, start, stop, retention, scheduling and observation.
  \<^item> \<open>Observer\<close> (\<^verbatim>\<open>src/observe/observe.go\<close>, \<^verbatim>\<open>src/engine/observer.go\<close>): the events, the fan-out to callbacks with its recovery
    of panics, and the decorator that reports every call of a store: a panic outside the recovery is a value that ends the call, and
    the properties show that none leaves it, that its answers and records are those of the store, and which events it reports.
  \<^item> \<open>Registry\<close> (\<^verbatim>\<open>src/store/store.go\<close>, \<^verbatim>\<open>src/store/bbolt/open.go\<close>, \<^verbatim>\<open>src/store/mem/open.go\<close>): opening a store from a
    URI, with the options of the bbolt store and their byte counts.
  \<^item> \<open>Generate\<close> (\<^verbatim>\<open>src/cmd/protoc-gen-durable/internal/gen/gen.go\<close>): what the code generator collects and
    accepts, and that what it accepts binds to an engine.
  \<^item> \<open>Otel\<close> (\<^verbatim>\<open>src/contrib/durableotel\<close>): the OpenTelemetry adapter, whose middleware is transparent and whose metrics are
    the documented ones: for each event, which instruments take which value under which labels, none of them a run's or a resource's id.
  \<^item> \<open>Perf\<close> (\<^verbatim>\<open>src/internal/perfcompare/main.go\<close>): the gate over two benchmark outputs, with 64-bit floating point written
    out, and when exactly it passes, against a reading of the limits that shares no definition with the program.
  \<^item> \<open>Testkit\<close> (\<^verbatim>\<open>src/durabletest\<close>): the fake invocation, which answers as the engine's does, and the fake clock.
  \<^item> \<open>Engine_Rely\<close>, \<open>Engine_Spec\<close>, \<open>Engine_Sync\<close>, \<open>Engine_Worker\<close>, \<open>Engine_Loop\<close>, \<open>Engine_Props\<close>: the correctness of the
    worker. \<open>Engine_Rely\<close> says what goroutines may do to each other and shows that everything but a run's own
    worker keeps to it. \<open>Engine_Spec\<close> is the abstract machine of a run. \<open>Engine_Sync\<close> shows that each write of the
    worker turns the stored record into the one in memory. \<open>Engine_Worker\<close> and \<open>Engine_Loop\<close> follow the worker's
    functions and its loop, in the locale \<open>engine_client\<close>, and \<open>Engine_Props\<close> states the properties and
    interprets the locale on the in-memory store.

  \<^bold>\<open>State and effects.\<close> The engine is a record that every operation passes on, with the store's state in it.
  The clock and the random source are sequences of readings. Other goroutines are a function of the
  environment, applied before every store call and at every iteration of a worker; a handler is a
  function of its invocation and the engine state. The theorems on the worker hold for every store that
  satisfies \<open>run_store\<close> and every environment that satisfies \<open>keeps\<close>. Errors of the store are values, a Go panic
  outside a handler is a flag of the state, and a panic inside one is a value, as the engine recovers it.
  Attempt counters are 64-bit and resolution orders 32-bit words.

  \<^bold>\<open>Bounds.\<close> The worker loop takes a bound on its iterations, because a handler that parks on finished runs
  forever keeps it going; the theorems on it hold for every bound at which it returns, and
  each iteration is a total function. The drain of the bbolt store takes a bound on its rounds; one more than the number of staged runs
  over the batch of 256 is enough, which is proved. The walk for await cycles, the sorts and the scans are total.

  \<^bold>\<open>Simplified.\<close> The retry backoff is computed over the rationals where the source uses \<^verbatim>\<open>float64\<close>; no property depends on its
  value. A second run of the function given to bbolt's \<^verbatim>\<open>Batch\<close>, which the library makes when another function of the same batch
  fails, is not a branch of \<open>bolt_CreateRun\<close>; it would find \<^verbatim>\<open>created\<close> and \<^verbatim>\<open>existing\<close> as the first run left them.
  Each call of a store is one step. Transactions of bbolt that write are serialized by the library, so this loses no
  interleaving of the rows, and the histories of the bbolt store let the batches of a background drain, one transaction each, come between
  the calls; \<open>Drain\<close> itself is modelled as the loop it is, without another writer inside. The quoting of names in error texts (\<^verbatim>\<open>%q\<close>) is left out.

  \<^bold>\<open>Not modelled.\<close> Log lines; the engine records the events it emits as a list and leaves their callbacks to \<open>Observer\<close>; the
  sleeping half of the retention loop and the join of goroutines in \<^verbatim>\<open>Stop\<close>; the generation of run ids (the
  ulid library, a parameter), protobuf and bbolt (parameters);
  the text of generated code, of which \<open>Generate\<close> has the meaning of the constructor; the OpenTelemetry library and the parser of
  floating point numbers (parameters); the examples.
\<close>

section \<open>Across components\<close>

text \<open>
  A step can commit an empty state, which its record keeps apart from no state; the storage
  encoding does not, so a record read back from storage has lost it.
\<close>

lemma empty_state_lost:
  assumes "proto_lib_ok lib" and "or_status op = OpSucceeded" and "or_state op = Some []" and "MarshalOperationRecord lib op = Inr b"
    and "r_steps rec = [(k, sr\<lparr>sr_forward := op\<rparr>)]"
  shows "gm_get (committedStates rec) k = Some []
    \<and> (\<exists>op'. UnmarshalOperationRecord lib b = Inr op'
         \<and> gm_get (committedStates (rec\<lparr>r_steps := [(k, sr\<lparr>sr_forward := op'\<rparr>)]\<rparr>)) k = None)"
  using assms by (simp add: committedStates_def List.map_filter_def operation_row_roundtrip nil_bytes_def)

text \<open>
  The engine keeps to what the bbolt store asks of a transition: an operation the stored cursor has in flight, unresolved in
  the engine's record, is among those written when the new cursor is of another step.
\<close>

lemma flush_op_covers: "or_status (sr_op p sr) = OpUnresolved \<Longrightarrow> list_ex (\<lambda>ow. ow_step ow = k \<and> ow_phase ow = p) (flush_op k sr p ops)"
  "list_ex Q ops \<Longrightarrow> list_ex Q (flush_op k sr p ops)"
  by (simp_all add: flush_op_def)

lemma flush_ops_grows: "list_ex Q ops \<Longrightarrow> list_ex Q (flush_ops cur m ops)"
  by (induction cur m ops rule: flush_ops.induct) (simp_all add: flush_op_covers(2))

lemma flush_ops_covers:
  assumes "or_status (sr_op p sr) = OpUnresolved" and "p = PhaseForward \<or> p = PhaseUnwind" and "k \<noteq> cur"
  shows "(k, sr) \<in> set m \<Longrightarrow> list_ex (\<lambda>ow. ow_step ow = k \<and> ow_phase ow = p) (flush_ops cur m ops)"
proof (induction m arbitrary: ops)
  case (Cons x m)
  show ?case
  proof (cases "x = (k, sr)")
    case True
    then show ?thesis using assms flush_op_covers(1) [of p sr k] flush_op_covers(2) by (auto intro!: flush_ops_grows)
  next
    case False
    then show ?thesis using Cons by (cases x) auto
  qed
qed simp

lemma engine_flushes:
  assumes "gm_ok (r_steps rec)" and "gm_get (r_steps rec) (cu_step c) = Some sr" and "or_status (sr_op (cu_phase c) sr) = OpUnresolved"
    and "cu_phase c = PhaseForward \<or> cu_phase c = PhaseUnwind" and "cu_step (t_cursor t) \<noteq> cu_step c"
  shows "flushes c (flushed t rec now)"
  using flush_ops_covers [OF assms(3,4) assms(5) [symmetric]] assms(2) gm_get_mem [OF assms(1)] by (auto simp: flushes_def flushed_def)

end
